(* ===== verification/Prelude.thy ===== *)
theory Prelude
  imports Main "HOL-Library.Word" "HOL-Library.While_Combinator"
begin

text \<open>
  Shared material of the development: the program monad in which the C functions of the kernel
  are written, its loops, and the rules by which the component theories reason about it.

  A program over a state type \<open>'s\<close> takes a state and has one of four outcomes:
  \<^item> \<open>Ret x s\<close>: the C function returns \<open>x\<close> and leaves the state \<open>s\<close>;
  \<^item> \<open>Panic msg\<close>: the function called \<open>panic(msg)\<close>, which prints and halts the machine;
  \<^item> \<open>Switched s\<close>: the kernel thread gave up the processor in state \<open>s\<close> and is not resumed
    (the fate of an exiting process, or of a sleeper that nobody wakes);
  \<^item> \<open>Spin\<close>: the function never returns (a busy-wait that never ends).
\<close>

section \<open>Collections\<close>

named_theorems exec_simps "equations that execute the program combinators"
named_theorems keeps_intros "rules that a program keeps a predicate of the state"
named_theorems kernel_defs "definitions of small kernel helpers, unfolded together"

section \<open>Outcomes and programs\<close>

datatype ('s, 'a) outcome =
    Ret (ret_val: 'a) (ret_state: 's)
  | Panic string
  | Switched (switched_state: 's)
  | Spin

type_synonym ('s, 'a) prog = "'s \<Rightarrow> ('s, 'a) outcome"

definition kret :: "'a \<Rightarrow> ('s, 'a) prog" where
  "kret x = (\<lambda>s. Ret x s)"

definition kbind :: "('s, 'a) prog \<Rightarrow> ('a \<Rightarrow> ('s, 'b) prog) \<Rightarrow> ('s, 'b) prog" where
  "kbind m f = (\<lambda>s. case m s of
       Ret x s' \<Rightarrow> f x s'
     | Panic e \<Rightarrow> Panic e
     | Switched s' \<Rightarrow> Switched s'
     | Spin \<Rightarrow> Spin)"

definition panic :: "string \<Rightarrow> ('s, 'a) prog" where
  "panic msg = (\<lambda>s. Panic msg)"

text \<open>Read a component of the state; change the state; continue with the current state at hand.\<close>

definition kget :: "('s \<Rightarrow> 'a) \<Rightarrow> ('s, 'a) prog" where
  "kget g = (\<lambda>s. Ret (g s) s)"

definition kmod :: "('s \<Rightarrow> 's) \<Rightarrow> ('s, unit) prog" where
  "kmod f = (\<lambda>s. Ret () (f s))"

definition kwith :: "('s \<Rightarrow> ('s, 'a) prog) \<Rightarrow> ('s, 'a) prog" where
  "kwith f = (\<lambda>s. f s s)"

definition kwhen :: "bool \<Rightarrow> ('s, unit) prog \<Rightarrow> ('s, unit) prog" where
  "kwhen b m = (if b then m else kret ())"

text \<open>A block of statements: each is run for its effect, in order.\<close>

primrec kseq :: "('s, unit) prog list \<Rightarrow> ('s, unit) prog" where
  "kseq [] = kret ()"
| "kseq (m # ms) = kbind m (\<lambda>_. kseq ms)"

text \<open>A counted loop whose body always falls through to the next round.\<close>

primrec kfor :: "'i list \<Rightarrow> ('i \<Rightarrow> ('s, unit) prog) \<Rightarrow> ('s, unit) prog" where
  "kfor [] f = kret ()"
| "kfor (i # is) f = kbind (f i) (\<lambda>_. kfor is f)"

text \<open>
  A counted loop that may be left early: the body says \<open>None\<close> to go on and \<open>Some r\<close> to leave
  the loop with \<open>r\<close> (a \<open>return\<close>, \<open>break\<close> or \<open>goto\<close> out of the loop).
\<close>

primrec kscan :: "'i list \<Rightarrow> ('i \<Rightarrow> ('s, 'r option) prog) \<Rightarrow> ('s, 'r option) prog" where
  "kscan [] f = kret None"
| "kscan (i # is) f =
     kbind (f i) (\<lambda>r. case r of None \<Rightarrow> kscan is f | Some x \<Rightarrow> kret (Some x))"

text \<open>
  The general loop. The body receives the loop's local variables and answers \<open>Inl l\<close> to go round
  again with \<open>l\<close>, or \<open>Inr r\<close> to leave with \<open>r\<close>. A loop that never leaves has the outcome
  \<open>Spin\<close>.
\<close>

definition loop_again :: "('s, 'l + 'r) outcome \<Rightarrow> bool" where
  "loop_again out = (case out of Ret x s \<Rightarrow> (case x of Inl l \<Rightarrow> True | Inr r \<Rightarrow> False) | _ \<Rightarrow> False)"

definition loop_round :: "('l \<Rightarrow> ('s, 'l + 'r) prog) \<Rightarrow> ('s, 'l + 'r) outcome \<Rightarrow> ('s, 'l + 'r) outcome"
where
  "loop_round body out =
     (case out of Ret x s \<Rightarrow> (case x of Inl l \<Rightarrow> body l s | Inr r \<Rightarrow> out) | _ \<Rightarrow> out)"

definition loop_exit :: "('s, 'l + 'r) outcome option \<Rightarrow> ('s, 'r) outcome" where
  "loop_exit res =
     (case res of
        None \<Rightarrow> Spin
      | Some out \<Rightarrow>
          (case out of
             Ret x s \<Rightarrow> (case x of Inl l \<Rightarrow> Spin | Inr r \<Rightarrow> Ret r s)
           | Panic e \<Rightarrow> Panic e
           | Switched s \<Rightarrow> Switched s
           | Spin \<Rightarrow> Spin))"

definition kloop :: "('l \<Rightarrow> ('s, 'l + 'r) prog) \<Rightarrow> 'l \<Rightarrow> ('s, 'r) prog" where
  "kloop body l = (\<lambda>s. loop_exit (while_option loop_again (loop_round body) (Ret (Inl l) s)))"

subsection \<open>Executing programs\<close>

lemma kret_exec [exec_simps]: "kret x s = Ret x s"
  by (simp add: kret_def)

lemma panic_exec [exec_simps]: "panic e s = Panic e"
  by (simp add: panic_def)

lemma kget_exec [exec_simps]: "kget g s = Ret (g s) s"
  by (simp add: kget_def)

lemma kmod_exec [exec_simps]: "kmod f s = Ret () (f s)"
  by (simp add: kmod_def)

lemma kwith_exec [exec_simps]: "kwith f s = f s s"
  by (simp add: kwith_def)

lemma kwhen_exec [exec_simps]: "kwhen b m s = (if b then m s else Ret () s)"
  by (simp add: kwhen_def kret_def)

lemma kbind_exec [exec_simps]:
  "kbind m f s =
     (case m s of Ret x s' \<Rightarrow> f x s' | Panic e \<Rightarrow> Panic e | Switched s' \<Rightarrow> Switched s' | Spin \<Rightarrow> Spin)"
  by (simp add: kbind_def)

lemma kseq_Cons_exec [exec_simps]: "kseq (m # ms) s = kbind m (\<lambda>_. kseq ms) s"
  by simp

lemma kseq_Nil_exec [exec_simps]: "kseq [] s = Ret () s"
  by (simp add: kret_def)

lemma kbind_Ret: "m s = Ret x s' \<Longrightarrow> kbind m f s = f x s'"
  by (simp add: kbind_def)

lemma kbind_Panic: "m s = Panic e \<Longrightarrow> kbind m f s = Panic e"
  by (simp add: kbind_def)

lemma kbind_kret [simp]: "kbind (kret x) f = f x"
  by (simp add: kbind_def kret_def)

lemma kret_kbind [simp]: "kbind m kret = m"
  by (rule ext) (simp add: kbind_def kret_def split: outcome.splits)

lemma kbind_assoc: "kbind (kbind m f) g = kbind m (\<lambda>x. kbind (f x) g)"
  by (rule ext) (simp add: kbind_def split: outcome.splits)

lemma kbind_panic [simp]: "kbind (panic e) f = panic e"
  by (rule ext) (simp add: kbind_def panic_def)

lemma kbind_eq_Ret:
  "kbind m f s = Ret y t \<longleftrightarrow> (\<exists>x u. m s = Ret x u \<and> f x u = Ret y t)"
  by (simp add: kbind_def split: outcome.splits)

lemma kseq_append: "kseq (xs @ ys) = kbind (kseq xs) (\<lambda>_. kseq ys)"
  by (induction xs) (simp_all add: kbind_assoc)

lemma kfor_append: "kfor (xs @ ys) f = kbind (kfor xs f) (\<lambda>_. kfor ys f)"
  by (induction xs) (simp_all add: kbind_assoc)

text \<open>The defining equation of the general loop, as the C programmer reads it.\<close>

lemma kloop_unfold:
  "kloop body l s =
     (case body l s of
        Ret x s' \<Rightarrow> (case x of Inl l' \<Rightarrow> kloop body l' s' | Inr r \<Rightarrow> Ret r s')
      | Panic e \<Rightarrow> Panic e
      | Switched s' \<Rightarrow> Switched s'
      | Spin \<Rightarrow> Spin)"
proof -
  have step: "while_option loop_again (loop_round body) (Ret (Inl l) s) =
      while_option loop_again (loop_round body) (body l s)"
    by (subst while_option_unfold) (simp add: loop_again_def loop_round_def)
  show ?thesis
  proof (cases "body l s")
    case (Ret x s')
    show ?thesis
    proof (cases x)
      case (Inl l')
      then show ?thesis using Ret by (simp add: kloop_def step)
    next
      case (Inr r)
      then show ?thesis using Ret
        by (simp add: kloop_def step while_option_unfold [of _ _ "Ret (Inr r) s'"]
            loop_again_def loop_exit_def)
    qed
  qed (simp_all add: kloop_def step loop_again_def loop_exit_def
      while_option_unfold [of _ _ "Panic _"] while_option_unfold [of _ _ "Switched _"]
      while_option_unfold [of _ _ "Spin"])
qed

lemma kloop_round: "body l s = Ret (Inl l') s' \<Longrightarrow> kloop body l s = kloop body l' s'"
  by (subst kloop_unfold) simp

lemma kloop_done: "body l s = Ret (Inr r) s' \<Longrightarrow> kloop body l s = Ret r s'"
  by (subst kloop_unfold) simp

lemma kloop_panic: "body l s = Panic e \<Longrightarrow> kloop body l s = Panic e"
  by (subst kloop_unfold) simp

text \<open>
  A body that can only send the loop back to where it started never leaves it: this is how a
  busy-wait on a condition nobody changes is shown to spin.
\<close>

lemma kloop_Spin:
  assumes "body l s = Ret (Inl l) s"
  shows "kloop body l s = Spin"
proof -
  let ?c = "loop_round body"
  have same: "?c (Ret (Inl l) s) = Ret (Inl l) s"
    using assms by (simp add: loop_round_def)
  have "while_option loop_again ?c (Ret (Inl l) s) = None"
  proof (rule ccontr)
    assume "while_option loop_again ?c (Ret (Inl l) s) \<noteq> None"
    then obtain t where t: "while_option loop_again ?c (Ret (Inl l) s) = Some t"
      by auto
    then have "t = Ret (Inl l) s"
      by (rule while_option_rule [where P = "\<lambda>x. x = Ret (Inl l) s", rotated]) (auto simp: same)
    moreover have "\<not> loop_again t"
      using t by (rule while_option_stop)
    ultimately show False by (simp add: loop_again_def)
  qed
  then show ?thesis by (simp add: kloop_def loop_exit_def)
qed

text \<open>
  Total correctness of a loop: an invariant over locals and state, and a measure that every further
  round decreases; then the loop returns, and the result satisfies what the leaving round promises.
\<close>

lemma kloop_total:
  assumes inv: "I l s"
    and body: "\<And>l s. I l s \<Longrightarrow>
      (\<exists>l' s'. body l s = Ret (Inl l') s' \<and> I l' s' \<and> (\<mu> l' s' :: nat) < \<mu> l s) \<or>
      (\<exists>r s'. body l s = Ret (Inr r) s' \<and> Q r s')"
  shows "\<exists>r s'. kloop body l s = Ret r s' \<and> Q r s'"
  using inv
proof (induction "\<mu> l s" arbitrary: l s rule: less_induct)
  case less
  from body [OF less.prems] show ?case
  proof
    assume "\<exists>l' s'. body l s = Ret (Inl l') s' \<and> I l' s' \<and> \<mu> l' s' < \<mu> l s"
    then obtain l' s' where round: "body l s = Ret (Inl l') s'" and "I l' s'" "\<mu> l' s' < \<mu> l s"
      by blast
    then have "\<exists>r t. kloop body l' s' = Ret r t \<and> Q r t"
      using less.hyps by blast
    then show ?case by (subst kloop_unfold) (simp add: round)
  next
    assume "\<exists>r s'. body l s = Ret (Inr r) s' \<and> Q r s'"
    then show ?case by (auto simp: kloop_done)
  qed
qed

section \<open>Programs that keep a predicate\<close>

text \<open>
  \<open>keeps I m\<close>: whenever \<open>m\<close> returns from a state with \<open>I\<close>, the state it leaves has \<open>I\<close>.
  The rules follow the program's structure, so frame and invariant facts of a whole C function
  are obtained from those of the functions it calls.
\<close>

definition keeps :: "('s \<Rightarrow> bool) \<Rightarrow> ('s, 'a) prog \<Rightarrow> bool" where
  "keeps I m \<longleftrightarrow> (\<forall>s x s'. I s \<longrightarrow> m s = Ret x s' \<longrightarrow> I s')"

lemma keepsI: "(\<And>s x s'. I s \<Longrightarrow> m s = Ret x s' \<Longrightarrow> I s') \<Longrightarrow> keeps I m"
  by (auto simp: keeps_def)

lemma keepsD: "keeps I m \<Longrightarrow> m s = Ret x s' \<Longrightarrow> I s \<Longrightarrow> I s'"
  by (auto simp: keeps_def)

lemma keeps_kret [keeps_intros]: "keeps I (kret x)"
  by (simp add: keeps_def kret_def)

lemma keeps_panic [keeps_intros]: "keeps I (panic e)"
  by (simp add: keeps_def panic_def)

lemma keeps_kget [keeps_intros]: "keeps I (kget g)"
  by (simp add: keeps_def kget_def)

lemma keeps_kmod: "(\<And>s. I s \<Longrightarrow> I (f s)) \<Longrightarrow> keeps I (kmod f)"
  by (simp add: keeps_def kmod_def)

lemma keeps_kbind [keeps_intros]:
  "keeps I m \<Longrightarrow> (\<And>x. keeps I (f x)) \<Longrightarrow> keeps I (kbind m f)"
  unfolding keeps_def kbind_eq_Ret by blast

lemma keeps_kwith [keeps_intros]: "(\<And>s. keeps I (f s)) \<Longrightarrow> keeps I (kwith f)"
  by (auto simp: keeps_def kwith_def)

lemma keeps_kwhen [keeps_intros]: "(b \<Longrightarrow> keeps I m) \<Longrightarrow> keeps I (kwhen b m)"
  by (auto simp: kwhen_def intro: keeps_kret)

lemma keeps_if [keeps_intros]:
  "(b \<Longrightarrow> keeps I m) \<Longrightarrow> (\<not> b \<Longrightarrow> keeps I n) \<Longrightarrow> keeps I (if b then m else n)"
  by simp

lemma keeps_case_option [keeps_intros]:
  "(x = None \<Longrightarrow> keeps I m) \<Longrightarrow> (\<And>y. x = Some y \<Longrightarrow> keeps I (f y)) \<Longrightarrow>
     keeps I (case x of None \<Rightarrow> m | Some y \<Rightarrow> f y)"
  by (cases x) auto

lemma keeps_case_prod [keeps_intros]:
  "(\<And>a b. x = (a, b) \<Longrightarrow> keeps I (f a b)) \<Longrightarrow> keeps I (case x of (a, b) \<Rightarrow> f a b)"
  by (cases x) auto

lemma keeps_let [keeps_intros]: "keeps I (f x) \<Longrightarrow> keeps I (let y = x in f y)"
  by simp

lemma keeps_kseq_Nil [keeps_intros]: "keeps I (kseq [])"
  by (simp add: keeps_kret)

lemma keeps_kseq_Cons [keeps_intros]:
  "keeps I m \<Longrightarrow> keeps I (kseq ms) \<Longrightarrow> keeps I (kseq (m # ms))"
  by (simp add: keeps_kbind)

lemma keeps_kfor [keeps_intros]:
  "(\<And>i. i \<in> set is \<Longrightarrow> keeps I (f i)) \<Longrightarrow> keeps I (kfor is f)"
  by (induction "is") (auto intro: keeps_intros)

lemma keeps_kscan [keeps_intros]:
  "(\<And>i. i \<in> set is \<Longrightarrow> keeps I (f i)) \<Longrightarrow> keeps I (kscan is f)"
proof (induction "is")
  case Nil
  then show ?case by (simp add: keeps_kret)
next
  case (Cons i "is")
  then show ?case by (auto intro!: keeps_intros)
qed

lemma keeps_kloop [keeps_intros]:
  assumes body: "\<And>l. keeps I (body l)"
  shows "keeps I (kloop body l)"
proof (rule keepsI)
  fix s x s'
  assume I: "I s" and ret: "kloop body l s = Ret x s'"
  from ret obtain t where t: "while_option loop_again (loop_round body) (Ret (Inl l) s) = Some t"
    by (cases "while_option loop_again (loop_round body) (Ret (Inl l) s)")
       (auto simp: kloop_def loop_exit_def)
  let ?P = "\<lambda>out. \<forall>y u. out = Ret y u \<longrightarrow> I u"
  have step: "?P (loop_round body out)" if "?P out" for out
    using that body
    by (auto simp: loop_round_def keeps_def split: outcome.splits sum.splits)
  have "?P t"
    by (rule while_option_rule [where P = ?P, OF _ t]) (use step I in auto)
  moreover have "t = Ret (Inr x) s'"
    using ret t by (auto simp: kloop_def loop_exit_def split: outcome.splits sum.splits)
  ultimately show "I s'" by simp
qed

section \<open>Scans of a table\<close>

text \<open>
  A scan whose body does not change the state until it answers finds the first index the body
  answers at; the linear searches of the kernel's tables are of this form.
\<close>

lemma kscan_first:
  assumes none: "\<And>j. j \<in> set xs \<Longrightarrow> f j s = Ret None s"
    and hit: "f i s = Ret (Some r) s'"
  shows "kscan (xs @ i # ys) f s = Ret (Some r) s'"
  using none by (induction xs) (simp_all add: hit exec_simps)

lemma kscan_none:
  assumes "\<And>j. j \<in> set xs \<Longrightarrow> f j s = Ret None s"
  shows "kscan xs f s = Ret None s"
  using assms by (induction xs) (simp_all add: exec_simps)

text \<open>The first index of a table with a property, as the linear search finds it.\<close>

definition first_index :: "(nat \<Rightarrow> bool) \<Rightarrow> nat \<Rightarrow> nat option" where
  "first_index P n = List.find P [0..<n]"

lemma first_index_Some:
  "first_index P n = Some i \<longleftrightarrow> i < n \<and> P i \<and> (\<forall>j<i. \<not> P j)"
  by (auto simp: first_index_def find_Some_iff)

lemma first_index_None: "first_index P n = None \<longleftrightarrow> (\<forall>i<n. \<not> P i)"
  by (auto simp: first_index_def find_None_iff)

lemma kscan_upt_find:
  assumes none: "\<And>j. j < n \<Longrightarrow> \<not> P j \<Longrightarrow> f j s = Ret None s"
    and hit: "\<And>j. j < n \<Longrightarrow> P j \<Longrightarrow> f j s = Ret (Some (g j)) (h j)"
  shows "kscan [0..<n] f s =
     (case first_index P n of None \<Rightarrow> Ret None s | Some i \<Rightarrow> Ret (Some (g i)) (h i))"
proof (cases "first_index P n")
  case None
  then have "kscan [0..<n] f s = Ret None s"
    using none by (intro kscan_none) (auto simp: first_index_None)
  with None show ?thesis by simp
next
  case (Some i)
  then have i: "i < n" "P i" "\<forall>j<i. \<not> P j"
    by (simp_all add: first_index_Some)
  then have split: "[0..<n] = [0..<i] @ i # [Suc i..<n]"
    by (metis less_imp_le upt_add_eq_append upt_conv_Cons le_add_diff_inverse zero_le)
  show ?thesis
    unfolding split Some
    using i none hit by (auto intro!: kscan_first)
qed

section \<open>Loops over a table\<close>

text \<open>
  A counted loop whose body acts as a state function, under an invariant that every round keeps.
\<close>

lemma kfor_fold:
  assumes "\<And>i s. i \<in> set is \<Longrightarrow> I s \<Longrightarrow> f i s = Ret () (g i s)"
    and "\<And>i s. i \<in> set is \<Longrightarrow> I s \<Longrightarrow> I (g i s)"
    and "I s"
  shows "kfor is f s = Ret () (fold g is s)" "I (fold g is s)"
proof -
  have "kfor is f s = Ret () (fold g is s) \<and> I (fold g is s)"
    using assms by (induction "is" arbitrary: s) (auto simp: exec_simps)
  then show "kfor is f s = Ret () (fold g is s)" "I (fold g is s)" by auto
qed

text \<open>A counted loop under an invariant that may depend on the round.\<close>

lemma kfor_inv:
  assumes "\<And>i s. i < n \<Longrightarrow> I i s \<Longrightarrow> \<exists>t. f i s = Ret () t \<and> I (Suc i) t" "I 0 s"
  shows "\<exists>t. kfor [0..<n] f s = Ret () t \<and> I n t"
  using assms
proof (induction n)
  case 0
  then show ?case by (auto simp: exec_simps)
next
  case (Suc n)
  then obtain t where "kfor [0..<n] f s = Ret () t" "I n t" by (metis less_SucI)
  moreover from this(2) Suc.prems(1) obtain u where "f n t = Ret () u" "I (Suc n) u" by blast
  ultimately show ?case by (auto simp: kfor_append exec_simps)
qed

text \<open>The first round that panics ends the loop.\<close>

lemma kfor_panic:
  assumes "\<And>i s. i \<in> set xs \<Longrightarrow> I s \<Longrightarrow> f i s = Ret () (g i s)"
    and "\<And>i s. i \<in> set xs \<Longrightarrow> I s \<Longrightarrow> I (g i s)"
    and "I s" "\<And>t. I t \<Longrightarrow> f x t = Panic e"
  shows "kfor (xs @ x # ys) f s = Panic e"
  using assms kfor_fold [of xs I f g s] by (simp add: kfor_append exec_simps)

lemma upt_split_at: "i < n \<Longrightarrow> [0..<n] = [0..<i] @ i # [Suc i..<n]"
  by (metis less_imp_le upt_add_eq_append upt_conv_Cons le_add_diff_inverse zero_le)

text \<open>Successive updates of distinct table entries update the whole table.\<close>

lemma fold_fun_upd:
  "fold (\<lambda>i m. m(i := h i (m i))) [0..<n] m = (\<lambda>i. if i < n then h i (m i) else m i)"
  by (induction n) (auto simp: fun_eq_iff)

end
