(* ===== verification/Memory.thy ===== *)
theory Memory
  imports Prelude
begin

text \<open>
  Bytes and little-endian words: the physical memory of the machine is a function from 64-bit
  addresses to bytes; structures the kernel lays out in memory or on disk are read and written
  through the conversions of this theory (RISC-V is little-endian).
\<close>

unbundle bit_operations_syntax

type_synonym byte = "8 word"
type_synonym u16 = "16 word"
type_synonym u32 = "32 word"
type_synonym addr = "64 word"
type_synonym mem = "addr \<Rightarrow> byte"

section \<open>Little-endian byte sequences\<close>

primrec to_le :: "nat \<Rightarrow> 'w::len word \<Rightarrow> byte list" where
  "to_le 0 w = []"
| "to_le (Suc n) w = ucast w # to_le n (drop_bit 8 w)"

primrec of_le :: "byte list \<Rightarrow> 'w::len word" where
  "of_le [] = 0"
| "of_le (b # bs) = ucast b OR push_bit 8 (of_le bs)"

lemma length_to_le [simp]: "length (to_le n w) = n"
  by (induction n arbitrary: w) auto

lemma le_split_word: "take_bit (8 + n) w = ucast (ucast w :: byte) OR push_bit 8 (take_bit n (drop_bit 8 w))"
  for w :: "'w::len word"
proof (rule bit_word_eqI)
  fix k
  assume "k < LENGTH('w)"
  then show "bit (take_bit (8 + n) w) k =
      bit (ucast (ucast w :: byte) OR push_bit 8 (take_bit n (drop_bit 8 w))) k"
    by (cases "k < 8") (auto simp: bit_simps)
qed

lemma of_le_to_le: "of_le (to_le n w) = (take_bit (8 * n) w :: 'w::len word)"
proof (induction n arbitrary: w)
  case 0
  then show ?case by simp
next
  case (Suc n)
  then show ?case using le_split_word [of "8 * n" w] by simp
qed

lemma of_le_to_le_id: "LENGTH('w) \<le> 8 * n \<Longrightarrow> of_le (to_le n w) = (w :: 'w::len word)"
  by (simp add: of_le_to_le take_bit_word_eq_self)

lemma to_le_of_le:
  assumes "8 * length bs \<le> LENGTH('w::len)"
  shows "to_le (length bs) (of_le bs :: 'w word) = bs"
  using assms
proof (induction bs)
  case Nil
  then show ?case by simp
next
  case (Cons b bs)
  have low: "ucast (ucast b OR push_bit 8 (of_le bs) :: 'w word) = b"
    using Cons.prems by (intro bit_word_eqI) (auto simp: bit_simps)
  have "drop_bit 8 (push_bit 8 (of_le bs) :: 'w word) = of_le bs"
  proof -
    have fits: "take_bit (8 * length bs) (of_le bs :: 'w word) = of_le bs"
      using Cons.IH Cons.prems of_le_to_le [of "length bs" "of_le bs :: 'w word"] by simp
    show ?thesis
    proof (rule bit_word_eqI)
      fix k
      assume "k < LENGTH('w)"
      moreover have "\<not> bit (of_le bs :: 'w word) k" if "\<not> k + 8 < LENGTH('w)"
        using that Cons.prems arg_cong [OF fits, of "\<lambda>x. bit x k"] by (simp add: bit_simps)
      ultimately show "bit (drop_bit 8 (push_bit 8 (of_le bs) :: 'w word)) k = bit (of_le bs :: 'w word) k"
        by (auto simp: bit_simps add.commute)
    qed
  qed
  moreover have "drop_bit 8 (ucast b :: 'w word) = 0"
    by (intro bit_word_eqI) (auto simp: bit_simps dest: bit_imp_le_length)
  ultimately show ?case
    using low Cons by (simp add: drop_bit_or)
qed

section \<open>Reading and writing memory\<close>

definition read_bytes :: "mem \<Rightarrow> addr \<Rightarrow> nat \<Rightarrow> byte list" where
  "read_bytes m a n = map (\<lambda>i. m (a + of_nat i)) [0..<n]"

definition write_bytes :: "mem \<Rightarrow> addr \<Rightarrow> byte list \<Rightarrow> mem" where
  "write_bytes m a bs = (\<lambda>x. if unat (x - a) < length bs then bs ! unat (x - a) else m x)"

definition load64 :: "mem \<Rightarrow> addr \<Rightarrow> addr" where
  "load64 m a = of_le (read_bytes m a 8)"

definition store64 :: "mem \<Rightarrow> addr \<Rightarrow> addr \<Rightarrow> mem" where
  "store64 m a v = write_bytes m a (to_le 8 v)"

text \<open>Two regions of memory that share no address.\<close>

definition apart :: "addr \<Rightarrow> nat \<Rightarrow> addr \<Rightarrow> nat \<Rightarrow> bool" where
  "apart a n b k \<longleftrightarrow> (\<forall>i<n. \<forall>j<k. a + of_nat i \<noteq> b + of_nat j)"

lemma length_read_bytes [simp]: "length (read_bytes m a n) = n"
  by (simp add: read_bytes_def)

lemma nth_read_bytes [simp]: "i < n \<Longrightarrow> read_bytes m a n ! i = m (a + of_nat i)"
  by (simp add: read_bytes_def)

lemma read_bytes_0 [simp]: "read_bytes m a 0 = []"
  by (simp add: read_bytes_def)

lemma read_bytes_add: "read_bytes m a (n + k) = read_bytes m a n @ read_bytes m (a + of_nat n) k"
proof -
  have "[0..<n + k] = [0..<n] @ map (\<lambda>i. i + n) [0..<k]"
    by (simp only: upt_add_eq_append [OF le0] map_add_upt add.commute [of k n])
  then show ?thesis by (simp add: read_bytes_def ac_simps)
qed

lemma read_bytes_cong:
  "(\<And>i. i < n \<Longrightarrow> m (a + of_nat i) = m' (a + of_nat i)) \<Longrightarrow> read_bytes m a n = read_bytes m' a n"
  by (auto simp: read_bytes_def)

lemma write_bytes_Nil [simp]: "write_bytes m a [] = m"
  by (simp add: write_bytes_def)

lemma unat_of_nat_addr [simp]: "i < 2 ^ 64 \<Longrightarrow> unat (of_nat i :: addr) = i"
  by (simp add: unat_of_nat)

lemma unat_minus_one_addr: "unat (- 1 :: addr) = 2 ^ 64 - 1"
  by (simp add: unsigned_minus_1_eq_mask mask_eq_exp_minus_1)

lemma read_write_same:
  assumes "length bs \<le> 2 ^ 64"
  shows "read_bytes (write_bytes m a bs) a (length bs) = bs"
  using assms by (intro nth_equalityI) (auto simp: write_bytes_def)

lemma apart_sym: "apart a n b k \<longleftrightarrow> apart b k a n"
  by (metis apart_def)

lemma apart_outside:
  assumes ap: "apart a n b k" and i: "i < k"
  shows "n \<le> unat (b + of_nat i - a)"
proof (rule ccontr)
  assume "\<not> n \<le> unat (b + of_nat i - a)"
  then have "unat (b + of_nat i - a) < n" by simp
  moreover have "a + of_nat (unat (b + of_nat i - a)) = b + of_nat i" by simp
  ultimately show False using ap i unfolding apart_def by blast
qed

lemma write_other:
  "n \<le> unat (x - a) \<Longrightarrow> length bs = n \<Longrightarrow> write_bytes m a bs x = m x"
  by (simp add: write_bytes_def)

lemma read_write_apart:
  assumes "apart a (length bs) b n"
  shows "read_bytes (write_bytes m a bs) b n = read_bytes m b n"
  using assms by (intro read_bytes_cong write_other [OF apart_outside]) auto

lemma write_bytes_Cons:
  assumes "length bs < 2 ^ 64"
  shows "write_bytes m a (b # bs) = write_bytes (m(a := b)) (a + 1) bs"
proof (rule ext)
  fix x
  show "write_bytes m a (b # bs) x = write_bytes (m(a := b)) (a + 1) bs x"
  proof (cases "x = a")
    case True
    with assms show ?thesis by (simp add: write_bytes_def unat_minus_one_addr)
  next
    case False
    have "unat (x - a - 1) = unat (x - a) - 1" "0 < unat (x - a)"
      using False by (simp_all add: unat_minus_one unat_gt_0)
    then have "unat (x - a) = Suc (unat (x - (a + 1)))" by (simp add: diff_diff_eq)
    with False show ?thesis by (simp add: write_bytes_def)
  qed
qed

lemma write_bytes_append:
  "length as + length bs \<le> 2 ^ 64 \<Longrightarrow>
     write_bytes m a (as @ bs) = write_bytes (write_bytes m a as) (a + of_nat (length as)) bs"
proof (induction as arbitrary: m a)
  case Nil
  then show ?case by simp
next
  case (Cons c as)
  then show ?case by (simp add: write_bytes_Cons add.assoc)
qed

lemma write_bytes_single: "write_bytes m a [b] = m(a := b)"
  by (simp add: write_bytes_Cons)

lemma load_store64 [simp]: "load64 (store64 m a v) a = v"
proof -
  have "read_bytes (store64 m a v) a (length (to_le 8 v)) = to_le 8 v"
    unfolding store64_def by (rule read_write_same) simp
  then show ?thesis by (simp add: load64_def of_le_to_le_id)
qed

lemma load_store64_apart: "apart a 8 b 8 \<Longrightarrow> load64 (store64 m a v) b = load64 m b"
  by (simp add: load64_def store64_def read_write_apart)

lemma load64_write_apart:
  "apart a (length bs) b 8 \<Longrightarrow> load64 (write_bytes m a bs) b = load64 m b"
  by (simp add: load64_def read_write_apart)

lemma read_store64_apart:
  "apart a 8 b n \<Longrightarrow> read_bytes (store64 m a v) b n = read_bytes m b n"
  by (simp add: store64_def read_write_apart)

text \<open>Addresses that do not wrap: two regions ordered in memory are apart.\<close>

lemma unat_add_of_nat: "unat a + i < 2 ^ 64 \<Longrightarrow> unat (a + of_nat i) = unat a + i" for a :: addr
  by (simp add: unat_word_ariths(1) unat_of_nat)

lemma apart_below:
  assumes "unat a + n \<le> unat b" "unat b + k \<le> 2 ^ 64"
  shows "apart a n b k"
  unfolding apart_def
proof (intro allI impI notI)
  fix i j
  assume "i < n" "j < k" and eq: "a + of_nat i = b + of_nat j"
  then have "unat (a + of_nat i) = unat a + i" "unat (b + of_nat j) = unat b + j"
    using assms by (intro unat_add_of_nat; linarith)+
  with eq \<open>i < n\<close> assms show False by simp
qed

section \<open>C strings\<close>

text \<open>
  A pointer into a byte array is seen as the sequence of bytes from it on. The string at the
  pointer is what precedes the first NUL.
\<close>

type_synonym cptr = "nat \<Rightarrow> byte"

definition mem_ptr :: "mem \<Rightarrow> addr \<Rightarrow> cptr" where
  "mem_ptr m a = (\<lambda>i. m (a + of_nat i))"

definition list_ptr :: "byte list \<Rightarrow> cptr" where
  "list_ptr bs = (\<lambda>i. if i < length bs then bs ! i else 0)"

text \<open>\<open>cstr_len p n\<close>: \<open>n\<close> is the length of the string at \<open>p\<close>.\<close>

definition cstr_len :: "cptr \<Rightarrow> nat \<Rightarrow> bool" where
  "cstr_len p n \<longleftrightarrow> p n = 0 \<and> (\<forall>i<n. p i \<noteq> 0)"

lemma cstr_len_unique: "cstr_len p n \<Longrightarrow> cstr_len p k \<Longrightarrow> n = k"
  by (auto simp: cstr_len_def) (meson linorder_neqE_nat)

lemma cstr_len_list: "0 \<notin> set bs \<Longrightarrow> cstr_len (list_ptr bs) (length bs)"
  by (auto simp: cstr_len_def list_ptr_def in_set_conv_nth)

text \<open>ASCII text as bytes, for the string literals of the C source.\<close>

definition str :: "string \<Rightarrow> byte list" where
  "str cs = map (\<lambda>c. of_nat (of_char c)) cs"

lemma length_str [simp]: "length (str cs) = length cs"
  by (simp add: str_def)

section \<open>Words in byte arrays\<close>

text \<open>A field of a structure that overlays an array of bytes, such as a disk block.\<close>

definition get_le :: "nat \<Rightarrow> byte list \<Rightarrow> nat \<Rightarrow> 'w::len word" where
  "get_le k bs off = of_le (take k (drop off bs))"

definition put_le :: "nat \<Rightarrow> byte list \<Rightarrow> nat \<Rightarrow> 'w::len word \<Rightarrow> byte list" where
  "put_le k bs off v = take off bs @ to_le k v @ drop (off + k) bs"

abbreviation get32 :: "byte list \<Rightarrow> nat \<Rightarrow> u32" where "get32 \<equiv> get_le 4"
abbreviation put32 :: "byte list \<Rightarrow> nat \<Rightarrow> u32 \<Rightarrow> byte list" where "put32 \<equiv> put_le 4"
abbreviation get16 :: "byte list \<Rightarrow> nat \<Rightarrow> u16" where "get16 \<equiv> get_le 2"
abbreviation put16 :: "byte list \<Rightarrow> nat \<Rightarrow> u16 \<Rightarrow> byte list" where "put16 \<equiv> put_le 2"

lemma length_put_le [simp]: "off + k \<le> length bs \<Longrightarrow> length (put_le k bs off v) = length bs"
  by (simp add: put_le_def)

lemma get_put_same:
  "off + k \<le> length bs \<Longrightarrow> LENGTH('w) \<le> 8 * k \<Longrightarrow> get_le k (put_le k bs off v) off = (v :: 'w::len word)"
  by (simp add: get_le_def put_le_def of_le_to_le_id)

lemma get_put_other:
  assumes "off + k \<le> length bs" "off + k \<le> off' \<or> off' + k' \<le> off"
  shows "get_le k' (put_le k bs off v) off' = get_le k' bs off'"
proof -
  have "take k' (drop off' (put_le k bs off v)) = take k' (drop off' bs)"
    using assms(2)
  proof
    assume "off + k \<le> off'"
    then show ?thesis using assms(1) by (simp add: put_le_def)
  next
    assume "off' + k' \<le> off"
    then have "take (k' + off') (take off bs @ ys) = take (k' + off') bs" for ys
      using assms(1) by (simp add: min_absorb1)
    then show ?thesis unfolding put_le_def take_drop by (simp only:)
  qed
  then show ?thesis by (simp add: get_le_def)
qed

text \<open>An array of words stored in a row.\<close>

lemma length_fold_put32:
  "base + 4 * n \<le> length d \<Longrightarrow> length (fold (\<lambda>i d. put32 d (base + 4 * i) (f i)) [0..<n] d) = length d"
  by (induction n) simp_all

lemma fold_put32_other:
  assumes "base + 4 * n \<le> length d" "off + k \<le> base \<or> base + 4 * n \<le> off"
  shows "get_le k (fold (\<lambda>i d. put32 d (base + 4 * i) (f i)) [0..<n] d) off = get_le k d off"
  using assms
proof (induction n)
  case (Suc n)
  then have fits: "base + 4 * n + 4 \<le> length (fold (\<lambda>i d. put32 d (base + 4 * i) (f i)) [0..<n] d)"
    by (simp add: length_fold_put32)
  have "base + 4 * n + 4 \<le> off \<or> off + k \<le> base + 4 * n" using Suc.prems(2) by auto
  then show ?case using Suc by (auto simp: get_put_other [OF fits])
qed simp

lemma fold_put32_get:
  assumes "base + 4 * n \<le> length d" "j < n"
  shows "get32 (fold (\<lambda>i d. put32 d (base + 4 * i) (f i)) [0..<n] d) (base + 4 * j) = f j"
  using assms
proof (induction n)
  case (Suc n)
  then have fits: "base + 4 * n + 4 \<le> length (fold (\<lambda>i d. put32 d (base + 4 * i) (f i)) [0..<n] d)"
    by (simp add: length_fold_put32)
  show ?case
  proof (cases "j = n")
    case True
    then show ?thesis by (simp add: get_put_same [OF fits])
  next
    case False
    then show ?thesis using Suc by (simp add: get_put_other [OF fits])
  qed
qed simp

end
