(* ===== verification/CString.thy ===== *)
theory CString
  imports Memory
begin

text \<open>
  The kernel's string routines (\<open>kernel/string.c\<close>): the memory-to-memory routines as loops over
  the machine's memory, the comparing ones over pointers. Each loop of the C is a recursive function
  with the loop's variables as arguments. The section at the end gives what each routine computes,
  which is what the rest of the development uses.
\<close>

section \<open>The routines\<close>

text \<open>\<open>memset\<close>: the loop \<open>for(i = 0; i < n; i++) cdst[i] = c;\<close>\<close>

function memset_from :: "mem \<Rightarrow> addr \<Rightarrow> byte \<Rightarrow> nat \<Rightarrow> nat \<Rightarrow> mem" where
  "memset_from m dst c i n =
     (if i < n then memset_from (m(dst + of_nat i := c)) dst c (Suc i) n else m)"
  by pat_completeness auto
termination by (relation "measure (\<lambda>(m, dst, c, i, n). n - i)") auto

declare memset_from.simps [simp del]

definition memset :: "mem \<Rightarrow> addr \<Rightarrow> byte \<Rightarrow> u32 \<Rightarrow> mem" where
  "memset m dst c n = memset_from m dst c 0 (unat n)"

text \<open>\<open>memcmp\<close>: \<open>while(n-- > 0)\<close> over two pointers.\<close>

fun memcmp_at :: "cptr \<Rightarrow> cptr \<Rightarrow> nat \<Rightarrow> nat \<Rightarrow> int" where
  "memcmp_at s1 s2 i 0 = 0"
| "memcmp_at s1 s2 i (Suc n) =
     (if s1 i \<noteq> s2 i then uint (s1 i) - uint (s2 i) else memcmp_at s1 s2 (Suc i) n)"

definition memcmp :: "cptr \<Rightarrow> cptr \<Rightarrow> u32 \<Rightarrow> int" where
  "memcmp v1 v2 n = memcmp_at v1 v2 0 (unat n)"

text \<open>\<open>memmove\<close>: from the end down when the destination starts inside the source, up otherwise.\<close>

fun copy_down :: "mem \<Rightarrow> addr \<Rightarrow> addr \<Rightarrow> nat \<Rightarrow> mem" where
  "copy_down m d s 0 = m"
| "copy_down m d s (Suc n) = copy_down (m(d - 1 := m (s - 1))) (d - 1) (s - 1) n"

fun copy_up :: "mem \<Rightarrow> addr \<Rightarrow> addr \<Rightarrow> nat \<Rightarrow> mem" where
  "copy_up m d s 0 = m"
| "copy_up m d s (Suc n) = copy_up (m(d := m s)) (d + 1) (s + 1) n"

definition memmove :: "mem \<Rightarrow> addr \<Rightarrow> addr \<Rightarrow> u32 \<Rightarrow> mem" where
  "memmove m dst src n =
     (if n = 0 then m
      else if src < dst \<and> src + ucast n > dst
      then copy_down m (dst + ucast n) (src + ucast n) (unat n)
      else copy_up m dst src (unat n))"

definition memcpy :: "mem \<Rightarrow> addr \<Rightarrow> addr \<Rightarrow> u32 \<Rightarrow> mem" where
  "memcpy m dst src n = memmove m dst src n"

text \<open>\<open>strncmp\<close>: \<open>while(n > 0 && *p && *p == *q) n--, p++, q++;\<close>\<close>

fun strncmp_at :: "cptr \<Rightarrow> cptr \<Rightarrow> nat \<Rightarrow> nat \<Rightarrow> int" where
  "strncmp_at p q i 0 = 0"
| "strncmp_at p q i (Suc n) =
     (if p i \<noteq> 0 \<and> p i = q i then strncmp_at p q (Suc i) n else uint (p i) - uint (q i))"

definition strncmp :: "cptr \<Rightarrow> cptr \<Rightarrow> nat \<Rightarrow> int" where
  "strncmp p q n = strncmp_at p q 0 n"

text \<open>
  \<open>strncpy\<close>: the copying loop gives the memory, the next destination and what is left of \<open>n\<close>;
  the second loop pads with NULs.
\<close>

fun strncpy_copy :: "mem \<Rightarrow> addr \<Rightarrow> addr \<Rightarrow> nat \<Rightarrow> mem \<times> addr \<times> nat" where
  "strncpy_copy m s t 0 = (m, s, 0)"
| "strncpy_copy m s t (Suc n) =
     (let c = m t; m' = m(s := c)
      in if c \<noteq> 0 then strncpy_copy m' (s + 1) (t + 1) n else (m', s + 1, n))"

fun strncpy_pad :: "mem \<Rightarrow> addr \<Rightarrow> nat \<Rightarrow> mem" where
  "strncpy_pad m s 0 = m"
| "strncpy_pad m s (Suc n) = strncpy_pad (m(s := 0)) (s + 1) n"

definition strncpy :: "mem \<Rightarrow> addr \<Rightarrow> addr \<Rightarrow> int \<Rightarrow> mem" where
  "strncpy m s t n =
     (case strncpy_copy m s t (nat n) of (m', s', n') \<Rightarrow> strncpy_pad m' s' n')"

text \<open>
  \<open>safestrcpy\<close>: \<open>while(--n > 0 && (*s++ = *t++) != 0);\<close> leaves the memory and the pointer at which
  the final \<open>*s = 0\<close> is stored.
\<close>

fun safestrcpy_copy :: "mem \<Rightarrow> addr \<Rightarrow> addr \<Rightarrow> nat \<Rightarrow> mem \<times> addr" where
  "safestrcpy_copy m s t 0 = (m, s)"
| "safestrcpy_copy m s t (Suc n) =
     (let c = m t; m' = m(s := c)
      in if c \<noteq> 0 then safestrcpy_copy m' (s + 1) (t + 1) n else (m', s + 1))"

definition safestrcpy :: "mem \<Rightarrow> addr \<Rightarrow> addr \<Rightarrow> int \<Rightarrow> mem" where
  "safestrcpy m s t n =
     (if n \<le> 0 then m
      else case safestrcpy_copy m s t (nat (n - 1)) of (m', s') \<Rightarrow> m'(s' := 0))"

text \<open>\<open>strlen\<close> need not end where no NUL follows the pointer.\<close>

partial_function (option) strlen_from :: "cptr \<Rightarrow> nat \<Rightarrow> nat option" where
  "strlen_from s n = (if s n \<noteq> 0 then strlen_from s (Suc n) else Some n)"

definition strlen :: "cptr \<Rightarrow> nat option" where
  "strlen s = strlen_from s 0"

section \<open>What the routines compute\<close>

text \<open>The string at a pointer, cut at \<open>n\<close> bytes.\<close>

definition cstr_take :: "nat \<Rightarrow> cptr \<Rightarrow> byte list" where
  "cstr_take n p = takeWhile (\<lambda>c. c \<noteq> 0) (map p [0..<n])"

text \<open>The array contents the copying routines leave.\<close>

definition strncpy_list :: "cptr \<Rightarrow> nat \<Rightarrow> byte list" where
  "strncpy_list p n = cstr_take n p @ replicate (n - length (cstr_take n p)) 0"

definition safestrcpy_list :: "cptr \<Rightarrow> nat \<Rightarrow> byte list \<Rightarrow> byte list" where
  "safestrcpy_list p n old =
     (let c = cstr_take (n - 1) p in
      if length c < n - 1 then c @ [0, 0] @ drop (length c + 2) old else c @ 0 # drop n old)"

lemma cstr_take_0 [simp]: "cstr_take 0 p = []"
  by (simp add: cstr_take_def)

lemma cstr_take_Suc:
  "cstr_take (Suc n) p = (if p 0 = 0 then [] else p 0 # cstr_take n (\<lambda>i. p (Suc i)))"
  by (simp add: cstr_take_def upt_conv_Cons map_Suc_upt [symmetric] comp_def del: upt_Suc)

lemma length_cstr_take: "length (cstr_take n p) \<le> n"
  by (metis cstr_take_def length_map length_takeWhile_le length_upt minus_nat.diff_0)

lemma cstr_take_nonzero: "0 \<notin> set (cstr_take n p)"
  by (auto simp: cstr_take_def dest: set_takeWhileD)

lemma cstr_take_len: "cstr_len p k \<Longrightarrow> cstr_take n p = map p [0..<min n k]"
proof (induction n arbitrary: p k)
  case 0
  then show ?case by simp
next
  case (Suc n)
  show ?case
  proof (cases k)
    case 0
    with Suc.prems show ?thesis by (simp add: cstr_take_Suc cstr_len_def)
  next
    case (Suc k')
    with Suc.prems have "cstr_len (\<lambda>i. p (Suc i)) k'" "p 0 \<noteq> 0"
      by (auto simp: cstr_len_def)
    then show ?thesis using Suc Suc.IH [of "\<lambda>i. p (Suc i)" k']
      by (simp add: cstr_take_Suc upt_conv_Cons map_Suc_upt [symmetric] comp_def del: upt_Suc)
  qed
qed

lemma length_strncpy_list [simp]: "length (strncpy_list p n) = n"
  using length_cstr_take [of n p] by (simp add: strncpy_list_def)

subsection \<open>memset and memmove\<close>

lemma memset_from_eq:
  "i \<le> n \<Longrightarrow> n \<le> 2 ^ 64 \<Longrightarrow>
     memset_from m dst c i n =
       (\<lambda>x. if i \<le> unat (x - dst) \<and> unat (x - dst) < n then c else m x)"
proof (induction m dst c i n rule: memset_from.induct)
  case (1 m dst c i n)
  show ?case
  proof (cases "i < n")
    case True
    then have IH: "memset_from (m(dst + of_nat i := c)) dst c (Suc i) n =
      (\<lambda>x. if Suc i \<le> unat (x - dst) \<and> unat (x - dst) < n then c else (m(dst + of_nat i := c)) x)"
      by (intro "1.IH") (use "1.prems" in auto)
    have hit: "unat (x - dst) = i \<longleftrightarrow> x = dst + of_nat i" for x
      using True "1.prems" by (auto simp: unat_of_nat)
    show ?thesis
    proof (rule ext)
      fix x
      show "memset_from m dst c i n x =
          (if i \<le> unat (x - dst) \<and> unat (x - dst) < n then c else m x)"
        using True hit [of x] by (auto simp: memset_from.simps [of m dst c i n] IH le_eq_less_or_eq)
    qed
  next
    case False
    with "1.prems" show ?thesis by (subst memset_from.simps) (auto simp: fun_eq_iff)
  qed
qed

lemma memset_eq: "memset m dst c n = write_bytes m dst (replicate (unat n) c)"
proof -
  have "unat n < 2 ^ 32" using unsigned_less [of n] by simp
  then show ?thesis
    by (auto simp: memset_def memset_from_eq write_bytes_def fun_eq_iff)
qed

lemma copy_up_eq:
  assumes "n \<le> 2 ^ 64" "\<forall>i<n. \<forall>j<i. d + of_nat j \<noteq> s + of_nat i"
  shows "copy_up m d s n x = (if unat (x - d) < n then m (s + (x - d)) else m x)"
  using assms
proof (induction n arbitrary: m d s)
  case 0
  then show ?case by simp
next
  case (Suc n)
  let ?m = "m(d := m s)"
  have "\<forall>i<n. \<forall>j<i. d + 1 + of_nat j \<noteq> s + 1 + of_nat i"
  proof (intro allI impI)
    fix i j
    assume "i < n" "j < i"
    then have "d + of_nat (Suc j) \<noteq> s + of_nat (Suc i)" using Suc.prems(2) by blast
    then show "d + 1 + of_nat j \<noteq> s + 1 + of_nat i" by (simp add: ac_simps)
  qed
  then have IH: "copy_up ?m (d + 1) (s + 1) n x =
      (if unat (x - (d + 1)) < n then ?m (s + (x - d)) else ?m x)"
    using Suc by (simp add: algebra_simps)
  show ?case
  proof (cases "x = d")
    case True
    with IH Suc.prems(1) show ?thesis by (simp add: unat_minus_one_addr)
  next
    case False
    have "unat (x - d - 1) = unat (x - d) - 1" "0 < unat (x - d)"
      using False by (simp_all add: unat_minus_one unat_gt_0)
    then have step: "unat (x - d) = Suc (unat (x - (d + 1)))" by (simp add: diff_diff_eq)
    have src: "s + (x - d) \<noteq> d" if "unat (x - d) < Suc n"
      using that Suc.prems(2) [rule_format, of "unat (x - d)" 0] step by simp
    show ?thesis using False step src by (simp add: IH)
  qed
qed

lemma copy_down_eq:
  assumes "n \<le> 2 ^ 64" "\<forall>j<n. \<forall>i<j. d + of_nat j \<noteq> s + of_nat i"
  shows "copy_down m (d + of_nat n) (s + of_nat n) n x =
     (if unat (x - d) < n then m (s + (x - d)) else m x)"
  using assms
proof (induction n arbitrary: m)
  case 0
  then show ?case by simp
next
  case (Suc n)
  let ?m = "m(d + of_nat n := m (s + of_nat n))"
  have ends: "d + of_nat (Suc n) - 1 = d + of_nat n" "s + of_nat (Suc n) - 1 = s + of_nat n"
    by simp_all
  have IH: "copy_down ?m (d + of_nat n) (s + of_nat n) n x =
      (if unat (x - d) < n then ?m (s + (x - d)) else ?m x)"
    using Suc by simp
  show ?case
  proof (cases "unat (x - d) = n")
    case True
    then have "d + of_nat n = d + of_nat (unat (x - d))" by simp
    then have "x = d + of_nat n" by simp
    then show ?thesis using True unfolding copy_down.simps ends IH by simp
  next
    case False
    then have "x \<noteq> d + of_nat n" using Suc.prems(1) by auto
    moreover have "s + (x - d) \<noteq> d + of_nat n" if "unat (x - d) < n"
      using that Suc.prems(2) [rule_format, of n "unat (x - d)"] by simp
    ultimately show ?thesis using False unfolding copy_down.simps ends IH by (simp add: less_Suc_eq)
  qed
qed

text \<open>
  \<open>memmove\<close> copies the original source, however the two regions overlap. The regions must not
  run over the end of the address space, where the comparison of pointers would be meaningless.
\<close>

lemma memmove_eq:
  assumes src: "unat src + unat n < 2 ^ 64" and dst: "unat dst + unat n < 2 ^ 64"
  shows "memmove m dst src n = write_bytes m dst (read_bytes m src (unat n))"
proof (rule ext)
  fix x
  let ?n = "unat n"
  have n64: "?n \<le> 2 ^ 64" using src by simp
  have us: "unat (src + of_nat i) = unat src + i" if "i \<le> ?n" for i
    using that src by (intro unat_add_of_nat) simp
  have ud: "unat (dst + of_nat i) = unat dst + i" if "i \<le> ?n" for i
    using that dst by (intro unat_add_of_nat) simp
  have le: "unat dst + i = unat src + j" if "dst + of_nat i = src + of_nat j" "i < ?n" "j < ?n" for i j
    using that us ud by (metis less_imp_le)
  have inside: "src < dst \<and> src + ucast n > dst \<longleftrightarrow> unat src < unat dst \<and> unat dst < unat src + ?n"
    using us [of ?n] by (simp add: word_less_nat_alt)
  have "memmove m dst src n x = (if unat (x - dst) < ?n then m (src + (x - dst)) else m x)"
  proof (cases "src < dst \<and> src + ucast n > dst")
    case True
    have "\<forall>j<?n. \<forall>i<j. dst + of_nat j \<noteq> src + of_nat i"
    proof (intro allI impI notI)
      fix i j
      assume "j < ?n" "i < j" "dst + of_nat j = src + of_nat i"
      then have "unat dst + j = unat src + i" using le [of j i] by simp
      then show False using True inside \<open>i < j\<close> by simp
    qed
    then show ?thesis using True copy_down_eq [OF n64, of dst src m x] by (simp add: memmove_def)
  next
    case False
    have "\<forall>i<?n. \<forall>j<i. dst + of_nat j \<noteq> src + of_nat i"
    proof (intro allI impI notI)
      fix i j
      assume "i < ?n" "j < i" "dst + of_nat j = src + of_nat i"
      then have "unat dst + j = unat src + i" using le [of j i] by simp
      then show False using False inside \<open>i < ?n\<close> \<open>j < i\<close> by simp
    qed
    then show ?thesis using False copy_up_eq [OF n64, of dst src m x] by (auto simp: memmove_def)
  qed
  then show "memmove m dst src n x = write_bytes m dst (read_bytes m src ?n) x"
    by (simp add: write_bytes_def)
qed

subsection \<open>Comparisons\<close>

lemma memcmp_at_eq_0: "memcmp_at p q i n = 0 \<longleftrightarrow> (\<forall>j<n. p (i + j) = q (i + j))"
proof (induction n arbitrary: i)
  case 0
  then show ?case by simp
next
  case (Suc n)
  then show ?case by (auto simp: All_less_Suc2 word_uint_eq_iff)
qed

lemma strncmp_at_shift: "strncmp_at p q (Suc i) n = strncmp_at (\<lambda>k. p (Suc k)) (\<lambda>k. q (Suc k)) i n"
  by (induction n arbitrary: i) auto

lemma strncmp_Suc:
  "strncmp p q (Suc n) =
     (if p 0 \<noteq> 0 \<and> p 0 = q 0 then strncmp (\<lambda>k. p (Suc k)) (\<lambda>k. q (Suc k)) n
      else uint (p 0) - uint (q 0))"
  by (simp add: strncmp_def strncmp_at_shift)

lemma strncmp_0 [simp]: "strncmp p q 0 = 0"
  by (simp add: strncmp_def)

text \<open>\<open>strncmp\<close> decides equality and the byte-wise lexicographic order of the two strings.\<close>

lemma strncmp_eq_0: "strncmp p q n = 0 \<longleftrightarrow> cstr_take n p = cstr_take n q"
proof (induction n arbitrary: p q)
  case 0
  then show ?case by simp
next
  case (Suc n)
  then show ?case
    by (auto simp: strncmp_Suc cstr_take_Suc word_uint_eq_iff)
qed

lemma strncmp_neg: "strncmp p q n < 0 \<longleftrightarrow> ord_class.lexordp (cstr_take n p) (cstr_take n q)"
proof (induction n arbitrary: p q)
  case 0
  then show ?case by simp
next
  case (Suc n)
  have "uint (p 0) < uint (q 0) \<longleftrightarrow> p 0 < q 0"
    "q 0 \<noteq> 0 \<longleftrightarrow> 0 < q 0"
    by (simp_all only: word_less_def word_neq_0_conv)
  then show ?case
    using Suc.IH [of "\<lambda>k. p (Suc k)" "\<lambda>k. q (Suc k)"]
    by (auto simp: strncmp_Suc cstr_take_Suc lexordp_simps)
qed

subsection \<open>Copying strings\<close>

lemma cstr_take_cong: "(\<And>i. i < n \<Longrightarrow> p i = q i) \<Longrightarrow> cstr_take n p = cstr_take n q"
  by (auto simp: cstr_take_def intro!: arg_cong [where f = "takeWhile (\<lambda>c. c \<noteq> 0)"])

lemma mem_ptr_next: "(\<lambda>i. mem_ptr m t (Suc i)) = mem_ptr m (t + 1)"
  by (simp add: mem_ptr_def add.assoc)

text \<open>Storing at the destination does not disturb what is left of a source that lies apart.\<close>

lemma apart_tail: "apart s (Suc n) t (Suc n) \<Longrightarrow> apart (s + 1) n (t + 1) n"
  unfolding apart_def
proof (intro allI impI)
  fix i j
  assume *: "\<forall>i<Suc n. \<forall>j<Suc n. s + of_nat i \<noteq> t + of_nat j" and "i < n" "j < n"
  then have "s + of_nat (Suc i) \<noteq> t + of_nat (Suc j)" by blast
  then show "s + 1 + of_nat i \<noteq> t + 1 + of_nat j" by (simp add: ac_simps)
qed

lemma cstr_take_store:
  assumes "apart s (Suc n) t (Suc n)"
  shows "cstr_take n (mem_ptr (m(s := c)) (t + 1)) = cstr_take n (mem_ptr m (t + 1))"
proof (rule cstr_take_cong)
  fix i
  assume "i < n"
  then have "s + of_nat 0 \<noteq> t + of_nat (Suc i)" using assms unfolding apart_def by blast
  then show "mem_ptr (m(s := c)) (t + 1) i = mem_ptr m (t + 1) i"
    by (auto simp: mem_ptr_def add.assoc)
qed

lemma strncpy_pad_eq: "n < 2 ^ 64 \<Longrightarrow> strncpy_pad m s n = write_bytes m s (replicate n 0)"
  by (induction n arbitrary: m s) (simp_all add: write_bytes_Cons)

text \<open>What either copying loop stores: the string, and its NUL if that is reached within the bound.\<close>

definition copied :: "nat \<Rightarrow> cptr \<Rightarrow> byte list" where
  "copied n p = (let c = cstr_take n p in if length c < n then c @ [0] else c)"

lemma copied_0 [simp]: "copied 0 p = []"
  by (simp add: copied_def)

lemma copied_Suc: "copied (Suc n) p = p 0 # (if p 0 = 0 then [] else copied n (\<lambda>i. p (Suc i)))"
  by (auto simp: copied_def cstr_take_Suc Let_def)

lemma length_copied: "length (copied n p) \<le> n"
  using length_cstr_take [of n p] by (auto simp: copied_def Let_def)

lemma strncpy_copy_eq:
  "n < 2 ^ 64 \<Longrightarrow> apart s n t n \<Longrightarrow> w = copied n (mem_ptr m t) \<Longrightarrow>
     strncpy_copy m s t n = (write_bytes m s w, s + of_nat (length w), n - length w)"
proof (induction n arbitrary: m s t w)
  case 0
  then show ?case by simp
next
  case (Suc n)
  let ?m = "m(s := m t)"
  have keep: "copied n (mem_ptr ?m (t + 1)) = copied n (mem_ptr m (t + 1))"
    using cstr_take_store [OF Suc.prems(2)] by (simp add: copied_def)
  have w: "w = m t # (if m t = 0 then [] else copied n (mem_ptr m (t + 1)))"
    using Suc.prems(3) by (simp add: copied_Suc mem_ptr_next) (simp add: mem_ptr_def)
  show ?case
  proof (cases "m t = 0")
    case True
    with w show ?thesis by (simp add: write_bytes_single fun_upd_def)
  next
    case False
    let ?w = "copied n (mem_ptr m (t + 1))"
    have "strncpy_copy ?m (s + 1) (t + 1) n =
        (write_bytes ?m (s + 1) ?w, s + 1 + of_nat (length ?w), n - length ?w)"
    proof (rule Suc.IH)
      show "n < 2 ^ 64" using Suc.prems(1) by simp
      show "apart (s + 1) n (t + 1) n" using Suc.prems(2) by (rule apart_tail)
      show "?w = copied n (mem_ptr ?m (t + 1))" by (rule keep [symmetric])
    qed
    moreover have "length ?w < 2 ^ 64" using length_copied [of n] Suc.prems(1) by (meson Suc_lessD le_less_trans)
    ultimately show ?thesis using False w by (simp add: write_bytes_Cons add.assoc)
  qed
qed

lemma strncpy_eq:
  assumes "0 \<le> n" "n < 2 ^ 63" "apart s (nat n) t (nat n)"
  shows "strncpy m s t n = write_bytes m s (strncpy_list (mem_ptr m t) (nat n))"
proof -
  let ?p = "mem_ptr m t" and ?k = "nat n"
  let ?w = "copied ?k ?p"
  have k: "?k < 2 ^ 64" using assms by simp
  have "strncpy_list ?p ?k = ?w @ replicate (?k - length ?w) 0"
    by (auto simp: strncpy_list_def copied_def Let_def replicate_append_same
        Suc_diff_Suc simp flip: replicate_Suc)
  then show ?thesis
    using k length_copied [of ?k ?p] strncpy_copy_eq [OF k assms(3) refl]
    by (simp add: strncpy_def strncpy_pad_eq write_bytes_append)
qed

lemma safestrcpy_copy_strncpy:
  "safestrcpy_copy m s t n = (case strncpy_copy m s t n of (m', s', _) \<Rightarrow> (m', s'))"
  by (induction n arbitrary: m s t) (auto simp: Let_def)

lemma safestrcpy_eq:
  assumes "0 < n" "n < 2 ^ 63" "apart s (nat (n - 1)) t (nat (n - 1))"
  shows "safestrcpy m s t n = write_bytes m s (copied (nat (n - 1)) (mem_ptr m t) @ [0])"
proof -
  let ?k = "nat (n - 1)"
  have k: "?k < 2 ^ 64" using assms by simp
  show ?thesis
    using assms(1) k length_copied [of ?k "mem_ptr m t"] strncpy_copy_eq [OF k assms(3) refl]
    by (simp add: safestrcpy_def safestrcpy_copy_strncpy write_bytes_append write_bytes_single)
qed

subsection \<open>strlen\<close>

lemma strlen_from_eq: "cstr_len p k \<Longrightarrow> i \<le> k \<Longrightarrow> strlen_from p i = Some k"
proof (induction "k - i" arbitrary: i)
  case 0
  then show ?case by (simp add: strlen_from.simps [of p i] cstr_len_def)
next
  case (Suc d)
  then have "p i \<noteq> 0" "strlen_from p (Suc i) = Some k" by (auto simp: cstr_len_def)
  then show ?case by (simp add: strlen_from.simps [of p i])
qed

lemma strlen_eq: "cstr_len p k \<Longrightarrow> strlen p = Some k"
  by (simp add: strlen_def strlen_from_eq)

section \<open>Correctness\<close>

lemma write_bytes_outside: "length bs \<le> unat (x - a) \<Longrightarrow> write_bytes m a bs x = m x"
  by (simp add: write_bytes_def)

text \<open>
  C21. \<open>memmove\<close> copies correctly whichever way the regions overlap: afterwards the destination holds
  the bytes the source held before the call, and no byte outside the destination has changed.
\<close>
theorem memmove_correct:
  assumes "unat src + unat n < 2 ^ 64" "unat dst + unat n < 2 ^ 64"
  shows "read_bytes (memmove m dst src n) dst (unat n) = read_bytes m src (unat n) \<and>
    (\<forall>x. unat n \<le> unat (x - dst) \<longrightarrow> memmove m dst src n x = m x)"
proof -
  have "unat n < 2 ^ 32" using unsigned_less [of n] by simp
  then have "length (read_bytes m src (unat n)) \<le> 2 ^ 64" by simp
  from read_write_same [OF this] show ?thesis
    using memmove_eq [OF assms] by (simp add: write_bytes_outside)
qed

theorem memmove_correct_witness:
  "read_bytes (memmove (\<lambda>a. ucast a) 102 100 4) 102 4 = [100, 101, 102, 103] \<and>
   memmove (\<lambda>a. ucast a) 102 100 4 106 = (106 :: byte)"
  using memmove_correct [of 100 4 102 "\<lambda>a. ucast a"] by (simp add: read_bytes_def upt_rec)

text \<open>
  \<open>strncmp\<close> is the byte-wise order of the two C strings cut at \<open>n\<close>: it answers 0 exactly when
  they are equal, and a negative number exactly when the first precedes the second
  lexicographically.
\<close>
theorem strncmp_order:
  "(strncmp p q n = 0 \<longleftrightarrow> cstr_take n p = cstr_take n q) \<and>
   (strncmp p q n < 0 \<longleftrightarrow> ord_class.lexordp (cstr_take n p) (cstr_take n q))"
  by (simp add: strncmp_eq_0 strncmp_neg)

end
