(* ===== verification/Kstate.thy ===== *)
theory Kstate
  imports CString
begin

text \<open>
  The data of the kernel: the structures of its header files and the global variables of its
  source files, gathered into one record.

  A pointer to an element of a kernel table (\<open>struct proc *\<close>, \<open>struct buf *\<close>,
  \<open>struct inode *\<close>, \<open>struct file *\<close>) is the index of the element; a pointer that may be null is an
  \<open>option\<close>. Pages handed out by \<open>kalloc()\<close> are addresses of the byte memory \<open>mem\<close>; a page that
  holds a \<open>struct pipe\<close> is seen through the typed view \<open>pipes\<close>. Spin locks are named by
  \<open>lockid\<close>, sleep locks by \<open>sleepid\<close>, and the addresses that serve as sleep channels by \<open>chan\<close>.
  A C \<open>uint\<close> is a 32-bit word and a \<open>uint64\<close> a 64-bit word; a C \<open>int\<close>, whose overflow is
  undefined, is an \<open>int\<close>; a flag is a \<open>bool\<close>.
\<close>

section \<open>Parameters (param.h, memlayout.h, riscv.h, fs.h)\<close>

definition NPROC :: nat where "NPROC = 64"
definition NCPU :: nat where "NCPU = 8"
definition NOFILE :: nat where "NOFILE = 16"
definition NFILE :: nat where "NFILE = 100"
definition NINODE :: nat where "NINODE = 50"
definition NDEV :: nat where "NDEV = 10"
definition ROOTDEV :: u32 where "ROOTDEV = 1"
definition MAXARG :: nat where "MAXARG = 32"
definition MAXOPBLOCKS :: int where "MAXOPBLOCKS = 10"
definition LOGSIZE :: int where "LOGSIZE = MAXOPBLOCKS * 3"
definition NBUF :: nat where "NBUF = 30"
definition MAXPATH :: nat where "MAXPATH = 128"

definition PGSIZE :: addr where "PGSIZE = 4096"
definition KERNBASE :: addr where "KERNBASE = 0x80000000"
definition PHYSTOP :: addr where "PHYSTOP = KERNBASE + 128 * 1024 * 1024"
definition MAXVA :: addr where "MAXVA = push_bit (9 + 9 + 9 + 12 - 1) 1"
definition TRAMPOLINE :: addr where "TRAMPOLINE = MAXVA - PGSIZE"
definition TRAPFRAME :: addr where "TRAPFRAME = TRAMPOLINE - PGSIZE"
definition KSTACK :: "nat \<Rightarrow> addr" where "KSTACK p = TRAMPOLINE - (of_nat p + 1) * 2 * PGSIZE"

definition PGROUNDUP :: "addr \<Rightarrow> addr" where "PGROUNDUP sz = (sz + PGSIZE - 1) AND NOT (PGSIZE - 1)"
definition PGROUNDDOWN :: "addr \<Rightarrow> addr" where "PGROUNDDOWN a = a AND NOT (PGSIZE - 1)"

definition BSIZE :: nat where "BSIZE = 1024"
definition DIRSIZ :: nat where "DIRSIZ = 14"
definition NDIRECT :: nat where "NDIRECT = 12"
definition NINDIRECT :: nat where "NINDIRECT = BSIZE div 4"
definition MAXFILE :: nat where "MAXFILE = NDIRECT + NINDIRECT"
definition PIPESIZE :: nat where "PIPESIZE = 512"

section \<open>Locks and channels\<close>

datatype sleepid = BufLock nat | InodeLock nat

datatype lockid =
    KmemLock | PidLock | WaitLock | ProcLock nat | BcacheLock | LogLock | ItableLock | FtableLock
  | PipeLock addr | ConsLock | UartTxLock | TicksLock | PrLock | VdiskLock | SleepLk sleepid

datatype chan =
    ChProc nat | ChTicks | ChLog | ChPipeRead addr | ChPipeWrite addr | ChConsR | ChUartTxR
  | ChSleep sleepid | ChDiskFree | ChBuf nat

record spinlock =
  lk_locked :: bool
  lk_name :: string
  lk_cpu :: "nat option"

record sleeplock =
  sl_locked :: bool
  sl_name :: string
  sl_pid :: int

section \<open>Processors and processes (proc.h)\<close>

record kcontext =
  ctx_ra :: addr
  ctx_sp :: addr
  ctx_s :: "addr list"

record cpu =
  c_proc :: "nat option"
  c_noff :: int
  c_intena :: bool

datatype procstate = UNUSED | USED | SLEEPING | RUNNABLE | RUNNING | ZOMBIE

record proc =
  p_state :: procstate
  p_chan :: "chan option"
  p_killed :: int
  p_xstate :: int
  p_pid :: int
  p_parent :: "nat option"
  p_kstack :: addr
  p_sz :: addr
  p_pagetable :: addr
  p_trapframe :: addr
  p_context :: kcontext
  p_ofile :: "nat \<Rightarrow> nat option"
  p_cwd :: "nat option"
  p_name :: "byte list"
  p_is_thread :: bool
  p_father :: "nat option"
  p_tid :: int
  p_start :: addr
  p_size :: addr

text \<open>The trapframe lies in a page of its own; its fields are 64-bit words at these offsets.\<close>

definition tf_kernel_satp :: addr where "tf_kernel_satp = 0"
definition tf_kernel_sp :: addr where "tf_kernel_sp = 8"
definition tf_kernel_trap :: addr where "tf_kernel_trap = 16"
definition tf_epc :: addr where "tf_epc = 24"
definition tf_kernel_hartid :: addr where "tf_kernel_hartid = 32"
definition tf_ra :: addr where "tf_ra = 40"
definition tf_sp :: addr where "tf_sp = 48"
definition tf_a0 :: addr where "tf_a0 = 112"
definition tf_a1 :: addr where "tf_a1 = 120"
definition tf_a2 :: addr where "tf_a2 = 128"
definition tf_a3 :: addr where "tf_a3 = 136"
definition tf_a4 :: addr where "tf_a4 = 144"
definition tf_a5 :: addr where "tf_a5 = 152"
definition tf_a7 :: addr where "tf_a7 = 168"
definition sizeof_trapframe :: nat where "sizeof_trapframe = 288"

section \<open>Buffers, log, inodes, files, pipes (buf.h, log.c, fs.h, file.h, pipe.c)\<close>

record buf =
  b_valid :: bool
  b_disk :: bool
  b_dev :: u32
  b_blockno :: u32
  b_refcnt :: u32
  b_prev :: nat
  b_next :: nat
  b_data :: "byte list"

record logheader =
  lh_n :: int
  lh_block :: "nat \<Rightarrow> u32"

record logstate =
  l_start :: u32
  l_size :: int
  l_outstanding :: int
  l_committing :: bool
  l_dev :: u32
  l_lh :: logheader

record superblock =
  sb_magic :: u32
  sb_size :: u32
  sb_nblocks :: u32
  sb_ninodes :: u32
  sb_nlog :: u32
  sb_logstart :: u32
  sb_inodestart :: u32
  sb_bmapstart :: u32

record inode =
  i_dev :: u32
  i_inum :: u32
  i_ref :: int
  i_valid :: bool
  i_type :: u16
  i_major :: u16
  i_minor :: u16
  i_nlink :: u16
  i_size :: u32
  i_addrs :: "u32 list"

datatype filetype = FD_NONE | FD_PIPE | FD_INODE | FD_DEVICE

record kfile =
  f_type :: filetype
  f_ref :: int
  f_readable :: bool
  f_writable :: bool
  f_pipe :: addr
  f_ip :: nat
  f_off :: u32
  f_major :: u16

record pipe =
  pi_data :: "nat \<Rightarrow> byte"
  pi_nread :: u32
  pi_nwrite :: u32
  pi_readopen :: bool
  pi_writeopen :: bool

section \<open>Console and UART (console.c, uart.c)\<close>

record console =
  cons_buf :: "nat \<Rightarrow> byte"
  cons_r :: u32
  cons_w :: u32
  cons_e :: u32

text \<open>
  The driver's transmit ring, and the device behind it: \<open>uart_rx\<close> are the input bytes waiting in
  the receiver, \<open>uart_idle\<close> what the next reads of the line-status register say about the
  transmitter (it stays idle when nothing more is listed), \<open>uart_out\<close> the bytes written to the
  transmit holding register so far, \<open>uart_regs\<close> the control registers, and \<open>uart_div\<close> the divisor latch, which
  takes the place of registers 0 and 1 while the top bit of the line control register is set.
\<close>

record uart =
  uart_tx_buf :: "nat \<Rightarrow> byte"
  uart_tx_w :: addr
  uart_tx_r :: addr
  uart_rx :: "byte list"
  uart_idle :: "bool list"
  uart_out :: "byte list"
  uart_regs :: "nat \<Rightarrow> byte"
  uart_div :: "nat \<Rightarrow> byte"

section \<open>The disk driver (virtio.h, virtio_disk.c)\<close>

text \<open>
  What a descriptor points to: a command header, the data of a buffer, or a status byte. The record \<open>vdisk\<close> has the three
  queues in the pages the driver allocated for them, the driver's own book-keeping, and the device's registers.
\<close>

datatype dma = DmaNull | DmaOp nat | DmaData nat | DmaStatus nat

record virtq_desc =
  vd_addr :: dma
  vd_len :: u32
  vd_flags :: u16
  vd_next :: u16

record virtio_blk_req =
  vr_type :: u32
  vr_reserved :: u32
  vr_sector :: addr

record vdisk =
  desc_page :: addr
  avail_page :: addr
  used_page :: addr
  vq_desc :: "nat \<Rightarrow> virtq_desc"
  avail_idx :: u16
  avail_ring :: "nat \<Rightarrow> u16"
  dev_used_idx :: u16
  used_ring :: "nat \<Rightarrow> u32"
  vfree :: "nat \<Rightarrow> bool"
  used_idx :: u16
  info_b :: "nat \<Rightarrow> nat option"
  info_status :: "nat \<Rightarrow> byte"
  vops :: "nat \<Rightarrow> virtio_blk_req"
  mmio :: "nat \<Rightarrow> u32"

section \<open>The kernel's state\<close>

text \<open>Addresses fixed when the kernel is linked (kernel.ld, trampoline.S, kernelvec.S).\<close>

record symbols =
  sym_end :: addr
  sym_etext :: addr
  sym_trampoline :: addr
  sym_uservec :: addr
  sym_userret :: addr
  sym_kernelvec :: addr
  sym_forkret :: addr
  sym_usertrap :: addr

text \<open>Supervisor registers of the running hart that the trap code uses.\<close>

record csrs =
  r_sstatus :: addr
  r_sepc :: addr
  r_scause :: addr
  r_stval :: addr
  r_stvec :: addr
  r_satp :: addr
  r_sip :: addr

text \<open>
  \<open>disk\<close> is the contents of the disk, block by block, and \<open>disk_writes\<close> the writes that led to it, in the
  order the disk performed them.
\<close>

record kstate =
  hart :: nat
  sie :: bool
  csr :: csrs
  syms :: symbols
  cpus :: "nat \<Rightarrow> cpu"
  locks :: "lockid \<Rightarrow> spinlock"
  sleeplocks :: "sleepid \<Rightarrow> sleeplock"
  mem :: mem
  freelist :: addr
  kernel_pagetable :: addr
  procs :: "nat \<Rightarrow> proc"
  initproc :: "nat option"
  nextpid :: int
  forkret_first :: bool
  bufs :: "nat \<Rightarrow> buf"
  disk :: "u32 \<Rightarrow> byte list"
  disk_writes :: "(u32 \<times> byte list) list"
  log :: logstate
  sb :: superblock
  itable :: "nat \<Rightarrow> inode"
  ftable :: "nat \<Rightarrow> kfile"
  pipes :: "addr \<Rightarrow> pipe"
  cons :: console
  uart :: uart
  devsw_read :: "nat \<Rightarrow> bool"
  devsw_write :: "nat \<Rightarrow> bool"
  ticks :: u32
  panicked :: bool
  pr_locking :: bool
  irqs :: "nat list"
  plic :: "addr \<Rightarrow> u32"
  vdisk :: vdisk
  started :: bool

text \<open>
  The state a kernel thread runs on: the kernel's state, and the schedule, that is, what the rest
  of the machine does to the kernel's state each time this thread gives up its processor.
\<close>

record kworld = kstate +
  env :: "(kstate \<Rightarrow> kstate) list"

type_synonym 'a K = "(kworld, 'a) prog"

section \<open>Updating structures in place\<close>

definition upd_vdisk :: "(vdisk \<Rightarrow> vdisk) \<Rightarrow> 'z kstate_scheme \<Rightarrow> 'z kstate_scheme" where
  "upd_vdisk f s = s\<lparr>vdisk := f (vdisk s)\<rparr>"

definition upd_proc :: "nat \<Rightarrow> (proc \<Rightarrow> proc) \<Rightarrow> 'z kstate_scheme \<Rightarrow> 'z kstate_scheme" where
  "upd_proc p f s = s\<lparr>procs := (procs s)(p := f (procs s p))\<rparr>"

definition upd_cpu :: "(cpu \<Rightarrow> cpu) \<Rightarrow> 'z kstate_scheme \<Rightarrow> 'z kstate_scheme" where
  "upd_cpu f s = s\<lparr>cpus := (cpus s)(hart s := f (cpus s (hart s)))\<rparr>"

definition upd_lock :: "lockid \<Rightarrow> (spinlock \<Rightarrow> spinlock) \<Rightarrow> 'z kstate_scheme \<Rightarrow> 'z kstate_scheme" where
  "upd_lock lk f s = s\<lparr>locks := (locks s)(lk := f (locks s lk))\<rparr>"

definition upd_sleep :: "sleepid \<Rightarrow> (sleeplock \<Rightarrow> sleeplock) \<Rightarrow> 'z kstate_scheme \<Rightarrow> 'z kstate_scheme" where
  "upd_sleep lk f s = s\<lparr>sleeplocks := (sleeplocks s)(lk := f (sleeplocks s lk))\<rparr>"

definition upd_buf :: "nat \<Rightarrow> (buf \<Rightarrow> buf) \<Rightarrow> 'z kstate_scheme \<Rightarrow> 'z kstate_scheme" where
  "upd_buf b f s = s\<lparr>bufs := (bufs s)(b := f (bufs s b))\<rparr>"

definition upd_inode :: "nat \<Rightarrow> (inode \<Rightarrow> inode) \<Rightarrow> 'z kstate_scheme \<Rightarrow> 'z kstate_scheme" where
  "upd_inode i f s = s\<lparr>itable := (itable s)(i := f (itable s i))\<rparr>"

definition upd_file :: "nat \<Rightarrow> (kfile \<Rightarrow> kfile) \<Rightarrow> 'z kstate_scheme \<Rightarrow> 'z kstate_scheme" where
  "upd_file i f s = s\<lparr>ftable := (ftable s)(i := f (ftable s i))\<rparr>"

definition upd_pipe :: "addr \<Rightarrow> (pipe \<Rightarrow> pipe) \<Rightarrow> 'z kstate_scheme \<Rightarrow> 'z kstate_scheme" where
  "upd_pipe a f s = s\<lparr>pipes := (pipes s)(a := f (pipes s a))\<rparr>"

definition upd_log :: "(logstate \<Rightarrow> logstate) \<Rightarrow> 'z kstate_scheme \<Rightarrow> 'z kstate_scheme" where
  "upd_log f s = s\<lparr>log := f (log s)\<rparr>"

definition upd_cons :: "(console \<Rightarrow> console) \<Rightarrow> 'z kstate_scheme \<Rightarrow> 'z kstate_scheme" where
  "upd_cons f s = s\<lparr>cons := f (cons s)\<rparr>"

definition upd_uart :: "(uart \<Rightarrow> uart) \<Rightarrow> 'z kstate_scheme \<Rightarrow> 'z kstate_scheme" where
  "upd_uart f s = s\<lparr>uart := f (uart s)\<rparr>"

lemmas upd_defs = upd_proc_def upd_cpu_def upd_lock_def upd_sleep_def upd_buf_def upd_inode_def
  upd_file_def upd_pipe_def upd_log_def upd_cons_def upd_uart_def upd_vdisk_def

section \<open>The state at power-on\<close>

text \<open>All static data of the kernel is zero when it starts; \<open>syms\<close> gives the linked addresses.\<close>

definition zero_proc :: proc where
  "zero_proc = \<lparr>p_state = UNUSED, p_chan = None, p_killed = 0, p_xstate = 0, p_pid = 0,
     p_parent = None, p_kstack = 0, p_sz = 0, p_pagetable = 0, p_trapframe = 0,
     p_context = \<lparr>ctx_ra = 0, ctx_sp = 0, ctx_s = replicate 12 0\<rparr>,
     p_ofile = (\<lambda>_. None), p_cwd = None, p_name = replicate 16 0, p_is_thread = False,
     p_father = None, p_tid = 0, p_start = 0, p_size = 0\<rparr>"

definition zero_buf :: buf where
  "zero_buf = \<lparr>b_valid = False, b_disk = False, b_dev = 0, b_blockno = 0, b_refcnt = 0,
     b_prev = 0, b_next = 0, b_data = replicate 1024 0\<rparr>"

definition zero_inode :: inode where
  "zero_inode = \<lparr>i_dev = 0, i_inum = 0, i_ref = 0, i_valid = False, i_type = 0, i_major = 0,
     i_minor = 0, i_nlink = 0, i_size = 0, i_addrs = replicate 13 0\<rparr>"

definition zero_file :: kfile where
  "zero_file = \<lparr>f_type = FD_NONE, f_ref = 0, f_readable = False, f_writable = False, f_pipe = 0,
     f_ip = 0, f_off = 0, f_major = 0\<rparr>"

definition zero_pipe :: pipe where
  "zero_pipe = \<lparr>pi_data = (\<lambda>_. 0), pi_nread = 0, pi_nwrite = 0, pi_readopen = False,
     pi_writeopen = False\<rparr>"

definition zero_vdisk :: vdisk where
  "zero_vdisk = \<lparr>desc_page = 0, avail_page = 0, used_page = 0,
     vq_desc = (\<lambda>_. \<lparr>vd_addr = DmaNull, vd_len = 0, vd_flags = 0, vd_next = 0\<rparr>),
     avail_idx = 0, avail_ring = (\<lambda>_. 0), dev_used_idx = 0, used_ring = (\<lambda>_. 0), vfree = (\<lambda>_. False), used_idx = 0,
     info_b = (\<lambda>_. None), info_status = (\<lambda>_. 0), vops = (\<lambda>_. \<lparr>vr_type = 0, vr_reserved = 0, vr_sector = 0\<rparr>),
     mmio = (\<lambda>_. 0)\<rparr>"

definition zero_world :: "symbols \<Rightarrow> kworld" where
  "zero_world sy = \<lparr>hart = 0, sie = False,
     csr = \<lparr>r_sstatus = 0, r_sepc = 0, r_scause = 0, r_stval = 0, r_stvec = 0, r_satp = 0, r_sip = 0\<rparr>,
     syms = sy,
     cpus = (\<lambda>_. \<lparr>c_proc = None, c_noff = 0, c_intena = False\<rparr>),
     locks = (\<lambda>_. \<lparr>lk_locked = False, lk_name = [], lk_cpu = None\<rparr>),
     sleeplocks = (\<lambda>_. \<lparr>sl_locked = False, sl_name = [], sl_pid = 0\<rparr>),
     mem = (\<lambda>_. 0), freelist = 0, kernel_pagetable = 0, procs = (\<lambda>_. zero_proc), initproc = None,
     nextpid = 1, forkret_first = True, bufs = (\<lambda>_. zero_buf), disk = (\<lambda>_. replicate 1024 0), disk_writes = [],
     log = \<lparr>l_start = 0, l_size = 0, l_outstanding = 0, l_committing = False, l_dev = 0,
       l_lh = \<lparr>lh_n = 0, lh_block = (\<lambda>_. 0)\<rparr>\<rparr>,
     sb = \<lparr>sb_magic = 0, sb_size = 0, sb_nblocks = 0, sb_ninodes = 0, sb_nlog = 0, sb_logstart = 0,
       sb_inodestart = 0, sb_bmapstart = 0\<rparr>,
     itable = (\<lambda>_. zero_inode), ftable = (\<lambda>_. zero_file), pipes = (\<lambda>_. zero_pipe),
     cons = \<lparr>cons_buf = (\<lambda>_. 0), cons_r = 0, cons_w = 0, cons_e = 0\<rparr>,
     uart = \<lparr>uart_tx_buf = (\<lambda>_. 0), uart_tx_w = 0, uart_tx_r = 0, uart_rx = [], uart_idle = [],
       uart_out = [], uart_regs = (\<lambda>_. 0), uart_div = (\<lambda>_. 0)\<rparr>,
     devsw_read = (\<lambda>_. False), devsw_write = (\<lambda>_. False), ticks = 0, panicked = False,
     pr_locking = False, irqs = [], plic = (\<lambda>_. 0), vdisk = zero_vdisk, started = False, env = []\<rparr>"

text \<open>A link map like that of the shipped kernel, for concrete examples.\<close>

definition example_syms :: symbols where
  "example_syms = \<lparr>sym_end = 0x80022000, sym_etext = 0x80008000, sym_trampoline = 0x80007000,
     sym_uservec = 0x80007000, sym_userret = 0x8000709c, sym_kernelvec = 0x80005c90,
     sym_forkret = 0x80001a00, sym_usertrap = 0x80002500\<rparr>"

end
