(* ===== verification/Spinlock.thy ===== *)
theory Spinlock
  imports Kstate
begin

text \<open>
  Spin locks (\<open>kernel/spinlock.c\<close>), the interrupt-disable nesting they rest on, and the access to the
  running processor and process (\<open>cpuid\<close>, \<open>mycpu\<close>, \<open>myproc\<close> of \<open>kernel/proc.c\<close>).

  The second half gives the normal form in which the other theories execute critical sections: a
  state inside \<open>acquire(lk) .. release(lk)\<close> is \<open>take_lock lk s\<close> for the state \<open>s\<close> that the section
  would leave without the lock. The last section is the lock under concurrency: any number of
  harts that take the steps of \<open>acquire\<close> and \<open>release\<close> in any order.
\<close>

section \<open>Interrupts and processors\<close>

definition intr_get :: "bool K" where "intr_get = kget sie"
definition intr_on :: "unit K" where "intr_on = kmod (\<lambda>s. s\<lparr>sie := True\<rparr>)"
definition intr_off :: "unit K" where "intr_off = kmod (\<lambda>s. s\<lparr>sie := False\<rparr>)"

definition cpuid :: "nat K" where "cpuid = kget hart"

definition mycpu :: "cpu K" where
  "mycpu = kbind cpuid (\<lambda>id. kget (\<lambda>s. cpus s id))"

definition push_off :: "unit K" where
  "push_off =
     kbind intr_get (\<lambda>old. kseq [
       intr_off,
       kbind mycpu (\<lambda>c. kwhen (c_noff c = 0) (kmod (upd_cpu (\<lambda>c. c\<lparr>c_intena := old\<rparr>)))),
       kmod (upd_cpu (\<lambda>c. c\<lparr>c_noff := c_noff c + 1\<rparr>))])"

definition pop_off :: "unit K" where
  "pop_off =
     kbind intr_get (\<lambda>on. kseq [
       kwhen on (panic ''pop_off - interruptible''),
       kbind mycpu (\<lambda>c. kwhen (c_noff c < 1) (panic ''pop_off'')),
       kmod (upd_cpu (\<lambda>c. c\<lparr>c_noff := c_noff c - 1\<rparr>)),
       kbind mycpu (\<lambda>c. kwhen (c_noff c = 0 \<and> c_intena c) intr_on)])"

definition myproc :: "nat option K" where
  "myproc = kbind push_off (\<lambda>_. kbind mycpu (\<lambda>c. kbind pop_off (\<lambda>_. kret (c_proc c))))"

text \<open>
  Code that dereferences \<open>myproc()\<close> without a check runs only in process context; on a null pointer
  it would fault.
\<close>

definition curproc :: "nat K" where
  "curproc = kbind myproc (\<lambda>p. case p of None \<Rightarrow> panic ''null pointer'' | Some i \<Rightarrow> kret i)"

section \<open>The lock\<close>

text \<open>The atomic accesses to the lock word, as the RISC-V atomic swaps perform them.\<close>

definition lock_swap :: "spinlock \<Rightarrow> bool \<times> spinlock" where
  "lock_swap l = (lk_locked l, l\<lparr>lk_locked := True\<rparr>)"

definition lock_clear :: "spinlock \<Rightarrow> spinlock" where
  "lock_clear l = l\<lparr>lk_locked := False\<rparr>"

definition test_and_set :: "lockid \<Rightarrow> bool K" where
  "test_and_set lk =
     kbind (kget (\<lambda>s. fst (lock_swap (locks s lk)))) (\<lambda>old.
     kbind (kmod (upd_lock lk (\<lambda>l. snd (lock_swap l)))) (\<lambda>_.
     kret old))"

definition initlock :: "lockid \<Rightarrow> string \<Rightarrow> unit K" where
  "initlock lk name =
     kmod (upd_lock lk (\<lambda>l. l\<lparr>lk_name := name, lk_locked := False, lk_cpu := None\<rparr>))"

definition holding :: "lockid \<Rightarrow> bool K" where
  "holding lk = kbind cpuid (\<lambda>c. kget (\<lambda>s. lk_locked (locks s lk) \<and> lk_cpu (locks s lk) = Some c))"

definition spin_until_set :: "lockid \<Rightarrow> unit K" where
  "spin_until_set lk =
     kloop (\<lambda>_. kbind (test_and_set lk) (\<lambda>old. kret (if old then Inl () else Inr ()))) ()"

definition acquire :: "lockid \<Rightarrow> unit K" where
  "acquire lk = kseq [
     push_off,
     kbind (holding lk) (\<lambda>h. kwhen h (panic ''acquire'')),
     spin_until_set lk,
     kbind cpuid (\<lambda>c. kmod (upd_lock lk (\<lambda>l. l\<lparr>lk_cpu := Some c\<rparr>)))]"

definition release :: "lockid \<Rightarrow> unit K" where
  "release lk = kseq [
     kbind (holding lk) (\<lambda>h. kwhen (\<not> h) (panic ''release'')),
     kmod (upd_lock lk (\<lambda>l. l\<lparr>lk_cpu := None\<rparr>)),
     kmod (upd_lock lk lock_clear),
     pop_off]"

lemmas spinlock_defs = intr_get_def intr_on_def intr_off_def cpuid_def mycpu_def push_off_def
  pop_off_def test_and_set_def holding_def lock_swap_def lock_clear_def

section \<open>Critical sections\<close>

text \<open>The processor the code runs on.\<close>

abbreviation mycpu_of :: "'z kstate_scheme \<Rightarrow> cpu" where
  "mycpu_of s \<equiv> cpus s (hart s)"

text \<open>
  The interrupt bookkeeping of the running hart is settled: with no \<open>push_off\<close> pending, \<open>intena\<close>
  says whether interrupts are on; with one pending they are off.
\<close>

definition settled :: "'z kstate_scheme \<Rightarrow> bool" where
  "settled s \<longleftrightarrow> 0 \<le> c_noff (mycpu_of s) \<and>
     (if c_noff (mycpu_of s) = 0 then c_intena (mycpu_of s) = sie s else \<not> sie s)"

definition lock_free :: "lockid \<Rightarrow> 'z kstate_scheme \<Rightarrow> bool" where
  "lock_free lk s \<longleftrightarrow> \<not> lk_locked (locks s lk) \<and> lk_cpu (locks s lk) = None"

definition held :: "lockid \<Rightarrow> 'z kstate_scheme \<Rightarrow> bool" where
  "held lk s \<longleftrightarrow> lk_locked (locks s lk) \<and> lk_cpu (locks s lk) = Some (hart s)"

definition take_lock :: "lockid \<Rightarrow> 'z kstate_scheme \<Rightarrow> 'z kstate_scheme" where
  "take_lock lk s = s\<lparr>
     sie := False,
     cpus := (cpus s)(hart s := (mycpu_of s)\<lparr>
       c_intena := (if c_noff (mycpu_of s) = 0 then sie s else c_intena (mycpu_of s)),
       c_noff := c_noff (mycpu_of s) + 1\<rparr>),
     locks := (locks s)(lk := (locks s lk)\<lparr>lk_locked := True, lk_cpu := Some (hart s)\<rparr>)\<rparr>"

text \<open>Storing the values a record already has changes nothing.\<close>

lemma cpu_noop:
  "c_intena c = i \<Longrightarrow> c_noff c = n \<Longrightarrow> c\<lparr>c_intena := i, c_noff := n\<rparr> = c"
  "c_intena c = i \<Longrightarrow> c\<lparr>c_intena := i\<rparr> = c"
  "c_noff c = n \<Longrightarrow> c\<lparr>c_noff := n\<rparr> = c"
  by auto

lemma spinlock_noop:
  "lk_locked l = b \<Longrightarrow> lk_cpu l = c \<Longrightarrow> l\<lparr>lk_locked := b, lk_cpu := c\<rparr> = l"
  "lk_locked l = b \<Longrightarrow> l\<lparr>lk_locked := b\<rparr> = l"
  "lk_cpu l = c \<Longrightarrow> l\<lparr>lk_cpu := c\<rparr> = l"
  by auto

lemma kstate_noop:
  "sie s = b \<Longrightarrow> s\<lparr>sie := b\<rparr> = s"
  "cpus s = c \<Longrightarrow> s\<lparr>cpus := c\<rparr> = s"
  "locks s = l \<Longrightarrow> s\<lparr>locks := l\<rparr> = s"
  by auto

lemmas lock_noops = cpu_noop spinlock_noop kstate_noop

lemma spin_until_set_free:
  "\<not> lk_locked (locks s lk) \<Longrightarrow>
     spin_until_set lk s = Ret () (upd_lock lk (\<lambda>l. l\<lparr>lk_locked := True\<rparr>) s)"
  unfolding spin_until_set_def
  by (rule kloop_done) (simp add: exec_simps spinlock_defs)

lemma spin_until_set_taken: "lk_locked (locks s lk) \<Longrightarrow> spin_until_set lk s = Spin"
  unfolding spin_until_set_def
  by (rule kloop_Spin) (simp add: exec_simps spinlock_defs upd_defs lock_noops)

lemma acquire_free: "lock_free lk s \<Longrightarrow> acquire lk s = Ret () (take_lock lk s)"
  by (simp add: acquire_def exec_simps spinlock_defs lock_free_def upd_defs take_lock_def
      spin_until_set_free)

text \<open>Taking a lock one holds is a panic; taking one another hart holds never returns.\<close>

lemma acquire_held: "held lk s \<Longrightarrow> acquire lk s = Panic ''acquire''"
  by (simp add: acquire_def exec_simps spinlock_defs held_def upd_defs)

lemma acquire_taken:
  "lk_locked (locks s lk) \<Longrightarrow> lk_cpu (locks s lk) \<noteq> Some (hart s) \<Longrightarrow> acquire lk s = Spin"
  by (simp add: acquire_def exec_simps spinlock_defs upd_defs spin_until_set_taken)

lemma release_not_held: "\<not> held lk s \<Longrightarrow> release lk s = Panic ''release''"
  by (simp add: release_def exec_simps spinlock_defs held_def)

lemma release_take:
  "lock_free lk s \<Longrightarrow> settled s \<Longrightarrow> release lk (take_lock lk s) = Ret () s"
  by (simp add: release_def exec_simps spinlock_defs lock_free_def settled_def upd_defs
      take_lock_def lock_noops split: if_splits)

lemma myproc_settled: "settled s \<Longrightarrow> myproc s = Ret (c_proc (mycpu_of s)) s"
  by (simp add: myproc_def exec_simps spinlock_defs settled_def upd_defs lock_noops split: if_splits)

text \<open>
  Everything but the interrupt bookkeeping and the lock itself is what it was: reads look through
  \<open>take_lock\<close>, and writes move under it.
\<close>

lemma take_lock_select [simp]:
  "hart (take_lock lk s) = hart s"
  "csr (take_lock lk s) = csr s"
  "syms (take_lock lk s) = syms s"
  "sleeplocks (take_lock lk s) = sleeplocks s"
  "mem (take_lock lk s) = mem s"
  "freelist (take_lock lk s) = freelist s"
  "kernel_pagetable (take_lock lk s) = kernel_pagetable s"
  "procs (take_lock lk s) = procs s"
  "initproc (take_lock lk s) = initproc s"
  "nextpid (take_lock lk s) = nextpid s"
  "forkret_first (take_lock lk s) = forkret_first s"
  "bufs (take_lock lk s) = bufs s"
  "disk (take_lock lk s) = disk s"
  "disk_writes (take_lock lk s) = disk_writes s"
  "log (take_lock lk s) = log s"
  "sb (take_lock lk s) = sb s"
  "itable (take_lock lk s) = itable s"
  "ftable (take_lock lk s) = ftable s"
  "pipes (take_lock lk s) = pipes s"
  "cons (take_lock lk s) = cons s"
  "uart (take_lock lk s) = uart s"
  "devsw_read (take_lock lk s) = devsw_read s"
  "devsw_write (take_lock lk s) = devsw_write s"
  "ticks (take_lock lk s) = ticks s"
  "panicked (take_lock lk s) = panicked s"
  "pr_locking (take_lock lk s) = pr_locking s"
  "irqs (take_lock lk s) = irqs s"
  "plic (take_lock lk s) = plic s"
  "vdisk (take_lock lk s) = vdisk s"
  "started (take_lock lk s) = started s"
  by (simp_all add: take_lock_def)

lemma take_lock_update [simp]:
  "csr_update f1 (take_lock lk s) = take_lock lk (csr_update f1 s)"
  "syms_update f2 (take_lock lk s) = take_lock lk (syms_update f2 s)"
  "sleeplocks_update f3 (take_lock lk s) = take_lock lk (sleeplocks_update f3 s)"
  "mem_update f4 (take_lock lk s) = take_lock lk (mem_update f4 s)"
  "freelist_update f5 (take_lock lk s) = take_lock lk (freelist_update f5 s)"
  "kernel_pagetable_update f6 (take_lock lk s) = take_lock lk (kernel_pagetable_update f6 s)"
  "procs_update f7 (take_lock lk s) = take_lock lk (procs_update f7 s)"
  "initproc_update f8 (take_lock lk s) = take_lock lk (initproc_update f8 s)"
  "nextpid_update f9 (take_lock lk s) = take_lock lk (nextpid_update f9 s)"
  "forkret_first_update f10 (take_lock lk s) = take_lock lk (forkret_first_update f10 s)"
  "bufs_update f11 (take_lock lk s) = take_lock lk (bufs_update f11 s)"
  "disk_update f12 (take_lock lk s) = take_lock lk (disk_update f12 s)"
  "disk_writes_update f26 (take_lock lk s) = take_lock lk (disk_writes_update f26 s)"
  "log_update f13 (take_lock lk s) = take_lock lk (log_update f13 s)"
  "sb_update f14 (take_lock lk s) = take_lock lk (sb_update f14 s)"
  "itable_update f15 (take_lock lk s) = take_lock lk (itable_update f15 s)"
  "ftable_update f16 (take_lock lk s) = take_lock lk (ftable_update f16 s)"
  "pipes_update f17 (take_lock lk s) = take_lock lk (pipes_update f17 s)"
  "cons_update f18 (take_lock lk s) = take_lock lk (cons_update f18 s)"
  "uart_update f19 (take_lock lk s) = take_lock lk (uart_update f19 s)"
  "devsw_read_update f20 (take_lock lk s) = take_lock lk (devsw_read_update f20 s)"
  "devsw_write_update f21 (take_lock lk s) = take_lock lk (devsw_write_update f21 s)"
  "ticks_update f22 (take_lock lk s) = take_lock lk (ticks_update f22 s)"
  "panicked_update f23 (take_lock lk s) = take_lock lk (panicked_update f23 s)"
  "pr_locking_update f24 (take_lock lk s) = take_lock lk (pr_locking_update f24 s)"
  "irqs_update f25 (take_lock lk s) = take_lock lk (irqs_update f25 s)"
  "plic_update f27 (take_lock lk s) = take_lock lk (plic_update f27 s)"
  "vdisk_update f28 (take_lock lk s) = take_lock lk (vdisk_update f28 s)"
  "started_update f29 (take_lock lk s) = take_lock lk (started_update f29 s)"
  by (simp_all add: take_lock_def)

lemma take_lock_c_proc [simp]: "c_proc (cpus (take_lock lk s) h) = c_proc (cpus s h)"
  by (simp add: take_lock_def)

lemma take_lock_upd [simp]:
  "upd_proc p g (take_lock lk s) = take_lock lk (upd_proc p g s)"
  "upd_sleep i g1 (take_lock lk s) = take_lock lk (upd_sleep i g1 s)"
  "upd_buf b g2 (take_lock lk s) = take_lock lk (upd_buf b g2 s)"
  "upd_inode i2 g3 (take_lock lk s) = take_lock lk (upd_inode i2 g3 s)"
  "upd_file i3 g4 (take_lock lk s) = take_lock lk (upd_file i3 g4 s)"
  "upd_pipe a g5 (take_lock lk s) = take_lock lk (upd_pipe a g5 s)"
  "upd_log g6 (take_lock lk s) = take_lock lk (upd_log g6 s)"
  "upd_cons g7 (take_lock lk s) = take_lock lk (upd_cons g7 s)"
  "upd_uart g8 (take_lock lk s) = take_lock lk (upd_uart g8 s)"
  "upd_vdisk g9 (take_lock lk s) = take_lock lk (upd_vdisk g9 s)"
  by (simp_all add: upd_defs take_lock_def)

lemma lock_free_take [simp]: "lock_free l (take_lock lk s) \<longleftrightarrow> l \<noteq> lk \<and> lock_free l s"
  by (auto simp: lock_free_def take_lock_def)

lemma held_take [simp]: "held l (take_lock lk s) \<longleftrightarrow> l = lk \<or> held l s"
  by (auto simp: held_def take_lock_def)

lemma settled_take [simp]: "settled s \<Longrightarrow> settled (take_lock lk s)"
  by (simp add: settled_def take_lock_def)

lemma take_lock_commute:
  "settled s \<Longrightarrow> l \<noteq> lk \<Longrightarrow> take_lock l (take_lock lk s) = take_lock lk (take_lock l s)"
  by (simp add: take_lock_def settled_def fun_upd_twist)

text \<open>Two locks released in the order they were taken.\<close>

lemma release_under:
  "lock_free lk s \<Longrightarrow> settled s \<Longrightarrow> l \<noteq> lk \<Longrightarrow>
     release lk (take_lock l (take_lock lk s)) = Ret () (take_lock l s)"
  by (subst take_lock_commute) (simp_all add: release_take)

text \<open>Which process a processor runs is independent of the locks.\<close>

lemma upd_c_proc_locks [simp]:
  "upd_cpu (c_proc_update f) (take_lock lk s) = take_lock lk (upd_cpu (c_proc_update f) s)"
  "settled (upd_cpu (c_proc_update f) s) = settled s"
  by (rule kstate.equality; simp add: upd_cpu_def take_lock_def fun_eq_iff)
     (simp add: upd_cpu_def settled_def)

lemma noff_take [simp]:
  "c_noff (cpus (take_lock lk s) h) = (if h = hart s then c_noff (mycpu_of s) + 1 else c_noff (cpus s h))"
  by (simp add: take_lock_def)

lemma sie_take [simp]: "\<not> sie (take_lock lk s)"
  by (simp add: take_lock_def)

lemma holding_eq: "holding lk s = Ret (held lk s) s"
  by (simp add: holding_def exec_simps cpuid_def held_def)

lemma mycpu_eq: "mycpu s = Ret (mycpu_of s) s"
  by (simp add: mycpu_def exec_simps cpuid_def)

lemma intr_get_eq: "intr_get s = Ret (sie s) s"
  by (simp add: intr_get_def exec_simps)

lemmas cpu_exec = holding_eq mycpu_eq intr_get_eq

text \<open>The lock predicates read only the lock and processor fields.\<close>

lemma lock_free_cong: "locks s = locks t \<Longrightarrow> lock_free lk s \<longleftrightarrow> lock_free lk t"
  by (simp add: lock_free_def)

lemma settled_cong: "cpus s = cpus t \<Longrightarrow> hart s = hart t \<Longrightarrow> sie s = sie t \<Longrightarrow> settled s \<longleftrightarrow> settled t"
  by (simp add: settled_def)

lemma lock_free_update [simp]:
  "lock_free lk (hart_update f1 s) = lock_free lk s"
  "lock_free lk (sie_update f2 s) = lock_free lk s"
  "lock_free lk (csr_update f3 s) = lock_free lk s"
  "lock_free lk (syms_update f4 s) = lock_free lk s"
  "lock_free lk (cpus_update f5 s) = lock_free lk s"
  "lock_free lk (sleeplocks_update f6 s) = lock_free lk s"
  "lock_free lk (mem_update f7 s) = lock_free lk s"
  "lock_free lk (freelist_update f8 s) = lock_free lk s"
  "lock_free lk (kernel_pagetable_update f9 s) = lock_free lk s"
  "lock_free lk (procs_update f10 s) = lock_free lk s"
  "lock_free lk (initproc_update f11 s) = lock_free lk s"
  "lock_free lk (nextpid_update f12 s) = lock_free lk s"
  "lock_free lk (forkret_first_update f13 s) = lock_free lk s"
  "lock_free lk (bufs_update f14 s) = lock_free lk s"
  "lock_free lk (disk_update f15 s) = lock_free lk s"
  "lock_free lk (disk_writes_update f29 s) = lock_free lk s"
  "lock_free lk (log_update f16 s) = lock_free lk s"
  "lock_free lk (sb_update f17 s) = lock_free lk s"
  "lock_free lk (itable_update f18 s) = lock_free lk s"
  "lock_free lk (ftable_update f19 s) = lock_free lk s"
  "lock_free lk (pipes_update f20 s) = lock_free lk s"
  "lock_free lk (cons_update f21 s) = lock_free lk s"
  "lock_free lk (uart_update f22 s) = lock_free lk s"
  "lock_free lk (devsw_read_update f23 s) = lock_free lk s"
  "lock_free lk (devsw_write_update f24 s) = lock_free lk s"
  "lock_free lk (ticks_update f25 s) = lock_free lk s"
  "lock_free lk (panicked_update f26 s) = lock_free lk s"
  "lock_free lk (pr_locking_update f27 s) = lock_free lk s"
  "lock_free lk (irqs_update f28 s) = lock_free lk s"
  "lock_free lk (plic_update f30 s) = lock_free lk s"
  "lock_free lk (vdisk_update f31 s) = lock_free lk s"
  "lock_free lk (started_update f32 s) = lock_free lk s"
  by (simp_all add: lock_free_def)

lemma settled_update [simp]:
  "settled (locks_update f1 s) = settled s"
  "settled (csr_update f2 s) = settled s"
  "settled (syms_update f3 s) = settled s"
  "settled (sleeplocks_update f4 s) = settled s"
  "settled (mem_update f5 s) = settled s"
  "settled (freelist_update f6 s) = settled s"
  "settled (kernel_pagetable_update f7 s) = settled s"
  "settled (procs_update f8 s) = settled s"
  "settled (initproc_update f9 s) = settled s"
  "settled (nextpid_update f10 s) = settled s"
  "settled (forkret_first_update f11 s) = settled s"
  "settled (bufs_update f12 s) = settled s"
  "settled (disk_update f13 s) = settled s"
  "settled (disk_writes_update f27 s) = settled s"
  "settled (log_update f14 s) = settled s"
  "settled (sb_update f15 s) = settled s"
  "settled (itable_update f16 s) = settled s"
  "settled (ftable_update f17 s) = settled s"
  "settled (pipes_update f18 s) = settled s"
  "settled (cons_update f19 s) = settled s"
  "settled (uart_update f20 s) = settled s"
  "settled (devsw_read_update f21 s) = settled s"
  "settled (devsw_write_update f22 s) = settled s"
  "settled (ticks_update f23 s) = settled s"
  "settled (panicked_update f24 s) = settled s"
  "settled (pr_locking_update f25 s) = settled s"
  "settled (irqs_update f26 s) = settled s"
  "settled (plic_update f28 s) = settled s"
  "settled (vdisk_update f29 s) = settled s"
  "settled (started_update f30 s) = settled s"
  by (simp_all add: settled_def)

lemma env_update_locks [simp]:
  "lock_free lk (env_update e s) = lock_free lk s" "settled (env_update e s) = settled s"
  "env (take_lock lk s) = env s" "env_update e (take_lock lk s) = take_lock lk (env_update e s)"
  by (simp_all add: lock_free_def settled_def take_lock_def)

lemma lock_free_upd [simp]:
  "lock_free lk (upd_proc p g s) = lock_free lk s" "lock_free lk (upd_sleep i g1 s) = lock_free lk s"
  "lock_free lk (upd_buf b g2 s) = lock_free lk s" "lock_free lk (upd_inode i2 g3 s) = lock_free lk s"
  "lock_free lk (upd_file i3 g4 s) = lock_free lk s" "lock_free lk (upd_pipe a g5 s) = lock_free lk s"
  "lock_free lk (upd_log g6 s) = lock_free lk s" "lock_free lk (upd_cons g7 s) = lock_free lk s"
  "lock_free lk (upd_vdisk g10 s) = lock_free lk s" "lock_free lk (upd_uart g8 s) = lock_free lk s" "lock_free lk (upd_cpu g9 s) = lock_free lk s"
  by (simp_all add: upd_defs)

lemma settled_upd [simp]:
  "settled (upd_proc p g s) = settled s" "settled (upd_sleep i g1 s) = settled s"
  "settled (upd_buf b g2 s) = settled s" "settled (upd_inode i2 g3 s) = settled s"
  "settled (upd_file i3 g4 s) = settled s" "settled (upd_pipe a g5 s) = settled s"
  "settled (upd_log g6 s) = settled s" "settled (upd_cons g7 s) = settled s"
  "settled (upd_vdisk g10 s) = settled s" "settled (upd_uart g8 s) = settled s" "settled (upd_lock lk g9 s) = settled s"
  by (simp_all add: upd_defs)

lemma curproc_settled:
  "settled s \<Longrightarrow> c_proc (mycpu_of s) = Some p \<Longrightarrow> curproc s = Ret p s"
  by (simp add: curproc_def exec_simps myproc_settled)

lemmas lock_exec = acquire_free release_take myproc_settled curproc_settled

text \<open>A critical section as a whole.\<close>

lemma locked_section:
  assumes "lock_free lk s" "settled t" "lock_free lk t"
    and "body (take_lock lk s) = Ret x (take_lock lk t)"
  shows "kbind (acquire lk) (\<lambda>_. kbind body (\<lambda>x. kbind (release lk) (\<lambda>_. f x))) s = f x t"
  using assms by (simp add: exec_simps lock_exec)

section \<open>The lock under concurrency\<close>

text \<open>
  Each hart is at one point of \<open>acquire\<close>/\<open>release\<close> with respect to one lock: outside, spinning on
  the atomic swap, past it but before \<open>lk->cpu = mycpu()\<close>, inside the critical section, or past
  \<open>lk->cpu = 0\<close> but before the atomic clear. A step is one access to the lock's memory by one hart.
\<close>

datatype lockpc = Outside | Spinning | Swapped | Critical | Clearing

record lock_system =
  ls_lock :: spinlock
  ls_pc :: "nat \<Rightarrow> lockpc"

definition ls_init :: "string \<Rightarrow> lock_system" where
  "ls_init name = \<lparr>ls_lock = \<lparr>lk_locked = False, lk_name = name, lk_cpu = None\<rparr>, ls_pc = (\<lambda>_. Outside)\<rparr>"

inductive lock_step :: "lock_system \<Rightarrow> lock_system \<Rightarrow> bool" where
  try_acquire: "ls_pc s h = Outside \<Longrightarrow> lock_step s (s\<lparr>ls_pc := (ls_pc s)(h := Spinning)\<rparr>)"
| swap_taken: "ls_pc s h = Spinning \<Longrightarrow> fst (lock_swap (ls_lock s)) \<Longrightarrow>
    lock_step s (s\<lparr>ls_lock := snd (lock_swap (ls_lock s))\<rparr>)"
| swap_free: "ls_pc s h = Spinning \<Longrightarrow> \<not> fst (lock_swap (ls_lock s)) \<Longrightarrow>
    lock_step s (s\<lparr>ls_lock := snd (lock_swap (ls_lock s)), ls_pc := (ls_pc s)(h := Swapped)\<rparr>)"
| set_cpu: "ls_pc s h = Swapped \<Longrightarrow>
    lock_step s (s\<lparr>ls_lock := (ls_lock s)\<lparr>lk_cpu := Some h\<rparr>, ls_pc := (ls_pc s)(h := Critical)\<rparr>)"
| clear_cpu: "ls_pc s h = Critical \<Longrightarrow>
    lock_step s (s\<lparr>ls_lock := (ls_lock s)\<lparr>lk_cpu := None\<rparr>, ls_pc := (ls_pc s)(h := Clearing)\<rparr>)"
| clear_lock: "ls_pc s h = Clearing \<Longrightarrow>
    lock_step s (s\<lparr>ls_lock := lock_clear (ls_lock s), ls_pc := (ls_pc s)(h := Outside)\<rparr>)"

inductive lock_reachable :: "string \<Rightarrow> lock_system \<Rightarrow> bool" for name where
  lr_init: "lock_reachable name (ls_init name)"
| lr_step: "lock_reachable name s \<Longrightarrow> lock_step s t \<Longrightarrow> lock_reachable name t"

definition owns :: "lock_system \<Rightarrow> nat \<Rightarrow> bool" where
  "owns s h \<longleftrightarrow> ls_pc s h \<in> {Swapped, Critical, Clearing}"

definition lock_inv :: "lock_system \<Rightarrow> bool" where
  "lock_inv s \<longleftrightarrow>
     (lk_locked (ls_lock s) \<longleftrightarrow> (\<exists>h. owns s h)) \<and>
     (\<forall>h k. owns s h \<longrightarrow> owns s k \<longrightarrow> h = k) \<and>
     (\<forall>h. lk_cpu (ls_lock s) = Some h \<longleftrightarrow> ls_pc s h = Critical)"

lemma owns_upd: "owns (s\<lparr>ls_pc := (ls_pc s)(h := pc)\<rparr>) k \<longleftrightarrow>
    (if k = h then pc \<in> {Swapped, Critical, Clearing} else owns s k)"
  by (simp add: owns_def)

lemma owns_lock [simp]: "owns (s\<lparr>ls_lock := l\<rparr>) k = owns s k"
  by (simp add: owns_def)

lemma owns_upd2 [simp]: "owns (s\<lparr>ls_lock := l, ls_pc := p\<rparr>) k = owns (s\<lparr>ls_pc := p\<rparr>) k"
  by (simp add: owns_def)

lemma lock_inv_init: "lock_inv (ls_init name)"
  by (simp add: lock_inv_def ls_init_def owns_def)

lemma lock_inv_step: "lock_step s t \<Longrightarrow> lock_inv s \<Longrightarrow> lock_inv t"
proof (induction rule: lock_step.induct)
  case (try_acquire s h)
  then have "\<not> owns s h" by (simp add: owns_def)
  with try_acquire show ?case by (auto simp: lock_inv_def owns_upd)
next
  case (swap_taken s h)
  then show ?case by (simp add: lock_inv_def lock_swap_def)
next
  case (swap_free s h)
  then have "\<And>k. \<not> owns s k" by (auto simp: lock_inv_def lock_swap_def)
  moreover have "\<And>k. ls_pc s k \<noteq> Critical" using calculation by (auto simp: owns_def)
  ultimately show ?case using swap_free by (auto simp: lock_inv_def owns_upd lock_swap_def)
next
  case (set_cpu s h)
  then have "owns s h" by (simp add: owns_def)
  with set_cpu have only: "\<And>k. owns s k \<longleftrightarrow> k = h" by (auto simp: lock_inv_def)
  then have "\<And>k. k \<noteq> h \<Longrightarrow> ls_pc s k \<noteq> Critical" by (auto simp: owns_def)
  with set_cpu only show ?case by (auto simp: lock_inv_def owns_upd)
next
  case (clear_cpu s h)
  then have "owns s h" by (simp add: owns_def)
  with clear_cpu have only: "\<And>k. owns s k \<longleftrightarrow> k = h" by (auto simp: lock_inv_def)
  then have "\<And>k. k \<noteq> h \<Longrightarrow> ls_pc s k \<noteq> Critical" by (auto simp: owns_def)
  with clear_cpu only show ?case by (auto simp: lock_inv_def owns_upd)
next
  case (clear_lock s h)
  then have "owns s h" by (simp add: owns_def)
  with clear_lock have only: "\<And>k. owns s k \<longleftrightarrow> k = h" by (auto simp: lock_inv_def)
  then have none: "\<And>k. ls_pc s k \<noteq> Critical"
    using clear_lock.hyps by (metis (no_types) lockpc.distinct(19) insertCI owns_def)
  with clear_lock.prems have "lk_cpu (ls_lock s) = None"
    by (metis lock_inv_def not_None_eq)
  with clear_lock only none show ?case by (auto simp: lock_inv_def owns_upd lock_clear_def)
qed

lemma lock_reachable_inv: "lock_reachable name s \<Longrightarrow> lock_inv s"
  by (induction rule: lock_reachable.induct) (auto intro: lock_inv_init lock_inv_step)

section \<open>Correctness\<close>

text \<open>
  C2. Mutual exclusion: however the harts interleave the memory accesses of \<open>acquire\<close> and
  \<open>release\<close>, two harts inside the critical section are the same hart, and then the lock word is
  set and \<open>lk->cpu\<close> names that hart, which is what \<open>holding\<close> tests.
\<close>
theorem spinlock_mutual_exclusion:
  assumes "lock_reachable name s" "ls_pc s h = Critical" "ls_pc s k = Critical"
  shows "h = k \<and> lk_locked (ls_lock s) \<and> lk_cpu (ls_lock s) = Some h"
proof -
  have inv: "lock_inv s" using assms(1) by (rule lock_reachable_inv)
  have own: "owns s h" "owns s k" using assms(2,3) by (simp_all add: owns_def)
  show ?thesis using inv own assms(2) unfolding lock_inv_def by blast
qed

definition lock_example :: lock_system where
  "lock_example = \<lparr>ls_lock = \<lparr>lk_locked = True, lk_name = ''kmem'', lk_cpu = Some 1\<rparr>,
     ls_pc = (\<lambda>_. Outside)(0 := Spinning, 1 := Critical)\<rparr>"

lemma lock_example_reachable: "lock_reachable ''kmem'' lock_example"
proof -
  let ?s0 = "ls_init ''kmem''"
  let ?s1 = "?s0\<lparr>ls_pc := (ls_pc ?s0)(0 := Spinning)\<rparr>"
  let ?s2 = "?s1\<lparr>ls_pc := (ls_pc ?s1)(1 := Spinning)\<rparr>"
  let ?s3 = "?s2\<lparr>ls_lock := snd (lock_swap (ls_lock ?s2)), ls_pc := (ls_pc ?s2)(1 := Swapped)\<rparr>"
  let ?s4 = "?s3\<lparr>ls_lock := (ls_lock ?s3)\<lparr>lk_cpu := Some 1\<rparr>, ls_pc := (ls_pc ?s3)(1 := Critical)\<rparr>"
  have "lock_reachable ''kmem'' ?s1"
    by (rule lr_step [OF lr_init try_acquire]) (simp add: ls_init_def)
  then have "lock_reachable ''kmem'' ?s2"
    by (rule lr_step [OF _ try_acquire]) (simp add: ls_init_def)
  then have "lock_reachable ''kmem'' ?s3"
    by (rule lr_step [OF _ swap_free]) (simp_all add: ls_init_def lock_swap_def)
  then have "lock_reachable ''kmem'' ?s4"
    by (rule lr_step [OF _ set_cpu]) simp
  moreover have "?s4 = lock_example"
    by (simp add: lock_example_def ls_init_def lock_swap_def fun_eq_iff)
  ultimately show ?thesis by simp
qed

theorem spinlock_mutual_exclusion_witness:
  "lk_locked (ls_lock lock_example) \<and> lk_cpu (ls_lock lock_example) = Some 1"
  using spinlock_mutual_exclusion [OF lock_example_reachable, of 1 1] by (simp add: lock_example_def)

text \<open>
  A critical section. \<open>acquire\<close> of a free lock returns with interrupts off and the lock held, and
  the \<open>release\<close> restores exactly the state before, interrupt enable included. \<open>acquire\<close> of a lock the
  hart holds panics, of one another hart holds never returns, and \<open>release\<close> of a lock one does not
  hold panics.
\<close>
theorem acquire_release_spec:
  shows "(lock_free lk s \<longrightarrow> settled s \<longrightarrow>
       (\<exists>t. acquire lk s = Ret () t \<and> held lk t \<and> \<not> sie t \<and> release lk t = Ret () s)) \<and>
    (held lk s \<longrightarrow> acquire lk s = Panic ''acquire'') \<and>
    (lk_locked (locks s lk) \<longrightarrow> lk_cpu (locks s lk) \<noteq> Some (hart s) \<longrightarrow> acquire lk s = Spin) \<and>
    (\<not> held lk s \<longrightarrow> release lk s = Panic ''release'')"
  by (auto simp: acquire_free release_take acquire_held acquire_taken release_not_held)

theorem acquire_release_spec_witness:
  "\<exists>t. acquire KmemLock (zero_world example_syms) = Ret () t \<and> held KmemLock t \<and> \<not> sie t \<and>
     release KmemLock t = Ret () (zero_world example_syms)"
  using acquire_release_spec [of KmemLock "zero_world example_syms"]
  by (simp add: lock_free_def settled_def zero_world_def)

end
