(* ===== verification/Kalloc.thy ===== *)
theory Kalloc
  imports Spinlock
begin

text \<open>
  The physical page allocator (\<open>kernel/kalloc.c\<close>). The free pages form a linked list through their
  own first words, headed by \<open>kmem.freelist\<close>; the model keeps that list in the byte memory, and the
  lemmas relate it to the list of free page addresses.

  The locale \<open>page_allocator\<close> is the contract the page-table and process code relies on.
\<close>

section \<open>The allocator\<close>

definition kfree :: "addr \<Rightarrow> unit K" where
  "kfree pa = kwith (\<lambda>s.
     if pa mod PGSIZE \<noteq> 0 \<or> pa < sym_end (syms s) \<or> pa \<ge> PHYSTOP then panic ''kfree''
     else kseq [
       kmod (\<lambda>s. s\<lparr>mem := memset (mem s) pa 1 (ucast PGSIZE)\<rparr>),
       acquire KmemLock,
       kmod (\<lambda>s. s\<lparr>mem := store64 (mem s) pa (freelist s)\<rparr>),
       kmod (\<lambda>s. s\<lparr>freelist := pa\<rparr>),
       release KmemLock])"

definition kalloc :: "addr K" where
  "kalloc =
     kbind (acquire KmemLock) (\<lambda>_.
     kbind (kget freelist) (\<lambda>r.
     kbind (kwhen (r \<noteq> 0) (kmod (\<lambda>s. s\<lparr>freelist := load64 (mem s) r\<rparr>))) (\<lambda>_.
     kbind (release KmemLock) (\<lambda>_.
     kbind (kwhen (r \<noteq> 0) (kmod (\<lambda>s. s\<lparr>mem := memset (mem s) r 5 (ucast PGSIZE)\<rparr>))) (\<lambda>_.
     kret r)))))"

definition freerange :: "addr \<Rightarrow> addr \<Rightarrow> unit K" where
  "freerange pa_start pa_end =
     kloop (\<lambda>p. if p + PGSIZE \<le> pa_end then kbind (kfree p) (\<lambda>_. kret (Inl (p + PGSIZE)))
                 else kret (Inr ()))
       (PGROUNDUP pa_start)"

definition kinit :: "unit K" where
  "kinit = kseq [initlock KmemLock ''kmem'', kwith (\<lambda>s. freerange (sym_end (syms s)) PHYSTOP)]"

section \<open>The free list\<close>

primrec flist :: "mem \<Rightarrow> addr \<Rightarrow> addr list \<Rightarrow> bool" where
  "flist m a [] \<longleftrightarrow> a = 0"
| "flist m a (x # xs) \<longleftrightarrow> a = x \<and> x \<noteq> 0 \<and> flist m (load64 m x) xs"

text \<open>The pages \<open>kfree\<close> accepts.\<close>

definition page_ok :: "'z kstate_scheme \<Rightarrow> addr \<Rightarrow> bool" where
  "page_ok s pa \<longleftrightarrow> pa mod PGSIZE = 0 \<and> sym_end (syms s) \<le> pa \<and> pa < PHYSTOP"

definition free_pages :: "'z kstate_scheme \<Rightarrow> addr list \<Rightarrow> bool" where
  "free_pages s xs \<longleftrightarrow>
     flist (mem s) (freelist s) xs \<and> distinct xs \<and> (\<forall>x\<in>set xs. page_ok s x)"

text \<open>The state in which the allocator can be called: its lock is free and the kernel is linked above 0.\<close>

definition kmem_ready :: "'z kstate_scheme \<Rightarrow> bool" where
  "kmem_ready s \<longleftrightarrow> lock_free KmemLock s \<and> settled s \<and> sym_end (syms s) \<noteq> 0"

lemma flist_cong:
  "(\<And>x. x \<in> set xs \<Longrightarrow> load64 m x = load64 m' x) \<Longrightarrow> flist m a xs \<longleftrightarrow> flist m' a xs"
  by (induction xs arbitrary: a) auto

lemma flist_unique: "flist m a xs \<Longrightarrow> flist m a ys \<Longrightarrow> xs = ys"
proof (induction xs arbitrary: a ys)
  case Nil
  then show ?case by (cases ys) auto
next
  case (Cons x xs)
  then show ?case by (cases ys) auto
qed

lemma apart_mono: "apart a n b k \<Longrightarrow> n' \<le> n \<Longrightarrow> k' \<le> k \<Longrightarrow> apart a n' b k'"
  unfolding apart_def using less_le_trans by blast

text \<open>Distinct page frames share no byte.\<close>

lemma pages_apart:
  assumes a: "a mod PGSIZE = 0" and b: "b mod PGSIZE = 0" and ne: "a \<noteq> b"
  shows "apart a 4096 b 4096"
proof -
  have ordered: "apart x 4096 y 4096"
    if "x mod PGSIZE = 0" "y mod PGSIZE = 0" "unat x < unat y" for x y :: addr
  proof (rule apart_below)
    have dvd: "4096 dvd unat x" "4096 dvd unat y"
      using that(1,2) unat_mod [of x PGSIZE] unat_mod [of y PGSIZE] by (auto simp: PGSIZE_def)
    then show "unat x + 4096 \<le> unat y" using that(3) by (auto elim!: dvdE)
    have "unat y < 2 ^ 64" using unsigned_less [of y] by simp
    then show "unat y + 4096 \<le> 2 ^ 64" using dvd(2) by (auto elim!: dvdE)
  qed
  show ?thesis
  proof (cases "unat a < unat b")
    case True
    then show ?thesis using a b by (intro ordered)
  next
    case False
    with ne have "unat b < unat a" by (metis linorder_neqE_nat word_unat_eq_iff)
    then show ?thesis using a b by (subst apart_sym) (intro ordered)
  qed
qed

lemma unat_PGSIZE [simp]: "unat PGSIZE = 4096" "unat (ucast PGSIZE :: u32) = 4096"
  by (simp_all add: PGSIZE_def)

lemma page_load_kept:
  assumes "pa mod PGSIZE = 0" "x mod PGSIZE = 0" "x \<noteq> pa" "length bs \<le> 4096"
  shows "load64 (write_bytes m pa bs) x = load64 m x"
  using assms by (intro load64_write_apart apart_mono [OF pages_apart]) auto

lemma page_store_kept:
  assumes "pa mod PGSIZE = 0" "x mod PGSIZE = 0" "x \<noteq> pa"
  shows "load64 (store64 m pa v) x = load64 m x"
  unfolding store64_def using assms by (intro page_load_kept) auto

lemma page_ok_cong: "syms s = syms t \<Longrightarrow> page_ok s = page_ok t"
  by (simp add: page_ok_def fun_eq_iff)

lemma page_ok_nonzero: "page_ok s pa \<Longrightarrow> sym_end (syms s) \<noteq> 0 \<Longrightarrow> pa \<noteq> 0"
  by (auto simp: page_ok_def)

section \<open>What the operations do\<close>

definition freed :: "addr \<Rightarrow> 'z kstate_scheme \<Rightarrow> 'z kstate_scheme" where
  "freed pa s = s\<lparr>mem := store64 (write_bytes (mem s) pa (replicate 4096 1)) pa (freelist s),
                  freelist := pa\<rparr>"

definition alloced :: "'z kstate_scheme \<Rightarrow> 'z kstate_scheme" where
  "alloced s = (if freelist s = 0 then s
     else s\<lparr>freelist := load64 (mem s) (freelist s),
            mem := write_bytes (mem s) (freelist s) (replicate 4096 5)\<rparr>)"

lemma kfree_bad: "\<not> page_ok s pa \<Longrightarrow> kfree pa s = Panic ''kfree''"
  by (auto simp: kfree_def page_ok_def exec_simps not_le)

lemma kfree_eq: "kmem_ready s \<Longrightarrow> page_ok s pa \<Longrightarrow> kfree pa s = Ret () (freed pa s)"
  by (auto simp: kfree_def page_ok_def exec_simps kmem_ready_def lock_exec memset_eq freed_def)

lemma kalloc_eq: "kmem_ready s \<Longrightarrow> kalloc s = Ret (freelist s) (alloced s)"
  by (auto simp: kalloc_def exec_simps kmem_ready_def lock_exec memset_eq alloced_def)

lemma kmem_ready_freed [simp]: "kmem_ready (freed pa s) = kmem_ready s"
  by (simp add: kmem_ready_def freed_def)

lemma kmem_ready_alloced [simp]: "kmem_ready (alloced s) = kmem_ready s"
  by (simp add: kmem_ready_def alloced_def)

lemma page_ok_freed [simp]: "page_ok (freed pa s) = page_ok s"
  by (simp add: page_ok_def freed_def fun_eq_iff)

lemma page_ok_alloced [simp]: "page_ok (alloced s) = page_ok s"
  by (simp add: page_ok_def alloced_def fun_eq_iff)

lemma free_pages_freed:
  assumes inv: "free_pages s xs" and ok: "page_ok s pa" and new: "pa \<notin> set xs"
    and rd: "kmem_ready s"
  shows "free_pages (freed pa s) (pa # xs)"
proof -
  have "load64 (mem (freed pa s)) x = load64 (mem s) x" if "x \<in> set xs" for x
  proof -
    have "x mod PGSIZE = 0" "pa mod PGSIZE = 0" "x \<noteq> pa"
      using that inv ok new by (auto simp: free_pages_def page_ok_def)
    then show ?thesis by (simp add: freed_def page_store_kept page_load_kept)
  qed
  then have "flist (mem (freed pa s)) (freelist s) xs"
    using inv flist_cong [of xs "mem (freed pa s)" "mem s"] by (simp add: free_pages_def)
  moreover have "load64 (mem (freed pa s)) pa = freelist s" by (simp add: freed_def)
  moreover have "pa \<noteq> 0" using ok rd by (auto simp: kmem_ready_def dest: page_ok_nonzero)
  ultimately show ?thesis using inv ok new
    by (simp add: free_pages_def) (simp add: freed_def)
qed

lemma free_pages_alloced:
  assumes inv: "free_pages s (x # xs)"
  shows "freelist s = x" "free_pages (alloced s) xs"
proof -
  show x: "freelist s = x" using inv by (simp add: free_pages_def)
  have nz: "x \<noteq> 0" and fl: "flist (mem s) (load64 (mem s) x) xs" and "x \<notin> set xs"
    using inv by (auto simp: free_pages_def)
  have "load64 (mem (alloced s)) y = load64 (mem s) y" if "y \<in> set xs" for y
  proof -
    have "y mod PGSIZE = 0" "x mod PGSIZE = 0" "y \<noteq> x"
      using that inv by (auto simp: free_pages_def page_ok_def)
    then show ?thesis using x nz by (simp add: alloced_def page_load_kept)
  qed
  then have "flist (mem (alloced s)) (load64 (mem s) x) xs"
    using fl flist_cong [of xs "mem (alloced s)" "mem s"] by simp
  then show "free_pages (alloced s) xs"
    using inv x nz by (simp add: free_pages_def) (simp add: alloced_def)
qed

lemma free_pages_empty: "free_pages s [] \<Longrightarrow> freelist s = 0 \<and> alloced s = s"
  by (simp add: free_pages_def alloced_def)

section \<open>The contract\<close>

locale page_allocator =
  fixes alloc :: "('s, addr) prog"
    and free :: "addr \<Rightarrow> ('s, unit) prog"
    and ready :: "'s \<Rightarrow> bool"
    and avail :: "'s \<Rightarrow> addr list \<Rightarrow> bool"
    and frame :: "'s \<Rightarrow> addr \<Rightarrow> bool"
  assumes alloc_some: "ready s \<Longrightarrow> avail s (x # xs) \<Longrightarrow>
      \<exists>t. alloc s = Ret x t \<and> ready t \<and> avail t xs \<and> frame t = frame s"
    and alloc_none: "ready s \<Longrightarrow> avail s [] \<Longrightarrow> alloc s = Ret 0 s"
    and free_frame: "ready s \<Longrightarrow> avail s xs \<Longrightarrow> frame s a \<Longrightarrow> a \<notin> set xs \<Longrightarrow>
      \<exists>t. free a s = Ret () t \<and> ready t \<and> avail t (a # xs) \<and> frame t = frame s"
    and avail_frames: "ready s \<Longrightarrow> avail s xs \<Longrightarrow> distinct xs \<and> (\<forall>x\<in>set xs. frame s x \<and> x \<noteq> 0)"
begin

primrec alloc_many :: "nat \<Rightarrow> ('s, addr list) prog" where
  "alloc_many 0 = kret []"
| "alloc_many (Suc n) = kbind alloc (\<lambda>a. kbind (alloc_many n) (\<lambda>as. kret (a # as)))"

text \<open>Successive allocations hand out the available frames in order, never the same one twice.\<close>

lemma alloc_many_avail:
  "ready s \<Longrightarrow> avail s (xs @ ys) \<Longrightarrow>
     \<exists>t. alloc_many (length xs) s = Ret xs t \<and> ready t \<and> avail t ys \<and> frame t = frame s"
proof (induction xs arbitrary: s)
  case Nil
  then show ?case by (auto simp: exec_simps)
next
  case (Cons x xs)
  from Cons.prems obtain u where u: "alloc s = Ret x u" "ready u" "avail u (xs @ ys)" "frame u = frame s"
    using alloc_some [of s x "xs @ ys"] by auto
  from Cons.IH [OF u(2,3)] obtain t where
    "alloc_many (length xs) u = Ret xs t" "ready t" "avail t ys" "frame t = frame u" by blast
  with u show ?case by (auto simp: exec_simps)
qed

text \<open>A frame given back is the next one handed out.\<close>

lemma free_then_alloc:
  assumes "ready s" "avail s xs" "frame s a" "a \<notin> set xs"
  shows "\<exists>t. kbind (free a) (\<lambda>_. alloc) s = Ret a t \<and> ready t \<and> avail t xs"
proof -
  from free_frame [OF assms] obtain u where "free a s = Ret () u" "ready u" "avail u (a # xs)" by blast
  moreover from this(2,3) obtain t where "alloc u = Ret a t" "ready t" "avail t xs"
    using alloc_some by blast
  ultimately show ?thesis by (auto simp: exec_simps)
qed

end

interpretation kmem: page_allocator kalloc kfree kmem_ready free_pages page_ok
proof
  show "\<exists>t. kalloc s = Ret x t \<and> kmem_ready t \<and> free_pages t xs \<and> page_ok t = page_ok s"
    if "kmem_ready s" "free_pages s (x # xs)" for s x xs
    using that by (simp add: kalloc_eq free_pages_alloced)
  show "kalloc s = Ret 0 s" if "kmem_ready s" "free_pages s []" for s
    using that by (simp add: kalloc_eq free_pages_empty)
  show "\<exists>t. kfree a s = Ret () t \<and> kmem_ready t \<and> free_pages t (a # xs) \<and> page_ok t = page_ok s"
    if "kmem_ready s" "free_pages s xs" "page_ok s a" "a \<notin> set xs" for s a xs
    using that by (simp add: kfree_eq free_pages_freed)
  show "distinct xs \<and> (\<forall>x\<in>set xs. page_ok s x \<and> x \<noteq> 0)" if "kmem_ready s" "free_pages s xs" for s xs
    using that by (auto simp: free_pages_def kmem_ready_def dest: page_ok_nonzero)
qed

section \<open>Rounding to pages\<close>

lemma PGROUNDDOWN_eq: "PGROUNDDOWN a = push_bit 12 (drop_bit 12 a)"
proof -
  have "PGSIZE - 1 = mask 12" by (simp add: PGSIZE_def mask_eq_exp_minus_1)
  then show ?thesis
    by (intro bit_word_eqI) (auto simp: PGROUNDDOWN_def bit_simps)
qed

lemma unat_PGROUNDDOWN: "unat (PGROUNDDOWN a) = 4096 * (unat a div 4096)"
proof -
  have "unat a div 4096 * 4096 \<le> unat a" by simp
  also have lt: "unat a < 2 ^ 64" using unsigned_less [of a] by simp
  finally have small: "unat a div 4096 * 4096 < 2 ^ 64" .
  have whole: "take_bit 64 (unat a) = unat a" using lt by (rule take_bit_nat_eq_self)
  have "unat (push_bit 12 (drop_bit 12 a)) = take_bit 64 (push_bit 12 (drop_bit 12 (unat a)))"
    using whole by (simp add: unsigned_push_bit_eq unsigned_drop_bit_eq)
  also have "\<dots> = 4096 * (unat a div 4096)"
    using small by (simp add: push_bit_eq_mult drop_bit_eq_div take_bit_eq_mod mult.commute)
  finally show ?thesis by (simp add: PGROUNDDOWN_eq)
qed

lemma PGROUNDUP_down: "PGROUNDUP a = PGROUNDDOWN (a + PGSIZE - 1)"
  by (simp add: PGROUNDUP_def PGROUNDDOWN_def)

lemma unat_PGROUNDUP:
  assumes "unat a + 4095 < 2 ^ 64"
  shows "unat (PGROUNDUP a) = 4096 * ((unat a + 4095) div 4096)"
proof -
  have "a + PGSIZE - 1 = a + of_nat 4095" by (simp add: PGSIZE_def)
  then have "unat (a + PGSIZE - 1) = unat a + 4095"
    using unat_add_of_nat [OF assms] by (simp only:)
  then show ?thesis by (simp add: PGROUNDUP_down unat_PGROUNDDOWN)
qed

lemma mod_PGSIZE: "a mod PGSIZE = 0 \<longleftrightarrow> unat a mod 4096 = 0"
  using unat_mod [of a PGSIZE] by (simp add: word_unat_eq_iff)

section \<open>Filling the allocator\<close>

text \<open>The page frames from \<open>p\<close> on, in address order.\<close>

definition frames_from :: "addr \<Rightarrow> nat \<Rightarrow> addr list" where
  "frames_from p n = map (\<lambda>i. p + of_nat (4096 * i)) [0..<n]"

lemma frames_from_Suc: "frames_from p (Suc n) = p # frames_from (p + PGSIZE) n"
  by (simp add: frames_from_def upt_conv_Cons map_Suc_upt [symmetric] comp_def PGSIZE_def
      algebra_simps del: upt_Suc)

lemma frames_from_set:
  assumes "unat p + 4096 * n \<le> 2 ^ 64" "x \<in> set (frames_from p n)"
  shows "\<exists>i<n. unat x = unat p + 4096 * i"
proof -
  from assms(2) obtain i where i: "i < n" "x = p + of_nat (4096 * i)" by (auto simp: frames_from_def)
  have "4096 * Suc i \<le> 4096 * n" using i(1) by (intro mult_le_mono2) simp
  then have "unat (p + of_nat (4096 * i)) = unat p + 4096 * i"
    using assms(1) by (intro unat_add_of_nat) simp
  with i show ?thesis by blast
qed

text \<open>
  \<open>freerange\<close> puts exactly the whole frames of its range on the free list, the highest first.
\<close>

lemma freerange_eq:
  assumes "kmem_ready s" "free_pages s xs" "p mod PGSIZE = 0"
    and "sym_end (syms s) \<le> p" "b \<le> PHYSTOP"
    and "unat p + 4096 * n \<le> unat b" "unat b < unat p + 4096 * Suc n"
    and "set (frames_from p n) \<inter> set xs = {}"
  shows "\<exists>t. kloop (\<lambda>p. if p + PGSIZE \<le> b then kbind (kfree p) (\<lambda>_. kret (Inl (p + PGSIZE)))
                 else kret (Inr ())) p s = Ret () t \<and> kmem_ready t \<and>
           free_pages t (rev (frames_from p n) @ xs)"
  using assms
proof (induction n arbitrary: p s xs)
  case 0
  have "unat b < 2 ^ 32" using 0 by (simp add: PHYSTOP_def KERNBASE_def word_le_nat_alt)
  then have "unat (p + PGSIZE) = unat p + 4096"
    using 0 unat_add_of_nat [of p 4096] by (simp add: PGSIZE_def)
  then have "\<not> p + PGSIZE \<le> b" using 0 by (simp add: word_le_nat_alt)
  then show ?case using 0 by (subst kloop_unfold) (simp add: exec_simps frames_from_def)
next
  case (Suc n)
  have small: "unat b < 2 ^ 32" using Suc.prems by (simp add: PHYSTOP_def KERNBASE_def word_le_nat_alt)
  have up: "unat (p + PGSIZE) = unat p + 4096"
    using Suc.prems small unat_add_of_nat [of p 4096] by (simp add: PGSIZE_def)
  have ok: "page_ok s p"
    using Suc.prems by (auto simp: page_ok_def word_le_nat_alt word_less_nat_alt)
  have new: "p \<notin> set xs" using Suc.prems(8) by (auto simp: frames_from_Suc)
  from kmem.free_frame [OF Suc.prems(1,2) ok new] obtain u where
    u: "kfree p s = Ret () u" "kmem_ready u" "free_pages u (p # xs)" "page_ok u = page_ok s" by blast
  have syms: "syms u = syms s" using u(1) kfree_eq [OF Suc.prems(1) ok] by (auto simp: freed_def)
  have apart: "set (frames_from (p + PGSIZE) n) \<inter> set (p # xs) = {}"
  proof -
    have "p \<notin> set (frames_from (p + PGSIZE) n)"
      using frames_from_set [of "p + PGSIZE" n p] up Suc.prems(6) small by auto
    then show ?thesis using Suc.prems(8) by (auto simp: frames_from_Suc)
  qed
  have "\<exists>t. kloop (\<lambda>p. if p + PGSIZE \<le> b then kbind (kfree p) (\<lambda>_. kret (Inl (p + PGSIZE)))
                 else kret (Inr ())) (p + PGSIZE) u = Ret () t \<and> kmem_ready t \<and>
           free_pages t (rev (frames_from (p + PGSIZE) n) @ p # xs)"
  proof (rule Suc.IH [OF u(2,3) _ _ Suc.prems(5) _ _ apart])
    show "(p + PGSIZE) mod PGSIZE = 0" using Suc.prems(3) up by (simp add: mod_PGSIZE)
    show "sym_end (syms u) \<le> p + PGSIZE" using Suc.prems(4) up syms by (simp add: word_le_nat_alt)
  qed (use up Suc.prems(6,7) in simp_all)
  moreover have "p + PGSIZE \<le> b" using up Suc.prems(6) by (simp add: word_le_nat_alt)
  ultimately show ?case using u(1) by (subst kloop_unfold) (simp add: exec_simps frames_from_Suc)
qed

lemma freerange_frames:
  assumes "kmem_ready s" "free_pages s xs" "unat a + 4095 < 2 ^ 64"
    and "sym_end (syms s) \<le> a" "b \<le> PHYSTOP"
    and n: "n = (unat b - unat (PGROUNDUP a)) div 4096"
    and le: "unat (PGROUNDUP a) \<le> unat b"
    and "set (frames_from (PGROUNDUP a) n) \<inter> set xs = {}"
  shows "\<exists>t. freerange a b s = Ret () t \<and> kmem_ready t \<and>
           free_pages t (rev (frames_from (PGROUNDUP a) n) @ xs)"
  unfolding freerange_def
proof (rule freerange_eq [OF assms(1,2)])
  have up: "unat (PGROUNDUP a) = 4096 * ((unat a + 4095) div 4096)" by (rule unat_PGROUNDUP [OF assms(3)])
  then show "PGROUNDUP a mod PGSIZE = 0" by (simp add: mod_PGSIZE)
  have "unat a \<le> unat (PGROUNDUP a)" unfolding up by linarith
  then show "sym_end (syms s) \<le> PGROUNDUP a" using assms(4) by (simp add: word_le_nat_alt)
  have "4096 * n \<le> unat b - unat (PGROUNDUP a)" unfolding n by simp
  then show "unat (PGROUNDUP a) + 4096 * n \<le> unat b" using le by simp
  have "unat b - unat (PGROUNDUP a) < 4096 * Suc n" unfolding n mult_Suc_right by (rule dividend_less_times_div) simp
  then show "unat b < unat (PGROUNDUP a) + 4096 * Suc n" by simp
qed (use assms in auto)

section \<open>Correctness\<close>

text \<open>
  C5. The allocator as a stack of free frames. With the free frames \<open>xs\<close>, \<open>kfree\<close> of a frame that is
  not among them makes the free frames \<open>a # xs\<close>, the next \<open>kalloc\<close> returns \<open>a\<close> and leaves
  \<open>xs\<close> again; an address that is unaligned or outside the allocator's memory makes \<open>kfree\<close> panic;
  and \<open>kalloc\<close> returns the null pointer exactly when no frame is free, changing nothing.
\<close>
theorem kalloc_kfree_spec:
  assumes "kmem_ready s" "free_pages s xs"
  shows "(page_ok s a \<and> a \<notin> set xs \<longrightarrow>
      (\<exists>t u. kfree a s = Ret () t \<and> free_pages t (a # xs) \<and> kalloc t = Ret a u \<and> free_pages u xs)) \<and>
    (\<not> page_ok s a \<longrightarrow> kfree a s = Panic ''kfree'') \<and>
    (kalloc s = Ret 0 s \<longleftrightarrow> xs = [])"
proof (intro conjI impI)
  assume "page_ok s a \<and> a \<notin> set xs"
  then obtain t where t: "kfree a s = Ret () t" "kmem_ready t" "free_pages t (a # xs)"
    using kmem.free_frame [OF assms] by blast
  with kmem.alloc_some show "\<exists>t u. kfree a s = Ret () t \<and> free_pages t (a # xs) \<and>
      kalloc t = Ret a u \<and> free_pages u xs" by blast
next
  show "kfree a s = Panic ''kfree''" if "\<not> page_ok s a" using that by (rule kfree_bad)
  show "kalloc s = Ret 0 s \<longleftrightarrow> xs = []"
  proof (cases xs)
    case Nil
    then show ?thesis using kmem.alloc_none assms by simp
  next
    case (Cons x ys)
    then have "x \<noteq> 0" using kmem.avail_frames [OF assms] by simp
    then show ?thesis using kmem.alloc_some [of s x ys] assms Cons by auto
  qed
qed

theorem kalloc_kfree_spec_witness:
  "\<exists>t u. kfree 0x80030000 (zero_world example_syms) = Ret () t \<and> free_pages t [0x80030000] \<and>
     kalloc t = Ret 0x80030000 u \<and> free_pages u []"
  using kalloc_kfree_spec [where s = "zero_world example_syms" and xs = "[]" and a = "0x80030000"]
  by (simp add: kmem_ready_def free_pages_def page_ok_def lock_free_def settled_def zero_world_def
      example_syms_def PHYSTOP_def KERNBASE_def PGSIZE_def)

text \<open>
  \<open>kinit\<close>, run at power-on with the kernel linked below \<open>PHYSTOP\<close>, returns with the allocator ready,
  and the free frames are all the whole page frames from the end of the kernel to \<open>PHYSTOP\<close>,
  each once, the highest first.
\<close>
theorem kinit_frames:
  assumes "settled s" "freelist s = 0" "sym_end (syms s) \<noteq> 0" "sym_end (syms s) \<le> PHYSTOP"
  shows "\<exists>t. kinit s = Ret () t \<and> kmem_ready t \<and>
    free_pages t (rev (frames_from (PGROUNDUP (sym_end (syms s)))
      ((unat PHYSTOP - unat (PGROUNDUP (sym_end (syms s)))) div 4096)))"
proof -
  let ?a = "sym_end (syms s)"
  let ?s = "upd_lock KmemLock (\<lambda>l. l\<lparr>lk_name := ''kmem'', lk_locked := False, lk_cpu := None\<rparr>) s"
  have stop: "unat PHYSTOP = 0x88000000" by (simp add: PHYSTOP_def KERNBASE_def)
  then have small: "unat ?a + 4095 < 2 ^ 64" "unat ?a \<le> 0x88000000"
    using assms(4) by (simp_all add: word_le_nat_alt)
  have "(unat ?a + 4095) div 4096 \<le> (0x88000000 + 4095) div 4096"
    using small(2) by (intro div_le_mono) simp
  then have le: "unat (PGROUNDUP ?a) \<le> unat PHYSTOP"
    unfolding unat_PGROUNDUP [OF small(1)] stop by simp
  have "kmem_ready ?s" "free_pages ?s []"
    using assms by (simp_all add: kmem_ready_def lock_free_def free_pages_def) (simp_all add: upd_lock_def)
  then have "\<exists>t. freerange ?a PHYSTOP ?s = Ret () t \<and> kmem_ready t \<and>
      free_pages t (rev (frames_from (PGROUNDUP ?a) ((unat PHYSTOP - unat (PGROUNDUP ?a)) div 4096)) @ [])"
    using small le by (intro freerange_frames) (simp_all add: upd_lock_def)
  then show ?thesis by (simp add: kinit_def exec_simps initlock_def upd_lock_def)
qed

theorem kinit_frames_witness:
  "\<exists>t. kinit (zero_world example_syms) = Ret () t \<and> kmem_ready t"
proof -
  have "\<exists>t. kinit (zero_world example_syms) = Ret () t \<and> kmem_ready t \<and>
    free_pages t (rev (frames_from (PGROUNDUP (sym_end (syms (zero_world example_syms))))
      ((unat PHYSTOP - unat (PGROUNDUP (sym_end (syms (zero_world example_syms))))) div 4096)))"
    by (rule kinit_frames)
       (simp_all add: settled_def zero_world_def example_syms_def PHYSTOP_def KERNBASE_def)
  then show ?thesis by blast
qed

end
