(* ===== verification/Sched.thy ===== *)
theory Sched
  imports Kalloc
begin

text \<open>
  Scheduling (the second half of \<open>kernel/proc.c\<close>): the per-processor scheduler, \<open>sched\<close> and the
  context switch as a kernel thread sees it, \<open>sleep\<close> and \<open>wakeup\<close>, \<open>kill\<close>, \<open>killed\<close> and
  \<open>setkilled\<close>.

  Each process has a kernel thread of its own, and a thread that switches to the scheduler of its
  processor is resumed, on whatever processor, when a scheduler picks its process again. In between the
  rest of the machine runs; its effect on the kernel's state is the next entry of the schedule
  \<open>env\<close>. A thread with no entry left is never resumed.
\<close>

section \<open>The scheduler\<close>

text \<open>
  One visit of the scheduler to a process: the lock is taken, and a runnable process is made the
  running one (the answer says whether it was); when the process switches back, the processor no
  longer runs it and its lock is released.
\<close>

definition scheduler_pick :: "nat \<Rightarrow> bool K" where
  "scheduler_pick p =
     kbind (acquire (ProcLock p)) (\<lambda>_.
     kbind (kget (\<lambda>s. p_state (procs s p))) (\<lambda>st.
     if st = RUNNABLE
     then kbind (kseq [
            kmod (upd_proc p (\<lambda>q. q\<lparr>p_state := RUNNING\<rparr>)),
            kmod (upd_cpu (\<lambda>c. c\<lparr>c_proc := Some p\<rparr>))]) (\<lambda>_. kret True)
     else kret False))"

definition scheduler_leave :: "nat \<Rightarrow> unit K" where
  "scheduler_leave p = kseq [
     kmod (upd_cpu (\<lambda>c. c\<lparr>c_proc := None\<rparr>)),
     release (ProcLock p)]"

text \<open>\<open>run p\<close> is what happens from the switch to process \<open>p\<close> until it switches back.\<close>

definition scheduler_visit :: "(nat \<Rightarrow> unit K) \<Rightarrow> nat \<Rightarrow> unit K" where
  "scheduler_visit run p =
     kbind (scheduler_pick p) (\<lambda>ok.
       if ok then kseq [run p, scheduler_leave p] else release (ProcLock p))"

definition scheduler_round :: "(nat \<Rightarrow> unit K) \<Rightarrow> unit K" where
  "scheduler_round run = kseq [intr_on, kfor [0..<NPROC] (scheduler_visit run)]"

definition scheduler :: "(nat \<Rightarrow> unit K) \<Rightarrow> unit K" where
  "scheduler run = kseq [
     kmod (upd_cpu (\<lambda>c. c\<lparr>c_proc := None\<rparr>)),
     kloop (\<lambda>_. kbind (scheduler_round run) (\<lambda>_. kret (Inl ()))) ()]"

section \<open>Giving up the processor\<close>

text \<open>What the rest of the machine does next.\<close>

definition after_others :: "(kstate \<Rightarrow> kstate) \<Rightarrow> (kstate \<Rightarrow> kstate) list \<Rightarrow> kworld \<Rightarrow> kworld" where
  "after_others f fs s = kstate.extend (f (kstate.truncate s)) (kworld.fields fs)"

definition run_others :: "unit K" where
  "run_others = (\<lambda>s. case env s of [] \<Rightarrow> Switched s | f # fs \<Rightarrow> Ret () (after_others f fs s))"

text \<open>
  The switch from process \<open>p\<close> to the scheduler and back: the scheduler leaves \<open>p\<close>, others run,
  and each time a scheduler visits \<open>p\<close> it resumes it if it is runnable.
\<close>

definition swtch_wait :: "nat \<Rightarrow> unit K" where
  "swtch_wait p =
     kloop (\<lambda>_.
       kbind run_others (\<lambda>_.
       kbind (scheduler_pick p) (\<lambda>ok.
       if ok then kret (Inr ()) else kbind (release (ProcLock p)) (\<lambda>_. kret (Inl ()))))) ()"

definition swtch_away :: "nat \<Rightarrow> unit K" where
  "swtch_away p = kseq [scheduler_leave p, swtch_wait p]"

definition sched :: "unit K" where
  "sched =
     kbind curproc (\<lambda>p. kseq [
       kbind (holding (ProcLock p)) (\<lambda>h. kwhen (\<not> h) (panic ''sched p->lock'')),
       kbind mycpu (\<lambda>c. kwhen (c_noff c \<noteq> 1) (panic ''sched locks'')),
       kbind (kget (\<lambda>s. p_state (procs s p))) (\<lambda>st. kwhen (st = RUNNING) (panic ''sched running'')),
       kbind intr_get (\<lambda>on. kwhen on (panic ''sched interruptible'')),
       kbind mycpu (\<lambda>c. kseq [
         swtch_away p,
         kmod (upd_cpu (\<lambda>c'. c'\<lparr>c_intena := c_intena c\<rparr>))])])"

definition yield :: "unit K" where
  "yield =
     kbind curproc (\<lambda>p. kseq [
       acquire (ProcLock p),
       kmod (upd_proc p (\<lambda>q. q\<lparr>p_state := RUNNABLE\<rparr>)),
       sched,
       release (ProcLock p)])"

definition sleep :: "chan \<Rightarrow> lockid \<Rightarrow> unit K" where
  "sleep ch lk =
     kbind curproc (\<lambda>p. kseq [
       acquire (ProcLock p),
       release lk,
       kmod (upd_proc p (\<lambda>q. q\<lparr>p_chan := Some ch\<rparr>)),
       kmod (upd_proc p (\<lambda>q. q\<lparr>p_state := SLEEPING\<rparr>)),
       sched,
       kmod (upd_proc p (\<lambda>q. q\<lparr>p_chan := None\<rparr>)),
       release (ProcLock p),
       acquire lk])"

text \<open>The bodies of the loops of \<open>wakeup\<close> and \<open>kill\<close> over the process table.\<close>

definition wakeup_one :: "chan option \<Rightarrow> nat \<Rightarrow> unit K" where
  "wakeup_one ch p =
     kbind myproc (\<lambda>me. kwhen (me \<noteq> Some p) (kseq [
       acquire (ProcLock p),
       kbind (kget (\<lambda>s. procs s p)) (\<lambda>q.
         kwhen (p_state q = SLEEPING \<and> p_chan q = ch)
           (kmod (upd_proc p (\<lambda>q. q\<lparr>p_state := RUNNABLE\<rparr>)))),
       release (ProcLock p)]))"

definition wakeup :: "chan option \<Rightarrow> unit K" where
  "wakeup ch = kfor [0..<NPROC] (wakeup_one ch)"

definition kill_one :: "int \<Rightarrow> nat \<Rightarrow> int option K" where
  "kill_one pid p =
     kbind (acquire (ProcLock p)) (\<lambda>_.
     kbind (kget (\<lambda>s. procs s p)) (\<lambda>q.
     if p_pid q = pid
     then kbind (kseq [
            kmod (upd_proc p (\<lambda>q. q\<lparr>p_killed := 1\<rparr>)),
            kwhen (p_state q = SLEEPING) (kmod (upd_proc p (\<lambda>q. q\<lparr>p_state := RUNNABLE\<rparr>))),
            release (ProcLock p)]) (\<lambda>_. kret (Some 0))
     else kbind (release (ProcLock p)) (\<lambda>_. kret None)))"

definition kill :: "int \<Rightarrow> int K" where
  "kill pid =
     kbind (kscan [0..<NPROC] (kill_one pid)) (\<lambda>r. kret (case r of Some x \<Rightarrow> x | None \<Rightarrow> - 1))"

definition setkilled :: "nat \<Rightarrow> unit K" where
  "setkilled p = kseq [
     acquire (ProcLock p),
     kmod (upd_proc p (\<lambda>q. q\<lparr>p_killed := 1\<rparr>)),
     release (ProcLock p)]"

definition killed :: "nat \<Rightarrow> int K" where
  "killed p =
     kbind (acquire (ProcLock p)) (\<lambda>_.
     kbind (kget (\<lambda>s. p_killed (procs s p))) (\<lambda>k.
     kbind (release (ProcLock p)) (\<lambda>_.
     kret k)))"

section \<open>Waking and killing\<close>

text \<open>The lock of every process is free and the interrupt bookkeeping is settled.\<close>

definition procs_free :: "'z kstate_scheme \<Rightarrow> bool" where
  "procs_free s \<longleftrightarrow> settled s \<and> (\<forall>p<NPROC. lock_free (ProcLock p) s)"

definition woken_proc :: "chan option \<Rightarrow> proc \<Rightarrow> proc" where
  "woken_proc ch q = (if p_state q = SLEEPING \<and> p_chan q = ch then q\<lparr>p_state := RUNNABLE\<rparr> else q)"

definition woken :: "chan option \<Rightarrow> 'z kstate_scheme \<Rightarrow> 'z kstate_scheme" where
  "woken ch s = s\<lparr>procs := (\<lambda>p. if p < NPROC \<and> c_proc (mycpu_of s) \<noteq> Some p
     then woken_proc ch (procs s p) else procs s p)\<rparr>"

lemma upd_proc_noop: "f (procs s p) = procs s p \<Longrightarrow> upd_proc p f s = s"
  by (simp add: upd_proc_def)

lemma upd_proc_twice: "upd_proc p f (upd_proc p g s) = upd_proc p (\<lambda>q. f (g q)) s"
  by (simp add: upd_proc_def)

lemma fold_upd_proc:
  "fold (\<lambda>p. upd_proc p (h p)) [0..<n] s =
     s\<lparr>procs := (\<lambda>i. if i < n then h i (procs s i) else procs s i)\<rparr>"
proof (induction n)
  case 0
  then show ?case by simp
next
  case (Suc n)
  have "(\<lambda>i. if i < n then h i (procs s i) else procs s i)(n := h n (procs s n)) =
      (\<lambda>i. if i < Suc n then h i (procs s i) else procs s i)"
    by (auto simp: fun_eq_iff less_Suc_eq)
  with Suc show ?case by (simp add: upd_proc_def)
qed

lemma procs_free_upd [simp]: "procs_free (upd_proc p f s) = procs_free s"
  by (simp add: procs_free_def)

lemma wakeup_one_eq:
  assumes "procs_free s" "p < NPROC"
  shows "wakeup_one ch p s =
    Ret () (upd_proc p (\<lambda>q. if c_proc (mycpu_of s) \<noteq> Some p then woken_proc ch q else q) s)"
  using assms
  by (auto simp: wakeup_one_def exec_simps lock_exec procs_free_def woken_proc_def upd_proc_def)

lemma wakeup_eq:
  assumes "procs_free s"
  shows "wakeup ch s = Ret () (woken ch s)"
proof -
  let ?me = "c_proc (mycpu_of s)"
  let ?h = "\<lambda>p q. if ?me \<noteq> Some p then woken_proc ch q else q"
  have "wakeup ch s = Ret () (fold (\<lambda>p. upd_proc p (?h p)) [0..<NPROC] s)"
    unfolding wakeup_def
    by (rule kfor_fold(1) [where I = "\<lambda>t :: kworld. procs_free t \<and> c_proc (mycpu_of t) = ?me"])
       (use assms in \<open>auto simp: wakeup_one_eq upd_proc_def procs_free_def\<close>)
  also have "fold (\<lambda>p. upd_proc p (?h p)) [0..<NPROC] s = woken ch s"
    unfolding fold_upd_proc [where h = ?h] woken_def by (intro kworld.equality ext) auto
  finally show ?thesis .
qed

lemma woken_simps [simp]:
  "procs_free (woken ch s) = procs_free s" "settled (woken ch s) = settled s"
  "lock_free lk (woken ch s) = lock_free lk s"
  by (simp_all add: woken_def procs_free_def)

lemma woken_take [simp]: "woken ch (take_lock lk s) = take_lock lk (woken ch s)"
  by (simp add: woken_def cong: if_cong)

lemma procs_free_take [simp]:
  "procs_free s \<Longrightarrow> (\<And>p. lk \<noteq> ProcLock p) \<Longrightarrow> procs_free (take_lock lk s)"
  by (auto simp: procs_free_def)

text \<open>\<open>kill\<close> marks the first process with the pid, and puts a sleeper back on its feet.\<close>

definition killed_proc :: "proc \<Rightarrow> proc" where
  "killed_proc q = q\<lparr>p_killed := 1, p_state := (if p_state q = SLEEPING then RUNNABLE else p_state q)\<rparr>"

lemma kill_eq:
  assumes "procs_free s"
  shows "kill pid s =
    (case first_index (\<lambda>p. p_pid (procs s p) = pid) NPROC of
       None \<Rightarrow> Ret (- 1) s
     | Some p \<Rightarrow> Ret 0 (upd_proc p killed_proc s))"
proof -
  have "kscan [0..<NPROC] (kill_one pid) s =
     (case first_index (\<lambda>p. p_pid (procs s p) = pid) NPROC of
        None \<Rightarrow> Ret None s | Some p \<Rightarrow> Ret (Some 0) (upd_proc p killed_proc s))"
    using assms
    by (intro kscan_upt_find)
       (auto simp: kill_one_def exec_simps lock_exec procs_free_def upd_proc_def killed_proc_def)
  then show ?thesis
    by (auto simp: kill_def exec_simps split: option.splits)
qed

lemma killed_eq:
  "settled s \<Longrightarrow> lock_free (ProcLock p) s \<Longrightarrow> killed p s = Ret (p_killed (procs s p)) s"
  by (simp add: killed_def exec_simps lock_exec)

lemma setkilled_eq:
  "settled s \<Longrightarrow> lock_free (ProcLock p) s \<Longrightarrow>
     setkilled p s = Ret () (upd_proc p (\<lambda>q. q\<lparr>p_killed := 1\<rparr>) s)"
  by (simp add: setkilled_def exec_simps lock_exec)

section \<open>Sleeping\<close>

text \<open>A scheduler can visit the process: the process's lock is free.\<close>

definition visitable :: "nat \<Rightarrow> 'z kstate_scheme \<Rightarrow> bool" where
  "visitable p s \<longleftrightarrow> settled s \<and> lock_free (ProcLock p) s"

definition picked :: "nat \<Rightarrow> 'z kstate_scheme \<Rightarrow> 'z kstate_scheme" where
  "picked p s = upd_cpu (\<lambda>c. c\<lparr>c_proc := Some p\<rparr>) (upd_proc p (\<lambda>q. q\<lparr>p_state := RUNNING\<rparr>) s)"

lemma scheduler_pick_eq:
  "lock_free (ProcLock p) s \<Longrightarrow> scheduler_pick p s =
     (if p_state (procs s p) = RUNNABLE then Ret True (take_lock (ProcLock p) (picked p s))
      else Ret False (take_lock (ProcLock p) s))"
  by (simp add: scheduler_pick_def exec_simps lock_exec picked_def)

lemma scheduler_leave_eq:
  "visitable p s \<Longrightarrow>
     scheduler_leave p (take_lock (ProcLock p) s) = Ret () (upd_cpu (\<lambda>c. c\<lparr>c_proc := None\<rparr>) s)"
  by (simp add: scheduler_leave_def exec_simps lock_exec visitable_def)

text \<open>
  The schedule \<open>fs\<close> leads from \<open>s\<close> to a state \<open>t\<close> in which the process is runnable, and in none of
  the states before at which a scheduler visits it.
\<close>

inductive wakes_to :: "nat \<Rightarrow> kworld \<Rightarrow> kworld \<Rightarrow> bool" for p where
  wakes_now: "env s = f # fs \<Longrightarrow> t = after_others f fs s \<Longrightarrow> visitable p t \<Longrightarrow>
     p_state (procs t p) = RUNNABLE \<Longrightarrow> wakes_to p s t"
| wakes_later: "env s = f # fs \<Longrightarrow> u = after_others f fs s \<Longrightarrow> visitable p u \<Longrightarrow>
     p_state (procs u p) \<noteq> RUNNABLE \<Longrightarrow> wakes_to p u t \<Longrightarrow> wakes_to p s t"

lemma swtch_wait_runs:
  assumes "wakes_to p s t"
  shows "swtch_wait p s = Ret () (take_lock (ProcLock p) (picked p t))"
  using assms
proof (induction rule: wakes_to.induct)
  case (wakes_now s f fs t)
  then show ?case
    unfolding swtch_wait_def
    by (intro kloop_done) (simp add: exec_simps run_others_def visitable_def scheduler_pick_eq)
next
  case (wakes_later s f fs u t)
  then show ?case
    unfolding swtch_wait_def
    by (subst kloop_round) (simp_all add: exec_simps run_others_def visitable_def scheduler_pick_eq lock_exec)
qed

lemma wakes_to_end: "wakes_to p s t \<Longrightarrow> visitable p t \<and> p_state (procs t p) = RUNNABLE"
  by (induction rule: wakes_to.induct) auto

text \<open>Nobody makes the process runnable: it does not come back.\<close>

lemma swtch_wait_never: "env s = [] \<Longrightarrow> swtch_wait p s = Switched s"
  unfolding swtch_wait_def by (subst kloop_unfold) (simp add: exec_simps run_others_def)

text \<open>The state a thread leaves behind, and the one it finds itself in when it is resumed.\<close>

definition off_cpu :: "'z kstate_scheme \<Rightarrow> 'z kstate_scheme" where
  "off_cpu s = upd_cpu (\<lambda>c. c\<lparr>c_proc := None\<rparr>) s"

definition resumed :: "nat \<Rightarrow> bool \<Rightarrow> 'z kstate_scheme \<Rightarrow> 'z kstate_scheme" where
  "resumed p on t = (picked p t)\<lparr>sie := on,
     cpus := (cpus (picked p t))(hart t := (cpus (picked p t) (hart t))\<lparr>c_intena := on\<rparr>)\<rparr>"

lemma sched_runs:
  assumes "visitable p s" "c_noff (mycpu_of s) = 0" "c_proc (mycpu_of s) = Some p"
    and "p_state (procs s p) \<noteq> RUNNING"
    and "wakes_to p (off_cpu s) t" "c_noff (mycpu_of t) = 0"
  shows "sched (take_lock (ProcLock p) s) = Ret () (take_lock (ProcLock p) (resumed p (sie s) t))"
proof -
  have "c_intena (cpus (take_lock (ProcLock p) s) (hart s)) = sie s"
    using assms(2) by (simp add: take_lock_def)
  moreover have "upd_cpu (\<lambda>c. c\<lparr>c_intena := on\<rparr>) (take_lock (ProcLock p) (picked p t)) =
      take_lock (ProcLock p) (resumed p on t)" for on
    using assms(6)
    by (intro kworld.equality) (simp_all add: take_lock_def upd_cpu_def resumed_def picked_def upd_proc_def fun_eq_iff)
  ultimately show ?thesis
    using assms swtch_wait_runs [OF assms(5)]
    by (simp add: sched_def exec_simps lock_exec cpu_exec visitable_def swtch_away_def
        scheduler_leave_eq off_cpu_def)
qed

lemma resumed_simps [simp]:
  "lock_free lk (resumed p on t) = lock_free lk t"
  "hart (resumed p on t) = hart t"
  "c_proc (cpus (resumed p on t) (hart t)) = Some p"
  "c_noff (cpus (resumed p on t) (hart t)) = c_noff (mycpu_of t)"
  "procs (resumed p on t) = (procs t)(p := (procs t p)\<lparr>p_state := RUNNING\<rparr>)"
  "sie (resumed p on t) = on"
  by (simp_all add: resumed_def picked_def upd_cpu_def upd_proc_def lock_free_def)

lemma settled_resumed: "c_noff (mycpu_of t) = 0 \<Longrightarrow> settled (resumed p on t)"
  by (simp add: settled_def) (simp add: resumed_def)

lemma upd_proc_resumed: "upd_proc p f (resumed p on t) = resumed p on (upd_proc p (\<lambda>q. f (q\<lparr>p_state := RUNNING\<rparr>)) t)"
  if "\<And>q. f (q\<lparr>p_state := RUNNING\<rparr>) = (f (q\<lparr>p_state := RUNNING\<rparr>))\<lparr>p_state := RUNNING\<rparr>"
  using that by (intro kstate.equality) (auto simp: resumed_def picked_def upd_cpu_def upd_proc_def fun_eq_iff)

text \<open>
  The state others find while the process sleeps: it is marked as sleeping on the channel, and the
  caller's lock is free.
\<close>

definition asleep :: "nat \<Rightarrow> chan \<Rightarrow> 'z kstate_scheme \<Rightarrow> 'z kstate_scheme" where
  "asleep p ch s = off_cpu (upd_proc p (\<lambda>q. q\<lparr>p_chan := Some ch, p_state := SLEEPING\<rparr>) s)"

text \<open>Process context: the code runs for process \<open>p\<close>, holds no spin lock and \<open>p\<close>'s lock is free.\<close>

definition in_proc :: "nat \<Rightarrow> 'z kstate_scheme \<Rightarrow> bool" where
  "in_proc p s \<longleftrightarrow> visitable p s \<and> c_noff (mycpu_of s) = 0 \<and> c_proc (mycpu_of s) = Some p"

definition woke_up :: "nat \<Rightarrow> bool \<Rightarrow> 'z kstate_scheme \<Rightarrow> 'z kstate_scheme" where
  "woke_up p on t = upd_proc p (\<lambda>q. q\<lparr>p_chan := None\<rparr>) (resumed p on t)"

lemma sleep_runs:
  assumes "in_proc p s" "lock_free lk s" "lk \<noteq> ProcLock p"
    and wakes: "wakes_to p (asleep p ch s) t" and idle: "c_noff (mycpu_of t) = 0"
    and lk: "lock_free lk t"
  shows "sleep ch lk (take_lock lk s) = Ret () (take_lock lk (woke_up p (sie s) t))"
proof -
  let ?u = "upd_proc p (\<lambda>q. q\<lparr>p_chan := Some ch, p_state := SLEEPING\<rparr>) s"
  have "visitable p ?u" "c_noff (mycpu_of ?u) = 0" "c_proc (mycpu_of ?u) = Some p"
    "p_state (procs ?u p) \<noteq> RUNNING" "sie ?u = sie s"
    using assms(1) by (auto simp: in_proc_def visitable_def upd_proc_def)
  then have sched: "sched (take_lock (ProcLock p) ?u) = Ret () (take_lock (ProcLock p) (resumed p (sie s) t))"
    using sched_runs [of p ?u t] wakes idle by (simp add: asleep_def)
  have "visitable p t" using wakes_to_end [OF wakes] by simp
  then show ?thesis
    using assms sched
    by (simp add: sleep_def exec_simps lock_exec in_proc_def visitable_def release_under
        upd_proc_twice settled_resumed woke_up_def)
qed

text \<open>A sleeper that nobody wakes stays asleep.\<close>

lemma sleep_never:
  assumes "in_proc p s" "lock_free lk s" "lk \<noteq> ProcLock p" "env s = []"
  shows "sleep ch lk (take_lock lk s) = Switched (asleep p ch s)"
proof -
  let ?u = "upd_proc p (\<lambda>q. q\<lparr>p_chan := Some ch, p_state := SLEEPING\<rparr>) s"
  have *: "env (upd_cpu f ?u) = env s" "p_state (procs ?u p) = SLEEPING" "cpus ?u = cpus s" "hart ?u = hart s" for f
    by (simp_all add: upd_cpu_def upd_proc_def)
  then have "swtch_away p (take_lock (ProcLock p) ?u) = Switched (asleep p ch s)"
    using assms by (simp add: swtch_away_def exec_simps scheduler_leave_eq visitable_def in_proc_def
        asleep_def off_cpu_def swtch_wait_never)
  then show ?thesis
    using assms * by (simp add: sleep_def sched_def exec_simps lock_exec cpu_exec in_proc_def visitable_def
        release_under upd_proc_twice)
qed

lemma yield_runs:
  assumes "in_proc p s"
    and wakes: "wakes_to p (off_cpu (upd_proc p (\<lambda>q. q\<lparr>p_state := RUNNABLE\<rparr>) s)) t"
    and idle: "c_noff (mycpu_of t) = 0"
  shows "yield s = Ret () (resumed p (sie s) t)"
proof -
  let ?u = "upd_proc p (\<lambda>q. q\<lparr>p_state := RUNNABLE\<rparr>) s"
  have "visitable p ?u" "c_noff (mycpu_of ?u) = 0" "c_proc (mycpu_of ?u) = Some p"
    "p_state (procs ?u p) \<noteq> RUNNING" "sie ?u = sie s"
    using assms(1) by (auto simp: in_proc_def visitable_def upd_proc_def)
  then have sched: "sched (take_lock (ProcLock p) ?u) = Ret () (take_lock (ProcLock p) (resumed p (sie s) t))"
    using sched_runs [of p ?u t] wakes idle by simp
  have "visitable p t" using wakes_to_end [OF wakes] by simp
  then show ?thesis
    using assms sched
    by (simp add: yield_def exec_simps lock_exec in_proc_def visitable_def settled_resumed)
qed

text \<open>Calling \<open>sched\<close> with another spin lock held, or without having left the running state, is a panic.\<close>

lemma sched_locks_panic:
  assumes "in_proc p s" "lock_free lk s" "lk \<noteq> ProcLock p"
  shows "sched (take_lock (ProcLock p) (take_lock lk s)) = Panic ''sched locks''"
  using assms
  by (simp add: sched_def exec_simps lock_exec cpu_exec in_proc_def visitable_def)

lemma sched_running_panic:
  assumes "in_proc p s" "p_state (procs s p) = RUNNING"
  shows "sched (take_lock (ProcLock p) s) = Panic ''sched running''"
  using assms
  by (simp add: sched_def exec_simps lock_exec cpu_exec in_proc_def visitable_def)

section \<open>Correctness\<close>

text \<open>
  \<open>wakeup(chan)\<close> changes exactly the processes, other than the caller's, that sleep on
  \<open>chan\<close>: these become runnable, and nothing else of the kernel's state changes.
\<close>
theorem wakeup_exact:
  assumes "procs_free s"
  shows "\<exists>t. wakeup ch s = Ret () t \<and> t = s\<lparr>procs := procs t\<rparr> \<and>
    (\<forall>p. procs t p =
       (if p < NPROC \<and> c_proc (mycpu_of s) \<noteq> Some p \<and> p_state (procs s p) = SLEEPING \<and>
           p_chan (procs s p) = ch
        then (procs s p)\<lparr>p_state := RUNNABLE\<rparr> else procs s p))"
  using wakeup_eq [OF assms, of ch] by (auto simp: woken_def woken_proc_def)

definition sleeping_world :: kworld where
  "sleeping_world = upd_proc 3 (\<lambda>q. q\<lparr>p_state := SLEEPING, p_chan := Some ChTicks, p_pid := 7\<rparr>)
     (upd_proc 5 (\<lambda>q. q\<lparr>p_state := SLEEPING, p_chan := Some ChLog, p_pid := 9\<rparr>) (zero_world example_syms))"

lemma sleeping_world_free: "procs_free sleeping_world"
  unfolding sleeping_world_def procs_free_upd
  by (simp add: procs_free_def settled_def lock_free_def zero_world_def)

theorem wakeup_exact_witness:
  "\<exists>t. wakeup (Some ChTicks) sleeping_world = Ret () t \<and> p_state (procs t 3) = RUNNABLE \<and>
     p_state (procs t 5) = SLEEPING"
proof -
  obtain t where t: "wakeup (Some ChTicks) sleeping_world = Ret () t"
    and p: "\<And>p. procs t p = (if p < NPROC \<and> c_proc (mycpu_of sleeping_world) \<noteq> Some p \<and>
          p_state (procs sleeping_world p) = SLEEPING \<and> p_chan (procs sleeping_world p) = Some ChTicks
        then (procs sleeping_world p)\<lparr>p_state := RUNNABLE\<rparr> else procs sleeping_world p)"
    using wakeup_exact [OF sleeping_world_free, of "Some ChTicks"] by blast
  have "p_state (procs t 3) = RUNNABLE \<and> p_state (procs t 5) = SLEEPING"
    unfolding p by (simp add: sleeping_world_def upd_proc_def zero_world_def NPROC_def)
  with t show ?thesis by blast
qed

text \<open>
  \<open>kill(pid)\<close> returns 0 exactly when the table has a process with that pid; then the first of them,
  and only that one, is marked as killed, and is made runnable if it slept. Otherwise it returns -1
  and nothing changes.
\<close>
theorem kill_spec:
  assumes "procs_free s"
  shows "(\<exists>p<NPROC. p_pid (procs s p) = pid \<and> (\<forall>q<p. p_pid (procs s q) \<noteq> pid) \<and>
       kill pid s = Ret 0 (upd_proc p (\<lambda>q. q\<lparr>p_killed := 1,
         p_state := (if p_state q = SLEEPING then RUNNABLE else p_state q)\<rparr>) s)) \<or>
    ((\<forall>p<NPROC. p_pid (procs s p) \<noteq> pid) \<and> kill pid s = Ret (- 1) s)"
proof (cases "first_index (\<lambda>p. p_pid (procs s p) = pid) NPROC")
  case None
  then have "kill pid s = Ret (- 1) s" using kill_eq [OF assms, of pid] by simp
  with None show ?thesis by (simp add: first_index_None)
next
  case (Some p)
  then have "kill pid s = Ret 0 (upd_proc p killed_proc s)" using kill_eq [OF assms, of pid] by simp
  moreover have "upd_proc p killed_proc s = upd_proc p (\<lambda>q. q\<lparr>p_killed := 1,
         p_state := (if p_state q = SLEEPING then RUNNABLE else p_state q)\<rparr>) s"
    by (simp add: upd_proc_def killed_proc_def)
  ultimately show ?thesis using Some by (auto simp: first_index_Some)
qed

theorem kill_spec_witness: "kill 8 sleeping_world = Ret (- 1) sleeping_world"
proof -
  have "p_pid (procs sleeping_world p) \<noteq> 8" for p
    by (simp add: sleeping_world_def upd_proc_def zero_world_def zero_proc_def)
  then show ?thesis using kill_spec [OF sleeping_world_free, of 8] by blast
qed

text \<open>
  C17. \<open>sleep(chan, lk)\<close>, called with \<open>lk\<close> held and no other lock, gives up the processor with the process
  marked as sleeping on \<open>chan\<close> and with \<open>lk\<close> free; when the others make the process runnable, it
  returns with \<open>lk\<close> held again, the channel cleared, the process running on the processor that
  picked it and the interrupt state of the caller. If the schedule ends first it does not return.
\<close>
theorem sleep_spec:
  assumes "in_proc p s" "lock_free lk s" "lk \<noteq> ProcLock p"
  shows "(\<forall>t. wakes_to p (asleep p ch s) t \<longrightarrow> c_noff (mycpu_of t) = 0 \<longrightarrow> lock_free lk t \<longrightarrow>
      (\<exists>u. sleep ch lk (take_lock lk s) = Ret () (take_lock lk u) \<and> hart u = hart t \<and>
           p_chan (procs u p) = None \<and> p_state (procs u p) = RUNNING \<and>
           c_proc (mycpu_of u) = Some p \<and> sie u = sie s \<and> lock_free lk u)) \<and>
    p_state (procs (asleep p ch s) p) = SLEEPING \<and> p_chan (procs (asleep p ch s) p) = Some ch \<and>
    lock_free lk (asleep p ch s) \<and>
    (env s = [] \<longrightarrow> sleep ch lk (take_lock lk s) = Switched (asleep p ch s))"
proof (intro conjI allI impI)
  fix t
  assume "wakes_to p (asleep p ch s) t" "c_noff (mycpu_of t) = 0" "lock_free lk t"
  then have "sleep ch lk (take_lock lk s) = Ret () (take_lock lk (woke_up p (sie s) t))"
    using assms by (intro sleep_runs)
  then show "\<exists>u. sleep ch lk (take_lock lk s) = Ret () (take_lock lk u) \<and> hart u = hart t \<and>
           p_chan (procs u p) = None \<and> p_state (procs u p) = RUNNING \<and>
           c_proc (mycpu_of u) = Some p \<and> sie u = sie s \<and> lock_free lk u"
    using \<open>lock_free lk t\<close> by (intro exI [of _ "woke_up p (sie s) t"]) (simp add: woke_up_def upd_proc_def)
next
  assume "env s = []"
  then show "sleep ch lk (take_lock lk s) = Switched (asleep p ch s)"
    using assms by (intro sleep_never)
qed (use assms(2) in \<open>simp_all add: asleep_def off_cpu_def upd_proc_def upd_cpu_def\<close>)

definition waiting_world :: kworld where
  "waiting_world = (zero_world example_syms)\<lparr>
     cpus := (\<lambda>_. \<lparr>c_proc = Some 2, c_noff = 0, c_intena = False\<rparr>),
     env := [upd_proc 2 (\<lambda>q. q\<lparr>p_state := RUNNABLE\<rparr>)]\<rparr>"

lemma waiting_world_wakes:
  "wakes_to 2 (asleep 2 ChTicks waiting_world)
     (after_others (upd_proc 2 (\<lambda>q. q\<lparr>p_state := RUNNABLE\<rparr>)) [] (asleep 2 ChTicks waiting_world))"
  by (rule wakes_now [of _ "upd_proc 2 (\<lambda>q. q\<lparr>p_state := RUNNABLE\<rparr>)" "[]"])
     (simp_all add: waiting_world_def zero_world_def asleep_def off_cpu_def upd_proc_def upd_cpu_def
       after_others_def kstate.defs kworld.defs visitable_def settled_def lock_free_def)

theorem sleep_spec_witness:
  "\<exists>u. sleep ChTicks TicksLock (take_lock TicksLock waiting_world) = Ret () (take_lock TicksLock u) \<and>
     p_state (procs u 2) = RUNNING"
proof -
  have "in_proc 2 waiting_world" "lock_free TicksLock waiting_world"
    by (simp_all add: in_proc_def visitable_def settled_def lock_free_def waiting_world_def zero_world_def)
  from sleep_spec [OF this, of ChTicks] waiting_world_wakes
  have "c_noff (mycpu_of (after_others (upd_proc 2 (\<lambda>q. q\<lparr>p_state := RUNNABLE\<rparr>)) []
           (asleep 2 ChTicks waiting_world))) = 0 \<longrightarrow>
        lock_free TicksLock (after_others (upd_proc 2 (\<lambda>q. q\<lparr>p_state := RUNNABLE\<rparr>)) []
           (asleep 2 ChTicks waiting_world)) \<longrightarrow>
     (\<exists>u. sleep ChTicks TicksLock (take_lock TicksLock waiting_world) = Ret () (take_lock TicksLock u) \<and>
     p_state (procs u 2) = RUNNING)" by blast
  then show ?thesis
    by (simp add: waiting_world_def zero_world_def asleep_def off_cpu_def upd_proc_def upd_cpu_def
       after_others_def kstate.defs kworld.defs lock_free_def)
qed

end
