(* ===== verification/Sleeplock.thy ===== *)
theory Sleeplock
  imports Sched
begin

text \<open>
  Sleep locks (\<open>kernel/sleeplock.c\<close>): locks that a process may hold across a context switch. The
  contenders of a taken lock sleep on its channel, and the release wakes them all.
\<close>

definition initsleeplock :: "sleepid \<Rightarrow> string \<Rightarrow> unit K" where
  "initsleeplock i name = kseq [
     initlock (SleepLk i) ''sleep lock'',
     kmod (upd_sleep i (\<lambda>l. l\<lparr>sl_name := name\<rparr>)),
     kmod (upd_sleep i (\<lambda>l. l\<lparr>sl_locked := False\<rparr>)),
     kmod (upd_sleep i (\<lambda>l. l\<lparr>sl_pid := 0\<rparr>))]"

definition acquiresleep_loop :: "sleepid \<Rightarrow> unit K" where
  "acquiresleep_loop i =
     kloop (\<lambda>_. kbind (kget (\<lambda>s. sl_locked (sleeplocks s i))) (\<lambda>b.
        if b then kbind (sleep (ChSleep i) (SleepLk i)) (\<lambda>_. kret (Inl ())) else kret (Inr ()))) ()"

definition acquiresleep :: "sleepid \<Rightarrow> unit K" where
  "acquiresleep i = kseq [
     acquire (SleepLk i),
     acquiresleep_loop i,
     kmod (upd_sleep i (\<lambda>l. l\<lparr>sl_locked := True\<rparr>)),
     kbind curproc (\<lambda>p. kmod (\<lambda>s. upd_sleep i (\<lambda>l. l\<lparr>sl_pid := p_pid (procs s p)\<rparr>) s)),
     release (SleepLk i)]"

definition releasesleep :: "sleepid \<Rightarrow> unit K" where
  "releasesleep i = kseq [
     acquire (SleepLk i),
     kmod (upd_sleep i (\<lambda>l. l\<lparr>sl_locked := False\<rparr>)),
     kmod (upd_sleep i (\<lambda>l. l\<lparr>sl_pid := 0\<rparr>)),
     wakeup (Some (ChSleep i)),
     release (SleepLk i)]"

definition holdingsleep :: "sleepid \<Rightarrow> bool K" where
  "holdingsleep i =
     kbind (acquire (SleepLk i)) (\<lambda>_.
     kbind (kget (\<lambda>s. sl_locked (sleeplocks s i))) (\<lambda>b.
     kbind (if b then kbind curproc (\<lambda>p. kget (\<lambda>s. sl_pid (sleeplocks s i) = p_pid (procs s p)))
            else kret False) (\<lambda>r.
     kbind (release (SleepLk i)) (\<lambda>_.
     kret r))))"

section \<open>What the operations do\<close>

definition sl_owned :: "int \<Rightarrow> sleeplock \<Rightarrow> sleeplock" where
  "sl_owned pid l = l\<lparr>sl_locked := True, sl_pid := pid\<rparr>"

definition sl_freed :: "sleeplock \<Rightarrow> sleeplock" where
  "sl_freed l = l\<lparr>sl_locked := False, sl_pid := 0\<rparr>"

lemma upd_sleep_twice: "upd_sleep i f (upd_sleep i g s) = upd_sleep i (\<lambda>l. f (g l)) s"
  by (simp add: upd_sleep_def)

text \<open>The process context in which a sleep lock is used.\<close>

definition sleep_ready :: "nat \<Rightarrow> sleepid \<Rightarrow> 'z kstate_scheme \<Rightarrow> bool" where
  "sleep_ready p i s \<longleftrightarrow> settled s \<and> lock_free (SleepLk i) s \<and> c_proc (mycpu_of s) = Some p"

text \<open>
  The contender sleeps until a state in which the lock is free: \<open>obtains i p s t\<close> says that the schedule
  of \<open>s\<close> leads there, through any number of wake-ups that find the lock taken again.
\<close>

inductive sleep_obtains :: "sleepid \<Rightarrow> nat \<Rightarrow> kworld \<Rightarrow> kworld \<Rightarrow> bool" for i p where
  so_free: "\<not> sl_locked (sleeplocks s i) \<Longrightarrow> sleep_ready p i s \<Longrightarrow> sleep_obtains i p s s"
| so_wait: "sl_locked (sleeplocks s i) \<Longrightarrow> in_proc p s \<Longrightarrow> lock_free (SleepLk i) s \<Longrightarrow>
     wakes_to p (asleep p (ChSleep i) s) u \<Longrightarrow> c_noff (mycpu_of u) = 0 \<Longrightarrow> lock_free (SleepLk i) u \<Longrightarrow>
     sleep_obtains i p (woke_up p (sie s) u) t \<Longrightarrow> sleep_obtains i p s t"

lemma sleep_obtains_free: "sleep_obtains i p s t \<Longrightarrow> \<not> sl_locked (sleeplocks t i) \<and> sleep_ready p i t"
  by (induction rule: sleep_obtains.induct) auto

lemma acquiresleep_loop_runs:
  assumes "sleep_obtains i p s t"
  shows "acquiresleep_loop i (take_lock (SleepLk i) s) = Ret () (take_lock (SleepLk i) t)"
  using assms
proof (induction rule: sleep_obtains.induct)
  case (so_free s)
  then show ?case unfolding acquiresleep_loop_def by (intro kloop_done) (simp add: exec_simps)
next
  case (so_wait s u t)
  then have "sleep (ChSleep i) (SleepLk i) (take_lock (SleepLk i) s) =
      Ret () (take_lock (SleepLk i) (woke_up p (sie s) u))"
    by (intro sleep_runs) auto
  with so_wait.hyps have "acquiresleep_loop i (take_lock (SleepLk i) s) =
      acquiresleep_loop i (take_lock (SleepLk i) (woke_up p (sie s) u))"
    unfolding acquiresleep_loop_def by (intro kloop_round) (simp add: exec_simps)
  with so_wait.IH show ?case by simp
qed

lemma acquiresleep_runs:
  assumes "sleep_obtains i p s t" "lock_free (SleepLk i) s"
  shows "acquiresleep i s = Ret () (upd_sleep i (sl_owned (p_pid (procs t p))) t)"
  using assms(2) acquiresleep_loop_runs [OF assms(1)] sleep_obtains_free [OF assms(1)]
  by (simp add: acquiresleep_def exec_simps lock_exec sleep_ready_def upd_sleep_def sl_owned_def)

lemma acquiresleep_free:
  assumes "sleep_ready p i s" "\<not> sl_locked (sleeplocks s i)"
  shows "acquiresleep i s = Ret () (upd_sleep i (sl_owned (p_pid (procs s p))) s)"
  using assms by (intro acquiresleep_runs so_free) (auto simp: sleep_ready_def)

lemma releasesleep_eq:
  assumes "procs_free s" "lock_free (SleepLk i) s"
  shows "releasesleep i s = Ret () (woken (Some (ChSleep i)) (upd_sleep i sl_freed s))"
proof -
  have "upd_sleep i (\<lambda>l. l\<lparr>sl_locked := False, sl_pid := 0\<rparr>) s = upd_sleep i sl_freed s"
    by (simp add: upd_sleep_def sl_freed_def)
  then show ?thesis
    using assms
    by (simp add: releasesleep_def exec_simps lock_exec wakeup_eq procs_free_def upd_sleep_twice)
qed

lemma holdingsleep_eq:
  assumes "sleep_ready p i s"
  shows "holdingsleep i s =
    Ret (sl_locked (sleeplocks s i) \<and> sl_pid (sleeplocks s i) = p_pid (procs s p)) s"
  using assms by (auto simp: holdingsleep_def exec_simps lock_exec sleep_ready_def)

section \<open>Correctness\<close>

text \<open>
  C18. A sleep lock is handed over only when free. When the schedule lets the caller of
  \<open>acquiresleep\<close> find the lock free, at once or after any number of sleeps, the call returns, the
  lock was free at that moment, and now it is locked with the caller's pid, so \<open>holdingsleep\<close> answers
  true. \<open>releasesleep\<close> frees it and makes every process that sleeps on it runnable.
\<close>
theorem sleeplock_spec:
  assumes "sleep_obtains i p s t" "lock_free (SleepLk i) s"
  shows "\<exists>u. acquiresleep i s = Ret () u \<and> \<not> sl_locked (sleeplocks t i) \<and>
    u = t\<lparr>sleeplocks := (sleeplocks t)(i := (sleeplocks t i)\<lparr>sl_locked := True,
          sl_pid := p_pid (procs t p)\<rparr>)\<rparr> \<and>
    holdingsleep i u = Ret True u \<and>
    (procs_free u \<longrightarrow> (\<exists>v. releasesleep i u = Ret () v \<and> \<not> sl_locked (sleeplocks v i) \<and>
       (\<forall>q<NPROC. q \<noteq> p \<longrightarrow> p_state (procs v q) = SLEEPING \<longrightarrow> p_chan (procs v q) \<noteq> Some (ChSleep i))))"
proof -
  let ?u = "upd_sleep i (sl_owned (p_pid (procs t p))) t"
  have free: "\<not> sl_locked (sleeplocks t i)" "sleep_ready p i t"
    using sleep_obtains_free [OF assms(1)] by simp_all
  then have "sleep_ready p i ?u" by (simp add: sleep_ready_def) (simp add: upd_sleep_def)
  then have "holdingsleep i ?u = Ret True ?u"
    by (simp add: holdingsleep_eq) (simp add: upd_sleep_def sl_owned_def)
  moreover have "releasesleep i ?u = Ret () (woken (Some (ChSleep i)) (upd_sleep i sl_freed ?u))"
    if "procs_free ?u"
    using that \<open>sleep_ready p i ?u\<close> by (intro releasesleep_eq) (simp_all add: sleep_ready_def)
  moreover have "\<not> sl_locked (sleeplocks (woken c (upd_sleep i sl_freed ?u)) i)" for c
    by (simp add: woken_def upd_sleep_def sl_freed_def)
  moreover have "p_chan (procs (woken c (upd_sleep i sl_freed ?u)) q) \<noteq> c"
    if "q < NPROC" "q \<noteq> p" "p_state (procs (woken c (upd_sleep i sl_freed ?u)) q) = SLEEPING" for c q
    using that free(2) by (auto simp: woken_def woken_proc_def upd_sleep_def sleep_ready_def split: if_splits)
  ultimately show ?thesis
    using acquiresleep_runs [OF assms] free(1)
    by (intro exI [of _ ?u]) (auto simp: upd_sleep_def sl_owned_def)
qed

theorem sleeplock_spec_witness:
  "\<exists>u. acquiresleep (BufLock 4) waiting_world = Ret () u \<and> holdingsleep (BufLock 4) u = Ret True u"
proof -
  have "sleep_obtains (BufLock 4) 2 waiting_world waiting_world" "lock_free (SleepLk (BufLock 4)) waiting_world"
    by (auto intro!: so_free simp: sleep_ready_def settled_def lock_free_def waiting_world_def zero_world_def)
  from sleeplock_spec [OF this] show ?thesis by blast
qed

end
