(* ===== verification/Bio.thy ===== *)
theory Bio
  imports Sleeplock
begin

text \<open>
  The buffer cache (\<open>kernel/bio.c\<close>): a doubly linked ring of buffers in order of last use, headed by
  \<open>bcache.head\<close>, which is the element \<open>NBUF\<close> of the table \<open>bufs\<close>. A buffer is used under its
  sleep lock; its reference count keeps it from being recycled.

  \<open>disk_rw\<close> is what a call of the disk driver amounts to once the device has carried out the request.
\<close>

section \<open>The disk\<close>

definition disk_rw :: "nat \<Rightarrow> bool \<Rightarrow> unit K" where
  "disk_rw b write = kwith (\<lambda>s. let bn = b_blockno (bufs s b) in
     if write
     then kmod (\<lambda>s. s\<lparr>disk := (disk s)(bn := b_data (bufs s b)),
                     disk_writes := disk_writes s @ [(bn, b_data (bufs s b))]\<rparr>)
     else kmod (upd_buf b (\<lambda>x. x\<lparr>b_data := disk s bn\<rparr>)))"

section \<open>The cache\<close>

definition binit_one :: "nat \<Rightarrow> unit K" where
  "binit_one b = kseq [
     kmod (\<lambda>s. upd_buf b (\<lambda>x. x\<lparr>b_next := b_next (bufs s NBUF)\<rparr>) s),
     kmod (upd_buf b (\<lambda>x. x\<lparr>b_prev := NBUF\<rparr>)),
     initsleeplock (BufLock b) ''buffer'',
     kmod (\<lambda>s. upd_buf (b_next (bufs s NBUF)) (\<lambda>x. x\<lparr>b_prev := b\<rparr>) s),
     kmod (upd_buf NBUF (\<lambda>x. x\<lparr>b_next := b\<rparr>))]"

definition binit :: "unit K" where
  "binit = kseq [
     initlock BcacheLock ''bcache'',
     kmod (upd_buf NBUF (\<lambda>x. x\<lparr>b_prev := NBUF\<rparr>)),
     kmod (upd_buf NBUF (\<lambda>x. x\<lparr>b_next := NBUF\<rparr>)),
     kfor [0..<NBUF] binit_one]"

text \<open>
  The two loops of \<open>bget\<close>: along \<open>next\<close> for a buffer that caches the block, along \<open>prev\<close> for one
  that is unused. They answer with the buffer, or nothing if they come back to the head.
\<close>

definition bget_scan :: "(buf \<Rightarrow> nat) \<Rightarrow> (buf \<Rightarrow> bool) \<Rightarrow> nat option K" where
  "bget_scan link P = kbind (kget (\<lambda>s. link (bufs s NBUF))) (\<lambda>b0.
     kloop (\<lambda>b. if b = NBUF then kret (Inr None)
                 else kbind (kget (\<lambda>s. bufs s b)) (\<lambda>x.
                   if P x then kret (Inr (Some b)) else kret (Inl (link x)))) b0)"

definition bget :: "u32 \<Rightarrow> u32 \<Rightarrow> nat K" where
  "bget dev blockno =
     kbind (acquire BcacheLock) (\<lambda>_.
     kbind (bget_scan b_next (\<lambda>x. b_dev x = dev \<and> b_blockno x = blockno)) (\<lambda>hit.
     case hit of
       Some b \<Rightarrow> kbind (kseq [
           kmod (upd_buf b (\<lambda>x. x\<lparr>b_refcnt := b_refcnt x + 1\<rparr>)),
           release BcacheLock,
           acquiresleep (BufLock b)]) (\<lambda>_. kret b)
     | None \<Rightarrow>
         kbind (bget_scan b_prev (\<lambda>x. b_refcnt x = 0)) (\<lambda>spare.
         case spare of
           Some b \<Rightarrow> kbind (kseq [
               kmod (upd_buf b (\<lambda>x. x\<lparr>b_dev := dev\<rparr>)),
               kmod (upd_buf b (\<lambda>x. x\<lparr>b_blockno := blockno\<rparr>)),
               kmod (upd_buf b (\<lambda>x. x\<lparr>b_valid := False\<rparr>)),
               kmod (upd_buf b (\<lambda>x. x\<lparr>b_refcnt := 1\<rparr>)),
               release BcacheLock,
               acquiresleep (BufLock b)]) (\<lambda>_. kret b)
         | None \<Rightarrow> panic ''bget: no buffers'')))"

definition bread :: "u32 \<Rightarrow> u32 \<Rightarrow> nat K" where
  "bread dev blockno =
     kbind (bget dev blockno) (\<lambda>b.
     kbind (kget (\<lambda>s. b_valid (bufs s b))) (\<lambda>valid.
     kbind (kwhen (\<not> valid) (kseq [
        disk_rw b False,
        kmod (upd_buf b (\<lambda>x. x\<lparr>b_valid := True\<rparr>))])) (\<lambda>_.
     kret b)))"

definition bwrite :: "nat \<Rightarrow> unit K" where
  "bwrite b = kseq [
     kbind (holdingsleep (BufLock b)) (\<lambda>h. kwhen (\<not> h) (panic ''bwrite'')),
     disk_rw b True]"

text \<open>Taking a buffer out of the ring, and putting it in after the head.\<close>

definition brelse_move :: "nat \<Rightarrow> unit K" where
  "brelse_move b = kseq [
     kmod (\<lambda>s. upd_buf (b_next (bufs s b)) (\<lambda>x. x\<lparr>b_prev := b_prev (bufs s b)\<rparr>) s),
     kmod (\<lambda>s. upd_buf (b_prev (bufs s b)) (\<lambda>x. x\<lparr>b_next := b_next (bufs s b)\<rparr>) s),
     kmod (\<lambda>s. upd_buf b (\<lambda>x. x\<lparr>b_next := b_next (bufs s NBUF)\<rparr>) s),
     kmod (upd_buf b (\<lambda>x. x\<lparr>b_prev := NBUF\<rparr>)),
     kmod (\<lambda>s. upd_buf (b_next (bufs s NBUF)) (\<lambda>x. x\<lparr>b_prev := b\<rparr>) s),
     kmod (upd_buf NBUF (\<lambda>x. x\<lparr>b_next := b\<rparr>))]"

definition brelse :: "nat \<Rightarrow> unit K" where
  "brelse b = kseq [
     kbind (holdingsleep (BufLock b)) (\<lambda>h. kwhen (\<not> h) (panic ''brelse'')),
     releasesleep (BufLock b),
     acquire BcacheLock,
     kmod (upd_buf b (\<lambda>x. x\<lparr>b_refcnt := b_refcnt x - 1\<rparr>)),
     kbind (kget (\<lambda>s. b_refcnt (bufs s b))) (\<lambda>r. kwhen (r = 0) (brelse_move b)),
     release BcacheLock]"

definition bpin :: "nat \<Rightarrow> unit K" where
  "bpin b = kseq [
     acquire BcacheLock,
     kmod (upd_buf b (\<lambda>x. x\<lparr>b_refcnt := b_refcnt x + 1\<rparr>)),
     release BcacheLock]"

definition bunpin :: "nat \<Rightarrow> unit K" where
  "bunpin b = kseq [
     acquire BcacheLock,
     kmod (upd_buf b (\<lambda>x. x\<lparr>b_refcnt := b_refcnt x - 1\<rparr>)),
     release BcacheLock]"

section \<open>The ring\<close>

text \<open>\<open>chain f a xs z\<close>: following the links \<open>f\<close> from \<open>a\<close> leads through \<open>xs\<close> to \<open>z\<close>.\<close>

primrec chain :: "(nat \<Rightarrow> nat) \<Rightarrow> nat \<Rightarrow> nat list \<Rightarrow> nat \<Rightarrow> bool" where
  "chain f a [] z \<longleftrightarrow> f a = z"
| "chain f a (x # xs) z \<longleftrightarrow> f a = x \<and> chain f x xs z"

text \<open>The buffers in order of last use, the most recently used first.\<close>

definition ring :: "(nat \<Rightarrow> buf) \<Rightarrow> nat list \<Rightarrow> bool" where
  "ring bs xs \<longleftrightarrow> chain (\<lambda>b. b_next (bs b)) NBUF xs NBUF \<and> chain (\<lambda>b. b_prev (bs b)) NBUF (rev xs) NBUF \<and>
     distinct xs \<and> set xs = {..<NBUF}"

lemma chain_append: "chain f a (xs @ y # ys) z \<longleftrightarrow> chain f a xs y \<and> chain f y ys z"
  by (induction xs arbitrary: a) auto

lemma chain_cong: "(\<And>x. x \<in> insert a (set xs) \<Longrightarrow> f x = g x) \<Longrightarrow> chain f a xs z = chain g a xs z"
  by (induction xs arbitrary: a) auto

lemma chain_snoc: "chain f a (xs @ [y]) z \<longleftrightarrow> chain f a xs y \<and> f y = z"
  by (simp add: chain_append)

lemma ring_cong:
  "(\<And>b. b_next (bs b) = b_next (cs b)) \<Longrightarrow> (\<And>b. b_prev (bs b) = b_prev (cs b)) \<Longrightarrow> ring bs xs \<longleftrightarrow> ring cs xs"
  by (simp add: ring_def)

text \<open>A scan of the ring finds what a scan of the list finds.\<close>

lemma bget_scan_eq:
  assumes "chain (\<lambda>b. link (bufs s b)) NBUF xs NBUF" "NBUF \<notin> set xs"
  shows "bget_scan link P s = Ret (List.find (\<lambda>b. P (bufs s b)) xs) s"
proof -
  let ?body = "\<lambda>b. if b = NBUF then kret (Inr None)
     else kbind (kget (\<lambda>s. bufs s b)) (\<lambda>x. if P x then kret (Inr (Some b)) else kret (Inl (link x)))"
  have "kloop ?body (link (bufs s a)) s = Ret (List.find (\<lambda>b. P (bufs s b)) xs) s"
    if "chain (\<lambda>b. link (bufs s b)) a xs NBUF" "NBUF \<notin> set xs" for a
    using that
  proof (induction xs arbitrary: a)
    case Nil
    then have "?body (link (bufs s a)) s = Ret (Inr None) s" by (simp add: exec_simps)
    then show ?case by (simp add: kloop_done)
  next
    case (Cons x xs)
    show ?case
    proof (cases "P (bufs s x)")
      case True
      then have "?body (link (bufs s a)) s = Ret (Inr (Some x)) s" using Cons.prems by (auto simp: exec_simps)
      then show ?thesis using True by (simp add: kloop_done)
    next
      case False
      then have "?body (link (bufs s a)) s = Ret (Inl (link (bufs s x))) s"
        using Cons.prems by (auto simp: exec_simps)
      then have "kloop ?body (link (bufs s a)) s = kloop ?body (link (bufs s x)) s" by (rule kloop_round)
      then show ?thesis using Cons False by auto
    qed
  qed
  then show ?thesis using assms by (simp add: bget_scan_def exec_simps)
qed

text \<open>Cutting an element out of a chain, and putting one in at the front.\<close>

lemma chain_first: "chain f a xs z \<Longrightarrow> f a = hd (xs @ [z])"
  by (cases xs) auto

lemma chain_end: "chain f a xs z \<Longrightarrow> distinct (a # xs) \<Longrightarrow> chain (f(last (a # xs) := w)) a xs w"
proof (induction xs arbitrary: a)
  case Nil
  then show ?case by simp
next
  case (Cons x xs)
  then have "last (x # xs) \<noteq> a" using last_in_set [of "x # xs"] by fastforce
  with Cons show ?case by auto
qed

lemma chain_unlink:
  assumes "chain f h (ys @ b # zs) h" "distinct (h # ys @ b # zs)"
  shows "chain (f(last (h # ys) := f b)) h (ys @ zs) h"
proof -
  have 1: "chain f h ys b" "chain f b zs h" using assms(1) by (simp_all add: chain_append)
  let ?f = "f(last (h # ys) := f b)"
  have head: "chain ?f h ys (f b)" using assms(2) by (intro chain_end [OF 1(1)]) auto
  show ?thesis
  proof (cases zs)
    case Nil
    then show ?thesis using head 1(2) by simp
  next
    case (Cons z zs')
    have "last (h # ys) \<notin> set zs" using assms(2) last_in_set [of "h # ys"] by auto
    then have "chain ?f z zs' h = chain f z zs' h" using Cons by (intro chain_cong) auto
    then show ?thesis using head 1(2) Cons by (simp add: chain_append)
  qed
qed

lemma chain_push:
  assumes "chain f h xs h" "distinct (h # b # xs)"
  shows "chain (f(b := f h, h := b)) h (b # xs) h"
proof (cases xs)
  case Nil
  then show ?thesis using assms by simp
next
  case (Cons x xs')
  then have "chain (f(b := f h, h := b)) x xs' h = chain f x xs' h"
    using assms(2) by (intro chain_cong) auto
  then show ?thesis using assms Cons by auto
qed

lemma chain_push_end:
  assumes "chain g h ys h" "distinct (h # b # ys)"
  shows "chain (g(b := h, last (h # ys) := b)) h (ys @ [b]) h"
proof -
  let ?g = "g(last (h # ys) := b)"
  have "b \<noteq> last (h # ys)" "b \<notin> insert h (set ys)"
    using assms(2) last_in_set [of "h # ys"] by fastforce+
  then have "chain (g(b := h, last (h # ys) := b)) h ys b = chain ?g h ys b"
    by (intro chain_cong) auto
  moreover have "chain ?g h ys b" using assms by (intro chain_end) auto
  ultimately show ?thesis using \<open>b \<noteq> last (h # ys)\<close> by (simp add: chain_snoc)
qed

abbreviation bnext :: "'z kstate_scheme \<Rightarrow> nat \<Rightarrow> nat" where "bnext s \<equiv> \<lambda>b. b_next (bufs s b)"
abbreviation bprev :: "'z kstate_scheme \<Rightarrow> nat \<Rightarrow> nat" where "bprev s \<equiv> \<lambda>b. b_prev (bufs s b)"

text \<open>The state with the links of the ring changed, and nothing else.\<close>

definition relinked :: "(nat \<Rightarrow> nat) \<Rightarrow> (nat \<Rightarrow> nat) \<Rightarrow> 'z kstate_scheme \<Rightarrow> 'z kstate_scheme" where
  "relinked nx pv s = s\<lparr>bufs := (\<lambda>b. (bufs s b)\<lparr>b_next := nx b, b_prev := pv b\<rparr>)\<rparr>"

lemma relinked_upd_next:
  "upd_buf b (\<lambda>x. x\<lparr>b_next := v\<rparr>) (relinked nx pv s) = relinked (nx(b := v)) pv s"
  by (simp add: upd_buf_def relinked_def fun_eq_iff)

lemma relinked_upd_prev:
  "upd_buf b (\<lambda>x. x\<lparr>b_prev := v\<rparr>) (relinked nx pv s) = relinked nx (pv(b := v)) s"
  by (simp add: upd_buf_def relinked_def fun_eq_iff)

lemma relinked_same: "relinked (bnext s) (bprev s) s = s"
  by (simp add: relinked_def)

lemma relinked_links [simp]: "bnext (relinked nx pv s) = nx" "bprev (relinked nx pv s) = pv"
  by (simp_all add: relinked_def)

lemma brelse_move_eq:
  assumes "ring (bufs s) xs" "b \<in> set xs"
  shows "\<exists>nx pv. brelse_move b s = Ret () (relinked nx pv s) \<and>
     ring (bufs (relinked nx pv s)) (b # remove1 b xs)"
proof -
  from assms(2) obtain ys zs where xs: "xs = ys @ b # zs" by (metis split_list)
  have r: "chain (bnext s) NBUF xs NBUF" "chain (bprev s) NBUF (rev xs) NBUF" "distinct xs" "set xs = {..<NBUF}"
    using assms(1) by (auto simp: ring_def)
  have dist: "distinct (NBUF # ys @ b # zs)" "distinct (NBUF # rev zs @ b # rev ys)" using r(3,4) xs by auto
  have next_b: "bnext s b = last (NBUF # rev zs)" using r(1) chain_first [of "bnext s" b zs NBUF]
    by (cases zs) (auto simp: xs chain_append)
  have prev_b: "bprev s b = last (NBUF # ys)" using r(2) chain_first [of "bprev s" b "rev ys" NBUF]
    by (cases ys rule: rev_cases) (auto simp: xs chain_append)
  define nx where "nx = (bnext s)(bprev s b := bnext s b)"
  define pv where "pv = (bprev s)(bnext s b := bprev s b)"
  have 1: "chain nx NBUF (ys @ zs) NBUF"
    using chain_unlink [OF r(1) [unfolded xs] dist(1)] prev_b by (simp add: nx_def)
  have 2: "chain pv NBUF (rev (ys @ zs)) NBUF"
    using chain_unlink [of "bprev s" NBUF "rev zs" b "rev ys"] r(2) dist(2) next_b by (simp add: pv_def xs)
  have first: "nx NBUF = last (NBUF # rev (ys @ zs))"
    using chain_first [OF 1] by (cases "ys @ zs") (auto simp: last_append)
  let ?nx = "nx(b := nx NBUF, NBUF := b)" and ?pv = "pv(b := NBUF, nx NBUF := b)"
  have "NBUF \<noteq> b" "bnext s b \<noteq> b" "bprev s b \<noteq> b"
    using dist last_in_set [of "NBUF # rev zs"] last_in_set [of "NBUF # ys"] by (auto simp: next_b prev_b)
  then have "brelse_move b s = Ret () (relinked ?nx ?pv s)"
    unfolding brelse_move_def
    by (subst (1) relinked_same [of s, symmetric])
       (simp add: exec_simps relinked_upd_next relinked_upd_prev nx_def pv_def, simp add: relinked_def)
  moreover have "chain ?nx NBUF (b # ys @ zs) NBUF" using dist(1) by (intro chain_push 1) auto
  moreover have "chain ?pv NBUF (rev (b # ys @ zs)) NBUF"
  proof -
    have "distinct (NBUF # b # rev (ys @ zs))" using dist(1) by auto
    from chain_push_end [OF 2 this] show ?thesis by (simp add: first)
  qed
  moreover have "remove1 b xs = ys @ zs" using dist by (simp add: xs remove1_append)
  moreover have "distinct (b # ys @ zs)" "set (b # ys @ zs) = {..<NBUF}" using dist r(4) xs by auto
  ultimately show ?thesis
    by (intro exI [of _ ?nx] exI [of _ ?pv]) (simp add: ring_def)
qed

section \<open>Quiet states\<close>

text \<open>
  The code runs for process \<open>p\<close>, and no spin lock is held: the state between two steps of a process
  that uses the file system while the other processors are elsewhere.
\<close>

definition quiet :: "nat \<Rightarrow> 'z kstate_scheme \<Rightarrow> bool" where
  "quiet p s \<longleftrightarrow> settled s \<and> c_proc (mycpu_of s) = Some p \<and> (\<forall>lk. lock_free lk s)"

lemma quietD:
  assumes "quiet p s"
  shows "settled s" "c_proc (mycpu_of s) = Some p" "lock_free lk s" "procs_free s" "sleep_ready p i s"
  using assms by (simp_all add: quiet_def procs_free_def sleep_ready_def)

lemma quiet_cong:
  "locks t = locks s \<Longrightarrow> cpus t = cpus s \<Longrightarrow> hart t = hart s \<Longrightarrow> sie t = sie s \<Longrightarrow> quiet p t = quiet p s"
  by (simp add: quiet_def settled_def lock_free_def)

lemma quiet_buf [simp]: "quiet p (upd_buf b f s) = quiet p s"
  by (rule quiet_cong) (simp_all add: upd_defs woken_def relinked_def)

lemma quiet_sleep [simp]: "quiet p (upd_sleep i g s) = quiet p s"
  by (rule quiet_cong) (simp_all add: upd_defs woken_def relinked_def)

lemma quiet_proc [simp]: "quiet p (upd_proc q h s) = quiet p s"
  by (rule quiet_cong) (simp_all add: upd_defs woken_def relinked_def)

lemma quiet_log [simp]: "quiet p (upd_log k s) = quiet p s"
  by (rule quiet_cong) (simp_all add: upd_defs woken_def relinked_def)

lemma quiet_woken [simp]: "quiet p (woken ch s) = quiet p s"
  by (rule quiet_cong) (simp_all add: upd_defs woken_def relinked_def)

lemma quiet_relinked [simp]: "quiet p (relinked nx pv s) = quiet p s"
  by (rule quiet_cong) (simp_all add: upd_defs woken_def relinked_def)

lemma quiet_disk [simp]: "quiet p (disk_update d s) = quiet p s"
  by (rule quiet_cong) (simp_all add: upd_defs woken_def relinked_def)

lemma quiet_writes [simp]: "quiet p (disk_writes_update w s) = quiet p s"
  by (rule quiet_cong) (simp_all add: upd_defs woken_def relinked_def)

lemma quiet_mem [simp]: "quiet p (mem_update m s) = quiet p s"
  by (rule quiet_cong) (simp_all add: upd_defs woken_def relinked_def)

lemma quiet_inode [simp]: "quiet p (upd_inode j l s) = quiet p s"
  by (rule quiet_cong) (simp_all add: upd_defs woken_def relinked_def)

lemma quiet_file [simp]: "quiet p (upd_file j2 l2 s) = quiet p s"
  by (rule quiet_cong) (simp_all add: upd_defs woken_def relinked_def)

lemma quiet_sb [simp]: "quiet p (sb_update m2 s) = quiet p s"
  by (rule quiet_cong) (simp_all add: upd_defs woken_def relinked_def)

lemma quiet_pipe [simp]: "quiet p (upd_pipe j3 l3 s) = quiet p s"
  by (rule quiet_cong) (simp_all add: upd_defs woken_def relinked_def)

lemma quiet_bufs_upd [simp]: "quiet p (bufs_update f s) = quiet p s"
  by (rule quiet_cong) simp_all

lemma quiet_sleeps_upd [simp]: "quiet p (sleeplocks_update f s) = quiet p s"
  by (rule quiet_cong) simp_all

lemma quiet_procs_upd [simp]: "quiet p (procs_update f s) = quiet p s"
  by (rule quiet_cong) simp_all

lemma quiet_log_upd [simp]: "quiet p (log_update f s) = quiet p s"
  by (rule quiet_cong) simp_all

lemma quiet_itable_upd [simp]: "quiet p (itable_update f s) = quiet p s"
  by (rule quiet_cong) simp_all

definition mypid :: "nat \<Rightarrow> 'z kstate_scheme \<Rightarrow> int" where
  "mypid p s = p_pid (procs s p)"

section \<open>What the operations do\<close>

lemma ring_scans:
  assumes "ring (bufs s) xs"
  shows "bget_scan b_next P s = Ret (List.find (\<lambda>b. P (bufs s b)) xs) s"
    "bget_scan b_prev P s = Ret (List.find (\<lambda>b. P (bufs s b)) (rev xs)) s"
proof -
  have xs: "chain (bnext s) NBUF xs NBUF" "chain (bprev s) NBUF (rev xs) NBUF" "NBUF \<notin> set xs"
    using assms by (simp_all add: ring_def)
  show "bget_scan b_next P s = Ret (List.find (\<lambda>b. P (bufs s b)) xs) s"
    by (rule bget_scan_eq [OF xs(1,3)])
  show "bget_scan b_prev P s = Ret (List.find (\<lambda>b. P (bufs s b)) (rev xs)) s"
    using xs(3) by (intro bget_scan_eq [OF xs(2)]) simp
qed

definition brecycled :: "u32 \<Rightarrow> u32 \<Rightarrow> buf \<Rightarrow> buf" where
  "brecycled dev bn x = x\<lparr>b_dev := dev, b_blockno := bn, b_valid := False, b_refcnt := 1\<rparr>"

lemma upd_buf_twice: "upd_buf b f (upd_buf b g s) = upd_buf b (\<lambda>x. f (g x)) s"
  by (simp add: upd_buf_def)

text \<open>\<open>bget\<close> finds the block in the cache, or else recycles the least recently used buffer that is unused.\<close>

lemma bget_eq:
  assumes q: "quiet p s" and r: "ring (bufs s) xs"
  shows "bget dev bn s =
    (case List.find (\<lambda>b. b_dev (bufs s b) = dev \<and> b_blockno (bufs s b) = bn) xs of
       Some b \<Rightarrow> kbind (acquiresleep (BufLock b)) (\<lambda>_. kret b) (upd_buf b (\<lambda>x. x\<lparr>b_refcnt := b_refcnt x + 1\<rparr>) s)
     | None \<Rightarrow>
        (case List.find (\<lambda>b. b_refcnt (bufs s b) = 0) (rev xs) of
           Some b \<Rightarrow> kbind (acquiresleep (BufLock b)) (\<lambda>_. kret b) (upd_buf b (brecycled dev bn) s)
         | None \<Rightarrow> Panic ''bget: no buffers''))"
proof -
  have r': "ring (bufs (take_lock BcacheLock s)) xs" using r by simp
  have rec: "(\<lambda>x. x\<lparr>b_dev := dev, b_blockno := bn, b_valid := False, b_refcnt := 1\<rparr>) = brecycled dev bn"
    by (simp add: fun_eq_iff brecycled_def)
  show ?thesis
    using quietD [OF q]
    by (simp add: bget_def exec_simps lock_exec ring_scans [OF r'] upd_buf_twice rec split: option.splits)
qed

lemma brelse_eq:
  assumes q: "quiet p s" and r: "ring (bufs s) xs" and b: "b < NBUF"
    and mine: "sl_locked (sleeplocks s (BufLock b))" "sl_pid (sleeplocks s (BufLock b)) = mypid p s"
  shows "\<exists>nx pv. brelse b s =
      Ret () (relinked nx pv (woken (Some (ChSleep (BufLock b)))
        (upd_sleep (BufLock b) sl_freed (upd_buf b (\<lambda>x. x\<lparr>b_refcnt := b_refcnt x - 1\<rparr>) s)))) \<and>
    (\<exists>ys. ring (\<lambda>c. (bufs s c)\<lparr>b_next := nx c, b_prev := pv c\<rparr>) ys \<and>
       ys = (if b_refcnt (bufs s b) = 1 then b # remove1 b xs else xs))"
proof -
  let ?u = "woken (Some (ChSleep (BufLock b))) (upd_sleep (BufLock b) sl_freed (upd_buf b (\<lambda>x. x\<lparr>b_refcnt := b_refcnt x - 1\<rparr>) s))"
  have comm: "upd_buf b f (woken c (upd_sleep i g s)) = woken c (upd_sleep i g (upd_buf b f s))" for f c i g
    by (rule kworld.equality) (simp_all add: upd_buf_def woken_def upd_sleep_def cong: if_cong)
  have bufs_u: "bufs ?u = bufs (upd_buf b (\<lambda>x. x\<lparr>b_refcnt := b_refcnt x - 1\<rparr>) s)"
    by (simp add: woken_def upd_sleep_def upd_buf_def)
  have links: "ring (bufs (upd_buf b (\<lambda>x. x\<lparr>b_refcnt := b_refcnt x - 1\<rparr>) s)) xs"
    using r by (subst ring_cong [where cs = "bufs s"]) (simp_all add: upd_buf_def)
  have q_u: "quiet p ?u" using q by simp
  have start: "brelse b s = kbind (if b_refcnt (bufs s b) = 1 then brelse_move b else kret ()) (\<lambda>_. release BcacheLock)
      (take_lock BcacheLock ?u)"
    using quietD [OF q] mine
    by (simp add: brelse_def exec_simps holdingsleep_eq [of p] releasesleep_eq lock_exec comm mypid_def)
       (auto simp: upd_buf_def woken_def upd_sleep_def exec_simps)
  show ?thesis
  proof (cases "b_refcnt (bufs s b) = 1")
    case True
    have "ring (bufs (take_lock BcacheLock ?u)) xs" using links bufs_u by simp
    moreover have "b \<in> set xs" using b r by (auto simp: ring_def)
    ultimately obtain nx pv where mv: "brelse_move b (take_lock BcacheLock ?u) = Ret () (relinked nx pv (take_lock BcacheLock ?u))"
      "ring (bufs (relinked nx pv (take_lock BcacheLock ?u))) (b # remove1 b xs)"
      using brelse_move_eq by blast
    have "relinked nx pv (take_lock BcacheLock ?u) = take_lock BcacheLock (relinked nx pv ?u)"
      by (simp add: relinked_def)
    then have "brelse b s = Ret () (relinked nx pv ?u)"
      using start True mv(1) quietD [OF q_u] by (simp add: exec_simps lock_exec relinked_def)
    moreover have "ring (\<lambda>c. (bufs s c)\<lparr>b_next := nx c, b_prev := pv c\<rparr>) (b # remove1 b xs)"
      using mv(2) by (simp add: ring_def relinked_def)
    ultimately show ?thesis using True by auto
  next
    case False
    then have "brelse b s = Ret () ?u" using start quietD [OF q_u] by (simp add: exec_simps lock_exec)
    then have "brelse b s = Ret () (relinked (bnext ?u) (bprev ?u) ?u)" unfolding relinked_same .
    moreover have "ring (\<lambda>c. (bufs s c)\<lparr>b_next := bnext ?u c, b_prev := bprev ?u c\<rparr>) xs"
      using r by (subst ring_cong [where cs = "bufs s"]) (simp_all only: bufs_u, simp_all add: upd_buf_def)
    ultimately show ?thesis
      using False by (intro exI [of _ "bnext ?u"] exI [of _ "bprev ?u"] conjI exI [of _ xs]) simp_all
  qed
qed

end
