(* ===== verification/Blockcache.thy ===== *)
theory Blockcache
  imports Bio
begin

text \<open>
  The buffer cache as its clients see it. The abstract cache knows, for every block of the disk, its
  current contents (\<open>a_view\<close>), how many references keep it in the cache (\<open>a_rc\<close>) and whether the
  running process has it locked (\<open>a_lk\<close>), and it knows what the disk holds (\<open>a_disk\<close>) and
  the writes that led there (\<open>a_writes\<close>). The operations of \<open>bio.c\<close> refine the obvious operations on it;
  the locale \<open>block_cache\<close> is the contract the log and the file system rely on.
\<close>

section \<open>The abstract cache\<close>

record acache =
  a_view :: "u32 \<Rightarrow> byte list"
  a_rc :: "u32 \<Rightarrow> nat"
  a_lk :: "u32 set"
  a_disk :: "u32 \<Rightarrow> byte list"
  a_writes :: "(u32 \<times> byte list) list"

definition a_get :: "u32 \<Rightarrow> acache \<Rightarrow> acache" where
  "a_get n a = a\<lparr>a_rc := (a_rc a)(n := a_rc a n + 1), a_lk := insert n (a_lk a)\<rparr>"

definition a_put :: "u32 \<Rightarrow> acache \<Rightarrow> acache" where
  "a_put n a = a\<lparr>a_rc := (a_rc a)(n := a_rc a n - 1), a_lk := a_lk a - {n}\<rparr>"

definition a_set :: "u32 \<Rightarrow> byte list \<Rightarrow> acache \<Rightarrow> acache" where
  "a_set n d a = a\<lparr>a_view := (a_view a)(n := d)\<rparr>"

definition a_write :: "u32 \<Rightarrow> acache \<Rightarrow> acache" where
  "a_write n a = a\<lparr>a_disk := (a_disk a)(n := a_view a n), a_writes := a_writes a @ [(n, a_view a n)]\<rparr>"

definition a_pin :: "u32 \<Rightarrow> acache \<Rightarrow> acache" where
  "a_pin n a = a\<lparr>a_rc := (a_rc a)(n := a_rc a n + 1)\<rparr>"

definition a_unpin :: "u32 \<Rightarrow> acache \<Rightarrow> acache" where
  "a_unpin n a = a\<lparr>a_rc := (a_rc a)(n := a_rc a n - 1)\<rparr>"

definition a_used :: "acache \<Rightarrow> u32 set" where
  "a_used a = {n. 0 < a_rc a n}"

lemmas acache_defs = a_get_def a_put_def a_set_def a_write_def a_pin_def a_unpin_def

section \<open>Refinement\<close>

text \<open>A buffer that holds block \<open>n\<close>, against what the abstract cache says of \<open>n\<close>.\<close>

definition cell_ok :: "int \<Rightarrow> buf \<Rightarrow> sleeplock \<Rightarrow> acache \<Rightarrow> u32 \<Rightarrow> bool" where
  "cell_ok pid x l a n \<longleftrightarrow>
     unat (b_refcnt x) = a_rc a n \<and>
     a_view a n = (if b_valid x then b_data x else a_disk a n) \<and>
     (a_rc a n = 0 \<longrightarrow> a_view a n = a_disk a n) \<and>
     (sl_locked l \<longleftrightarrow> n \<in> a_lk a) \<and>
     (n \<in> a_lk a \<longrightarrow> sl_pid l = pid \<and> b_valid x \<and> 0 < a_rc a n)"

text \<open>What the abstract cache says of a block that no buffer holds.\<close>

definition uncached :: "acache \<Rightarrow> u32 \<Rightarrow> bool" where
  "uncached a n \<longleftrightarrow> a_rc a n = 0 \<and> n \<notin> a_lk a \<and> a_view a n = a_disk a n"

definition holds :: "(nat \<Rightarrow> buf) \<Rightarrow> nat \<Rightarrow> u32 \<Rightarrow> bool" where
  "holds bs b n \<longleftrightarrow> b < NBUF \<and> b_dev (bs b) = ROOTDEV \<and> b_blockno (bs b) = n"

definition cells_ok :: "int \<Rightarrow> (nat \<Rightarrow> buf) \<Rightarrow> (nat \<Rightarrow> sleeplock) \<Rightarrow> acache \<Rightarrow> bool" where
  "cells_ok pid bs ls a \<longleftrightarrow>
     (\<forall>b c n. holds bs b n \<longrightarrow> holds bs c n \<longrightarrow> b = c) \<and>
     (\<forall>b n. holds bs b n \<longrightarrow> cell_ok pid (bs b) (ls b) a n) \<and>
     (\<forall>n. (\<forall>b. \<not> holds bs b n) \<longrightarrow> uncached a n) \<and>
     (\<forall>b<NBUF. b_dev (bs b) \<noteq> ROOTDEV \<longrightarrow> b_refcnt (bs b) = 0 \<and> \<not> sl_locked (ls b))"

definition buf_locks :: "'z kstate_scheme \<Rightarrow> nat \<Rightarrow> sleeplock" where
  "buf_locks s = (\<lambda>b. sleeplocks s (BufLock b))"

definition bcrel :: "nat \<Rightarrow> kworld \<Rightarrow> acache \<Rightarrow> bool" where
  "bcrel p s a \<longleftrightarrow> quiet p s \<and> (\<exists>xs. ring (bufs s) xs) \<and> cells_ok (mypid p s) (bufs s) (buf_locks s) a \<and>
     a_disk a = disk s \<and> a_writes a = disk_writes s"

text \<open>The block of buffer \<open>b\<close> becomes \<open>n\<close>, or stays \<open>n\<close>; the abstract cache changes at most at \<open>n\<close>.\<close>

lemma cells_put:
  assumes ok: "cells_ok pid bs ls a" and b: "b < NBUF"
    and slot: "holds bs b n \<or> (\<forall>c. \<not> holds bs c n) \<and> b_refcnt (bs b) = 0"
    and x: "b_dev x = ROOTDEV" "b_blockno x = n" "cell_ok pid x l a' n"
    and same: "\<And>m. m \<noteq> n \<Longrightarrow> a_rc a' m = a_rc a m \<and> a_view a' m = a_view a m \<and> a_disk a' m = a_disk a m \<and>
       (m \<in> a_lk a' \<longleftrightarrow> m \<in> a_lk a)"
  shows "cells_ok pid (bs(b := x)) (ls(b := l)) a'"
proof -
  let ?bs = "bs(b := x)" and ?ls = "ls(b := l)"
  have uniq: "\<And>b c m. holds bs b m \<Longrightarrow> holds bs c m \<Longrightarrow> b = c"
    and cell: "\<And>b m. holds bs b m \<Longrightarrow> cell_ok pid (bs b) (ls b) a m"
    and unc: "\<And>m. (\<And>c. \<not> holds bs c m) \<Longrightarrow> uncached a m"
    and rest: "\<And>b. b < NBUF \<Longrightarrow> b_dev (bs b) \<noteq> ROOTDEV \<Longrightarrow> b_refcnt (bs b) = 0 \<and> \<not> sl_locked (ls b)"
    using ok unfolding cells_ok_def by blast+
  have h: "holds ?bs c m \<longleftrightarrow> (if c = b then m = n else holds bs c m \<and> m \<noteq> n)" for c m
    using slot x(1,2) b uniq [of c n b] by (auto simp: holds_def)
  have keep: "cell_ok pid y l' a' m \<longleftrightarrow> cell_ok pid y l' a m" if "m \<noteq> n" for y l' m
    using same [OF that] by (auto simp: cell_ok_def)
  have "uncached a' m" if none: "\<And>c. \<not> holds ?bs c m" for m
  proof -
    have mn: "m \<noteq> n" using none [of b] h [of b m] by auto
    have "uncached a m"
    proof (cases "holds bs b m")
      case True
      then have "b_refcnt (bs b) = 0" using slot mn by (auto simp: holds_def)
      with cell [OF True] show ?thesis by (auto simp: cell_ok_def uncached_def)
    next
      case False
      have "\<not> holds bs c m" for c using none [of c] h [of c m] mn False by (cases "c = b") auto
      then show ?thesis by (rule unc)
    qed
    then show ?thesis using same [OF mn] by (simp add: uncached_def)
  qed
  moreover have "cell_ok pid (?bs c) (?ls c) a' m" if "holds ?bs c m" for c m
    using that h [of c m] x(3) cell [of c m] keep [of m] by (auto split: if_splits)
  moreover have "c = d" if "holds ?bs c m" "holds ?bs d m" for c d m
    using that h [of c m] h [of d m] uniq [of c m d] by (auto split: if_splits)
  ultimately show ?thesis
    unfolding cells_ok_def using rest x(1) by auto
qed

lemma cells_unused:
  assumes ok: "cells_ok pid bs ls a" and room: "card (a_used a) < NBUF"
  shows "\<exists>b<NBUF. b_refcnt (bs b) = 0"
proof (rule ccontr)
  assume "\<not> ?thesis"
  then have used: "b_refcnt (bs b) \<noteq> 0" if "b < NBUF" for b using that by blast
  then have h: "holds bs b (b_blockno (bs b))" if "b < NBUF" for b
    using that ok by (auto simp: cells_ok_def holds_def)
  have "inj_on (\<lambda>b. b_blockno (bs b)) {..<NBUF}"
  proof (rule inj_onI)
    fix b c
    assume "b \<in> {..<NBUF}" "c \<in> {..<NBUF}" "b_blockno (bs b) = b_blockno (bs c)"
    then show "b = c" using h [of b] h [of c] ok by (auto simp: cells_ok_def)
  qed
  then have "card ((\<lambda>b. b_blockno (bs b)) ` {..<NBUF}) = NBUF" by (simp add: card_image)
  moreover have "(\<lambda>b. b_blockno (bs b)) ` {..<NBUF} \<subseteq> a_used a"
  proof
    fix n
    assume "n \<in> (\<lambda>b. b_blockno (bs b)) ` {..<NBUF}"
    then obtain b where b: "b < NBUF" "n = b_blockno (bs b)" by auto
    then have "unat (b_refcnt (bs b)) = a_rc a n" using h ok by (auto simp: cells_ok_def cell_ok_def)
    moreover have "0 < unat (b_refcnt (bs b))" using used [OF b(1)] by (simp add: unat_gt_0)
    ultimately show "n \<in> a_used a" by (simp add: a_used_def)
  qed
  ultimately have "NBUF \<le> card (a_used a)" by (metis card_mono finite_code)
  with room show False by simp
qed


text \<open>What the cache operations may change: the cache, the disk, and the states of other processes.\<close>

definition bio_frame :: "nat \<Rightarrow> kworld \<Rightarrow> kworld \<Rightarrow> bool" where
  "bio_frame p s t \<longleftrightarrow>
     t = s\<lparr>bufs := bufs t, sleeplocks := sleeplocks t, procs := procs t, disk := disk t, disk_writes := disk_writes t\<rparr> \<and>
     (\<forall>q. procs t q = (procs s q)\<lparr>p_state := p_state (procs t q)\<rparr>) \<and> procs t p = procs s p \<and>
     (\<forall>i. (\<forall>b. i \<noteq> BufLock b) \<longrightarrow> sleeplocks t i = sleeplocks s i)"

lemma bio_frame_refl [simp]: "bio_frame p s s"
  by (simp add: bio_frame_def)

lemma bio_frame_trans:
  assumes "bio_frame p s t" "bio_frame p t u"
  shows "bio_frame p s u"
proof -
  have st: "t = s\<lparr>bufs := bufs t, sleeplocks := sleeplocks t, procs := procs t, disk := disk t, disk_writes := disk_writes t\<rparr>"
    and tu: "u = t\<lparr>bufs := bufs u, sleeplocks := sleeplocks u, procs := procs u, disk := disk u, disk_writes := disk_writes u\<rparr>"
    using assms by (simp_all add: bio_frame_def)
  have "t\<lparr>bufs := b, sleeplocks := l, procs := q, disk := d, disk_writes := w\<rparr> =
      s\<lparr>bufs := b, sleeplocks := l, procs := q, disk := d, disk_writes := w\<rparr>" for b l q d w
    using arg_cong [OF st, of "\<lambda>x. x\<lparr>bufs := b, sleeplocks := l, procs := q, disk := d, disk_writes := w\<rparr>"] by simp
  with tu have "u = s\<lparr>bufs := bufs u, sleeplocks := sleeplocks u, procs := procs u, disk := disk u, disk_writes := disk_writes u\<rparr>"
    by simp
  moreover have "procs u q = (procs s q)\<lparr>p_state := p_state (procs u q)\<rparr>" for q
  proof -
    have 1: "procs t q = (procs s q)\<lparr>p_state := p_state (procs t q)\<rparr>" and
      2: "procs u q = (procs t q)\<lparr>p_state := p_state (procs u q)\<rparr>"
      using assms unfolding bio_frame_def by blast+
    have "(procs t q)\<lparr>p_state := st\<rparr> = (procs s q)\<lparr>p_state := st\<rparr>" for st
      using arg_cong [OF 1, of "\<lambda>y. y\<lparr>p_state := st\<rparr>"] by simp
    with 2 show ?thesis by simp
  qed
  ultimately show ?thesis using assms by (simp add: bio_frame_def)
qed

definition loaded :: "u32 \<Rightarrow> byte list \<Rightarrow> buf \<Rightarrow> buf" where
  "loaded n d x = x\<lparr>b_dev := ROOTDEV, b_blockno := n, b_valid := True, b_refcnt := b_refcnt x + 1, b_data := d\<rparr>"

lemma find_holds:
  assumes "ring bs xs"
  shows "List.find (\<lambda>b. b_dev (bs b) = ROOTDEV \<and> b_blockno (bs b) = n) xs = Some b \<Longrightarrow> holds bs b n"
    "List.find (\<lambda>b. b_dev (bs b) = ROOTDEV \<and> b_blockno (bs b) = n) xs = None \<Longrightarrow> \<not> holds bs c n"
    "List.find (\<lambda>b. b_refcnt (bs b) = 0) (rev xs) = Some b \<Longrightarrow> b < NBUF \<and> b_refcnt (bs b) = 0"
    "List.find (\<lambda>b. b_refcnt (bs b) = 0) (rev xs) = None \<Longrightarrow> c < NBUF \<Longrightarrow> b_refcnt (bs c) \<noteq> 0"
proof -
  have xs: "set xs = {..<NBUF}" using assms by (simp add: ring_def)
  have nth: "ys ! i < NBUF" if "i < length ys" "set ys = {..<NBUF}" for ys :: "nat list" and i
    using that nth_mem by fastforce
  show "holds bs b n" if "List.find (\<lambda>b. b_dev (bs b) = ROOTDEV \<and> b_blockno (bs b) = n) xs = Some b"
    using that nth [of _ xs] xs by (auto simp: holds_def find_Some_iff)
  show "\<not> holds bs c n" if "List.find (\<lambda>b. b_dev (bs b) = ROOTDEV \<and> b_blockno (bs b) = n) xs = None"
    using that xs by (auto simp: holds_def find_None_iff)
  show "b < NBUF \<and> b_refcnt (bs b) = 0" if "List.find (\<lambda>b. b_refcnt (bs b) = 0) (rev xs) = Some b"
    using that nth [of _ "rev xs"] xs by (auto simp: find_Some_iff)
  show "b_refcnt (bs c) \<noteq> 0" if "List.find (\<lambda>b. b_refcnt (bs b) = 0) (rev xs) = None" "c < NBUF"
    using that xs by (auto simp: find_None_iff)
qed

lemma bget_ok:
  assumes R: "bcrel p s a" and n: "n \<notin> a_lk a" "0 < a_rc a n \<or> card (a_used a) < NBUF"
  shows "\<exists>b f. bget ROOTDEV n s = Ret b (upd_sleep (BufLock b) (sl_owned (mypid p s)) (upd_buf b f s)) \<and>
    b < NBUF \<and> (holds (bufs s) b n \<and> f = (\<lambda>x. x\<lparr>b_refcnt := b_refcnt x + 1\<rparr>) \<or>
      (\<forall>c. \<not> holds (bufs s) c n) \<and> b_refcnt (bufs s b) = 0 \<and> f = brecycled ROOTDEV n)"
proof -
  from R obtain xs where q: "quiet p s" and r: "ring (bufs s) xs"
    and ok: "cells_ok (mypid p s) (bufs s) (buf_locks s) a" by (auto simp: bcrel_def)
  have unlocked: "\<not> sl_locked (sleeplocks s (BufLock b))"
    if "b < NBUF" "holds (bufs s) b n \<or> b_refcnt (bufs s b) = 0" for b
  proof (cases "b_dev (bufs s b) = ROOTDEV")
    case False
    then show ?thesis using ok that(1) by (auto simp: cells_ok_def buf_locks_def)
  next
    case True
    then have "holds (bufs s) b (b_blockno (bufs s b))" using that(1) by (simp add: holds_def)
    then have "cell_ok (mypid p s) (bufs s b) (buf_locks s b) a (b_blockno (bufs s b))"
      using ok by (auto simp: cells_ok_def)
    then show ?thesis using that(2) n(1) by (auto simp: cell_ok_def holds_def buf_locks_def)
  qed
  have acq: "kbind (acquiresleep (BufLock b)) (\<lambda>_. kret b) (upd_buf b f s) =
      Ret b (upd_sleep (BufLock b) (sl_owned (mypid p s)) (upd_buf b f s))"
    if "\<not> sl_locked (sleeplocks s (BufLock b))" for b f
  proof -
    have "sleep_ready p (BufLock b) (upd_buf b f s)" using quietD(5) [of p "upd_buf b f s"] q by simp
    moreover have "\<not> sl_locked (sleeplocks (upd_buf b f s) (BufLock b))" using that by (simp add: upd_buf_def)
    moreover have "p_pid (procs (upd_buf b f s) p) = mypid p s" by (simp add: upd_buf_def mypid_def)
    ultimately show ?thesis using acquiresleep_free [of p "BufLock b" "upd_buf b f s"] by (simp add: exec_simps)
  qed
  show ?thesis
  proof (cases "List.find (\<lambda>b. b_dev (bufs s b) = ROOTDEV \<and> b_blockno (bufs s b) = n) xs")
    case (Some b)
    then have h: "holds (bufs s) b n" by (rule find_holds [OF r])
    then have "b < NBUF" by (simp add: holds_def)
    then show ?thesis using bget_eq [OF q r, of ROOTDEV n] Some acq unlocked h by auto
  next
    case None
    then have none: "\<not> holds (bufs s) c n" for c by (rule find_holds [OF r])
    then have "a_rc a n = 0" using ok by (auto simp: cells_ok_def uncached_def)
    then have room: "\<exists>b<NBUF. b_refcnt (bufs s b) = 0" using n(2) cells_unused [OF ok] by auto
    then obtain b where b: "List.find (\<lambda>b. b_refcnt (bufs s b) = 0) (rev xs) = Some b"
      using find_holds(4) [OF r] by (cases "List.find (\<lambda>b. b_refcnt (bufs s b) = 0) (rev xs)") auto
    then have "b < NBUF" "b_refcnt (bufs s b) = 0" using find_holds(3) [OF r] by auto
    then show ?thesis using bget_eq [OF q r, of ROOTDEV n] None b acq unlocked none by auto
  qed
qed

lemma bread_eq:
  assumes R: "bcrel p s a" and n: "n \<notin> a_lk a" "0 < a_rc a n \<or> card (a_used a) < NBUF"
  shows "\<exists>b. bread ROOTDEV n s =
      Ret b (upd_sleep (BufLock b) (sl_owned (mypid p s)) (upd_buf b (loaded n (a_view a n)) s)) \<and>
    b < NBUF \<and> (holds (bufs s) b n \<or> (\<forall>c. \<not> holds (bufs s) c n) \<and> b_refcnt (bufs s b) = 0)"
proof -
  from bget_ok [OF assms] obtain b f where g: "bget ROOTDEV n s = Ret b (upd_sleep (BufLock b) (sl_owned (mypid p s)) (upd_buf b f s))"
    "b < NBUF" and f: "holds (bufs s) b n \<and> f = (\<lambda>x. x\<lparr>b_refcnt := b_refcnt x + 1\<rparr>) \<or>
      (\<forall>c. \<not> holds (bufs s) c n) \<and> b_refcnt (bufs s b) = 0 \<and> f = brecycled ROOTDEV n" by blast
  have ok: "cells_ok (mypid p s) (bufs s) (buf_locks s) a" and d: "a_disk a = disk s" using R by (auto simp: bcrel_def)
  let ?u = "\<lambda>f. upd_sleep (BufLock b) (sl_owned (mypid p s)) (upd_buf b f s)"
  have at: "b_blockno (f (bufs s b)) = n" using f by (auto simp: holds_def brecycled_def)
  have load: "?u f = ?u (loaded n (a_view a n))" if "f (bufs s b) = loaded n (a_view a n) (bufs s b)" for f
    using that by (simp add: upd_buf_def)
  have "bread ROOTDEV n s = Ret b (?u (loaded n (a_view a n)))"
  proof (cases "b_valid (f (bufs s b))")
    case True
    then have h: "holds (bufs s) b n" and f': "f = (\<lambda>x. x\<lparr>b_refcnt := b_refcnt x + 1\<rparr>)" using f by (auto simp: brecycled_def)
    then have "a_view a n = b_data (bufs s b)" using ok True by (auto simp: cells_ok_def cell_ok_def)
    with h True have "f (bufs s b) = loaded n (a_view a n) (bufs s b)"
      by (intro buf.equality) (simp_all add: f' loaded_def holds_def)
    then have "?u f = ?u (loaded n (a_view a n))" by (rule load)
    moreover have "b_valid (bufs (?u f) b)" using True by (simp add: upd_sleep_def upd_buf_def)
    then have "bread ROOTDEV n s = Ret b (?u f)" using g(1) by (simp add: bread_def exec_simps)
    ultimately show ?thesis by simp
  next
    case False
    have view: "disk s n = a_view a n"
    proof -
      have "a_view a n = a_disk a n"
        using f False ok by (auto simp: cells_ok_def cell_ok_def uncached_def)
      then show ?thesis by (simp add: d)
    qed
    have "upd_buf b (\<lambda>x. x\<lparr>b_valid := True\<rparr>) (upd_buf b (\<lambda>x. x\<lparr>b_data := disk s n\<rparr>) (?u f)) =
        ?u (\<lambda>x. (f x)\<lparr>b_data := disk s n, b_valid := True\<rparr>)"
      by (simp add: upd_sleep_def upd_buf_def)
    moreover have "(f (bufs s b))\<lparr>b_data := disk s n, b_valid := True\<rparr> = loaded n (a_view a n) (bufs s b)"
      using f by (intro buf.equality) (auto simp: loaded_def view holds_def brecycled_def)
    then have "?u (\<lambda>x. (f x)\<lparr>b_data := disk s n, b_valid := True\<rparr>) = ?u (loaded n (a_view a n))" by (intro load)
    ultimately have fin: "upd_buf b (\<lambda>x. x\<lparr>b_valid := True\<rparr>) (upd_buf b (\<lambda>x. x\<lparr>b_data := disk s n\<rparr>) (?u f)) =
        ?u (loaded n (a_view a n))" by (rule trans)
    have "disk_rw b False (?u f) = Ret () (upd_buf b (\<lambda>x. x\<lparr>b_data := disk s n\<rparr>) (?u f))"
      using at by (simp add: disk_rw_def exec_simps Let_def) (simp add: upd_sleep_def upd_buf_def)
    moreover have "b_valid (bufs (?u f) b) = b_valid (f (bufs s b))" by (simp add: upd_sleep_def upd_buf_def)
    ultimately show ?thesis using g(1) False fin by (simp add: bread_def exec_simps)
  qed
  with g(2) f show ?thesis by blast
qed

lemma holds_other:
  assumes "cells_ok pid bs ls a" "holds bs b n \<or> b_refcnt (bs b) = 0" "m \<in> a_lk a" "n \<notin> a_lk a" "holds bs c m"
  shows "c \<noteq> b"
proof
  assume "c = b"
  then have "cell_ok pid (bs b) (ls b) a m" using assms(1,5) by (auto simp: cells_ok_def)
  then have "0 < unat (b_refcnt (bs b))" using assms(3) by (simp add: cell_ok_def)
  then have "holds bs b n" using assms(2) by auto
  then show False using assms(3-5) \<open>c = b\<close> by (simp add: holds_def)
qed

text \<open>The operations under the refinement relation.\<close>

lemma unat_Suc_u32: "unat (r :: u32) + 1 < 2 ^ 32 \<Longrightarrow> unat (r + 1) = unat r + 1"
  by (simp add: unat_word_ariths)

lemma bread_ok:
  assumes R: "bcrel p s a" and n: "n \<notin> a_lk a" "a_rc a n + 1 < 2 ^ 32" "0 < a_rc a n \<or> card (a_used a) < NBUF"
  shows "\<exists>b t. bread ROOTDEV n s = Ret b t \<and> bcrel p t (a_get n a) \<and> holds (bufs t) b n \<and> bio_frame p s t \<and>
    (\<forall>c m. m \<in> a_lk a \<longrightarrow> holds (bufs s) c m \<longrightarrow> holds (bufs t) c m)"
proof -
  from bread_eq [OF R n(1,3)] obtain b where b: "bread ROOTDEV n s =
      Ret b (upd_sleep (BufLock b) (sl_owned (mypid p s)) (upd_buf b (loaded n (a_view a n)) s))" "b < NBUF"
    and slot: "holds (bufs s) b n \<or> (\<forall>c. \<not> holds (bufs s) c n) \<and> b_refcnt (bufs s b) = 0" by blast
  let ?x = "loaded n (a_view a n) (bufs s b)" and ?l = "sl_owned (mypid p s) (buf_locks s b)"
  define t where "t = upd_sleep (BufLock b) (sl_owned (mypid p s)) (upd_buf b (loaded n (a_view a n)) s)"
  have ok: "cells_ok (mypid p s) (bufs s) (buf_locks s) a" and d: "a_disk a = disk s" "a_writes a = disk_writes s"
    and q: "quiet p s" and ring: "\<exists>xs. ring (bufs s) xs" using R by (auto simp: bcrel_def)
  have rc: "unat (b_refcnt (bufs s b)) = a_rc a n"
    using slot ok by (auto simp: cells_ok_def cell_ok_def uncached_def)
  have clean: "a_rc a n = 0 \<longrightarrow> a_view a n = a_disk a n"
    using slot ok by (auto simp: cells_ok_def cell_ok_def uncached_def)
  have cell: "cell_ok (mypid p s) ?x ?l (a_get n a) n"
    using rc n(2) unat_Suc_u32 [of "b_refcnt (bufs s b)"]
    by (simp add: cell_ok_def a_get_def loaded_def sl_owned_def)
  have tb: "bufs t = (bufs s)(b := ?x)" "buf_locks t = (buf_locks s)(b := ?l)" "mypid p t = mypid p s"
    by (auto simp: t_def upd_sleep_def upd_buf_def buf_locks_def fun_eq_iff mypid_def)
  have "cells_ok (mypid p t) (bufs t) (buf_locks t) (a_get n a)"
    unfolding tb by (rule cells_put [OF ok b(2) slot _ _ cell]) (auto simp: loaded_def a_get_def)
  moreover have "\<exists>xs. ring (bufs t) xs"
  proof -
    from ring obtain xs where "ring (bufs s) xs" ..
    then have "ring (bufs t) xs" unfolding tb by (subst ring_cong [where cs = "bufs s"]) (simp_all add: loaded_def)
    then show ?thesis ..
  qed
  moreover have "quiet p t" using q by (simp add: t_def)
  moreover have "a_disk (a_get n a) = disk t" "a_writes (a_get n a) = disk_writes t"
    using d by (simp_all add: a_get_def t_def upd_sleep_def upd_buf_def)
  ultimately have "bcrel p t (a_get n a)" by (simp add: bcrel_def)
  moreover have "holds (bufs t) b n" using b(2) by (simp add: tb holds_def loaded_def)
  moreover have "bio_frame p s t" by (auto simp: bio_frame_def t_def upd_sleep_def upd_buf_def)
  moreover have "holds (bufs t) c m" if "m \<in> a_lk a" "holds (bufs s) c m" for c m
  proof -
    have "c \<noteq> b" using holds_other [OF ok _ that(1) n(1) that(2)] slot by blast
    then show ?thesis using that(2) by (simp add: tb holds_def)
  qed
  ultimately show ?thesis using b(1) by (metis t_def)
qed

lemma bc_data:
  assumes "bcrel p s a" "holds (bufs s) b n" "n \<in> a_lk a"
  shows "b_data (bufs s b) = a_view a n" "sl_locked (sleeplocks s (BufLock b))"
    "sl_pid (sleeplocks s (BufLock b)) = mypid p s" "unat (b_refcnt (bufs s b)) = a_rc a n" "0 < a_rc a n"
    "b_valid (bufs s b)"
  using assms by (auto simp: bcrel_def cells_ok_def cell_ok_def buf_locks_def)

lemma bc_change:
  assumes R: "bcrel p s a" and h: "holds (bufs s) b n"
    and t: "bufs t = (bufs s)(b := x)" "buf_locks t = (buf_locks s)(b := l)" "mypid p t = mypid p s" "quiet p t"
    and x: "b_dev x = ROOTDEV" "b_blockno x = n" "b_next x = b_next (bufs s b)" "b_prev x = b_prev (bufs s b)"
      "cell_ok (mypid p s) x l a' n"
    and a': "\<And>m. m \<noteq> n \<Longrightarrow> a_rc a' m = a_rc a m \<and> a_view a' m = a_view a m \<and> a_disk a' m = a_disk a m \<and>
       (m \<in> a_lk a' \<longleftrightarrow> m \<in> a_lk a)"
    and d: "a_disk a' = disk t" "a_writes a' = disk_writes t"
  shows "bcrel p t a'"
proof -
  have ok: "cells_ok (mypid p s) (bufs s) (buf_locks s) a" and ring: "\<exists>xs. ring (bufs s) xs"
    using R by (auto simp: bcrel_def)
  have b: "b < NBUF" using h by (simp add: holds_def)
  have "cells_ok (mypid p t) (bufs t) (buf_locks t) a'"
    unfolding t(1-3) by (rule cells_put [OF ok b disjI1 [OF h] x(1,2,5) a'])
  moreover from ring obtain xs where "ring (bufs s) xs" ..
  then have "ring (bufs t) xs" unfolding t(1) using x by (subst ring_cong [where cs = "bufs s"]) simp_all
  ultimately show ?thesis using t(4) d by (auto simp: bcrel_def)
qed

text \<open>Changing the contents of a locked buffer.\<close>

definition set_data :: "nat \<Rightarrow> byte list \<Rightarrow> unit K" where
  "set_data b d = kmod (upd_buf b (\<lambda>x. x\<lparr>b_data := d\<rparr>))"

lemma set_data_ok:
  assumes R: "bcrel p s a" and h: "holds (bufs s) b n" and n: "n \<in> a_lk a"
  shows "\<exists>t. set_data b d s = Ret () t \<and> bcrel p t (a_set n d a) \<and> bio_frame p s t \<and>
    (\<forall>c m. holds (bufs s) c m \<longrightarrow> holds (bufs t) c m)"
proof -
  let ?t = "upd_buf b (\<lambda>x. x\<lparr>b_data := d\<rparr>) s"
  have "bcrel p ?t (a_set n d a)"
  proof (rule bc_change [OF R h])
    show "cell_ok (mypid p s) ((bufs s b)\<lparr>b_data := d\<rparr>) (buf_locks s b) (a_set n d a) n"
      using bc_data [OF R h n] n by (simp add: cell_ok_def a_set_def buf_locks_def)
  qed (use R h in \<open>auto simp: upd_buf_def buf_locks_def mypid_def holds_def a_set_def bcrel_def\<close>)
  then show ?thesis
    by (intro exI [of _ ?t]) (auto simp: set_data_def exec_simps bio_frame_def upd_buf_def holds_def)
qed

lemma bwrite_ok:
  assumes R: "bcrel p s a" and h: "holds (bufs s) b n" and n: "n \<in> a_lk a"
  shows "\<exists>t. bwrite b s = Ret () t \<and> bcrel p t (a_write n a) \<and> bio_frame p s t \<and>
    (\<forall>c m. holds (bufs s) c m \<longrightarrow> holds (bufs t) c m)"
proof -
  let ?t = "s\<lparr>disk := (disk s)(n := a_view a n), disk_writes := disk_writes s @ [(n, a_view a n)]\<rparr>"
  note bd = bc_data [OF R h n]
  have q: "quiet p s" and d: "a_disk a = disk s" "a_writes a = disk_writes s" using R by (auto simp: bcrel_def)
  have run: "bwrite b s = Ret () ?t"
    using quietD [OF q] bd h by (simp add: bwrite_def exec_simps holdingsleep_eq [of p] disk_rw_def holds_def mypid_def Let_def)
  have "bcrel p ?t (a_write n a)"
  proof (rule bc_change [OF R h])
    show "cell_ok (mypid p s) (bufs s b) (buf_locks s b) (a_write n a) n"
      using bd n by (auto simp: cell_ok_def a_write_def buf_locks_def)
  qed (use q h d in \<open>auto simp: buf_locks_def mypid_def holds_def a_write_def\<close>)
  then show ?thesis using run by (intro exI [of _ ?t]) (auto simp: bio_frame_def)
qed

text \<open>Changes of the reference count of a cached block.\<close>

lemma rc_change:
  assumes R: "bcrel p s a" and h: "holds (bufs s) b n" and r: "unat r = a_rc a' n"
    and a': "a' = a\<lparr>a_rc := (a_rc a)(n := k)\<rparr>" and k: "k = 0 \<longrightarrow> a_view a n = a_disk a n" "n \<in> a_lk a \<longrightarrow> 0 < k"
  shows "bcrel p (upd_buf b (\<lambda>x. x\<lparr>b_refcnt := r\<rparr>) s) a'"
proof (rule bc_change [OF R h])
  have "cell_ok (mypid p s) (bufs s b) (buf_locks s b) a n" using R h by (auto simp: bcrel_def cells_ok_def)
  then show "cell_ok (mypid p s) ((bufs s b)\<lparr>b_refcnt := r\<rparr>) (buf_locks s b) a' n"
    using r k by (auto simp: cell_ok_def a')
qed (use R h in \<open>auto simp: upd_buf_def buf_locks_def mypid_def holds_def bcrel_def a'\<close>)

lemma bpin_ok:
  assumes R: "bcrel p s a" and h: "holds (bufs s) b n" and n: "a_rc a n + 1 < 2 ^ 32"
  shows "\<exists>t. bpin b s = Ret () t \<and> bcrel p t (a_pin n a) \<and> bio_frame p s t \<and>
    (\<forall>c m. holds (bufs s) c m \<longrightarrow> holds (bufs t) c m)"
proof -
  let ?r = "b_refcnt (bufs s b)"
  let ?t = "upd_buf b (\<lambda>x. x\<lparr>b_refcnt := ?r + 1\<rparr>) s"
  have q: "quiet p s" using R by (simp add: bcrel_def)
  have "unat ?r = a_rc a n" using R h by (auto simp: bcrel_def cells_ok_def cell_ok_def)
  then have "unat (?r + 1) = a_rc (a_pin n a) n" using n unat_Suc_u32 [of ?r] by (simp add: a_pin_def)
  then have "bcrel p ?t (a_pin n a)" by (intro rc_change [OF R h _ a_pin_def]) auto
  moreover have "upd_buf b (\<lambda>x. x\<lparr>b_refcnt := b_refcnt x + 1\<rparr>) s = ?t" by (simp add: upd_buf_def)
  then have "bpin b s = Ret () ?t" using quietD [OF q] by (simp add: bpin_def exec_simps lock_exec)
  ultimately show ?thesis by (intro exI [of _ ?t]) (auto simp: bio_frame_def upd_buf_def holds_def)
qed

lemma unat_pred_u32: "0 < unat (r :: u32) \<Longrightarrow> unat (r - 1) = unat r - 1"
  by (simp add: unat_minus_one unat_gt_0)

lemma bunpin_ok:
  assumes R: "bcrel p s a" and h: "holds (bufs s) b n" and n: "0 < a_rc a n"
    and clean: "a_rc a n = 1 \<longrightarrow> a_view a n = a_disk a n" "n \<in> a_lk a \<longrightarrow> 1 < a_rc a n"
  shows "\<exists>t. bunpin b s = Ret () t \<and> bcrel p t (a_unpin n a) \<and> bio_frame p s t \<and>
    (\<forall>c m. holds (bufs s) c m \<longrightarrow> holds (bufs t) c m)"
proof -
  let ?r = "b_refcnt (bufs s b)"
  let ?t = "upd_buf b (\<lambda>x. x\<lparr>b_refcnt := ?r - 1\<rparr>) s"
  have q: "quiet p s" using R by (simp add: bcrel_def)
  have "unat ?r = a_rc a n" using R h by (auto simp: bcrel_def cells_ok_def cell_ok_def)
  then have "unat (?r - 1) = a_rc (a_unpin n a) n" using n unat_pred_u32 [of ?r] by (simp add: a_unpin_def)
  then have "bcrel p ?t (a_unpin n a)" using n clean by (intro rc_change [OF R h _ a_unpin_def]) auto
  moreover have "upd_buf b (\<lambda>x. x\<lparr>b_refcnt := b_refcnt x - 1\<rparr>) s = ?t" by (simp add: upd_buf_def)
  then have "bunpin b s = Ret () ?t" using quietD [OF q] by (simp add: bunpin_def exec_simps lock_exec)
  ultimately show ?thesis by (intro exI [of _ ?t]) (auto simp: bio_frame_def upd_buf_def holds_def)
qed

text \<open>Neither the links nor the states of sleeping processes matter to the relation.\<close>

lemma cells_relink:
  "cells_ok pid (\<lambda>b. (bs b)\<lparr>b_next := nx b, b_prev := pv b\<rparr>) ls a \<longleftrightarrow> cells_ok pid bs ls a"
  by (simp add: cells_ok_def holds_def cell_ok_def)

lemma brelse_ok:
  assumes R: "bcrel p s a" and h: "holds (bufs s) b n" and n: "n \<in> a_lk a"
    and clean: "a_rc a n = 1 \<longrightarrow> a_view a n = a_disk a n"
  shows "\<exists>t. brelse b s = Ret () t \<and> bcrel p t (a_put n a) \<and> bio_frame p s t \<and>
    (\<forall>c m. holds (bufs s) c m \<longrightarrow> holds (bufs t) c m)"
proof -
  note bd = bc_data [OF R h n]
  from R obtain xs where q: "quiet p s" and r: "ring (bufs s) xs"
    and ok: "cells_ok (mypid p s) (bufs s) (buf_locks s) a"
    and d: "a_disk a = disk s" "a_writes a = disk_writes s" by (auto simp: bcrel_def)
  have b: "b < NBUF" using h by (simp add: holds_def)
  let ?u = "upd_sleep (BufLock b) sl_freed (upd_buf b (\<lambda>x. x\<lparr>b_refcnt := b_refcnt x - 1\<rparr>) s)"
  from brelse_eq [OF q r b bd(2,3)] obtain nx pv ys where
    run: "brelse b s = Ret () (relinked nx pv (woken (Some (ChSleep (BufLock b))) ?u))" and
    ys: "ring (\<lambda>c. (bufs s c)\<lparr>b_next := nx c, b_prev := pv c\<rparr>) ys" by blast
  define t where "t = relinked nx pv (woken (Some (ChSleep (BufLock b))) ?u)"
  let ?x = "(bufs s b)\<lparr>b_refcnt := b_refcnt (bufs s b) - 1\<rparr>" and ?l = "sl_freed (buf_locks s b)"
  have tb: "bufs t = (\<lambda>c. (((bufs s)(b := ?x)) c)\<lparr>b_next := nx c, b_prev := pv c\<rparr>)"
    "buf_locks t = (buf_locks s)(b := ?l)"
    by (auto simp: t_def relinked_def woken_def upd_sleep_def upd_buf_def buf_locks_def fun_eq_iff)
  have own: "procs t p = procs s p"
    using quietD(2) [OF q] by (simp add: t_def relinked_def woken_def upd_sleep_def upd_buf_def)
  have "unat (b_refcnt ?x) = a_rc (a_put n a) n" using bd(4,5) unat_pred_u32 [of "b_refcnt (bufs s b)"] by (simp add: a_put_def)
  then have cell: "cell_ok (mypid p s) ?x ?l (a_put n a) n"
    using bd clean by (auto simp: cell_ok_def a_put_def sl_freed_def)
  have "cells_ok (mypid p s) ((bufs s)(b := ?x)) ((buf_locks s)(b := ?l)) (a_put n a)"
    by (rule cells_put [OF ok b disjI1 [OF h] _ _ cell]) (use h in \<open>auto simp: holds_def a_put_def\<close>)
  then have "cells_ok (mypid p t) (bufs t) (buf_locks t) (a_put n a)"
    unfolding tb cells_relink using own by (simp add: mypid_def fun_upd_def)
  moreover have "ring (bufs t) ys"
    using ys unfolding tb by (subst ring_cong [where cs = "\<lambda>c. (bufs s c)\<lparr>b_next := nx c, b_prev := pv c\<rparr>"]) simp_all
  moreover have "quiet p t" using q by (simp add: t_def)
  moreover have dt: "disk t = disk s" "disk_writes t = disk_writes s"
    by (simp_all add: t_def relinked_def woken_def upd_sleep_def upd_buf_def)
  ultimately have "bcrel p t (a_put n a)" using d by (auto simp: bcrel_def a_put_def)
  moreover have "bio_frame p s t"
    using own by (auto simp: bio_frame_def) 
      (simp_all add: t_def relinked_def woken_def upd_sleep_def upd_buf_def woken_proc_def)
  moreover have "holds (bufs t) c m" if "holds (bufs s) c m" for c m
    using that by (auto simp: tb holds_def)
  ultimately show ?thesis using run by (metis t_def)
qed

section \<open>The contract\<close>

lemma a_used_get: "a_used (a_get n a) = insert n (a_used a)"
  by (auto simp: a_used_def a_get_def)

lemma a_lk_ops [simp]:
  "a_lk (a_get n a) = insert n (a_lk a)" "a_lk (a_put n a) = a_lk a - {n}" "a_lk (a_set n d a) = a_lk a"
  "a_lk (a_write n a) = a_lk a" "a_lk (a_pin n a) = a_lk a" "a_lk (a_unpin n a) = a_lk a"
  by (simp_all add: acache_defs)

locale block_cache =
  fixes rd :: "u32 \<Rightarrow> ('s, 'b) prog"
    and wr :: "'b \<Rightarrow> ('s, unit) prog"
    and put :: "'b \<Rightarrow> ('s, unit) prog"
    and pin :: "'b \<Rightarrow> ('s, unit) prog"
    and unpin :: "'b \<Rightarrow> ('s, unit) prog"
    and store :: "'b \<Rightarrow> byte list \<Rightarrow> ('s, unit) prog"
    and data :: "'s \<Rightarrow> 'b \<Rightarrow> byte list"
    and R :: "'s \<Rightarrow> acache \<Rightarrow> bool"
    and at :: "'s \<Rightarrow> 'b \<Rightarrow> u32 \<Rightarrow> bool"
    and fr :: "'s \<Rightarrow> 's \<Rightarrow> bool"
  assumes read_ok: "R s a \<Longrightarrow> n \<notin> a_lk a \<Longrightarrow> a_rc a n + 1 < 2 ^ 32 \<Longrightarrow> 0 < a_rc a n \<or> card (a_used a) < NBUF \<Longrightarrow>
      \<exists>b t. rd n s = Ret b t \<and> R t (a_get n a) \<and> at t b n \<and> fr s t \<and>
        (\<forall>c m. m \<in> a_lk a \<longrightarrow> at s c m \<longrightarrow> at t c m)"
    and data_ok: "R s a \<Longrightarrow> at s b n \<Longrightarrow> n \<in> a_lk a \<Longrightarrow> data s b = a_view a n"
    and store_ok: "R s a \<Longrightarrow> at s b n \<Longrightarrow> n \<in> a_lk a \<Longrightarrow>
      \<exists>t. store b d s = Ret () t \<and> R t (a_set n d a) \<and> fr s t \<and> (\<forall>c m. at s c m \<longrightarrow> at t c m)"
    and write_ok: "R s a \<Longrightarrow> at s b n \<Longrightarrow> n \<in> a_lk a \<Longrightarrow>
      \<exists>t. wr b s = Ret () t \<and> R t (a_write n a) \<and> fr s t \<and> (\<forall>c m. at s c m \<longrightarrow> at t c m)"
    and pin_ok: "R s a \<Longrightarrow> at s b n \<Longrightarrow> a_rc a n + 1 < 2 ^ 32 \<Longrightarrow>
      \<exists>t. pin b s = Ret () t \<and> R t (a_pin n a) \<and> fr s t \<and> (\<forall>c m. at s c m \<longrightarrow> at t c m)"
    and unpin_ok: "R s a \<Longrightarrow> at s b n \<Longrightarrow> 0 < a_rc a n \<Longrightarrow> a_rc a n = 1 \<longrightarrow> a_view a n = a_disk a n \<Longrightarrow>
      n \<in> a_lk a \<longrightarrow> 1 < a_rc a n \<Longrightarrow>
      \<exists>t. unpin b s = Ret () t \<and> R t (a_unpin n a) \<and> fr s t \<and> (\<forall>c m. at s c m \<longrightarrow> at t c m)"
    and put_ok: "R s a \<Longrightarrow> at s b n \<Longrightarrow> n \<in> a_lk a \<Longrightarrow> a_rc a n = 1 \<longrightarrow> a_view a n = a_disk a n \<Longrightarrow>
      \<exists>t. put b s = Ret () t \<and> R t (a_put n a) \<and> fr s t \<and> (\<forall>c m. at s c m \<longrightarrow> at t c m)"
    and clean: "R s a \<Longrightarrow> a_rc a n = 0 \<Longrightarrow> a_view a n = a_disk a n"
    and fr_refl: "fr s s"
    and fr_trans: "fr s t \<Longrightarrow> fr t u \<Longrightarrow> fr s u"
begin

text \<open>Copying block \<open>y\<close> to block \<open>x\<close> and to the disk, the two blocks rd first and released last.\<close>

definition copy_over :: "u32 \<Rightarrow> u32 \<Rightarrow> ('s, unit) prog" where
  "copy_over x y = kbind (rd x) (\<lambda>b. kbind (rd y) (\<lambda>c. kbind (kget (\<lambda>s. data s c)) (\<lambda>d.
     kseq [store b d, wr b, put c, put b])))"

definition a_copied :: "u32 \<Rightarrow> u32 \<Rightarrow> acache \<Rightarrow> acache" where
  "a_copied x y a = a\<lparr>a_view := (a_view a)(x := a_view a y), a_disk := (a_disk a)(x := a_view a y),
     a_writes := a_writes a @ [(x, a_view a y)]\<rparr>"

lemma read_two:
  assumes R: "R s a" and xy: "x \<noteq> y" "x \<notin> a_lk a" "y \<notin> a_lk a" "a_rc a x + 1 < 2 ^ 32" "a_rc a y + 1 < 2 ^ 32"
    and room: "0 < a_rc a x \<or> card (a_used a) < NBUF" "0 < a_rc a y \<or> card (insert x (a_used a)) < NBUF"
  shows "\<exists>b u c t. rd x s = Ret b u \<and> rd y u = Ret c t \<and> R t (a_get y (a_get x a)) \<and>
    at t b x \<and> at t c y \<and> fr s t"
proof -
  from read_ok [OF R xy(2,4) room(1)] obtain b u where u: "rd x s = Ret b u" "R u (a_get x a)" "at u b x" "fr s u" by blast
  have "y \<notin> a_lk (a_get x a)" "a_rc (a_get x a) y + 1 < 2 ^ 32" "0 < a_rc (a_get x a) y \<or> card (a_used (a_get x a)) < NBUF"
    using xy room(2) by (auto simp: a_used_get) (simp_all add: a_get_def)
  from read_ok [OF u(2) this] obtain c t where t: "rd y u = Ret c t" "R t (a_get y (a_get x a))" "at t c y" "fr u t"
    "\<forall>d m. m \<in> a_lk (a_get x a) \<longrightarrow> at u d m \<longrightarrow> at t d m" by blast
  then have "at t b x" using u(3) by simp
  with t u show ?thesis using fr_trans by blast
qed

lemma copy_over_ok:
  assumes R: "R s a" and xy: "x \<noteq> y" "x \<notin> a_lk a" "y \<notin> a_lk a" "a_rc a x + 1 < 2 ^ 32" "a_rc a y + 1 < 2 ^ 32"
    and room: "0 < a_rc a x \<or> card (a_used a) < NBUF" "0 < a_rc a y \<or> card (insert x (a_used a)) < NBUF"
  shows "\<exists>t. copy_over x y s = Ret () t \<and> R t (a_copied x y a) \<and> fr s t"
proof -
  let ?a1 = "a_get y (a_get x a)"
  obtain b u c s1 where s0: "rd x s = Ret b u" "rd y u = Ret c s1" and s1: "R s1 ?a1" "at s1 b x" "at s1 c y" "fr s s1"
    using read_two [OF assms] by blast
  have d: "data s1 c = a_view a y" using data_ok [OF s1(1,3)] by (simp add: a_get_def)
  let ?a2 = "a_set x (a_view a y) ?a1"
  from store_ok [OF s1(1,2)] obtain s2 where s2: "store b (a_view a y) s1 = Ret () s2" "R s2 ?a2" "fr s1 s2"
    "at s2 b x" "at s2 c y" using s1(2,3) by fastforce
  from write_ok [OF s2(2,4)] obtain s3 where s3: "wr b s2 = Ret () s3" "R s3 (a_write x ?a2)" "fr s2 s3"
    "at s3 b x" "at s3 c y" using s2(4,5) by fastforce
  have "a_rc (a_write x ?a2) y = 1 \<longrightarrow> a_view (a_write x ?a2) y = a_disk (a_write x ?a2) y"
    using clean [OF R, of y] xy(1) by (simp add: acache_defs)
  from put_ok [OF s3(2,5) _ this] obtain s4 where s4: "put c s3 = Ret () s4" "R s4 (a_put y (a_write x ?a2))" "fr s3 s4"
    "at s4 b x" using s3(4) by (fastforce simp: acache_defs)
  have "a_rc (a_put y (a_write x ?a2)) x = 1 \<longrightarrow> a_view (a_put y (a_write x ?a2)) x = a_disk (a_put y (a_write x ?a2)) x"
    using xy(1) by (simp add: acache_defs)
  from put_ok [OF s4(2,4) _ this] xy obtain t where t: "put b s4 = Ret () t" "R t (a_put x (a_put y (a_write x ?a2)))" "fr s4 t"
    by (fastforce simp: acache_defs)
  moreover have "a_put x (a_put y (a_write x ?a2)) = a_copied x y a"
    using xy by (intro acache.equality) (auto simp: acache_defs a_copied_def fun_eq_iff)
  moreover have "copy_over x y s = Ret () t" using s0 d s2(1) s3(1) s4(1) t(1) by (simp add: copy_over_def exec_simps)
  ultimately show ?thesis using s1(4) s2(3) s3(3) s4(3) fr_trans by metis
qed

text \<open>The same, onto the block read second, which may lose a pin on the way.\<close>

definition install_over :: "bool \<Rightarrow> u32 \<Rightarrow> u32 \<Rightarrow> ('s, unit) prog" where
  "install_over unp x y = kbind (rd x) (\<lambda>b. kbind (rd y) (\<lambda>c. kbind (kget (\<lambda>s. data s b)) (\<lambda>d.
     kseq [store c d, wr c, kwhen unp (unpin c), put b, put c])))"

definition a_installed :: "bool \<Rightarrow> u32 \<Rightarrow> u32 \<Rightarrow> acache \<Rightarrow> acache" where
  "a_installed unp x y a = a\<lparr>a_view := (a_view a)(y := a_view a x), a_disk := (a_disk a)(y := a_view a x),
     a_writes := a_writes a @ [(y, a_view a x)], a_rc := (a_rc a)(y := a_rc a y - (if unp then 1 else 0))\<rparr>"

lemma install_over_ok:
  assumes R: "R s a" and xy: "x \<noteq> y" "x \<notin> a_lk a" "y \<notin> a_lk a" "a_rc a x + 1 < 2 ^ 32" "a_rc a y + 1 < 2 ^ 32"
    and room: "0 < a_rc a x \<or> card (a_used a) < NBUF" "0 < a_rc a y \<or> card (insert x (a_used a)) < NBUF"
    and unp: "unp \<longrightarrow> 0 < a_rc a y"
  shows "\<exists>t. install_over unp x y s = Ret () t \<and> R t (a_installed unp x y a) \<and> fr s t"
proof -
  let ?a1 = "a_get y (a_get x a)"
  obtain b u c s1 where s0: "rd x s = Ret b u" "rd y u = Ret c s1" and s1: "R s1 ?a1" "at s1 b x" "at s1 c y" "fr s s1"
    using read_two [OF assms(1-8)] by blast
  have d: "data s1 b = a_view a x" using data_ok [OF s1(1,2)] by (simp add: a_get_def)
  let ?a3 = "a_write y (a_set y (a_view a x) ?a1)"
  from store_ok [OF s1(1,3)] obtain s2 where s2: "store c (a_view a x) s1 = Ret () s2" "R s2 (a_set y (a_view a x) ?a1)" "fr s1 s2"
    "at s2 b x" "at s2 c y" using s1(2,3) by fastforce
  from write_ok [OF s2(2,5)] obtain s3 where s3: "wr c s2 = Ret () s3" "R s3 ?a3" "fr s2 s3"
    "at s3 b x" "at s3 c y" using s2(4,5) by fastforce
  let ?a4 = "if unp then a_unpin y ?a3 else ?a3"
  have "\<exists>s4. kwhen unp (unpin c) s3 = Ret () s4 \<and> R s4 ?a4 \<and> fr s3 s4 \<and> at s4 b x \<and> at s4 c y"
  proof (cases unp)
    case True
    with unp have rc: "0 < a_rc ?a3 y" "a_rc ?a3 y = 1 \<longrightarrow> a_view ?a3 y = a_disk ?a3 y" "y \<in> a_lk ?a3 \<longrightarrow> 1 < a_rc ?a3 y"
      using xy(1) by (auto simp: acache_defs)
    from unpin_ok [OF s3(2,5) rc] True show ?thesis using s3(4,5) by (auto simp: exec_simps)
  next
    case False
    then show ?thesis using s3 fr_refl by (auto simp: exec_simps)
  qed
  then obtain s4 where s4: "kwhen unp (unpin c) s3 = Ret () s4" "R s4 ?a4" "fr s3 s4" "at s4 b x" "at s4 c y" by blast
  have "x \<in> a_lk ?a4" by simp
  moreover have "a_rc ?a4 x = 1 \<longrightarrow> a_view ?a4 x = a_disk ?a4 x"
    using clean [OF R, of x] xy(1) by (simp add: acache_defs)
  ultimately obtain s5 where s5: "put b s4 = Ret () s5" "R s5 (a_put x ?a4)" "fr s4 s5" "at s5 c y"
    using put_ok [OF s4(2,4)] s4(5) by blast
  have "y \<in> a_lk (a_put x ?a4)" using xy(1) by auto
  moreover have "a_rc (a_put x ?a4) y = 1 \<longrightarrow> a_view (a_put x ?a4) y = a_disk (a_put x ?a4) y"
    using xy(1) by (simp add: acache_defs)
  ultimately obtain t where t: "put c s5 = Ret () t" "R t (a_put y (a_put x ?a4))" "fr s5 t"
    using put_ok [OF s5(2,4)] by blast
  moreover have "a_put y (a_put x ?a4) = a_installed unp x y a"
    using xy unp by (intro acache.equality) (auto simp: acache_defs a_installed_def fun_eq_iff)
  moreover have "install_over unp x y s = Ret () t"
    using s0 d s2(1) s3(1) s4(1) s5(1) t(1) by (simp add: install_over_def exec_simps)
  ultimately show ?thesis using s1(4) s2(3) s3(3) s4(3) s5(3) fr_trans by metis
qed

text \<open>Rewriting one block in place: read, change, write to the disk, release.\<close>

lemma rewrite_ok:
  assumes R: "R s a" and x: "x \<notin> a_lk a" "a_rc a x + 1 < 2 ^ 32" "0 < a_rc a x \<or> card (a_used a) < NBUF"
  shows "\<exists>t. kbind (rd x) (\<lambda>b. kbind (kget (\<lambda>s. data s b)) (\<lambda>d. kseq [store b (f d), wr b, put b])) s = Ret () t \<and>
    R t (a\<lparr>a_view := (a_view a)(x := f (a_view a x)), a_disk := (a_disk a)(x := f (a_view a x)),
           a_writes := a_writes a @ [(x, f (a_view a x))]\<rparr>) \<and> fr s t"
proof -
  from read_ok [OF assms] obtain b s1 where s1: "rd x s = Ret b s1" "R s1 (a_get x a)" "at s1 b x" "fr s s1" by blast
  have d: "data s1 b = a_view a x" using data_ok [OF s1(2,3)] by (simp add: a_get_def)
  let ?v = "f (a_view a x)"
  from store_ok [OF s1(2,3), of ?v] obtain s2 where s2: "store b ?v s1 = Ret () s2" "R s2 (a_set x ?v (a_get x a))" "fr s1 s2" "at s2 b x"
    using s1(3) by auto
  from write_ok [OF s2(2,4)] obtain s3 where s3: "wr b s2 = Ret () s3" "R s3 (a_write x (a_set x ?v (a_get x a)))" "fr s2 s3" "at s3 b x"
    using s2(4) by auto
  from put_ok [OF s3(2,4)] obtain t where t: "put b s3 = Ret () t" "R t (a_put x (a_write x (a_set x ?v (a_get x a))))" "fr s3 t"
    by (auto simp: acache_defs)
  have "a_put x (a_write x (a_set x ?v (a_get x a))) = a\<lparr>a_view := (a_view a)(x := ?v), a_disk := (a_disk a)(x := ?v),
           a_writes := a_writes a @ [(x, ?v)]\<rparr>"
    using x(1) by (intro acache.equality) (auto simp: acache_defs)
  moreover have "fr s t" using s1(4) s2(3) s3(3) t(3) fr_trans by metis
  moreover have "kbind (rd x) (\<lambda>b. kbind (kget (\<lambda>s. data s b)) (\<lambda>d. kseq [store b (f d), wr b, put b])) s = Ret () t"
    using s1(1) s2(1) s3(1) t(1) d by (simp add: exec_simps)
  ultimately show ?thesis using t(2) by (intro exI [of _ t]) simp
qed

text \<open>Reading a block and letting it go.\<close>

lemma peek_ok:
  assumes R: "R s a" and x: "x \<notin> a_lk a" "a_rc a x + 1 < 2 ^ 32" "0 < a_rc a x \<or> card (a_used a) < NBUF"
  shows "\<exists>b t u. rd x s = Ret b t \<and> data t b = a_view a x \<and> at t b x \<and> R t (a_get x a) \<and> fr s t \<and>
    put b t = Ret () u \<and> R u a \<and> fr s u"
proof -
  from read_ok [OF assms] obtain b t where t: "rd x s = Ret b t" "R t (a_get x a)" "at t b x" "fr s t" by blast
  have "a_rc (a_get x a) x = 1 \<longrightarrow> a_view (a_get x a) x = a_disk (a_get x a) x"
    using clean [OF R, of x] by (simp add: a_get_def)
  from put_ok [OF t(2,3) _ this] obtain u where u: "put b t = Ret () u" "R u (a_put x (a_get x a))" "fr t u" by auto
  moreover have "a_put x (a_get x a) = a" using x(1) by (intro acache.equality) (auto simp: acache_defs)
  moreover have "data t b = a_view a x" using data_ok [OF t(2,3)] by (simp add: a_get_def)
  moreover have "fr s u" using fr_trans [OF t(4) u(3)] .
  ultimately show ?thesis using t by (intro exI [of _ b] exI [of _ t] exI [of _ u]) simp
qed

end

lemma bc_clean: "bcrel p s a \<Longrightarrow> a_rc a n = 0 \<Longrightarrow> a_view a n = a_disk a n"
proof (cases "\<exists>b. holds (bufs s) b n")
  case True
  then obtain b where b: "holds (bufs s) b n" ..
  assume R: "bcrel p s a" and rc: "a_rc a n = 0"
  have "cell_ok (mypid p s) (bufs s b) (buf_locks s b) a n" using R b unfolding bcrel_def cells_ok_def by blast
  then show ?thesis using rc unfolding cell_ok_def by blast
next
  case False
  assume "bcrel p s a"
  then have "uncached a n" using False unfolding bcrel_def cells_ok_def by blast
  then show ?thesis by (simp only: uncached_def)
qed

interpretation bc: block_cache "bread ROOTDEV" bwrite brelse bpin bunpin set_data "\<lambda>s b. b_data (bufs s b)"
  "bcrel p" "\<lambda>s. holds (bufs s)" "bio_frame p" for p
proof unfold_locales
  show "\<exists>b t. bread ROOTDEV n s = Ret b t \<and> bcrel p t (a_get n a) \<and> holds (bufs t) b n \<and> bio_frame p s t \<and>
      (\<forall>c m. m \<in> a_lk a \<longrightarrow> holds (bufs s) c m \<longrightarrow> holds (bufs t) c m)"
    if "bcrel p s a" "n \<notin> a_lk a" "a_rc a n + 1 < 2 ^ 32" "0 < a_rc a n \<or> card (a_used a) < NBUF" for s a n
    using that by (rule bread_ok)
  show "b_data (bufs s b) = a_view a n" if "bcrel p s a" "holds (bufs s) b n" "n \<in> a_lk a" for s a b n
    using that by (rule bc_data)
qed (auto intro: set_data_ok bwrite_ok bpin_ok bunpin_ok brelse_ok bc_clean bio_frame_trans)

section \<open>Correctness\<close>

text \<open>A machine where process 0 runs and block 60 has been changed in the cache, with one reference to it.\<close>

definition example_buf :: "nat \<Rightarrow> buf" where
  "example_buf b = zero_buf\<lparr>b_next := (b + 1) mod 31, b_prev := (b + 30) mod 31\<rparr>"

definition example_bcache :: kworld where
  "example_bcache = (zero_world example_syms)\<lparr>
     cpus := (\<lambda>_. \<lparr>c_proc = Some 0, c_noff = 0, c_intena = False\<rparr>),
     bufs := example_buf(0 := (example_buf 0)\<lparr>b_dev := ROOTDEV, b_blockno := 60, b_valid := True, b_refcnt := 1,
       b_data := replicate 1024 7\<rparr>)\<rparr>"

definition example_cache :: acache where
  "example_cache = \<lparr>a_view = (\<lambda>_. replicate 1024 0)(60 := replicate 1024 7), a_rc = (\<lambda>_. 0)(60 := 1), a_lk = {},
     a_disk = (\<lambda>_. replicate 1024 0), a_writes = []\<rparr>"

lemma example_ring: "ring (bufs example_bcache) [0..<30]"
proof -
  have "b_next (bufs example_bcache b) = (b + 1) mod 31" "b_prev (bufs example_bcache b) = (b + 30) mod 31" for b
    by (simp_all add: example_bcache_def example_buf_def)
  moreover have "set [0..<30 :: nat] = {..<NBUF}" by (simp add: NBUF_def MAXOPBLOCKS_def atLeast_upt del: upt.simps)
  ultimately show ?thesis
    unfolding ring_def by (intro conjI) (simp_all add: NBUF_def MAXOPBLOCKS_def upt_rec)
qed

lemma example_cells: "bcrel 0 example_bcache example_cache"
proof -
  have "holds (bufs example_bcache) b n \<longleftrightarrow> b = 0 \<and> n = 60" for b n
    by (auto simp: holds_def example_bcache_def example_buf_def zero_buf_def ROOTDEV_def NBUF_def MAXOPBLOCKS_def)
  then have "cells_ok (mypid 0 example_bcache) (bufs example_bcache) (buf_locks example_bcache) example_cache"
    by (auto simp: cells_ok_def cell_ok_def uncached_def example_cache_def)
      (auto simp: example_bcache_def example_buf_def zero_buf_def zero_world_def buf_locks_def ROOTDEV_def split: if_splits)
  moreover have "quiet 0 example_bcache"
    by (simp add: quiet_def settled_def lock_free_def example_bcache_def zero_world_def)
  ultimately show ?thesis using example_ring
    by (auto simp: bcrel_def example_cache_def example_bcache_def zero_world_def)
qed

text \<open>
  C4. The cache is transparent: reading a block gives a locked buffer of the cache whose data are the
  current contents of that block, whether it was cached, or had to be read from the disk into the least
  recently used buffer; afterwards the cache still stands for the same contents of every block, and the
  disk has not changed.
\<close>

theorem bread_refines:
  assumes "bcrel p s a" "n \<notin> a_lk a" "a_rc a n + 1 < 2 ^ 32" "0 < a_rc a n \<or> card (a_used a) < NBUF"
  shows "\<exists>b t. bread ROOTDEV n s = Ret b t \<and> holds (bufs t) b n \<and> b_data (bufs t b) = a_view a n \<and>
    sl_locked (sleeplocks t (BufLock b)) \<and> bcrel p t (a_get n a) \<and> disk t = disk s"
proof -
  obtain b t where t: "bread ROOTDEV n s = Ret b t" "bcrel p t (a_get n a)" "holds (bufs t) b n"
    using bc.read_ok [OF assms] by blast
  moreover have "b_data (bufs t b) = a_view a n" using bc.data_ok [OF t(2,3)] by (simp add: a_get_def)
  moreover have "cell_ok (mypid p t) (bufs t b) (buf_locks t b) (a_get n a) n"
    using t(2,3) unfolding bcrel_def cells_ok_def by blast
  then have "sl_locked (sleeplocks t (BufLock b))" by (simp add: cell_ok_def buf_locks_def)
  moreover have "disk t = disk s" using t(2) assms(1) by (simp add: bcrel_def a_get_def)
  ultimately show ?thesis by blast
qed

theorem bread_refines_witness:
  "\<exists>b t. bread ROOTDEV 60 example_bcache = Ret b t \<and> b_data (bufs t b) = replicate 1024 7"
  using bread_refines [OF example_cells, of 60] by (auto simp: example_cache_def)

text \<open>
  The cache is bounded: when every buffer is referenced and the block is not cached, \<open>bread\<close>
  panics instead of evicting a buffer that is in use.
\<close>

theorem bread_no_buffers:
  assumes "quiet p s" "ring (bufs s) xs" "\<And>b. b < NBUF \<Longrightarrow> b_refcnt (bufs s b) \<noteq> 0"
    and "\<And>b. b < NBUF \<Longrightarrow> \<not> (b_dev (bufs s b) = dev \<and> b_blockno (bufs s b) = n)"
  shows "bread dev n s = Panic ''bget: no buffers''"
proof -
  have xs: "set xs = {..<NBUF}" using assms(2) by (simp add: ring_def)
  have "List.find (\<lambda>b. b_dev (bufs s b) = dev \<and> b_blockno (bufs s b) = n) xs = None"
    "List.find (\<lambda>b. b_refcnt (bufs s b) = 0) (rev xs) = None"
    using assms(3,4) xs by (auto simp: find_None_iff)
  then show ?thesis using bget_eq [OF assms(1,2)] by (simp add: bread_def exec_simps)
qed

definition full_bcache :: kworld where
  "full_bcache = bufs_update (\<lambda>bs b. (bs b)\<lparr>b_refcnt := 1\<rparr>) example_bcache"

theorem bread_no_buffers_witness: "bread ROOTDEV 61 full_bcache = Panic ''bget: no buffers''"
proof (rule bread_no_buffers)
  show "ring (bufs full_bcache) [0..<30]"
    using example_ring by (subst ring_cong [where cs = "bufs example_bcache"]) (simp_all add: full_bcache_def)
  show "quiet 0 full_bcache"
    using example_cells by (simp add: bcrel_def full_bcache_def)
qed (auto simp: full_bcache_def example_bcache_def example_buf_def zero_buf_def ROOTDEV_def)

end
