(* ===== verification/Log.thy ===== *)
theory Log
  imports Blockcache
begin

text \<open>
  The file-system log (\<open>kernel/log.c\<close>). A transaction collects the blocks it changes in the cache; at
  its end they are written to the log area, the header block that makes them count is written, the
  blocks are installed at their home locations, and the header is cleared. After a crash the
  header says whether to install.

  The last section is crash safety: wherever the sequence of disk writes of a commit is cut off,
  recovery gives the disk before the transaction or the disk after it.
\<close>

section \<open>The log\<close>

text \<open>The header block: the number of logged blocks, and their home locations.\<close>

definition head_n :: "byte list \<Rightarrow> int" where
  "head_n d = sint (get32 d 0)"

definition head_block :: "byte list \<Rightarrow> nat \<Rightarrow> u32" where
  "head_block d i = get32 d (4 + 4 * i)"

definition head_put :: "logheader \<Rightarrow> byte list \<Rightarrow> byte list" where
  "head_put lh d = fold (\<lambda>i d. put32 d (4 + 4 * i) (lh_block lh i)) [0..<nat (lh_n lh)] (put32 d 0 (word_of_int (lh_n lh)))"

definition upd_lh :: "(logheader \<Rightarrow> logheader) \<Rightarrow> 'z kstate_scheme \<Rightarrow> 'z kstate_scheme" where
  "upd_lh f = upd_log (\<lambda>l. l\<lparr>l_lh := f (l_lh l)\<rparr>)"

definition log_slot :: "logstate \<Rightarrow> nat \<Rightarrow> u32" where
  "log_slot l tail = l_start l + of_nat tail + 1"

text \<open>The body of the loop of \<open>install_trans\<close>, and the loop.\<close>

definition install_one :: "bool \<Rightarrow> nat \<Rightarrow> unit K" where
  "install_one recovering tail =
     kbind (kget log) (\<lambda>l.
     kbind (bread (l_dev l) (log_slot l tail)) (\<lambda>lbuf.
     kbind (bread (l_dev l) (lh_block (l_lh l) tail)) (\<lambda>dbuf.
     kbind (kget (\<lambda>s. b_data (bufs s lbuf))) (\<lambda>d. kseq [
       set_data dbuf d,
       bwrite dbuf,
       kwhen (\<not> recovering) (bunpin dbuf),
       brelse lbuf,
       brelse dbuf]))))"

definition install_trans :: "bool \<Rightarrow> unit K" where
  "install_trans recovering =
     kbind (kget log) (\<lambda>l. kfor [0..<nat (lh_n (l_lh l))] (install_one recovering))"

definition read_head :: "unit K" where
  "read_head =
     kbind (kget log) (\<lambda>l.
     kbind (bread (l_dev l) (l_start l)) (\<lambda>b.
     kbind (kget (\<lambda>s. b_data (bufs s b))) (\<lambda>d. kseq [
       kmod (upd_lh (\<lambda>h. h\<lparr>lh_n := head_n d\<rparr>)),
       kfor [0..<nat (head_n d)] (\<lambda>i. kmod (upd_lh (\<lambda>h. h\<lparr>lh_block := (lh_block h)(i := head_block d i)\<rparr>))),
       brelse b])))"

definition write_head :: "unit K" where
  "write_head =
     kbind (kget log) (\<lambda>l.
     kbind (bread (l_dev l) (l_start l)) (\<lambda>b.
     kbind (kget (\<lambda>s. b_data (bufs s b))) (\<lambda>d. kseq [
       set_data b (head_put (l_lh l) d),
       bwrite b,
       brelse b])))"

definition recover_from_log :: "unit K" where
  "recover_from_log = kseq [
     read_head,
     install_trans True,
     kmod (upd_lh (\<lambda>h. h\<lparr>lh_n := 0\<rparr>)),
     write_head]"

definition initlog :: "u32 \<Rightarrow> unit K" where
  "initlog dev = kseq [
     kwhen (4 + 4 * nat LOGSIZE \<ge> BSIZE) (panic ''initlog: too big logheader''),
     initlock LogLock ''log'',
     kmod (\<lambda>s. upd_log (\<lambda>l. l\<lparr>l_start := sb_logstart (sb s)\<rparr>) s),
     kmod (\<lambda>s. upd_log (\<lambda>l. l\<lparr>l_size := sint (sb_nlog (sb s))\<rparr>) s),
     kmod (upd_log (\<lambda>l. l\<lparr>l_dev := dev\<rparr>)),
     recover_from_log]"

definition begin_op_loop :: "unit K" where
  "begin_op_loop =
     kloop (\<lambda>_. kbind (kget log) (\<lambda>l.
       if l_committing l then kbind (sleep ChLog LogLock) (\<lambda>_. kret (Inl ()))
       else if lh_n (l_lh l) + (l_outstanding l + 1) * MAXOPBLOCKS > LOGSIZE
       then kbind (sleep ChLog LogLock) (\<lambda>_. kret (Inl ()))
       else kbind (kseq [
              kmod (upd_log (\<lambda>l. l\<lparr>l_outstanding := l_outstanding l + 1\<rparr>)),
              release LogLock]) (\<lambda>_. kret (Inr ())))) ()"

definition begin_op :: "unit K" where
  "begin_op = kseq [acquire LogLock, begin_op_loop]"

definition write_log_one :: "nat \<Rightarrow> unit K" where
  "write_log_one tail =
     kbind (kget log) (\<lambda>l.
     kbind (bread (l_dev l) (log_slot l tail)) (\<lambda>to.
     kbind (bread (l_dev l) (lh_block (l_lh l) tail)) (\<lambda>frm.
     kbind (kget (\<lambda>s. b_data (bufs s frm))) (\<lambda>d. kseq [
       set_data to d,
       bwrite to,
       brelse frm,
       brelse to]))))"

definition write_log :: "unit K" where
  "write_log = kbind (kget log) (\<lambda>l. kfor [0..<nat (lh_n (l_lh l))] write_log_one)"

definition commit :: "unit K" where
  "commit = kbind (kget log) (\<lambda>l. kwhen (lh_n (l_lh l) > 0) (kseq [
     write_log,
     write_head,
     install_trans False,
     kmod (upd_lh (\<lambda>h. h\<lparr>lh_n := 0\<rparr>)),
     write_head]))"

definition end_op :: "unit K" where
  "end_op =
     kbind (acquire LogLock) (\<lambda>_.
     kbind (kmod (upd_log (\<lambda>l. l\<lparr>l_outstanding := l_outstanding l - 1\<rparr>))) (\<lambda>_.
     kbind (kget log) (\<lambda>l.
     kbind (kwhen (l_committing l) (panic ''log.committing'')) (\<lambda>_.
     kbind (if l_outstanding l = 0 then kmod (upd_log (\<lambda>l. l\<lparr>l_committing := True\<rparr>)) else wakeup (Some ChLog)) (\<lambda>_.
     kbind (release LogLock) (\<lambda>_.
     kwhen (l_outstanding l = 0) (kseq [
       commit,
       acquire LogLock,
       kmod (upd_log (\<lambda>l. l\<lparr>l_committing := False\<rparr>)),
       wakeup (Some ChLog),
       release LogLock])))))))"

text \<open>The slot for a block: where it is logged already, or the next one.\<close>

definition log_index :: "logheader \<Rightarrow> u32 \<Rightarrow> nat" where
  "log_index h bn = (case first_index (\<lambda>i. lh_block h i = bn) (nat (lh_n h)) of Some i \<Rightarrow> i | None \<Rightarrow> nat (lh_n h))"

definition log_write :: "nat \<Rightarrow> unit K" where
  "log_write b =
     kbind (acquire LogLock) (\<lambda>_.
     kbind (kget log) (\<lambda>l.
     kbind (kwhen (lh_n (l_lh l) \<ge> LOGSIZE \<or> lh_n (l_lh l) \<ge> l_size l - 1) (panic ''too big a transaction'')) (\<lambda>_.
     kbind (kwhen (l_outstanding l < 1) (panic ''log_write outside of trans'')) (\<lambda>_.
     kbind (kget (\<lambda>s. b_blockno (bufs s b))) (\<lambda>bn.
     let i = log_index (l_lh l) bn in kseq [
       kmod (upd_lh (\<lambda>h. h\<lparr>lh_block := (lh_block h)(i := bn)\<rparr>)),
       kwhen (int i = lh_n (l_lh l)) (kseq [
         bpin b,
         kmod (upd_lh (\<lambda>h. h\<lparr>lh_n := lh_n h + 1\<rparr>))]),
       release LogLock])))))"

section \<open>Sequences of disk writes\<close>

definition apply_writes :: "('k \<times> 'v) list \<Rightarrow> ('k \<Rightarrow> 'v) \<Rightarrow> 'k \<Rightarrow> 'v" where
  "apply_writes ws = fold (\<lambda>(n, d) D. D(n := d)) ws"

lemma apply_writes_simps [simp]:
  "apply_writes [] D = D" "apply_writes ((n, d) # ws) D = apply_writes ws (D(n := d))"
  "apply_writes (us @ ws) D = apply_writes ws (apply_writes us D)"
  by (simp_all add: apply_writes_def)

lemma apply_writes_other: "n \<notin> fst ` set ws \<Longrightarrow> apply_writes ws D n = D n"
  by (induction ws arbitrary: D) (auto simp: apply_writes_def)

text \<open>Writes to distinct places, listed by index.\<close>

lemma apply_writes_map:
  assumes "inj_on f {..<k}"
  shows "apply_writes (map (\<lambda>i. (f i, g i)) [0..<k]) D n = (if \<exists>i<k. f i = n then g (inv_into {..<k} f n) else D n)"
  using assms
proof (induction k)
  case 0
  then show ?case by simp
next
  case (Suc k)
  have inj: "inj_on f {..<k}" using Suc.prems by (rule inj_on_subset) auto
  have inv: "inv_into {..<Suc k} f (f i) = i" if "i < Suc k" for i
    using that by (intro inv_into_f_f [OF Suc.prems]) simp
  have inv': "inv_into {..<k} f (f i) = i" if "i < k" for i
    using that by (intro inv_into_f_f [OF inj]) simp
  show ?case
  proof (cases "f k = n")
    case True
    then show ?thesis using inv [of k] by auto
  next
    case False
    have "(\<exists>i<Suc k. f i = n) \<longleftrightarrow> (\<exists>i<k. f i = n)" using False by (auto simp: less_Suc_eq)
    moreover have "inv_into {..<Suc k} f n = inv_into {..<k} f n" if "\<exists>i<k. f i = n"
      using that inv inv' by (metis less_SucI)
    ultimately show ?thesis using Suc.IH [OF inj] False by auto
  qed
qed

lemma apply_writes_map_other:
  "(\<And>i. i < k \<Longrightarrow> f i \<noteq> n) \<Longrightarrow> apply_writes (map (\<lambda>i. (f i, g i)) [0..<k]) D n = D n"
  by (induction k) auto

lemma apply_writes_at:
  "inj_on f {..<k} \<Longrightarrow> i < k \<Longrightarrow> apply_writes (map (\<lambda>i. (f i, g i)) [0..<k]) D (f i) = g i"
  using inv_into_f_f [of f "{..<k}" i] by (auto simp: apply_writes_map)

text \<open>The cache after blocks have been changed and written through.\<close>

definition a_done :: "(u32 \<times> byte list) list \<Rightarrow> acache \<Rightarrow> acache" where
  "a_done ws a = a\<lparr>a_view := apply_writes ws (a_view a), a_disk := apply_writes ws (a_disk a), a_writes := a_writes a @ ws\<rparr>"

lemma a_done_simps [simp]:
  "a_done [] a = a" "a_done us (a_done ws a) = a_done (ws @ us) a" "a_rc (a_done ws a) = a_rc a" "a_lk (a_done ws a) = a_lk a"
  "a_used (a_done ws a) = a_used a"
  by (simp_all add: a_done_def a_used_def)

section \<open>The loops of the log\<close>

definition log_area :: "logstate \<Rightarrow> u32 set" where
  "log_area l = {l_start l + of_nat j |j. j \<le> nat LOGSIZE}"

abbreviation home :: "logstate \<Rightarrow> nat \<Rightarrow> u32" where "home l \<equiv> lh_block (l_lh l)"

text \<open>The blocks logged: at most \<open>LOGSIZE\<close>, each once, and none in the log area.\<close>

definition log_ok :: "logstate \<Rightarrow> nat \<Rightarrow> bool" where
  "log_ok l n \<longleftrightarrow> l_dev l = ROOTDEV \<and> n \<le> nat LOGSIZE \<and> inj_on (home l) {..<n} \<and> (\<forall>i<n. home l i \<notin> log_area l)"

lemma LOGSIZE_30: "nat LOGSIZE = 30" "LOGSIZE = 30"
  by (simp_all add: LOGSIZE_def MAXOPBLOCKS_def)

lemma slot_area: "i < nat LOGSIZE \<Longrightarrow> log_slot l i \<in> log_area l"
  unfolding log_slot_def log_area_def by (auto intro!: exI [of _ "Suc i"])

lemma start_area: "l_start l \<in> log_area l"
  unfolding log_area_def by (auto intro!: exI [of _ 0])

lemma of_nat_u32_inj: "i < 2 ^ 32 \<Longrightarrow> j < 2 ^ 32 \<Longrightarrow> (of_nat i :: u32) = of_nat j \<longleftrightarrow> i = j"
  by (simp add: word_unat_eq_iff unat_of_nat)

lemma slot_inj_on: "n \<le> nat LOGSIZE \<Longrightarrow> inj_on (log_slot l) {..<n}"
  by (rule inj_onI) (auto simp: log_slot_def LOGSIZE_30 of_nat_u32_inj)

lemma slot_not_start: "i < nat LOGSIZE \<Longrightarrow> log_slot l i \<noteq> l_start l"
proof -
  assume "i < nat LOGSIZE"
  then have "(of_nat (Suc i) :: u32) \<noteq> of_nat 0" by (subst of_nat_u32_inj) (simp_all add: LOGSIZE_30)
  then show ?thesis by (simp add: log_slot_def add.assoc add.commute)
qed

lemma bio_frame_log: "bio_frame p s t \<Longrightarrow> log t = log s"
proof -
  assume "bio_frame p s t"
  then have "t = s\<lparr>bufs := bufs t, sleeplocks := sleeplocks t, procs := procs t, disk := disk t, disk_writes := disk_writes t\<rparr>"
    by (simp only: bio_frame_def)
  from arg_cong [OF this, of log] show ?thesis by simp
qed

lemma install_one_over:
  "l_dev (log s) = ROOTDEV \<Longrightarrow>
     install_one r i s = bc.install_over (\<not> r) (log_slot (log s) i) (home (log s) i) s"
  by (simp add: install_one_def bc.install_over_def exec_simps)

lemma write_log_one_over:
  "l_dev (log s) = ROOTDEV \<Longrightarrow> write_log_one i s = bc.copy_over (log_slot (log s) i) (home (log s) i) s"
  by (simp add: write_log_one_def bc.copy_over_def exec_simps)

text \<open>No reference count is near its limit.\<close>

definition rc_small :: "acache \<Rightarrow> bool" where
  "rc_small a \<longleftrightarrow> (\<forall>n. a_rc a n + 1 < 2 ^ 32)"

lemma rc_small_done [simp]: "rc_small (a_done ws a) = rc_small a"
  by (simp add: rc_small_def)

definition logged :: "logstate \<Rightarrow> (u32 \<Rightarrow> byte list) \<Rightarrow> nat \<Rightarrow> (u32 \<times> byte list) list" where
  "logged l v k = map (\<lambda>i. (log_slot l i, v (home l i))) [0..<k]"

lemma logged_Suc: "logged l v (Suc k) = logged l v k @ [(log_slot l k, v (home l k))]"
  by (simp add: logged_def)

lemma logged_area: "k \<le> nat LOGSIZE \<Longrightarrow> fst ` set (logged l v k) \<subseteq> log_area l"
  using slot_area by (fastforce simp: logged_def)

lemma start_not_logged: "n \<le> nat LOGSIZE \<Longrightarrow> l_start l \<notin> fst ` set (logged l v n)"
proof
  assume n: "n \<le> nat LOGSIZE" and "l_start l \<in> fst ` set (logged l v n)"
  then obtain i where "i < n" "l_start l = log_slot l i" by (auto simp: logged_def)
  then show False using slot_not_start [of i l] n by simp
qed

lemma write_log_ok:
  assumes R: "bcrel p s a" and l: "log_ok (log s) n" "n = nat (lh_n (l_lh (log s)))"
    and a: "a_lk a = {}" "rc_small a" "card (a_used a) < NBUF" "\<And>i. i < n \<Longrightarrow> 0 < a_rc a (home (log s) i)"
  shows "\<exists>t. write_log s = Ret () t \<and> bcrel p t (a_done (logged (log s) (a_view a) n) a) \<and> bio_frame p s t"
proof -
  let ?l = "log s"
  let ?I = "\<lambda>k t. bcrel p t (a_done (logged ?l (a_view a) k) a) \<and> bio_frame p s t"
  have "\<exists>u. write_log_one k t = Ret () u \<and> ?I (Suc k) u" if k: "k < n" and I: "?I k t" for k t
  proof -
    let ?x = "log_slot ?l k" and ?y = "home ?l k" and ?a = "a_done (logged ?l (a_view a) k) a"
    have lt: "log t = ?l" using I by (auto dest: bio_frame_log)
    have kl: "k < nat LOGSIZE" using k l(1) by (simp add: log_ok_def)
    have y: "?y \<notin> log_area ?l" using k l(1) by (simp add: log_ok_def)
    then have xy: "?x \<noteq> ?y" using slot_area [OF kl] by metis
    have v: "a_view ?a ?y = a_view a ?y"
      using y logged_area [of k ?l] kl by (auto simp: a_done_def intro!: apply_writes_other)
    have "\<exists>u. bc.copy_over ?x ?y t = Ret () u \<and> bcrel p u (bc.a_copied ?x ?y ?a) \<and> bio_frame p t u"
      using I xy a k by (intro bc.copy_over_ok) (auto simp: rc_small_def)
    moreover have "bc.a_copied ?x ?y ?a = a_done (logged ?l (a_view a) (Suc k)) a"
      using v by (simp add: bc.a_copied_def logged_Suc a_done_def)
    ultimately show ?thesis
      using write_log_one_over [of t k] lt l(1) I bio_frame_trans by (auto simp: log_ok_def)
  qed
  from kfor_inv [of n ?I, OF this] show ?thesis
    using R l(2) by (auto simp: write_log_def exec_simps logged_def)
qed

lemma write_head_ok:
  assumes R: "bcrel p s a" and l: "l_dev (log s) = ROOTDEV"
    and a: "a_lk a = {}" "rc_small a" "card (a_used a) < NBUF"
  shows "\<exists>t. write_head s = Ret () t \<and>
    bcrel p t (a_done [(l_start (log s), head_put (l_lh (log s)) (a_view a (l_start (log s))))] a) \<and> bio_frame p s t"
  using bc.rewrite_ok [OF R, of "l_start (log s)" "head_put (l_lh (log s))"] l a
  by (simp add: write_head_def exec_simps rc_small_def a_done_def)

text \<open>The cache after the logged blocks have been installed; pins go when a commit installs them.\<close>

definition installed :: "logstate \<Rightarrow> (u32 \<Rightarrow> byte list) \<Rightarrow> nat \<Rightarrow> (u32 \<times> byte list) list" where
  "installed l v k = map (\<lambda>i. (home l i, v (log_slot l i))) [0..<k]"

definition a_inst :: "bool \<Rightarrow> logstate \<Rightarrow> nat \<Rightarrow> acache \<Rightarrow> acache" where
  "a_inst r l k a = (a_done (installed l (a_view a) k) a)
     \<lparr>a_rc := \<lambda>n. a_rc a n - (if \<not> r \<and> n \<in> home l ` {..<k} then 1 else 0)\<rparr>"

lemma a_inst_0 [simp]: "a_inst r l 0 a = a"
  by (simp add: a_inst_def installed_def)

lemma a_inst_simps [simp]:
  "a_lk (a_inst r l k a) = a_lk a"
  "a_view (a_inst r l k a) = apply_writes (installed l (a_view a) k) (a_view a)"
  "a_disk (a_inst r l k a) = apply_writes (installed l (a_view a) k) (a_disk a)"
  "a_writes (a_inst r l k a) = a_writes a @ installed l (a_view a) k"
  by (simp_all add: a_inst_def a_done_def)

lemma a_used_inst: "a_used (a_inst r l k a) \<subseteq> a_used a"
  by (auto simp: a_used_def a_inst_def)

lemma rc_small_inst: "rc_small a \<Longrightarrow> rc_small (a_inst r l k a)"
  unfolding rc_small_def a_inst_def by (metis (no_types, lifting) acache.select_convs(2) acache.surjective acache.update_convs(2) add_le_mono1 diff_le_self le_less_trans)

lemma card_used_inst: "card (a_used (a_inst r l k a)) \<le> card (a_used a)"
  by (rule card_mono [OF _ a_used_inst]) simp

lemma a_rc_inst_next:
  "inj_on (home l) {..<n} \<Longrightarrow> k < n \<Longrightarrow> a_rc (a_inst r l k a) (home l k) = a_rc a (home l k)"
  by (auto simp: a_inst_def dest: inj_onD)

lemma view_inst_slot:
  assumes "log_ok l n" "k \<le> n" "i < n"
  shows "a_view (a_inst r l k a) (log_slot l i) = a_view a (log_slot l i)"
proof -
  have "log_slot l i \<in> log_area l" using assms by (intro slot_area) (simp add: log_ok_def)
  moreover have "home l j \<notin> log_area l" if "j < k" for j
    using that assms by (auto simp: log_ok_def)
  ultimately have "log_slot l i \<notin> fst ` set (installed l (a_view a) k)" by (fastforce simp: installed_def)
  then show ?thesis by (simp add: apply_writes_other)
qed

lemma a_inst_Suc:
  assumes "log_ok l n" "k < n"
  shows "bc.a_installed (\<not> r) (log_slot l k) (home l k) (a_inst r l k a) = a_inst r l (Suc k) a"
proof -
  have v: "a_view (a_inst r l k a) (log_slot l k) = a_view a (log_slot l k)"
    using assms by (intro view_inst_slot) auto
  have "home l k \<notin> home l ` {..<k}" using assms by (auto simp: log_ok_def dest: inj_onD)
  moreover have "{..<Suc k} = insert k {..<k}" by (simp add: lessThan_Suc)
  ultimately show ?thesis
    using v by (intro acache.equality)
      (auto simp: bc.a_installed_def a_inst_def installed_def a_done_def fun_eq_iff lessThan_Suc)
qed

lemma install_trans_ok:
  assumes R: "bcrel p s a" and l: "log_ok (log s) n" "n = nat (lh_n (l_lh (log s)))"
    and a: "a_lk a = {}" "rc_small a" "card (a_used a) + of_bool r < NBUF"
      "\<And>i. i < n \<Longrightarrow> \<not> r \<Longrightarrow> 0 < a_rc a (home (log s) i)"
  shows "\<exists>t. install_trans r s = Ret () t \<and> bcrel p t (a_inst r (log s) n a) \<and> bio_frame p s t"
proof -
  let ?l = "log s"
  let ?I = "\<lambda>k t. bcrel p t (a_inst r ?l k a) \<and> bio_frame p s t"
  have "\<exists>u. install_one r k t = Ret () u \<and> ?I (Suc k) u" if k: "k < n" and I: "?I k t" for k t
  proof -
    let ?x = "log_slot ?l k" and ?y = "home ?l k" and ?a = "a_inst r ?l k a"
    have lt: "log t = ?l" using I by (auto dest: bio_frame_log)
    have kl: "k < nat LOGSIZE" and y: "?y \<notin> log_area ?l" and inj: "inj_on (home ?l) {..<n}"
      using k l(1) by (simp_all add: log_ok_def)
    have xy: "?x \<noteq> ?y" using slot_area [OF kl] y by metis
    have rc: "a_rc ?a ?y = a_rc a ?y" using inj k by (rule a_rc_inst_next)
    have used: "card (a_used ?a) < NBUF" and used1: "r \<Longrightarrow> card (insert ?x (a_used ?a)) < NBUF"
      using a(3) card_used_inst [of r ?l k a] by (simp_all add: card_insert_if)
    have "\<exists>u. bc.install_over (\<not> r) ?x ?y t = Ret () u \<and> bcrel p u (bc.a_installed (\<not> r) ?x ?y ?a) \<and> bio_frame p t u"
    proof (rule bc.install_over_ok)
      have sm: "a_rc ?a m + 1 < 2 ^ 32" for m
        using rc_small_inst [OF a(2), of r ?l k] by (simp only: rc_small_def)
      show "a_rc ?a ?x + 1 < 2 ^ 32" "a_rc ?a ?y + 1 < 2 ^ 32" by (rule sm)+
      show "0 < a_rc ?a ?x \<or> card (a_used ?a) < NBUF" using used by (rule disjI2)
      show "0 < a_rc ?a ?y \<or> card (insert ?x (a_used ?a)) < NBUF" "\<not> r \<longrightarrow> 0 < a_rc ?a ?y"
        using used1 a(4) [OF k] rc by (cases r; simp)+
    qed (use I xy a(1) in simp_all)
    then show ?thesis
      using install_one_over [of t r k] lt l(1) I bio_frame_trans a_inst_Suc [OF l(1) k] by (auto simp: log_ok_def)
  qed
  from kfor_inv [of n ?I, OF this] show ?thesis
    using R l(2) by (auto simp: install_trans_def exec_simps)
qed

lemma bcrel_upd_log [simp]: "bcrel p (upd_log f s) a = bcrel p s a"
  by (simp add: bcrel_def) (simp add: upd_log_def mypid_def buf_locks_def)

lemma bcrel_upd_lh [simp]: "bcrel p (upd_lh f s) a = bcrel p s a"
  by (simp add: upd_lh_def)

lemma log_upd_lh [simp]: "log (upd_lh f s) = (log s)\<lparr>l_lh := f (l_lh (log s))\<rparr>"
  by (simp add: upd_lh_def upd_log_def)

lemma bio_frame_upd_lh: "bio_frame p s t \<Longrightarrow> bio_frame p (upd_lh f s) (upd_lh f t)"
proof -
  assume f: "bio_frame p s t"
  then have t: "t = s\<lparr>bufs := bufs t, sleeplocks := sleeplocks t, procs := procs t, disk := disk t, disk_writes := disk_writes t\<rparr>"
    by (simp only: bio_frame_def)
  have "upd_lh f t = (upd_lh f s)\<lparr>bufs := bufs t, sleeplocks := sleeplocks t, procs := procs t, disk := disk t, disk_writes := disk_writes t\<rparr>"
    by (subst t) (simp add: upd_lh_def upd_log_def)
  with f show ?thesis by (simp add: bio_frame_def upd_lh_def upd_log_def)
qed

section \<open>The header block\<close>

lemma of_le_replicate_0 [simp]: "of_le (replicate n 0) = 0"
  by (induction n) simp_all

lemma head_put_get:
  assumes "length d = BSIZE" "0 \<le> lh_n h" "lh_n h \<le> LOGSIZE"
  shows "length (head_put h d) = BSIZE" "head_n (head_put h d) = lh_n h"
    "i < nat (lh_n h) \<Longrightarrow> head_block (head_put h d) i = lh_block h i"
proof -
  let ?d = "put32 d 0 (word_of_int (lh_n h))"
  have len: "length ?d = BSIZE" using assms(1) by (simp add: BSIZE_def)
  have k: "4 + 4 * nat (lh_n h) \<le> length ?d" using assms(2,3) len by (simp add: BSIZE_def LOGSIZE_30)
  have "get32 ?d 0 = word_of_int (lh_n h)" using assms(1) by (intro get_put_same) (simp_all add: BSIZE_def)
  moreover have "sint (word_of_int (lh_n h) :: u32) = lh_n h"
    using assms(2,3) by (simp add: signed_of_int signed_take_bit_int_eq_self LOGSIZE_30)
  ultimately show "length (head_put h d) = BSIZE" "head_n (head_put h d) = lh_n h"
    "i < nat (lh_n h) \<Longrightarrow> head_block (head_put h d) i = lh_block h i"
    using fold_put32_get [OF k] length_fold_put32 [OF k] len
    by (simp_all add: head_put_def head_n_def head_block_def fold_put32_other [OF k])
qed

lemma head_put_none [simp]: "lh_n h = 0 \<Longrightarrow> head_put h d = put32 d 0 0"
  by (simp add: head_put_def)

lemma head_n_none: "4 \<le> length d \<Longrightarrow> head_n (put32 d 0 0) = 0"
  by (simp add: head_n_def get_put_same)

section \<open>Committing\<close>

text \<open>The disk writes of a commit, in order.\<close>

definition commit_writes :: "logstate \<Rightarrow> (u32 \<Rightarrow> byte list) \<Rightarrow> (u32 \<times> byte list) list" where
  "commit_writes l v = (let n = nat (lh_n (l_lh l)); h = head_put (l_lh l) (v (l_start l)) in
     logged l v n @ [(l_start l, h)] @ map (\<lambda>i. (home l i, v (home l i))) [0..<n] @ [(l_start l, put32 h 0 0)])"

lemma log_area_start: "log_ok l n \<Longrightarrow> i < n \<Longrightarrow> home l i \<noteq> l_start l"
  using start_area [of l] by (auto simp: log_ok_def)

lemma start_not_installed: "log_ok l n \<Longrightarrow> l_start l \<notin> fst ` set (installed l v n)"
proof
  assume ok: "log_ok l n" and "l_start l \<in> fst ` set (installed l v n)"
  then obtain i where "i < n" "l_start l = home l i" by (auto simp: installed_def)
  then show False using log_area_start [OF ok, of i] by simp
qed

lemma commit_ok:
  assumes R: "bcrel p s a" and l: "log_ok (log s) n" "n = nat (lh_n (l_lh (log s)))" "0 < n"
    and a: "a_lk a = {}" "rc_small a" "card (a_used a) < NBUF" "\<And>i. i < n \<Longrightarrow> 0 < a_rc a (home (log s) i)"
  shows "\<exists>t. commit s = Ret () t \<and>
    bcrel p t ((a_done (commit_writes (log s) (a_view a)) a)
      \<lparr>a_rc := \<lambda>m. a_rc a m - (if m \<in> home (log s) ` {..<n} then 1 else 0)\<rparr>) \<and>
    bio_frame p (upd_lh (\<lambda>h. h\<lparr>lh_n := 0\<rparr>) s) t"
proof -
  let ?l = "log s" and ?v = "a_view a"
  let ?st = "l_start ?l"
  let ?h = "head_put (l_lh ?l) (?v ?st)"
  have dev: "l_dev ?l = ROOTDEV" and nL: "n \<le> nat LOGSIZE" using l(1) by (simp_all add: log_ok_def)
  let ?a1 = "a_done (logged ?l ?v n) a"
  from write_log_ok [OF R l(1,2) a] obtain s1 where s1: "write_log s = Ret () s1" "bcrel p s1 ?a1" "bio_frame p s s1"
    by blast
  have st1: "a_view ?a1 ?st = ?v ?st"
    using start_not_logged [OF nL] by (simp add: a_done_def apply_writes_other)
  have log1: "log s1 = ?l" using s1(3) by (rule bio_frame_log)
  let ?a2 = "a_done [(?st, ?h)] ?a1"
  from write_head_ok [OF s1(2)] obtain s2 where s2: "write_head s1 = Ret () s2" "bcrel p s2 ?a2" "bio_frame p s1 s2"
    using dev log1 a st1 by auto
  have log2: "log s2 = ?l" using s2(3) log1 by (auto dest: bio_frame_log)
  let ?a3 = "a_inst False ?l n ?a2"
  from install_trans_ok [OF s2(2), of n False] obtain s3 where s3: "install_trans False s2 = Ret () s3" "bcrel p s3 ?a3" "bio_frame p s2 s3"
    using log2 l a by auto
  have slots: "a_view ?a2 (log_slot ?l i) = ?v (home ?l i)" if "i < n" for i
    using that slot_not_start [of i ?l] nL slot_inj_on [OF nL, of ?l]
    by (simp add: a_done_def logged_def apply_writes_at [where f = "log_slot ?l"])
  have inst: "installed ?l (a_view ?a2) n = map (\<lambda>i. (home ?l i, ?v (home ?l i))) [0..<n]"
    using slots by (simp add: installed_def)
  have st3: "a_view ?a3 ?st = ?h"
  proof -
    have "a_view ?a3 ?st = a_view ?a2 ?st"
      using start_not_installed [OF l(1), of "a_view ?a2"] by (simp add: apply_writes_other)
    then show ?thesis by (simp add: a_done_def)
  qed
  let ?s3 = "upd_lh (\<lambda>h. h\<lparr>lh_n := 0\<rparr>) s3"
  let ?a4 = "a_done [(?st, put32 ?h 0 0)] ?a3"
  have log3: "log s3 = ?l" using s3(3) log2 by (auto dest: bio_frame_log)
  have R3: "bcrel p ?s3 ?a3" using s3(2) by simp
  have "card (a_used ?a3) < NBUF" using card_used_inst [of False ?l n ?a2] a(3) by simp
  moreover have "rc_small ?a3" by (rule rc_small_inst) (simp add: a)
  ultimately obtain t where t: "write_head ?s3 = Ret () t" "bcrel p t ?a4" "bio_frame p ?s3 t"
    using write_head_ok [OF R3] dev log3 a st3 by auto
  have "bio_frame p s s3" using s1(3) s2(3) s3(3) bio_frame_trans by blast
  then have "bio_frame p (upd_lh (\<lambda>h. h\<lparr>lh_n := 0\<rparr>) s) t" using t(3) bio_frame_upd_lh bio_frame_trans by blast
  moreover have "commit s = Ret () t"
    using s1(1) s2(1) s3(1) t(1) l(2,3) by (simp add: commit_def exec_simps)
  moreover have "?a4 = (a_done (commit_writes ?l ?v) a)\<lparr>a_rc := \<lambda>m. a_rc a m - (if m \<in> home ?l ` {..<n} then 1 else 0)\<rparr>"
    using inst l(2) by (simp add: a_inst_def a_done_def commit_writes_def Let_def)
  ultimately show ?thesis using t(2) by auto
qed

section \<open>Recovery\<close>

text \<open>The log after its header has been read from block contents \<open>d\<close>.\<close>

definition read_log :: "byte list \<Rightarrow> logstate \<Rightarrow> logstate" where
  "read_log d l = l\<lparr>l_lh := \<lparr>lh_n = head_n d,
     lh_block = (\<lambda>i. if i < nat (head_n d) then head_block d i else lh_block (l_lh l) i)\<rparr>\<rparr>"

lemma read_log_simps [simp]:
  "l_start (read_log d l) = l_start l" "l_dev (read_log d l) = l_dev l" "lh_n (l_lh (read_log d l)) = head_n d"
  "log_slot (read_log d l) = log_slot l" "log_area (read_log d l) = log_area l"
  "i < nat (head_n d) \<Longrightarrow> home (read_log d l) i = head_block d i"
  by (auto simp: read_log_def log_slot_def log_area_def fun_eq_iff)

lemma read_blocks:
  "kfor [0..<k] (\<lambda>i. kmod (upd_lh (\<lambda>h. h\<lparr>lh_block := (lh_block h)(i := g i)\<rparr>))) s =
     Ret () (upd_lh (\<lambda>h. h\<lparr>lh_block := \<lambda>i. if i < k then g i else lh_block h i\<rparr>) s)"
proof (induction k)
  case 0
  then show ?case by (simp add: exec_simps upd_lh_def upd_log_def)
next
  case (Suc k)
  have "(\<lambda>i. if i < k then g i else f i)(k := g k) = (\<lambda>i. if i < Suc k then g i else f i)" for f :: "nat \<Rightarrow> u32"
    by (auto simp: fun_eq_iff less_Suc_eq)
  then have "upd_lh (\<lambda>h. h\<lparr>lh_block := (lh_block h)(k := g k)\<rparr>)
      (upd_lh (\<lambda>h. h\<lparr>lh_block := \<lambda>i. if i < k then g i else lh_block h i\<rparr>) s) =
      upd_lh (\<lambda>h. h\<lparr>lh_block := \<lambda>i. if i < Suc k then g i else lh_block h i\<rparr>) s"
    by (simp add: upd_lh_def upd_log_def del: fun_upd_apply)
  with Suc show ?case by (simp add: kfor_append exec_simps del: fun_upd_apply)
qed

lemma read_head_ok:
  assumes R: "bcrel p s a" and l: "l_dev (log s) = ROOTDEV"
    and a: "a_lk a = {}" "rc_small a" "card (a_used a) < NBUF"
  shows "\<exists>t. read_head s = Ret () t \<and> bcrel p t a \<and> bio_frame p (upd_log (read_log (a_view a (l_start (log s)))) s) t"
proof -
  let ?x = "l_start (log s)"
  let ?d = "a_view a ?x"
  obtain b u where u: "bread ROOTDEV ?x s = Ret b u" "bcrel p u (a_get ?x a)" "holds (bufs u) b ?x" "bio_frame p s u"
    using bc.read_ok [OF R, of ?x] a by (auto simp: rc_small_def)
  have d: "b_data (bufs u b) = ?d" using bc.data_ok [OF u(2,3)] by (simp add: a_get_def)
  let ?u = "upd_log (read_log ?d) u"
  have R': "bcrel p ?u (a_get ?x a)" using u(2) by simp
  moreover have "holds (bufs ?u) b ?x" using u(3) by (simp add: upd_log_def)
  moreover have "a_rc (a_get ?x a) ?x = 1 \<longrightarrow> a_view (a_get ?x a) ?x = a_disk (a_get ?x a) ?x"
    using bc.clean [OF R, of ?x] by (simp add: a_get_def)
  ultimately obtain t where t: "brelse b ?u = Ret () t" "bcrel p t (a_put ?x (a_get ?x a))" "bio_frame p ?u t"
    using bc.put_ok [OF R'] by fastforce
  have "a_put ?x (a_get ?x a) = a" using a(1) by (intro acache.equality) (auto simp: acache_defs)
  moreover have "bio_frame p (upd_log (read_log ?d) s) ?u"
  proof -
    have "upd_log (read_log ?d) w = upd_lh (\<lambda>h. l_lh (read_log ?d (log w))) w" for w :: kworld
      by (simp add: upd_lh_def upd_log_def read_log_def)
    moreover have "log u = log s" using u(4) by (rule bio_frame_log)
    ultimately show ?thesis using bio_frame_upd_lh [OF u(4)] by metis
  qed
  moreover have "read_head s = Ret () t"
  proof -
    have "upd_lh (\<lambda>h. h\<lparr>lh_block := \<lambda>i. if i < nat (head_n ?d) then head_block ?d i else lh_block h i\<rparr>)
        (upd_lh (\<lambda>h. h\<lparr>lh_n := head_n ?d\<rparr>) u) = ?u"
      by (intro kworld.equality logstate.equality logheader.equality)
        (simp_all add: upd_lh_def upd_log_def read_log_def cong: if_cong)
    then show ?thesis using u(1) l d t(1) by (simp add: read_head_def exec_simps read_blocks)
  qed
  ultimately show ?thesis using t(2,3) bio_frame_trans by auto
qed

text \<open>What recovery writes, by the contents of the disk alone.\<close>

definition recovery_writes :: "u32 \<Rightarrow> (u32 \<Rightarrow> byte list) \<Rightarrow> (u32 \<times> byte list) list" where
  "recovery_writes st D =
     map (\<lambda>i. (head_block (D st) i, D (st + of_nat i + 1))) [0..<nat (head_n (D st))] @ [(st, put32 (D st) 0 0)]"

lemma a_inst_True: "a_inst True l k a = a_done (installed l (a_view a) k) a"
  by (intro acache.equality) (simp_all add: a_inst_def a_done_def)

lemma recover_ok:
  assumes R: "bcrel p s a" and l: "l_dev (log s) = ROOTDEV"
    and ok: "log_ok (read_log (a_view a (l_start (log s))) (log s)) (nat (head_n (a_view a (l_start (log s)))))"
    and a: "a_lk a = {}" "rc_small a" "card (a_used a) + 1 < NBUF"
  shows "\<exists>t. recover_from_log s = Ret () t \<and> bcrel p t (a_done (recovery_writes (l_start (log s)) (a_view a)) a) \<and>
    lh_n (l_lh (log t)) = 0"
proof -
  let ?st = "l_start (log s)"
  let ?d = "a_view a ?st"
  let ?l = "read_log ?d (log s)" and ?n = "nat (head_n ?d)"
  obtain s1 where s1: "read_head s = Ret () s1" "bcrel p s1 a" "bio_frame p (upd_log (read_log ?d) s) s1"
    using read_head_ok [OF R l] a by auto
  have log1: "log s1 = ?l" using bio_frame_log [OF s1(3)] by (simp add: upd_log_def)
  let ?a2 = "a_done (installed ?l (a_view a) ?n) a"
  obtain s2 where s2: "install_trans True s1 = Ret () s2" "bcrel p s2 ?a2" "bio_frame p s1 s2"
    using install_trans_ok [OF s1(2), of ?n True, unfolded log1, OF ok] a by (auto simp: a_inst_True)
  have log2: "log s2 = ?l" using bio_frame_log [OF s2(3)] log1 by simp
  have st2: "a_view ?a2 ?st = ?d"
    using start_not_installed [OF ok, of "a_view a"] by (simp add: a_done_def apply_writes_other)
  let ?s2 = "upd_lh (\<lambda>h. h\<lparr>lh_n := 0\<rparr>) s2"
  have R2: "bcrel p ?s2 ?a2" using s2(2) by simp
  obtain t where t: "write_head ?s2 = Ret () t" "bcrel p t (a_done [(?st, put32 ?d 0 0)] ?a2)" "bio_frame p ?s2 t"
    using write_head_ok [OF R2] a log2 l st2 by auto
  have "lh_n (l_lh (log t)) = 0" using bio_frame_log [OF t(3)] by simp
  moreover have "installed ?l (a_view a) ?n @ [(?st, put32 ?d 0 0)] = recovery_writes ?st (a_view a)"
    by (simp add: installed_def recovery_writes_def log_slot_def)
  ultimately show ?thesis using s1(1) s2(1) t(1,2) by (auto simp: recover_from_log_def exec_simps)
qed

section \<open>Crashes\<close>

text \<open>
  The disk as recovery finds it: a header that lists at most \<open>LOGSIZE\<close> blocks outside of the log, each
  once.
\<close>

definition log_blocks :: "u32 \<Rightarrow> u32 set" where
  "log_blocks st = {st + of_nat j |j. j \<le> nat LOGSIZE}"

definition good_log :: "u32 \<Rightarrow> (u32 \<Rightarrow> byte list) \<Rightarrow> bool" where
  "good_log st D \<longleftrightarrow> length (D st) = BSIZE \<and> nat (head_n (D st)) \<le> nat LOGSIZE \<and>
     inj_on (head_block (D st)) {..<nat (head_n (D st))} \<and> (\<forall>i<nat (head_n (D st)). head_block (D st) i \<notin> log_blocks st)"

definition recovered :: "u32 \<Rightarrow> (u32 \<Rightarrow> byte list) \<Rightarrow> u32 \<Rightarrow> byte list" where
  "recovered st D = apply_writes (recovery_writes st D) D"

lemma log_area_blocks: "log_area l = log_blocks (l_start l)"
  by (simp add: log_area_def log_blocks_def)

lemma good_log_ok:
  "good_log (l_start l) D \<Longrightarrow> l_dev l = ROOTDEV \<Longrightarrow> log_ok (read_log (D (l_start l)) l) (nat (head_n (D (l_start l))))"
  by (auto simp: good_log_def log_ok_def log_area_blocks inj_on_def)

lemma start_blocks: "st \<in> log_blocks st"
  unfolding log_blocks_def by (auto intro!: exI [of _ 0])

lemma slot_blocks: "i < nat LOGSIZE \<Longrightarrow> st + of_nat i + 1 \<in> log_blocks st"
  unfolding log_blocks_def by (auto intro!: exI [of _ "Suc i"])

lemma recovered_other:
  assumes "good_log st D" "m \<noteq> st" "\<And>i. i < nat (head_n (D st)) \<Longrightarrow> head_block (D st) i \<noteq> m"
  shows "recovered st D m = D m"
  using assms by (simp add: recovered_def recovery_writes_def apply_writes_map_other)

lemma recovered_home:
  assumes "good_log st D" "i < nat (head_n (D st))"
  shows "recovered st D (head_block (D st) i) = D (st + of_nat i + 1)"
  using assms start_blocks [of st]
  by (auto simp: recovered_def recovery_writes_def good_log_def apply_writes_at [where f = "head_block (D st)"])

text \<open>Two disks with the same header and slots recover alike where they agree outside the home blocks.\<close>

lemma recovered_cong:
  assumes D: "good_log st D" and E: "E st = D st" "\<And>i. i < nat (head_n (D st)) \<Longrightarrow> E (st + of_nat i + 1) = D (st + of_nat i + 1)"
    and m: "m \<noteq> st" "(\<And>i. i < nat (head_n (D st)) \<Longrightarrow> head_block (D st) i \<noteq> m) \<Longrightarrow> E m = D m"
  shows "recovered st E m = recovered st D m"
proof -
  have E': "good_log st E" using D E(1) by (simp add: good_log_def)
  show ?thesis
  proof (cases "\<exists>i<nat (head_n (D st)). head_block (D st) i = m")
    case True
    then obtain i where i: "i < nat (head_n (D st))" "m = head_block (D st) i" by blast
    then have "recovered st E m = E (st + of_nat i + 1)" using recovered_home [OF E', of i] E(1) by simp
    then show ?thesis using recovered_home [OF D i(1)] E(2) [OF i(1)] i(2) by simp
  next
    case False
    then have "recovered st D m = D m" using m(1) by (intro recovered_other [OF D]) auto
    moreover have "recovered st E m = E m" using m(1) False E(1) by (intro recovered_other [OF E']) auto
    ultimately show ?thesis using m(2) False by auto
  qed
qed

lemma recovered_empty: "head_n (D st) = 0 \<Longrightarrow> m \<noteq> st \<Longrightarrow> recovered st D m = D m"
  by (simp add: recovered_def recovery_writes_def)

lemma good_log_empty: "head_n (D st) = 0 \<Longrightarrow> length (D st) = BSIZE \<Longrightarrow> good_log st D"
  by (simp add: good_log_def)

lemma put_zero_header: "length d = BSIZE \<Longrightarrow> head_n (put32 d 0 0) = 0 \<and> length (put32 d 0 0) = BSIZE"
  by (simp add: head_n_none BSIZE_def)

text \<open>A crash during recovery: recovering again gives what the first recovery would have given.\<close>

lemma recovery_crash:
  assumes D: "good_log st D" and j: "j \<le> length (recovery_writes st D)"
  defines "E \<equiv> apply_writes (take j (recovery_writes st D)) D"
  shows "good_log st E" "m \<notin> log_blocks st \<Longrightarrow> recovered st E m = recovered st D m"
proof -
  let ?n = "nat (head_n (D st))"
  have n: "?n \<le> nat LOGSIZE" and off: "\<And>i. i < ?n \<Longrightarrow> head_block (D st) i \<notin> log_blocks st"
    using D by (simp_all add: good_log_def)
  have "good_log st E \<and> (m \<notin> log_blocks st \<longrightarrow> recovered st E m = recovered st D m)"
  proof (cases "j \<le> ?n")
    case True
    then have E: "E = apply_writes (map (\<lambda>i. (head_block (D st) i, D (st + of_nat i + 1))) [0..<j]) D"
      by (simp add: E_def recovery_writes_def take_map)
    have same: "E x = D x" if "\<And>i. i < ?n \<Longrightarrow> head_block (D st) i \<noteq> x" for x
      using that True unfolding E by (intro apply_writes_map_other) simp
    have "E st = D st" using off start_blocks [of st] by (intro same) metis
    moreover have "E (st + of_nat i + 1) = D (st + of_nat i + 1)" if "i < ?n" for i
      using off slot_blocks [of i st] that n by (intro same) fastforce
    ultimately show ?thesis using D same start_blocks [of st] by (auto intro!: recovered_cong simp: good_log_def)
  next
    case False
    then have E: "E = recovered st D" using j by (simp add: E_def recovered_def recovery_writes_def)
    have "E st = put32 (D st) 0 0" by (simp add: E recovered_def recovery_writes_def)
    then have "head_n (E st) = 0" "length (E st) = BSIZE" using D put_zero_header by (simp_all add: good_log_def)
    then show ?thesis using recovered_empty [of E st m] good_log_empty [of E st] start_blocks [of st] E by auto
  qed
  then show "good_log st E" "m \<notin> log_blocks st \<Longrightarrow> recovered st E m = recovered st D m" by auto
qed

text \<open>A crash during a commit, \<open>k\<close> of whose writes have reached the disk.\<close>

lemma commit_crash:
  assumes l: "log_ok l n" "n = nat (lh_n (l_lh l))" "0 \<le> lh_n (l_lh l)"
    and D: "head_n (D (l_start l)) = 0" "length (D (l_start l)) = BSIZE" "v (l_start l) = D (l_start l)"
    and k: "k \<le> length (commit_writes l v)"
  defines "E \<equiv> apply_writes (take k (commit_writes l v)) D"
  shows "good_log (l_start l) E"
    "m \<notin> log_area l \<Longrightarrow> recovered (l_start l) E m = (if n < k \<and> m \<in> home l ` {..<n} then v m else D m)"
proof -
  let ?st = "l_start l"
  let ?h = "head_put (l_lh l) (v ?st)"
  let ?P = "good_log ?st E \<and> (m \<notin> log_area l \<longrightarrow> recovered ?st E m = (if n < k \<and> m \<in> home l ` {..<n} then v m else D m))"
  have nL: "n \<le> nat LOGSIZE" and inj: "inj_on (home l) {..<n}" and off: "\<And>i. i < n \<Longrightarrow> home l i \<notin> log_area l"
    using l(1) by (simp_all add: log_ok_def)
  have lhn: "lh_n (l_lh l) \<le> LOGSIZE" using nL l(2,3) by (simp add: LOGSIZE_30)
  have hd: "length ?h = BSIZE" "head_n ?h = int n" "\<And>i. i < n \<Longrightarrow> head_block ?h i = home l i"
    using head_put_get [OF _ l(3) lhn, of "v ?st"] D l(2,3) by auto
  have mst: "m \<noteq> ?st" if "m \<notin> log_area l" using that start_area [of l] by auto
  let ?hs = "\<lambda>j. map (\<lambda>i. (home l i, v (home l i))) [0..<j]"
  have ws: "commit_writes l v = logged l v n @ [(?st, ?h)] @ ?hs n @ [(?st, put32 ?h 0 0)]"
    using l(2) by (simp add: commit_writes_def Let_def)
  have logd: "length (logged l v n) = n" "j \<le> n \<Longrightarrow> take j (logged l v n) = logged l v j" for j
    by (simp_all add: logged_def take_map)
  have off_log: "apply_writes (logged l v j) D x = D x" if "j \<le> n" "x \<notin> log_area l \<or> x = ?st" for j x
  proof (rule apply_writes_other)
    have j: "j \<le> nat LOGSIZE" using that(1) nL by simp
    from that(2) show "x \<notin> fst ` set (logged l v j)"
    proof
      assume "x \<notin> log_area l"
      then show ?thesis by (rule contra_subsetD [OF logged_area [OF j]])
    next
      assume "x = ?st"
      then show ?thesis by (simp only: start_not_logged [OF j] not_False_eq_True)
    qed
  qed
  consider "k \<le> n" | j where "k = Suc (n + j)" "j \<le> n" | "k = Suc (Suc (n + n))"
  proof -
    have "k \<le> Suc (Suc (n + n))" using k ws logd(1) by simp
    then consider "k \<le> n" | "n < k" "k \<le> Suc (n + n)" | "k = Suc (Suc (n + n))" by linarith
    then show thesis
    proof cases
      case 2
      then have "k = Suc (n + (k - Suc n))" "k - Suc n \<le> n" by auto
      then show thesis by (rule that(2))
    qed (use that in blast)+
  qed
  then have ?P
  proof cases
    case 1
    then have E: "E = apply_writes (logged l v k) D" using logd by (simp add: E_def ws)
    have "E ?st = D ?st" unfolding E using 1 by (intro off_log) auto
    then show ?thesis using D 1 mst recovered_empty [of E ?st m] good_log_empty [of E ?st] off_log [of k m] E by auto
  next
    case (2 j)
    let ?D1 = "(apply_writes (logged l v n) D)(?st := ?h)"
    have E: "E = apply_writes (?hs j) ?D1" using 2 logd by (simp add: E_def ws take_map)
    have keep: "E x = ?D1 x" if "x \<in> log_area l \<or> x \<notin> home l ` {..<n}" for x
      using that 2(2) off unfolding E by (intro apply_writes_map_other) auto
    have Est: "E ?st = ?h" using keep [of ?st] start_area [of l] by simp
    then have good: "good_log ?st E"
      using hd nL inj off by (auto simp: good_log_def log_area_blocks inj_on_def)
    have slot: "E (?st + of_nat i + 1) = v (home l i)" if "i < n" for i
    proof -
      have i: "i < nat LOGSIZE" using that nL by simp
      have "E (log_slot l i) = apply_writes (logged l v n) D (log_slot l i)"
        using keep [of "log_slot l i"] slot_area [OF i] slot_not_start [OF i, of l] by simp
      also have "\<dots> = v (home l i)"
        using that slot_inj_on [OF nL, of l] by (simp add: logged_def apply_writes_at [where f = "log_slot l"])
      finally show ?thesis by (simp add: log_slot_def)
    qed
    show ?thesis
    proof (cases "m \<in> home l ` {..<n}")
      case True
      then obtain i where "i < n" "m = home l i" by auto
      then show ?thesis using recovered_home [OF good, of i] slot [of i] good 2(1) Est hd by auto
    next
      case False
      then have "recovered ?st E m = E m" if "m \<noteq> ?st"
        using that Est hd by (intro recovered_other [OF good]) auto
      then show ?thesis using good mst keep [of m] off_log [of n m] False by auto
    qed
  next
    case 3
    let ?D2 = "apply_writes (?hs n) ((apply_writes (logged l v n) D)(?st := ?h))"
    have E: "E = ?D2(?st := put32 ?h 0 0)" using 3 logd by (simp add: E_def ws)
    have "head_n (E ?st) = 0" "length (E ?st) = BSIZE" using hd(1) put_zero_header by (simp_all add: E)
    then have "good_log ?st E" "m \<noteq> ?st \<Longrightarrow> recovered ?st E m = ?D2 m"
      using good_log_empty recovered_empty [of E ?st m] by (simp_all add: E)
    moreover have "?D2 m = (if m \<in> home l ` {..<n} then v m else D m)" if "m \<notin> log_area l"
    proof (cases "m \<in> home l ` {..<n}")
      case True
      then obtain i where "i < n" "m = home l i" by auto
      then show ?thesis using inj True by (simp add: apply_writes_at [where f = "home l"])
    next
      case False
      then have "?D2 m = ((apply_writes (logged l v n) D)(?st := ?h)) m" by (intro apply_writes_map_other) auto
      then show ?thesis using False that mst off_log [of n m] by simp
    qed
    ultimately show ?thesis using mst 3 by auto
  qed
  then show "good_log ?st E"
    "m \<notin> log_area l \<Longrightarrow> recovered ?st E m = (if n < k \<and> m \<in> home l ` {..<n} then v m else D m)" by auto
qed

section \<open>Collecting a transaction\<close>

lemma log_index_cases:
  assumes "0 \<le> lh_n h"
  shows "log_index h bn < nat (lh_n h) \<and> lh_block h (log_index h bn) = bn \<or>
    log_index h bn = nat (lh_n h) \<and> (\<forall>i<nat (lh_n h). lh_block h i \<noteq> bn)"
  by (auto simp: log_index_def first_index_Some first_index_None split: option.splits)

definition log_added :: "u32 \<Rightarrow> logheader \<Rightarrow> logheader" where
  "log_added bn h = (if bn \<in> lh_block h ` {..<nat (lh_n h)} then h
     else h\<lparr>lh_block := (lh_block h)(nat (lh_n h) := bn), lh_n := lh_n h + 1\<rparr>)"

lemma upd_lh_lock [simp]:
  "upd_lh f (take_lock lk s) = take_lock lk (upd_lh f s)" "settled (upd_lh f s) = settled s"
  "lock_free lk (upd_lh f s) = lock_free lk s"
  by (simp_all add: upd_lh_def)

lemma log_write_eq:
  assumes q: "quiet p s" and n: "0 \<le> lh_n (l_lh (log s))"
  shows "log_write b s =
    (let l = log s; h = l_lh l; bn = b_blockno (bufs s b) in
     if lh_n h \<ge> LOGSIZE \<or> lh_n h \<ge> l_size l - 1 then Panic ''too big a transaction''
     else if l_outstanding l < 1 then Panic ''log_write outside of trans''
     else Ret () (upd_lh (log_added bn)
       (if bn \<in> lh_block h ` {..<nat (lh_n h)} then s else upd_buf b (\<lambda>x. x\<lparr>b_refcnt := b_refcnt x + 1\<rparr>) s)))"
proof -
  let ?h = "l_lh (log s)" and ?bn = "b_blockno (bufs s b)"
  let ?i = "log_index ?h ?bn"
  have lk: "settled s" "lock_free LogLock s" "lock_free BcacheLock s" using quietD [OF q] by auto
  show ?thesis
  proof (cases "?bn \<in> lh_block ?h ` {..<nat (lh_n ?h)}")
    case True
    then have i: "?i < nat (lh_n ?h)" "lh_block ?h ?i = ?bn" using log_index_cases [OF n, of ?bn] by auto
    then have "(lh_block ?h)(?i := ?bn) = lh_block ?h" by auto
    then have same: "upd_lh (\<lambda>h. h\<lparr>lh_block := (lh_block h)(?i := ?bn)\<rparr>) s = upd_lh (log_added ?bn) s"
      using True by (simp add: upd_lh_def upd_log_def log_added_def del: fun_upd_apply)
    show ?thesis using lk i True same
      by (auto simp: log_write_def exec_simps lock_exec Let_def simp del: fun_upd_apply)
  next
    case False
    then have i: "?i = nat (lh_n ?h)" using log_index_cases [OF n, of ?bn] by (metis imageI lessThan_iff)
    have "upd_lh (\<lambda>h. h\<lparr>lh_n := lh_n h + 1\<rparr>) (upd_buf b f (upd_lh (\<lambda>h. h\<lparr>lh_block := (lh_block h)(?i := ?bn)\<rparr>) s)) =
        upd_lh (log_added ?bn) (upd_buf b f s)" for f
      using i False by (simp add: upd_lh_def upd_log_def upd_buf_def log_added_def del: fun_upd_apply)
    then show ?thesis using lk i False n
      by (auto simp: log_write_def bpin_def exec_simps lock_exec Let_def simp del: fun_upd_apply)
  qed
qed

section \<open>Correctness\<close>

text \<open>A machine in the middle of a transaction: block 60 has been changed and logged.\<close>

definition example_log :: kworld where
  "example_log = upd_log (\<lambda>_. \<lparr>l_start = 2, l_size = 30, l_outstanding = 1, l_committing = False, l_dev = ROOTDEV,
       l_lh = \<lparr>lh_n = 1, lh_block = (\<lambda>_. 60)\<rparr>\<rparr>) example_bcache"

lemma example_log_cells: "bcrel 0 example_log example_cache"
  using example_cells by (simp add: example_log_def)

lemma example_log_simps:
  "log example_log = \<lparr>l_start = 2, l_size = 30, l_outstanding = 1, l_committing = False, l_dev = ROOTDEV,
       l_lh = \<lparr>lh_n = 1, lh_block = (\<lambda>_. 60)\<rparr>\<rparr>" "bufs example_log = bufs example_bcache"
  "disk example_log = (\<lambda>_. replicate 1024 0)" "disk_writes example_log = []"
  by (simp_all add: example_log_def upd_log_def example_bcache_def zero_world_def)

text \<open>
  C1. Commits are atomic under crashes. Let a process commit a transaction of \<open>n\<close> logged blocks, all of
  them pinned in the cache, none in the log area and no block twice, when the header on the disk is empty. The
  commit ends, and its effect on the disk is a sequence \<open>ws\<close> of block writes. Cut that sequence off
  after any number \<open>k\<close> of writes, and let a freshly started machine run \<open>recover_from_log\<close> on what
  is on the disk: it ends, and outside of the log area the disk is the one before the transaction
  when \<open>k \<le> n\<close>, and otherwise the one that has the cached contents of every logged block.
\<close>

theorem commit_crash_safe:
  assumes "bcrel p s a" "log_ok (log s) n" "lh_n (l_lh (log s)) = int n" "0 < n"
    and "a_lk a = {}" "rc_small a" "card (a_used a) < NBUF" "\<And>i. i < n \<Longrightarrow> 0 < a_rc a (home (log s) i)"
    and "head_n (disk s (l_start (log s))) = 0" "length (disk s (l_start (log s))) = BSIZE"
    and "a_view a (l_start (log s)) = disk s (l_start (log s))"
  shows "\<exists>t ws. commit s = Ret () t \<and> disk_writes t = disk_writes s @ ws \<and> disk t = apply_writes ws (disk s) \<and>
    (\<forall>k q r b. k \<le> length ws \<longrightarrow> bcrel q r b \<longrightarrow> a_rc b = (\<lambda>_. 0) \<longrightarrow> a_lk b = {} \<longrightarrow>
       disk r = apply_writes (take k ws) (disk s) \<longrightarrow> l_start (log r) = l_start (log s) \<longrightarrow> l_dev (log r) = ROOTDEV \<longrightarrow>
       (\<exists>u. recover_from_log r = Ret () u \<and>
         (\<forall>m. m \<notin> log_area (log s) \<longrightarrow>
            disk u m = (if n < k \<and> m \<in> home (log s) ` {..<n} then a_view a m else disk s m))))"
proof -
  let ?l = "log s" and ?st = "l_start (log s)"
  let ?ws = "commit_writes ?l (a_view a)"
  have n: "n = nat (lh_n (l_lh ?l))" "0 \<le> lh_n (l_lh ?l)" using assms(3) by simp_all
  have ad: "a_disk a = disk s" "a_writes a = disk_writes s" using assms(1) by (simp_all add: bcrel_def)
  obtain t where t: "commit s = Ret () t" "disk t = apply_writes ?ws (disk s)" "disk_writes t = disk_writes s @ ?ws"
    using commit_ok [OF assms(1,2) n(1) assms(4-8)] ad by (auto simp: bcrel_def a_done_def)
  have "\<exists>u. recover_from_log r = Ret () u \<and> (\<forall>m. m \<notin> log_area ?l \<longrightarrow>
            disk u m = (if n < k \<and> m \<in> home ?l ` {..<n} then a_view a m else disk s m))"
    if k: "k \<le> length ?ws" and r: "bcrel q r b" "a_rc b = (\<lambda>_. 0)" "a_lk b = {}" "disk r = apply_writes (take k ?ws) (disk s)"
      "l_start (log r) = ?st" "l_dev (log r) = ROOTDEV" for k q r b
  proof -
    have view: "a_view b = disk r" using bc.clean [OF r(1)] r(1,2) by (auto simp: bcrel_def fun_eq_iff)
    note crash = commit_crash [where D = "disk s" and v = "a_view a", OF assms(2) n assms(9-11) k, folded r(4)]
    have used: "card (a_used b) + 1 < NBUF" "rc_small b"
      using r(2) by (simp_all add: a_used_def rc_small_def NBUF_def MAXOPBLOCKS_def)
    have "log_ok (read_log (a_view b (l_start (log r))) (log r)) (nat (head_n (a_view b (l_start (log r)))))"
      using good_log_ok [of "log r" "disk r"] crash(1) r(5,6) view by simp
    from recover_ok [OF r(1,6) this r(3) used(2,1)] obtain u where u: "recover_from_log r = Ret () u"
      "bcrel q u (a_done (recovery_writes ?st (disk r)) b)" using r(5) view by auto
    have "disk u = recovered ?st (disk r)" using u(2) r(1) by (simp add: bcrel_def a_done_def recovered_def)
    then show ?thesis using u(1) crash(2) by auto
  qed
  then show ?thesis using t by (intro exI [of _ t] exI [of _ ?ws]) blast
qed

theorem commit_crash_safe_witness:
  "\<exists>t ws. commit example_log = Ret () t \<and> disk_writes t = ws \<and> disk t = apply_writes ws (disk example_log)"
proof -
  have start: "disk example_log (l_start (log example_log)) = replicate 1024 0"
    by (simp add: example_log_simps)
  have used: "a_used example_cache = {60}" by (auto simp: a_used_def example_cache_def)
  have out: "60 \<notin> log_area (log example_log)"
  proof
    assume "60 \<in> log_area (log example_log)"
    then obtain j where j: "(60 :: u32) = 2 + of_nat j" "j \<le> 30" by (auto simp: log_area_def LOGSIZE_30 example_log_simps)
    then have "unat (60 :: u32) = unat (2 + of_nat j :: u32)" by simp
    also have "\<dots> = 2 + j" using j(2) by (simp add: unat_word_ariths unat_of_nat)
    finally show False using j(2) by simp
  qed
  have "log_ok (log example_log) 1"
    using out by (simp add: log_ok_def LOGSIZE_30) (simp add: example_log_simps inj_on_def)
  moreover have "lh_n (l_lh (log example_log)) = int 1" "0 < a_rc example_cache (home (log example_log) i)"
      "disk_writes example_log = []" for i
    by (simp_all add: example_log_simps example_cache_def)
  moreover have "a_lk example_cache = {}" "rc_small example_cache" "card (a_used example_cache) < NBUF"
      "a_view example_cache (l_start (log example_log)) = disk example_log (l_start (log example_log))"
    using start used by (simp_all add: example_cache_def rc_small_def NBUF_def) (simp add: example_log_simps)
  moreover have "head_n (disk example_log (l_start (log example_log))) = 0"
      "length (disk example_log (l_start (log example_log))) = BSIZE"
    using start by (simp_all add: head_n_def get_le_def of_le_replicate_0 BSIZE_def)
  ultimately show ?thesis using commit_crash_safe [OF example_log_cells, of 1] by fastforce
qed

text \<open>
  \<open>log_write\<close> absorbs. On a machine at rest it panics when the log is full, or outside of a
  transaction; otherwise the set of logged blocks gains the block of the buffer, the header grows and the
  buffer gets a pin exactly when the block was not logged before, and a header without duplicates stays so.
\<close>

theorem log_write_spec:
  fixes b :: nat and s :: kworld
  assumes "quiet p s" "lh_n (l_lh (log s)) = int n" "inj_on (home (log s)) {..<n}"
  defines "bn \<equiv> b_blockno (bufs s b)" and "L \<equiv> home (log s) ` {..<n}"
  shows "(LOGSIZE \<le> int n \<or> l_size (log s) - 1 \<le> int n \<longrightarrow> log_write b s = Panic ''too big a transaction'') \<and>
    (int n < LOGSIZE \<and> int n < l_size (log s) - 1 \<longrightarrow>
       (l_outstanding (log s) < 1 \<longrightarrow> log_write b s = Panic ''log_write outside of trans'') \<and>
       (1 \<le> l_outstanding (log s) \<longrightarrow> (\<exists>t n'. log_write b s = Ret () t \<and>
          lh_n (l_lh (log t)) = int n' \<and> n' = n + of_bool (bn \<notin> L) \<and>
          home (log t) ` {..<n'} = insert bn L \<and> inj_on (home (log t)) {..<n'} \<and>
          b_refcnt (bufs t b) = b_refcnt (bufs s b) + of_bool (bn \<notin> L) \<and> (\<forall>c. c \<noteq> b \<longrightarrow> bufs t c = bufs s c))))"
proof -
  let ?h = "l_lh (log s)"
  have n: "0 \<le> lh_n ?h" "nat (lh_n ?h) = n" using assms(2) by simp_all
  note eq = log_write_eq [OF assms(1) n(1), of b, unfolded Let_def n(2), folded bn_def, folded L_def]
  show ?thesis
  proof (cases "bn \<in> L")
    case True
    then have "log_added bn ?h = ?h" using n by (simp add: log_added_def L_def)
    moreover have "bufs (upd_lh f s) = bufs s" for f by (simp add: upd_lh_def upd_log_def)
    ultimately show ?thesis using True eq assms(2,3) by (auto simp: L_def)
  next
    case False
    let ?g = "(home (log s))(n := bn)"
    have added: "log_added bn ?h = ?h\<lparr>lh_block := ?g, lh_n := int (Suc n)\<rparr>"
      using False n assms(2) by (simp add: log_added_def L_def)
    have img: "?g ` {..<Suc n} = insert bn L" by (auto simp: L_def lessThan_Suc image_iff)
    have inj: "inj_on ?g {..<Suc n}"
      using assms(3) False by (auto simp: L_def lessThan_Suc inj_on_def image_iff)
    show ?thesis using False eq assms(2) added img inj
      by (auto simp: upd_buf_def simp del: fun_upd_apply) (auto simp: upd_lh_def upd_log_def)
  qed
qed

theorem log_write_spec_witness:
  "\<exists>t n'. log_write 1 example_log = Ret () t \<and> lh_n (l_lh (log t)) = int n' \<and> n' = 2"
proof -
  have q: "quiet 0 example_log" using example_log_cells by (simp add: bcrel_def)
  have "lh_n (l_lh (log example_log)) = int 1" "inj_on (home (log example_log)) {..<1}"
    by (simp_all add: example_log_simps inj_on_def)
  from log_write_spec [OF q this, of 1] show ?thesis
    by (simp add: LOGSIZE_30 example_log_simps example_bcache_def example_buf_def zero_buf_def lessThan_Suc del: of_nat_Suc) auto
qed

end
