(* ===== verification/Ringbuf.thy ===== *)
theory Ringbuf
  imports Prelude
begin

text \<open>
  Ring buffers with free-running counters. The pipe, the console input buffer and the UART's transmit
  buffer all keep a read and a write counter that only ever grow, wrap around at the width of the
  counter, and are reduced modulo the size of the buffer at each access. When the size divides the range of the
  counters this is a bounded queue; the locale \<open>ring\<close> has the laws, and each of the three
  components interprets it.
\<close>

locale ring =
  fixes N :: nat and ty :: "'w::len itself"
  assumes N_pos: "0 < N" and N_dvd: "N dvd 2 ^ LENGTH('w)" and N_less: "N < 2 ^ LENGTH('w)"
begin

definition slot :: "'w word \<Rightarrow> nat" where
  "slot i = unat i mod N"

definition contents :: "(nat \<Rightarrow> 'b) \<Rightarrow> 'w word \<Rightarrow> 'w word \<Rightarrow> 'b list" where
  "contents buf r w = map (\<lambda>i. buf (slot (r + of_nat i))) [0..<unat (w - r)]"

lemma length_contents [simp]: "length (contents buf r w) = unat (w - r)"
  by (simp add: contents_def)

lemma contents_empty [simp]: "contents buf r r = []"
  by (simp add: contents_def)

lemma contents_Nil_iff: "contents buf r w = [] \<longleftrightarrow> w = r"
proof -
  have "contents buf r w = [] \<longleftrightarrow> length (contents buf r w) = 0" by (simp only: length_0_conv)
  also have "\<dots> \<longleftrightarrow> w - r = 0" by (simp only: length_contents unat_eq_0)
  finally show ?thesis by simp
qed

lemma slot_add: "slot (r + of_nat i) = (unat r + i) mod N"
proof -
  have "unat (r + of_nat i) = (unat r + i) mod 2 ^ LENGTH('w)"
    by (simp add: unat_word_ariths unat_of_nat mod_add_right_eq)
  then show ?thesis using N_dvd by (simp add: slot_def mod_mod_cancel)
qed

lemma slot_less_neq:
  assumes "i < j" "j < N"
  shows "slot (r + of_nat i) \<noteq> slot (r + of_nat j)"
proof
  assume "slot (r + of_nat i) = slot (r + of_nat j)"
  then have "(unat r + j) mod N = (unat r + i) mod N" by (simp only: slot_add)
  then have "N dvd (unat r + j) - (unat r + i)" using assms(1) by (subst (asm) mod_eq_dvd_iff_nat) simp_all
  then have "N dvd j - i" by simp
  then show False using assms by (auto dest: dvd_imp_le)
qed

lemma unat_Suc_diff:
  fixes r w :: "'w word"
  assumes "unat (w - r) < N"
  shows "unat (w + 1 - r) = Suc (unat (w - r))"
proof -
  have "Suc (unat (w - r)) < 2 ^ LENGTH('w)" using assms N_less by simp
  then have "unat (w - r + 1) = Suc (unat (w - r))" by (simp add: unat_word_ariths)
  moreover have "w - r + 1 = w + 1 - r" by simp
  ultimately show ?thesis by simp
qed

lemma unat_diff_Suc:
  fixes r w :: "'w word"
  assumes "r \<noteq> w"
  shows "unat (w - r) = Suc (unat (w - r - 1))"
proof -
  have nz: "w - r \<noteq> 0" using assms by simp
  then have "0 < unat (w - r)" by (simp add: unat_gt_0)
  then show ?thesis using unat_minus_one [OF nz] by simp
qed

text \<open>Putting a byte at the write counter, and taking one at the read counter.\<close>

lemma contents_put:
  assumes "unat (w - r) < N"
  shows "contents (buf(slot w := c)) r (w + 1) = contents buf r w @ [c]"
proof -
  let ?n = "unat (w - r)"
  have w: "r + of_nat ?n = w" by simp
  have "slot (r + of_nat i) \<noteq> slot w" if "i < ?n" for i
    using slot_less_neq [OF that assms, of r] w by simp
  then show ?thesis using w by (simp add: contents_def unat_Suc_diff [OF assms])
qed

lemma contents_get:
  assumes "r \<noteq> w"
  shows "contents buf r w = buf (slot r) # contents buf (r + 1) w"
proof -
  have n: "unat (w - r) = Suc (unat (w - (r + 1)))"
    using unat_diff_Suc [OF assms] by (simp only: diff_diff_eq)
  have "[0..<Suc m] = 0 # map Suc [0..<m]" for m
    by (simp add: upt_conv_Cons map_Suc_upt del: upt_Suc)
  then show ?thesis unfolding contents_def n by (simp add: add.assoc del: upt_Suc)
qed

text \<open>Taking back the byte put last.\<close>

lemma contents_unput:
  assumes "r \<noteq> w"
  shows "contents buf r w = contents buf r (w - 1) @ [buf (slot (w - 1))]"
proof -
  have n: "unat (w - r) = Suc (unat (w - 1 - r))"
    using unat_diff_Suc [OF assms] by (simp only: diff_right_commute [of w r 1])
  have "r + of_nat (unat (w - 1 - r)) = w - 1" by simp
  then show ?thesis unfolding contents_def n by simp
qed

text \<open>Cutting the contents at a counter in between.\<close>

lemma contents_split:
  assumes "unat (w - r) \<le> unat (e - r)"
  shows "contents buf r e = contents buf r w @ contents buf w e" "unat (e - r) = unat (w - r) + unat (e - w)"
proof -
  let ?n = "unat (w - r)" and ?m = "unat (e - r)"
  have "w - r \<le> e - r" using assms by (simp add: word_le_nat_alt)
  then have "unat (e - r - (w - r)) = ?m - ?n" by (rule unat_sub)
  then have d: "unat (e - w) = ?m - ?n" by simp
  then show len: "?m = ?n + unat (e - w)" using assms by simp
  have "map (\<lambda>i. buf (slot (r + of_nat i))) [?n..<?n + k] = map (\<lambda>i. buf (slot (w + of_nat i))) [0..<k]" for k
    by (intro nth_equalityI) (simp_all add: add.assoc [symmetric])
  moreover have "contents buf r e = map (\<lambda>i. buf (slot (r + of_nat i))) ([0..<?n] @ [?n..<?n + unat (e - w)])"
    by (simp only: contents_def len upt_add_eq_append [OF le0])
  ultimately show "contents buf r e = contents buf r w @ contents buf w e"
    by (simp only: map_append contents_def)
qed

end

end
