(* ===== verification/Printf.thy ===== *)
theory Printf
  imports Sched Ringbuf
begin

text \<open>
  Kernel output: the polling and the buffered output routines of the UART driver (\<open>kernel/uart.c\<close>) and
  formatted output (\<open>kernel/printf.c\<close>, and \<open>consputc\<close> of \<open>kernel/console.c\<close>).

  The last sections show that \<open>printint\<close> stays inside its 16-byte buffer and that what it prints
  reads back as the number, and that the transmit ring is a queue: bytes go out in the order they came
  in, none twice and none lost.
\<close>

section \<open>The UART (uart.c)\<close>

definition RHR :: nat where "RHR = 0"
definition THR :: nat where "THR = 0"
definition IER :: nat where "IER = 1"
definition IER_RX_ENABLE :: byte where "IER_RX_ENABLE = push_bit 0 1"
definition IER_TX_ENABLE :: byte where "IER_TX_ENABLE = push_bit 1 1"
definition FCR :: nat where "FCR = 2"
definition FCR_FIFO_ENABLE :: byte where "FCR_FIFO_ENABLE = push_bit 0 1"
definition FCR_FIFO_CLEAR :: byte where "FCR_FIFO_CLEAR = push_bit 1 3"
definition LCR :: nat where "LCR = 3"
definition LCR_EIGHT_BITS :: byte where "LCR_EIGHT_BITS = push_bit 0 3"
definition LCR_BAUD_LATCH :: byte where "LCR_BAUD_LATCH = push_bit 7 1"
definition LSR_RX_READY :: byte where "LSR_RX_READY = push_bit 0 1"
definition LSR_TX_IDLE :: byte where "LSR_TX_IDLE = push_bit 5 1"
definition UART_TX_BUF_SIZE :: nat where "UART_TX_BUF_SIZE = 32"

text \<open>Reading the line status register; a write to a register; reading the receive holding register.\<close>

definition ReadLSR :: "byte K" where
  "ReadLSR =
     kbind (kget uart) (\<lambda>u.
     kbind (kmod (upd_uart (\<lambda>u. u\<lparr>uart_idle := tl (uart_idle u)\<rparr>))) (\<lambda>_.
     kret ((if uart_rx u \<noteq> [] then LSR_RX_READY else 0) OR
           (if uart_idle u = [] \<or> hd (uart_idle u) then LSR_TX_IDLE else 0))))"

definition WriteReg :: "nat \<Rightarrow> byte \<Rightarrow> unit K" where
  "WriteReg r v = kmod (upd_uart (\<lambda>u.
     if r \<le> 1 \<and> uart_regs u LCR AND LCR_BAUD_LATCH \<noteq> 0 then u\<lparr>uart_div := (uart_div u)(r := v)\<rparr>
     else if r = THR then u\<lparr>uart_out := uart_out u @ [v]\<rparr>
     else u\<lparr>uart_regs := (uart_regs u)(r := v)\<rparr>))"

definition ReadRHR :: "byte K" where
  "ReadRHR =
     kbind (kget (\<lambda>s. uart_rx (uart s))) (\<lambda>rx.
     kbind (kmod (upd_uart (\<lambda>u. u\<lparr>uart_rx := tl (uart_rx u)\<rparr>))) (\<lambda>_.
     kret (case rx of [] \<Rightarrow> 0 | c # _ \<Rightarrow> c)))"

definition uartinit :: "unit K" where
  "uartinit = kseq [
     WriteReg IER 0,
     WriteReg LCR LCR_BAUD_LATCH,
     WriteReg 0 0x03,
     WriteReg 1 0x00,
     WriteReg LCR LCR_EIGHT_BITS,
     WriteReg FCR (FCR_FIFO_ENABLE OR FCR_FIFO_CLEAR),
     WriteReg IER (IER_TX_ENABLE OR IER_RX_ENABLE),
     initlock UartTxLock ''uart'']"

text \<open>\<open>for(;;);\<close>\<close>

definition hang :: "'a K" where "hang = (\<lambda>s. Spin)"

definition uartputc_sync :: "int \<Rightarrow> unit K" where
  "uartputc_sync c = kseq [
     push_off,
     kbind (kget panicked) (\<lambda>p. kwhen p hang),
     kloop (\<lambda>_. kbind ReadLSR (\<lambda>r. kret (if r AND LSR_TX_IDLE = 0 then Inl () else Inr ()))) (),
     WriteReg THR (word_of_int c),
     pop_off]"

definition uartstart :: "unit K" where
  "uartstart =
     kloop (\<lambda>_.
       kbind (kget uart) (\<lambda>u.
       if uart_tx_w u = uart_tx_r u then kret (Inr ())
       else kbind ReadLSR (\<lambda>r.
         if r AND LSR_TX_IDLE = 0 then kret (Inr ())
         else let c = uart_tx_buf u (unat (uart_tx_r u) mod UART_TX_BUF_SIZE) in
           kbind (kseq [
             kmod (upd_uart (\<lambda>u. u\<lparr>uart_tx_r := uart_tx_r u + 1\<rparr>)),
             wakeup (Some ChUartTxR),
             WriteReg THR c]) (\<lambda>_. kret (Inl ()))))) ()"

definition uartputc :: "int \<Rightarrow> unit K" where
  "uartputc c = kseq [
     acquire UartTxLock,
     kbind (kget panicked) (\<lambda>p. kwhen p hang),
     kloop (\<lambda>_.
       kbind (kget uart) (\<lambda>u.
       if uart_tx_w u = uart_tx_r u + of_nat UART_TX_BUF_SIZE
       then kbind (sleep ChUartTxR UartTxLock) (\<lambda>_. kret (Inl ()))
       else kret (Inr ()))) (),
     kmod (upd_uart (\<lambda>u. u\<lparr>uart_tx_buf := (uart_tx_buf u)(unat (uart_tx_w u) mod UART_TX_BUF_SIZE := word_of_int c)\<rparr>)),
     kmod (upd_uart (\<lambda>u. u\<lparr>uart_tx_w := uart_tx_w u + 1\<rparr>)),
     uartstart,
     release UartTxLock]"

definition uartgetc :: "int K" where
  "uartgetc =
     kbind ReadLSR (\<lambda>r.
     if r AND 0x01 \<noteq> 0 then kbind ReadRHR (\<lambda>c. kret (uint c)) else kret (- 1))"

section \<open>Formatted output (printf.c)\<close>

definition BACKSPACE :: int where "BACKSPACE = 0x100"

definition consputc :: "int \<Rightarrow> unit K" where
  "consputc c =
     (if c = BACKSPACE then kseq [uartputc_sync 8, uartputc_sync 32, uartputc_sync 8]
      else uartputc_sync c)"

definition cchar :: "char \<Rightarrow> int" where "cchar c = of_char c"

definition digits :: string where "digits = ''0123456789abcdef''"

text \<open>The digits that the loop of \<open>printint\<close> puts into its buffer, the last digit first.\<close>

function printint_digits :: "nat \<Rightarrow> nat \<Rightarrow> string" where
  "printint_digits base x =
     digits ! (x mod base) # (if base < 2 \<or> x div base = 0 then [] else printint_digits base (x div base))"
  by pat_completeness auto

termination printint_digits
  by (relation "measure snd") (auto simp: div_greater_zero_iff)

declare printint_digits.simps [simp del]

text \<open>The negation of the least \<open>int\<close>, which C leaves undefined, wraps around as the compiled code does.\<close>

definition printint_buf :: "int \<Rightarrow> nat \<Rightarrow> bool \<Rightarrow> string" where
  "printint_buf xx base sign =
     (let neg = sign \<and> xx < 0; x = (word_of_int (if neg then - xx else xx) :: u32) in
      printint_digits base (unat x) @ (if neg then ''-'' else []))"

definition printint :: "int \<Rightarrow> nat \<Rightarrow> bool \<Rightarrow> unit K" where
  "printint xx base sign = kfor (rev (printint_buf xx base sign)) (\<lambda>c. consputc (cchar c))"

definition printptr :: "addr \<Rightarrow> unit K" where
  "printptr x = kseq [
     consputc (cchar (CHR ''0'')),
     consputc (cchar (CHR ''x'')),
     kfor [0..<16] (\<lambda>i. consputc (cchar (digits ! unat (drop_bit (64 - 4) (push_bit (4 * i) x)))))]"

text \<open>
  The variable arguments of \<open>printf\<close>. A call that supplies fewer than its format asks for has no
  defined behaviour in C; here the missing ones read as zero.
\<close>

datatype vararg = VInt int | VPtr addr | VStr "byte list option"

definition va_int :: "vararg list \<Rightarrow> int" where
  "va_int ap = (case ap of VInt i # _ \<Rightarrow> i | _ \<Rightarrow> 0)"

definition va_ptr :: "vararg list \<Rightarrow> addr" where
  "va_ptr ap = (case ap of VPtr p # _ \<Rightarrow> p | _ \<Rightarrow> 0)"

definition va_str :: "vararg list \<Rightarrow> byte list option" where
  "va_str ap = (case ap of VStr s # _ \<Rightarrow> s | _ \<Rightarrow> None)"

definition put_str :: "byte list \<Rightarrow> unit K" where
  "put_str s = kfor (takeWhile (\<lambda>c. c \<noteq> 0) s) (\<lambda>c. consputc (uint c))"

definition bytes :: "string \<Rightarrow> byte list" where "bytes s = map of_char s"

fun printf_fmt :: "string \<Rightarrow> vararg list \<Rightarrow> unit K" where
  "printf_fmt [] ap = kret ()"
| "printf_fmt (c # cs) ap =
     (if c \<noteq> CHR ''%'' then kbind (consputc (cchar c)) (\<lambda>_. printf_fmt cs ap)
      else case cs of
        [] \<Rightarrow> kret ()
      | d # ds \<Rightarrow>
          if d = CHR ''d'' then kbind (printint (va_int ap) 10 True) (\<lambda>_. printf_fmt ds (tl ap))
          else if d = CHR ''x'' then kbind (printint (va_int ap) 16 True) (\<lambda>_. printf_fmt ds (tl ap))
          else if d = CHR ''p'' then kbind (printptr (va_ptr ap)) (\<lambda>_. printf_fmt ds (tl ap))
          else if d = CHR ''s'' then kbind (put_str (case va_str ap of None \<Rightarrow> bytes ''(null)'' | Some s \<Rightarrow> s)) (\<lambda>_. printf_fmt ds (tl ap))
          else if d = CHR ''%'' then kbind (consputc (cchar (CHR ''%''))) (\<lambda>_. printf_fmt ds ap)
          else kbind (kseq [consputc (cchar (CHR ''%'')), consputc (cchar d)]) (\<lambda>_. printf_fmt ds ap))"

definition printf :: "string \<Rightarrow> vararg list \<Rightarrow> unit K" where
  "printf fmt ap =
     kbind (kget pr_locking) (\<lambda>locking. kseq [
       kwhen locking (acquire PrLock),
       printf_fmt fmt ap,
       kwhen locking (release PrLock)])"

text \<open>
  The body of the C function \<open>panic\<close>. The kernel functions of this development stop with the outcome
  \<open>Panic\<close> where the code calls it; this is what the machine then does.
\<close>

definition newline :: string where "newline = [CHR 0x0A]"

definition panic_body :: "string \<Rightarrow> unit K" where
  "panic_body s = kseq [
     kmod (\<lambda>w. w\<lparr>pr_locking := False\<rparr>),
     printf ''panic: '' [],
     printf s [],
     printf newline [],
     kmod (\<lambda>w. w\<lparr>panicked := True\<rparr>),
     hang]"

definition printfinit :: "unit K" where
  "printfinit = kseq [
     initlock PrLock ''pr'',
     kmod (\<lambda>s. s\<lparr>pr_locking := True\<rparr>)]"

section \<open>What is printed\<close>

text \<open>The output line is in working order: not frozen by a panic, and past the setting of the baud rate.\<close>

definition can_print :: "'z kstate_scheme \<Rightarrow> bool" where
  "can_print s \<longleftrightarrow> settled s \<and> \<not> panicked s \<and> uart_regs (uart s) LCR AND LCR_BAUD_LATCH = 0"

definition uart_sent :: "byte \<Rightarrow> uart \<Rightarrow> uart" where
  "uart_sent c u = u\<lparr>uart_idle := tl (dropWhile Not (uart_idle u)), uart_out := uart_out u @ [c]\<rparr>"

definition sent :: "byte list \<Rightarrow> 'z kstate_scheme \<Rightarrow> 'z kstate_scheme" where
  "sent cs = upd_uart (fold uart_sent cs)"

lemma sent_simps [simp]:
  "sent [] s = s" "sent ds (sent cs s) = sent (cs @ ds) s"
  by (simp_all add: sent_def upd_uart_def)

lemma uart_regs_sent [simp]: "uart_regs (fold uart_sent cs u) = uart_regs u"
  by (induction cs arbitrary: u) (simp_all add: uart_sent_def)

lemma uart_out_sent: "uart_out (uart (sent cs s)) = uart_out (uart s) @ cs"
proof -
  have "uart_out (fold uart_sent cs u) = uart_out u @ cs" for u
    by (induction cs arbitrary: u) (simp_all add: uart_sent_def)
  then show ?thesis by (simp add: sent_def upd_uart_def)
qed

lemma can_print_sent [simp]: "can_print (sent cs s) = can_print s"
  by (simp add: can_print_def sent_def) (simp add: upd_uart_def)

lemma wait_idle:
  "kloop (\<lambda>_. kbind ReadLSR (\<lambda>r. kret (if r AND LSR_TX_IDLE = 0 then Inl () else Inr ()))) () s =
     Ret () (upd_uart (\<lambda>u. u\<lparr>uart_idle := tl (dropWhile Not (uart_idle u))\<rparr>) s)"
proof (induction "uart_idle (uart s)" arbitrary: s)
  case Nil
  have "uart_idle (uart s) = []" using Nil by simp
  then show ?case
    by (subst kloop_unfold) (simp add: ReadLSR_def exec_simps LSR_RX_READY_def LSR_TX_IDLE_def upd_uart_def)
next
  case (Cons b bs)
  have i: "uart_idle (uart s) = b # bs" using Cons.hyps(2) by simp
  show ?case
  proof (cases b)
    case True
    then show ?thesis using i
      by (subst kloop_unfold) (simp add: ReadLSR_def exec_simps LSR_RX_READY_def LSR_TX_IDLE_def upd_uart_def)
  next
    case False
    let ?s = "upd_uart (\<lambda>u. u\<lparr>uart_idle := bs\<rparr>) s"
    have "uart_idle (uart ?s) = bs" by (simp add: upd_uart_def)
    from Cons.hyps(1) [OF this [symmetric]] have IH: "kloop (\<lambda>_. kbind ReadLSR (\<lambda>r. kret (if r AND LSR_TX_IDLE = 0 then Inl () else Inr ()))) () ?s =
        Ret () (upd_uart (\<lambda>u. u\<lparr>uart_idle := tl (dropWhile Not (uart_idle u))\<rparr>) ?s)" .
    have "upd_uart (\<lambda>u. u\<lparr>uart_idle := tl (uart_idle u)\<rparr>) s = ?s" using i by (simp add: upd_uart_def)
    then show ?thesis using i IH False
      by (subst kloop_unfold) (simp add: ReadLSR_def exec_simps LSR_RX_READY_def LSR_TX_IDLE_def, simp add: upd_uart_def)
  qed
qed

lemma uartputc_sync_eq:
  assumes "can_print s"
  shows "uartputc_sync c s = Ret () (sent [word_of_int c] s)"
  using assms
  by (simp add: uartputc_sync_def exec_simps spinlock_defs wait_idle can_print_def WriteReg_def THR_def sent_def
      uart_sent_def upd_defs settled_def lock_noops cong: if_cong split: if_splits)

lemma consputc_eq:
  "can_print s \<Longrightarrow> c \<noteq> BACKSPACE \<Longrightarrow> consputc c s = Ret () (sent [word_of_int c] s)"
  by (simp add: consputc_def uartputc_sync_eq)

lemma cchar_neq_BACKSPACE [simp]: "cchar c \<noteq> BACKSPACE"
proof -
  have "of_char c mod 256 < (256 :: int)" by (rule pos_mod_bound) simp
  then have "cchar c < 256" by (simp add: cchar_def)
  then show ?thesis by (simp add: BACKSPACE_def)
qed

lemma uint_neq_BACKSPACE [simp]: "uint (b :: byte) \<noteq> BACKSPACE"
  using uint_bounded [of b] by (simp add: BACKSPACE_def)

lemma kfor_sent:
  assumes "can_print s" "\<And>x. x \<in> set xs \<Longrightarrow> g x \<noteq> BACKSPACE"
  shows "kfor xs (\<lambda>x. consputc (g x)) s = Ret () (sent (map (\<lambda>x. word_of_int (g x)) xs) s)"
  using assms
proof (induction xs arbitrary: s)
  case Nil
  then show ?case by (simp add: exec_simps)
next
  case (Cons x xs)
  have "can_print (sent [word_of_int (g x)] s)" using Cons.prems(1) by simp
  from Cons.IH [OF this] show ?case using Cons.prems by (simp add: exec_simps consputc_eq)
qed

definition char_byte :: "char \<Rightarrow> byte" where "char_byte c = word_of_int (cchar c)"

lemma printint_eq:
  "can_print s \<Longrightarrow> printint xx base sign s = Ret () (sent (map char_byte (rev (printint_buf xx base sign))) s)"
  by (simp add: printint_def kfor_sent char_byte_def [abs_def])

definition ptr_text :: "addr \<Rightarrow> byte list" where
  "ptr_text x = map char_byte (''0x'' @ map (\<lambda>i. digits ! unat (drop_bit 60 (push_bit (4 * i) x))) [0..<16])"

lemma printptr_eq: "can_print s \<Longrightarrow> printptr x s = Ret () (sent (ptr_text x) s)"
  by (simp add: printptr_def exec_simps consputc_eq kfor_sent char_byte_def ptr_text_def o_def del: upt_Suc)

lemma put_str_eq: "can_print s \<Longrightarrow> put_str b s = Ret () (sent (takeWhile (\<lambda>c. c \<noteq> 0) b) s)"
  by (simp add: put_str_def kfor_sent)

text \<open>The text a format and its arguments stand for.\<close>

fun format_text :: "string \<Rightarrow> vararg list \<Rightarrow> byte list" where
  "format_text [] ap = []"
| "format_text (c # cs) ap =
     (if c \<noteq> CHR ''%'' then char_byte c # format_text cs ap
      else case cs of
        [] \<Rightarrow> []
      | d # ds \<Rightarrow>
          if d = CHR ''d'' then map char_byte (rev (printint_buf (va_int ap) 10 True)) @ format_text ds (tl ap)
          else if d = CHR ''x'' then map char_byte (rev (printint_buf (va_int ap) 16 True)) @ format_text ds (tl ap)
          else if d = CHR ''p'' then ptr_text (va_ptr ap) @ format_text ds (tl ap)
          else if d = CHR ''s'' then takeWhile (\<lambda>c. c \<noteq> 0) (case va_str ap of None \<Rightarrow> bytes ''(null)'' | Some s \<Rightarrow> s) @ format_text ds (tl ap)
          else if d = CHR ''%'' then char_byte (CHR ''%'') # format_text ds ap
          else char_byte (CHR ''%'') # char_byte d # format_text ds ap)"

lemma printf_fmt_eq: "can_print s \<Longrightarrow> printf_fmt fmt ap s = Ret () (sent (format_text fmt ap) s)"
proof (induction fmt ap arbitrary: s rule: printf_fmt.induct)
  case (1 ap)
  then show ?case by (simp add: exec_simps)
next
  case (2 c cs ap)
  show ?case
  proof (cases "c = CHR ''%''")
    case False
    then show ?thesis using 2 by (simp add: exec_simps consputc_eq char_byte_def)
  next
    case True
    then show ?thesis using 2
      by (cases cs) (simp_all add: exec_simps consputc_eq printint_eq printptr_eq put_str_eq char_byte_def)
  qed
qed

lemma can_print_take [simp]: "can_print s \<Longrightarrow> can_print (take_lock lk s)"
  by (simp add: can_print_def)

lemma sent_take [simp]: "sent cs (take_lock lk s) = take_lock lk (sent cs s)"
  by (simp add: sent_def)

lemma sent_locks [simp]: "lock_free lk (sent cs s) = lock_free lk s" "settled (sent cs s) = settled s"
  by (simp_all add: sent_def)

section \<open>Numbers read back\<close>

primrec digit_val :: "char list \<Rightarrow> char \<Rightarrow> nat" where
  "digit_val [] c = 0"
| "digit_val (d # ds) c = (if c = d then 0 else Suc (digit_val ds c))"

definition read_digits :: "nat \<Rightarrow> string \<Rightarrow> nat" where
  "read_digits base cs = foldl (\<lambda>n c. n * base + digit_val digits c) 0 cs"

definition read_int :: "nat \<Rightarrow> string \<Rightarrow> int" where
  "read_int base cs = (case cs of [] \<Rightarrow> 0 | c # ds \<Rightarrow>
     if c = CHR ''-'' then - int (read_digits base ds) else int (read_digits base cs))"

lemma digit_val_digits: "i < 16 \<Longrightarrow> digit_val digits (digits ! i) = i \<and> digits ! i \<noteq> CHR ''-''"
proof -
  have "\<forall>i\<in>set [0..<16]. digit_val digits (digits ! i) = i \<and> digits ! i \<noteq> CHR ''-''"
    by (simp add: digits_def upt_rec)
  then show "i < 16 \<Longrightarrow> ?thesis" by simp
qed

lemma mod_lt_16: "2 \<le> base \<Longrightarrow> base \<le> 16 \<Longrightarrow> x mod base < (16 :: nat)"
  using mod_less_divisor [of base x] by linarith

lemma printint_digits_length:
  assumes "2 \<le> base" "x < base ^ k" "0 < k"
  shows "length (printint_digits base x) \<le> k"
  using assms
proof (induction k arbitrary: x)
  case 0
  then show ?case by simp
next
  case (Suc k)
  show ?case
  proof (cases "x div base = 0")
    case True
    then show ?thesis by (simp add: printint_digits.simps)
  next
    case False
    then have "0 < k" using Suc.prems(1,2) by (cases k) auto
    moreover have "x div base < base ^ k" using Suc.prems by (simp add: less_mult_imp_div_less mult.commute)
    ultimately show ?thesis using Suc by (subst printint_digits.simps) auto
  qed
qed

lemma read_printint_digits:
  assumes "2 \<le> base" "base \<le> 16"
  shows "read_digits base (rev (printint_digits base x)) = x"
proof (induction x rule: less_induct)
  case (less x)
  have d: "digit_val digits (digits ! (x mod base)) = x mod base"
    using mod_lt_16 [OF assms, of x] digit_val_digits [of "x mod base"] by simp
  show ?case
  proof (cases "x div base = 0")
    case True
    then have "x mod base = x" using assms by (auto simp: div_eq_0_iff)
    then show ?thesis using True d by (simp add: printint_digits.simps read_digits_def)
  next
    case False
    then have "x div base < x" using assms by (simp add: div_greater_zero_iff)
    from less.IH [OF this] show ?thesis
      using False assms d by (subst printint_digits.simps) (simp add: read_digits_def)
  qed
qed

lemma last_printint_digits: "2 \<le> base \<Longrightarrow> base \<le> 16 \<Longrightarrow>
   printint_digits base x \<noteq> [] \<and> (\<forall>c\<in>set (printint_digits base x). c \<noteq> CHR ''-'')"
proof (induction base x rule: printint_digits.induct)
  case (1 base x)
  have "digits ! (x mod base) \<noteq> CHR ''-''"
    using mod_lt_16 [OF 1(2,3), of x] digit_val_digits [of "x mod base"] by simp
  then show ?case using 1 by (subst (1 2) printint_digits.simps) auto
qed

section \<open>The transmit queue\<close>

interpretation tx: ring UART_TX_BUF_SIZE "TYPE(64)"
  by unfold_locales (simp_all add: UART_TX_BUF_SIZE_def)

definition pending :: "uart \<Rightarrow> byte list" where
  "pending u = tx.contents (uart_tx_buf u) (uart_tx_r u) (uart_tx_w u)"

definition latch_clear :: "uart \<Rightarrow> bool" where
  "latch_clear u \<longleftrightarrow> uart_regs u LCR AND LCR_BAUD_LATCH = 0"

text \<open>One round of \<open>uartstart\<close> moves a byte from the head of the queue to the device.\<close>

definition tx_one :: "uart \<Rightarrow> uart" where
  "tx_one u = u\<lparr>uart_idle := tl (uart_idle u), uart_tx_r := uart_tx_r u + 1,
     uart_out := uart_out u @ [uart_tx_buf u (unat (uart_tx_r u) mod UART_TX_BUF_SIZE)]\<rparr>"

lemma pending_tx_one:
  "uart_tx_w u \<noteq> uart_tx_r u \<Longrightarrow> uart_out (tx_one u) @ pending (tx_one u) = uart_out u @ pending u"
  using tx.contents_get [of "uart_tx_r u" "uart_tx_w u" "uart_tx_buf u"]
  by (simp add: tx_one_def pending_def tx.slot_def)

lemma uartstart_round:
  assumes "procs_free s" "latch_clear (uart s)"
  shows "uartstart s =
    (if uart_tx_w (uart s) = uart_tx_r (uart s) then Ret () s
     else if uart_idle (uart s) \<noteq> [] \<and> \<not> hd (uart_idle (uart s))
       then Ret () (upd_uart (\<lambda>u. u\<lparr>uart_idle := tl (uart_idle u)\<rparr>) s)
     else uartstart (upd_uart tx_one (woken (Some ChUartTxR) s)))"
proof -
  let ?s1 = "upd_uart (\<lambda>u. u\<lparr>uart_tx_r := uart_tx_r u + 1\<rparr>) (upd_uart (\<lambda>u. u\<lparr>uart_idle := tl (uart_idle u)\<rparr>) s)"
  have "procs_free ?s1" using assms(1) by (simp add: procs_free_def)
  then have "wakeup (Some ChUartTxR) ?s1 = Ret () (woken (Some ChUartTxR) ?s1)" by (rule wakeup_eq)
  moreover have "WriteReg THR c (woken (Some ChUartTxR) ?s1) = Ret () (upd_uart tx_one (woken (Some ChUartTxR) s))"
    if "c = uart_tx_buf (uart s) (unat (uart_tx_r (uart s)) mod UART_TX_BUF_SIZE)" for c
    using assms(2) that
    by (simp add: WriteReg_def exec_simps woken_def upd_uart_def latch_clear_def THR_def tx_one_def cong: if_cong)
  ultimately show ?thesis
    unfolding uartstart_def
    by (subst kloop_unfold)
      (auto simp: exec_simps ReadLSR_def LSR_RX_READY_def LSR_TX_IDLE_def Let_def)
qed

lemma uartstart_ok:
  assumes "procs_free s" "latch_clear (uart s)"
  shows "\<exists>t. uartstart s = Ret () t \<and> t = s\<lparr>uart := uart t, procs := procs t\<rparr> \<and>
    uart_out (uart t) @ pending (uart t) = uart_out (uart s) @ pending (uart s) \<and>
    (uart_idle (uart s) = [] \<longrightarrow> pending (uart t) = [])"
  using assms
proof (induction "length (pending (uart s))" arbitrary: s rule: less_induct)
  case less
  let ?u = "uart s"
  show ?case
  proof (cases "uart_tx_w ?u = uart_tx_r ?u \<or> uart_idle ?u \<noteq> [] \<and> \<not> hd (uart_idle ?u)")
    case True
    then show ?thesis
      using uartstart_round [OF less.prems] by (auto simp: upd_uart_def pending_def)
  next
    case False
    let ?t = "upd_uart tx_one (woken (Some ChUartTxR) s)"
    have ut: "uart ?t = tx_one ?u" by (simp add: upd_uart_def woken_def)
    have same: "uart_out (tx_one ?u) @ pending (tx_one ?u) = uart_out ?u @ pending ?u"
      using False by (intro pending_tx_one) auto
    from arg_cong [OF this, of length] have "length (pending (tx_one ?u)) < length (pending ?u)"
      unfolding length_append by (simp add: tx_one_def [of ?u])
    moreover have "procs_free ?t" "latch_clear (uart ?t)"
      using less.prems ut by (simp_all add: procs_free_def latch_clear_def tx_one_def)
    ultimately obtain t where t: "uartstart ?t = Ret () t" "t = ?t\<lparr>uart := uart t, procs := procs t\<rparr>"
      "uart_out (uart t) @ pending (uart t) = uart_out (tx_one ?u) @ pending (tx_one ?u)"
      "uart_idle (tx_one ?u) = [] \<longrightarrow> pending (uart t) = []"
      using less.hyps [of ?t] ut by auto
    have "t = s\<lparr>uart := uart t, procs := procs t\<rparr>"
      by (subst t(2)) (simp add: upd_uart_def woken_def)
    moreover have "uartstart s = Ret () t" using uartstart_round [OF less.prems] False t(1) by auto
    ultimately show ?thesis using t(3,4) same by (auto simp: tx_one_def)
  qed
qed

lemma printf_eq:
  assumes "can_print s" "pr_locking s \<longrightarrow> lock_free PrLock s"
  shows "printf fmt ap s = Ret () (sent (format_text fmt ap) s)"
proof -
  have "settled s" using assms(1) by (simp add: can_print_def)
  then show ?thesis using assms by (simp add: printf_def exec_simps printf_fmt_eq lock_exec)
qed

section \<open>Correctness\<close>

text \<open>
  C22. \<open>printint\<close>, called as \<open>printf\<close> calls it on a C \<open>int\<close>, fills at most 16 bytes of its buffer, and
  the characters it prints are the number: read as a signed numeral in the base they give it back, the
  most negative number included.
\<close>

theorem printint_reads_back:
  assumes "- (2 ^ 31) \<le> xx" "xx < 2 ^ 31" "base = 10 \<or> base = 16"
  shows "length (printint_buf xx base True) \<le> 16 \<and> read_int base (rev (printint_buf xx base True)) = xx"
proof -
  define x where "x = unat (word_of_int (if xx < 0 then - xx else xx) :: u32)"
  have x: "int x = \<bar>xx\<bar>" using assms(1,2) by (auto simp: x_def unat_eq_nat_uint uint_word_of_int)
  have b: "2 \<le> base" "base \<le> 16" using assms(3) by auto
  have "x < base ^ 15" using assms(3) x assms(1,2) by auto
  then have "length (printint_digits base x) \<le> 15" using b by (intro printint_digits_length) auto
  moreover obtain c cs where cs: "rev (printint_digits base x) = c # cs" "c \<noteq> CHR ''-''"
    using last_printint_digits [OF b, of x] by (metis list.exhaust list.set_intros(1) rev_is_Nil_conv set_rev)
  moreover have "printint_buf xx base True = printint_digits base x @ (if xx < 0 then ''-'' else [])"
    by (simp add: printint_buf_def x_def Let_def)
  ultimately show ?thesis using read_printint_digits [OF b, of x] x by (auto simp: read_int_def)
qed

theorem printint_reads_back_witness:
  "length (printint_buf (- 2147483648) 10 True) \<le> 16 \<and> read_int 10 (rev (printint_buf (- 2147483648) 10 True)) = - 2147483648"
  using printint_reads_back [of "- 2147483648" 10] by simp

text \<open>
  On a machine whose output is not frozen, \<open>printf\<close> returns, whatever the format and the arguments; it has
  sent the text they stand for to the UART, byte after byte, after everything sent before, and nothing else
  of the kernel's state has changed but the UART.
\<close>

theorem printf_prints:
  assumes "can_print s" "pr_locking s \<longrightarrow> lock_free PrLock s"
  shows "\<exists>t u. printf fmt ap s = Ret () t \<and> t = s\<lparr>uart := u\<rparr> \<and> uart_out u = uart_out (uart s) @ format_text fmt ap"
proof -
  have "printf fmt ap s = Ret () (sent (format_text fmt ap) s)" using assms by (rule printf_eq)
  moreover have "sent (format_text fmt ap) s = s\<lparr>uart := fold uart_sent (format_text fmt ap) (uart s)\<rparr>"
    by (simp add: sent_def upd_uart_def)
  moreover have "uart_out (fold uart_sent (format_text fmt ap) (uart s)) = uart_out (uart s) @ format_text fmt ap"
    using uart_out_sent [of "format_text fmt ap" s] by (simp add: sent_def upd_uart_def)
  ultimately show ?thesis by blast
qed

theorem printf_prints_witness:
  "\<exists>t u. printf ''%d%%'' [VInt 5] (zero_world example_syms) = Ret () t \<and> t = (zero_world example_syms)\<lparr>uart := u\<rparr> \<and>
     uart_out u = [0x35, 0x25]"
proof -
  have "format_text ''%d%%'' [VInt 5] = [0x35, 0x25]"
    by (simp add: printint_buf_def printint_digits.simps va_int_def digits_def char_byte_def cchar_def of_char_def)
  moreover have "can_print (zero_world example_syms)" "\<not> pr_locking (zero_world example_syms)"
    "uart_out (uart (zero_world example_syms)) = []"
    by (simp_all add: can_print_def settled_def zero_world_def)
  ultimately show ?thesis using printf_prints [of "zero_world example_syms" "''%d%%''" "[VInt 5]"] by simp
qed

text \<open>
  \<open>uartputc\<close> appends one byte to the output: when the transmit buffer is not full, it returns, and the
  bytes handed to the device followed by those waiting in the buffer are the ones from before followed
  by the new byte; if the device is ready throughout, none is left waiting. When the buffer is full and nobody
  else runs, the process sleeps on the read counter and nothing is lost.
\<close>

theorem uartputc_queue:
  assumes "procs_free s" "latch_clear (uart s)" "lock_free UartTxLock s" "\<not> panicked s"
  shows "(length (pending (uart s)) < UART_TX_BUF_SIZE \<longrightarrow>
      (\<exists>t. uartputc c s = Ret () t \<and>
         uart_out (uart t) @ pending (uart t) = uart_out (uart s) @ pending (uart s) @ [word_of_int c] \<and>
         (uart_idle (uart s) = [] \<longrightarrow> pending (uart t) = []))) \<and>
    (uart_tx_w (uart s) = uart_tx_r (uart s) + of_nat UART_TX_BUF_SIZE \<and> in_proc p s \<and> env s = [] \<longrightarrow>
      uartputc c s = Switched (asleep p ChUartTxR s))"
proof -
  let ?u = "uart s" and ?s = "take_lock UartTxLock s"
  let ?f = "\<lambda>u. u\<lparr>uart_tx_buf := (uart_tx_buf u)(unat (uart_tx_w u) mod UART_TX_BUF_SIZE := word_of_int c), uart_tx_w := uart_tx_w u + 1\<rparr>"
  have st: "settled s" using assms(1) by (simp add: procs_free_def)
  have "\<exists>t. uartputc c s = Ret () t \<and>
         uart_out (uart t) @ pending (uart t) = uart_out ?u @ pending ?u @ [word_of_int c] \<and>
         (uart_idle ?u = [] \<longrightarrow> pending (uart t) = [])" if room: "length (pending ?u) < UART_TX_BUF_SIZE"
  proof -
    have n: "unat (uart_tx_w ?u - uart_tx_r ?u) < UART_TX_BUF_SIZE"
      using room by (simp only: pending_def tx.length_contents)
    have notfull: "uart_tx_w ?u \<noteq> uart_tx_r ?u + 32"
    proof
      assume "uart_tx_w ?u = uart_tx_r ?u + 32"
      then have "uart_tx_w ?u - uart_tx_r ?u = 32" by simp
      with n show False by (simp add: UART_TX_BUF_SIZE_def)
    qed
    have put: "pending (?f ?u) = pending ?u @ [word_of_int c]"
      using tx.contents_put [of "uart_tx_w ?u" "uart_tx_r ?u" "uart_tx_buf ?u" "word_of_int c"] n
      by (simp add: pending_def tx.slot_def)
    let ?w = "upd_uart ?f s"
    have pf: "procs_free (take_lock UartTxLock ?w)" using assms(1) by (simp add: procs_free_def)
    have uw: "uart (take_lock UartTxLock ?w) = ?f ?u" by (simp add: upd_uart_def)
    have lc: "latch_clear (uart (take_lock UartTxLock ?w))" using assms(2) uw by (simp add: latch_clear_def)
    obtain t where t: "uartstart (take_lock UartTxLock ?w) = Ret () t"
      "t = (take_lock UartTxLock ?w)\<lparr>uart := uart t, procs := procs t\<rparr>"
      "uart_out (uart t) @ pending (uart t) = uart_out (?f ?u) @ pending (?f ?u)"
      "uart_idle (?f ?u) = [] \<longrightarrow> pending (uart t) = []"
      using uartstart_ok [OF pf lc] uw by auto
    let ?t = "?w\<lparr>uart := uart t, procs := procs t\<rparr>"
    have tt: "t = take_lock UartTxLock ?t" by (subst t(2)) simp
    have "release UartTxLock t = Ret () ?t"
      using st assms(3) by (subst tt) (simp add: lock_exec)
    moreover have "upd_uart (\<lambda>u. u\<lparr>uart_tx_w := uart_tx_w u + 1\<rparr>) (upd_uart (\<lambda>u. u\<lparr>uart_tx_buf :=
        (uart_tx_buf u)(unat (uart_tx_w u) mod UART_TX_BUF_SIZE := word_of_int c)\<rparr>) s) = ?w"
      by (simp add: upd_uart_def)
    ultimately have "uartputc c s = Ret () ?t"
      using assms st notfull t(1)
      by (simp add: uartputc_def exec_simps lock_exec kloop_unfold [of _ "()" ?s] UART_TX_BUF_SIZE_def)
    then show ?thesis using t(3,4) put by auto
  qed
  moreover have "uartputc c s = Switched (asleep p ChUartTxR s)"
    if "uart_tx_w ?u = uart_tx_r ?u + of_nat UART_TX_BUF_SIZE" "in_proc p s" "env s = []"
    using that assms sleep_never [of p s UartTxLock ChUartTxR]
    by (simp add: uartputc_def exec_simps lock_exec kloop_unfold [of _ "()" ?s])
  ultimately show ?thesis by blast
qed

theorem uartputc_queue_witness:
  "\<exists>t. uartputc 65 (zero_world example_syms) = Ret () t \<and> uart_out (uart t) = [65]"
proof -
  have "procs_free (zero_world example_syms)" "latch_clear (uart (zero_world example_syms))"
    "lock_free UartTxLock (zero_world example_syms)" "\<not> panicked (zero_world example_syms)"
    "pending (uart (zero_world example_syms)) = []" "uart_idle (uart (zero_world example_syms)) = []"
    "uart_out (uart (zero_world example_syms)) = []"
    by (simp_all add: procs_free_def settled_def lock_free_def latch_clear_def pending_def zero_world_def)
  then show ?thesis using uartputc_queue [of "zero_world example_syms" 65 0] by (fastforce simp: UART_TX_BUF_SIZE_def)
qed

end
