(* ===== verification/Vm.thy ===== *)
theory Vm
  imports Kalloc
begin

text \<open>
  Virtual memory (\<open>kernel/vm.c\<close>): three-level Sv39 page tables kept in pages of the byte memory, the
  operations that build, shrink, copy and free user address spaces, and the copies between kernel
  and user memory.

  A page table is the address of its root page; a pointer to a page-table entry is the address of
  the entry, 0 for the null pointer. Where a C function copies to or from a kernel object that is
  not a page of the byte memory, the object's bytes are a list.
\<close>

section \<open>Page-table entries (riscv.h)\<close>

definition PTE_V :: addr where "PTE_V = push_bit 0 1"
definition PTE_R :: addr where "PTE_R = push_bit 1 1"
definition PTE_W :: addr where "PTE_W = push_bit 2 1"
definition PTE_X :: addr where "PTE_X = push_bit 3 1"
definition PTE_U :: addr where "PTE_U = push_bit 4 1"

definition PA2PTE :: "addr \<Rightarrow> addr" where "PA2PTE pa = push_bit 10 (drop_bit 12 pa)"
definition PTE2PA :: "addr \<Rightarrow> addr" where "PTE2PA pte = push_bit 12 (drop_bit 10 pte)"
definition PTE_FLAGS :: "addr \<Rightarrow> addr" where "PTE_FLAGS pte = pte AND 0x3FF"
definition PXMASK :: addr where "PXMASK = 0x1FF"
definition PXSHIFT :: "nat \<Rightarrow> nat" where "PXSHIFT level = 12 + 9 * level"
definition PX :: "nat \<Rightarrow> addr \<Rightarrow> addr" where "PX level va = drop_bit (PXSHIFT level) va AND PXMASK"
definition MAKE_SATP :: "addr \<Rightarrow> addr" where "MAKE_SATP pt = push_bit 60 8 OR drop_bit 12 pt"

text \<open>\<open>&pagetable[i]\<close>, and reading and writing \<open>*pte\<close>.\<close>

definition pte_slot :: "addr \<Rightarrow> addr \<Rightarrow> addr" where "pte_slot pt i = pt + 8 * i"

definition get_pte :: "addr \<Rightarrow> addr K" where "get_pte a = kget (\<lambda>s. load64 (mem s) a)"
definition set_pte :: "addr \<Rightarrow> addr \<Rightarrow> unit K" where
  "set_pte a v = kmod (\<lambda>s. s\<lparr>mem := store64 (mem s) a v\<rparr>)"

definition kmemset :: "addr \<Rightarrow> byte \<Rightarrow> u32 \<Rightarrow> unit K" where
  "kmemset a c n = kmod (\<lambda>s. s\<lparr>mem := memset (mem s) a c n\<rparr>)"
definition kmemmove :: "addr \<Rightarrow> addr \<Rightarrow> u32 \<Rightarrow> unit K" where
  "kmemmove d a n = kmod (\<lambda>s. s\<lparr>mem := memmove (mem s) d a n\<rparr>)"
definition kwrite :: "addr \<Rightarrow> byte list \<Rightarrow> unit K" where
  "kwrite a bs = kmod (\<lambda>s. s\<lparr>mem := write_bytes (mem s) a bs\<rparr>)"

section \<open>Walking and mapping\<close>

primrec walk_from :: "nat \<Rightarrow> addr \<Rightarrow> addr \<Rightarrow> bool \<Rightarrow> addr K" where
  "walk_from 0 pt va alloc = kret (pte_slot pt (PX 0 va))"
| "walk_from (Suc l) pt va alloc =
     (let pte = pte_slot pt (PX (Suc l) va) in
      kbind (get_pte pte) (\<lambda>e.
      if e AND PTE_V \<noteq> 0 then walk_from l (PTE2PA e) va alloc
      else if \<not> alloc then kret 0
      else kbind kalloc (\<lambda>pg.
        if pg = 0 then kret 0
        else kbind (kmemset pg 0 (ucast PGSIZE)) (\<lambda>_.
             kbind (set_pte pte (PA2PTE pg OR PTE_V)) (\<lambda>_.
             walk_from l pg va alloc)))))"

definition walk :: "addr \<Rightarrow> addr \<Rightarrow> bool \<Rightarrow> addr K" where
  "walk pt va alloc = (if va \<ge> MAXVA then panic ''walk'' else walk_from 2 pt va alloc)"

definition walkaddr :: "addr \<Rightarrow> addr \<Rightarrow> addr K" where
  "walkaddr pt va =
     (if va \<ge> MAXVA then kret 0
      else kbind (walk pt va False) (\<lambda>pte.
        if pte = 0 then kret 0
        else kbind (get_pte pte) (\<lambda>e.
          if e AND PTE_V = 0 then kret 0
          else if e AND PTE_U = 0 then kret 0
          else kret (PTE2PA e))))"

text \<open>The body of the loop of \<open>mappages\<close>, on the virtual and physical addresses at hand.\<close>

definition mappages_step :: "addr \<Rightarrow> addr \<Rightarrow> addr \<Rightarrow> addr \<times> addr \<Rightarrow> (addr \<times> addr + int) K" where
  "mappages_step pt lastva perm = (\<lambda>(a, pa).
     kbind (walk pt a True) (\<lambda>pte.
     if pte = 0 then kret (Inr (- 1))
     else kbind (get_pte pte) (\<lambda>e.
       if e AND PTE_V \<noteq> 0 then panic ''mappages: remap''
       else kbind (set_pte pte (PA2PTE pa OR perm OR PTE_V)) (\<lambda>_.
         if a = lastva then kret (Inr 0) else kret (Inl (a + PGSIZE, pa + PGSIZE))))))"

definition mappages :: "addr \<Rightarrow> addr \<Rightarrow> addr \<Rightarrow> addr \<Rightarrow> addr \<Rightarrow> int K" where
  "mappages pt va sz pa perm =
     (if sz = 0 then panic ''mappages: size''
      else kloop (mappages_step pt (PGROUNDDOWN (va + sz - 1)) perm) (PGROUNDDOWN va, pa))"

definition kvmmap :: "addr \<Rightarrow> addr \<Rightarrow> addr \<Rightarrow> addr \<Rightarrow> addr \<Rightarrow> unit K" where
  "kvmmap kpgtbl va pa sz perm =
     kbind (mappages kpgtbl va sz pa perm) (\<lambda>r. kwhen (r \<noteq> 0) (panic ''kvmmap''))"

definition uvmunmap_step :: "addr \<Rightarrow> bool \<Rightarrow> addr \<Rightarrow> unit K" where
  "uvmunmap_step pt do_free a =
     kbind (walk pt a False) (\<lambda>pte.
     if pte = 0 then panic ''uvmunmap: walk''
     else kbind (get_pte pte) (\<lambda>e.
       if e AND PTE_V = 0 then panic ''uvmunmap: not mapped''
       else if PTE_FLAGS e = PTE_V then panic ''uvmunmap: not a leaf''
       else kseq [
         kwhen do_free (kfree (PTE2PA e)),
         set_pte pte 0]))"

definition uvmunmap :: "addr \<Rightarrow> addr \<Rightarrow> addr \<Rightarrow> bool \<Rightarrow> unit K" where
  "uvmunmap pt va npages do_free =
     (if va mod PGSIZE \<noteq> 0 then panic ''uvmunmap: not aligned''
      else kloop (\<lambda>a. if a < va + npages * PGSIZE
                      then kbind (uvmunmap_step pt do_free a) (\<lambda>_. kret (Inl (a + PGSIZE)))
                      else kret (Inr ())) va)"

section \<open>User address spaces\<close>

definition uvmcreate :: "addr K" where
  "uvmcreate =
     kbind kalloc (\<lambda>pt. if pt = 0 then kret 0
       else kbind (kmemset pt 0 (ucast PGSIZE)) (\<lambda>_. kret pt))"

definition uvmfirst :: "addr \<Rightarrow> byte list \<Rightarrow> unit K" where
  "uvmfirst pt src =
     (if 4096 \<le> length src then panic ''uvmfirst: more than a page''
      else kbind kalloc (\<lambda>m.
        kbind (kmemset m 0 (ucast PGSIZE)) (\<lambda>_.
        kbind (mappages pt 0 PGSIZE m (PTE_W OR PTE_R OR PTE_X OR PTE_U)) (\<lambda>_.
        kwrite m src))))"

text \<open>The number of pages goes through an \<open>int\<close>.\<close>

definition uvmdealloc :: "addr \<Rightarrow> addr \<Rightarrow> addr \<Rightarrow> addr K" where
  "uvmdealloc pt oldsz newsz =
     (if newsz \<ge> oldsz then kret oldsz
      else kbind (kwhen (PGROUNDUP newsz < PGROUNDUP oldsz)
             (let npages = ucast ((PGROUNDUP oldsz - PGROUNDUP newsz) div PGSIZE) :: u32 in
              uvmunmap pt (PGROUNDUP newsz) (scast npages) True)) (\<lambda>_.
        kret newsz))"

definition uvmalloc_step :: "addr \<Rightarrow> addr \<Rightarrow> addr \<Rightarrow> addr \<Rightarrow> addr \<Rightarrow> (addr + addr) K" where
  "uvmalloc_step pt oldsz newsz xperm a =
     (if \<not> a < newsz then kret (Inr newsz)
      else kbind kalloc (\<lambda>m.
        if m = 0 then kbind (uvmdealloc pt a oldsz) (\<lambda>_. kret (Inr 0))
        else kbind (kmemset m 0 (ucast PGSIZE)) (\<lambda>_.
          kbind (mappages pt a PGSIZE m (PTE_R OR PTE_U OR xperm)) (\<lambda>r.
          if r \<noteq> 0
          then kbind (kfree m) (\<lambda>_. kbind (uvmdealloc pt a oldsz) (\<lambda>_. kret (Inr 0)))
          else kret (Inl (a + PGSIZE))))))"

definition uvmalloc :: "addr \<Rightarrow> addr \<Rightarrow> addr \<Rightarrow> addr \<Rightarrow> addr K" where
  "uvmalloc pt oldsz newsz xperm =
     (if newsz < oldsz then kret oldsz
      else kloop (uvmalloc_step pt (PGROUNDUP oldsz) newsz xperm) (PGROUNDUP oldsz))"

text \<open>
  \<open>freewalk\<close> calls itself on every page table below; the first argument bounds the depth of these calls.
  There are fewer than \<open>2 ^ 52\<close> page frames, so deeper calls come back to a table that is being freed,
  and then go on without end.
\<close>

primrec freewalk_depth :: "nat \<Rightarrow> addr \<Rightarrow> unit K" where
  "freewalk_depth 0 pt = (\<lambda>s. Spin)"
| "freewalk_depth (Suc d) pt =
     kbind (kfor [0..<512] (\<lambda>i.
       let a = pte_slot pt (of_nat i) in
       kbind (get_pte a) (\<lambda>pte.
       if pte AND PTE_V \<noteq> 0 \<and> pte AND (PTE_R OR PTE_W OR PTE_X) = 0
       then kbind (freewalk_depth d (PTE2PA pte)) (\<lambda>_. set_pte a 0)
       else kwhen (pte AND PTE_V \<noteq> 0) (panic ''freewalk: leaf'')))) (\<lambda>_.
     kfree pt)"

definition freewalk :: "addr \<Rightarrow> unit K" where
  "freewalk pt = freewalk_depth (2 ^ 52) pt"

definition uvmfree :: "addr \<Rightarrow> addr \<Rightarrow> unit K" where
  "uvmfree pt sz = kseq [
     kwhen (sz > 0) (uvmunmap pt 0 (PGROUNDUP sz div PGSIZE) True),
     freewalk pt]"

text \<open>One page of \<open>uvmcopy\<close>: \<open>Inl\<close> the next address, or out of the loop, with the address at which memory ran out.\<close>

definition uvmcopy_step :: "addr \<Rightarrow> addr \<Rightarrow> addr \<Rightarrow> addr \<Rightarrow> (addr + addr option) K" where
  "uvmcopy_step old new sz i =
     (if \<not> i < sz then kret (Inr None)
      else kbind (walk old i False) (\<lambda>pte.
        if pte = 0 then panic ''uvmcopy: pte should exist''
        else kbind (get_pte pte) (\<lambda>e.
          if e AND PTE_V = 0 then panic ''uvmcopy: page not present''
          else kbind kalloc (\<lambda>m.
            if m = 0 then kret (Inr (Some i))
            else kbind (kmemmove m (PTE2PA e) (ucast PGSIZE)) (\<lambda>_.
              kbind (mappages new i PGSIZE m (PTE_FLAGS e)) (\<lambda>r.
              if r \<noteq> 0 then kbind (kfree m) (\<lambda>_. kret (Inr (Some i)))
              else kret (Inl (i + PGSIZE))))))))"

definition uvmcopy :: "addr \<Rightarrow> addr \<Rightarrow> addr \<Rightarrow> int K" where
  "uvmcopy old new sz =
     kbind (kloop (uvmcopy_step old new sz) 0) (\<lambda>r.
     case r of
       None \<Rightarrow> kret 0
     | Some i \<Rightarrow> kbind (uvmunmap new 0 (i div PGSIZE) True) (\<lambda>_. kret (- 1)))"

definition uvmclear :: "addr \<Rightarrow> addr \<Rightarrow> unit K" where
  "uvmclear pt va =
     kbind (walk pt va False) (\<lambda>pte.
     if pte = 0 then panic ''uvmclear''
     else kbind (get_pte pte) (\<lambda>e. set_pte pte (e AND NOT PTE_U)))"

section \<open>Copies between kernel and user memory\<close>

text \<open>The bytes from \<open>va\<close> to the end of its page, at most \<open>len\<close> of them.\<close>

definition page_span :: "addr \<Rightarrow> nat \<Rightarrow> nat" where
  "page_span va len = (let n = PGSIZE - (va - PGROUNDDOWN va) in
     if n > of_nat len then len else unat n)"

definition copyout_step :: "addr \<Rightarrow> addr \<times> byte list \<Rightarrow> (addr \<times> byte list + int) K" where
  "copyout_step pt = (\<lambda>(dstva, src).
     if src = [] then kret (Inr 0)
     else kbind (walkaddr pt (PGROUNDDOWN dstva)) (\<lambda>pa0.
       if pa0 = 0 then kret (Inr (- 1))
       else let n = page_span dstva (length src) in
         kbind (kwrite (pa0 + (dstva - PGROUNDDOWN dstva)) (take n src)) (\<lambda>_.
         kret (Inl (PGROUNDDOWN dstva + PGSIZE, drop n src)))))"

definition copyout :: "addr \<Rightarrow> addr \<Rightarrow> byte list \<Rightarrow> int K" where
  "copyout pt dstva src = kloop (copyout_step pt) (dstva, src)"

text \<open>\<open>copyin\<close> answers with the return value and the bytes stored at \<open>dst\<close>.\<close>

definition copyin_step ::
  "addr \<Rightarrow> byte list \<times> addr \<times> nat \<Rightarrow> (byte list \<times> addr \<times> nat + int \<times> byte list) K" where
  "copyin_step pt = (\<lambda>(dst, srcva, len).
     if len = 0 then kret (Inr (0, dst))
     else kbind (walkaddr pt (PGROUNDDOWN srcva)) (\<lambda>pa0.
       if pa0 = 0 then kret (Inr (- 1, dst))
       else let n = page_span srcva len in
         kbind (kget (\<lambda>s. read_bytes (mem s) (pa0 + (srcva - PGROUNDDOWN srcva)) n)) (\<lambda>bs.
         kret (Inl (dst @ bs, PGROUNDDOWN srcva + PGSIZE, len - n)))))"

definition copyin :: "addr \<Rightarrow> addr \<Rightarrow> nat \<Rightarrow> (int \<times> byte list) K" where
  "copyin pt srcva len = kloop (copyin_step pt) ([], srcva, len)"

text \<open>The inner loop of \<open>copyinstr\<close>: bytes up to \<open>n\<close>, and whether the NUL was among them.\<close>

primrec scan_nul :: "mem \<Rightarrow> addr \<Rightarrow> nat \<Rightarrow> byte list \<times> bool" where
  "scan_nul m p 0 = ([], False)"
| "scan_nul m p (Suc n) =
     (if m p = 0 then ([0], True)
      else case scan_nul m (p + 1) n of (bs, z) \<Rightarrow> (m p # bs, z))"

definition copyinstr_step ::
  "addr \<Rightarrow> byte list \<times> addr \<times> nat \<times> bool \<Rightarrow>
     (byte list \<times> addr \<times> nat \<times> bool + int \<times> byte list) K" where
  "copyinstr_step pt = (\<lambda>(dst, srcva, maxlen, got_null).
     if got_null \<or> maxlen = 0 then kret (Inr (if got_null then 0 else - 1, dst))
     else kbind (walkaddr pt (PGROUNDDOWN srcva)) (\<lambda>pa0.
       if pa0 = 0 then kret (Inr (- 1, dst))
       else kbind (kget (\<lambda>s. scan_nul (mem s) (pa0 + (srcva - PGROUNDDOWN srcva)) (page_span srcva maxlen)))
         (\<lambda>(bs, z). kret (Inl (dst @ bs, PGROUNDDOWN srcva + PGSIZE,
            maxlen - (if z then length bs - 1 else length bs), z)))))"

definition copyinstr :: "addr \<Rightarrow> addr \<Rightarrow> nat \<Rightarrow> (int \<times> byte list) K" where
  "copyinstr pt srcva maxlen = kloop (copyinstr_step pt) ([], srcva, maxlen, False)"

section \<open>The kernel's page table\<close>

definition UART0 :: addr where "UART0 = 0x10000000"
definition VIRTIO0 :: addr where "VIRTIO0 = 0x10001000"
definition PLIC :: addr where "PLIC = 0x0c000000"

definition proc_mapstacks :: "addr \<Rightarrow> unit K" where
  "proc_mapstacks kpgtbl =
     kfor [0..<NPROC] (\<lambda>p.
       kbind kalloc (\<lambda>pa.
       if pa = 0 then panic ''kalloc''
       else kvmmap kpgtbl (KSTACK p) pa PGSIZE (PTE_R OR PTE_W)))"

definition kvmmake :: "addr K" where
  "kvmmake =
     kbind kalloc (\<lambda>kpgtbl.
     kbind (kget syms) (\<lambda>sy.
     kbind (kseq [
       kmemset kpgtbl 0 (ucast PGSIZE),
       kvmmap kpgtbl UART0 UART0 PGSIZE (PTE_R OR PTE_W),
       kvmmap kpgtbl VIRTIO0 VIRTIO0 PGSIZE (PTE_R OR PTE_W),
       kvmmap kpgtbl PLIC PLIC 0x400000 (PTE_R OR PTE_W),
       kvmmap kpgtbl KERNBASE KERNBASE (sym_etext sy - KERNBASE) (PTE_R OR PTE_X),
       kvmmap kpgtbl (sym_etext sy) (sym_etext sy) (PHYSTOP - sym_etext sy) (PTE_R OR PTE_W),
       kvmmap kpgtbl TRAMPOLINE (sym_trampoline sy) PGSIZE (PTE_R OR PTE_X),
       proc_mapstacks kpgtbl]) (\<lambda>_.
     kret kpgtbl)))"

definition kvminit :: "unit K" where
  "kvminit = kbind kvmmake (\<lambda>pt. kmod (\<lambda>s. s\<lparr>kernel_pagetable := pt\<rparr>))"

text \<open>The model has no TLB: the \<open>sfence.vma\<close> instructions have no effect on it.\<close>

definition sfence_vma :: "unit K" where "sfence_vma = kret ()"

definition kvminithart :: "unit K" where
  "kvminithart = kseq [
     sfence_vma,
     kmod (\<lambda>s. s\<lparr>csr := (csr s)\<lparr>r_satp := MAKE_SATP (kernel_pagetable s)\<rparr>\<rparr>),
     sfence_vma]"

end
