(* ===== verification/Pagetable.thy ===== *)
theory Pagetable
  imports Vm
begin

text \<open>
  Page tables as trees. The operations of \<open>vm.c\<close> work on words scattered over page frames; here a
  page table is a tree of frames that are pairwise distinct, and its meaning is the map from virtual
  page to page-table entry. \<open>walk\<close> with allocation grows the tree without changing the map;
  storing through the pointer it returns changes the map at one page.
\<close>

section \<open>Slots of a page\<close>

definition aligned :: "addr \<Rightarrow> bool" where
  "aligned x \<longleftrightarrow> x mod PGSIZE = 0"

definition pg_same :: "mem \<Rightarrow> mem \<Rightarrow> addr \<Rightarrow> bool" where
  "pg_same m m' x \<longleftrightarrow> (\<forall>i<4096. m' (x + of_nat i) = m (x + of_nat i))"

text \<open>The memory changed in no page frame outside \<open>S\<close>.\<close>

definition only_pages :: "mem \<Rightarrow> mem \<Rightarrow> addr set \<Rightarrow> bool" where
  "only_pages m m' S \<longleftrightarrow> (\<forall>x. aligned x \<longrightarrow> x \<notin> S \<longrightarrow> pg_same m m' x)"

lemma pg_same_refl [simp]: "pg_same m m x"
  by (simp add: pg_same_def)

lemma only_pages_refl [simp]: "only_pages m m S"
  by (simp add: only_pages_def)

lemma only_pages_trans: "only_pages m m' S \<Longrightarrow> only_pages m' m'' S \<Longrightarrow> only_pages m m'' S"
  by (simp add: only_pages_def pg_same_def)

lemma only_pages_mono: "only_pages m m' S \<Longrightarrow> S \<subseteq> T \<Longrightarrow> only_pages m m' T"
  by (auto simp: only_pages_def)

lemma only_pagesD: "only_pages m m' S \<Longrightarrow> aligned x \<Longrightarrow> x \<notin> S \<Longrightarrow> pg_same m m' x"
  by (simp add: only_pages_def)

lemma slot_offset: "i < 512 \<Longrightarrow> pte_slot pt i = pt + of_nat (8 * unat i)"
  by (simp add: pte_slot_def)

lemma unat_512: "i < (512 :: addr) \<Longrightarrow> unat i < 512"
  by (simp add: word_less_nat_alt)

text \<open>An address inside a page determines the page and the offset.\<close>

lemma page_offset_inj:
  assumes "aligned a" "aligned b" "i < 4096" "j < 4096"
    and eq: "a + of_nat i = b + of_nat j"
  shows "a = b \<and> i = j"
proof -
  have "a = b"
  proof (rule ccontr)
    assume "a \<noteq> b"
    then have "apart a 4096 b 4096" using assms by (intro pages_apart) (simp_all add: aligned_def)
    then show False using assms unfolding apart_def by blast
  qed
  with eq have "unat (of_nat i :: addr) = unat (of_nat j :: addr)" by simp
  moreover have "i < 2 ^ 64" "j < 2 ^ 64" using assms(3,4) by simp_all
  ultimately have "i = j" by (simp only: unat_of_nat_addr)
  with \<open>a = b\<close> show ?thesis by simp
qed

lemma slot_inj:
  assumes "aligned a" "aligned b" "i < 512" "j < 512" "pte_slot a i = pte_slot b j"
  shows "a = b \<and> i = j"
proof -
  have "8 * unat i < 4096" "8 * unat j < 4096" using assms(3,4) unat_512 by fastforce+
  with assms have "a = b \<and> 8 * unat i = 8 * unat j"
    by (intro page_offset_inj) (simp_all add: slot_offset)
  then show ?thesis by (simp add: word_unat_eq_iff)
qed

lemma slot_nonzero:
  assumes "aligned a" "i < 512" "a \<noteq> 0"
  shows "pte_slot a i \<noteq> 0"
  using slot_inj [of a 0 i 0] assms by (auto simp: pte_slot_def aligned_def)

lemma load_slot_same:
  assumes "pg_same m m' x" "i < 512"
  shows "load64 m' (pte_slot x i) = load64 m (pte_slot x i)"
proof -
  have "m' (pte_slot x i + of_nat k) = m (pte_slot x i + of_nat k)" if "k < 8" for k
  proof -
    have "8 * unat i + k < 4096" using unat_512 [OF assms(2)] that by simp
    then have "m' (x + of_nat (8 * unat i + k)) = m (x + of_nat (8 * unat i + k))"
      using assms(1) unfolding pg_same_def by blast
    then show ?thesis using assms(2) by (simp add: slot_offset add.assoc)
  qed
  then have "read_bytes m' (pte_slot x i) 8 = read_bytes m (pte_slot x i) 8"
    by (intro read_bytes_cong) blast
  then show ?thesis by (simp add: load64_def)
qed

text \<open>A write inside a page changes only that page.\<close>

lemma write_in_page:
  assumes "aligned x" "k + length bs \<le> 4096"
  shows "only_pages m (write_bytes m (x + of_nat k) bs) {x}"
  unfolding only_pages_def pg_same_def
proof (intro allI impI)
  fix y i
  assume y: "aligned y" "y \<notin> {x}" "i < (4096 :: nat)"
  have "apart (x + of_nat k) (length bs) y 4096"
    unfolding apart_def
  proof (intro allI impI notI)
    fix u v
    assume uv: "u < length bs" "v < (4096 :: nat)" "x + of_nat k + of_nat u = y + of_nat v"
    then have "x + of_nat (k + u) = y + of_nat v" by (simp add: add.assoc)
    then have "x = y" using page_offset_inj [of x y "k + u" v] assms y uv by simp
    with y show False by simp
  qed
  then have "length bs \<le> unat (y + of_nat i - (x + of_nat k))" using y(3) by (intro apart_outside)
  then show "write_bytes m (x + of_nat k) bs (y + of_nat i) = m (y + of_nat i)"
    by (simp add: write_bytes_def)
qed

lemma store_slot_only:
  assumes "aligned x" "i < 512"
  shows "only_pages m (store64 m (pte_slot x i) v) {x}"
  unfolding store64_def slot_offset [OF assms(2)]
  using assms(1) unat_512 [OF assms(2)] by (intro write_in_page) simp_all

lemma write_page_only:
  assumes "aligned x" "length bs \<le> 4096"
  shows "only_pages m (write_bytes m x bs) {x}"
  using write_in_page [of x 0 bs m] assms by simp

lemma load_slot_store:
  assumes "aligned x" "aligned y" "i < 512" "j < 512" "x \<noteq> y \<or> i \<noteq> j"
  shows "load64 (store64 m (pte_slot x i) v) (pte_slot y j) = load64 m (pte_slot y j)"
proof (rule load_store64_apart)
  show "apart (pte_slot x i) 8 (pte_slot y j) 8"
    unfolding apart_def
  proof (intro allI impI notI)
    fix u w
    assume uw: "u < 8" "w < 8" "pte_slot x i + of_nat u = pte_slot y j + of_nat w"
    then have "x + of_nat (8 * unat i + u) = y + of_nat (8 * unat j + w)"
      using assms by (simp add: slot_offset add.assoc)
    moreover have "8 * unat i + u < 4096" "8 * unat j + w < 4096"
      using uw unat_512 [OF assms(3)] unat_512 [OF assms(4)] by simp_all
    ultimately have "x = y \<and> 8 * unat i + u = 8 * unat j + w"
      using assms by (intro page_offset_inj)
    then have "x = y" "8 * unat i + u = 8 * unat j + w" by blast+
    moreover from this(2) have "unat i = unat j" using uw by presburger
    ultimately show False using assms(5) by (simp add: word_unat_eq_iff)
  qed
qed

lemma PX_less [simp]: "PX l va < 512"
proof -
  have "drop_bit (PXSHIFT l) va AND PXMASK = take_bit 9 (drop_bit (PXSHIFT l) va)"
    by (simp add: PXMASK_def take_bit_eq_mask mask_eq_exp_minus_1)
  moreover have "take_bit 9 x < (512 :: addr)" for x :: addr
  proof -
    have "unat (take_bit 9 x) = take_bit 9 (unat x)" by (simp add: unsigned_take_bit_eq)
    also have "\<dots> < 2 ^ 9" by (rule take_bit_nat_less_exp)
    finally show ?thesis by (simp add: word_less_nat_alt)
  qed
  ultimately show ?thesis by (simp add: PX_def)
qed

section \<open>The tree\<close>

abbreviation valid_slot :: "mem \<Rightarrow> addr \<Rightarrow> addr \<Rightarrow> bool" where
  "valid_slot m pt i \<equiv> load64 m (pte_slot pt i) AND PTE_V \<noteq> 0"

abbreviation child :: "mem \<Rightarrow> addr \<Rightarrow> addr \<Rightarrow> addr" where
  "child m pt i \<equiv> PTE2PA (load64 m (pte_slot pt i))"

primrec tset :: "nat \<Rightarrow> mem \<Rightarrow> addr \<Rightarrow> addr set" where
  "tset 0 m pt = {pt}"
| "tset (Suc l) m pt = insert pt (\<Union>i\<in>{i. i < 512 \<and> valid_slot m pt i}. tset l m (child m pt i))"

primrec twf :: "nat \<Rightarrow> mem \<Rightarrow> addr \<Rightarrow> bool" where
  "twf 0 m pt \<longleftrightarrow> aligned pt \<and> pt \<noteq> 0"
| "twf (Suc l) m pt \<longleftrightarrow> aligned pt \<and> pt \<noteq> 0 \<and>
     (\<forall>i<512. valid_slot m pt i \<longrightarrow> twf l m (child m pt i) \<and> pt \<notin> tset l m (child m pt i)) \<and>
     (\<forall>i<512. \<forall>j<512. i \<noteq> j \<longrightarrow> valid_slot m pt i \<longrightarrow> valid_slot m pt j \<longrightarrow>
        tset l m (child m pt i) \<inter> tset l m (child m pt j) = {})"

primrec pte_at :: "nat \<Rightarrow> mem \<Rightarrow> addr \<Rightarrow> addr \<Rightarrow> addr option" where
  "pte_at 0 m pt va = Some (pte_slot pt (PX 0 va))"
| "pte_at (Suc l) m pt va =
     (if valid_slot m pt (PX (Suc l) va) then pte_at l m (child m pt (PX (Suc l) va)) va else None)"

lemma twf_root: "twf l m pt \<Longrightarrow> aligned pt \<and> pt \<noteq> 0"
  by (cases l) auto

lemma root_in_tset: "pt \<in> tset l m pt"
  by (cases l) auto

lemma tset_aligned: "twf l m pt \<Longrightarrow> x \<in> tset l m pt \<Longrightarrow> aligned x \<and> x \<noteq> 0"
proof (induction l arbitrary: pt)
  case 0
  then show ?case by simp
next
  case (Suc l)
  then show ?case by auto
qed

text \<open>A tree none of whose pages changed is the same tree.\<close>

lemma tree_frame:
  "(\<And>x. x \<in> tset l m pt \<Longrightarrow> pg_same m m' x) \<Longrightarrow>
     tset l m' pt = tset l m pt \<and> (twf l m' pt \<longleftrightarrow> twf l m pt) \<and> pte_at l m' pt va = pte_at l m pt va"
proof (induction l arbitrary: pt)
  case 0
  then show ?case by simp
next
  case (Suc l)
  have slots: "load64 m' (pte_slot pt i) = load64 m (pte_slot pt i)" if "i < 512" for i
    using Suc.prems [of pt] that by (intro load_slot_same) simp_all
  have sub: "tset l m' (child m pt i) = tset l m (child m pt i) \<and>
      (twf l m' (child m pt i) \<longleftrightarrow> twf l m (child m pt i)) \<and>
      pte_at l m' (child m pt i) va = pte_at l m (child m pt i) va" if "i < 512" "valid_slot m pt i" for i
    using that Suc.prems by (intro Suc.IH) auto
  have "tset (Suc l) m' pt = tset (Suc l) m pt" using slots sub by auto
  moreover have "twf (Suc l) m' pt \<longleftrightarrow> twf (Suc l) m pt" using slots sub by (auto; metis)
  moreover have "pte_at (Suc l) m' pt va = pte_at (Suc l) m pt va" using slots [OF PX_less] sub [OF PX_less] by simp
  ultimately show ?case by blast
qed

lemma twf_child:
  "twf (Suc l) m pt \<Longrightarrow> i < 512 \<Longrightarrow> valid_slot m pt i \<Longrightarrow>
     twf l m (child m pt i) \<and> pt \<notin> tset l m (child m pt i) \<and> tset l m (child m pt i) \<subseteq> tset (Suc l) m pt"
  by auto

text \<open>
  One subtree changed, inside its own pages and fresh pages \<open>N\<close>: the rest of the tree is what
  it was.
\<close>

lemma tree_glue:
  assumes wf: "twf (Suc l) m pt" and i: "i < 512" "valid_slot m pt i" and c: "c = child m pt i"
    and same: "only_pages m m' (tset l m c \<union> N)"
    and fresh: "N \<inter> tset (Suc l) m pt = {}"
    and wf': "twf l m' c" and sub: "tset l m' c \<subseteq> tset l m c \<union> N"
  shows "twf (Suc l) m' pt" "tset (Suc l) m' pt \<subseteq> tset (Suc l) m pt \<union> N"
    "pte_at (Suc l) m' pt va =
       (if PX (Suc l) va = i then pte_at l m' c va else pte_at (Suc l) m pt va)"
proof -
  have outc: "pt \<notin> tset l m c" "tset l m c \<subseteq> tset (Suc l) m pt"
    using twf_child [OF wf i] c by auto
  have "pt \<notin> N" using fresh by auto
  then have "pg_same m m' pt"
    using twf_root [OF wf] outc by (intro only_pagesD [OF same]) auto
  then have slots: "load64 m' (pte_slot pt j) = load64 m (pte_slot pt j)" if "j < 512" for j
    using that by (intro load_slot_same)
  have others: "tset l m' (child m pt j) = tset l m (child m pt j) \<and>
      (twf l m' (child m pt j) \<longleftrightarrow> twf l m (child m pt j)) \<and>
      pte_at l m' (child m pt j) w = pte_at l m (child m pt j) w"
    if j: "j < 512" "j \<noteq> i" "valid_slot m pt j" for j w
  proof (rule tree_frame)
    fix x
    assume x: "x \<in> tset l m (child m pt j)"
    have "tset l m (child m pt i) \<inter> tset l m (child m pt j) = {}"
      using wf i j unfolding twf.simps by blast
    moreover have "x \<notin> N" using x fresh j by auto
    ultimately show "pg_same m m' x"
      using x c tset_aligned [OF conjunct1 [OF twf_child [OF wf j(1,3)]]] by (intro only_pagesD [OF same]) auto
  qed
  have ts: "tset l m' (child m' pt j) \<subseteq> tset l m (child m pt j) \<union> (if j = i then N else {})"
    if "j < 512" "valid_slot m pt j" for j
    using that slots others sub c by (cases "j = i") auto
  show "tset (Suc l) m' pt \<subseteq> tset (Suc l) m pt \<union> N"
    using ts slots by (fastforce split: if_splits)
  have disj: "tset l m' (child m' pt j) \<inter> tset l m' (child m' pt k) = {}"
    if "j < 512" "k < 512" "j \<noteq> k" "valid_slot m pt j" "valid_slot m pt k" for j k
  proof -
    have "tset l m (child m pt j) \<inter> tset l m (child m pt k) = {}"
      using wf that unfolding twf.simps by blast
    moreover have "tset l m (child m pt j) \<inter> N = {}" "tset l m (child m pt k) \<inter> N = {}"
      using that fresh by auto
    moreover have "tset l m' (child m' pt k) \<subseteq> tset l m (child m pt k)" if "j = i"
      using ts [of k] that \<open>j \<noteq> k\<close> \<open>k < 512\<close> \<open>valid_slot m pt k\<close> by auto
    moreover have "tset l m' (child m' pt j) \<subseteq> tset l m (child m pt j)" if "j \<noteq> i"
      using ts [of j] that \<open>j < 512\<close> \<open>valid_slot m pt j\<close> by auto
    moreover have "tset l m' (child m' pt j) \<subseteq> tset l m (child m pt j) \<union> N"
      "tset l m' (child m' pt k) \<subseteq> tset l m (child m pt k) \<union> N"
      using ts [of j] ts [of k] that by (auto split: if_splits)
    ultimately show ?thesis by blast
  qed
  have subwf: "twf l m' (child m' pt j) \<and> pt \<notin> tset l m' (child m' pt j)"
    if "j < 512" "valid_slot m pt j" for j
    using that slots others [of j] wf' c twf_child [OF wf that] ts [OF that] \<open>pt \<notin> N\<close>
    by (cases "j = i") auto
  show "twf (Suc l) m' pt"
    using twf_root [OF wf] disj subwf slots by simp
  show "pte_at (Suc l) m' pt va =
       (if PX (Suc l) va = i then pte_at l m' c va else pte_at (Suc l) m pt va)"
    using slots [OF PX_less] others [OF PX_less] i c by auto
qed

section \<open>Entries\<close>

text \<open>The slot found for a page lies in a page of the tree, and no other page's slot is there.\<close>

lemma pte_at_slot:
  "pte_at l m pt va = Some a \<Longrightarrow> \<exists>x\<in>tset l m pt. a = pte_slot x (PX 0 va)"
proof (induction l arbitrary: pt)
  case 0
  then show ?case by simp
next
  case (Suc l)
  then have v: "valid_slot m pt (PX (Suc l) va)" and "pte_at l m (child m pt (PX (Suc l) va)) va = Some a"
    by (simp_all split: if_splits)
  then obtain x where "x \<in> tset l m (child m pt (PX (Suc l) va))" "a = pte_slot x (PX 0 va)"
    using Suc.IH by blast
  moreover have "tset l m (child m pt (PX (Suc l) va)) \<subseteq> tset (Suc l) m pt"
    using v by (simp only: tset.simps) (use PX_less in blast)
  ultimately show ?case by blast
qed

lemma pte_at_inj:
  "twf l m pt \<Longrightarrow> pte_at l m pt va = Some a \<Longrightarrow> pte_at l m pt vb = Some a \<Longrightarrow> \<forall>k\<le>l. PX k va = PX k vb"
proof (induction l arbitrary: pt)
  case 0
  then show ?case using slot_inj [of pt pt "PX 0 va" "PX 0 vb"] by simp
next
  case (Suc l)
  let ?i = "PX (Suc l) va" and ?j = "PX (Suc l) vb"
  have va: "valid_slot m pt ?i" "pte_at l m (child m pt ?i) va = Some a"
    and vb: "valid_slot m pt ?j" "pte_at l m (child m pt ?j) vb = Some a"
    using Suc.prems by (simp_all split: if_splits)
  have wf: "twf l m (child m pt ?i)" "twf l m (child m pt ?j)"
    using Suc.prems(1) va vb by simp_all
  have ij: "?i = ?j"
  proof (rule ccontr)
    assume "?i \<noteq> ?j"
    then have disj: "tset l m (child m pt ?i) \<inter> tset l m (child m pt ?j) = {}"
      using Suc.prems(1) va(1) vb(1) PX_less unfolding twf.simps by blast
    obtain x y where x: "x \<in> tset l m (child m pt ?i)" "a = pte_slot x (PX 0 va)"
      and y: "y \<in> tset l m (child m pt ?j)" "a = pte_slot y (PX 0 vb)"
      using pte_at_slot [OF va(2)] pte_at_slot [OF vb(2)] by blast
    then have "x = y"
      using slot_inj [of x y "PX 0 va" "PX 0 vb"] tset_aligned [OF wf(1)] tset_aligned [OF wf(2)] by simp
    with x y disj show False by blast
  qed
  with Suc.IH [OF wf(1) va(2)] vb(2) have "\<forall>k\<le>l. PX k va = PX k vb" by simp
  with ij show ?case by (auto simp: le_Suc_eq)
qed

text \<open>Storing an entry at the lowest level leaves the tree as it is.\<close>

lemma leaf_store:
  assumes "twf l m pt" "pte_at l m pt va = Some a"
  shows "twf l (store64 m a v) pt \<and> tset l (store64 m a v) pt \<subseteq> tset l m pt \<and>
     only_pages m (store64 m a v) (tset l m pt) \<and> (\<forall>w. pte_at l (store64 m a v) pt w = pte_at l m pt w)"
  using assms
proof (induction l arbitrary: pt)
  case 0
  then show ?case using store_slot_only [of pt "PX 0 va" m v] by simp
next
  case (Suc l)
  let ?i = "PX (Suc l) va"
  let ?c = "child m pt ?i"
  let ?m = "store64 m a v"
  have v: "valid_slot m pt ?i" "pte_at l m ?c va = Some a"
    using Suc.prems by (simp_all split: if_splits)
  have c: "twf l m ?c" "tset l m ?c \<subseteq> tset (Suc l) m pt" using twf_child [OF Suc.prems(1) PX_less v(1)] by auto
  from Suc.IH [OF c(1) v(2)] have ih: "twf l ?m ?c" "tset l ?m ?c \<subseteq> tset l m ?c"
    "only_pages m ?m (tset l m ?c)" "\<And>w. pte_at l ?m ?c w = pte_at l m ?c w" by auto
  note glue = tree_glue [OF Suc.prems(1) PX_less v(1) refl, of ?m "{}"]
  have "twf (Suc l) ?m pt" "tset (Suc l) ?m pt \<subseteq> tset (Suc l) m pt"
    using glue(1,2) ih by auto
  moreover have "pte_at (Suc l) ?m pt w = pte_at (Suc l) m pt w" for w
  proof -
    have "pte_at (Suc l) ?m pt w = (if PX (Suc l) w = ?i then pte_at l ?m ?c w else pte_at (Suc l) m pt w)"
      using ih by (intro glue(3)) auto
    also have "\<dots> = pte_at (Suc l) m pt w" using ih(4) v(1) by auto
    finally show ?thesis .
  qed
  moreover have "only_pages m ?m (tset (Suc l) m pt)" using ih(3) c(2) by (rule only_pages_mono)
  ultimately show ?case by blast
qed

text \<open>The entry for a virtual address: 0, which is not valid, where the walk ends early.\<close>

definition entry :: "nat \<Rightarrow> mem \<Rightarrow> addr \<Rightarrow> addr \<Rightarrow> addr" where
  "entry l m pt va = (case pte_at l m pt va of None \<Rightarrow> 0 | Some a \<Rightarrow> load64 m a)"

lemma entry_Suc:
  "entry (Suc l) m pt va =
     (if valid_slot m pt (PX (Suc l) va) then entry l m (child m pt (PX (Suc l) va)) va else 0)"
  by (simp add: entry_def)

text \<open>Two addresses that agree in the indices of all levels, that is, in their virtual page.\<close>

definition same_vpage :: "nat \<Rightarrow> addr \<Rightarrow> addr \<Rightarrow> bool" where
  "same_vpage l va vb \<longleftrightarrow> (\<forall>k\<le>l. PX k va = PX k vb)"

lemma pte_at_same_vpage: "same_vpage l va vb \<Longrightarrow> pte_at l m pt va = pte_at l m pt vb"
  by (induction l arbitrary: pt) (auto simp: same_vpage_def)

lemma entry_leaf_store:
  assumes wf: "twf l m pt" and a: "pte_at l m pt va = Some a"
  shows "entry l (store64 m a v) pt vb = (if same_vpage l va vb then v else entry l m pt vb)"
proof (cases "same_vpage l va vb")
  case True
  then have "pte_at l m pt vb = Some a" using a pte_at_same_vpage by metis
  then show ?thesis using True leaf_store [OF assms, of v] by (simp add: entry_def)
next
  case False
  show ?thesis
  proof (cases "pte_at l m pt vb")
    case None
    then show ?thesis using False leaf_store [OF assms, of v] by (simp add: entry_def)
  next
    case (Some b)
    have "a \<noteq> b" using pte_at_inj [OF wf a] Some False by (auto simp: same_vpage_def)
    obtain x y where x: "x \<in> tset l m pt" "a = pte_slot x (PX 0 va)"
      and y: "y \<in> tset l m pt" "b = pte_slot y (PX 0 vb)"
      using pte_at_slot [OF a] pte_at_slot [OF Some] by blast
    have "aligned x" "aligned y" using tset_aligned [OF wf] x y by blast+
    then have "load64 (store64 m a v) b = load64 m b"
      using \<open>a \<noteq> b\<close> unfolding x(2) y(2) by (intro load_slot_store) auto
    then show ?thesis using False Some leaf_store [OF assms, of v] by (simp add: entry_def)
  qed
qed

lemma entry_frame:
  assumes wf: "twf l m pt" and same: "\<And>x. x \<in> tset l m pt \<Longrightarrow> pg_same m m' x"
  shows "entry l m' pt va = entry l m pt va"
proof (cases "pte_at l m pt va")
  case None
  then show ?thesis using tree_frame [OF same] by (simp add: entry_def)
next
  case (Some a)
  from pte_at_slot [OF this] obtain x where x: "x \<in> tset l m pt" "a = pte_slot x (PX 0 va)" by blast
  then have "load64 m' a = load64 m a" using load_slot_same [OF same] by simp
  then show ?thesis using Some tree_frame [OF same] by (simp add: entry_def)
qed

section \<open>Walking\<close>

lemma walk_from_ro:
  "twf l (mem s) pt \<Longrightarrow> walk_from l pt va False s = Ret (case pte_at l (mem s) pt va of None \<Rightarrow> 0 | Some a \<Rightarrow> a) s"
proof (induction l arbitrary: pt)
  case 0
  then show ?case by (simp add: exec_simps)
next
  case (Suc l)
  then show ?case by (simp add: Let_def get_pte_def exec_simps)
qed

lemma walk_from_found: "pte_at l (mem s) pt va = Some a \<Longrightarrow> walk_from l pt va alloc s = Ret a s"
proof (induction l arbitrary: pt)
  case 0
  then show ?case by (simp add: exec_simps)
next
  case (Suc l)
  then have "valid_slot (mem s) pt (PX (Suc l) va)"
    and "pte_at l (mem s) (child (mem s) pt (PX (Suc l) va)) va = Some a" by (simp_all split: if_splits)
  with Suc.IH [OF this(2)] show ?case by (cases alloc) (simp_all add: Let_def get_pte_def exec_simps)
qed

lemma pte_at_nonzero: "twf l m pt \<Longrightarrow> pte_at l m pt va = Some a \<Longrightarrow> a \<noteq> 0"
  using pte_at_slot [of l m pt va a] tset_aligned [of l m pt] slot_nonzero by auto

lemma walk_ro:
  "twf 2 (mem s) pt \<Longrightarrow> va < MAXVA \<Longrightarrow>
     walk pt va False s = Ret (case pte_at 2 (mem s) pt va of None \<Rightarrow> 0 | Some a \<Rightarrow> a) s"
  by (simp add: walk_def walk_from_ro not_le [symmetric])

lemma walkaddr_eq:
  assumes "twf 2 (mem s) pt"
  shows "walkaddr pt va s =
    Ret (let e = entry 2 (mem s) pt va in
         if va < MAXVA \<and> e AND PTE_V \<noteq> 0 \<and> e AND PTE_U \<noteq> 0 then PTE2PA e else 0) s"
proof (cases "pte_at 2 (mem s) pt va")
  case None
  then show ?thesis using walk_ro [OF assms]
    by (cases "va < MAXVA") (simp_all add: walkaddr_def exec_simps entry_def not_le [symmetric])
next
  case (Some a)
  then show ?thesis using walk_ro [OF assms] pte_at_nonzero [OF assms Some]
    by (cases "va < MAXVA") (simp_all add: walkaddr_def exec_simps entry_def not_le [symmetric] get_pte_def)
qed

section \<open>Growing the tree\<close>

lemma entry_glue:
  assumes wf: "twf (Suc l) m pt" and i: "i < 512" "valid_slot m pt i" and c: "c = child m pt i"
    and same: "only_pages m m' (tset l m c \<union> N)"
    and fresh: "N \<inter> tset (Suc l) m pt = {}"
  shows "entry (Suc l) m' pt va = (if PX (Suc l) va = i then entry l m' c va else entry (Suc l) m pt va)"
proof -
  let ?j = "PX (Suc l) va"
  have outc: "pt \<notin> tset l m c" "pt \<notin> N" using twf_child [OF wf i] c fresh by auto
  then have "pg_same m m' pt" using twf_root [OF wf] by (intro only_pagesD [OF same]) auto
  then have slot: "load64 m' (pte_slot pt ?j) = load64 m (pte_slot pt ?j)" by (intro load_slot_same) simp_all
  have "entry l m' (child m pt ?j) va = entry l m (child m pt ?j) va" if j: "?j \<noteq> i" "valid_slot m pt ?j"
  proof (rule entry_frame)
    show sub: "twf l m (child m pt ?j)" using twf_child [OF wf PX_less j(2)] by simp
    fix x
    assume x: "x \<in> tset l m (child m pt ?j)"
    have "tset l m (child m pt i) \<inter> tset l m (child m pt ?j) = {}"
      using wf i j PX_less unfolding twf.simps by blast
    moreover have "x \<notin> N" using x fresh twf_child [OF wf PX_less j(2)] by blast
    ultimately show "pg_same m m' x"
      using x c tset_aligned [OF sub x] by (intro only_pagesD [OF same]) auto
  qed
  then show ?thesis using slot i(2) c by (auto simp: entry_Suc)
qed

text \<open>Only the memory and the free list differ.\<close>

definition vm_frame :: "'z kstate_scheme \<Rightarrow> 'z kstate_scheme \<Rightarrow> bool" where
  "vm_frame s t \<longleftrightarrow> t = s\<lparr>mem := mem t, freelist := freelist t\<rparr>"

lemma vm_frame_refl [simp]: "vm_frame s s"
  by (simp add: vm_frame_def)

lemma vm_frame_trans: "vm_frame s t \<Longrightarrow> vm_frame t u \<Longrightarrow> vm_frame s u"
proof -
  assume 1: "vm_frame s t" and 2: "vm_frame t u"
  have "t\<lparr>mem := m, freelist := f\<rparr> = s\<lparr>mem := m, freelist := f\<rparr>" for m f
    using arg_cong [OF 1 [unfolded vm_frame_def], of "\<lambda>x. x\<lparr>mem := m, freelist := f\<rparr>"] by simp
  with 2 show "vm_frame s u" unfolding vm_frame_def by simp
qed

lemma vm_frame_mem [simp]: "vm_frame s (mem_update f s)"
  by (simp add: vm_frame_def)

lemma vm_frame_simps:
  assumes "vm_frame s t"
  shows "kmem_ready t = kmem_ready s" "page_ok t = page_ok s" "syms t = syms s" "procs t = procs s"
    "cpus t = cpus s" "locks t = locks s" "hart t = hart s"
  using arg_cong [OF assms [unfolded vm_frame_def], of kmem_ready]
    arg_cong [OF assms [unfolded vm_frame_def], of syms]
    arg_cong [OF assms [unfolded vm_frame_def], of procs]
    arg_cong [OF assms [unfolded vm_frame_def], of cpus]
    arg_cong [OF assms [unfolded vm_frame_def], of locks]
    arg_cong [OF assms [unfolded vm_frame_def], of hart]
  by (simp_all add: kmem_ready_def page_ok_def fun_eq_iff)

lemma free_pages_only:
  assumes "free_pages s xs" "only_pages (mem s) m S" "S \<inter> set xs = {}"
  shows "free_pages (s\<lparr>mem := m\<rparr>) xs"
proof -
  have "load64 m x = load64 (mem s) x" if "x \<in> set xs" for x
  proof -
    have "aligned x" using assms(1) that by (auto simp: free_pages_def page_ok_def aligned_def)
    then have "pg_same (mem s) m x" using assms that by (intro only_pagesD [OF assms(2)]) auto
    then show ?thesis using load_slot_same [of "mem s" m x 0] by (simp add: pte_slot_def)
  qed
  then show ?thesis
    using assms(1) flist_cong [of xs m "mem s"] by (simp add: free_pages_def page_ok_def)
qed

definition grown :: "nat \<Rightarrow> addr \<Rightarrow> kworld \<Rightarrow> addr list \<Rightarrow> kworld \<Rightarrow> addr list \<Rightarrow> bool" where
  "grown l pt s xs t zs \<longleftrightarrow> (\<exists>ys. xs = ys @ zs \<and> vm_frame s t \<and> free_pages t zs \<and> twf l (mem t) pt \<and>
     tset l (mem t) pt \<subseteq> tset l (mem s) pt \<union> set ys \<and>
     only_pages (mem s) (mem t) (tset l (mem s) pt \<union> set ys) \<and>
     (\<forall>va. entry l (mem t) pt va = entry l (mem s) pt va))"

lemma grown_refl: "twf l (mem s) pt \<Longrightarrow> free_pages s xs \<Longrightarrow> grown l pt s xs s xs"
  by (auto simp: grown_def)

lemma grown_trans:
  assumes "grown l pt s xs t ys" "grown l pt t ys u zs"
  shows "grown l pt s xs u zs"
proof -
  from assms(1) obtain as where 1: "xs = as @ ys" "vm_frame s t"
    "tset l (mem t) pt \<subseteq> tset l (mem s) pt \<union> set as"
    "only_pages (mem s) (mem t) (tset l (mem s) pt \<union> set as)"
    "\<forall>va. entry l (mem t) pt va = entry l (mem s) pt va" unfolding grown_def by blast
  from assms(2) obtain bs where 2: "ys = bs @ zs" "vm_frame t u" "free_pages u zs" "twf l (mem u) pt"
    "tset l (mem u) pt \<subseteq> tset l (mem t) pt \<union> set bs"
    "only_pages (mem t) (mem u) (tset l (mem t) pt \<union> set bs)"
    "\<forall>va. entry l (mem u) pt va = entry l (mem t) pt va" unfolding grown_def by blast
  let ?S = "tset l (mem s) pt \<union> set (as @ bs)"
  have "only_pages (mem s) (mem t) ?S" "only_pages (mem t) (mem u) ?S"
    using 1(3) by (auto intro: only_pages_mono [OF 1(4)] only_pages_mono [OF 2(6)])
  then have "only_pages (mem s) (mem u) ?S" by (rule only_pages_trans)
  moreover have "tset l (mem u) pt \<subseteq> ?S" using 1(3) 2(5) by auto
  ultimately show ?thesis
    unfolding grown_def using 1 2 vm_frame_trans by (intro exI [of _ "as @ bs"]) auto
qed

lemma grown_up:
  assumes wf: "twf (Suc l) (mem s) pt" and v: "valid_slot (mem s) pt (PX (Suc l) va)"
    and c: "c = child (mem s) pt (PX (Suc l) va)" and g: "grown l c s xs t zs"
    and fresh: "tset (Suc l) (mem s) pt \<inter> set xs = {}"
  shows "grown (Suc l) pt s xs t zs" "pte_at (Suc l) (mem t) pt va = pte_at l (mem t) c va"
proof -
  from g obtain ys where ys: "xs = ys @ zs" "vm_frame s t" "free_pages t zs" "twf l (mem t) c"
    "tset l (mem t) c \<subseteq> tset l (mem s) c \<union> set ys"
    "only_pages (mem s) (mem t) (tset l (mem s) c \<union> set ys)"
    "\<forall>va. entry l (mem t) c va = entry l (mem s) c va" unfolding grown_def by blast
  have N: "set ys \<inter> tset (Suc l) (mem s) pt = {}" using fresh ys(1) by auto
  note glue = tree_glue [OF wf PX_less v c ys(6) N ys(4,5)]
  have "entry (Suc l) (mem t) pt w = entry (Suc l) (mem s) pt w" for w
    using entry_glue [OF wf PX_less v c ys(6) N, of w] ys(7) v c by (simp add: entry_Suc)
  moreover have "tset l (mem s) c \<subseteq> tset (Suc l) (mem s) pt" using twf_child [OF wf PX_less v] c by simp
  then have "only_pages (mem s) (mem t) (tset (Suc l) (mem s) pt \<union> set ys)"
    by (intro only_pages_mono [OF ys(6)]) auto
  ultimately show "grown (Suc l) pt s xs t zs"
    unfolding grown_def using glue(1,2) ys by (intro exI [of _ ys]) auto
  show "pte_at (Suc l) (mem t) pt va = pte_at l (mem t) c va" using glue(3) by simp
qed

subsection \<open>Linking a fresh table\<close>

lemma bit_addr_less_1024: "f < (1024 :: addr) \<Longrightarrow> drop_bit 10 f = 0"
proof -
  assume "f < 1024"
  then have "unat f < 1024" by (simp add: word_less_nat_alt)
  then have "unat f div 2 ^ 10 = 0" by simp
  then have "drop_bit 10 (unat f) = 0" by (simp only: drop_bit_eq_div)
  moreover have "take_bit 64 (unat f) = unat f" using unsigned_less [of f] by (intro take_bit_nat_eq_self) simp
  ultimately have "unat (drop_bit 10 f) = 0" by (simp add: unsigned_drop_bit_eq)
  then show ?thesis by (simp only: unat_eq_zero)
qed

lemma aligned_bits: "aligned pa \<Longrightarrow> push_bit 12 (drop_bit 12 pa) = pa"
proof -
  assume "aligned pa"
  then have "unat pa mod 4096 = 0" by (simp add: aligned_def mod_PGSIZE)
  then have "unat (PGROUNDDOWN pa) = unat pa"
    using mult_div_mod_eq [of 4096 "unat pa"] by (simp add: unat_PGROUNDDOWN)
  then show ?thesis by (simp add: PGROUNDDOWN_eq word_unat_eq_iff)
qed

lemma PTE2PA_PA2PTE: "aligned pa \<Longrightarrow> f < 1024 \<Longrightarrow> PTE2PA (PA2PTE pa OR f) = pa"
proof -
  assume pa: "aligned pa" and f: "f < 1024"
  have "drop_bit 10 (push_bit 10 (drop_bit 12 pa)) = drop_bit 12 pa"
    by (rule bit_word_eqI) (auto simp: bit_simps dest: bit_imp_le_length)
  with pa f show ?thesis
    by (simp add: PTE2PA_def PA2PTE_def drop_bit_or bit_addr_less_1024 aligned_bits)
qed

lemma PTE_V_1: "PTE_V = 1"
  by (simp add: PTE_V_def)

lemma valid_linked: "(PA2PTE pa OR f OR PTE_V) AND PTE_V \<noteq> 0" "(PA2PTE pa OR PTE_V) AND PTE_V \<noteq> 0"
  by (simp_all add: PTE_V_1 bit.conj_disj_distrib2)

text \<open>A page of zeroes is an empty table of any level.\<close>

lemma of_le_zeros: "of_le (replicate n 0) = (0 :: 'w::len word)"
  by (induction n) auto

lemma zero_page_load:
  assumes "i < 512"
  shows "load64 (write_bytes m x (replicate 4096 0)) (pte_slot x i) = 0"
proof -
  have "read_bytes (write_bytes m x (replicate 4096 0)) (pte_slot x i) 8 = replicate 8 0"
  proof (rule nth_equalityI)
    fix k
    assume "k < length (read_bytes (write_bytes m x (replicate 4096 0)) (pte_slot x i) 8)"
    then have k: "k < 8" by simp
    then have "8 * unat i + k < 4096" using unat_512 [OF assms] by simp
    then have "unat (of_nat (8 * unat i + k) :: addr) = 8 * unat i + k" by (intro unat_of_nat_addr) simp
    moreover have "pte_slot x i + of_nat k - x = of_nat (8 * unat i + k)"
      unfolding slot_offset [OF assms] by simp
    ultimately have "unat (pte_slot x i + of_nat k - x) < 4096"
      using \<open>8 * unat i + k < 4096\<close> by (simp only:)
    then have "write_bytes m x (replicate 4096 0) (pte_slot x i + of_nat k) = 0"
      unfolding write_bytes_def by simp
    then show "read_bytes (write_bytes m x (replicate 4096 0)) (pte_slot x i) 8 ! k = replicate 8 0 ! k"
      using k by simp
  qed simp
  then show ?thesis by (simp only: load64_def of_le_zeros)
qed

lemma empty_table:
  assumes "aligned pg" "pg \<noteq> 0" "\<And>i. i < 512 \<Longrightarrow> load64 m (pte_slot pg i) = 0"
  shows "twf l m pg \<and> tset l m pg = {pg} \<and> entry l m pg va = 0"
  using assms by (cases l) (auto simp: entry_def)

lemma link_table:
  assumes wf: "twf (Suc l) m pt" and i: "i < 512" "\<not> valid_slot m pt i"
    and pg: "aligned pg" "pg \<noteq> 0" "pg \<notin> tset (Suc l) m pt"
    and m1: "only_pages m m1 {pg}" "\<And>j. j < 512 \<Longrightarrow> load64 m1 (pte_slot pg j) = 0"
    and m2: "m2 = store64 m1 (pte_slot pt i) (PA2PTE pg OR PTE_V)"
  shows "twf (Suc l) m2 pt" "tset (Suc l) m2 pt \<subseteq> insert pg (tset (Suc l) m pt)"
    "entry (Suc l) m2 pt va = entry (Suc l) m pt va" "only_pages m m2 {pt, pg}"
    "valid_slot m2 pt i" "child m2 pt i = pg" "\<And>j. j < 512 \<Longrightarrow> load64 m2 (pte_slot pg j) = 0"
proof -
  have pt: "aligned pt" "pt \<noteq> 0" "pt \<noteq> pg" using twf_root [OF wf] pg(3) by auto
  have "only_pages m1 m2 {pt}" unfolding m2 using pt(1) i(1) by (rule store_slot_only)
  then show op: "only_pages m m2 {pt, pg}"
    by (intro only_pages_trans [OF only_pages_mono [OF m1(1)] only_pages_mono]) auto
  have "pg_same m m1 pt" using pt by (intro only_pagesD [OF m1(1)]) auto
  then have slots: "load64 m2 (pte_slot pt j) = load64 m (pte_slot pt j)" if "j < 512" "j \<noteq> i" for j
    using that i pt(1) load_slot_store [of pt pt i j] load_slot_same [of m m1 pt j] by (simp add: m2)
  have new: "load64 m2 (pte_slot pt i) = PA2PTE pg OR PTE_V" by (simp add: m2)
  show v: "valid_slot m2 pt i" using new valid_linked(2) by simp
  show ch: "child m2 pt i = pg" using new pg(1) PTE2PA_PA2PTE [of pg PTE_V] by (simp add: PTE_V_1)
  show zero: "load64 m2 (pte_slot pg j) = 0" if "j < 512" for j
    using that m1(2) load_slot_store [of pt pg i j] pt pg(1) i(1) by (simp add: m2)
  have emp: "twf l m2 pg" "tset l m2 pg = {pg}" "entry l m2 pg w = 0" for w
    using empty_table [OF pg(1,2) zero] by blast+
  have sub: "tset l m2 (child m pt j) = tset l m (child m pt j) \<and>
      (twf l m2 (child m pt j) \<longleftrightarrow> twf l m (child m pt j)) \<and> entry l m2 (child m pt j) w = entry l m (child m pt j) w"
    if j: "j < 512" "valid_slot m pt j" for j w
  proof -
    have "pg_same m m2 x" if x: "x \<in> tset l m (child m pt j)" for x
    proof (rule only_pagesD [OF op])
      show "aligned x" using tset_aligned [OF _ x] twf_child [OF wf j] by blast
      show "x \<notin> {pt, pg}" using x twf_child [OF wf j] pg(3) by blast
    qed
    then show ?thesis using tree_frame [of l m _ m2] entry_frame [of l m _ m2] twf_child [OF wf j] by blast
  qed
  have cases: "(j = i \<and> child m2 pt j = pg) \<or> (j \<noteq> i \<and> valid_slot m pt j \<and> child m2 pt j = child m pt j)"
    if "j < 512" "valid_slot m2 pt j" for j
    using that slots ch by (cases "j = i") auto
  have ts: "tset l m2 (child m2 pt j) = (if j = i then {pg} else tset l m (child m pt j))"
    if "j < 512" "valid_slot m2 pt j" for j
    using cases [OF that] emp sub that by auto
  show "tset (Suc l) m2 pt \<subseteq> insert pg (tset (Suc l) m pt)"
    using ts cases by (fastforce split: if_splits)
  show "entry (Suc l) m2 pt va = entry (Suc l) m pt va"
    using slots [OF PX_less] sub [OF PX_less] emp(3) ch v i(2)
    by (cases "PX (Suc l) va = i") (auto simp: entry_Suc)
  have notin: "pg \<notin> tset l m (child m pt j)" if "j < 512" "valid_slot m pt j" for j
    using twf_child [OF wf that] pg(3) by blast
  have "twf l m2 (child m2 pt j) \<and> pt \<notin> tset l m2 (child m2 pt j)" if j: "j < 512" "valid_slot m2 pt j" for j
    using cases [OF j] emp(1,2) sub [of j] twf_child [OF wf, of j] pt(3) j by auto
  moreover have "tset l m2 (child m2 pt j) \<inter> tset l m2 (child m2 pt k) = {}"
    if jk: "j < 512" "k < 512" "j \<noteq> k" "valid_slot m2 pt j" "valid_slot m2 pt k" for j k
  proof -
    have "tset l m (child m pt j) \<inter> tset l m (child m pt k) = {}" if "j \<noteq> i" "k \<noteq> i"
      using wf jk cases [OF jk(1,4)] cases [OF jk(2,5)] that unfolding twf.simps by blast
    then show ?thesis
      using ts [OF jk(1,4)] ts [OF jk(2,5)] cases [OF jk(1,4)] cases [OF jk(2,5)] notin jk(1-3) by auto
  qed
  ultimately show "twf (Suc l) m2 pt" using pt by simp
qed

text \<open>The state after a page has been allocated and cleared.\<close>

definition zalloced :: "'z kstate_scheme \<Rightarrow> 'z kstate_scheme" where
  "zalloced s = (alloced s)\<lparr>mem := write_bytes (mem (alloced s)) (freelist s) (replicate 4096 0)\<rparr>"

lemma free_pages_aligned: "free_pages s xs \<Longrightarrow> x \<in> set xs \<Longrightarrow> aligned x"
  by (auto simp: free_pages_def page_ok_def aligned_def)

lemma zalloc:
  assumes "kmem_ready s" "free_pages s (pg # xs)"
  shows "kalloc s = Ret pg (alloced s)" "kmemset pg 0 (ucast PGSIZE) (alloced s) = Ret () (zalloced s)"
    "kmem_ready (zalloced s)" "free_pages (zalloced s) xs" "only_pages (mem s) (mem (zalloced s)) {pg}"
    "\<And>i. i < 512 \<Longrightarrow> load64 (mem (zalloced s)) (pte_slot pg i) = 0" "vm_frame s (zalloced s)"
    "aligned pg" "pg \<noteq> 0" "pg \<notin> set xs"
proof -
  have fl: "freelist s = pg" and al: "free_pages (alloced s) xs" using free_pages_alloced [OF assms(2)] by auto
  show nz: "pg \<noteq> 0" and dist: "pg \<notin> set xs" using kmem.avail_frames [OF assms] by auto
  show ok: "aligned pg" using free_pages_aligned [OF assms(2)] by simp
  show "kalloc s = Ret pg (alloced s)" using kalloc_eq [OF assms(1)] fl by simp
  show "kmemset pg 0 (ucast PGSIZE) (alloced s) = Ret () (zalloced s)"
    by (simp add: kmemset_def exec_simps memset_eq zalloced_def fl)
  have "only_pages (mem (alloced s)) (mem (zalloced s)) {pg}"
    using ok by (simp add: zalloced_def fl write_page_only)
  moreover have "only_pages (mem s) (mem (alloced s)) {pg}"
    using ok nz by (simp add: alloced_def fl write_page_only)
  ultimately show "only_pages (mem s) (mem (zalloced s)) {pg}" by (rule only_pages_trans [rotated])
  show "kmem_ready (zalloced s)" using assms(1) by (simp add: zalloced_def kmem_ready_def alloced_def)
  show "free_pages (zalloced s) xs"
    unfolding zalloced_def fl using ok dist
    by (intro free_pages_only [OF al write_page_only]) auto
  show "load64 (mem (zalloced s)) (pte_slot pg i) = 0" if "i < 512" for i
    using zero_page_load [OF that] by (simp add: zalloced_def fl)
  show "vm_frame s (zalloced s)" by (simp add: vm_frame_def zalloced_def alloced_def)
qed

lemma grown_link:
  assumes wf: "twf (Suc l) (mem s) pt" and i: "i < 512" "\<not> valid_slot (mem s) pt i"
    and rd: "kmem_ready s" and fp: "free_pages s (pg # xs)"
    and fresh: "tset (Suc l) (mem s) pt \<inter> set (pg # xs) = {}"
    and t: "t = (zalloced s)\<lparr>mem := store64 (mem (zalloced s)) (pte_slot pt i) (PA2PTE pg OR PTE_V)\<rparr>"
  shows "grown (Suc l) pt s (pg # xs) t xs" "valid_slot (mem t) pt i" "child (mem t) pt i = pg"
    "twf l (mem t) pg" "tset l (mem t) pg = {pg}"
proof -
  note z = zalloc [OF rd fp]
  have out: "pg \<notin> tset (Suc l) (mem s) pt" using fresh by auto
  have mt: "mem t = store64 (mem (zalloced s)) (pte_slot pt i) (PA2PTE pg OR PTE_V)" by (simp add: t)
  note link = link_table [OF wf i z(8,9) out z(5,6) mt]
  show v: "valid_slot (mem t) pt i" "child (mem t) pt i = pg" using link(5,6) by blast+
  show "twf l (mem t) pg" "tset l (mem t) pg = {pg}" using empty_table [OF z(8,9) link(7)] by blast+
  have pt: "pt \<in> tset (Suc l) (mem s) pt" by simp
  then have "free_pages t xs"
    unfolding t using fresh twf_root [OF wf] i(1)
    by (intro free_pages_only [OF z(4) store_slot_only]) auto
  moreover have "vm_frame s t" using vm_frame_trans [OF z(7)] by (simp add: t)
  moreover have "only_pages (mem s) (mem t) (tset (Suc l) (mem s) pt \<union> set [pg])"
    using only_pages_mono [OF link(4)] pt by auto
  ultimately show "grown (Suc l) pt s (pg # xs) t xs"
    unfolding grown_def using link(1-3) by (intro exI [of _ "[pg]"]) auto
qed

lemma walk_from_alloc:
  assumes "twf l (mem s) pt" "kmem_ready s" "free_pages s xs" "tset l (mem s) pt \<inter> set xs = {}"
  shows "\<exists>a t zs. walk_from l pt va True s = Ret a t \<and> grown l pt s xs t zs \<and>
     (if a = 0 then zs = [] else pte_at l (mem t) pt va = Some a)"
  using assms
proof (induction l arbitrary: s pt xs)
  case 0
  then show ?case
    using slot_nonzero [of pt "PX 0 va"] by (auto simp: exec_simps intro!: exI [of _ xs] grown_refl)
next
  case (Suc l)
  let ?i = "PX (Suc l) va"
  have sub: "\<exists>a t zs. walk_from l c va True u = Ret a t \<and> grown (Suc l) pt u ys t zs \<and>
       (if a = 0 then zs = [] else pte_at (Suc l) (mem t) pt va = Some a)"
    if u: "twf (Suc l) (mem u) pt" "kmem_ready u" "free_pages u ys" "tset (Suc l) (mem u) pt \<inter> set ys = {}"
      "valid_slot (mem u) pt ?i" "c = child (mem u) pt ?i" for u ys c
  proof -
    have "twf l (mem u) c" "tset l (mem u) c \<inter> set ys = {}"
      using twf_child [OF u(1) PX_less u(5)] u(4) unfolding u(6) by blast+
    from Suc.IH [OF this(1) u(2,3) this(2)] obtain a t zs where
      w: "walk_from l c va True u = Ret a t" "grown l c u ys t zs"
        "if a = 0 then zs = [] else pte_at l (mem t) c va = Some a" by blast
    then show ?thesis using grown_up [OF u(1,5,6) w(2) u(4)] by auto
  qed
  show ?case
  proof (cases "valid_slot (mem s) pt ?i")
    case True
    then show ?thesis
      using sub [OF Suc.prems True refl] by (simp add: Let_def get_pte_def exec_simps)
  next
    case False
    show ?thesis
    proof (cases xs)
      case Nil
      then show ?thesis
        using Suc.prems False kmem.alloc_none [of s]
        by (auto simp: Let_def get_pte_def exec_simps intro: grown_refl)
    next
      case (Cons pg ys)
      define u where "u = (zalloced s)\<lparr>mem := store64 (mem (zalloced s)) (pte_slot pt ?i) (PA2PTE pg OR PTE_V)\<rparr>"
      note fp = Suc.prems(3) [unfolded Cons] and fresh = Suc.prems(4) [unfolded Cons]
      note link = grown_link [OF Suc.prems(1) PX_less False Suc.prems(2) fp fresh u_def]
      note z = zalloc [OF Suc.prems(2) fp]
      from link(1) obtain as where as: "as @ ys = pg # ys" "vm_frame s u" "free_pages u ys" "twf (Suc l) (mem u) pt"
        "tset (Suc l) (mem u) pt \<subseteq> tset (Suc l) (mem s) pt \<union> set as" unfolding grown_def by metis
      have "as = [pg]" using as(1) by simp
      then have fu: "tset (Suc l) (mem u) pt \<inter> set ys = {}"
        using as(5) fresh z(10) by (simp del: tset.simps) blast
      have "kmem_ready u" using vm_frame_simps(1) [OF as(2)] Suc.prems(2) by simp
      from sub [OF as(4) this as(3) fu link(2) link(3) [symmetric]] obtain a t zs where
        w: "walk_from l pg va True u = Ret a t" "grown (Suc l) pt u ys t zs"
          "if a = 0 then zs = [] else pte_at (Suc l) (mem t) pt va = Some a" by blast
      have "walk_from (Suc l) pt va True s = Ret a t"
        using False z(1,2,9) w(1) by (simp add: Let_def get_pte_def set_pte_def exec_simps u_def)
      then show ?thesis using w grown_trans [OF link(1) w(2)] Cons by blast
    qed
  qed
qed

section \<open>Mapping and unmapping\<close>

text \<open>A well-formed page table whose pages are not free, with the allocator ready.\<close>

definition pgtab :: "addr \<Rightarrow> kworld \<Rightarrow> addr list \<Rightarrow> bool" where
  "pgtab pt s xs \<longleftrightarrow> twf 2 (mem s) pt \<and> kmem_ready s \<and> free_pages s xs \<and> tset 2 (mem s) pt \<inter> set xs = {}"

lemma pgtab_grown:
  assumes "pgtab pt s xs" "grown 2 pt s xs t zs"
  shows "pgtab pt t zs" "vm_frame s t" "\<exists>ys. xs = ys @ zs"
    "only_pages (mem s) (mem t) (tset 2 (mem s) pt \<union> set xs)" "tset 2 (mem t) pt \<subseteq> tset 2 (mem s) pt \<union> set xs"
    "entry 2 (mem t) pt va = entry 2 (mem s) pt va"
proof -
  from assms(2) obtain ys where ys: "xs = ys @ zs" "vm_frame s t" "free_pages t zs" "twf 2 (mem t) pt"
    "tset 2 (mem t) pt \<subseteq> tset 2 (mem s) pt \<union> set ys"
    "only_pages (mem s) (mem t) (tset 2 (mem s) pt \<union> set ys)"
    "\<forall>va. entry 2 (mem t) pt va = entry 2 (mem s) pt va" unfolding grown_def by blast
  show "vm_frame s t" "\<exists>ys. xs = ys @ zs" "entry 2 (mem t) pt va = entry 2 (mem s) pt va" using ys by blast+
  show "only_pages (mem s) (mem t) (tset 2 (mem s) pt \<union> set xs)" using ys(1) by (intro only_pages_mono [OF ys(6)]) auto
  show "tset 2 (mem t) pt \<subseteq> tset 2 (mem s) pt \<union> set xs" using ys(1,5) by auto
  have "set ys \<inter> set zs = {}" using assms(1) ys(1) by (auto simp: pgtab_def free_pages_def)
  then show "pgtab pt t zs"
    using assms(1) ys vm_frame_simps(1) [OF ys(2)] unfolding pgtab_def by auto
qed

lemma pgtab_store:
  fixes v :: addr
  assumes p: "pgtab pt s xs" and a: "pte_at 2 (mem s) pt va = Some a"
  defines "t \<equiv> s\<lparr>mem := store64 (mem s) a v\<rparr>"
  shows "pgtab pt t xs" "vm_frame s t" "only_pages (mem s) (mem t) (tset 2 (mem s) pt)"
    "tset 2 (mem t) pt \<subseteq> tset 2 (mem s) pt"
    "entry 2 (mem t) pt vb = (if same_vpage 2 va vb then v else entry 2 (mem s) pt vb)"
proof -
  have wf: "twf 2 (mem s) pt" using p by (simp add: pgtab_def)
  note ls = leaf_store [OF wf a, of v]
  show "entry 2 (mem t) pt vb = (if same_vpage 2 va vb then v else entry 2 (mem s) pt vb)"
    unfolding t_def using entry_leaf_store [OF wf a] by simp
  show op: "only_pages (mem s) (mem t) (tset 2 (mem s) pt)" and "tset 2 (mem t) pt \<subseteq> tset 2 (mem s) pt"
    and fr: "vm_frame s t" using ls by (simp_all add: t_def)
  have "free_pages t xs"
    unfolding t_def using p op by (intro free_pages_only) (auto simp: pgtab_def t_def)
  then show "pgtab pt t xs"
    using p ls vm_frame_simps(1) [OF fr] unfolding pgtab_def by (auto simp: t_def)
qed

lemma walk_alloc:
  assumes "pgtab pt s xs" "va < MAXVA"
  shows "\<exists>a t zs. walk pt va True s = Ret a t \<and> grown 2 pt s xs t zs \<and>
     (if a = 0 then zs = [] else pte_at 2 (mem t) pt va = Some a)"
  using walk_from_alloc [of 2 s pt xs va] assms by (simp add: walk_def pgtab_def not_le [symmetric])

text \<open>One page of \<open>mappages\<close>.\<close>

lemma mappages_page:
  assumes p: "pgtab pt s xs" and va: "va < MAXVA" and free: "entry 2 (mem s) pt va AND PTE_V = 0"
  shows "\<exists>t zs. pgtab pt t zs \<and> vm_frame s t \<and> (\<exists>ys. xs = ys @ zs) \<and>
     only_pages (mem s) (mem t) (tset 2 (mem s) pt \<union> set xs) \<and>
     tset 2 (mem t) pt \<subseteq> tset 2 (mem s) pt \<union> set xs \<and>
     (mappages_step pt lastva perm (va, pa) s = Ret (Inr (- 1)) t \<and> zs = [] \<and>
        (\<forall>vb. entry 2 (mem t) pt vb = entry 2 (mem s) pt vb) \<or>
      mappages_step pt lastva perm (va, pa) s =
        Ret (if va = lastva then Inr 0 else Inl (va + PGSIZE, pa + PGSIZE)) t \<and>
        (\<forall>vb. entry 2 (mem t) pt vb =
           (if same_vpage 2 va vb then PA2PTE pa OR perm OR PTE_V else entry 2 (mem s) pt vb)))"
proof -
  obtain a u zs where w: "walk pt va True s = Ret a u" and g: "grown 2 pt s xs u zs"
    and a: "if a = 0 then zs = [] else pte_at 2 (mem u) pt va = Some a"
    using walk_alloc [OF p va] by blast
  note u = pgtab_grown [OF p g]
  show ?thesis
  proof (cases "a = 0")
    case True
    then show ?thesis
      using u w a by (intro exI [of _ u] exI [of _ zs]) (simp add: mappages_step_def exec_simps)
  next
    case False
    then have at: "pte_at 2 (mem u) pt va = Some a" using a by simp
    define t where "t = u\<lparr>mem := store64 (mem u) a (PA2PTE pa OR perm OR PTE_V)\<rparr>"
    note st = pgtab_store [OF u(1) at, of "PA2PTE pa OR perm OR PTE_V", folded t_def]
    have "load64 (mem u) a AND PTE_V = 0" using free u(6) [of va] at by (simp add: entry_def)
    then have step: "mappages_step pt lastva perm (va, pa) s =
        Ret (if va = lastva then Inr 0 else Inl (va + PGSIZE, pa + PGSIZE)) t"
      using w False by (simp add: mappages_step_def exec_simps get_pte_def set_pte_def t_def)
    have "only_pages (mem u) (mem t) (tset 2 (mem s) pt \<union> set xs)"
      using st(3) u(5) by (rule only_pages_mono)
    then have "only_pages (mem s) (mem t) (tset 2 (mem s) pt \<union> set xs)"
      using u(4) only_pages_trans by blast
    moreover have "vm_frame s t" using vm_frame_trans [OF u(2) st(2)] .
    moreover have "tset 2 (mem t) pt \<subseteq> tset 2 (mem s) pt \<union> set xs" using st(4) u(5) by blast
    moreover have "\<forall>vb. entry 2 (mem t) pt vb =
           (if same_vpage 2 va vb then PA2PTE pa OR perm OR PTE_V else entry 2 (mem s) pt vb)"
      using st(5) u(6) by simp
    ultimately show ?thesis using st(1) u(3) step by blast
  qed
qed

text \<open>A page already mapped is never mapped over.\<close>

lemma mappages_remap:
  assumes p: "pgtab pt s xs" and va: "va < MAXVA" and used: "entry 2 (mem s) pt va AND PTE_V \<noteq> 0"
  shows "mappages_step pt lastva perm (va, pa) s = Panic ''mappages: remap''"
proof -
  obtain a where a: "pte_at 2 (mem s) pt va = Some a"
    using used by (cases "pte_at 2 (mem s) pt va") (auto simp: entry_def)
  then have "walk pt va True s = Ret a s" "a \<noteq> 0"
    using p va walk_from_found [OF a] pte_at_nonzero [OF _ a] by (simp_all add: walk_def pgtab_def not_le [symmetric])
  then show ?thesis
    using used a by (simp add: mappages_step_def exec_simps get_pte_def entry_def)
qed

text \<open>Below \<open>MAXVA\<close> the three indices are the page number.\<close>

lemma unat_PX: "unat (PX l va) = unat va div 2 ^ (12 + 9 * l) mod 512"
proof -
  have "PX l va = take_bit 9 (drop_bit (PXSHIFT l) va)"
    by (simp add: PX_def PXMASK_def take_bit_eq_mask mask_eq_exp_minus_1)
  moreover have "take_bit 64 (unat va) = unat va" using unsigned_less [of va] by (intro take_bit_nat_eq_self) simp
  ultimately have "unat (PX l va) = take_bit 9 (drop_bit (12 + 9 * l) (unat va))"
    by (simp add: unsigned_take_bit_eq unsigned_drop_bit_eq PXSHIFT_def)
  then show ?thesis by (simp add: take_bit_eq_mod drop_bit_eq_div)
qed

lemma unat_MAXVA: "unat MAXVA = 2 ^ 38"
  by (simp add: MAXVA_def push_bit_eq_mult)

lemma index_split: "x < (2 :: nat) ^ 26 \<Longrightarrow> x = x div 2 ^ 18 mod 512 * 2 ^ 18 + x div 2 ^ 9 mod 512 * 2 ^ 9 + x mod 512"
proof -
  assume "x < 2 ^ 26"
  have 1: "x = x div 512 * 512 + x mod 512" "x div 512 = x div 512 div 512 * 512 + x div 512 mod 512"
    by (simp_all only: div_mult_mod_eq)
  have "x div 512 div 512 = x div 2 ^ 18" by (simp add: div_mult2_eq [symmetric])
  moreover have "x div 2 ^ 18 mod 512 = x div 2 ^ 18" using \<open>x < 2 ^ 26\<close> by simp
  ultimately have "x div 2 ^ 18 mod 512 * 2 ^ 18 = x div 512 div 512 * 512 * 512" by simp
  moreover have "x div 2 ^ 9 mod 512 * 2 ^ 9 = x div 512 mod 512 * 512" by simp
  ultimately show ?thesis using 1 by linarith
qed

lemma same_vpage_iff:
  assumes "va < MAXVA" "vb < MAXVA"
  shows "same_vpage 2 va vb \<longleftrightarrow> unat va div 4096 = unat vb div 4096"
proof
  let ?x = "unat va div 4096" and ?y = "unat vb div 4096"
  assume "same_vpage 2 va vb"
  then have "unat (PX k va) = unat (PX k vb)" if "k \<le> 2" for k using that by (simp add: same_vpage_def)
  from this [of 0] this [of 1] this [of 2]
  have "?x mod 512 = ?y mod 512" "?x div 2 ^ 9 mod 512 = ?y div 2 ^ 9 mod 512"
    "?x div 2 ^ 18 mod 512 = ?y div 2 ^ 18 mod 512"
    by (simp_all add: unat_PX div_mult2_eq [symmetric])
  moreover have "?x < 2 ^ 26" "?y < 2 ^ 26" using assms by (simp_all add: word_less_nat_alt unat_MAXVA less_mult_imp_div_less)
  ultimately show "?x = ?y" using index_split [of ?x] index_split [of ?y] by metis
next
  assume eq: "unat va div 4096 = unat vb div 4096"
  have "unat (PX k va) = unat (PX k vb)" for k
  proof -
    have "unat w div 2 ^ (12 + 9 * k) = unat w div 4096 div 2 ^ (9 * k)" for w :: addr
      by (simp add: div_mult2_eq [symmetric] power_add)
    then show ?thesis using eq by (simp only: unat_PX)
  qed
  then show "same_vpage 2 va vb" by (simp add: same_vpage_def word_unat_eq_iff)
qed

lemma entry_PGROUNDDOWN:
  assumes "va < MAXVA"
  shows "entry 2 m pt (PGROUNDDOWN va) = entry 2 m pt va" "PGROUNDDOWN va < MAXVA"
proof -
  have "unat (PGROUNDDOWN va) \<le> unat va" by (simp add: unat_PGROUNDDOWN)
  then show lt: "PGROUNDDOWN va < MAXVA" using assms by (simp add: word_less_nat_alt)
  have "same_vpage 2 (PGROUNDDOWN va) va"
    unfolding same_vpage_iff [OF lt assms] by (simp add: unat_PGROUNDDOWN)
  then show "entry 2 m pt (PGROUNDDOWN va) = entry 2 m pt va" by (simp add: entry_def pte_at_same_vpage)
qed

subsection \<open>Runs of pages\<close>

text \<open>The entries after the first \<open>k\<close> pages from \<open>a\<close> have been mapped to the frames from \<open>pa\<close> on.\<close>

definition mapped_run :: "addr \<Rightarrow> addr \<Rightarrow> addr \<Rightarrow> nat \<Rightarrow> (addr \<Rightarrow> addr) \<Rightarrow> addr \<Rightarrow> addr" where
  "mapped_run a pa perm k e vb =
     (if unat a \<le> unat vb \<and> unat vb < unat a + 4096 * k
      then PA2PTE (pa + (PGROUNDDOWN vb - a)) OR perm OR PTE_V else e vb)"

lemma mapped_run_0 [simp]: "mapped_run a pa perm 0 e vb = e vb"
  by (auto simp: mapped_run_def)

lemma aligned_dvd: "aligned a \<longleftrightarrow> 4096 dvd unat a"
  by (simp add: aligned_def mod_PGSIZE mod_eq_0_iff_dvd)

lemma page_of:
  assumes "aligned a" "vb < MAXVA" "a < MAXVA"
  shows "same_vpage 2 a vb \<longleftrightarrow> unat a \<le> unat vb \<and> unat vb < unat a + 4096"
    "same_vpage 2 a vb \<Longrightarrow> PGROUNDDOWN vb = a"
proof -
  obtain k where k: "unat a = 4096 * k" using assms(1) by (auto simp: aligned_dvd)
  show "same_vpage 2 a vb \<longleftrightarrow> unat a \<le> unat vb \<and> unat vb < unat a + 4096"
    unfolding same_vpage_iff [OF assms(3,2)] k by (auto simp: div_nat_eqI)
  assume "same_vpage 2 a vb"
  then have "unat (PGROUNDDOWN vb) = unat a"
    unfolding same_vpage_iff [OF assms(3,2)] unat_PGROUNDDOWN k by simp
  then show "PGROUNDDOWN vb = a" by (simp add: word_unat_eq_iff)
qed

lemma mapped_run_Suc:
  assumes a: "aligned a" "unat a + 4096 * Suc k \<le> 2 ^ 38" and vb: "vb < MAXVA"
  shows "mapped_run (a + PGSIZE) (pa + PGSIZE) perm k
      (\<lambda>v. if same_vpage 2 a v then PA2PTE pa OR perm OR PTE_V else e v) vb = mapped_run a pa perm (Suc k) e vb"
proof -
  have up: "unat (a + PGSIZE) = unat a + 4096"
    using a(2) unat_add_of_nat [of a 4096] by (simp add: PGSIZE_def)
  have "a < MAXVA" using a(2) by (simp add: word_less_nat_alt unat_MAXVA)
  then have here: "same_vpage 2 a vb \<longleftrightarrow> unat a \<le> unat vb \<and> unat vb < unat a + 4096"
    "same_vpage 2 a vb \<Longrightarrow> PGROUNDDOWN vb = a"
    using page_of [OF a(1) vb] by auto
  have "pa + PGSIZE + (PGROUNDDOWN vb - (a + PGSIZE)) = pa + (PGROUNDDOWN vb - a)" by simp
  then show ?thesis
    using here unfolding mapped_run_def up by (cases "same_vpage 2 a vb") auto
qed

lemma mappages_run:
  assumes "pgtab pt s xs" "aligned a" "unat a + 4096 * Suc n \<le> 2 ^ 38"
    and "lastva = a + of_nat (4096 * n)"
    and "\<And>vb. unat a \<le> unat vb \<Longrightarrow> unat vb < unat a + 4096 * Suc n \<Longrightarrow> entry 2 (mem s) pt vb AND PTE_V = 0"
  shows "\<exists>r t zs k. kloop (mappages_step pt lastva perm) (a, pa) s = Ret r t \<and> pgtab pt t zs \<and> vm_frame s t \<and>
     (\<exists>ys. xs = ys @ zs) \<and> only_pages (mem s) (mem t) (tset 2 (mem s) pt \<union> set xs) \<and>
     (r = 0 \<and> k = Suc n \<or> r = - 1 \<and> k \<le> n \<and> zs = []) \<and>
     (\<forall>vb. vb < MAXVA \<longrightarrow> entry 2 (mem t) pt vb = mapped_run a pa perm k (entry 2 (mem s) pt) vb)"
  using assms
proof (induction n arbitrary: a pa s xs)
  case 0
  have va: "a < MAXVA" using 0 by (simp add: word_less_nat_alt unat_MAXVA)
  have "entry 2 (mem s) pt a AND PTE_V = 0" using 0 by auto
  from mappages_page [OF 0(1) va this, of lastva perm pa] obtain t zs where t: "pgtab pt t zs" "vm_frame s t"
    "\<exists>ys. xs = ys @ zs" "only_pages (mem s) (mem t) (tset 2 (mem s) pt \<union> set xs)"
    and r: "mappages_step pt lastva perm (a, pa) s = Ret (Inr (- 1)) t \<and> zs = [] \<and>
        (\<forall>vb. entry 2 (mem t) pt vb = entry 2 (mem s) pt vb) \<or>
      mappages_step pt lastva perm (a, pa) s = Ret (Inr 0) t \<and>
        (\<forall>vb. entry 2 (mem t) pt vb =
           (if same_vpage 2 a vb then PA2PTE pa OR perm OR PTE_V else entry 2 (mem s) pt vb))"
    using 0 by auto
  from r show ?case
  proof
    assume *: "mappages_step pt lastva perm (a, pa) s = Ret (Inr (- 1)) t \<and> zs = [] \<and>
        (\<forall>vb. entry 2 (mem t) pt vb = entry 2 (mem s) pt vb)"
    then have "kloop (mappages_step pt lastva perm) (a, pa) s = Ret (- 1) t" by (intro kloop_done) simp
    with * t show ?thesis by (intro exI [of _ "- 1"] exI [of _ t] exI [of _ zs] exI [of _ 0]) simp
  next
    assume *: "mappages_step pt lastva perm (a, pa) s = Ret (Inr 0) t \<and>
        (\<forall>vb. entry 2 (mem t) pt vb =
           (if same_vpage 2 a vb then PA2PTE pa OR perm OR PTE_V else entry 2 (mem s) pt vb))"
    then have "kloop (mappages_step pt lastva perm) (a, pa) s = Ret 0 t" by (intro kloop_done) simp
    moreover have "entry 2 (mem t) pt vb = mapped_run a pa perm (Suc 0) (entry 2 (mem s) pt) vb" if "vb < MAXVA" for vb
      using * page_of [OF 0(2) that va] by (auto simp: mapped_run_def)
    ultimately show ?thesis
      using t by (intro exI [of _ 0] exI [of _ t] exI [of _ zs] exI [of _ "Suc 0"]) simp
  qed
next
  case (Suc n)
  have va: "a < MAXVA" using Suc.prems(3) by (simp add: word_less_nat_alt unat_MAXVA)
  have up: "unat (a + PGSIZE) = unat a + 4096"
    using Suc.prems(3) unat_add_of_nat [of a 4096] by (simp add: PGSIZE_def)
  have "unat lastva = unat a + 4096 * Suc n"
    unfolding Suc.prems(4) using Suc.prems(3) by (intro unat_add_of_nat) simp
  then have ne: "a \<noteq> lastva" by auto
  have "entry 2 (mem s) pt a AND PTE_V = 0" using Suc.prems(5) [of a] by simp
  from mappages_page [OF Suc.prems(1) va this, of lastva perm pa] ne obtain t zs where
    t: "pgtab pt t zs" "vm_frame s t"
    "\<exists>ys. xs = ys @ zs" "only_pages (mem s) (mem t) (tset 2 (mem s) pt \<union> set xs)"
    "tset 2 (mem t) pt \<subseteq> tset 2 (mem s) pt \<union> set xs"
    and r: "mappages_step pt lastva perm (a, pa) s = Ret (Inr (- 1)) t \<and> zs = [] \<and>
        (\<forall>vb. entry 2 (mem t) pt vb = entry 2 (mem s) pt vb) \<or>
      mappages_step pt lastva perm (a, pa) s = Ret (Inl (a + PGSIZE, pa + PGSIZE)) t \<and>
        (\<forall>vb. entry 2 (mem t) pt vb =
           (if same_vpage 2 a vb then PA2PTE pa OR perm OR PTE_V else entry 2 (mem s) pt vb))"
    by auto
  from r show ?case
  proof
    assume *: "mappages_step pt lastva perm (a, pa) s = Ret (Inr (- 1)) t \<and> zs = [] \<and>
        (\<forall>vb. entry 2 (mem t) pt vb = entry 2 (mem s) pt vb)"
    then have "kloop (mappages_step pt lastva perm) (a, pa) s = Ret (- 1) t" by (intro kloop_done) simp
    with * t show ?thesis by (intro exI [of _ "- 1"] exI [of _ t] exI [of _ zs] exI [of _ 0]) simp
  next
    assume *: "mappages_step pt lastva perm (a, pa) s = Ret (Inl (a + PGSIZE, pa + PGSIZE)) t \<and>
        (\<forall>vb. entry 2 (mem t) pt vb =
           (if same_vpage 2 a vb then PA2PTE pa OR perm OR PTE_V else entry 2 (mem s) pt vb))"
    have al: "aligned (a + PGSIZE)" using Suc.prems(2) up by (simp add: aligned_dvd)
    have "\<exists>r u ws k. kloop (mappages_step pt lastva perm) (a + PGSIZE, pa + PGSIZE) t = Ret r u \<and> pgtab pt u ws \<and>
       vm_frame t u \<and> (\<exists>ys. zs = ys @ ws) \<and> only_pages (mem t) (mem u) (tset 2 (mem t) pt \<union> set zs) \<and>
       (r = 0 \<and> k = Suc n \<or> r = - 1 \<and> k \<le> n \<and> ws = []) \<and>
       (\<forall>vb. vb < MAXVA \<longrightarrow> entry 2 (mem u) pt vb = mapped_run (a + PGSIZE) (pa + PGSIZE) perm k (entry 2 (mem t) pt) vb)"
    proof (rule Suc.IH [OF t(1) al])
      show "lastva = a + PGSIZE + of_nat (4096 * n)" using Suc.prems(4) by (simp add: PGSIZE_def)
      show "entry 2 (mem t) pt vb AND PTE_V = 0"
        if "unat (a + PGSIZE) \<le> unat vb" "unat vb < unat (a + PGSIZE) + 4096 * Suc n" for vb
      proof -
        have "vb < MAXVA" using that(2) Suc.prems(3) up by (simp add: word_less_nat_alt unat_MAXVA)
        then have "\<not> same_vpage 2 a vb" using page_of(1) [OF Suc.prems(2) _ va] that(1) up by simp
        then show ?thesis using * Suc.prems(5) [of vb] that up by simp
      qed
    qed (use Suc.prems(3) up in simp)
    then obtain r u ws k where u: "kloop (mappages_step pt lastva perm) (a + PGSIZE, pa + PGSIZE) t = Ret r u" "pgtab pt u ws"
       "vm_frame t u" "\<exists>ys. zs = ys @ ws" "only_pages (mem t) (mem u) (tset 2 (mem t) pt \<union> set zs)"
       "r = 0 \<and> k = Suc n \<or> r = - 1 \<and> k \<le> n \<and> ws = []"
       "\<forall>vb. vb < MAXVA \<longrightarrow> entry 2 (mem u) pt vb = mapped_run (a + PGSIZE) (pa + PGSIZE) perm k (entry 2 (mem t) pt) vb"
      by blast
    have "kloop (mappages_step pt lastva perm) (a, pa) s = Ret r u" using * u(1) kloop_round by metis
    moreover have "only_pages (mem s) (mem u) (tset 2 (mem s) pt \<union> set xs)"
      using t(3,5) by (intro only_pages_trans [OF t(4) only_pages_mono [OF u(5)]]) auto
    moreover have "entry 2 (mem u) pt vb = mapped_run a pa perm (Suc k) (entry 2 (mem s) pt) vb" if "vb < MAXVA" for vb
    proof -
      have "k \<le> Suc n" using u(6) by auto
      then have "unat a + 4096 * Suc k \<le> 2 ^ 38" using Suc.prems(3) by simp
      note mapped_run_Suc [OF Suc.prems(2) this that, of pa perm "entry 2 (mem s) pt"]
      moreover have "mapped_run (a + PGSIZE) (pa + PGSIZE) perm k (entry 2 (mem t) pt) vb =
          mapped_run (a + PGSIZE) (pa + PGSIZE) perm k
            (\<lambda>v. if same_vpage 2 a v then PA2PTE pa OR perm OR PTE_V else entry 2 (mem s) pt v) vb"
        using * by (simp only: mapped_run_def)
      ultimately show ?thesis using u(7) that by simp
    qed
    moreover have "\<exists>ys. xs = ys @ ws" using t(3) u(4) by fastforce
    moreover have "r = 0 \<and> Suc k = Suc (Suc n) \<or> r = - 1 \<and> Suc k \<le> Suc n \<and> ws = []" using u(6) by auto
    ultimately show ?thesis using u(2) vm_frame_trans [OF t(2) u(3)] by blast
  qed
qed

end
