(* ===== verification/Usercopy.thy ===== *)
theory Usercopy
  imports Pagetable
begin

text \<open>
  Copies between kernel and user memory: what \<open>copyin\<close> and \<open>copyout\<close> mean in terms of the bytes of
  the user's address space, page boundaries and bad addresses included.
\<close>

section \<open>User memory\<close>

text \<open>The byte at a user address, and whether the kernel may touch it on the user's behalf.\<close>

definition user_ok :: "mem \<Rightarrow> addr \<Rightarrow> addr \<Rightarrow> bool" where
  "user_ok m pt va \<longleftrightarrow> va < MAXVA \<and> entry 2 m pt va AND PTE_V \<noteq> 0 \<and> entry 2 m pt va AND PTE_U \<noteq> 0 \<and>
     PTE2PA (entry 2 m pt va) \<noteq> 0"

definition user_addr :: "mem \<Rightarrow> addr \<Rightarrow> addr \<Rightarrow> addr" where
  "user_addr m pt va = PTE2PA (entry 2 m pt va) + (va - PGROUNDDOWN va)"

lemma unat_PGROUNDDOWN_le: "unat (PGROUNDDOWN va) \<le> unat va" "unat va < unat (PGROUNDDOWN va) + 4096"
  unfolding unat_PGROUNDDOWN by linarith+

lemma page_offset: "unat (va - PGROUNDDOWN va) = unat va mod 4096" "unat va mod 4096 < 4096"
proof -
  have "unat (va - PGROUNDDOWN va) = unat va - unat (PGROUNDDOWN va)"
    using unat_PGROUNDDOWN_le(1) by (intro unat_sub) (simp add: word_le_nat_alt)
  then show "unat (va - PGROUNDDOWN va) = unat va mod 4096"
    by (simp add: unat_PGROUNDDOWN minus_mult_div_eq_mod)
qed simp

lemma PGROUNDDOWN_step:
  assumes "unat va mod 4096 + i < 4096"
  shows "PGROUNDDOWN (va + of_nat i) = PGROUNDDOWN va" "unat (va + of_nat i) = unat va + i"
proof -
  have "unat va < 2 ^ 64" using unsigned_less [of va] by simp
  then have "unat va div 4096 < 0x10000000000000" by (simp add: less_mult_imp_div_less)
  moreover have "unat va = 4096 * (unat va div 4096) + unat va mod 4096" by simp
  ultimately have "unat va + i < 0x10000000000000000" using assms by linarith
  then show up: "unat (va + of_nat i) = unat va + i" by (intro unat_add_of_nat) simp
  have "(unat va + i) div 4096 = unat va div 4096"
  proof (rule div_nat_eqI)
    have va: "4096 * (unat va div 4096) + unat va mod 4096 = unat va" by simp
    then show "4096 * (unat va div 4096) \<le> unat va + i" by linarith
    show "unat va + i < 4096 * Suc (unat va div 4096)" using va assms unfolding mult_Suc_right by linarith
  qed
  then show "PGROUNDDOWN (va + of_nat i) = PGROUNDDOWN va"
    by (simp add: word_unat_eq_iff unat_PGROUNDDOWN up)
qed

text \<open>All addresses of a page are alike.\<close>

lemma MAXVA_page: "PGROUNDDOWN va < MAXVA \<longleftrightarrow> va < MAXVA"
proof -
  let ?q = "unat va div 4096"
  have va: "unat va = 4096 * ?q + unat va mod 4096" "unat va mod 4096 < 4096" by simp_all
  have "4096 * ?q < 0x4000000000 \<longleftrightarrow> ?q < 0x4000000" by simp
  also have "\<dots> \<longleftrightarrow> unat va < 0x4000000000" using va by linarith
  finally have "unat (PGROUNDDOWN va) < 2 ^ 38 \<longleftrightarrow> unat va < 2 ^ 38" by (simp add: unat_PGROUNDDOWN)
  then show ?thesis by (simp add: word_less_nat_alt unat_MAXVA)
qed

lemma entry_page:
  assumes "va < MAXVA" "PGROUNDDOWN vb = PGROUNDDOWN va"
  shows "entry 2 m pt vb = entry 2 m pt va"
proof -
  have "vb < MAXVA" using assms MAXVA_page by metis
  then show ?thesis using assms entry_PGROUNDDOWN(1) by metis
qed

lemma user_ok_page: "PGROUNDDOWN vb = PGROUNDDOWN va \<Longrightarrow> user_ok m pt vb \<longleftrightarrow> user_ok m pt va"
proof -
  assume eq: "PGROUNDDOWN vb = PGROUNDDOWN va"
  then have "vb < MAXVA \<longleftrightarrow> va < MAXVA" using MAXVA_page [of va] MAXVA_page [of vb] by simp
  with eq show ?thesis using entry_page [of va vb m pt] by (auto simp: user_ok_def)
qed

lemma walkaddr_user:
  assumes "twf 2 (mem s) pt"
  shows "walkaddr pt (PGROUNDDOWN va) s =
    Ret (if user_ok (mem s) pt va then PTE2PA (entry 2 (mem s) pt va) else 0) s"
proof -
  have "entry 2 (mem s) pt (PGROUNDDOWN va) = entry 2 (mem s) pt va" if "va < MAXVA"
    using that by (rule entry_PGROUNDDOWN)
  then show ?thesis
    unfolding walkaddr_eq [OF assms] by (auto simp: user_ok_def MAXVA_page Let_def)
qed

lemma page_span_eq: "len < 2 ^ 64 \<Longrightarrow> page_span va len = min (4096 - unat va mod 4096) len"
proof -
  assume len: "len < 2 ^ 64"
  have "unat (PGSIZE - (va - PGROUNDDOWN va)) = 4096 - unat va mod 4096"
    using page_offset [of va] by (simp add: unat_sub word_le_nat_alt)
  moreover have "unat (of_nat len :: addr) = len" using len by simp
  ultimately show ?thesis
    by (auto simp: page_span_def Let_def word_less_nat_alt min_def)
qed

lemma next_page:
  assumes "va < MAXVA"
  shows "PGROUNDDOWN va + PGSIZE = va + of_nat (4096 - unat va mod 4096)"
proof -
  have "of_nat (4096 - unat va mod 4096) = (of_nat 4096 - of_nat (unat va mod 4096) :: addr)"
    using page_offset(2) [of va] by (intro of_nat_diff) simp
  also have "of_nat (unat va mod 4096) = va - PGROUNDDOWN va"
    by (simp only: page_offset(1) [symmetric] of_nat_unat ucast_id)
  finally show ?thesis by (simp add: PGSIZE_def)
qed

section \<open>Reading\<close>

text \<open>One page of a copy in, as bytes of user memory.\<close>

lemma user_addr_step:
  assumes "va < MAXVA" "unat va mod 4096 + i < 4096"
  shows "user_addr m pt (va + of_nat i) = PTE2PA (entry 2 m pt va) + (va - PGROUNDDOWN va) + of_nat i"
  using PGROUNDDOWN_step(1) [OF assms(2)] entry_page [OF assms(1), of "va + of_nat i"]
  by (simp add: user_addr_def)

definition user_bytes :: "mem \<Rightarrow> addr \<Rightarrow> addr \<Rightarrow> nat \<Rightarrow> byte list" where
  "user_bytes m pt va n = map (\<lambda>i. m (user_addr m pt (va + of_nat i))) [0..<n]"

lemma user_bytes_add: "user_bytes m pt va (n + k) = user_bytes m pt va n @ user_bytes m pt (va + of_nat n) k"
proof -
  have "[0..<n + k] = [0..<n] @ map (\<lambda>i. i + n) [0..<k]"
    by (simp only: upt_add_eq_append [OF le0] map_add_upt add.commute [of k n])
  then show ?thesis by (simp add: user_bytes_def ac_simps)
qed

lemma user_bytes_page:
  assumes "va < MAXVA" "unat va mod 4096 + n \<le> 4096"
  shows "read_bytes m (PTE2PA (entry 2 m pt va) + (va - PGROUNDDOWN va)) n = user_bytes m pt va n"
  using assms by (simp add: user_bytes_def read_bytes_def user_addr_step)

definition range_ok :: "mem \<Rightarrow> addr \<Rightarrow> addr \<Rightarrow> nat \<Rightarrow> bool" where
  "range_ok m pt va n \<longleftrightarrow> (\<forall>i<n. user_ok m pt (va + of_nat i))"

lemma range_ok_add: "range_ok m pt va (n + k) \<longleftrightarrow> range_ok m pt va n \<and> range_ok m pt (va + of_nat n) k"
proof
  assume r: "range_ok m pt va (n + k)"
  then have "user_ok m pt (va + of_nat n + of_nat i)" if "i < k" for i
    using that by (auto simp: range_ok_def add.assoc of_nat_add [symmetric] simp del: of_nat_add)
  with r show "range_ok m pt va n \<and> range_ok m pt (va + of_nat n) k" by (simp add: range_ok_def)
next
  assume r: "range_ok m pt va n \<and> range_ok m pt (va + of_nat n) k"
  have "user_ok m pt (va + of_nat i)" if "i < n + k" for i
  proof (cases "i < n")
    case False
    then have "i - n < k" using that by simp
    with r have "user_ok m pt (va + of_nat n + of_nat (i - n))" unfolding range_ok_def by blast
    moreover have "va + of_nat n + of_nat (i - n) = va + of_nat i" using False by simp
    ultimately show ?thesis by (simp only:)
  qed (use r in \<open>simp add: range_ok_def\<close>)
  then show "range_ok m pt va (n + k)" by (simp add: range_ok_def)
qed

lemma range_ok_page:
  assumes "unat va mod 4096 + n \<le> 4096" "0 < n"
  shows "range_ok m pt va n \<longleftrightarrow> user_ok m pt va"
proof
  assume "range_ok m pt va n"
  then show "user_ok m pt va" using assms(2) by (auto simp: range_ok_def dest: spec [of _ 0])
next
  assume "user_ok m pt va"
  then show "range_ok m pt va n"
    using assms(1) user_ok_page [OF PGROUNDDOWN_step(1)] by (auto simp: range_ok_def)
qed

text \<open>The first stretch of a copy of \<open>len\<close> bytes: to the end of the page or of the copy.\<close>

lemma first_span:
  assumes "0 < len" "len < 2 ^ 64"
  shows "0 < page_span va len" "page_span va len \<le> len" "unat va mod 4096 + page_span va len \<le> 4096"
    "page_span va len < len \<Longrightarrow> va < MAXVA \<Longrightarrow> PGROUNDDOWN va + PGSIZE = va + of_nat (page_span va len)"
  using assms page_offset(2) [of va] next_page [of va] by (auto simp: page_span_eq min_def)

lemma copyin_loop:
  assumes "twf 2 (mem s) pt" "len < 2 ^ 64"
  shows "\<exists>r bs. kloop (copyin_step pt) (dst, va, len) s = Ret (r, dst @ bs) s \<and>
     (if range_ok (mem s) pt va len then r = 0 \<and> bs = user_bytes (mem s) pt va len else r = - 1)"
  using assms(2)
proof (induction len arbitrary: dst va rule: less_induct)
  case (less len)
  show ?case
  proof (cases "len = 0")
    case True
    then have "kloop (copyin_step pt) (dst, va, len) s = Ret (0, dst) s"
      by (intro kloop_done) (simp add: copyin_step_def exec_simps)
    then show ?thesis using True by (simp add: range_ok_def user_bytes_def)
  next
    case False
    let ?n = "page_span va len"
    note span = first_span [of len va] less.prems False
    have split: "range_ok (mem s) pt va len \<longleftrightarrow>
        user_ok (mem s) pt va \<and> range_ok (mem s) pt (va + of_nat ?n) (len - ?n)"
      using range_ok_add [of "mem s" pt va ?n "len - ?n"] range_ok_page [of va ?n] span by simp
    show ?thesis
    proof (cases "user_ok (mem s) pt va")
      case bad: False
      then have "kloop (copyin_step pt) (dst, va, len) s = Ret (- 1, dst) s"
        using False by (intro kloop_done) (simp add: copyin_step_def exec_simps walkaddr_user [OF assms(1)])
      with split bad show ?thesis by simp
    next
      case ok: True
      then have va: "va < MAXVA" "PTE2PA (entry 2 (mem s) pt va) \<noteq> 0" by (simp_all add: user_ok_def)
      have "copyin_step pt (dst, va, len) s =
          Ret (Inl (dst @ user_bytes (mem s) pt va ?n, PGROUNDDOWN va + PGSIZE, len - ?n)) s"
        using False ok va span user_bytes_page [of va ?n "mem s" pt]
        by (simp add: copyin_step_def exec_simps walkaddr_user [OF assms(1)] Let_def)
      then have round: "kloop (copyin_step pt) (dst, va, len) s =
          kloop (copyin_step pt) (dst @ user_bytes (mem s) pt va ?n, PGROUNDDOWN va + PGSIZE, len - ?n) s"
        by (rule kloop_round)
      have "\<exists>r bs. kloop (copyin_step pt) (dst @ user_bytes (mem s) pt va ?n, PGROUNDDOWN va + PGSIZE, len - ?n) s =
          Ret (r, (dst @ user_bytes (mem s) pt va ?n) @ bs) s \<and>
        (if range_ok (mem s) pt (PGROUNDDOWN va + PGSIZE) (len - ?n)
         then r = 0 \<and> bs = user_bytes (mem s) pt (PGROUNDDOWN va + PGSIZE) (len - ?n) else r = - 1)"
        using span by (intro less.IH) auto
      then obtain r bs where rest: "kloop (copyin_step pt) (dst, va, len) s = Ret (r, dst @ user_bytes (mem s) pt va ?n @ bs) s"
        "if range_ok (mem s) pt (PGROUNDDOWN va + PGSIZE) (len - ?n)
         then r = 0 \<and> bs = user_bytes (mem s) pt (PGROUNDDOWN va + PGSIZE) (len - ?n) else r = - 1"
        using round by auto
      have "range_ok (mem s) pt (PGROUNDDOWN va + PGSIZE) (len - ?n) = range_ok (mem s) pt (va + of_nat ?n) (len - ?n)"
        "user_bytes (mem s) pt (PGROUNDDOWN va + PGSIZE) (len - ?n) = user_bytes (mem s) pt (va + of_nat ?n) (len - ?n)"
        using span va(1) by (cases "?n < len"; simp add: range_ok_def user_bytes_def)+
      with rest split ok span user_bytes_add [of "mem s" pt va ?n "len - ?n"] show ?thesis
        by (intro exI [of _ r] exI [of _ "user_bytes (mem s) pt va ?n @ bs"]) (auto split: if_splits)
    qed
  qed
qed

section \<open>Writing\<close>

abbreviation frame_of :: "mem \<Rightarrow> addr \<Rightarrow> addr \<Rightarrow> addr" where
  "frame_of m pt va \<equiv> PTE2PA (entry 2 m pt va)"

text \<open>
  The frames behind the range are the user's own: none is a page of the page table, and different
  pages of the range have different frames.
\<close>

definition own_frames :: "mem \<Rightarrow> addr \<Rightarrow> addr \<Rightarrow> nat \<Rightarrow> bool" where
  "own_frames m pt va n \<longleftrightarrow> (\<forall>i<n. user_ok m pt (va + of_nat i) \<longrightarrow>
     frame_of m pt (va + of_nat i) \<notin> tset 2 m pt \<and>
     (\<forall>j<n. frame_of m pt (va + of_nat i) = frame_of m pt (va + of_nat j) \<longrightarrow>
        PGROUNDDOWN (va + of_nat i) = PGROUNDDOWN (va + of_nat j)))"

definition frames_in :: "mem \<Rightarrow> addr \<Rightarrow> addr \<Rightarrow> nat \<Rightarrow> addr set" where
  "frames_in m pt va n = {frame_of m pt (va + of_nat i) |i. i < n \<and> user_ok m pt (va + of_nat i)}"

lemma aligned_PTE2PA: "aligned (PTE2PA e)"
proof -
  have "PGROUNDDOWN (PTE2PA e) = PTE2PA e"
    unfolding PGROUNDDOWN_eq PTE2PA_def by (rule bit_word_eqI) (auto simp: bit_simps)
  then have "unat (PTE2PA e) = 4096 * (unat (PTE2PA e) div 4096)" by (metis unat_PGROUNDDOWN)
  then show ?thesis by (metis aligned_dvd dvd_triv_left)
qed

lemma range_ok_no_wrap:
  assumes "range_ok m pt va n" "0 < n"
  shows "unat va + n \<le> 2 ^ 38"
proof (rule ccontr)
  assume big: "\<not> unat va + n \<le> 2 ^ 38"
  have "user_ok m pt (va + of_nat 0)" using assms unfolding range_ok_def by blast
  then have va: "unat va < 2 ^ 38" by (simp add: user_ok_def word_less_nat_alt unat_MAXVA)
  let ?i = "2 ^ 38 - unat va"
  have "?i < n" using big va by simp
  then have "user_ok m pt (va + of_nat ?i)" using assms unfolding range_ok_def by blast
  moreover have "unat (va + of_nat ?i) = unat va + ?i" using va by (intro unat_add_of_nat) simp
  moreover have "unat va + ?i = 2 ^ 38" using va by simp
  ultimately have "unat (va + of_nat ?i) = 2 ^ 38" "va + of_nat ?i < MAXVA" by (simp_all only: user_ok_def)
  then show False by (simp only: word_less_nat_alt unat_MAXVA)
qed

lemma user_frame:
  assumes "twf 2 m pt" "only_pages m m' F" "F \<inter> tset 2 m pt = {}"
  shows "twf 2 m' pt" "tset 2 m' pt = tset 2 m pt" "entry 2 m' pt va = entry 2 m pt va"
proof -
  have same: "pg_same m m' x" if "x \<in> tset 2 m pt" for x
    using that assms tset_aligned [OF assms(1) that] by (intro only_pagesD [OF assms(2)]) auto
  show "twf 2 m' pt" "tset 2 m' pt = tset 2 m pt" using tree_frame [OF same] assms(1) by auto
  show "entry 2 m' pt va = entry 2 m pt va" using entry_frame [OF assms(1) same] .
qed

lemma user_ok_entry: "(\<And>v. entry 2 m' pt v = entry 2 m pt v) \<Longrightarrow> user_ok m' pt = user_ok m pt"
  by (simp add: user_ok_def fun_eq_iff)

lemma own_frames_rest:
  assumes "own_frames m pt va n" "k \<le> n" "\<And>v. entry 2 m' pt v = entry 2 m pt v" "tset 2 m' pt = tset 2 m pt"
  shows "own_frames m' pt (va + of_nat k) (n - k)"
  unfolding own_frames_def
proof (intro allI impI)
  fix i
  assume i: "i < n - k" "user_ok m' pt (va + of_nat k + of_nat i)"
  have shift: "va + of_nat k + of_nat j = va + of_nat (k + j)" for j by (simp add: add.assoc)
  have own: "frame_of m pt (va + of_nat (k + i)) \<notin> tset 2 m pt \<and>
     (\<forall>j<n. frame_of m pt (va + of_nat (k + i)) = frame_of m pt (va + of_nat j) \<longrightarrow>
        PGROUNDDOWN (va + of_nat (k + i)) = PGROUNDDOWN (va + of_nat j))"
  proof -
    have "k + i < n" using i(1) by simp
    moreover have "user_ok m pt (va + of_nat (k + i))" using i(2) user_ok_entry [OF assms(3)] by (simp only: shift)
    ultimately show ?thesis using assms(1) unfolding own_frames_def by blast
  qed
  show "frame_of m' pt (va + of_nat k + of_nat i) \<notin> tset 2 m' pt \<and>
     (\<forall>j<n - k. frame_of m' pt (va + of_nat k + of_nat i) = frame_of m' pt (va + of_nat k + of_nat j) \<longrightarrow>
        PGROUNDDOWN (va + of_nat k + of_nat i) = PGROUNDDOWN (va + of_nat k + of_nat j))"
    unfolding shift assms(3,4)
  proof (intro conjI allI impI)
    show "frame_of m pt (va + of_nat (k + i)) \<notin> tset 2 m pt" using own by blast
    fix j
    assume "j < n - k" "frame_of m pt (va + of_nat (k + i)) = frame_of m pt (va + of_nat (k + j))"
    then show "PGROUNDDOWN (va + of_nat (k + i)) = PGROUNDDOWN (va + of_nat (k + j))"
      using own by (metis less_diff_conv2 add.commute assms(2) less_diff_conv)
  qed
qed

lemma frames_in_rest:
  assumes "k \<le> n" "\<And>v. entry 2 m' pt v = entry 2 m pt v"
  shows "frames_in m' pt (va + of_nat k) (n - k) \<subseteq> frames_in m pt va n"
proof
  fix x
  assume "x \<in> frames_in m' pt (va + of_nat k) (n - k)"
  then obtain i where i: "i < n - k" "user_ok m pt (va + of_nat k + of_nat i)"
    "x = frame_of m pt (va + of_nat k + of_nat i)"
    using user_ok_entry [OF assms(2)] unfolding frames_in_def assms(2) by auto
  moreover have shift: "va + of_nat k + of_nat i = va + of_nat (k + i)" by (simp add: add.assoc)
  moreover have "k + i < n" using i(1) by simp
  ultimately show "x \<in> frames_in m pt va n" unfolding frames_in_def shift by blast
qed

text \<open>One page of a copy out.\<close>

lemma copyout_page:
  assumes wf: "twf 2 (mem s) pt" and src: "src \<noteq> []" "length src < 2 ^ 64"
    and ok: "user_ok (mem s) pt va" and own: "frame_of (mem s) pt va \<notin> tset 2 (mem s) pt"
  defines "n \<equiv> page_span va (length src)"
  shows "\<exists>t. copyout_step pt (va, src) s = Ret (Inl (PGROUNDDOWN va + PGSIZE, drop n src)) t \<and>
     t = s\<lparr>mem := mem t\<rparr> \<and> only_pages (mem s) (mem t) {frame_of (mem s) pt va} \<and>
     twf 2 (mem t) pt \<and> tset 2 (mem t) pt = tset 2 (mem s) pt \<and> (\<forall>v. entry 2 (mem t) pt v = entry 2 (mem s) pt v) \<and>
     user_bytes (mem t) pt va n = take n src"
proof -
  let ?f = "frame_of (mem s) pt va"
  let ?a = "?f + (va - PGROUNDDOWN va)"
  define t where "t = s\<lparr>mem := write_bytes (mem s) ?a (take n src)\<rparr>"
  have va: "va < MAXVA" "?f \<noteq> 0" using ok by (simp_all add: user_ok_def)
  have n: "n \<le> length src" "unat va mod 4096 + n \<le> 4096"
    using first_span [of "length src" va] src unfolding n_def by auto
  have a: "?a = ?f + of_nat (unat va mod 4096)"
    by (simp only: page_offset(1) [symmetric] of_nat_unat ucast_id)
  have op: "only_pages (mem s) (mem t) {?f}"
    unfolding t_def a using n aligned_PTE2PA by (simp add: write_in_page)
  have fr: "twf 2 (mem t) pt" "tset 2 (mem t) pt = tset 2 (mem s) pt" "entry 2 (mem t) pt v = entry 2 (mem s) pt v" for v
    using user_frame [OF wf op] own by auto
  have "user_bytes (mem t) pt va n = read_bytes (mem t) ?a n"
    using user_bytes_page [OF va(1) n(2), of "mem t" pt] fr(3) by simp
  also have "\<dots> = take n src"
    using read_write_same [of "take n src" "mem s" ?a] n src by (simp add: t_def)
  finally show ?thesis
    using op fr src ok va by (intro exI [of _ t])
      (simp add: copyout_step_def exec_simps walkaddr_user [OF wf] Let_def kwrite_def n_def t_def)
qed


lemma pages_differ:
  assumes "unat va + n \<le> 2 ^ 38" "k < n" "unat va mod 4096 + k = 4096" "k \<le> i" "i < n"
  shows "PGROUNDDOWN (va + of_nat i) \<noteq> PGROUNDDOWN va"
proof
  assume "PGROUNDDOWN (va + of_nat i) = PGROUNDDOWN va"
  then have "unat (PGROUNDDOWN (va + of_nat i)) = unat (PGROUNDDOWN va)" by simp
  moreover have "unat (va + of_nat i) = unat va + i" using assms by (intro unat_add_of_nat) simp
  moreover have "unat va < unat (PGROUNDDOWN va) + 4096" by (rule unat_PGROUNDDOWN_le)
  moreover have "unat va = unat (PGROUNDDOWN va) + unat va mod 4096" by (simp add: unat_PGROUNDDOWN)
  moreover have "unat (va + of_nat i) < unat (PGROUNDDOWN (va + of_nat i)) + 4096" by (rule unat_PGROUNDDOWN_le)
  ultimately show False using assms(3,4) by linarith
qed

lemma user_bytes_cong:
  assumes "\<And>v. entry 2 m' pt v = entry 2 m pt v" "only_pages m m' F"
    and "\<And>i. i < n \<Longrightarrow> frame_of m pt (va + of_nat i) \<notin> F"
  shows "user_bytes m' pt va n = user_bytes m pt va n"
proof -
  have "m' (user_addr m' pt (va + of_nat i)) = m (user_addr m pt (va + of_nat i))" if "i < n" for i
  proof -
    let ?v = "va + of_nat i"
    have "pg_same m m' (frame_of m pt ?v)" using assms(3) [OF that] aligned_PTE2PA by (intro only_pagesD [OF assms(2)])
    then have "m' (frame_of m pt ?v + of_nat (unat ?v mod 4096)) = m (frame_of m pt ?v + of_nat (unat ?v mod 4096))"
      using page_offset(2) [of ?v] unfolding pg_same_def by blast
    then show ?thesis unfolding user_addr_def assms(1)
      by (simp only: page_offset(1) [symmetric] of_nat_unat ucast_id)
  qed
  then show ?thesis by (simp add: user_bytes_def)
qed

text \<open>The frame of the first page is not among those of the later pages.\<close>

lemma first_page_apart:
  assumes own: "own_frames m pt va len" and ok: "user_ok m pt va"
    and nw: "unat va + len \<le> 2 ^ 38" and more: "n < len" and k: "unat va mod 4096 + n = 4096"
    and same: "\<And>v. entry 2 m' pt v = entry 2 m pt v" and i: "i < n"
  shows "frame_of m' pt (va + of_nat i) \<notin> frames_in m' pt (va + of_nat n) (len - n)"
proof
  have pgi: "PGROUNDDOWN (va + of_nat i) = PGROUNDDOWN va" using i k by (intro PGROUNDDOWN_step) simp
  assume "frame_of m' pt (va + of_nat i) \<in> frames_in m' pt (va + of_nat n) (len - n)"
  then obtain j where j: "j < len - n"
    "frame_of m pt (va + of_nat i) = frame_of m pt (va + of_nat n + of_nat j)"
    unfolding frames_in_def same by blast
  have "va + of_nat n + of_nat j = va + of_nat (n + j)" by (simp add: add.assoc)
  moreover have "user_ok m pt (va + of_nat i)" using user_ok_page [OF pgi] ok by simp
  moreover have "n + j < len" "i < len" using j(1) i more by simp_all
  ultimately have "PGROUNDDOWN (va + of_nat i) = PGROUNDDOWN (va + of_nat (n + j))"
    using own j(2) unfolding own_frames_def by metis
  then have "PGROUNDDOWN (va + of_nat (n + j)) = PGROUNDDOWN va" using pgi by (simp only:)
  with pages_differ [OF nw more k _ \<open>n + j < len\<close>] show False by simp
qed

text \<open>Only the memory differs.\<close>

lemma mem_only_trans: "u = s\<lparr>mem := mem u\<rparr> \<Longrightarrow> t = u\<lparr>mem := mem t\<rparr> \<Longrightarrow> t = s\<lparr>mem := mem t\<rparr>" for s :: kworld
proof -
  assume u: "u = s\<lparr>mem := mem u\<rparr>" and t: "t = u\<lparr>mem := mem t\<rparr>"
  have "u\<lparr>mem := m\<rparr> = s\<lparr>mem := m\<rparr>" for m
    using arg_cong [OF u, of "\<lambda>x. x\<lparr>mem := m\<rparr>"] by simp
  with t show ?thesis by simp
qed

lemma copyout_loop:
  assumes "twf 2 (mem s) pt" "length src < 2 ^ 64" "own_frames (mem s) pt va (length src)"
  shows "\<exists>r t. kloop (copyout_step pt) (va, src) s = Ret r t \<and> t = s\<lparr>mem := mem t\<rparr> \<and>
     only_pages (mem s) (mem t) (frames_in (mem s) pt va (length src)) \<and>
     (if range_ok (mem s) pt va (length src) then r = 0 \<and> user_bytes (mem t) pt va (length src) = src else r = - 1)"
  using assms
proof (induction "length src" arbitrary: src va s rule: less_induct)
  case less
  note wf = less.prems(1) and own = less.prems(3)
  show ?case
  proof (cases "src = []")
    case True
    then have "kloop (copyout_step pt) (va, src) s = Ret 0 s"
      by (intro kloop_done) (simp add: copyout_step_def exec_simps)
    then show ?thesis using True by (simp add: range_ok_def user_bytes_def)
  next
    case False
    let ?len = "length src" and ?n = "page_span va (length src)"
    have pos: "0 < ?len" using False by simp
    note span = first_span [OF pos less.prems(2), of va]
    have split: "range_ok (mem s) pt va ?len \<longleftrightarrow>
        user_ok (mem s) pt va \<and> range_ok (mem s) pt (va + of_nat ?n) (?len - ?n)"
      using range_ok_add [of "mem s" pt va ?n "?len - ?n"] range_ok_page [of va ?n] span by simp
    show ?thesis
    proof (cases "user_ok (mem s) pt va")
      case bad: False
      then have "kloop (copyout_step pt) (va, src) s = Ret (- 1) s"
        using False by (intro kloop_done) (simp add: copyout_step_def exec_simps walkaddr_user [OF wf])
      with split bad show ?thesis by simp
    next
      case ok: True
      let ?f = "frame_of (mem s) pt va"
      have "user_ok (mem s) pt (va + of_nat 0)" using ok by simp
      then have "?f \<notin> tset 2 (mem s) pt" using own pos unfolding own_frames_def by fastforce
      from copyout_page [OF wf False less.prems(2) ok this] obtain u where
        u: "copyout_step pt (va, src) s = Ret (Inl (PGROUNDDOWN va + PGSIZE, drop ?n src)) u" "u = s\<lparr>mem := mem u\<rparr>"
        "only_pages (mem s) (mem u) {?f}" "twf 2 (mem u) pt" "tset 2 (mem u) pt = tset 2 (mem s) pt"
        "\<And>v. entry 2 (mem u) pt v = entry 2 (mem s) pt v" "user_bytes (mem u) pt va ?n = take ?n src" by blast
      have ok_u: "range_ok (mem u) pt w k = range_ok (mem s) pt w k" for w k
        unfolding range_ok_def user_ok_entry [OF u(6)] ..
      have here: "?f \<in> frames_in (mem s) pt va ?len" using ok pos by (auto simp: frames_in_def intro!: exI [of _ 0])
      show ?thesis
      proof (cases "?n < ?len")
        case False
        then have n: "?n = ?len" using span by simp
        then have "kloop (copyout_step pt) (PGROUNDDOWN va + PGSIZE, drop ?n src) u = Ret 0 u"
          by (intro kloop_done) (simp add: copyout_step_def exec_simps)
        then have "kloop (copyout_step pt) (va, src) s = Ret 0 u"
          using kloop_round [of "copyout_step pt", OF u(1)] by simp
        moreover have "only_pages (mem s) (mem u) (frames_in (mem s) pt va ?len)"
          using here by (intro only_pages_mono [OF u(3)]) auto
        ultimately show ?thesis using u(2,7) n split ok by (auto simp: range_ok_def)
      next
        case more: True
        have va: "va < MAXVA" using ok by (simp add: user_ok_def)
        let ?w = "va + of_nat ?n"
        have nxt: "PGROUNDDOWN va + PGSIZE = ?w" using span(4) more va by simp
        have k: "unat va mod 4096 + ?n = 4096" using more less.prems(2) page_offset(2) [of va] by (simp add: page_span_eq)
        have "own_frames (mem u) pt ?w (?len - ?n)"
          using own_frames_rest [OF own span(2) u(6,5)] .
        then have "\<exists>r t. kloop (copyout_step pt) (?w, drop ?n src) u = Ret r t \<and> t = u\<lparr>mem := mem t\<rparr> \<and>
           only_pages (mem u) (mem t) (frames_in (mem u) pt ?w (length (drop ?n src))) \<and>
           (if range_ok (mem u) pt ?w (length (drop ?n src))
            then r = 0 \<and> user_bytes (mem t) pt ?w (length (drop ?n src)) = drop ?n src else r = - 1)"
          using u(4) span less.prems(2) pos by (intro less.hyps) simp_all
        then obtain r t where t: "kloop (copyout_step pt) (?w, drop ?n src) u = Ret r t" "t = u\<lparr>mem := mem t\<rparr>"
           "only_pages (mem u) (mem t) (frames_in (mem u) pt ?w (?len - ?n))"
           "if range_ok (mem s) pt ?w (?len - ?n) then r = 0 \<and> user_bytes (mem t) pt ?w (?len - ?n) = drop ?n src else r = - 1"
          unfolding ok_u length_drop by blast
        have rest: "frames_in (mem u) pt ?w (?len - ?n) \<subseteq> frames_in (mem s) pt va ?len"
          using frames_in_rest [OF span(2) u(6)] .
        have disj: "frames_in (mem s) pt va ?len \<inter> tset 2 (mem s) pt = {}"
          using own by (auto simp: frames_in_def own_frames_def)
        have run: "kloop (copyout_step pt) (va, src) s = Ret r t" using kloop_round [of "copyout_step pt", OF u(1)] t(1) nxt by simp
        have op: "only_pages (mem s) (mem t) (frames_in (mem s) pt va ?len)"
          using here rest by (intro only_pages_trans [OF only_pages_mono [OF u(3)] only_pages_mono [OF t(3)]]) auto
        have same: "\<And>v. entry 2 (mem t) pt v = entry 2 (mem u) pt v"
          using user_frame(3) [OF wf op disj] u(6) by simp
        have "user_bytes (mem t) pt va ?len = src" if r: "range_ok (mem s) pt va ?len"
        proof -
          have nw: "unat va + ?len \<le> 2 ^ 38" using range_ok_no_wrap [OF r pos] .
          have "user_bytes (mem t) pt va ?n = user_bytes (mem u) pt va ?n"
            using user_bytes_cong [OF same t(3)] first_page_apart [OF own ok nw more k u(6)] by blast
          then show ?thesis
            using user_bytes_add [of "mem t" pt va ?n "?len - ?n"] t(4) split r span u(7) by simp
        qed
        moreover have "t = s\<lparr>mem := mem t\<rparr>" using mem_only_trans [OF u(2) t(2)] .
        ultimately show ?thesis using run op t(4) split ok by auto
      qed
    qed
  qed
qed


section \<open>An example address space\<close>

text \<open>A page table of three pages that maps the user page 0 to the frame \<open>0x80033000\<close>.\<close>

definition example_mem :: mem where
  "example_mem = store64 (store64 (store64 (\<lambda>_. 0)
     (pte_slot 0x80030000 0) (PA2PTE 0x80031000 OR PTE_V))
     (pte_slot 0x80031000 0) (PA2PTE 0x80032000 OR PTE_V))
     (pte_slot 0x80032000 0) (PA2PTE 0x80033000 OR (PTE_R OR PTE_W OR PTE_U) OR PTE_V)"

definition example_vm :: kworld where
  "example_vm = (zero_world example_syms)\<lparr>mem := example_mem\<rparr>"

lemma aligned_example: "aligned 0x80030000" "aligned 0x80031000" "aligned 0x80032000" "aligned 0x80033000"
  by (simp_all add: aligned_def PGSIZE_def)

lemma load_zero_mem: "load64 (\<lambda>_. 0) a = 0"
proof -
  have "read_bytes (\<lambda>_. 0) a 8 = replicate 8 0" by (simp add: read_bytes_def map_replicate_trivial)
  then show ?thesis by (simp only: load64_def of_le_zeros)
qed

lemma example_slots:
  assumes "i < 512"
  shows "load64 example_mem (pte_slot 0x80030000 i) = (if i = 0 then PA2PTE 0x80031000 OR PTE_V else 0)"
    "load64 example_mem (pte_slot 0x80031000 i) = (if i = 0 then PA2PTE 0x80032000 OR PTE_V else 0)"
    "load64 example_mem (pte_slot 0x80032000 i) =
       (if i = 0 then PA2PTE 0x80033000 OR (PTE_R OR PTE_W OR PTE_U) OR PTE_V else 0)"
  using assms unfolding example_mem_def
  by (cases "i = 0"; simp add: load_slot_store aligned_example load_zero_mem)+

lemma example_slot0:
  "load64 example_mem (pte_slot 0x80030000 0) = PA2PTE 0x80031000 OR PTE_V"
  "load64 example_mem (pte_slot 0x80031000 0) = PA2PTE 0x80032000 OR PTE_V"
  "load64 example_mem (pte_slot 0x80032000 0) = PA2PTE 0x80033000 OR (PTE_R OR PTE_W OR PTE_U) OR PTE_V"
  by (simp_all add: example_slots)

lemma example_children:
  "PTE2PA (PA2PTE 0x80031000 OR PTE_V) = 0x80031000" "PTE2PA (PA2PTE 0x80032000 OR PTE_V) = 0x80032000"
  "PTE2PA (PA2PTE 0x80033000 OR (PTE_R OR PTE_W OR PTE_U) OR PTE_V) = 0x80033000"
  by (simp_all add: PTE2PA_PA2PTE aligned_example PTE_V_def PTE_R_def PTE_W_def PTE_U_def push_bit_eq_mult)

lemma example_tree:
  "twf 2 example_mem 0x80030000" "tset 2 example_mem 0x80030000 = {0x80030000, 0x80031000, 0x80032000}"
  "entry 2 example_mem 0x80030000 0 = PA2PTE 0x80033000 OR (PTE_R OR PTE_W OR PTE_U) OR PTE_V"
proof -
  have "0 < (512 :: addr)" by simp
  have valid: "load64 example_mem (pte_slot 0x80030000 i) AND PTE_V \<noteq> 0 \<longleftrightarrow> i = 0"
    "load64 example_mem (pte_slot 0x80031000 i) AND PTE_V \<noteq> 0 \<longleftrightarrow> i = 0" if "i < 512" for i
    using example_slots [OF that] valid_linked(2) by auto
  have one: "{i. i < 512 \<and> load64 example_mem (pte_slot 0x80030000 i) AND PTE_V \<noteq> 0} = {0 :: addr}"
    "{i. i < 512 \<and> load64 example_mem (pte_slot 0x80031000 i) AND PTE_V \<noteq> 0} = {0 :: addr}"
    using valid \<open>0 < 512\<close> by blast+
  have t1: "tset (Suc 0) example_mem 0x80031000 = {0x80031000, 0x80032000}"
    by (simp add: one example_slots example_children insert_commute)
  show "tset 2 example_mem 0x80030000 = {0x80030000, 0x80031000, 0x80032000}"
    unfolding numeral_2_eq_2 tset.simps(2) [of "Suc 0"] one
    by (simp add: example_slots example_children t1 del: tset.simps)
  have "twf (Suc 0) example_mem 0x80031000"
    using valid(2) by (auto simp: aligned_example example_slots example_children)
  then show "twf 2 example_mem 0x80030000"
    unfolding numeral_2_eq_2 twf.simps(2) [of "Suc 0"]
    using valid(1) by (auto simp: aligned_example example_slots example_children t1 simp del: tset.simps twf.simps)
  have "PX l 0 = 0" for l by (simp add: PX_def)
  then show "entry 2 example_mem 0x80030000 0 = PA2PTE 0x80033000 OR (PTE_R OR PTE_W OR PTE_U) OR PTE_V"
    using valid_linked(2) by (simp add: entry_def numeral_2_eq_2 example_children example_slot0)
qed

lemma example_unmapped: "0x1000 \<le> vb \<Longrightarrow> vb < 0x200000 \<Longrightarrow> entry 2 example_mem 0x80030000 vb AND PTE_V = 0"
proof -
  assume vb: "0x1000 \<le> vb" "vb < 0x200000"
  have "unat vb div 4096 mod 512 \<noteq> 0"
  proof -
    have "unat vb div 4096 < 512" "1 \<le> unat vb div 4096"
      using vb by (simp_all add: word_le_nat_alt word_less_nat_alt less_mult_imp_div_less div_greater_zero_iff Suc_le_eq)
    then show ?thesis by simp
  qed
  then have "unat (PX 0 vb) \<noteq> 0" using unat_PX [of 0 vb] by simp
  then have "PX 0 vb \<noteq> 0" by auto
  then have "load64 example_mem (pte_slot 0x80032000 (PX 0 vb)) = 0" by (simp add: example_slots)
  moreover have "unat vb < 2 ^ 21" using vb by (simp add: word_less_nat_alt)
  then have "unat (PX (Suc 0) vb) = 0" "unat (PX (Suc (Suc 0)) vb) = 0"
    using unat_PX [of "Suc 0" vb] unat_PX [of "Suc (Suc 0)" vb] by simp_all
  then have "PX (Suc 0) vb = 0" "PX (Suc (Suc 0)) vb = 0" by (simp_all only: unat_eq_zero)
  ultimately show ?thesis
    by (simp add: entry_def numeral_2_eq_2 example_children example_slot0)
qed

lemma example_user_ok: "user_ok example_mem 0x80030000 0"
  unfolding user_ok_def example_tree(3) example_children
  by (simp add: MAXVA_def PTE_V_def PTE_R_def PTE_W_def PTE_U_def PA2PTE_def push_bit_eq_mult drop_bit_eq_div)

lemma example_range: "range_ok example_mem 0x80030000 0 5"
  using range_ok_page [of 0 5] example_user_ok by simp

lemma example_own: "own_frames example_mem 0x80030000 0 5"
proof -
  have "PGROUNDDOWN (0 + of_nat i) = PGROUNDDOWN 0" if "i < 5" for i
    using that by (intro PGROUNDDOWN_step) simp
  moreover from this have "entry 2 example_mem 0x80030000 (0 + of_nat i) = entry 2 example_mem 0x80030000 0" if "i < 5" for i
    using that example_user_ok by (intro entry_page) (auto simp: user_ok_def)
  ultimately show ?thesis
    unfolding own_frames_def example_tree(2) by (simp add: example_tree(3) example_children)
qed

definition example_bytes :: "byte list" where "example_bytes = [1, 2, 3, 4, 5]"

lemma length_example_bytes: "length example_bytes = 5"
  by (simp add: example_bytes_def)

section \<open>Correctness\<close>

text \<open>
  \<open>copyin\<close> reads user memory and nothing else. It always returns, changes nothing, and returns 0
  exactly when every byte of the range lies below \<open>MAXVA\<close> in a page that is mapped for the user;
  then the kernel's buffer holds those bytes, in order, across page boundaries.
\<close>
theorem copyin_spec:
  assumes "twf 2 (mem s) pt" "len < 2 ^ 64"
  shows "\<exists>r bs. copyin pt va len s = Ret (r, bs) s \<and>
    (if \<forall>i<len. user_ok (mem s) pt (va + of_nat i)
     then r = 0 \<and> bs = map (\<lambda>i. mem s (user_addr (mem s) pt (va + of_nat i))) [0..<len] else r = - 1)"
proof -
  obtain r bs where "copyin pt va len s = Ret (r, bs) s"
    "if range_ok (mem s) pt va len then r = 0 \<and> bs = user_bytes (mem s) pt va len else r = - 1"
    using copyin_loop [OF assms, of "[]" va] by (auto simp: copyin_def)
  then show ?thesis
    by (intro exI [of _ r] exI [of _ bs]) (simp only: range_ok_def user_bytes_def)
qed

theorem copyin_spec_witness:
  "\<exists>bs. copyin 0x80030000 0 5 example_vm = Ret (0, bs) example_vm"
proof -
  have mem: "mem example_vm = example_mem" by (simp add: example_vm_def)
  have "twf 2 (mem example_vm) 0x80030000" using example_tree(1) by (simp add: mem)
  from copyin_spec [OF this, of 5 0] show ?thesis
    using example_range by (auto simp: range_ok_def mem)
qed

text \<open>
  C3. \<open>copyout\<close> then \<open>copyin\<close> is the identity. If the range is mapped for the user and the frames behind it
  are the user's own, \<open>copyout\<close> returns 0 having changed no frame but those, the page table
  included, and \<open>copyin\<close> of the same range returns the bytes written. If some byte of the range is
  not the user's, \<open>copyout\<close> returns -1 instead.
\<close>
theorem copyout_copyin:
  assumes "twf 2 (mem s) pt" "length src < 2 ^ 64" "own_frames (mem s) pt va (length src)"
  shows "\<exists>r t. copyout pt va src s = Ret r t \<and> t = s\<lparr>mem := mem t\<rparr> \<and>
    only_pages (mem s) (mem t) (frames_in (mem s) pt va (length src)) \<and>
    (if range_ok (mem s) pt va (length src) then r = 0 \<and> copyin pt va (length src) t = Ret (0, src) t else r = - 1)"
proof -
  obtain r t where t: "copyout pt va src s = Ret r t" "t = s\<lparr>mem := mem t\<rparr>"
    "only_pages (mem s) (mem t) (frames_in (mem s) pt va (length src))"
    "if range_ok (mem s) pt va (length src) then r = 0 \<and> user_bytes (mem t) pt va (length src) = src else r = - 1"
    using copyout_loop [OF assms] unfolding copyout_def by blast
  have "frames_in (mem s) pt va (length src) \<inter> tset 2 (mem s) pt = {}"
    using assms(3) by (auto simp: frames_in_def own_frames_def)
  note fr = user_frame [OF assms(1) t(3) this]
  have "range_ok (mem t) pt va (length src) = range_ok (mem s) pt va (length src)"
    unfolding range_ok_def user_ok_entry [OF fr(3)] ..
  then have "copyin pt va (length src) t = Ret (0, src) t" if "range_ok (mem s) pt va (length src)"
    using copyin_loop [OF fr(1) assms(2), of "[]" va] t(4) that by (simp add: copyin_def)
  with t show ?thesis by (intro exI [of _ r] exI [of _ t]) auto
qed

theorem copyout_copyin_witness:
  "\<exists>t. copyout 0x80030000 0 example_bytes example_vm = Ret 0 t \<and>
     copyin 0x80030000 0 5 t = Ret (0, example_bytes) t"
proof -
  have mem: "mem example_vm = example_mem" by (simp add: example_vm_def)
  have "twf 2 (mem example_vm) 0x80030000" "own_frames (mem example_vm) 0x80030000 0 (length example_bytes)"
    using example_tree(1) example_own by (simp_all add: mem length_example_bytes)
  from copyout_copyin [OF this(1) _ this(2)] show ?thesis
    using example_range by (auto simp: mem length_example_bytes)
qed

lemma last_page:
  assumes "aligned va" "unat va + 4096 * Suc n \<le> 2 ^ 38"
  shows "PGROUNDDOWN va = va" "PGROUNDDOWN (va + of_nat (4096 * Suc n) - 1) = va + of_nat (4096 * n)"
proof -
  obtain q where q: "unat va = 4096 * q" using assms(1) by (auto simp: aligned_dvd)
  then show "PGROUNDDOWN va = va" by (simp add: word_unat_eq_iff unat_PGROUNDDOWN)
  have "va + of_nat (4096 * Suc n) - 1 = va + of_nat (4096 * n + 4095)" by simp
  moreover have "unat (va + of_nat (4096 * n + 4095)) = unat va + (4096 * n + 4095)"
    using assms(2) by (intro unat_add_of_nat) simp
  moreover have "unat (va + of_nat (4096 * n)) = unat va + 4096 * n"
    using assms(2) by (intro unat_add_of_nat) simp
  moreover have "(4096 * q + (4096 * n + 4095)) div 4096 = q + n" by (intro div_nat_eqI) simp_all
  ultimately show "PGROUNDDOWN (va + of_nat (4096 * Suc n) - 1) = va + of_nat (4096 * n)"
    by (simp add: word_unat_eq_iff unat_PGROUNDDOWN q del: of_nat_Suc of_nat_mult)
qed

text \<open>
  C16. \<open>mappages\<close> of \<open>n\<close> pages that are not mapped yet always returns. It returns 0 having mapped exactly
  those pages, page \<open>i\<close> to the frame \<open>pa + 4096 * i\<close> with the permissions asked for, or it returns -1
  with the free list exhausted, having mapped a proper prefix of them. Either way every other
  virtual page keeps its entry, the table stays a tree of frames of its own, disjoint from the free
  frames, and no frame changes but those of the table and those taken from the free list.
\<close>
theorem mappages_spec:
  assumes "pgtab pt s xs" "aligned va" "0 < n" "unat va + 4096 * n \<le> 2 ^ 38"
    and "\<And>vb. unat va \<le> unat vb \<Longrightarrow> unat vb < unat va + 4096 * n \<Longrightarrow> entry 2 (mem s) pt vb AND PTE_V = 0"
  shows "\<exists>r t zs k. mappages pt va (of_nat (4096 * n)) pa perm s = Ret r t \<and> pgtab pt t zs \<and>
    (\<exists>ys. xs = ys @ zs) \<and> only_pages (mem s) (mem t) (tset 2 (mem s) pt \<union> set xs) \<and>
    (r = 0 \<and> k = n \<or> r = - 1 \<and> k < n \<and> zs = []) \<and>
    (\<forall>vb. vb < MAXVA \<longrightarrow> entry 2 (mem t) pt vb =
       (if unat va \<le> unat vb \<and> unat vb < unat va + 4096 * k
        then PA2PTE (pa + (PGROUNDDOWN vb - va)) OR perm OR PTE_V else entry 2 (mem s) pt vb))"
proof -
  obtain j where n: "n = Suc j" using assms(3) by (cases n) auto
  note last = last_page [OF assms(2) assms(4) [unfolded n]]
  have "unat (of_nat (4096 * n) :: addr) = 4096 * n" using assms(4) by (intro unat_of_nat_addr) simp
  then have "(of_nat (4096 * n) :: addr) \<noteq> 0" using assms(3) by (metis mult_eq_0_iff neq0_conv unsigned_0 zero_neq_numeral)
  then have "mappages pt va (of_nat (4096 * n)) pa perm =
      kloop (mappages_step pt (va + of_nat (4096 * j)) perm) (va, pa)"
    using last by (simp add: mappages_def n del: of_nat_Suc of_nat_mult)
  moreover have "\<exists>r t zs k. kloop (mappages_step pt (va + of_nat (4096 * j)) perm) (va, pa) s = Ret r t \<and> pgtab pt t zs \<and>
     vm_frame s t \<and> (\<exists>ys. xs = ys @ zs) \<and> only_pages (mem s) (mem t) (tset 2 (mem s) pt \<union> set xs) \<and>
     (r = 0 \<and> k = Suc j \<or> r = - 1 \<and> k \<le> j \<and> zs = []) \<and>
     (\<forall>vb. vb < MAXVA \<longrightarrow> entry 2 (mem t) pt vb = mapped_run va pa perm k (entry 2 (mem s) pt) vb)"
    using assms n by (intro mappages_run) auto
  ultimately show ?thesis
    unfolding n mapped_run_def by (metis less_Suc_eq_le)
qed

theorem mappages_spec_witness:
  "\<exists>r t. mappages 0x80030000 0x1000 (of_nat (4096 * 3)) 0x80034000 (PTE_R OR PTE_U) example_vm = Ret r t"
proof -
  have mem: "mem example_vm = example_mem" by (simp add: example_vm_def)
  have "pgtab 0x80030000 example_vm []"
    using example_tree(1)
    by (simp add: pgtab_def kmem_ready_def free_pages_def mem)
       (simp add: example_vm_def zero_world_def example_syms_def lock_free_def settled_def)
  moreover have "entry 2 (mem example_vm) 0x80030000 vb AND PTE_V = 0"
    if "unat (0x1000 :: addr) \<le> unat vb" "unat vb < unat (0x1000 :: addr) + 4096 * 3" for vb
    using example_unmapped [of vb] that by (simp add: mem word_le_nat_alt word_less_nat_alt)
  ultimately have "\<exists>r t zs k. mappages 0x80030000 0x1000 (of_nat (4096 * 3)) 0x80034000 (PTE_R OR PTE_U) example_vm = Ret r t \<and>
    pgtab 0x80030000 t zs \<and> (\<exists>ys. [] = ys @ zs) \<and>
    only_pages (mem example_vm) (mem t) (tset 2 (mem example_vm) 0x80030000 \<union> set []) \<and>
    (r = 0 \<and> k = 3 \<or> r = - 1 \<and> k < 3 \<and> zs = []) \<and>
    (\<forall>vb. vb < MAXVA \<longrightarrow> entry 2 (mem t) 0x80030000 vb =
       (if unat (0x1000 :: addr) \<le> unat vb \<and> unat vb < unat (0x1000 :: addr) + 4096 * k
        then PA2PTE (0x80034000 + (PGROUNDDOWN vb - 0x1000)) OR (PTE_R OR PTE_U) OR PTE_V
        else entry 2 (mem example_vm) 0x80030000 vb))"
    by (intro mappages_spec) (simp_all add: aligned_def PGSIZE_def)
  then show ?thesis by blast
qed

end
