(* ===== verification/Console.thy ===== *)
theory Console
  imports Printf Usercopy
begin

text \<open>
  The console (\<open>kernel/console.c\<close>) with the interrupt half of the UART driver (\<open>uartintr\<close>), the two copy routines of
  \<open>kernel/proc.c\<close> that take user or kernel addresses, and \<open>procdump\<close>.

  Console input goes through a line editor into a ring of 128 bytes with three counters: bytes between
  \<open>r\<close> and \<open>w\<close> are ready for \<open>consoleread\<close>, bytes between \<open>w\<close> and \<open>e\<close> can still be edited. The
  section on the line discipline shows that \<open>consoleintr\<close> implements an editor on two lists.
\<close>

section \<open>Copies to and from either address space (proc.c)\<close>

definition either_copyout :: "bool \<Rightarrow> addr \<Rightarrow> byte list \<Rightarrow> int K" where
  "either_copyout user_dst dst src =
     kbind curproc (\<lambda>p.
     kbind (kget (\<lambda>s. p_pagetable (procs s p))) (\<lambda>pt.
     if user_dst then copyout pt dst src
     else kbind (kwrite dst src) (\<lambda>_. kret 0)))"

definition either_copyin :: "bool \<Rightarrow> addr \<Rightarrow> nat \<Rightarrow> (int \<times> byte list) K" where
  "either_copyin user_src src len =
     kbind curproc (\<lambda>p.
     kbind (kget (\<lambda>s. p_pagetable (procs s p))) (\<lambda>pt.
     if user_src then copyin pt src len
     else kbind (kget (\<lambda>s. read_bytes (mem s) src len)) (\<lambda>bs. kret (0, bs))))"

section \<open>Listing the processes (proc.c)\<close>

primrec state_name :: "procstate \<Rightarrow> string" where
  "state_name UNUSED = ''unused''"
| "state_name USED = ''used''"
| "state_name SLEEPING = ''sleep ''"
| "state_name RUNNABLE = ''runble''"
| "state_name RUNNING = ''run   ''"
| "state_name ZOMBIE = ''zombie''"

definition procdump :: "unit K" where
  "procdump = kseq [
     printf newline [],
     kfor [0..<NPROC] (\<lambda>p.
       kbind (kget (\<lambda>s. procs s p)) (\<lambda>q.
       kwhen (p_state q \<noteq> UNUSED) (kseq [
         printf ''%d %s %s'' [VInt (p_pid q), VStr (Some (bytes (state_name (p_state q)))), VStr (Some (p_name q))],
         printf newline []])))]"

section \<open>The console (console.c)\<close>

definition INPUT_BUF_SIZE :: nat where "INPUT_BUF_SIZE = 128"
definition CONSOLE :: nat where "CONSOLE = 1"

text \<open>\<open>C('D')\<close> and the like; newline, carriage return and delete.\<close>

definition ctrl :: "char \<Rightarrow> int" where "ctrl x = cchar x - cchar (CHR 0x40)"
definition NL :: int where "NL = 10"
definition CR :: int where "CR = 13"
definition DEL :: int where "DEL = 0x7f"

definition consolewrite :: "bool \<Rightarrow> addr \<Rightarrow> int \<Rightarrow> int K" where
  "consolewrite user_src src n =
     kbind (kscan [0..<nat n] (\<lambda>i.
       kbind (either_copyin user_src (src + of_nat i) 1) (\<lambda>(r, c).
       if r = - 1 then kret (Some (int i))
       else kbind (uartputc (uint (hd c))) (\<lambda>_. kret None)))) (\<lambda>r.
     kret (case r of Some i \<Rightarrow> i | None \<Rightarrow> max 0 n))"

text \<open>
  The inner loop of \<open>consoleread\<close> waits for a line: the answer is whether the process was killed. One round of the
  outer loop takes one byte; the loop's variables are \<open>dst\<close> and \<open>n\<close>.
\<close>

definition consoleread_wait :: "bool K" where
  "consoleread_wait =
     kloop (\<lambda>_.
       kbind (kget cons) (\<lambda>c.
       if cons_r c \<noteq> cons_w c then kret (Inr False)
       else kbind curproc (\<lambda>p.
         kbind (killed p) (\<lambda>k.
         if k \<noteq> 0 then kret (Inr True)
         else kbind (sleep ChConsR ConsLock) (\<lambda>_. kret (Inl ())))))) ()"

definition consoleread_step :: "bool \<Rightarrow> int \<Rightarrow> addr \<times> int \<Rightarrow> (addr \<times> int + int) K" where
  "consoleread_step user_dst target = (\<lambda>(dst, n).
     if \<not> n > 0 then kbind (release ConsLock) (\<lambda>_. kret (Inr (target - n)))
     else kbind consoleread_wait (\<lambda>dead.
       if dead then kbind (release ConsLock) (\<lambda>_. kret (Inr (- 1)))
       else kbind (kget (\<lambda>s. cons_buf (cons s) (unat (cons_r (cons s)) mod INPUT_BUF_SIZE))) (\<lambda>c.
         kbind (kmod (upd_cons (\<lambda>c. c\<lparr>cons_r := cons_r c + 1\<rparr>))) (\<lambda>_.
         if uint c = ctrl (CHR ''D'')
         then kbind (kseq [
                kwhen (n < target) (kmod (upd_cons (\<lambda>c. c\<lparr>cons_r := cons_r c - 1\<rparr>))),
                release ConsLock]) (\<lambda>_. kret (Inr (target - n)))
         else kbind (either_copyout user_dst dst [c]) (\<lambda>r.
           if r = - 1 then kbind (release ConsLock) (\<lambda>_. kret (Inr (target - n)))
           else if uint c = NL then kbind (release ConsLock) (\<lambda>_. kret (Inr (target - (n - 1))))
           else kret (Inl (dst + 1, n - 1)))))))"

definition consoleread :: "bool \<Rightarrow> addr \<Rightarrow> int \<Rightarrow> int K" where
  "consoleread user_dst dst n =
     kbind (acquire ConsLock) (\<lambda>_. kloop (consoleread_step user_dst n) (dst, n))"

text \<open>The loop of \<open>consoleintr\<close> that erases the line.\<close>

definition kill_line :: "unit K" where
  "kill_line =
     kloop (\<lambda>_.
       kbind (kget cons) (\<lambda>c.
       if cons_e c \<noteq> cons_w c \<and> uint (cons_buf c (unat (cons_e c - 1) mod INPUT_BUF_SIZE)) \<noteq> NL
       then kbind (kseq [
              kmod (upd_cons (\<lambda>c. c\<lparr>cons_e := cons_e c - 1\<rparr>)),
              consputc BACKSPACE]) (\<lambda>_. kret (Inl ()))
       else kret (Inr ()))) ()"

definition consoleintr_key :: "int \<Rightarrow> unit K" where
  "consoleintr_key c =
     (if c = ctrl (CHR ''P'') then procdump
      else if c = ctrl (CHR ''U'') then kill_line
      else if c = ctrl (CHR ''H'') \<or> c = DEL then
        kbind (kget cons) (\<lambda>k. kwhen (cons_e k \<noteq> cons_w k) (kseq [
          kmod (upd_cons (\<lambda>k. k\<lparr>cons_e := cons_e k - 1\<rparr>)),
          consputc BACKSPACE]))
      else kbind (kget cons) (\<lambda>k. kwhen (c \<noteq> 0 \<and> cons_e k - cons_r k < of_nat INPUT_BUF_SIZE) (
        let c = (if c = CR then NL else c) in kseq [
          consputc c,
          kmod (upd_cons (\<lambda>k. k\<lparr>cons_buf := (cons_buf k)(unat (cons_e k) mod INPUT_BUF_SIZE := word_of_int c)\<rparr>)),
          kmod (upd_cons (\<lambda>k. k\<lparr>cons_e := cons_e k + 1\<rparr>)),
          kbind (kget cons) (\<lambda>k.
            kwhen (c = NL \<or> c = ctrl (CHR ''D'') \<or> cons_e k - cons_r k = of_nat INPUT_BUF_SIZE) (kseq [
              kmod (upd_cons (\<lambda>k. k\<lparr>cons_w := cons_e k\<rparr>)),
              wakeup (Some ChConsR)]))])))"

definition consoleintr :: "int \<Rightarrow> unit K" where
  "consoleintr c = kseq [acquire ConsLock, consoleintr_key c, release ConsLock]"

definition consoleinit :: "unit K" where
  "consoleinit = kseq [
     initlock ConsLock ''cons'',
     uartinit,
     kmod (\<lambda>s. s\<lparr>devsw_read := (devsw_read s)(CONSOLE := True)\<rparr>),
     kmod (\<lambda>s. s\<lparr>devsw_write := (devsw_write s)(CONSOLE := True)\<rparr>)]"

text \<open>The interrupt half of the UART driver (uart.c).\<close>

definition uartintr :: "unit K" where
  "uartintr = kseq [
     kloop (\<lambda>_.
       kbind uartgetc (\<lambda>c.
       if c = - 1 then kret (Inr ())
       else kbind (consoleintr c) (\<lambda>_. kret (Inl ())))) (),
     acquire UartTxLock,
     uartstart,
     release UartTxLock]"

section \<open>The line discipline\<close>

interpretation ci: ring INPUT_BUF_SIZE "TYPE(32)"
  by unfold_locales (simp_all add: INPUT_BUF_SIZE_def)

definition cons_ok :: "console \<Rightarrow> bool" where
  "cons_ok k \<longleftrightarrow> unat (cons_w k - cons_r k) \<le> unat (cons_e k - cons_r k) \<and> unat (cons_e k - cons_r k) \<le> INPUT_BUF_SIZE"

definition ready :: "console \<Rightarrow> byte list" where
  "ready k = ci.contents (cons_buf k) (cons_r k) (cons_w k)"

definition line :: "console \<Rightarrow> byte list" where
  "line k = ci.contents (cons_buf k) (cons_w k) (cons_e k)"

text \<open>The editor: bytes of finished lines, and the line that is being typed.\<close>

definition edit :: "int \<Rightarrow> byte list \<times> byte list \<Rightarrow> byte list \<times> byte list" where
  "edit c = (\<lambda>(fin, cur).
     if c = ctrl (CHR ''P'') then (fin, cur)
     else if c = ctrl (CHR ''U'') then (fin, rev (dropWhile (\<lambda>b. uint b \<noteq> NL) (rev cur)))
     else if c = ctrl (CHR ''H'') \<or> c = DEL then (fin, butlast cur)
     else if c = 0 \<or> length fin + length cur = INPUT_BUF_SIZE then (fin, cur)
     else let c = (if c = CR then NL else c); new = cur @ [word_of_int c] in
       if c = NL \<or> c = ctrl (CHR ''D'') \<or> length fin + length new = INPUT_BUF_SIZE then (fin @ new, []) else (fin, new))"

lemma cons_lengths:
  assumes "cons_ok k"
  shows "unat (cons_e k - cons_r k) = length (ready k) + length (line k)" "length (ready k) + length (line k) \<le> INPUT_BUF_SIZE"
    "ci.contents (cons_buf k) (cons_r k) (cons_e k) = ready k @ line k"
proof -
  show len: "unat (cons_e k - cons_r k) = length (ready k) + length (line k)"
    unfolding ready_def line_def ci.length_contents using assms by (intro ci.contents_split(2)) (simp add: cons_ok_def)
  then show "length (ready k) + length (line k) \<le> INPUT_BUF_SIZE" using assms by (simp add: cons_ok_def)
  show "ci.contents (cons_buf k) (cons_r k) (cons_e k) = ready k @ line k"
    unfolding ready_def line_def using assms by (intro ci.contents_split(1)) (simp add: cons_ok_def)
qed

text \<open>Erasing the last byte of the line.\<close>

lemma erase_one:
  assumes ok: "cons_ok k" and ne: "cons_e k \<noteq> cons_w k"
  defines "k' \<equiv> k\<lparr>cons_e := cons_e k - 1\<rparr>"
  shows "cons_ok k'" "ready k' = ready k" "line k = line k' @ [cons_buf k (unat (cons_e k - 1) mod INPUT_BUF_SIZE)]"
proof -
  show l: "line k = line k' @ [cons_buf k (unat (cons_e k - 1) mod INPUT_BUF_SIZE)]"
    using ci.contents_unput [of "cons_w k" "cons_e k" "cons_buf k"] ne by (simp add: line_def k'_def ci.slot_def)
  show "ready k' = ready k" by (simp add: ready_def k'_def)
  have "0 < length (line k)" using l by simp
  then have pos: "unat (cons_w k - cons_r k) < unat (cons_e k - cons_r k)"
    using cons_lengths(1) [OF ok] by (simp add: ready_def)
  then have "cons_r k \<noteq> cons_e k" by auto
  then have "unat (cons_e k - cons_r k) = Suc (unat (cons_e k - 1 - cons_r k))"
    using ci.unat_diff_Suc [of "cons_r k" "cons_e k"] by (simp only: diff_right_commute [of "cons_e k" "cons_r k" 1] not_False_eq_True)
  then show "cons_ok k'" using ok pos by (simp add: cons_ok_def k'_def)
qed

text \<open>Adding a byte to the line, and finishing the line.\<close>

lemma type_one:
  fixes b :: byte
  assumes ok: "cons_ok k" and room: "length (ready k) + length (line k) < INPUT_BUF_SIZE"
  defines "k' \<equiv> k\<lparr>cons_buf := (cons_buf k)(unat (cons_e k) mod INPUT_BUF_SIZE := b), cons_e := cons_e k + 1\<rparr>"
  shows "cons_ok k'" "ready k' = ready k" "line k' = line k @ [b]"
proof -
  let ?buf = "(cons_buf k)(ci.slot (cons_e k) := b)"
  have n: "unat (cons_e k - cons_r k) < INPUT_BUF_SIZE" using room cons_lengths(1) [OF ok] by simp
  then have all: "ci.contents ?buf (cons_r k) (cons_e k + 1) = ready k @ line k @ [b]"
    using ci.contents_put [OF n, of "cons_buf k" b] cons_lengths(3) [OF ok] by (simp del: fun_upd_apply)
  have Suc: "unat (cons_e k + 1 - cons_r k) = Suc (unat (cons_e k - cons_r k))" by (rule ci.unat_Suc_diff [OF n])
  then have le: "unat (cons_w k - cons_r k) \<le> unat (cons_e k + 1 - cons_r k)" using ok by (simp add: cons_ok_def)
  have "ci.contents ?buf (cons_r k) (cons_w k) @ ci.contents ?buf (cons_w k) (cons_e k + 1) = ready k @ line k @ [b]"
    using ci.contents_split(1) [OF le, of ?buf] all by simp
  moreover have "length (ci.contents ?buf (cons_r k) (cons_w k)) = length (ready k)"
    by (simp only: ready_def ci.length_contents)
  ultimately show "ready k' = ready k" "line k' = line k @ [b]"
    unfolding ready_def [of k'] line_def [of k'] by (simp_all add: append_eq_append_conv k'_def ci.slot_def)
  show "cons_ok k'" using ok Suc le n by (simp add: cons_ok_def k'_def)
qed

lemma finish_line:
  assumes "cons_ok k"
  defines "k' \<equiv> k\<lparr>cons_w := cons_e k\<rparr>"
  shows "cons_ok k'" "ready k' = ready k @ line k" "line k' = []"
  using assms(1) cons_lengths(3) [OF assms(1)]
  unfolding k'_def ready_def [of "k\<lparr>cons_w := cons_e k\<rparr>"] line_def [of "k\<lparr>cons_w := cons_e k\<rparr>"]
  by (simp_all add: cons_ok_def)

section \<open>The keys\<close>

text \<open>What a key may change: the console, the UART and the states of sleeping processes.\<close>

definition key_ready :: "'z kstate_scheme \<Rightarrow> bool" where
  "key_ready s \<longleftrightarrow> can_print s \<and> procs_free s \<and> (pr_locking s \<longrightarrow> lock_free PrLock s) \<and> cons_ok (cons s)"

lemma procs_sent [simp]: "procs (sent cs s) = procs s" "pr_locking (sent cs s) = pr_locking s" "cons (sent cs s) = cons s"
  "procs_free (sent cs s) = procs_free s"
  by (simp_all add: sent_def procs_free_def) (simp_all add: upd_uart_def)

lemma procdump_eq:
  assumes "can_print s" "pr_locking s \<longrightarrow> lock_free PrLock s"
  shows "\<exists>cs. procdump s = Ret () (sent cs s)"
proof -
  let ?row = "\<lambda>p. let q = procs s p in if p_state q = UNUSED then [] else
     format_text ''%d %s %s'' [VInt (p_pid q), VStr (Some (bytes (state_name (p_state q)))), VStr (Some (p_name q))] @ format_text newline []"
  let ?f = "\<lambda>p. kbind (kget (\<lambda>s. procs s p)) (\<lambda>q.
       kwhen (p_state q \<noteq> UNUSED) (kseq [
         printf ''%d %s %s'' [VInt (p_pid q), VStr (Some (bytes (state_name (p_state q)))), VStr (Some (p_name q))],
         printf newline []]))"
  have "kfor ps ?f (sent cs s) = Ret () (sent (cs @ concat (map ?row ps)) s)" for ps cs
  proof (induction ps arbitrary: cs)
    case Nil
    then show ?case by (simp add: exec_simps)
  next
    case (Cons p ps)
    then show ?case using assms by (simp add: exec_simps printf_eq Let_def del: format_text.simps)
  qed
  then show ?thesis using assms by (auto simp: procdump_def exec_simps printf_eq)
qed

lemma consputc_BACKSPACE: "can_print s \<Longrightarrow> consputc BACKSPACE s = Ret () (sent [8, 32, 8] s)"
  by (simp add: consputc_def exec_simps uartputc_sync_eq)

lemma kill_line_ok:
  assumes "can_print s" "cons_ok (cons s)"
  shows "\<exists>k u. kill_line s = Ret () (s\<lparr>cons := k, uart := u\<rparr>) \<and> can_print (s\<lparr>cons := k, uart := u\<rparr>) \<and> cons_ok k \<and>
    ready k = ready (cons s) \<and> line k = rev (dropWhile (\<lambda>b. uint b \<noteq> NL) (rev (line (cons s))))"
  using assms
proof (induction "length (line (cons s))" arbitrary: s rule: less_induct)
  case less
  let ?k = "cons s"
  let ?b = "cons_buf ?k (unat (cons_e ?k - 1) mod INPUT_BUF_SIZE)"
  show ?case
  proof (cases "cons_e ?k = cons_w ?k")
    case True
    then have "kill_line s = Ret () s"
      unfolding kill_line_def by (subst kloop_unfold) (simp add: exec_simps)
    moreover have "line ?k = []" using True by (simp add: line_def)
    ultimately show ?thesis using less.prems by (intro exI [of _ ?k] exI [of _ "uart s"]) simp
  next
    case False
    let ?k' = "?k\<lparr>cons_e := cons_e ?k - 1\<rparr>"
    note e = erase_one [OF less.prems(2) False]
    show ?thesis
    proof (cases "uint ?b = NL")
      case True
      then have "kill_line s = Ret () s" unfolding kill_line_def by (subst kloop_unfold) (simp add: exec_simps)
      then show ?thesis using less.prems e(3) True by (intro exI [of _ ?k] exI [of _ "uart s"]) simp
    next
      case nl: False
      let ?s = "sent [8, 32, 8] (upd_cons (\<lambda>k. k\<lparr>cons_e := cons_e k - 1\<rparr>) s)"
      have cp: "can_print (upd_cons (\<lambda>k. k\<lparr>cons_e := cons_e k - 1\<rparr>) s)"
        using less.prems(1) by (simp add: can_print_def) (simp add: upd_cons_def)
      have cs: "cons ?s = ?k'" by (simp add: sent_def upd_uart_def upd_cons_def)
      have "kill_line s = kill_line ?s"
        unfolding kill_line_def using False nl cp by (subst kloop_unfold) (simp add: exec_simps consputc_BACKSPACE)
      moreover have "length (line (cons ?s)) < length (line ?k)" using e(3) cs by simp
      ultimately obtain k u where ku: "kill_line s = Ret () (?s\<lparr>cons := k, uart := u\<rparr>)" "can_print (?s\<lparr>cons := k, uart := u\<rparr>)"
        "cons_ok k" "ready k = ready ?k'" "line k = rev (dropWhile (\<lambda>b. uint b \<noteq> NL) (rev (line ?k')))"
        using less.hyps [of ?s] cp e(1) cs by auto
      moreover have "?s\<lparr>cons := k, uart := u\<rparr> = s\<lparr>cons := k, uart := u\<rparr>" by (simp add: sent_def upd_uart_def upd_cons_def)
      ultimately show ?thesis using e(2,3) nl by auto
    qed
  qed
qed

text \<open>Each key acts on the two lists as the editor does.\<close>

definition key_done :: "int \<Rightarrow> kworld \<Rightarrow> kworld \<Rightarrow> bool" where
  "key_done c s t \<longleftrightarrow> t = s\<lparr>cons := cons t, uart := uart t, procs := procs t\<rparr> \<and> cons_ok (cons t) \<and>
     (ready (cons t), line (cons t)) = edit c (ready (cons s), line (cons s))"

lemma ctrl_vals: "ctrl (CHR ''P'') = 16" "ctrl (CHR ''U'') = 21" "ctrl (CHR ''H'') = 8" "ctrl (CHR ''D'') = 4"
  by (simp_all add: ctrl_def cchar_def of_char_def)

lemma full_iff:
  assumes "cons_ok k"
  shows "cons_e k - cons_r k < of_nat INPUT_BUF_SIZE \<longleftrightarrow> length (ready k) + length (line k) < INPUT_BUF_SIZE"
    "cons_e k - cons_r k = of_nat INPUT_BUF_SIZE \<longleftrightarrow> length (ready k) + length (line k) = INPUT_BUF_SIZE"
  using cons_lengths(1) [OF assms] by (simp_all add: INPUT_BUF_SIZE_def word_less_nat_alt word_unat_eq_iff)

lemma typed_key_ok:
  assumes s: "key_ready s" and c: "c \<notin> {16, 21, 8, DEL, 0}" "c \<noteq> BACKSPACE" "length (ready (cons s)) + length (line (cons s)) < INPUT_BUF_SIZE"
  shows "\<exists>t. consoleintr_key c s = Ret () t \<and> key_done c s t"
proof -
  let ?c = "if c = CR then NL else c" and ?k = "cons s"
  let ?k1 = "?k\<lparr>cons_buf := (cons_buf ?k)(unat (cons_e ?k) mod INPUT_BUF_SIZE := word_of_int ?c), cons_e := cons_e ?k + 1\<rparr>"
  have ok: "cons_ok ?k" "can_print s" "procs_free s" using s by (simp_all add: key_ready_def)
  note t1 = type_one [OF ok(1) c(3), of "word_of_int ?c"]
  have cB: "?c \<noteq> BACKSPACE" using c(2) by (simp add: NL_def BACKSPACE_def)
  let ?s1 = "(sent [word_of_int ?c] s)\<lparr>cons := ?k1\<rparr>"
  have upd: "upd_cons (\<lambda>k. k\<lparr>cons_e := cons_e k + 1\<rparr>) (upd_cons (\<lambda>k. k\<lparr>cons_buf :=
      (cons_buf k)(unat (cons_e k) mod INPUT_BUF_SIZE := word_of_int ?c)\<rparr>) (sent [word_of_int ?c] s)) = ?s1"
    by (simp add: upd_cons_def sent_def upd_uart_def)
  let ?fin = "?c = NL \<or> ?c = 4 \<or> length (ready ?k) + length (line ?k @ [word_of_int ?c]) = INPUT_BUF_SIZE"
  have fin: "(?c = NL \<or> ?c = 4 \<or> cons_e ?k1 - cons_r ?k1 = of_nat INPUT_BUF_SIZE) = ?fin"
    using full_iff(2) [OF t1(1)] t1(2,3) by simp
  let ?s2 = "?s1\<lparr>cons := ?k1\<lparr>cons_w := cons_e ?k1\<rparr>\<rparr>"
  have "procs_free ?s2" using ok(3) by (simp add: procs_free_def)
  then have wk: "wakeup (Some ChConsR) ?s2 = Ret () (woken (Some ChConsR) ?s2)" by (rule wakeup_eq)
  have run: "consoleintr_key c s = (if ?fin then Ret () (woken (Some ChConsR) ?s2) else Ret () ?s1)"
    using c ok upd fin wk full_iff(1) [OF ok(1)] cB
    by (simp add: consoleintr_key_def ctrl_vals DEL_def exec_simps consputc_eq Let_def upd_cons_def [of "\<lambda>k. k\<lparr>cons_w := cons_e k\<rparr>"]
        del: fun_upd_apply)
  have ed: "edit c (ready ?k, line ?k) = (if ?fin then (ready ?k @ line ?k @ [word_of_int ?c], []) else (ready ?k, line ?k @ [word_of_int ?c]))"
    using c by (simp add: edit_def ctrl_vals DEL_def Let_def)
  show ?thesis
  proof (cases ?fin)
    case True
    have "cons (woken (Some ChConsR) ?s2) = ?k1\<lparr>cons_w := cons_e ?k1\<rparr>" by (simp add: woken_def)
    moreover have "woken (Some ChConsR) ?s2 = s\<lparr>cons := cons (woken (Some ChConsR) ?s2), uart := uart (woken (Some ChConsR) ?s2), procs := procs (woken (Some ChConsR) ?s2)\<rparr>"
      by (simp add: woken_def sent_def upd_uart_def)
    ultimately show ?thesis using True run ed finish_line [OF t1(1)] t1 by (auto simp: key_done_def)
  next
    case False
    have "?s1 = s\<lparr>cons := cons ?s1, uart := uart ?s1, procs := procs ?s1\<rparr>" by (simp add: sent_def upd_uart_def)
    then show ?thesis using False run ed t1 by (auto simp: key_done_def)
  qed
qed

lemma consoleintr_key_ok:
  assumes s: "key_ready s" and c: "0 \<le> c" "c < 256"
  shows "\<exists>t. consoleintr_key c s = Ret () t \<and> key_done c s t"
proof -
  let ?k = "cons s"
  have ok: "cons_ok ?k" "can_print s" "procs_free s" "pr_locking s \<longrightarrow> lock_free PrLock s" using s by (simp_all add: key_ready_def)
  consider "c = 16" | "c = 21" | "c = 8 \<or> c = DEL" | "c \<notin> {16, 21, 8, DEL}" "c = 0 \<or> length (ready ?k) + length (line ?k) = INPUT_BUF_SIZE"
    | "c \<notin> {16, 21, 8, DEL, 0}" "length (ready ?k) + length (line ?k) < INPUT_BUF_SIZE"
    using cons_lengths(2) [OF ok(1)] by fastforce
  then show ?thesis
  proof cases
    case 1
    then show ?thesis using procdump_eq [OF ok(2,4)] ok(1)
      by (auto simp: consoleintr_key_def ctrl_vals key_done_def edit_def sent_def upd_uart_def)
  next
    case 2
    then show ?thesis using kill_line_ok [OF ok(2,1)]
      by (auto simp: consoleintr_key_def ctrl_vals key_done_def edit_def)
  next
    case 3
    show ?thesis
    proof (cases "cons_e ?k = cons_w ?k")
      case True
      then have "line ?k = []" by (simp add: line_def)
      then show ?thesis using 3 True ok(1) by (auto simp: consoleintr_key_def ctrl_vals DEL_def exec_simps key_done_def edit_def)
    next
      case False
      let ?u = "upd_cons (\<lambda>k. k\<lparr>cons_e := cons_e k - 1\<rparr>) s"
      have "can_print ?u" using ok(2) by (simp add: can_print_def) (simp add: upd_cons_def)
      then have "consoleintr_key c s = Ret () (sent [8, 32, 8] ?u)"
        using 3 False by (auto simp: consoleintr_key_def ctrl_vals DEL_def exec_simps consputc_BACKSPACE)
      moreover have "key_done c s (sent [8, 32, 8] ?u)"
        using erase_one [OF ok(1) False] 3 by (auto simp: key_done_def edit_def ctrl_vals DEL_def sent_def upd_uart_def upd_cons_def)
      ultimately show ?thesis by blast
    qed
  next
    case 4
    then have "consoleintr_key c s = Ret () s"
      using full_iff(1) [OF ok(1)] by (auto simp: consoleintr_key_def ctrl_vals exec_simps)
    then show ?thesis using 4 ok(1) by (auto simp: key_done_def edit_def ctrl_vals)
  next
    case 5
    then show ?thesis using typed_key_ok [OF s] c by (auto simp: BACKSPACE_def)
  qed
qed

section \<open>Correctness\<close>

text \<open>
  C10. The console's line discipline. Whatever byte arrives, on a machine that can print, \<open>consoleintr\<close> returns, its
  three counters stay in order with at most 128 bytes between the read and the edit counter, and the bytes of finished
  lines and of the line being typed change as in the editor on two lists: control-U erases back to the
  last newline, backspace erases one byte if there is one, a carriage return counts as a newline, and a
  newline, control-D or a full buffer hands the line over; a byte that does not fit is dropped.
\<close>

theorem consoleintr_edits:
  assumes "key_ready s" "lock_free ConsLock s" "0 \<le> c" "c < 256"
  shows "\<exists>t. consoleintr c s = Ret () t \<and> cons_ok (cons t) \<and>
    (ready (cons t), line (cons t)) = edit c (ready (cons s), line (cons s))"
proof -
  have st: "settled s" using assms(1) by (simp add: key_ready_def can_print_def)
  have "key_ready (take_lock ConsLock s)" using assms(1) by (auto simp: key_ready_def)
  from consoleintr_key_ok [OF this assms(3,4)] obtain t where
    t: "consoleintr_key c (take_lock ConsLock s) = Ret () t" and d: "key_done c (take_lock ConsLock s) t" by blast
  let ?t = "s\<lparr>cons := cons t, uart := uart t, procs := procs t\<rparr>"
  have "t = take_lock ConsLock ?t" using d by (simp add: key_done_def)
  then have "release ConsLock t = Ret () ?t"
    using st assms(2) release_take [of ConsLock ?t] by (simp add: lock_exec)
  then have "consoleintr c s = Ret () ?t"
    using assms(2) t by (simp add: consoleintr_def exec_simps lock_exec)
  then show ?thesis using d by (auto simp: key_done_def)
qed

theorem consoleintr_edits_witness:
  "\<exists>t. consoleintr 13 (zero_world example_syms) = Ret () t \<and> ready (cons t) = [10] \<and> line (cons t) = []"
proof -
  have "key_ready (zero_world example_syms)" "lock_free ConsLock (zero_world example_syms)"
    "ready (cons (zero_world example_syms)) = []" "line (cons (zero_world example_syms)) = []"
    by (simp_all add: key_ready_def can_print_def procs_free_def settled_def lock_free_def cons_ok_def ready_def line_def zero_world_def)
  then show ?thesis using consoleintr_edits [of "zero_world example_syms" 13]
    by (auto simp: edit_def ctrl_vals DEL_def NL_def CR_def INPUT_BUF_SIZE_def)
qed

end
