(* ===== verification/Fs.thy ===== *)
theory Fs
  imports Log Console
begin

text \<open>
  The file system (\<open>kernel/fs.c\<close>): the block allocator, inodes on disk and in the inode table, the contents of
  files, directories and path names. It stands on the log and the buffer cache.

  An inode is named by its index in the inode table. Names and paths are byte lists; a path has no
  terminating NUL. A destination of \<open>readi\<close> and a source of \<open>writei\<close> is a user address, a kernel address, or a
  local variable of the caller, whose bytes are returned and passed as a list.
\<close>

section \<open>The layout of the disk (fs.h)\<close>

definition ROOTINO :: u32 where "ROOTINO = 1"
definition FSMAGIC :: u32 where "FSMAGIC = 0x10203040"
definition sizeof_dinode :: nat where "sizeof_dinode = 64"
definition IPB :: nat where "IPB = BSIZE div sizeof_dinode"
definition BPB :: nat where "BPB = BSIZE * 8"
definition T_DIR :: u16 where "T_DIR = 1"
definition T_FILE :: u16 where "T_FILE = 2"
definition T_DEVICE :: u16 where "T_DEVICE = 3"
definition sizeof_dirent :: nat where "sizeof_dirent = 16"

definition IBLOCK :: "u32 \<Rightarrow> superblock \<Rightarrow> u32" where
  "IBLOCK i s = i div of_nat IPB + sb_inodestart s"

definition BBLOCK :: "u32 \<Rightarrow> superblock \<Rightarrow> u32" where
  "BBLOCK b s = b div of_nat BPB + sb_bmapstart s"

text \<open>An inode on disk, as the fields of \<open>struct dinode\<close> in the bytes of its block.\<close>

record dinode =
  d_type :: u16
  d_major :: u16
  d_minor :: u16
  d_nlink :: u16
  d_size :: u32
  d_addrs :: "u32 list"

definition dinode_off :: "u32 \<Rightarrow> nat" where
  "dinode_off inum = (unat inum mod IPB) * sizeof_dinode"

definition get_dinode :: "byte list \<Rightarrow> nat \<Rightarrow> dinode" where
  "get_dinode d o' = \<lparr>d_type = get16 d o', d_major = get16 d (o' + 2), d_minor = get16 d (o' + 4), d_nlink = get16 d (o' + 6),
     d_size = get32 d (o' + 8), d_addrs = map (\<lambda>i. get32 d (o' + 12 + 4 * i)) [0..<NDIRECT + 1]\<rparr>"

definition put_dinode :: "dinode \<Rightarrow> byte list \<Rightarrow> nat \<Rightarrow> byte list" where
  "put_dinode x d o' =
     fold (\<lambda>i d. put32 d (o' + 12 + 4 * i) (d_addrs x ! i)) [0..<NDIRECT + 1]
       (put32 (put16 (put16 (put16 (put16 d o' (d_type x)) (o' + 2) (d_major x)) (o' + 4) (d_minor x)) (o' + 6) (d_nlink x))
          (o' + 8) (d_size x))"

definition zero_dinode :: dinode where
  "zero_dinode = \<lparr>d_type = 0, d_major = 0, d_minor = 0, d_nlink = 0, d_size = 0, d_addrs = replicate (NDIRECT + 1) 0\<rparr>"

definition get_super :: "byte list \<Rightarrow> superblock" where
  "get_super d = \<lparr>sb_magic = get32 d 0, sb_size = get32 d 4, sb_nblocks = get32 d 8, sb_ninodes = get32 d 12,
     sb_nlog = get32 d 16, sb_logstart = get32 d 20, sb_inodestart = get32 d 24, sb_bmapstart = get32 d 28\<rparr>"

definition buf_data :: "nat \<Rightarrow> byte list K" where
  "buf_data b = kget (\<lambda>s. b_data (bufs s b))"

section \<open>Super block and blocks\<close>

definition readsb :: "u32 \<Rightarrow> unit K" where
  "readsb dev =
     kbind (bread dev 1) (\<lambda>bp.
     kbind (buf_data bp) (\<lambda>d. kseq [
       kmod (\<lambda>s. s\<lparr>sb := get_super d\<rparr>),
       brelse bp]))"

definition fsinit :: "u32 \<Rightarrow> unit K" where
  "fsinit dev = kseq [
     readsb dev,
     kbind (kget sb) (\<lambda>x. kwhen (sb_magic x \<noteq> FSMAGIC) (panic ''invalid file system'')),
     initlog dev]"

definition bzero :: "u32 \<Rightarrow> u32 \<Rightarrow> unit K" where
  "bzero dev bno =
     kbind (bread dev bno) (\<lambda>bp. kseq [
       set_data bp (replicate BSIZE 0),
       log_write bp,
       brelse bp])"

text \<open>Bit \<open>bi\<close> of a block of the free map.\<close>

definition map_bit :: "nat \<Rightarrow> byte" where "map_bit bi = push_bit (bi mod 8) 1"

definition bit_set :: "byte list \<Rightarrow> nat \<Rightarrow> bool" where
  "bit_set d bi \<longleftrightarrow> d ! (bi div 8) AND map_bit bi \<noteq> 0"

text \<open>The outer loop of \<open>balloc\<close> over the blocks of the free map; the inner one looks for the first clear bit. The block
  number is a natural number, which agrees with the \<open>int\<close> of the code for file systems of fewer than \<open>2^31\<close> blocks.\<close>

definition map_starts :: "nat \<Rightarrow> nat list" where
  "map_starts sz = map (\<lambda>k. k * BPB) [0..<(sz + BPB - 1) div BPB]"

definition balloc_in :: "u32 \<Rightarrow> nat \<Rightarrow> u32 option K" where
  "balloc_in dev b =
     kbind (kget sb) (\<lambda>x.
     kbind (bread dev (BBLOCK (of_nat b) x)) (\<lambda>bp.
     kbind (buf_data bp) (\<lambda>d.
     case first_index (\<lambda>bi. b + bi < unat (sb_size x) \<and> \<not> bit_set d bi) BPB of
       Some bi \<Rightarrow> kbind (kseq [
           set_data bp (d[bi div 8 := d ! (bi div 8) OR map_bit bi]),
           log_write bp,
           brelse bp,
           bzero dev (of_nat (b + bi))]) (\<lambda>_. kret (Some (of_nat (b + bi))))
     | None \<Rightarrow> kbind (brelse bp) (\<lambda>_. kret None))))"

definition balloc :: "u32 \<Rightarrow> u32 K" where
  "balloc dev =
     kbind (kget sb) (\<lambda>x.
     kbind (kscan (map_starts (unat (sb_size x))) (balloc_in dev)) (\<lambda>r.
     case r of
       Some b \<Rightarrow> kret b
     | None \<Rightarrow> kbind (printf (''balloc: out of blocks'' @ newline) []) (\<lambda>_. kret 0)))"

definition bfree :: "u32 \<Rightarrow> u32 \<Rightarrow> unit K" where
  "bfree dev b =
     kbind (kget sb) (\<lambda>x.
     kbind (bread dev (BBLOCK b x)) (\<lambda>bp.
     kbind (buf_data bp) (\<lambda>d.
     let bi = unat b mod BPB in
     if \<not> bit_set d bi then panic ''freeing free block''
     else kseq [
       set_data bp (d[bi div 8 := d ! (bi div 8) AND NOT (map_bit bi)]),
       log_write bp,
       brelse bp])))"

section \<open>Inodes\<close>

definition iinit :: "unit K" where
  "iinit = kseq [
     initlock ItableLock ''itable'',
     kfor [0..<NINODE] (\<lambda>i. initsleeplock (InodeLock i) ''inode'')]"

definition iget :: "u32 \<Rightarrow> u32 \<Rightarrow> nat K" where
  "iget dev inum =
     kbind (acquire ItableLock) (\<lambda>_.
     kbind (kget itable) (\<lambda>t.
     case first_index (\<lambda>i. i_ref (t i) > 0 \<and> i_dev (t i) = dev \<and> i_inum (t i) = inum) NINODE of
       Some ip \<Rightarrow> kbind (kseq [
           kmod (upd_inode ip (\<lambda>x. x\<lparr>i_ref := i_ref x + 1\<rparr>)),
           release ItableLock]) (\<lambda>_. kret ip)
     | None \<Rightarrow>
         (case first_index (\<lambda>i. i_ref (t i) = 0) NINODE of
            None \<Rightarrow> panic ''iget: no inodes''
          | Some ip \<Rightarrow> kbind (kseq [
              kmod (upd_inode ip (\<lambda>x. x\<lparr>i_dev := dev, i_inum := inum, i_ref := 1, i_valid := False\<rparr>)),
              release ItableLock]) (\<lambda>_. kret ip))))"

definition ialloc :: "u32 \<Rightarrow> u16 \<Rightarrow> nat option K" where
  "ialloc dev ty =
     kbind (kget sb) (\<lambda>x.
     kbind (kscan [1..<unat (sb_ninodes x)] (\<lambda>inum.
       kbind (bread dev (IBLOCK (of_nat inum) x)) (\<lambda>bp.
       kbind (buf_data bp) (\<lambda>d.
       let o' = dinode_off (of_nat inum) in
       if d_type (get_dinode d o') = 0
       then kbind (kseq [
              set_data bp (put_dinode (zero_dinode\<lparr>d_type := ty\<rparr>) d o'),
              log_write bp,
              brelse bp]) (\<lambda>_. kbind (iget dev (of_nat inum)) (\<lambda>ip. kret (Some ip)))
       else kbind (brelse bp) (\<lambda>_. kret None))))) (\<lambda>r.
     case r of
       Some ip \<Rightarrow> kret (Some ip)
     | None \<Rightarrow> kbind (printf (''ialloc: no inodes'' @ newline) []) (\<lambda>_. kret None)))"

definition inode_disk :: "inode \<Rightarrow> dinode" where
  "inode_disk x = \<lparr>d_type = i_type x, d_major = i_major x, d_minor = i_minor x, d_nlink = i_nlink x,
     d_size = i_size x, d_addrs = i_addrs x\<rparr>"

definition iupdate :: "nat \<Rightarrow> unit K" where
  "iupdate ip =
     kbind (kget (\<lambda>s. itable s ip)) (\<lambda>x.
     kbind (kget sb) (\<lambda>y.
     kbind (bread (i_dev x) (IBLOCK (i_inum x) y)) (\<lambda>bp.
     kbind (buf_data bp) (\<lambda>d. kseq [
       set_data bp (put_dinode (inode_disk x) d (dinode_off (i_inum x))),
       log_write bp,
       brelse bp]))))"

definition idup :: "nat \<Rightarrow> nat K" where
  "idup ip =
     kbind (kseq [
       acquire ItableLock,
       kmod (upd_inode ip (\<lambda>x. x\<lparr>i_ref := i_ref x + 1\<rparr>)),
       release ItableLock]) (\<lambda>_. kret ip)"

definition ilock :: "nat \<Rightarrow> unit K" where
  "ilock ip =
     kbind (kget (\<lambda>s. itable s ip)) (\<lambda>x. kseq [
       kwhen (i_ref x < 1) (panic ''ilock''),
       acquiresleep (InodeLock ip),
       kbind (kget (\<lambda>s. itable s ip)) (\<lambda>x. kwhen (\<not> i_valid x) (
         kbind (kget sb) (\<lambda>y.
         kbind (bread (i_dev x) (IBLOCK (i_inum x) y)) (\<lambda>bp.
         kbind (buf_data bp) (\<lambda>d.
         let di = get_dinode d (dinode_off (i_inum x)) in kseq [
           kmod (upd_inode ip (\<lambda>x. x\<lparr>i_type := d_type di, i_major := d_major di, i_minor := d_minor di,
             i_nlink := d_nlink di, i_size := d_size di, i_addrs := d_addrs di\<rparr>)),
           brelse bp,
           kmod (upd_inode ip (\<lambda>x. x\<lparr>i_valid := True\<rparr>)),
           kwhen (d_type di = 0) (panic ''ilock: no type'')])))))])"

definition iunlock :: "nat \<Rightarrow> unit K" where
  "iunlock ip =
     kbind (holdingsleep (InodeLock ip)) (\<lambda>h.
     kbind (kget (\<lambda>s. itable s ip)) (\<lambda>x. kseq [
       kwhen (\<not> h \<or> i_ref x < 1) (panic ''iunlock''),
       releasesleep (InodeLock ip)]))"

section \<open>Inode contents\<close>

definition bmap :: "nat \<Rightarrow> u32 \<Rightarrow> u32 K" where
  "bmap ip bn =
     kbind (kget (\<lambda>s. itable s ip)) (\<lambda>x.
     if bn < of_nat NDIRECT
     then let addr = i_addrs x ! unat bn in
       if addr \<noteq> 0 then kret addr
       else kbind (balloc (i_dev x)) (\<lambda>addr.
         if addr = 0 then kret 0
         else kbind (kmod (upd_inode ip (\<lambda>x. x\<lparr>i_addrs := (i_addrs x)[unat bn := addr]\<rparr>))) (\<lambda>_. kret addr))
     else let bn = bn - of_nat NDIRECT in
       if bn < of_nat NINDIRECT
       then kbind
         (if i_addrs x ! NDIRECT \<noteq> 0 then kret (i_addrs x ! NDIRECT)
          else kbind (balloc (i_dev x)) (\<lambda>addr.
            if addr = 0 then kret 0
            else kbind (kmod (upd_inode ip (\<lambda>x. x\<lparr>i_addrs := (i_addrs x)[NDIRECT := addr]\<rparr>))) (\<lambda>_. kret addr))) (\<lambda>ind.
         if ind = 0 then kret 0
         else kbind (bread (i_dev x) ind) (\<lambda>bp.
           kbind (buf_data bp) (\<lambda>d.
           kbind
             (if get32 d (4 * unat bn) \<noteq> 0 then kret (get32 d (4 * unat bn))
              else kbind (balloc (i_dev x)) (\<lambda>addr.
                kbind (kwhen (addr \<noteq> 0) (kseq [
                  set_data bp (put32 d (4 * unat bn) addr),
                  log_write bp])) (\<lambda>_. kret addr))) (\<lambda>addr.
           kbind (brelse bp) (\<lambda>_. kret addr)))))
       else panic ''bmap: out of range'')"

definition itrunc :: "nat \<Rightarrow> unit K" where
  "itrunc ip = kseq [
     kfor [0..<NDIRECT] (\<lambda>i.
       kbind (kget (\<lambda>s. itable s ip)) (\<lambda>x. kwhen (i_addrs x ! i \<noteq> 0) (kseq [
         bfree (i_dev x) (i_addrs x ! i),
         kmod (upd_inode ip (\<lambda>x. x\<lparr>i_addrs := (i_addrs x)[i := 0]\<rparr>))]))),
     kbind (kget (\<lambda>s. itable s ip)) (\<lambda>x. kwhen (i_addrs x ! NDIRECT \<noteq> 0) (
       kbind (bread (i_dev x) (i_addrs x ! NDIRECT)) (\<lambda>bp.
       kbind (buf_data bp) (\<lambda>d. kseq [
         kfor [0..<NINDIRECT] (\<lambda>j. kwhen (get32 d (4 * j) \<noteq> 0) (bfree (i_dev x) (get32 d (4 * j)))),
         brelse bp,
         bfree (i_dev x) (i_addrs x ! NDIRECT),
         kmod (upd_inode ip (\<lambda>x. x\<lparr>i_addrs := (i_addrs x)[NDIRECT := 0]\<rparr>))])))),
     kmod (upd_inode ip (\<lambda>x. x\<lparr>i_size := 0\<rparr>)),
     iupdate ip]"

definition iput :: "nat \<Rightarrow> unit K" where
  "iput ip =
     kbind (acquire ItableLock) (\<lambda>_.
     kbind (kget (\<lambda>s. itable s ip)) (\<lambda>x. kseq [
       kwhen (i_ref x = 1 \<and> i_valid x \<and> i_nlink x = 0) (kseq [
         acquiresleep (InodeLock ip),
         release ItableLock,
         itrunc ip,
         kmod (upd_inode ip (\<lambda>x. x\<lparr>i_type := 0\<rparr>)),
         iupdate ip,
         kmod (upd_inode ip (\<lambda>x. x\<lparr>i_valid := False\<rparr>)),
         releasesleep (InodeLock ip),
         acquire ItableLock]),
       kmod (upd_inode ip (\<lambda>x. x\<lparr>i_ref := i_ref x - 1\<rparr>)),
       release ItableLock]))"

definition iunlockput :: "nat \<Rightarrow> unit K" where
  "iunlockput ip = kseq [iunlock ip, iput ip]"

record kstat =
  st_dev :: u32
  st_ino :: u32
  st_type :: u16
  st_nlink :: u16
  st_size :: addr

definition stati :: "nat \<Rightarrow> kstat K" where
  "stati ip =
     kget (\<lambda>s. let x = itable s ip in
       \<lparr>st_dev = i_dev x, st_ino = i_inum x, st_type = i_type x, st_nlink = i_nlink x, st_size = ucast (i_size x)\<rparr>)"

text \<open>Where the bytes of a read go, and where those of a write come from.\<close>

datatype target = UserDst addr | KernelDst addr | LocalDst
datatype source = UserSrc addr | KernelSrc addr | LocalSrc "byte list"

fun copy_to :: "target \<Rightarrow> nat \<Rightarrow> byte list \<Rightarrow> int K" where
  "copy_to (UserDst a) tot bs = either_copyout True (a + of_nat tot) bs"
| "copy_to (KernelDst a) tot bs = either_copyout False (a + of_nat tot) bs"
| "copy_to LocalDst tot bs = kret 0"

fun copy_from :: "source \<Rightarrow> nat \<Rightarrow> nat \<Rightarrow> (int \<times> byte list) K" where
  "copy_from (UserSrc a) tot m = either_copyin True (a + of_nat tot) m"
| "copy_from (KernelSrc a) tot m = either_copyin False (a + of_nat tot) m"
| "copy_from (LocalSrc bs) tot m = kret (0, take m (drop tot bs))"

text \<open>The bytes of the block at \<open>off\<close> that one round of the loops below moves.\<close>

definition span :: "nat \<Rightarrow> nat \<Rightarrow> nat" where
  "span left off = min left (BSIZE - off mod BSIZE)"

definition readi_step :: "nat \<Rightarrow> target \<Rightarrow> nat \<Rightarrow> nat \<Rightarrow> nat \<times> byte list \<Rightarrow> (nat \<times> byte list + int \<times> byte list) K" where
  "readi_step ip dst off n = (\<lambda>(tot, got).
     if \<not> tot < n then kret (Inr (int tot, got))
     else kbind (bmap ip (of_nat ((off + tot) div BSIZE))) (\<lambda>addr.
       if addr = 0 then kret (Inr (int tot, got))
       else kbind (kget (\<lambda>s. i_dev (itable s ip))) (\<lambda>dev.
         kbind (bread dev addr) (\<lambda>bp.
         kbind (buf_data bp) (\<lambda>d.
         let m = span (n - tot) (off + tot); bs = take m (drop ((off + tot) mod BSIZE) d) in
         kbind (copy_to dst tot bs) (\<lambda>r.
         kbind (brelse bp) (\<lambda>_.
         if r = - 1 then kret (Inr (- 1, got))
         else kret (Inl (tot + m, got @ bs)))))))))"

definition readi :: "nat \<Rightarrow> target \<Rightarrow> u32 \<Rightarrow> u32 \<Rightarrow> (int \<times> byte list) K" where
  "readi ip dst off n =
     kbind (kget (\<lambda>s. i_size (itable s ip))) (\<lambda>sz.
     if off > sz \<or> off + n < off then kret (0, [])
     else let n = (if off + n > sz then sz - off else n) in
       kloop (readi_step ip dst (unat off) (unat n)) (0, []))"

text \<open>
  \<open>either_copyin\<close> stores into the buffer as it goes; when it fails half way the bytes copied so far stay there, without
  a \<open>log_write\<close>. The answer of a round is the number of bytes written so far.
\<close>

definition blit :: "byte list \<Rightarrow> nat \<Rightarrow> byte list \<Rightarrow> byte list" where
  "blit d o' bs = take o' d @ bs @ drop (o' + length bs) d"

definition writei_step :: "nat \<Rightarrow> source \<Rightarrow> nat \<Rightarrow> nat \<Rightarrow> nat \<Rightarrow> (nat + nat) K" where
  "writei_step ip src off n = (\<lambda>tot.
     if \<not> tot < n then kret (Inr tot)
     else kbind (bmap ip (of_nat ((off + tot) div BSIZE))) (\<lambda>addr.
       if addr = 0 then kret (Inr tot)
       else kbind (kget (\<lambda>s. i_dev (itable s ip))) (\<lambda>dev.
         kbind (bread dev addr) (\<lambda>bp.
         kbind (buf_data bp) (\<lambda>d.
         let m = span (n - tot) (off + tot) in
         kbind (copy_from src tot m) (\<lambda>(r, bs).
         kbind (set_data bp (blit d ((off + tot) mod BSIZE) bs)) (\<lambda>_.
         if r = - 1 then kbind (brelse bp) (\<lambda>_. kret (Inr tot))
         else kbind (kseq [log_write bp, brelse bp]) (\<lambda>_. kret (Inl (tot + m))))))))))"

definition writei :: "nat \<Rightarrow> source \<Rightarrow> u32 \<Rightarrow> u32 \<Rightarrow> int K" where
  "writei ip src off n =
     kbind (kget (\<lambda>s. i_size (itable s ip))) (\<lambda>sz.
     if off > sz \<or> off + n < off then kret (- 1)
     else if off + n > of_nat (MAXFILE * BSIZE) then kret (- 1)
     else kbind (kloop (writei_step ip src (unat off) (unat n)) 0) (\<lambda>tot.
       let off = off + of_nat tot in
       kbind (kseq [
         kbind (kget (\<lambda>s. i_size (itable s ip))) (\<lambda>sz. kwhen (off > sz) (kmod (upd_inode ip (\<lambda>x. x\<lparr>i_size := off\<rparr>)))),
         iupdate ip]) (\<lambda>_. kret (int tot))))"

section \<open>Directories\<close>

text \<open>An array that holds a name; past the end of a list there is its NUL.\<close>

definition array :: "byte list \<Rightarrow> cptr" where
  "array xs i = (if i < length xs then xs ! i else 0)"

definition namecmp :: "byte list \<Rightarrow> byte list \<Rightarrow> int" where
  "namecmp s t = strncmp (array s) (array t) DIRSIZ"

definition de_inum :: "byte list \<Rightarrow> u16" where "de_inum de = get16 de 0"
definition de_name :: "byte list \<Rightarrow> byte list" where "de_name de = drop 2 de"
definition dirent :: "u32 \<Rightarrow> byte list \<Rightarrow> byte list" where
  "dirent inum name = to_le 2 (ucast inum :: u16) @ strncpy_list (array name) DIRSIZ"

definition dirlookup_step :: "nat \<Rightarrow> byte list \<Rightarrow> u32 \<Rightarrow> (u32 + (nat \<times> u32) option) K" where
  "dirlookup_step dp name off =
     kbind (kget (\<lambda>s. itable s dp)) (\<lambda>x.
     if \<not> off < i_size x then kret (Inr None)
     else kbind (readi dp LocalDst off (of_nat sizeof_dirent)) (\<lambda>(r, de).
       if r \<noteq> int sizeof_dirent then panic ''dirlookup read''
       else if de_inum de = 0 then kret (Inl (off + of_nat sizeof_dirent))
       else if namecmp name (de_name de) = 0
       then kbind (iget (i_dev x) (ucast (de_inum de))) (\<lambda>ip. kret (Inr (Some (ip, off))))
       else kret (Inl (off + of_nat sizeof_dirent))))"

text \<open>The answer of \<open>dirlookup\<close> is the inode with the offset of its entry.\<close>

definition dirlookup :: "nat \<Rightarrow> byte list \<Rightarrow> (nat \<times> u32) option K" where
  "dirlookup dp name =
     kbind (kget (\<lambda>s. i_type (itable s dp))) (\<lambda>ty.
     if ty \<noteq> T_DIR then panic ''dirlookup not DIR''
     else kloop (dirlookup_step dp name) 0)"

definition dirlink_free :: "nat \<Rightarrow> u32 \<Rightarrow> (u32 + u32) K" where
  "dirlink_free dp off =
     kbind (kget (\<lambda>s. i_size (itable s dp))) (\<lambda>sz.
     if \<not> off < sz then kret (Inr off)
     else kbind (readi dp LocalDst off (of_nat sizeof_dirent)) (\<lambda>(r, de).
       if r \<noteq> int sizeof_dirent then panic ''dirlink read''
       else if de_inum de = 0 then kret (Inr off)
       else kret (Inl (off + of_nat sizeof_dirent))))"

definition dirlink :: "nat \<Rightarrow> byte list \<Rightarrow> u32 \<Rightarrow> int K" where
  "dirlink dp name inum =
     kbind (dirlookup dp name) (\<lambda>r.
     case r of
       Some (ip, _) \<Rightarrow> kbind (iput ip) (\<lambda>_. kret (- 1))
     | None \<Rightarrow>
         kbind (kloop (dirlink_free dp) 0) (\<lambda>off.
         kbind (writei dp (LocalSrc (dirent inum name)) off (of_nat sizeof_dirent)) (\<lambda>w.
         kret (if w \<noteq> int sizeof_dirent then - 1 else 0))))"

section \<open>Paths\<close>

definition SLASH :: byte where "SLASH = 0x2f"

text \<open>
  The next element of a path: the rest of the path, and the buffer \<open>name\<close>, of which only the element and
  its NUL are written; or nothing when the path has no element left.
\<close>

definition skipelem :: "byte list \<Rightarrow> byte list \<Rightarrow> (byte list \<times> byte list) option" where
  "skipelem path name =
     (let path = dropWhile (\<lambda>c. c = SLASH) path in
      if path = [] then None
      else let s = takeWhile (\<lambda>c. c \<noteq> SLASH) path; len = length s;
             name' = (if len \<ge> DIRSIZ then take DIRSIZ s else s @ 0 # drop (len + 1) name) in
        Some (dropWhile (\<lambda>c. c = SLASH) (dropWhile (\<lambda>c. c \<noteq> SLASH) path), name'))"

definition namex_step :: "bool \<Rightarrow> nat \<times> byte list \<times> byte list \<Rightarrow> (nat \<times> byte list \<times> byte list + nat option \<times> byte list) K" where
  "namex_step parent = (\<lambda>(ip, path, name).
     case skipelem path name of
       None \<Rightarrow>
         if parent then kbind (iput ip) (\<lambda>_. kret (Inr (None, name))) else kret (Inr (Some ip, name))
     | Some (path', name') \<Rightarrow>
         kbind (ilock ip) (\<lambda>_.
         kbind (kget (\<lambda>s. i_type (itable s ip))) (\<lambda>ty.
         if ty \<noteq> T_DIR then kbind (iunlockput ip) (\<lambda>_. kret (Inr (None, name')))
         else if parent \<and> path' = [] then kbind (iunlock ip) (\<lambda>_. kret (Inr (Some ip, name')))
         else kbind (dirlookup ip name') (\<lambda>next.
           case next of
             None \<Rightarrow> kbind (iunlockput ip) (\<lambda>_. kret (Inr (None, name')))
           | Some (q, _) \<Rightarrow> kbind (iunlockput ip) (\<lambda>_. kret (Inl (q, path', name')))))))"

definition namex :: "byte list \<Rightarrow> bool \<Rightarrow> (nat option \<times> byte list) K" where
  "namex path parent =
     kbind
       (if path \<noteq> [] \<and> hd path = SLASH then iget ROOTDEV ROOTINO
        else kbind curproc (\<lambda>p. kbind (kget (\<lambda>s. p_cwd (procs s p))) (\<lambda>c.
          case c of None \<Rightarrow> panic ''null pointer'' | Some d \<Rightarrow> idup d))) (\<lambda>ip.
     kloop (namex_step parent) (ip, path, replicate DIRSIZ 0))"

definition namei :: "byte list \<Rightarrow> nat option K" where
  "namei path = kbind (namex path False) (\<lambda>(ip, _). kret ip)"

definition nameiparent :: "byte list \<Rightarrow> (nat option \<times> byte list) K" where
  "nameiparent path = namex path True"

end
