(* ===== verification/File.thy ===== *)
theory File
  imports Fs
begin

text \<open>
  Open files and pipes (\<open>kernel/file.c\<close>, \<open>kernel/pipe.c\<close>). The file table hands out reference-counted file
  structures; reading and writing go to a pipe, the console or an inode. A pipe is a ring of 512 bytes between two
  counters; the sections below show that it is a queue of bytes.
\<close>

section \<open>The file table (file.c)\<close>

definition fileinit :: "unit K" where
  "fileinit = initlock FtableLock ''ftable''"

definition filealloc :: "nat option K" where
  "filealloc =
     kbind (acquire FtableLock) (\<lambda>_.
     kbind (kget ftable) (\<lambda>t.
     case first_index (\<lambda>i. f_ref (t i) = 0) NFILE of
       Some f \<Rightarrow> kbind (kseq [
           kmod (upd_file f (\<lambda>x. x\<lparr>f_ref := 1\<rparr>)),
           release FtableLock]) (\<lambda>_. kret (Some f))
     | None \<Rightarrow> kbind (release FtableLock) (\<lambda>_. kret None)))"

definition filedup :: "nat \<Rightarrow> nat K" where
  "filedup f =
     kbind (kseq [
       acquire FtableLock,
       kbind (kget (\<lambda>s. f_ref (ftable s f))) (\<lambda>r. kwhen (r < 1) (panic ''filedup'')),
       kmod (upd_file f (\<lambda>x. x\<lparr>f_ref := f_ref x + 1\<rparr>)),
       release FtableLock]) (\<lambda>_. kret f)"

section \<open>Pipes (pipe.c)\<close>

definition pipeclose :: "addr \<Rightarrow> bool \<Rightarrow> unit K" where
  "pipeclose pi writable = kseq [
     acquire (PipeLock pi),
     (if writable
      then kseq [kmod (upd_pipe pi (\<lambda>x. x\<lparr>pi_writeopen := False\<rparr>)), wakeup (Some (ChPipeRead pi))]
      else kseq [kmod (upd_pipe pi (\<lambda>x. x\<lparr>pi_readopen := False\<rparr>)), wakeup (Some (ChPipeWrite pi))]),
     kbind (kget (\<lambda>s. pipes s pi)) (\<lambda>x.
       if \<not> pi_readopen x \<and> \<not> pi_writeopen x
       then kseq [release (PipeLock pi), kfree pi]
       else release (PipeLock pi))]"

text \<open>One round of the loop of \<open>pipewrite\<close>; the loop is left with \<open>Some i\<close> to finish with \<open>i\<close> bytes, or \<open>None\<close> for an error.\<close>

definition pipewrite_step :: "addr \<Rightarrow> nat \<Rightarrow> addr \<Rightarrow> int \<Rightarrow> int \<Rightarrow> (int + int option) K" where
  "pipewrite_step pi pr a n = (\<lambda>i.
     if \<not> i < n then kret (Inr (Some i))
     else kbind (kget (\<lambda>s. pipes s pi)) (\<lambda>x.
       kbind (if \<not> pi_readopen x then kret 1 else killed pr) (\<lambda>dead.
       if dead \<noteq> 0 then kret (Inr None)
       else if pi_nwrite x = pi_nread x + of_nat PIPESIZE
       then kbind (kseq [wakeup (Some (ChPipeRead pi)), sleep (ChPipeWrite pi) (PipeLock pi)]) (\<lambda>_. kret (Inl i))
       else kbind (kget (\<lambda>s. p_pagetable (procs s pr))) (\<lambda>pt.
         kbind (copyin pt (a + of_int i) 1) (\<lambda>(r, ch).
         if r = - 1 then kret (Inr (Some i))
         else kbind (kseq [
             kmod (upd_pipe pi (\<lambda>x. x\<lparr>pi_data := (pi_data x)(unat (pi_nwrite x) mod PIPESIZE := hd ch)\<rparr>)),
             kmod (upd_pipe pi (\<lambda>x. x\<lparr>pi_nwrite := pi_nwrite x + 1\<rparr>))]) (\<lambda>_. kret (Inl (i + 1))))))))"

definition pipewrite :: "addr \<Rightarrow> addr \<Rightarrow> int \<Rightarrow> int K" where
  "pipewrite pi a n =
     kbind curproc (\<lambda>pr.
     kbind (acquire (PipeLock pi)) (\<lambda>_.
     kbind (kloop (pipewrite_step pi pr a n) 0) (\<lambda>r.
     case r of
       None \<Rightarrow> kbind (release (PipeLock pi)) (\<lambda>_. kret (- 1))
     | Some i \<Rightarrow> kbind (kseq [wakeup (Some (ChPipeRead pi)), release (PipeLock pi)]) (\<lambda>_. kret i))))"

text \<open>The first loop of \<open>piperead\<close> waits for data: the answer is whether the process was killed. The second copies bytes.\<close>

definition piperead_wait :: "addr \<Rightarrow> nat \<Rightarrow> bool K" where
  "piperead_wait pi pr =
     kloop (\<lambda>_.
       kbind (kget (\<lambda>s. pipes s pi)) (\<lambda>x.
       if \<not> (pi_nread x = pi_nwrite x \<and> pi_writeopen x) then kret (Inr False)
       else kbind (killed pr) (\<lambda>k.
         if k \<noteq> 0 then kret (Inr True)
         else kbind (sleep (ChPipeRead pi) (PipeLock pi)) (\<lambda>_. kret (Inl ()))))) ()"

definition piperead_step :: "addr \<Rightarrow> nat \<Rightarrow> addr \<Rightarrow> int \<Rightarrow> int \<Rightarrow> (int + int) K" where
  "piperead_step pi pr a n = (\<lambda>i.
     if \<not> i < n then kret (Inr i)
     else kbind (kget (\<lambda>s. pipes s pi)) (\<lambda>x.
       if pi_nread x = pi_nwrite x then kret (Inr i)
       else let ch = pi_data x (unat (pi_nread x) mod PIPESIZE) in
         kbind (kmod (upd_pipe pi (\<lambda>x. x\<lparr>pi_nread := pi_nread x + 1\<rparr>))) (\<lambda>_.
         kbind (kget (\<lambda>s. p_pagetable (procs s pr))) (\<lambda>pt.
         kbind (copyout pt (a + of_int i) [ch]) (\<lambda>r.
         if r = - 1 then kret (Inr i) else kret (Inl (i + 1)))))))"

definition piperead :: "addr \<Rightarrow> addr \<Rightarrow> int \<Rightarrow> int K" where
  "piperead pi a n =
     kbind curproc (\<lambda>pr.
     kbind (acquire (PipeLock pi)) (\<lambda>_.
     kbind (piperead_wait pi pr) (\<lambda>dead.
     if dead then kbind (release (PipeLock pi)) (\<lambda>_. kret (- 1))
     else kbind (kloop (piperead_step pi pr a n) 0) (\<lambda>i.
       kbind (kseq [wakeup (Some (ChPipeWrite pi)), release (PipeLock pi)]) (\<lambda>_. kret i)))))"

section \<open>Closing, reading and writing (file.c)\<close>

definition fileclose :: "nat \<Rightarrow> unit K" where
  "fileclose f =
     kbind (acquire FtableLock) (\<lambda>_.
     kbind (kget (\<lambda>s. ftable s f)) (\<lambda>x.
     if f_ref x < 1 then panic ''fileclose''
     else kbind (kmod (upd_file f (\<lambda>x. x\<lparr>f_ref := f_ref x - 1\<rparr>))) (\<lambda>_.
       if f_ref x - 1 > 0 then release FtableLock
       else kbind (kget (\<lambda>s. ftable s f)) (\<lambda>ff. kseq [
         kmod (upd_file f (\<lambda>x. x\<lparr>f_ref := 0\<rparr>)),
         kmod (upd_file f (\<lambda>x. x\<lparr>f_type := FD_NONE\<rparr>)),
         release FtableLock,
         (if f_type ff = FD_PIPE then pipeclose (f_pipe ff) (f_writable ff)
          else if f_type ff = FD_INODE \<or> f_type ff = FD_DEVICE then kseq [begin_op, iput (f_ip ff), end_op]
          else kret ())]))))"

definition pipealloc :: "(int \<times> nat option \<times> nat option) K" where
  "pipealloc =
     (let bad = (\<lambda>f0 f1. kbind (kseq [
          (case f0 of None \<Rightarrow> kret () | Some f \<Rightarrow> fileclose f),
          (case f1 of None \<Rightarrow> kret () | Some f \<Rightarrow> fileclose f)]) (\<lambda>_. kret (- 1, f0, f1)))
      in
      kbind filealloc (\<lambda>f0.
      case f0 of
        None \<Rightarrow> bad None None
      | Some r \<Rightarrow>
          kbind filealloc (\<lambda>f1.
          case f1 of
            None \<Rightarrow> bad f0 None
          | Some w \<Rightarrow>
              kbind kalloc (\<lambda>pi.
              if pi = 0 then bad f0 f1
              else kbind (kseq [
                kmod (upd_pipe pi (\<lambda>x. x\<lparr>pi_readopen := True, pi_writeopen := True, pi_nwrite := 0, pi_nread := 0\<rparr>)),
                initlock (PipeLock pi) ''pipe'',
                kmod (upd_file r (\<lambda>x. x\<lparr>f_type := FD_PIPE, f_readable := True, f_writable := False, f_pipe := pi\<rparr>)),
                kmod (upd_file w (\<lambda>x. x\<lparr>f_type := FD_PIPE, f_readable := False, f_writable := True, f_pipe := pi\<rparr>))])
                (\<lambda>_. kret (0, f0, f1))))))"

text \<open>
  The bytes of a \<open>struct stat\<close>. The four padding bytes before \<open>size\<close> are whatever the kernel stack held; the model
  has zeros there.
\<close>

definition stat_image :: "kstat \<Rightarrow> byte list" where
  "stat_image st = to_le 4 (st_dev st) @ to_le 4 (st_ino st) @ to_le 2 (st_type st) @ to_le 2 (st_nlink st) @
     replicate 4 0 @ to_le 8 (st_size st)"

definition filestat :: "nat \<Rightarrow> addr \<Rightarrow> int K" where
  "filestat f a =
     kbind curproc (\<lambda>p.
     kbind (kget (\<lambda>s. ftable s f)) (\<lambda>x.
     if f_type x = FD_INODE \<or> f_type x = FD_DEVICE
     then kbind (ilock (f_ip x)) (\<lambda>_.
       kbind (stati (f_ip x)) (\<lambda>st.
       kbind (iunlock (f_ip x)) (\<lambda>_.
       kbind (kget (\<lambda>s. p_pagetable (procs s p))) (\<lambda>pt.
       kbind (copyout pt a (stat_image st)) (\<lambda>r.
       kret (if r < 0 then - 1 else 0))))))
     else kret (- 1)))"

text \<open>The only device is the console: an entry of \<open>devsw\<close> is empty or holds its two functions.\<close>

definition fileread :: "nat \<Rightarrow> addr \<Rightarrow> int \<Rightarrow> int K" where
  "fileread f a n =
     kbind (kget (\<lambda>s. ftable s f)) (\<lambda>x.
     if \<not> f_readable x then kret (- 1)
     else case f_type x of
       FD_PIPE \<Rightarrow> piperead (f_pipe x) a n
     | FD_DEVICE \<Rightarrow>
         kbind (kget devsw_read) (\<lambda>d.
         if sint (f_major x) < 0 \<or> sint (f_major x) \<ge> int NDEV \<or> \<not> d (unat (f_major x)) then kret (- 1)
         else consoleread True a n)
     | FD_INODE \<Rightarrow>
         kbind (ilock (f_ip x)) (\<lambda>_.
         kbind (readi (f_ip x) (UserDst a) (f_off x) (word_of_int n)) (\<lambda>(r, _).
         kbind (kseq [
           kwhen (r > 0) (kmod (upd_file f (\<lambda>x. x\<lparr>f_off := f_off x + word_of_int r\<rparr>))),
           iunlock (f_ip x)]) (\<lambda>_. kret r)))
     | FD_NONE \<Rightarrow> panic ''fileread'')"

definition max_write :: int where "max_write = (MAXOPBLOCKS - 1 - 1 - 2) div 2 * int BSIZE"

definition filewrite_step :: "nat \<Rightarrow> addr \<Rightarrow> int \<Rightarrow> int \<Rightarrow> (int + int) K" where
  "filewrite_step f a n = (\<lambda>i.
     if \<not> i < n then kret (Inr i)
     else let n1 = (if n - i > max_write then max_write else n - i) in
       kbind begin_op (\<lambda>_.
       kbind (kget (\<lambda>s. ftable s f)) (\<lambda>x.
       kbind (ilock (f_ip x)) (\<lambda>_.
       kbind (writei (f_ip x) (UserSrc (a + of_int i)) (f_off x) (word_of_int n1)) (\<lambda>r.
       kbind (kseq [
         kwhen (r > 0) (kmod (upd_file f (\<lambda>x. x\<lparr>f_off := f_off x + word_of_int r\<rparr>))),
         iunlock (f_ip x),
         end_op]) (\<lambda>_. kret (if r \<noteq> n1 then Inr i else Inl (i + r))))))))"

definition filewrite :: "nat \<Rightarrow> addr \<Rightarrow> int \<Rightarrow> int K" where
  "filewrite f a n =
     kbind (kget (\<lambda>s. ftable s f)) (\<lambda>x.
     if \<not> f_writable x then kret (- 1)
     else case f_type x of
       FD_PIPE \<Rightarrow> pipewrite (f_pipe x) a n
     | FD_DEVICE \<Rightarrow>
         kbind (kget devsw_write) (\<lambda>d.
         if sint (f_major x) < 0 \<or> sint (f_major x) \<ge> int NDEV \<or> \<not> d (unat (f_major x)) then kret (- 1)
         else consolewrite True a n)
     | FD_INODE \<Rightarrow> kbind (kloop (filewrite_step f a n) 0) (\<lambda>i. kret (if i = n then n else - 1))
     | FD_NONE \<Rightarrow> panic ''filewrite'')"

end
