(* ===== verification/Proc.thy ===== *)
theory Proc
  imports File
begin

text \<open>
  Process management (the first half of \<open>kernel/proc.c\<close>): allocating and freeing process structures, creating, exiting and
  waiting for processes, growing their memory, and this repository's user threads (\<open>thread_create\<close>, \<open>thread_join\<close>,
  \<open>thread_exit\<close>), which share the memory of their group leader page by page.
\<close>

section \<open>Helpers\<close>

text \<open>Fields of the trapframe page of a process.\<close>

definition get_tf :: "nat \<Rightarrow> addr \<Rightarrow> addr K" where
  "get_tf p o' = kget (\<lambda>s. load64 (mem s) (p_trapframe (procs s p) + o'))"

definition set_tf :: "nat \<Rightarrow> addr \<Rightarrow> addr \<Rightarrow> unit K" where
  "set_tf p o' v = kmod (\<lambda>s. s\<lparr>mem := store64 (mem s) (p_trapframe (procs s p) + o') v\<rparr>)"

text \<open>Using a pointer that may be null: the hardware faults on null, which the kernel does not survive.\<close>

definition deref :: "nat option \<Rightarrow> nat K" where
  "deref x = (case x of None \<Rightarrow> panic ''null pointer'' | Some i \<Rightarrow> kret i)"

definition get_proc :: "nat \<Rightarrow> proc K" where
  "get_proc p = kget (\<lambda>s. procs s p)"

text \<open>\<open>safestrcpy\<close> into the name of a process.\<close>

definition name_copy :: "byte list \<Rightarrow> byte list \<Rightarrow> byte list" where
  "name_copy old src = safestrcpy_list (array src) 16 old"

section \<open>Groups of threads\<close>

definition spoon :: "addr \<Rightarrow> int K" where
  "spoon a = kbind (printf (''In spoon system call with argument %p'' @ newline) [VPtr a]) (\<lambda>_. kret 0)"

definition group_leader :: "nat \<Rightarrow> nat K" where
  "group_leader p = kbind (get_proc p) (\<lambda>q. if p_is_thread q then deref (p_father q) else kret p)"

definition in_same_group :: "'z kstate_scheme \<Rightarrow> nat \<Rightarrow> nat \<Rightarrow> bool" where
  "in_same_group s q leader \<longleftrightarrow>
     p_state (procs s q) \<noteq> UNUSED \<and> (q = leader \<or> p_is_thread (procs s q) \<and> p_father (procs s q) = Some leader)"

section \<open>Process structures\<close>

definition procinit :: "unit K" where
  "procinit = kseq [
     initlock PidLock ''nextpid'',
     initlock WaitLock ''wait_lock'',
     kfor [0..<NPROC] (\<lambda>p. kseq [
       initlock (ProcLock p) ''proc'',
       kmod (upd_proc p (\<lambda>q. q\<lparr>p_state := UNUSED, p_kstack := KSTACK p\<rparr>))])]"

definition allocpid :: "int K" where
  "allocpid =
     kbind (acquire PidLock) (\<lambda>_.
     kbind (kget nextpid) (\<lambda>pid.
     kbind (kseq [
       kmod (\<lambda>s. s\<lparr>nextpid := nextpid s + 1\<rparr>),
       release PidLock]) (\<lambda>_. kret pid)))"

definition proc_pagetable :: "nat \<Rightarrow> addr K" where
  "proc_pagetable p =
     kbind uvmcreate (\<lambda>pt.
     if pt = 0 then kret 0
     else kbind (kget syms) (\<lambda>sy.
       kbind (mappages pt TRAMPOLINE PGSIZE (sym_trampoline sy) (PTE_R OR PTE_X)) (\<lambda>r.
       if r < 0 then kbind (uvmfree pt 0) (\<lambda>_. kret 0)
       else kbind (get_proc p) (\<lambda>q.
         kbind (mappages pt TRAPFRAME PGSIZE (p_trapframe q) (PTE_R OR PTE_W)) (\<lambda>r.
         if r < 0 then kbind (kseq [uvmunmap pt TRAMPOLINE 1 False, uvmfree pt 0]) (\<lambda>_. kret 0)
         else kret pt)))))"

definition proc_freepagetable :: "addr \<Rightarrow> addr \<Rightarrow> unit K" where
  "proc_freepagetable pt sz = kseq [
     uvmunmap pt TRAMPOLINE 1 False,
     uvmunmap pt TRAPFRAME 1 False,
     uvmfree pt sz]"

definition freeproc :: "nat \<Rightarrow> unit K" where
  "freeproc p = kseq [
     kbind (get_proc p) (\<lambda>q. kwhen (p_trapframe q \<noteq> 0) (kfree (p_trapframe q))),
     kmod (upd_proc p (\<lambda>q. q\<lparr>p_trapframe := 0\<rparr>)),
     kbind (get_proc p) (\<lambda>q. kwhen (p_pagetable q \<noteq> 0) (proc_freepagetable (p_pagetable q) (p_sz q))),
     kmod (upd_proc p (\<lambda>q. q\<lparr>p_pagetable := 0, p_sz := 0, p_pid := 0, p_parent := None, p_name := (p_name q)[0 := 0],
       p_chan := None, p_killed := 0, p_xstate := 0, p_state := UNUSED, p_is_thread := False, p_father := None,
       p_tid := 0, p_start := 0, p_size := 0\<rparr>))]"

definition allocproc_find :: "nat option K" where
  "allocproc_find =
     kscan [0..<NPROC] (\<lambda>p.
       kbind (acquire (ProcLock p)) (\<lambda>_.
       kbind (get_proc p) (\<lambda>q.
       if p_state q = UNUSED then kret (Some p)
       else kbind (release (ProcLock p)) (\<lambda>_. kret None))))"

definition allocproc :: "nat option K" where
  "allocproc =
     kbind allocproc_find (\<lambda>r.
     case r of
       None \<Rightarrow> kret None
     | Some p \<Rightarrow>
         kbind allocpid (\<lambda>pid.
         kbind (kmod (upd_proc p (\<lambda>q. q\<lparr>p_pid := pid, p_state := USED\<rparr>))) (\<lambda>_.
         kbind kalloc (\<lambda>tf.
         kbind (kmod (upd_proc p (\<lambda>q. q\<lparr>p_trapframe := tf\<rparr>))) (\<lambda>_.
         if tf = 0 then kbind (kseq [freeproc p, release (ProcLock p)]) (\<lambda>_. kret None)
         else kbind (proc_pagetable p) (\<lambda>pt.
           kbind (kmod (upd_proc p (\<lambda>q. q\<lparr>p_pagetable := pt\<rparr>))) (\<lambda>_.
           if pt = 0 then kbind (kseq [freeproc p, release (ProcLock p)]) (\<lambda>_. kret None)
           else kbind (kget syms) (\<lambda>sy.
             kbind (kseq [
               kmod (upd_proc p (\<lambda>q. q\<lparr>p_context := \<lparr>ctx_ra = sym_forkret sy, ctx_sp = p_kstack q + PGSIZE,
                 ctx_s = replicate 12 0\<rparr>\<rparr>)),
               kmod (upd_proc p (\<lambda>q. q\<lparr>p_is_thread := False, p_father := None, p_tid := 0, p_start := 0, p_size := 0\<rparr>))])
               (\<lambda>_. kret (Some p))))))))))"

text \<open>Whether \<open>va\<close> is mapped, as the code asks it: \<open>pte && (*pte & PTE_V)\<close>.\<close>

definition is_mapped :: "addr \<Rightarrow> addr \<Rightarrow> bool K" where
  "is_mapped pt va =
     kbind (walk pt va False) (\<lambda>a. if a = 0 then kret False else kbind (get_pte a) (\<lambda>e. kret (e AND PTE_V \<noteq> 0)))"

definition unmap_if_mapped :: "addr \<Rightarrow> addr \<Rightarrow> unit K" where
  "unmap_if_mapped pt va = kbind (is_mapped pt va) (\<lambda>m. kwhen m (uvmunmap pt va 1 False))"

definition freeproc_thread :: "nat \<Rightarrow> unit K" where
  "freeproc_thread p = kseq [
     kbind (get_proc p) (\<lambda>q.
       kloop (\<lambda>va. if \<not> va < PGROUNDUP (p_sz q) then kret (Inr ())
         else kbind (unmap_if_mapped (p_pagetable q) va) (\<lambda>_. kret (Inl (va + PGSIZE)))) 0),
     kbind (get_proc p) (\<lambda>q. kseq [
       unmap_if_mapped (p_pagetable q) TRAMPOLINE,
       unmap_if_mapped (p_pagetable q) TRAPFRAME,
       uvmfree (p_pagetable q) 0]),
     kmod (upd_proc p (\<lambda>q. q\<lparr>p_pagetable := 0, p_sz := 0\<rparr>)),
     kbind (get_proc p) (\<lambda>q. kwhen (p_trapframe q \<noteq> 0) (kseq [
       kfree (p_trapframe q),
       kmod (upd_proc p (\<lambda>q. q\<lparr>p_trapframe := 0\<rparr>))])),
     kmod (upd_proc p (\<lambda>q. q\<lparr>p_pid := 0, p_tid := 0, p_is_thread := False, p_father := None, p_parent := None,
       p_name := (p_name q)[0 := 0], p_chan := None, p_killed := 0, p_xstate := 0, p_state := UNUSED\<rparr>))]"

section \<open>Threads\<close>

text \<open>One page of the loop of \<open>thread_create\<close> that shares the leader's memory; the loop is left with whether it succeeded.\<close>

definition share_page :: "nat \<Rightarrow> nat \<Rightarrow> addr \<Rightarrow> addr \<Rightarrow> (addr + bool) K" where
  "share_page np leader psz va =
     (if \<not> va < psz \<or> va \<ge> TRAPFRAME then kret (Inr True)
      else kbind (get_proc leader) (\<lambda>l.
        kbind (walk (p_pagetable l) va False) (\<lambda>a.
        kbind (if a = 0 then kret 0 else get_pte a) (\<lambda>e.
        if a = 0 \<or> e AND PTE_V = 0 \<or> e AND PTE_U = 0 then kret (Inl (va + PGSIZE))
        else kbind (get_proc np) (\<lambda>q.
          kbind (mappages (p_pagetable q) va PGSIZE (PTE2PA e) (PTE_FLAGS e AND (PTE_R OR PTE_W OR PTE_X OR PTE_U))) (\<lambda>r.
          if r \<noteq> 0 then kret (Inr False) else kret (Inl (va + PGSIZE))))))))"

text \<open>The new process gets a reference to every open file and to the current directory of the old one.\<close>

definition dup_files :: "nat \<Rightarrow> nat \<Rightarrow> unit K" where
  "dup_files p np = kseq [
     kfor [0..<NOFILE] (\<lambda>i.
       kbind (get_proc p) (\<lambda>q. case p_ofile q i of
         None \<Rightarrow> kret ()
       | Some f \<Rightarrow> kbind (filedup f) (\<lambda>g. kmod (upd_proc np (\<lambda>q. q\<lparr>p_ofile := (p_ofile q)(i := Some g)\<rparr>))))),
     kbind (get_proc p) (\<lambda>q. kbind (deref (p_cwd q)) (\<lambda>d. kbind (idup d) (\<lambda>d'.
       kmod (upd_proc np (\<lambda>q. q\<lparr>p_cwd := Some d'\<rparr>)))))]"

definition copy_trapframe :: "nat \<Rightarrow> nat \<Rightarrow> unit K" where
  "copy_trapframe p np =
     kbind (get_proc p) (\<lambda>q. kbind (get_proc np) (\<lambda>n.
       kmemmove (p_trapframe n) (p_trapframe q) (of_nat sizeof_trapframe)))"

text \<open>The end of \<open>fork\<close> and \<open>thread_create\<close>: the new process gets its parent and becomes runnable.\<close>

definition start_child :: "nat \<Rightarrow> nat \<Rightarrow> unit K" where
  "start_child p np = kseq [
     release (ProcLock np),
     acquire WaitLock,
     kmod (upd_proc np (\<lambda>q. q\<lparr>p_parent := Some p\<rparr>)),
     release WaitLock,
     acquire (ProcLock np),
     kmod (upd_proc np (\<lambda>q. q\<lparr>p_state := RUNNABLE\<rparr>)),
     release (ProcLock np)]"

definition give_up_child :: "nat \<Rightarrow> int K" where
  "give_up_child np = kbind (kseq [freeproc np, release (ProcLock np)]) (\<lambda>_. kret (- 1))"

definition thread_create :: "addr \<Rightarrow> addr \<Rightarrow> addr \<Rightarrow> int K" where
  "thread_create start_fn arg retfn =
     kbind curproc (\<lambda>p.
     kbind allocproc (\<lambda>r.
     case r of
       None \<Rightarrow> kret (- 1)
     | Some np \<Rightarrow>
         kbind (group_leader p) (\<lambda>leader.
         kbind (get_proc leader) (\<lambda>l.
         kbind (kmod (upd_proc np (\<lambda>q. q\<lparr>p_sz := p_sz l\<rparr>))) (\<lambda>_.
         kbind (kloop (share_page np leader (PGROUNDUP (p_sz l))) 0) (\<lambda>ok.
         if \<not> ok then give_up_child np
         else kbind (kmod (upd_proc np (\<lambda>q. q\<lparr>p_sz := p_sz l\<rparr>))) (\<lambda>_.
           kbind (get_proc np) (\<lambda>q.
           let safpot = TRAPFRAME - (2 + 2 * of_int (p_pid q)) * PGSIZE;
             base = safpot + PGSIZE; top = base + PGSIZE; sp = top - 1 in
           kbind (uvmalloc (p_pagetable q) base top (PTE_U OR PTE_R OR PTE_W)) (\<lambda>r.
           if r = 0 then give_up_child np
           else kbind (kseq [
             kmod (upd_proc np (\<lambda>q. q\<lparr>p_start := base, p_size := PGSIZE\<rparr>)),
             copy_trapframe p np,
             set_tf np tf_epc start_fn,
             set_tf np tf_sp sp,
             set_tf np tf_a0 arg,
             set_tf np tf_ra retfn,
             kbind (walkaddr (p_pagetable q) (sp - 16)) (\<lambda>pa. kwhen (pa = 0) (panic ''thread_create: stack not mapped'')),
             dup_files p np,
             kbind (get_proc p) (\<lambda>x. kmod (upd_proc np (\<lambda>q. q\<lparr>p_name := name_copy (p_name q) (p_name x)\<rparr>))),
             kbind (get_proc p) (\<lambda>x. kmod (upd_proc np (\<lambda>q. q\<lparr>p_is_thread := True,
               p_father := (if p_is_thread x then p_father x else Some p), p_tid := p_pid q\<rparr>)))]) (\<lambda>_.
           kbind (get_proc np) (\<lambda>q.
           kbind (start_child p np) (\<lambda>_. kret (p_tid q)))))))))))))"

text \<open>The thread of the group with this \<open>tid\<close>.\<close>

definition find_thread :: "'z kstate_scheme \<Rightarrow> nat option \<Rightarrow> int \<Rightarrow> nat option" where
  "find_thread s leader tid = first_index (\<lambda>q. let x = procs s q in
     p_state x \<noteq> UNUSED \<and> p_is_thread x \<and> p_father x = leader \<and> p_tid x = tid) NPROC"

definition thread_join :: "int \<Rightarrow> int K" where
  "thread_join tid =
     kbind curproc (\<lambda>self.
     kbind (get_proc self) (\<lambda>x.
     let leader = (if p_is_thread x then p_father x else Some self) in
     kbind (acquire WaitLock) (\<lambda>_.
     kloop (\<lambda>_.
       kbind (kget (\<lambda>s. find_thread s leader tid)) (\<lambda>r.
       case r of
         None \<Rightarrow> kbind (release WaitLock) (\<lambda>_. kret (Inr (- 1)))
       | Some q \<Rightarrow>
           kbind (acquire (ProcLock q)) (\<lambda>_.
           kbind (get_proc q) (\<lambda>y.
           if p_state y = ZOMBIE
           then kbind (kseq [freeproc_thread q, release (ProcLock q), release WaitLock]) (\<lambda>_. kret (Inr (p_tid y)))
           else kbind (kseq [release (ProcLock q), sleep (ChProc q) WaitLock]) (\<lambda>_. kret (Inl ())))))) ())))"

section \<open>Processes\<close>

definition initcode :: "byte list" where
  "initcode = [
     0x17, 0x05, 0x00, 0x00, 0x13, 0x05, 0x45, 0x02,
     0x97, 0x05, 0x00, 0x00, 0x93, 0x85, 0x35, 0x02,
     0x93, 0x08, 0x70, 0x00, 0x73, 0x00, 0x00, 0x00,
     0x93, 0x08, 0x20, 0x00, 0x73, 0x00, 0x00, 0x00,
     0xef, 0xf0, 0x9f, 0xff, 0x2f, 0x69, 0x6e, 0x69,
     0x74, 0x00, 0x00, 0x24, 0x00, 0x00, 0x00, 0x00,
     0x00, 0x00, 0x00, 0x00]"

definition userinit :: "unit K" where
  "userinit =
     kbind allocproc (\<lambda>r.
     kbind (kmod (\<lambda>s. s\<lparr>initproc := r\<rparr>)) (\<lambda>_.
     kbind (deref r) (\<lambda>p. kseq [
       kbind (get_proc p) (\<lambda>q. uvmfirst (p_pagetable q) initcode),
       kmod (upd_proc p (\<lambda>q. q\<lparr>p_sz := PGSIZE\<rparr>)),
       set_tf p tf_epc 0,
       set_tf p tf_sp PGSIZE,
       kmod (upd_proc p (\<lambda>q. q\<lparr>p_name := name_copy (p_name q) (bytes ''initcode'')\<rparr>)),
       kbind (namei [SLASH]) (\<lambda>d. kmod (upd_proc p (\<lambda>q. q\<lparr>p_cwd := d\<rparr>))),
       kmod (upd_proc p (\<lambda>q. q\<lparr>p_state := RUNNABLE\<rparr>)),
       release (ProcLock p)])))"

text \<open>The processes that share the memory of \<open>leader\<close>, as the loops of \<open>growproc\<close> test it.\<close>

definition shares_memory :: "nat \<Rightarrow> nat \<Rightarrow> proc \<Rightarrow> bool" where
  "shares_memory leader q x \<longleftrightarrow> q = leader \<or> p_is_thread x \<and> p_father x = Some leader"

text \<open>The inner loops of \<open>growproc\<close>: the page at \<open>va\<close> in the page tables of the other threads.\<close>

definition each_thread :: "nat \<Rightarrow> (addr \<Rightarrow> unit K) \<Rightarrow> unit K" where
  "each_thread leader f =
     kfor [0..<NPROC] (\<lambda>q.
       kbind (get_proc q) (\<lambda>x. kbind (get_proc leader) (\<lambda>l.
       kwhen (shares_memory leader q x \<and> p_pagetable x \<noteq> 0 \<and> p_pagetable x \<noteq> p_pagetable l) (f (p_pagetable x)))))"

definition set_group_size :: "nat \<Rightarrow> addr \<Rightarrow> unit K" where
  "set_group_size leader newsz = kseq [
     kmod (upd_proc leader (\<lambda>q. q\<lparr>p_sz := newsz\<rparr>)),
     kfor [0..<NPROC] (\<lambda>q.
       kbind (get_proc q) (\<lambda>x. kbind (get_proc leader) (\<lambda>l.
       kwhen (shares_memory leader q x) (kmod (upd_proc q (\<lambda>x. x\<lparr>p_sz := p_sz l\<rparr>))))))]"

definition growproc :: "int \<Rightarrow> int K" where
  "growproc n =
     kbind curproc (\<lambda>p.
     kbind (group_leader p) (\<lambda>leader.
     kbind (get_proc leader) (\<lambda>l.
     let oldsz = p_sz l in
     if n > 0
     then kbind (uvmalloc (p_pagetable l) oldsz (oldsz + of_int n) PTE_W) (\<lambda>newsz.
       if newsz = 0 then kret (- 1)
       else kbind (kseq [
         kloop (\<lambda>va. if \<not> va < newsz \<or> va \<ge> TRAPFRAME then kret (Inr ())
           else kbind (walkaddr (p_pagetable l) va) (\<lambda>pa.
             kbind (each_thread leader (\<lambda>pt.
               kbind (is_mapped pt va) (\<lambda>m. kwhen (\<not> m)
                 (kbind (mappages pt va PGSIZE pa (PTE_U OR PTE_R OR PTE_W)) (\<lambda>_. kret ()))))) (\<lambda>_.
             kret (Inl (va + PGSIZE))))) (PGROUNDUP oldsz),
         set_group_size leader newsz]) (\<lambda>_. kret 0))
     else if n < 0
     then kbind (uvmdealloc (p_pagetable l) oldsz (oldsz + of_int n)) (\<lambda>newsz.
       kbind (kseq [
         kloop (\<lambda>va. if \<not> va < PGROUNDUP oldsz \<or> va \<ge> TRAPFRAME then kret (Inr ())
           else kbind (each_thread leader (\<lambda>pt. uvmunmap pt va 1 False)) (\<lambda>_. kret (Inl (va + PGSIZE)))) (PGROUNDUP newsz),
         set_group_size leader newsz]) (\<lambda>_. kret 0))
     else kret 0)))"

definition fork :: "int K" where
  "fork =
     kbind curproc (\<lambda>p.
     kbind allocproc (\<lambda>r.
     case r of
       None \<Rightarrow> kret (- 1)
     | Some np \<Rightarrow>
         kbind (get_proc p) (\<lambda>x.
         kbind (get_proc np) (\<lambda>n.
         kbind (uvmcopy (p_pagetable x) (p_pagetable n) (p_sz x)) (\<lambda>r.
         if r < 0 then give_up_child np
         else kbind (kseq [
             kmod (upd_proc np (\<lambda>q. q\<lparr>p_sz := p_sz x\<rparr>)),
             copy_trapframe p np,
             set_tf np tf_a0 0,
             dup_files p np,
             kmod (upd_proc np (\<lambda>q. q\<lparr>p_name := name_copy (p_name q) (p_name x)\<rparr>))]) (\<lambda>_.
           kbind (get_proc np) (\<lambda>n.
           kbind (start_child p np) (\<lambda>_. kret (p_pid n)))))))))"

definition reparent :: "nat \<Rightarrow> unit K" where
  "reparent p =
     kfor [0..<NPROC] (\<lambda>pp.
       kbind (get_proc pp) (\<lambda>x. kwhen (p_parent x = Some p) (
         kbind (kget initproc) (\<lambda>ini. kseq [
           kmod (upd_proc pp (\<lambda>x. x\<lparr>p_parent := ini\<rparr>)),
           wakeup (map_option ChProc ini)]))))"

definition close_files :: "nat \<Rightarrow> unit K" where
  "close_files p =
     kfor [0..<NOFILE] (\<lambda>fd.
       kbind (get_proc p) (\<lambda>x. case p_ofile x fd of
         None \<Rightarrow> kret ()
       | Some f \<Rightarrow> kseq [
           fileclose f,
           kmod (upd_proc p (\<lambda>q. q\<lparr>p_ofile := (p_ofile q)(fd := None)\<rparr>))]))"

definition exit :: "int \<Rightarrow> unit K" where
  "exit status =
     kbind curproc (\<lambda>p.
     kbind (kget initproc) (\<lambda>ini. kseq [
       kwhen (ini = Some p) (panic ''init exiting''),
       close_files p,
       begin_op,
       kbind (get_proc p) (\<lambda>x. kbind (deref (p_cwd x)) iput),
       end_op,
       kmod (upd_proc p (\<lambda>q. q\<lparr>p_cwd := None\<rparr>)),
       acquire WaitLock,
       reparent p,
       kbind (get_proc p) (\<lambda>x. wakeup (map_option ChProc (p_parent x))),
       acquire (ProcLock p),
       kmod (upd_proc p (\<lambda>q. q\<lparr>p_xstate := status, p_state := ZOMBIE\<rparr>)),
       release WaitLock,
       sched,
       panic ''zombie exit'']))"

definition thread_exit :: "unit K" where
  "thread_exit =
     kbind curproc (\<lambda>p.
     kbind (get_proc p) (\<lambda>x.
     if \<not> p_is_thread x then exit 0
     else kseq [
       close_files p,
       begin_op,
       kbind (get_proc p) (\<lambda>x. case p_cwd x of
         None \<Rightarrow> kret ()
       | Some d \<Rightarrow> kseq [iput d, kmod (upd_proc p (\<lambda>q. q\<lparr>p_cwd := None\<rparr>))]),
       end_op,
       kbind (get_proc p) (\<lambda>x. kwhen (p_start x \<noteq> 0 \<and> p_size x \<noteq> 0) (kseq [
         kbind (is_mapped (p_pagetable x) (p_start x)) (\<lambda>m.
           if m then uvmunmap (p_pagetable x) (p_start x) 1 True
           else printf (''stack PTE missing: va=%p'' @ newline) [VPtr (p_start x)]),
         kmod (upd_proc p (\<lambda>q. q\<lparr>p_start := 0, p_size := 0\<rparr>))])),
       acquire WaitLock,
       acquire (ProcLock p),
       kmod (upd_proc p (\<lambda>q. q\<lparr>p_xstate := 0, p_state := ZOMBIE\<rparr>)),
       wakeup (Some (ChProc p)),
       release WaitLock,
       sched,
       panic ''thread_exit: zombie'']))"

text \<open>
  The scan of \<open>wait\<close> over the process table: the answer is the value to return when a zombie child was found, and otherwise
  whether there are children at all.
\<close>

primrec wait_scan :: "nat \<Rightarrow> addr \<Rightarrow> nat list \<Rightarrow> bool \<Rightarrow> (int + bool) K" where
  "wait_scan p a [] havekids = kret (Inr havekids)"
| "wait_scan p a (pp # pps) havekids =
     kbind (get_proc pp) (\<lambda>x.
     if p_parent x \<noteq> Some p then wait_scan p a pps havekids
     else kbind (acquire (ProcLock pp)) (\<lambda>_.
       kbind (get_proc pp) (\<lambda>x.
       if p_state x \<noteq> ZOMBIE then kbind (release (ProcLock pp)) (\<lambda>_. wait_scan p a pps True)
       else kbind (get_proc p) (\<lambda>me.
         kbind (if a = 0 then kret 0 else copyout (p_pagetable me) a (to_le 4 (word_of_int (p_xstate x) :: u32))) (\<lambda>r.
         if r < 0
         then kbind (kseq [release (ProcLock pp), release WaitLock]) (\<lambda>_. kret (Inl (- 1)))
         else kbind (kseq [freeproc pp, release (ProcLock pp), release WaitLock]) (\<lambda>_. kret (Inl (p_pid x))))))))"

definition wait :: "addr \<Rightarrow> int K" where
  "wait a =
     kbind curproc (\<lambda>p.
     kbind (acquire WaitLock) (\<lambda>_.
     kloop (\<lambda>_.
       kbind (wait_scan p a [0..<NPROC] False) (\<lambda>r.
       case r of
         Inl v \<Rightarrow> kret (Inr v)
       | Inr havekids \<Rightarrow>
           kbind (if \<not> havekids then kret 1 else killed p) (\<lambda>stop.
           if stop \<noteq> 0 then kbind (release WaitLock) (\<lambda>_. kret (Inr (- 1)))
           else kbind (sleep (ChProc p) WaitLock) (\<lambda>_. kret (Inl ()))))) ()))"

end
