(* ===== verification/Exec.thy ===== *)
theory Exec
  imports Proc
begin

text \<open>
  Loading a program (\<open>kernel/exec.c\<close>): the ELF headers are read into local variables, the segments into freshly
  allocated pages, the argument strings onto the new stack; only then the old memory of the process is given up. Every failure
  before that point leaves the process as it was.
\<close>

section \<open>The ELF format (elf.h)\<close>

definition ELF_MAGIC :: u32 where "ELF_MAGIC = 0x464C457F"
definition ELF_PROG_LOAD :: u32 where "ELF_PROG_LOAD = 1"

record elfhdr =
  eh_magic :: u32
  eh_entry :: addr
  eh_phoff :: addr
  eh_phnum :: u16

record proghdr =
  ph_type :: u32
  ph_flags :: u32
  ph_off :: addr
  ph_vaddr :: addr
  ph_filesz :: addr
  ph_memsz :: addr

definition sizeof_elfhdr :: nat where "sizeof_elfhdr = 64"
definition sizeof_proghdr :: nat where "sizeof_proghdr = 56"

text \<open>The fields the kernel reads, at their offsets in the file.\<close>

definition get_elfhdr :: "byte list \<Rightarrow> elfhdr" where
  "get_elfhdr d = \<lparr>eh_magic = get_le 4 d 0, eh_entry = get_le 8 d 24, eh_phoff = get_le 8 d 32, eh_phnum = get_le 2 d 56\<rparr>"

definition get_proghdr :: "byte list \<Rightarrow> proghdr" where
  "get_proghdr d = \<lparr>ph_type = get_le 4 d 0, ph_flags = get_le 4 d 4, ph_off = get_le 8 d 8, ph_vaddr = get_le 8 d 16,
     ph_filesz = get_le 8 d 32, ph_memsz = get_le 8 d 40\<rparr>"

section \<open>Loading (exec.c)\<close>

definition flags2perm :: "u32 \<Rightarrow> addr" where
  "flags2perm flags = (if flags AND 1 \<noteq> 0 then PTE_X else 0) OR (if flags AND 2 \<noteq> 0 then PTE_W else 0)"

definition loadseg_step :: "addr \<Rightarrow> addr \<Rightarrow> nat \<Rightarrow> u32 \<Rightarrow> u32 \<Rightarrow> u32 \<Rightarrow> (u32 + int) K" where
  "loadseg_step pt va ip offset sz = (\<lambda>i.
     if \<not> i < sz then kret (Inr 0)
     else kbind (walkaddr pt (va + ucast i)) (\<lambda>pa.
       if pa = 0 then panic ''loadseg: address should exist''
       else let n = (if sz - i < ucast PGSIZE then sz - i else ucast PGSIZE) in
         kbind (readi ip (KernelDst pa) (offset + i) n) (\<lambda>(r, _).
         if r \<noteq> uint n then kret (Inr (- 1)) else kret (Inl (i + ucast PGSIZE)))))"

definition loadseg :: "addr \<Rightarrow> addr \<Rightarrow> nat \<Rightarrow> u32 \<Rightarrow> u32 \<Rightarrow> int K" where
  "loadseg pt va ip offset sz = kloop (loadseg_step pt va ip offset sz) 0"

text \<open>One program header: the new size of the memory, or nothing when the loop is left for \<open>bad\<close> (with the size so far).\<close>

definition load_ph :: "addr \<Rightarrow> nat \<Rightarrow> addr \<Rightarrow> addr \<Rightarrow> (addr + addr) K" where
  "load_ph pt ip off sz =
     kbind (readi ip LocalDst (ucast off) (of_nat sizeof_proghdr)) (\<lambda>(r, d).
     let ph = get_proghdr d in
     if r \<noteq> int sizeof_proghdr then kret (Inl sz)
     else if ph_type ph \<noteq> ELF_PROG_LOAD then kret (Inr sz)
     else if ph_memsz ph < ph_filesz ph then kret (Inl sz)
     else if ph_vaddr ph + ph_memsz ph < ph_vaddr ph then kret (Inl sz)
     else if ph_vaddr ph mod PGSIZE \<noteq> 0 then kret (Inl sz)
     else kbind (uvmalloc pt sz (ph_vaddr ph + ph_memsz ph) (flags2perm (ph_flags ph))) (\<lambda>sz1.
       if sz1 = 0 then kret (Inl sz)
       else kbind (loadseg pt (ph_vaddr ph) ip (ucast (ph_off ph)) (ucast (ph_filesz ph))) (\<lambda>r.
         kret (if r < 0 then Inl sz1 else Inr sz1))))"

primrec load_phs :: "addr \<Rightarrow> nat \<Rightarrow> addr \<Rightarrow> nat \<Rightarrow> addr \<Rightarrow> (addr + addr) K" where
  "load_phs pt ip off 0 sz = kret (Inr sz)"
| "load_phs pt ip off (Suc n) sz =
     kbind (load_ph pt ip off sz) (\<lambda>r.
     case r of Inl sz \<Rightarrow> kret (Inl sz) | Inr sz \<Rightarrow> load_phs pt ip (off + of_nat sizeof_proghdr) n sz)"

text \<open>
  The argument strings, given as the bytes before their NULs: each is pushed below the one before, aligned to 16
  bytes. The answer is the stack pointer and the addresses of the strings.
\<close>

primrec push_args :: "addr \<Rightarrow> addr \<Rightarrow> byte list list \<Rightarrow> addr \<Rightarrow> addr list \<Rightarrow> (addr \<times> addr list) option K" where
  "push_args pt stackbase [] sp ustack = kret (Some (sp, ustack))"
| "push_args pt stackbase (s # ss) sp ustack =
     (if length ustack \<ge> MAXARG then kret None
      else let sp = sp - (of_nat (length s) + 1); sp = sp - sp mod 16 in
        if sp < stackbase then kret None
        else kbind (copyout pt sp (s @ [0])) (\<lambda>r.
          if r < 0 then kret None else push_args pt stackbase ss sp (ustack @ [sp])))"

text \<open>The last element of the path, which becomes the name of the process.\<close>

definition last_elem :: "byte list \<Rightarrow> byte list" where
  "last_elem path = rev (takeWhile (\<lambda>c. c \<noteq> SLASH) (rev path))"

text \<open>
  The stack of the new image: the strings, then the array of pointers to them. The null that ends the array goes into
  \<open>ustack[argc]\<close>, which is outside of \<open>ustack\<close> when there are \<open>MAXARG\<close> arguments.
\<close>

definition build_stack :: "addr \<Rightarrow> addr \<Rightarrow> byte list list \<Rightarrow> addr option K" where
  "build_stack pt sz argv =
     (let stackbase = sz - PGSIZE in
      kbind (push_args pt stackbase argv sz []) (\<lambda>r.
      case r of
        None \<Rightarrow> kret None
      | Some (sp, ustack) \<Rightarrow>
          if length ustack \<ge> MAXARG then panic ''ustack[argc]''
          else let sp = sp - (of_nat (length ustack) + 1) * 8; sp = sp - sp mod 16 in
          if sp < stackbase then kret None
          else kbind (copyout pt sp (concat (map (to_le 8) (ustack @ [0])))) (\<lambda>r.
            kret (if r < 0 then None else Some sp))))"

definition exec_commit :: "nat \<Rightarrow> byte list \<Rightarrow> addr \<Rightarrow> addr \<Rightarrow> addr \<Rightarrow> addr \<Rightarrow> addr \<Rightarrow> unit K" where
  "exec_commit p path pt sz sp pc0 oldsz = kseq [
     set_tf p tf_a1 sp,
     kmod (upd_proc p (\<lambda>q. q\<lparr>p_name := name_copy (p_name q) (last_elem path)\<rparr>)),
     kbind (get_proc p) (\<lambda>q. kseq [
       kmod (upd_proc p (\<lambda>q. q\<lparr>p_pagetable := pt, p_sz := sz\<rparr>)),
       set_tf p tf_epc pc0,
       set_tf p tf_sp sp,
       proc_freepagetable (p_pagetable q) oldsz])]"

text \<open>The label \<open>bad\<close> before and after the inode has been released.\<close>

definition exec_bad :: "addr \<Rightarrow> addr \<Rightarrow> nat option \<Rightarrow> int K" where
  "exec_bad pt sz ip =
     kbind (kseq [
       kwhen (pt \<noteq> 0) (proc_freepagetable pt sz),
       (case ip of None \<Rightarrow> kret () | Some i \<Rightarrow> kseq [iunlockput i, end_op])]) (\<lambda>_. kret (- 1))"

definition exec_image :: "nat \<Rightarrow> byte list \<Rightarrow> byte list list \<Rightarrow> addr \<Rightarrow> addr \<Rightarrow> addr \<Rightarrow> int K" where
  "exec_image p path argv pt sz pc0 =
     kbind (get_proc p) (\<lambda>q.
     let oldsz = p_sz q; sz = PGROUNDUP sz in
     kbind (uvmalloc pt sz (sz + 2 * PGSIZE) PTE_W) (\<lambda>sz1.
     if sz1 = 0 then exec_bad pt sz None
     else kbind (uvmclear pt (sz1 - 2 * PGSIZE)) (\<lambda>_.
       kbind (build_stack pt sz1 argv) (\<lambda>r.
       case r of
         None \<Rightarrow> exec_bad pt sz1 None
       | Some sp \<Rightarrow> kbind (exec_commit p path pt sz1 sp pc0 oldsz) (\<lambda>_. kret (int (length argv)))))))"

definition exec :: "byte list \<Rightarrow> byte list list \<Rightarrow> int K" where
  "exec path argv =
     kbind curproc (\<lambda>p.
     kbind begin_op (\<lambda>_.
     kbind (namei path) (\<lambda>r.
     case r of
       None \<Rightarrow> kbind end_op (\<lambda>_. kret (- 1))
     | Some ip \<Rightarrow>
         kbind (ilock ip) (\<lambda>_.
         kbind (readi ip LocalDst 0 (of_nat sizeof_elfhdr)) (\<lambda>(r, d).
         let elf = get_elfhdr d in
         if r \<noteq> int sizeof_elfhdr then exec_bad 0 0 (Some ip)
         else if eh_magic elf \<noteq> ELF_MAGIC then exec_bad 0 0 (Some ip)
         else kbind (proc_pagetable p) (\<lambda>pt.
           if pt = 0 then exec_bad 0 0 (Some ip)
           else kbind (load_phs pt ip (eh_phoff elf) (unat (eh_phnum elf)) 0) (\<lambda>r.
             case r of
               Inl sz \<Rightarrow> exec_bad pt sz (Some ip)
             | Inr sz \<Rightarrow>
                 kbind (kseq [iunlockput ip, end_op]) (\<lambda>_.
                 exec_image p path argv pt sz (eh_entry elf)))))))))"

end
