(* ===== verification/Syscall.thy ===== *)
theory Syscall
  imports Exec
begin

text \<open>
  System calls (\<open>kernel/syscall.c\<close>, \<open>kernel/sysproc.c\<close>, \<open>kernel/sysfile.c\<close>): fetching arguments from the registers and
  the memory of the user process, and the handlers behind the system call numbers. A handler answers with the 64-bit value
  that goes to register a0.
\<close>

section \<open>Arguments (syscall.c)\<close>

definition neg1 :: addr where "neg1 = word_of_int (- 1)"
definition ret64 :: "int \<Rightarrow> addr" where "ret64 r = word_of_int r"

text \<open>\<open>fetchaddr\<close> answers with the word read, or nothing for an error.\<close>

definition fetchaddr :: "addr \<Rightarrow> addr option K" where
  "fetchaddr a =
     kbind curproc (\<lambda>p.
     kbind (get_proc p) (\<lambda>q.
     if a \<ge> p_sz q \<or> a + 8 > p_sz q then kret None
     else kbind (copyin (p_pagetable q) a 8) (\<lambda>(r, bs).
       kret (if r \<noteq> 0 then None else Some (of_le bs)))))"

text \<open>\<open>fetchstr\<close> answers with the bytes before the NUL, whose number is the C function's result, or nothing for an error.\<close>

definition fetchstr :: "addr \<Rightarrow> nat \<Rightarrow> byte list option K" where
  "fetchstr a maxlen =
     kbind curproc (\<lambda>p.
     kbind (get_proc p) (\<lambda>q.
     kbind (copyinstr (p_pagetable q) a maxlen) (\<lambda>(r, bs).
     kret (if r < 0 then None else Some (takeWhile (\<lambda>c. c \<noteq> 0) bs)))))"

definition argraw :: "int \<Rightarrow> addr K" where
  "argraw n =
     kbind curproc (\<lambda>p.
     if n = 0 then get_tf p tf_a0 else if n = 1 then get_tf p tf_a1 else if n = 2 then get_tf p tf_a2
     else if n = 3 then get_tf p tf_a3 else if n = 4 then get_tf p tf_a4 else if n = 5 then get_tf p tf_a5
     else panic ''argraw'')"

definition argint :: "int \<Rightarrow> int K" where
  "argint n = kbind (argraw n) (\<lambda>a. kret (sint (ucast a :: u32)))"

definition argaddr :: "int \<Rightarrow> addr K" where
  "argaddr n = argraw n"

definition argstr :: "int \<Rightarrow> nat \<Rightarrow> byte list option K" where
  "argstr n maxlen = kbind (argaddr n) (\<lambda>a. fetchstr a maxlen)"

section \<open>Processes (sysproc.c)\<close>

definition sys_exit :: "addr K" where
  "sys_exit = kbind (argint 0) (\<lambda>n. kbind (exit n) (\<lambda>_. kret 0))"

definition sys_getpid :: "addr K" where
  "sys_getpid = kbind curproc (\<lambda>p. kbind (get_proc p) (\<lambda>q. kret (ret64 (p_pid q))))"

definition sys_fork :: "addr K" where
  "sys_fork = kbind fork (\<lambda>r. kret (ret64 r))"

definition sys_wait :: "addr K" where
  "sys_wait = kbind (argaddr 0) (\<lambda>a. kbind (wait a) (\<lambda>r. kret (ret64 r)))"

definition sys_sbrk :: "addr K" where
  "sys_sbrk =
     kbind (argint 0) (\<lambda>n.
     kbind curproc (\<lambda>p.
     kbind (get_proc p) (\<lambda>q.
     kbind (growproc n) (\<lambda>r.
     kret (if r < 0 then neg1 else p_sz q)))))"

text \<open>The comparison of the unsigned difference with the argument converts a negative argument to a large number.\<close>

definition sys_sleep :: "addr K" where
  "sys_sleep =
     kbind (argint 0) (\<lambda>n.
     kbind (acquire TicksLock) (\<lambda>_.
     kbind (kget ticks) (\<lambda>ticks0.
     kloop (\<lambda>_.
       kbind (kget ticks) (\<lambda>now.
       if now - ticks0 < word_of_int n
       then kbind curproc (\<lambda>p. kbind (killed p) (\<lambda>k.
         if k \<noteq> 0 then kbind (release TicksLock) (\<lambda>_. kret (Inr neg1))
         else kbind (sleep ChTicks TicksLock) (\<lambda>_. kret (Inl ()))))
       else kbind (release TicksLock) (\<lambda>_. kret (Inr 0)))) ())))"

definition sys_kill :: "addr K" where
  "sys_kill = kbind (argint 0) (\<lambda>pid. kbind (kill pid) (\<lambda>r. kret (ret64 r)))"

definition sys_uptime :: "addr K" where
  "sys_uptime =
     kbind (acquire TicksLock) (\<lambda>_.
     kbind (kget ticks) (\<lambda>x.
     kbind (release TicksLock) (\<lambda>_. kret (ucast x))))"

definition sys_spoon :: "addr K" where
  "sys_spoon = kbind (argaddr 0) (\<lambda>a. kbind (spoon a) (\<lambda>r. kret (ret64 r)))"

definition sys_thread_create :: "addr K" where
  "sys_thread_create =
     kbind (argaddr 0) (\<lambda>fn. kbind (argaddr 1) (\<lambda>arg. kbind (argaddr 2) (\<lambda>rt.
     kbind (thread_create fn arg rt) (\<lambda>r. kret (ret64 r)))))"

definition sys_thread_join :: "addr K" where
  "sys_thread_join = kbind (argint 0) (\<lambda>tid. kbind (thread_join tid) (\<lambda>r. kret (ret64 r)))"

definition sys_thread_exit :: "addr K" where
  "sys_thread_exit = kbind thread_exit (\<lambda>_. kret 0)"

section \<open>Files (sysfile.c)\<close>

text \<open>The descriptor and the file, or nothing for an error.\<close>

definition argfd :: "int \<Rightarrow> (nat \<times> nat) option K" where
  "argfd n =
     kbind (argint n) (\<lambda>fd.
     kbind curproc (\<lambda>p.
     kbind (get_proc p) (\<lambda>q.
     kret (if fd < 0 \<or> fd \<ge> int NOFILE then None
       else case p_ofile q (nat fd) of None \<Rightarrow> None | Some f \<Rightarrow> Some (nat fd, f)))))"

definition set_ofile :: "nat \<Rightarrow> nat \<Rightarrow> nat option \<Rightarrow> unit K" where
  "set_ofile p fd f = kmod (upd_proc p (\<lambda>q. q\<lparr>p_ofile := (p_ofile q)(fd := f)\<rparr>))"

definition fdalloc :: "nat \<Rightarrow> int K" where
  "fdalloc f =
     kbind curproc (\<lambda>p.
     kbind (get_proc p) (\<lambda>q.
     case first_index (\<lambda>fd. p_ofile q fd = None) NOFILE of
       Some fd \<Rightarrow> kbind (set_ofile p fd (Some f)) (\<lambda>_. kret (int fd))
     | None \<Rightarrow> kret (- 1)))"

definition sys_dup :: "addr K" where
  "sys_dup =
     kbind (argfd 0) (\<lambda>r.
     case r of
       None \<Rightarrow> kret neg1
     | Some (_, f) \<Rightarrow>
         kbind (fdalloc f) (\<lambda>fd.
         if fd < 0 then kret neg1 else kbind (filedup f) (\<lambda>_. kret (ret64 fd))))"

definition sys_read :: "addr K" where
  "sys_read =
     kbind (argaddr 1) (\<lambda>a. kbind (argint 2) (\<lambda>n. kbind (argfd 0) (\<lambda>r.
     case r of None \<Rightarrow> kret neg1 | Some (_, f) \<Rightarrow> kbind (fileread f a n) (\<lambda>r. kret (ret64 r)))))"

definition sys_write :: "addr K" where
  "sys_write =
     kbind (argaddr 1) (\<lambda>a. kbind (argint 2) (\<lambda>n. kbind (argfd 0) (\<lambda>r.
     case r of None \<Rightarrow> kret neg1 | Some (_, f) \<Rightarrow> kbind (filewrite f a n) (\<lambda>r. kret (ret64 r)))))"

definition sys_close :: "addr K" where
  "sys_close =
     kbind (argfd 0) (\<lambda>r.
     case r of
       None \<Rightarrow> kret neg1
     | Some (fd, f) \<Rightarrow>
         kbind curproc (\<lambda>p.
         kbind (kseq [set_ofile p fd None, fileclose f]) (\<lambda>_. kret 0)))"

definition sys_fstat :: "addr K" where
  "sys_fstat =
     kbind (argaddr 1) (\<lambda>st. kbind (argfd 0) (\<lambda>r.
     case r of None \<Rightarrow> kret neg1 | Some (_, f) \<Rightarrow> kbind (filestat f st) (\<lambda>r. kret (ret64 r))))"

definition get_inode :: "nat \<Rightarrow> inode K" where "get_inode ip = kget (\<lambda>s. itable s ip)"

definition add_nlink :: "nat \<Rightarrow> u16 \<Rightarrow> unit K" where
  "add_nlink ip n = kseq [kmod (upd_inode ip (\<lambda>x. x\<lparr>i_nlink := i_nlink x + n\<rparr>)), iupdate ip]"

definition link_bad :: "nat \<Rightarrow> addr K" where
  "link_bad ip = kbind (kseq [ilock ip, add_nlink ip (- 1), iunlockput ip, end_op]) (\<lambda>_. kret neg1)"

definition sys_link :: "addr K" where
  "sys_link =
     kbind (argstr 0 MAXPATH) (\<lambda>old'.
     case old' of None \<Rightarrow> kret neg1
     | Some old \<Rightarrow>
     kbind (argstr 1 MAXPATH) (\<lambda>new'.
     case new' of None \<Rightarrow> kret neg1
     | Some new \<Rightarrow>
     kbind begin_op (\<lambda>_.
     kbind (namei old) (\<lambda>r.
     case r of None \<Rightarrow> kbind end_op (\<lambda>_. kret neg1)
     | Some ip \<Rightarrow>
     kbind (ilock ip) (\<lambda>_.
     kbind (get_inode ip) (\<lambda>x.
     if i_type x = T_DIR then kbind (kseq [iunlockput ip, end_op]) (\<lambda>_. kret neg1)
     else
     kbind (kseq [add_nlink ip 1, iunlock ip]) (\<lambda>_.
     kbind (nameiparent new) (\<lambda>(d, name).
     case d of None \<Rightarrow> link_bad ip
     | Some dp \<Rightarrow>
     kbind (ilock dp) (\<lambda>_.
     kbind (get_inode dp) (\<lambda>y.
     kbind (get_inode ip) (\<lambda>x.
     kbind (if i_dev y \<noteq> i_dev x then kret (- 1) else dirlink dp name (i_inum x)) (\<lambda>r.
     if r < 0 then kbind (iunlockput dp) (\<lambda>_. link_bad ip)
     else kbind (kseq [iunlockput dp, iput ip, end_op]) (\<lambda>_. kret 0)))))))))))))"

definition isdirempty :: "nat \<Rightarrow> bool K" where
  "isdirempty dp =
     kloop (\<lambda>off.
       kbind (get_inode dp) (\<lambda>x.
       if \<not> off < i_size x then kret (Inr True)
       else kbind (readi dp LocalDst off (of_nat sizeof_dirent)) (\<lambda>(r, de).
         if r \<noteq> int sizeof_dirent then panic ''isdirempty: readi''
         else if de_inum de \<noteq> 0 then kret (Inr False)
         else kret (Inl (off + of_nat sizeof_dirent))))) (of_nat (2 * sizeof_dirent))"

definition unlink_bad :: "nat \<Rightarrow> addr K" where
  "unlink_bad dp = kbind (kseq [iunlockput dp, end_op]) (\<lambda>_. kret neg1)"

definition sys_unlink :: "addr K" where
  "sys_unlink =
     kbind (argstr 0 MAXPATH) (\<lambda>path'.
     case path' of None \<Rightarrow> kret neg1
     | Some path \<Rightarrow>
     kbind begin_op (\<lambda>_.
     kbind (nameiparent path) (\<lambda>(d, name).
     case d of None \<Rightarrow> kbind end_op (\<lambda>_. kret neg1)
     | Some dp \<Rightarrow>
     kbind (ilock dp) (\<lambda>_.
     if namecmp name (bytes ''.'') = 0 \<or> namecmp name (bytes ''..'') = 0 then unlink_bad dp
     else
     kbind (dirlookup dp name) (\<lambda>r.
     case r of None \<Rightarrow> unlink_bad dp
     | Some (ip, off) \<Rightarrow>
     kbind (ilock ip) (\<lambda>_.
     kbind (get_inode ip) (\<lambda>x.
     if sint (i_nlink x) < 1 then panic ''unlink: nlink < 1''
     else
     kbind (if i_type x = T_DIR then isdirempty ip else kret True) (\<lambda>empty.
     if \<not> empty then kbind (iunlockput ip) (\<lambda>_. unlink_bad dp)
     else
     kbind (writei dp (LocalSrc (replicate sizeof_dirent 0)) off (of_nat sizeof_dirent)) (\<lambda>w.
     if w \<noteq> int sizeof_dirent then panic ''unlink: writei''
     else kbind (kseq [
       kwhen (i_type x = T_DIR) (add_nlink dp (- 1)),
       iunlockput dp,
       add_nlink ip (- 1),
       iunlockput ip,
       end_op]) (\<lambda>_. kret 0))))))))))"

text \<open>\<open>create\<close> returns with the inode locked.\<close>

definition create_fail :: "nat \<Rightarrow> nat \<Rightarrow> nat option K" where
  "create_fail dp ip = kbind (kseq [
     kmod (upd_inode ip (\<lambda>x. x\<lparr>i_nlink := 0\<rparr>)),
     iupdate ip,
     iunlockput ip,
     iunlockput dp]) (\<lambda>_. kret None)"

definition create :: "byte list \<Rightarrow> u16 \<Rightarrow> u16 \<Rightarrow> u16 \<Rightarrow> nat option K" where
  "create path ty major minor =
     kbind (nameiparent path) (\<lambda>(d, name).
     case d of None \<Rightarrow> kret None
     | Some dp \<Rightarrow>
     kbind (ilock dp) (\<lambda>_.
     kbind (dirlookup dp name) (\<lambda>r.
     case r of
       Some (ip, _) \<Rightarrow>
         kbind (kseq [iunlockput dp, ilock ip]) (\<lambda>_.
         kbind (get_inode ip) (\<lambda>x.
         if ty = T_FILE \<and> (i_type x = T_FILE \<or> i_type x = T_DEVICE) then kret (Some ip)
         else kbind (iunlockput ip) (\<lambda>_. kret None)))
     | None \<Rightarrow>
         kbind (get_inode dp) (\<lambda>y.
         kbind (ialloc (i_dev y) ty) (\<lambda>r.
         case r of
           None \<Rightarrow> kbind (iunlockput dp) (\<lambda>_. kret None)
         | Some ip \<Rightarrow>
             kbind (kseq [
               ilock ip,
               kmod (upd_inode ip (\<lambda>x. x\<lparr>i_major := major, i_minor := minor, i_nlink := 1\<rparr>)),
               iupdate ip]) (\<lambda>_.
             kbind (get_inode ip) (\<lambda>x.
             kbind (if ty \<noteq> T_DIR then kret 0
               else kbind (dirlink ip (bytes ''.'') (i_inum x)) (\<lambda>r.
                 if r < 0 then kret r else dirlink ip (bytes ''..'') (i_inum y))) (\<lambda>r.
             if r < 0 then create_fail dp ip
             else kbind (dirlink dp name (i_inum x)) (\<lambda>r.
               if r < 0 then create_fail dp ip
               else kbind (kseq [
                 kwhen (ty = T_DIR) (add_nlink dp 1),
                 iunlockput dp]) (\<lambda>_. kret (Some ip)))))))))))"

section \<open>Opening and the rest\<close>

text \<open>The mode bits of \<open>fcntl.h\<close>.\<close>

definition O_RDONLY :: u32 where "O_RDONLY = 0x000"
definition O_WRONLY :: u32 where "O_WRONLY = 0x001"
definition O_RDWR :: u32 where "O_RDWR = 0x002"
definition O_CREATE :: u32 where "O_CREATE = 0x200"
definition O_TRUNC :: u32 where "O_TRUNC = 0x400"

definition open_fail :: "nat \<Rightarrow> addr K" where
  "open_fail ip = kbind (kseq [iunlockput ip, end_op]) (\<lambda>_. kret neg1)"

text \<open>The inode to open, locked.\<close>

definition open_inode :: "byte list \<Rightarrow> u32 \<Rightarrow> nat option K" where
  "open_inode path omode =
     (if omode AND O_CREATE \<noteq> 0 then create path T_FILE 0 0
      else kbind (namei path) (\<lambda>r.
        case r of None \<Rightarrow> kret None
        | Some ip \<Rightarrow>
            kbind (ilock ip) (\<lambda>_.
            kbind (get_inode ip) (\<lambda>x.
            if i_type x = T_DIR \<and> omode \<noteq> O_RDONLY then kbind (iunlockput ip) (\<lambda>_. kret None)
            else kret (Some ip)))))"

definition sys_open :: "addr K" where
  "sys_open =
     kbind (argint 1) (\<lambda>om.
     let omode = word_of_int om :: u32 in
     kbind (argstr 0 MAXPATH) (\<lambda>path'.
     case path' of None \<Rightarrow> kret neg1
     | Some path \<Rightarrow>
     kbind begin_op (\<lambda>_.
     kbind (open_inode path omode) (\<lambda>r.
     case r of None \<Rightarrow> kbind end_op (\<lambda>_. kret neg1)
     | Some ip \<Rightarrow>
     kbind (get_inode ip) (\<lambda>x.
     if i_type x = T_DEVICE \<and> (sint (i_major x) < 0 \<or> sint (i_major x) \<ge> int NDEV) then open_fail ip
     else
     kbind filealloc (\<lambda>f'.
     case f' of None \<Rightarrow> open_fail ip
     | Some f \<Rightarrow>
     kbind (fdalloc f) (\<lambda>fd.
     if fd < 0 then kbind (fileclose f) (\<lambda>_. open_fail ip)
     else kbind (kseq [
       (if i_type x = T_DEVICE then kmod (upd_file f (\<lambda>y. y\<lparr>f_type := FD_DEVICE, f_major := i_major x\<rparr>))
        else kmod (upd_file f (\<lambda>y. y\<lparr>f_type := FD_INODE, f_off := 0\<rparr>))),
       kmod (upd_file f (\<lambda>y. y\<lparr>f_ip := ip, f_readable := (omode AND O_WRONLY = 0),
         f_writable := (omode AND O_WRONLY \<noteq> 0 \<or> omode AND O_RDWR \<noteq> 0)\<rparr>)),
       kwhen (omode AND O_TRUNC \<noteq> 0 \<and> i_type x = T_FILE) (itrunc ip),
       iunlock ip,
       end_op]) (\<lambda>_. kret (ret64 fd)))))))))"

definition sys_mkdir :: "addr K" where
  "sys_mkdir =
     kbind begin_op (\<lambda>_.
     kbind (argstr 0 MAXPATH) (\<lambda>path.
     kbind (case path of None \<Rightarrow> kret None | Some s \<Rightarrow> create s T_DIR 0 0) (\<lambda>r.
     case r of
       None \<Rightarrow> kbind end_op (\<lambda>_. kret neg1)
     | Some ip \<Rightarrow> kbind (kseq [iunlockput ip, end_op]) (\<lambda>_. kret 0))))"

definition sys_mknod :: "addr K" where
  "sys_mknod =
     kbind begin_op (\<lambda>_.
     kbind (argint 1) (\<lambda>major.
     kbind (argint 2) (\<lambda>minor.
     kbind (argstr 0 MAXPATH) (\<lambda>path.
     kbind (case path of None \<Rightarrow> kret None | Some s \<Rightarrow> create s T_DEVICE (word_of_int major) (word_of_int minor)) (\<lambda>r.
     case r of
       None \<Rightarrow> kbind end_op (\<lambda>_. kret neg1)
     | Some ip \<Rightarrow> kbind (kseq [iunlockput ip, end_op]) (\<lambda>_. kret 0))))))"

definition sys_chdir :: "addr K" where
  "sys_chdir =
     kbind curproc (\<lambda>p.
     kbind begin_op (\<lambda>_.
     kbind (argstr 0 MAXPATH) (\<lambda>path.
     kbind (case path of None \<Rightarrow> kret None | Some s \<Rightarrow> namei s) (\<lambda>r.
     case r of
       None \<Rightarrow> kbind end_op (\<lambda>_. kret neg1)
     | Some ip \<Rightarrow>
         kbind (ilock ip) (\<lambda>_.
         kbind (get_inode ip) (\<lambda>x.
         if i_type x \<noteq> T_DIR then kbind (kseq [iunlockput ip, end_op]) (\<lambda>_. kret neg1)
         else kbind (kseq [
           iunlock ip,
           kbind (get_proc p) (\<lambda>q. kbind (deref (p_cwd q)) iput),
           end_op,
           kmod (upd_proc p (\<lambda>q. q\<lparr>p_cwd := Some ip\<rparr>))]) (\<lambda>_. kret 0)))))))"

text \<open>
  The loop of \<open>sys_exec\<close> over the user's argument vector. A page is allocated for each string; the list \<open>pages\<close> has
  those allocated so far with the string read into each. The loop is left with the strings, or nothing for \<open>bad\<close>.
\<close>

definition exec_args_step :: "addr \<Rightarrow> (addr \<times> byte list) list \<Rightarrow>
    ((addr \<times> byte list) list + bool \<times> (addr \<times> byte list) list) K" where
  "exec_args_step uargv pages =
     (let i = length pages in
      if i \<ge> MAXARG then kret (Inr (False, pages))
      else kbind (fetchaddr (uargv + 8 * of_nat i)) (\<lambda>r.
        case r of None \<Rightarrow> kret (Inr (False, pages))
        | Some uarg \<Rightarrow>
        if uarg = 0 then kret (Inr (True, pages))
        else kbind kalloc (\<lambda>pg.
          if pg = 0 then kret (Inr (False, pages))
          else kbind (fetchstr uarg (unat PGSIZE)) (\<lambda>s.
            case s of
              None \<Rightarrow> kret (Inr (False, pages @ [(pg, [])]))
            | Some bs \<Rightarrow> kbind (kwrite pg (bs @ [0])) (\<lambda>_. kret (Inl (pages @ [(pg, bs)])))))))"

definition sys_exec :: "addr K" where
  "sys_exec =
     kbind (argaddr 1) (\<lambda>uargv.
     kbind (argstr 0 MAXPATH) (\<lambda>path'.
     case path' of None \<Rightarrow> kret neg1
     | Some path \<Rightarrow>
     kbind (kloop (exec_args_step uargv) []) (\<lambda>(ok, pages).
     kbind (if ok then exec path (map snd pages) else kret (- 1)) (\<lambda>r.
     kbind (kfor (map fst pages) kfree) (\<lambda>_. kret (ret64 r))))))"

definition sys_pipe :: "addr K" where
  "sys_pipe =
     kbind curproc (\<lambda>p.
     kbind (argaddr 0) (\<lambda>fdarray.
     kbind pipealloc (\<lambda>(r, rf', wf').
     if r < 0 then kret neg1
     else kbind (deref rf') (\<lambda>rf. kbind (deref wf') (\<lambda>wf.
       let close_both = kseq [fileclose rf, fileclose wf] in
       kbind (fdalloc rf) (\<lambda>fd0.
       kbind (if fd0 < 0 then kret (- 1) else fdalloc wf) (\<lambda>fd1.
       if fd0 < 0 \<or> fd1 < 0
       then kbind (kseq [kwhen (fd0 \<ge> 0) (set_ofile p (nat fd0) None), close_both]) (\<lambda>_. kret neg1)
       else kbind (get_proc p) (\<lambda>q.
         kbind (copyout (p_pagetable q) fdarray (to_le 4 (word_of_int fd0 :: u32))) (\<lambda>r.
         kbind (if r < 0 then kret r else copyout (p_pagetable q) (fdarray + 4) (to_le 4 (word_of_int fd1 :: u32))) (\<lambda>r.
         if r < 0
         then kbind (kseq [set_ofile p (nat fd0) None, set_ofile p (nat fd1) None, close_both]) (\<lambda>_. kret neg1)
         else kret 0))))))))))"

section \<open>Dispatch (syscall.c)\<close>

definition syscalls :: "addr K list" where
  "syscalls = [
     sys_fork, sys_exit, sys_wait, sys_pipe, sys_read, sys_kill, sys_exec, sys_fstat, sys_chdir, sys_dup, sys_getpid,
     sys_sbrk, sys_sleep, sys_uptime, sys_open, sys_write, sys_mknod, sys_unlink, sys_link, sys_mkdir, sys_close,
     sys_spoon, sys_thread_create, sys_thread_join, sys_thread_exit]"

definition syscall :: "unit K" where
  "syscall =
     kbind curproc (\<lambda>p.
     kbind (get_tf p tf_a7) (\<lambda>a7.
     let num = sint (ucast a7 :: u32) in
     if num > 0 \<and> num < int (length syscalls) + 1
     then kbind (syscalls ! nat (num - 1)) (\<lambda>r. set_tf p tf_a0 r)
     else kbind (get_proc p) (\<lambda>q. kseq [
       printf (''%d %s: unknown sys call %d'' @ newline) [VInt (p_pid q), VStr (Some (p_name q)), VInt num],
       set_tf p tf_a0 neg1])))"

end
