(* ===== verification/Virtio.thy ===== *)
theory Virtio
  imports Bio Vm
begin

text \<open>
  The driver of the virtio disk (\<open>kernel/virtio_disk.c\<close>, \<open>kernel/virtio.h\<close>). A request is a chain of three descriptors
  (the command, the data, a status byte) whose head the driver puts into the available ring; the device answers in the used
  ring and raises an interrupt.

  The theory \<open>Diskqueue\<close> shows what the driver guarantees, given a device that follows the virtio specification.
\<close>

section \<open>The device's registers and constants (virtio.h)\<close>

definition VIRTIO_MMIO_MAGIC_VALUE :: nat where "VIRTIO_MMIO_MAGIC_VALUE = 0x000"
definition VIRTIO_MMIO_VERSION :: nat where "VIRTIO_MMIO_VERSION = 0x004"
definition VIRTIO_MMIO_DEVICE_ID :: nat where "VIRTIO_MMIO_DEVICE_ID = 0x008"
definition VIRTIO_MMIO_VENDOR_ID :: nat where "VIRTIO_MMIO_VENDOR_ID = 0x00c"
definition VIRTIO_MMIO_DEVICE_FEATURES :: nat where "VIRTIO_MMIO_DEVICE_FEATURES = 0x010"
definition VIRTIO_MMIO_DRIVER_FEATURES :: nat where "VIRTIO_MMIO_DRIVER_FEATURES = 0x020"
definition VIRTIO_MMIO_QUEUE_SEL :: nat where "VIRTIO_MMIO_QUEUE_SEL = 0x030"
definition VIRTIO_MMIO_QUEUE_NUM_MAX :: nat where "VIRTIO_MMIO_QUEUE_NUM_MAX = 0x034"
definition VIRTIO_MMIO_QUEUE_NUM :: nat where "VIRTIO_MMIO_QUEUE_NUM = 0x038"
definition VIRTIO_MMIO_QUEUE_READY :: nat where "VIRTIO_MMIO_QUEUE_READY = 0x044"
definition VIRTIO_MMIO_QUEUE_NOTIFY :: nat where "VIRTIO_MMIO_QUEUE_NOTIFY = 0x050"
definition VIRTIO_MMIO_INTERRUPT_STATUS :: nat where "VIRTIO_MMIO_INTERRUPT_STATUS = 0x060"
definition VIRTIO_MMIO_INTERRUPT_ACK :: nat where "VIRTIO_MMIO_INTERRUPT_ACK = 0x064"
definition VIRTIO_MMIO_STATUS :: nat where "VIRTIO_MMIO_STATUS = 0x070"
definition VIRTIO_MMIO_QUEUE_DESC_LOW :: nat where "VIRTIO_MMIO_QUEUE_DESC_LOW = 0x080"
definition VIRTIO_MMIO_QUEUE_DESC_HIGH :: nat where "VIRTIO_MMIO_QUEUE_DESC_HIGH = 0x084"
definition VIRTIO_MMIO_DRIVER_DESC_LOW :: nat where "VIRTIO_MMIO_DRIVER_DESC_LOW = 0x090"
definition VIRTIO_MMIO_DRIVER_DESC_HIGH :: nat where "VIRTIO_MMIO_DRIVER_DESC_HIGH = 0x094"
definition VIRTIO_MMIO_DEVICE_DESC_LOW :: nat where "VIRTIO_MMIO_DEVICE_DESC_LOW = 0x0a0"
definition VIRTIO_MMIO_DEVICE_DESC_HIGH :: nat where "VIRTIO_MMIO_DEVICE_DESC_HIGH = 0x0a4"

definition VIRTIO_CONFIG_S_ACKNOWLEDGE :: u32 where "VIRTIO_CONFIG_S_ACKNOWLEDGE = 1"
definition VIRTIO_CONFIG_S_DRIVER :: u32 where "VIRTIO_CONFIG_S_DRIVER = 2"
definition VIRTIO_CONFIG_S_DRIVER_OK :: u32 where "VIRTIO_CONFIG_S_DRIVER_OK = 4"
definition VIRTIO_CONFIG_S_FEATURES_OK :: u32 where "VIRTIO_CONFIG_S_FEATURES_OK = 8"

definition VIRTIO_BLK_F_RO :: nat where "VIRTIO_BLK_F_RO = 5"
definition VIRTIO_BLK_F_SCSI :: nat where "VIRTIO_BLK_F_SCSI = 7"
definition VIRTIO_BLK_F_CONFIG_WCE :: nat where "VIRTIO_BLK_F_CONFIG_WCE = 11"
definition VIRTIO_BLK_F_MQ :: nat where "VIRTIO_BLK_F_MQ = 12"
definition VIRTIO_F_ANY_LAYOUT :: nat where "VIRTIO_F_ANY_LAYOUT = 27"
definition VIRTIO_RING_F_INDIRECT_DESC :: nat where "VIRTIO_RING_F_INDIRECT_DESC = 28"
definition VIRTIO_RING_F_EVENT_IDX :: nat where "VIRTIO_RING_F_EVENT_IDX = 29"

definition NUM :: nat where "NUM = 8"
definition VRING_DESC_F_NEXT :: u16 where "VRING_DESC_F_NEXT = 1"
definition VRING_DESC_F_WRITE :: u16 where "VRING_DESC_F_WRITE = 2"
definition VIRTIO_BLK_T_IN :: u32 where "VIRTIO_BLK_T_IN = 0"
definition VIRTIO_BLK_T_OUT :: u32 where "VIRTIO_BLK_T_OUT = 1"

text \<open>Reading and writing a register: the driver's writes are remembered, and what a read gives is what is there.\<close>

definition get_R :: "nat \<Rightarrow> u32 K" where "get_R r = kget (\<lambda>s. mmio (vdisk s) r)"
definition set_R :: "nat \<Rightarrow> u32 \<Rightarrow> unit K" where
  "set_R r v = kmod (upd_vdisk (\<lambda>d. d\<lparr>mmio := (mmio d)(r := v)\<rparr>))"

section \<open>Setting up the device\<close>

definition driver_features :: "u32 \<Rightarrow> u32" where
  "driver_features f = fold (\<lambda>b f. f AND NOT (push_bit b 1))
     [VIRTIO_BLK_F_RO, VIRTIO_BLK_F_SCSI, VIRTIO_BLK_F_CONFIG_WCE, VIRTIO_BLK_F_MQ, VIRTIO_F_ANY_LAYOUT,
      VIRTIO_RING_F_EVENT_IDX, VIRTIO_RING_F_INDIRECT_DESC] f"

definition virtio_disk_init :: "unit K" where
  "virtio_disk_init =
     kbind (kseq [
       initlock VdiskLock ''virtio_disk'',
       kbind (get_R VIRTIO_MMIO_MAGIC_VALUE) (\<lambda>mg. kbind (get_R VIRTIO_MMIO_VERSION) (\<lambda>v.
       kbind (get_R VIRTIO_MMIO_DEVICE_ID) (\<lambda>d. kbind (get_R VIRTIO_MMIO_VENDOR_ID) (\<lambda>vn.
         kwhen (mg \<noteq> 0x74726976 \<or> v \<noteq> 2 \<or> d \<noteq> 2 \<or> vn \<noteq> 0x554d4551) (panic ''could not find virtio disk''))))),
       set_R VIRTIO_MMIO_STATUS 0,
       set_R VIRTIO_MMIO_STATUS VIRTIO_CONFIG_S_ACKNOWLEDGE,
       set_R VIRTIO_MMIO_STATUS (VIRTIO_CONFIG_S_ACKNOWLEDGE OR VIRTIO_CONFIG_S_DRIVER),
       kbind (get_R VIRTIO_MMIO_DEVICE_FEATURES) (\<lambda>f. set_R VIRTIO_MMIO_DRIVER_FEATURES (driver_features f)),
       set_R VIRTIO_MMIO_STATUS (VIRTIO_CONFIG_S_ACKNOWLEDGE OR VIRTIO_CONFIG_S_DRIVER OR VIRTIO_CONFIG_S_FEATURES_OK)]) (\<lambda>_.
     kbind (get_R VIRTIO_MMIO_STATUS) (\<lambda>status. kseq [
       kwhen (status AND VIRTIO_CONFIG_S_FEATURES_OK = 0) (panic ''virtio disk FEATURES_OK unset''),
       set_R VIRTIO_MMIO_QUEUE_SEL 0,
       kbind (get_R VIRTIO_MMIO_QUEUE_READY) (\<lambda>r. kwhen (r \<noteq> 0) (panic ''virtio disk should not be ready'')),
       kbind (get_R VIRTIO_MMIO_QUEUE_NUM_MAX) (\<lambda>m. kseq [
         kwhen (m = 0) (panic ''virtio disk has no queue 0''),
         kwhen (m < of_nat NUM) (panic ''virtio disk max queue too short'')]),
       kbind kalloc (\<lambda>a. kmod (upd_vdisk (\<lambda>d. d\<lparr>desc_page := a\<rparr>))),
       kbind kalloc (\<lambda>a. kmod (upd_vdisk (\<lambda>d. d\<lparr>avail_page := a\<rparr>))),
       kbind kalloc (\<lambda>a. kmod (upd_vdisk (\<lambda>d. d\<lparr>used_page := a\<rparr>))),
       kbind (kget vdisk) (\<lambda>d. kseq [
         kwhen (desc_page d = 0 \<or> avail_page d = 0 \<or> used_page d = 0) (panic ''virtio disk kalloc''),
         kmod (upd_vdisk (\<lambda>d. d\<lparr>vq_desc := (\<lambda>_. \<lparr>vd_addr = DmaNull, vd_len = 0, vd_flags = 0, vd_next = 0\<rparr>)\<rparr>)),
         kmod (upd_vdisk (\<lambda>d. d\<lparr>avail_idx := 0, avail_ring := (\<lambda>_. 0)\<rparr>)),
         kmod (upd_vdisk (\<lambda>d. d\<lparr>dev_used_idx := 0, used_ring := (\<lambda>_. 0)\<rparr>)),
         set_R VIRTIO_MMIO_QUEUE_NUM (of_nat NUM),
         set_R VIRTIO_MMIO_QUEUE_DESC_LOW (ucast (desc_page d)),
         set_R VIRTIO_MMIO_QUEUE_DESC_HIGH (ucast (drop_bit 32 (desc_page d))),
         set_R VIRTIO_MMIO_DRIVER_DESC_LOW (ucast (avail_page d)),
         set_R VIRTIO_MMIO_DRIVER_DESC_HIGH (ucast (drop_bit 32 (avail_page d))),
         set_R VIRTIO_MMIO_DEVICE_DESC_LOW (ucast (used_page d)),
         set_R VIRTIO_MMIO_DEVICE_DESC_HIGH (ucast (drop_bit 32 (used_page d)))]),
       set_R VIRTIO_MMIO_QUEUE_READY 1,
       kfor [0..<NUM] (\<lambda>i. kmod (upd_vdisk (\<lambda>d. d\<lparr>vfree := (vfree d)(i := True)\<rparr>))),
       set_R VIRTIO_MMIO_STATUS (status OR VIRTIO_CONFIG_S_DRIVER_OK)]))"

section \<open>Descriptors\<close>

definition alloc_desc :: "nat option K" where
  "alloc_desc =
     kbind (kget vdisk) (\<lambda>d.
     case first_index (vfree d) NUM of
       None \<Rightarrow> kret None
     | Some i \<Rightarrow> kbind (kmod (upd_vdisk (\<lambda>d. d\<lparr>vfree := (vfree d)(i := False)\<rparr>))) (\<lambda>_. kret (Some i)))"

definition clear_desc :: "nat \<Rightarrow> vdisk \<Rightarrow> vdisk" where
  "clear_desc i d = d\<lparr>vq_desc := (vq_desc d)(i := \<lparr>vd_addr = DmaNull, vd_len = 0, vd_flags = 0, vd_next = 0\<rparr>),
     vfree := (vfree d)(i := True)\<rparr>"

definition free_desc :: "nat \<Rightarrow> unit K" where
  "free_desc i =
     kbind (kget (\<lambda>s. vfree (vdisk s) i)) (\<lambda>f. kseq [
       kwhen (i \<ge> NUM) (panic ''free_desc 1''),
       kwhen f (panic ''free_desc 2''),
       kmod (upd_vdisk (clear_desc i)),
       wakeup (Some ChDiskFree)])"

definition free_chain :: "nat \<Rightarrow> unit K" where
  "free_chain = kloop (\<lambda>i.
     kbind (kget (\<lambda>s. vq_desc (vdisk s) i)) (\<lambda>x.
     kbind (free_desc i) (\<lambda>_.
     kret (if vd_flags x AND VRING_DESC_F_NEXT \<noteq> 0 then Inl (unat (vd_next x)) else Inr ()))))"

text \<open>The loop of \<open>alloc3_desc\<close>, with the descriptors it has got so far.\<close>

primrec alloc_descs :: "nat \<Rightarrow> nat list \<Rightarrow> nat list option K" where
  "alloc_descs 0 idx = kret (Some idx)"
| "alloc_descs (Suc n) idx =
     kbind alloc_desc (\<lambda>r.
     case r of
       None \<Rightarrow> kbind (kfor idx free_desc) (\<lambda>_. kret None)
     | Some i \<Rightarrow> alloc_descs n (idx @ [i]))"

definition alloc3_desc :: "nat list option K" where
  "alloc3_desc = alloc_descs 3 []"

section \<open>Requests\<close>

definition set_desc :: "nat \<Rightarrow> dma \<Rightarrow> u32 \<Rightarrow> u16 \<Rightarrow> u16 \<Rightarrow> vdisk \<Rightarrow> vdisk" where
  "set_desc i a l f n d = d\<lparr>vq_desc := (vq_desc d)(i := \<lparr>vd_addr = a, vd_len = l, vd_flags = f, vd_next = n\<rparr>)\<rparr>"

text \<open>The three descriptors of a request, its command, and the entry in the available ring.\<close>

definition format_request :: "nat \<Rightarrow> bool \<Rightarrow> addr \<Rightarrow> nat \<Rightarrow> nat \<Rightarrow> nat \<Rightarrow> vdisk \<Rightarrow> vdisk" where
  "format_request b write sector i0 i1 i2 d =
     (let d = d\<lparr>vops := (vops d)(i0 := \<lparr>vr_type = (if write then VIRTIO_BLK_T_OUT else VIRTIO_BLK_T_IN), vr_reserved = 0,
            vr_sector = sector\<rparr>)\<rparr>;
          d = set_desc i0 (DmaOp i0) 16 VRING_DESC_F_NEXT (of_nat i1) d;
          d = set_desc i1 (DmaData b) (of_nat BSIZE) ((if write then 0 else VRING_DESC_F_WRITE) OR VRING_DESC_F_NEXT) (of_nat i2) d;
          d = d\<lparr>info_status := (info_status d)(i0 := 0xff)\<rparr>
      in set_desc i2 (DmaStatus i0) 1 VRING_DESC_F_WRITE 0 d)"

definition post_request :: "nat \<Rightarrow> nat \<Rightarrow> vdisk \<Rightarrow> vdisk" where
  "post_request b i0 d =
     (let d = d\<lparr>info_b := (info_b d)(i0 := Some b)\<rparr>;
          d = d\<lparr>avail_ring := (avail_ring d)(unat (avail_idx d) mod NUM := of_nat i0)\<rparr>
      in d\<lparr>avail_idx := avail_idx d + 1\<rparr>)"

definition virtio_disk_rw :: "nat \<Rightarrow> bool \<Rightarrow> unit K" where
  "virtio_disk_rw b write =
     kbind (kget (\<lambda>s. b_blockno (bufs s b))) (\<lambda>bn.
     let sector = ucast (bn * of_nat (BSIZE div 512)) :: addr in
     kbind (acquire VdiskLock) (\<lambda>_.
     kbind (kloop (\<lambda>_.
       kbind alloc3_desc (\<lambda>r.
       case r of
         Some idx \<Rightarrow> kret (Inr idx)
       | None \<Rightarrow> kbind (sleep ChDiskFree VdiskLock) (\<lambda>_. kret (Inl ())))) ()) (\<lambda>idx.
     let i0 = idx ! 0; i1 = idx ! 1; i2 = idx ! 2 in kseq [
       kmod (upd_vdisk (format_request b write sector i0 i1 i2)),
       kmod (upd_buf b (\<lambda>x. x\<lparr>b_disk := True\<rparr>)),
       kmod (upd_vdisk (post_request b i0)),
       set_R VIRTIO_MMIO_QUEUE_NOTIFY 0,
       kloop (\<lambda>_.
         kbind (kget (\<lambda>s. b_disk (bufs s b))) (\<lambda>busy.
         if busy then kbind (sleep (ChBuf b) VdiskLock) (\<lambda>_. kret (Inl ())) else kret (Inr ()))) (),
       kmod (upd_vdisk (\<lambda>d. d\<lparr>info_b := (info_b d)(i0 := None)\<rparr>)),
       free_chain i0,
       release VdiskLock])))"

definition virtio_disk_intr :: "unit K" where
  "virtio_disk_intr = kseq [
     acquire VdiskLock,
     kbind (get_R VIRTIO_MMIO_INTERRUPT_STATUS) (\<lambda>v. set_R VIRTIO_MMIO_INTERRUPT_ACK (v AND 0x3)),
     kloop (\<lambda>_.
       kbind (kget vdisk) (\<lambda>d.
       if used_idx d = dev_used_idx d then kret (Inr ())
       else let id = unat (used_ring d (unat (used_idx d) mod NUM)) in
         if info_status d id \<noteq> 0 then panic ''virtio_disk_intr status''
         else case info_b d id of
           None \<Rightarrow> panic ''null pointer''
         | Some b \<Rightarrow> kbind (kseq [
             kmod (upd_buf b (\<lambda>x. x\<lparr>b_disk := False\<rparr>)),
             wakeup (Some (ChBuf b)),
             kmod (upd_vdisk (\<lambda>d. d\<lparr>used_idx := used_idx d + 1\<rparr>))]) (\<lambda>_. kret (Inl ())))) (),
     release VdiskLock]"

end
