(* ===== verification/Trap.thy ===== *)
theory Trap
  imports Syscall Virtio
begin

text \<open>
  Traps (\<open>kernel/trap.c\<close>), the interrupt controller (\<open>kernel/plic.c\<close>) and \<open>forkret\<close> of \<open>kernel/proc.c\<close>: how the
  kernel is entered from user space and from its own code, how device and timer interrupts are served, and how it returns to
  user space.

  The interrupt-enable bit of \<open>sstatus\<close> is the field \<open>sie\<close> of the state; reading and writing the register joins the
  two. \<open>usertrapret\<close> ends in a jump to \<open>userret\<close> of trampoline.S: its result is the address jumped to and the
  argument passed, the value for \<open>satp\<close>.
\<close>

section \<open>Registers (riscv.h, memlayout.h)\<close>

definition SSTATUS_SPP :: addr where "SSTATUS_SPP = push_bit 8 1"
definition SSTATUS_SPIE :: addr where "SSTATUS_SPIE = push_bit 5 1"
definition SSTATUS_SIE :: addr where "SSTATUS_SIE = push_bit 1 1"

definition read_sstatus :: "addr K" where
  "read_sstatus = kget (\<lambda>s. if sie s then r_sstatus (csr s) OR SSTATUS_SIE else r_sstatus (csr s) AND NOT SSTATUS_SIE)"

definition w_sstatus :: "addr \<Rightarrow> unit K" where
  "w_sstatus x = kmod (\<lambda>s. s\<lparr>csr := (csr s)\<lparr>r_sstatus := x\<rparr>, sie := (x AND SSTATUS_SIE \<noteq> 0)\<rparr>)"

definition w_stvec :: "addr \<Rightarrow> unit K" where "w_stvec x = kmod (\<lambda>s. s\<lparr>csr := (csr s)\<lparr>r_stvec := x\<rparr>\<rparr>)"
definition w_sepc :: "addr \<Rightarrow> unit K" where "w_sepc x = kmod (\<lambda>s. s\<lparr>csr := (csr s)\<lparr>r_sepc := x\<rparr>\<rparr>)"
definition w_sip :: "addr \<Rightarrow> unit K" where "w_sip x = kmod (\<lambda>s. s\<lparr>csr := (csr s)\<lparr>r_sip := x\<rparr>\<rparr>)"

definition UART0_IRQ :: nat where "UART0_IRQ = 10"
definition VIRTIO0_IRQ :: nat where "VIRTIO0_IRQ = 1"
definition PLIC_SENABLE :: "nat \<Rightarrow> addr" where "PLIC_SENABLE h = PLIC + 0x2080 + of_nat h * 0x100"
definition PLIC_SPRIORITY :: "nat \<Rightarrow> addr" where "PLIC_SPRIORITY h = PLIC + 0x201000 + of_nat h * 0x2000"
definition PLIC_SCLAIM :: "nat \<Rightarrow> addr" where "PLIC_SCLAIM h = PLIC + 0x201004 + of_nat h * 0x2000"

section \<open>The interrupt controller (plic.c)\<close>

text \<open>
  The controller's registers are the field \<open>plic\<close>. Reading the claim register has an effect: it answers with the
  next pending interrupt, which is then no longer pending, or with 0.
\<close>

definition plic_write :: "addr \<Rightarrow> u32 \<Rightarrow> unit K" where
  "plic_write a v = kmod (\<lambda>s. s\<lparr>plic := (plic s)(a := v)\<rparr>)"

definition plicinit :: "unit K" where
  "plicinit = kseq [
     plic_write (PLIC + of_nat UART0_IRQ * 4) 1,
     plic_write (PLIC + of_nat VIRTIO0_IRQ * 4) 1]"

definition plicinithart :: "unit K" where
  "plicinithart =
     kbind cpuid (\<lambda>h. kseq [
       plic_write (PLIC_SENABLE h) (push_bit UART0_IRQ 1 OR push_bit VIRTIO0_IRQ 1),
       plic_write (PLIC_SPRIORITY h) 0])"

definition plic_claim :: "nat K" where
  "plic_claim =
     kbind (kget irqs) (\<lambda>is.
     case is of
       [] \<Rightarrow> kret 0
     | irq # rest \<Rightarrow> kbind (kmod (\<lambda>s. s\<lparr>irqs := rest\<rparr>)) (\<lambda>_. kret irq))"

definition plic_complete :: "nat \<Rightarrow> unit K" where
  "plic_complete irq = kbind cpuid (\<lambda>h. plic_write (PLIC_SCLAIM h) (of_nat irq))"

section \<open>Interrupts (trap.c)\<close>

definition trapinit :: "unit K" where "trapinit = initlock TicksLock ''time''"

definition trapinithart :: "unit K" where
  "trapinithart = kbind (kget syms) (\<lambda>sy. w_stvec (sym_kernelvec sy))"

definition clockintr :: "unit K" where
  "clockintr = kseq [
     acquire TicksLock,
     kmod (\<lambda>s. s\<lparr>ticks := ticks s + 1\<rparr>),
     wakeup (Some ChTicks),
     release TicksLock]"

text \<open>The answer of \<open>devintr\<close>: 2 for the timer, 1 for another device, 0 when the cause is not an interrupt it knows.\<close>

definition devintr_external :: "unit K" where
  "devintr_external =
     kbind plic_claim (\<lambda>irq. kseq [
       (if irq = UART0_IRQ then uartintr
        else if irq = VIRTIO0_IRQ then virtio_disk_intr
        else kwhen (irq \<noteq> 0) (printf (''unexpected interrupt irq=%d'' @ newline) [VInt (int irq)])),
       kwhen (irq \<noteq> 0) (plic_complete irq)])"

definition devintr_timer :: "unit K" where
  "devintr_timer =
     kbind cpuid (\<lambda>h. kseq [
       kwhen (h = 0) clockintr,
       kbind (kget (\<lambda>s. r_sip (csr s))) (\<lambda>x. w_sip (x AND NOT 2))])"

definition devintr :: "int K" where
  "devintr =
     kbind (kget (\<lambda>s. r_scause (csr s))) (\<lambda>scause.
     if scause AND 0x8000000000000000 \<noteq> 0 \<and> scause AND 0xff = 9
     then kbind devintr_external (\<lambda>_. kret 1)
     else if scause = 0x8000000000000001
     then kbind devintr_timer (\<lambda>_. kret 2)
     else kret 0)"

text \<open>Give up the processor if a process runs on it (\<open>myproc()\<close> is the same both times it is asked, interrupts being off).\<close>

definition kerneltrap_yield :: "unit K" where
  "kerneltrap_yield =
     kbind myproc (\<lambda>m.
     case m of
       None \<Rightarrow> kret ()
     | Some p \<Rightarrow> kbind (kget (\<lambda>s. p_state (procs s p))) (\<lambda>st. kwhen (st = RUNNING) yield))"

definition kerneltrap :: "unit K" where
  "kerneltrap =
     kbind (kget (\<lambda>s. r_sepc (csr s))) (\<lambda>sepc.
     kbind read_sstatus (\<lambda>sstatus.
     kbind (kget (\<lambda>s. r_scause (csr s))) (\<lambda>scause.
     if sstatus AND SSTATUS_SPP = 0 then panic ''kerneltrap: not from supervisor mode''
     else kbind intr_get (\<lambda>on.
     if on then panic ''kerneltrap: interrupts enabled''
     else kbind devintr (\<lambda>which_dev.
     if which_dev = 0
     then kbind (kget csr) (\<lambda>c. kbind (kseq [
       printf (''scause %p'' @ newline) [VPtr scause],
       printf (''sepc=%p stval=%p'' @ newline) [VPtr (r_sepc c), VPtr (r_stval c)]]) (\<lambda>_. panic ''kerneltrap''))
     else kseq [
       kwhen (which_dev = 2) kerneltrap_yield,
       w_sepc sepc,
       w_sstatus sstatus])))))"

section \<open>User space (trap.c, proc.c)\<close>

definition usertrapret :: "(addr \<times> addr) K" where
  "usertrapret =
     kbind curproc (\<lambda>p.
     kbind (kget syms) (\<lambda>sy.
     kbind (kseq [
       intr_off,
       w_stvec (TRAMPOLINE + (sym_uservec sy - sym_trampoline sy)),
       kbind (kget (\<lambda>s. r_satp (csr s))) (set_tf p tf_kernel_satp),
       kbind (get_proc p) (\<lambda>q. set_tf p tf_kernel_sp (p_kstack q + PGSIZE)),
       set_tf p tf_kernel_trap (sym_usertrap sy),
       kbind (kget hart) (\<lambda>h. set_tf p tf_kernel_hartid (of_nat h)),
       kbind read_sstatus (\<lambda>x. w_sstatus ((x AND NOT SSTATUS_SPP) OR SSTATUS_SPIE)),
       kbind (get_tf p tf_epc) w_sepc]) (\<lambda>_.
     kbind (get_proc p) (\<lambda>q.
     kret (TRAMPOLINE + (sym_userret sy - sym_trampoline sy), MAKE_SATP (p_pagetable q))))))"

text \<open>The middle of \<open>usertrap\<close>: a system call, an interrupt, or an exception that kills the process.\<close>

definition usertrap_serve :: "nat \<Rightarrow> int K" where
  "usertrap_serve p =
     kbind (kget (\<lambda>s. r_scause (csr s))) (\<lambda>scause.
     if scause = 8
     then kbind (kseq [
       kbind (killed p) (\<lambda>k. kwhen (k \<noteq> 0) (exit (- 1))),
       kbind (get_tf p tf_epc) (\<lambda>pc. set_tf p tf_epc (pc + 4)),
       intr_on,
       syscall]) (\<lambda>_. kret 0)
     else kbind devintr (\<lambda>which_dev.
       if which_dev \<noteq> 0 then kret which_dev
       else kbind (kget csr) (\<lambda>c. kbind (get_proc p) (\<lambda>q. kbind (kseq [
         printf (''usertrap(): unexpected scause %p pid=%d'' @ newline) [VPtr (r_scause c), VInt (p_pid q)],
         printf (''            sepc=%p stval=%p'' @ newline) [VPtr (r_sepc c), VPtr (r_stval c)],
         setkilled p]) (\<lambda>_. kret 0)))))"

definition usertrap :: "(addr \<times> addr) K" where
  "usertrap =
     kbind read_sstatus (\<lambda>sstatus.
     if sstatus AND SSTATUS_SPP \<noteq> 0 then panic ''usertrap: not from user mode''
     else kbind (kget syms) (\<lambda>sy.
     kbind (w_stvec (sym_kernelvec sy)) (\<lambda>_.
     kbind curproc (\<lambda>p.
     kbind (kbind (kget (\<lambda>s. r_sepc (csr s))) (set_tf p tf_epc)) (\<lambda>_.
     kbind (usertrap_serve p) (\<lambda>which_dev.
     kbind (kseq [
       kbind (killed p) (\<lambda>k. kwhen (k \<noteq> 0) (exit (- 1))),
       kwhen (which_dev = 2) yield]) (\<lambda>_.
     usertrapret)))))))"

definition forkret :: "(addr \<times> addr) K" where
  "forkret =
     kbind (kseq [
       kbind curproc (\<lambda>p. release (ProcLock p)),
       kbind (kget forkret_first) (\<lambda>first. kwhen first (kseq [
         kmod (\<lambda>s. s\<lparr>forkret_first := False\<rparr>),
         fsinit ROOTDEV]))]) (\<lambda>_.
     usertrapret)"

end
