(* ===== verification/Main_Start.thy ===== *)
theory Main_Start
  imports Trap
begin

text \<open>
  Booting: \<open>kernel/start.c\<close>, which runs in machine mode on every hart before \<open>main\<close>, and \<open>kernel/main.c\<close>. The
  registers of machine mode are a record of their own, since nothing later in the kernel uses them. The argument
  \<open>run\<close> of \<open>main\<close> is that of the scheduler it ends in.
\<close>

section \<open>Machine mode (start.c)\<close>

definition MSTATUS_MPP_MASK :: addr where "MSTATUS_MPP_MASK = push_bit 11 3"
definition MSTATUS_MPP_S :: addr where "MSTATUS_MPP_S = push_bit 11 1"
definition MSTATUS_MIE :: addr where "MSTATUS_MIE = push_bit 3 1"
definition SIE_SEIE :: addr where "SIE_SEIE = push_bit 9 1"
definition SIE_STIE :: addr where "SIE_STIE = push_bit 5 1"
definition SIE_SSIE :: addr where "SIE_SSIE = push_bit 1 1"
definition MIE_MTIE :: addr where "MIE_MTIE = push_bit 7 1"
definition CLINT :: addr where "CLINT = 0x2000000"
definition CLINT_MTIMECMP :: "nat \<Rightarrow> addr" where "CLINT_MTIMECMP h = CLINT + 0x4000 + 8 * of_nat h"
definition CLINT_MTIME :: addr where "CLINT_MTIME = CLINT + 0xBFF8"

text \<open>
  The registers of one hart, the words of the interruptor behind the CLINT addresses, and the array
  \<open>timer_scratch\<close>; the addresses of \<open>main\<close>, \<open>timervec\<close> and \<open>timer_scratch\<close> are fixed by the linker.
\<close>

record mstate =
  m_hartid :: nat
  m_status :: addr
  m_epc :: addr
  m_satp :: addr
  m_edeleg :: addr
  m_ideleg :: addr
  m_sie :: addr
  m_pmpaddr0 :: addr
  m_pmpcfg0 :: addr
  m_scratch :: addr
  m_tvec :: addr
  m_ie :: addr
  m_tp :: addr
  m_clint :: "addr \<Rightarrow> addr"
  timer_scratch :: "nat \<Rightarrow> nat \<Rightarrow> addr"
  addr_main :: addr
  addr_timervec :: addr
  addr_scratch :: addr

definition timer_interval :: addr where "timer_interval = 1000000"

definition timerinit :: "mstate \<Rightarrow> mstate" where
  "timerinit m =
     (let h = m_hartid m;
          m = m\<lparr>m_clint := (m_clint m)(CLINT_MTIMECMP h := m_clint m CLINT_MTIME + timer_interval)\<rparr>;
          m = m\<lparr>timer_scratch := (timer_scratch m)(h := (timer_scratch m h)(3 := CLINT_MTIMECMP h, 4 := timer_interval))\<rparr>;
          m = m\<lparr>m_scratch := addr_scratch m + of_nat h * 5 * 8\<rparr>;
          m = m\<lparr>m_tvec := addr_timervec m\<rparr>;
          m = m\<lparr>m_status := m_status m OR MSTATUS_MIE\<rparr>
      in m\<lparr>m_ie := m_ie m OR MIE_MTIE\<rparr>)"

text \<open>\<open>start\<close> up to its last instruction \<open>mret\<close>, which continues at \<open>m_epc\<close> in the mode of \<open>m_status\<close>.\<close>

definition start :: "mstate \<Rightarrow> mstate" where
  "start m =
     (let m = m\<lparr>m_status := (m_status m AND NOT MSTATUS_MPP_MASK) OR MSTATUS_MPP_S\<rparr>;
          m = m\<lparr>m_epc := addr_main m\<rparr>;
          m = m\<lparr>m_satp := 0\<rparr>;
          m = m\<lparr>m_edeleg := 0xffff\<rparr>;
          m = m\<lparr>m_ideleg := 0xffff\<rparr>;
          m = m\<lparr>m_sie := ((m_sie m OR SIE_SEIE) OR SIE_STIE) OR SIE_SSIE\<rparr>;
          m = m\<lparr>m_pmpaddr0 := 0x3fffffffffffff\<rparr>;
          m = m\<lparr>m_pmpcfg0 := 0xf\<rparr>;
          m = timerinit m
      in m\<lparr>m_tp := of_nat (m_hartid m)\<rparr>)"

section \<open>main (main.c)\<close>

definition main_boot :: "unit K" where
  "main_boot = kseq [
     consoleinit,
     printfinit,
     printf newline [],
     printf (''xv6 kernel is booting'' @ newline) [],
     printf newline [],
     kinit,
     kvminit,
     kvminithart,
     procinit,
     trapinit,
     trapinithart,
     plicinit,
     plicinithart,
     binit,
     iinit,
     fileinit,
     virtio_disk_init,
     userinit,
     kmod (\<lambda>s. s\<lparr>started := True\<rparr>)]"

definition main_wait :: "unit K" where
  "main_wait = kloop (\<lambda>_. kbind (kget started) (\<lambda>b. kret (if b then Inr () else Inl ()))) ()"

definition main_other :: "unit K" where
  "main_other = kseq [
     main_wait,
     kbind cpuid (\<lambda>h. printf (''hart %d starting'' @ newline) [VInt (int h)]),
     kvminithart,
     trapinithart,
     plicinithart]"

definition main :: "(nat \<Rightarrow> unit K) \<Rightarrow> unit K" where
  "main run = kseq [
     kbind cpuid (\<lambda>h. if h = 0 then main_boot else main_other),
     scheduler run]"

end
