(* ===== verification/Freemap.thy ===== *)
theory Freemap
  imports Fs
begin

text \<open>
  Block allocation (\<open>balloc\<close>, \<open>bfree\<close>, \<open>bzero\<close> of \<open>kernel/fs.c\<close>) on top of the buffer cache and the log. Inside a
  transaction every metadata update of the file system has one shape: read a block, change its bytes, tell the log,
  release it. The lemma \<open>tx_write\<close> gives the effect of that shape on the abstract cache once and for all; the free map is
  then a set of block numbers, and allocation and freeing act on it as on a set.
\<close>

section \<open>Updates inside a transaction\<close>

definition logged_set :: "logstate \<Rightarrow> u32 set" where
  "logged_set l = lh_block (l_lh l) ` {..<nat (lh_n (l_lh l))}"

text \<open>Process \<open>p\<close> is inside a transaction; logged blocks stay in the cache.\<close>

definition in_trans :: "nat \<Rightarrow> kworld \<Rightarrow> acache \<Rightarrow> bool" where
  "in_trans p s a \<longleftrightarrow> bcrel p s a \<and> 1 \<le> l_outstanding (log s) \<and> 0 \<le> lh_n (l_lh (log s)) \<and>
     (\<forall>n\<in>logged_set (log s). 0 < a_rc a n)"

text \<open>Room in the log for \<open>k\<close> more blocks.\<close>

definition log_room :: "int \<Rightarrow> logstate \<Rightarrow> bool" where
  "log_room k l \<longleftrightarrow> lh_n (l_lh l) + k \<le> LOGSIZE \<and> lh_n (l_lh l) + k \<le> l_size l - 1"

text \<open>A block the process can read: it has not locked it already, and a buffer is available.\<close>

definition readable :: "acache \<Rightarrow> u32 \<Rightarrow> bool" where
  "readable a n \<longleftrightarrow> n \<notin> a_lk a \<and> a_rc a n + 2 < 2 ^ 32 \<and> (0 < a_rc a n \<or> card (a_used a) < NBUF)"

text \<open>The abstract cache after an update of block \<open>x\<close>: a block logged for the first time gains a pin.\<close>

definition a_logged :: "bool \<Rightarrow> u32 \<Rightarrow> byte list \<Rightarrow> acache \<Rightarrow> acache" where
  "a_logged old x d a = a\<lparr>a_view := (a_view a)(x := d), a_rc := (a_rc a)(x := a_rc a x + of_bool (\<not> old))\<rparr>"

text \<open>Nothing changes but the cache, the log header and the states of sleeping processes.\<close>

definition tx_frame :: "nat \<Rightarrow> kworld \<Rightarrow> kworld \<Rightarrow> bool" where
  "tx_frame p s t \<longleftrightarrow> bio_frame p (upd_lh (\<lambda>_. l_lh (log t)) s) t"

lemma bio_frame_select:
  assumes "bio_frame p s t"
  shows "sb t = sb s" "itable t = itable s" "log t = log s" "hart t = hart s" "uart t = uart s" "mem t = mem s"
    "locks t = locks s" "cpus t = cpus s" "sie t = sie s" "panicked t = panicked s" "pr_locking t = pr_locking s"
    "ftable t = ftable s"
proof -
  have eq: "t = s\<lparr>bufs := bufs t, sleeplocks := sleeplocks t, procs := procs t, disk := disk t, disk_writes := disk_writes t\<rparr>"
    using assms by (simp only: bio_frame_def)
  show "sb t = sb s" "itable t = itable s" "log t = log s" "hart t = hart s" "uart t = uart s" "mem t = mem s"
    "locks t = locks s" "cpus t = cpus s" "sie t = sie s" "panicked t = panicked s" "pr_locking t = pr_locking s"
    "ftable t = ftable s"
    by (subst eq, simp)+
qed

lemma upd_lh_same: "upd_lh (\<lambda>_. l_lh (log s)) s = s"
  by (simp add: upd_lh_def upd_log_def)

lemma upd_lh_twice: "upd_lh f (upd_lh g s) = upd_lh (\<lambda>h. f (g h)) s"
  by (simp add: upd_lh_def upd_log_def)

lemma tx_frame_bio: "bio_frame p s t \<Longrightarrow> tx_frame p s t"
  by (simp add: tx_frame_def bio_frame_select(3) upd_lh_same)

lemma tx_frame_refl [simp]: "tx_frame p s s"
  by (simp add: tx_frame_bio)

lemma tx_frame_trans: "tx_frame p s t \<Longrightarrow> tx_frame p t u \<Longrightarrow> tx_frame p s u"
proof -
  assume st: "tx_frame p s t" and tu: "tx_frame p t u"
  have "bio_frame p (upd_lh (\<lambda>_. l_lh (log u)) s) (upd_lh (\<lambda>_. l_lh (log u)) t)"
    using bio_frame_upd_lh [OF st [unfolded tx_frame_def], of "\<lambda>_. l_lh (log u)"] by (simp add: upd_lh_twice)
  then show ?thesis using tu bio_frame_trans unfolding tx_frame_def by blast
qed

lemma tx_frame_select:
  assumes "tx_frame p s t"
  shows "sb t = sb s" "itable t = itable s" "uart t = uart s" "ftable t = ftable s" "mem t = mem s"
    "log t = (log s)\<lparr>l_lh := l_lh (log t)\<rparr>"
  using bio_frame_select [OF assms [unfolded tx_frame_def]] by (simp_all add: upd_lh_def upd_log_def)

lemma logged_set_added:
  "0 \<le> lh_n (l_lh l) \<Longrightarrow> logged_set (l\<lparr>l_lh := log_added x (l_lh l)\<rparr>) = insert x (logged_set l)"
  by (auto simp: logged_set_def log_added_def lessThan_Suc nat_add_distrib image_iff)

text \<open>The buffers a process holds locked go on holding their blocks.\<close>

definition keeps_held :: "acache \<Rightarrow> kworld \<Rightarrow> kworld \<Rightarrow> bool" where
  "keeps_held a s t \<longleftrightarrow> (\<forall>c m. m \<in> a_lk a \<longrightarrow> holds (bufs s) c m \<longrightarrow> holds (bufs t) c m)"

lemma keeps_held_refl [simp]: "keeps_held a s s"
  by (simp add: keeps_held_def)

lemma keeps_held_trans: "keeps_held a s t \<Longrightarrow> keeps_held b t u \<Longrightarrow> a_lk a \<subseteq> a_lk b \<Longrightarrow> keeps_held a s u"
  unfolding keeps_held_def by blast

text \<open>The call of \<open>log_write\<close> on a buffer the process holds locked.\<close>

lemma log_write_ok:
  assumes T: "in_trans p s a" and h: "holds (bufs s) b x" and rc: "a_rc a x + 1 < 2 ^ 32" and room: "log_room 1 (log s)"
  defines "old \<equiv> x \<in> logged_set (log s)"
  shows "\<exists>t. log_write b s = Ret () t \<and> bcrel p t (if old then a else a_pin x a) \<and> holds (bufs t) b x \<and> tx_frame p s t \<and>
    log t = (log s)\<lparr>l_lh := log_added x (l_lh (log s))\<rparr> \<and> (\<forall>c m. holds (bufs s) c m \<longrightarrow> holds (bufs t) c m)"
proof -
  let ?u = "if old then s else upd_buf b (\<lambda>x. x\<lparr>b_refcnt := b_refcnt x + 1\<rparr>) s"
  have R: "bcrel p s a" and q: "quiet p s" using T by (simp_all add: in_trans_def bcrel_def)
  have bn: "b_blockno (bufs s b) = x" using h by (simp add: holds_def)
  have "log_write b s = Ret () (upd_lh (log_added x) ?u)"
    using log_write_eq [OF q, of b] T room
    by (simp add: in_trans_def log_room_def bn Let_def old_def logged_set_def)
  moreover have "bcrel p ?u (if old then a else a_pin x a)" "bio_frame p s ?u" "holds (bufs ?u) b x"
  proof -
    obtain t where t: "bpin b s = Ret () t" "bcrel p t (a_pin x a)" "bio_frame p s t" "holds (bufs t) b x"
      using bpin_ok [OF R h rc] h by blast
    moreover have "bpin b s = Ret () (upd_buf b (\<lambda>x. x\<lparr>b_refcnt := b_refcnt x + 1\<rparr>) s)"
      using quietD [OF q] by (simp add: bpin_def exec_simps lock_exec)
    ultimately show "bcrel p ?u (if old then a else a_pin x a)" "bio_frame p s ?u" "holds (bufs ?u) b x"
      using R h by (cases old; simp)+
  qed
  moreover from this(2) have "log ?u = log s" by (rule bio_frame_log)
  moreover from this have "tx_frame p s (upd_lh (log_added x) ?u)"
    using bio_frame_upd_lh [OF \<open>bio_frame p s ?u\<close>, of "\<lambda>_. log_added x (l_lh (log s))"]
    by (simp add: tx_frame_def) (simp add: upd_lh_def upd_log_def split: if_splits)
  moreover have "holds (bufs (upd_lh f v)) c m = holds (bufs v) c m" for f c m and v :: kworld
    by (simp add: upd_lh_def upd_log_def)
  moreover have "holds (bufs s) c m \<longrightarrow> holds (bufs ?u) c m" for c m
    by (simp add: holds_def upd_buf_def)
  ultimately show ?thesis by (intro exI [of _ "upd_lh (log_added x) ?u"]) simp
qed

definition tx_update :: "u32 \<Rightarrow> (byte list \<Rightarrow> byte list) \<Rightarrow> unit K" where
  "tx_update x f = kbind (bread ROOTDEV x) (\<lambda>b. kbind (buf_data b) (\<lambda>d. kseq [set_data b (f d), log_write b, brelse b]))"

text \<open>The same from the moment the block has been read.\<close>

lemma tx_finish:
  assumes T: "in_trans p s a" and x: "readable a x" and room: "log_room 1 (log s)"
    and t: "bcrel p t (a_get x a)" "holds (bufs t) b x" "bio_frame p s t"
  defines "old \<equiv> x \<in> logged_set (log s)"
  shows "\<exists>u. kseq [set_data b d, log_write b, brelse b] t = Ret () u \<and> in_trans p u (a_logged old x d a) \<and> tx_frame p s u \<and>
    log u = (log s)\<lparr>l_lh := log_added x (l_lh (log s))\<rparr> \<and> (\<forall>c m. holds (bufs t) c m \<longrightarrow> holds (bufs u) c m)"
proof -
  let ?a1 = "a_set x d (a_get x a)"
  have xk: "x \<in> a_lk (a_get x a)" "x \<in> a_lk ?a1" by simp_all
  from bc.store_ok [OF t(1,2) xk(1), of d] obtain s2 where
    s2: "set_data b d t = Ret () s2" "bcrel p s2 ?a1" "bio_frame p t s2" "holds (bufs s2) b x" "\<forall>c m. holds (bufs t) c m \<longrightarrow> holds (bufs s2) c m" using t(2) by blast
  have f2: "bio_frame p s s2" using t(3) s2(3) bio_frame_trans by blast
  then have l2: "log s2 = log s" by (rule bio_frame_log)
  have T2: "in_trans p s2 ?a1" using T s2(2) by (auto simp: in_trans_def l2 acache_defs)
  have rc: "a_rc ?a1 x + 1 < 2 ^ 32" using x by (simp add: readable_def acache_defs)
  from log_write_ok [OF T2 s2(4) rc] obtain s3 where
    s3: "log_write b s2 = Ret () s3" "bcrel p s3 (if old then ?a1 else a_pin x ?a1)" "holds (bufs s3) b x" "tx_frame p s2 s3"
      "log s3 = (log s)\<lparr>l_lh := log_added x (l_lh (log s))\<rparr>" "\<forall>c m. holds (bufs s2) c m \<longrightarrow> holds (bufs s3) c m"
    using room by (auto simp: l2 old_def)
  let ?a2 = "if old then ?a1 else a_pin x ?a1"
  have "0 < a_rc a x" if old using T that by (auto simp: in_trans_def old_def)
  then have "a_rc ?a2 x \<noteq> 1" by (auto simp: acache_defs)
  moreover have "x \<in> a_lk ?a2" by simp
  ultimately obtain u where u: "brelse b s3 = Ret () u" "bcrel p u (a_put x ?a2)" "bio_frame p s3 u"
      "\<forall>c m. holds (bufs s3) c m \<longrightarrow> holds (bufs u) c m"
    using bc.put_ok [OF s3(2,3)] by blast
  have a: "a_put x ?a2 = a_logged old x d a"
    using x by (intro acache.equality) (auto simp: acache_defs a_logged_def readable_def)
  have lu: "log u = (log s)\<lparr>l_lh := log_added x (l_lh (log s))\<rparr>" using u(3) s3(5) by (simp add: bio_frame_log)
  have "0 < a_rc (a_logged old x d a) n" if "n \<in> insert x (logged_set (log s))" for n
    using T that by (auto simp: in_trans_def a_logged_def old_def)
  then have "in_trans p u (a_logged old x d a)"
    using T u(2) logged_set_added [of "log s" x] by (auto simp: in_trans_def a lu log_added_def)
  moreover have "tx_frame p s u" using f2 s3(4) u(3) tx_frame_bio tx_frame_trans by blast
  moreover have "kseq [set_data b d, log_write b, brelse b] t = Ret () u" using s2(1) s3(1) u(1) by (simp add: exec_simps)
  moreover have "\<forall>c m. holds (bufs t) c m \<longrightarrow> holds (bufs u) c m" using s2(5) s3(6) u(4) by blast
  ultimately show ?thesis using lu by blast
qed

lemma tx_read:
  assumes T: "in_trans p s a" and x: "readable a x"
  shows "\<exists>b t. bread ROOTDEV x s = Ret b t \<and> b_data (bufs t b) = a_view a x \<and> bcrel p t (a_get x a) \<and> holds (bufs t) b x \<and> bio_frame p s t \<and>
    keeps_held a s t"
proof -
  have R: "bcrel p s a" using T by (simp add: in_trans_def)
  from bc.read_ok [OF R, of x] x obtain b t where
    t: "bread ROOTDEV x s = Ret b t" "bcrel p t (a_get x a)" "holds (bufs t) b x" "bio_frame p s t" "keeps_held a s t"
    by (auto simp: readable_def keeps_held_def)
  moreover have "b_data (bufs t b) = a_view a x" using bc.data_ok [OF t(2,3)] by (simp add: acache_defs)
  ultimately show ?thesis by blast
qed

lemma tx_write:
  assumes T: "in_trans p s a" and x: "readable a x" and room: "log_room 1 (log s)"
  defines "old \<equiv> x \<in> logged_set (log s)"
  shows "\<exists>t. tx_update x f s = Ret () t \<and> in_trans p t (a_logged old x (f (a_view a x)) a) \<and> tx_frame p s t \<and>
    log t = (log s)\<lparr>l_lh := log_added x (l_lh (log s))\<rparr> \<and> keeps_held a s t"
proof -
  obtain b t where t: "bread ROOTDEV x s = Ret b t" "b_data (bufs t b) = a_view a x" "bcrel p t (a_get x a)" "holds (bufs t) b x" "bio_frame p s t"
    "keeps_held a s t"
    using tx_read [OF T x] by blast
  from tx_finish [OF T x room t(3-5), of "f (a_view a x)"] show ?thesis
    using t(1,2,6) by (auto simp: tx_update_def buf_data_def exec_simps old_def keeps_held_def)
qed

text \<open>Looking at a block without changing it.\<close>

lemma tx_peek:
  assumes T: "in_trans p s a" and x: "readable a x"
  shows "\<exists>b t u. bread ROOTDEV x s = Ret b t \<and> b_data (bufs t b) = a_view a x \<and> brelse b t = Ret () u \<and>
    in_trans p u a \<and> bio_frame p s u \<and> keeps_held a s u"
proof -
  obtain b t where t: "bread ROOTDEV x s = Ret b t" "b_data (bufs t b) = a_view a x" "bcrel p t (a_get x a)" "holds (bufs t) b x"
    "bio_frame p s t" "keeps_held a s t"
    using tx_read [OF T x] by blast
  have "a_rc (a_get x a) x = 1 \<longrightarrow> a_view (a_get x a) x = a_disk (a_get x a) x"
    using T bc_clean [of p s a x] by (simp add: a_get_def in_trans_def)
  from bc.put_ok [OF t(3,4) _ this] obtain u where u: "brelse b t = Ret () u" "bcrel p u (a_put x (a_get x a))" "bio_frame p t u"
    "\<forall>c m. holds (bufs t) c m \<longrightarrow> holds (bufs u) c m" by auto
  have "a_put x (a_get x a) = a" using x by (intro acache.equality) (auto simp: acache_defs readable_def)
  then have "in_trans p u a" using T u(2) bio_frame_log [OF bio_frame_trans [OF t(5) u(3)]] by (simp add: in_trans_def)
  then show ?thesis using t u bio_frame_trans unfolding keeps_held_def by blast
qed

section \<open>The free map\<close>

text \<open>Whether the map says that block \<open>b\<close> is in use.\<close>

definition in_use :: "superblock \<Rightarrow> (u32 \<Rightarrow> byte list) \<Rightarrow> u32 \<Rightarrow> bool" where
  "in_use sbk v b \<longleftrightarrow> bit_set (v (BBLOCK b sbk)) (unat b mod BPB)"

lemma BPB_8192: "BPB = 8192"
  by (simp add: BPB_def BSIZE_def)

lemma bit_set_bit: "bit_set d i \<longleftrightarrow> bit (d ! (i div 8)) (i mod 8)"
  by (simp add: bit_set_def map_bit_def bit_iff_and_push_bit_not_eq_0)

definition set_bit_at :: "nat \<Rightarrow> byte list \<Rightarrow> byte list" where
  "set_bit_at i d = d[i div 8 := d ! (i div 8) OR map_bit i]"

definition clear_bit_at :: "nat \<Rightarrow> byte list \<Rightarrow> byte list" where
  "clear_bit_at i d = d[i div 8 := d ! (i div 8) AND NOT (map_bit i)]"

lemma same_bit: "j = i \<longleftrightarrow> j div 8 = i div 8 \<and> j mod 8 = i mod (8 :: nat)"
  by (metis div_mult_mod_eq)

lemma bit_map_bit: "bit (map_bit i) (j mod 8) \<longleftrightarrow> j mod 8 = i mod 8"
  by (auto simp: map_bit_def bit_exp_iff)

lemma bit_set_set: "i div 8 < length d \<Longrightarrow> bit_set (set_bit_at i d) j \<longleftrightarrow> j = i \<or> bit_set d j"
  unfolding same_bit [of j i] bit_set_bit set_bit_at_def
  by (cases "j div 8 = i div 8") (auto simp: bit_or_iff bit_map_bit)

lemma bit_set_clear: "i div 8 < length d \<Longrightarrow> bit_set (clear_bit_at i d) j \<longleftrightarrow> j \<noteq> i \<and> bit_set d j"
  unfolding same_bit [of j i] bit_set_bit clear_bit_at_def
  by (cases "j div 8 = i div 8") (auto simp: bit_and_iff bit_not_iff bit_map_bit)

lemma unat_u32: "unat b < 2 ^ 32" for b :: u32
  using unsigned_less [of b] by simp

text \<open>Block \<open>b\<close> has its bit in the map block of the stretch of \<open>BPB\<close> blocks it lies in.\<close>

lemma BBLOCK_div: "BBLOCK b x = of_nat (unat b div BPB) + sb_bmapstart x"
proof -
  have "unat (b div of_nat BPB) = unat b div BPB" by (simp add: unat_div BPB_8192)
  then have "b div of_nat BPB = of_nat (unat b div BPB)" by (metis of_nat_unat ucast_id)
  then show ?thesis by (simp only: BBLOCK_def)
qed

lemma same_block: "b = c \<longleftrightarrow> unat b div BPB = unat c div BPB \<and> unat b mod BPB = unat c mod BPB" for b c :: u32
  by (metis div_mult_mod_eq word_unat_eq_iff)

lemma BBLOCK_eq: "BBLOCK b x = BBLOCK c x \<longleftrightarrow> unat b div BPB = unat c div BPB"
proof -
  have "unat b div BPB < 2 ^ 32" for b :: u32
    using unat_u32 [of b] div_le_dividend [of "unat b" BPB] by linarith
  then show ?thesis by (simp add: BBLOCK_div of_nat_u32_inj)
qed

text \<open>Changing one bit of the map changes the state of one block.\<close>

lemma in_use_changed:
  assumes "length (v (BBLOCK b x)) = BSIZE"
  shows "in_use x (v(BBLOCK b x := set_bit_at (unat b mod BPB) (v (BBLOCK b x)))) c \<longleftrightarrow> c = b \<or> in_use x v c"
    "in_use x (v(BBLOCK b x := clear_bit_at (unat b mod BPB) (v (BBLOCK b x)))) c \<longleftrightarrow> c \<noteq> b \<and> in_use x v c"
proof -
  have "unat b mod BPB < BPB" by (simp add: BPB_8192)
  then have "(unat b mod BPB) div 8 < length (v (BBLOCK b x))" using assms by (simp add: BPB_def)
  note bits = bit_set_set [OF this] bit_set_clear [OF this]
  let ?u = "\<lambda>g. in_use x (v(BBLOCK b x := g (unat b mod BPB) (v (BBLOCK b x)))) c"
  have far: "?u g = in_use x v c" "c \<noteq> b" if "BBLOCK c x \<noteq> BBLOCK b x" for g
    using that by (auto simp: in_use_def)
  have near: "?u g = bit_set (g (unat b mod BPB) (v (BBLOCK b x))) (unat c mod BPB)"
    "in_use x v c = bit_set (v (BBLOCK b x)) (unat c mod BPB)" "c = b \<longleftrightarrow> unat c mod BPB = unat b mod BPB"
    if "BBLOCK c x = BBLOCK b x" for g
    using that BBLOCK_eq [of c x b] same_block [of c b] by (simp_all add: in_use_def)
  show "?u set_bit_at \<longleftrightarrow> c = b \<or> in_use x v c" "?u clear_bit_at \<longleftrightarrow> c \<noteq> b \<and> in_use x v c"
    using far near bits by (cases "BBLOCK c x = BBLOCK b x"; simp)+
qed

section \<open>Freeing a block\<close>

lemma bfree_panics:
  assumes "in_trans p s a" "readable a (BBLOCK b (sb s))" "\<not> in_use (sb s) (a_view a) b"
  shows "bfree ROOTDEV b s = Panic ''freeing free block''"
  using tx_read [OF assms(1,2)] assms(3) by (auto simp: bfree_def exec_simps buf_data_def in_use_def)

lemma bfree_ok:
  assumes T: "in_trans p s a" and x: "readable a (BBLOCK b (sb s))" and room: "log_room 1 (log s)"
    and used: "in_use (sb s) (a_view a) b"
  defines "n \<equiv> BBLOCK b (sb s)"
  shows "\<exists>t. bfree ROOTDEV b s = Ret () t \<and> tx_frame p s t \<and>
    in_trans p t (a_logged (n \<in> logged_set (log s)) n (clear_bit_at (unat b mod BPB) (a_view a n)) a)"
proof -
  obtain c t where t: "bread ROOTDEV n s = Ret c t" "b_data (bufs t c) = a_view a n" "bcrel p t (a_get n a)"
    "holds (bufs t) c n" "bio_frame p s t"
    using tx_read [OF T x] unfolding n_def by blast
  from tx_finish [OF T _ room t(3-5), of "clear_bit_at (unat b mod BPB) (a_view a n)"] x show ?thesis
    using t(1,2) used by (auto simp: bfree_def exec_simps buf_data_def in_use_def n_def clear_bit_at_def Let_def)
qed

section \<open>Allocating a block\<close>

lemma bzero_update: "bzero ROOTDEV n = tx_update n (\<lambda>_. replicate BSIZE 0)"
  by (simp add: bzero_def tx_update_def buf_data_def kget_def kbind_def fun_eq_iff split: outcome.splits)

text \<open>The numbers of the blocks of the file system that the map calls free.\<close>

definition free_in :: "superblock \<Rightarrow> (u32 \<Rightarrow> byte list) \<Rightarrow> nat \<Rightarrow> bool" where
  "free_in sbk v n \<longleftrightarrow> n < unat (sb_size sbk) \<and> \<not> in_use sbk v (of_nat n)"

lemma stretch_bits:
  assumes "bi < BPB" "k * BPB + bi < 2 ^ 32"
  shows "unat (of_nat (k * BPB + bi) :: u32) div BPB = k" "unat (of_nat (k * BPB + bi) :: u32) mod BPB = bi"
    "BBLOCK (of_nat (k * BPB + bi)) x = BBLOCK (of_nat (k * BPB)) x"
proof -
  have u: "unat (of_nat m :: u32) = m" if "m < 2 ^ 32" for m using that by (simp add: unat_of_nat)
  show 1: "unat (of_nat (k * BPB + bi) :: u32) div BPB = k" "unat (of_nat (k * BPB + bi) :: u32) mod BPB = bi"
    using assms by (simp_all only: u [OF assms(2)] div_mult_self3 mod_mult_self3) (simp_all add: BPB_8192)
  have "k * BPB < 2 ^ 32" using assms by simp
  then have "unat (of_nat (k * BPB) :: u32) div BPB = k" by (simp only: u) (simp add: BPB_8192)
  then show "BBLOCK (of_nat (k * BPB + bi)) x = BBLOCK (of_nat (k * BPB)) x" using 1(1) by (simp only: BBLOCK_eq)
qed

text \<open>The first free block of a stretch is the one the inner loop finds.\<close>

definition first_free :: "superblock \<Rightarrow> (u32 \<Rightarrow> byte list) \<Rightarrow> nat \<Rightarrow> nat option" where
  "first_free sbk v k = first_index (\<lambda>bi. free_in sbk v (k * BPB + bi)) BPB"

lemma inner_loop:
  "first_index (\<lambda>bi. k * BPB + bi < unat (sb_size x) \<and> \<not> bit_set (v (BBLOCK (of_nat (k * BPB)) x)) bi) BPB = first_free x v k"
proof -
  have "k * BPB + bi < unat (sb_size x) \<and> \<not> bit_set (v (BBLOCK (of_nat (k * BPB)) x)) bi \<longleftrightarrow> free_in x v (k * BPB + bi)"
    if "bi < BPB" for bi
  proof (cases "k * BPB + bi < unat (sb_size x)")
    case True
    then have "k * BPB + bi < 2 ^ 32" using unat_u32 by (rule less_trans)
    from stretch_bits [OF that this] True show ?thesis by (simp only: free_in_def in_use_def)
  qed (simp add: free_in_def)
  then have "List.find P [0..<BPB] = List.find Q [0..<BPB]"
    if "P = (\<lambda>bi. k * BPB + bi < unat (sb_size x) \<and> \<not> bit_set (v (BBLOCK (of_nat (k * BPB)) x)) bi)"
      "Q = (\<lambda>bi. free_in x v (k * BPB + bi))" for P Q
    using that by (intro find_cong) auto
  then show ?thesis by (simp add: first_free_def first_index_def)
qed

lemma balloc_in_none:
  assumes T: "in_trans p s a" and x: "readable a (BBLOCK (of_nat (k * BPB)) (sb s))" and none: "first_free (sb s) (a_view a) k = None"
  shows "\<exists>t. balloc_in ROOTDEV (k * BPB) s = Ret None t \<and> in_trans p t a \<and> bio_frame p s t \<and> keeps_held a s t"
  using tx_peek [OF T x] none inner_loop [of k "sb s" "a_view a"] by (auto simp: balloc_in_def exec_simps buf_data_def)

text \<open>The state of the map and of the blocks after block \<open>b\<close> has been allocated.\<close>

definition allocated :: "superblock \<Rightarrow> u32 \<Rightarrow> (u32 \<Rightarrow> byte list) \<Rightarrow> u32 \<Rightarrow> byte list" where
  "allocated sbk b v = (v(BBLOCK b sbk := set_bit_at (unat b mod BPB) (v (BBLOCK b sbk))))(b := replicate BSIZE 0)"

lemma readable_logged:
  assumes "readable a x" "readable a y" "y \<noteq> x" "card (a_used a) + 1 < NBUF"
  shows "readable (a_logged old x d a) y"
proof -
  have "a_used (a_logged old x d a) \<subseteq> insert x (a_used a)" by (auto simp: a_used_def a_logged_def)
  then have "card (a_used (a_logged old x d a)) \<le> card (insert x (a_used a))" by (intro card_mono) simp_all
  also have "\<dots> \<le> card (a_used a) + 1" by (simp add: card_insert_if)
  finally show ?thesis using assms by (auto simp: readable_def a_logged_def)
qed

lemma log_room_added:
  assumes "log_room (k + 1) l" "0 \<le> k"
  shows "log_room k (l\<lparr>l_lh := log_added x (l_lh l)\<rparr>)"
  using assms by (auto simp: log_room_def log_added_def)

definition a_alloc :: "superblock \<Rightarrow> bool \<Rightarrow> bool \<Rightarrow> u32 \<Rightarrow> acache \<Rightarrow> acache" where
  "a_alloc sbk o1 o2 b a = a_logged o2 b (replicate BSIZE 0)
     (a_logged o1 (BBLOCK b sbk) (set_bit_at (unat b mod BPB) (a_view a (BBLOCK b sbk))) a)"

lemma a_alloc_simps [simp]:
  "a_view (a_alloc sbk o1 o2 b a) = allocated sbk b (a_view a)" "a_lk (a_alloc sbk o1 o2 b a) = a_lk a"
  by (simp_all add: a_alloc_def a_logged_def allocated_def)

definition alloc_added :: "superblock \<Rightarrow> u32 \<Rightarrow> logstate \<Rightarrow> logstate" where
  "alloc_added sbk b l = l\<lparr>l_lh := log_added b (log_added (BBLOCK b sbk) (l_lh l))\<rparr>"

lemma balloc_in_some:
  assumes T: "in_trans p s a" and x: "readable a (BBLOCK (of_nat (k * BPB)) (sb s))" and some: "first_free (sb s) (a_view a) k = Some bi"
    and room: "log_room 2 (log s)" "card (a_used a) + 1 < NBUF"
  defines "b \<equiv> of_nat (k * BPB + bi)"
  assumes y: "readable a b" "b \<noteq> BBLOCK b (sb s)"
  shows "\<exists>t o1 o2. balloc_in ROOTDEV (k * BPB) s = Ret (Some b) t \<and> in_trans p t (a_alloc (sb s) o1 o2 b a) \<and> tx_frame p s t \<and>
    keeps_held a s t \<and> log t = alloc_added (sb s) b (log s)"
proof -
  let ?n = "BBLOCK (of_nat (k * BPB)) (sb s)"
  have bi: "bi < BPB" "free_in (sb s) (a_view a) (k * BPB + bi)" using some by (simp_all add: first_free_def first_index_Some)
  then have "k * BPB + bi < 2 ^ 32" using unat_u32 [of "sb_size (sb s)"] by (simp add: free_in_def)
  note st = stretch_bits [OF bi(1) this]
  let ?d = "set_bit_at bi (a_view a ?n)" and ?old = "?n \<in> logged_set (log s)"
  obtain c t where t: "bread ROOTDEV ?n s = Ret c t" "b_data (bufs t c) = a_view a ?n" "bcrel p t (a_get ?n a)"
    "holds (bufs t) c ?n" "bio_frame p s t" "keeps_held a s t"
    using tx_read [OF T x] by blast
  have "log_room 1 (log s)" using room(1) by (simp add: log_room_def)
  from tx_finish [OF T x this t(3-5), of ?d] obtain u where
    u: "kseq [set_data c ?d, log_write c, brelse c] t = Ret () u" "in_trans p u (a_logged ?old ?n ?d a)" "tx_frame p s u"
      "log u = (log s)\<lparr>l_lh := log_added ?n (l_lh (log s))\<rparr>" "\<forall>c m. holds (bufs t) c m \<longrightarrow> holds (bufs u) c m" by blast
  let ?a1 = "a_logged ?old ?n ?d a"
  have ny: "b \<noteq> ?n" using y(2) unfolding b_def st(3) .
  have "readable ?a1 b" using readable_logged [OF x y(1) ny room(2)] .
  moreover have "log_room 1 (log u)" unfolding u(4) using log_room_added [of 1] room(1) by simp
  ultimately obtain w where w: "tx_update b (\<lambda>_. replicate BSIZE 0) u = Ret () w"
    "in_trans p w (a_logged (b \<in> logged_set (log u)) b (replicate BSIZE 0) ?a1)" "tx_frame p u w"
      "log w = (log u)\<lparr>l_lh := log_added b (l_lh (log u))\<rparr>" "keeps_held ?a1 u w"
    using tx_write [OF u(2)] by blast
  let ?a2 = "a_logged (b \<in> logged_set (log u)) b (replicate BSIZE 0) ?a1"
  have "kseq [set_data c ?d, log_write c, brelse c, bzero ROOTDEV b] t = Ret () w"
    using u(1) w(1) unfolding bzero_update by (auto simp: exec_simps split: outcome.splits)
  then have "balloc_in ROOTDEV (k * BPB) s = Ret (Some b) w"
    using t(1,2) inner_loop [of k "sb s" "a_view a"] some
    by (simp add: balloc_in_def exec_simps buf_data_def set_bit_at_def b_def del: of_nat_add of_nat_mult)
  moreover have "?a2 = a_alloc (sb s) ?old (b \<in> logged_set (log u)) b a"
    using st unfolding b_def by (simp add: a_alloc_def del: of_nat_add of_nat_mult)
  moreover have "log w = alloc_added (sb s) b (log s)"
    using st unfolding w(4) u(4) b_def by (simp add: alloc_added_def del: of_nat_add of_nat_mult)
  moreover have "keeps_held a s w" using t(6) u(5) w(5) unfolding keeps_held_def by (simp add: a_logged_def)
  moreover have "tx_frame p s w" using u(3) w(3) by (rule tx_frame_trans)
  ultimately show ?thesis using w(2) by metis
qed

text \<open>
  What allocation relies on: every map block can be read, so can every free block, and the map says that its own blocks are
  in use.
\<close>

definition map_ready :: "superblock \<Rightarrow> acache \<Rightarrow> bool" where
  "map_ready x a \<longleftrightarrow> (\<forall>n<unat (sb_size x). readable a (BBLOCK (of_nat n) x) \<and> in_use x (a_view a) (BBLOCK (of_nat n) x) \<and>
     length (a_view a (BBLOCK (of_nat n) x)) = BSIZE) \<and> (\<forall>n. free_in x (a_view a) n \<longrightarrow> readable a (of_nat n))"

lemma free_not_map:
  assumes "map_ready x a" "free_in x (a_view a) n" "m < unat (sb_size x)"
  shows "of_nat n \<noteq> BBLOCK (of_nat m) x"
  using assms by (auto simp: map_ready_def free_in_def)

lemma balloc_scan:
  assumes "in_trans p s a" "map_ready (sb s) a" "log_room 2 (log s)" "card (a_used a) + 1 < NBUF"
    and "\<And>k. k \<in> set ks \<Longrightarrow> k * BPB < unat (sb_size (sb s))"
  shows "case List.find (\<lambda>k. first_free (sb s) (a_view a) k \<noteq> None) ks of
      None \<Rightarrow> \<exists>t. kscan (map (\<lambda>k. k * BPB) ks) (balloc_in ROOTDEV) s = Ret None t \<and> in_trans p t a \<and> bio_frame p s t
    | Some k \<Rightarrow> \<exists>bi t o1 o2. first_free (sb s) (a_view a) k = Some bi \<and>
        kscan (map (\<lambda>k. k * BPB) ks) (balloc_in ROOTDEV) s = Ret (Some (of_nat (k * BPB + bi))) t \<and>
        in_trans p t (a_alloc (sb s) o1 o2 (of_nat (k * BPB + bi)) a) \<and> tx_frame p s t \<and> keeps_held a s t \<and>
        log t = alloc_added (sb s) (of_nat (k * BPB + bi)) (log s)"
  using assms
proof (induction ks arbitrary: s)
  case Nil
  then show ?case by (auto simp: exec_simps)
next
  case (Cons k ks)
  have "k * BPB < unat (sb_size (sb s))" using Cons.prems(5) by simp
  then have x: "readable a (BBLOCK (of_nat (k * BPB)) (sb s))" using Cons.prems(2) by (simp only: map_ready_def)
  show ?case
  proof (cases "first_free (sb s) (a_view a) k")
    case None
    from balloc_in_none [OF Cons.prems(1) x None] obtain t where
      t: "balloc_in ROOTDEV (k * BPB) s = Ret None t" "in_trans p t a" "bio_frame p s t" "keeps_held a s t" by blast
    have eqs: "sb t = sb s" "log t = log s" using bio_frame_select [OF t(3)] by simp_all
    have "kscan (map (\<lambda>k. k * BPB) (k # ks)) (balloc_in ROOTDEV) s = kscan (map (\<lambda>k. k * BPB) ks) (balloc_in ROOTDEV) t"
      using t(1) by (simp add: exec_simps)
    moreover have "tx_frame p s u" if "tx_frame p t u" for u using t(3) that tx_frame_bio tx_frame_trans by blast
    moreover have "bio_frame p s u" if "bio_frame p t u" for u using t(3) that bio_frame_trans by blast
    moreover have "keeps_held a s u" if "keeps_held a t u" for u using keeps_held_trans [OF t(4) that] by simp
    ultimately show ?thesis
      using Cons.IH [OF t(2)] Cons.prems(2-5) None by (auto simp: eqs split: option.splits simp del: of_nat_add of_nat_mult) blast
  next
    case (Some bi)
    then have "free_in (sb s) (a_view a) (k * BPB + bi)" by (simp add: first_free_def first_index_Some)
    moreover from this have "k * BPB + bi < unat (sb_size (sb s))" by (simp only: free_in_def)
    ultimately have y: "readable a (of_nat (k * BPB + bi))"
      "of_nat (k * BPB + bi) \<noteq> BBLOCK (of_nat (k * BPB + bi)) (sb s)"
      using Cons.prems(2) free_not_map by (simp_all add: map_ready_def del: of_nat_add of_nat_mult)
    from balloc_in_some [OF Cons.prems(1) x Some Cons.prems(3,4) y] Some show ?thesis
      by (auto simp: exec_simps simp del: of_nat_add of_nat_mult) blast
  qed
qed

lemma free_stretch:
  "first_free x v k = Some bi \<Longrightarrow> free_in x v (k * BPB + bi) \<and> bi < BPB \<and> (\<forall>j<bi. \<not> free_in x v (k * BPB + j))"
  "first_free x v (n div BPB) = None \<Longrightarrow> \<not> free_in x v n"
proof -
  show "first_free x v k = Some bi \<Longrightarrow> free_in x v (k * BPB + bi) \<and> bi < BPB \<and> (\<forall>j<bi. \<not> free_in x v (k * BPB + j))"
    by (simp add: first_free_def first_index_Some)
  have "n mod BPB < BPB" by (simp add: BPB_8192)
  then show "first_free x v (n div BPB) = None \<Longrightarrow> \<not> free_in x v n"
    unfolding first_free_def first_index_None by (metis div_mult_mod_eq)
qed

lemma first_stretch:
  assumes "List.find (\<lambda>k. first_free x v k \<noteq> None) [0..<(unat (sb_size x) + BPB - 1) div BPB] = r"
  shows "r = None \<Longrightarrow> \<not> free_in x v n"
    "r = Some k \<Longrightarrow> first_free x v k = Some bi \<Longrightarrow> m < k * BPB + bi \<Longrightarrow> \<not> free_in x v m"
proof -
  assume "r = None"
  then have none: "first_free x v k = None" if "k < (unat (sb_size x) + BPB - 1) div BPB" for k
    using assms that by (auto simp: find_None_iff)
  show "\<not> free_in x v n"
  proof (cases "n < unat (sb_size x)")
    case True
    have "n div BPB < (unat (sb_size x) + BPB - 1) div BPB"
      using div_le_mono [of "n + BPB" "unat (sb_size x) + BPB - 1" BPB] True by (simp add: BPB_8192)
    then show ?thesis using none free_stretch(2) by blast
  qed (simp add: free_in_def)
next
  assume k: "r = Some k" "first_free x v k = Some bi" "m < k * BPB + bi"
  have below: "first_free x v j = None" if "j < k" for j
    using assms k(1) that by (auto simp: find_Some_iff)
  have bi: "bi < BPB" "\<forall>j<bi. \<not> free_in x v (k * BPB + j)" using free_stretch(1) [OF k(2)] by auto
  show "\<not> free_in x v m"
  proof (cases "m div BPB < k")
    case True
    then show ?thesis using below free_stretch(2) by blast
  next
    case False
    then have "k * BPB \<le> m" by (metis BPB_8192 div_le_mono div_mult_self_is_m leI le_trans less_mult_imp_div_less linorder_not_less zero_less_numeral)
    then have "m = k * BPB + (m - k * BPB)" "m - k * BPB < bi" using k(3) by simp_all
    then show ?thesis using bi(2) by metis
  qed
qed

text \<open>After the allocation exactly one more block is in use.\<close>

lemma in_use_allocated:
  assumes "map_ready x a" "free_in x (a_view a) n" "m < unat (sb_size x)"
  shows "in_use x (allocated x (of_nat n) (a_view a)) (of_nat m) \<longleftrightarrow> m = n \<or> in_use x (a_view a) (of_nat m)"
proof -
  let ?b = "of_nat n :: u32" and ?v = "a_view a"
  have n: "n < unat (sb_size x)" using assms(2) by (simp only: free_in_def)
  have eq: "(of_nat m :: u32) = ?b \<longleftrightarrow> m = n"
    using n assms(3) unat_u32 [of "sb_size x"] by (intro of_nat_u32_inj) simp_all
  have "BBLOCK (of_nat m) x \<noteq> ?b" using free_not_map [OF assms] by simp
  then have "in_use x (allocated x ?b ?v) (of_nat m) =
      in_use x (?v(BBLOCK ?b x := set_bit_at (unat ?b mod BPB) (?v (BBLOCK ?b x)))) (of_nat m)"
    by (simp add: in_use_def allocated_def)
  then show ?thesis using in_use_changed(1) [of ?v ?b x "of_nat m"] assms(1) n by (simp only: map_ready_def eq)
qed

section \<open>An example file system\<close>

text \<open>One hundred blocks, of which the first 64 are in use; the map is block 45.\<close>

definition example_map :: "byte list" where
  "example_map = replicate 8 255 @ replicate 1016 0"

definition example_fs :: kworld where
  "example_fs = example_log\<lparr>disk := (disk example_log)(45 := example_map),
     sb := (sb example_log)\<lparr>sb_size := 100, sb_bmapstart := 45\<rparr>\<rparr>"

definition example_fcache :: acache where
  "example_fcache = example_cache\<lparr>a_view := (a_view example_cache)(45 := example_map), a_disk := (a_disk example_cache)(45 := example_map)\<rparr>"

text \<open>What the disk holds of a block that is not cached is what the cache stands for.\<close>

lemma bcrel_uncached:
  assumes "bcrel p s a" "\<And>b. \<not> holds (bufs s) b n"
  shows "bcrel p (s\<lparr>disk := (disk s)(n := d), sb := x\<rparr>) (a\<lparr>a_view := (a_view a)(n := d), a_disk := (a_disk a)(n := d)\<rparr>)"
    (is "bcrel p ?t ?a")
proof -
  have cell: "cell_ok pid y l ?a m = cell_ok pid y l a m" "uncached ?a m = uncached a m" if "m \<noteq> n" for pid y l m
    using that by (simp_all add: cell_ok_def uncached_def)
  have un: "uncached a n" using assms unfolding bcrel_def cells_ok_def by blast
  then have "uncached ?a n" by (simp add: uncached_def)
  then have "cells_ok pid (bufs s) ls a \<Longrightarrow> cells_ok pid (bufs s) ls ?a" for pid ls
    using cell assms(2) unfolding cells_ok_def by metis
  then show ?thesis using assms(1) by (auto simp: bcrel_def mypid_def buf_locks_def quiet_def)
qed

lemma example_fs_trans: "in_trans 0 example_fs example_fcache"
proof -
  have nh: "\<not> holds (bufs example_log) b 45" for b
    by (simp add: holds_def example_log_simps example_bcache_def example_buf_def zero_buf_def)
  have "bcrel 0 example_fs example_fcache"
    using bcrel_uncached [OF example_log_cells nh, where d = example_map and x = "(sb example_log)\<lparr>sb_size := 100, sb_bmapstart := 45\<rparr>"]
    by (simp add: example_fs_def example_fcache_def)
  then show ?thesis
    by (simp add: in_trans_def example_fs_def example_log_simps logged_set_def example_fcache_def example_cache_def)
qed

lemma example_bits: "n < 100 \<Longrightarrow> bit_set example_map n \<longleftrightarrow> n < 64"
proof (cases "n < 64")
  case True
  then have "example_map ! (n div 8) = 255" "n mod 8 < 8" by (simp_all add: example_map_def nth_append)
  moreover have "bit (255 :: byte) i" if "i < 8" for i
    using that by (simp add: numeral_eq_Suc less_Suc_eq; auto)
  ultimately show ?thesis using True by (simp add: bit_set_bit)
next
  assume "n < 100"
  case False
  with \<open>n < 100\<close> have "example_map ! (n div 8) = 0" by (simp add: example_map_def nth_append)
  then show ?thesis using False by (simp add: bit_set_bit)
qed

section \<open>Correctness\<close>

text \<open>\<open>balloc\<close> in detail.\<close>

lemma balloc_scans:
  assumes "in_trans p s a" "map_ready (sb s) a" "log_room 2 (log s)" "card (a_used a) + 1 < NBUF"
  shows "if \<exists>n. free_in (sb s) (a_view a) n
    then \<exists>n t o1 o2. balloc ROOTDEV s = Ret (of_nat n) t \<and> in_trans p t (a_alloc (sb s) o1 o2 (of_nat n) a) \<and> tx_frame p s t \<and>
      free_in (sb s) (a_view a) n \<and> (\<forall>m<n. \<not> free_in (sb s) (a_view a) m) \<and> keeps_held a s t \<and>
      log t = alloc_added (sb s) (of_nat n) (log s)
    else \<exists>t. balloc ROOTDEV s = kbind (printf (''balloc: out of blocks'' @ newline) []) (\<lambda>_. kret 0) t \<and>
      in_trans p t a \<and> bio_frame p s t"
proof -
  let ?x = "sb s" and ?v = "a_view a"
  let ?ks = "[0..<(unat (sb_size ?x) + BPB - 1) div BPB]"
  have "k * BPB < unat (sb_size ?x)" if "k \<in> set ?ks" for k
  proof -
    have "Suc k \<le> (unat (sb_size ?x) + BPB - 1) div BPB" using that by simp
    then have "Suc k * BPB \<le> unat (sb_size ?x) + BPB - 1" by (metis div_times_less_eq_dividend le_trans mult_le_mono1)
    then show ?thesis by (simp add: BPB_8192)
  qed
  note scan = balloc_scan [OF assms this, of ?ks]
  show ?thesis
  proof (cases "List.find (\<lambda>k. first_free ?x ?v k \<noteq> None) ?ks")
    case None
    then have "\<not> (\<exists>n. free_in ?x ?v n)" using first_stretch(1) by blast
    moreover obtain t where "kscan (map_starts (unat (sb_size ?x))) (balloc_in ROOTDEV) s = Ret None t" "in_trans p t a" "bio_frame p s t"
      using scan None by (auto simp: map_starts_def)
    ultimately show ?thesis by (auto simp: balloc_def exec_simps)
  next
    case (Some k)
    then obtain bi t o1 o2 where r: "first_free ?x ?v k = Some bi" "kscan (map_starts (unat (sb_size ?x))) (balloc_in ROOTDEV) s = Ret (Some (of_nat (k * BPB + bi))) t"
      "in_trans p t (a_alloc ?x o1 o2 (of_nat (k * BPB + bi)) a)" "tx_frame p s t" "keeps_held a s t"
      "log t = alloc_added ?x (of_nat (k * BPB + bi)) (log s)"
      using scan by (auto simp: map_starts_def simp del: of_nat_add of_nat_mult)
    define n where "n = k * BPB + bi"
    have free: "free_in ?x ?v n" "\<forall>m<n. \<not> free_in ?x ?v m" using free_stretch(1) [OF r(1)] first_stretch(2) [OF Some refl r(1)] by (auto simp: n_def)
    have "balloc ROOTDEV s = Ret (of_nat n) t" using r(2) by (simp add: balloc_def exec_simps n_def del: of_nat_add of_nat_mult)
    moreover have "\<exists>n. free_in ?x ?v n" using free(1) by blast
    ultimately show ?thesis using free r(3-6) unfolding n_def [symmetric] by (simp only: if_True) blast
  qed
qed

text \<open>
  C9. \<open>balloc\<close> allocates the lowest free block. Inside a transaction with room for two more blocks, with the free map readable:
  if some block is free, \<open>balloc\<close> returns the smallest free block number; afterwards exactly that block has become in use,
  its contents are zero, every other block outside of the map has its contents, and the log covers the changes. If no block is
  free, nothing changes and \<open>balloc\<close> goes on to print its message and return 0.
\<close>
theorem balloc_spec:
  assumes "in_trans p s a" "map_ready (sb s) a" "log_room 2 (log s)" "card (a_used a) + 1 < NBUF"
  shows "if \<exists>n. free_in (sb s) (a_view a) n
    then \<exists>n t a'. balloc ROOTDEV s = Ret (of_nat n) t \<and> in_trans p t a' \<and> tx_frame p s t \<and>
      free_in (sb s) (a_view a) n \<and> (\<forall>m<n. \<not> free_in (sb s) (a_view a) m) \<and>
      a_view a' (of_nat n) = replicate BSIZE 0 \<and>
      (\<forall>m<unat (sb_size (sb s)). in_use (sb s) (a_view a') (of_nat m) \<longleftrightarrow> m = n \<or> in_use (sb s) (a_view a) (of_nat m)) \<and>
      (\<forall>c. c \<noteq> of_nat n \<longrightarrow> c \<noteq> BBLOCK (of_nat n) (sb s) \<longrightarrow> a_view a' c = a_view a c)
    else \<exists>t. balloc ROOTDEV s = kbind (printf (''balloc: out of blocks'' @ newline) []) (\<lambda>_. kret 0) t \<and>
      in_trans p t a \<and> bio_frame p s t"
proof (cases "\<exists>n. free_in (sb s) (a_view a) n")
  case True
  then obtain n t o1 o2 where n: "balloc ROOTDEV s = Ret (of_nat n) t" "in_trans p t (a_alloc (sb s) o1 o2 (of_nat n) a)" "tx_frame p s t"
    "free_in (sb s) (a_view a) n" "\<forall>m<n. \<not> free_in (sb s) (a_view a) m"
    using balloc_scans [OF assms] by (simp only: if_True) blast
  let ?a = "a_alloc (sb s) o1 o2 (of_nat n) a"
  have "\<forall>m<unat (sb_size (sb s)). in_use (sb s) (a_view ?a) (of_nat m) \<longleftrightarrow> m = n \<or> in_use (sb s) (a_view a) (of_nat m)"
    using in_use_allocated [OF assms(2) n(4)] by simp
  moreover have "a_view ?a (of_nat n) = replicate BSIZE 0"
    "\<forall>c. c \<noteq> of_nat n \<longrightarrow> c \<noteq> BBLOCK (of_nat n) (sb s) \<longrightarrow> a_view ?a c = a_view a c" by (simp_all add: allocated_def)
  ultimately show ?thesis using True n by (simp only: if_True) (intro exI [of _ n] exI [of _ t] exI [of _ ?a] conjI; blast)
next
  case False
  then show ?thesis using balloc_scans [OF assms] by (simp only: if_False)
qed

theorem balloc_spec_witness:
  "\<exists>t a'. balloc ROOTDEV example_fs = Ret 64 t \<and> in_trans 0 t a' \<and> a_view a' 64 = replicate BSIZE 0"
proof -
  let ?x = "sb example_fs" and ?v = "a_view example_fcache"
  have sz: "unat (sb_size ?x) = 100" "sb_bmapstart ?x = 45" by (simp_all add: example_fs_def)
  have BB: "BBLOCK (of_nat n) ?x = 45" "in_use ?x ?v (of_nat n) \<longleftrightarrow> n < 64" if "n < 100" for n
    using that example_bits [of n] by (simp_all add: BBLOCK_div sz in_use_def unat_of_nat BPB_8192 example_fcache_def)
  then have free: "free_in ?x ?v n \<longleftrightarrow> 64 \<le> n \<and> n < 100" for n by (auto simp: free_in_def sz)
  have rd: "readable example_fcache n" for n
    by (simp add: readable_def example_fcache_def example_cache_def a_used_def NBUF_def)
  have mr: "map_ready ?x example_fcache"
    using BB BB(2) [of 45] rd by (simp add: map_ready_def sz) (simp add: example_fcache_def example_map_def BSIZE_def)
  have lr: "log_room 2 (log example_fs)" by (simp add: log_room_def example_fs_def example_log_simps LOGSIZE_30)
  have cu: "card (a_used example_fcache) + 1 < NBUF" by (simp add: example_fcache_def example_cache_def a_used_def NBUF_def)
  have "\<exists>n. free_in ?x ?v n" using free by auto
  from balloc_spec [OF example_fs_trans mr lr cu, unfolded if_P [OF this]] obtain n t and a' :: acache where
    n: "balloc ROOTDEV example_fs = Ret (of_nat n) t" "free_in ?x ?v n" "\<forall>m<n. \<not> free_in ?x ?v m" "a_view a' (of_nat n) = replicate BSIZE 0" "in_trans 0 t a'"
    by blast
  then have "n = 64" unfolding free by (metis le_less_linear le_neq_implies_less le_refl less_trans)
  with n show ?thesis by auto
qed

text \<open>
  C23. \<open>bfree\<close> frees exactly one block, and only once. Inside a transaction with room for one more block: if the block is in use,
  \<open>bfree\<close> returns, afterwards exactly that block has become free, and no block outside of the map has changed; if the map says
  that the block is free already, the kernel panics.
\<close>
theorem bfree_spec:
  assumes "in_trans p s a" "readable a (BBLOCK b (sb s))" "log_room 1 (log s)" "length (a_view a (BBLOCK b (sb s))) = BSIZE"
  shows "if in_use (sb s) (a_view a) b
    then \<exists>t a'. bfree ROOTDEV b s = Ret () t \<and> in_trans p t a' \<and> tx_frame p s t \<and>
      (\<forall>c. in_use (sb s) (a_view a') c \<longleftrightarrow> c \<noteq> b \<and> in_use (sb s) (a_view a) c) \<and>
      (\<forall>c. c \<noteq> BBLOCK b (sb s) \<longrightarrow> a_view a' c = a_view a c)
    else bfree ROOTDEV b s = Panic ''freeing free block''"
proof (cases "in_use (sb s) (a_view a) b")
  case True
  let ?n = "BBLOCK b (sb s)"
  let ?a = "a_logged (?n \<in> logged_set (log s)) ?n (clear_bit_at (unat b mod BPB) (a_view a ?n)) a"
  obtain t where t: "bfree ROOTDEV b s = Ret () t" "tx_frame p s t" "in_trans p t ?a"
    using bfree_ok [OF assms(1-3) True] by blast
  have v: "a_view ?a = (a_view a)(?n := clear_bit_at (unat b mod BPB) (a_view a ?n))" by (simp add: a_logged_def)
  have "in_use (sb s) (a_view ?a) c \<longleftrightarrow> c \<noteq> b \<and> in_use (sb s) (a_view a) c" "c \<noteq> ?n \<Longrightarrow> a_view ?a c = a_view a c" for c
    unfolding v using in_use_changed(2) [of "a_view a" b "sb s"] assms(4) by simp_all
  then show ?thesis using t True by (simp only: if_True) (intro exI [of _ t] exI [of _ ?a] conjI; blast)
next
  case False
  then show ?thesis using bfree_panics [OF assms(1,2)] by simp
qed

theorem bfree_spec_witness:
  "(\<exists>t a'. bfree ROOTDEV 63 example_fs = Ret () t \<and> in_trans 0 t a' \<and> \<not> in_use (sb example_fs) (a_view a') 63) \<and>
   bfree ROOTDEV 64 example_fs = Panic ''freeing free block''"
proof -
  let ?x = "sb example_fs" and ?v = "a_view example_fcache"
  have BB: "BBLOCK 63 ?x = 45" "BBLOCK 64 ?x = 45" by (simp_all add: BBLOCK_div example_fs_def BPB_8192)
  have use: "in_use ?x ?v 63" "\<not> in_use ?x ?v 64"
    using example_bits [of 63] example_bits [of 64] by (simp_all add: in_use_def BB BPB_8192 example_fcache_def)
  have rd: "readable example_fcache 45"
    by (simp add: readable_def example_fcache_def example_cache_def a_used_def NBUF_def)
  have lr: "log_room 1 (log example_fs)" by (simp add: log_room_def example_fs_def example_log_simps LOGSIZE_30)
  have len: "length (?v 45) = BSIZE" by (simp add: example_fcache_def example_map_def BSIZE_def)
  show ?thesis
    using bfree_spec [OF example_fs_trans, of 63, unfolded BB, OF rd lr len] bfree_spec [OF example_fs_trans, of 64, unfolded BB, OF rd lr len] use
    by (auto simp only: if_True if_False)
qed

end
