(* ===== verification/Inode.thy ===== *)
theory Inode
  imports Freemap
begin

text \<open>
  Inodes and paths (\<open>kernel/fs.c\<close>): inodes survive the trip to their block on disk and back, the inode table hands out one
  entry per inode, and path names are split into their elements.
\<close>

section \<open>Inodes on disk\<close>

lemma put_dinode_fields:
  assumes "o' + sizeof_dinode \<le> length d" "length (d_addrs x) = NDIRECT + 1"
  shows "length (put_dinode x d o') = length d" "get_dinode (put_dinode x d o') o' = x"
    "o' + sizeof_dinode \<le> o2 \<or> o2 + sizeof_dinode \<le> o' \<Longrightarrow> get_dinode (put_dinode x d o') o2 = get_dinode d o2"
proof -
  let ?d1 = "put16 d o' (d_type x)"
  let ?d2 = "put16 ?d1 (o' + 2) (d_major x)"
  let ?d3 = "put16 ?d2 (o' + 4) (d_minor x)"
  let ?d4 = "put16 ?d3 (o' + 6) (d_nlink x)"
  let ?d5 = "put32 ?d4 (o' + 8) (d_size x)"
  let ?e = "put_dinode x d o'"
  have len: "o' + 64 \<le> length d" using assms(1) by (simp add: sizeof_dinode_def)
  have l: "length ?d1 = length d" "length ?d2 = length d" "length ?d3 = length d" "length ?d4 = length d" "length ?d5 = length d"
    using len by simp_all
  have fits: "o' + 12 + 4 * (NDIRECT + 1) \<le> length ?d5" using len by (simp only: l) (simp add: NDIRECT_def)
  have e: "?e = fold (\<lambda>i d. put32 d (o' + 12 + 4 * i) (d_addrs x ! i)) [0..<NDIRECT + 1] ?d5" by (simp only: put_dinode_def)
  show "length ?e = length d" unfolding e length_fold_put32 [OF fits] by (simp only: l)
  have "map (\<lambda>i. get32 ?e (o' + 12 + 4 * i)) [0..<NDIRECT + 1] = map (\<lambda>i. d_addrs x ! i) [0..<NDIRECT + 1]"
    unfolding e using fold_put32_get [OF fits] by (intro map_cong) auto
  also have "\<dots> = d_addrs x" using assms(2) map_nth [of "d_addrs x"] by simp
  finally have addrs: "map (\<lambda>i. get32 ?e (o' + 12 + 4 * i)) [0..<NDIRECT + 1] = d_addrs x" .
  have low: "get_le k ?e off = get_le k ?d5 off" if "off + k \<le> o' + 12" for k off
    unfolding e using that by (intro fold_put32_other [OF fits]) simp
  have "get32 ?e (o' + 8) = d_size x" using l len by (simp add: low get_put_same)
  moreover have "get16 ?e o' = d_type x" "get16 ?e (o' + 2) = d_major x" "get16 ?e (o' + 4) = d_minor x" "get16 ?e (o' + 6) = d_nlink x"
    using l len by (simp_all add: low get_put_other get_put_same)
  ultimately show "get_dinode ?e o' = x" using addrs by (simp add: get_dinode_def)
  assume apart: "o' + sizeof_dinode \<le> o2 \<or> o2 + sizeof_dinode \<le> o'"
  have keep: "get_le k ?e off = get_le k d off" if "off + k \<le> o' \<or> o' + 64 \<le> off" for k off
  proof -
    have "get_le k ?e off = get_le k ?d5 off"
      unfolding e using that by (intro fold_put32_other [OF fits]) (auto simp: NDIRECT_def)
    then show ?thesis using that l len by (elim disjE) (simp_all add: get_put_other)
  qed
  have g: "get_le k ?e off = get_le k d off" if "o2 \<le> off" "off + k \<le> o2 + 64" for off k
    using that apart by (intro keep) (auto simp: sizeof_dinode_def)
  show "get_dinode ?e o2 = get_dinode d o2"
    unfolding get_dinode_def by (simp add: g NDIRECT_def)
qed

text \<open>The slot of an inode in its block.\<close>

lemma IPB_16: "IPB = 16"
  by (simp add: IPB_def BSIZE_def sizeof_dinode_def)

lemma slot_fits: "dinode_off i + sizeof_dinode \<le> BSIZE"
proof -
  have "unat i mod 16 < 16" by simp
  then show ?thesis unfolding dinode_off_def IPB_16 by (simp add: BSIZE_def sizeof_dinode_def)
qed

lemma slots_apart:
  assumes "unat i mod IPB \<noteq> unat j mod IPB"
  shows "dinode_off i + sizeof_dinode \<le> dinode_off j \<or> dinode_off j + sizeof_dinode \<le> dinode_off i"
  using assms by (cases "unat i mod IPB < unat j mod IPB") (auto simp: dinode_off_def sizeof_dinode_def)

text \<open>The inode the disk holds under a number, as the cache stands for it.\<close>

definition disk_inode :: "superblock \<Rightarrow> (u32 \<Rightarrow> byte list) \<Rightarrow> u32 \<Rightarrow> dinode" where
  "disk_inode sbk v i = get_dinode (v (IBLOCK i sbk)) (dinode_off i)"

lemma IBLOCK_eq: "IBLOCK i x = IBLOCK j x \<longleftrightarrow> unat i div IPB = unat j div IPB"
proof -
  have d: "unat (i div of_nat IPB) = unat i div IPB" for i :: u32 by (simp add: unat_div IPB_16)
  have "IBLOCK i x = IBLOCK j x \<longleftrightarrow> unat (i div of_nat IPB) = unat (j div of_nat IPB)"
    by (simp add: IBLOCK_def word_unat_eq_iff [symmetric])
  then show ?thesis by (simp only: d)
qed

lemma disk_inode_put:
  assumes "length (v (IBLOCK i x)) = BSIZE" "length (d_addrs y) = NDIRECT + 1"
  shows "disk_inode x (v(IBLOCK i x := put_dinode y (v (IBLOCK i x)) (dinode_off i))) j =
    (if j = i then y else disk_inode x v j)"
proof -
  have fits: "dinode_off i + sizeof_dinode \<le> length (v (IBLOCK i x))" using slot_fits assms(1) by simp
  note put = put_dinode_fields [OF fits assms(2)]
  show ?thesis
  proof (cases "IBLOCK j x = IBLOCK i x")
    case True
    then have "unat j mod IPB \<noteq> unat i mod IPB" if "j \<noteq> i"
      using that IBLOCK_eq [of j x i] by (metis div_mult_mod_eq word_unat_eq_iff)
    then show ?thesis using True put(2) put(3) [of "dinode_off j"] slots_apart [of i j] by (auto simp: disk_inode_def)
  qed (auto simp: disk_inode_def)
qed

text \<open>Writing an inode back.\<close>

lemma iupdate_ok:
  assumes T: "in_trans p s a" and x: "readable a (IBLOCK (i_inum (itable s ip)) (sb s))" and room: "log_room 1 (log s)"
    and dev: "i_dev (itable s ip) = ROOTDEV"
  defines "i \<equiv> i_inum (itable s ip)"
  defines "n \<equiv> IBLOCK i (sb s)"
  shows "\<exists>t. iupdate ip s = Ret () t \<and> tx_frame p s t \<and>
    in_trans p t (a_logged (n \<in> logged_set (log s)) n (put_dinode (inode_disk (itable s ip)) (a_view a n) (dinode_off i)) a)"
proof -
  have "iupdate ip s = tx_update n (\<lambda>d. put_dinode (inode_disk (itable s ip)) d (dinode_off i)) s"
    by (simp add: iupdate_def tx_update_def exec_simps dev n_def i_def)
  then show ?thesis using tx_write [OF T x room, of "\<lambda>d. put_dinode (inode_disk (itable s ip)) d (dinode_off i)"]
    unfolding n_def i_def by auto
qed

text \<open>Loading an inode: the entry of the table gets the fields of the inode on disk.\<close>

definition loaded :: "dinode \<Rightarrow> inode \<Rightarrow> inode" where
  "loaded y x = x\<lparr>i_type := d_type y, i_major := d_major y, i_minor := d_minor y, i_nlink := d_nlink y, i_size := d_size y,
     i_addrs := d_addrs y, i_valid := True\<rparr>"

lemma loaded_simps [simp]: "inode_disk (loaded y x) = y" "i_valid (loaded y x)"
  by (simp_all add: inode_disk_def loaded_def)

lemma bcrel_upd_other [simp]:
  "bcrel p (upd_inode i f s) a = bcrel p s a" "bcrel p (upd_sleep (InodeLock j) g s) a = bcrel p s a"
  by (simp_all add: bcrel_def quiet_def mypid_def buf_locks_def) (simp_all add: upd_inode_def upd_sleep_def)

lemma ilock_ok:
  assumes R: "bcrel p s a" and x: "readable a (IBLOCK (i_inum (itable s j)) (sb s))"
    and e: "1 \<le> i_ref (itable s j)" "\<not> i_valid (itable s j)" "i_dev (itable s j) = ROOTDEV" "\<not> sl_locked (sleeplocks s (InodeLock j))"
  defines "y \<equiv> disk_inode (sb s) (a_view a) (i_inum (itable s j))"
  shows "d_type y = 0 \<Longrightarrow> ilock j s = Panic ''ilock: no type''"
    "d_type y \<noteq> 0 \<Longrightarrow> \<exists>t. ilock j s = Ret () t \<and> bcrel p t a \<and> itable t = (itable s)(j := loaded y (itable s j)) \<and>
      sl_locked (sleeplocks t (InodeLock j)) \<and> log t = log s \<and> sb t = sb s"
proof -
  let ?s1 = "upd_sleep (InodeLock j) (sl_owned (p_pid (procs s p))) s" and ?n = "IBLOCK (i_inum (itable s j)) (sb s)"
  have q: "quiet p s" using R by (simp add: bcrel_def)
  have acq: "acquiresleep (InodeLock j) s = Ret () ?s1" using quietD [OF q] e(4) by (intro acquiresleep_free)
  have sel: "itable ?s1 = itable s" "sb ?s1 = sb s" "log ?s1 = log s" "sl_locked (sleeplocks ?s1 (InodeLock j))"
    by (simp_all add: upd_sleep_def sl_owned_def)
  have "bcrel p ?s1 a" using R by simp
  from bc.read_ok [OF this, of ?n] x obtain b t where
    t: "bread ROOTDEV ?n ?s1 = Ret b t" "bcrel p t (a_get ?n a)" "holds (bufs t) b ?n" "bio_frame p ?s1 t" by (auto simp: readable_def)
  have d: "get_dinode (b_data (bufs t b)) (dinode_off (i_inum (itable s j))) = y"
    using bc.data_ok [OF t(2,3)] by (simp add: acache_defs y_def disk_inode_def)
  let ?f = "\<lambda>x. x\<lparr>i_type := d_type y, i_major := d_major y, i_minor := d_minor y, i_nlink := d_nlink y, i_size := d_size y, i_addrs := d_addrs y\<rparr>"
  have "bcrel p (upd_inode j ?f t) (a_get ?n a)" "holds (bufs (upd_inode j ?f t)) b ?n" using t(2,3) by (simp_all add: upd_inode_def bcrel_def quiet_def mypid_def buf_locks_def)
  moreover have "a_rc (a_get ?n a) ?n = 1 \<longrightarrow> a_view (a_get ?n a) ?n = a_disk (a_get ?n a) ?n"
    using bc.clean [OF R, of ?n] by (simp add: acache_defs)
  ultimately obtain u where u: "brelse b (upd_inode j ?f t) = Ret () u" "bcrel p u (a_put ?n (a_get ?n a))" "bio_frame p (upd_inode j ?f t) u"
    using bc.put_ok [of p "upd_inode j ?f t" "a_get ?n a" b ?n] by auto
  have same: "a_put ?n (a_get ?n a) = a" using x by (intro acache.equality) (auto simp: acache_defs readable_def)
  have it: "itable t = itable s" "sb t = sb s" "log t = log s" using bio_frame_select [OF t(4)] sel by simp_all
  have run: "ilock j s = (if d_type y = 0 then Panic ''ilock: no type'' else Ret () (upd_inode j (\<lambda>x. x\<lparr>i_valid := True\<rparr>) u))"
    using e acq t(1) u(1) sel d by (simp add: ilock_def exec_simps buf_data_def Let_def)
  show "d_type y = 0 \<Longrightarrow> ilock j s = Panic ''ilock: no type''" using run by simp
  assume ty: "d_type y \<noteq> 0"
  let ?u = "upd_inode j (\<lambda>x. x\<lparr>i_valid := True\<rparr>) u"
  have iu: "itable u = (itable s)(j := ?f (itable s j))" "sb u = sb s" "log u = log s"
    using bio_frame_select [OF u(3)] it by (simp_all add: upd_inode_def)
  have sl: "sleeplocks u (InodeLock j) = sleeplocks (upd_inode j ?f t) (InodeLock j)" "sleeplocks t (InodeLock j) = sleeplocks ?s1 (InodeLock j)"
    using u(3) t(4) unfolding bio_frame_def by blast+
  have "itable ?u = (itable s)(j := loaded y (itable s j))" "sb ?u = sb s" "log ?u = log s" "bcrel p ?u a"
    using iu u(2) same by (simp_all add: upd_inode_def loaded_def bcrel_def quiet_def mypid_def buf_locks_def)
  moreover have "sl_locked (sleeplocks ?u (InodeLock j))" using sl sel(4) by (simp add: upd_inode_def)
  ultimately show "\<exists>t. ilock j s = Ret () t \<and> bcrel p t a \<and> itable t = (itable s)(j := loaded y (itable s j)) \<and>
      sl_locked (sleeplocks t (InodeLock j)) \<and> log t = log s \<and> sb t = sb s" using run ty by auto
qed

section \<open>The inode table\<close>

text \<open>No inode has two entries in use, and no reference count is negative.\<close>

definition itable_ok :: "(nat \<Rightarrow> inode) \<Rightarrow> bool" where
  "itable_ok t \<longleftrightarrow> (\<forall>i<NINODE. 0 \<le> i_ref (t i)) \<and>
     (\<forall>i<NINODE. \<forall>j<NINODE. 0 < i_ref (t i) \<longrightarrow> 0 < i_ref (t j) \<longrightarrow> i_dev (t i) = i_dev (t j) \<longrightarrow> i_inum (t i) = i_inum (t j) \<longrightarrow> i = j)"

definition entry_for :: "u32 \<Rightarrow> u32 \<Rightarrow> inode \<Rightarrow> bool" where
  "entry_for dev inum x \<longleftrightarrow> 0 < i_ref x \<and> i_dev x = dev \<and> i_inum x = inum"

lemma iget_eq:
  assumes "settled s" "lock_free ItableLock s"
  shows "iget dev inum s = (case first_index (\<lambda>i. entry_for dev inum (itable s i)) NINODE of
      Some i \<Rightarrow> Ret i (upd_inode i (\<lambda>x. x\<lparr>i_ref := i_ref x + 1\<rparr>) s)
    | None \<Rightarrow> (case first_index (\<lambda>i. i_ref (itable s i) = 0) NINODE of
        None \<Rightarrow> Panic ''iget: no inodes''
      | Some i \<Rightarrow> Ret i (upd_inode i (\<lambda>x. x\<lparr>i_dev := dev, i_inum := inum, i_ref := 1, i_valid := False\<rparr>) s)))"
  using assms by (simp add: iget_def entry_for_def exec_simps lock_exec split: option.splits)

section \<open>Paths\<close>

text \<open>The elements of a path: the non-empty stretches between slashes.\<close>

primrec pieces :: "byte list \<Rightarrow> byte list list" where
  "pieces [] = [[]]"
| "pieces (c # cs) = (if c = SLASH then [] # pieces cs else (c # hd (pieces cs)) # tl (pieces cs))"

definition path_elems :: "byte list \<Rightarrow> byte list list" where
  "path_elems path = filter (\<lambda>e. e \<noteq> []) (pieces path)"

lemma pieces_ne [simp]: "pieces p \<noteq> []"
  by (induction p) auto

lemma pieces_split:
  "pieces p = takeWhile (\<lambda>c. c \<noteq> SLASH) p #
     (case dropWhile (\<lambda>c. c \<noteq> SLASH) p of [] \<Rightarrow> [] | c # cs \<Rightarrow> pieces cs)"
  by (induction p) auto

lemma path_elems_slash: "path_elems (dropWhile (\<lambda>c. c = SLASH) p) = path_elems p"
  by (induction p) (auto simp: path_elems_def)

lemma path_elems_Cons:
  assumes "p \<noteq> []" "hd p \<noteq> SLASH"
  shows "path_elems p = takeWhile (\<lambda>c. c \<noteq> SLASH) p # path_elems (dropWhile (\<lambda>c. c \<noteq> SLASH) p)"
proof -
  have ne: "takeWhile (\<lambda>c. c \<noteq> SLASH) p \<noteq> []" using assms by (cases p) auto
  show ?thesis
  proof (cases "dropWhile (\<lambda>c. c \<noteq> SLASH) p")
    case Nil
    then have "pieces p = [takeWhile (\<lambda>c. c \<noteq> SLASH) p]" using pieces_split [of p] by (simp only: list.case)
    then show ?thesis using ne unfolding path_elems_def Nil by simp
  next
    case (Cons c cs)
    then have "c = SLASH" using hd_dropWhile [of "\<lambda>c. c \<noteq> SLASH" p] by simp
    then show ?thesis using ne Cons pieces_split [of p] by (simp add: path_elems_def)
  qed
qed

text \<open>The string a name buffer of \<open>DIRSIZ\<close> bytes holds: up to its NUL, or all of it.\<close>

definition name_string :: "byte list \<Rightarrow> byte list" where
  "name_string b = takeWhile (\<lambda>c. c \<noteq> 0) (take DIRSIZ b)"

lemma name_string_set:
  assumes "0 \<notin> set e" "length b = DIRSIZ"
  shows "name_string (if length e \<ge> DIRSIZ then take DIRSIZ e else e @ 0 # drop (length e + 1) b) = take DIRSIZ e"
proof -
  have all: "takeWhile (\<lambda>c. c \<noteq> 0) (take n e) = take n e" for n
    using assms(1) by (intro takeWhile_eq_all_conv [THEN iffD2]) (auto dest: in_set_takeD)
  show ?thesis
  proof (cases "length e \<ge> DIRSIZ")
    case True
    then show ?thesis using all by (simp add: name_string_def)
  next
    case False
    have "takeWhile (\<lambda>c. c \<noteq> 0) (e @ 0 # ys) = e" for ys using assms(1) by (subst takeWhile_append2) auto
    moreover from False have "take DIRSIZ (e @ 0 # drop (length e + 1) b) = e @ take (DIRSIZ - length e) (0 # drop (length e + 1) b)" by simp
    moreover have "take (DIRSIZ - length e) (0 # drop (length e + 1) b) = 0 # take (DIRSIZ - length e - 1) (drop (length e + 1) b)"
      using False by (simp add: take_Cons')
    ultimately show ?thesis using False by (simp add: name_string_def)
  qed
qed

section \<open>Correctness\<close>

text \<open>
  C24. \<open>skipelem\<close> splits paths. It answers nothing exactly when the path has no element left, slashes apart; otherwise the name
  buffer holds the first element, cut off after 14 bytes, the rest of the path has exactly the other elements, starts with no slash
  and is strictly shorter, so that the loop of \<open>namex\<close> over the elements ends.
\<close>
theorem skipelem_spec:
  assumes "0 \<notin> set path" "length name = DIRSIZ"
  shows "case skipelem path name of
      None \<Rightarrow> path_elems path = []
    | Some (rest, name') \<Rightarrow> \<exists>e. path_elems path = e # path_elems rest \<and> e \<noteq> [] \<and> name_string name' = take DIRSIZ e \<and>
        length name' = DIRSIZ \<and> (rest = [] \<or> hd rest \<noteq> SLASH) \<and> length rest < length path \<and> 0 \<notin> set rest"
proof -
  let ?p = "dropWhile (\<lambda>c. c = SLASH) path"
  let ?e = "takeWhile (\<lambda>c. c \<noteq> SLASH) ?p" and ?q = "dropWhile (\<lambda>c. c \<noteq> SLASH) ?p"
  let ?r = "dropWhile (\<lambda>c. c = SLASH) ?q"
  show ?thesis
  proof (cases "?p = []")
    case True
    then have "path_elems path = path_elems []" using path_elems_slash [of path] by (simp only:)
    then show ?thesis unfolding skipelem_def Let_def True by (simp add: path_elems_def)
  next
    case False
    then have hd: "hd ?p \<noteq> SLASH" using hd_dropWhile [of "\<lambda>c. c = SLASH" path] by simp
    then have e: "?e \<noteq> []" using False by (cases ?p) auto
    have elems: "path_elems path = ?e # path_elems ?r"
      using path_elems_Cons [OF False hd] path_elems_slash [of path] path_elems_slash [of ?q] by simp
    have "length ?p = length ?e + length ?q" by (metis length_append takeWhile_dropWhile_id)
    moreover have "length ?p \<le> length path" "length ?r \<le> length ?q" by (rule length_dropWhile_le)+
    ultimately have short: "length ?r < length path" using e by (cases ?e) auto
    have dw: "set (dropWhile P xs) \<subseteq> set xs" and tw: "set (takeWhile P xs) \<subseteq> set xs" for P and xs :: "byte list"
      using set_dropWhileD set_takeWhileD by fast+
    have sub: "set ?e \<subseteq> set path" "set ?r \<subseteq> set path"
      by (rule order_trans [OF tw dw], rule order_trans [OF dw order_trans [OF dw dw]])
    have "?r = [] \<or> hd ?r \<noteq> SLASH" using hd_dropWhile [of "\<lambda>c. c = SLASH" ?q] by auto
    moreover have "name_string (if length ?e \<ge> DIRSIZ then take DIRSIZ ?e else ?e @ 0 # drop (length ?e + 1) name) = take DIRSIZ ?e"
      using name_string_set [of ?e name] assms sub by blast
    moreover have "length (if length ?e \<ge> DIRSIZ then take DIRSIZ ?e else ?e @ 0 # drop (length ?e + 1) name) = DIRSIZ"
      using assms(2) by auto
    ultimately show ?thesis
      using False elems e short assms(1) sub by (auto simp: skipelem_def Let_def)
  qed
qed

theorem skipelem_spec_witness:
  "skipelem (str ''//usr/bin'') (replicate 14 0) = Some (str ''bin'', str ''usr'' @ replicate 11 0) \<and>
   path_elems (str ''//usr/bin'') = str ''usr'' # path_elems (str ''bin'')"
proof -
  have eq: "skipelem (str ''//usr/bin'') (replicate 14 0) = Some (str ''bin'', str ''usr'' @ replicate 11 0)"
    by code_simp
  have "0 \<notin> set (str ''//usr/bin'')" by code_simp
  from skipelem_spec [OF this, of "replicate 14 0"] show ?thesis
    unfolding eq by (simp add: DIRSIZ_def) (simp add: path_elems_def str_def SLASH_def)
qed

text \<open>
  C15. The inode table has one entry per inode. \<open>iget\<close> on a table where no inode has two entries in use returns an entry for the
  inode asked for with one reference more, either the one in use for it or a free one, then marked as not yet loaded; no other
  entry changes and the table still has no inode twice. It panics exactly when there is no entry for the inode and none is free.
\<close>
theorem iget_spec:
  assumes "settled s" "lock_free ItableLock s" "itable_ok (itable s)"
  shows "case iget dev inum s of
      Ret i t \<Rightarrow> i < NINODE \<and> entry_for dev inum (itable t i) \<and> itable_ok (itable t) \<and> (\<forall>j. j \<noteq> i \<longrightarrow> itable t j = itable s j) \<and>
        (if entry_for dev inum (itable s i) then itable t i = (itable s i)\<lparr>i_ref := i_ref (itable s i) + 1\<rparr>
         else i_ref (itable s i) = 0 \<and> i_ref (itable t i) = 1 \<and> \<not> i_valid (itable t i)) \<and> t = s\<lparr>itable := itable t\<rparr>
    | Panic e \<Rightarrow> e = ''iget: no inodes'' \<and> (\<forall>i<NINODE. i_ref (itable s i) \<noteq> 0 \<and> \<not> entry_for dev inum (itable s i))
    | Switched t \<Rightarrow> False
    | Spin \<Rightarrow> False"
proof (cases "first_index (\<lambda>i. entry_for dev inum (itable s i)) NINODE")
  case (Some i)
  then have i: "i < NINODE" "entry_for dev inum (itable s i)" by (simp_all add: first_index_Some)
  have "itable_ok ((itable s)(i := (itable s i)\<lparr>i_ref := i_ref (itable s i) + 1\<rparr>))"
    using assms(3) i unfolding itable_ok_def entry_for_def by (auto split: if_splits)
  then show ?thesis
    unfolding iget_eq [OF assms(1,2)] Some using i by (auto simp: upd_inode_def entry_for_def)
next
  case None
  then have none: "\<not> entry_for dev inum (itable s j)" if "j < NINODE" for j using that by (simp add: first_index_None)
  show ?thesis
  proof (cases "first_index (\<lambda>i. i_ref (itable s i) = 0) NINODE")
    case empty: None
    then have "\<forall>i<NINODE. i_ref (itable s i) \<noteq> 0" by (simp add: first_index_None)
    then show ?thesis unfolding iget_eq [OF assms(1,2)] None option.case empty using none by simp
  next
    case (Some i)
    let ?x = "(itable s i)\<lparr>i_dev := dev, i_inum := inum, i_ref := 1, i_valid := False\<rparr>"
    have i: "i < NINODE" "i_ref (itable s i) = 0" using Some by (simp_all add: first_index_Some)
    have "itable_ok ((itable s)(i := ?x))"
      using assms(3) none unfolding itable_ok_def entry_for_def by (auto split: if_splits)
    then show ?thesis
      unfolding iget_eq [OF assms(1,2)] None option.case Some using i none [OF i(1)] by (auto simp: upd_inode_def entry_for_def)
  qed
qed

theorem iget_spec_witness: "\<exists>t. iget 1 7 (zero_world example_syms) = Ret 0 t \<and> entry_for 1 7 (itable t 0)"
proof -
  let ?s = "zero_world example_syms"
  have s: "settled ?s" "lock_free ItableLock ?s" "itable_ok (itable ?s)" "itable ?s = (\<lambda>_. zero_inode)"
    by (simp_all add: zero_world_def settled_def lock_free_def itable_ok_def zero_inode_def)
  have z: "\<not> entry_for 1 7 zero_inode" "i_ref zero_inode = 0" by (simp_all add: entry_for_def zero_inode_def)
  have "first_index (\<lambda>i. entry_for 1 7 (itable ?s i)) NINODE = None" "first_index (\<lambda>i. i_ref (itable ?s i) = 0) NINODE = Some 0"
    unfolding s(4) first_index_None first_index_Some using z by (auto simp: NINODE_def)
  then have "\<exists>t. iget 1 7 ?s = Ret 0 t" by (simp add: iget_eq [OF s(1,2)])
  then show ?thesis using iget_spec [OF s(1-3), of 1 7] by auto
qed

text \<open>
  C14. Inodes survive the disk. Inside a transaction, \<open>iupdate\<close> of a table entry always returns; afterwards the inode of that
  number is, as far as any reader of the disk through the cache can tell, the one in memory, and every other inode is what it was.
  When the inode is not free, \<open>ilock\<close> of any entry for it that has not been loaded yet returns with the lock held and the entry
  loaded with exactly the fields that were written.
\<close>
theorem inode_write_read:
  assumes "in_trans p s a" "readable a (IBLOCK (i_inum (itable s ip)) (sb s))" "log_room 1 (log s)"
    and "length (a_view a (IBLOCK (i_inum (itable s ip)) (sb s))) = BSIZE" "length (i_addrs (itable s ip)) = NDIRECT + 1"
    and "i_dev (itable s ip) = ROOTDEV"
  shows "\<exists>t a'. iupdate ip s = Ret () t \<and> in_trans p t a' \<and> tx_frame p s t \<and>
    (\<forall>i. disk_inode (sb s) (a_view a') i =
       (if i = i_inum (itable s ip) then inode_disk (itable s ip) else disk_inode (sb s) (a_view a) i)) \<and>
    (\<forall>j. i_inum (itable s j) = i_inum (itable s ip) \<and> i_dev (itable s j) = ROOTDEV \<and> 1 \<le> i_ref (itable s j) \<and> \<not> i_valid (itable s j) \<and>
       \<not> sl_locked (sleeplocks t (InodeLock j)) \<and> i_type (itable s ip) \<noteq> 0 \<and> a_rc a (IBLOCK (i_inum (itable s ip)) (sb s)) + 3 < 2 ^ 32 \<longrightarrow>
       (\<exists>u. ilock j t = Ret () u \<and> sl_locked (sleeplocks u (InodeLock j)) \<and> i_valid (itable u j) \<and>
          inode_disk (itable u j) = inode_disk (itable s ip)))"
proof -
  let ?i = "i_inum (itable s ip)"
  let ?n = "IBLOCK ?i (sb s)"
  let ?a = "a_logged (?n \<in> logged_set (log s)) ?n (put_dinode (inode_disk (itable s ip)) (a_view a ?n) (dinode_off ?i)) a"
  obtain t where t: "iupdate ip s = Ret () t" "tx_frame p s t" "in_trans p t ?a"
    using iupdate_ok [OF assms(1-3,6)] by blast
  have v: "a_view ?a = (a_view a)(?n := put_dinode (inode_disk (itable s ip)) (a_view a ?n) (dinode_off ?i))" by (simp add: a_logged_def)
  have len: "length (d_addrs (inode_disk (itable s ip))) = NDIRECT + 1" using assms(5) by (simp add: inode_disk_def)
  have di: "disk_inode (sb s) (a_view ?a) i = (if i = ?i then inode_disk (itable s ip) else disk_inode (sb s) (a_view a) i)" for i
    unfolding v by (rule disk_inode_put [of "a_view a" ?i "sb s", OF assms(4) len])
  have st: "itable t = itable s" "sb t = sb s" using tx_frame_select [OF t(2)] by simp_all
  have R: "bcrel p t ?a" using t(3) by (simp add: in_trans_def)
  have "\<exists>u. ilock j t = Ret () u \<and> sl_locked (sleeplocks u (InodeLock j)) \<and> i_valid (itable u j) \<and> inode_disk (itable u j) = inode_disk (itable s ip)"
    if j: "i_inum (itable s j) = ?i" "i_dev (itable s j) = ROOTDEV" "1 \<le> i_ref (itable s j)" "\<not> i_valid (itable s j)"
      "\<not> sl_locked (sleeplocks t (InodeLock j))" "i_type (itable s ip) \<noteq> 0" "a_rc a ?n + 3 < 2 ^ 32" for j
  proof -
    have "0 < a_rc ?a ?n" using assms(1) by (auto simp: a_logged_def in_trans_def)
    then have rd: "readable ?a ?n" using assms(2) j(7) by (auto simp: readable_def a_logged_def)
    have "d_type (inode_disk (itable s ip)) \<noteq> 0" using j(6) by (simp add: inode_disk_def)
    then obtain u where "ilock j t = Ret () u" "itable u = (itable t)(j := loaded (inode_disk (itable s ip)) (itable t j))"
      "sl_locked (sleeplocks u (InodeLock j))"
      using ilock_ok(2) [OF R, of j] rd j(1-5) di [of ?i] by (auto simp: st)
    then show ?thesis by (intro exI [of _ u]) simp
  qed
  then show ?thesis using t di by (intro exI [of _ t] exI [of _ ?a]) blast
qed

text \<open>Two table entries for inode 7, one loaded and one not.\<close>

definition example_ifs :: kworld where
  "example_ifs = upd_inode 0 (\<lambda>x. x\<lparr>i_dev := ROOTDEV, i_inum := 7, i_ref := 1, i_valid := True, i_type := 2, i_size := 33\<rparr>)
     (upd_inode 1 (\<lambda>x. x\<lparr>i_dev := ROOTDEV, i_inum := 7, i_ref := 1\<rparr>) example_fs)"

theorem inode_write_read_witness:
  "\<exists>t u. iupdate 0 example_ifs = Ret () t \<and> ilock 1 t = Ret () u \<and> i_size (itable u 1) = 33"
proof -
  have it: "itable example_ifs = (\<lambda>_. zero_inode)(1 := zero_inode\<lparr>i_dev := ROOTDEV, i_inum := 7, i_ref := 1\<rparr>,
      0 := zero_inode\<lparr>i_dev := ROOTDEV, i_inum := 7, i_ref := 1, i_valid := True, i_type := 2, i_size := 33\<rparr>)"
    and lg: "log example_ifs = log example_log" and sl: "sleeplocks example_ifs = sleeplocks example_log"
    by (simp_all add: example_ifs_def upd_inode_def example_fs_def example_log_def upd_log_def example_bcache_def zero_world_def)
  have tr: "in_trans 0 example_ifs example_fcache"
    using example_fs_trans by (simp add: in_trans_def example_ifs_def) (simp add: upd_inode_def)
  have rd: "readable example_fcache n" for n
    by (simp add: readable_def example_fcache_def example_cache_def a_used_def NBUF_def)
  have lr: "log_room 1 (log example_ifs)" by (simp add: lg log_room_def example_log_simps LOGSIZE_30)
  have len: "length (a_view example_fcache n) = BSIZE" for n
    by (simp add: example_fcache_def example_cache_def example_map_def BSIZE_def)
  have rc: "a_rc example_fcache n + 3 < 2 ^ 32" for n by (simp add: example_fcache_def example_cache_def)
  obtain t where t: "iupdate 0 example_ifs = Ret () t" "tx_frame 0 example_ifs t"
    "\<not> sl_locked (sleeplocks t (InodeLock 1)) \<longrightarrow> (\<exists>u. ilock 1 t = Ret () u \<and> inode_disk (itable u 1) = inode_disk (itable example_ifs 0))"
    using inode_write_read [OF tr rd lr len, of 0] rc by (auto simp: it zero_inode_def NDIRECT_def)
  have "sleeplocks t (InodeLock 1) = sleeplocks example_log (InodeLock 1)"
    using t(2) unfolding tx_frame_def bio_frame_def by (simp add: sl upd_lh_def upd_log_def)
  then have "\<not> sl_locked (sleeplocks t (InodeLock 1))"
    by (simp add: example_log_def upd_log_def example_bcache_def zero_world_def)
  then obtain u where u: "ilock 1 t = Ret () u" "inode_disk (itable u 1) = inode_disk (itable example_ifs 0)" using t(3) by blast
  then have "i_size (itable u 1) = 33" by (simp add: inode_disk_def it)
  with t(1) u(1) show ?thesis by blast
qed

end
