(* ===== verification/Filemap.thy ===== *)
theory Filemap
  imports Inode
begin

text \<open>
  Files as sequences of bytes (\<open>bmap\<close>, \<open>readi\<close> of \<open>kernel/fs.c\<close>). An inode and the blocks of the disk, as the cache stands for them, determine the
  byte at every position; \<open>bmap\<close> finds the block of a position and may add one without changing the file, \<open>readi\<close> reads a stretch of the bytes.
\<close>

section \<open>A file as a sequence of bytes\<close>

text \<open>The address of block \<open>bn\<close> of the file with inode \<open>x\<close>, 0 if there is none.\<close>

definition block_addr :: "(u32 \<Rightarrow> byte list) \<Rightarrow> inode \<Rightarrow> nat \<Rightarrow> u32" where
  "block_addr v x bn =
     (if bn < NDIRECT then i_addrs x ! bn
      else if i_addrs x ! NDIRECT = 0 then 0 else get32 (v (i_addrs x ! NDIRECT)) (4 * (bn - NDIRECT)))"

text \<open>Where a file has no block it has zeros.\<close>

definition file_byte :: "(u32 \<Rightarrow> byte list) \<Rightarrow> inode \<Rightarrow> nat \<Rightarrow> byte" where
  "file_byte v x i = (let b = block_addr v x (i div BSIZE) in if b = 0 then 0 else v b ! (i mod BSIZE))"

definition contents :: "(u32 \<Rightarrow> byte list) \<Rightarrow> inode \<Rightarrow> byte list" where
  "contents v x = map (file_byte v x) [0..<unat (i_size x)]"

lemma length_file_contents [simp]: "length (contents v x) = unat (i_size x)"
  by (simp add: contents_def)

lemma MAXFILE_268: "MAXFILE = 268" "NDIRECT = 12" "NINDIRECT = 256"
  by (simp_all add: MAXFILE_def NDIRECT_def NINDIRECT_def BSIZE_def)

lemma BSIZE_pos [simp]: "0 < BSIZE"
  by (simp add: BSIZE_def)

lemma unat_small: "n < 2 ^ 32 \<Longrightarrow> unat (of_nat n :: u32) = n"
  by (simp add: unat_of_nat)

lemma block_words:
  assumes "bn < MAXFILE"
  shows "unat (of_nat bn :: u32) = bn" "(of_nat bn :: u32) < of_nat NDIRECT \<longleftrightarrow> bn < NDIRECT"
    "NDIRECT \<le> bn \<Longrightarrow> (of_nat bn :: u32) - of_nat NDIRECT = of_nat (bn - NDIRECT)"
    "NDIRECT \<le> bn \<Longrightarrow> unat (of_nat (bn - NDIRECT) :: u32) = bn - NDIRECT"
    "NDIRECT \<le> bn \<Longrightarrow> (of_nat (bn - NDIRECT) :: u32) < of_nat NINDIRECT"
proof -
  have *: "unat (of_nat m :: u32) = m" if "m \<le> MAXFILE" for m using that by (intro unat_small) (simp add: MAXFILE_268)
  have bn: "bn < 268" using assms by (simp add: MAXFILE_268)
  show "unat (of_nat bn :: u32) = bn" using assms by (simp add: *)
  show "(of_nat bn :: u32) < of_nat NDIRECT \<longleftrightarrow> bn < NDIRECT"
    using assms * [of bn] * [of NDIRECT] by (simp add: word_less_nat_alt MAXFILE_268)
  assume n: "NDIRECT \<le> bn"
  then show "(of_nat bn :: u32) - of_nat NDIRECT = of_nat (bn - NDIRECT)" by (simp add: of_nat_diff)
  show "unat (of_nat (bn - NDIRECT) :: u32) = bn - NDIRECT" using assms by (simp add: *)
  show "(of_nat (bn - NDIRECT) :: u32) < of_nat NINDIRECT"
    using n bn * [of "bn - NDIRECT"] * [of NINDIRECT] by (simp add: word_less_nat_alt MAXFILE_268)
qed

section \<open>Reading\<close>

text \<open>The indirect block is read and let go.\<close>

lemma bmap_mapped:
  assumes R: "bcrel p s a" and bn: "bn < MAXFILE" and dev: "i_dev (itable s ip) = ROOTDEV"
    and addr: "block_addr (a_view a) (itable s ip) bn \<noteq> 0"
    and ind: "NDIRECT \<le> bn \<Longrightarrow> readable a (i_addrs (itable s ip) ! NDIRECT)"
  shows "\<exists>t. bmap ip (of_nat bn) s = Ret (block_addr (a_view a) (itable s ip) bn) t \<and> bcrel p t a \<and> bio_frame p s t"
proof (cases "bn < NDIRECT")
  case True
  then show ?thesis using R addr block_words [OF bn] by (simp add: bmap_def exec_simps block_addr_def Let_def)
next
  case False
  let ?i = "i_addrs (itable s ip) ! NDIRECT"
  have i: "?i \<noteq> 0" using addr False by (auto simp: block_addr_def)
  have n: "NDIRECT \<le> bn" using False by simp
  note w = block_words(1,2) [OF bn] block_words(3-5) [OF bn n]
  obtain b t u where b: "bread ROOTDEV ?i s = Ret b t" "b_data (bufs t b) = a_view a ?i" "brelse b t = Ret () u" "bcrel p u a" "bio_frame p s u"
    using bc.peek_ok [OF R, of ?i] ind [OF n] by (auto simp: readable_def)
  have "get32 (a_view a ?i) (4 * (bn - NDIRECT)) \<noteq> 0" using addr False i by (simp add: block_addr_def)
  then show ?thesis using b i False by (simp add: bmap_def exec_simps Let_def w dev buf_data_def block_addr_def del: of_nat_diff)
qed

text \<open>A file all of whose blocks up to its size are there and can be read.\<close>

definition file_readable :: "acache \<Rightarrow> inode \<Rightarrow> bool" where
  "file_readable a x \<longleftrightarrow> unat (i_size x) \<le> MAXFILE * BSIZE \<and>
     (\<forall>bn. bn * BSIZE < unat (i_size x) \<longrightarrow> block_addr (a_view a) x bn \<noteq> 0 \<and> readable a (block_addr (a_view a) x bn) \<and>
        length (a_view a (block_addr (a_view a) x bn)) = BSIZE \<and> (NDIRECT \<le> bn \<longrightarrow> readable a (i_addrs x ! NDIRECT)))"

text \<open>The bytes of one block.\<close>

lemma block_bytes:
  assumes "block_addr v x (k div BSIZE) \<noteq> 0" "length (v (block_addr v x (k div BSIZE))) = BSIZE" "m \<le> BSIZE - k mod BSIZE"
  shows "take m (drop (k mod BSIZE) (v (block_addr v x (k div BSIZE)))) = map (file_byte v x) [k..<k + m]"
proof (rule nth_equalityI)
  fix j
  let ?b = "block_addr v x (k div BSIZE)"
  assume "j < length (take m (drop (k mod BSIZE) (v ?b)))"
  then have j: "j < m" "k mod BSIZE + j < BSIZE" using assms by auto
  have "k + j = k div BSIZE * BSIZE + (k mod BSIZE + j)" by simp
  then have "(k + j) div BSIZE = k div BSIZE" "(k + j) mod BSIZE = k mod BSIZE + j"
    using j(2) by (metis BSIZE_pos add.commute div_less div_mult_self1 add_0 less_numeral_extra(3), metis mod_less mod_mult_self3)
  then show "take m (drop (k mod BSIZE) (v ?b)) ! j = map (file_byte v x) [k..<k + m] ! j"
    using j assms by (simp add: file_byte_def)
qed (use assms in auto)

lemma readi_round:
  assumes R: "bcrel p s a" and f: "file_readable a (itable s ip)" and dev: "i_dev (itable s ip) = ROOTDEV"
    and n: "off + n \<le> unat (i_size (itable s ip))" "tot < n"
  defines "m \<equiv> span (n - tot) (off + tot)"
  shows "\<exists>t. readi_step ip LocalDst off n (tot, got) s =
      Ret (Inl (tot + m, got @ map (file_byte (a_view a) (itable s ip)) [off + tot..<off + tot + m])) t \<and> bcrel p t a \<and> bio_frame p s t"
proof -
  let ?x = "itable s ip" and ?k = "off + tot"
  let ?b = "block_addr (a_view a) ?x (?k div BSIZE)"
  have "?k div BSIZE * BSIZE < unat (i_size ?x)" using n div_times_less_eq_dividend [of ?k BSIZE] by linarith
  then have b: "?b \<noteq> 0" "readable a ?b" "length (a_view a ?b) = BSIZE" "NDIRECT \<le> ?k div BSIZE \<Longrightarrow> readable a (i_addrs ?x ! NDIRECT)"
    and "?k div BSIZE * BSIZE < MAXFILE * BSIZE"
    using f unfolding file_readable_def by (metis, metis, metis, metis, linarith)
  then have lt: "?k div BSIZE < MAXFILE" by simp
  from bmap_mapped [OF R lt dev b(1) b(4)] obtain t where
    t: "bmap ip (of_nat (?k div BSIZE)) s = Ret ?b t" "bcrel p t a" "bio_frame p s t" by blast
  have it: "itable t = itable s" using bio_frame_select [OF t(3)] by simp
  obtain c u w where c: "bread ROOTDEV ?b t = Ret c u" "b_data (bufs u c) = a_view a ?b" "brelse c u = Ret () w" "bcrel p w a" "bio_frame p t w"
    using bc.peek_ok [OF t(2), of ?b] b(2) by (auto simp: readable_def)
  have "m \<le> BSIZE - ?k mod BSIZE" by (simp add: m_def span_def)
  then have "take m (drop (?k mod BSIZE) (a_view a ?b)) = map (file_byte (a_view a) ?x) [?k..<?k + m]"
    using block_bytes [OF b(1,3)] by simp
  moreover have "bio_frame p s w" using t(3) c(5) bio_frame_trans by blast
  ultimately show ?thesis
    using t(1) c n(2) b(1) by (simp add: readi_step_def exec_simps it dev buf_data_def Let_def m_def [symmetric])
qed

lemma span_pos: "0 < left \<Longrightarrow> 0 < span left off"
  by (simp add: span_def)

lemma readi_loop:
  assumes "bcrel p s a" "file_readable a (itable s ip)" "i_dev (itable s ip) = ROOTDEV" "off + n \<le> unat (i_size (itable s ip))" "tot \<le> n"
  shows "\<exists>t. kloop (readi_step ip LocalDst off n) (tot, got) s =
      Ret (int n, got @ map (file_byte (a_view a) (itable s ip)) [off + tot..<off + n]) t \<and> bcrel p t a \<and> bio_frame p s t"
  using assms
proof (induction "n - tot" arbitrary: tot got s rule: less_induct)
  case less
  show ?case
  proof (cases "tot < n")
    case False
    then have "readi_step ip LocalDst off n (tot, got) s = Ret (Inr (int n, got)) s" using less.prems(5) by (simp add: readi_step_def exec_simps)
    from kloop_done [where body = "readi_step ip LocalDst off n", OF this] False show ?thesis using less.prems by simp
  next
    case True
    let ?m = "span (n - tot) (off + tot)" and ?g = "file_byte (a_view a) (itable s ip)"
    obtain t where t: "readi_step ip LocalDst off n (tot, got) s = Ret (Inl (tot + ?m, got @ map ?g [off + tot..<off + tot + ?m])) t"
      "bcrel p t a" "bio_frame p s t"
      using readi_round [OF less.prems(1-4) True] by blast
    have it: "itable t = itable s" using bio_frame_select [OF t(3)] by simp
    have m: "0 < ?m" "tot + ?m \<le> n" using True span_pos [of "n - tot"] by (simp_all add: span_def)
    then have "n - (tot + ?m) < n - tot" by simp
    from less.hyps [OF this t(2), of "got @ map ?g [off + tot..<off + tot + ?m]"] less.prems(2-4) m(2) obtain u where
      u: "kloop (readi_step ip LocalDst off n) (tot + ?m, got @ map ?g [off + tot..<off + tot + ?m]) t =
          Ret (int n, (got @ map ?g [off + tot..<off + tot + ?m]) @ map ?g [off + (tot + ?m)..<off + n]) u" "bcrel p u a" "bio_frame p t u"
      unfolding it by blast
    have "[off + tot..<off + n] = [off + tot..<off + tot + ?m] @ [off + (tot + ?m)..<off + n]"
      using upt_add_eq_append [of "off + tot" "off + tot + ?m" "n - (tot + ?m)"] m by (simp add: add.assoc)
    then have "map ?g [off + tot..<off + n] = map ?g [off + tot..<off + tot + ?m] @ map ?g [off + (tot + ?m)..<off + n]" by simp
    moreover have "bio_frame p s u" using t(3) u(3) bio_frame_trans by blast
    ultimately show ?thesis using kloop_round [where body = "readi_step ip LocalDst off n", OF t(1)] u(1,2) by simp
  qed
qed

text \<open>The number of bytes that \<open>readi\<close> reads of those asked for.\<close>

lemma readi_reads:
  assumes R: "bcrel p s a" and f: "file_readable a (itable s ip)" and dev: "i_dev (itable s ip) = ROOTDEV"
    and n: "unat off + unat n < 2 ^ 32" "off \<le> i_size (itable s ip)"
  defines "m \<equiv> min (unat n) (unat (i_size (itable s ip)) - unat off)"
  shows "\<exists>t. readi ip LocalDst off n s = Ret (int m, take m (drop (unat off) (contents (a_view a) (itable s ip)))) t \<and> bcrel p t a \<and> bio_frame p s t"
proof -
  let ?sz = "i_size (itable s ip)" and ?g = "file_byte (a_view a) (itable s ip)"
  have un: "unat (off + n) = unat off + unat n" using n(1) unat_add_lem [of off n] by simp
  then have no: "\<not> off + n < off" by (simp add: word_less_nat_alt)
  have "unat (?sz - off) = unat ?sz - unat off" using n(2) by (rule unat_sub)
  then have m: "unat (if off + n > ?sz then ?sz - off else n) = m" by (auto simp: m_def word_less_nat_alt un)
  have le: "unat off + m \<le> unat ?sz" using n(2) by (auto simp: m_def word_le_nat_alt)
  from readi_loop [OF R f dev this, of 0 "[]"] obtain t where
    t: "kloop (readi_step ip LocalDst (unat off) m) (0, []) s = Ret (int m, map ?g [unat off..<unat off + m]) t" "bcrel p t a" "bio_frame p s t" by auto
  have "take m (drop (unat off) (contents (a_view a) (itable s ip))) = map ?g [unat off..<unat off + m]"
    using le by (simp add: contents_def drop_map take_map)
  moreover have "readi ip LocalDst off n s = kloop (readi_step ip LocalDst (unat off) m) (0, []) s"
    using no n(2) by (simp add: readi_def exec_simps Let_def m leD)
  ultimately show ?thesis using t by simp
qed

section \<open>The blocks of a file\<close>

text \<open>The addresses a file has: those of its blocks and, as number \<open>MAXFILE\<close>, that of the indirect block.\<close>

definition slot :: "(u32 \<Rightarrow> byte list) \<Rightarrow> inode \<Rightarrow> nat \<Rightarrow> u32" where
  "slot v x k = (if k < MAXFILE then block_addr v x k else i_addrs x ! NDIRECT)"

definition own :: "(u32 \<Rightarrow> byte list) \<Rightarrow> inode \<Rightarrow> u32 set" where
  "own v x = slot v x ` {..MAXFILE} - {0}"

definition bitmap :: "superblock \<Rightarrow> u32 set" where
  "bitmap sbk = (\<lambda>n. BBLOCK (of_nat n) sbk) ` {..<unat (sb_size sbk)}"

text \<open>The blocks that no file may have: the map, the inodes and block 0.\<close>

definition meta :: "superblock \<Rightarrow> u32 set" where
  "meta sbk = insert 0 (bitmap sbk \<union> (\<lambda>i. IBLOCK (of_nat i) sbk) ` {..<unat (sb_ninodes sbk)})"

definition blocks_ok :: "superblock \<Rightarrow> (u32 \<Rightarrow> byte list) \<Rightarrow> bool" where
  "blocks_ok sbk v \<longleftrightarrow> (\<forall>c. length (v c) = BSIZE) \<and> (\<forall>c\<in>meta sbk. unat c < unat (sb_size sbk) \<and> in_use sbk v c) \<and>
     (\<forall>i<unat (sb_ninodes sbk). IBLOCK (of_nat i) sbk \<notin> bitmap sbk)"

text \<open>The addresses of a file are in use, are not those of the file system itself, and differ.\<close>

definition file_ok :: "superblock \<Rightarrow> (u32 \<Rightarrow> byte list) \<Rightarrow> inode \<Rightarrow> bool" where
  "file_ok sbk v x \<longleftrightarrow> length (i_addrs x) = NDIRECT + 1 \<and>
     (\<forall>c\<in>own v x. unat c < unat (sb_size sbk) \<and> in_use sbk v c \<and> c \<notin> meta sbk) \<and>
     (\<forall>j\<le>MAXFILE. \<forall>k\<le>MAXFILE. slot v x j = slot v x k \<longrightarrow> slot v x j \<noteq> 0 \<longrightarrow> j = k)"

lemma slot_own: "k \<le> MAXFILE \<Longrightarrow> slot v x k \<noteq> 0 \<Longrightarrow> slot v x k \<in> own v x"
  by (simp add: own_def)

lemma file_okD:
  assumes "file_ok sbk v x" "k \<le> MAXFILE" "slot v x k \<noteq> 0"
  shows "unat (slot v x k) < unat (sb_size sbk)" "in_use sbk v (slot v x k)" "slot v x k \<notin> meta sbk"
  using assms slot_own [OF assms(2,3)] by (simp_all add: file_ok_def)

text \<open>
  A file gets one more address: from \<open>(v, x)\<close> to \<open>(v', x')\<close>, block \<open>b\<close> becomes address number \<open>k\<close>. At most the map, the indirect block and the new
  block change.
\<close>

definition gains :: "superblock \<Rightarrow> (u32 \<Rightarrow> byte list) \<Rightarrow> inode \<Rightarrow> nat \<Rightarrow> u32 \<Rightarrow> (u32 \<Rightarrow> byte list) \<Rightarrow> inode \<Rightarrow> bool" where
  "gains sbk v x k b v' x' \<longleftrightarrow> k \<le> MAXFILE \<and> slot v x k = 0 \<and> unat b < unat (sb_size sbk) \<and> \<not> in_use sbk v b \<and>
     (\<forall>j\<le>MAXFILE. slot v' x' j = (if j = k then b else slot v x j)) \<and> x' = x\<lparr>i_addrs := i_addrs x'\<rparr> \<and> length (i_addrs x') = NDIRECT + 1 \<and>
     (\<forall>c. length (v' c) = BSIZE) \<and> v' b = replicate BSIZE 0 \<and>
     (\<forall>c. c \<notin> bitmap sbk \<longrightarrow> c \<noteq> b \<longrightarrow> c = 0 \<or> c \<noteq> slot v x MAXFILE \<longrightarrow> v' c = v c) \<and>
     (\<forall>c. unat c < unat (sb_size sbk) \<longrightarrow> in_use sbk v' c = (c = b \<or> in_use sbk v c))"

text \<open>What a change of one file leaves alone: the blocks in use that do not belong to the file or to the file system itself.\<close>

definition spares :: "superblock \<Rightarrow> (u32 \<Rightarrow> byte list) \<Rightarrow> inode \<Rightarrow> (u32 \<Rightarrow> byte list) \<Rightarrow> inode \<Rightarrow> bool" where
  "spares sbk v x v' x' \<longleftrightarrow> (\<forall>c. unat c < unat (sb_size sbk) \<longrightarrow> in_use sbk v c \<longrightarrow> in_use sbk v' c \<and> (c \<in> own v' x' \<longrightarrow> c \<in> own v x) \<and>
     (c \<notin> meta sbk \<longrightarrow> c \<notin> own v x \<longrightarrow> v' c = v c))"

lemma spares_refl [simp]: "spares sbk v x v x"
  by (simp add: spares_def)

lemma spares_trans: "spares sbk v x v1 x1 \<Longrightarrow> spares sbk v1 x1 v2 x2 \<Longrightarrow> spares sbk v x v2 x2"
  unfolding spares_def by metis

text \<open>What holds of the file system and of the file when the file has grown; the bytes of the file do not change.\<close>

definition extends :: "superblock \<Rightarrow> (u32 \<Rightarrow> byte list) \<Rightarrow> inode \<Rightarrow> (u32 \<Rightarrow> byte list) \<Rightarrow> inode \<Rightarrow> bool" where
  "extends sbk v x v' x' \<longleftrightarrow> blocks_ok sbk v' \<and> file_ok sbk v' x' \<and> x' = x\<lparr>i_addrs := i_addrs x'\<rparr> \<and>
     (\<forall>i<MAXFILE * BSIZE. file_byte v' x' i = file_byte v x i) \<and>
     (\<forall>k\<le>MAXFILE. slot v x k \<noteq> 0 \<longrightarrow> slot v' x' k = slot v x k) \<and> spares sbk v x v' x'"

lemma fresh_not_meta: "blocks_ok sbk v \<Longrightarrow> \<not> in_use sbk v b \<Longrightarrow> b \<notin> meta sbk"
  by (auto simp: blocks_ok_def)

lemma bitmap_meta: "c \<in> bitmap sbk \<Longrightarrow> c \<in> meta sbk" "0 \<in> meta sbk"
  by (simp_all add: meta_def)

lemma gains_slots:
  assumes g: "gains sbk v x k b v' x'" and ok: "blocks_ok sbk v" "file_ok sbk v x"
  shows "own v' x' = insert b (own v x)" "b \<notin> own v x" "b \<notin> meta sbk"
proof -
  have b: "b \<notin> meta sbk" using fresh_not_meta [OF ok(1)] g by (simp add: gains_def)
  then have "b \<noteq> 0" using bitmap_meta(2) by metis
  moreover have k: "k \<in> {..MAXFILE}" "slot v x k = 0" using g by (simp_all add: gains_def)
  moreover have "slot v' x' j = (if j = k then b else slot v x j)" if "j \<in> {..MAXFILE}" for j using g that by (simp add: gains_def)
  then have "slot v' x' ` {..MAXFILE} = (\<lambda>j. if j = k then b else slot v x j) ` {..MAXFILE}" by (rule image_cong [OF refl])
  moreover have "(\<lambda>j. if j = k then b else slot v x j) ` {..MAXFILE} - {0} = insert b (slot v x ` {..MAXFILE} - {0})"
    using k \<open>b \<noteq> 0\<close> by (auto simp: image_iff split: if_splits)
  ultimately show "own v' x' = insert b (own v x)" by (simp add: own_def)
  show "b \<notin> own v x" using g ok(2) by (auto simp: gains_def file_ok_def)
  show "b \<notin> meta sbk" by (rule b)
qed

lemma gains_file_ok:
  assumes g: "gains sbk v x k b v' x'" and ok: "blocks_ok sbk v" "file_ok sbk v x"
  shows "blocks_ok sbk v'" "file_ok sbk v' x'"
proof -
  note own = gains_slots [OF assms]
  have sl: "slot v' x' j = (if j = k then b else slot v x j)" if "j \<le> MAXFILE" for j using g that by (simp add: gains_def)
  have use: "in_use sbk v' c = (c = b \<or> in_use sbk v c)" if "unat c < unat (sb_size sbk)" for c using g that by (simp add: gains_def)
  show "blocks_ok sbk v'" using ok(1) use g by (auto simp: blocks_ok_def gains_def)
  have "unat c < unat (sb_size sbk) \<and> in_use sbk v' c \<and> c \<notin> meta sbk" if "c \<in> own v' x'" for c
    using that ok(2) own g use by (auto simp: file_ok_def gains_def)
  moreover have "j = l" if "j \<le> MAXFILE" "l \<le> MAXFILE" "slot v' x' j = slot v' x' l" "slot v' x' j \<noteq> 0" for j l
  proof -
    have "slot v x i \<noteq> b" if "i \<le> MAXFILE" for i
      using own(2,3) slot_own [OF that, of v x] bitmap_meta(2) by (cases "slot v x i = 0") auto
    then show ?thesis using that ok(2) unfolding sl [OF that(1)] sl [OF that(2)] by (auto simp: file_ok_def split: if_splits)
  qed
  ultimately show "file_ok sbk v' x'" using g unfolding file_ok_def gains_def by blast
qed

lemma gains_byte:
  assumes g: "gains sbk v x k b v' x'" and ok: "blocks_ok sbk v" "file_ok sbk v x" and i: "i < MAXFILE * BSIZE"
  shows "file_byte v' x' i = file_byte v x i"
proof -
  let ?n = "i div BSIZE"
  have n: "?n < MAXFILE" using i by (simp add: less_mult_imp_div_less)
  then have sl: "block_addr v x ?n = slot v x ?n" "block_addr v' x' ?n = slot v' x' ?n" by (simp_all add: slot_def)
  have s': "slot v' x' ?n = (if ?n = k then b else slot v x ?n)" using g n by (simp add: gains_def)
  have b: "b \<noteq> 0" "v' b = replicate BSIZE 0" using gains_slots(3) [OF g ok] bitmap_meta(2) g by (auto simp: gains_def)
  show ?thesis
  proof (cases "?n = k \<or> slot v x ?n = 0")
    case True
    then show ?thesis using b g by (auto simp: file_byte_def Let_def sl s' gains_def)
  next
    case False
    let ?c = "slot v x ?n"
    have "?c \<in> own v x" using slot_own n False by simp
    then have "?c \<noteq> b" using gains_slots(2) [OF g ok] by metis
    moreover have "?c \<notin> bitmap sbk" using file_okD(3) [OF ok(2), of ?n] n False bitmap_meta(1) by auto
    moreover have "?c \<noteq> slot v x MAXFILE" using ok(2) n False unfolding file_ok_def by (metis less_imp_le less_irrefl order_refl)
    ultimately have "v' ?c = v ?c" using g by (simp add: gains_def)
    then show ?thesis using False by (simp add: file_byte_def Let_def sl s')
  qed
qed

lemma gains_extends:
  assumes g: "gains sbk v x k b v' x'" and ok: "blocks_ok sbk v" "file_ok sbk v x"
  shows "extends sbk v x v' x'"
proof -
  note own = gains_slots [OF assms]
  have "v' c = v c" if "in_use sbk v c" "c \<notin> meta sbk" "c \<notin> own v x" "unat c < unat (sb_size sbk)" for c
  proof -
    have "c = 0 \<or> c \<noteq> slot v x MAXFILE" using that(3) slot_own [of MAXFILE v x] by auto
    then show ?thesis using g that bitmap_meta(1) [of c sbk] by (auto simp: gains_def)
  qed
  then have "spares sbk v x v' x'" using own g by (auto simp: spares_def gains_def)
  then show ?thesis
    using gains_file_ok [OF assms] gains_byte [OF assms] g unfolding extends_def gains_def by auto
qed

lemma extends_refl: "blocks_ok sbk v \<Longrightarrow> file_ok sbk v x \<Longrightarrow> extends sbk v x v x"
  by (simp add: extends_def)

lemma extends_trans:
  assumes "extends sbk v x v1 x1" "extends sbk v1 x1 v2 x2"
  shows "extends sbk v x v2 x2"
proof -
  have x: "x1 = x\<lparr>i_addrs := i_addrs x1\<rparr>" "x2 = x1\<lparr>i_addrs := i_addrs x2\<rparr>" using assms by (simp_all add: extends_def)
  have "x1\<lparr>i_addrs := z\<rparr> = x\<lparr>i_addrs := z\<rparr>" for z using arg_cong [OF x(1), of "\<lambda>y. y\<lparr>i_addrs := z\<rparr>"] by simp
  with x(2) have "x2 = x\<lparr>i_addrs := i_addrs x2\<rparr>" by simp
  moreover have "slot v2 x2 k = slot v x k" if "k \<le> MAXFILE" "slot v x k \<noteq> 0" for k using assms that by (simp add: extends_def)
  moreover have "spares sbk v x v2 x2" using assms spares_trans unfolding extends_def by blast
  ultimately show ?thesis using assms unfolding extends_def by simp
qed

lemma allocated_facts:
  assumes ok: "blocks_ok sbk v" and b: "unat b < unat (sb_size sbk)" "\<not> in_use sbk v b"
  shows "length (allocated sbk b v c) = BSIZE" "allocated sbk b v b = replicate BSIZE 0"
    "c \<notin> bitmap sbk \<Longrightarrow> c \<noteq> b \<Longrightarrow> allocated sbk b v c = v c"
    "unat c < unat (sb_size sbk) \<Longrightarrow> in_use sbk (allocated sbk b v) c = (c = b \<or> in_use sbk v c)"
proof -
  have bm: "BBLOCK c sbk \<in> bitmap sbk" if "unat c < unat (sb_size sbk)" for c
    unfolding bitmap_def using that by (intro image_eqI [of _ _ "unat c"]) simp_all
  have len: "length (v c) = BSIZE" for c using ok by (simp add: blocks_ok_def)
  show "length (allocated sbk b v c) = BSIZE" by (simp add: allocated_def set_bit_at_def len)
  show "allocated sbk b v b = replicate BSIZE 0" by (simp add: allocated_def)
  show "allocated sbk b v c = v c" if "c \<notin> bitmap sbk" "c \<noteq> b" using that bm [OF b(1)] by (auto simp: allocated_def)
  assume c: "unat c < unat (sb_size sbk)"
  have "BBLOCK c sbk \<noteq> b" using bm [OF c] bitmap_meta(1) fresh_not_meta [OF ok b(2)] by metis
  then show "in_use sbk (allocated sbk b v) c = (c = b \<or> in_use sbk v c)"
    using in_use_changed(1) [where v = v and b = b and x = sbk and c = c, OF len] by (simp add: in_use_def allocated_def)
qed

text \<open>A new block in one of the direct addresses.\<close>

lemma ind_kept:
  assumes ok: "blocks_ok sbk v" "file_ok sbk v x" and b: "unat b < unat (sb_size sbk)" "\<not> in_use sbk v b"
    and i: "i_addrs x ! NDIRECT \<noteq> 0"
  shows "allocated sbk b v (i_addrs x ! NDIRECT) = v (i_addrs x ! NDIRECT)" "i_addrs x ! NDIRECT \<noteq> b"
proof -
  have s: "slot v x MAXFILE = i_addrs x ! NDIRECT" by (simp add: slot_def)
  note d = file_okD [OF ok(2), of MAXFILE, unfolded s, OF order_refl i]
  then show "i_addrs x ! NDIRECT \<noteq> b" using b(2) by metis
  with d show "allocated sbk b v (i_addrs x ! NDIRECT) = v (i_addrs x ! NDIRECT)"
    using allocated_facts(3) [OF ok(1) b] bitmap_meta(1) by blast
qed

lemma gains_direct:
  assumes ok: "blocks_ok sbk v" "file_ok sbk v x" and b: "unat b < unat (sb_size sbk)" "\<not> in_use sbk v b"
    and k: "k < NDIRECT" "i_addrs x ! k = 0"
  shows "gains sbk v x k b (allocated sbk b v) (x\<lparr>i_addrs := (i_addrs x)[k := b]\<rparr>)"
proof -
  have len: "length (i_addrs x) = NDIRECT + 1" using ok(2) by (simp add: file_ok_def)
  have "slot (allocated sbk b v) (x\<lparr>i_addrs := (i_addrs x)[k := b]\<rparr>) j = (if j = k then b else slot v x j)" if "j \<le> MAXFILE" for j
    using k len that ind_kept(1) [OF ok b] by (auto simp: slot_def block_addr_def nth_list_update MAXFILE_268)
  moreover have "k \<le> MAXFILE" "slot v x k = 0" using k by (simp_all add: slot_def block_addr_def MAXFILE_268)
  ultimately show ?thesis using allocated_facts [OF ok(1) b] b len by (simp add: gains_def)
qed

text \<open>A new indirect block.\<close>

lemma gains_root:
  assumes ok: "blocks_ok sbk v" "file_ok sbk v x" and b: "unat b < unat (sb_size sbk)" "\<not> in_use sbk v b"
    and k: "i_addrs x ! NDIRECT = 0"
  shows "gains sbk v x MAXFILE b (allocated sbk b v) (x\<lparr>i_addrs := (i_addrs x)[NDIRECT := b]\<rparr>)"
proof -
  have len: "length (i_addrs x) = NDIRECT + 1" using ok(2) by (simp add: file_ok_def)
  have z: "get32 (allocated sbk b v b) j = 0" for j by (simp add: allocated_facts(2) [OF ok(1) b] get_le_def)
  have "slot (allocated sbk b v) (x\<lparr>i_addrs := (i_addrs x)[NDIRECT := b]\<rparr>) j = (if j = MAXFILE then b else slot v x j)" if "j \<le> MAXFILE" for j
    using k len that z by (auto simp: slot_def block_addr_def nth_list_update MAXFILE_268)
  moreover have "slot v x MAXFILE = 0" using k by (simp add: slot_def)
  ultimately show ?thesis using allocated_facts [OF ok(1) b] b len by (simp add: gains_def)
qed

text \<open>A new block in one of the addresses of the indirect block.\<close>

lemma gains_leaf:
  assumes ok: "blocks_ok sbk v" "file_ok sbk v x" and b: "unat b < unat (sb_size sbk)" "\<not> in_use sbk v b"
    and k: "NDIRECT \<le> k" "k < MAXFILE" "i_addrs x ! NDIRECT \<noteq> 0" "block_addr v x k = 0"
  defines "i \<equiv> i_addrs x ! NDIRECT"
  shows "gains sbk v x k b ((allocated sbk b v)(i := put32 (v i) (4 * (k - NDIRECT)) b)) x"
proof -
  let ?v = "(allocated sbk b v)(i := put32 (v i) (4 * (k - NDIRECT)) b)"
  have len: "length (i_addrs x) = NDIRECT + 1" "length (v i) = BSIZE" using ok by (simp_all add: file_ok_def blocks_ok_def)
  have fits: "4 * (j - NDIRECT) + 4 \<le> length (v i)" if "j < MAXFILE" for j using that by (simp add: len(2) BSIZE_def MAXFILE_268)
  have i0: "i \<noteq> 0" "i \<noteq> b" using k(3) ind_kept(2) [OF ok b] by (simp_all add: i_def)
  have put: "get32 (put32 (v i) (4 * (k - NDIRECT)) b) (4 * (j - NDIRECT)) = (if j = k then b else get32 (v i) (4 * (j - NDIRECT)))"
    if "NDIRECT \<le> j" "j < MAXFILE" for j
  proof (cases "j = k")
    case False
    then have "4 * (k - NDIRECT) + 4 \<le> 4 * (j - NDIRECT) \<or> 4 * (j - NDIRECT) + 4 \<le> 4 * (k - NDIRECT)" using that k(1) by linarith
    with False show ?thesis using get_put_other [OF fits [OF k(2)]] by simp
  qed (simp add: get_put_same [OF fits [OF k(2)]])
  have "slot ?v x j = (if j = k then b else slot v x j)" if "j \<le> MAXFILE" for j
    using k i0 put [of j] that by (auto simp: slot_def block_addr_def i_def [symmetric])
  moreover have "slot v x k = 0" "slot v x MAXFILE = i" using k by (simp_all add: slot_def i_def)
  moreover have "length (?v c) = BSIZE" for c using allocated_facts(1) [OF ok(1) b] fits [OF k(2)] len(2) by simp
  moreover have "in_use sbk ?v c = in_use sbk (allocated sbk b v) c" if "unat c < unat (sb_size sbk)" for c
  proof -
    have "BBLOCK c sbk \<in> bitmap sbk" unfolding bitmap_def using that by (intro image_eqI [of _ _ "unat c"]) simp_all
    moreover have "i \<notin> meta sbk" using file_okD(3) [OF ok(2), of MAXFILE] i0 by (simp add: slot_def i_def)
    ultimately have "BBLOCK c sbk \<noteq> i" using bitmap_meta(1) by metis
    then show ?thesis by (simp add: in_use_def)
  qed
  ultimately show ?thesis using allocated_facts [OF ok(1) b] b len(1) k(2) i0 by (simp add: gains_def)
qed

section \<open>Writing one block of a file\<close>

lemma rewrite_slots:
  assumes ok: "file_ok sbk v x" and n: "n < MAXFILE" "slot v x n \<noteq> 0" and k: "k \<le> MAXFILE"
  shows "slot (v(slot v x n := d)) x k = slot v x k"
proof -
  have "slot v x n \<noteq> i_addrs x ! NDIRECT"
    using ok n unfolding file_ok_def slot_def [of v x MAXFILE] by (metis slot_def less_imp_le less_irrefl order_refl)
  then show ?thesis by (simp add: slot_def block_addr_def)
qed

lemma rewrite_in_use:
  assumes "b \<notin> bitmap sbk" "unat c < unat (sb_size sbk)"
  shows "in_use sbk (v(b := d)) c = in_use sbk v c"
proof -
  have "BBLOCK c sbk \<in> bitmap sbk" unfolding bitmap_def using assms(2) by (intro image_eqI [of _ _ "unat c"]) simp_all
  then show ?thesis using assms(1) by (auto simp: in_use_def)
qed

lemma rewrite_file:
  assumes ok: "blocks_ok sbk v" "file_ok sbk v x" and n: "n < MAXFILE" "slot v x n \<noteq> 0" and d: "length d = BSIZE"
  defines "v' \<equiv> v(slot v x n := d)"
  shows "blocks_ok sbk v'" "file_ok sbk v' x" "spares sbk v x v' x"
    "i < MAXFILE * BSIZE \<Longrightarrow> file_byte v' x i = (if i div BSIZE = n then d ! (i mod BSIZE) else file_byte v x i)"
proof -
  let ?b = "slot v x n"
  have b: "?b \<in> own v x" "?b \<notin> meta sbk" using slot_own [of n v x] file_okD(3) [OF ok(2), of n] n by auto
  then have "?b \<notin> bitmap sbk" using bitmap_meta(1) by metis
  then have use: "in_use sbk v' c = in_use sbk v c" if "unat c < unat (sb_size sbk)" for c
    unfolding v'_def using that by (rule rewrite_in_use)
  have sl: "slot v' x k = slot v x k" if "k \<le> MAXFILE" for k unfolding v'_def by (rule rewrite_slots [OF ok(2) n that])
  then have "slot v' x ` {..MAXFILE} = slot v x ` {..MAXFILE}" by (intro image_cong) auto
  then have own: "own v' x = own v x" by (simp add: own_def)
  show "blocks_ok sbk v'" using ok(1) use d by (auto simp: blocks_ok_def v'_def)
  show "file_ok sbk v' x" using ok(2) use sl by (auto simp: file_ok_def own)
  show "spares sbk v x v' x" using use b by (simp add: spares_def own) (auto simp: v'_def)
  assume i: "i < MAXFILE * BSIZE"
  let ?k = "i div BSIZE"
  have k: "?k < MAXFILE" using i by (simp add: less_mult_imp_div_less)
  then have a: "block_addr v x ?k = slot v x ?k" "block_addr v' x ?k = slot v x ?k" using sl [of ?k] by (simp_all add: slot_def)
  have "slot v x ?k \<noteq> ?b" if "?k \<noteq> n" using ok(2) n k that unfolding file_ok_def by (metis less_imp_le)
  then show "file_byte v' x i = (if ?k = n then d ! (i mod BSIZE) else file_byte v x i)"
    using n by (auto simp: file_byte_def Let_def a) (auto simp: v'_def)
qed

section \<open>Room in the log and in the cache\<close>

text \<open>
  Inside a transaction, with the blocks \<open>L\<close> locked, there is room for \<open>k\<close> further blocks in the log and for as many buffers. Each block that is logged, and each
  buffer that is held, takes one.
\<close>

definition tx_ready :: "nat \<Rightarrow> u32 set \<Rightarrow> nat \<Rightarrow> kworld \<Rightarrow> acache \<Rightarrow> bool" where
  "tx_ready p L k s a \<longleftrightarrow> in_trans p s a \<and> a_lk a = L \<and> log_room (int k) (log s) \<and> card (a_used a) + k \<le> NBUF \<and>
     (\<forall>n. a_rc a n + k + 2 < 2 ^ 32)"

lemma ready_rc: "tx_ready p L k s a \<Longrightarrow> a_rc a n + k + 2 < 2 ^ 32"
  by (simp add: tx_ready_def)

lemma ready_less:
  assumes "tx_ready p L k s a" "j \<le> k"
  shows "tx_ready p L j s a"
proof -
  have "a_rc a n + j + 2 < 2 ^ 32" for n using ready_rc [OF assms(1), of n] assms(2) by linarith
  then show ?thesis using assms by (simp add: tx_ready_def log_room_def)
qed

lemma ready_readable:
  assumes "tx_ready p L k s a" "0 < k" "x \<notin> L"
  shows "readable a x"
proof -
  have "a_rc a x + 2 < 2 ^ 32" using ready_rc [OF assms(1), of x] by linarith
  then show ?thesis using assms by (simp add: readable_def tx_ready_def)
qed

lemma ready_trans: "tx_ready p L k s a \<Longrightarrow> in_trans p s a" "tx_ready p L k s a \<Longrightarrow> bcrel p s a"
  by (simp_all add: tx_ready_def in_trans_def)

lemma ready_room: "tx_ready p L k s a \<Longrightarrow> j \<le> k \<Longrightarrow> log_room (int j) (log s)"
  by (simp add: tx_ready_def log_room_def)

lemma card_used_logged: "card (a_used (a_logged old x d a)) \<le> card (a_used a) + 1"
proof -
  have "a_used (a_logged old x d a) \<subseteq> insert x (a_used a)" by (auto simp: a_used_def a_logged_def)
  then have "card (a_used (a_logged old x d a)) \<le> card (insert x (a_used a))" by (intro card_mono) simp_all
  also have "\<dots> \<le> card (a_used a) + 1" by (simp add: card_insert_if)
  finally show ?thesis .
qed

lemma ready_logged:
  assumes "tx_ready p L (Suc k) s a" "in_trans p t (a_logged old x d a)" "log t = (log s)\<lparr>l_lh := log_added x (l_lh (log s))\<rparr>"
  shows "tx_ready p L k t (a_logged old x d a)"
proof -
  have "a_rc (a_logged old x d a) n + k + 2 < 2 ^ 32" for n
  proof -
    have "a_rc (a_logged old x d a) n \<le> a_rc a n + 1" by (simp add: a_logged_def)
    then show ?thesis using ready_rc [OF assms(1), of n] by linarith
  qed
  moreover have "log_room (int k) (log t)" unfolding assms(3) using assms(1) by (intro log_room_added) (simp_all add: tx_ready_def add.commute)
  ultimately show ?thesis using assms card_used_logged [of old x d a] by (simp add: tx_ready_def a_logged_def)
qed

lemma ready_alloc:
  assumes "tx_ready p L (k + 2) s a" "in_trans p t (a_alloc sbk o1 o2 b a)" "log t = alloc_added sbk b (log s)"
  shows "tx_ready p L k t (a_alloc sbk o1 o2 b a)"
proof -
  let ?a1 = "a_logged o1 (BBLOCK b sbk) (set_bit_at (unat b mod BPB) (a_view a (BBLOCK b sbk))) a"
  have rc: "a_rc (a_alloc sbk o1 o2 b a) n + k + 2 < 2 ^ 32" for n
  proof -
    have "a_rc (a_alloc sbk o1 o2 b a) n \<le> a_rc a n + 2" by (simp add: a_alloc_def a_logged_def)
    then show ?thesis using ready_rc [OF assms(1), of n] by linarith
  qed
  have "card (a_used (a_alloc sbk o1 o2 b a)) \<le> card (a_used a) + 2"
    using card_used_logged [of o2 b "replicate BSIZE 0" ?a1] card_used_logged [of o1 "BBLOCK b sbk" "set_bit_at (unat b mod BPB) (a_view a (BBLOCK b sbk))" a]
    unfolding a_alloc_def by linarith
  moreover have "log_room (int k) (log t)"
    using assms(1,3) by (auto simp: tx_ready_def log_room_def alloc_added_def log_added_def)
  ultimately show ?thesis using assms rc by (simp add: tx_ready_def)
qed

text \<open>The number of free blocks.\<close>

definition free_count :: "superblock \<Rightarrow> (u32 \<Rightarrow> byte list) \<Rightarrow> nat" where
  "free_count sbk v = card {n. free_in sbk v n}"

lemma finite_free [simp]: "finite {n. free_in sbk v n}"
  by (rule finite_subset [of _ "{..<unat (sb_size sbk)}"]) (auto simp: free_in_def)

lemma free_count_alloc:
  assumes "unat b < unat (sb_size sbk)" "\<And>c. unat c < unat (sb_size sbk) \<Longrightarrow> in_use sbk v' c = (c = b \<or> in_use sbk v c)"
  shows "free_count sbk v \<le> free_count sbk v' + 1"
proof -
  have small: "unat (of_nat n :: u32) = n" if "n < unat (sb_size sbk)" for n
    using that unat_u32 [of "sb_size sbk"] by (intro unat_small) simp
  then have "of_nat n = b \<longleftrightarrow> n = unat b" if "n < unat (sb_size sbk)" for n using that by (metis of_nat_unat ucast_id)
  then have "{n. free_in sbk v n} \<subseteq> insert (unat b) {n. free_in sbk v' n}"
    using assms(2) small by (auto simp: free_in_def)
  then have "card {n. free_in sbk v n} \<le> card (insert (unat b) {n. free_in sbk v' n})" by (intro card_mono) simp_all
  then show ?thesis by (auto simp: free_count_def card_insert_if split: if_splits)
qed

lemma free_count_same:
  assumes "\<And>c. unat c < unat (sb_size sbk) \<Longrightarrow> in_use sbk v' c = in_use sbk v c"
  shows "free_count sbk v' = free_count sbk v"
proof -
  have "unat (of_nat n :: u32) = n" if "n < unat (sb_size sbk)" for n
    using that unat_u32 [of "sb_size sbk"] by (intro unat_small) simp
  then have "free_in sbk v' n = free_in sbk v n" for n using assms [of "of_nat n"] by (auto simp: free_in_def)
  then show ?thesis by (simp add: free_count_def)
qed

text \<open>\<open>balloc\<close>, while the blocks \<open>L\<close> are locked.\<close>

lemma balloc_ready:
  assumes r: "tx_ready p L (k + 2) s a" and ok: "blocks_ok (sb s) (a_view a)" and free: "0 < free_count (sb s) (a_view a)"
    and L: "\<And>c. c \<in> L \<Longrightarrow> unat c < unat (sb_size (sb s)) \<and> in_use (sb s) (a_view a) c \<and> c \<notin> bitmap (sb s)"
  shows "\<exists>b t o1 o2. balloc ROOTDEV s = Ret b t \<and> unat b < unat (sb_size (sb s)) \<and> \<not> in_use (sb s) (a_view a) b \<and>
    tx_ready p L k t (a_alloc (sb s) o1 o2 b a) \<and> tx_frame p s t \<and> keeps_held a s t \<and> log t = alloc_added (sb s) b (log s)"
proof -
  let ?v = "a_view a" and ?x = "sb s"
  have T: "in_trans p s a" using ready_trans(1) [OF r] .
  have rd: "readable a c" if "c \<notin> L" for c using ready_readable [OF r _ that] by simp
  have bm: "BBLOCK (of_nat n) ?x \<in> bitmap ?x" if "n < unat (sb_size ?x)" for n using that by (simp add: bitmap_def)
  have "of_nat n \<notin> L" if "free_in ?x ?v n" for n using that L [of "of_nat n"] by (auto simp: free_in_def)
  moreover have "BBLOCK (of_nat n) ?x \<notin> L" if "n < unat (sb_size ?x)" for n using bm [OF that] L by blast
  ultimately have "map_ready ?x a"
    using rd bm bitmap_meta(1) ok unfolding map_ready_def blocks_ok_def by (metis (no_types, lifting))
  moreover have "log_room 2 (log s)" using ready_room [OF r, of 2] by simp
  moreover have "card (a_used a) + 1 < NBUF" using r by (simp add: tx_ready_def)
  moreover have "\<exists>n. free_in ?x ?v n" using free by (auto simp: free_count_def card_gt_0_iff)
  ultimately obtain n t o1 o2 where n: "balloc ROOTDEV s = Ret (of_nat n) t" "in_trans p t (a_alloc ?x o1 o2 (of_nat n) a)" "tx_frame p s t"
    "free_in ?x ?v n" "keeps_held a s t" "log t = alloc_added ?x (of_nat n) (log s)"
    using balloc_scans [OF T] by (simp only: if_True) blast
  have "unat (of_nat n :: u32) = n" using n(4) unat_u32 [of "sb_size ?x"] by (intro unat_small) (simp add: free_in_def)
  then show ?thesis using n ready_alloc [OF r n(2) n(6)] by (auto simp: free_in_def)
qed

section \<open>Finding a block, and adding it where there is none\<close>

text \<open>Nothing changes but the cache, the log header, the states of sleeping processes and the inode table.\<close>

definition ifs_frame :: "nat \<Rightarrow> kworld \<Rightarrow> kworld \<Rightarrow> bool" where
  "ifs_frame p s t \<longleftrightarrow> tx_frame p (s\<lparr>itable := itable t\<rparr>) t"

lemma bio_frame_itable: "bio_frame p s t \<Longrightarrow> bio_frame p (s\<lparr>itable := f\<rparr>) (t\<lparr>itable := f\<rparr>)"
proof -
  assume st: "bio_frame p s t"
  then have eq: "t = s\<lparr>bufs := bufs t, sleeplocks := sleeplocks t, procs := procs t, disk := disk t, disk_writes := disk_writes t\<rparr>"
    by (simp add: bio_frame_def)
  have "t\<lparr>itable := f\<rparr> = s\<lparr>itable := f, bufs := bufs t, sleeplocks := sleeplocks t, procs := procs t, disk := disk t, disk_writes := disk_writes t\<rparr>"
    by (subst eq) simp
  then show ?thesis using st by (simp add: bio_frame_def)
qed

lemma tx_frame_itable: "tx_frame p s t \<Longrightarrow> tx_frame p (s\<lparr>itable := f\<rparr>) (t\<lparr>itable := f\<rparr>)"
proof -
  assume st: "tx_frame p s t"
  have "(upd_lh g s)\<lparr>itable := f\<rparr> = upd_lh g (s\<lparr>itable := f\<rparr>)" for g
    by (intro kworld.equality) (simp_all add: upd_lh_def upd_log_def)
  then show ?thesis using bio_frame_itable [OF st [unfolded tx_frame_def], of f] by (simp add: tx_frame_def)
qed

lemma ifs_frame_tx: "tx_frame p s t \<Longrightarrow> ifs_frame p s t"
  by (simp add: ifs_frame_def tx_frame_select(2))

lemma ifs_frame_upd [simp]: "ifs_frame p s (upd_inode ip f s)"
  by (simp add: ifs_frame_def upd_inode_def)

lemma ifs_frame_trans: "ifs_frame p s t \<Longrightarrow> ifs_frame p t u \<Longrightarrow> ifs_frame p s u"
  unfolding ifs_frame_def using tx_frame_itable [of p "s\<lparr>itable := itable t\<rparr>" t "itable u"] tx_frame_trans by fastforce

lemma ifs_frame_refl [simp]: "ifs_frame p s s"
  by (simp add: ifs_frame_def)

lemma ifs_frame_sb: "ifs_frame p s t \<Longrightarrow> sb t = sb s"
  unfolding ifs_frame_def using tx_frame_select(1) [of p "s\<lparr>itable := itable t\<rparr>" t] by simp

lemma in_trans_get:
  assumes "in_trans p s a" "bcrel p t (a_get x a)" "bio_frame p s t"
  shows "in_trans p t (a_get x a)"
  using assms bio_frame_log [OF assms(3)] by (auto simp: in_trans_def a_get_def)

lemma ready_get:
  assumes r: "tx_ready p L (Suc k) s a" and t: "bcrel p t (a_get x a)" "bio_frame p s t"
  shows "tx_ready p (insert x L) k t (a_get x a)"
proof -
  have "a_rc (a_get x a) n + k + 2 < 2 ^ 32" for n
  proof -
    have "a_rc (a_get x a) n \<le> a_rc a n + 1" by (simp add: a_get_def)
    then show ?thesis using ready_rc [OF r, of n] by linarith
  qed
  moreover have "card (insert x (a_used a)) \<le> card (a_used a) + 1" by (simp add: card_insert_if)
  ultimately show ?thesis
    using r in_trans_get [OF ready_trans(1) [OF r] t] bio_frame_log [OF t(2)] by (simp add: tx_ready_def a_used_get log_room_def)
qed

text \<open>Storing into a block that has been held for a while, and letting it go.\<close>

lemma finish_held:
  assumes r: "tx_ready p (insert x L) (Suc k) s a" and x: "x \<notin> L" "holds (bufs s) b x"
    and rc: "of_bool (x \<in> logged_set (log s)) < a_rc a x"
  shows "\<exists>t u a'. kseq [set_data b d, log_write b] s = Ret () t \<and> brelse b t = Ret () u \<and> tx_ready p L k u a' \<and> tx_frame p s u \<and>
    a_view a' = (a_view a)(x := d)"
proof -
  let ?old = "x \<in> logged_set (log s)" and ?a1 = "a_set x d a"
  have R: "bcrel p s a" and xk: "x \<in> a_lk a" using r by (simp_all add: tx_ready_def in_trans_def)
  obtain s1 where s1: "set_data b d s = Ret () s1" "bcrel p s1 ?a1" "bio_frame p s s1" "holds (bufs s1) b x"
    using bc.store_ok [OF R x(2) xk, of d] x(2) by blast
  have l1: "log s1 = log s" using bio_frame_log [OF s1(3)] .
  have T1: "in_trans p s1 ?a1" using ready_trans(1) [OF r] s1(2) by (simp add: in_trans_def l1 a_set_def)
  have "a_rc ?a1 x + 1 < 2 ^ 32" using ready_rc [OF r, of x] by (simp add: a_set_def)
  then obtain s2 where s2: "log_write b s1 = Ret () s2" "bcrel p s2 (if ?old then ?a1 else a_pin x ?a1)" "holds (bufs s2) b x" "tx_frame p s1 s2"
    "log s2 = (log s)\<lparr>l_lh := log_added x (l_lh (log s))\<rparr>"
    using log_write_ok [OF T1 s1(4)] ready_room [OF r, of 1] l1 by auto
  let ?a2 = "if ?old then ?a1 else a_pin x ?a1"
  have "x \<in> a_lk ?a2" "a_rc ?a2 x \<noteq> 1" using xk rc by (auto simp: acache_defs split: if_splits)
  then obtain u where u: "brelse b s2 = Ret () u" "bcrel p u (a_put x ?a2)" "bio_frame p s2 u" using bc.put_ok [OF s2(2,3)] by blast
  let ?a3 = "a_put x ?a2"
  have lu: "log u = (log s)\<lparr>l_lh := log_added x (l_lh (log s))\<rparr>" using bio_frame_log [OF u(3)] s2(5) by simp
  have le: "a_rc ?a3 n \<le> a_rc a n" for n by (auto simp: acache_defs)
  have "0 < a_rc ?a3 n" if "n \<in> insert x (logged_set (log s))" for n
    using that rc ready_trans(1) [OF r] by (auto simp: in_trans_def acache_defs split: if_splits)
  then have T: "in_trans p u ?a3"
    using ready_trans(1) [OF r] u(2) logged_set_added [of "log s" x] by (auto simp: in_trans_def lu log_added_def)
  have "a_rc ?a3 n + k + 2 < 2 ^ 32" for n using le [of n] ready_rc [OF r, of n] by linarith
  moreover have "a_used ?a3 \<subseteq> a_used a" using le by (auto simp: a_used_def intro: less_le_trans)
  then have "card (a_used ?a3) \<le> card (a_used a)" by (intro card_mono) simp_all
  moreover have "log_room (int k) (log u)" unfolding lu using r by (intro log_room_added) (simp_all add: tx_ready_def add.commute)
  moreover have "a_lk ?a3 = L" using r x(1) by (auto simp: tx_ready_def)
  ultimately have "tx_ready p L k u ?a3" using r T by (simp add: tx_ready_def)
  moreover have "tx_frame p s u" using s1(3) s2(4) u(3) tx_frame_bio tx_frame_trans by blast
  moreover have "a_view ?a3 = (a_view a)(x := d)" by (simp add: acache_defs)
  moreover have "kseq [set_data b d, log_write b] s = Ret () s2" using s1(1) s2(1) by (simp add: exec_simps)
  ultimately show ?thesis using u(1) by blast
qed

text \<open>A file of the table that is in order, and what \<open>bmap\<close> does to it.\<close>

definition file_at :: "kworld \<Rightarrow> acache \<Rightarrow> nat \<Rightarrow> bool" where
  "file_at s a ip \<longleftrightarrow> blocks_ok (sb s) (a_view a) \<and> file_ok (sb s) (a_view a) (itable s ip) \<and> i_dev (itable s ip) = ROOTDEV"

definition grown :: "nat \<Rightarrow> nat \<Rightarrow> nat \<Rightarrow> nat \<Rightarrow> kworld \<Rightarrow> acache \<Rightarrow> kworld \<Rightarrow> acache \<Rightarrow> bool" where
  "grown p ip k j s a t a' \<longleftrightarrow> tx_ready p {} k t a' \<and> ifs_frame p s t \<and> itable t = (itable s)(ip := itable t ip) \<and>
     extends (sb s) (a_view a) (itable s ip) (a_view a') (itable t ip) \<and> free_count (sb s) (a_view a) \<le> free_count (sb s) (a_view a') + j"

lemma grown_file: "grown p ip k j s a t a' \<Longrightarrow> file_at s a ip \<Longrightarrow> file_at t a' ip"
proof -
  assume g: "grown p ip k j s a t a'" and f: "file_at s a ip"
  have e: "extends (sb s) (a_view a) (itable s ip) (a_view a') (itable t ip)" and b: "sb t = sb s"
    using g ifs_frame_sb by (auto simp: grown_def)
  have "itable t ip = (itable s ip)\<lparr>i_addrs := i_addrs (itable t ip)\<rparr>" using e by (simp add: extends_def)
  then have "i_dev (itable t ip) = i_dev (itable s ip)" by (metis inode.select_convs(1) inode.surjective inode.update_convs(10))
  then show ?thesis using e f b by (simp add: file_at_def extends_def)
qed

lemma file_grown_trans: "grown p ip k j s a t b \<Longrightarrow> grown p ip l m t b u c \<Longrightarrow> grown p ip l (j + m) s a u c"
proof -
  assume 1: "grown p ip k j s a t b" and 2: "grown p ip l m t b u c"
  have sb: "sb t = sb s" using 1 ifs_frame_sb by (auto simp: grown_def)
  have "itable u = (itable s)(ip := itable u ip)" using 1 2 unfolding grown_def by (metis fun_upd_upd)
  moreover have "extends (sb s) (a_view a) (itable s ip) (a_view c) (itable u ip)" using 1 2 extends_trans unfolding grown_def sb by blast
  moreover have "ifs_frame p s u" using 1 2 ifs_frame_trans unfolding grown_def by blast
  ultimately show ?thesis using 1 2 by (simp add: grown_def sb)
qed

lemma file_grown_refl: "tx_ready p {} k s a \<Longrightarrow> file_at s a ip \<Longrightarrow> grown p ip k 0 s a s a"
  by (simp add: grown_def file_at_def extends_refl)

text \<open>A block is allocated and entered into the addresses of the inode.\<close>

definition bmap_enter :: "nat \<Rightarrow> nat \<Rightarrow> u32 K" where
  "bmap_enter ip j = kbind (balloc ROOTDEV) (\<lambda>addr.
     if addr = 0 then kret 0
     else kbind (kmod (upd_inode ip (\<lambda>x. x\<lparr>i_addrs := (i_addrs x)[j := addr]\<rparr>))) (\<lambda>_. kret addr))"

lemma in_trans_upd_inode [simp]: "in_trans p (upd_inode i f s) a = in_trans p s a"
  by (simp add: in_trans_def) (simp add: upd_inode_def)

lemma tx_ready_upd_inode [simp]: "tx_ready p L k (upd_inode i f s) a = tx_ready p L k s a"
  by (simp add: tx_ready_def) (simp add: upd_inode_def)

lemma bmap_enter_ok:
  assumes r: "tx_ready p {} (k + 2) s a" and f: "file_at s a ip" and free: "0 < free_count (sb s) (a_view a)"
    and j: "j \<le> NDIRECT" "i_addrs (itable s ip) ! j = 0"
  shows "\<exists>t a'. bmap_enter ip j s = Ret (i_addrs (itable t ip) ! j) t \<and> i_addrs (itable t ip) ! j \<noteq> 0 \<and> grown p ip k 1 s a t a'"
proof -
  let ?x = "itable s ip" and ?v = "a_view a"
  have ok: "blocks_ok (sb s) ?v" "file_ok (sb s) ?v ?x" using f by (simp_all add: file_at_def)
  obtain b t o1 o2 where t: "balloc ROOTDEV s = Ret b t" "unat b < unat (sb_size (sb s))" "\<not> in_use (sb s) ?v b"
    "tx_ready p {} k t (a_alloc (sb s) o1 o2 b a)" "tx_frame p s t"
    using balloc_ready [OF r ok(1) free] by blast
  have b: "b \<noteq> 0" using fresh_not_meta [OF ok(1) t(3)] bitmap_meta(2) by metis
  let ?k = "if j = NDIRECT then MAXFILE else j" and ?x' = "?x\<lparr>i_addrs := (i_addrs ?x)[j := b]\<rparr>"
  have g: "gains (sb s) ?v ?x ?k b (allocated (sb s) b ?v) ?x'"
    using gains_direct [OF ok t(2,3), of j] gains_root [OF ok t(2,3)] j by (cases "j = NDIRECT") auto
  have len: "j < length (i_addrs ?x)" using ok(2) j(1) by (simp add: file_ok_def)
  let ?t = "upd_inode ip (\<lambda>x. x\<lparr>i_addrs := (i_addrs x)[j := b]\<rparr>) t"
  have it: "itable ?t = (itable s)(ip := ?x')" using tx_frame_select(2) [OF t(5)] by (simp add: upd_inode_def)
  have "free_count (sb s) ?v \<le> free_count (sb s) (allocated (sb s) b ?v) + 1"
    using t(2) allocated_facts(4) [OF ok(1) t(2,3)] by (rule free_count_alloc)
  moreover have "ifs_frame p s ?t" using ifs_frame_tx [OF t(5)] ifs_frame_upd ifs_frame_trans by blast
  ultimately have "grown p ip k 1 s a ?t (a_alloc (sb s) o1 o2 b a)"
    using t(4) gains_extends [OF g ok] by (simp add: grown_def it)
  moreover have "bmap_enter ip j s = Ret (i_addrs (itable ?t ip) ! j) ?t" using t(1) b len by (simp add: bmap_enter_def exec_simps it)
  moreover have "i_addrs (itable ?t ip) ! j \<noteq> 0" using b len by (simp add: it)
  ultimately show ?thesis by blast
qed

text \<open>The address in the indirect block \<open>ind\<close>.\<close>

definition bmap_leaf :: "u32 \<Rightarrow> nat \<Rightarrow> u32 K" where
  "bmap_leaf ind j =
     kbind (bread ROOTDEV ind) (\<lambda>bp.
     kbind (buf_data bp) (\<lambda>d.
     kbind
       (if get32 d (4 * j) \<noteq> 0 then kret (get32 d (4 * j))
        else kbind (balloc ROOTDEV) (\<lambda>addr.
          kbind (kwhen (addr \<noteq> 0) (kseq [set_data bp (put32 d (4 * j) addr), log_write bp])) (\<lambda>_. kret addr))) (\<lambda>addr.
     kbind (brelse bp) (\<lambda>_. kret addr))))"

lemma bmap_leaf_found:
  assumes r: "tx_ready p {} (Suc k) s a" and f: "file_at s a ip" and n: "NDIRECT \<le> bn" "bn < MAXFILE"
    and i: "i_addrs (itable s ip) ! NDIRECT \<noteq> 0" "block_addr (a_view a) (itable s ip) bn \<noteq> 0"
  shows "\<exists>t. bmap_leaf (i_addrs (itable s ip) ! NDIRECT) (bn - NDIRECT) s = Ret (slot (a_view a) (itable t ip) bn) t \<and>
    slot (a_view a) (itable t ip) bn \<noteq> 0 \<and> grown p ip (Suc k) 0 s a t a"
proof -
  let ?x = "itable s ip" and ?v = "a_view a" and ?i = "i_addrs (itable s ip) ! NDIRECT"
  obtain b t u where u: "bread ROOTDEV ?i s = Ret b t" "b_data (bufs t b) = ?v ?i" "brelse b t = Ret () u" "in_trans p u a" "bio_frame p s u"
    using tx_peek [OF ready_trans(1) [OF r] ready_readable [OF r], of ?i] by auto
  have it: "itable u = itable s" and su: "sb u = sb s" "log u = log s" using bio_frame_select [OF u(5)] by simp_all
  have a: "get32 (?v ?i) (4 * (bn - NDIRECT)) = block_addr ?v ?x bn" using i(1) n by (simp add: block_addr_def)
  have "tx_ready p {} (Suc k) u a" using r u(4) by (simp add: tx_ready_def su)
  moreover have "ifs_frame p s u" using u(5) tx_frame_bio ifs_frame_tx by blast
  ultimately have "grown p ip (Suc k) 0 s a u a" using f by (simp add: grown_def it file_at_def extends_refl)
  moreover have "bmap_leaf ?i (bn - NDIRECT) s = Ret (slot ?v (itable u ip) bn) u"
    using u(1-3) i(2) n by (simp add: bmap_leaf_def exec_simps buf_data_def a it slot_def)
  ultimately show ?thesis using i(2) n by (intro exI [of _ u]) (simp add: it slot_def)
qed

lemma bmap_leaf_new:
  assumes r: "tx_ready p {} (k + 4) s a" and f: "file_at s a ip" and free: "0 < free_count (sb s) (a_view a)"
    and n: "NDIRECT \<le> bn" "bn < MAXFILE" and i: "i_addrs (itable s ip) ! NDIRECT \<noteq> 0" "block_addr (a_view a) (itable s ip) bn = 0"
  shows "\<exists>t a'. bmap_leaf (i_addrs (itable s ip) ! NDIRECT) (bn - NDIRECT) s = Ret (slot (a_view a') (itable t ip) bn) t \<and>
    slot (a_view a') (itable t ip) bn \<noteq> 0 \<and> grown p ip k 1 s a t a'"
proof -
  let ?x = "itable s ip" and ?v = "a_view a" and ?i = "i_addrs (itable s ip) ! NDIRECT"
  have ok: "blocks_ok (sb s) ?v" "file_ok (sb s) ?v ?x" using f by (simp_all add: file_at_def)
  have T: "in_trans p s a" using ready_trans(1) [OF r] .
  obtain c t where t: "bread ROOTDEV ?i s = Ret c t" "b_data (bufs t c) = ?v ?i" "bcrel p t (a_get ?i a)" "holds (bufs t) c ?i" "bio_frame p s t"
    using tx_read [OF T ready_readable [OF r], of ?i] by auto
  have st: "sb t = sb s" "log t = log s" "itable t = itable s" using bio_frame_select [OF t(5)] by simp_all
  have v: "a_view (a_get ?i a) = ?v" by (simp add: a_get_def)
  have r1: "tx_ready p {?i} (Suc k + 2) t (a_get ?i a)" using ready_get [of p "{}" "Suc k + 2" s a t ?i] r t(3,5) by (simp add: numeral_eq_Suc)
  have si: "slot ?v ?x MAXFILE = ?i" by (simp add: slot_def)
  note id = file_okD [OF ok(2) order_refl, unfolded si, OF i(1)]
  have "?i \<notin> bitmap (sb s)" using id(3) bitmap_meta(1) by metis
  then obtain b u o1 o2 where u: "balloc ROOTDEV t = Ret b u" "unat b < unat (sb_size (sb s))" "\<not> in_use (sb s) ?v b"
    "tx_ready p {?i} (Suc k) u (a_alloc (sb s) o1 o2 b (a_get ?i a))" "tx_frame p t u" "keeps_held (a_get ?i a) t u" "log u = alloc_added (sb s) b (log s)"
    using balloc_ready [OF r1, unfolded st v, OF ok(1) free] id by blast
  let ?a2 = "a_alloc (sb s) o1 o2 b (a_get ?i a)" and ?d = "put32 (?v ?i) (4 * (bn - NDIRECT)) b"
  have b: "b \<noteq> 0" using fresh_not_meta [OF ok(1) u(3)] bitmap_meta(2) by metis
  have ib: "?i \<noteq> b" using id(2) u(3) by metis
  have "BBLOCK b (sb s) \<in> bitmap (sb s)" unfolding bitmap_def using u(2) by (intro image_eqI [of _ _ "unat b"]) simp_all
  with \<open>?i \<notin> bitmap (sb s)\<close> have iB: "?i \<noteq> BBLOCK b (sb s)" by metis
  have h: "holds (bufs u) c ?i" using u(6) t(4) by (simp add: keeps_held_def)
  have "?i \<in> logged_set (log u) \<longleftrightarrow> ?i \<in> logged_set (log s)"
  proof -
    have "0 \<le> lh_n (l_lh (log s))" using T by (simp add: in_trans_def)
    then have "logged_set (log u) = insert b (insert (BBLOCK b (sb s)) (logged_set (log s)))"
      unfolding u(7) alloc_added_def
      using logged_set_added [of "log s" "BBLOCK b (sb s)"] logged_set_added [of "(log s)\<lparr>l_lh := log_added (BBLOCK b (sb s)) (l_lh (log s))\<rparr>" b]
      by (simp add: log_added_def)
    then show ?thesis using ib iB by simp
  qed
  moreover have "?i \<in> logged_set (log s) \<Longrightarrow> 0 < a_rc a ?i" using T by (simp add: in_trans_def)
  moreover have "a_rc ?a2 ?i = a_rc a ?i + 1" using ib iB by (simp add: a_alloc_def a_logged_def a_get_def)
  ultimately have "of_bool (?i \<in> logged_set (log u)) < a_rc ?a2 ?i" by auto
  from finish_held [OF u(4) _ h this, of ?d] obtain w z a' where
    w: "kseq [set_data c ?d, log_write c] u = Ret () w" "brelse c w = Ret () z" "tx_ready p {} k z a'" "tx_frame p u z" "a_view a' = (a_view ?a2)(?i := ?d)"
    by auto
  have v': "a_view a' = (allocated (sb s) b ?v)(?i := ?d)" by (simp add: w(5) v)
  have g: "gains (sb s) ?v ?x bn b (a_view a') ?x" unfolding v' by (rule gains_leaf [OF ok u(2,3) n i])
  have fr: "tx_frame p s z" using t(5) u(5) w(4) tx_frame_bio tx_frame_trans by blast
  have it: "itable z = itable s" using tx_frame_select(2) [OF fr] .
  have "free_count (sb s) ?v \<le> free_count (sb s) (a_view a') + 1"
    using u(2) g by (intro free_count_alloc [of b]) (auto simp: gains_def)
  then have "grown p ip k 1 s a z a'" using w(3) ifs_frame_tx [OF fr] gains_extends [OF g ok] by (simp add: grown_def it)
  moreover have sl: "slot (a_view a') (itable z ip) bn = b" using g n(2) by (simp add: gains_def it)
  moreover have "get32 (?v ?i) (4 * (bn - NDIRECT)) = 0" using i n by (simp add: block_addr_def)
  then have "bmap_leaf ?i (bn - NDIRECT) s = Ret b z"
    using t(1,2) u(1) w(1,2) b by (simp add: bmap_leaf_def exec_simps buf_data_def)
  ultimately show ?thesis using b by (intro exI [of _ z] exI [of _ a']) simp
qed

lemma kbind_kget: "kbind (kget f) g s = g (f s) s"
  by (simp add: exec_simps)

lemma bmap_direct:
  assumes "i_dev (itable s ip) = ROOTDEV" "bn < NDIRECT"
  shows "bmap ip (of_nat bn) s = (if i_addrs (itable s ip) ! bn \<noteq> 0 then Ret (i_addrs (itable s ip) ! bn) s else bmap_enter ip bn s)"
proof -
  have n: "bn < MAXFILE" using assms(2) by (simp add: MAXFILE_268)
  show ?thesis unfolding bmap_def kbind_kget Let_def block_words(1,2) [OF n] bmap_enter_def assms(1) using assms(2) by (simp add: kret_def)
qed

lemma bmap_indirect:
  assumes "i_dev (itable s ip) = ROOTDEV" "NDIRECT \<le> bn" "bn < MAXFILE"
  shows "bmap ip (of_nat bn) s =
    kbind (if i_addrs (itable s ip) ! NDIRECT \<noteq> 0 then kret (i_addrs (itable s ip) ! NDIRECT) else bmap_enter ip NDIRECT)
      (\<lambda>ind. if ind = 0 then kret 0 else bmap_leaf ind (bn - NDIRECT)) s"
proof -
  note w = block_words(2) [OF assms(3)] block_words(3,4) [OF assms(3,2)]
  show ?thesis
    unfolding bmap_def kbind_kget Let_def w assms(1) bmap_enter_def bmap_leaf_def using assms(2) block_words(5) [OF assms(3,2)]
    by (simp del: of_nat_diff)
qed

text \<open>\<open>bmap\<close> finds the block, or gives the file one, without changing its bytes.\<close>

lemma bmap_ok:
  assumes r: "tx_ready p {} (k + 6) s a" and f: "file_at s a ip" and free: "2 \<le> free_count (sb s) (a_view a)" and n: "bn < MAXFILE"
  shows "\<exists>t a'. bmap ip (of_nat bn) s = Ret (slot (a_view a') (itable t ip) bn) t \<and> slot (a_view a') (itable t ip) bn \<noteq> 0 \<and>
    grown p ip k 2 s a t a'"
proof -
  have weak: "grown p ip k 2 s a t a'" if "grown p ip l j s a t a'" "k \<le> l" "j \<le> 2" for l j t a'
    using that ready_less [of p "{}" l t a' k] by (auto simp: grown_def)
  have dev: "i_dev (itable s ip) = ROOTDEV" using f by (simp add: file_at_def)
  show ?thesis
  proof (cases "bn < NDIRECT")
    case True
    have sl: "slot v x bn = i_addrs x ! bn" for v x using True n by (simp add: slot_def block_addr_def)
    have r': "tx_ready p {} (k + 4 + 2) s a" using r by (simp add: add.commute)
    show ?thesis
    proof (cases "i_addrs (itable s ip) ! bn = 0")
      case z: True
      then show ?thesis
        using bmap_enter_ok [OF r' f, of bn] free True bmap_direct [OF dev True] weak [of "k + 4" 1] unfolding sl by fastforce
    next
      case False
      then show ?thesis
        using bmap_direct [OF dev True] weak [OF file_grown_refl [OF r f]] unfolding sl by (intro exI [of _ s] exI [of _ a]) simp
    qed
  next
    case False
    then have d: "NDIRECT \<le> bn" by simp
    let ?root = "if i_addrs (itable s ip) ! NDIRECT \<noteq> 0 then kret (i_addrs (itable s ip) ! NDIRECT) else bmap_enter ip NDIRECT"
    have "\<exists>t b. ?root s = Ret (i_addrs (itable t ip) ! NDIRECT) t \<and> i_addrs (itable t ip) ! NDIRECT \<noteq> 0 \<and> grown p ip (k + 4) 1 s a t b"
    proof (cases "i_addrs (itable s ip) ! NDIRECT = 0")
      case True
      have "tx_ready p {} (k + 4 + 2) s a" using r by (simp add: add.commute)
      from bmap_enter_ok [OF this f _ order_refl True] free True show ?thesis by simp
    next
      case i: False
      have "tx_ready p {} (k + 4) s a" using ready_less [OF r] by simp
      then have "grown p ip (k + 4) 1 s a s a" using file_grown_refl [OF _ f] by (simp add: grown_def)
      with i show ?thesis by (auto simp: exec_simps)
    qed
    then obtain t b where t: "?root s = Ret (i_addrs (itable t ip) ! NDIRECT) t" "i_addrs (itable t ip) ! NDIRECT \<noteq> 0" "grown p ip (k + 4) 1 s a t b" by blast
    have f': "file_at t b ip" and r': "tx_ready p {} (k + 4) t b" and fc: "0 < free_count (sb t) (a_view b)"
      using grown_file [OF t(3) f] t(3) free ifs_frame_sb [of p s t] by (auto simp: grown_def)
    have "\<exists>u c. bmap_leaf (i_addrs (itable t ip) ! NDIRECT) (bn - NDIRECT) t = Ret (slot (a_view c) (itable u ip) bn) u \<and>
        slot (a_view c) (itable u ip) bn \<noteq> 0 \<and> (grown p ip k 1 t b u c \<or> grown p ip (Suc k) 0 t b u c)"
    proof (cases "block_addr (a_view b) (itable t ip) bn = 0")
      case True
      then show ?thesis using bmap_leaf_new [OF r' f' fc d n t(2)] by blast
    next
      case False
      have "tx_ready p {} (Suc k) t b" using ready_less [OF r', of "Suc k"] by simp
      then show ?thesis using bmap_leaf_found [OF _ f' d n t(2) False] by blast
    qed
    then obtain u c where u: "bmap_leaf (i_addrs (itable t ip) ! NDIRECT) (bn - NDIRECT) t = Ret (slot (a_view c) (itable u ip) bn) u"
      "slot (a_view c) (itable u ip) bn \<noteq> 0" "grown p ip k 1 t b u c \<or> grown p ip (Suc k) 0 t b u c" by blast
    have "grown p ip k 2 s a u c"
      using u(3) file_grown_trans [OF t(3), of k 1 u c] file_grown_trans [OF t(3), of "Suc k" 0 u c] weak [of k "1 + 1" u c] weak [of "Suc k" "1 + 0" u c] by fastforce
    moreover have "bmap ip (of_nat bn) s = Ret (slot (a_view c) (itable u ip) bn) u"
      unfolding bmap_indirect [OF dev d n] using t(1,2) u(1) by (simp add: kbind_def)
    ultimately show ?thesis using u(2) by blast
  qed
qed

end
