(* ===== verification/Filedata.thy ===== *)
theory Filedata
  imports Filemap
begin

text \<open>
  Writing to files (\<open>writei\<close> of \<open>kernel/fs.c\<close>): a write replaces a stretch of the bytes of the file, or extends it, and touches no other file; what was
  written is read back.
\<close>

section \<open>Writing\<close>

text \<open>The source gives the bytes \<open>bs\<close>, also while the file system works.\<close>

definition supplies :: "nat \<Rightarrow> source \<Rightarrow> byte list \<Rightarrow> kworld \<Rightarrow> bool" where
  "supplies p src bs s \<longleftrightarrow> (\<forall>t tot m. ifs_frame p s t \<longrightarrow> tot + m \<le> length bs \<longrightarrow> copy_from src tot m t = Ret (0, take m (drop tot bs)) t)"

lemma supplies_local [simp]: "supplies p (LocalSrc bs) bs s"
  by (simp add: supplies_def exec_simps)

lemma supplies_later: "supplies p src bs s \<Longrightarrow> ifs_frame p s t \<Longrightarrow> supplies p src bs t"
  unfolding supplies_def using ifs_frame_trans by blast

lemma blit_facts:
  assumes "o' + length bs \<le> length d"
  shows "length (blit d o' bs) = length d"
    "j < length d \<Longrightarrow> blit d o' bs ! j = (if o' \<le> j \<and> j < o' + length bs then bs ! (j - o') else d ! j)"
  using assms by (auto simp: blit_def nth_append)

definition byte_put :: "nat \<Rightarrow> byte list \<Rightarrow> (nat \<Rightarrow> byte) \<Rightarrow> nat \<Rightarrow> byte" where
  "byte_put off bs g i = (if off \<le> i \<and> i < off + length bs then bs ! (i - off) else g i)"

text \<open>
  What a write is on the blocks: from \<open>(v, x)\<close> to \<open>(v', x')\<close> the bytes \<open>bs\<close> come to stand at \<open>off\<close>, other blocks in use are left alone, no address of the file
  changes, and the blocks written to are there.
\<close>

definition stored :: "superblock \<Rightarrow> nat \<Rightarrow> byte list \<Rightarrow> (u32 \<Rightarrow> byte list) \<Rightarrow> inode \<Rightarrow> (u32 \<Rightarrow> byte list) \<Rightarrow> inode \<Rightarrow> bool" where
  "stored sbk off bs v x v' x' \<longleftrightarrow> spares sbk v x v' x' \<and>
     (\<forall>i<MAXFILE * BSIZE. file_byte v' x' i = byte_put off bs (file_byte v x) i) \<and>
     (\<forall>k\<le>MAXFILE. slot v x k \<noteq> 0 \<longrightarrow> slot v' x' k = slot v x k) \<and>
     (\<forall>i. off \<le> i \<longrightarrow> i < off + length bs \<longrightarrow> slot v' x' (i div BSIZE) \<noteq> 0)"

definition wrote :: "nat \<Rightarrow> nat \<Rightarrow> nat \<Rightarrow> nat \<Rightarrow> nat \<Rightarrow> byte list \<Rightarrow> kworld \<Rightarrow> acache \<Rightarrow> kworld \<Rightarrow> acache \<Rightarrow> bool" where
  "wrote p ip k j off bs s a t a' \<longleftrightarrow> tx_ready p {} k t a' \<and> file_at t a' ip \<and> ifs_frame p s t \<and>
     itable t = (itable s)(ip := (itable s ip)\<lparr>i_addrs := i_addrs (itable t ip)\<rparr>) \<and>
     free_count (sb s) (a_view a) \<le> free_count (sb s) (a_view a') + j \<and>
     stored (sb s) off bs (a_view a) (itable s ip) (a_view a') (itable t ip)"

lemma byte_put_Nil [simp]: "byte_put off [] g = g"
  by (auto simp: byte_put_def fun_eq_iff)

lemma byte_put_append:
  "byte_put (off + length bs) cs (byte_put off bs g) = byte_put off (bs @ cs) g"
  by (auto simp: byte_put_def fun_eq_iff nth_append)

lemma stored_refl: "stored sbk off [] v x v x"
  by (simp add: stored_def)

lemma stored_trans:
  assumes 1: "stored sbk off bs v x v1 x1" and 2: "stored sbk (off + length bs) cs v1 x1 v2 x2" and n: "off + length bs \<le> MAXFILE * BSIZE"
  shows "stored sbk off (bs @ cs) v x v2 x2"
proof -
  have "file_byte v2 x2 i = byte_put off (bs @ cs) (file_byte v x) i" if "i < MAXFILE * BSIZE" for i
  proof -
    have "byte_put (off + length bs) cs (file_byte v1 x1) i = byte_put (off + length bs) cs (byte_put off bs (file_byte v x)) i"
      using 1 that by (simp add: stored_def byte_put_def)
    then show ?thesis using 2 that by (simp add: stored_def byte_put_append)
  qed
  moreover have "slot v2 x2 (i div BSIZE) \<noteq> 0" if "off \<le> i" "i < off + length (bs @ cs)" for i
  proof (cases "i < off + length bs")
    case True
    have "i div BSIZE \<le> MAXFILE" using True n by (metis less_imp_le less_le_trans less_mult_imp_div_less)
    moreover have "slot v1 x1 (i div BSIZE) \<noteq> 0" using 1 True that(1) by (simp add: stored_def)
    ultimately show ?thesis using 2 by (simp add: stored_def)
  next
    case False
    then show ?thesis using 2 that by (simp add: stored_def)
  qed
  moreover have "slot v2 x2 k = slot v x k" if "k \<le> MAXFILE" "slot v x k \<noteq> 0" for k
  proof -
    have "slot v1 x1 k = slot v x k" using 1 that by (simp add: stored_def)
    then show ?thesis using 2 that unfolding stored_def by metis
  qed
  moreover have "spares sbk v x v2 x2" using 1 2 spares_trans unfolding stored_def by blast
  ultimately show ?thesis unfolding stored_def by blast
qed

lemma extends_stored: "extends sbk v x v' x' \<Longrightarrow> stored sbk off [] v x v' x'"
  by (simp add: extends_def stored_def)

lemma wrote_refl: "tx_ready p {} k s a \<Longrightarrow> file_at s a ip \<Longrightarrow> wrote p ip k 0 off [] s a s a"
  by (simp add: wrote_def stored_refl)

lemma wrote_trans:
  assumes 1: "wrote p ip k j off bs s a t b" and 2: "wrote p ip l m (off + length bs) cs t b u c"
    and n: "off + length bs \<le> MAXFILE * BSIZE"
  shows "wrote p ip l (j + m) off (bs @ cs) s a u c"
proof -
  have sb: "sb t = sb s" using 1 ifs_frame_sb by (auto simp: wrote_def)
  have "itable u = (itable s)(ip := (itable s ip)\<lparr>i_addrs := i_addrs (itable u ip)\<rparr>)"
  proof -
    have t: "itable t = (itable s)(ip := (itable s ip)\<lparr>i_addrs := i_addrs (itable t ip)\<rparr>)"
      and u: "itable u = (itable t)(ip := (itable t ip)\<lparr>i_addrs := i_addrs (itable u ip)\<rparr>)" using 1 2 by (simp_all add: wrote_def)
    have "(itable t ip)\<lparr>i_addrs := z\<rparr> = (itable s ip)\<lparr>i_addrs := z\<rparr>" for z by (subst t) simp
    moreover have "(itable t)(ip := z) = (itable s)(ip := z)" for z by (subst t) simp
    ultimately show ?thesis by (subst u) simp
  qed
  moreover have "ifs_frame p s u" using 1 2 ifs_frame_trans unfolding wrote_def by blast
  moreover have "stored (sb s) off (bs @ cs) (a_view a) (itable s ip) (a_view c) (itable u ip)"
    using 1 2 n stored_trans unfolding wrote_def sb by blast
  ultimately show ?thesis using 1 2 by (simp add: wrote_def sb)
qed

lemma grown_wrote:
  assumes g: "grown p ip k j s a t a'" and f: "file_at s a ip"
  shows "wrote p ip k j off [] s a t a'"
proof -
  have e: "extends (sb s) (a_view a) (itable s ip) (a_view a') (itable t ip)" and it: "itable t = (itable s)(ip := itable t ip)"
    using g by (simp_all add: grown_def)
  have "itable t ip = (itable s ip)\<lparr>i_addrs := i_addrs (itable t ip)\<rparr>" using e by (simp add: extends_def)
  with it have "itable t = (itable s)(ip := (itable s ip)\<lparr>i_addrs := i_addrs (itable t ip)\<rparr>)" by metis
  then show ?thesis using g extends_stored [OF e] grown_file [OF g f] unfolding wrote_def grown_def by simp
qed

text \<open>One block.\<close>

lemma shifted:
  "l = q + b \<Longrightarrow> i = q + a \<Longrightarrow> (i \<le> l \<and> l < i + k \<longleftrightarrow> a \<le> b \<and> b < a + k)" "l = q + b \<Longrightarrow> i = q + a \<Longrightarrow> l - i = b - a" for l :: nat
  by auto

lemma within_block:
  assumes "i mod BSIZE + k \<le> BSIZE" "i \<le> l" "l < i + k"
  shows "l div BSIZE = i div BSIZE"
proof -
  have "i + k \<le> i div BSIZE * BSIZE + BSIZE" using div_mult_mod_eq [of i BSIZE] assms(1) by linarith
  then have "l div BSIZE < i div BSIZE + 1" using assms(3) by (intro less_mult_imp_div_less) simp
  then show ?thesis using div_le_mono [OF assms(2), of BSIZE] by simp
qed

text \<open>A stretch within one block that is there.\<close>

lemma stored_block:
  assumes ok: "blocks_ok sbk v" "file_ok sbk v x" and n: "i div BSIZE < MAXFILE" "slot v x (i div BSIZE) \<noteq> 0" and bs: "i mod BSIZE + length bs \<le> BSIZE"
  defines "v' \<equiv> v(slot v x (i div BSIZE) := blit (v (slot v x (i div BSIZE))) (i mod BSIZE) bs)"
  shows "blocks_ok sbk v'" "file_ok sbk v' x" "stored sbk i bs v x v' x"
    "unat c < unat (sb_size sbk) \<Longrightarrow> in_use sbk v' c = in_use sbk v c"
proof -
  let ?b = "slot v x (i div BSIZE)"
  let ?d = "blit (v ?b) (i mod BSIZE) bs"
  have len: "length (v ?b) = BSIZE" using ok(1) by (simp add: blocks_ok_def)
  have fits: "i mod BSIZE + length bs \<le> length (v ?b)" using bs len by simp
  note w = rewrite_file [OF ok n, of ?d, unfolded blit_facts(1) [OF fits], OF len, folded v'_def]
  show "blocks_ok sbk v'" "file_ok sbk v' x" by (rule w(1), rule w(2))
  have bm: "?b \<notin> bitmap sbk" using file_okD(3) [OF ok(2), of "i div BSIZE"] n bitmap_meta(1) by auto
  show "unat c < unat (sb_size sbk) \<Longrightarrow> in_use sbk v' c = in_use sbk v c" unfolding v'_def by (rule rewrite_in_use [OF bm])
  have byte: "file_byte v' x l = byte_put i bs (file_byte v x) l" if "l < MAXFILE * BSIZE" for l
  proof -
    have l: "l = l div BSIZE * BSIZE + l mod BSIZE" "i = i div BSIZE * BSIZE + i mod BSIZE" "l mod BSIZE < BSIZE" "i mod BSIZE < BSIZE" by simp_all
    have same: "i \<le> l \<and> l < i + length bs \<longleftrightarrow> i mod BSIZE \<le> l mod BSIZE \<and> l mod BSIZE < i mod BSIZE + length bs" "l - i = l mod BSIZE - i mod BSIZE"
      if "l div BSIZE = i div BSIZE" using that l by (metis shifted)+
    have other: "l div BSIZE = i div BSIZE" if "i \<le> l" "l < i + length bs" using bs that by (rule within_block)
    have "file_byte v x l = v ?b ! (l mod BSIZE)" if "l div BSIZE = i div BSIZE"
      using that n by (simp add: file_byte_def Let_def slot_def)
    then show ?thesis using w(4) [OF that] blit_facts(2) [OF fits, of "l mod BSIZE"] len l(3) same other by (auto simp: byte_put_def)
  qed
  have sl: "slot v' x j = slot v x j" if "j \<le> MAXFILE" for j unfolding v'_def by (rule rewrite_slots [OF ok(2) n that])
  have "slot v' x (l div BSIZE) \<noteq> 0" if "i \<le> l" "l < i + length bs" for l
    using n sl [of "i div BSIZE"] within_block [OF bs that] by simp
  then show "stored sbk i bs v x v' x" using w(3) byte sl by (simp add: stored_def)
qed

lemma writei_block:
  assumes r: "tx_ready p {} (Suc k) s a" and f: "file_at s a ip" and n: "i div BSIZE < MAXFILE" "slot (a_view a) (itable s ip) (i div BSIZE) \<noteq> 0"
    and bs: "i mod BSIZE + length bs \<le> BSIZE"
  shows "\<exists>c t u. bread ROOTDEV (slot (a_view a) (itable s ip) (i div BSIZE)) s = Ret c t \<and> ifs_frame p s t \<and>
    kseq [set_data c (blit (b_data (bufs t c)) (i mod BSIZE) bs), log_write c, brelse c] t = Ret () u \<and> (\<exists>a'. wrote p ip k 0 i bs s a u a')"
proof -
  let ?x = "itable s ip" and ?v = "a_view a"
  let ?b = "slot ?v ?x (i div BSIZE)"
  let ?d = "blit (?v ?b) (i mod BSIZE) bs"
  have ok: "blocks_ok (sb s) ?v" "file_ok (sb s) ?v ?x" "i_dev ?x = ROOTDEV" using f by (simp_all add: file_at_def)
  have T: "in_trans p s a" and rd: "readable a ?b" using ready_trans(1) [OF r] ready_readable [OF r, of ?b] by simp_all
  obtain c t where t: "bread ROOTDEV ?b s = Ret c t" "b_data (bufs t c) = ?v ?b" "bcrel p t (a_get ?b a)" "holds (bufs t) c ?b" "bio_frame p s t"
    using tx_read [OF T rd] by blast
  have "log_room 1 (log s)" using ready_room [OF r, of 1] by simp
  from tx_finish [OF T rd this t(3-5), of ?d] obtain u where
    u: "kseq [set_data c ?d, log_write c, brelse c] t = Ret () u" "in_trans p u (a_logged (?b \<in> logged_set (log s)) ?b ?d a)" "tx_frame p s u"
      "log u = (log s)\<lparr>l_lh := log_added ?b (l_lh (log s))\<rparr>" by blast
  let ?a = "a_logged (?b \<in> logged_set (log s)) ?b ?d a"
  have v: "a_view ?a = ?v(?b := ?d)" by (simp add: a_logged_def)
  have it: "itable u = itable s" "sb u = sb s" using tx_frame_select [OF u(3)] by simp_all
  note w = stored_block [OF ok(1,2) n bs, folded v]
  have "free_count (sb s) ?v \<le> free_count (sb s) (a_view ?a) + 0" using free_count_same [of "sb s" "a_view ?a" ?v] w(4) by simp
  then have "wrote p ip k 0 i bs s a u ?a"
    using ready_logged [OF r u(2,4)] w(1-3) ok(3) ifs_frame_tx [OF u(3)] unfolding wrote_def file_at_def it by auto
  moreover have "ifs_frame p s t" using t(5) tx_frame_bio ifs_frame_tx by blast
  ultimately show ?thesis using t(1,2) u(1) by (intro exI [of _ c] exI [of _ t] exI [of _ u]) auto
qed

lemma writei_round:
  assumes r: "tx_ready p {} (k + 7) s a" and f: "file_at s a ip" and free: "2 \<le> free_count (sb s) (a_view a)" and src: "supplies p src bs s"
    and n: "off + length bs \<le> MAXFILE * BSIZE" "tot < length bs"
  defines "m \<equiv> span (length bs - tot) (off + tot)"
  shows "\<exists>t a'. writei_step ip src off (length bs) tot s = Ret (Inl (tot + m)) t \<and> wrote p ip k 2 (off + tot) (take m (drop tot bs)) s a t a'"
proof -
  let ?i = "off + tot"
  have bn: "?i div BSIZE < MAXFILE" using n by (intro less_mult_imp_div_less) simp
  have "tx_ready p {} (Suc k + 6) s a" using r by (simp add: numeral_eq_Suc)
  from bmap_ok [OF this f free bn] obtain t b where
    t: "bmap ip (of_nat (?i div BSIZE)) s = Ret (slot (a_view b) (itable t ip) (?i div BSIZE)) t" "slot (a_view b) (itable t ip) (?i div BSIZE) \<noteq> 0"
      "grown p ip (Suc k) 2 s a t b" by blast
  let ?b = "slot (a_view b) (itable t ip) (?i div BSIZE)" and ?bs = "take m (drop tot bs)"
  have f': "file_at t b ip" and r': "tx_ready p {} (Suc k) t b" using grown_file [OF t(3) f] t(3) by (simp_all add: grown_def)
  have "?i mod BSIZE < BSIZE" by simp
  then have m: "tot + m \<le> length bs" "?i mod BSIZE + m \<le> BSIZE" using n(2) unfolding m_def span_def by linarith+
  then have lb: "length ?bs = m" by simp
  from writei_block [OF r' f' bn t(2), of ?bs, unfolded lb, OF m(2)] obtain c u w a' where
    w: "bread ROOTDEV ?b t = Ret c u" "ifs_frame p t u" "kseq [set_data c (blit (b_data (bufs u c)) (?i mod BSIZE) ?bs), log_write c, brelse c] u = Ret () w"
      "wrote p ip k 0 ?i ?bs t b w a'" by blast
  have "ifs_frame p s u" using t(3) w(2) ifs_frame_trans unfolding grown_def by blast
  then have cp: "copy_from src tot m u = Ret (0, ?bs) u" using src m(1) by (simp add: supplies_def)
  have "wrote p ip k (2 + 0) ?i ([] @ ?bs) s a w a'"
    using grown_wrote [OF t(3) f, of ?i] w(4) n by (intro wrote_trans) auto
  moreover have "i_dev (itable t ip) = ROOTDEV" using f' by (simp add: file_at_def)
  then have "writei_step ip src off (length bs) tot s = Ret (Inl (tot + m)) w"
    using t(1,2) w(1,3) cp n(2)
    by (auto simp: writei_step_def exec_simps buf_data_def Let_def m_def [symmetric] split: outcome.splits)
  ultimately show ?thesis by auto
qed

text \<open>The rounds that a write of \<open>n\<close> bytes takes are at most the blocks it reaches into.\<close>

definition rounds :: "nat \<Rightarrow> nat \<Rightarrow> nat" where
  "rounds off n = (if n = 0 then 0 else (off + n - 1) div BSIZE - off div BSIZE + 1)"

lemma rounds_step:
  assumes "0 < n"
  shows "rounds off n = Suc (rounds (off + span n off) (n - span n off))"
proof (cases "n \<le> BSIZE - off mod BSIZE")
  case True
  have "off mod BSIZE < BSIZE" by simp
  then have "(off + n - 1) div BSIZE = off div BSIZE" using True assms by (intro within_block [of _ n]) linarith+
  then show ?thesis using True assms by (simp add: rounds_def span_def)
next
  case False
  let ?m = "BSIZE - off mod BSIZE"
  have m: "span n off = ?m" using False by (simp add: span_def)
  have "off + ?m = off div BSIZE * BSIZE + BSIZE" using div_mult_mod_eq [of off BSIZE] mod_less_divisor [OF BSIZE_pos, of off] by linarith
  then have "off + ?m = (off div BSIZE + 1) * BSIZE" by simp
  then have q: "(off + ?m) div BSIZE = off div BSIZE + 1" by simp
  have "(off + ?m) div BSIZE \<le> (off + n - 1) div BSIZE" using False by (intro div_le_mono) simp
  moreover have "?m \<le> n" "n - ?m \<noteq> 0" using False by simp_all
  moreover from this(1) have "off + ?m + (n - ?m) - 1 = off + n - 1" by (simp only: add.assoc le_add_diff_inverse)
  ultimately show ?thesis using assms unfolding rounds_def m q by simp
qed

lemma writei_loop:
  assumes "tx_ready p {} (k + 7 * rounds (off + tot) (length bs - tot)) s a" "file_at s a ip"
    and "2 * rounds (off + tot) (length bs - tot) \<le> free_count (sb s) (a_view a)" "supplies p src bs s"
    and "off + length bs \<le> MAXFILE * BSIZE" "tot \<le> length bs"
  shows "\<exists>t a'. kloop (writei_step ip src off (length bs)) tot s = Ret (length bs) t \<and>
    wrote p ip k (2 * rounds (off + tot) (length bs - tot)) (off + tot) (drop tot bs) s a t a'"
  using assms
proof (induction "length bs - tot" arbitrary: tot s a rule: less_induct)
  case less
  let ?n = "length bs" and ?body = "writei_step ip src off (length bs)"
  show ?case
  proof (cases "tot < ?n")
    case False
    then have "?body tot s = Ret (Inr ?n) s" using less.prems(6) by (simp add: writei_step_def exec_simps)
    from kloop_done [where body = ?body, OF this] False show ?thesis
      using less.prems(1,2) wrote_refl [of p k s a ip "off + tot"] by (auto simp: rounds_def)
  next
    case True
    let ?m = "span (?n - tot) (off + tot)"
    let ?R = "rounds (off + (tot + ?m)) (?n - (tot + ?m))"
    have R: "rounds (off + tot) (?n - tot) = Suc ?R" using rounds_step [of "?n - tot" "off + tot"] True by (simp add: add.assoc)
    have m: "0 < ?m" "tot + ?m \<le> ?n" using True span_pos [of "?n - tot"] by (simp_all add: span_def)
    have eq: "k + 7 * Suc ?R = k + 7 * ?R + 7" by simp
    have "tx_ready p {} (k + 7 * ?R + 7) s a" using less.prems(1) unfolding R eq .
    from writei_round [OF this less.prems(2) _ less.prems(4,5) True] less.prems(3) obtain t b where
      t: "?body tot s = Ret (Inl (tot + ?m)) t" "wrote p ip (k + 7 * ?R) 2 (off + tot) (take ?m (drop tot bs)) s a t b" by (auto simp: R)
    have t': "tx_ready p {} (k + 7 * ?R) t b" "file_at t b ip" "ifs_frame p s t" "free_count (sb s) (a_view a) \<le> free_count (sb s) (a_view b) + 2"
      using t(2) by (simp_all add: wrote_def)
    have "2 * ?R \<le> free_count (sb t) (a_view b)" using t'(4) less.prems(3) ifs_frame_sb [OF t'(3)] by (simp add: R)
    moreover have "?n - (tot + ?m) < ?n - tot" using m by simp
    ultimately obtain u c where
      u: "kloop ?body (tot + ?m) t = Ret ?n u" "wrote p ip k (2 * ?R) (off + (tot + ?m)) (drop (tot + ?m) bs) t b u c"
      using less.hyps [OF _ t'(1,2) _ supplies_later [OF less.prems(4) t'(3)] less.prems(5) m(2)] by blast
    have len: "length (take ?m (drop tot bs)) = ?m" using m(2) by simp
    have "wrote p ip k (2 + 2 * ?R) (off + tot) (take ?m (drop tot bs) @ drop (tot + ?m) bs) s a u c"
      using t(2) u(2) less.prems(5) m(2) by (intro wrote_trans) (simp_all add: add.assoc del: length_take length_drop add: len)
    moreover have "take ?m (drop tot bs) @ drop (tot + ?m) bs = drop tot bs" by (metis add.commute append_take_drop_id drop_drop)
    ultimately show ?thesis using kloop_round [where body = ?body, OF t(1)] u(1) by (intro exI [of _ u] exI [of _ c]) (simp add: R)
  qed
qed

section \<open>The whole write\<close>

text \<open>The inode with its new size goes to the disk; its block is none of a file.\<close>

lemma iupdate_spares:
  assumes r: "tx_ready p {} (Suc k) s a" and f: "file_at s a ip" and i: "unat (i_inum (itable s ip)) < unat (sb_ninodes (sb s))"
  shows "\<exists>t a'. iupdate ip s = Ret () t \<and> tx_ready p {} k t a' \<and> tx_frame p s t \<and> blocks_ok (sb s) (a_view a') \<and>
    disk_inode (sb s) (a_view a') (i_inum (itable s ip)) = inode_disk (itable s ip) \<and>
    (\<forall>c. c \<notin> meta (sb s) \<longrightarrow> a_view a' c = a_view a c) \<and>
    (\<forall>c. unat c < unat (sb_size (sb s)) \<longrightarrow> in_use (sb s) (a_view a') c = in_use (sb s) (a_view a) c)"
proof -
  let ?x = "itable s ip" and ?v = "a_view a"
  let ?n = "IBLOCK (i_inum ?x) (sb s)"
  let ?d = "put_dinode (inode_disk ?x) (?v ?n) (dinode_off (i_inum ?x))"
  have ok: "blocks_ok (sb s) ?v" "file_ok (sb s) ?v ?x" "i_dev ?x = ROOTDEV" using f by (simp_all add: file_at_def)
  have T: "in_trans p s a" and rd: "readable a ?n" using ready_trans(1) [OF r] ready_readable [OF r, of ?n] by simp_all
  have room: "log_room 1 (log s)" using ready_room [OF r, of 1] by simp
  have "iupdate ip s = tx_update ?n (\<lambda>d. put_dinode (inode_disk ?x) d (dinode_off (i_inum ?x))) s"
    by (simp add: iupdate_def tx_update_def exec_simps ok(3))
  with tx_write [OF T rd room, of "\<lambda>d. put_dinode (inode_disk ?x) d (dinode_off (i_inum ?x))"] obtain t where
    t: "iupdate ip s = Ret () t" "in_trans p t (a_logged (?n \<in> logged_set (log s)) ?n ?d a)" "tx_frame p s t"
      "log t = (log s)\<lparr>l_lh := log_added ?n (l_lh (log s))\<rparr>" by auto
  let ?a = "a_logged (?n \<in> logged_set (log s)) ?n ?d a"
  have v: "a_view ?a = ?v(?n := ?d)" by (simp add: a_logged_def)
  have len: "length (?v ?n) = BSIZE" "length (d_addrs (inode_disk ?x)) = NDIRECT + 1"
    using ok by (simp_all add: blocks_ok_def file_ok_def inode_disk_def)
  have fits: "dinode_off (i_inum ?x) + sizeof_dinode \<le> length (?v ?n)" using slot_fits len(1) by simp
  have in_img: "i_inum ?x = of_nat (unat (i_inum ?x))" by simp
  have nm: "?n \<in> meta (sb s)" "?n \<notin> bitmap (sb s)" using i ok(1) unfolding meta_def blocks_ok_def by (metis UnI2 image_eqI in_img insertI2 lessThan_iff, metis in_img)
  have use: "in_use (sb s) (a_view ?a) c = in_use (sb s) ?v c" if "unat c < unat (sb_size (sb s))" for c
    unfolding v using nm(2) that by (rule rewrite_in_use)
  have "blocks_ok (sb s) (a_view ?a)" using ok(1) use put_dinode_fields(1) [OF fits len(2)] by (simp add: blocks_ok_def v)
  moreover have "disk_inode (sb s) (a_view ?a) (i_inum ?x) = inode_disk ?x" unfolding v using disk_inode_put [where v = ?v and i = "i_inum ?x" and x = "sb s", OF len] by simp
  moreover have "a_view ?a c = ?v c" if "c \<notin> meta (sb s)" for c using that nm(1) by (auto simp: v)
  ultimately show ?thesis using t(1,3) ready_logged [OF r t(2,4)] use by blast
qed

text \<open>What does not touch the blocks of a file does not change the file.\<close>

lemma file_ok_cong:
  assumes ok: "file_ok sbk v x" and same: "\<And>c. c \<notin> meta sbk \<Longrightarrow> v' c = v c"
    "\<And>c. unat c < unat (sb_size sbk) \<Longrightarrow> in_use sbk v' c = in_use sbk v c"
  shows "file_ok sbk v' x" "own v' x = own v x" "slot v' x = slot v x" "i < MAXFILE * BSIZE \<Longrightarrow> file_byte v' x i = file_byte v x i"
proof -
  have "v' (i_addrs x ! NDIRECT) = v (i_addrs x ! NDIRECT)" if "i_addrs x ! NDIRECT \<noteq> 0"
    using file_okD(3) [OF ok, of MAXFILE] that by (intro same(1)) (simp add: slot_def)
  then have sl: "slot v' x k = slot v x k" for k by (auto simp: slot_def block_addr_def)
  then show "slot v' x = slot v x" by (rule ext)
  then show own: "own v' x = own v x" by (simp add: own_def)
  show "file_ok sbk v' x" using ok same(2) by (auto simp: file_ok_def own sl)
  assume "i < MAXFILE * BSIZE"
  then have k: "i div BSIZE < MAXFILE" by (rule less_mult_imp_div_less)
  then have a: "block_addr v x (i div BSIZE) = slot v x (i div BSIZE)" "block_addr v' x (i div BSIZE) = slot v x (i div BSIZE)"
    using sl [of "i div BSIZE"] by (simp_all add: slot_def)
  have "v' (slot v x (i div BSIZE)) = v (slot v x (i div BSIZE))" if "slot v x (i div BSIZE) \<noteq> 0"
    using file_okD(3) [OF ok, of "i div BSIZE"] k that by (intro same(1)) simp
  then show "file_byte v' x i = file_byte v x i" by (auto simp: file_byte_def Let_def a)
qed

text \<open>The bytes of a file after a write.\<close>

definition overwrite :: "byte list \<Rightarrow> nat \<Rightarrow> byte list \<Rightarrow> byte list" where
  "overwrite c off bs = take off c @ bs @ drop (off + length bs) c"

lemma contents_written:
  assumes g: "\<And>i. i < MAXFILE * BSIZE \<Longrightarrow> file_byte v' x' i = byte_put off bs (file_byte v x) i"
    and n: "off \<le> unat (i_size x)" "unat (i_size x) \<le> MAXFILE * BSIZE" "off + length bs \<le> MAXFILE * BSIZE"
    and sz: "unat (i_size x') = max (unat (i_size x)) (off + length bs)"
  shows "contents v' x' = overwrite (contents v x) off bs"
proof (rule nth_equalityI)
  show "length (contents v' x') = length (overwrite (contents v x) off bs)" using n(1) by (simp add: sz overwrite_def max_def)
  fix i
  assume "i < length (contents v' x')"
  then have i: "i < max (unat (i_size x)) (off + length bs)" by (simp add: sz)
  then have "i < MAXFILE * BSIZE" using n(2,3) by (simp add: max_def split: if_splits)
  then have "contents v' x' ! i = byte_put off bs (file_byte v x) i" using i g by (simp add: contents_def sz)
  also have "\<dots> = overwrite (contents v x) off bs ! i"
    using i n(1) by (auto simp: overwrite_def byte_put_def contents_def nth_append max_def split: if_splits)
  finally show "contents v' x' ! i = overwrite (contents v x) off bs ! i" .
qed

text \<open>Other files keep their contents.\<close>

lemma spares_other:
  assumes sp: "spares sbk v x v' x'" and y: "file_ok sbk v y" "own v y \<inter> own v x = {}" "unat (i_size y) \<le> MAXFILE * BSIZE"
  shows "contents v' y = contents v y"
proof -
  have same: "v' c = v c" if "c \<in> own v y" for c
    using sp y that unfolding spares_def file_ok_def by (metis disjoint_iff)
  have ind: "v' (i_addrs y ! NDIRECT) = v (i_addrs y ! NDIRECT)" if "i_addrs y ! NDIRECT \<noteq> 0"
    using that slot_own [of MAXFILE v y] by (intro same) (simp add: slot_def)
  have "file_byte v' y i = file_byte v y i" if "i < unat (i_size y)" for i
  proof -
    have k: "i div BSIZE < MAXFILE" using that y(3) by (intro less_mult_imp_div_less) simp
    have "block_addr v' y (i div BSIZE) = block_addr v y (i div BSIZE)" using ind by (auto simp: block_addr_def)
    moreover have "v' (block_addr v y (i div BSIZE)) = v (block_addr v y (i div BSIZE))" if "block_addr v y (i div BSIZE) \<noteq> 0"
      using that k slot_own [of "i div BSIZE" v y] by (intro same) (simp add: slot_def)
    ultimately show ?thesis by (auto simp: file_byte_def Let_def)
  qed
  then show ?thesis by (simp add: contents_def)
qed

text \<open>A file without holes.\<close>

definition filled :: "(u32 \<Rightarrow> byte list) \<Rightarrow> inode \<Rightarrow> bool" where
  "filled v x \<longleftrightarrow> (\<forall>bn. bn * BSIZE < unat (i_size x) \<longrightarrow> slot v x bn \<noteq> 0)"

lemma file_readable_filled:
  assumes r: "tx_ready p {} (Suc k) s a" and f: "file_at s a ip" "filled (a_view a) (itable s ip)" "unat (i_size (itable s ip)) \<le> MAXFILE * BSIZE"
  shows "file_readable a (itable s ip)"
proof -
  have rd: "readable a c" for c using ready_readable [OF r, of c] by simp
  have "bn < MAXFILE" if "bn * BSIZE < unat (i_size (itable s ip))" for bn using that f(3) by (metis less_le_trans mult_less_cancel2)
  then show ?thesis using f rd by (simp add: file_readable_def filled_def slot_def file_at_def blocks_ok_def)
qed

text \<open>The size that \<open>writei\<close> leaves in the inode.\<close>

definition resized :: "nat \<Rightarrow> inode \<Rightarrow> inode" where
  "resized e x = (if unat (i_size x) < e then x\<lparr>i_size := of_nat e\<rparr> else x)"

lemma writei_eq:
  assumes "off \<le> unat (i_size (itable s ip))" "off + n \<le> MAXFILE * BSIZE" "i_size (itable t ip) = i_size (itable s ip)"
    and "kloop (writei_step ip src off n) 0 s = Ret n t"
  shows "writei ip src (of_nat off) (of_nat n) s = kbind (iupdate ip) (\<lambda>_. kret (int n)) (upd_inode ip (resized (off + n)) t)"
proof -
  have big: "off + n < 2 ^ 32" "off < 2 ^ 32" "n < 2 ^ 32" using assms(2) by (simp_all add: MAXFILE_268 BSIZE_def)
  have w: "unat (of_nat off :: u32) = off" "unat (of_nat n :: u32) = n" "unat (of_nat (off + n) :: u32) = off + n"
    using big by (simp_all only: unat_small)
  have eq: "(of_nat off :: u32) + of_nat n = of_nat (off + n)" by simp
  have "\<not> of_nat off > i_size (itable s ip)" "\<not> (of_nat (off + n) :: u32) < of_nat off" "\<not> (of_nat (off + n) :: u32) > of_nat (MAXFILE * BSIZE)"
    using assms(1,2) by (simp_all only: word_less_nat_alt w) (simp_all add: unat_small MAXFILE_268 BSIZE_def)
  moreover have h: "kbind (kget (\<lambda>s. i_size (itable s ip))) (\<lambda>sz. kwhen (of_nat (off + n) > sz) (kmod (upd_inode ip (\<lambda>x. x\<lparr>i_size := of_nat (off + n)\<rparr>)))) t =
      Ret () (upd_inode ip (resized (off + n)) t)"
  proof (cases "unat (i_size (itable t ip)) < off + n")
    case True
    then have "(of_nat (off + n) :: u32) > i_size (itable t ip)" by (simp only: word_less_nat_alt w)
    moreover have "upd_inode ip (\<lambda>x. x\<lparr>i_size := of_nat (off + n)\<rparr>) t = upd_inode ip (resized (off + n)) t"
      using True by (simp add: upd_inode_def resized_def)
    ultimately show ?thesis by (simp add: exec_simps del: of_nat_add)
  next
    case False
    then have "\<not> (of_nat (off + n) :: u32) > i_size (itable t ip)" by (simp only: word_less_nat_alt w not_False_eq_True)
    moreover have "upd_inode ip (resized (off + n)) t = t" using False by (simp add: upd_inode_def resized_def)
    ultimately show ?thesis by (simp add: exec_simps del: of_nat_add)
  qed
  ultimately show ?thesis
    unfolding writei_def kbind_kget Let_def eq w using assms(4) h [unfolded kbind_kget]
    by (simp add: kbind_def kget_def kret_def split: outcome.splits)
qed

lemma slot_resized [simp]:
  "slot v (resized e x) = slot v x" "own v (resized e x) = own v x" "file_byte v (resized e x) = file_byte v x" "i_inum (resized e x) = i_inum x"
  "i_addrs (resized e x) = i_addrs x" "i_dev (resized e x) = i_dev x"
proof -
  have a: "i_addrs (resized e x) = i_addrs x" by (simp add: resized_def)
  then have b: "block_addr v (resized e x) = block_addr v x" by (simp add: block_addr_def fun_eq_iff)
  then show "slot v (resized e x) = slot v x" using a by (simp add: slot_def fun_eq_iff)
  then show "own v (resized e x) = own v x" by (simp add: own_def)
  show "file_byte v (resized e x) = file_byte v x" using b by (simp add: file_byte_def fun_eq_iff)
qed (simp_all add: resized_def)

lemma file_ok_resized [simp]: "file_ok sbk v (resized e x) = file_ok sbk v x"
  by (simp add: file_ok_def)

lemma stored_filled:
  assumes W: "stored sbk off bs v x v' x'" and f: "filled v x"
    and n: "off \<le> unat (i_size x)" "unat (i_size x) \<le> MAXFILE * BSIZE" "off + length bs \<le> MAXFILE * BSIZE"
    and size: "unat (i_size (resized (off + length bs) x')) = max (unat (i_size x)) (off + length bs)"
  shows "filled v' (resized (off + length bs) x')"
  unfolding filled_def slot_resized size
proof (intro allI impI)
  fix bn
  assume bn: "bn * BSIZE < max (unat (i_size x)) (off + length bs)"
  have "bn * BSIZE < MAXFILE * BSIZE" using n(2,3) by (intro less_le_trans [OF bn]) simp
  then have le: "bn \<le> MAXFILE" by simp
  show "slot v' x' bn \<noteq> 0"
  proof (cases "bn * BSIZE < unat (i_size x)")
    case True
    then have "slot v x bn \<noteq> 0" using f by (simp add: filled_def)
    then show ?thesis using W le unfolding stored_def by metis
  next
    case False
    then have "off \<le> bn * BSIZE" "bn * BSIZE < off + length bs" using bn n(1) by (auto simp: max_def split: if_splits)
    then have "slot v' x' (bn * BSIZE div BSIZE) \<noteq> 0" using W unfolding stored_def by blast
    then show ?thesis by simp
  qed
qed

text \<open>Everything about a write in one place.\<close>

lemma writei_ok:
  assumes r: "tx_ready p {} (Suc k + 7 * rounds off (length bs)) s a" and f: "file_at s a ip" and free: "2 * rounds off (length bs) \<le> free_count (sb s) (a_view a)"
    and src: "supplies p src bs s" and n: "off \<le> unat (i_size (itable s ip))" "unat (i_size (itable s ip)) \<le> MAXFILE * BSIZE" "off + length bs \<le> MAXFILE * BSIZE"
    and i: "unat (i_inum (itable s ip)) < unat (sb_ninodes (sb s))"
  shows "\<exists>t a'. writei ip src (of_nat off) (of_nat (length bs)) s = Ret (int (length bs)) t \<and> tx_ready p {} k t a' \<and> file_at t a' ip \<and>
    ifs_frame p s t \<and> itable t = (itable s)(ip := (resized (off + length bs) (itable s ip))\<lparr>i_addrs := i_addrs (itable t ip)\<rparr>) \<and>
    contents (a_view a') (itable t ip) = overwrite (contents (a_view a) (itable s ip)) off bs \<and>
    disk_inode (sb s) (a_view a') (i_inum (itable s ip)) = inode_disk (itable t ip) \<and>
    spares (sb s) (a_view a) (itable s ip) (a_view a') (itable t ip) \<and>
    (filled (a_view a) (itable s ip) \<longrightarrow> filled (a_view a') (itable t ip))"
proof -
  let ?x = "itable s ip" and ?v = "a_view a" and ?e = "off + length bs"
  from writei_loop [of p "Suc k" off 0 bs s a ip src] r f free src n(3) obtain t b where
    t: "kloop (writei_step ip src off (length bs)) 0 s = Ret (length bs) t" "wrote p ip (Suc k) (2 * rounds off (length bs)) off bs s a t b" by auto
  note W = t(2) [unfolded wrote_def]
  have it: "itable t = (itable s)(ip := ?x\<lparr>i_addrs := i_addrs (itable t ip)\<rparr>)" and ft: "file_at t b ip" and sb: "sb t = sb s"
    using W ifs_frame_sb by blast+
  have xt: "i_size (itable t ip) = i_size ?x" "i_inum (itable t ip) = i_inum ?x" by (subst it, simp)+
  let ?t = "upd_inode ip (resized ?e) t"
  have itu: "itable ?t ip = resized ?e (itable t ip)" "sb ?t = sb s" by (simp_all add: upd_inode_def sb)
  have fu: "file_at ?t b ip" using ft by (simp add: file_at_def itu sb)
  have "tx_ready p {} (Suc k) ?t b" using W by simp
  from iupdate_spares [OF this fu] i xt(2) obtain u a' where
    u: "iupdate ip ?t = Ret () u" "tx_ready p {} k u a'" "tx_frame p ?t u" "blocks_ok (sb s) (a_view a')"
      "disk_inode (sb s) (a_view a') (i_inum ?x) = inode_disk (resized ?e (itable t ip))" "\<forall>c. c \<notin> meta (sb s) \<longrightarrow> a_view a' c = a_view b c"
      "\<forall>c. unat c < unat (sb_size (sb s)) \<longrightarrow> in_use (sb s) (a_view a') c = in_use (sb s) (a_view b) c"
    by (auto simp: itu)
  have iu: "itable u = itable ?t" using tx_frame_select(2) [OF u(3)] .
  have xu: "itable u ip = resized ?e (itable t ip)" by (simp add: iu itu)
  have fo: "file_ok (sb s) (a_view b) (itable t ip)" using ft by (simp add: file_at_def sb)
  note same = file_ok_cong [OF fo, of "a_view a'"]
  have sm: "file_ok (sb s) (a_view a') (itable t ip)" "own (a_view a') (itable t ip) = own (a_view b) (itable t ip)" "slot (a_view a') (itable t ip) = slot (a_view b) (itable t ip)"
    "\<And>i. i < MAXFILE * BSIZE \<Longrightarrow> file_byte (a_view a') (itable t ip) i = file_byte (a_view b) (itable t ip) i"
    using same u(6,7) by blast+
  have ret: "writei ip src (of_nat off) (of_nat (length bs)) s = Ret (int (length bs)) u"
    using writei_eq [OF n(1,3) xt(1) t(1)] u(1) by (simp add: exec_simps)
  have "ifs_frame p s t" using W by blast
  then have fr: "ifs_frame p s u" using ifs_frame_trans [OF ifs_frame_trans [OF _ ifs_frame_upd] ifs_frame_tx [OF u(3)]] by blast
  have size: "unat (i_size (resized ?e (itable t ip))) = max (unat (i_size ?x)) ?e"
  proof -
    have "?e < 2 ^ 32" using n(3) by (simp add: MAXFILE_268 BSIZE_def)
    then have "unat (of_nat ?e :: u32) = ?e" by (rule unat_small)
    then show ?thesis by (auto simp: resized_def xt simp del: of_nat_add)
  qed
  have c: "contents (a_view a') (itable u ip) = overwrite (contents ?v ?x) off bs"
    unfolding xu using W sm(4) n size by (intro contents_written) (auto simp: stored_def)
  have "spares (sb s) (a_view b) (itable t ip) (a_view a') (itable u ip)" unfolding spares_def xu using u(6,7) sm(2) by simp
  then have sp: "spares (sb s) ?v ?x (a_view a') (itable u ip)" using W spares_trans unfolding stored_def by blast
  have "filled (a_view b) (resized ?e (itable t ip))" if "filled ?v ?x" using stored_filled [OF _ that n] W size by blast
  then have "filled (a_view a') (itable u ip)" if "filled ?v ?x" using that sm(3) by (simp add: filled_def xu)
  moreover have "itable u = (itable s)(ip := (resized ?e ?x)\<lparr>i_addrs := i_addrs (itable u ip)\<rparr>)"
  proof -
    have "itable u = (itable t)(ip := resized ?e (itable t ip))" by (simp add: iu upd_inode_def)
    moreover have "resized ?e (itable t ip) = (resized ?e ?x)\<lparr>i_addrs := i_addrs (itable t ip)\<rparr>" by (subst (1) it) (simp add: resized_def)
    moreover have "(itable t)(ip := z) = (itable s)(ip := z)" for z by (subst it) simp
    ultimately show ?thesis by (simp add: xu)
  qed
  moreover have "file_at u a' ip" using sm(1) u(4) ft ifs_frame_sb [OF fr] by (simp add: file_at_def xu)
  ultimately show ?thesis using ret u(2,5) fr c sp xu by (intro exI [of _ u] exI [of _ a']) simp
qed

section \<open>An example\<close>

text \<open>The example file system with inodes in block 32; entry 0 of the inode table is inode 7, an empty file.\<close>

definition example_wfs :: kworld where
  "example_wfs = upd_inode 0 (\<lambda>x. x\<lparr>i_dev := ROOTDEV, i_inum := 7, i_ref := 1, i_valid := True, i_type := T_FILE\<rparr>)
     (example_fs\<lparr>sb := (sb example_fs)\<lparr>sb_ninodes := 16, sb_inodestart := 32\<rparr>\<rparr>)"

lemma example_wfs_simps:
  "sb example_wfs = (sb example_fs)\<lparr>sb_ninodes := 16, sb_inodestart := 32\<rparr>" "log example_wfs = log example_log"
  "i_addrs (itable example_wfs 0) = replicate 13 0" "i_size (itable example_wfs 0) = 0" "i_inum (itable example_wfs 0) = 7" "i_dev (itable example_wfs 0) = ROOTDEV"
  by (simp_all add: example_wfs_def upd_inode_def example_fs_def example_log_def upd_log_def example_bcache_def zero_world_def zero_inode_def NDIRECT_def numeral_eq_Suc)

lemma example_wfs_ready: "k \<le> 20 \<Longrightarrow> tx_ready 0 {} k example_wfs example_fcache"
proof -
  assume k: "k \<le> 20"
  have "in_trans p (s\<lparr>sb := x\<rparr>) a = in_trans p s a" for p x a and s :: kworld
    by (simp add: in_trans_def bcrel_def quiet_def mypid_def buf_locks_def settled_def lock_free_def)
  then have T: "in_trans 0 example_wfs example_fcache" using example_fs_trans by (simp add: example_wfs_def)
  have used: "a_used example_fcache = {60}" by (auto simp: a_used_def example_fcache_def example_cache_def)
  have rc: "a_rc example_fcache n \<le> 1" for n by (simp add: example_fcache_def example_cache_def)
  have "a_rc example_fcache n + k + 2 < 2 ^ 32" for n using rc [of n] k by simp
  then show ?thesis using T k used
    by (simp add: tx_ready_def log_room_def example_wfs_simps example_log_simps LOGSIZE_30 NBUF_def MAXOPBLOCKS_def)
      (simp add: example_fcache_def example_cache_def)
qed

lemma example_wfs_map:
  "unat (sb_size (sb example_wfs)) = 100" "n < 100 \<Longrightarrow> BBLOCK (of_nat n) (sb example_wfs) = 45"
  "n < 100 \<Longrightarrow> in_use (sb example_wfs) (a_view example_fcache) (of_nat n) \<longleftrightarrow> n < 64"
proof -
  have sz: "unat (sb_size (sb example_wfs)) = 100" "sb_bmapstart (sb example_wfs) = 45" by (simp_all add: example_wfs_simps example_fs_def)
  show "unat (sb_size (sb example_wfs)) = 100" by (rule sz)
  assume n: "n < 100"
  show "BBLOCK (of_nat n) (sb example_wfs) = 45" using n by (simp add: BBLOCK_div sz unat_of_nat BPB_8192)
  then show "in_use (sb example_wfs) (a_view example_fcache) (of_nat n) \<longleftrightarrow> n < 64"
    using n example_bits [of n] by (simp add: in_use_def unat_of_nat BPB_8192 example_fcache_def)
qed

lemma example_wfs_iblock: "i < 16 \<Longrightarrow> IBLOCK (of_nat i) (sb example_wfs) = 32"
proof -
  assume "i < 16"
  then have "unat ((of_nat i :: u32) div 16) = 0" by (simp add: unat_div unat_of_nat)
  then have "(of_nat i :: u32) div 16 = 0" by (simp only: unat_eq_0)
  then show ?thesis by (simp add: IBLOCK_def IPB_16 example_wfs_simps)
qed

lemma example_wfs_meta: "bitmap (sb example_wfs) = {45}" "meta (sb example_wfs) = {0, 45, 32}"
proof -
  show b: "bitmap (sb example_wfs) = {45}"
    unfolding bitmap_def example_wfs_map(1) using example_wfs_map(2) by (auto intro!: image_eqI [of 45 _ 0])
  have "(\<lambda>i. IBLOCK (of_nat i) (sb example_wfs)) ` {..<16} = {32}"
    using example_wfs_iblock by (auto intro!: image_eqI [of 32 _ 0])
  moreover have "unat (sb_ninodes (sb example_wfs)) = 16" by (simp add: example_wfs_simps)
  ultimately show "meta (sb example_wfs) = {0, 45, 32}" by (simp add: meta_def b insert_commute)
qed

lemma example_wfs_file: "file_at example_wfs example_fcache 0" "free_count (sb example_wfs) (a_view example_fcache) = 36"
proof -
  let ?x = "sb example_wfs" and ?v = "a_view example_fcache"
  have len: "length (?v c) = BSIZE" for c by (simp add: example_fcache_def example_cache_def example_map_def BSIZE_def)
  have "in_use ?x ?v c \<and> unat c < 100" if "c \<in> meta ?x" for c
    using that example_wfs_map(3) [of 0] example_wfs_map(3) [of 45] example_wfs_map(3) [of 32] by (auto simp: example_wfs_meta)
  moreover have "IBLOCK (of_nat i) ?x \<notin> bitmap ?x" if "i < unat (sb_ninodes ?x)" for i
  proof -
    have "i < 16" using that by (simp add: example_wfs_simps)
    then show ?thesis by (simp only: example_wfs_iblock example_wfs_meta) simp
  qed
  ultimately have "blocks_ok ?x ?v" using len by (simp add: blocks_ok_def example_wfs_map(1))
  moreover have "slot ?v (itable example_wfs 0) k = 0" if "k \<le> MAXFILE" for k
    by (simp add: slot_def block_addr_def example_wfs_simps MAXFILE_268)
  then have "own ?v (itable example_wfs 0) = {}" by (auto simp: own_def)
  then have "file_ok ?x ?v (itable example_wfs 0)"
    using \<open>\<And>k. k \<le> MAXFILE \<Longrightarrow> slot ?v (itable example_wfs 0) k = 0\<close> by (simp add: file_ok_def example_wfs_simps MAXFILE_268)
  ultimately show "file_at example_wfs example_fcache 0" by (simp add: file_at_def example_wfs_simps)
  have "{n. free_in ?x ?v n} = {64..<100}" using example_wfs_map by (auto simp: free_in_def)
  then show "free_count ?x ?v = 36" by (simp add: free_count_def)
qed

section \<open>Correctness\<close>

text \<open>
  C32. \<open>writei\<close> writes to a file as to a sequence of bytes. Inside a transaction with enough room in the log and in the cache, and with enough free blocks,
  for a file in order whose inode is loaded: a write of any length at any position up to the end of the file returns the number of bytes; the contents
  of the file are then the old ones with the bytes in place at the position, the file extended if they reach beyond its end; the inode on disk is the one
  in memory, no other inode of the table has changed, the blocks of the file are in order again, and every other file in order that shares no block with this
  one has its contents.
\<close>
theorem writei_spec:
  assumes "tx_ready p {} (Suc k + 7 * rounds off (length bs)) s a" "file_at s a ip" "2 * rounds off (length bs) \<le> free_count (sb s) (a_view a)"
    and "supplies p src bs s" "off \<le> unat (i_size (itable s ip))" "unat (i_size (itable s ip)) \<le> MAXFILE * BSIZE" "off + length bs \<le> MAXFILE * BSIZE"
    and "unat (i_inum (itable s ip)) < unat (sb_ninodes (sb s))"
  shows "\<exists>t a'. writei ip src (of_nat off) (of_nat (length bs)) s = Ret (int (length bs)) t \<and> tx_ready p {} k t a' \<and> file_at t a' ip \<and>
    contents (a_view a') (itable t ip) = overwrite (contents (a_view a) (itable s ip)) off bs \<and>
    disk_inode (sb s) (a_view a') (i_inum (itable s ip)) = inode_disk (itable t ip) \<and> (\<forall>j. j \<noteq> ip \<longrightarrow> itable t j = itable s j) \<and>
    (\<forall>y. file_ok (sb s) (a_view a) y \<and> own (a_view a) y \<inter> own (a_view a) (itable s ip) = {} \<and> unat (i_size y) \<le> MAXFILE * BSIZE \<longrightarrow>
       contents (a_view a') y = contents (a_view a) y)"
proof -
  obtain t a' where t: "writei ip src (of_nat off) (of_nat (length bs)) s = Ret (int (length bs)) t" "tx_ready p {} k t a'" "file_at t a' ip"
    "itable t = (itable s)(ip := (resized (off + length bs) (itable s ip))\<lparr>i_addrs := i_addrs (itable t ip)\<rparr>)"
    "contents (a_view a') (itable t ip) = overwrite (contents (a_view a) (itable s ip)) off bs"
    "disk_inode (sb s) (a_view a') (i_inum (itable s ip)) = inode_disk (itable t ip)"
    "spares (sb s) (a_view a) (itable s ip) (a_view a') (itable t ip)"
    using writei_ok [OF assms] by blast
  have "itable t j = itable s j" if "j \<noteq> ip" for j using that by (subst t(4)) simp
  then show ?thesis using t(1-3,5,6) spares_other [OF t(7)] by blast
qed

theorem writei_spec_witness:
  "\<exists>t (a' :: acache). writei 0 (LocalSrc [1, 2, 3]) 0 3 example_wfs = Ret 3 t \<and> contents (a_view a') (itable t 0) = [1, 2, 3]"
proof -
  let ?s = example_wfs and ?a = example_fcache and ?bs = "[1, 2, 3] :: byte list"
  have r: "rounds 0 (length ?bs) = 1" by (simp add: rounds_def BSIZE_def)
  have 1: "tx_ready 0 {} (Suc 0 + 7 * rounds 0 (length ?bs)) ?s ?a" unfolding r using example_wfs_ready [of 8] by simp
  have 2: "2 * rounds 0 (length ?bs) \<le> free_count (sb ?s) (a_view ?a)" unfolding r example_wfs_file(2) by simp
  have 3: "unat (i_size (itable ?s 0)) \<le> MAXFILE * BSIZE" "0 + length ?bs \<le> MAXFILE * BSIZE" "unat (i_inum (itable ?s 0)) < unat (sb_ninodes (sb ?s))"
    by (simp_all add: example_wfs_simps MAXFILE_268 BSIZE_def)
  obtain t and a' :: acache where "writei 0 (LocalSrc ?bs) (of_nat 0) (of_nat (length ?bs)) ?s = Ret (int (length ?bs)) t"
    "contents (a_view a') (itable t 0) = overwrite (contents (a_view ?a) (itable ?s 0)) 0 ?bs"
    using writei_spec [OF 1 example_wfs_file(1) 2 supplies_local le0 3] by (elim exE conjE) (rule that)
  then show ?thesis by (intro exI [of _ t] exI [of _ a']) (simp add: overwrite_def contents_def example_wfs_simps)
qed

text \<open>
  C33. What is written is read back. After a write to a file without holes as above, \<open>readi\<close> at the same position and of the same length returns exactly the bytes
  that were written, and \<open>readi\<close> of the whole file its new contents.
\<close>
theorem write_read:
  assumes "tx_ready p {} (Suc (Suc k) + 7 * rounds off (length bs)) s a" "file_at s a ip" "2 * rounds off (length bs) \<le> free_count (sb s) (a_view a)"
    and "supplies p src bs s" "off \<le> unat (i_size (itable s ip))" "unat (i_size (itable s ip)) \<le> MAXFILE * BSIZE" "off + length bs \<le> MAXFILE * BSIZE"
    and "unat (i_inum (itable s ip)) < unat (sb_ninodes (sb s))" "filled (a_view a) (itable s ip)"
  shows "\<exists>t u w. writei ip src (of_nat off) (of_nat (length bs)) s = Ret (int (length bs)) t \<and>
    readi ip LocalDst (of_nat off) (of_nat (length bs)) t = Ret (int (length bs), bs) u \<and>
    readi ip LocalDst 0 (i_size (itable t ip)) t =
      Ret (int (unat (i_size (itable t ip))), overwrite (contents (a_view a) (itable s ip)) off bs) w"
proof -
  let ?e = "off + length bs" and ?x = "itable s ip"
  obtain t a' where t: "writei ip src (of_nat off) (of_nat (length bs)) s = Ret (int (length bs)) t" "tx_ready p {} (Suc k) t a'" "file_at t a' ip"
    "itable t = (itable s)(ip := (resized ?e ?x)\<lparr>i_addrs := i_addrs (itable t ip)\<rparr>)"
    "contents (a_view a') (itable t ip) = overwrite (contents (a_view a) ?x) off bs" "filled (a_view a') (itable t ip)"
    using writei_ok [OF assms(1-8)] assms(9) by blast
  have big: "?e < 2 ^ 32" using assms(7) by (simp add: MAXFILE_268 BSIZE_def)
  then have w: "unat (of_nat off :: u32) = off" "unat (of_nat (length bs) :: u32) = length bs" "unat (of_nat ?e :: u32) = ?e"
    by (simp_all only: unat_small)
  have "i_size (itable t ip) = i_size (resized ?e ?x)" by (subst t(4)) simp
  then have size: "unat (i_size (itable t ip)) = max (unat (i_size ?x)) ?e"
    using w(3) by (auto simp: resized_def simp del: of_nat_add)
  then have "unat (i_size (itable t ip)) \<le> MAXFILE * BSIZE" using assms(6,7) by simp
  then have fr: "file_readable a' (itable t ip)" using file_readable_filled [OF t(2,3,6)] by blast
  have R: "bcrel p t a'" "i_dev (itable t ip) = ROOTDEV" using ready_trans(2) [OF t(2)] t(3) by (simp_all add: file_at_def)
  have le: "(of_nat off :: u32) \<le> i_size (itable t ip)" using assms(5) size by (simp add: word_le_nat_alt w)
  have lt: "unat (of_nat off :: u32) + unat (of_nat (length bs) :: u32) < 2 ^ 32" using big by (simp only: w)
  have min: "min (length bs) (unat (i_size (itable t ip)) - off) = length bs" by (simp add: size)
  have "take (length bs) (drop off (overwrite (contents (a_view a) ?x) off bs)) = bs" using assms(5) by (simp add: overwrite_def)
  then have "\<exists>u. readi ip LocalDst (of_nat off) (of_nat (length bs)) t = Ret (int (length bs), bs) u"
    using readi_reads [OF R(1) fr R(2) lt le] unfolding w min t(5) by auto
  moreover have "\<exists>z. readi ip LocalDst 0 (i_size (itable t ip)) t = Ret (int (unat (i_size (itable t ip))), overwrite (contents (a_view a) ?x) off bs) z"
    using readi_reads [OF R(1) fr R(2), of 0 "i_size (itable t ip)"] length_file_contents [of "a_view a'" "itable t ip"] unat_u32 [of "i_size (itable t ip)"]
    unfolding t(5) by auto
  ultimately show ?thesis using t(1) by blast
qed

theorem write_read_witness:
  "\<exists>t u. writei 0 (LocalSrc [1, 2, 3]) 0 3 example_wfs = Ret 3 t \<and> readi 0 LocalDst 0 3 t = Ret (3, [1, 2, 3]) u"
proof -
  let ?s = example_wfs and ?a = example_fcache and ?bs = "[1, 2, 3] :: byte list"
  have r: "rounds 0 (length ?bs) = 1" by (simp add: rounds_def BSIZE_def)
  have 1: "tx_ready 0 {} (Suc (Suc 0) + 7 * rounds 0 (length ?bs)) ?s ?a" unfolding r using example_wfs_ready [of 9] by simp
  have 2: "2 * rounds 0 (length ?bs) \<le> free_count (sb ?s) (a_view ?a)" unfolding r example_wfs_file(2) by simp
  have 3: "unat (i_size (itable ?s 0)) \<le> MAXFILE * BSIZE" "0 + length ?bs \<le> MAXFILE * BSIZE" "unat (i_inum (itable ?s 0)) < unat (sb_ninodes (sb ?s))"
    "filled (a_view ?a) (itable ?s 0)"
    by (simp_all add: example_wfs_simps MAXFILE_268 BSIZE_def filled_def)
  obtain t u where "writei 0 (LocalSrc ?bs) (of_nat 0) (of_nat (length ?bs)) ?s = Ret (int (length ?bs)) t"
    "readi 0 LocalDst (of_nat 0) (of_nat (length ?bs)) t = Ret (int (length ?bs), ?bs) u"
    using write_read [OF 1 example_wfs_file(1) 2 supplies_local le0 3] by (elim exE conjE) (rule that)
  then show ?thesis by (intro exI [of _ t] exI [of _ u]) simp
qed

end
