(* ===== verification/Directory.thy ===== *)
theory Directory
  imports Filedata
begin

text \<open>
  Directories (\<open>dirlookup\<close>, \<open>dirlink\<close> of \<open>kernel/fs.c\<close>): the contents of a directory are a sequence of entries of 16 bytes; a lookup finds the first entry in
  use with the name, and a name that has been linked is found.
\<close>

section \<open>Entries\<close>

definition dentry :: "byte list \<Rightarrow> nat \<Rightarrow> byte list" where
  "dentry c k = take sizeof_dirent (drop (sizeof_dirent * k) c)"

definition entries :: "byte list \<Rightarrow> nat" where
  "entries c = length c div sizeof_dirent"

text \<open>Names count up to their NUL, and up to 14 bytes.\<close>

definition dname :: "byte list \<Rightarrow> byte list" where
  "dname n = cstr_take DIRSIZ (array n)"

definition named :: "byte list \<Rightarrow> byte list \<Rightarrow> nat \<Rightarrow> bool" where
  "named c n k \<longleftrightarrow> de_inum (dentry c k) \<noteq> 0 \<and> dname (de_name (dentry c k)) = dname n"

lemma namecmp_dname: "namecmp m n = 0 \<longleftrightarrow> dname n = dname m"
  by (auto simp: namecmp_def strncmp_eq_0 dname_def)

lemma sizeof_16 [simp]: "sizeof_dirent = 16"
  by (simp add: sizeof_dirent_def)

text \<open>A directory that can be read.\<close>

definition dir_at :: "kworld \<Rightarrow> acache \<Rightarrow> nat \<Rightarrow> bool" where
  "dir_at s a dp \<longleftrightarrow> file_readable a (itable s dp) \<and> i_dev (itable s dp) = ROOTDEV \<and> i_type (itable s dp) = T_DIR \<and> unat (i_size (itable s dp)) mod 16 = 0"

abbreviation data_of :: "acache \<Rightarrow> kworld \<Rightarrow> nat \<Rightarrow> byte list" where
  "data_of a s dp \<equiv> contents (a_view a) (itable s dp)"

lemma dir_size:
  assumes "dir_at s a dp"
  shows "unat (i_size (itable s dp)) = 16 * entries (data_of a s dp)" "16 * entries (data_of a s dp) \<le> 274432"
  using assms by (auto simp: dir_at_def entries_def file_readable_def MAXFILE_268 BSIZE_def)

lemma offset_words:
  assumes "dir_at s a dp" "k \<le> entries (data_of a s dp)"
  shows "unat (of_nat (16 * k) :: u32) = 16 * k" "(of_nat (16 * k) :: u32) < i_size (itable s dp) \<longleftrightarrow> k < entries (data_of a s dp)"
    "(of_nat (16 * k) :: u32) + of_nat sizeof_dirent = of_nat (16 * Suc k)"
proof -
  have "16 * k < 2 ^ 32" using dir_size [OF assms(1)] assms(2) by simp
  then show 1: "unat (of_nat (16 * k) :: u32) = 16 * k" by (rule unat_small)
  show "(of_nat (16 * k) :: u32) < i_size (itable s dp) \<longleftrightarrow> k < entries (data_of a s dp)"
    unfolding word_less_nat_alt 1 dir_size(1) [OF assms(1)] by simp
  show "(of_nat (16 * k) :: u32) + of_nat sizeof_dirent = of_nat (16 * Suc k)" by simp
qed

lemma read_entry:
  assumes R: "bcrel p s a" and d: "dir_at s a dp" and k: "k < entries (data_of a s dp)"
  shows "\<exists>t. readi dp LocalDst (of_nat (16 * k)) (of_nat sizeof_dirent) s = Ret (16, dentry (data_of a s dp) k) t \<and> bcrel p t a \<and> bio_frame p s t"
proof -
  note w = offset_words [OF d less_imp_le [OF k]]
  have f: "file_readable a (itable s dp)" "i_dev (itable s dp) = ROOTDEV" using d by (simp_all add: dir_at_def)
  have sz: "16 * Suc k \<le> unat (i_size (itable s dp))" "16 * Suc k \<le> 274432" using dir_size [OF d] k by auto
  have n: "unat (of_nat sizeof_dirent :: u32) = 16" by simp
  have "unat (of_nat (16 * k) :: u32) + unat (of_nat sizeof_dirent :: u32) < 2 ^ 32" unfolding w(1) n using sz(2) by simp
  moreover have "(of_nat (16 * k) :: u32) \<le> i_size (itable s dp)" using w(2) k by (simp add: less_imp_le)
  moreover have m: "min 16 (unat (i_size (itable s dp)) - 16 * k) = 16" using sz(1) by simp
  ultimately show ?thesis using readi_reads [OF R f, of "of_nat (16 * k)" "of_nat sizeof_dirent"] unfolding w(1) n m by (simp add: dentry_def)
qed

lemma dir_at_frame: "dir_at s a dp \<Longrightarrow> bio_frame p s t \<Longrightarrow> dir_at t a dp"
  using bio_frame_select(2) [of p s t] by (simp add: dir_at_def)

section \<open>Looking up a name\<close>

definition found :: "nat \<Rightarrow> byte list \<Rightarrow> nat \<Rightarrow> (nat \<times> u32) option K" where
  "found dp c k = kbind (iget ROOTDEV (ucast (de_inum (dentry c k)))) (\<lambda>ip. kret (Some (ip, of_nat (16 * k))))"

lemma dirlookup_step_entry:
  assumes R: "bcrel p s a" and d: "dir_at s a dp" and k: "k < entries (data_of a s dp)"
  shows "\<exists>t. bcrel p t a \<and> bio_frame p s t \<and> dirlookup_step dp name (of_nat (16 * k)) s =
    (if named (data_of a s dp) name k then kbind (found dp (data_of a s dp) k) (\<lambda>r. kret (Inr r)) t else Ret (Inl (of_nat (16 * Suc k))) t)"
proof -
  let ?e = "dentry (data_of a s dp) k"
  obtain t where t: "readi dp LocalDst (of_nat (16 * k)) (of_nat sizeof_dirent) s = Ret (16, ?e) t" "bcrel p t a" "bio_frame p s t"
    using read_entry [OF assms] by blast
  note w = offset_words [OF d less_imp_le [OF k]]
  have dev: "i_dev (itable s dp) = ROOTDEV" using d by (simp add: dir_at_def)
  have "dirlookup_step dp name (of_nat (16 * k)) s =
      (if named (data_of a s dp) name k then kbind (found dp (data_of a s dp) k) (\<lambda>r. kret (Inr r)) t else Ret (Inl (of_nat (16 * Suc k))) t)"
    unfolding dirlookup_step_def kbind_kget
    using t(1) k by (simp add: w(2,3) kbind_def dev named_def namecmp_dname found_def kret_def split: outcome.splits del: of_nat_mult)
  then show ?thesis using t(2,3) by blast
qed

lemma find_upt_Cons: "k < n \<Longrightarrow> List.find P [k..<n] = (if P k then Some k else List.find P [Suc k..<n])"
  by (simp add: upt_conv_Cons)

lemma dirlookup_loop:
  assumes "bcrel p s a" "dir_at s a dp" "k \<le> entries (data_of a s dp)"
  shows "\<exists>t. bcrel p t a \<and> bio_frame p s t \<and> kloop (dirlookup_step dp name) (of_nat (16 * k)) s =
    (case List.find (named (data_of a s dp) name) [k..<entries (data_of a s dp)] of None \<Rightarrow> Ret None t | Some j \<Rightarrow> found dp (data_of a s dp) j t)"
  using assms
proof (induction "entries (data_of a s dp) - k" arbitrary: k s)
  case 0
  have "dirlookup_step dp name (of_nat (16 * k)) s = Ret (Inr None) s"
    using 0 offset_words(2) [OF 0(3,4)] by (simp add: dirlookup_step_def exec_simps del: of_nat_mult)
  from kloop_done [where body = "dirlookup_step dp name", OF this] 0 show ?case by auto
next
  case (Suc n)
  let ?c = "data_of a s dp"
  have k: "k < entries ?c" using Suc(2) by simp
  obtain t where t: "bcrel p t a" "bio_frame p s t" "dirlookup_step dp name (of_nat (16 * k)) s =
      (if named ?c name k then kbind (found dp ?c k) (\<lambda>r. kret (Inr r)) t else Ret (Inl (of_nat (16 * Suc k))) t)"
    using dirlookup_step_entry [OF Suc(3,4) k] by blast
  have it: "data_of a t dp = ?c" using bio_frame_select(2) [OF t(2)] by simp
  show ?case
  proof (cases "named ?c name k")
    case True
    then have "kloop (dirlookup_step dp name) (of_nat (16 * k)) s = found dp ?c k t"
      using t(3) by (subst kloop_unfold) (simp add: kbind_def kret_def split: outcome.splits)
    then show ?thesis using t(1,2) True by (auto simp: find_upt_Cons [OF k])
  next
    case False
    then have "dirlookup_step dp name (of_nat (16 * k)) s = Ret (Inl (of_nat (16 * Suc k))) t" using t(3) by simp
    from kloop_round [where body = "dirlookup_step dp name", OF this]
    have eq: "kloop (dirlookup_step dp name) (of_nat (16 * k)) s = kloop (dirlookup_step dp name) (of_nat (16 * Suc k)) t" .
    have "n = entries (data_of a t dp) - Suc k" "Suc k \<le> entries (data_of a t dp)" using Suc(2) k by (simp_all add: it)
    from Suc(1) [OF this(1) t(1) dir_at_frame [OF Suc(4) t(2)] this(2)] obtain u where
      "bcrel p u a" "bio_frame p t u" "kloop (dirlookup_step dp name) (of_nat (16 * Suc k)) t =
        (case List.find (named ?c name) [Suc k..<entries ?c] of None \<Rightarrow> Ret None u | Some j \<Rightarrow> found dp ?c j u)"
      unfolding it by blast
    then show ?thesis using eq False t(2) bio_frame_trans by (auto simp: find_upt_Cons [OF k])
  qed
qed

definition dir_find :: "byte list \<Rightarrow> byte list \<Rightarrow> nat option" where
  "dir_find c n = first_index (named c n) (entries c)"

lemma dirlookup_ok:
  assumes "bcrel p s a" "dir_at s a dp"
  shows "\<exists>t. bcrel p t a \<and> bio_frame p s t \<and> dirlookup dp name s =
    (case dir_find (data_of a s dp) name of None \<Rightarrow> Ret None t | Some j \<Rightarrow> found dp (data_of a s dp) j t)"
proof -
  have "i_type (itable s dp) = T_DIR" using assms(2) by (simp add: dir_at_def)
  then have "dirlookup dp name s = kloop (dirlookup_step dp name) (of_nat (16 * 0)) s" by (simp add: dirlookup_def exec_simps)
  then show ?thesis using dirlookup_loop [OF assms, of 0 name] by (simp add: dir_find_def first_index_def)
qed

section \<open>Entering a name\<close>

definition free_slot :: "byte list \<Rightarrow> nat" where
  "free_slot c = (case first_index (\<lambda>k. de_inum (dentry c k) = 0) (entries c) of None \<Rightarrow> entries c | Some k \<Rightarrow> k)"

lemma dirlink_free_loop:
  assumes "bcrel p s a" "dir_at s a dp" "k \<le> entries (data_of a s dp)"
  shows "\<exists>t. bcrel p t a \<and> bio_frame p s t \<and> kloop (dirlink_free dp) (of_nat (16 * k)) s =
    Ret (of_nat (16 * (case List.find (\<lambda>k. de_inum (dentry (data_of a s dp) k) = 0) [k..<entries (data_of a s dp)] of None \<Rightarrow> entries (data_of a s dp) | Some j \<Rightarrow> j))) t"
  using assms
proof (induction "entries (data_of a s dp) - k" arbitrary: k s)
  case 0
  have "dirlink_free dp (of_nat (16 * k)) s = Ret (Inr (of_nat (16 * k))) s"
    using 0 offset_words(2) [OF 0(3,4)] by (simp add: dirlink_free_def exec_simps del: of_nat_mult)
  from kloop_done [where body = "dirlink_free dp", OF this] 0 show ?case by auto
next
  case (Suc n)
  let ?c = "data_of a s dp" and ?P = "\<lambda>k. de_inum (dentry (data_of a s dp) k) = 0"
  have k: "k < entries ?c" using Suc(2) by simp
  obtain t where t: "readi dp LocalDst (of_nat (16 * k)) (of_nat sizeof_dirent) s = Ret (16, dentry ?c k) t" "bcrel p t a" "bio_frame p s t"
    using read_entry [OF Suc(3,4) k] by blast
  have it: "data_of a t dp = ?c" using bio_frame_select(2) [OF t(3)] by simp
  note w = offset_words [OF Suc(4) less_imp_le [OF k]]
  have step: "dirlink_free dp (of_nat (16 * k)) s = Ret (if ?P k then Inr (of_nat (16 * k)) else Inl (of_nat (16 * Suc k))) t"
    unfolding dirlink_free_def kbind_kget using t(1) k by (simp add: w(2,3) kbind_def kret_def del: of_nat_mult)
  show ?case
  proof (cases "?P k")
    case True
    then have "dirlink_free dp (of_nat (16 * k)) s = Ret (Inr (of_nat (16 * k))) t" using step by simp
    from kloop_done [where body = "dirlink_free dp", OF this] show ?thesis using t(2,3) True by (auto simp: find_upt_Cons [OF k])
  next
    case False
    then have "dirlink_free dp (of_nat (16 * k)) s = Ret (Inl (of_nat (16 * Suc k))) t" using step by simp
    from kloop_round [where body = "dirlink_free dp", OF this]
    have eq: "kloop (dirlink_free dp) (of_nat (16 * k)) s = kloop (dirlink_free dp) (of_nat (16 * Suc k)) t" .
    have "n = entries (data_of a t dp) - Suc k" "Suc k \<le> entries (data_of a t dp)" using Suc(2) k by (simp_all add: it)
    from Suc(1) [OF this(1) t(2) dir_at_frame [OF Suc(4) t(3)] this(2)] obtain u where
      "bcrel p u a" "bio_frame p t u" "kloop (dirlink_free dp) (of_nat (16 * Suc k)) t =
        Ret (of_nat (16 * (case List.find ?P [Suc k..<entries ?c] of None \<Rightarrow> entries ?c | Some j \<Rightarrow> j))) u"
      unfolding it by blast
    then show ?thesis using eq False t(3) bio_frame_trans by (auto simp: find_upt_Cons [OF k])
  qed
qed

lemma length_dirent [simp]: "length (dirent inum name) = 16"
  by (simp add: dirent_def DIRSIZ_def)

lemma map_array: "map (array xs) [0..<length xs] = xs"
  by (rule nth_equalityI) (simp_all add: array_def)

lemma dirent_fields: "de_inum (dirent inum name) = ucast inum" "dname (de_name (dirent inum name)) = dname name"
proof -
  show "de_inum (dirent inum name) = ucast inum"
    by (simp add: de_inum_def dirent_def get_le_def of_le_to_le_id)
  let ?n = "cstr_take DIRSIZ (array name)"
  have z: "\<forall>c\<in>set ?n. c \<noteq> 0" by (auto simp: cstr_take_def dest: set_takeWhileD)
  have "de_name (dirent inum name) = strncpy_list (array name) DIRSIZ" by (simp add: de_name_def dirent_def)
  moreover have "map (array (strncpy_list (array name) DIRSIZ)) [0..<DIRSIZ] = strncpy_list (array name) DIRSIZ"
    using map_array [of "strncpy_list (array name) DIRSIZ"] by simp
  moreover have "takeWhile (\<lambda>c. c \<noteq> 0) (?n @ replicate m 0) = ?n" for m using z by (cases m) (simp_all add: takeWhile_append2 takeWhile_eq_all_conv)
  ultimately show "dname (de_name (dirent inum name)) = dname name"
    unfolding dname_def cstr_take_def [of DIRSIZ "array (de_name (dirent inum name))"] by (simp add: strncpy_list_def)
qed

text \<open>The entries after one of them has been overwritten or added.\<close>

lemma entries_overwrite:
  assumes "length c = 16 * entries c" "j \<le> entries c" "length e = 16"
  shows "length (overwrite c (16 * j) e) = 16 * entries (overwrite c (16 * j) e)"
    "entries (overwrite c (16 * j) e) = max (entries c) (Suc j)"
    "k < max (entries c) (Suc j) \<Longrightarrow> dentry (overwrite c (16 * j) e) k = (if k = j then e else dentry c k)"
proof -
  have len: "length (overwrite c (16 * j) e) = 16 * max (entries c) (Suc j)"
    using assms by (simp add: overwrite_def max_def min_def)
  show n: "entries (overwrite c (16 * j) e) = max (entries c) (Suc j)" using len by (simp add: entries_def)
  show "length (overwrite c (16 * j) e) = 16 * entries (overwrite c (16 * j) e)" by (simp only: n len)
  assume k: "k < max (entries c) (Suc j)"
  have pre: "length (take (16 * j) c) = 16 * j" using assms(1,2) by simp
  consider "k < j" | "k = j" | "j < k" by linarith
  then show "dentry (overwrite c (16 * j) e) k = (if k = j then e else dentry c k)"
  proof cases
    case 1
    then have "16 * k + 16 \<le> 16 * j" by simp
    moreover from this have "drop (16 * k) (overwrite c (16 * j) e) = take (16 * j - 16 * k) (drop (16 * k) c) @ e @ drop (16 * j + length e) c"
      using pre by (simp add: overwrite_def drop_take)
    ultimately show ?thesis using 1 pre assms(1,2) by (simp add: dentry_def)
  next
    case 2
    then show ?thesis using pre assms(3) by (simp add: dentry_def overwrite_def)
  next
    case 3
    then have "16 * k = 16 * j + (16 + 16 * (k - Suc j))" by simp
    then have "drop (16 * k) (overwrite c (16 * j) e) = drop (16 * k) c"
      using pre assms(3) by (simp add: overwrite_def add.commute add.left_commute)
    then show ?thesis using 3 by (simp add: dentry_def)
  qed
qed

lemma free_slot_le: "free_slot c \<le> entries c" "k < free_slot c \<Longrightarrow> de_inum (dentry c k) \<noteq> 0"
  "free_slot c < entries c \<Longrightarrow> de_inum (dentry c (free_slot c)) = 0"
  by (auto simp: free_slot_def first_index_Some first_index_None split: option.splits)

text \<open>The name is found, and other names are found where they were.\<close>

lemma find_linked:
  assumes c: "length c = 16 * entries c" and e: "length e = 16" "de_inum e \<noteq> 0" "dname (de_name e) = dname n" and new: "dir_find c n = None"
  shows "dir_find (overwrite c (16 * free_slot c) e) n = Some (free_slot c)"
    "dname m \<noteq> dname n \<Longrightarrow> dir_find (overwrite c (16 * free_slot c) e) m = dir_find c m"
proof -
  let ?j = "free_slot c" and ?c = "overwrite c (16 * free_slot c) e"
  note o = entries_overwrite [OF c free_slot_le(1) e(1)]
  have nd: "named ?c l k = (if k = ?j then dname l = dname n else named c l k)" if "k < max (entries c) (Suc ?j)" for l k
    using o(3) [OF that] e by (auto simp: named_def)
  have "\<not> named c n k" if "k < entries c" for k using new that by (simp add: dir_find_def first_index_None)
  then have "\<not> named ?c n k" if "k < ?j" for k using nd that free_slot_le(1) [of c] by simp
  then show "dir_find ?c n = Some ?j" using nd [of ?j n] by (simp add: dir_find_def o(2) first_index_Some)
  assume m: "dname m \<noteq> dname n"
  have old: "\<not> named c m ?j" if "?j < entries c" using free_slot_le(3) [OF that] by (simp add: named_def)
  have same: "named ?c m k = (k < entries c \<and> named c m k)" if "k < max (entries c) (Suc ?j)" for k
    using nd [OF that, of m] m old that free_slot_le(1) [of c] by (auto simp: max_def split: if_splits)
  show "dir_find ?c m = dir_find c m"
  proof (cases "dir_find c m")
    case None
    then have "\<not> named ?c m k" if "k < max (entries c) (Suc ?j)" for k using same [OF that] by (auto simp: dir_find_def first_index_None)
    then have "dir_find ?c m = None" by (simp add: dir_find_def o(2) first_index_None)
    then show ?thesis using None by simp
  next
    case (Some i)
    then have i: "i < entries c" "named c m i" "\<forall>k<i. \<not> named c m k" by (simp_all add: dir_find_def first_index_Some)
    have "named ?c m i" "\<not> named ?c m k" if "k < i" for k using same [of i] same [of k] i that by auto
    moreover have "named ?c m i" using same [of i] i by simp
    ultimately have "dir_find ?c m = Some i" using i(1) by (auto simp: dir_find_def o(2) first_index_Some)
    then show ?thesis using Some by simp
  qed
qed

lemma one_round: "rounds (16 * j) 16 = 1"
proof -
  have "16 * j mod BSIZE = 16 * (j mod 64)" using mult_mod_right [of 16 j 64] by (simp add: BSIZE_def)
  moreover have "j mod 64 < 64" by simp
  ultimately have "16 * j mod BSIZE + 16 \<le> BSIZE" by (simp add: BSIZE_def)
  then have "(16 * j + 15) div BSIZE = 16 * j div BSIZE" by (rule within_block) simp_all
  then have "(15 + 16 * j) div BSIZE = 16 * j div BSIZE" by (simp only: add.commute)
  then show ?thesis by (simp add: rounds_def)
qed

lemma ready_bio: "tx_ready p L k s a \<Longrightarrow> bcrel p t a \<Longrightarrow> bio_frame p s t \<Longrightarrow> tx_ready p L k t a"
  using bio_frame_log [of p s t] by (simp add: tx_ready_def in_trans_def)

text \<open>A directory in order, of whole entries, with its inode loaded, in a transaction with room for \<open>k\<close> more blocks.\<close>

definition dir_ready :: "nat \<Rightarrow> nat \<Rightarrow> kworld \<Rightarrow> acache \<Rightarrow> nat \<Rightarrow> bool" where
  "dir_ready p k s a dp \<longleftrightarrow> tx_ready p {} k s a \<and> file_at s a dp \<and> filled (a_view a) (itable s dp) \<and> i_type (itable s dp) = T_DIR \<and>
     unat (i_size (itable s dp)) mod 16 = 0 \<and> unat (i_size (itable s dp)) \<le> MAXFILE * BSIZE"

lemma dir_ready_at:
  assumes "dir_ready p (Suc k) s a dp"
  shows "bcrel p s a" "dir_at s a dp" "length (data_of a s dp) = 16 * entries (data_of a s dp)"
proof -
  show "bcrel p s a" using assms by (auto simp: dir_ready_def dest: ready_trans(2))
  show d: "dir_at s a dp" using assms file_readable_filled [of p k s a dp] by (simp add: dir_ready_def dir_at_def file_at_def)
  show "length (data_of a s dp) = 16 * entries (data_of a s dp)" using dir_size(1) [OF d] by simp
qed

lemma dir_ready_bio: "dir_ready p k s a dp \<Longrightarrow> bcrel p t a \<Longrightarrow> bio_frame p s t \<Longrightarrow> dir_ready p k t a dp"
  using ready_bio [of p "{}" k s a t] bio_frame_select [of p s t] by (simp add: dir_ready_def file_at_def)

text \<open>The write of the entry.\<close>

lemma write_entry:
  assumes d: "dir_ready p (Suc k + 7) s a dp" and j: "j \<le> entries (data_of a s dp)" "16 * j + 16 \<le> MAXFILE * BSIZE" and e: "length e = 16"
    and free: "2 \<le> free_count (sb s) (a_view a)" and i: "unat (i_inum (itable s dp)) < unat (sb_ninodes (sb s))"
  shows "\<exists>t a'. writei dp (LocalSrc e) (of_nat (16 * j)) (of_nat sizeof_dirent) s = Ret 16 t \<and> dir_ready p k t a' dp \<and>
    data_of a' t dp = overwrite (data_of a s dp) (16 * j) e"
proof -
  let ?x = "itable s dp"
  have D: "tx_ready p {} (Suc k + 7 * rounds (16 * j) (length e)) s a" "2 * rounds (16 * j) (length e) \<le> free_count (sb s) (a_view a)"
    using d free by (simp_all add: dir_ready_def e one_round)
  have m: "i_type ?x = T_DIR" "unat (i_size ?x) mod 16 = 0" "unat (i_size ?x) \<le> MAXFILE * BSIZE" "file_at s a dp" "filled (a_view a) ?x"
    using d by (simp_all add: dir_ready_def)
  have at: "dir_at s a dp" using d dir_ready_at(2) [of p "k + 7" s a dp] by simp
  have off: "16 * j \<le> unat (i_size ?x)" using dir_size(1) [OF at] j(1) by simp
  from writei_ok [OF D(1) m(4) D(2) supplies_local off m(3) _ i] j(2) obtain t a' where
    t: "writei dp (LocalSrc e) (of_nat (16 * j)) (of_nat (length e)) s = Ret (int (length e)) t" "tx_ready p {} k t a'" "file_at t a' dp"
      "itable t = (itable s)(dp := (resized (16 * j + length e) ?x)\<lparr>i_addrs := i_addrs (itable t dp)\<rparr>)"
      "data_of a' t dp = overwrite (data_of a s dp) (16 * j) e" "filled (a_view a') (itable t dp)"
    unfolding e using m(5) by blast
  have x: "i_size (itable t dp) = i_size (resized (16 * j + 16) ?x)" "i_type (itable t dp) = T_DIR"
    by (subst t(4), simp add: e resized_def m(1))+
  have "16 * j + 16 < 2 ^ 32" using j(2) by (simp add: MAXFILE_268 BSIZE_def)
  then have "unat (of_nat (16 * j + 16) :: u32) = 16 * j + 16" by (rule unat_small)
  then have sz: "unat (i_size (itable t dp)) = max (unat (i_size ?x)) (16 * j + 16)"
    unfolding x(1) by (auto simp: resized_def simp del: of_nat_add)
  have "(16 * j + 16) mod 16 = 0" by simp
  then have "unat (i_size (itable t dp)) mod 16 = 0" "unat (i_size (itable t dp)) \<le> MAXFILE * BSIZE"
    using sz m(2,3) j(2) by (auto simp: max_def)
  then show ?thesis using t(1,2,3,5,6) x(2) by (intro exI [of _ t] exI [of _ a']) (simp add: dir_ready_def e)
qed

lemma dirlink_ok:
  assumes d: "dir_ready p (Suc k + 7) s a dp" and new: "dir_find (data_of a s dp) name = None"
    and room: "16 * free_slot (data_of a s dp) + 16 \<le> MAXFILE * BSIZE" "2 \<le> free_count (sb s) (a_view a)"
    and i: "unat (i_inum (itable s dp)) < unat (sb_ninodes (sb s))"
  shows "\<exists>t a'. dirlink dp name inum s = Ret 0 t \<and> dir_ready p k t a' dp \<and>
    data_of a' t dp = overwrite (data_of a s dp) (16 * free_slot (data_of a s dp)) (dirent inum name)"
proof -
  let ?c = "data_of a s dp" and ?j = "free_slot (data_of a s dp)"
  have d': "dir_ready p (Suc (k + 7)) s a dp" using d by simp
  obtain t where t: "dirlookup dp name s = Ret None t" "bcrel p t a" "bio_frame p s t"
    using dirlookup_ok [OF dir_ready_at(1,2) [OF d'], of name] new by auto
  have dt: "dir_ready p (Suc (k + 7)) t a dp" by (rule dir_ready_bio [OF d' t(2,3)])
  have ct: "data_of a t dp = ?c" using bio_frame_select(2) [OF t(3)] by simp
  obtain u where u: "kloop (dirlink_free dp) 0 t = Ret (of_nat (16 * ?j)) u" "bcrel p u a" "bio_frame p t u"
    using dirlink_free_loop [OF dir_ready_at(1,2) [OF dt], of 0] unfolding ct by (auto simp: free_slot_def first_index_def)
  have fr: "bio_frame p s u" by (rule bio_frame_trans [OF t(3) u(3)])
  have iu: "itable u = itable s" "sb u = sb s" using bio_frame_select [OF fr] by simp_all
  have du: "dir_ready p (Suc k + 7) u a dp" using dir_ready_bio [OF d u(2) fr] .
  from write_entry [OF du, unfolded iu, OF free_slot_le(1) room(1) length_dirent room(2) i] obtain w a' where
    "writei dp (LocalSrc (dirent inum name)) (of_nat (16 * ?j)) (of_nat sizeof_dirent) u = Ret 16 w" "dir_ready p k w a' dp"
    "data_of a' w dp = overwrite ?c (16 * ?j) (dirent inum name)" by blast
  moreover from this(1) have "dirlink dp name inum s = Ret 0 w"
    using t(1) u(1) by (simp add: dirlink_def exec_simps del: of_nat_mult)
  ultimately show ?thesis by blast
qed

section \<open>Correctness\<close>

text \<open>
  C34. \<open>dirlookup\<close> finds a name in a directory of any size: it returns the inode (through \<open>iget\<close>) and the offset of the first entry that is in use and whose name
  agrees with it up to the NUL and up to 14 bytes, and nothing when there is no such entry. It only reads: the cached contents of every block, the inodes and
  the rest of the kernel's state stay.
\<close>
theorem dirlookup_spec:
  assumes "bcrel p s a" "dir_at s a dp"
  shows "\<exists>t. bcrel p t a \<and> bio_frame p s t \<and> dirlookup dp name s =
    (case dir_find (contents (a_view a) (itable s dp)) name of
       None \<Rightarrow> Ret None t
     | Some k \<Rightarrow> kbind (iget ROOTDEV (ucast (de_inum (dentry (contents (a_view a) (itable s dp)) k)))) (\<lambda>ip. kret (Some (ip, of_nat (16 * k)))) t)"
  using dirlookup_ok [OF assms, of name] unfolding found_def .

text \<open>The example file, as an empty directory.\<close>

definition example_dir :: kworld where
  "example_dir = upd_inode 0 (\<lambda>x. x\<lparr>i_type := T_DIR\<rparr>) example_wfs"

lemma example_dir_simps:
  "sb example_dir = sb example_wfs" "log example_dir = log example_wfs" "itable example_dir 0 = (itable example_wfs 0)\<lparr>i_type := T_DIR\<rparr>"
  by (simp_all add: example_dir_def upd_inode_def)

lemma example_dir_ready: "k \<le> 20 \<Longrightarrow> dir_ready 0 k example_dir example_fcache 0"
proof -
  assume "k \<le> 20"
  then have "tx_ready 0 {} k example_dir example_fcache" using example_wfs_ready by (simp add: example_dir_def)
  moreover have "slot v (x\<lparr>i_type := T_DIR\<rparr>) = slot v x" for v x by (simp add: slot_def block_addr_def fun_eq_iff)
  then have "file_ok b v (x\<lparr>i_type := T_DIR\<rparr>) = file_ok b v x" for b v x by (simp add: file_ok_def own_def)
  then have "file_at example_dir example_fcache 0" using example_wfs_file(1) by (simp add: file_at_def example_dir_simps)
  ultimately show ?thesis by (simp add: dir_ready_def example_dir_simps example_wfs_simps filled_def)
qed

lemma example_dir_data: "data_of example_fcache example_dir 0 = []" "dir_find [] n = None" "free_slot [] = 0"
  by (simp_all add: contents_def example_dir_simps example_wfs_simps dir_find_def free_slot_def entries_def first_index_def)

theorem dirlookup_spec_witness: "\<exists>t. dirlookup 0 [65, 0] example_dir = Ret None t"
  using dirlookup_spec [OF dir_ready_at(1,2) [OF example_dir_ready [of "Suc 0"]], of "[65, 0]"] by (auto simp: example_dir_data)

text \<open>
  C35. A name that has been entered is found. \<open>dirlink\<close> of a name that the directory does not have, with room in the file system, returns 0; then \<open>dirlookup\<close> of the name gives the inode
  with the number that was entered, and every other name is found in the entry where it was before, or still not found; the directory is in order again.
\<close>
theorem dirlink_lookup:
  assumes "dir_ready p (Suc (Suc k) + 7) s a dp" "dir_find (contents (a_view a) (itable s dp)) name = None"
    and "16 * free_slot (contents (a_view a) (itable s dp)) + 16 \<le> MAXFILE * BSIZE" "2 \<le> free_count (sb s) (a_view a)"
    and "unat (i_inum (itable s dp)) < unat (sb_ninodes (sb s))" "inum \<noteq> 0" "unat inum < 2 ^ 16"
  shows "\<exists>t a' u. dirlink dp name inum s = Ret 0 t \<and> dir_ready p (Suc k) t a' dp \<and> bio_frame p t u \<and>
    dirlookup dp name t = kbind (iget ROOTDEV inum) (\<lambda>ip. kret (Some (ip, of_nat (16 * free_slot (contents (a_view a) (itable s dp)))))) u \<and>
    (\<forall>m. dname m \<noteq> dname name \<longrightarrow> dir_find (contents (a_view a') (itable t dp)) m = dir_find (contents (a_view a) (itable s dp)) m \<and>
       (\<forall>i. dir_find (contents (a_view a) (itable s dp)) m = Some i \<longrightarrow>
          dentry (contents (a_view a') (itable t dp)) i = dentry (contents (a_view a) (itable s dp)) i))"
proof -
  let ?c = "data_of a s dp" and ?j = "free_slot (data_of a s dp)"
  from dirlink_ok [OF assms(1-5)] obtain t a' where
    t: "dirlink dp name inum s = Ret 0 t" "dir_ready p (Suc k) t a' dp" "data_of a' t dp = overwrite ?c (16 * ?j) (dirent inum name)" by blast
  have len: "length ?c = 16 * entries ?c" using dir_ready_at(3) [of p "Suc k + 7" s a dp] assms(1) by simp
  have "unat (ucast (ucast inum :: u16) :: u32) = unat inum" using assms(7) by (simp add: unsigned_ucast_eq unsigned_take_bit_eq take_bit_nat_eq_self)
  then have ic: "ucast (ucast inum :: u16) = inum" by (simp only: word_unat_eq_iff)
  then have nz: "de_inum (dirent inum name) \<noteq> 0" using assms(6) by (auto simp: dirent_fields)
  note f = find_linked [OF len length_dirent nz dirent_fields(2) assms(2)]
  note o = entries_overwrite [OF len free_slot_le(1) length_dirent [of inum name]]
  have "dentry (data_of a' t dp) ?j = dirent inum name" unfolding t(3) by (subst o(3)) simp_all
  then obtain u where "bio_frame p t u" "dirlookup dp name t = kbind (iget ROOTDEV inum) (\<lambda>ip. kret (Some (ip, of_nat (16 * ?j)))) u"
    using dirlookup_ok [OF dir_ready_at(1,2) [OF t(2)], of name] unfolding t(3) f(1) by (auto simp: found_def dirent_fields ic)
  moreover have "dentry (data_of a' t dp) i = dentry ?c i" if "dir_find ?c m = Some i" for m i
  proof -
    have i: "i < entries ?c" "named ?c m i" using that by (simp_all add: dir_find_def first_index_Some)
    then have "i \<noteq> ?j" using free_slot_le(3) [of ?c] by (auto simp: named_def)
    then show ?thesis unfolding t(3) using i(1) by (subst o(3)) simp_all
  qed
  ultimately show ?thesis using t(1,2) f(2) by (intro exI [of _ t] exI [of _ a'] exI [of _ u]) (simp add: t(3))
qed

theorem dirlink_lookup_witness:
  "\<exists>t u. dirlink 0 [65, 0] 7 example_dir = Ret 0 t \<and> dirlookup 0 [65, 0] t = kbind (iget ROOTDEV 7) (\<lambda>ip. kret (Some (ip, 0))) u"
proof -
  let ?s = example_dir and ?a = example_fcache
  have 1: "dir_ready 0 (Suc (Suc 0) + 7) ?s ?a 0" using example_dir_ready [of 9] by simp
  have 0: "16 * free_slot (data_of ?a ?s 0) + 16 \<le> MAXFILE * BSIZE" by (simp only: example_dir_data) (simp add: MAXFILE_268 BSIZE_def)
  have 2: "2 \<le> free_count (sb ?s) (a_view ?a)"
    "unat (i_inum (itable ?s 0)) < unat (sb_ninodes (sb ?s))" "(7 :: u32) \<noteq> 0" "unat (7 :: u32) < 2 ^ 16"
    using example_wfs_file(2) by (simp_all add: example_dir_simps example_wfs_simps)
  have 3: "dir_find (data_of ?a ?s 0) [65, 0] = None" by (simp add: example_dir_data)
  obtain t u where "dirlink 0 [65, 0] 7 ?s = Ret 0 t"
    "dirlookup 0 [65, 0] t = kbind (iget ROOTDEV 7) (\<lambda>ip. kret (Some (ip, of_nat (16 * free_slot (data_of ?a ?s 0))))) u"
    using dirlink_lookup [OF 1 3 0 2] by (elim exE conjE) (rule that)
  then show ?thesis by (auto simp: example_dir_data)
qed

end
