(* ===== verification/Mkfs.thy ===== *)
theory Mkfs
  imports Directory
begin

text \<open>
  The builder of the file-system image (\<open>mkfs/mkfs.c\<close>), a program of the host that writes the disk the kernel boots from: the super block, a root directory
  with the files given on the command line, and the map of used blocks.

  The image is a list of blocks. The host is a parameter: which of the calls \<open>lseek\<close>, \<open>read\<close> and \<open>write\<close> at a position of the image succeed, which
  files can be opened, and the pieces in which \<open>read\<close> returns each of them. The byte order of the host is that of the disk, little-endian. \<open>die\<close> and a failing \<open>assert\<close>
  end the program with the outcome \<open>Panic\<close>; \<open>exit(0)\<close> is its return.
\<close>

section \<open>State\<close>

record host =
  h_create :: "byte list \<Rightarrow> bool"
  h_seek :: "nat \<Rightarrow> bool"
  h_read :: "nat \<Rightarrow> bool"
  h_write :: "nat \<Rightarrow> bool"
  h_open :: "byte list \<Rightarrow> byte list list option"

record mkfs =
  mk_img :: "byte list list"
  mk_sb :: superblock
  mk_freeinode :: u32
  mk_freeblock :: u32
  mk_out :: "(string \<times> int list) list"
  mk_host :: host

type_synonym 'a M = "(mkfs, 'a) prog"

definition FSSIZE :: nat where "FSSIZE = 2000"
definition NINODES :: nat where "NINODES = 200"
definition nbitmap :: nat where "nbitmap = FSSIZE div (BSIZE * 8) + 1"
definition ninodeblocks :: nat where "ninodeblocks = NINODES div IPB + 1"
definition nlog :: nat where "nlog = nat LOGSIZE"
definition nmeta :: nat where "nmeta = 2 + nlog + ninodeblocks + nbitmap"
definition nblocks :: nat where "nblocks = FSSIZE - nmeta"
definition zeroes :: "byte list" where "zeroes = replicate BSIZE 0"

text \<open>The bytes of a value in the order of the disk, read as the host reads them.\<close>

definition xshort :: "u16 \<Rightarrow> u16" where
  "xshort x = of_le [ucast x, ucast (drop_bit 8 x)]"

definition xint :: "u32 \<Rightarrow> u32" where
  "xint x = of_le [ucast x, ucast (drop_bit 8 x), ucast (drop_bit 16 x), ucast (drop_bit 24 x)]"

definition mk_die :: "string \<Rightarrow> 'a M" where
  "mk_die msg = panic msg"

definition mk_assert :: "bool \<Rightarrow> unit M" where
  "mk_assert b = kwhen (\<not> b) (panic ''assert'')"

definition mk_printf :: "string \<Rightarrow> int list \<Rightarrow> unit M" where
  "mk_printf fmt args = kmod (\<lambda>s. s\<lparr>mk_out := mk_out s @ [(fmt, args)]\<rparr>)"

section \<open>Blocks of the image\<close>

text \<open>The position of a sector; the product is computed in 32 bits.\<close>

definition sect_pos :: "u32 \<Rightarrow> nat" where
  "sect_pos sec = unat (sec * of_nat BSIZE)"

definition wsect :: "u32 \<Rightarrow> byte list \<Rightarrow> unit M" where
  "wsect sec buf =
     kbind (kget mk_host) (\<lambda>h.
     let k = sect_pos sec div BSIZE in
     if \<not> h_seek h (sect_pos sec) then mk_die ''lseek''
     else if \<not> h_write h (sect_pos sec) then mk_die ''write''
     else kmod (\<lambda>s. s\<lparr>mk_img := (if k < length (mk_img s) then (mk_img s)[k := buf]
                                else mk_img s @ replicate (k - length (mk_img s)) zeroes @ [buf])\<rparr>))"

definition rsect :: "u32 \<Rightarrow> byte list M" where
  "rsect sec =
     kbind (kget (\<lambda>s. (mk_host s, mk_img s))) (\<lambda>(h, img).
     let k = sect_pos sec div BSIZE in
     if \<not> h_seek h (sect_pos sec) then mk_die ''lseek''
     else if \<not> h_read h (sect_pos sec) \<or> length img \<le> k then mk_die ''read''
     else kret (img ! k))"

section \<open>Inodes\<close>

definition winode :: "u32 \<Rightarrow> dinode \<Rightarrow> unit M" where
  "winode inum ip =
     kbind (kget mk_sb) (\<lambda>sbk.
     let bn = IBLOCK inum sbk in
     kbind (rsect bn) (\<lambda>buf.
     wsect bn (put_dinode ip buf (dinode_off inum))))"

definition rinode :: "u32 \<Rightarrow> dinode M" where
  "rinode inum =
     kbind (kget mk_sb) (\<lambda>sbk.
     kbind (rsect (IBLOCK inum sbk)) (\<lambda>buf.
     kret (get_dinode buf (dinode_off inum))))"

definition mk_ialloc :: "u16 \<Rightarrow> u32 M" where
  "mk_ialloc ty =
     kbind (kget mk_freeinode) (\<lambda>inum. kbind (kseq [
       kmod (\<lambda>s. s\<lparr>mk_freeinode := inum + 1\<rparr>),
       winode inum (zero_dinode\<lparr>d_type := xshort ty, d_nlink := xshort 1, d_size := xint 0\<rparr>)]) (\<lambda>_.
     kret inum))"

definition used_map :: "nat \<Rightarrow> byte list" where
  "used_map used = fold (\<lambda>i buf. buf[i div 8 := buf ! (i div 8) OR push_bit (i mod 8) 1]) [0..<used] (replicate BSIZE 0)"

definition mk_balloc :: "nat \<Rightarrow> unit M" where
  "mk_balloc used = kseq [
     mk_printf (''balloc: first %d blocks have been allocated'' @ newline) [int used],
     mk_assert (used < BSIZE * 8),
     kbind (kget mk_sb) (\<lambda>sbk. mk_printf (''balloc: write bitmap block at sector %d'' @ newline) [uint (sb_bmapstart sbk)]),
     kbind (kget mk_sb) (\<lambda>sbk. wsect (sb_bmapstart sbk) (used_map used))]"

text \<open>\<open>freeblock++\<close>.\<close>

definition next_block :: "u32 M" where
  "next_block = kbind (kget mk_freeblock) (\<lambda>b. kbind (kmod (\<lambda>s. s\<lparr>mk_freeblock := b + 1\<rparr>)) (\<lambda>_. kret b))"

text \<open>An address of the inode, which gets a block if it has none.\<close>

definition ensure_addr :: "dinode \<Rightarrow> nat \<Rightarrow> dinode M" where
  "ensure_addr din k =
     (if xint (d_addrs din ! k) = 0
      then kbind next_block (\<lambda>b. kret (din\<lparr>d_addrs := (d_addrs din)[k := xint b]\<rparr>))
      else kret din)"

text \<open>The block of the file that holds block \<open>fbn\<close>: the first half of the loop of \<open>iappend\<close>.\<close>

definition iappend_block :: "dinode \<Rightarrow> nat \<Rightarrow> (u32 \<times> dinode) M" where
  "iappend_block din fbn =
     (if fbn < NDIRECT
      then kbind (ensure_addr din fbn) (\<lambda>din. kret (xint (d_addrs din ! fbn), din))
      else kbind (ensure_addr din NDIRECT) (\<lambda>din.
        let a = xint (d_addrs din ! NDIRECT); o' = 4 * (fbn - NDIRECT) in
        kbind (rsect a) (\<lambda>indirect.
        if get32 indirect o' = 0
        then kbind next_block (\<lambda>b. kbind (wsect a (put32 indirect o' (xint b))) (\<lambda>_. kret (xint (xint b), din)))
        else kret (xint (get32 indirect o'), din))))"

definition iappend_step :: "dinode \<times> u32 \<times> byte list \<Rightarrow> (dinode \<times> u32 \<times> byte list + dinode \<times> u32) M" where
  "iappend_step = (\<lambda>(din, off, p).
     if p = [] then kret (Inr (din, off))
     else
       let fbn = off div of_nat BSIZE in
       kbind (mk_assert (fbn < of_nat MAXFILE)) (\<lambda>_.
       kbind (iappend_block din (unat fbn)) (\<lambda>(x, din).
       let n1 = min (of_nat (length p)) ((fbn + 1) * of_nat BSIZE - off) in
       kbind (rsect x) (\<lambda>buf.
       kbind (wsect x (blit buf (unat (off - fbn * of_nat BSIZE)) (take (unat n1) p))) (\<lambda>_.
       kret (Inl (din, off + n1, drop (unat n1) p)))))))"

definition iappend :: "u32 \<Rightarrow> byte list \<Rightarrow> unit M" where
  "iappend inum p =
     kbind (rinode inum) (\<lambda>din.
     kbind (kloop iappend_step (din, xint (d_size din), p)) (\<lambda>(din, off).
     winode inum (din\<lparr>d_size := xint off\<rparr>)))"

section \<open>The program\<close>

definition mk_super :: superblock where
  "mk_super = \<lparr>sb_magic = FSMAGIC, sb_size = xint (of_nat FSSIZE), sb_nblocks = xint (of_nat nblocks), sb_ninodes = xint (of_nat NINODES),
     sb_nlog = xint (of_nat nlog), sb_logstart = xint 2, sb_inodestart = xint (of_nat (2 + nlog)), sb_bmapstart = xint (of_nat (2 + nlog + ninodeblocks))\<rparr>"

definition super_bytes :: "superblock \<Rightarrow> byte list" where
  "super_bytes x = to_le 4 (sb_magic x) @ to_le 4 (sb_size x) @ to_le 4 (sb_nblocks x) @ to_le 4 (sb_ninodes x) @ to_le 4 (sb_nlog x) @
     to_le 4 (sb_logstart x) @ to_le 4 (sb_inodestart x) @ to_le 4 (sb_bmapstart x)"

text \<open>The name of a file without the directory \<open>user/\<close>; and without a leading underscore.\<close>

definition short_name :: "byte list \<Rightarrow> byte list" where
  "short_name arg = (if strncmp (array arg) (array (str ''user/'')) 5 = 0 then drop 5 arg else arg)"

definition disk_name :: "byte list \<Rightarrow> byte list" where
  "disk_name arg = (if array (short_name arg) 0 = 0x5f then drop 1 (short_name arg) else short_name arg)"

text \<open>A file of the host is the list of what its \<open>read\<close> calls return before the one that returns 0: pieces that are not empty and fit the buffer.\<close>

definition add_file :: "u32 \<Rightarrow> byte list \<Rightarrow> unit M" where
  "add_file rootino arg =
     kbind (mk_assert (SLASH \<notin> set (short_name arg))) (\<lambda>_.
     kbind (kget (\<lambda>s. h_open (mk_host s) arg)) (\<lambda>fd.
     case fd of
       None \<Rightarrow> mk_die ''open''
     | Some chunks \<Rightarrow>
         kbind (mk_ialloc T_FILE) (\<lambda>inum. kseq [
           iappend rootino (dirent (ucast (xshort (ucast inum))) (disk_name arg)),
           kfor chunks (iappend inum)])))"

definition fix_root :: "u32 \<Rightarrow> unit M" where
  "fix_root rootino =
     kbind (rinode rootino) (\<lambda>din.
     let off = xint (d_size din) in
     let off = (off div of_nat BSIZE + 1) * of_nat BSIZE in
     winode rootino (din\<lparr>d_size := xint off\<rparr>))"

definition mkfs_main :: "byte list list \<Rightarrow> unit M" where
  "mkfs_main argv =
     (if length argv < 2 then panic ''Usage: mkfs fs.img files...''
      else kbind (kseq [mk_assert (BSIZE mod sizeof_dinode = 0), mk_assert (BSIZE mod sizeof_dirent = 0)]) (\<lambda>_.
        kbind (kget (\<lambda>s. h_create (mk_host s) (argv ! 1))) (\<lambda>ok.
        if \<not> ok then mk_die ''open''
        else kseq [
          kmod (\<lambda>s. s\<lparr>mk_img := [], mk_sb := mk_super\<rparr>),
          mk_printf (''nmeta %d (boot, super, log blocks %u inode blocks %u, bitmap blocks %u) blocks %d total %d'' @ newline)
            (map int [nmeta, nlog, ninodeblocks, nbitmap, nblocks, FSSIZE]),
          kmod (\<lambda>s. s\<lparr>mk_freeblock := of_nat nmeta\<rparr>),
          kfor [0..<FSSIZE] (\<lambda>i. wsect (of_nat i) zeroes),
          kbind (kget mk_sb) (\<lambda>sbk. wsect 1 (super_bytes sbk @ replicate (BSIZE - 32) 0)),
          kbind (mk_ialloc T_DIR) (\<lambda>rootino. kseq [
            mk_assert (rootino = ROOTINO),
            iappend rootino (dirent (ucast (xshort (ucast rootino))) (str ''.'')),
            iappend rootino (dirent (ucast (xshort (ucast rootino))) (str ''..'')),
            kfor (drop 2 argv) (add_file rootino),
            fix_root rootino]),
          kbind (kget mk_freeblock) (\<lambda>used. mk_balloc (unat used))])))"

end
