(* ===== verification/Image.thy ===== *)
theory Image
  imports Mkfs
begin

text \<open>
  The image that \<open>mkfs\<close> writes (\<open>mkfs/mkfs.c\<close>) is a file system of the kernel: in terms of the notions with which \<open>kernel/fs.c\<close> is verified, its files have the contents
  of the files given, its root directory names them, and its map marks exactly the blocks in use.

  The map is written last. Until then the proofs look at the image with the map of the blocks below \<open>freeblock\<close> put in its place; in this view \<open>freeblock++\<close> is
  an allocation as the kernel makes it, and the lemmas on the blocks of files apply.
\<close>

section \<open>Blocks\<close>

lemma xint_id [simp]: "xint x = x"
proof -
  have "[ucast x, ucast (drop_bit 8 x), ucast (drop_bit 16 x), ucast (drop_bit 24 x)] = to_le 4 x"
    by (simp add: numeral_eq_Suc drop_bit_drop_bit)
  then show ?thesis unfolding xint_def by (simp add: of_le_to_le_id)
qed

lemma xshort_id [simp]: "xshort x = x"
proof -
  have "[ucast x, ucast (drop_bit 8 x)] = to_le 2 x" by (simp add: numeral_eq_Suc drop_bit_drop_bit)
  then show ?thesis unfolding xshort_def by (simp add: of_le_to_le_id)
qed

lemma mkfs_sizes: "nbitmap = 1" "ninodeblocks = 13" "nlog = 30" "nmeta = 46" "nblocks = 1954"
  by (simp_all add: nbitmap_def ninodeblocks_def nlog_def nmeta_def nblocks_def NINODES_def FSSIZE_def LOGSIZE_30 IPB_16 BSIZE_def)

lemma mk_super_simps:
  "sb_size mk_super = 2000" "sb_ninodes mk_super = 200" "sb_inodestart mk_super = 32" "sb_bmapstart mk_super = 45" "sb_logstart mk_super = 2" "sb_nlog mk_super = 30"
  by (simp_all add: mk_super_def mkfs_sizes FSSIZE_def NINODES_def)

lemma sect_pos_eq: "unat c < FSSIZE \<Longrightarrow> sect_pos c = unat c * BSIZE"
  by (simp add: sect_pos_def unat_word_ariths FSSIZE_def BSIZE_def)

definition img_view :: "byte list list \<Rightarrow> u32 \<Rightarrow> byte list" where
  "img_view img c = (if unat c < length img then img ! unat c else zeroes)"

definition seen :: "mkfs \<Rightarrow> u32 \<Rightarrow> byte list" where
  "seen s = (img_view (mk_img s))(45 := used_map (unat (mk_freeblock s)))"

text \<open>A host on which every access to the image succeeds.\<close>

definition serves :: "host \<Rightarrow> bool" where
  "serves h \<longleftrightarrow> (\<forall>k<FSSIZE. h_seek h (k * BSIZE) \<and> h_read h (k * BSIZE) \<and> h_write h (k * BSIZE))"

definition img_ok :: "mkfs \<Rightarrow> bool" where
  "img_ok s \<longleftrightarrow> length (mk_img s) = FSSIZE \<and> (\<forall>k<FSSIZE. length (mk_img s ! k) = BSIZE) \<and> mk_sb s = mk_super \<and> serves (mk_host s) \<and>
     nmeta \<le> unat (mk_freeblock s) \<and> unat (mk_freeblock s) \<le> FSSIZE \<and> (\<forall>k. unat (mk_freeblock s) \<le> k \<longrightarrow> k < FSSIZE \<longrightarrow> mk_img s ! k = zeroes)"

lemma used_map_0: "used_map 0 = zeroes"
  by (simp add: used_map_def zeroes_def)

lemma used_map_Suc: "used_map (Suc n) = set_bit_at n (used_map n)"
  by (simp add: used_map_def set_bit_at_def map_bit_def)

lemma length_zeroes [simp]: "length zeroes = BSIZE"
  by (simp add: zeroes_def)

lemma length_used_map [simp]: "length (used_map n) = BSIZE"
  by (induction n) (simp_all add: used_map_0 used_map_Suc set_bit_at_def)

lemma used_map_bits: "n \<le> BPB \<Longrightarrow> i < BPB \<Longrightarrow> bit_set (used_map n) i \<longleftrightarrow> i < n"
proof (induction n)
  case 0
  then have "i div 8 < BSIZE" by (simp add: BPB_8192 BSIZE_def)
  then show ?case by (simp add: used_map_0 bit_set_bit zeroes_def)
next
  case (Suc n)
  then have "n div 8 < length (used_map n)" by (simp add: BPB_8192 BSIZE_def)
  then show ?case using Suc by (auto simp: used_map_Suc bit_set_set)
qed

lemma mk_BBLOCK: "unat c < 2000 \<Longrightarrow> BBLOCK c mk_super = 45"
  by (simp add: BBLOCK_div mk_super_simps BPB_8192)

lemma mk_in_use:
  assumes "unat c < 2000" "n \<le> BPB" "v 45 = used_map n"
  shows "in_use mk_super v c \<longleftrightarrow> unat c < n"
  using assms used_map_bits [of n "unat c"] by (simp add: in_use_def mk_BBLOCK BPB_8192)

lemma mk_bitmap: "bitmap mk_super = {45}"
proof -
  have "BBLOCK (of_nat n) mk_super = 45" if "n < 2000" for n using that by (intro mk_BBLOCK) (simp add: unat_of_nat)
  then show ?thesis by (auto simp: bitmap_def mk_super_simps intro!: image_eqI [of 45 _ 0])
qed

lemma mk_IBLOCK: "unat i < 200 \<Longrightarrow> 32 \<le> unat (IBLOCK i mk_super) \<and> unat (IBLOCK i mk_super) < 45"
proof -
  assume i: "unat i < 200"
  have "unat (i div 16) = unat i div 16" by (simp add: unat_div)
  moreover have "unat i div 16 \<le> 12" using i by simp
  ultimately show ?thesis by (simp add: IBLOCK_def IPB_16 mk_super_simps unat_word_ariths)
qed

lemma mk_meta: "c \<in> meta mk_super \<Longrightarrow> unat c < 46"
proof -
  assume "c \<in> meta mk_super"
  then consider "c = 0" | "c = 45" | i where "i < 200" "c = IBLOCK (of_nat i) mk_super"
    by (auto simp: meta_def mk_bitmap mk_super_simps)
  then show "unat c < 46"
  proof cases
    case (3 i)
    then show ?thesis using mk_IBLOCK [of "of_nat i"] by (simp add: unat_of_nat)
  qed simp_all
qed

lemma mk_low_meta: "c \<in> meta mk_super \<Longrightarrow> 0 < unat c \<Longrightarrow> 32 \<le> unat c"
proof -
  assume "c \<in> meta mk_super" "0 < unat c"
  then consider "c = 45" | i where "i < 200" "c = IBLOCK (of_nat i) mk_super"
    by (auto simp: meta_def mk_bitmap mk_super_simps)
  then show "32 \<le> unat c"
  proof cases
    case (2 i)
    then show ?thesis using mk_IBLOCK [of "of_nat i"] by (simp add: unat_of_nat)
  qed simp
qed

lemma img_okD:
  assumes "img_ok s"
  shows "length (mk_img s) = 2000" "mk_sb s = mk_super" "46 \<le> unat (mk_freeblock s)" "unat (mk_freeblock s) \<le> 2000"
    "length (seen s c) = BSIZE" "unat c < 2000 \<Longrightarrow> in_use mk_super (seen s) c \<longleftrightarrow> unat c < unat (mk_freeblock s)"
    "unat (mk_freeblock s) \<le> unat c \<Longrightarrow> unat c < 2000 \<Longrightarrow> seen s c = zeroes"
proof -
  show s: "length (mk_img s) = 2000" "mk_sb s = mk_super" "46 \<le> unat (mk_freeblock s)" "unat (mk_freeblock s) \<le> 2000"
    using assms by (simp_all add: img_ok_def FSSIZE_def mkfs_sizes)
  show "length (seen s c) = BSIZE" using assms by (simp add: seen_def img_view_def img_ok_def)
  show "in_use mk_super (seen s) c \<longleftrightarrow> unat c < unat (mk_freeblock s)" if "unat c < 2000"
    using that s(4) by (intro mk_in_use) (simp_all add: BPB_8192 seen_def)
  assume "unat (mk_freeblock s) \<le> unat c" "unat c < 2000"
  then show "seen s c = zeroes" using assms s(3) by (auto simp: seen_def img_view_def img_ok_def FSSIZE_def)
qed

lemma img_blocks_ok: "img_ok s \<Longrightarrow> blocks_ok mk_super (seen s)"
proof -
  assume s: "img_ok s"
  have "unat c < 2000 \<and> in_use mk_super (seen s) c" if "c \<in> meta mk_super" for c
    using mk_meta [OF that] img_okD(3) [OF s] img_okD(6) [OF s, of c] by simp
  moreover have "IBLOCK (of_nat i) mk_super \<noteq> 45" if "i < 200" for i
    using mk_IBLOCK [of "of_nat i"] that by (auto simp: unat_of_nat)
  ultimately show ?thesis using img_okD(5) [OF s] by (simp add: blocks_ok_def mk_bitmap mk_super_simps)
qed

text \<open>Reading and writing a block other than the map.\<close>

lemma rsect_ok: "img_ok s \<Longrightarrow> unat c < 2000 \<Longrightarrow> c \<noteq> 45 \<Longrightarrow> rsect c s = Ret (seen s c) s"
  by (simp add: rsect_def exec_simps sect_pos_eq FSSIZE_def img_ok_def serves_def seen_def img_view_def)

definition put_img :: "u32 \<Rightarrow> byte list \<Rightarrow> mkfs \<Rightarrow> mkfs" where
  "put_img c d s = s\<lparr>mk_img := (mk_img s)[unat c := d]\<rparr>"

lemma put_img_simps [simp]:
  "mk_freeblock (put_img c d s) = mk_freeblock s" "mk_freeinode (put_img c d s) = mk_freeinode s" "mk_host (put_img c d s) = mk_host s"
  by (simp_all add: put_img_def)

lemma seen_put_img: "img_ok s \<Longrightarrow> unat c < 2000 \<Longrightarrow> c \<noteq> 45 \<Longrightarrow> seen (put_img c d s) = (seen s)(c := d)"
  using img_okD(1) [of s] by (auto simp: seen_def put_img_def img_view_def fun_eq_iff nth_list_update word_unat_eq_iff [symmetric])

lemma wsect_ok: "img_ok s \<Longrightarrow> unat c < 2000 \<Longrightarrow> wsect c d s = Ret () (put_img c d s)"
  by (simp add: wsect_def Let_def exec_simps sect_pos_eq FSSIZE_def img_ok_def serves_def put_img_def)

lemma img_ok_put: "img_ok s \<Longrightarrow> unat c < unat (mk_freeblock s) \<Longrightarrow> length d = BSIZE \<Longrightarrow> img_ok (put_img c d s)"
  by (auto simp: img_ok_def put_img_def nth_list_update)

text \<open>The next block.\<close>

definition took_block :: "mkfs \<Rightarrow> mkfs" where
  "took_block s = s\<lparr>mk_freeblock := mk_freeblock s + 1\<rparr>"

lemma took_block_ok:
  assumes s: "img_ok s" and n: "unat (mk_freeblock s) < 2000"
  shows "next_block s = Ret (mk_freeblock s) (took_block s)" "img_ok (took_block s)" "unat (mk_freeblock (took_block s)) = Suc (unat (mk_freeblock s))"
    "seen (took_block s) = allocated mk_super (mk_freeblock s) (seen s)"
proof -
  let ?b = "mk_freeblock s"
  show "next_block s = Ret ?b (took_block s)" by (simp add: next_block_def took_block_def exec_simps)
  show u: "unat (mk_freeblock (took_block s)) = Suc (unat ?b)" using n by (simp add: took_block_def unat_word_ariths)
  show "img_ok (took_block s)" using s n u by (auto simp: img_ok_def took_block_def FSSIZE_def)
  have b: "BBLOCK ?b mk_super = 45" "unat ?b mod BPB = unat ?b" using n by (simp_all add: mk_BBLOCK BPB_8192)
  have "?b \<noteq> 45" using img_okD(3) [OF s] by auto
  moreover have "seen s ?b = replicate BSIZE 0" using img_okD(7) [OF s, of ?b] n by (simp add: zeroes_def)
  moreover have "seen (took_block s) = (seen s)(45 := used_map (Suc (unat ?b)))" by (simp add: seen_def u) (simp add: took_block_def)
  ultimately show "seen (took_block s) = allocated mk_super ?b (seen s)"
    by (auto simp: allocated_def b used_map_Suc seen_def fun_eq_iff)
qed

section \<open>A block for a position of a file\<close>

definition node :: "dinode \<Rightarrow> inode" where
  "node y = loaded y zero_inode"

lemma node_simps [simp]: "i_addrs (node y) = d_addrs y" "i_size (node y) = d_size y" "node (y\<lparr>d_addrs := as\<rparr>) = (node y)\<lparr>i_addrs := as\<rparr>"
  by (simp_all add: node_def loaded_def)

definition img_frame :: "mkfs \<Rightarrow> mkfs \<Rightarrow> bool" where
  "img_frame s t \<longleftrightarrow> t = s\<lparr>mk_img := mk_img t, mk_freeblock := mk_freeblock t\<rparr>"

lemma img_frame_refl [simp]: "img_frame s s"
  by (simp add: img_frame_def)

lemma img_frame_trans: "img_frame s t \<Longrightarrow> img_frame t u \<Longrightarrow> img_frame s u"
  by (cases s; cases t; cases u) (simp add: img_frame_def)

lemma img_frame_upd [simp]: "img_frame s (put_img c d s)" "img_frame s (took_block s)"
  by (simp_all add: img_frame_def put_img_def took_block_def)

lemma img_frame_select: "img_frame s t \<Longrightarrow> mk_freeinode t = mk_freeinode s" "img_frame s t \<Longrightarrow> mk_host t = mk_host s"
  by (cases s; cases t; simp add: img_frame_def)+

text \<open>The blocks of the file system itself other than the map.\<close>

definition meta_same :: "mkfs \<Rightarrow> mkfs \<Rightarrow> bool" where
  "meta_same s t \<longleftrightarrow> (\<forall>c\<in>meta mk_super. c \<noteq> 45 \<longrightarrow> seen t c = seen s c)"

lemma meta_same_refl [simp]: "meta_same s s"
  by (simp add: meta_same_def)

lemma meta_same_trans: "meta_same s t \<Longrightarrow> meta_same t u \<Longrightarrow> meta_same s u"
  by (simp add: meta_same_def)

text \<open>From \<open>(s, din)\<close> to \<open>(t, din')\<close> address \<open>k\<close> gets the next block if it has none.\<close>

definition addressed :: "nat \<Rightarrow> mkfs \<Rightarrow> dinode \<Rightarrow> mkfs \<Rightarrow> dinode \<Rightarrow> bool" where
  "addressed k s din t din' \<longleftrightarrow> img_ok t \<and> img_frame s t \<and> din' = din\<lparr>d_addrs := d_addrs din'\<rparr> \<and>
     (if slot (seen s) (node din) k = 0
      then gains mk_super (seen s) (node din) k (mk_freeblock s) (seen t) (node din') \<and> unat (mk_freeblock t) = Suc (unat (mk_freeblock s))
      else t = s \<and> din' = din)"

lemma addressed_facts:
  assumes a: "addressed k s din t din'" and s: "img_ok s" "file_ok mk_super (seen s) (node din)" and k: "k \<le> MAXFILE"
  shows "extends mk_super (seen s) (node din) (seen t) (node din')" "slot (seen t) (node din') k \<noteq> 0"
    "j \<le> MAXFILE \<Longrightarrow> j \<noteq> k \<Longrightarrow> slot (seen t) (node din') j = slot (seen s) (node din) j"
    "unat (mk_freeblock t) = unat (mk_freeblock s) + (if slot (seen s) (node din) k = 0 then 1 else 0)"
    "meta_same s t"
proof -
  have b: "mk_freeblock s \<noteq> 0" using img_okD(3) [OF s(1)] by auto
  have ind: "slot (seen s) (node din) MAXFILE \<notin> meta mk_super" if "slot (seen s) (node din) MAXFILE \<noteq> 0"
    using file_okD(3) [OF s(2) order_refl that] .
  have "c \<noteq> mk_freeblock s" if "c \<in> meta mk_super" for c using mk_meta [OF that] img_okD(3) [OF s(1)] by auto
  moreover have "seen t c = seen s c" if "slot (seen s) (node din) k = 0" "c \<noteq> 45" "c \<noteq> mk_freeblock s" "c = 0 \<or> c \<noteq> slot (seen s) (node din) MAXFILE" for c
    using a that unfolding addressed_def gains_def mk_bitmap by simp blast
  moreover have "t = s" if "slot (seen s) (node din) k \<noteq> 0" using a that by (simp add: addressed_def)
  ultimately show "meta_same s t" using ind unfolding meta_same_def by metis
  show "extends mk_super (seen s) (node din) (seen t) (node din')"
    using a gains_extends [OF _ img_blocks_ok [OF s(1)] s(2)] extends_refl [OF img_blocks_ok [OF s(1)] s(2)]
    by (auto simp: addressed_def split: if_splits)
  show "slot (seen t) (node din') k \<noteq> 0" "j \<le> MAXFILE \<Longrightarrow> j \<noteq> k \<Longrightarrow> slot (seen t) (node din') j = slot (seen s) (node din) j"
    "unat (mk_freeblock t) = unat (mk_freeblock s) + (if slot (seen s) (node din) k = 0 then 1 else 0)"
    using a b k by (auto simp: addressed_def gains_def split: if_splits)
qed

lemma fresh_block:
  assumes "img_ok s" "unat (mk_freeblock s) < 2000"
  shows "unat (mk_freeblock s) < unat (sb_size mk_super)" "\<not> in_use mk_super (seen s) (mk_freeblock s)"
  using assms img_okD(6) [OF assms(1), of "mk_freeblock s"] by (simp_all add: mk_super_simps)

lemma ensure_addr_ok:
  assumes s: "img_ok s" "file_ok mk_super (seen s) (node din)" and k: "k \<le> NDIRECT"
    and room: "d_addrs din ! k = 0 \<Longrightarrow> unat (mk_freeblock s) < 2000"
  shows "\<exists>t din'. ensure_addr din k s = Ret din' t \<and> addressed (if k = NDIRECT then MAXFILE else k) s din t din'"
proof (cases "d_addrs din ! k = 0")
  case False
  then show ?thesis using s(1) k by (auto simp: ensure_addr_def exec_simps addressed_def slot_def block_addr_def MAXFILE_268)
next
  case True
  let ?b = "mk_freeblock s" and ?K = "if k = NDIRECT then MAXFILE else k" and ?d = "din\<lparr>d_addrs := (d_addrs din)[k := mk_freeblock s]\<rparr>"
  note t = took_block_ok [OF s(1) room [OF True]]
  note ok = img_blocks_ok [OF s(1)] s(2) fresh_block [OF s(1) room [OF True]]
  have "gains mk_super (seen s) (node din) ?K ?b (seen (took_block s)) (node ?d)"
    using gains_direct [OF ok, of k] gains_root [OF ok] True k unfolding t(4) by (cases "k = NDIRECT") simp_all
  moreover have "slot (seen s) (node din) ?K = 0" using True k by (auto simp: slot_def block_addr_def MAXFILE_268)
  ultimately have "addressed ?K s din (took_block s) ?d" using t(2,3) by (simp add: addressed_def)
  then show ?thesis using True t(1) by (intro exI [of _ "took_block s"] exI [of _ ?d]) (simp add: ensure_addr_def exec_simps)
qed

text \<open>The address in the indirect block.\<close>

definition leaf_addr :: "dinode \<Rightarrow> nat \<Rightarrow> u32 M" where
  "leaf_addr din fbn = (let a = d_addrs din ! NDIRECT; o' = 4 * (fbn - NDIRECT) in
     kbind (rsect a) (\<lambda>indirect.
     if get32 indirect o' = 0
     then kbind next_block (\<lambda>b. kbind (wsect a (put32 indirect o' b)) (\<lambda>_. kret b))
     else kret (get32 indirect o')))"

lemma leaf_addr_ok:
  assumes s: "img_ok s" "file_ok mk_super (seen s) (node din)" and n: "NDIRECT \<le> fbn" "fbn < MAXFILE" "d_addrs din ! NDIRECT \<noteq> 0"
    and room: "slot (seen s) (node din) fbn = 0 \<Longrightarrow> unat (mk_freeblock s) < 2000"
  shows "\<exists>t. leaf_addr din fbn s = Ret (slot (seen t) (node din) fbn) t \<and> addressed fbn s din t din"
proof -
  let ?a = "d_addrs din ! NDIRECT" and ?o = "4 * (fbn - NDIRECT)"
  have sl: "slot (seen s) (node din) fbn = get32 (seen s ?a) ?o" using n by (simp add: slot_def block_addr_def)
  have a: "unat ?a < 2000" "?a \<notin> meta mk_super" "in_use mk_super (seen s) ?a"
    using file_okD [OF s(2), of MAXFILE] n(3) by (simp_all add: slot_def mk_super_simps)
  then have a45: "?a \<noteq> 45" using bitmap_meta(1) [of 45 mk_super] by (auto simp: mk_bitmap)
  have lt: "unat ?a < unat (mk_freeblock s)" using a(3) img_okD(6) [OF s(1) a(1)] by simp
  show ?thesis
  proof (cases "slot (seen s) (node din) fbn = 0")
    case False
    then have "leaf_addr din fbn s = Ret (slot (seen s) (node din) fbn) s"
      using rsect_ok [OF s(1) a(1) a45] by (simp add: leaf_addr_def exec_simps Let_def sl)
    then show ?thesis using False s(1) by (auto simp: addressed_def)
  next
    case True
    let ?b = "mk_freeblock s" and ?d = "put32 (seen s ?a) ?o (mk_freeblock s)"
    note t = took_block_ok [OF s(1) room [OF True]]
    note ok = img_blocks_ok [OF s(1)] s(2) fresh_block [OF s(1) room [OF True]]
    let ?t = "put_img ?a ?d (took_block s)"
    have "?o + 4 \<le> length (seen s ?a)" using img_okD(5) [OF s(1)] n(2) by (simp add: MAXFILE_268 BSIZE_def)
    then have len: "length ?d = BSIZE" using img_okD(5) [OF s(1)] by simp
    then have ok': "img_ok ?t" using img_ok_put [OF t(2), of ?a ?d] lt t(3) by simp
    have v: "seen ?t = (allocated mk_super ?b (seen s))(?a := ?d)" unfolding seen_put_img [OF t(2) a(1) a45] t(4) ..
    have "gains mk_super (seen s) (node din) fbn ?b (seen ?t) (node din)"
      using gains_leaf [OF ok n(1,2)] True n unfolding v by (simp add: slot_def)
    moreover from this have "slot (seen ?t) (node din) fbn = ?b" using n(2) by (simp add: gains_def)
    moreover have "leaf_addr din fbn s = Ret ?b ?t"
      using rsect_ok [OF s(1) a(1) a45] t(1) wsect_ok [OF t(2) a(1), of ?d] True by (simp add: leaf_addr_def exec_simps Let_def sl)
    moreover have "img_frame s ?t" by (rule img_frame_trans [OF img_frame_upd(2) img_frame_upd(1)])
    ultimately show ?thesis using True t(3) ok' by (intro exI [of _ ?t]) (simp add: addressed_def)
  qed
qed

text \<open>The block of a position, and how many blocks that takes.\<close>

definition missing :: "(u32 \<Rightarrow> byte list) \<Rightarrow> inode \<Rightarrow> nat \<Rightarrow> nat" where
  "missing v x n = (if slot v x n = 0 then 1 else 0) + (if NDIRECT \<le> n \<and> slot v x MAXFILE = 0 then 1 else 0)"

definition reached :: "nat \<Rightarrow> mkfs \<Rightarrow> dinode \<Rightarrow> mkfs \<Rightarrow> dinode \<Rightarrow> bool" where
  "reached n s din t din' \<longleftrightarrow> img_ok t \<and> img_frame s t \<and> meta_same s t \<and> din' = din\<lparr>d_addrs := d_addrs din'\<rparr> \<and>
     extends mk_super (seen s) (node din) (seen t) (node din') \<and> unat (mk_freeblock t) = unat (mk_freeblock s) + missing (seen s) (node din) n \<and>
     (\<forall>j\<le>MAXFILE. slot (seen t) (node din') j \<noteq> 0 \<longleftrightarrow> slot (seen s) (node din) j \<noteq> 0 \<or> j = n \<or> NDIRECT \<le> n \<and> j = MAXFILE)"

lemma iappend_block_indirect:
  "NDIRECT \<le> fbn \<Longrightarrow> iappend_block din fbn = kbind (ensure_addr din NDIRECT) (\<lambda>din. kbind (leaf_addr din fbn) (\<lambda>b. kret (b, din)))"
  by (auto simp: iappend_block_def leaf_addr_def Let_def kbind_def kret_def fun_eq_iff split: outcome.splits)

lemma iappend_block_ok:
  assumes s: "img_ok s" "file_ok mk_super (seen s) (node din)" and n: "fbn < MAXFILE"
    and room: "unat (mk_freeblock s) + missing (seen s) (node din) fbn \<le> 2000"
  shows "\<exists>t din'. iappend_block din fbn s = Ret (slot (seen t) (node din') fbn, din') t \<and> reached fbn s din t din'"
proof (cases "fbn < NDIRECT")
  case True
  have "unat (mk_freeblock s) < 2000" if "d_addrs din ! fbn = 0" using room True that by (simp add: missing_def slot_def block_addr_def MAXFILE_268)
  from ensure_addr_ok [OF s, of fbn] this True obtain t din' where
    t: "ensure_addr din fbn s = Ret din' t" "addressed fbn s din t din'" by auto
  note f = addressed_facts [OF t(2) s less_imp_le [OF n]]
  have "d_addrs din' ! fbn = slot (seen t) (node din') fbn" using True by (simp add: slot_def block_addr_def MAXFILE_268)
  moreover have "slot (seen t) (node din') j \<noteq> 0 \<longleftrightarrow> slot (seen s) (node din) j \<noteq> 0 \<or> j = fbn" if "j \<le> MAXFILE" for j
    using f(2) f(3) [OF that] by (cases "j = fbn") auto
  then have "reached fbn s din t din'" using t(2) f(1,4,5) True by (simp add: reached_def addressed_def missing_def)
  ultimately show ?thesis using t(1) True by (intro exI [of _ t] exI [of _ din']) (simp add: iappend_block_def exec_simps)
next
  case False
  then have ge: "NDIRECT \<le> fbn" by simp
  have sl: "slot v (node d) MAXFILE = d_addrs d ! NDIRECT" for v d by (simp add: slot_def)
  have "unat (mk_freeblock s) < 2000" if "d_addrs din ! NDIRECT = 0" using room ge that by (auto simp: missing_def sl split: if_splits)
  from ensure_addr_ok [OF s order_refl this] obtain t din' where
    t: "ensure_addr din NDIRECT s = Ret din' t" "addressed MAXFILE s din t din'" by auto
  note f = addressed_facts [OF t(2) s order_refl]
  have t': "img_ok t" "file_ok mk_super (seen t) (node din')" using t(2) f(1) unfolding addressed_def extends_def by blast+
  have same: "slot (seen t) (node din') fbn = slot (seen s) (node din) fbn" using f(3) n by simp
  have "unat (mk_freeblock t) < 2000" if "slot (seen t) (node din') fbn = 0"
    using room ge that f(4) by (auto simp: missing_def same split: if_splits)
  from leaf_addr_ok [OF t' ge n _ this] f(2) obtain u where
    u: "leaf_addr din' fbn t = Ret (slot (seen u) (node din') fbn) u" "addressed fbn t din' u din'" by (auto simp: sl)
  note g = addressed_facts [OF u(2) t' less_imp_le [OF n]]
  have "reached fbn s din u din'"
    unfolding reached_def
  proof (intro conjI allI impI)
    show "img_ok u" "din' = din\<lparr>d_addrs := d_addrs din'\<rparr>" using t(2) u(2) by (simp_all add: addressed_def)
    show "img_frame s u" using t(2) u(2) img_frame_trans by (auto simp: addressed_def)
    show "meta_same s u" by (rule meta_same_trans [OF f(5) g(5)])
    show "extends mk_super (seen s) (node din) (seen u) (node din')" by (rule extends_trans [OF f(1) g(1)])
    show "unat (mk_freeblock u) = unat (mk_freeblock s) + missing (seen s) (node din) fbn" using f(4) g(4) ge by (simp add: missing_def same)
    show "slot (seen u) (node din') j \<noteq> 0 \<longleftrightarrow> slot (seen s) (node din) j \<noteq> 0 \<or> j = fbn \<or> NDIRECT \<le> fbn \<and> j = MAXFILE" if "j \<le> MAXFILE" for j
      using f(2) f(3) [OF that] g(2) g(3) [OF that] ge n by (cases "j = fbn"; cases "j = MAXFILE") auto
  qed
  then show ?thesis using t(1) u(1) by (intro exI [of _ u] exI [of _ din']) (simp add: iappend_block_indirect [OF ge] exec_simps)
qed

section \<open>Appending to a file\<close>

text \<open>A file of \<open>n\<close> blocks has exactly its first \<open>n\<close> addresses, and the indirect block when they are more than 12.\<close>

definition mapped :: "(u32 \<Rightarrow> byte list) \<Rightarrow> inode \<Rightarrow> nat \<Rightarrow> bool" where
  "mapped v x n \<longleftrightarrow> (\<forall>k<MAXFILE. slot v x k \<noteq> 0 \<longleftrightarrow> k < n) \<and> (slot v x MAXFILE \<noteq> 0 \<longleftrightarrow> NDIRECT < n)"

definition need :: "nat \<Rightarrow> nat" where
  "need n = n + (if NDIRECT < n then 1 else 0)"

definition blocks_of :: "nat \<Rightarrow> nat" where
  "blocks_of n = (n + BSIZE - 1) div BSIZE"

lemma div_above: "r < BSIZE \<Longrightarrow> (r + Suc q * BSIZE) div BSIZE = Suc q"
  by (simp del: mult_Suc)

lemma blocks_of_cases:
  obtains "off mod BSIZE = 0" "blocks_of off = off div BSIZE" | "off mod BSIZE \<noteq> 0" "blocks_of off = Suc (off div BSIZE)"
proof (cases "off mod BSIZE = 0")
  case True
  then obtain q where q: "off = q * BSIZE" by (metis add.right_neutral div_mult_mod_eq)
  have "blocks_of off = q" by (simp add: blocks_of_def q BSIZE_def)
  then show ?thesis using that(1) True q by simp
next
  case False
  have "off + BSIZE - 1 = (off mod BSIZE - 1) + Suc (off div BSIZE) * BSIZE" using False div_mult_mod_eq [of off BSIZE] by (simp add: BSIZE_def)
  moreover have "off mod BSIZE - 1 < BSIZE" by (simp add: BSIZE_def less_imp_diff_less)
  ultimately have "blocks_of off = Suc (off div BSIZE)" unfolding blocks_of_def by (simp only: div_above)
  then show ?thesis using that(2) False by simp
qed

lemma blocks_of_span: "0 < n \<Longrightarrow> blocks_of (off + span n off) = Suc (off div BSIZE)"
proof -
  assume n: "0 < n"
  have "off mod BSIZE < BSIZE" by simp
  then have "off mod BSIZE + span n off \<le> BSIZE" "0 < span n off" using n unfolding span_def by linarith+
  moreover have "off + span n off + BSIZE - 1 = (off mod BSIZE + span n off - 1) + Suc (off div BSIZE) * BSIZE"
    using div_mult_mod_eq [of off BSIZE] calculation(2) by (simp add: BSIZE_def)
  moreover have "off mod BSIZE + span n off - 1 < BSIZE" using calculation(1) by (simp add: BSIZE_def)
  ultimately show ?thesis unfolding blocks_of_def by (simp only: div_above)
qed

lemma blocks_of_mono: "m \<le> n \<Longrightarrow> blocks_of m \<le> blocks_of n"
  by (simp add: blocks_of_def div_le_mono)

lemma need_mono: "m \<le> n \<Longrightarrow> need m \<le> need n"
  by (simp add: need_def)

lemma mapped_missing:
  assumes "mapped v x (blocks_of off)" "off div BSIZE < MAXFILE"
  shows "missing v x (off div BSIZE) + need (blocks_of off) = need (Suc (off div BSIZE))"
  using assms by (cases rule: blocks_of_cases [of off]) (auto simp: mapped_def missing_def need_def)

lemma reached_mapped:
  assumes r: "reached (off div BSIZE) s din t din'" and m: "mapped (seen s) (node din) (blocks_of off)" and n: "off div BSIZE < MAXFILE"
  shows "mapped (seen t) (node din') (Suc (off div BSIZE))"
proof -
  have "slot (seen t) (node din') j \<noteq> 0 \<longleftrightarrow> slot (seen s) (node din) j \<noteq> 0 \<or> j = off div BSIZE \<or> NDIRECT \<le> off div BSIZE \<and> j = MAXFILE" if "j \<le> MAXFILE" for j
    using r that by (simp add: reached_def)
  then show ?thesis using m n by (cases rule: blocks_of_cases [of off]) (auto simp: mapped_def)
qed

text \<open>One round of the loop, and the loop.\<close>

definition appended :: "nat \<Rightarrow> byte list \<Rightarrow> mkfs \<Rightarrow> dinode \<Rightarrow> mkfs \<Rightarrow> dinode \<Rightarrow> bool" where
  "appended off bs s din t din' \<longleftrightarrow> img_ok t \<and> img_frame s t \<and> meta_same s t \<and> din' = din\<lparr>d_addrs := d_addrs din'\<rparr> \<and> file_ok mk_super (seen t) (node din') \<and>
     mapped (seen t) (node din') (blocks_of (off + length bs)) \<and> stored mk_super off bs (seen s) (node din) (seen t) (node din') \<and>
     unat (mk_freeblock t) + need (blocks_of off) = unat (mk_freeblock s) + need (blocks_of (off + length bs))"

lemma appended_trans:
  assumes 1: "appended off bs s din t din'" and 2: "appended (off + length bs) cs t din' u din''" and n: "off + length bs \<le> MAXFILE * BSIZE"
  shows "appended off (bs @ cs) s din u din''"
proof -
  have "din' = din\<lparr>d_addrs := d_addrs din'\<rparr>" "din'' = din'\<lparr>d_addrs := d_addrs din''\<rparr>" using 1 2 by (simp_all add: appended_def)
  then have "din'' = din\<lparr>d_addrs := d_addrs din''\<rparr>" by (metis dinode.surjective dinode.update_convs(6))
  moreover have "stored mk_super off (bs @ cs) (seen s) (node din) (seen u) (node din'')"
    using 1 2 n stored_trans unfolding appended_def by blast
  moreover have "img_frame s u" "meta_same s u" using 1 2 img_frame_trans meta_same_trans unfolding appended_def by blast+
  ultimately show ?thesis using 1 2 unfolding appended_def by (simp add: add.assoc)
qed

lemma word_div_BSIZE: "off < 2 ^ 32 \<Longrightarrow> (of_nat off :: u32) div of_nat BSIZE = of_nat (off div BSIZE)"
  by (rule word_unat_eq_iff [THEN iffD2]) (simp add: unat_div unat_of_nat BSIZE_def)

lemma step_words:
  assumes off: "off < MAXFILE * BSIZE" and n: "0 < n" "off + n \<le> MAXFILE * BSIZE"
  shows "(of_nat off :: u32) div of_nat BSIZE = of_nat (off div BSIZE)" "(of_nat (off div BSIZE) :: u32) < of_nat MAXFILE"
    "unat (of_nat (off div BSIZE) :: u32) = off div BSIZE"
    "min (of_nat n) ((of_nat (off div BSIZE) + 1) * of_nat BSIZE - of_nat off) = (of_nat (span n off) :: u32)" "unat (of_nat (span n off) :: u32) = span n off"
    "unat ((of_nat off :: u32) - of_nat (off div BSIZE) * of_nat BSIZE) = off mod BSIZE"
proof -
  let ?q = "off div BSIZE"
  have o: "off < 274432" "n \<le> 274432" using assms by (simp_all add: MAXFILE_268 BSIZE_def)
  have q: "?q < 268" using off by (simp add: MAXFILE_268 BSIZE_def less_mult_imp_div_less)
  show "(of_nat off :: u32) div of_nat BSIZE = of_nat ?q" using o by (intro word_div_BSIZE) simp
  show u: "unat (of_nat ?q :: u32) = ?q" using q by (intro unat_small) simp
  show "(of_nat ?q :: u32) < of_nat MAXFILE" using q by (simp add: word_less_nat_alt u MAXFILE_268)
  have d: "off = ?q * BSIZE + off mod BSIZE" "off mod BSIZE < BSIZE" by simp_all
  have "(of_nat ?q + 1) * of_nat BSIZE - of_nat off = (of_nat ((?q + 1) * BSIZE - off) :: u32)"
  proof -
    have "off \<le> (?q + 1) * BSIZE" using d by (simp add: BSIZE_def)
    then show ?thesis by (simp add: of_nat_diff algebra_simps)
  qed
  moreover have e: "(?q + 1) * BSIZE - off = BSIZE - off mod BSIZE" using d unfolding add_mult_distrib by linarith
  moreover have "unat (of_nat n :: u32) = n" "unat (of_nat (BSIZE - off mod BSIZE) :: u32) = BSIZE - off mod BSIZE"
    using o by (intro unat_small; simp add: BSIZE_def)+
  ultimately have m: "unat (min (of_nat n) ((of_nat ?q + 1) * of_nat BSIZE - of_nat off) :: u32) = span n off"
    by (simp add: span_def min_def word_le_nat_alt del: of_nat_diff)
  show sp: "unat (of_nat (span n off) :: u32) = span n off" using o by (intro unat_small) (simp add: span_def)
  show "min (of_nat n) ((of_nat ?q + 1) * of_nat BSIZE - of_nat off) = (of_nat (span n off) :: u32)"
    by (rule word_unat_eq_iff [THEN iffD2]) (simp only: m sp)
  have "(of_nat off :: u32) - of_nat ?q * of_nat BSIZE = of_nat (off mod BSIZE)"
  proof -
    have "(of_nat off :: u32) = of_nat (?q * BSIZE + off mod BSIZE)" by simp
    then show ?thesis unfolding of_nat_add of_nat_mult by simp
  qed
  moreover have "unat (of_nat (off mod BSIZE) :: u32) = off mod BSIZE" using o by (intro unat_small) (simp add: BSIZE_def)
  ultimately show "unat ((of_nat off :: u32) - of_nat ?q * of_nat BSIZE) = off mod BSIZE" by simp
qed

lemma iappend_round:
  assumes s: "img_ok s" "file_ok mk_super (seen s) (node din)" "mapped (seen s) (node din) (blocks_of off)"
    and p: "p \<noteq> []" "off + length p \<le> MAXFILE * BSIZE" and room: "unat (mk_freeblock s) + need (Suc (off div BSIZE)) \<le> 2000 + need (blocks_of off)"
  defines "m \<equiv> span (length p) off"
  shows "\<exists>t din'. iappend_step (din, of_nat off, p) s = Ret (Inl (din', of_nat (off + m), drop m p)) t \<and> appended off (take m p) s din t din'"
proof -
  let ?n = "off div BSIZE"
  have off: "off < MAXFILE * BSIZE" "0 < length p" using p by (cases p; simp)+
  note w = step_words [OF off p(2), folded m_def]
  have n: "?n < MAXFILE" using off(1) by (rule less_mult_imp_div_less)
  have "unat (mk_freeblock s) + missing (seen s) (node din) ?n \<le> 2000" using room mapped_missing [OF s(3) n] by linarith
  from iappend_block_ok [OF s(1,2) n this] obtain t din' where
    t: "iappend_block din ?n s = Ret (slot (seen t) (node din') ?n, din') t" "reached ?n s din t din'" by blast
  let ?x = "node din'" and ?b = "slot (seen t) (node din') ?n"
  have r: "img_ok t" "extends mk_super (seen s) (node din) (seen t) ?x" "?b \<noteq> 0" using t(2) n by (simp_all add: reached_def)
  then have ok: "blocks_ok mk_super (seen t)" "file_ok mk_super (seen t) ?x" unfolding extends_def by blast+
  note b = file_okD [OF ok(2) less_imp_le [OF n] r(3)]
  then have b': "unat ?b < 2000" "?b \<noteq> 45" using bitmap_meta(1) [of 45 mk_super] by (auto simp: mk_super_simps mk_bitmap)
  have lt: "unat ?b < unat (mk_freeblock t)" using b(2) img_okD(6) [OF r(1) b'(1)] by simp
  have "off mod BSIZE < BSIZE" by simp
  then have m: "m \<le> length p" "off mod BSIZE + m \<le> BSIZE" unfolding m_def span_def by linarith+
  then have len: "length (take m p) = m" by simp
  let ?d = "blit (seen t ?b) (off mod BSIZE) (take m p)"
  note st = stored_block [OF ok n r(3), of "take m p", unfolded len, OF m(2)]
  let ?u = "put_img ?b ?d t"
  have v: "seen ?u = (seen t)(?b := ?d)" by (rule seen_put_img [OF r(1) b'])
  have ld: "length ?d = BSIZE" using m(2) img_okD(5) [OF r(1), of ?b] by (simp add: blit_def)
  have "stored mk_super off ([] @ take m p) (seen s) (node din) (seen ?u) ?x"
    using stored_trans [OF extends_stored [OF r(2)], of off "take m p"] st(3) off(1) unfolding v by simp
  moreover have "unat (mk_freeblock t) + need (blocks_of off) = unat (mk_freeblock s) + need (Suc ?n)"
    using t(2) mapped_missing [OF s(3) n] by (simp add: reached_def)
  moreover have "slot (seen ?u) ?x j = slot (seen t) ?x j" if "j \<le> MAXFILE" for j
    unfolding v by (rule rewrite_slots [OF ok(2) n r(3) that])
  then have "mapped (seen ?u) ?x (Suc ?n)" using reached_mapped [OF t(2) s(3) n] by (simp add: mapped_def)
  moreover have "img_frame s ?u" using t(2) img_frame_trans [OF _ img_frame_upd(1)] by (simp add: reached_def)
  moreover have "meta_same s ?u" using t(2) b(3) by (auto simp: reached_def meta_same_def v)
  ultimately have "appended off (take m p) s din ?u din'"
    using t(2) img_ok_put [OF r(1) lt ld] st(2) blocks_of_span [OF off(2), of off, folded m_def]
    unfolding appended_def reached_def len by (simp add: v)
  moreover have "iappend_step (din, of_nat off, p) s = Ret (Inl (din', of_nat (off + m), drop m p)) ?u"
    using p(1) t(1) rsect_ok [OF r(1) b'] wsect_ok [OF r(1) b'(1), of ?d]
    by (simp add: iappend_step_def exec_simps Let_def w mk_assert_def)
  ultimately show ?thesis by blast
qed

lemma iappend_loop:
  assumes "img_ok s" "file_ok mk_super (seen s) (node din)" "mapped (seen s) (node din) (blocks_of off)"
    and "off + length p \<le> MAXFILE * BSIZE" "unat (mk_freeblock s) + need (blocks_of (off + length p)) \<le> 2000 + need (blocks_of off)"
  shows "\<exists>t din'. kloop iappend_step (din, of_nat off, p) s = Ret (din', of_nat (off + length p)) t \<and> appended off p s din t din'"
  using assms
proof (induction "length p" arbitrary: p off s din rule: less_induct)
  case less
  show ?case
  proof (cases "p = []")
    case True
    then have "iappend_step (din, of_nat off, p) s = Ret (Inr (din, of_nat off)) s" by (simp add: iappend_step_def exec_simps)
    from kloop_done [where body = iappend_step, OF this] show ?thesis using less.prems True by (auto simp: appended_def stored_refl)
  next
    case False
    let ?m = "span (length p) off"
    have m: "0 < ?m" "?m \<le> length p" "off + ?m + (length p - ?m) = off + length p" using False span_pos [of "length p" off] by (simp_all add: span_def)
    have bl: "blocks_of (off + ?m) = Suc (off div BSIZE)" using False by (simp add: blocks_of_span)
    have "need (Suc (off div BSIZE)) \<le> need (blocks_of (off + length p))" unfolding bl [symmetric] using m(2) by (intro need_mono blocks_of_mono) simp
    then have "unat (mk_freeblock s) + need (Suc (off div BSIZE)) \<le> 2000 + need (blocks_of off)" using less.prems(5) by linarith
    from iappend_round [OF less.prems(1-3) False less.prems(4) this] obtain t din' where
      t: "iappend_step (din, of_nat off, p) s = Ret (Inl (din', of_nat (off + ?m), drop ?m p)) t" "appended off (take ?m p) s din t din'" by blast
    have len: "length (take ?m p) = ?m" "length (drop ?m p) = length p - ?m" using m(2) by simp_all
    note T = t(2) [unfolded appended_def len]
    have "length (drop ?m p) < length p" "off + ?m + length (drop ?m p) \<le> MAXFILE * BSIZE" using m less.prems(4) len(2) by simp_all
    moreover have "unat (mk_freeblock t) + need (blocks_of (off + ?m + length (drop ?m p))) \<le> 2000 + need (blocks_of (off + ?m))"
      unfolding len(2) m(3) using T less.prems(5) by linarith
    ultimately obtain u din'' where u: "kloop iappend_step (din', of_nat (off + ?m), drop ?m p) t = Ret (din'', of_nat (off + ?m + length (drop ?m p))) u"
      "appended (off + ?m) (drop ?m p) t din' u din''"
      using less.hyps [of "drop ?m p" t din' "off + ?m"] T by blast
    have "appended off (take ?m p @ drop ?m p) s din u din''" using t(2) u(2) less.prems(4) m(2) by (intro appended_trans) (simp_all add: len)
    then have "appended off p s din u din''" by simp
    moreover have "kloop iappend_step (din, of_nat off, p) s = Ret (din'', of_nat (off + length p)) u"
      using kloop_round [where body = iappend_step, OF t(1)] u(1) unfolding len(2) m(3) by simp
    ultimately show ?thesis by blast
  qed
qed

text \<open>Writing an inode.\<close>

lemma winode_ok:
  assumes s: "img_ok s" and i: "unat i < 200" and y: "length (d_addrs y) = NDIRECT + 1"
  shows "\<exists>t. winode i y s = Ret () t \<and> img_ok t \<and> img_frame s t \<and> mk_freeblock t = mk_freeblock s \<and> (\<forall>c. c \<notin> meta mk_super \<longrightarrow> seen t c = seen s c) \<and>
    (\<forall>j. disk_inode mk_super (seen t) j = (if j = i then y else disk_inode mk_super (seen s) j))"
proof -
  let ?c = "IBLOCK i mk_super"
  let ?d = "put_dinode y (seen s ?c) (dinode_off i)"
  have c: "unat ?c < 2000" "?c \<noteq> 45" "unat ?c < unat (mk_freeblock s)" using mk_IBLOCK [OF i] img_okD(3) [OF s] by auto
  have len: "length (seen s ?c) = BSIZE" by (rule img_okD(5) [OF s])
  have fits: "dinode_off i + sizeof_dinode \<le> length (seen s ?c)" using slot_fits len by simp
  have v: "seen (put_img ?c ?d s) = (seen s)(?c := ?d)" by (rule seen_put_img [OF s c(1,2)])
  have "length ?d = BSIZE" using put_dinode_fields(1) [OF fits y] len by simp
  then have "img_ok (put_img ?c ?d s)" by (rule img_ok_put [OF s c(3)])
  moreover have "winode i y s = Ret () (put_img ?c ?d s)"
    using rsect_ok [OF s c(1,2)] wsect_ok [OF s c(1)] img_okD(2) [OF s] by (simp add: winode_def exec_simps Let_def)
  moreover have "?c \<in> meta mk_super"
    unfolding meta_def using i by (intro insertI2 UnI2 image_eqI [of _ _ "unat i"]) (simp_all add: mk_super_simps)
  ultimately show ?thesis using disk_inode_put [where v = "seen s" and i = i and x = mk_super, OF len y]
    by (intro exI [of _ "put_img ?c ?d s"]) (auto simp: v)
qed

lemma rinode_ok: "img_ok s \<Longrightarrow> unat i < 200 \<Longrightarrow> rinode i s = Ret (disk_inode mk_super (seen s) i) s"
proof -
  assume s: "img_ok s" "unat i < 200"
  have "unat (IBLOCK i mk_super) < 2000" "IBLOCK i mk_super \<noteq> 45" using mk_IBLOCK [OF s(2)] by auto
  then show ?thesis using rsect_ok [OF s(1)] img_okD(2) [OF s(1)] by (simp add: rinode_def exec_simps disk_inode_def)
qed

text \<open>The file under a number.\<close>

abbreviation node_at :: "mkfs \<Rightarrow> u32 \<Rightarrow> inode" where
  "node_at s i \<equiv> node (disk_inode mk_super (seen s) i)"

abbreviation bytes_in :: "mkfs \<Rightarrow> u32 \<Rightarrow> byte list" where
  "bytes_in s i \<equiv> contents (seen s) (node_at s i)"

definition good :: "mkfs \<Rightarrow> u32 \<Rightarrow> bool" where
  "good s i \<longleftrightarrow> file_ok mk_super (seen s) (node_at s i) \<and> mapped (seen s) (node_at s i) (blocks_of (unat (i_size (node_at s i)))) \<and>
     unat (i_size (node_at s i)) \<le> MAXFILE * BSIZE \<and> (\<forall>c\<in>own (seen s) (node_at s i). 46 \<le> unat c) \<and>
     (\<forall>j. unat (i_size (node_at s i)) \<le> j \<longrightarrow> j < MAXFILE * BSIZE \<longrightarrow> file_byte (seen s) (node_at s i) j = 0)"

lemma file_same:
  assumes ok: "file_ok sbk v x" and same: "\<And>c. c \<in> own v x \<Longrightarrow> v' c = v c" "\<And>c. c \<in> own v x \<Longrightarrow> in_use sbk v' c"
  shows "file_ok sbk v' x" "own v' x = own v x" "slot v' x = slot v x" "i < MAXFILE * BSIZE \<Longrightarrow> file_byte v' x i = file_byte v x i"
proof -
  have "v' (i_addrs x ! NDIRECT) = v (i_addrs x ! NDIRECT)" if "i_addrs x ! NDIRECT \<noteq> 0"
    using slot_own [of MAXFILE v x] that by (intro same(1)) (simp add: slot_def)
  then have sl: "slot v' x k = slot v x k" for k by (auto simp: slot_def block_addr_def)
  then show "slot v' x = slot v x" by (rule ext)
  then show own: "own v' x = own v x" by (simp add: own_def)
  show "file_ok sbk v' x" using ok same(2) by (auto simp: file_ok_def own sl)
  assume "i < MAXFILE * BSIZE"
  then have k: "i div BSIZE < MAXFILE" by (rule less_mult_imp_div_less)
  then have a: "block_addr v x (i div BSIZE) = slot v x (i div BSIZE)" "block_addr v' x (i div BSIZE) = slot v x (i div BSIZE)"
    using sl [of "i div BSIZE"] by (simp_all add: slot_def)
  have "v' (slot v x (i div BSIZE)) = v (slot v x (i div BSIZE))" if "slot v x (i div BSIZE) \<noteq> 0"
    using slot_own [of "i div BSIZE" v x] k that by (intro same(1)) simp
  then show "file_byte v' x i = file_byte v x i" by (auto simp: file_byte_def Let_def a)
qed

text \<open>What is true of a file stays true while its inode and its blocks do not change.\<close>

lemma good_same:
  assumes g: "good s j" and i: "disk_inode mk_super (seen t) j = disk_inode mk_super (seen s) j"
    and same: "\<And>c. c \<in> own (seen s) (node_at s j) \<Longrightarrow> seen t c = seen s c" "\<And>c. c \<in> own (seen s) (node_at s j) \<Longrightarrow> in_use mk_super (seen t) c"
  shows "good t j" "bytes_in t j = bytes_in s j" "own (seen t) (node_at t j) = own (seen s) (node_at s j)"
proof -
  have ok: "file_ok mk_super (seen s) (node_at s j)" using g by (simp add: good_def)
  note f = file_same [OF ok same]
  show "good t j" using g f(1,4) unfolding good_def mapped_def i by (simp add: f(2,3))
  show "bytes_in t j = bytes_in s j" using g f(4) unfolding i by (simp add: contents_def good_def)
  show "own (seen t) (node_at t j) = own (seen s) (node_at s j)" unfolding i by (rule f(2))
qed

text \<open>
  Appending to one file leaves the others as they are and the blocks of the files apart. \<open>grows i bs s t\<close>: from \<open>s\<close> to \<open>t\<close> the file \<open>i\<close> has got the bytes \<open>bs\<close>; the
  super block and the log (blocks 1 to 31) stay.
\<close>

definition low_same :: "mkfs \<Rightarrow> mkfs \<Rightarrow> bool" where
  "low_same s t \<longleftrightarrow> (\<forall>c. 0 < unat c \<longrightarrow> unat c < 32 \<longrightarrow> seen t c = seen s c)"

definition grows :: "u32 \<Rightarrow> byte list \<Rightarrow> mkfs \<Rightarrow> mkfs \<Rightarrow> bool" where
  "grows i bs s t \<longleftrightarrow> img_ok t \<and> img_frame s t \<and> good t i \<and> bytes_in t i = bytes_in s i @ bs \<and> low_same s t \<and>
     unat (mk_freeblock t) + need (blocks_of (length (bytes_in s i))) = unat (mk_freeblock s) + need (blocks_of (length (bytes_in s i) + length bs)) \<and>
     d_type (disk_inode mk_super (seen t) i) = d_type (disk_inode mk_super (seen s) i) \<and> d_nlink (disk_inode mk_super (seen t) i) = d_nlink (disk_inode mk_super (seen s) i) \<and>
     (\<forall>j. j \<noteq> i \<longrightarrow> unat j < 200 \<longrightarrow> disk_inode mk_super (seen t) j = disk_inode mk_super (seen s) j \<and>
       (good s j \<longrightarrow> own (seen s) (node_at s j) \<inter> own (seen s) (node_at s i) = {} \<longrightarrow>
          good t j \<and> bytes_in t j = bytes_in s j \<and> own (seen t) (node_at t j) = own (seen s) (node_at s j) \<and>
          own (seen t) (node_at t j) \<inter> own (seen t) (node_at t i) = {}))"

lemma node_resize [simp]:
  "slot v (node (y\<lparr>d_size := e\<rparr>)) = slot v (node y)" "own v (node (y\<lparr>d_size := e\<rparr>)) = own v (node y)" "file_byte v (node (y\<lparr>d_size := e\<rparr>)) = file_byte v (node y)"
  "file_ok sbk v (node (y\<lparr>d_size := e\<rparr>)) = file_ok sbk v (node y)"
proof -
  have b: "block_addr v (node (y\<lparr>d_size := e\<rparr>)) = block_addr v (node y)" by (simp add: block_addr_def fun_eq_iff)
  then show "slot v (node (y\<lparr>d_size := e\<rparr>)) = slot v (node y)" by (simp add: slot_def fun_eq_iff)
  then show o: "own v (node (y\<lparr>d_size := e\<rparr>)) = own v (node y)" by (simp add: own_def)
  show "file_byte v (node (y\<lparr>d_size := e\<rparr>)) = file_byte v (node y)" using b by (simp add: file_byte_def fun_eq_iff)
  show "file_ok sbk v (node (y\<lparr>d_size := e\<rparr>)) = file_ok sbk v (node y)"
    using \<open>slot v (node (y\<lparr>d_size := e\<rparr>)) = slot v (node y)\<close> o by (simp add: file_ok_def)
qed

text \<open>The inode with its new size is written.\<close>

lemma resize_file:
  assumes t: "appended n p s (disk_inode mk_super (seen s) i) t din" and g: "good s i" and i: "unat i < 200"
    and n: "n = unat (i_size (node_at s i))" "n + length p \<le> MAXFILE * BSIZE" and s: "img_ok s"
  defines "y \<equiv> din\<lparr>d_size := of_nat (n + length p)\<rparr>"
  shows "\<exists>u. winode i y t = Ret () u \<and> img_ok u \<and> img_frame s u \<and> mk_freeblock u = mk_freeblock t \<and>
    (\<forall>j. disk_inode mk_super (seen u) j = (if j = i then y else disk_inode mk_super (seen t) j)) \<and>
    (\<forall>c. c \<notin> meta mk_super \<longrightarrow> seen u c = seen t c) \<and> good u i \<and> bytes_in u i = bytes_in s i @ p \<and> own (seen u) (node_at u i) = own (seen t) (node din)"
proof -
  let ?d = "disk_inode mk_super (seen s) i"
  note T = t [unfolded appended_def]
  have G: "file_ok mk_super (seen s) (node ?d)" "n \<le> MAXFILE * BSIZE" "\<And>c. c \<in> own (seen s) (node ?d) \<Longrightarrow> 46 \<le> unat c"
    "\<And>j. n \<le> j \<Longrightarrow> j < MAXFILE * BSIZE \<Longrightarrow> file_byte (seen s) (node ?d) j = 0"
    using g unfolding good_def n by blast+
  have ok: "img_ok t" "file_ok mk_super (seen t) (node din)" "mapped (seen t) (node din) (blocks_of (n + length p))"
    "stored mk_super n p (seen s) (node ?d) (seen t) (node din)" using T by blast+
  have ly: "length (d_addrs y) = NDIRECT + 1" using ok(2) by (simp add: file_ok_def y_def)
  from winode_ok [OF ok(1) i ly] obtain u where
    u: "winode i y t = Ret () u" "img_ok u" "img_frame t u" "mk_freeblock u = mk_freeblock t" "\<And>c. c \<notin> meta mk_super \<Longrightarrow> seen u c = seen t c"
      "\<And>j. disk_inode mk_super (seen u) j = (if j = i then y else disk_inode mk_super (seen t) j)" by blast
  have use: "in_use mk_super (seen u) c \<longleftrightarrow> in_use mk_super (seen t) c" if "unat c < unat (sb_size mk_super)" for c
    using img_okD(6) [OF u(2), of c] img_okD(6) [OF ok(1), of c] that by (simp add: u(4) mk_super_simps)
  have f: "file_ok mk_super (seen u) (node din)" "own (seen u) (node din) = own (seen t) (node din)" "slot (seen u) (node din) = slot (seen t) (node din)"
    "\<And>j. j < MAXFILE * BSIZE \<Longrightarrow> file_byte (seen u) (node din) j = file_byte (seen t) (node din) j"
    using file_ok_cong [OF ok(2), of "seen u"] u(5) use by blast+
  have "n + length p < 2 ^ 32" using n(2) by (simp add: MAXFILE_268 BSIZE_def)
  then have sz: "unat (d_size y) = n + length p" using unat_small by (simp add: y_def del: of_nat_add)
  have nu: "node_at u i = node y" by (simp add: u(6))
  have by': "file_byte (seen u) (node y) j = byte_put n p (file_byte (seen s) (node ?d)) j" if "j < MAXFILE * BSIZE" for j
    using f(4) [OF that] ok(4) that by (simp add: y_def stored_def)
  have "46 \<le> unat c" if "c \<in> own (seen t) (node din)" for c
  proof (cases "in_use mk_super (seen s) c")
    case True
    have "unat c < unat (sb_size mk_super)" using ok(2) that by (simp add: file_ok_def)
    then have "c \<in> own (seen s) (node ?d)" using ok(4) True that by (simp add: stored_def spares_def)
    then show ?thesis by (rule G(3))
  next
    case False
    have "unat c < 2000" using ok(2) that by (simp add: file_ok_def mk_super_simps)
    then show ?thesis using False img_okD(6) [OF s, of c] img_okD(3) [OF s] by simp
  qed
  then have "good u i" unfolding good_def nu
    using f(1-3) ok(3) n(2) by' G(4) sz by (auto simp: y_def mapped_def byte_put_def)
  moreover have "bytes_in u i = overwrite (bytes_in s i) n p"
    unfolding nu using by' n G(2) sz by (intro contents_written) simp_all
  then have "bytes_in u i = bytes_in s i @ p" using n(1) by (simp add: overwrite_def)
  moreover have "img_frame s u" using T u(3) img_frame_trans by blast
  ultimately show ?thesis using u f(2) by (intro exI [of _ u]) (simp add: nu y_def)
qed

lemma meta_disk_inode: "meta_same s t \<Longrightarrow> unat j < 200 \<Longrightarrow> disk_inode mk_super (seen t) j = disk_inode mk_super (seen s) j"
proof -
  assume m: "meta_same s t" and j: "unat j < 200"
  have "IBLOCK j mk_super \<in> meta mk_super"
    unfolding meta_def using j by (intro insertI2 UnI2 image_eqI [of _ _ "unat j"]) (simp_all add: mk_super_simps)
  moreover have "IBLOCK j mk_super \<noteq> 45" using mk_IBLOCK [OF j] by auto
  ultimately show ?thesis using m by (simp add: meta_same_def disk_inode_def)
qed

lemma iappend_ok:
  assumes s: "img_ok s" and i: "unat i < 200" and g: "good s i"
  defines "n \<equiv> length (bytes_in s i)"
  assumes fits: "n + length p \<le> MAXFILE * BSIZE" "unat (mk_freeblock s) + need (blocks_of (n + length p)) \<le> 2000 + need (blocks_of n)"
  shows "\<exists>t. iappend i p s = Ret () t \<and> grows i p s t"
proof -
  let ?d = "disk_inode mk_super (seen s) i"
  have n: "n = unat (i_size (node_at s i))" by (simp add: n_def)
  have G: "file_ok mk_super (seen s) (node ?d)" "mapped (seen s) (node ?d) (blocks_of n)" "\<And>c. c \<in> own (seen s) (node ?d) \<Longrightarrow> 46 \<le> unat c"
    using g unfolding good_def n by blast+
  from iappend_loop [OF s G(1,2) fits] obtain t din where
    t: "kloop iappend_step (?d, of_nat n, p) s = Ret (din, of_nat (n + length p)) t" "appended n p s ?d t din" by blast
  let ?y = "din\<lparr>d_size := of_nat (n + length p)\<rparr>"
  from resize_file [OF t(2) g i n fits(1) s] obtain u where
    u: "winode i ?y t = Ret () u" "img_ok u" "img_frame s u" "mk_freeblock u = mk_freeblock t"
      "\<And>j. disk_inode mk_super (seen u) j = (if j = i then ?y else disk_inode mk_super (seen t) j)"
      "\<And>c. c \<notin> meta mk_super \<Longrightarrow> seen u c = seen t c" "good u i" "bytes_in u i = bytes_in s i @ p" "own (seen u) (node_at u i) = own (seen t) (node din)" by blast
  have T: "meta_same s t" "spares mk_super (seen s) (node ?d) (seen t) (node din)" "img_ok t" "din = ?d\<lparr>d_addrs := d_addrs din\<rparr>"
    "unat (mk_freeblock t) + need (blocks_of n) = unat (mk_freeblock s) + need (blocks_of (n + length p))"
    using t(2) unfolding appended_def stored_def by blast+
  have dn: "d_size ?d = of_nat n" by (simp add: n)
  have run: "iappend i p s = Ret () u" using rinode_ok [OF s i] t(1) u(1) by (simp add: iappend_def exec_simps dn del: of_nat_add)
  have same: "seen u c = seen s c" "in_use mk_super (seen u) c" "c \<notin> own (seen t) (node din)"
    if "unat c < 2000" "in_use mk_super (seen s) c" "c \<notin> meta mk_super" "c \<notin> own (seen s) (node ?d)" for c
    using T(2) that u(6) [OF that(3)] img_okD(6) [OF u(2) that(1)] img_okD(6) [OF T(3) that(1)] by (auto simp: spares_def mk_super_simps u(4))
  have "seen u c = seen s c" if c: "0 < unat c" "unat c < 32" for c
  proof (rule same(1))
    show "c \<notin> meta mk_super" using c mk_low_meta [of c] by linarith
    show "c \<notin> own (seen s) (node ?d)" using c(2) G(3) [of c] by linarith
    show "in_use mk_super (seen s) c" using c(2) img_okD(6) [OF s, of c] img_okD(3) [OF s] by simp
  qed (use c in simp)
  then have "low_same s u" by (simp add: low_same_def)
  moreover have "d_type ?y = d_type ?d" "d_nlink ?y = d_nlink ?d" by (subst T(4), simp)+
  then have "d_type (disk_inode mk_super (seen u) i) = d_type ?d" "d_nlink (disk_inode mk_super (seen u) i) = d_nlink ?d" by (simp_all add: u(5))
  moreover have "disk_inode mk_super (seen u) j = disk_inode mk_super (seen s) j" if "j \<noteq> i" "unat j < 200" for j
    using u(5) [of j] that meta_disk_inode [OF T(1)] by simp
  moreover have "good u j \<and> bytes_in u j = bytes_in s j \<and> own (seen u) (node_at u j) = own (seen s) (node_at s j) \<and>
      own (seen u) (node_at u j) \<inter> own (seen u) (node_at u i) = {}"
    if j: "j \<noteq> i" "unat j < 200" "good s j" "own (seen s) (node_at s j) \<inter> own (seen s) (node_at s i) = {}" for j
  proof -
    have o: "unat c < 2000" "in_use mk_super (seen s) c" "c \<notin> meta mk_super" "c \<notin> own (seen s) (node ?d)" if "c \<in> own (seen s) (node_at s j)" for c
      using j(3,4) that by (auto simp: good_def file_ok_def mk_super_simps)
    have "disk_inode mk_super (seen u) j = disk_inode mk_super (seen s) j" using u(5) [of j] j(1,2) meta_disk_inode [OF T(1)] by simp
    then have k: "good u j" "bytes_in u j = bytes_in s j" "own (seen u) (node_at u j) = own (seen s) (node_at s j)"
      using good_same [OF j(3), of u] same(1,2) o by blast+
    have "own (seen s) (node_at s j) \<inter> own (seen t) (node din) = {}" using same(3) o by blast
    then show ?thesis using k u(9) by simp
  qed
  moreover have "unat (mk_freeblock u) + need (blocks_of n) = unat (mk_freeblock s) + need (blocks_of (n + length p))" using T(5) u(4) by simp
  ultimately have "grows i p s u" unfolding grows_def n_def [symmetric] using u(2,3,7,8) by blast
  then show ?thesis using run by blast
qed

section \<open>The image as a list of files\<close>

text \<open>Inode number \<open>k + 1\<close> is file \<open>k\<close>: its type, its number of links and its bytes.\<close>

type_synonym inodes = "(u16 \<times> u16 \<times> byte list) list"

definition num :: "nat \<Rightarrow> u32" where
  "num k = of_nat (Suc k)"

definition cost :: "inodes \<Rightarrow> nat" where
  "cost ns = sum_list (map (\<lambda>(_, _, bs). need (blocks_of (length bs))) ns)"

definition holds_nodes :: "mkfs \<Rightarrow> inodes \<Rightarrow> bool" where
  "holds_nodes s ns \<longleftrightarrow> img_ok s \<and> length ns < 200 \<and> mk_freeinode s = num (length ns) \<and> unat (mk_freeblock s) = 46 + cost ns \<and>
     (\<forall>k<length ns. good s (num k) \<and>
        ns ! k = (d_type (disk_inode mk_super (seen s) (num k)), d_nlink (disk_inode mk_super (seen s) (num k)), bytes_in s (num k))) \<and>
     (\<forall>k<length ns. \<forall>j<length ns. j \<noteq> k \<longrightarrow> own (seen s) (node_at s (num j)) \<inter> own (seen s) (node_at s (num k)) = {})"

lemma num_facts: "k < 200 \<Longrightarrow> unat (num k) = Suc k" "j < 200 \<Longrightarrow> k < 200 \<Longrightarrow> num j = num k \<longleftrightarrow> j = k"
proof -
  show u: "unat (num k) = Suc k" if "k < 200" for k using that unfolding num_def by (intro unat_small) simp
  show "num j = num k \<longleftrightarrow> j = k" if "j < 200" "k < 200" using u [OF that(1)] u [OF that(2)] by (metis nat.inject)
qed

lemma holds_nodesD:
  assumes "holds_nodes s ns" "k < length ns"
  shows "unat (num k) < 200" "good s (num k)" "d_type (disk_inode mk_super (seen s) (num k)) = fst (ns ! k)"
    "d_nlink (disk_inode mk_super (seen s) (num k)) = fst (snd (ns ! k))" "bytes_in s (num k) = snd (snd (ns ! k))"
    "j < length ns \<Longrightarrow> j \<noteq> k \<Longrightarrow> own (seen s) (node_at s (num j)) \<inter> own (seen s) (node_at s (num k)) = {}" "j < 200 \<Longrightarrow> num j = num k \<longleftrightarrow> j = k"
  using assms num_facts(1) [of k] num_facts(2) [of j k] by (auto simp: holds_nodes_def)

definition add_bytes :: "nat \<Rightarrow> byte list \<Rightarrow> inodes \<Rightarrow> inodes" where
  "add_bytes k bs ns = ns[k := (fst (ns ! k), fst (snd (ns ! k)), snd (snd (ns ! k)) @ bs)]"

lemma cost_add_bytes:
  assumes "k < length ns"
  shows "cost (add_bytes k bs ns) + need (blocks_of (length (snd (snd (ns ! k))))) = cost ns + need (blocks_of (length (snd (snd (ns ! k))) + length bs))"
proof -
  let ?g = "\<lambda>(_, _, bs). need (blocks_of (length bs))"
  have "cost (add_bytes k bs ns) = sum_list ((map ?g ns)[k := need (blocks_of (length (snd (snd (ns ! k))) + length bs))])"
    by (simp add: cost_def add_bytes_def map_update)
  moreover have "?g (ns ! k) \<le> cost ns" unfolding cost_def using assms by (intro member_le_sum_list) simp_all
  ultimately show ?thesis using assms by (simp add: sum_list_update cost_def split_beta)
qed

lemma iappend_nodes:
  assumes h: "holds_nodes s ns" and k: "k < length ns" and fits: "length (snd (snd (ns ! k))) + length p \<le> MAXFILE * BSIZE" "46 + cost (add_bytes k p ns) \<le> 2000"
  shows "\<exists>t. iappend (num k) p s = Ret () t \<and> holds_nodes t (add_bytes k p ns) \<and> mk_host t = mk_host s \<and> low_same s t"
proof -
  have H: "img_ok s" "length ns < 200" "unat (mk_freeblock s) = 46 + cost ns" using h by (simp_all add: holds_nodes_def)
  note K = holds_nodesD [OF h k]
  have "unat (mk_freeblock s) + need (blocks_of (length (bytes_in s (num k)) + length p)) \<le> 2000 + need (blocks_of (length (bytes_in s (num k))))"
    using cost_add_bytes [OF k, of p] fits(2) H(3) unfolding K(5) by linarith
  then obtain t where t: "iappend (num k) p s = Ret () t" "grows (num k) p s t"
    using iappend_ok [OF H(1) K(1,2)] fits(1) unfolding K(5) by blast
  note g = t(2) [unfolded grows_def]
  have other: "good t (num j) \<and> bytes_in t (num j) = bytes_in s (num j) \<and> own (seen t) (node_at t (num j)) = own (seen s) (node_at s (num j)) \<and>
      own (seen t) (node_at t (num j)) \<inter> own (seen t) (node_at t (num k)) = {} \<and> disk_inode mk_super (seen t) (num j) = disk_inode mk_super (seen s) (num j)"
    if "j < length ns" "j \<noteq> k" for j
  proof -
    have "num j \<noteq> num k" "own (seen s) (node_at s (num j)) \<inter> own (seen s) (node_at s (num k)) = {}" using K(6,7) [of j] that H(2) by simp_all
    then show ?thesis using g holds_nodesD(1,2) [OF h that(1)] by blast
  qed
  have "own (seen t) (node_at t (num j)) \<inter> own (seen t) (node_at t (num l)) = {}" if "j < length ns" "l < length ns" "j \<noteq> l" for j l
    using that other [of j] other [of l] holds_nodesD(6) [OF h that(2), of j] by (cases "j = k"; cases "l = k") auto
  moreover have "unat (mk_freeblock t) = 46 + cost (add_bytes k p ns)" using g cost_add_bytes [OF k, of p] H(3) unfolding K(5) by linarith
  moreover have "good t (num j) \<and> add_bytes k p ns ! j =
      (d_type (disk_inode mk_super (seen t) (num j)), d_nlink (disk_inode mk_super (seen t) (num j)), bytes_in t (num j))" if "j < length ns" for j
    using other [OF that] holds_nodesD(3-5) [OF h that] g K(3-5) k by (cases "j = k") (auto simp: add_bytes_def prod_eq_iff)
  moreover have "mk_freeinode t = mk_freeinode s" "mk_host t = mk_host s" using g img_frame_select by blast+
  ultimately show ?thesis using t(1) g h by (intro exI [of _ t]) (simp add: holds_nodes_def add_bytes_def)
qed

text \<open>A new inode is an empty file.\<close>

lemma empty_good:
  assumes "img_ok s" "disk_inode mk_super (seen s) i = y" "d_addrs y = replicate (NDIRECT + 1) 0" "d_size y = 0"
  shows "good s i" "bytes_in s i = []" "own (seen s) (node_at s i) = {}"
proof -
  have b: "block_addr (seen s) (node y) k = 0" if "k < MAXFILE" for k using that assms(3) by (simp add: block_addr_def del: replicate.simps)
  then have sl: "slot (seen s) (node y) k = 0" for k using assms(3) by (simp add: slot_def del: replicate.simps)
  then have own: "own (seen s) (node y) = {}" by (auto simp: own_def)
  moreover have "blocks_of 0 = 0" by (simp add: blocks_of_def BSIZE_def)
  moreover have "file_byte (seen s) (node y) j = 0" if "j < MAXFILE * BSIZE" for j
    using b [of "j div BSIZE"] that by (simp add: file_byte_def less_mult_imp_div_less)
  ultimately show "good s i" using sl assms(3,4) by (simp add: good_def assms(2) file_ok_def mapped_def)
  show "bytes_in s i = []" "own (seen s) (node_at s i) = {}" using own assms(4) by (simp_all add: contents_def assms(2))
qed

text \<open>A file does not see changes in the blocks of the inodes.\<close>

lemma inode_change_good:
  assumes ok: "img_ok s" "img_ok t" "mk_freeblock t = mk_freeblock s" "\<And>c. c \<notin> meta mk_super \<Longrightarrow> seen t c = seen s c"
    and g: "good s j" "disk_inode mk_super (seen t) j = disk_inode mk_super (seen s) j"
  shows "good t j" "bytes_in t j = bytes_in s j" "own (seen t) (node_at t j) = own (seen s) (node_at s j)"
proof -
  have "c \<notin> meta mk_super \<and> in_use mk_super (seen t) c" if "c \<in> own (seen s) (node_at s j)" for c
  proof -
    have "unat c < 2000" "in_use mk_super (seen s) c" "c \<notin> meta mk_super" using g that by (simp_all add: good_def file_ok_def mk_super_simps)
    then show ?thesis using img_okD(6) [OF ok(2), of c] img_okD(6) [OF ok(1), of c] ok(3) by simp
  qed
  then show "good t j" "bytes_in t j = bytes_in s j" "own (seen t) (node_at t j) = own (seen s) (node_at s j)"
    using good_same [OF g] ok(4) by blast+
qed

lemma low_same_trans: "low_same s t \<Longrightarrow> low_same t u \<Longrightarrow> low_same s u"
  by (simp add: low_same_def)

lemma ialloc_nodes:
  assumes h: "holds_nodes s ns" and n: "length ns < 199"
  shows "\<exists>t. mk_ialloc ty s = Ret (num (length ns)) t \<and> holds_nodes t (ns @ [(ty, 1, [])]) \<and> mk_host t = mk_host s \<and> low_same s t"
proof -
  let ?i = "num (length ns)" and ?y = "zero_dinode\<lparr>d_type := ty, d_nlink := 1, d_size := 0\<rparr>"
  let ?s = "s\<lparr>mk_freeinode := ?i + 1\<rparr>"
  have H: "img_ok s" "mk_freeinode s = ?i" "unat (mk_freeblock s) = 46 + cost ns" using h by (simp_all add: holds_nodes_def)
  have sn: "seen ?s = seen s" "img_ok ?s" using H(1) by (simp_all add: seen_def img_ok_def)
  have i: "unat ?i < 200" using n num_facts(1) [of "length ns"] by simp
  have "length (d_addrs ?y) = NDIRECT + 1" by (simp add: zero_dinode_def)
  from winode_ok [OF sn(2) i this] obtain t where
    t: "winode ?i ?y ?s = Ret () t" "img_ok t" "img_frame ?s t" "mk_freeblock t = mk_freeblock s" "\<And>c. c \<notin> meta mk_super \<Longrightarrow> seen t c = seen s c"
      "\<And>j. disk_inode mk_super (seen t) j = (if j = ?i then ?y else disk_inode mk_super (seen s) j)" unfolding sn(1) by auto
  have old: "good t (num k) \<and> bytes_in t (num k) = bytes_in s (num k) \<and> own (seen t) (node_at t (num k)) = own (seen s) (node_at s (num k)) \<and>
      disk_inode mk_super (seen t) (num k) = disk_inode mk_super (seen s) (num k)" if k: "k < length ns" for k
  proof -
    have "num k \<noteq> ?i" using num_facts(2) [of k "length ns"] k n by simp
    then have d: "disk_inode mk_super (seen t) (num k) = disk_inode mk_super (seen s) (num k)" by (simp add: t(6))
    then show ?thesis using inode_change_good [OF H(1) t(2,4,5) holds_nodesD(2) [OF h k]] by blast
  qed
  have e: "good t ?i" "bytes_in t ?i = []" "own (seen t) (node_at t ?i) = {}"
    using empty_good [OF t(2), of ?i ?y] t(6) [of ?i] by (simp_all add: zero_dinode_def)
  have "good t (num k) \<and> (ns @ [(ty, 1, [])]) ! k =
      (d_type (disk_inode mk_super (seen t) (num k)), d_nlink (disk_inode mk_super (seen t) (num k)), bytes_in t (num k))" if "k < Suc (length ns)" for k
    using that old [of k] holds_nodesD(3-5) [OF h, of k] e(1,2) t(6) [of ?i]
    by (cases "k = length ns") (auto simp: nth_append prod_eq_iff)
  moreover have "own (seen t) (node_at t (num j)) \<inter> own (seen t) (node_at t (num k)) = {}" if "j < Suc (length ns)" "k < Suc (length ns)" "j \<noteq> k" for j k
    using that old [of j] old [of k] e(3) holds_nodesD(6) [OF h, of k j] by (cases "j = length ns"; cases "k = length ns") auto
  moreover have "mk_freeinode t = num (Suc (length ns))" "mk_host t = mk_host s" using img_frame_select [OF t(3)] by (simp_all add: num_def)
  moreover have "need (blocks_of 0) = 0" by (simp add: need_def blocks_of_def BSIZE_def)
  ultimately have "holds_nodes t (ns @ [(ty, 1, [])])" using t(2,4) H(3) n by (simp add: holds_nodes_def cost_def)
  moreover have "low_same s t" unfolding low_same_def using t(5) mk_low_meta by (meson leD)
  moreover have "mk_ialloc ty s = Ret ?i t" using H(2) t(1) by (simp add: mk_ialloc_def exec_simps)
  ultimately show ?thesis using \<open>mk_host t = mk_host s\<close> by blast
qed

lemma add_bytes_append: "k < length ns \<Longrightarrow> add_bytes k (a @ b) ns = add_bytes k b (add_bytes k a ns)"
  by (simp add: add_bytes_def)

lemma length_add_bytes [simp]: "length (add_bytes k bs ns) = length ns"
  by (simp add: add_bytes_def)

lemma cost_add_le:
  assumes "k < length ns"
  shows "cost ns \<le> cost (add_bytes k bs ns)" "length as \<le> length bs \<Longrightarrow> cost (add_bytes k as ns) \<le> cost (add_bytes k bs ns)"
proof -
  let ?n = "length (snd (snd (ns ! k)))"
  have m: "need (blocks_of (?n + i)) \<le> need (blocks_of (?n + j))" if "i \<le> j" for i j using that by (intro need_mono blocks_of_mono) simp
  show "cost ns \<le> cost (add_bytes k bs ns)" using cost_add_bytes [OF assms, of bs] m [of 0 "length bs"] by simp
  assume "length as \<le> length bs"
  from m [OF this] show "cost (add_bytes k as ns) \<le> cost (add_bytes k bs ns)" using cost_add_bytes [OF assms, of as] cost_add_bytes [OF assms, of bs] by linarith
qed

lemma iappend_chunks:
  assumes "holds_nodes s ns" "k < length ns" "length (snd (snd (ns ! k))) + length (concat cs) \<le> MAXFILE * BSIZE" "46 + cost (add_bytes k (concat cs) ns) \<le> 2000"
  shows "\<exists>t. kfor cs (iappend (num k)) s = Ret () t \<and> holds_nodes t (add_bytes k (concat cs) ns) \<and> mk_host t = mk_host s \<and> low_same s t"
  using assms
proof (induction cs arbitrary: s ns)
  case Nil
  then show ?case by (simp add: exec_simps add_bytes_def low_same_def)
next
  case (Cons c cs)
  let ?ns = "add_bytes k c ns"
  have eq: "add_bytes k (concat (c # cs)) ns = add_bytes k (concat cs) ?ns" using add_bytes_append [OF Cons.prems(2)] by simp
  have "46 + cost ?ns \<le> 2000" using Cons.prems(4) cost_add_le(1) [of k ?ns "concat cs"] Cons.prems(2) unfolding eq by simp
  then obtain t where t: "iappend (num k) c s = Ret () t" "holds_nodes t ?ns" "mk_host t = mk_host s" "low_same s t"
    using iappend_nodes [OF Cons.prems(1,2), of c] Cons.prems(3) by auto
  have "k < length ?ns" "length (snd (snd (?ns ! k))) + length (concat cs) \<le> MAXFILE * BSIZE" using Cons.prems(2,3) by (simp_all add: add_bytes_def)
  from Cons.IH [OF t(2) this] Cons.prems(4) obtain u where
    "kfor cs (iappend (num k)) t = Ret () u" "holds_nodes u (add_bytes k (concat cs) ?ns)" "mk_host u = mk_host t" "low_same t u"
    unfolding eq by blast
  then show ?case using t low_same_trans unfolding eq by (intro exI [of _ u]) (auto simp: exec_simps)
qed

section \<open>The files of the command line\<close>

definition root_dir :: "(byte list \<times> byte list) list \<Rightarrow> byte list" where
  "root_dir fs = dirent ROOTINO (str ''.'') @ dirent ROOTINO (str ''..'') @ concat (map (\<lambda>k. dirent (num (Suc k)) (fst (fs ! k))) [0..<length fs])"

definition image_nodes :: "(byte list \<times> byte list) list \<Rightarrow> inodes" where
  "image_nodes fs = (T_DIR, 1, root_dir fs) # map (\<lambda>f. (T_FILE, 1, snd f)) fs"

lemma root_dir_snoc: "root_dir (fs @ [f]) = root_dir fs @ dirent (num (Suc (length fs))) (fst f)"
proof -
  have "map (\<lambda>k. dirent (num (Suc k)) (fst ((fs @ [f]) ! k))) [0..<length fs] = map (\<lambda>k. dirent (num (Suc k)) (fst (fs ! k))) [0..<length fs]"
    by (rule map_cong) (simp_all add: nth_append)
  then show ?thesis by (simp add: root_dir_def del: map_eq_conv)
qed

lemma length_root_dir: "length (root_dir fs) = 16 * (length fs + 2)"
  by (induction fs rule: rev_induct) (simp_all add: root_dir_snoc, simp add: root_dir_def)

lemma image_nodes_snoc:
  "image_nodes (fs @ [(n, bs)]) = add_bytes (Suc (length fs)) bs (add_bytes 0 (dirent (num (Suc (length fs))) n) (image_nodes fs @ [(T_FILE, 1, [])]))"
  by (simp add: image_nodes_def add_bytes_def root_dir_snoc nth_append list_update_append)

lemma dirent_x: "dirent (ucast (xshort (ucast i))) n = dirent i n"
proof -
  have "ucast (ucast (ucast i :: u16) :: u32) = (ucast i :: u16)" by (rule bit_word_eqI) (simp add: bit_simps)
  then show ?thesis by (simp add: dirent_def)
qed

lemma add_file_nodes:
  assumes h: "holds_nodes s (image_nodes fs)" and a: "h_open (mk_host s) arg = Some cs" "SLASH \<notin> set (short_name arg)"
    and fits: "length (concat cs) \<le> MAXFILE * BSIZE" "length fs < 198" "46 + cost (image_nodes (fs @ [(disk_name arg, concat cs)])) \<le> 2000"
  shows "\<exists>t. add_file ROOTINO arg s = Ret () t \<and> holds_nodes t (image_nodes (fs @ [(disk_name arg, concat cs)])) \<and> mk_host t = mk_host s \<and> low_same s t"
proof -
  let ?n = "Suc (length fs)"
  let ?ns = "image_nodes fs @ [(T_FILE, 1, [])]"
  let ?ns1 = "add_bytes 0 (dirent (num ?n) (disk_name arg)) ?ns"
  have len: "length (image_nodes fs) = ?n" "length ?ns = Suc ?n" "length ?ns1 = Suc ?n" by (simp_all add: image_nodes_def)
  obtain t where t: "mk_ialloc T_FILE s = Ret (num ?n) t" "holds_nodes t ?ns" "mk_host t = mk_host s" "low_same s t"
    using ialloc_nodes [OF h, of T_FILE] fits(2) unfolding len by auto
  note c = fits(3) [unfolded image_nodes_snoc]
  have c1: "46 + cost ?ns1 \<le> 2000" using c cost_add_le(1) [of ?n ?ns1 "concat cs"] len(3) by simp
  have 0: "0 < length ?ns" "length (snd (snd (?ns ! 0))) + length (dirent (num ?n) (disk_name arg)) \<le> MAXFILE * BSIZE"
    using fits(2) by (simp_all add: image_nodes_def length_root_dir MAXFILE_268 BSIZE_def)
  obtain u where u: "iappend (num 0) (dirent (num ?n) (disk_name arg)) t = Ret () u" "holds_nodes u ?ns1" "mk_host u = mk_host t" "low_same t u"
    using iappend_nodes [OF t(2) 0 c1] by blast
  have n: "?n < length ?ns1" "length (snd (snd (?ns1 ! ?n))) + length (concat cs) \<le> MAXFILE * BSIZE"
    using fits(1) by (simp_all add: len add_bytes_def nth_append)
  obtain w where w: "kfor cs (iappend (num ?n)) u = Ret () w" "holds_nodes w (add_bytes ?n (concat cs) ?ns1)" "mk_host w = mk_host u" "low_same u w"
    using iappend_chunks [OF u(2) n c] by blast
  have "ROOTINO = num 0" by (simp add: num_def ROOTINO_def)
  then have "add_file ROOTINO arg s = Ret () w"
    using a t(1) u(1) w(1) unfolding add_file_def dirent_x by (simp add: exec_simps mk_assert_def)
  then show ?thesis using w u(3,4) t(3,4) low_same_trans unfolding image_nodes_snoc by (intro exI [of _ w]) auto
qed

definition files_of :: "host \<Rightarrow> byte list list \<Rightarrow> (byte list \<times> byte list) list" where
  "files_of h args = map (\<lambda>arg. (disk_name arg, concat (the (h_open h arg)))) args"

definition file_arg :: "host \<Rightarrow> byte list \<Rightarrow> bool" where
  "file_arg h arg \<longleftrightarrow> SLASH \<notin> set (short_name arg) \<and> h_open h arg \<noteq> None \<and> length (concat (the (h_open h arg))) \<le> MAXFILE * BSIZE"

lemma cost_image_mono: "cost (image_nodes fs) \<le> cost (image_nodes (fs @ gs))"
proof (induction gs rule: rev_induct)
  case (snoc g gs)
  let ?ns = "image_nodes (fs @ gs) @ [(T_FILE, 1, [])]"
  have "cost (image_nodes (fs @ gs)) \<le> cost ?ns" by (simp add: cost_def)
  also have "\<dots> \<le> cost (image_nodes ((fs @ gs) @ [g]))"
    using cost_add_le(1) [of 0 ?ns] cost_add_le(1) [of "Suc (length (fs @ gs))" "add_bytes 0 d ?ns" for d]
    by (cases g) (simp only: image_nodes_snoc, rule order_trans, simp_all add: image_nodes_def)
  finally show ?case using snoc by simp
qed simp

lemma add_files_nodes:
  assumes "holds_nodes s (image_nodes fs)" "mk_host s = h" "\<forall>arg\<in>set args. file_arg h arg" "length fs + length args \<le> 198"
    and "46 + cost (image_nodes (fs @ files_of h args)) \<le> 2000"
  shows "\<exists>t. kfor args (add_file ROOTINO) s = Ret () t \<and> holds_nodes t (image_nodes (fs @ files_of h args)) \<and> mk_host t = h \<and> low_same s t"
  using assms
proof (induction args arbitrary: fs s)
  case Nil
  then show ?case by (simp add: exec_simps files_of_def low_same_def)
next
  case (Cons arg args)
  let ?f = "(disk_name arg, concat (the (h_open h arg)))"
  have eq: "fs @ files_of h (arg # args) = (fs @ [?f]) @ files_of h args" by (simp add: files_of_def)
  obtain cs where cs: "h_open h arg = Some cs" "SLASH \<notin> set (short_name arg)" "length (concat cs) \<le> MAXFILE * BSIZE"
    using Cons.prems(3) by (auto simp: file_arg_def)
  have "46 + cost (image_nodes (fs @ [?f])) \<le> 2000" using Cons.prems(5) cost_image_mono [of "fs @ [?f]" "files_of h args"] unfolding eq by simp
  then obtain t where t: "add_file ROOTINO arg s = Ret () t" "holds_nodes t (image_nodes (fs @ [?f]))" "mk_host t = h" "low_same s t"
    using add_file_nodes [OF Cons.prems(1) _ cs(2,3)] cs(1) Cons.prems(2,4) by auto
  from Cons.IH [OF t(2,3)] Cons.prems(3,4,5) obtain u where
    "kfor args (add_file ROOTINO) t = Ret () u" "holds_nodes u (image_nodes ((fs @ [?f]) @ files_of h args))" "mk_host u = h" "low_same t u"
    unfolding eq by auto
  then show ?case using t(1,4) low_same_trans unfolding eq by (intro exI [of _ u]) (auto simp: exec_simps)
qed

section \<open>The whole program\<close>

text \<open>The image before the first inode: zeros, and the super block.\<close>

lemma zero_image:
  assumes "serves (mk_host s)" "mk_img s = []"
  shows "kfor [0..<FSSIZE] (\<lambda>i. wsect (of_nat i) zeroes) s = Ret () (s\<lparr>mk_img := replicate FSSIZE zeroes\<rparr>)"
proof -
  have "\<exists>t. wsect (of_nat i) zeroes (s\<lparr>mk_img := replicate i zeroes\<rparr>) = Ret () t \<and> t = s\<lparr>mk_img := replicate (Suc i) zeroes\<rparr>" if "i < FSSIZE" for i
  proof -
    have "unat (of_nat i :: u32) = i" using that by (intro unat_small) (simp add: FSSIZE_def)
    then have "sect_pos (of_nat i) = i * BSIZE" using that sect_pos_eq [of "of_nat i"] by simp
    then show ?thesis using assms(1) that by (simp add: wsect_def exec_simps serves_def Let_def replicate_append_same)
  qed
  then have "\<exists>t. kfor [0..<FSSIZE] (\<lambda>i. wsect (of_nat i) zeroes) s = Ret () t \<and> t = s\<lparr>mk_img := replicate FSSIZE zeroes\<rparr>"
    using assms(2) by (intro kfor_inv) (auto simp: exec_simps)
  then show ?thesis by simp
qed

definition blank :: "mkfs \<Rightarrow> bool" where
  "blank s \<longleftrightarrow> mk_img s = replicate FSSIZE zeroes \<and> mk_sb s = mk_super \<and> mk_freeblock s = of_nat nmeta \<and> mk_freeinode s = 1 \<and> serves (mk_host s)"

lemma length_super_bytes [simp]: "length (super_bytes x) = 32"
  by (simp add: super_bytes_def)

lemma get_super_bytes: "get_super (super_bytes x @ r) = x"
  by (simp add: get_super_def super_bytes_def get_le_def of_le_to_le_id)

lemma first_blocks:
  assumes "blank s"
  defines "b \<equiv> super_bytes mk_super @ replicate (BSIZE - 32) 0"
  shows "wsect 1 b s = Ret () (put_img 1 b s)" "holds_nodes (put_img 1 b s) []" "seen (put_img 1 b s) 1 = b"
    "2 \<le> unat c \<Longrightarrow> unat c < 32 \<Longrightarrow> seen (put_img 1 b s) c = zeroes"
proof -
  have ok: "img_ok s" using assms(1) by (simp add: img_ok_def blank_def mkfs_sizes FSSIZE_def)
  have fb: "unat (mk_freeblock s) = 46" using assms(1) by (simp add: blank_def mkfs_sizes)
  show "wsect 1 b s = Ret () (put_img 1 b s)" by (rule wsect_ok [OF ok]) simp
  have "length b = BSIZE" by (simp add: b_def BSIZE_def)
  then have ok': "img_ok (put_img 1 b s)" using img_ok_put [OF ok, of 1 b] fb by simp
  then show "holds_nodes (put_img 1 b s) []" using assms(1) fb by (simp add: holds_nodes_def num_def cost_def blank_def)
  have v: "seen (put_img 1 b s) = (seen s)(1 := b)" by (rule seen_put_img [OF ok]) simp_all
  show "seen (put_img 1 b s) 1 = b" by (simp add: v)
  assume c: "2 \<le> unat c" "unat c < 32"
  then have "c \<noteq> 1" "c \<noteq> 45" by auto
  then show "seen (put_img 1 b s) c = zeroes" using assms(1) c by (simp add: v) (simp add: seen_def img_view_def blank_def)
qed

lemma root_nodes:
  assumes h: "holds_nodes s []"
  shows "\<exists>t u w. mk_ialloc T_DIR s = Ret ROOTINO t \<and> iappend ROOTINO (dirent ROOTINO (str ''.'')) t = Ret () u \<and>
    iappend ROOTINO (dirent ROOTINO (str ''..'')) u = Ret () w \<and> holds_nodes w (image_nodes []) \<and> mk_host w = mk_host s \<and> low_same s w"
proof -
  have r: "ROOTINO = num 0" by (simp add: num_def ROOTINO_def)
  obtain t where t: "mk_ialloc T_DIR s = Ret (num 0) t" "holds_nodes t [(T_DIR, 1, [])]" "mk_host t = mk_host s" "low_same s t"
    using ialloc_nodes [OF h, of T_DIR] by auto
  let ?a = "dirent ROOTINO (str ''.'')" and ?b = "dirent ROOTINO (str ''..'')"
  have c: "cost (add_bytes 0 ?b (add_bytes 0 ?a [(T_DIR, 1, [])])) = 1" "cost (add_bytes 0 ?a [(T_DIR, 1, [])]) = 1"
    by (simp_all add: add_bytes_def cost_def need_def blocks_of_def BSIZE_def NDIRECT_def)
  obtain u where u: "iappend (num 0) ?a t = Ret () u" "holds_nodes u (add_bytes 0 ?a [(T_DIR, 1, [])])" "mk_host u = mk_host t" "low_same t u"
    using iappend_nodes [OF t(2), of 0 ?a] c by (auto simp: MAXFILE_268 BSIZE_def)
  obtain w where w: "iappend (num 0) ?b u = Ret () w" "holds_nodes w (add_bytes 0 ?b (add_bytes 0 ?a [(T_DIR, 1, [])]))" "mk_host w = mk_host u" "low_same u w"
    using iappend_nodes [OF u(2), of 0 ?b] c by (auto simp: MAXFILE_268 BSIZE_def add_bytes_def)
  have "add_bytes 0 ?b (add_bytes 0 ?a [(T_DIR, 1, [])]) = image_nodes []" by (simp add: add_bytes_def image_nodes_def root_dir_def)
  moreover have "low_same s w" by (rule low_same_trans [OF low_same_trans [OF t(4) u(4)] w(4)])
  ultimately show ?thesis using t(1,3) u(1,3) w(1-3) r by (intro exI [of _ t] exI [of _ u] exI [of _ w]) simp
qed

text \<open>The size of the root directory is brought to a multiple of the block size, and the map is written.\<close>

definition padded :: "byte list \<Rightarrow> byte list" where
  "padded c = c @ replicate ((length c div BSIZE + 1) * BSIZE - length c) 0"

lemma round_up_ge: "n \<le> (n div BSIZE + 1) * BSIZE"
  using div_mult_mod_eq [of n BSIZE] mod_less_divisor [OF BSIZE_pos, of n] unfolding add_mult_distrib by linarith

lemma length_padded: "length (padded c) = (length c div BSIZE + 1) * BSIZE"
  using round_up_ge [of "length c"] by (simp add: padded_def)

lemma fix_root_ok:
  assumes h: "holds_nodes s ns" and n: "0 < length ns" "length (snd (snd (ns ! 0))) < 4000"
  shows "\<exists>t. fix_root (num 0) s = Ret () t \<and> img_ok t \<and> mk_freeblock t = mk_freeblock s \<and> mk_host t = mk_host s \<and> low_same s t \<and>
    file_ok mk_super (seen t) (node_at t (num 0)) \<and> own (seen t) (node_at t (num 0)) = own (seen s) (node_at s (num 0)) \<and>
    bytes_in t (num 0) = padded (snd (snd (ns ! 0))) \<and> d_type (disk_inode mk_super (seen t) (num 0)) = fst (ns ! 0) \<and>
    (\<forall>k<length ns. 0 < k \<longrightarrow> good t (num k) \<and> bytes_in t (num k) = bytes_in s (num k) \<and> own (seen t) (node_at t (num k)) = own (seen s) (node_at s (num k)) \<and>
       disk_inode mk_super (seen t) (num k) = disk_inode mk_super (seen s) (num k))"
proof -
  let ?d = "disk_inode mk_super (seen s) (num 0)"
  note H = holds_nodesD [OF h n(1)]
  have ok: "img_ok s" "length ns < 200" using h by (simp_all add: holds_nodes_def)
  define l where "l = length (bytes_in s (num 0))"
  let ?e = "(l div BSIZE + 1) * BSIZE"
  have l: "l < 4000" "unat (d_size ?d) = l" using n(2) unfolding l_def by (simp_all add: H(5) [symmetric])
  have e: "?e \<le> 4096" using l(1) by (simp add: BSIZE_def)
  have "d_size ?d = of_nat l" by (simp add: l(2) [symmetric])
  moreover have "(of_nat l :: u32) div of_nat BSIZE = of_nat (l div BSIZE)" using l(1) by (intro word_div_BSIZE) simp
  ultimately have w: "(d_size ?d div of_nat BSIZE + 1) * of_nat BSIZE = of_nat ?e" by (simp add: algebra_simps)
  let ?y = "?d\<lparr>d_size := of_nat ?e\<rparr>"
  have g: "file_ok mk_super (seen s) (node ?d)" "\<And>j. l \<le> j \<Longrightarrow> j < MAXFILE * BSIZE \<Longrightarrow> file_byte (seen s) (node ?d) j = 0"
    using H(2) l(2) unfolding good_def by auto
  then have "length (d_addrs ?y) = NDIRECT + 1" by (simp add: file_ok_def)
  from winode_ok [OF ok(1) H(1) this] obtain t where
    t: "winode (num 0) ?y s = Ret () t" "img_ok t" "img_frame s t" "mk_freeblock t = mk_freeblock s" "\<And>c. c \<notin> meta mk_super \<Longrightarrow> seen t c = seen s c"
      "\<And>j. disk_inode mk_super (seen t) j = (if j = num 0 then ?y else disk_inode mk_super (seen s) j)" by auto
  have use: "in_use mk_super (seen t) c \<longleftrightarrow> in_use mk_super (seen s) c" if "unat c < unat (sb_size mk_super)" for c
    using img_okD(6) [OF t(2), of c] img_okD(6) [OF ok(1), of c] that by (simp add: t(4) mk_super_simps)
  have f: "file_ok mk_super (seen t) (node ?d)" "own (seen t) (node ?d) = own (seen s) (node ?d)"
    "\<And>j. j < MAXFILE * BSIZE \<Longrightarrow> file_byte (seen t) (node ?d) j = file_byte (seen s) (node ?d) j"
    using file_ok_cong [OF g(1), of "seen t"] t(5) use by blast+
  have big: "j < MAXFILE * BSIZE" if "j < ?e" for j using that e by (simp add: MAXFILE_268 BSIZE_def)
  have "unat (of_nat ?e :: u32) = ?e" using e by (intro unat_small) simp
  then have sz: "unat (d_size ?y) = ?e" by (simp del: of_nat_mult of_nat_add)
  have le: "l \<le> ?e" by (rule round_up_ge)
  have up: "[0..<?e] = [0..<l] @ [l..<?e]" using upt_add_eq_append [of 0 l "?e - l"] le by (simp only: le0 add_0 le_add_diff_inverse)
  have "map (file_byte (seen t) (node ?d)) [0..<?e] = map (file_byte (seen s) (node ?d)) [0..<?e]" by (intro map_cong refl f(3) big) simp
  then have "contents (seen t) (node ?y) = map (file_byte (seen s) (node ?d)) [0..<?e]" by (simp only: contents_def node_resize node_simps sz)
  also have "\<dots> = map (file_byte (seen s) (node ?d)) [0..<l] @ map (file_byte (seen s) (node ?d)) [l..<?e]"
    by (simp only: up map_append)
  also have "map (file_byte (seen s) (node ?d)) [0..<l] = bytes_in s (num 0)" using l(2) by (simp add: contents_def)
  also have "map (file_byte (seen s) (node ?d)) [l..<?e] = replicate (?e - l) 0" using g(2) big by (intro nth_equalityI) simp_all
  finally have c: "bytes_in t (num 0) = padded (snd (snd (ns ! 0)))" using H(5) by (simp only: t(6) simp_thms if_True padded_def l_def)
  have "good t (num k) \<and> bytes_in t (num k) = bytes_in s (num k) \<and> own (seen t) (node_at t (num k)) = own (seen s) (node_at s (num k)) \<and>
      disk_inode mk_super (seen t) (num k) = disk_inode mk_super (seen s) (num k)" if k: "k < length ns" "0 < k" for k
  proof -
    have "num k \<noteq> num 0" using num_facts(2) [of k 0] k ok(2) by simp
    then have d: "disk_inode mk_super (seen t) (num k) = disk_inode mk_super (seen s) (num k)" by (simp add: t(6))
    then show ?thesis using inode_change_good [OF ok(1) t(2,4,5) holds_nodesD(2) [OF h k(1)]] by blast
  qed
  moreover have "low_same s t" unfolding low_same_def using t(5) mk_low_meta by (meson leD)
  moreover have "fix_root (num 0) s = Ret () t"
    using rinode_ok [OF ok(1) H(1)] t(1) w by (simp add: fix_root_def exec_simps Let_def del: of_nat_mult of_nat_add)
  moreover have "file_ok mk_super (seen t) (node_at t (num 0))" "own (seen t) (node_at t (num 0)) = own (seen s) (node_at s (num 0))"
    "d_type (disk_inode mk_super (seen t) (num 0)) = fst (ns ! 0)" using f(1,2) H(3) by (simp_all add: t(6))
  ultimately show ?thesis using t(2,4) img_frame_select(2) [OF t(3)] c by blast
qed

text \<open>An image of the files \<open>fs\<close>, names with contents, in the notions of the kernel's file system.\<close>

abbreviation img_node :: "(u32 \<Rightarrow> byte list) \<Rightarrow> nat \<Rightarrow> dinode" where
  "img_node v k \<equiv> disk_inode mk_super v (num k)"

definition is_image :: "(u32 \<Rightarrow> byte list) \<Rightarrow> (byte list \<times> byte list) list \<Rightarrow> bool" where
  "is_image v fs \<longleftrightarrow> get_super (v 1) = mk_super \<and> (\<forall>c. 2 \<le> unat c \<longrightarrow> unat c < 32 \<longrightarrow> v c = zeroes) \<and> blocks_ok mk_super v \<and>
     (\<forall>c. unat c < FSSIZE \<longrightarrow> in_use mk_super v c = (unat c < nmeta + cost (image_nodes fs))) \<and>
     (\<forall>k\<le>length fs. file_ok mk_super v (node (img_node v k)) \<and>
        (\<forall>j\<le>length fs. j \<noteq> k \<longrightarrow> own v (node (img_node v j)) \<inter> own v (node (img_node v k)) = {})) \<and>
     d_type (img_node v 0) = T_DIR \<and> contents v (node (img_node v 0)) = padded (root_dir fs) \<and>
     (\<forall>k<length fs. d_type (img_node v (Suc k)) = T_FILE \<and> d_nlink (img_node v (Suc k)) = 1 \<and> contents v (node (img_node v (Suc k))) = snd (fs ! k))"

lemma mk_balloc_ok:
  assumes s: "img_ok s"
  shows "\<exists>t. mk_balloc (unat (mk_freeblock s)) s = Ret () t \<and> img_view (mk_img t) = seen s"
proof -
  let ?m = "used_map (unat (mk_freeblock s))"
  let ?o = "\<lambda>s. s\<lparr>mk_out := (mk_out s @ [(''balloc: first %d blocks have been allocated'' @ newline, [int (unat (mk_freeblock s))])]) @
      [(''balloc: write bitmap block at sector %d'' @ newline, [uint (sb_bmapstart (mk_sb s))])]\<rparr>"
  have o: "img_ok (?o s)" "mk_img (?o s) = mk_img s" using s by (simp_all add: img_ok_def)
  have sb: "sb_bmapstart (mk_sb s) = 45" using img_okD(2) [OF s] by (simp add: mk_super_simps)
  have "unat (mk_freeblock s) < BSIZE * 8" using img_okD(4) [OF s] by (simp add: BSIZE_def)
  then have "mk_balloc (unat (mk_freeblock s)) s = Ret () (put_img 45 ?m (?o s))"
    using wsect_ok [OF o(1), of 45 ?m] by (simp add: mk_balloc_def exec_simps mk_printf_def mk_assert_def sb)
  moreover have "img_view (mk_img (put_img 45 ?m (?o s))) = seen s"
    using img_okD(1) [OF s] by (auto simp: put_img_def img_view_def seen_def fun_eq_iff nth_list_update word_unat_eq_iff)
  ultimately show ?thesis by blast
qed

lemma finished_image:
  assumes h: "holds_nodes s (image_nodes fs)" and b: "get_super (seen s 1) = mk_super" "\<And>c. 2 \<le> unat c \<Longrightarrow> unat c < 32 \<Longrightarrow> seen s c = zeroes"
    and t: "fix_root (num 0) s = Ret () t"
  shows "img_ok t \<and> is_image (seen t) fs"
proof -
  let ?ns = "image_nodes fs"
  have n: "0 < length ?ns" "length ?ns = Suc (length fs)" "?ns ! 0 = (T_DIR, 1, root_dir fs)" by (simp_all add: image_nodes_def)
  have "length fs < 199" using h n(2) by (simp add: holds_nodes_def)
  then have "length (snd (snd (?ns ! 0))) < 4000" by (simp add: n(3) length_root_dir)
  from fix_root_ok [OF h n(1) this] t have T: "img_ok t" "mk_freeblock t = mk_freeblock s" "low_same s t"
    "file_ok mk_super (seen t) (node_at t (num 0))" "own (seen t) (node_at t (num 0)) = own (seen s) (node_at s (num 0))"
    "bytes_in t (num 0) = padded (root_dir fs)" "d_type (img_node (seen t) 0) = T_DIR"
    and F: "\<And>k. k < length ?ns \<Longrightarrow> 0 < k \<Longrightarrow> good t (num k) \<and> bytes_in t (num k) = bytes_in s (num k) \<and>
      own (seen t) (node_at t (num k)) = own (seen s) (node_at s (num k)) \<and> img_node (seen t) k = img_node (seen s) k"
    unfolding n(3) by auto
  have own: "own (seen t) (node_at t (num k)) = own (seen s) (node_at s (num k))" if "k \<le> length fs" for k
    using T(5) F [of k] that n(2) by (cases "k = 0") auto
  have "file_ok mk_super (seen t) (node_at t (num k))" if "k \<le> length fs" for k
    using T(4) F [of k] that n(2) by (cases "k = 0") (auto simp: good_def)
  moreover have "own (seen t) (node_at t (num j)) \<inter> own (seen t) (node_at t (num k)) = {}" if "j \<le> length fs" "k \<le> length fs" "j \<noteq> k" for j k
    using holds_nodesD(6) [OF h, of k j] own that n(2) by simp
  moreover have "d_type (img_node (seen t) (Suc k)) = T_FILE \<and> d_nlink (img_node (seen t) (Suc k)) = 1 \<and> bytes_in t (num (Suc k)) = snd (fs ! k)" if "k < length fs" for k
  proof -
    have k: "Suc k < length ?ns" "?ns ! Suc k = (T_FILE, 1, snd (fs ! k))" using that n(2) by (simp_all add: image_nodes_def)
    have "bytes_in t (num (Suc k)) = bytes_in s (num (Suc k))" "img_node (seen t) (Suc k) = img_node (seen s) (Suc k)" using F [OF k(1)] by blast+
    then show ?thesis using holds_nodesD(3-5) [OF h k(1)] unfolding k(2) by (metis fst_conv snd_conv)
  qed
  moreover have "unat (mk_freeblock t) = nmeta + cost ?ns" using h T(2) by (simp add: holds_nodes_def mkfs_sizes)
  then have "in_use mk_super (seen t) c = (unat c < nmeta + cost ?ns)" if "unat c < FSSIZE" for c
    using img_okD(6) [OF T(1), of c] that by (simp add: FSSIZE_def)
  moreover have "seen t c = zeroes" if "2 \<le> unat c" "unat c < 32" for c using T(3) b(2) that by (simp add: low_same_def)
  moreover have "seen t 1 = seen s 1" using T(3) by (simp add: low_same_def)
  ultimately show ?thesis using T(1,6,7) b(1) img_blocks_ok [OF T(1)] unfolding is_image_def by simp
qed

section \<open>Correctness\<close>

text \<open>The name of a file in the root directory of an image.\<close>

lemma dentry_concat:
  assumes "\<And>k. k < n \<Longrightarrow> length (f k) = 16" "k < n"
  shows "dentry (concat (map f [0..<n]) @ r) k = f k"
  using assms
proof (induction n arbitrary: f k)
  case (Suc n)
  have sp: "concat (map f [0..<Suc n]) = f 0 @ concat (map (\<lambda>i. f (Suc i)) [0..<n])" by (subst upt_conv_Cons) (simp_all add: map_Suc_upt [symmetric] o_def del: upt_Suc)
  have l: "length (f 0) = 16" using Suc.prems(1) by simp
  show ?case
  proof (cases k)
    case 0
    then show ?thesis using l by (simp add: dentry_def sp del: upt_Suc)
  next
    case (Suc j)
    then have "dentry (concat (map f [0..<Suc n]) @ r) k = dentry (concat (map (\<lambda>i. f (Suc i)) [0..<n]) @ r) j"
      using l by (simp add: dentry_def sp del: upt_Suc)
    then show ?thesis using Suc.IH [of "\<lambda>i. f (Suc i)" j] Suc.prems Suc by simp
  qed
qed simp

definition root_name :: "(byte list \<times> byte list) list \<Rightarrow> nat \<Rightarrow> byte list" where
  "root_name fs k = (if k = 0 then str ''.'' else if k = 1 then str ''..'' else fst (fs ! (k - 2)))"

definition root_num :: "nat \<Rightarrow> u32" where
  "root_num k = (if k < 2 then ROOTINO else num (k - 1))"

lemma root_dir_entries: "root_dir fs = concat (map (\<lambda>k. dirent (root_num k) (root_name fs k)) [0..<length fs + 2])"
proof (induction fs rule: rev_induct)
  case Nil
  then show ?case by (simp add: root_dir_def root_num_def root_name_def numeral_2_eq_2)
next
  case (snoc f fs)
  have "root_name (fs @ [f]) k = root_name fs k" if "k < length fs + 2" for k
  proof (cases "k < 2")
    case False
    then have "k - 2 < length fs" using that by simp
    then show ?thesis by (simp add: root_name_def nth_append)
  qed (simp add: root_name_def)
  then have "map (\<lambda>k. dirent (root_num k) (root_name (fs @ [f]) k)) [0..<length fs + 2] = map (\<lambda>k. dirent (root_num k) (root_name fs k)) [0..<length fs + 2]"
    by (intro map_cong refl) (simp del: upt_Suc)
  then show ?case using snoc by (simp add: root_dir_snoc root_num_def root_name_def del: map_eq_conv)
qed

lemma root_entry:
  assumes "k < length fs + 2" "length fs < 199"
  defines "c \<equiv> padded (root_dir fs)"
  shows "dentry c k = dirent (root_num k) (root_name fs k)" "k < entries c" "named c n k \<longleftrightarrow> dname (root_name fs k) = dname n"
    "ucast (de_inum (dentry c k)) = root_num k"
proof -
  have e: "c = concat (map (\<lambda>k. dirent (root_num k) (root_name fs k)) [0..<length fs + 2]) @ replicate ((length (root_dir fs) div BSIZE + 1) * BSIZE - length (root_dir fs)) 0"
    unfolding c_def padded_def root_dir_entries ..
  show d: "dentry c k = dirent (root_num k) (root_name fs k)" unfolding e by (rule dentry_concat) (simp_all only: length_dirent assms(1))
  have "16 * k < length c" using assms(1) round_up_ge [of "length (root_dir fs)"] unfolding c_def length_padded by (simp add: length_root_dir)
  moreover have "length c mod 16 = 0" unfolding c_def length_padded by (simp add: BSIZE_def)
  ultimately show "k < entries c" by (simp add: entries_def) (metis div_mult_mod_eq add_0_right mult.commute mult_less_cancel1)
  have u: "unat (root_num k) = (if k < 2 then 1 else k)" using assms(1,2) num_facts(1) [of "k - 1"] by (simp add: root_num_def ROOTINO_def)
  then have "unat (root_num k) < 2 ^ 16" using assms(1,2) by simp
  then have "unat (ucast (ucast (root_num k) :: u16) :: u32) = unat (root_num k)" by (simp add: unsigned_ucast_eq unsigned_take_bit_eq take_bit_nat_eq_self)
  then have ic: "ucast (ucast (root_num k) :: u16) = root_num k" by (simp only: word_unat_eq_iff)
  then show "ucast (de_inum (dentry c k)) = root_num k" by (simp add: d dirent_fields)
  have "root_num k \<noteq> 0" using u by (auto split: if_splits)
  then have "(ucast (root_num k) :: u16) \<noteq> 0" using ic by auto
  then show "named c n k \<longleftrightarrow> dname (root_name fs k) = dname n" by (simp add: named_def d dirent_fields)
qed

lemma image_finds:
  assumes v: "is_image v fs" and k: "k < length fs" "length fs < 199" and new: "\<forall>j<k + 2. dname (root_name fs j) \<noteq> dname (fst (fs ! k))"
  defines "c \<equiv> contents v (node (img_node v 0))"
  shows "dir_find c (fst (fs ! k)) = Some (k + 2) \<and> ucast (de_inum (dentry c (k + 2))) = num (Suc k)"
proof -
  have c: "c = padded (root_dir fs)" using v by (simp add: c_def is_image_def)
  note r = root_entry [OF _ k(2), folded c]
  have "dname (root_name fs (k + 2)) = dname (fst (fs ! k))" by (simp add: root_name_def)
  then have "dir_find c (fst (fs ! k)) = Some (k + 2)"
    using new k(1) r(2,3) [of "k + 2"] r(3) by (simp add: dir_find_def first_index_Some)
  moreover have "ucast (de_inum (dentry c (k + 2))) = num (Suc k)" using r(4) [of "k + 2"] k(1) by (simp add: root_num_def)
  ultimately show ?thesis ..
qed

text \<open>
  C36. \<open>mkfs\<close> makes a file system that the kernel can use. On a host where its calls succeed, for at most 198 files that fit on the disk, it returns, and the image it has written is in order
  in terms of the kernel's file system: block 1 holds the super block, the log is empty, exactly the blocks below the first free one are marked as used, the
  blocks of different files are different, inode \<open>k + 2\<close> is a file with one link and the contents of the \<open>k\<close>-th file given, and inode 1 is a directory; looking up
  the name of a file in it (without \<open>user/\<close> and a leading underscore) finds the entry with the number of its inode, unless an earlier entry has the same name.
\<close>
theorem mkfs_image:
  assumes "serves (mk_host s)" "mk_freeinode s = 1" "2 \<le> length argv" "length argv \<le> 200" "h_create (mk_host s) (argv ! 1)"
    and "\<forall>arg\<in>set (drop 2 argv). file_arg (mk_host s) arg"
    and "nmeta + cost (image_nodes (files_of (mk_host s) (drop 2 argv))) \<le> FSSIZE"
  shows "\<exists>t. mkfs_main argv s = Ret () t \<and> is_image (img_view (mk_img t)) (files_of (mk_host s) (drop 2 argv)) \<and>
    (\<forall>k<length argv - 2. (\<forall>j<k + 2. dname (root_name (files_of (mk_host s) (drop 2 argv)) j) \<noteq> dname (disk_name (argv ! (k + 2)))) \<longrightarrow>
       (\<exists>e. dir_find (contents (img_view (mk_img t)) (node (img_node (img_view (mk_img t)) 0))) (disk_name (argv ! (k + 2))) = Some e \<and>
          ucast (de_inum (dentry (contents (img_view (mk_img t)) (node (img_node (img_view (mk_img t)) 0))) e)) = num (Suc k)))"
proof -
  let ?h = "mk_host s" and ?args = "drop 2 argv"
  let ?fs = "files_of ?h ?args"
  let ?b = "super_bytes mk_super @ replicate (BSIZE - 32) 0"
  let ?p = "mk_out s @ [(''nmeta %d (boot, super, log blocks %u inode blocks %u, bitmap blocks %u) blocks %d total %d'' @ newline,
    map int [nmeta, nlog, ninodeblocks, nbitmap, nblocks, FSSIZE])]"
  define s0 where "s0 = s\<lparr>mk_img := [], mk_sb := mk_super, mk_out := ?p, mk_freeblock := of_nat nmeta\<rparr>"
  define s1 where "s1 = s0\<lparr>mk_img := replicate FSSIZE zeroes\<rparr>"
  have 0: "serves (mk_host s0)" "mk_img s0 = []" "blank s1" using assms(1,2) by (simp_all add: s0_def s1_def blank_def)
  have z: "kfor [0..<FSSIZE] (\<lambda>i. wsect (of_nat i) zeroes) s0 = Ret () s1" unfolding s1_def by (rule zero_image [OF 0(1,2)])
  note f = first_blocks [OF 0(3)]
  let ?s2 = "put_img 1 ?b s1"
  have h2: "mk_host ?s2 = ?h" "mk_sb s1 = mk_super" by (simp_all add: s1_def s0_def)
  obtain t u w where r: "mk_ialloc T_DIR ?s2 = Ret ROOTINO t" "iappend ROOTINO (dirent ROOTINO (str ''.'')) t = Ret () u"
    "iappend ROOTINO (dirent ROOTINO (str ''..'')) u = Ret () w" "holds_nodes w (image_nodes [])" "mk_host w = ?h" "low_same ?s2 w"
    using root_nodes [OF f(2)] h2(1) by auto
  have l198: "length ([] :: (byte list \<times> byte list) list) + length ?args \<le> 198" using assms(4) by (simp add: le_diff_conv)
  have "46 + cost (image_nodes ([] @ ?fs)) \<le> 2000" using assms(7) by (simp add: mkfs_sizes FSSIZE_def)
  then obtain x where x: "kfor ?args (add_file ROOTINO) w = Ret () x" "holds_nodes x (image_nodes ?fs)" "low_same w x"
    using add_files_nodes [OF r(4,5) assms(6) l198] by auto
  have low: "seen x c = seen ?s2 c" if "0 < unat c" "unat c < 32" for c using low_same_trans [OF r(6) x(3)] that by (simp add: low_same_def)
  have len: "length ?fs < 199" "length (root_dir ?fs) < 4000" "length ?fs = length argv - 2" using assms(4) by (simp_all add: files_of_def length_root_dir)
  obtain y where y: "fix_root (num 0) x = Ret () y" using fix_root_ok [OF x(2)] len(2) by (auto simp: image_nodes_def)
  have b: "get_super (seen x 1) = mk_super" using low [of 1] f(3) by (simp add: get_super_bytes)
  have "img_ok y" "is_image (seen y) ?fs" using finished_image [OF x(2) b _ y] low f(4) by auto
  then obtain q where q: "mk_balloc (unat (mk_freeblock y)) y = Ret () q" "is_image (img_view (mk_img q)) ?fs" using mk_balloc_ok [of y] by auto
  have "ROOTINO = num 0" by (simp add: num_def ROOTINO_def)
  then have "mkfs_main argv s = Ret () q"
    using assms(3,5) z f(1) r(1-3) x(1) y q(1) h2(2) s0_def
    unfolding mkfs_main_def dirent_x by (simp add: exec_simps mk_printf_def mk_assert_def BSIZE_def sizeof_dinode_def)
  moreover have "fst (?fs ! k) = disk_name (argv ! (k + 2))" if "k < length argv - 2" for k using that assms(3) by (simp add: files_of_def add.commute)
  then have "\<exists>e. dir_find (contents (img_view (mk_img q)) (node (img_node (img_view (mk_img q)) 0))) (disk_name (argv ! (k + 2))) = Some e \<and>
      ucast (de_inum (dentry (contents (img_view (mk_img q)) (node (img_node (img_view (mk_img q)) 0))) e)) = num (Suc k)"
    if "k < length argv - 2" "\<forall>j<k + 2. dname (root_name ?fs j) \<noteq> dname (disk_name (argv ! (k + 2)))" for k
    using image_finds [OF q(2), of k] that len by auto
  ultimately show ?thesis using q(2) by blast
qed

text \<open>A host with one file of five bytes, read in one piece.\<close>

definition example_host :: host where
  "example_host = \<lparr>h_create = (\<lambda>_. True), h_seek = (\<lambda>_. True), h_read = (\<lambda>_. True), h_write = (\<lambda>_. True), h_open = (\<lambda>_. Some [[1, 2, 3, 4, 5]])\<rparr>"

definition example_mkfs :: mkfs where
  "example_mkfs = \<lparr>mk_img = [], mk_sb = mk_super, mk_freeinode = 1, mk_freeblock = 0, mk_out = [], mk_host = example_host\<rparr>"

theorem mkfs_image_witness:
  "\<exists>t. mkfs_main [str ''mkfs'', str ''fs.img'', str ''README''] example_mkfs = Ret () t \<and>
     contents (img_view (mk_img t)) (node (img_node (img_view (mk_img t)) 1)) = [1, 2, 3, 4, 5]"
proof -
  let ?argv = "[str ''mkfs'', str ''fs.img'', str ''README'']"
  have h: "serves (mk_host example_mkfs)" "mk_freeinode example_mkfs = 1" "h_create (mk_host example_mkfs) (?argv ! 1)"
    by (simp_all add: example_mkfs_def example_host_def serves_def)
  have fs: "files_of (mk_host example_mkfs) (drop 2 ?argv) = [(disk_name (str ''README''), [1, 2, 3, 4, 5])]"
    by (simp add: files_of_def example_mkfs_def example_host_def)
  have a: "\<forall>arg\<in>set (drop 2 ?argv). file_arg (mk_host example_mkfs) arg"
    by (simp add: file_arg_def example_mkfs_def example_host_def short_name_def str_def SLASH_def MAXFILE_268 BSIZE_def)
  have c: "nmeta + cost (image_nodes (files_of (mk_host example_mkfs) (drop 2 ?argv))) \<le> FSSIZE"
    unfolding fs by (simp add: image_nodes_def cost_def need_def blocks_of_def length_root_dir mkfs_sizes FSSIZE_def BSIZE_def NDIRECT_def)
  have l: "2 \<le> length ?argv" "length ?argv \<le> 200" by simp_all
  obtain t where "mkfs_main ?argv example_mkfs = Ret () t" "is_image (img_view (mk_img t)) (files_of (mk_host example_mkfs) (drop 2 ?argv))"
    using mkfs_image [OF h(1,2) l h(3) a c] by (elim exE conjE) (rule that)
  then show ?thesis unfolding fs by (intro exI [of _ t]) (simp add: is_image_def)
qed

end
