(* ===== verification/Diskqueue.thy ===== *)
theory Diskqueue
  imports Virtio
begin

text \<open>
  Correctness of the disk driver (\<open>kernel/virtio_disk.c\<close>): the descriptors are handed out and given back without loss, and a
  request that the device serves and answers with an interrupt has the effect \<open>bio.c\<close> relies on, which is the program
  \<open>disk_rw\<close> of the buffer cache.

  The device is a parameter, a function on the state of the machine. What the driver relies on is
  \<open>virtio_device\<close>: given a well-formed chain of descriptors in the available ring, the device carries the command out, writes the
  status byte and appends the head of the chain to the used ring.
\<close>

section \<open>Descriptors\<close>

lemma unat_desc: "i < NUM \<Longrightarrow> unat (of_nat i :: u16) = i" "i < NUM \<Longrightarrow> unat (of_nat i :: u32) = i"
  by (simp_all add: NUM_def unat_of_nat)

definition free_descs :: "'z kstate_scheme \<Rightarrow> nat list" where
  "free_descs s = filter (vfree (vdisk s)) [0..<NUM]"

definition took :: "nat list \<Rightarrow> 'z kstate_scheme \<Rightarrow> 'z kstate_scheme" where
  "took l s = upd_vdisk (\<lambda>d. d\<lparr>vfree := (\<lambda>i. vfree d i \<and> i \<notin> set l)\<rparr>) s"

lemma upd_vdisk_twice: "upd_vdisk f (upd_vdisk g s) = upd_vdisk (\<lambda>d. f (g d)) s"
  by (simp add: upd_vdisk_def)

lemma vdisk_upd [simp]: "vdisk (upd_vdisk f s) = f (vdisk s)" "vdisk (woken ch s) = vdisk s"
  by (simp_all add: upd_vdisk_def woken_def)

lemma vdisk_upd_other [simp]:
  "cpus (upd_vdisk f s) = cpus s" "hart (upd_vdisk f s) = hart s" "sie (upd_vdisk f s) = sie s" "disk (upd_vdisk f s) = disk s"
  "disk_writes (upd_vdisk f s) = disk_writes s" "procs (upd_vdisk f s) = procs s"
  by (simp_all add: upd_vdisk_def)

lemma env_vdisk [simp]: "env (upd_vdisk f s) = env s"
  by (simp add: upd_vdisk_def)

lemma procs_free_vdisk [simp]: "procs_free (upd_vdisk f s) = procs_free s" "procs_free (took l s) = procs_free s"
  by (simp_all add: procs_free_def took_def)

lemma woken_vdisk [simp]: "upd_vdisk f (woken ch s) = woken ch (upd_vdisk f s)"
  by (simp add: woken_def upd_vdisk_def cong: if_cong)

lemma woken_twice [simp]: "woken ch (woken ch s) = woken ch s"
  by (intro kstate.equality) (auto simp: woken_def woken_proc_def)

lemma find_filter: "List.find P xs = (case filter P xs of [] \<Rightarrow> None | x # _ \<Rightarrow> Some x)"
  by (induction xs) auto

lemma alloc_desc_eq:
  "alloc_desc s = (case free_descs s of [] \<Rightarrow> Ret None s | i # _ \<Rightarrow> Ret (Some i) (took [i] s))"
proof -
  have *: "first_index (vfree (vdisk s)) NUM = (case free_descs s of [] \<Rightarrow> None | i # _ \<Rightarrow> Some i)"
    by (simp add: first_index_def find_filter free_descs_def)
  have "upd_vdisk (\<lambda>d. d\<lparr>vfree := (vfree d)(i := False)\<rparr>) s = took [i] s" for i
    by (intro kstate.equality vdisk.equality) (auto simp: took_def upd_vdisk_def fun_eq_iff)
  then show ?thesis unfolding alloc_desc_def by (simp add: exec_simps * split: list.splits)
qed

lemma free_desc_eq:
  "procs_free s \<Longrightarrow> i < NUM \<Longrightarrow> \<not> vfree (vdisk s) i \<Longrightarrow>
     free_desc i s = Ret () (woken (Some ChDiskFree) (upd_vdisk (clear_desc i) s))"
  by (simp add: free_desc_def exec_simps wakeup_eq)

lemma free_descs_took: "free_descs (took l s) = filter (\<lambda>i. i \<notin> set l) (free_descs s)"
  by (simp add: free_descs_def took_def)

lemma took_took: "took k (took l s) = took (l @ k) s"
  by (simp add: took_def upd_vdisk_def conj_assoc)

lemma free_descs_set: "set (free_descs s) = {i. i < NUM \<and> vfree (vdisk s) i}"
  by (auto simp: free_descs_def)

lemma distinct_free_descs: "distinct (free_descs s)"
  by (simp add: free_descs_def)

text \<open>Giving descriptors back in turn: their contents are cleared, and whoever waits for a descriptor is awake.\<close>

definition gave :: "nat list \<Rightarrow> 'z kstate_scheme \<Rightarrow> 'z kstate_scheme" where
  "gave l s = (if l = [] then s else woken (Some ChDiskFree) (upd_vdisk (fold clear_desc l) s))"

lemma clear_desc_free [simp]: "vfree (clear_desc i d) = (vfree d)(i := True)"
  by (simp add: clear_desc_def)

lemma kfor_free_desc:
  assumes "procs_free s" "distinct l" "set l \<subseteq> {..<NUM}" "\<forall>i\<in>set l. \<not> vfree (vdisk s) i"
  shows "kfor l free_desc s = Ret () (gave l s)"
  using assms
proof (induction l arbitrary: s)
  case Nil
  then show ?case by (simp add: gave_def exec_simps)
next
  case (Cons i l)
  let ?t = "woken (Some ChDiskFree) (upd_vdisk (clear_desc i) s)"
  have "kfor l free_desc ?t = Ret () (gave l ?t)"
    using Cons.prems by (intro Cons.IH) auto
  then show ?case
    using Cons.prems by (simp add: exec_simps free_desc_eq gave_def upd_vdisk_twice comp_def)
qed

lemma alloc_descs_eq:
  assumes "procs_free s" "distinct idx" "set idx \<subseteq> {..<NUM}" "\<forall>i\<in>set idx. \<not> vfree (vdisk s) i"
  shows "alloc_descs n idx s =
    (if n \<le> length (free_descs s) then Ret (Some (idx @ take n (free_descs s))) (took (take n (free_descs s)) s)
     else Ret None (gave (idx @ free_descs s) (took (free_descs s) s)))"
  using assms
proof (induction n arbitrary: idx s)
  case 0
  then show ?case by (simp add: exec_simps took_def upd_vdisk_def)
next
  case (Suc n)
  show ?case
  proof (cases "free_descs s")
    case Nil
    then show ?thesis using Suc.prems
      by (simp add: exec_simps alloc_desc_eq kfor_free_desc) (simp add: took_def upd_vdisk_def)
  next
    case (Cons i l)
    have i: "i < NUM" "vfree (vdisk s) i" "i \<notin> set l" "\<And>j. j \<in> set l \<Longrightarrow> j < NUM"
      using Cons distinct_free_descs [of s] free_descs_set [of s] by auto
    then have "filter (\<lambda>j. j \<noteq> i) l = l" by (auto intro: filter_True)
    then have "free_descs (took [i] s) = l" by (simp add: free_descs_took Cons)
    moreover have "alloc_descs n (idx @ [i]) (took [i] s) =
        (if n \<le> length (free_descs (took [i] s))
         then Ret (Some ((idx @ [i]) @ take n (free_descs (took [i] s)))) (took (take n (free_descs (took [i] s))) (took [i] s))
         else Ret None (gave ((idx @ [i]) @ free_descs (took [i] s)) (took (free_descs (took [i] s)) (took [i] s))))"
      using Suc.prems i by (intro Suc.IH) (auto simp: took_def)
    ultimately show ?thesis by (simp add: exec_simps alloc_desc_eq Cons took_took)
  qed
qed

lemma alloc3_desc_eq:
  "procs_free s \<Longrightarrow> alloc3_desc s =
     (if 3 \<le> length (free_descs s) then Ret (Some (take 3 (free_descs s))) (took (take 3 (free_descs s)) s)
      else Ret None (gave (free_descs s) (took (free_descs s) s)))"
  using alloc_descs_eq [of s "[]" 3] by (simp add: alloc3_desc_def)

lemma vfree_fold_clear: "vfree (fold clear_desc l d) = (\<lambda>i. i \<in> set l \<or> vfree d i)"
  by (induction l arbitrary: d) (auto simp: fun_eq_iff)

lemma vq_desc_fold_clear: "i \<notin> set l \<Longrightarrow> vq_desc (fold clear_desc l d) i = vq_desc d i"
  by (induction l arbitrary: d) (auto simp: clear_desc_def)

lemma fold_clear_rest: "fold clear_desc l d = d\<lparr>vq_desc := vq_desc (fold clear_desc l d), vfree := vfree (fold clear_desc l d)\<rparr>"
proof (induction l arbitrary: d)
  case Nil
  then show ?case by simp
next
  case (Cons i l)
  show ?case by (subst fold_simps, subst Cons) (simp add: clear_desc_def)
qed

text \<open>
  Descriptors are neither lost nor handed out twice. \<open>alloc3_desc\<close> takes the three lowest free descriptors
  when there are three, and marks exactly these as in use. When there are fewer it returns -1 and exactly the descriptors that were free
  before are free afterwards, the ones in use are untouched, and nothing else changes but that processes
  waiting for a descriptor may have been made runnable.
\<close>
theorem alloc3_desc_spec:
  assumes "procs_free s"
  shows "case filter (vfree (vdisk s)) [0..<NUM] of
      i0 # i1 # i2 # rest \<Rightarrow> alloc3_desc s = Ret (Some [i0, i1, i2])
        (s\<lparr>vdisk := (vdisk s)\<lparr>vfree := (\<lambda>i. vfree (vdisk s) i \<and> i \<noteq> i0 \<and> i \<noteq> i1 \<and> i \<noteq> i2)\<rparr>\<rparr>)
    | few \<Rightarrow> \<exists>d. alloc3_desc s = Ret None (if few = [] then s else woken (Some ChDiskFree)
          (s\<lparr>vdisk := (vdisk s)\<lparr>vq_desc := d\<rparr>\<rparr>)) \<and> (\<forall>i. i \<notin> set few \<longrightarrow> d i = vq_desc (vdisk s) i)"
proof -
  let ?l = "free_descs s"
  have given: "\<exists>d. gave ?l (took ?l s) = (if ?l = [] then s else woken (Some ChDiskFree) (s\<lparr>vdisk := (vdisk s)\<lparr>vq_desc := d\<rparr>\<rparr>)) \<and>
      (\<forall>i. i \<notin> set ?l \<longrightarrow> d i = vq_desc (vdisk s) i)"
  proof (intro exI conjI allI impI)
    let ?c = "fold clear_desc ?l (vdisk (took ?l s))"
    have "vfree ?c = vfree (vdisk s)" by (auto simp: vfree_fold_clear took_def free_descs_set)
    then have "?c = (vdisk s)\<lparr>vq_desc := vq_desc ?c\<rparr>"
      by (subst fold_clear_rest) (simp add: took_def)
    then show "gave ?l (took ?l s) = (if ?l = [] then s else woken (Some ChDiskFree) (s\<lparr>vdisk := (vdisk s)\<lparr>vq_desc := vq_desc ?c\<rparr>\<rparr>))"
      by (simp add: gave_def took_def upd_vdisk_def)
    show "vq_desc ?c i = vq_desc (vdisk s) i" if "i \<notin> set ?l" for i
      using that by (simp add: vq_desc_fold_clear took_def)
  qed
  show ?thesis unfolding free_descs_def [symmetric] using alloc3_desc_eq [OF assms] given
    by (auto simp: took_def upd_vdisk_def split: list.splits)
qed

definition disk_world :: "nat list \<Rightarrow> kworld" where
  "disk_world l = upd_vdisk (\<lambda>d. d\<lparr>vfree := (\<lambda>i. i \<in> set l)\<rparr>) (zero_world example_syms)"

theorem alloc3_desc_spec_witness:
  "\<exists>s t. alloc3_desc (disk_world [1, 4, 5, 6]) = Ret (Some [1, 4, 5]) s \<and> alloc3_desc (disk_world [2, 7]) = Ret None t \<and>
     (\<forall>i. vfree (vdisk s) i \<longleftrightarrow> i = 6) \<and> (\<forall>i. vfree (vdisk t) i \<longleftrightarrow> i \<in> {2, 7})"
proof -
  have free: "procs_free (disk_world l)" for l
    unfolding disk_world_def procs_free_vdisk by (simp add: procs_free_def settled_def lock_free_def zero_world_def)
  have v: "vfree (vdisk (disk_world l)) = (\<lambda>i. i \<in> set l)" for l by (simp add: disk_world_def)
  have "[0..<NUM] = [0, 1, 2, 3, 4, 5, 6, 7]" by (simp add: NUM_def upt_rec)
  then have l: "filter (vfree (vdisk (disk_world [1, 4, 5, 6]))) [0..<NUM] = [1, 4, 5, 6]"
    "filter (vfree (vdisk (disk_world [2, 7]))) [0..<NUM] = [2, 7]" by (simp_all add: v)
  show ?thesis
    using alloc3_desc_spec [OF free, of "[1, 4, 5, 6]"] alloc3_desc_spec [OF free, of "[2, 7]"] unfolding l
    by (auto simp: v)
qed

section \<open>The device\<close>

text \<open>
  A request as the specification of the device wants it: the newest entry of the available ring is the head of a chain of three
  descriptors, for the command, the data of a buffer and the status byte, each with the direction that fits the command.
\<close>

definition request_at :: "vdisk \<Rightarrow> nat \<Rightarrow> nat \<Rightarrow> bool" where
  "request_at d h b \<longleftrightarrow>
     h < NUM \<and> avail_ring d (unat (avail_idx d - 1) mod NUM) = of_nat h \<and>
     (let c = vq_desc d h; x = vq_desc d (unat (vd_next c)); st = vq_desc d (unat (vd_next x)); w = vr_type (vops d h) in
       vd_addr c = DmaOp h \<and> vd_len c = 16 \<and> vd_flags c = VRING_DESC_F_NEXT \<and>
       vd_addr x = DmaData b \<and> vd_len x = of_nat BSIZE \<and> w \<in> {VIRTIO_BLK_T_IN, VIRTIO_BLK_T_OUT} \<and>
       vd_flags x = (if w = VIRTIO_BLK_T_OUT then 0 else VRING_DESC_F_WRITE) OR VRING_DESC_F_NEXT \<and>
       vd_addr st = DmaStatus h \<and> vd_len st = 1 \<and> vd_flags st = VRING_DESC_F_WRITE)"

text \<open>The command carried out: a block of two sectors goes to the disk or comes from it.\<close>

definition transferred :: "nat \<Rightarrow> nat \<Rightarrow> 'z kstate_scheme \<Rightarrow> 'z kstate_scheme" where
  "transferred h b u =
     (let r = vops (vdisk u) h; n = ucast (drop_bit 1 (vr_sector r)) :: u32 in
      if vr_type r = VIRTIO_BLK_T_OUT
      then u\<lparr>disk := (disk u)(n := b_data (bufs u b)), disk_writes := disk_writes u @ [(n, b_data (bufs u b))]\<rparr>
      else upd_buf b (\<lambda>x. x\<lparr>b_data := disk u n\<rparr>) u)"

definition answered :: "nat \<Rightarrow> vdisk \<Rightarrow> vdisk" where
  "answered h d = d\<lparr>info_status := (info_status d)(h := 0),
     used_ring := (used_ring d)(unat (dev_used_idx d) mod NUM := of_nat h), dev_used_idx := dev_used_idx d + 1\<rparr>"

definition virtio_device :: "(kworld \<Rightarrow> kworld) \<Rightarrow> bool" where
  "virtio_device dev \<longleftrightarrow> (\<forall>u h b. request_at (vdisk u) h b \<longrightarrow> dev u = upd_vdisk (answered h) (transferred h b u))"

section \<open>The interrupt\<close>

definition acked :: "vdisk \<Rightarrow> vdisk" where
  "acked d = d\<lparr>mmio := (mmio d)(VIRTIO_MMIO_INTERRUPT_ACK := mmio d VIRTIO_MMIO_INTERRUPT_STATUS AND 3), used_idx := used_idx d + 1\<rparr>"

definition finished :: "nat \<Rightarrow> 'z kstate_scheme \<Rightarrow> 'z kstate_scheme" where
  "finished b u = woken (Some (ChBuf b)) (upd_buf b (\<lambda>x. x\<lparr>b_disk := False\<rparr>) (upd_vdisk acked u))"

lemma upd_buf_vdisk [simp]: "vdisk (upd_buf b f s) = vdisk s" "bufs (upd_vdisk g s) = bufs s"
  "procs_free (upd_buf b f s) = procs_free s"
  by (simp_all add: upd_buf_def upd_vdisk_def procs_free_def)

lemma upd_vdisk_buf [simp]: "upd_vdisk g (upd_buf b f s) = upd_buf b f (upd_vdisk g s)"
  by (simp add: upd_buf_def upd_vdisk_def)

lemma finished_simps [simp]: "vdisk (finished b u) = acked (vdisk u)"
  "settled (finished b u) = settled u" "lock_free lk (finished b u) = lock_free lk u"
  by (simp_all add: finished_def)

lemma virtio_disk_intr_one:
  assumes "procs_free u" "lock_free VdiskLock u" "dev_used_idx (vdisk u) = used_idx (vdisk u) + 1"
    and "unat (used_ring (vdisk u) (unat (used_idx (vdisk u)) mod NUM)) = h"
    and "info_status (vdisk u) h = 0" "info_b (vdisk u) h = Some b"
  shows "virtio_disk_intr u = Ret () (finished b u)"
proof -
  let ?ack = "\<lambda>d :: vdisk. d\<lparr>mmio := (mmio d)(VIRTIO_MMIO_INTERRUPT_ACK := mmio (vdisk u) VIRTIO_MMIO_INTERRUPT_STATUS AND 3)\<rparr>"
  let ?v = "take_lock VdiskLock (upd_vdisk ?ack u)"
  let ?w = "take_lock VdiskLock (finished b u)"
  have "settled u" using assms(1) by (simp add: procs_free_def)
  moreover have "procs_free (take_lock VdiskLock (upd_buf b f (upd_vdisk g u)))" for f g using assms(1) by simp
  moreover have "upd_vdisk (\<lambda>d. d\<lparr>used_idx := used_idx d + 1\<rparr>) (woken (Some (ChBuf b)) (upd_buf b (\<lambda>x. x\<lparr>b_disk := False\<rparr>) ?v)) = ?w"
    by (simp add: finished_def upd_vdisk_twice) (simp add: upd_vdisk_def acked_def)
  ultimately show ?thesis
    unfolding virtio_disk_intr_def
    apply (simp add: exec_simps lock_exec assms get_R_def set_R_def)
    apply (subst kloop_round [where l' = "()" and s' = ?w])
     apply (simp add: exec_simps assms wakeup_eq)
    apply (subst kloop_done [where r = "()" and s' = ?w])
     apply (simp add: exec_simps assms acked_def)
    apply (simp add: lock_exec assms)
    done
qed

section \<open>A request and its completion\<close>

definition posted :: "nat \<Rightarrow> bool \<Rightarrow> nat \<Rightarrow> nat \<Rightarrow> nat \<Rightarrow> 'z kstate_scheme \<Rightarrow> 'z kstate_scheme" where
  "posted b w i0 i1 i2 s = upd_buf b (\<lambda>x. x\<lparr>b_disk := True\<rparr>) (upd_vdisk (\<lambda>d. (post_request b i0
     (format_request b w (ucast (b_blockno (bufs s b) * 2)) i0 i1 i2 d))\<lparr>mmio := (mmio d)(VIRTIO_MMIO_QUEUE_NOTIFY := 0)\<rparr>)
     (took [i0, i1, i2] s))"

lemma request_posted:
  assumes "distinct [i0, i1, i2]" "i0 < NUM" "i1 < NUM" "i2 < NUM"
  shows "request_at (vdisk (posted b w i0 i1 i2 s)) i0 b"
  using assms
  by (simp add: request_at_def posted_def post_request_def format_request_def set_desc_def Let_def took_def
      VIRTIO_BLK_T_IN_def VIRTIO_BLK_T_OUT_def unat_desc)

text \<open>Giving the three descriptors of a finished request back.\<close>

lemma free_chain_three:
  assumes "procs_free s" "distinct [i0, i1, i2]" "i0 < NUM" "i1 < NUM" "i2 < NUM"
    and "\<not> vfree (vdisk s) i0" "\<not> vfree (vdisk s) i1" "\<not> vfree (vdisk s) i2"
    and "vd_next (vq_desc (vdisk s) i0) = of_nat i1" "vd_next (vq_desc (vdisk s) i1) = of_nat i2"
    and "vd_flags (vq_desc (vdisk s) i0) AND VRING_DESC_F_NEXT \<noteq> 0" "vd_flags (vq_desc (vdisk s) i1) AND VRING_DESC_F_NEXT \<noteq> 0"
    and "vd_flags (vq_desc (vdisk s) i2) AND VRING_DESC_F_NEXT = 0"
  shows "free_chain i0 s = Ret () (gave [i0, i1, i2] s)"
proof -
  have u: "unat (of_nat i1 :: u16) = i1" "unat (of_nat i2 :: u16) = i2"
    using assms by (simp_all add: unat_desc)
  have cl: "vq_desc (clear_desc i d) j = vq_desc d j" if "j \<noteq> i" for i j d using that by (simp add: clear_desc_def)
  show ?thesis
    unfolding free_chain_def
    apply (subst kloop_round [where l' = i1 and s' = "gave [i0] s"])
    using assms apply (simp add: exec_simps free_desc_eq u gave_def)
    apply (subst kloop_round [where l' = i2 and s' = "gave [i0, i1] s"])
    using assms apply (simp add: exec_simps free_desc_eq u gave_def cl upd_vdisk_twice comp_def)
    apply (subst kloop_done [where r = "()" and s' = "gave [i0, i1, i2] s"])
    using assms by (simp_all add: exec_simps free_desc_eq u gave_def cl upd_vdisk_twice comp_def)
qed

text \<open>What happens while the process waits: the device serves the request, and some processor takes the interrupt.\<close>

definition serves_next :: "(kworld \<Rightarrow> kworld) \<Rightarrow> (kstate \<Rightarrow> kstate) \<Rightarrow> bool" where
  "serves_next dev f \<longleftrightarrow> (\<forall>u fs h b. procs_free u \<and> lock_free VdiskLock u \<and> request_at (vdisk u) h b \<and>
     info_b (vdisk u) h = Some b \<and> used_idx (vdisk u) = dev_used_idx (vdisk u) \<longrightarrow>
     virtio_disk_intr ((dev u)\<lparr>env := fs\<rparr>) = Ret () (after_others f fs u))"

lemma transferred_simps [simp]:
  "vdisk (transferred h b u) = vdisk u" "procs_free (transferred h b u) = procs_free u"
  "lock_free lk (transferred h b u) = lock_free lk u" "procs (transferred h b u) = procs u"
  "cpus (transferred h b u) = cpus u" "hart (transferred h b u) = hart u" "settled (transferred h b u) = settled u"
  by (simp_all add: transferred_def Let_def upd_buf_def procs_free_def)

lemma asleep_simps [simp]:
  "vdisk (asleep p ch s) = vdisk s" "bufs (asleep p ch s) = bufs s" "disk (asleep p ch s) = disk s"
  "disk_writes (asleep p ch s) = disk_writes s" "lock_free lk (asleep p ch s) = lock_free lk s"
  "settled (asleep p ch s) = settled s" "procs_free (asleep p ch s) = procs_free s" "hart (asleep p ch s) = hart s"
  "c_proc (cpus (asleep p ch s) (hart s)) = None" "c_noff (cpus (asleep p ch s) (hart s)) = c_noff (mycpu_of s)"
  by (simp_all add: asleep_def off_cpu_def procs_free_def) (simp_all add: upd_cpu_def upd_proc_def)

lemma env_asleep [simp]: "env (asleep p ch s) = env s"
  by (simp add: asleep_def off_cpu_def upd_cpu_def upd_proc_def)

lemma procs_free_env [simp]: "procs_free (env_update e s) = procs_free s"
  by (simp add: procs_free_def)

lemma intr_after_device:
  assumes "procs_free u" "lock_free VdiskLock u" "request_at (vdisk u) h b"
    and "info_b (vdisk u) h = Some b" "used_idx (vdisk u) = dev_used_idx (vdisk u)"
    and v: "v = (upd_vdisk (answered h) (transferred h b u))\<lparr>env := fs\<rparr>"
  shows "virtio_disk_intr v = Ret () (finished b v)"
proof -
  have "h < NUM" using assms(3) by (simp add: request_at_def)
  then show ?thesis unfolding v
    using assms by (intro virtio_disk_intr_one) (simp_all add: answered_def unat_desc)
qed

lemma interrupt_effect:
  assumes "virtio_device dev" "serves_next dev f" "procs_free u" "lock_free VdiskLock u" "request_at (vdisk u) h b"
    and "info_b (vdisk u) h = Some b" "used_idx (vdisk u) = dev_used_idx (vdisk u)"
  shows "after_others f fs u = finished b ((upd_vdisk (answered h) (transferred h b u))\<lparr>env := fs\<rparr>)"
proof -
  let ?v = "(upd_vdisk (answered h) (transferred h b u))\<lparr>env := fs\<rparr>"
  have "virtio_disk_intr ?v = Ret () (finished b ?v)"
    using assms by (intro intr_after_device [OF _ _ _ _ _ refl])
  moreover have "virtio_disk_intr ((dev u)\<lparr>env := fs\<rparr>) = Ret () (after_others f fs u)"
    using assms unfolding serves_next_def by blast
  moreover have "dev u = upd_vdisk (answered h) (transferred h b u)"
    using assms unfolding virtio_device_def by blast
  ultimately show ?thesis by simp
qed

lemma posted_simps [simp]:
  "lock_free lk (posted b w i0 i1 i2 s) = lock_free lk s" "procs_free (posted b w i0 i1 i2 s) = procs_free s"
  "settled (posted b w i0 i1 i2 s) = settled s" "procs (posted b w i0 i1 i2 s) = procs s" "cpus (posted b w i0 i1 i2 s) = cpus s"
  "hart (posted b w i0 i1 i2 s) = hart s" "disk (posted b w i0 i1 i2 s) = disk s" "sie (posted b w i0 i1 i2 s) = sie s"
  "disk_writes (posted b w i0 i1 i2 s) = disk_writes s"
  "bufs (posted b w i0 i1 i2 s) = (bufs s)(b := (bufs s b)\<lparr>b_disk := True\<rparr>)"
  by (simp_all add: posted_def took_def procs_free_def) (simp_all add: upd_buf_def upd_vdisk_def)

lemma env_posted [simp]: "env (posted b w i0 i1 i2 s) = env s"
  by (simp add: posted_def took_def upd_buf_def upd_vdisk_def)

text \<open>The state when the process is runnable again.\<close>

definition served :: "nat \<Rightarrow> nat \<Rightarrow> bool \<Rightarrow> nat \<Rightarrow> nat \<Rightarrow> nat \<Rightarrow> (kstate \<Rightarrow> kstate) list \<Rightarrow> kworld \<Rightarrow> kworld" where
  "served p b w i0 i1 i2 fs s =
     finished b ((upd_vdisk (answered i0) (transferred i0 b (asleep p (ChBuf b) (posted b w i0 i1 i2 s))))\<lparr>env := fs\<rparr>)"

lemma served_simps:
  assumes "in_proc p s" "p < NPROC" and t: "t = served p b w i0 i1 i2 fs s"
  shows "lock_free lk t = lock_free lk s" "settled t" "hart t = hart s" "c_noff (mycpu_of t) = 0" "env t = fs"
    "p_state (procs t p) = RUNNABLE" "\<not> b_disk (bufs t b)" "vdisk t = acked (answered i0 (vdisk (posted b w i0 i1 i2 s)))"
  unfolding t served_def using assms(1,2)
  by (simp_all add: finished_def in_proc_def visitable_def)
    (simp_all add: woken_def upd_buf_def upd_vdisk_def woken_proc_def asleep_def off_cpu_def upd_cpu_def upd_proc_def)

text \<open>The call up to the sleep, in which the request is served, and the rest.\<close>

lemma wait_for_disk:
  assumes "in_proc p s" "procs_free s" "p < NPROC" "lock_free VdiskLock s" "distinct [i0, i1, i2]" "i0 < NUM" "i1 < NUM" "i2 < NUM"
    and "used_idx (vdisk s) = dev_used_idx (vdisk s)" "env s = f # fs" "virtio_device dev" "serves_next dev f"
  shows "sleep (ChBuf b) VdiskLock (take_lock VdiskLock (posted b w i0 i1 i2 s)) =
    Ret () (take_lock VdiskLock (woke_up p (sie s) (served p b w i0 i1 i2 fs s)))"
proof -
  let ?P = "posted b w i0 i1 i2 s" and ?u = "asleep p (ChBuf b) (posted b w i0 i1 i2 s)" and ?t = "served p b w i0 i1 i2 fs s"
  have d: "info_b (vdisk ?P) i0 = Some b" "used_idx (vdisk ?P) = dev_used_idx (vdisk ?P)"
    using assms by (simp_all add: posted_def took_def post_request_def format_request_def set_desc_def Let_def)
  have others: "after_others f fs ?u = ?t"
    unfolding served_def using assms d request_posted [OF assms(5-8)] by (intro interrupt_effect) simp_all
  note t = served_simps [OF assms(1,3) refl]
  have "wakes_to p ?u ?t"
    by (rule wakes_now [of _ f fs]) (use assms t others in \<open>simp_all add: visitable_def in_proc_def\<close>)
  then have "sleep (ChBuf b) VdiskLock (take_lock VdiskLock ?P) = Ret () (take_lock VdiskLock (woke_up p (sie ?P) ?t))"
    using assms t by (intro sleep_runs) (simp_all add: in_proc_def visitable_def)
  then show ?thesis by simp
qed

lemma woke_up_simps [simp]:
  "vdisk (woke_up p on t) = vdisk t" "bufs (woke_up p on t) = bufs t" "disk (woke_up p on t) = disk t"
  "disk_writes (woke_up p on t) = disk_writes t" "lock_free lk (woke_up p on t) = lock_free lk t"
  "procs_free (woke_up p on t) \<longleftrightarrow> settled (woke_up p on t) \<and> (\<forall>p<NPROC. lock_free (ProcLock p) t)"
  "hart (woke_up p on t) = hart t" "sie (woke_up p on t) = on" "c_proc (cpus (woke_up p on t) (hart t)) = Some p"
  "c_noff (cpus (woke_up p on t) (hart t)) = c_noff (mycpu_of t)"
  by (simp_all add: woke_up_def procs_free_def) (simp_all add: resumed_def picked_def upd_cpu_def upd_proc_def)

lemma env_woke_up [simp]: "env (woke_up p on t) = env t"
  by (simp add: woke_up_def resumed_def picked_def upd_cpu_def upd_proc_def)

lemma gave_simps [simp]:
  "settled (gave l s) = settled s" "lock_free lk (gave l s) = lock_free lk s" "procs_free (gave l s) = procs_free s"
  "bufs (gave l s) = bufs s" "disk (gave l s) = disk s" "disk_writes (gave l s) = disk_writes s" "hart (gave l s) = hart s"
  "cpus (gave l s) = cpus s" "sie (gave l s) = sie s" "vdisk (gave l s) = fold clear_desc l (vdisk s)"
  by (simp_all add: gave_def) (simp_all add: woken_def upd_vdisk_def)

lemma env_gave [simp]: "env (gave l s) = env s"
  by (simp add: gave_def woken_def upd_vdisk_def)

lemma gave_take [simp]: "gave l (take_lock lk s) = take_lock lk (gave l s)"
  by (simp add: gave_def)

lemma settled_woke_up: "c_noff (mycpu_of t) = 0 \<Longrightarrow> settled (woke_up p on t)"
  by (simp add: woke_up_def settled_resumed)

lemma free_served:
  assumes "in_proc p s" "procs_free s" "p < NPROC" "distinct [i0, i1, i2]" "i0 < NUM" "i1 < NUM" "i2 < NUM"
    and r: "r = upd_vdisk (\<lambda>d. d\<lparr>info_b := (info_b d)(i0 := None)\<rparr>) (woke_up p on (served p b w i0 i1 i2 fs s))"
  shows "free_chain i0 (take_lock VdiskLock r) = Ret () (take_lock VdiskLock (gave [i0, i1, i2] r))"
proof -
  note t = served_simps [OF assms(1,3) refl]
  have "procs_free r" unfolding r using assms t by (simp add: settled_woke_up procs_free_def)
  then have "free_chain i0 (take_lock VdiskLock r) = Ret () (gave [i0, i1, i2] (take_lock VdiskLock r))"
    using assms(4-7) t unfolding r
    by (intro free_chain_three) (simp_all add: acked_def answered_def posted_def took_def post_request_def format_request_def
        set_desc_def Let_def VRING_DESC_F_NEXT_def VRING_DESC_F_WRITE_def)
  then show ?thesis by simp
qed

lemma virtio_disk_rw_eq:
  assumes "in_proc p s" "procs_free s" "p < NPROC" "lock_free VdiskLock s" "free_descs s = i0 # i1 # i2 # rest"
    and "used_idx (vdisk s) = dev_used_idx (vdisk s)" "env s = f # fs" "virtio_device dev" "serves_next dev f"
  shows "virtio_disk_rw b w s = Ret () (gave [i0, i1, i2]
    (upd_vdisk (\<lambda>d. d\<lparr>info_b := (info_b d)(i0 := None)\<rparr>) (woke_up p (sie s) (served p b w i0 i1 i2 fs s))))"
proof -
  let ?t = "served p b w i0 i1 i2 fs s" and ?P = "posted b w i0 i1 i2 s"
  have idx: "distinct [i0, i1, i2]" "i0 < NUM" "i1 < NUM" "i2 < NUM"
    using assms(5) distinct_free_descs [of s] free_descs_set [of s] by auto
  have "take 3 (i0 # i1 # i2 # rest) = [i0, i1, i2]" by (simp add: numeral_3_eq_3)
  then have alloc: "alloc3_desc (take_lock VdiskLock s) = Ret (Some [i0, i1, i2]) (take_lock VdiskLock (took [i0, i1, i2] s))"
    using alloc3_desc_eq [of "take_lock VdiskLock s"] assms by (simp add: free_descs_def) (simp add: took_def)
  have post: "upd_buf b (b_disk_update (\<lambda>_. True)) (upd_vdisk (\<lambda>d. d\<lparr>mmio := (mmio d)(VIRTIO_MMIO_QUEUE_NOTIFY := 0)\<rparr>)
     (upd_vdisk (post_request b i0) (upd_vdisk (format_request b w (ucast (b_blockno (bufs s b) * 2)) i0 i1 i2) (took [i0, i1, i2] s)))) = ?P"
    by (simp add: posted_def upd_vdisk_twice) (simp add: post_request_def format_request_def set_desc_def Let_def)
  note t = served_simps [OF assms(1,3) refl]
  note rest = wait_for_disk [OF assms(1-4) idx assms(6-9)] free_served [OF assms(1-3) idx refl]
  have ok: "b_disk (bufs ?P b)" "settled s" using assms by (simp_all add: procs_free_def)
  have "settled (woke_up p (sie s) ?t)" by (rule settled_woke_up) (rule t)
  then show ?thesis
  unfolding virtio_disk_rw_def
    apply (simp add: exec_simps lock_exec assms)
    apply (subst kloop_done)
     apply (simp add: exec_simps alloc)
    apply (simp add: exec_simps set_R_def post BSIZE_def)
    apply (subst kloop_round [where l' = "()" and s' = "take_lock VdiskLock (woke_up p (sie s) ?t)"])
     apply (simp add: exec_simps rest ok)
    apply (subst kloop_done [where r = "()" and s' = "take_lock VdiskLock (woke_up p (sie s) ?t)"])
     apply (simp add: exec_simps t)
    apply (simp add: exec_simps lock_exec rest t assms)
    done
qed

lemma block_of_sector: "unat n < 2 ^ 31 \<Longrightarrow> ucast (drop_bit 1 (ucast (n * 2 :: u32) :: addr)) = (n :: u32)"
  by (rule word_unat_eq_iff [THEN iffD2])
     (simp add: unsigned_ucast_eq unat_drop_bit_eq unat_word_ariths take_bit_eq_mod drop_bit_eq_div)

lemma buf_settled:
  "\<not> b_disk x \<Longrightarrow> x\<lparr>b_data := d, b_disk := False\<rparr> = x\<lparr>b_data := d\<rparr>" "x\<lparr>b_data := b_data x\<rparr> = (x :: buf)"
  "\<not> b_disk x \<Longrightarrow> x\<lparr>b_disk := False\<rparr> = x"
  by (cases x; simp)+

lemma served_blocks:
  assumes "unat (b_blockno (bufs s b)) < 2 ^ 31" and t: "t = served p b w i0 i1 i2 fs s" and n: "n = b_blockno (bufs s b)"
  shows "disk t = (if w then (disk s)(n := b_data (bufs s b)) else disk s)"
    "disk_writes t = disk_writes s @ (if w then [(n, b_data (bufs s b))] else [])"
    "bufs t = (bufs s)(b := (bufs s b)\<lparr>b_data := (if w then b_data (bufs s b) else disk s n), b_disk := False\<rparr>)"
proof -
  let ?P = "asleep p (ChBuf b) (posted b w i0 i1 i2 s)"
  have r: "vops (vdisk ?P) i0 = \<lparr>vr_type = (if w then VIRTIO_BLK_T_OUT else VIRTIO_BLK_T_IN), vr_reserved = 0, vr_sector = ucast (n * 2)\<rparr>"
    by (simp add: posted_def took_def post_request_def format_request_def set_desc_def Let_def n)
  have "transferred i0 b ?P = (if w
      then ?P\<lparr>disk := (disk s)(n := b_data (bufs s b)), disk_writes := disk_writes s @ [(n, b_data (bufs s b))]\<rparr>
      else upd_buf b (\<lambda>x. x\<lparr>b_data := disk s n\<rparr>) ?P)"
    unfolding transferred_def r Let_def using assms(1) n
    by (simp add: block_of_sector [simplified] VIRTIO_BLK_T_IN_def VIRTIO_BLK_T_OUT_def)
  then show "disk t = (if w then (disk s)(n := b_data (bufs s b)) else disk s)"
    "disk_writes t = disk_writes s @ (if w then [(n, b_data (bufs s b))] else [])"
    "bufs t = (bufs s)(b := (bufs s b)\<lparr>b_data := (if w then b_data (bufs s b) else disk s n), b_disk := False\<rparr>)"
    unfolding t served_def finished_def
    by (simp_all add: woken_def) (simp_all add: upd_buf_def upd_vdisk_def)
qed

lemma disk_rw_blocks:
  assumes "\<not> b_disk (bufs s b)" and n: "n = b_blockno (bufs s b)"
  obtains u where "disk_rw b w s = Ret () u" "disk u = (if w then (disk s)(n := b_data (bufs s b)) else disk s)"
    "disk_writes u = disk_writes s @ (if w then [(n, b_data (bufs s b))] else [])"
    "bufs u = (bufs s)(b := (bufs s b)\<lparr>b_data := (if w then b_data (bufs s b) else disk s n), b_disk := False\<rparr>)"
  using that assms(1) n
  by (cases w) (auto simp: disk_rw_def exec_simps Let_def buf_settled upd_buf_def)

lemma descs_back:
  assumes "{i0, i1, i2} \<subseteq> {i. vfree (vdisk s) i}" "used_idx (vdisk s) = dev_used_idx (vdisk s)"
    and d: "d = fold clear_desc [i0, i1, i2] ((acked (answered i0 (vdisk (posted b w i0 i1 i2 s))))\<lparr>info_b := x\<rparr>)"
  shows "vfree d = vfree (vdisk s)" "used_idx d = dev_used_idx d"
  using assms(1,2) unfolding d
  by (auto simp: fun_eq_iff clear_desc_def acked_def answered_def posted_def post_request_def format_request_def set_desc_def took_def Let_def)

text \<open>
  C7. The driver does what the buffer cache relies on. Let a process call \<open>virtio_disk_rw\<close> with three descriptors free and no
  request under way, and let the device serve the request and interrupt a processor while the process sleeps. Then
  the call returns, with the disk and every buffer exactly as \<open>disk_rw\<close> says --- for a write the block on the disk is the buffer's
  data, for a read the buffer's data is the block --- and all descriptors that were free are free again.
\<close>
theorem virtio_disk_rw_refines:
  assumes "in_proc p s" "procs_free s" "p < NPROC" "lock_free VdiskLock s" "3 \<le> length (filter (vfree (vdisk s)) [0..<NUM])"
    and "used_idx (vdisk s) = dev_used_idx (vdisk s)" "\<not> b_disk (bufs s b)" "unat (b_blockno (bufs s b)) < 2 ^ 31"
    and "env s = f # fs" "virtio_device dev" "serves_next dev f"
  shows "\<exists>t u. virtio_disk_rw b w s = Ret () t \<and> disk_rw b w s = Ret () u \<and>
    disk t = disk u \<and> disk_writes t = disk_writes u \<and> bufs t = bufs u \<and> vfree (vdisk t) = vfree (vdisk s) \<and>
    used_idx (vdisk t) = dev_used_idx (vdisk t) \<and> in_proc p t \<and> procs_free t \<and> lock_free VdiskLock t \<and> sie t = sie s \<and> env t = fs"
proof -
  obtain i0 i1 i2 rest where l: "free_descs s = i0 # i1 # i2 # rest"
    using assms(5) unfolding free_descs_def [symmetric] by (auto simp: numeral_3_eq_3 Suc_le_length_iff)
  note t = served_simps [OF assms(1,3) refl]
  let ?t = "gave [i0, i1, i2] (upd_vdisk (\<lambda>d. d\<lparr>info_b := (info_b d)(i0 := None)\<rparr>) (woke_up p (sie s) (served p b w i0 i1 i2 fs s)))"
  note blocks = served_blocks [OF assms(8) refl refl, of p w i0 i1 i2 fs]
  have "virtio_disk_rw b w s = Ret () ?t" using assms l by (intro virtio_disk_rw_eq)
  moreover have fields: "disk ?t = disk (served p b w i0 i1 i2 fs s)" "disk_writes ?t = disk_writes (served p b w i0 i1 i2 fs s)"
    "bufs ?t = bufs (served p b w i0 i1 i2 fs s)" by (simp_all add: upd_vdisk_def)
  moreover obtain u where "disk_rw b w s = Ret () u" "disk ?t = disk u" "disk_writes ?t = disk_writes u" "bufs ?t = bufs u"
    unfolding fields blocks using disk_rw_blocks [OF assms(7) refl, of w] by metis
  moreover have sub: "{i0, i1, i2} \<subseteq> {i. vfree (vdisk s) i}" using l free_descs_set [of s] by auto
  moreover have "vfree (vdisk ?t) = vfree (vdisk s)" "used_idx (vdisk ?t) = dev_used_idx (vdisk ?t)"
    using descs_back [OF sub assms(6) refl] by (simp_all add: t(8))
  moreover have woke: "settled (woke_up p (sie s) (served p b w i0 i1 i2 fs s))"
    "c_proc (cpus (woke_up p (sie s) (served p b w i0 i1 i2 fs s)) (hart s)) = Some p"
    "c_noff (cpus (woke_up p (sie s) (served p b w i0 i1 i2 fs s)) (hart s)) = 0"
    by (metis settled_woke_up t(4), metis woke_up_simps(9) t(3), metis woke_up_simps(10) t(3,4))
  moreover have "in_proc p ?t" "procs_free ?t"
    using assms t(1-3) woke by (simp_all add: in_proc_def visitable_def procs_free_def)
  moreover have "lock_free VdiskLock ?t" "sie ?t = sie s" "env ?t = fs" using t(1,5) assms(4) by simp_all
  ultimately show ?thesis by blast
qed

text \<open>A device that does nothing but what is required, and a schedule in which it serves a request.\<close>

definition newest :: "vdisk \<Rightarrow> nat" where
  "newest d = unat (avail_ring d (unat (avail_idx d - 1) mod NUM))"

definition data_of :: "vdisk \<Rightarrow> dma" where
  "data_of d = vd_addr (vq_desc d (unat (vd_next (vq_desc d (newest d)))))"

definition example_device :: "'z kstate_scheme \<Rightarrow> 'z kstate_scheme" where
  "example_device u = (case data_of (vdisk u) of
     DmaData b \<Rightarrow> upd_vdisk (answered (newest (vdisk u))) (transferred (newest (vdisk u)) b u) | _ \<Rightarrow> u)"

definition example_step :: "'z kstate_scheme \<Rightarrow> 'z kstate_scheme" where
  "example_step u = (case data_of (vdisk u) of DmaData b \<Rightarrow> finished b (example_device u) | _ \<Rightarrow> u)"

lemma newest_request: "request_at d h b \<Longrightarrow> newest d = h \<and> data_of d = DmaData b"
  by (auto simp: request_at_def newest_def data_of_def unat_desc Let_def)

lemma example_device_ok: "virtio_device example_device"
  by (auto simp: virtio_device_def example_device_def dest: newest_request)

lemma after_example_step: "after_others example_step fs u = (example_step u)\<lparr>env := fs\<rparr>"
  by (cases u) (simp add: after_others_def kstate.defs kworld.defs example_step_def example_device_def finished_def transferred_def
      woken_def upd_buf_def upd_vdisk_def Let_def cong: if_cong split: dma.splits)

lemma example_step_serves: "serves_next example_device example_step"
  unfolding serves_next_def
proof (intro allI impI)
  fix u :: kworld and fs h b
  let ?v = "(upd_vdisk (answered h) (transferred h b u))\<lparr>env := fs\<rparr>"
  assume u: "procs_free u \<and> lock_free VdiskLock u \<and> request_at (vdisk u) h b \<and>
     info_b (vdisk u) h = Some b \<and> used_idx (vdisk u) = dev_used_idx (vdisk u)"
  then have h: "newest (vdisk u) = h" "data_of (vdisk u) = DmaData b" using newest_request by blast+
  have "virtio_disk_intr ?v = Ret () (finished b ?v)"
    using u by (intro intr_after_device [OF _ _ _ _ _ refl]) simp_all
  moreover have "finished b ?v = (finished b (upd_vdisk (answered h) (transferred h b u)))\<lparr>env := fs\<rparr>"
    by (simp add: finished_def woken_def upd_buf_def upd_vdisk_def cong: if_cong)
  ultimately show "virtio_disk_intr ((example_device u)\<lparr>env := fs\<rparr>) = Ret () (after_others example_step fs u)"
    by (simp add: after_example_step) (simp add: example_step_def example_device_def h)
qed

definition reading_world :: kworld where
  "reading_world = (zero_world example_syms)\<lparr>
     cpus := (\<lambda>_. \<lparr>c_proc = Some 2, c_noff = 0, c_intena = False\<rparr>),
     bufs := (\<lambda>b. zero_buf\<lparr>b_blockno := 5\<rparr>), disk := (\<lambda>n. replicate 1024 (ucast n)),
     vdisk := zero_vdisk\<lparr>vfree := (\<lambda>i. i < NUM)\<rparr>, env := [example_step]\<rparr>"

theorem virtio_disk_rw_refines_witness:
  "\<exists>t. virtio_disk_rw 3 False reading_world = Ret () t \<and> b_data (bufs t 3) = replicate 1024 5"
proof -
  have "in_proc 2 reading_world" "procs_free reading_world" "2 < NPROC" "lock_free VdiskLock reading_world"
    "3 \<le> length (filter (vfree (vdisk reading_world)) [0..<NUM])"
    "used_idx (vdisk reading_world) = dev_used_idx (vdisk reading_world)" "\<not> b_disk (bufs reading_world 3)"
    "unat (b_blockno (bufs reading_world 3)) < 2 ^ 31" "env reading_world = example_step # []"
    by (simp_all add: in_proc_def visitable_def procs_free_def settled_def lock_free_def reading_world_def zero_world_def NPROC_def
        zero_vdisk_def zero_buf_def NUM_def)
  from virtio_disk_rw_refines [OF this example_device_ok example_step_serves, of False]
  show ?thesis by (auto simp: disk_rw_def exec_simps Let_def upd_buf_def reading_world_def zero_buf_def)
qed

end
