(* ===== verification/Transactions.thy ===== *)
theory Transactions
  imports Log
begin

text \<open>
  Admission to the log (\<open>begin_op\<close>, \<open>end_op\<close> and \<open>log_write\<close> of \<open>kernel/log.c\<close> together): operations of any number
  of processes are let in only while the log has room for all of them, so that no operation that keeps to its share of
  \<open>MAXOPBLOCKS\<close> blocks can take the log beyond \<open>LOGSIZE\<close> blocks.

  The locale \<open>bio_client\<close> is the frame of the buffer cache: a predicate of the state that looks at nothing the cache, its locks and the
  processes waiting for them touch is kept by every call of \<open>bio.c\<close>. It is used with what the log's own state says.
\<close>

section \<open>Programs that do not return\<close>

definition never :: "('s \<Rightarrow> bool) \<Rightarrow> ('s, 'a) prog \<Rightarrow> bool" where
  "never I m \<longleftrightarrow> (\<forall>s x t. I s \<longrightarrow> m s \<noteq> Ret x t)"

lemma never_now: "never I m \<Longrightarrow> never I (kbind m f)"
  by (auto simp: never_def kbind_eq_Ret)

lemma never_after: "keeps I m \<Longrightarrow> (\<And>x. never I (f x)) \<Longrightarrow> never I (kbind m f)"
  by (fastforce simp: never_def keeps_def kbind_eq_Ret)

lemma never_kseq: "keeps I m \<Longrightarrow> never I (kseq ms) \<Longrightarrow> never I (kseq (m # ms))"
  by (simp add: never_after)

lemma never_kseq_now: "never I m \<Longrightarrow> never I (kseq (m # ms))"
  by (simp add: never_now)

section \<open>The frame of the buffer cache\<close>

locale bio_client =
  fixes I :: "kworld \<Rightarrow> bool"
  assumes cpu: "I (upd_cpu f1 s) = I s"
    and lock: "I (upd_lock lk f2 s) = I s"
    and proc: "I (upd_proc p f3 s) = I s"
    and sleeplock: "I (upd_sleep i f4 s) = I s"
    and buf: "I (upd_buf b f5 s) = I s"
    and sie: "I (s\<lparr>sie := x\<rparr>) = I s"
    and disk: "I (s\<lparr>disk := d, disk_writes := w\<rparr>) = I s"
    and alone: "I s \<Longrightarrow> env s = []"
begin

lemmas frame = cpu lock proc sleeplock buf sie disk

lemma keeps_intr: "keeps I intr_get" "keeps I intr_on" "keeps I intr_off" "keeps I cpuid" "keeps I mycpu"
  by (auto simp: spinlock_defs sie intro!: keeps_intros keeps_kmod)

lemma keeps_off: "keeps I push_off" "keeps I pop_off"
  unfolding push_off_def pop_off_def by (intro keeps_intros keeps_kmod keeps_intr; simp add: frame)+

lemma keeps_myproc: "keeps I myproc" "keeps I curproc"
  unfolding myproc_def curproc_def by (intro keeps_intros keeps_intr keeps_off)+

lemma keeps_holding: "keeps I (holding lk)"
  unfolding holding_def by (intro keeps_intros keeps_intr)

lemma keeps_lock: "keeps I (acquire lk)" "keeps I (release lk)"
  unfolding acquire_def release_def spin_until_set_def test_and_set_def
  by (intro keeps_intros keeps_kmod keeps_intr keeps_off keeps_holding; simp add: frame)+

lemma keeps_wakeup: "keeps I (wakeup ch)"
  unfolding wakeup_def wakeup_one_def
  by (intro keeps_intros keeps_kmod keeps_myproc keeps_lock; simp add: frame)

text \<open>With nobody else to run, a process that goes to sleep does not come back.\<close>

lemma run_others_never: "never I run_others"
  by (auto simp: never_def run_others_def dest: alone)

lemma keeps_sched: "keeps I sched"
proof -
  have "keeps I run_others" using run_others_never by (auto simp: keeps_def never_def)
  then show ?thesis
    unfolding sched_def swtch_away_def swtch_wait_def scheduler_leave_def scheduler_pick_def
    by (intro keeps_intros keeps_kmod keeps_intr keeps_myproc keeps_holding keeps_lock; simp add: frame)
qed

lemma keeps_sleep: "keeps I (sleep ch lk)"
  unfolding sleep_def by (intro keeps_intros keeps_kmod keeps_myproc keeps_lock keeps_sched; simp add: frame)

lemma sched_never_returns: "never I sched"
proof -
  have "never I (swtch_wait p)" for p
    using run_others_never unfolding swtch_wait_def never_def
    by (auto simp: kloop_unfold [where s = _] kbind_exec split: outcome.splits)
  then have "never I (swtch_away p)" for p
    unfolding swtch_away_def scheduler_leave_def
    by (intro never_kseq [OF _ never_kseq_now] keeps_intros keeps_kmod keeps_lock) (simp_all add: frame)
  then have "never I (kbind mycpu (\<lambda>c. kseq [swtch_away p, f c]))" for p f
    by (intro never_after [OF keeps_intr(5)] never_kseq_now)
  then show ?thesis
    unfolding sched_def
    by (intro never_after [OF keeps_myproc(2)] never_kseq [OF _ never_kseq [OF _ never_kseq [OF _ never_kseq [OF _ never_kseq_now]]]]
        keeps_intros keeps_intr keeps_holding)
qed

lemma sleep_never_returns: "never I (sleep ch lk)"
  unfolding sleep_def
  by (intro never_after [OF keeps_myproc(2)] never_kseq [OF _ never_kseq [OF _ never_kseq [OF _ never_kseq [OF _ never_kseq_now]]]]
      keeps_kmod keeps_lock sched_never_returns) (simp_all add: frame)

lemma keeps_sleeplock: "keeps I (acquiresleep i)" "keeps I (releasesleep i)" "keeps I (holdingsleep i)"
  unfolding acquiresleep_def acquiresleep_loop_def releasesleep_def holdingsleep_def
  by (intro keeps_intros keeps_kmod keeps_myproc keeps_lock keeps_sleep keeps_wakeup; simp add: frame)+

lemma keeps_bget: "keeps I (bget dev n)"
  unfolding bget_def bget_scan_def
  by (intro keeps_intros keeps_kmod keeps_lock keeps_sleeplock; simp add: frame)

lemma keeps_disk_rw: "keeps I (disk_rw b w)"
  unfolding disk_rw_def by (intro keeps_intros keeps_kmod; simp add: frame)

lemma keeps_bio:
  "keeps I (bread dev n)" "keeps I (bwrite b)" "keeps I (brelse b)" "keeps I (bpin b)" "keeps I (bunpin b)"
  unfolding bread_def bwrite_def brelse_def brelse_move_def bpin_def bunpin_def
  by (intro keeps_intros keeps_kmod keeps_lock keeps_sleeplock keeps_bget keeps_disk_rw; simp add: frame)+

lemma keeps_log_io: "keeps I write_log" "keeps I write_head" "keeps I (install_trans r)"
  unfolding write_log_def write_log_one_def write_head_def install_trans_def install_one_def set_data_def
  by (intro keeps_intros keeps_kmod keeps_bio; simp add: frame)+

end

interpretation unscheduled: bio_client "\<lambda>s. env s = []"
  by unfold_locales (simp_all add: upd_defs)

interpretation same_log: bio_client "\<lambda>s. log s = l \<and> env s = []" for l
  by unfold_locales (auto simp: upd_defs)

section \<open>The log's own state\<close>

text \<open>The header and the counters, as a call that returns leaves them.\<close>

definition log_full :: "logstate \<Rightarrow> bool" where
  "log_full l \<longleftrightarrow> l_committing l \<or> lh_n (l_lh l) + (l_outstanding l + 1) * MAXOPBLOCKS > LOGSIZE"

lemma begin_op_log:
  assumes "begin_op s = Ret () t" "env s = []"
  shows "\<not> log_full (log s) \<and> log t = (log s)\<lparr>l_outstanding := l_outstanding (log s) + 1\<rparr>"
proof -
  obtain u where u: "begin_op_loop u = Ret () t" "log u = log s" "env u = []"
    using assms keepsD [OF same_log.keeps_lock(1), of LogLock s "()" _ "log s"]
    by (auto simp: begin_op_def kbind_eq_Ret kret_exec)
  have full: "\<not> log_full (log u)"
  proof
    assume "log_full (log u)"
    then have "begin_op_loop u = Ret () t \<longrightarrow> (\<exists>v. sleep ChLog LogLock u = Ret () v)"
      unfolding begin_op_loop_def by (subst kloop_unfold) (auto simp: exec_simps log_full_def split: outcome.splits)
    then show False using u unscheduled.sleep_never_returns [of ChLog LogLock] by (auto simp: never_def)
  qed
  then obtain v where "release LogLock (upd_log (\<lambda>l. l\<lparr>l_outstanding := l_outstanding l + 1\<rparr>) u) = Ret () v" "v = t"
    using u(1) unfolding begin_op_loop_def by (subst (asm) kloop_unfold) (auto simp: exec_simps log_full_def split: outcome.splits if_splits)
  then have "log t = log (upd_log (\<lambda>l. l\<lparr>l_outstanding := l_outstanding l + 1\<rparr>) u)"
    using keepsD [OF same_log.keeps_lock(2)] u(3) by (fastforce simp: upd_log_def)
  then show ?thesis using full u by (simp add: upd_log_def)
qed

lemma commit_log:
  assumes "commit s = Ret () t" "env s = []"
  shows "env t = [] \<and> log t = (if 0 < lh_n (l_lh (log s)) then (log s)\<lparr>l_lh := (l_lh (log s))\<lparr>lh_n := 0\<rparr>\<rparr> else log s)"
proof (cases "0 < lh_n (l_lh (log s))")
  case True
  let ?l = "(log s)\<lparr>l_lh := (l_lh (log s))\<lparr>lh_n := 0\<rparr>\<rparr>"
  from True assms(1) obtain u v w where "write_log s = Ret () u" "write_head u = Ret () v" "install_trans False v = Ret () w"
    "write_head (upd_lh (\<lambda>h. h\<lparr>lh_n := 0\<rparr>) w) = Ret () t"
    by (auto simp: commit_def kbind_eq_Ret kget_exec kwhen_exec kmod_exec kret_exec)
  moreover from this have "log w = log s \<and> env w = []"
    using assms(2) keepsD [OF same_log.keeps_log_io(1) [of "log s"]] keepsD [OF same_log.keeps_log_io(2) [of "log s"]]
      keepsD [OF same_log.keeps_log_io(3) [of "log s"]] by blast
  ultimately have "log t = ?l \<and> env t = []"
    using keepsD [OF same_log.keeps_log_io(2) [of ?l], of "upd_lh (\<lambda>h. h\<lparr>lh_n := 0\<rparr>) w" "()" t] by (simp add: upd_lh_def upd_log_def)
  with True show ?thesis by simp
next
  case False
  then show ?thesis using assms by (simp add: commit_def exec_simps)
qed

lemma end_op_log:
  assumes "end_op s = Ret () t" "env s = []"
  shows "\<not> l_committing (log s) \<and> log t = (if l_outstanding (log s) = 1
     then (log s)\<lparr>l_outstanding := 0, l_committing := False,
       l_lh := (l_lh (log s))\<lparr>lh_n := if 0 < lh_n (l_lh (log s)) then 0 else lh_n (l_lh (log s))\<rparr>\<rparr>
     else (log s)\<lparr>l_outstanding := l_outstanding (log s) - 1\<rparr>)"
proof -
  let ?d = "upd_log (\<lambda>l. l\<lparr>l_outstanding := l_outstanding l - 1\<rparr>)"
  from assms(1) obtain u v w where u: "acquire LogLock s = Ret () u" and c: "\<not> l_committing (log u)"
    and v: "(if l_outstanding (log u) - 1 = 0 then kmod (upd_log (\<lambda>l. l\<lparr>l_committing := True\<rparr>)) else wakeup (Some ChLog)) (?d u) = Ret () v"
    and w: "release LogLock v = Ret () w"
    and t: "kwhen (l_outstanding (log u) - 1 = 0) (kseq [commit, acquire LogLock,
       kmod (upd_log (\<lambda>l. l\<lparr>l_committing := False\<rparr>)), wakeup (Some ChLog), release LogLock]) w = Ret () t"
    by (auto simp: end_op_def kbind_eq_Ret kget_exec kmod_exec kret_exec upd_log_def kwhen_exec panic_exec split: if_splits)
  have lu: "log u = log s \<and> env u = []" using u assms(2) keepsD [OF same_log.keeps_lock(1) [of "log s"]] by blast
  show ?thesis
  proof (cases "l_outstanding (log s) = 1")
    case True
    let ?l = "(log s)\<lparr>l_outstanding := 0, l_committing := True\<rparr>"
    have "log v = ?l \<and> env v = []" using v True lu by (auto simp: exec_simps upd_log_def)
    then have "log w = ?l \<and> env w = []" using w keepsD [OF same_log.keeps_lock(2) [of ?l]] by blast
    moreover from t True lu obtain x y z where xs: "commit w = Ret () x" "acquire LogLock x = Ret () y"
      "wakeup (Some ChLog) (upd_log (\<lambda>l. l\<lparr>l_committing := False\<rparr>) y) = Ret () z" "release LogLock z = Ret () t"
      by (auto simp: kbind_eq_Ret kmod_exec kret_exec kwhen_exec)
    moreover define m where "m = (if 0 < lh_n (l_lh (log s)) then ?l\<lparr>l_lh := (l_lh (log s))\<lparr>lh_n := 0\<rparr>\<rparr> else ?l)"
    ultimately have "log y = m \<and> env y = []"
      using commit_log [of w x] keepsD [OF same_log.keeps_lock(1) [of m], of LogLock x "()" y] by simp
    then have "log t = m\<lparr>l_committing := False\<rparr>" (is "_ = ?m")
      using xs keepsD [OF same_log.keeps_wakeup [of ?m], of "Some ChLog" "upd_log (\<lambda>l. l\<lparr>l_committing := False\<rparr>) y" "()" z]
        keepsD [OF same_log.keeps_lock(2) [of ?m], of LogLock z "()" t] by (simp add: upd_log_def)
    then show ?thesis using True c lu by (simp add: m_def)
  next
    case False
    let ?l = "(log s)\<lparr>l_outstanding := l_outstanding (log s) - 1\<rparr>"
    have "log (?d u) = ?l \<and> env (?d u) = []" using lu by (simp add: upd_log_def)
    then have "log v = ?l \<and> env v = []" using v False lu keepsD [OF same_log.keeps_wakeup [of ?l]] by auto
    then have "log w = ?l \<and> env w = []" using w keepsD [OF same_log.keeps_lock(2) [of ?l]] by blast
    then show ?thesis using t False c lu by (simp add: exec_simps)
  qed
qed

lemma log_write_log:
  assumes "log_write b s = Ret () t" "env s = []"
  shows "log t = (log s)\<lparr>l_lh := l_lh (log t)\<rparr> \<and> lh_n (l_lh (log t)) \<in> {lh_n (l_lh (log s)), lh_n (l_lh (log s)) + 1}"
proof -
  from assms(1) obtain u v i bn where u: "acquire LogLock s = Ret () u"
    and v: "kwhen (int i = lh_n (l_lh (log u))) (kseq [bpin b, kmod (upd_lh (\<lambda>h. h\<lparr>lh_n := lh_n h + 1\<rparr>))])
        (upd_lh (\<lambda>h. h\<lparr>lh_block := (lh_block h)(i := bn)\<rparr>) u) = Ret () v"
    and t: "release LogLock v = Ret () t"
    by (auto simp: log_write_def Let_def kbind_eq_Ret kget_exec kmod_exec kret_exec kwhen_exec [where m = "panic _"] panic_exec
        simp del: fun_upd_apply split: if_splits)
  have lu: "log u = log s \<and> env u = []" using u assms(2) keepsD [OF same_log.keeps_lock(1) [of "log s"]] by blast
  let ?l = "(log s)\<lparr>l_lh := (l_lh (log s))\<lparr>lh_block := (lh_block (l_lh (log s)))(i := bn)\<rparr>\<rparr>"
    and ?w = "upd_lh (\<lambda>h. h\<lparr>lh_block := (lh_block h)(i := bn)\<rparr>) u"
  have w: "log ?w = ?l \<and> env ?w = []" using lu by (simp add: upd_lh_def upd_log_def)
  have "env v = [] \<and> (log v = ?l \<or> log v = ?l\<lparr>l_lh := (l_lh ?l)\<lparr>lh_n := lh_n (l_lh ?l) + 1\<rparr>\<rparr>)"
  proof (cases "int i = lh_n (l_lh (log u))")
    case True
    with v obtain x where "bpin b ?w = Ret () x" "v = upd_lh (\<lambda>h. h\<lparr>lh_n := lh_n h + 1\<rparr>) x"
      by (auto simp: kbind_eq_Ret kmod_exec kret_exec kwhen_exec)
    moreover from this have "log x = ?l \<and> env x = []" using w keepsD [OF same_log.keeps_bio(4) [of ?l]] by blast
    ultimately show ?thesis by (simp add: upd_lh_def upd_log_def)
  next
    case False
    then show ?thesis using v w by (simp add: exec_simps)
  qed
  moreover have "log t = log v" if "env v = []" using t that keepsD [OF same_log.keeps_lock(2) [of "log v"]] by blast
  ultimately show ?thesis by auto
qed

section \<open>Operations of many processes\<close>

text \<open>
  A run of the log: operations begin, log a block and end, in any order and in any number at a time, and in between the rest of the
  kernel does anything but touch the log's own state. The map says how many blocks each operation
  under way has added to the log; an operation keeps to its share.
\<close>

inductive log_run :: "kworld \<Rightarrow> (nat \<rightharpoonup> int) \<Rightarrow> bool" where
  run_start: "l_outstanding (log s) = 0 \<Longrightarrow> lh_n (l_lh (log s)) = 0 \<Longrightarrow> \<not> l_committing (log s) \<Longrightarrow> log_run s Map.empty"
| run_begin: "log_run s ops \<Longrightarrow> ops i = None \<Longrightarrow> env s = [] \<Longrightarrow> begin_op s = Ret () t \<Longrightarrow> log_run t (ops(i \<mapsto> 0))"
| run_write: "log_run s ops \<Longrightarrow> ops i = Some k \<Longrightarrow> env s = [] \<Longrightarrow> log_write b s = Ret () t \<Longrightarrow>
     k' = k + (lh_n (l_lh (log t)) - lh_n (l_lh (log s))) \<Longrightarrow> k' \<le> MAXOPBLOCKS \<Longrightarrow> log_run t (ops(i \<mapsto> k'))"
| run_end: "log_run s ops \<Longrightarrow> ops i = Some k \<Longrightarrow> env s = [] \<Longrightarrow> end_op s = Ret () t \<Longrightarrow> log_run t (ops(i := None))"
| run_other: "log_run s ops \<Longrightarrow> log t = log s \<Longrightarrow> log_run t ops"

definition shares_left :: "(nat \<rightharpoonup> int) \<Rightarrow> int" where
  "shares_left ops = (\<Sum>i\<in>dom ops. MAXOPBLOCKS - the (ops i))"

definition log_inv :: "logstate \<Rightarrow> (nat \<rightharpoonup> int) \<Rightarrow> bool" where
  "log_inv l ops \<longleftrightarrow> finite (dom ops) \<and> l_outstanding l = int (card (dom ops)) \<and> \<not> l_committing l \<and> 0 \<le> lh_n (l_lh l) \<and>
     (\<forall>k\<in>ran ops. 0 \<le> k \<and> k \<le> MAXOPBLOCKS) \<and> lh_n (l_lh l) + shares_left ops \<le> LOGSIZE"

lemma shares_left_upd:
  "finite (dom ops) \<Longrightarrow> shares_left (ops(i \<mapsto> k)) = MAXOPBLOCKS - k + shares_left (ops(i := None))"
  by (simp add: shares_left_def sum.insert_remove)

lemma shares_left_split:
  "finite (dom ops) \<Longrightarrow> ops i = Some k \<Longrightarrow> shares_left ops = MAXOPBLOCKS - k + shares_left (ops(i := None))"
  using shares_left_upd [of ops i k] by (simp add: map_upd_triv)

lemma log_run_inv: "log_run s ops \<Longrightarrow> log_inv (log s) ops"
proof (induction rule: log_run.induct)
  case (run_start s)
  then show ?case by (simp add: log_inv_def shares_left_def LOGSIZE_30)
next
  case (run_begin s ops i t)
  have l: "\<not> log_full (log s)" "log t = (log s)\<lparr>l_outstanding := l_outstanding (log s) + 1\<rparr>"
    using begin_op_log run_begin.hyps by auto
  have fin: "finite (dom ops)" and ks: "\<forall>k\<in>ran ops. 0 \<le> k \<and> k \<le> MAXOPBLOCKS" using run_begin.IH by (auto simp: log_inv_def)
  have "shares_left ops \<le> (\<Sum>i\<in>dom ops. MAXOPBLOCKS)"
    unfolding shares_left_def using ks by (intro sum_mono) (auto simp: ran_def)
  moreover have "ops(i := None) = ops" using run_begin.hyps(2) by auto
  ultimately show ?case
    using run_begin l fin shares_left_upd [OF fin, of i 0]
    by (simp add: log_inv_def log_full_def ran_map_upd card_insert_if domIff MAXOPBLOCKS_def del: fun_upd_apply)
next
  case (run_write s ops i k b t k')
  have e: "log t = (log s)\<lparr>l_lh := l_lh (log t)\<rparr>" and n: "lh_n (l_lh (log s)) \<le> lh_n (l_lh (log t))"
    using log_write_log run_write.hyps by (blast, fastforce)
  have "l_outstanding (log t) = l_outstanding (log s)" "l_committing (log t) = l_committing (log s)" by (subst e, simp)+
  moreover have "dom (ops(i \<mapsto> k')) = dom ops" using run_write.hyps(2) by auto
  moreover have "0 \<le> x \<and> x \<le> MAXOPBLOCKS" if "x \<in> ran (ops(i \<mapsto> k'))" for x
    using that run_write n by (auto simp: ran_def log_inv_def split: if_splits)
  ultimately show ?case
    using run_write n shares_left_upd [of ops i k'] shares_left_split [of ops i k]
    by (simp add: log_inv_def del: dom_fun_upd fun_upd_apply)
next
  case (run_end s ops i k t)
  have i: "i \<in> dom ops" and fin: "finite (dom ops)" using run_end by (auto simp: log_inv_def)
  have d: "dom (ops(i := None)) = dom ops - {i}" by auto
  have card: "int (card (dom ops - {i})) = int (card (dom ops)) - 1"
    using i fin card_gt_0_iff [of "dom ops"] by auto
  have k: "k \<le> MAXOPBLOCKS" "\<forall>x\<in>ran (ops(i := None)). 0 \<le> x \<and> x \<le> MAXOPBLOCKS"
    using run_end by (auto simp: log_inv_def ran_def split: if_splits)
  show ?case
    using run_end.IH end_op_log [OF run_end.hyps(4,3)] shares_left_split [OF fin run_end.hyps(2)] card k fin
    by (auto simp: log_inv_def d simp del: dom_fun_upd fun_upd_apply split: if_splits)
next
  case (run_other s ops t)
  then show ?case by simp
qed

text \<open>
  C6. Admission keeps the log within \<open>LOGSIZE\<close> blocks. However the operations of the processes are interleaved, the number of operations under way is
  counted right, and the logged blocks together with what the operations under way may still add never exceed \<open>LOGSIZE\<close>. So for an operation that has added fewer
  than \<open>MAXOPBLOCKS\<close> blocks \<open>log_write\<close> panics only when the blocks of the log on disk, the header not counted, are used up, and returns otherwise. It always returns on a log
  of more than \<open>LOGSIZE\<close> blocks; on a log of \<open>LOGSIZE\<close> blocks, the header among them, as \<open>mkfs\<close> makes it, it returns as long as the operations under way have at least two blocks
  left between them, and for the very last block it panics.
\<close>
theorem log_admission:
  assumes "log_run s ops"
  shows "l_outstanding (log s) = int (card (dom ops)) \<and> 0 \<le> lh_n (l_lh (log s)) \<and>
    lh_n (l_lh (log s)) + (\<Sum>i\<in>dom ops. MAXOPBLOCKS - the (ops i)) \<le> LOGSIZE \<and>
    (\<forall>i k p b. ops i = Some k \<longrightarrow> k < MAXOPBLOCKS \<longrightarrow> quiet p s \<longrightarrow>
       (if lh_n (l_lh (log s)) < l_size (log s) - 1 then \<exists>t. log_write b s = Ret () t else log_write b s = Panic ''too big a transaction'') \<and>
       (LOGSIZE < l_size (log s) \<longrightarrow> (\<exists>t. log_write b s = Ret () t)) \<and>
       (l_size (log s) = LOGSIZE \<longrightarrow> 2 \<le> (\<Sum>i\<in>dom ops. MAXOPBLOCKS - the (ops i)) \<longrightarrow> (\<exists>t. log_write b s = Ret () t)))"
proof -
  have inv: "log_inv (log s) ops" by (rule log_run_inv [OF assms])
  have "(if lh_n (l_lh (log s)) < l_size (log s) - 1 then \<exists>t. log_write b s = Ret () t else log_write b s = Panic ''too big a transaction'') \<and>
      lh_n (l_lh (log s)) < LOGSIZE" if "ops i = Some k" "k < MAXOPBLOCKS" "quiet p s" for i k p b
  proof -
    have fin: "finite (dom ops)" using inv by (simp add: log_inv_def)
    have "0 \<le> shares_left (ops(i := None))"
      using inv unfolding shares_left_def by (intro sum_nonneg) (auto simp: log_inv_def ran_def)
    then have "lh_n (l_lh (log s)) < LOGSIZE"
      using inv that shares_left_split [OF fin that(1)] by (simp add: log_inv_def)
    moreover have "1 \<le> l_outstanding (log s)"
      using inv that(1) card_gt_0_iff [of "dom ops"] by (auto simp: log_inv_def)
    ultimately show ?thesis using log_write_eq [OF that(3), of b] inv by (auto simp: Let_def log_inv_def)
  qed
  moreover have "lh_n (l_lh (log s)) + (\<Sum>i\<in>dom ops. MAXOPBLOCKS - the (ops i)) \<le> LOGSIZE" using inv by (simp add: log_inv_def shares_left_def)
  ultimately show ?thesis using inv by (fastforce simp: log_inv_def split: if_splits)
qed

text \<open>The panic at the last block of such a log, without the other operations.\<close>

lemma mkfs_log_short:
  assumes "quiet p s" "l_size (log s) = LOGSIZE" "lh_n (l_lh (log s)) = LOGSIZE - 1"
  shows "log_write b s = Panic ''too big a transaction''"
  using log_write_eq [OF assms(1), of b] assms(2,3) by (simp add: Let_def LOGSIZE_30)

text \<open>An idle log of the size that \<open>mkfs\<close> makes.\<close>

definition idle_log :: kworld where
  "idle_log = (zero_world example_syms)\<lparr>cpus := (\<lambda>_. \<lparr>c_proc = Some 2, c_noff = 0, c_intena = False\<rparr>),
     log := (log (zero_world example_syms))\<lparr>l_size := LOGSIZE\<rparr>\<rparr>"

theorem log_admission_witness:
  "\<exists>t. log_write 3 (upd_log (\<lambda>l. l\<lparr>l_outstanding := 1\<rparr>) idle_log) = Ret () t"
proof -
  have l: "lock_free lk idle_log" "settled idle_log" "env idle_log = []" "c_proc (mycpu_of idle_log) = Some 2"
    "log idle_log = \<lparr>l_start = 0, l_size = LOGSIZE, l_outstanding = 0, l_committing = False, l_dev = 0, l_lh = \<lparr>lh_n = 0, lh_block = (\<lambda>_. 0)\<rparr>\<rparr>" for lk
    by (simp_all add: idle_log_def zero_world_def lock_free_def settled_def)
  let ?s = "upd_log (\<lambda>l. l\<lparr>l_outstanding := 1\<rparr>) idle_log"
  have "upd_log (\<lambda>l. l\<lparr>l_outstanding := l_outstanding l + 1\<rparr>) idle_log = ?s" using l(5) by (simp add: upd_log_def)
  then have "begin_op idle_log = Ret () ?s"
    using l unfolding begin_op_def begin_op_loop_def
    by (simp add: exec_simps lock_exec kloop_unfold [where s = "take_lock _ _"] LOGSIZE_30 MAXOPBLOCKS_def)
  moreover have "log_run idle_log Map.empty" by (rule run_start) (simp_all add: l)
  ultimately have "log_run ?s [5 \<mapsto> 0]" using run_begin [of idle_log Map.empty 5] l(3) by simp
  moreover have "quiet 2 ?s" using l by (simp add: quiet_def) (simp add: upd_log_def)
  moreover have "l_size (log ?s) = LOGSIZE" using l(5) by (simp add: upd_log_def)
  moreover have "2 \<le> (\<Sum>i\<in>dom [5 \<mapsto> 0 :: int]. MAXOPBLOCKS - the ([5 \<mapsto> 0] (i :: nat)))" by (simp add: MAXOPBLOCKS_def)
  moreover have "[5 \<mapsto> 0 :: int] 5 = Some 0" "(0 :: int) < MAXOPBLOCKS" by (simp_all add: MAXOPBLOCKS_def)
  ultimately show ?thesis using log_admission [of ?s "[5 \<mapsto> 0]"] by blast
qed

end
