(* ===== verification/Pipe.thy ===== *)
theory Pipe
  imports File Ringbuf
begin

text \<open>
  Pipes are queues of bytes: what \<open>pipewrite\<close> and \<open>piperead\<close> of \<open>kernel/pipe.c\<close> (defined with the file table) do to
  the contents of the pipe and to the memory of the user process.
\<close>

section \<open>The contents of a pipe\<close>

interpretation pp: ring PIPESIZE "TYPE(32)"
  by unfold_locales (simp_all add: PIPESIZE_def)

definition pipe_queue :: "pipe \<Rightarrow> byte list" where
  "pipe_queue x = pp.contents (pi_data x) (pi_nread x) (pi_nwrite x)"

text \<open>What one round of each loop does to the pipe.\<close>

definition pipe_put :: "byte \<Rightarrow> pipe \<Rightarrow> pipe" where
  "pipe_put c x = x\<lparr>pi_data := (pi_data x)(unat (pi_nwrite x) mod PIPESIZE := c), pi_nwrite := pi_nwrite x + 1\<rparr>"

definition pipe_get :: "pipe \<Rightarrow> pipe" where
  "pipe_get x = x\<lparr>pi_nread := pi_nread x + 1\<rparr>"

lemma pipe_queue_put: "length (pipe_queue x) < PIPESIZE \<Longrightarrow> pipe_queue (pipe_put c x) = pipe_queue x @ [c]"
  using pp.contents_put by (simp add: pipe_queue_def pipe_put_def pp.slot_def)

lemma pipe_queue_get:
  "pi_nread x \<noteq> pi_nwrite x \<Longrightarrow> pipe_queue x = pi_data x (unat (pi_nread x) mod PIPESIZE) # pipe_queue (pipe_get x)"
  using pp.contents_get by (simp add: pipe_queue_def pipe_get_def pp.slot_def)

lemma pipe_empty_iff: "pi_nread x = pi_nwrite x \<longleftrightarrow> pipe_queue x = []"
  unfolding pipe_queue_def pp.contents_Nil_iff by auto

lemma length_pipe_queue: "length (pipe_queue x) = unat (pi_nwrite x - pi_nread x)"
  by (simp add: pipe_queue_def)

lemma pipe_not_full: "length (pipe_queue x) < PIPESIZE \<Longrightarrow> pi_nwrite x \<noteq> pi_nread x + of_nat PIPESIZE"
  by (auto simp: length_pipe_queue PIPESIZE_def)

lemma pipe_full: "length (pipe_queue x) = PIPESIZE \<longleftrightarrow> pi_nwrite x = pi_nread x + of_nat PIPESIZE"
proof -
  have "length (pipe_queue x) = PIPESIZE \<longleftrightarrow> unat (pi_nwrite x - pi_nread x) = unat (512 :: u32)"
    by (simp add: length_pipe_queue PIPESIZE_def)
  also have "\<dots> \<longleftrightarrow> pi_nwrite x - pi_nread x = 512" by (simp only: word_unat_eq_iff [symmetric])
  also have "\<dots> \<longleftrightarrow> pi_nwrite x = pi_nread x + of_nat PIPESIZE" by (auto simp: PIPESIZE_def algebra_simps)
  finally show ?thesis .
qed

lemma pipe_put_flags [simp]:
  "pi_readopen (pipe_put c x) = pi_readopen x" "pi_writeopen (pipe_put c x) = pi_writeopen x"
  "pi_readopen (pipe_get x) = pi_readopen x" "pi_writeopen (pipe_get x) = pi_writeopen x"
  "pi_nread (pipe_put c x) = pi_nread x" "pi_nwrite (pipe_get x) = pi_nwrite x" "pi_data (pipe_get x) = pi_data x"
  by (simp_all add: pipe_put_def pipe_get_def)

lemma upd_pipe_twice: "upd_pipe a f (upd_pipe a g s) = upd_pipe a (\<lambda>x. f (g x)) s"
  by (simp add: upd_pipe_def)

lemma upd_pipe_select [simp]:
  "mem (upd_pipe a f s) = mem s" "procs (upd_pipe a f s) = procs s" "pipes (upd_pipe a f s) a = f (pipes s a)"
  "hart (upd_pipe a f s) = hart s" "cpus (upd_pipe a f s) = cpus s" "procs_free (upd_pipe a f s) = procs_free s"
  by (simp_all add: upd_pipe_def procs_free_def)

section \<open>Writing\<close>

text \<open>The number of leading bytes of a user range that can be read.\<close>

primrec ok_prefix :: "mem \<Rightarrow> addr \<Rightarrow> addr \<Rightarrow> nat \<Rightarrow> nat" where
  "ok_prefix m pt a 0 = 0"
| "ok_prefix m pt a (Suc n) = (if user_ok m pt a then Suc (ok_prefix m pt (a + 1) n) else 0)"

lemma ok_prefix_le: "ok_prefix m pt a n \<le> n"
  by (induction n arbitrary: a) auto

lemma ok_prefix_all: "ok_prefix m pt a n = n \<longleftrightarrow> range_ok m pt a n"
proof (induction n arbitrary: a)
  case (Suc n)
  have "range_ok m pt a (Suc n) \<longleftrightarrow> user_ok m pt a \<and> range_ok m pt (a + 1) n"
    using range_ok_add [of m pt a 1 n] by (simp add: range_ok_def)
  with Suc show ?case by auto
qed (simp add: range_ok_def)

lemma ok_prefix_cong: "(\<And>v. entry 2 m' pt v = entry 2 m pt v) \<Longrightarrow> ok_prefix m' pt a n = ok_prefix m pt a n"
proof (induction n arbitrary: a)
  case (Suc n)
  then show ?case by (simp add: user_ok_entry [OF Suc.prems])
qed simp

lemma copyin_one:
  assumes "twf 2 (mem s) pt"
  shows "\<exists>r bs. copyin pt va (Suc 0) s = Ret (r, bs) s \<and>
     (if user_ok (mem s) pt va then r = 0 \<and> bs = [mem s (user_addr (mem s) pt va)] else r = - 1)"
proof -
  have eqs: "range_ok (mem s) pt va (Suc 0) = user_ok (mem s) pt va"
    "user_bytes (mem s) pt va (Suc 0) = [mem s (user_addr (mem s) pt va)]"
    by (simp_all add: range_ok_def user_bytes_def)
  have "Suc 0 < 2 ^ 64" by simp
  from copyin_loop [OF assms this, of "[]" va] show ?thesis unfolding eqs append_Nil copyin_def .
qed

lemma user_bytes_Cons: "user_bytes m pt a (Suc k) = m (user_addr m pt a) # user_bytes m pt (a + 1) k"
  using user_bytes_add [of m pt a 1 k] by (simp add: user_bytes_def)

text \<open>The loop while there is room: it goes on behind \<open>d\<close> bytes that fit and can be read, and ends at one that cannot.\<close>

lemma pipewrite_loop:
  fixes s :: kworld and a :: addr and i n :: int
  assumes "twf 2 (mem s) (p_pagetable (procs s p))" "pi_readopen (pipes s pi)" "p_killed (procs s p) = 0"
    and "settled s" "lock_free (ProcLock p) s" "i + int d \<le> n" "length (pipe_queue (pipes s pi)) + d \<le> PIPESIZE"
  defines "m \<equiv> mem s" and "pt \<equiv> p_pagetable (procs s p)"
  defines "k \<equiv> ok_prefix m pt (a + of_int i) d"
  shows "\<exists>x. kloop (pipewrite_step pi p a n) i s =
      (if k < d then Ret (Some (i + int k)) (s\<lparr>pipes := (pipes s)(pi := x)\<rparr>)
       else kloop (pipewrite_step pi p a n) (i + int d) (s\<lparr>pipes := (pipes s)(pi := x)\<rparr>)) \<and>
    pipe_queue x = pipe_queue (pipes s pi) @ user_bytes m pt (a + of_int i) k \<and>
    pi_readopen x \<and> pi_writeopen x = pi_writeopen (pipes s pi)"
  using assms(1-7) unfolding k_def m_def pt_def
proof (induction d arbitrary: i s)
  case 0
  then show ?case by (intro exI [of _ "pipes s pi"]) (simp add: user_bytes_def)
next
  case (Suc d)
  let ?pt = "p_pagetable (procs s p)" and ?x = "pipes s pi" and ?va = "a + of_int i"
  obtain r bs where c: "copyin ?pt ?va (Suc 0) s = Ret (r, bs) s"
    "if user_ok (mem s) ?pt ?va then r = 0 \<and> bs = [mem s (user_addr (mem s) ?pt ?va)] else r = - 1"
    using copyin_one [OF Suc.prems(1)] by blast
  have lt: "i < n" "length (pipe_queue ?x) < PIPESIZE" using Suc.prems(6,7) by auto
  note step = pipewrite_step_def exec_simps killed_eq [OF Suc.prems(4,5)] Suc.prems(2,3) pipe_not_full [OF lt(2)] lt(1) c(1)
  show ?case
  proof (cases "user_ok (mem s) ?pt ?va")
    case False
    then have "kloop (pipewrite_step pi p a n) i s = Ret (Some i) s"
      using c(2) by (intro kloop_done) (simp add: step)
    with False show ?thesis using Suc.prems(2) by (intro exI [of _ ?x]) (simp add: user_bytes_def)
  next
    case True
    let ?c = "mem s (user_addr (mem s) ?pt ?va)"
    let ?t = "upd_pipe pi (pipe_put ?c) s"
    have "pipewrite_step pi p a n i s = Ret (Inl (i + 1)) ?t"
      using c(2) True by (simp add: step upd_pipe_twice) (simp add: upd_pipe_def pipe_put_def)
    then have round: "kloop (pipewrite_step pi p a n) i s = kloop (pipewrite_step pi p a n) (i + 1) ?t"
      by (rule kloop_round)
    let ?k = "ok_prefix (mem s) ?pt (?va + 1) d"
    have va: "a + of_int (i + 1) = ?va + 1" by simp
    have sel: "p_pagetable (procs ?t p) = ?pt" "mem ?t = mem s" by simp_all
    have "\<exists>x. kloop (pipewrite_step pi p a n) (i + 1) ?t =
        (if ?k < d then Ret (Some (i + 1 + int ?k)) (?t\<lparr>pipes := (pipes ?t)(pi := x)\<rparr>)
         else kloop (pipewrite_step pi p a n) (i + 1 + int d) (?t\<lparr>pipes := (pipes ?t)(pi := x)\<rparr>)) \<and>
      pipe_queue x = pipe_queue (pipes ?t pi) @ user_bytes (mem s) ?pt (?va + 1) ?k \<and>
      pi_readopen x \<and> pi_writeopen x = pi_writeopen (pipes ?t pi)"
      using Suc.prems lt(2) by (intro Suc.IH [of ?t "i + 1", unfolded va sel]) (simp_all add: pipe_queue_put)
    then obtain x where x: "kloop (pipewrite_step pi p a n) (i + 1) ?t =
        (if ?k < d then Ret (Some (i + 1 + int ?k)) (?t\<lparr>pipes := (pipes ?t)(pi := x)\<rparr>)
         else kloop (pipewrite_step pi p a n) (i + 1 + int d) (?t\<lparr>pipes := (pipes ?t)(pi := x)\<rparr>))"
      "pipe_queue x = pipe_queue (pipes ?t pi) @ user_bytes (mem s) ?pt (?va + 1) ?k"
      "pi_readopen x" "pi_writeopen x = pi_writeopen (pipes ?t pi)" by blast
    have "?t\<lparr>pipes := (pipes ?t)(pi := x)\<rparr> = s\<lparr>pipes := (pipes s)(pi := x)\<rparr>" by (simp add: upd_pipe_def)
    with x True lt(2) show ?thesis
      unfolding round by (intro exI [of _ x]) (simp add: pipe_queue_put user_bytes_Cons fun_upd_def add.assoc)
  qed
qed

text \<open>A full pipe: the readers are woken and the writer sleeps, and goes on at the same byte when it is woken.\<close>

lemma pipewrite_full:
  assumes "i < n" "pi_readopen (pipes s pi)" "p_killed (procs s p) = 0" "length (pipe_queue (pipes s pi)) = PIPESIZE"
    and "procs_free s" "p < NPROC" "lock_free (PipeLock pi) s"
  shows "pipewrite_step pi p a n i (take_lock (PipeLock pi) s) =
    kbind (sleep (ChPipeWrite pi) (PipeLock pi)) (\<lambda>_. kret (Inl i)) (take_lock (PipeLock pi) (woken (Some (ChPipeRead pi)) s))"
proof -
  have "settled (take_lock (PipeLock pi) s)" "lock_free (ProcLock p) (take_lock (PipeLock pi) s)" "procs_free (take_lock (PipeLock pi) s)"
    using assms(5-7) by (simp_all add: procs_free_def)
  then show ?thesis
    using assms(1-3) pipe_full [of "pipes s pi"] assms(4)
    by (simp add: pipewrite_step_def exec_simps killed_eq wakeup_eq kbind_exec split: outcome.split)
qed

text \<open>What is left of \<open>pipewrite\<close> when \<open>i\<close> bytes are written.\<close>

definition pipewrite_from :: "addr \<Rightarrow> nat \<Rightarrow> addr \<Rightarrow> int \<Rightarrow> int \<Rightarrow> int K" where
  "pipewrite_from pi pr a n i =
     kbind (kloop (pipewrite_step pi pr a n) i) (\<lambda>r.
     case r of
       None \<Rightarrow> kbind (release (PipeLock pi)) (\<lambda>_. kret (- 1))
     | Some i \<Rightarrow> kbind (kseq [wakeup (Some (ChPipeRead pi)), release (PipeLock pi)]) (\<lambda>_. kret i))"

lemma pipewrite_start:
  assumes "procs_free s" "c_proc (mycpu_of s) = Some p" "lock_free (PipeLock pi) s"
  shows "pipewrite pi a n s = pipewrite_from pi p a n 0 (take_lock (PipeLock pi) s)"
proof -
  have "pipewrite pi a n = kbind curproc (\<lambda>pr. kbind (acquire (PipeLock pi)) (\<lambda>_. pipewrite_from pi pr a n 0))"
    by (simp only: pipewrite_def pipewrite_from_def)
  moreover have "settled s" using assms(1) by (simp add: procs_free_def)
  ultimately show ?thesis using assms by (simp add: exec_simps lock_exec)
qed

lemma pipewrite_done:
  assumes "kloop (pipewrite_step pi p a n) i (take_lock (PipeLock pi) s) = Ret (Some k) (take_lock (PipeLock pi) t)"
    and "procs_free t" "lock_free (PipeLock pi) t"
  shows "pipewrite_from pi p a n i (take_lock (PipeLock pi) s) = Ret k (woken (Some (ChPipeRead pi)) t)"
proof -
  have "settled t" using assms(2) by (simp add: procs_free_def)
  then show ?thesis using assms by (simp add: pipewrite_from_def exec_simps lock_exec wakeup_eq)
qed

lemma pipewrite_refused:
  assumes "i < n" "\<not> (pi_readopen (pipes s pi) \<and> p_killed (procs s p) = 0)" "procs_free s" "p < NPROC" "lock_free (PipeLock pi) s"
  shows "pipewrite_from pi p a n i (take_lock (PipeLock pi) s) = Ret (- 1) s"
proof -
  have "settled s" "lock_free (ProcLock p) s" using assms(3,4) by (auto simp: procs_free_def)
  moreover from this have "kloop (pipewrite_step pi p a n) i (take_lock (PipeLock pi) s) = Ret None (take_lock (PipeLock pi) s)"
    using assms by (intro kloop_done) (auto simp: pipewrite_step_def exec_simps killed_eq)
  ultimately show ?thesis using assms by (simp add: pipewrite_from_def exec_simps lock_exec)
qed

lemma pipewrite_waits:
  assumes "i < n" "pi_readopen (pipes s pi)" "p_killed (procs s p) = 0" "length (pipe_queue (pipes s pi)) = PIPESIZE"
    and "procs_free s" "p < NPROC" "lock_free (PipeLock pi) s" "in_proc p s"
  defines "s' \<equiv> woken (Some (ChPipeRead pi)) s"
  shows "env s = [] \<Longrightarrow> pipewrite_from pi p a n i (take_lock (PipeLock pi) s) = Switched (asleep p (ChPipeWrite pi) s')"
    "wakes_to p (asleep p (ChPipeWrite pi) s') t \<Longrightarrow> c_noff (mycpu_of t) = 0 \<Longrightarrow> lock_free (PipeLock pi) t \<Longrightarrow>
     pipewrite_from pi p a n i (take_lock (PipeLock pi) s) = pipewrite_from pi p a n i (take_lock (PipeLock pi) (woke_up p (sie s) t))"
proof -
  note step = pipewrite_full [OF assms(1-7), of a]
  have in': "in_proc p s'" "lock_free (PipeLock pi) s'" "sie s' = sie s" "env s' = env s"
    using assms(7,8) by (auto simp: s'_def in_proc_def visitable_def) (auto simp: woken_def)
  show "pipewrite_from pi p a n i (take_lock (PipeLock pi) s) = Switched (asleep p (ChPipeWrite pi) s')" if "env s = []"
  proof -
    have "sleep (ChPipeWrite pi) (PipeLock pi) (take_lock (PipeLock pi) s') = Switched (asleep p (ChPipeWrite pi) s')"
      using in' that by (intro sleep_never) simp_all
    then show ?thesis by (simp add: pipewrite_from_def kbind_exec kloop_unfold [where s = "take_lock _ s"] step s'_def)
  qed
  show "pipewrite_from pi p a n i (take_lock (PipeLock pi) s) = pipewrite_from pi p a n i (take_lock (PipeLock pi) (woke_up p (sie s) t))"
    if "wakes_to p (asleep p (ChPipeWrite pi) s') t" "c_noff (mycpu_of t) = 0" "lock_free (PipeLock pi) t"
  proof -
    have "sleep (ChPipeWrite pi) (PipeLock pi) (take_lock (PipeLock pi) s') = Ret () (take_lock (PipeLock pi) (woke_up p (sie s) t))"
      using sleep_runs [OF in'(1,2) _ that] in'(3) by simp
    then have "kloop (pipewrite_step pi p a n) i (take_lock (PipeLock pi) s) =
        kloop (pipewrite_step pi p a n) i (take_lock (PipeLock pi) (woke_up p (sie s) t))"
      using step by (intro kloop_round) (simp add: kbind_exec kret_exec s'_def)
    then show ?thesis by (simp add: pipewrite_from_def kbind_exec)
  qed
qed

text \<open>What fits is written; then the loop is at a full pipe, or the call returns.\<close>

lemma pipewrite_goes_on:
  fixes s :: kworld and a pi :: addr and i n p :: nat
  assumes "procs_free s" "p < NPROC" "lock_free (PipeLock pi) s" "twf 2 (mem s) (p_pagetable (procs s p))"
    and "length (pipe_queue (pipes s pi)) \<le> PIPESIZE" "i \<le> n" "i < n \<longrightarrow> pi_readopen (pipes s pi) \<and> p_killed (procs s p) = 0"
  defines "room \<equiv> PIPESIZE - length (pipe_queue (pipes s pi))"
  defines "k \<equiv> ok_prefix (mem s) (p_pagetable (procs s p)) (a + of_nat i) (min (n - i) room)"
  shows "\<exists>x. pipe_queue x = pipe_queue (pipes s pi) @ user_bytes (mem s) (p_pagetable (procs s p)) (a + of_nat i) k \<and>
    pi_readopen x = pi_readopen (pipes s pi) \<and> pi_writeopen x = pi_writeopen (pipes s pi) \<and>
    pipewrite_from pi p a (int n) (int i) (take_lock (PipeLock pi) s) = (if k = room \<and> i + k < n
      then pipewrite_from pi p a (int n) (int (i + k)) (take_lock (PipeLock pi) (s\<lparr>pipes := (pipes s)(pi := x)\<rparr>))
      else Ret (int (i + k)) (woken (Some (ChPipeRead pi)) (s\<lparr>pipes := (pipes s)(pi := x)\<rparr>)))"
proof (cases "i = n")
  case True
  then have "kloop (pipewrite_step pi p a (int n)) (int i) (take_lock (PipeLock pi) s) = Ret (Some (int i)) (take_lock (PipeLock pi) s)"
    by (intro kloop_done) (simp add: pipewrite_step_def exec_simps)
  then have "pipewrite_from pi p a (int n) (int i) (take_lock (PipeLock pi) s) = Ret (int i) (woken (Some (ChPipeRead pi)) s)"
    using assms(1,3) by (rule pipewrite_done)
  then show ?thesis using True by (intro exI [of _ "pipes s pi"]) (simp add: k_def user_bytes_def)
next
  case False
  then have lt: "i < n" and op: "pi_readopen (pipes s pi)" "p_killed (procs s p) = 0" using assms(6,7) by auto
  let ?l = "take_lock (PipeLock pi)" and ?d = "min (n - i) room" and ?step = "pipewrite_step pi p a (int n)"
  have st: "settled s" "lock_free (ProcLock p) s" using assms(1,2) by (auto simp: procs_free_def)
  have "int i + int ?d \<le> int n" "length (pipe_queue (pipes s pi)) + ?d \<le> PIPESIZE" using lt assms(5) by (auto simp: room_def)
  then obtain x where x: "kloop ?step (int i) (?l s) = (if k < ?d then Ret (Some (int (i + k))) (?l (s\<lparr>pipes := (pipes s)(pi := x)\<rparr>))
      else kloop ?step (int (i + ?d)) (?l (s\<lparr>pipes := (pipes s)(pi := x)\<rparr>)))"
    "pipe_queue x = pipe_queue (pipes s pi) @ user_bytes (mem s) (p_pagetable (procs s p)) (a + of_nat i) k"
    "pi_readopen x" "pi_writeopen x = pi_writeopen (pipes s pi)"
    using pipewrite_loop [of "?l s" p pi "int i" ?d "int n" a] assms(4) op st by (auto simp: k_def [symmetric] cong: if_cong)
  let ?t = "s\<lparr>pipes := (pipes s)(pi := x)\<rparr>"
  have kd: "k \<le> ?d" unfolding k_def by (rule ok_prefix_le)
  have "pipewrite_from pi p a (int n) (int i) (?l s) = (if k = room \<and> i + k < n then pipewrite_from pi p a (int n) (int (i + k)) (?l ?t)
      else Ret (int (i + k)) (woken (Some (ChPipeRead pi)) ?t))"
  proof (cases "k = room \<and> i + k < n")
    case True
    then have "k = ?d" by auto
    then have "kloop ?step (int i) (?l s) = kloop ?step (int (i + k)) (?l ?t)" using x(1) by simp
    then show ?thesis unfolding if_P [OF True] by (simp add: pipewrite_from_def kbind_exec)
  next
    case False
    have "kloop ?step (int i) (?l s) = Ret (Some (int (i + k))) (?l ?t)"
    proof (cases "k < ?d")
      case False
      then have "k = n - i" using kd \<open>\<not> (k = room \<and> i + k < n)\<close> by auto
      moreover have "kloop ?step (int n) (?l ?t) = Ret (Some (int n)) (?l ?t)" by (intro kloop_done) (simp add: pipewrite_step_def exec_simps)
      ultimately show ?thesis using x(1) False kd lt by simp
    qed (use x(1) in simp)
    then show ?thesis using pipewrite_done [of pi p a "int n" "int i" s "int (i + k)" ?t] assms(1,3) by (simp add: procs_free_def if_not_P [OF False])
  qed
  then show ?thesis using x(2-4) op by (intro exI [of _ x]) simp
qed

section \<open>Reading\<close>

lemma copyout_one:
  assumes "twf 2 (mem s) pt"
  shows "\<not> user_ok (mem s) pt va \<Longrightarrow> copyout pt va [c] s = Ret (- 1) s"
    "user_ok (mem s) pt va \<Longrightarrow> copyout pt va [c] s = Ret 0 (s\<lparr>mem := (mem s)(user_addr (mem s) pt va := c)\<rparr>)"
proof -
  assume "\<not> user_ok (mem s) pt va"
  then show "copyout pt va [c] s = Ret (- 1) s" unfolding copyout_def
    by (intro kloop_done) (simp add: copyout_step_def exec_simps walkaddr_user [OF assms])
next
  let ?a = "user_addr (mem s) pt va" and ?t = "s\<lparr>mem := (mem s)(user_addr (mem s) pt va := c)\<rparr>"
  assume ok: "user_ok (mem s) pt va"
  have span: "page_span va (Suc 0) = Suc 0" using first_span [of 1 va] by simp
  have "write_bytes (mem s) ?a [c] = (mem s)(?a := c)"
    by (auto simp: write_bytes_def fun_eq_iff unat_eq_0)
  then have "copyout_step pt (va, [c]) s = Ret (Inl (PGROUNDDOWN va + PGSIZE, [])) ?t"
    using ok by (simp add: copyout_step_def exec_simps walkaddr_user [OF assms] user_ok_def span kwrite_def user_addr_def)
  then show "copyout pt va [c] s = Ret 0 ?t" unfolding copyout_def
    by (subst kloop_round, assumption) (simp add: kloop_done copyout_step_def exec_simps)
qed

text \<open>A byte stored in user memory changes no page table and no other user byte.\<close>

lemma user_store:
  fixes c :: byte
  assumes "twf 2 m pt" "user_ok m pt va" "frame_of m pt va \<notin> tset 2 m pt"
  defines "m' \<equiv> m(user_addr m pt va := c)"
  shows "twf 2 m' pt" "tset 2 m' pt = tset 2 m pt" "entry 2 m' pt v = entry 2 m pt v"
proof -
  let ?f = "frame_of m pt va"
  have "m' = write_bytes m (?f + of_nat (unat va mod 4096)) [c]"
    unfolding m'_def user_addr_def
    by (simp only: page_offset(1) [symmetric] of_nat_unat ucast_id) (auto simp: write_bytes_def fun_eq_iff unat_eq_0)
  moreover have "unat va mod 4096 + length [c] \<le> 4096" using page_offset(2) [of va] by simp
  ultimately have "only_pages m m' {?f}" using aligned_PTE2PA by (simp only: write_in_page)
  then show "twf 2 m' pt" "tset 2 m' pt = tset 2 m pt" "entry 2 m' pt v = entry 2 m pt v"
    using user_frame [OF assms(1)] assms(3) by auto
qed

lemma user_addr_inj:
  assumes "own_frames m pt va n" "n < 2 ^ 64" "i < n" "j < n" "user_ok m pt (va + of_nat i)"
    and "user_addr m pt (va + of_nat i) = user_addr m pt (va + of_nat j)"
  shows "i = j"
proof -
  let ?v = "va + of_nat i" and ?w = "va + of_nat j"
  have split: "PGROUNDDOWN (user_addr m pt v) = frame_of m pt v \<and> unat (user_addr m pt v) mod 4096 = unat v mod 4096" for v
  proof -
    have al: "4096 dvd unat (frame_of m pt v)" using aligned_PTE2PA aligned_dvd by blast
    then have 0: "unat (frame_of m pt v) mod 4096 = 0" by simp
    have eq: "user_addr m pt v = frame_of m pt v + of_nat (unat v mod 4096)"
      unfolding user_addr_def by (simp only: page_offset(1) [symmetric] of_nat_unat ucast_id)
    have lt: "unat (frame_of m pt v) mod 4096 + unat v mod 4096 < 4096" using 0 by simp
    have "PGROUNDDOWN (frame_of m pt v) = frame_of m pt v"
      using al by (auto simp: word_unat_eq_iff unat_PGROUNDDOWN)
    then show ?thesis using PGROUNDDOWN_step [OF lt] al unfolding eq by (simp add: mod_add_left_eq [symmetric])
  qed
  then have f: "frame_of m pt ?v = frame_of m pt ?w" and o: "unat ?v mod 4096 = unat ?w mod 4096" using assms(6) by metis+
  then have "PGROUNDDOWN ?v = PGROUNDDOWN ?w" using assms(1,3,4,5) unfolding own_frames_def by blast
  then have "4096 * (unat ?v div 4096) = 4096 * (unat ?w div 4096)" by (metis unat_PGROUNDDOWN)
  then have "unat ?v = unat ?w" using o by (metis mult_div_mod_eq)
  then have "(of_nat i :: addr) = of_nat j" by (simp add: word_unat_eq_iff [symmetric])
  then have "unat (of_nat i :: addr) = unat (of_nat j :: addr)" by simp
  then show ?thesis using assms(2-4) by simp
qed

text \<open>
  The copying loop: as many bytes as asked for, as there are, and as the user's memory takes; a byte that does not reach
  the user's memory is taken from the pipe nevertheless.
\<close>

definition taken :: "nat \<Rightarrow> nat \<Rightarrow> nat" where
  "taken k avail = (if k < avail then Suc k else k)"

definition bytes_only :: "mem \<Rightarrow> mem \<Rightarrow> addr \<Rightarrow> addr \<Rightarrow> nat \<Rightarrow> bool" where
  "bytes_only m m' pt va k \<longleftrightarrow> (\<forall>b. (\<forall>j<k. b \<noteq> user_addr m pt (va + of_nat j)) \<longrightarrow> m' b = m b)"

lemma user_addr_entry: "(\<And>v. entry 2 m' pt v = entry 2 m pt v) \<Longrightarrow> user_addr m' pt = user_addr m pt"
  by (simp add: user_addr_def fun_eq_iff)

lemma bytes_only_refl: "bytes_only m m pt va k"
  by (simp add: bytes_only_def)

lemma bytes_only_Cons:
  assumes "bytes_only (m(user_addr m pt va := c)) m' pt (va + 1) k"
    and "\<And>v. entry 2 (m(user_addr m pt va := c)) pt v = entry 2 m pt v"
  shows "bytes_only m m' pt va (Suc k)"
  unfolding bytes_only_def
proof (intro allI impI)
  fix b
  assume b: "\<forall>j<Suc k. b \<noteq> user_addr m pt (va + of_nat j)"
  have "b \<noteq> user_addr (m(user_addr m pt va := c)) pt (va + 1 + of_nat j)" if "j < k" for j
    using b [rule_format, of "Suc j"] that unfolding user_addr_entry [OF assms(2)] by (simp add: add.assoc)
  then have "m' b = (m(user_addr m pt va := c)) b" using assms(1) unfolding bytes_only_def by blast
  then show "m' b = m b" using b [rule_format, of 0] by simp
qed

lemma own_frames_less: "own_frames m pt va n \<Longrightarrow> k \<le> n \<Longrightarrow> own_frames m pt va k"
  by (auto simp: own_frames_def)

text \<open>The byte stored first is still there after the later ones.\<close>

lemma stored_kept:
  assumes "own_frames m pt va (Suc d)" "Suc d < 2 ^ 64" "user_ok m pt va"
    and "\<And>v. entry 2 (m(user_addr m pt va := c)) pt v = entry 2 m pt v"
    and "bytes_only (m(user_addr m pt va := c)) m' pt (va + 1) k" "k \<le> d"
  shows "m' (user_addr m pt va) = c"
proof -
  have "user_addr m pt va \<noteq> user_addr (m(user_addr m pt va := c)) pt (va + 1 + of_nat j)" if "j < k" for j
  proof
    assume "user_addr m pt va = user_addr (m(user_addr m pt va := c)) pt (va + 1 + of_nat j)"
    then have "user_addr m pt (va + of_nat 0) = user_addr m pt (va + of_nat (Suc j))"
      unfolding user_addr_entry [OF assms(4)] by (simp add: add.assoc)
    then have "0 = Suc j" using that assms(3,6) by (intro user_addr_inj [OF assms(1,2)]) simp_all
    then show False by simp
  qed
  then show ?thesis using assms(5) unfolding bytes_only_def by (metis fun_upd_same)
qed

lemma piperead_round:
  fixes a :: addr and s :: kworld
  assumes "twf 2 (mem s) (p_pagetable (procs s p))" "i < n" "pi_nread (pipes s pi) \<noteq> pi_nwrite (pipes s pi)"
  defines "pt \<equiv> p_pagetable (procs s p)" and "va \<equiv> a + of_int i"
  defines "s1 \<equiv> upd_pipe pi pipe_get s"
  shows "piperead_step pi p a n i s = (if user_ok (mem s) pt va
    then Ret (Inl (i + 1)) (s1\<lparr>mem := (mem s)(user_addr (mem s) pt va := hd (pipe_queue (pipes s pi)))\<rparr>) else Ret (Inr i) s1)"
proof -
  have wf: "twf 2 (mem s1) pt" "mem s1 = mem s" using assms(1) by (simp_all add: s1_def pt_def)
  have s1: "upd_pipe pi (\<lambda>x. x\<lparr>pi_nread := pi_nread x + 1\<rparr>) s = s1" by (simp add: s1_def upd_pipe_def pipe_get_def)
  note co = copyout_one [OF wf(1), unfolded wf(2)]
  have pt: "p_pagetable (procs s1 p) = pt" by (simp add: s1_def pt_def)
  show ?thesis
    using assms(2,3) co [of va "hd (pipe_queue (pipes s pi))"]
    by (cases "user_ok (mem s) pt va")
       (simp_all add: piperead_step_def exec_simps s1 pt va_def [symmetric] pipe_queue_get [OF assms(3)])
qed

lemma piperead_loop:
  fixes a pi :: addr and s :: kworld
  assumes "twf 2 (mem s) (p_pagetable (procs s p))" "own_frames (mem s) (p_pagetable (procs s p)) (a + of_int i) d"
    and "d < 2 ^ 64" "int d = n - i"
  defines "pt \<equiv> p_pagetable (procs s p)" and "q \<equiv> pipe_queue (pipes s pi)"
  defines "k \<equiv> ok_prefix (mem s) pt (a + of_int i) (min d (length q))"
  shows "\<exists>m' x. kloop (piperead_step pi p a n) i s = Ret (i + int k) (s\<lparr>mem := m', pipes := (pipes s)(pi := x)\<rparr>) \<and>
    user_bytes m' pt (a + of_int i) k = take k q \<and> bytes_only (mem s) m' pt (a + of_int i) k \<and>
    (\<forall>v. entry 2 m' pt v = entry 2 (mem s) pt v) \<and>
    pipe_queue x = drop (taken k (min d (length q))) q \<and> pi_readopen x = pi_readopen (pipes s pi) \<and>
    pi_writeopen x = pi_writeopen (pipes s pi)"
  using assms(1-4) unfolding k_def pt_def q_def
proof (induction d arbitrary: i s)
  case 0
  then have "kloop (piperead_step pi p a n) i s = Ret i s"
    by (intro kloop_done) (simp add: piperead_step_def exec_simps)
  then show ?case
    by (intro exI [of _ "mem s"] exI [of _ "pipes s pi"]) (simp add: user_bytes_def bytes_only_refl taken_def)
next
  case (Suc d)
  let ?pt = "p_pagetable (procs s p)" and ?x = "pipes s pi" and ?va = "a + of_int i"
  have i: "i < n" using Suc.prems(4) by simp
  show ?case
  proof (cases "pipe_queue ?x")
    case Nil
    then have "kloop (piperead_step pi p a n) i s = Ret i s"
      using i by (intro kloop_done) (simp add: piperead_step_def exec_simps pipe_empty_iff)
    with Nil show ?thesis
      by (intro exI [of _ "mem s"] exI [of _ ?x]) (simp add: user_bytes_def bytes_only_refl taken_def)
  next
    case (Cons c cs)
    then have ne: "pi_nread ?x \<noteq> pi_nwrite ?x" by (simp add: pipe_empty_iff)
    then have cs: "pipe_queue (pipe_get ?x) = cs" using pipe_queue_get [OF ne] Cons by simp
    note step = piperead_round [OF Suc.prems(1) i ne, where a = a]
    show ?thesis
    proof (cases "user_ok (mem s) ?pt ?va")
      case False
      then have "kloop (piperead_step pi p a n) i s = Ret i (upd_pipe pi pipe_get s)"
        using step by (intro kloop_done) simp
      with False Cons cs show ?thesis
        by (intro exI [of _ "mem s"] exI [of _ "pipe_get ?x"])
           (simp add: user_bytes_def bytes_only_refl taken_def upd_pipe_def fun_upd_def)
    next
      case True
      let ?A = "user_addr (mem s) ?pt ?va"
      let ?m = "(mem s)(?A := c)"
      let ?t = "(upd_pipe pi pipe_get s)\<lparr>mem := ?m\<rparr>"
      let ?k = "ok_prefix ?m ?pt (?va + 1) (min d (length cs))"
      have "frame_of (mem s) ?pt (?va + of_nat 0) \<notin> tset 2 (mem s) ?pt"
        using Suc.prems(2) [unfolded own_frames_def, rule_format, of 0] True by simp
      then have fr: "frame_of (mem s) ?pt ?va \<notin> tset 2 (mem s) ?pt" by simp
      note st = user_store [OF Suc.prems(1) True fr, of c]
      have round: "kloop (piperead_step pi p a n) i s = kloop (piperead_step pi p a n) (i + 1) ?t"
        using step True Cons by (intro kloop_round) simp
      have sel: "p_pagetable (procs ?t p) = ?pt" "mem ?t = ?m" "pipes ?t pi = pipe_get ?x" "a + of_int (i + 1) = ?va + 1" by simp_all
      have own: "own_frames ?m ?pt (?va + 1) d"
        using own_frames_rest [OF Suc.prems(2), of 1 ?m] st by simp
      have "\<exists>m' x. kloop (piperead_step pi p a n) (i + 1) ?t = Ret (i + 1 + int ?k) (?t\<lparr>mem := m', pipes := (pipes ?t)(pi := x)\<rparr>) \<and>
        user_bytes m' ?pt (?va + 1) ?k = take ?k cs \<and> bytes_only ?m m' ?pt (?va + 1) ?k \<and>
        (\<forall>v. entry 2 m' ?pt v = entry 2 ?m ?pt v) \<and> pipe_queue x = drop (taken ?k (min d (length cs))) cs \<and>
        pi_readopen x = pi_readopen (pipe_get ?x) \<and> pi_writeopen x = pi_writeopen (pipe_get ?x)"
        using st(1) own Suc.prems(3,4) by (intro Suc.IH [of ?t "i + 1", unfolded sel cs]) (simp_all add: fun_upd_def)
      then obtain m' x where x: "kloop (piperead_step pi p a n) (i + 1) ?t = Ret (i + 1 + int ?k) (?t\<lparr>mem := m', pipes := (pipes ?t)(pi := x)\<rparr>)"
        "user_bytes m' ?pt (?va + 1) ?k = take ?k cs" "bytes_only ?m m' ?pt (?va + 1) ?k"
        "\<And>v. entry 2 m' ?pt v = entry 2 ?m ?pt v" "pipe_queue x = drop (taken ?k (min d (length cs))) cs"
        "pi_readopen x = pi_readopen ?x" "pi_writeopen x = pi_writeopen ?x" by auto
      have A: "m' (user_addr m' ?pt ?va) = c"
        using stored_kept [OF Suc.prems(2,3) True st(3) x(3)] x(4) st(3) ok_prefix_le [of ?m ?pt "?va + 1" "min d (length cs)"]
        by (simp add: user_addr_def)
      have "?t\<lparr>mem := m', pipes := (pipes ?t)(pi := x)\<rparr> = s\<lparr>mem := m', pipes := (pipes s)(pi := x)\<rparr>" by (simp add: upd_pipe_def)
      moreover have "?k = ok_prefix (mem s) ?pt (?va + 1) (min d (length cs))" using st(3) by (rule ok_prefix_cong)
      ultimately show ?thesis
        unfolding round using x A Cons True st(3) bytes_only_Cons [OF x(3) st(3)]
        by (intro exI [of _ m'] exI [of _ x]) (simp add: user_bytes_Cons taken_def fun_upd_def)
    qed
  qed
qed

section \<open>An example pipe\<close>

text \<open>Process 0 runs on the example address space; the pipe holds the bytes 7 and 8.\<close>

definition example_pipe :: pipe where
  "example_pipe = pipe_put 8 (pipe_put 7 (zero_pipe\<lparr>pi_readopen := True, pi_writeopen := True\<rparr>))"

definition pipe_world :: kworld where
  "pipe_world = example_vm\<lparr>procs := (\<lambda>_. zero_proc\<lparr>p_state := RUNNING, p_pagetable := 0x80030000\<rparr>),
     cpus := (\<lambda>_. \<lparr>c_proc = Some 0, c_noff = 0, c_intena = False\<rparr>), pipes := (\<lambda>_. example_pipe)\<rparr>"

lemma example_pipe_queue: "pipe_queue example_pipe = [7, 8]"
proof -
  have "pipe_queue (zero_pipe\<lparr>pi_readopen := True, pi_writeopen := True\<rparr>) = []"
    by (simp add: pipe_empty_iff [symmetric] zero_pipe_def)
  then show ?thesis by (simp add: example_pipe_def pipe_queue_put PIPESIZE_def)
qed

lemma pipe_world_simps:
  "procs_free pipe_world" "c_proc (mycpu_of pipe_world) = Some 0" "lock_free lk pipe_world" "mem pipe_world = example_mem"
  "p_pagetable (procs pipe_world p) = 0x80030000" "pipes pipe_world pi = example_pipe" "p_killed (procs pipe_world p) = 0"
  by (simp_all add: pipe_world_def example_vm_def zero_world_def procs_free_def settled_def lock_free_def zero_proc_def)

lemma pipe_open: "pi_readopen example_pipe" "pi_writeopen example_pipe"
  by (simp_all add: example_pipe_def)

section \<open>Correctness\<close>

text \<open>
  C11. \<open>pipewrite\<close> appends to the queue and never overfills it. With \<open>i\<close> bytes already written (\<open>pipewrite\<close> starts with none) and the pipe's lock held, a process
  that is killed, or whose readers are gone, gets -1 and nothing changes. Otherwise the next bytes at the user's address are appended in order, as many as are asked for,
  as there is room for, and as can be read, and the readers asleep on the pipe are made runnable. If that fills the pipe and bytes are left, the writer sleeps on
  the pipe without its lock, and when it is resumed it holds the lock and goes on at the first byte not yet written. If not, the call returns the number of
  bytes written. Nothing else in the kernel changes.
\<close>
theorem pipewrite_appends:
  fixes s :: kworld and a pi :: addr and i n p :: nat
  assumes "procs_free s" "in_proc p s" "p < NPROC" "lock_free (PipeLock pi) s"
    and "twf 2 (mem s) (p_pagetable (procs s p))" "length (pipe_queue (pipes s pi)) \<le> PIPESIZE" "i \<le> n"
  defines "room \<equiv> PIPESIZE - length (pipe_queue (pipes s pi))"
  defines "k \<equiv> ok_prefix (mem s) (p_pagetable (procs s p)) (a + of_nat i) (min (n - i) room)"
  shows "pipewrite pi a (int n) s = pipewrite_from pi p a (int n) 0 (take_lock (PipeLock pi) s) \<and>
    (if i < n \<and> \<not> (pi_readopen (pipes s pi) \<and> p_killed (procs s p) = 0)
     then pipewrite_from pi p a (int n) (int i) (take_lock (PipeLock pi) s) = Ret (- 1) s
     else \<exists>x. pipe_queue x = pipe_queue (pipes s pi) @ user_bytes (mem s) (p_pagetable (procs s p)) (a + of_nat i) k \<and>
       length (pipe_queue x) \<le> PIPESIZE \<and> pi_readopen x = pi_readopen (pipes s pi) \<and> pi_writeopen x = pi_writeopen (pipes s pi) \<and>
       (let s' = woken (Some (ChPipeRead pi)) (s\<lparr>pipes := (pipes s)(pi := x)\<rparr>) in
        if k = room \<and> i + k < n
        then (env s = [] \<longrightarrow>
                pipewrite_from pi p a (int n) (int i) (take_lock (PipeLock pi) s) = Switched (asleep p (ChPipeWrite pi) s')) \<and>
             (\<forall>t. wakes_to p (asleep p (ChPipeWrite pi) s') t \<and> c_noff (mycpu_of t) = 0 \<and> lock_free (PipeLock pi) t \<longrightarrow>
                pipewrite_from pi p a (int n) (int i) (take_lock (PipeLock pi) s) =
                pipewrite_from pi p a (int n) (int (i + k)) (take_lock (PipeLock pi) (woke_up p (sie s) t)))
        else pipewrite_from pi p a (int n) (int i) (take_lock (PipeLock pi) s) = Ret (int (i + k)) s'))"
  (is "_ \<and> (if ?dead then _ else ?alive)")
proof (intro conjI)
  show "pipewrite pi a (int n) s = pipewrite_from pi p a (int n) 0 (take_lock (PipeLock pi) s)"
    using assms(1,2,4) by (intro pipewrite_start) (simp_all add: in_proc_def)
  have ?alive if alive: "\<not> ?dead"
  proof -
    obtain x where x: "pipe_queue x = pipe_queue (pipes s pi) @ user_bytes (mem s) (p_pagetable (procs s p)) (a + of_nat i) k"
      "pi_readopen x = pi_readopen (pipes s pi)" "pi_writeopen x = pi_writeopen (pipes s pi)"
      "pipewrite_from pi p a (int n) (int i) (take_lock (PipeLock pi) s) = (if k = room \<and> i + k < n
         then pipewrite_from pi p a (int n) (int (i + k)) (take_lock (PipeLock pi) (s\<lparr>pipes := (pipes s)(pi := x)\<rparr>))
         else Ret (int (i + k)) (woken (Some (ChPipeRead pi)) (s\<lparr>pipes := (pipes s)(pi := x)\<rparr>)))"
    proof -
      have "i < n \<longrightarrow> pi_readopen (pipes s pi) \<and> p_killed (procs s p) = 0" using alive by blast
      from pipewrite_goes_on [OF assms(1,3-7) this, of a] show thesis unfolding k_def [symmetric] room_def [symmetric] using that by blast
    qed
    let ?t = "s\<lparr>pipes := (pipes s)(pi := x)\<rparr>"
    have t: "procs_free ?t" "lock_free (PipeLock pi) ?t" "in_proc p ?t" using assms(1,2,4) by (simp_all add: procs_free_def in_proc_def visitable_def)
    have len: "length (pipe_queue x) = length (pipe_queue (pipes s pi)) + k" using x(1) by (simp add: user_bytes_def)
    have "k \<le> min (n - i) room" unfolding k_def by (rule ok_prefix_le)
    then have le: "length (pipe_queue x) \<le> PIPESIZE" using len assms(6) by (auto simp: room_def)
    show ?thesis
    proof (cases "k = room \<and> i + k < n")
      case True
      then have "length (pipe_queue (pipes ?t pi)) = PIPESIZE" "pi_readopen x" "p_killed (procs s p) = 0" using len assms(6) that x(2) by (auto simp: room_def)
      then show ?thesis
        using pipewrite_waits [where i = "int (i + k)" and n = "int n" and s = ?t and pi = pi and p = p and a = a] x(1,3,4) le True t assms(3) that
        by (intro exI [of _ x]) simp
    next
      case False
      then show ?thesis using x le by (intro exI [of _ x]) (simp add: Let_def if_not_P [OF False])
    qed
  qed
  then show "if ?dead then pipewrite_from pi p a (int n) (int i) (take_lock (PipeLock pi) s) = Ret (- 1) s else ?alive"
    using assms(1,3,4) pipewrite_refused [of "int i" "int n" s pi p a] by simp
qed

text \<open>A write of five bytes that fit, and a write of 600 bytes into a pipe that has room for 510 of them and that nobody reads: the writer sleeps on the full pipe.\<close>
theorem pipewrite_appends_witness:
  "(\<exists>x. pipewrite 0x80040000 0 5 pipe_world =
      Ret 5 (woken (Some (ChPipeRead 0x80040000)) (pipe_world\<lparr>pipes := (pipes pipe_world)(0x80040000 := x)\<rparr>)) \<and>
      pipe_queue x = [7, 8] @ user_bytes example_mem 0x80030000 0 5) \<and>
   (\<exists>x. pipewrite 0x80040000 0 600 pipe_world = Switched (asleep 0 (ChPipeWrite 0x80040000)
        (woken (Some (ChPipeRead 0x80040000)) (pipe_world\<lparr>pipes := (pipes pipe_world)(0x80040000 := x)\<rparr>))) \<and>
      pipe_queue x = [7, 8] @ user_bytes example_mem 0x80030000 0 510 \<and> length (pipe_queue x) \<le> PIPESIZE)"
proof -
  have p: "0 < NPROC" "in_proc 0 pipe_world" "env pipe_world = []" and room: "PIPESIZE - length [7, 8 :: byte] = 510"
    by (simp_all add: NPROC_def PIPESIZE_def in_proc_def visitable_def) (simp_all add: pipe_world_def example_vm_def zero_world_def settled_def lock_free_def)
  have ok: "ok_prefix example_mem 0x80030000 0 5 = 5" "ok_prefix example_mem 0x80030000 0 510 = 510"
    using range_ok_page [of 0 5] range_ok_page [of 0 510] example_user_ok by (simp_all add: ok_prefix_all)
  note W = pipewrite_appends [OF pipe_world_simps(1) p(2,1) pipe_world_simps(3), of "0x80040000" 0,
      unfolded pipe_world_simps(4-7) example_pipe_queue room]
  have pw: "pipes pipe_world = (\<lambda>_. example_pipe)" by (simp add: pipe_world_def)
  show ?thesis
  proof
    show "\<exists>x. pipewrite 0x80040000 0 5 pipe_world =
        Ret 5 (woken (Some (ChPipeRead 0x80040000)) (pipe_world\<lparr>pipes := (pipes pipe_world)(0x80040000 := x)\<rparr>)) \<and>
        pipe_queue x = [7, 8] @ user_bytes example_mem 0x80030000 0 5"
      using W [of 5 0] example_tree(1) ok(1) by (auto simp: pw pipe_open PIPESIZE_def Let_def)
    show "\<exists>x. pipewrite 0x80040000 0 600 pipe_world = Switched (asleep 0 (ChPipeWrite 0x80040000)
        (woken (Some (ChPipeRead 0x80040000)) (pipe_world\<lparr>pipes := (pipes pipe_world)(0x80040000 := x)\<rparr>))) \<and>
        pipe_queue x = [7, 8] @ user_bytes example_mem 0x80030000 0 510 \<and> length (pipe_queue x) \<le> PIPESIZE"
      using W [of 600 0] example_tree(1) ok(2) p(3) by (auto simp: pw pipe_open PIPESIZE_def Let_def)
  qed
qed

text \<open>
  C12. \<open>piperead\<close> takes from the front of the queue. When there is something to read, or the write end is closed, the
  call returns without waiting: the user's memory gets the first bytes of the queue, in order, as many as asked for, as there are
  and as the user's memory takes, and that number is the result (0 at the end of the file); no other byte of memory changes,
  writers asleep on the pipe are runnable, and the queue has lost what was read --- and, when the user's memory ends too early, the
  one byte that could not be delivered.
\<close>
theorem piperead_takes:
  assumes "procs_free s" "c_proc (mycpu_of s) = Some p" "p < NPROC" "lock_free (PipeLock pi) s"
    and "twf 2 (mem s) (p_pagetable (procs s p))" "own_frames (mem s) (p_pagetable (procs s p)) a n" "n < 2 ^ 31"
    and "pipe_queue (pipes s pi) \<noteq> [] \<or> \<not> pi_writeopen (pipes s pi)"
  shows "\<exists>k m x. piperead pi a (int n) s =
      Ret (int k) (woken (Some (ChPipeWrite pi)) (s\<lparr>mem := m, pipes := (pipes s)(pi := x)\<rparr>)) \<and>
    k \<le> min n (length (pipe_queue (pipes s pi))) \<and>
    (k = min n (length (pipe_queue (pipes s pi))) \<longleftrightarrow>
      range_ok (mem s) (p_pagetable (procs s p)) a (min n (length (pipe_queue (pipes s pi))))) \<and>
    user_bytes m (p_pagetable (procs s p)) a k = take k (pipe_queue (pipes s pi)) \<and>
    bytes_only (mem s) m (p_pagetable (procs s p)) a k \<and>
    pipe_queue x = drop (taken k (min n (length (pipe_queue (pipes s pi))))) (pipe_queue (pipes s pi))"
proof -
  let ?l = "take_lock (PipeLock pi)" and ?pt = "p_pagetable (procs s p)" and ?q = "pipe_queue (pipes s pi)"
  let ?k = "ok_prefix (mem s) ?pt a (min n (length ?q))"
  have st: "settled s" using assms(1) by (simp add: procs_free_def)
  have "piperead_wait pi p (?l s) = Ret False (?l s)"
    unfolding piperead_wait_def using assms(8)
    by (intro kloop_done) (auto simp: exec_simps pipe_empty_iff)
  moreover obtain m x where x: "kloop (piperead_step pi p a (int n)) 0 (?l s) = Ret (int ?k) (?l (s\<lparr>mem := m, pipes := (pipes s)(pi := x)\<rparr>))"
    "user_bytes m ?pt a ?k = take ?k ?q" "bytes_only (mem s) m ?pt a ?k" "pipe_queue x = drop (taken ?k (min n (length ?q))) ?q"
    using piperead_loop [of "?l s" p a 0 n "int n" pi] assms by auto
  moreover have "procs_free (s\<lparr>mem := m, pipes := (pipes s)(pi := x)\<rparr>)" using assms(1) by (simp add: procs_free_def)
  ultimately have "piperead pi a (int n) s = Ret (int ?k) (woken (Some (ChPipeWrite pi)) (s\<lparr>mem := m, pipes := (pipes s)(pi := x)\<rparr>))"
    using assms st by (simp add: piperead_def exec_simps lock_exec wakeup_eq)
  with x show ?thesis
    using ok_prefix_le [of "mem s" ?pt a "min n (length ?q)"]
    by (intro exI [of _ ?k] exI [of _ m] exI [of _ x]) (simp add: ok_prefix_all)
qed

theorem piperead_takes_witness:
  "\<exists>m x. piperead 0x80040000 0 5 pipe_world =
     Ret 2 (woken (Some (ChPipeWrite 0x80040000)) (pipe_world\<lparr>mem := m, pipes := (pipes pipe_world)(0x80040000 := x)\<rparr>)) \<and>
     user_bytes m 0x80030000 0 2 = [7, 8] \<and> pipe_queue x = []"
proof -
  have "0 < NPROC" and two: "range_ok example_mem 0x80030000 0 (min 5 (length [7, 8 :: byte]))"
    using example_range by (simp_all add: NPROC_def range_ok_def)
  then obtain k m x where x: "piperead 0x80040000 0 (int 5) pipe_world =
      Ret (int k) (woken (Some (ChPipeWrite 0x80040000)) (pipe_world\<lparr>mem := m, pipes := (pipes pipe_world)(0x80040000 := x)\<rparr>))"
    "k = min 5 (length [7, 8 :: byte]) \<longleftrightarrow> range_ok example_mem 0x80030000 0 (min 5 (length [7, 8 :: byte]))"
    "user_bytes m 0x80030000 0 k = take k [7, 8]" "pipe_queue x = drop (taken k (min 5 (length [7, 8 :: byte]))) [7, 8]"
    using piperead_takes [OF pipe_world_simps(1,2), of "0x80040000" 0 5,
        unfolded pipe_world_simps(4-6) example_pipe_queue, OF _ pipe_world_simps(3) example_tree(1) example_own]
    unfolding pipe_world_simps(6) [abs_def] by auto
  then have "k = 2" using two by simp
  with x show ?thesis by (intro exI [of _ m] exI [of _ x]) (simp add: taken_def)
qed

end
