(* ===== verification/Descriptors.thy ===== *)
theory Descriptors
  imports Syscall Pipe
begin

text \<open>
  Files and their descriptors as user programs see them: reference counts of the file table (\<open>kernel/file.c\<close>), the descriptor
  table of a process (\<open>kernel/sysfile.c\<close>), and the way from the trap to the handler of a system call (\<open>kernel/syscall.c\<close>).
\<close>

section \<open>The file table\<close>

lemma upd_file_select [simp]: "ftable (upd_file f g s) = (ftable s)(f := g (ftable s f))"
  by (simp add: upd_file_def)

lemma filealloc_eq:
  assumes "settled s" "lock_free FtableLock s"
  shows "filealloc s = (case first_index (\<lambda>i. f_ref (ftable s i) = 0) NFILE of
     None \<Rightarrow> Ret None s | Some f \<Rightarrow> Ret (Some f) (upd_file f (\<lambda>x. x\<lparr>f_ref := 1\<rparr>) s))"
  using assms by (simp add: filealloc_def exec_simps lock_exec split: option.splits)

lemma filedup_eq:
  assumes "settled s" "lock_free FtableLock s"
  shows "filedup f s = (if f_ref (ftable s f) < 1 then Panic ''filedup'' else Ret f (upd_file f (\<lambda>x. x\<lparr>f_ref := f_ref x + 1\<rparr>) s))"
  using assms by (simp add: filedup_def exec_simps lock_exec)

lemma fileclose_more:
  assumes "settled s" "lock_free FtableLock s"
  shows "f_ref (ftable s f) < 1 \<Longrightarrow> fileclose f s = Panic ''fileclose''"
    "1 < f_ref (ftable s f) \<Longrightarrow> fileclose f s = Ret () (upd_file f (\<lambda>x. x\<lparr>f_ref := f_ref x - 1\<rparr>) s)"
  using assms by (simp_all add: fileclose_def exec_simps lock_exec)

text \<open>Closing the last reference to one end of a pipe whose other end is still open.\<close>

definition closed_end :: "bool \<Rightarrow> pipe \<Rightarrow> pipe" where
  "closed_end writable x = (if writable then x\<lparr>pi_writeopen := False\<rparr> else x\<lparr>pi_readopen := False\<rparr>)"

lemma pipeclose_one:
  assumes "procs_free s" "lock_free (PipeLock pi) s" "pi_readopen (closed_end w (pipes s pi)) \<or> pi_writeopen (closed_end w (pipes s pi))"
  shows "pipeclose pi w s =
    Ret () (woken (Some (if w then ChPipeRead pi else ChPipeWrite pi)) (upd_pipe pi (closed_end w) s))"
proof -
  have st: "settled s" using assms(1) by (simp add: procs_free_def)
  have eqs: "closed_end True = pi_writeopen_update (\<lambda>_. False)" "closed_end False = pi_readopen_update (\<lambda>_. False)"
    by (simp_all add: closed_end_def fun_eq_iff)
  have "pipes (woken ch t) = pipes t" for ch and t :: kworld by (simp add: woken_def)
  then show ?thesis using assms st by (cases w) (auto simp: pipeclose_def exec_simps lock_exec wakeup_eq eqs)
qed

lemma fileclose_pipe:
  assumes "procs_free s" "lock_free FtableLock s" "f_ref (ftable s f) = 1" "f_type (ftable s f) = FD_PIPE"
  defines "pi \<equiv> f_pipe (ftable s f)" and "w \<equiv> f_writable (ftable s f)"
  shows "fileclose f s = pipeclose pi w (upd_file f (\<lambda>x. x\<lparr>f_ref := 0, f_type := FD_NONE\<rparr>) s)"
proof -
  have st: "settled s" using assms(1) by (simp add: procs_free_def)
  then show ?thesis using assms
    by (simp add: fileclose_def exec_simps lock_exec) (simp add: upd_file_def split: outcome.splits)
qed

section \<open>Arguments of system calls\<close>

text \<open>Argument \<open>n\<close> of the system call process \<open>p\<close> makes.\<close>

definition sys_arg :: "nat \<Rightarrow> nat \<Rightarrow> 'z kstate_scheme \<Rightarrow> addr" where
  "sys_arg p n s = load64 (mem s) (p_trapframe (procs s p) + (tf_a0 + 8 * of_nat n))"

lemma argraw_eq:
  assumes "settled s" "c_proc (mycpu_of s) = Some p" "n < 6"
  shows "argraw (int n) s = Ret (sys_arg p n s) s"
proof -
  have "n = 0 \<or> n = 1 \<or> n = 2 \<or> n = 3 \<or> n = 4 \<or> n = 5" using assms(3) by auto
  then show ?thesis using assms
    by (elim disjE) (simp_all add: argraw_def exec_simps lock_exec get_tf_def sys_arg_def tf_a0_def tf_a1_def tf_a2_def tf_a3_def tf_a4_def tf_a5_def)
qed

lemma argint_eq:
  assumes "settled s" "c_proc (mycpu_of s) = Some p" "n < 6"
  shows "argint (int n) s = Ret (sint (ucast (sys_arg p n s) :: u32)) s"
  using argraw_eq [OF assms] by (simp add: argint_def exec_simps)

text \<open>The descriptor a system call names, with the file behind it.\<close>

definition fd_file :: "nat \<Rightarrow> int \<Rightarrow> 'z kstate_scheme \<Rightarrow> nat option" where
  "fd_file p fd s = (if fd < 0 \<or> fd \<ge> int NOFILE then None else p_ofile (procs s p) (nat fd))"

lemma argfd_eq:
  assumes "settled s" "c_proc (mycpu_of s) = Some p" "n < 6"
  defines "fd \<equiv> sint (ucast (sys_arg p n s) :: u32)"
  shows "argfd (int n) s = Ret (map_option (\<lambda>f. (nat fd, f)) (fd_file p fd s)) s"
  using assms argint_eq [OF assms(1-3)]
  by (auto simp: argfd_def exec_simps lock_exec fd_file_def get_proc_def fd_def split: option.splits)

lemma fdalloc_eq:
  assumes "settled s" "c_proc (mycpu_of s) = Some p"
  shows "fdalloc f s = (case first_index (\<lambda>fd. p_ofile (procs s p) fd = None) NOFILE of
     None \<Rightarrow> Ret (- 1) s | Some fd \<Rightarrow> Ret (int fd) (upd_proc p (\<lambda>q. q\<lparr>p_ofile := (p_ofile q)(fd := Some f)\<rparr>) s))"
  using assms by (simp add: fdalloc_def exec_simps lock_exec get_proc_def set_ofile_def split: option.splits)

section \<open>Correctness\<close>

text \<open>
  C25. Reference counts of the file table. \<open>filealloc\<close> hands out the lowest entry without references, with one reference, or
  nothing when there is none; \<open>filedup\<close> adds a reference and \<open>fileclose\<close> takes one away, changing nothing else while others are
  left; both panic on an entry without references. Closing the last reference to an end of a pipe frees the entry,
  closes that end of the pipe and makes those asleep at the other end runnable.
\<close>
theorem file_refcounts:
  assumes "procs_free s" "lock_free FtableLock s"
  shows "filealloc s = (case first_index (\<lambda>i. f_ref (ftable s i) = 0) NFILE of
      None \<Rightarrow> Ret None s | Some f \<Rightarrow> Ret (Some f) (upd_file f (\<lambda>x. x\<lparr>f_ref := 1\<rparr>) s)) \<and>
    filedup f s = (if f_ref (ftable s f) < 1 then Panic ''filedup'' else Ret f (upd_file f (\<lambda>x. x\<lparr>f_ref := f_ref x + 1\<rparr>) s)) \<and>
    (f_ref (ftable s f) < 1 \<longrightarrow> fileclose f s = Panic ''fileclose'') \<and>
    (1 < f_ref (ftable s f) \<longrightarrow> fileclose f s = Ret () (upd_file f (\<lambda>x. x\<lparr>f_ref := f_ref x - 1\<rparr>) s)) \<and>
    (\<forall>pi w. ftable s f = (ftable s f)\<lparr>f_ref := 1, f_type := FD_PIPE, f_pipe := pi, f_writable := w\<rparr> \<and> lock_free (PipeLock pi) s \<and>
       (if w then pi_readopen (pipes s pi) else pi_writeopen (pipes s pi)) \<longrightarrow>
       fileclose f s = Ret () (woken (Some (if w then ChPipeRead pi else ChPipeWrite pi))
         (upd_pipe pi (closed_end w) (upd_file f (\<lambda>x. x\<lparr>f_ref := 0, f_type := FD_NONE\<rparr>) s))))"
proof -
  have st: "settled s" using assms(1) by (simp add: procs_free_def)
  note eqs = filealloc_eq [OF st assms(2)] filedup_eq [OF st assms(2), of f] fileclose_more [OF st assms(2), of f]
  have "fileclose f s = Ret () (woken (Some (if w then ChPipeRead pi else ChPipeWrite pi))
      (upd_pipe pi (closed_end w) (upd_file f (\<lambda>x. x\<lparr>f_ref := 0, f_type := FD_NONE\<rparr>) s)))"
    if x: "ftable s f = (ftable s f)\<lparr>f_ref := 1, f_type := FD_PIPE, f_pipe := pi, f_writable := w\<rparr>"
      and l: "lock_free (PipeLock pi) s" and e: "if w then pi_readopen (pipes s pi) else pi_writeopen (pipes s pi)" for pi w
  proof -
    have f: "f_ref (ftable s f) = 1" "f_type (ftable s f) = FD_PIPE" "f_pipe (ftable s f) = pi" "f_writable (ftable s f) = w"
      by (subst x, simp)+
    have "procs_free (upd_file f g s)" "pipes (upd_file f g s) = pipes s" for g
      using assms(1) by (simp_all add: procs_free_def) (simp add: upd_file_def)
    then show ?thesis
      unfolding fileclose_pipe [OF assms f(1,2)] f(3,4) using l e by (intro pipeclose_one) (auto simp: closed_end_def split: if_splits)
  qed
  then show ?thesis using eqs by blast
qed

theorem file_refcounts_witness:
  "filealloc (zero_world example_syms) = Ret (Some 0) (upd_file 0 (\<lambda>x. x\<lparr>f_ref := 1\<rparr>) (zero_world example_syms)) \<and>
   fileclose 0 (zero_world example_syms) = Panic ''fileclose''"
proof -
  let ?s = "zero_world example_syms"
  have "procs_free ?s" "lock_free FtableLock ?s" and t: "ftable ?s = (\<lambda>_. zero_file)"
    by (simp_all add: zero_world_def procs_free_def settled_def lock_free_def)
  note spec = file_refcounts [OF this(1,2), of 0]
  have "first_index (\<lambda>i. f_ref (ftable ?s i) = 0) NFILE = Some 0"
    unfolding t first_index_Some by (simp add: zero_file_def NFILE_def)
  then show ?thesis using spec by (auto simp: t zero_file_def)
qed

text \<open>
  \<open>dup\<close>. The system call returns -1 and changes nothing when its argument, taken as a signed 32-bit number, is not an
  open descriptor of the process or when all descriptors are taken. Otherwise it returns the lowest descriptor that is
  not in use, which then stands for the same file, with one reference more.
\<close>
theorem sys_dup_spec:
  assumes "settled s" "c_proc (mycpu_of s) = Some p" "lock_free FtableLock s"
  shows "case fd_file p (sint (ucast (sys_arg p 0 s) :: u32)) s of
      None \<Rightarrow> sys_dup s = Ret (- 1) s
    | Some f \<Rightarrow>
        (case first_index (\<lambda>fd. p_ofile (procs s p) fd = None) NOFILE of
           None \<Rightarrow> sys_dup s = Ret (- 1) s
         | Some fd \<Rightarrow> 1 \<le> f_ref (ftable s f) \<longrightarrow>
             sys_dup s = Ret (of_nat fd) (upd_file f (\<lambda>x. x\<lparr>f_ref := f_ref x + 1\<rparr>)
               (upd_proc p (\<lambda>q. q\<lparr>p_ofile := (p_ofile q)(fd := Some f)\<rparr>) s)))"
proof -
  have n1: "neg1 = - 1" by (simp add: neg1_def)
  note fd = argfd_eq [OF assms(1,2), of 0, simplified] and al = fdalloc_eq [OF assms(1,2)]
  have ft: "ftable (upd_proc p g s) = ftable s" for g by (simp add: upd_proc_def)
  show ?thesis
    using assms fd by (auto simp: sys_dup_def exec_simps al n1 filedup_eq ft ret64_def split: option.splits)
qed

theorem sys_dup_spec_witness:
  "\<exists>s. sys_dup s = Ret 0 (upd_file 9 (\<lambda>x. x\<lparr>f_ref := f_ref x + 1\<rparr>) (upd_proc 0 (\<lambda>q. q\<lparr>p_ofile := (p_ofile q)(0 := Some 9)\<rparr>) s))"
proof -
  define s where "s = pipe_world\<lparr>mem := store64 (\<lambda>_. 0) tf_a0 3, procs := (\<lambda>_. zero_proc\<lparr>p_ofile := (\<lambda>_. None)(3 := Some 9)\<rparr>),
      ftable := (\<lambda>_. zero_file\<lparr>f_ref := 1\<rparr>)\<rparr>"
  have s: "settled s" "c_proc (mycpu_of s) = Some 0" "lock_free FtableLock s"
    by (simp_all add: s_def pipe_world_def example_vm_def zero_world_def settled_def lock_free_def)
  have arg: "sys_arg 0 0 s = 3" by (simp add: sys_arg_def s_def zero_proc_def)
  have f: "fd_file 0 3 s = Some 9" "first_index (\<lambda>fd. p_ofile (procs s 0) fd = None) NOFILE = Some 0" "f_ref (ftable s 9) = 1"
    by (simp_all add: fd_file_def s_def NOFILE_def first_index_Some)
  show ?thesis using sys_dup_spec [OF s] by (auto simp: arg f)
qed

text \<open>
  Dispatch is total. The number in register a7, taken as a signed 32-bit number, selects the handler: numbers 1 to 25 run the
  handler of that number and put its result into a0; on any other number, negative and huge ones included, the kernel prints
  one line and puts -1 into a0, and nothing else changes but the UART.
\<close>
theorem syscall_dispatch:
  assumes "can_print s" "c_proc (mycpu_of s) = Some p" "pr_locking s \<longrightarrow> lock_free PrLock s"
    and "num = sint (ucast (load64 (mem s) (p_trapframe (procs s p) + tf_a7)) :: u32)"
  shows "if 1 \<le> num \<and> num \<le> 25
    then syscall s = (case (syscalls ! nat (num - 1)) s of
        Ret r t \<Rightarrow> Ret () (t\<lparr>mem := store64 (mem t) (p_trapframe (procs t p) + tf_a0) r\<rparr>)
      | Panic e \<Rightarrow> Panic e | Switched t \<Rightarrow> Switched t | Spin \<Rightarrow> Spin)
    else \<exists>u. syscall s = Ret () (s\<lparr>uart := u, mem := store64 (mem s) (p_trapframe (procs s p) + tf_a0) (- 1)\<rparr>) \<and>
      uart_out u = uart_out (uart s) @
        format_text (''%d %s: unknown sys call %d'' @ newline) [VInt (p_pid (procs s p)), VStr (Some (p_name (procs s p))), VInt num]"
proof -
  have st: "settled s" using assms(1) by (simp add: can_print_def)
  have len: "int (length syscalls) + 1 = 26" by (simp add: syscalls_def)
  define fmt where "fmt = ''%d %s: unknown sys call %d'' @ newline"
  define ap where "ap = [VInt (p_pid (procs s p)), VStr (Some (p_name (procs s p))), VInt num]"
  define msg where "msg = format_text fmt ap"
  have run: "printf fmt ap s = Ret () (sent msg s)" unfolding msg_def by (rule printf_eq [OF assms(1,3)])
  have out: "uart_out (uart (sent msg s)) = uart_out (uart s) @ msg" by (rule uart_out_sent)
  have n1: "neg1 = - 1" by (simp add: neg1_def)
  show ?thesis
  proof (cases "1 \<le> num \<and> num \<le> 25")
    case True
    then show ?thesis using st assms(2)
      by (simp add: syscall_def exec_simps lock_exec get_tf_def set_tf_def len assms(4) [symmetric] split: outcome.splits)
  next
    case False
    then have "syscall s = kseq [printf fmt ap, set_tf p tf_a0 neg1] s"
      using st assms(2)
      by (auto simp: syscall_def exec_simps lock_exec get_tf_def get_proc_def len assms(4) [symmetric] fmt_def ap_def)
    also have "\<dots> = Ret () (s\<lparr>uart := uart (sent msg s), mem := store64 (mem s) (p_trapframe (procs s p) + tf_a0) (- 1)\<rparr>)"
      using run by (simp add: exec_simps set_tf_def n1 sent_def upd_uart_def)
    finally show ?thesis using False out unfolding fmt_def ap_def msg_def by (simp only: if_False) blast
  qed
qed

theorem syscall_dispatch_witness:
  "\<exists>u. syscall (pipe_world\<lparr>mem := \<lambda>_. 0\<rparr>) =
     Ret () (pipe_world\<lparr>uart := u, mem := store64 (\<lambda>_. 0) tf_a0 (- 1)\<rparr>)"
proof -
  let ?s = "pipe_world\<lparr>mem := \<lambda>_. 0\<rparr>"
  have c: "can_print ?s" "c_proc (mycpu_of ?s) = Some 0" "pr_locking ?s \<longrightarrow> lock_free PrLock ?s"
    by (simp_all add: pipe_world_def example_vm_def zero_world_def can_print_def settled_def)
  have "p_trapframe (procs ?s 0) = 0" by (simp add: pipe_world_def zero_proc_def)
  then show ?thesis using syscall_dispatch [OF c refl] by (simp add: load_zero_mem) blast
qed

end
