(* ===== verification/Trapret.thy ===== *)
theory Trapret
  imports Main_Start Descriptors
begin

text \<open>
  Correctness of the trap code (\<open>kernel/trap.c\<close>): what the processor finds when the kernel returns to user space, a system call
  from the trap to the return, interrupts, and traps out of the kernel's own code.
\<close>

section \<open>The trap frame\<close>

lemma apart_offset: "apart (a + x) n (a + y) k \<longleftrightarrow> apart x n y k"
  by (simp add: apart_def add.assoc)

lemmas tf_offsets = tf_kernel_satp_def tf_kernel_sp_def tf_kernel_trap_def tf_epc_def tf_kernel_hartid_def tf_ra_def tf_sp_def
  tf_a0_def tf_a1_def tf_a2_def tf_a3_def tf_a4_def tf_a5_def tf_a7_def

definition slots_apart :: "addr \<Rightarrow> addr \<Rightarrow> bool" where
  "slots_apart x y \<longleftrightarrow> (unat x + 8 \<le> unat y \<and> unat y \<le> 1000) \<or> (unat y + 8 \<le> unat x \<and> unat x \<le> 1000)"

lemma load_tf_other: "slots_apart x y \<Longrightarrow> load64 (store64 m (a + x) v) (a + y) = load64 m (a + y)"
  unfolding slots_apart_def by (intro load_store64_apart) (use apart_below apart_sym in \<open>force simp: apart_offset\<close>)

lemma store_tf_other:
  assumes "unat off \<le> 1000" "unat (x - a) < unat off \<or> unat off + 8 \<le> unat (x - a)"
  shows "store64 m (a + off) v x = m x"
proof -
  have "8 \<le> unat (x - (a + off))"
  proof (rule ccontr)
    assume "\<not> 8 \<le> unat (x - (a + off))"
    moreover have "x - a = off + of_nat (unat (x - (a + off)))" by simp
    moreover have "unat (off + of_nat k) = unat off + k" if "k < 8" for k
      using that assms(1) by (intro unat_add_of_nat) simp
    ultimately have "unat off \<le> unat (x - a) \<and> unat (x - a) < unat off + 8" by (metis le_add1 nat_add_left_cancel_less not_le)
    then show False using assms(2) by simp
  qed
  then show ?thesis by (simp add: store64_def write_bytes_def)
qed

lemma tf_apart [simp]:
  "slots_apart tf_kernel_satp tf_epc" "slots_apart tf_kernel_sp tf_epc" "slots_apart tf_kernel_trap tf_epc"
  "slots_apart tf_kernel_hartid tf_epc" "slots_apart tf_a0 tf_epc" "slots_apart tf_epc tf_a7"
  "slots_apart tf_kernel_satp tf_a0" "slots_apart tf_kernel_sp tf_a0" "slots_apart tf_kernel_trap tf_a0"
  "slots_apart tf_kernel_hartid tf_a0" "slots_apart tf_kernel_sp tf_kernel_satp" "slots_apart tf_kernel_trap tf_kernel_satp"
  "slots_apart tf_kernel_hartid tf_kernel_satp" "slots_apart tf_kernel_trap tf_kernel_sp" "slots_apart tf_kernel_hartid tf_kernel_sp"
  "slots_apart tf_kernel_hartid tf_kernel_trap"
  by (simp_all add: slots_apart_def tf_offsets)

section \<open>The processor's own book-keeping\<close>

text \<open>
  Turning interrupts on or off by hand leaves a stale \<open>intena\<close> behind when no \<open>push_off\<close> is pending; the next call of
  \<open>myproc\<close> brings it up to date.
\<close>

definition settle :: "'z kstate_scheme \<Rightarrow> 'z kstate_scheme" where
  "settle s = upd_cpu (\<lambda>c. c\<lparr>c_intena := sie s\<rparr>) s"

lemma settle_simps [simp]:
  "hart (settle s) = hart s" "sie (settle s) = sie s" "csr (settle s) = csr s" "mem (settle s) = mem s" "syms (settle s) = syms s"
  "procs (settle s) = procs s" "lock_free lk (settle s) = lock_free lk s" "c_proc (cpus (settle s) h) = c_proc (cpus s h)"
  "c_noff (cpus (settle s) h) = c_noff (cpus s h)" "c_noff (mycpu_of s) = 0 \<Longrightarrow> settled (settle s)"
  by (simp_all add: settle_def lock_free_def settled_def upd_cpu_def)

lemma myproc_settle: "c_noff (mycpu_of s) = 0 \<Longrightarrow> myproc s = Ret (c_proc (mycpu_of s)) (settle s)"
  by (auto simp: myproc_def spinlock_defs exec_simps settle_def upd_cpu_def intro!: kworld.equality)

lemma curproc_settle: "c_noff (mycpu_of s) = 0 \<Longrightarrow> c_proc (mycpu_of s) = Some p \<Longrightarrow> curproc s = Ret p (settle s)"
  by (simp add: curproc_def exec_simps myproc_settle)

section \<open>Returning to user space\<close>

definition tf_of :: "nat \<Rightarrow> 'z kstate_scheme \<Rightarrow> addr" where
  "tf_of p s = p_trapframe (procs s p)"

text \<open>The words \<open>usertrapret\<close> leaves in the trap frame for the next trap.\<close>

definition kernel_words :: "nat \<Rightarrow> 'z kstate_scheme \<Rightarrow> mem" where
  "kernel_words p s = (let a = tf_of p s;
     m = store64 (mem s) (a + tf_kernel_satp) (r_satp (csr s));
     m = store64 m (a + tf_kernel_sp) (p_kstack (procs s p) + PGSIZE);
     m = store64 m (a + tf_kernel_trap) (sym_usertrap (syms s))
   in store64 m (a + tf_kernel_hartid) (of_nat (hart s)))"

definition user_csrs :: "nat \<Rightarrow> 'z kstate_scheme \<Rightarrow> csrs" where
  "user_csrs p s = (csr s)\<lparr>r_stvec := TRAMPOLINE + (sym_uservec (syms s) - sym_trampoline (syms s)),
     r_sstatus := ((r_sstatus (csr s) AND NOT SSTATUS_SIE) AND NOT SSTATUS_SPP) OR SSTATUS_SPIE,
     r_sepc := load64 (mem s) (tf_of p s + tf_epc)\<rparr>"

lemma bit_sstatus [simp]: "bit SSTATUS_SIE n \<longleftrightarrow> n = 1" "bit SSTATUS_SPP n \<longleftrightarrow> n = 8" "bit SSTATUS_SPIE n \<longleftrightarrow> n = 5"
  unfolding SSTATUS_SIE_def SSTATUS_SPP_def SSTATUS_SPIE_def bit_push_bit_iff by (auto simp: bit_1_iff)

lemma sstatus_user:
  "x = ((y AND NOT SSTATUS_SIE) AND NOT SSTATUS_SPP) OR SSTATUS_SPIE \<Longrightarrow>
     x AND SSTATUS_SIE = 0 \<and> x AND SSTATUS_SPP = 0 \<and> x AND SSTATUS_SPIE = SSTATUS_SPIE"
  by (intro conjI bit_word_eqI) (auto simp: bit_simps)

lemma usertrapret_eq:
  assumes "c_noff (mycpu_of s) = 0" "c_proc (mycpu_of s) = Some p"
  shows "usertrapret s = Ret (TRAMPOLINE + (sym_userret (syms s) - sym_trampoline (syms s)), MAKE_SATP (p_pagetable (procs s p)))
    ((settle s)\<lparr>sie := False, csr := user_csrs p s, mem := kernel_words p s\<rparr>)"
  using assms
  by (simp add: usertrapret_def exec_simps curproc_settle intr_off_def w_stvec_def w_sepc_def read_sstatus_def w_sstatus_def
      get_tf_def set_tf_def get_proc_def sstatus_user [OF refl])
     (intro kworld.equality; simp add: kernel_words_def user_csrs_def tf_of_def Let_def load_tf_other)

text \<open>
  C19. The way back to user space. \<open>usertrapret\<close>, for a process whose kernel thread holds no lock, jumps to \<open>userret\<close> in the
  trampoline with the process's page table. The processor is set up so that the return enters user mode with
  interrupts on, at the saved program counter, and the next trap goes to \<open>uservec\<close>; interrupts are off until then. The trap frame
  has what \<open>uservec\<close> loads: the kernel's page table, the top of the process's kernel stack, the address of
  \<open>usertrap\<close> and the hart; the saved program counter and all saved user registers, and the rest of memory, are untouched. Of the status register only the bits
  \<open>SIE\<close>, \<open>SPP\<close> and \<open>SPIE\<close> are written, of the other control registers only \<open>stvec\<close> and \<open>sepc\<close>; of the processor's own record only
  \<open>intena\<close> changes, to what \<open>myproc\<close> saves there, so that no \<open>push_off\<close> is left pending; nothing else in the kernel changes.
\<close>
theorem usertrapret_spec:
  assumes "c_noff (mycpu_of s) = 0" "c_proc (mycpu_of s) = Some p" and a: "a = p_trapframe (procs s p)"
  shows "\<exists>m sst. usertrapret s = Ret (TRAMPOLINE + (sym_userret (syms s) - sym_trampoline (syms s)), MAKE_SATP (p_pagetable (procs s p)))
      (s\<lparr>sie := False, mem := m,
        csr := (csr s)\<lparr>r_stvec := TRAMPOLINE + (sym_uservec (syms s) - sym_trampoline (syms s)), r_sstatus := sst,
          r_sepc := load64 (mem s) (a + tf_epc)\<rparr>,
        cpus := (cpus s)(hart s := (mycpu_of s)\<lparr>c_intena := sie s\<rparr>)\<rparr>) \<and>
    sst AND SSTATUS_SIE = 0 \<and> sst AND SSTATUS_SPP = 0 \<and> sst AND SSTATUS_SPIE = SSTATUS_SPIE \<and>
    sst AND NOT (SSTATUS_SIE OR SSTATUS_SPP OR SSTATUS_SPIE) = r_sstatus (csr s) AND NOT (SSTATUS_SIE OR SSTATUS_SPP OR SSTATUS_SPIE) \<and>
    load64 m (a + tf_kernel_satp) = r_satp (csr s) \<and> load64 m (a + tf_kernel_sp) = p_kstack (procs s p) + PGSIZE \<and>
    load64 m (a + tf_kernel_trap) = sym_usertrap (syms s) \<and> load64 m (a + tf_kernel_hartid) = of_nat (hart s) \<and>
    (\<forall>x. 24 \<le> unat (x - a) \<and> unat (x - a) < 32 \<or> 40 \<le> unat (x - a) \<longrightarrow> m x = mem s x)"
proof (intro exI conjI allI impI)
  let ?sst = "((r_sstatus (csr s) AND NOT SSTATUS_SIE) AND NOT SSTATUS_SPP) OR SSTATUS_SPIE"
  have "(settle s)\<lparr>sie := False, csr := user_csrs p s, mem := kernel_words p s\<rparr> =
      s\<lparr>sie := False, mem := kernel_words p s, csr := (csr s)\<lparr>r_stvec := TRAMPOLINE + (sym_uservec (syms s) - sym_trampoline (syms s)),
        r_sstatus := ?sst, r_sepc := load64 (mem s) (a + tf_epc)\<rparr>, cpus := (cpus s)(hart s := (mycpu_of s)\<lparr>c_intena := sie s\<rparr>)\<rparr>"
    by (simp add: settle_def upd_cpu_def user_csrs_def a tf_of_def)
  then show "usertrapret s = Ret (TRAMPOLINE + (sym_userret (syms s) - sym_trampoline (syms s)), MAKE_SATP (p_pagetable (procs s p)))
      (s\<lparr>sie := False, mem := kernel_words p s, csr := (csr s)\<lparr>r_stvec := TRAMPOLINE + (sym_uservec (syms s) - sym_trampoline (syms s)),
        r_sstatus := ?sst, r_sepc := load64 (mem s) (a + tf_epc)\<rparr>, cpus := (cpus s)(hart s := (mycpu_of s)\<lparr>c_intena := sie s\<rparr>)\<rparr>)"
    using usertrapret_eq [OF assms(1,2)] by simp
  show "?sst AND NOT (SSTATUS_SIE OR SSTATUS_SPP OR SSTATUS_SPIE) = r_sstatus (csr s) AND NOT (SSTATUS_SIE OR SSTATUS_SPP OR SSTATUS_SPIE)"
    by (rule bit_word_eqI) (auto simp: bit_simps)
next
  fix x
  assume "24 \<le> unat (x - a) \<and> unat (x - a) < 32 \<or> 40 \<le> unat (x - a)"
  then show "kernel_words p s x = mem s x"
    by (auto simp: kernel_words_def tf_of_def a Let_def store_tf_other store_tf_other [of 0, simplified] tf_offsets)
qed (simp_all add: a kernel_words_def tf_of_def Let_def sstatus_user [OF refl] load_tf_other)

definition user_world :: kworld where
  "user_world = (zero_world example_syms)\<lparr>
     cpus := (\<lambda>_. \<lparr>c_proc = Some 2, c_noff = 0, c_intena = True\<rparr>),
     procs := (\<lambda>p. zero_proc\<lparr>p_trapframe := 0x87f70000, p_pagetable := 0x87f71000, p_kstack := 0x3fffffd000\<rparr>)\<rparr>"

theorem usertrapret_spec_witness:
  "\<exists>t. usertrapret user_world = Ret (TRAMPOLINE + 0x9c, MAKE_SATP 0x87f71000) t \<and> \<not> sie t \<and> c_noff (mycpu_of t) = 0 \<and>
     load64 (mem t) (0x87f70000 + tf_kernel_trap) = 0x80002500"
proof -
  have w: "c_noff (mycpu_of user_world) = 0" "c_proc (mycpu_of user_world) = Some 2" "p_trapframe (procs user_world 2) = 0x87f70000"
    "sym_userret (syms user_world) - sym_trampoline (syms user_world) = 0x9c" "p_pagetable (procs user_world 2) = 0x87f71000"
    "sym_usertrap (syms user_world) = 0x80002500"
    by (simp_all add: user_world_def zero_world_def example_syms_def)
  show ?thesis using usertrapret_spec [OF w(1,2) refl] unfolding w(3-6) by (auto simp: w(1))
qed

section \<open>A system call from trap to return\<close>

text \<open>The state in which the handler of a system call runs: the process will continue after the \<open>ecall\<close>, and interrupts are on.\<close>

definition in_syscall :: "nat \<Rightarrow> 'z kstate_scheme \<Rightarrow> 'z kstate_scheme" where
  "in_syscall p s = settle (s\<lparr>sie := True, csr := (csr s)\<lparr>r_stvec := sym_kernelvec (syms s)\<rparr>,
     mem := store64 (mem s) (tf_of p s + tf_epc) (r_sepc (csr s) + 4)\<rparr>)"

lemma store64_twice [simp]: "store64 (store64 m a v) a w = store64 m a w"
  by (simp add: store64_def write_bytes_def fun_eq_iff)

lemma SPP_SIE [simp]: "(x OR SSTATUS_SIE) AND SSTATUS_SPP = x AND SSTATUS_SPP" "(x AND NOT SSTATUS_SIE) AND SSTATUS_SPP = x AND SSTATUS_SPP"
  by (rule bit_word_eqI; auto simp: bit_simps)+

lemma usertrap_serve_call:
  assumes "c_noff (mycpu_of s) = 0" "c_proc (mycpu_of s) = Some p" "settled s" "r_scause (csr s) = 8"
    and "lock_free (ProcLock p) s" "p_killed (procs s p) = 0" "load64 (mem s) (tf_of p s + tf_epc) = r_sepc (csr s)"
    and "r_stvec (csr s) = sym_kernelvec (syms s)"
    and "num = sint (ucast (load64 (mem s) (tf_of p s + tf_a7)) :: u32)" "1 \<le> num" "num \<le> 25"
    and "(syscalls ! nat (num - 1)) (in_syscall p s) = Ret r t"
  shows "usertrap_serve p s = Ret 0 (t\<lparr>mem := store64 (mem t) (tf_of p t + tf_a0) r\<rparr>)"
proof -
  let ?u = "s\<lparr>mem := store64 (mem s) (tf_of p s + tf_epc) (r_sepc (csr s) + 4), sie := True\<rparr>"
  have "curproc ?u = Ret p (settle ?u)" using assms by (intro curproc_settle) simp_all
  moreover have "settle ?u = in_syscall p s" using assms(8) by (simp add: in_syscall_def settle_def upd_cpu_def)
  moreover have "load64 (mem (in_syscall p s)) (tf_of p s + tf_a7) = load64 (mem s) (tf_of p s + tf_a7)"
    by (simp add: in_syscall_def load_tf_other)
  moreover have "int (length syscalls) + 1 = 26" by (simp add: syscalls_def)
  ultimately have "syscall ?u = Ret () (t\<lparr>mem := store64 (mem t) (tf_of p t + tf_a0) r\<rparr>)"
    using assms by (simp add: syscall_def exec_simps get_tf_def set_tf_def tf_of_def in_syscall_def)
  then show ?thesis
    using assms by (simp add: usertrap_serve_def exec_simps killed_eq get_tf_def set_tf_def intr_on_def tf_of_def)
qed

lemma settle_in_syscall:
  "in_syscall p (settle s\<lparr>csr := (csr s)\<lparr>r_stvec := v\<rparr>, mem := store64 (mem s) (tf_of p s + tf_epc) (r_sepc (csr s))\<rparr>) = in_syscall p s"
  by (simp add: in_syscall_def settle_def upd_cpu_def tf_of_def)

text \<open>
  C8. A system call, from the trap to the return. A process that is not killed executes \<open>ecall\<close> with the number of a system
  call in a7. If the handler of that number, run with the saved program counter moved past the \<open>ecall\<close> and interrupts on, returns
  \<open>r\<close> and leaves the process running and not killed, then \<open>usertrap\<close> returns to user space: to the
  program counter in the trap frame, in user mode, with interrupts on after the return, with \<open>r\<close> in a0, and on the page table
  the process then has.
\<close>
theorem usertrap_syscall:
  assumes "c_noff (mycpu_of s) = 0" "c_proc (mycpu_of s) = Some p" "r_sstatus (csr s) AND SSTATUS_SPP = 0" "r_scause (csr s) = 8"
    and "lock_free (ProcLock p) s" "p_killed (procs s p) = 0"
    and "num = sint (ucast (load64 (mem s) (tf_of p s + tf_a7)) :: u32)" "1 \<le> num" "num \<le> 25"
    and "(syscalls ! nat (num - 1)) (in_syscall p s) = Ret r t"
    and "c_noff (mycpu_of t) = 0" "c_proc (mycpu_of t) = Some p" "settled t" "lock_free (ProcLock p) t" "p_killed (procs t p) = 0"
  shows "\<exists>u. usertrap s = Ret (TRAMPOLINE + (sym_userret (syms t) - sym_trampoline (syms t)), MAKE_SATP (p_pagetable (procs t p))) u \<and>
    r_sepc (csr u) = load64 (mem t) (tf_of p t + tf_epc) \<and> load64 (mem u) (tf_of p t + tf_a0) = r \<and>
    r_sstatus (csr u) AND SSTATUS_SPP = 0 \<and> r_sstatus (csr u) AND SSTATUS_SPIE \<noteq> 0 \<and> \<not> sie u"
proof -
  let ?v = "settle s\<lparr>csr := (csr s)\<lparr>r_stvec := sym_kernelvec (syms s)\<rparr>, mem := store64 (mem s) (tf_of p s + tf_epc) (r_sepc (csr s))\<rparr>"
  let ?t = "t\<lparr>mem := store64 (mem t) (tf_of p t + tf_a0) r\<rparr>"
  have "usertrap_serve p ?v = Ret 0 ?t"
    using assms by (intro usertrap_serve_call) (simp_all add: tf_of_def load_tf_other settle_in_syscall [unfolded tf_of_def])
  moreover have "curproc (s\<lparr>csr := (csr s)\<lparr>r_stvec := sym_kernelvec (syms s)\<rparr>\<rparr>) = Ret p (settle s\<lparr>csr := (csr s)\<lparr>r_stvec := sym_kernelvec (syms s)\<rparr>\<rparr>)"
    using assms(1,2) by (subst curproc_settle) (simp_all add: settle_def upd_cpu_def)
  ultimately have "usertrap s = usertrapret ?t"
    using assms by (simp add: usertrap_def exec_simps read_sstatus_def w_stvec_def set_tf_def tf_of_def killed_eq)
  moreover have "SSTATUS_SPIE \<noteq> 0" by (simp add: SSTATUS_SPIE_def)
  ultimately show ?thesis
    using usertrapret_eq [of ?t p] assms(11,12)
    by (simp add: user_csrs_def kernel_words_def tf_of_def Let_def load_tf_other sstatus_user [OF refl])
qed

theorem usertrap_syscall_witness:
  "\<exists>s u v. load64 (mem s) (tf_of 2 s + tf_a7) = 11 \<and> p_pid (procs s 2) = 7 \<and> r_sepc (csr s) = 0x400 \<and>
     usertrap s = Ret v u \<and> r_sepc (csr u) = 0x404 \<and> load64 (mem u) (tf_of 2 s + tf_a0) = 7"
proof -
  define s where "s = user_world\<lparr>mem := store64 (\<lambda>_. 0) (0x87f70000 + tf_a7) 11,
    csr := (csr user_world)\<lparr>r_scause := 8, r_sepc := 0x400\<rparr>, procs := (\<lambda>p. (procs user_world p)\<lparr>p_pid := 7\<rparr>)\<rparr>"
  have s: "c_noff (mycpu_of s) = 0" "c_proc (mycpu_of s) = Some 2" "r_sstatus (csr s) AND SSTATUS_SPP = 0" "r_scause (csr s) = 8"
    "lock_free (ProcLock 2) s" "p_killed (procs s 2) = 0" "tf_of 2 s = 0x87f70000" "p_pid (procs s 2) = 7" "r_sepc (csr s) = 0x400"
    "load64 (mem s) (tf_of 2 s + tf_a7) = 11"
    by (simp_all add: s_def user_world_def zero_world_def lock_free_def zero_proc_def tf_of_def)
  let ?t = "in_syscall 2 s"
  have t: "c_noff (mycpu_of ?t) = 0" "c_proc (mycpu_of ?t) = Some 2" "settled ?t" "lock_free (ProcLock 2) ?t" "p_killed (procs ?t 2) = 0"
    "p_pid (procs ?t 2) = 7" "tf_of 2 ?t = 0x87f70000" "load64 (mem ?t) (0x87f70000 + tf_epc) = 0x404"
    using s by (simp_all add: in_syscall_def tf_of_def)
  have "sys_getpid ?t = Ret 7 ?t"
    using t by (simp add: sys_getpid_def exec_simps lock_exec get_proc_def ret64_def)
  then have "(syscalls ! nat (11 - 1)) ?t = Ret 7 ?t" by (simp add: syscalls_def)
  from usertrap_syscall [OF s(1-6) _ _ _ this t(1-5)] s(10)
  obtain u v where "usertrap s = Ret v u" "r_sepc (csr u) = load64 (mem ?t) (tf_of 2 ?t + tf_epc)" "load64 (mem u) (tf_of 2 ?t + tf_a0) = 7"
    by auto
  then show ?thesis using s(7-10) t(7,8) by metis
qed

section \<open>Interrupts\<close>

lemma clockintr_eq:
  assumes "procs_free s" "lock_free TicksLock s"
  shows "clockintr s = Ret () (woken (Some ChTicks) (s\<lparr>ticks := ticks s + 1\<rparr>))"
proof -
  have "settled s" "procs_free (take_lock TicksLock (s\<lparr>ticks := ticks s + 1\<rparr>))"
    using assms by (auto simp: procs_free_def)
  then show ?thesis using assms by (simp add: clockintr_def exec_simps lock_exec wakeup_eq)
qed

text \<open>
  \<open>devintr\<close> recognises what it serves. A timer interrupt answers 2, takes back the software interrupt that
  announced it, and on hart 0, and only there, advances the clock by one tick and makes every process asleep on the clock runnable.
  An external interrupt that no device claims answers 1 and changes nothing. Any other cause answers 0 and changes nothing.
\<close>
theorem devintr_spec:
  assumes "procs_free s" "lock_free TicksLock s"
  shows "(r_scause (csr s) = 0x8000000000000001 \<longrightarrow> (\<exists>t. devintr s = Ret 2 t \<and> r_sip (csr t) = r_sip (csr s) AND NOT 2 \<and>
      (if hart s = 0
       then ticks t = ticks s + 1 \<and> (\<forall>p<NPROC. c_proc (mycpu_of s) \<noteq> Some p \<and> p_state (procs s p) = SLEEPING \<and> p_chan (procs s p) = Some ChTicks
              \<longrightarrow> p_state (procs t p) = RUNNABLE) \<and> t = s\<lparr>csr := csr t, ticks := ticks t, procs := procs t\<rparr>
       else t = s\<lparr>csr := csr t\<rparr>))) \<and>
    (r_scause (csr s) = 0x8000000000000009 \<and> irqs s = [] \<longrightarrow> devintr s = Ret 1 s) \<and>
    (\<not> (r_scause (csr s) AND 0x8000000000000000 \<noteq> 0 \<and> r_scause (csr s) AND 0xff = 9) \<and> r_scause (csr s) \<noteq> 0x8000000000000001
      \<longrightarrow> devintr s = Ret 0 s)"
proof (intro conjI impI)
  assume c: "r_scause (csr s) = 0x8000000000000001"
  show "\<exists>t. devintr s = Ret 2 t \<and> r_sip (csr t) = r_sip (csr s) AND NOT 2 \<and>
      (if hart s = 0
       then ticks t = ticks s + 1 \<and> (\<forall>p<NPROC. c_proc (mycpu_of s) \<noteq> Some p \<and> p_state (procs s p) = SLEEPING \<and> p_chan (procs s p) = Some ChTicks
              \<longrightarrow> p_state (procs t p) = RUNNABLE) \<and> t = s\<lparr>csr := csr t, ticks := ticks t, procs := procs t\<rparr>
       else t = s\<lparr>csr := csr t\<rparr>)"
    using c clockintr_eq [OF assms]
    by (auto simp: devintr_def devintr_timer_def exec_simps cpuid_def w_sip_def woken_def woken_proc_def)
qed (auto simp: devintr_def devintr_external_def plic_claim_def exec_simps UART0_IRQ_def VIRTIO0_IRQ_def)

theorem devintr_spec_witness:
  "\<exists>t. devintr (sleeping_world\<lparr>csr := (csr sleeping_world)\<lparr>r_scause := 0x8000000000000001, r_sip := 2\<rparr>\<rparr>) = Ret 2 t \<and>
     ticks t = 1 \<and> p_state (procs t 3) = RUNNABLE \<and> r_sip (csr t) = 0"
proof -
  let ?s = "sleeping_world\<lparr>csr := (csr sleeping_world)\<lparr>r_scause := 0x8000000000000001, r_sip := 2\<rparr>\<rparr>"
  have "procs_free ?s" using sleeping_world_free by (simp add: procs_free_def)
  moreover have "lock_free TicksLock ?s" by (simp add: sleeping_world_def lock_free_def upd_proc_def zero_world_def)
  ultimately show ?thesis using devintr_spec [of ?s]
    by (auto simp: sleeping_world_def upd_proc_def zero_world_def NPROC_def)
qed

text \<open>
  C20. Traps out of the kernel. \<open>kerneltrap\<close> panics when the trap came from user mode and when interrupts are on. Whenever it returns,
  even if it gave the processor away to other processes whose traps used the same registers, the saved program counter and
  status are those of the interrupted code, and interrupts are still off.
\<close>
theorem kerneltrap_restores:
  "(r_sstatus (csr s) AND SSTATUS_SPP = 0 \<longrightarrow> kerneltrap s = Panic ''kerneltrap: not from supervisor mode'') \<and>
   (r_sstatus (csr s) AND SSTATUS_SPP \<noteq> 0 \<and> sie s \<longrightarrow> kerneltrap s = Panic ''kerneltrap: interrupts enabled'') \<and>
   (\<forall>t. kerneltrap s = Ret () t \<longrightarrow> r_sepc (csr t) = r_sepc (csr s) \<and> r_sstatus (csr t) = r_sstatus (csr s) AND NOT SSTATUS_SIE \<and> \<not> sie t)"
proof (intro conjI allI impI)
  fix t
  assume k: "kerneltrap s = Ret () t"
  let ?x = "r_sstatus (csr s) AND NOT SSTATUS_SIE"
  have "?x AND SSTATUS_SIE = 0" by (rule bit_word_eqI) (auto simp: bit_simps)
  moreover have "\<not> sie s" using k by (auto simp: kerneltrap_def exec_simps cpu_exec read_sstatus_def split: if_splits)
  moreover have "\<exists>u. t = u\<lparr>csr := (csr u)\<lparr>r_sepc := r_sepc (csr s), r_sstatus := ?x\<rparr>, sie := (?x AND SSTATUS_SIE \<noteq> 0)\<rparr>"
    using k \<open>\<not> sie s\<close>
    by (auto simp: kerneltrap_def kbind_eq_Ret kget_exec cpu_exec read_sstatus_def w_sepc_def w_sstatus_def kmod_exec panic_exec kret_exec
        split: if_splits)
  ultimately show "r_sepc (csr t) = r_sepc (csr s)" "r_sstatus (csr t) = ?x" "\<not> sie t" by auto
qed (simp_all add: kerneltrap_def exec_simps cpu_exec read_sstatus_def)

theorem kerneltrap_restores_witness:
  "\<exists>t. kerneltrap (sleeping_world\<lparr>hart := 1, csr := (csr sleeping_world)\<lparr>r_scause := 0x8000000000000001, r_sip := 2,
       r_sstatus := SSTATUS_SPP, r_sepc := 0x80001234\<rparr>\<rparr>) = Ret () t \<and> r_sepc (csr t) = 0x80001234 \<and> \<not> sie t"
  (is "\<exists>t. kerneltrap ?s = _ \<and> _")
proof -
  have "SSTATUS_SPP AND SSTATUS_SPP \<noteq> 0" by (simp add: SSTATUS_SPP_def)
  moreover have "sie ?s = False" "c_proc (mycpu_of ?s) = None" "c_noff (mycpu_of ?s) = 0"
    by (simp_all add: sleeping_world_def upd_proc_def zero_world_def)
  ultimately have "\<exists>t. kerneltrap ?s = Ret () t"
    by (simp add: kerneltrap_def kerneltrap_yield_def exec_simps cpu_exec read_sstatus_def devintr_def devintr_timer_def cpuid_def w_sip_def
        w_sepc_def w_sstatus_def myproc_settle)
  then obtain t where "kerneltrap ?s = Ret () t" by blast
  moreover from this kerneltrap_restores [of ?s] have "r_sepc (csr t) = 0x80001234 \<and> \<not> sie t" by simp
  ultimately show ?thesis by blast
qed

end
