(* ===== verification/Argstack.thy ===== *)
theory Argstack
  imports Exec Usercopy
begin

text \<open>
  The stack that \<open>exec\<close> builds for a new program (\<open>kernel/exec.c\<close>): \<open>main(argc, argv)\<close> finds its arguments, and the kernel neither
  writes outside of the one page of stack nor refuses arguments that fit.
\<close>

section \<open>The stack page\<close>

text \<open>
  The page at user address \<open>base\<close> is the user's, its frame is \<open>f\<close>, and no page table lives in that frame.
\<close>

definition stack_page :: "addr \<Rightarrow> addr \<Rightarrow> addr \<Rightarrow> mem \<Rightarrow> bool" where
  "stack_page pt base f m \<longleftrightarrow> twf 2 m pt \<and> aligned base \<and> base < MAXVA \<and> user_ok m pt base \<and> PTE2PA (entry 2 m pt base) = f \<and>
     f \<notin> tset 2 m pt"

lemma in_page:
  assumes "aligned base" "o' < (4096 :: nat)"
  shows "PGROUNDDOWN (base + of_nat o') = base" "unat (base + of_nat o') = unat base + o'"
    "unat (base + of_nat o') mod 4096 = o'"
proof -
  obtain q where q: "unat base = 4096 * q" using assms(1) by (auto simp: aligned_dvd)
  then have "PGROUNDDOWN base = base" by (simp add: word_unat_eq_iff unat_PGROUNDDOWN)
  then show "PGROUNDDOWN (base + of_nat o') = base" "unat (base + of_nat o') = unat base + o'"
    using PGROUNDDOWN_step [of base o'] q assms(2) by simp_all
  then show "unat (base + of_nat o') mod 4096 = o'" using q assms(2) by simp
qed

lemma stack_page_at:
  assumes "stack_page pt base f m" "o' < 4096"
  shows "user_ok m pt (base + of_nat o')" "PTE2PA (entry 2 m pt (base + of_nat o')) = f" "base + of_nat o' < MAXVA"
    "base + of_nat o' - PGROUNDDOWN (base + of_nat o') = of_nat o'"
proof -
  have b: "aligned base" "base < MAXVA" "user_ok m pt base" using assms(1) by (simp_all add: stack_page_def)
  have pg: "PGROUNDDOWN (base + of_nat o') = PGROUNDDOWN base" "PGROUNDDOWN (base + of_nat o') = base"
    using in_page [OF b(1), of o'] in_page [OF b(1), of 0] assms(2) by simp_all
  show "user_ok m pt (base + of_nat o')" using user_ok_page [OF pg(1)] b(3) by simp
  show "PTE2PA (entry 2 m pt (base + of_nat o')) = f" using entry_page [OF b(2) pg(1)] assms(1) by (simp add: stack_page_def)
  show "base + of_nat o' < MAXVA" using MAXVA_page [of "base + of_nat o'"] pg(2) b(2) by simp
  show "base + of_nat o' - PGROUNDDOWN (base + of_nat o') = of_nat o'" by (simp add: pg(2))
qed

lemma stack_bytes:
  assumes "stack_page pt base f m" "o' + n \<le> 4096" "o' < 4096"
  shows "user_bytes m pt (base + of_nat o') n = read_bytes m (f + of_nat o') n"
  using user_bytes_page [of "base + of_nat o'" n m pt] stack_page_at [OF assms(1,3)] in_page [of base o'] assms
  by (simp add: stack_page_def)

text \<open>A copy to the stack page is one write into the frame.\<close>

lemma stack_copyout:
  assumes pg: "stack_page pt base f (mem s)" and bs: "bs \<noteq> []" "o' + length bs \<le> 4096"
  defines "m \<equiv> write_bytes (mem s) (f + of_nat o') bs"
  shows "copyout pt (base + of_nat o') bs s = Ret 0 (s\<lparr>mem := m\<rparr>)" "stack_page pt base f m" "only_pages (mem s) m {f}"
proof -
  have o': "o' < 4096" using bs by (cases bs) auto
  note at = stack_page_at [OF pg o']
  have wf: "twf 2 (mem s) pt" "aligned base" "f \<noteq> 0" "aligned f" "f \<notin> tset 2 (mem s) pt"
    using pg aligned_PTE2PA by (auto simp: stack_page_def user_ok_def)
  show op: "only_pages (mem s) m {f}" unfolding m_def using wf bs by (intro write_in_page) simp_all
  have "user_ok m pt base = user_ok (mem s) pt base"
    using user_ok_entry [of m pt "mem s"] user_frame(3) [OF wf(1) op] wf(5) by simp
  then show "stack_page pt base f m"
    using pg user_frame [OF wf(1) op] wf(5) by (simp add: stack_page_def)
  have n: "page_span (base + of_nat o') (length bs) = length bs"
    using bs in_page [OF wf(2) o'] by (simp add: page_span_eq)
  have wk: "walkaddr pt base s = Ret f s"
    using walkaddr_user [OF wf(1), of "base + of_nat o'"] at in_page(1) [OF wf(2) o'] by simp
  have "copyout_step pt (base + of_nat o', bs) s = Ret (Inl (PGROUNDDOWN (base + of_nat o') + PGSIZE, [])) (s\<lparr>mem := m\<rparr>)"
    using bs(1) wk wf(3) in_page(1) [OF wf(2) o'] by (simp add: copyout_step_def exec_simps Let_def n kwrite_def m_def)
  moreover have "copyout_step pt (a, []) t = Ret (Inr 0) t" for a t by (simp add: copyout_step_def exec_simps)
  ultimately show "copyout pt (base + of_nat o') bs s = Ret 0 (s\<lparr>mem := m\<rparr>)"
    unfolding copyout_def by (simp add: kloop_round kloop_done)
qed

section \<open>Pushing\<close>

definition up16 :: "nat \<Rightarrow> nat" where
  "up16 n = 16 * ((n + 15) div 16)"

lemma up16_bounds: "n \<le> up16 n" "up16 n < n + 16" "n \<le> 4096 \<Longrightarrow> up16 n \<le> 4096" "16 dvd up16 n"
proof -
  define q r where "q = (n + 15) div 16" and "r = (n + 15) mod 16"
  have "n + 15 = 16 * q + r" "r < 16" by (simp_all add: q_def r_def)
  then show "n \<le> up16 n" "up16 n < n + 16" "n \<le> 4096 \<Longrightarrow> up16 n \<le> 4096" "16 dvd up16 n"
    unfolding up16_def q_def [symmetric] by simp_all
qed

lemma round16: "n \<le> 16 * k \<Longrightarrow> 16 * ((16 * k - n) div 16) = 16 * k - up16 n"
proof -
  assume n: "n \<le> 16 * k"
  define q where "q = (n + 15) div 16"
  have q: "16 * q < n + 16" "n \<le> 16 * q" using up16_bounds [of n] by (simp_all add: up16_def q_def)
  have "(16 * k - n) div 16 = k - q"
    using n q by (intro div_nat_eqI) auto
  then show ?thesis by (simp add: up16_def q_def diff_mult_distrib2)
qed

text \<open>Room is made for \<open>n\<close> bytes below the stack pointer, and the stack pointer is aligned.\<close>

lemma push_step:
  assumes "aligned base" "4096 \<le> unat base" "base < MAXVA" "16 dvd k" "k \<le> 4096" "n \<le> 4096"
    and a: "a = base + of_nat k - of_nat n"
  shows "a - a mod 16 < base \<longleftrightarrow> k < up16 n" "up16 n \<le> k \<Longrightarrow> a - a mod 16 = base + of_nat (k - up16 n)"
proof -
  have small: "unat base < 2 ^ 38" using assms(3) by (simp add: word_less_nat_alt unat_MAXVA)
  obtain q where "unat base = 4096 * q" using assms(1) by (auto simp: aligned_dvd)
  moreover obtain j where "k = 16 * j" using assms(4) by auto
  ultimately have t: "unat base + k = 16 * (256 * q + j)" by simp
  have "unat (base + of_nat k) = unat base + k" using small assms(5) by (intro unat_add_of_nat) simp
  moreover have "unat (of_nat n :: addr) = n" using assms(6) by simp
  ultimately have ua: "unat a = unat base + k - n" unfolding a using assms(2,6) by (simp add: unat_sub word_le_nat_alt)
  have "unat (a - a mod 16) = unat a - unat a mod 16"
    by (simp add: unat_sub word_le_nat_alt unat_mod)
  also have "\<dots> = 16 * (unat a div 16)" by (simp add: minus_mod_eq_mult_div)
  also have "\<dots> = unat base + k - up16 n" unfolding ua t using assms(2,6) t by (intro round16) simp
  finally have u: "unat (a - a mod 16) = unat base + k - up16 n" .
  show "a - a mod 16 < base \<longleftrightarrow> k < up16 n" using up16_bounds(3) [OF assms(6)] assms(2) by (auto simp: word_less_nat_alt u)
  assume le: "up16 n \<le> k"
  have "unat (base + of_nat (k - up16 n)) = unat base + (k - up16 n)" using small assms(5) by (intro unat_add_of_nat) simp
  then show "a - a mod 16 = base + of_nat (k - up16 n)" using u le by (simp add: word_unat_eq_iff)
qed

text \<open>The strings are on the stack: each pointer leads to its string, above the offset \<open>lo\<close>.\<close>

definition args_at :: "addr \<Rightarrow> addr \<Rightarrow> mem \<Rightarrow> nat \<Rightarrow> nat \<Rightarrow> byte list list \<Rightarrow> addr list \<Rightarrow> bool" where
  "args_at base f m lo hi = list_all2 (\<lambda>a x. \<exists>q. x = base + of_nat q \<and> lo \<le> q \<and> q + length a + 1 \<le> hi \<and>
     read_bytes m (f + of_nat q) (length a + 1) = a @ [0])"

definition strings_size :: "byte list list \<Rightarrow> nat" where
  "strings_size argv = (\<Sum>a\<leftarrow>argv. up16 (length a + 1))"

lemma page_write_other:
  "k + length bs \<le> 4096 \<Longrightarrow> i < 4096 \<Longrightarrow> i < k \<or> k + length bs \<le> i \<Longrightarrow>
     write_bytes m (f + of_nat k) bs (f + of_nat i) = m (f + of_nat i)"
proof (rule write_other [OF _ refl])
  assume k: "k + length bs \<le> 4096" "i < 4096" "i < k \<or> k + length bs \<le> i"
  have "(of_nat (k + j) :: addr) \<noteq> of_nat i" if "j < length bs" for j
  proof
    assume "(of_nat (k + j) :: addr) = of_nat i"
    then have "unat (of_nat (k + j) :: addr) = unat (of_nat i :: addr)" by (rule arg_cong)
    then have "k + j = i" using k that by (subst (asm) unat_of_nat_addr, simp, subst (asm) unat_of_nat_addr, simp_all)
    then show False using k that by auto
  qed
  then have "apart (f + of_nat k) (length bs) (f + of_nat i) 1" by (auto simp: apart_def add.assoc)
  then show "length bs \<le> unat (f + of_nat i - (f + of_nat k))" using apart_outside [of _ _ _ 1 0] by fastforce
qed

lemma args_at_mono: "args_at base f m lo hi argv xs \<Longrightarrow> hi \<le> hi' \<Longrightarrow> args_at base f m lo hi' argv xs"
  unfolding args_at_def by (erule list_all2_mono) fastforce

text \<open>What a run of the loop leaves alone: all frames but \<open>f\<close>, and in \<open>f\<close> what is above the stack pointer.\<close>

definition pushed_below :: "addr \<Rightarrow> nat \<Rightarrow> kworld \<Rightarrow> kworld \<Rightarrow> bool" where
  "pushed_below f k s t \<longleftrightarrow> t = s\<lparr>mem := mem t\<rparr> \<and> only_pages (mem s) (mem t) {f} \<and>
     (\<forall>i. k \<le> i \<longrightarrow> i < 4096 \<longrightarrow> mem t (f + of_nat i) = mem s (f + of_nat i))"

lemma pushed_below_refl: "pushed_below f k s s"
  by (simp add: pushed_below_def)

lemma pushed_below_trans:
  assumes "pushed_below f k s u" "pushed_below f j u t" "j \<le> k"
  shows "pushed_below f k s t"
  using assms mem_only_trans [of u s t] only_pages_trans [of "mem s" "mem u" "{f}" "mem t"] by (auto simp: pushed_below_def)

lemma push_one:
  assumes "stack_page pt base f (mem s)" "bs \<noteq> []" "k + length bs \<le> j" "j \<le> 4096"
    and t: "t = s\<lparr>mem := write_bytes (mem s) (f + of_nat k) bs\<rparr>"
  shows "copyout pt (base + of_nat k) bs s = Ret 0 t" "stack_page pt base f (mem t)" "pushed_below f j s t"
    "read_bytes (mem t) (f + of_nat k) (length bs) = bs"
proof -
  have k: "k + length bs \<le> 4096" using assms(3,4) by simp
  note c = stack_copyout [OF assms(1,2) k]
  show "copyout pt (base + of_nat k) bs s = Ret 0 t" "stack_page pt base f (mem t)" using c by (simp_all add: t)
  show "pushed_below f j s t" using c(3) assms(3) k by (auto simp: pushed_below_def t page_write_other)
  show "read_bytes (mem t) (f + of_nat k) (length bs) = bs" using k by (simp add: t read_write_same)
qed

lemma pushed_read:
  assumes "pushed_below f j s t" "j \<le> k" "k + n \<le> 4096"
  shows "read_bytes (mem t) (f + of_nat k) n = read_bytes (mem s) (f + of_nat k) n"
proof (rule read_bytes_cong)
  fix i assume "i < n"
  then have "mem t (f + of_nat (k + i)) = mem s (f + of_nat (k + i))"
    using assms by (auto simp: pushed_below_def simp del: of_nat_add)
  then show "mem t (f + of_nat k + of_nat i) = mem s (f + of_nat k + of_nat i)" by (simp add: add.assoc)
qed

lemma args_at_Cons:
  "args_at base f m lo hi (a # argv) (x # xs) \<longleftrightarrow> (\<exists>q. x = base + of_nat q \<and> lo \<le> q \<and> q + length a + 1 \<le> hi \<and>
     read_bytes m (f + of_nat q) (length a + 1) = a @ [0]) \<and> args_at base f m lo hi argv xs"
  by (simp add: args_at_def)

lemma push_args_Cons:
  assumes x: "x = sp - of_nat (length a + 1)" and y: "y = x - x mod 16"
  shows "push_args pt base (a # argv) sp us s =
    (if MAXARG \<le> length us \<or> y < base then Ret None s
     else kbind (copyout pt y (a @ [0])) (\<lambda>r. if r < 0 then kret None else push_args pt base argv y (us @ [y])) s)"
proof -
  have "sp - (of_nat (length a) + 1) = x" by (simp add: x)
  then show ?thesis unfolding y by (simp add: exec_simps Let_def)
qed

lemma push_args_eq:
  assumes "stack_page pt base f (mem s)" "4096 \<le> unat base" "16 dvd k" "k \<le> 4096" "\<forall>a\<in>set argv. length a < 4096"
  shows "\<exists>t. stack_page pt base f (mem t) \<and> pushed_below f k s t \<and>
    (if (argv = [] \<or> length us + length argv \<le> MAXARG) \<and> strings_size argv \<le> k
     then \<exists>ptrs. push_args pt base argv (base + of_nat k) us s = Ret (Some (base + of_nat (k - strings_size argv), us @ ptrs)) t \<and>
       args_at base f (mem t) (k - strings_size argv) k argv ptrs
     else push_args pt base argv (base + of_nat k) us s = Ret None t)"
  using assms
proof (induction argv arbitrary: k us s)
  case Nil
  then show ?case
    by (intro exI [of _ s]) (simp add: exec_simps pushed_below_refl strings_size_def args_at_def)
next
  case (Cons a argv)
  let ?n = "length a + 1" and ?sp = "base + of_nat k - of_nat (length a + 1)"
  have n: "?n \<le> 4096" using Cons.prems(5) by simp
  have base: "aligned base" "base < MAXVA" using Cons.prems(1) by (simp_all add: stack_page_def)
  note step = push_step [OF base(1) Cons.prems(2) base(2) Cons.prems(3,4) n refl]
  note cons = push_args_Cons [OF refl refl, where sp = "base + of_nat k" and a = a]
  show ?case
  proof (cases "MAXARG \<le> length us \<or> k < up16 ?n")
    case True
    then have "push_args pt base (a # argv) (base + of_nat k) us s = Ret None s"
      unfolding cons step(1) by (auto simp: not_le)
    then show ?thesis using Cons.prems(1) True pushed_below_refl
      by (intro exI [of _ s]) (auto simp: strings_size_def)
  next
    case False
    let ?k = "k - up16 ?n"
    define u where "u = s\<lparr>mem := write_bytes (mem s) (f + of_nat ?k) (a @ [0])\<rparr>"
    have k: "?k + length (a @ [0]) \<le> k" "16 dvd ?k" "?k \<le> 4096"
      using up16_bounds [of ?n] False Cons.prems(3,4) by (simp_all add: dvd_diff_nat del: add_Suc add_Suc_right)
    note one = push_one [OF Cons.prems(1) _ k(1) Cons.prems(4) u_def]
    have eq: "push_args pt base (a # argv) (base + of_nat k) us s = push_args pt base argv (base + of_nat ?k) (us @ [base + of_nat ?k]) u"
    proof -
      have y: "?sp - ?sp mod 16 = base + of_nat ?k" using step(2) False by simp
      moreover have "\<not> ?sp - ?sp mod 16 < base" unfolding step(1) using False by simp
      ultimately show ?thesis using False one(1) unfolding cons y by (simp add: kbind_def)
    qed
    obtain t where t: "stack_page pt base f (mem t)" "pushed_below f ?k u t"
      "if (argv = [] \<or> length (us @ [base + of_nat ?k]) + length argv \<le> MAXARG) \<and> strings_size argv \<le> ?k
       then \<exists>ptrs. push_args pt base argv (base + of_nat ?k) (us @ [base + of_nat ?k]) u =
           Ret (Some (base + of_nat (?k - strings_size argv), (us @ [base + of_nat ?k]) @ ptrs)) t \<and>
         args_at base f (mem t) (?k - strings_size argv) ?k argv ptrs
       else push_args pt base argv (base + of_nat ?k) (us @ [base + of_nat ?k]) u = Ret None t"
      using Cons.IH [OF one(2) Cons.prems(2) k(2,3), of "us @ [base + of_nat ?k]"] Cons.prems(5) by auto
    have below: "pushed_below f k s t" using pushed_below_trans [OF one(3) t(2)] by simp
    have head: "read_bytes (mem t) (f + of_nat ?k) (length a + 1) = a @ [0]"
      using pushed_read [OF t(2), of ?k ?n] one(4) k(1) Cons.prems(4) by simp
    have size: "strings_size (a # argv) = up16 ?n + strings_size argv" by (simp add: strings_size_def)
    show ?thesis
    proof (cases "length us + length (a # argv) \<le> MAXARG \<and> strings_size (a # argv) \<le> k")
      case True
      then have "(argv = [] \<or> length (us @ [base + of_nat ?k]) + length argv \<le> MAXARG) \<and> strings_size argv \<le> ?k"
        using size by auto
      with t(3) obtain ptrs where p: "push_args pt base argv (base + of_nat ?k) (us @ [base + of_nat ?k]) u =
           Ret (Some (base + of_nat (?k - strings_size argv), (us @ [base + of_nat ?k]) @ ptrs)) t"
        "args_at base f (mem t) (?k - strings_size argv) ?k argv ptrs" by (simp only: if_True simp_thms) blast
      have "args_at base f (mem t) (?k - strings_size argv) k (a # argv) ((base + of_nat ?k) # ptrs)"
        unfolding args_at_Cons using head k(1) args_at_mono [OF p(2), of k] by (intro conjI exI [of _ ?k]) simp_all
      moreover have "k - strings_size (a # argv) = ?k - strings_size argv" using size by simp
      ultimately show ?thesis using True p(1) t(1) below
        by (intro exI [of _ t]) (simp only: eq append.assoc append_Cons append_Nil simp_thms if_True, blast)
    next
      case False
      then have "\<not> ((argv = [] \<or> length (us @ [base + of_nat ?k]) + length argv \<le> MAXARG) \<and> strings_size argv \<le> ?k)"
        using size \<open>\<not> (MAXARG \<le> length us \<or> k < up16 ?n)\<close> by auto
      then show ?thesis using False t(1,3) below eq by (intro exI [of _ t]) auto
    qed
  qed
qed

section \<open>The whole stack\<close>

text \<open>How much of the stack the arguments take: the strings with their NULs, and the array of pointers with its null at the end.\<close>

definition stack_size :: "byte list list \<Rightarrow> nat" where
  "stack_size argv = strings_size argv + up16 (8 * (length argv + 1))"

lemma length_le_words: "length (concat (map (to_le 8) xs)) = 8 * length xs"
  by (induction xs) simp_all

lemma strings_size_dvd: "16 dvd strings_size argv"
  unfolding strings_size_def by (induction argv) (simp_all add: up16_bounds)

lemma build_stack_Some:
  assumes run: "push_args pt base argv sz [] s = Ret (Some (sp, us)) t" and b: "sz - PGSIZE = base" and us: "length us < MAXARG"
    and x: "x = sp - (of_nat (length us) + 1) * 8" and y: "y = x - x mod 16"
  shows "build_stack pt sz argv s =
    (if y < base then Ret None t
     else kbind (copyout pt y (concat (map (to_le 8) (us @ [0])))) (\<lambda>r. kret (if r < 0 then None else Some y)) t)"
proof -
  have "build_stack pt sz argv s = kbind (kret (sp, us)) (\<lambda>_. if y < base then kret None
     else kbind (copyout pt y (concat (map (to_le 8) (us @ [0])))) (\<lambda>r. kret (if r < 0 then None else Some y))) t"
    unfolding build_stack_def Let_def b y x using us by (simp add: kbind_Ret [where m = "push_args pt base argv sz []", OF run])
  then show ?thesis by (simp add: kret_exec)
qed

lemma args_at_kept:
  assumes "args_at base f (mem s) lo hi argv xs" "pushed_below f lo s t" "hi \<le> 4096" "lo' \<le> lo"
  shows "args_at base f (mem t) lo' hi argv xs"
  using assms(1) unfolding args_at_def
proof (rule list_all2_mono)
  fix a x
  assume "\<exists>q. x = base + of_nat q \<and> lo \<le> q \<and> q + length a + 1 \<le> hi \<and> read_bytes (mem s) (f + of_nat q) (length a + 1) = a @ [0]"
  then obtain q where q: "x = base + of_nat q" "lo \<le> q" "q + length a + 1 \<le> hi" "read_bytes (mem s) (f + of_nat q) (length a + 1) = a @ [0]"
    by blast
  then have "read_bytes (mem t) (f + of_nat q) (length a + 1) = a @ [0]"
    using pushed_read [OF assms(2), of q "length a + 1"] assms(3) by simp
  then show "\<exists>q. x = base + of_nat q \<and> lo' \<le> q \<and> q + length a + 1 \<le> hi \<and> read_bytes (mem t) (f + of_nat q) (length a + 1) = a @ [0]"
    using q assms(4) by (intro exI [of _ q]) simp
qed

lemma build_stack_eq:
  assumes pg: "stack_page pt base f (mem s)" and base: "4096 \<le> unat base" and argv: "\<forall>a\<in>set argv. length a < 4096"
    and sz: "sz = base + of_nat 4096" and few: "length argv < MAXARG" "stack_size argv \<le> 4096"
  shows "\<exists>t q ptrs. build_stack pt sz argv s = Ret (Some (base + of_nat q)) t \<and> stack_page pt base f (mem t) \<and>
    pushed_below f 4096 s t \<and> q = 4096 - stack_size argv \<and> args_at base f (mem t) (q + 8 * (length argv + 1)) 4096 argv ptrs \<and>
    read_bytes (mem t) (f + of_nat q) (8 * (length argv + 1)) = concat (map (to_le 8) (ptrs @ [0]))"
proof -
  let ?k = "4096 - strings_size argv" and ?n = "8 * (length argv + 1)"
  obtain t ptrs where t: "stack_page pt base f (mem t)" "pushed_below f 4096 s t"
    "push_args pt base argv sz [] s = Ret (Some (base + of_nat ?k, ptrs)) t" "args_at base f (mem t) ?k 4096 argv ptrs"
    using push_args_eq [OF pg base _ _ argv, of 4096 "[]"] few by (auto simp: sz stack_size_def)
  have len: "length ptrs = length argv" using t(4) by (simp add: args_at_def list_all2_lengthD)
  have us: "length ptrs < MAXARG" using len few(1) by simp
  have n: "?n \<le> 4096" using few(1) by (simp add: MAXARG_def)
  have b: "aligned base" "base < MAXVA" using pg by (simp_all add: stack_page_def)
  have k: "16 dvd ?k" "?k \<le> 4096" "up16 ?n \<le> ?k" using few(2) strings_size_dvd by (auto simp: stack_size_def dvd_diff_nat)
  let ?sp = "base + of_nat ?k - of_nat ?n" and ?q = "?k - up16 ?n"
  have y: "?sp - ?sp mod 16 = base + of_nat ?q" "\<not> base + of_nat ?q < base"
    using push_step [OF b(1) base b(2) k(1,2) n refl] k(3) by (simp_all only: not_less)
  let ?bs = "concat (map (to_le 8) (ptrs @ [0]))"
  have e: "(of_nat (length argv) + 1) * 8 = (of_nat ?n :: addr)" by simp
  have b': "sz - PGSIZE = base" by (simp add: sz PGSIZE_def)
  define u where "u = t\<lparr>mem := write_bytes (mem t) (f + of_nat ?q) ?bs\<rparr>"
  have bs: "length ?bs = ?n" using len length_le_words [of "ptrs @ [0]"] by simp
  then have ne: "?bs \<noteq> []" by (metis add_is_0 length_0_conv mult_is_0 zero_neq_numeral zero_neq_one)
  have fit: "?q + length ?bs \<le> ?k" using bs up16_bounds(1) [of ?n] k(3) by linarith
  note one = push_one [OF t(1) ne fit k(2) u_def]
  have "build_stack pt sz argv s = Ret (Some (base + of_nat ?q)) u"
    unfolding build_stack_Some [OF t(3) b' us refl refl] len e y(1) using one(1) y(2) by (simp add: kbind_def kret_def)
  moreover have "pushed_below f 4096 s u" using pushed_below_trans [OF t(2) one(3)] k(2) by simp
  moreover have "args_at base f (mem u) (?q + ?n) 4096 argv ptrs"
    by (rule args_at_kept [OF t(4) one(3)]) (use fit bs in simp_all)
  moreover have "?q = 4096 - stack_size argv" by (simp add: stack_size_def)
  ultimately show ?thesis using one(2,4) bs by metis
qed

lemma build_stack_refuses:
  assumes pg: "stack_page pt base f (mem s)" and base: "4096 \<le> unat base" and argv: "\<forall>a\<in>set argv. length a < 4096"
    and sz: "sz = base + of_nat 4096" and many: "\<not> (length argv \<le> MAXARG \<and> stack_size argv \<le> 4096)"
    and room: "length argv \<noteq> MAXARG"
  shows "\<exists>t. build_stack pt sz argv s = Ret None t \<and> pushed_below f 4096 s t"
proof -
  let ?k = "4096 - strings_size argv" and ?n = "8 * (length argv + 1)"
  have b': "sz - PGSIZE = base" by (simp add: sz PGSIZE_def)
  obtain t where t: "stack_page pt base f (mem t)" "pushed_below f 4096 s t"
    "if (argv = [] \<or> length argv \<le> MAXARG) \<and> strings_size argv \<le> 4096
     then \<exists>ptrs. push_args pt base argv sz [] s = Ret (Some (base + of_nat ?k, ptrs)) t \<and> args_at base f (mem t) ?k 4096 argv ptrs
     else push_args pt base argv sz [] s = Ret None t"
    unfolding sz using push_args_eq [OF pg base _ _ argv, of 4096 "[]"] by (simp only: list.size add_0 append_Nil) force
  show ?thesis
  proof (cases "length argv \<le> MAXARG \<and> strings_size argv \<le> 4096")
    case True
    with t(3) obtain ptrs where p: "push_args pt base argv sz [] s = Ret (Some (base + of_nat ?k, ptrs)) t"
      "args_at base f (mem t) ?k 4096 argv ptrs" by auto
    have n: "?n \<le> 4096" using True by (simp add: MAXARG_def)
    have b: "aligned base" "base < MAXVA" using pg by (simp_all add: stack_page_def)
    have k: "16 dvd ?k" "?k \<le> 4096" "?k < up16 ?n" using True many strings_size_dvd by (auto simp: stack_size_def dvd_diff_nat)
    have us: "length ptrs < MAXARG" using p(2) True room by (simp add: args_at_def list_all2_lengthD [symmetric])
    have e: "(of_nat (length ptrs) + 1) * 8 = (of_nat ?n :: addr)"
      using p(2) by (simp add: args_at_def list_all2_lengthD)
    show ?thesis
      unfolding build_stack_Some [OF p(1) b' us refl refl] e
      using push_step(1) [OF b(1) base b(2) k(1,2) n refl] k(3) t(2) by auto
  next
    case False
    then have "push_args pt base argv sz [] s = Ret None t" using t(3) by (auto simp: strings_size_def split: if_splits)
    then show ?thesis using t(2) by (auto simp: build_stack_def Let_def b' exec_simps)
  qed
qed

text \<open>
  With exactly \<open>MAXARG\<close> arguments whose strings fit, the null that ends the array is written beside \<open>ustack\<close>. The system
  call never gets there: \<open>sys_exec\<close> has room for the null in its own array of \<open>MAXARG\<close> pointers.
\<close>
lemma build_stack_overflow:
  assumes pg: "stack_page pt base f (mem s)" and base: "4096 \<le> unat base" and argv: "\<forall>a\<in>set argv. length a < 4096"
    and sz: "sz = base + of_nat 4096" and full: "length argv = MAXARG" "strings_size argv \<le> 4096"
  shows "build_stack pt sz argv s = Panic ''ustack[argc]''"
proof -
  have b': "sz - PGSIZE = base" by (simp add: sz PGSIZE_def)
  obtain t sp ptrs where t: "push_args pt base argv sz [] s = Ret (Some (sp, ptrs)) t" "length ptrs = MAXARG"
    using push_args_eq [OF pg base _ _ argv, of 4096 "[]"] full by (auto simp: sz args_at_def list_all2_lengthD [symmetric])
  then show ?thesis by (simp add: build_stack_def Let_def b' kbind_Ret [where m = "push_args pt base argv sz []", OF t(1)] panic_def)
qed

lemma stack_size_bounds: "8 * (length argv + 1) \<le> stack_size argv" "0 < stack_size argv" "16 dvd stack_size argv"
proof -
  show "8 * (length argv + 1) \<le> stack_size argv" unfolding stack_size_def using up16_bounds(1) [of "8 * (length argv + 1)"] by linarith
  then show "0 < stack_size argv" by (rule less_le_trans [rotated]) simp
  show "16 dvd stack_size argv" unfolding stack_size_def using strings_size_dvd up16_bounds(4) by (intro dvd_add)
qed

lemma args_seen:
  assumes "stack_page pt base f m" "args_at base f m lo 4096 argv ptrs" "i < length argv"
  shows "\<exists>q. unat (ptrs ! i) = unat base + q \<and> lo \<le> q \<and> q + length (argv ! i) + 1 \<le> 4096 \<and>
    user_bytes m pt (ptrs ! i) (length (argv ! i) + 1) = argv ! i @ [0]"
proof -
  obtain q where q: "ptrs ! i = base + of_nat q" "lo \<le> q" "q + length (argv ! i) + 1 \<le> 4096"
    "read_bytes m (f + of_nat q) (length (argv ! i) + 1) = argv ! i @ [0]"
    using list_all2_nthD [OF assms(2) [unfolded args_at_def] assms(3)] by blast
  then have "unat (ptrs ! i) = unat base + q" using in_page(2) [of base q] assms(1) by (simp add: stack_page_def)
  moreover have "user_bytes m pt (ptrs ! i) (length (argv ! i) + 1) = argv ! i @ [0]"
    using stack_bytes [OF assms(1), of q "length (argv ! i) + 1"] q by simp
  ultimately show ?thesis using q by blast
qed

text \<open>
  C13. A new program finds its arguments, and the kernel stays within the stack. Let the page below \<open>sz\<close> be the user's, with
  a frame of its own, and let there not be exactly \<open>MAXARG\<close> arguments, for which the code writes beside \<open>ustack\<close>.
  \<open>build_stack\<close> fails exactly when there are more than \<open>MAXARG\<close> arguments or when the strings with their
  NULs, each rounded up to 16 bytes, and the array of pointers do not fit into the page. Otherwise the stack pointer is a multiple of
  16 inside the page, at it the user finds an array of \<open>argc\<close> pointers followed by a null pointer, each leads to the
  bytes of its argument followed by a NUL, above the array and inside the page. In both cases nothing but that
  frame has changed.
\<close>
theorem build_stack_spec:
  assumes "stack_page pt (sz - PGSIZE) f (mem s)" "2 * 4096 \<le> unat sz" "\<forall>a\<in>set argv. length a < 4096" "length argv \<noteq> MAXARG"
  shows "\<exists>r t. build_stack pt sz argv s = Ret r t \<and> t = s\<lparr>mem := mem t\<rparr> \<and> only_pages (mem s) (mem t) {f} \<and>
    (r = None \<longleftrightarrow> MAXARG < length argv \<or> 4096 < (\<Sum>a\<leftarrow>argv. up16 (length a + 1)) + up16 (8 * (length argv + 1))) \<and>
    (\<forall>sp. r = Some sp \<longrightarrow> sp mod 16 = 0 \<and> sz - PGSIZE \<le> sp \<and> sp < sz \<and>
      (\<exists>ptrs. length ptrs = length argv \<and> user_bytes (mem t) pt sp (8 * (length argv + 1)) = concat (map (to_le 8) (ptrs @ [0])) \<and>
        (\<forall>i<length argv. unat sp + 8 * (length argv + 1) \<le> unat (ptrs ! i) \<and> unat (ptrs ! i) + length (argv ! i) < unat sz \<and>
           user_bytes (mem t) pt (ptrs ! i) (length (argv ! i) + 1) = argv ! i @ [0])))"
proof -
  let ?n = "8 * (length argv + 1)"
  define base where "base = sz - PGSIZE"
  have pg: "stack_page pt base f (mem s)" using assms(1) by (simp add: base_def)
  have ub: "unat base = unat sz - 4096" using assms(2) by (simp add: base_def unat_sub word_le_nat_alt unat_PGSIZE)
  have base: "4096 \<le> unat base" and sz: "sz = base + of_nat 4096" using ub assms(2) by (simp_all add: base_def PGSIZE_def)
  show ?thesis
  proof (cases "length argv \<le> MAXARG \<and> stack_size argv \<le> 4096")
    case False
    obtain t where "build_stack pt sz argv s = Ret None t" "pushed_below f 4096 s t"
      using build_stack_refuses [OF pg base assms(3) sz False assms(4)] by blast
    then show ?thesis using False by (intro exI [of _ None] exI [of _ t]) (auto simp: pushed_below_def stack_size_def strings_size_def)
  next
    case True
    then have "length argv < MAXARG" "stack_size argv \<le> 4096" using assms(4) by simp_all
    then obtain t q ptrs where t: "build_stack pt sz argv s = Ret (Some (base + of_nat q)) t" "stack_page pt base f (mem t)"
      "pushed_below f 4096 s t" "q = 4096 - stack_size argv" "args_at base f (mem t) (q + ?n) 4096 argv ptrs"
      "read_bytes (mem t) (f + of_nat q) ?n = concat (map (to_le 8) (ptrs @ [0]))"
      using build_stack_eq [OF pg base assms(3) sz] by blast
    have q: "q + ?n \<le> 4096" "q < 4096" "16 dvd q" using stack_size_bounds [of argv] True t(4) by (auto simp: dvd_diff_nat)
    note seen = args_seen [OF t(2,5)]
    have usp: "unat (base + of_nat q) = unat base + q" using in_page(2) [OF _ q(2)] pg by (simp add: stack_page_def)
    have "sz - PGSIZE \<le> base + of_nat q" "base + of_nat q < sz"
      using usp ub assms(2) q(2) by (simp_all add: word_le_nat_alt word_less_nat_alt base_def [symmetric])
    moreover have "(base + of_nat q) mod 16 = 0"
      using usp pg q(3) by (simp add: word_unat_eq_iff unat_mod stack_page_def aligned_dvd mod_eq_0_iff_dvd dvd_add dvd_trans [of 16 4096])
    moreover have "user_bytes (mem t) pt (base + of_nat q) ?n = concat (map (to_le 8) (ptrs @ [0]))"
      using stack_bytes [OF t(2) q(1,2)] t(6) by simp
    moreover have "unat (base + of_nat q) + ?n \<le> unat (ptrs ! i) \<and> unat (ptrs ! i) + length (argv ! i) < unat sz \<and>
           user_bytes (mem t) pt (ptrs ! i) (length (argv ! i) + 1) = argv ! i @ [0]" if "i < length argv" for i
      using seen [OF that] usp ub assms(2) by auto
    moreover have "length ptrs = length argv" using t(5) by (simp add: args_at_def list_all2_lengthD)
    moreover have "\<not> (MAXARG < length argv \<or> 4096 < (\<Sum>a\<leftarrow>argv. up16 (length a + 1)) + up16 ?n)"
      using True by (simp add: stack_size_def strings_size_def)
    ultimately show ?thesis using t(1,3)
      by (intro exI [of _ "Some (base + of_nat q)"] exI [of _ t]) (simp add: pushed_below_def, blast)
  qed
qed

text \<open>An address space with a stack page at \<open>0x1000\<close>.\<close>

definition stack_pte :: addr where
  "stack_pte = PA2PTE 0x80034000 OR (PTE_R OR PTE_W OR PTE_U) OR PTE_V"

definition stack_mem :: mem where
  "stack_mem = store64 example_mem (pte_slot 0x80032000 1) stack_pte"

lemma stack_mem_page: "stack_page 0x80030000 0x1000 0x80034000 stack_mem"
proof -
  have px: "PX 0 0x1000 = 1" "PX (Suc 0) 0x1000 = 0" "PX (Suc (Suc 0)) 0x1000 = 0"
    by (simp_all add: PX_def PXSHIFT_def PXMASK_def)
  then have at: "pte_at 2 example_mem 0x80030000 0x1000 = Some (pte_slot 0x80032000 1)"
    using valid_linked(2) by (simp add: numeral_2_eq_2 example_children example_slot0)
  note st = leaf_store [OF example_tree(1) at, of stack_pte]
  have e: "entry 2 stack_mem 0x80030000 0x1000 = stack_pte"
    unfolding stack_mem_def by (simp add: entry_leaf_store [OF example_tree(1) at] same_vpage_def)
  have "PTE2PA stack_pte = 0x80034000"
    by (simp add: stack_pte_def PTE2PA_PA2PTE aligned_def PGSIZE_def PTE_V_def PTE_R_def PTE_W_def PTE_U_def push_bit_eq_mult)
  then show ?thesis
    using st e unfolding stack_page_def user_ok_def stack_mem_def [symmetric] example_tree(2)
    by (auto simp: stack_pte_def aligned_def PGSIZE_def MAXVA_def PTE_V_def PTE_R_def PTE_W_def PTE_U_def PA2PTE_def push_bit_eq_mult drop_bit_eq_div)
qed

theorem build_stack_spec_witness:
  "\<exists>sp t. build_stack 0x80030000 0x2000 [str ''echo'', str ''hi''] ((zero_world example_syms)\<lparr>mem := stack_mem\<rparr>) = Ret (Some sp) t \<and> sp mod 16 = 0"
proof -
  let ?s = "(zero_world example_syms)\<lparr>mem := stack_mem\<rparr>" and ?argv = "[str ''echo'', str ''hi'']"
  have "stack_page 0x80030000 (0x2000 - PGSIZE) 0x80034000 (mem ?s)" using stack_mem_page by (simp add: PGSIZE_def)
  moreover have "2 * 4096 \<le> unat (0x2000 :: addr)" "\<forall>a\<in>set ?argv. length a < 4096" by simp_all
  moreover have "length ?argv \<noteq> MAXARG" by (simp add: MAXARG_def)
  moreover have "\<not> (MAXARG < length ?argv \<or> 4096 < (\<Sum>a\<leftarrow>?argv. up16 (length a + 1)) + up16 (8 * (length ?argv + 1)))"
    by (simp add: MAXARG_def up16_def)
  ultimately show ?thesis using build_stack_spec [of "0x80030000" "0x2000" "0x80034000" ?s ?argv] by blast
qed

end
