(* ===== verification/Usys.thy ===== *)
theory Usys
  imports Syscall
begin

text \<open>
  User programs and their library (\<open>user/ulib.c\<close>, \<open>user/printf.c\<close>). A user program is a program of the monad of \<open>Prelude\<close> over
  what surrounds a process: the answers of the system calls it makes (\<open>reply\<close>, by the number of calls made before;
  \<open>None\<close> for a call that does not return), what reads from its descriptors find (\<open>arriving\<close>: the bytes there at each time, with
  \<open>None\<close> for an error), and the calls it has made. A process ends, by \<open>exit\<close> or in a call that does not return, with \<open>Switched\<close>;
  an access outside of an object or through a null pointer is a \<open>Panic\<close>. The program after \<open>fork\<close> goes on as the child or as the parent, as the
  answer says.
\<close>

section \<open>System calls as a process sees them (user.h)\<close>

datatype scall =
    ScFork | ScExit int | ScWait | ScPipe | ScRead int nat | ScWrite int "byte list" | ScClose int | ScKill int
  | ScExec "byte list" "byte list list" | ScOpen "byte list" u32 | ScMknod "byte list" int int | ScUnlink "byte list"
  | ScFstat int | ScLink "byte list" "byte list" | ScMkdir "byte list" | ScChdir "byte list" | ScDup int | ScSbrk int | ScSleep int

datatype answer = Ans int | AnsPipe int int | AnsStat kstat

record uworld =
  arriving :: "int \<Rightarrow> byte list option list"
  reply :: "nat \<Rightarrow> answer option"
  calls :: "scall list"

type_synonym ('z, 'a) U = "('z uworld_scheme, 'a) prog"

text \<open>An \<open>ecall\<close>, and the results the stubs hand to the program.\<close>

definition usys :: "scall \<Rightarrow> ('z, answer) U" where
  "usys c = (\<lambda>s. let t = s\<lparr>calls := calls s @ [c]\<rparr> in
     case reply s (length (calls s)) of None \<Rightarrow> Switched t | Some r \<Rightarrow> Ret r t)"

definition ucall :: "scall \<Rightarrow> ('z, int) U" where
  "ucall c = kbind (usys c) (\<lambda>r. kret (case r of Ans i \<Rightarrow> i | _ \<Rightarrow> - 1))"

definition u_exit :: "int \<Rightarrow> ('z, 'a) U" where
  "u_exit n = (\<lambda>s. Switched (s\<lparr>calls := calls s @ [ScExit n]\<rparr>))"

text \<open>\<open>read\<close> takes what is there, at most \<open>n\<close> bytes; the rest stays for the next read. With nothing more to come it answers 0.\<close>

definition u_read :: "int \<Rightarrow> nat \<Rightarrow> ('z, int \<times> byte list) U" where
  "u_read fd n =
     kbind (usys (ScRead fd n)) (\<lambda>_.
     kbind (kget (\<lambda>s. arriving s fd)) (\<lambda>q.
     case q of
       [] \<Rightarrow> kret (0, [])
     | None # r \<Rightarrow> kbind (kmod (\<lambda>s. s\<lparr>arriving := (arriving s)(fd := r)\<rparr>)) (\<lambda>_. kret (- 1, []))
     | Some bs # r \<Rightarrow>
         kbind (kmod (\<lambda>s. s\<lparr>arriving := (arriving s)(fd := (if length bs \<le> n then r else Some (drop n bs) # r))\<rparr>)) (\<lambda>_.
         kret (int (min n (length bs)), take n bs))))"

definition u_write :: "int \<Rightarrow> byte list \<Rightarrow> ('z, int) U" where
  "u_write fd bs = ucall (ScWrite fd bs)"

definition u_fstat :: "int \<Rightarrow> ('z, kstat option) U" where
  "u_fstat fd = kbind (usys (ScFstat fd)) (\<lambda>r. kret (case r of AnsStat st \<Rightarrow> Some st | _ \<Rightarrow> None))"

definition u_pipe :: "('z, (int \<times> int) option) U" where
  "u_pipe = kbind (usys ScPipe) (\<lambda>r. kret (case r of AnsPipe a b \<Rightarrow> Some (a, b) | _ \<Rightarrow> None))"

section \<open>The library (ulib.c)\<close>

text \<open>
  Routines that write take the memory; for those that only read, a string is the list of the bytes from the pointer on, with a
  NUL behind the last.
\<close>

definition u_main :: "('z, 'a) U \<Rightarrow> ('z, 'b) U" where
  "u_main main' = kbind main' (\<lambda>_. u_exit 0)"

partial_function (option) strcpy_from :: "mem \<Rightarrow> addr \<Rightarrow> addr \<Rightarrow> mem option" where
  "strcpy_from m s t =
     (let c = m t; m' = m(s := c) in if c \<noteq> 0 then strcpy_from m' (s + 1) (t + 1) else Some m')"

definition u_strcpy :: "mem \<Rightarrow> addr \<Rightarrow> addr \<Rightarrow> mem option" where
  "u_strcpy m s t = strcpy_from m s t"

definition first :: "byte list \<Rightarrow> byte" where
  "first s = (case s of [] \<Rightarrow> 0 | c # _ \<Rightarrow> c)"

fun u_strcmp :: "byte list \<Rightarrow> byte list \<Rightarrow> int" where
  "u_strcmp [] q = - uint (first q)"
| "u_strcmp (c # p) q = (if c \<noteq> 0 \<and> c = first q then u_strcmp p (tl q) else uint c - uint (first q))"

fun u_strlen :: "byte list \<Rightarrow> nat" where
  "u_strlen [] = 0"
| "u_strlen (c # s) = (if c = 0 then 0 else Suc (u_strlen s))"

definition u_memset :: "mem \<Rightarrow> addr \<Rightarrow> byte \<Rightarrow> u32 \<Rightarrow> mem" where
  "u_memset m dst c n = memset_from m dst c 0 (unat n)"

text \<open>The answer of \<open>strchr\<close> is how far behind its argument the character is.\<close>

fun u_strchr :: "byte list \<Rightarrow> byte \<Rightarrow> nat option" where
  "u_strchr [] c = None"
| "u_strchr (x # s) c = (if x = 0 then None else if x = c then Some 0 else map_option Suc (u_strchr s c))"

text \<open>The bytes that \<open>gets\<close> leaves in front of the NUL.\<close>

definition u_gets :: "nat \<Rightarrow> ('z, byte list) U" where
  "u_gets max' = kloop (\<lambda>got.
     if \<not> length got + 1 < max' then kret (Inr got)
     else kbind (u_read 0 1) (\<lambda>(cc, bs).
       if cc < 1 then kret (Inr got)
       else let c = first bs; got = got @ [c] in
         if c = 10 \<or> c = 13 then kret (Inr got) else kret (Inl got))) []"

definition u_stat :: "byte list \<Rightarrow> ('z, kstat option) U" where
  "u_stat n =
     kbind (ucall (ScOpen n O_RDONLY)) (\<lambda>fd.
     if fd < 0 then kret None
     else kbind (u_fstat fd) (\<lambda>r. kbind (ucall (ScClose fd)) (\<lambda>_. kret r)))"

fun atoi_from :: "u32 \<Rightarrow> byte list \<Rightarrow> u32" where
  "atoi_from n [] = n"
| "atoi_from n (c # s) = (if 48 \<le> c \<and> c \<le> 57 then atoi_from (n * 10 + ucast c - 48) s else n)"

definition u_atoi :: "byte list \<Rightarrow> int" where
  "u_atoi s = sint (atoi_from 0 s)"

definition u_memmove :: "mem \<Rightarrow> addr \<Rightarrow> addr \<Rightarrow> int \<Rightarrow> mem" where
  "u_memmove m vdst vsrc n =
     (if vsrc > vdst then copy_up m vdst vsrc (nat n)
      else copy_down m (vdst + of_int n) (vsrc + of_int n) (nat n))"

definition u_memcmp :: "cptr \<Rightarrow> cptr \<Rightarrow> u32 \<Rightarrow> int" where
  "u_memcmp s1 s2 n = memcmp_at s1 s2 0 (unat n)"

definition u_memcpy :: "mem \<Rightarrow> addr \<Rightarrow> addr \<Rightarrow> u32 \<Rightarrow> mem" where
  "u_memcpy m dst src n = u_memmove m dst src (sint n)"

section \<open>Formatted output (printf.c)\<close>

definition putc :: "int \<Rightarrow> byte \<Rightarrow> ('z, unit) U" where
  "putc fd c = kbind (u_write fd [c]) (\<lambda>_. kret ())"

definition u_digits :: string where "u_digits = ''0123456789ABCDEF''"

function u_printint_digits :: "nat \<Rightarrow> nat \<Rightarrow> byte list" where
  "u_printint_digits base x =
     of_char (u_digits ! (x mod base)) # (if base < 2 \<or> x div base = 0 then [] else u_printint_digits base (x div base))"
  by pat_completeness auto

termination u_printint_digits
  by (relation "measure snd") (auto simp: div_greater_zero_iff)

declare u_printint_digits.simps [simp del]

definition u_printint_buf :: "int \<Rightarrow> nat \<Rightarrow> bool \<Rightarrow> byte list" where
  "u_printint_buf xx base sgn' =
     (let neg = sgn' \<and> xx < 0; x = (word_of_int (if neg then - xx else xx) :: u32) in
      u_printint_digits base (unat x) @ (if neg then str ''-'' else []))"

definition u_printint :: "int \<Rightarrow> int \<Rightarrow> nat \<Rightarrow> bool \<Rightarrow> ('z, unit) U" where
  "u_printint fd xx base sgn' = kfor (rev (u_printint_buf xx base sgn')) (putc fd)"

definition u_printptr :: "int \<Rightarrow> addr \<Rightarrow> ('z, unit) U" where
  "u_printptr fd x = kseq [
     putc fd 48,
     putc fd 120,
     kfor [0..<16] (\<lambda>i. putc fd (of_char (u_digits ! unat (drop_bit (64 - 4) (push_bit (4 * i) x)))))]"

text \<open>The \<open>int\<close> parameter of \<open>printint\<close> takes the low half of the 64-bit argument of \<open>%l\<close>.\<close>

fun vprintf :: "int \<Rightarrow> string \<Rightarrow> vararg list \<Rightarrow> ('z, unit) U" where
  "vprintf fd [] ap = kret ()"
| "vprintf fd (c # cs) ap =
     (if c \<noteq> CHR ''%'' then kbind (putc fd (of_char c)) (\<lambda>_. vprintf fd cs ap)
      else case cs of
        [] \<Rightarrow> kret ()
      | d # ds \<Rightarrow>
          if d = CHR ''d'' then kbind (u_printint fd (va_int ap) 10 True) (\<lambda>_. vprintf fd ds (tl ap))
          else if d = CHR ''l'' then kbind (u_printint fd (sint (ucast (va_ptr ap) :: u32)) 10 False) (\<lambda>_. vprintf fd ds (tl ap))
          else if d = CHR ''x'' then kbind (u_printint fd (va_int ap) 16 False) (\<lambda>_. vprintf fd ds (tl ap))
          else if d = CHR ''p'' then kbind (u_printptr fd (va_ptr ap)) (\<lambda>_. vprintf fd ds (tl ap))
          else if d = CHR ''s''
          then kbind (kfor (takeWhile (\<lambda>x. x \<noteq> 0) (case va_str ap of None \<Rightarrow> str ''(null)'' | Some s \<Rightarrow> s)) (putc fd))
            (\<lambda>_. vprintf fd ds (tl ap))
          else if d = CHR ''c'' then kbind (putc fd (word_of_int (va_int ap))) (\<lambda>_. vprintf fd ds (tl ap))
          else if d = CHR ''%'' then kbind (putc fd (of_char d)) (\<lambda>_. vprintf fd ds ap)
          else kbind (kseq [putc fd 37, putc fd (of_char d)]) (\<lambda>_. vprintf fd ds ap))"

definition u_fprintf :: "int \<Rightarrow> string \<Rightarrow> vararg list \<Rightarrow> ('z, unit) U" where
  "u_fprintf fd fmt ap = vprintf fd fmt ap"

definition u_printf :: "string \<Rightarrow> vararg list \<Rightarrow> ('z, unit) U" where
  "u_printf fmt ap = vprintf 1 fmt ap"

section \<open>What a program has written\<close>

primrec written :: "int \<Rightarrow> scall list \<Rightarrow> byte list" where
  "written fd [] = []"
| "written fd (c # cs) = (case c of ScWrite f bs \<Rightarrow> if f = fd then bs else [] | _ \<Rightarrow> []) @ written fd cs"

lemma output_append [simp]: "written fd (xs @ ys) = written fd xs @ written fd ys"
  by (induction xs) simp_all

text \<open>Every call returns. Calls do not change that, and none but reads change what there is to read.\<close>

definition answered :: "'z uworld_scheme \<Rightarrow> bool" where
  "answered s \<longleftrightarrow> (\<forall>n. reply s n \<noteq> None)"

lemma usys_exec:
  assumes "answered s"
  obtains r where "usys c s = Ret r (s\<lparr>calls := calls s @ [c]\<rparr>)"
proof -
  obtain r where "reply s (length (calls s)) = Some r" using assms by (auto simp: answered_def)
  then show ?thesis using that by (simp add: usys_def)
qed

lemma ucall_exec:
  assumes "answered s"
  obtains i where "ucall c s = Ret i (s\<lparr>calls := calls s @ [c]\<rparr>)"
proof -
  obtain r where "usys c s = Ret r (s\<lparr>calls := calls s @ [c]\<rparr>)" by (rule usys_exec [OF assms])
  then show ?thesis using that by (simp add: ucall_def kbind_def kret_def)
qed

lemma u_read_exec:
  assumes "answered s"
  shows "u_read fd n s =
    (let t = s\<lparr>calls := calls s @ [ScRead fd n]\<rparr> in
     case arriving s fd of
       [] \<Rightarrow> Ret (0, []) t
     | None # r \<Rightarrow> Ret (- 1, []) (t\<lparr>arriving := (arriving s)(fd := r)\<rparr>)
     | Some bs # r \<Rightarrow> Ret (int (min n (length bs)), take n bs)
         (t\<lparr>arriving := (arriving s)(fd := (if length bs \<le> n then r else Some (drop n bs) # r))\<rparr>))"
proof -
  obtain r where r: "usys (ScRead fd n) s = Ret r (s\<lparr>calls := calls s @ [ScRead fd n]\<rparr>)" by (rule usys_exec [OF assms])
  show ?thesis
    unfolding u_read_def Let_def kbind_def r
    by (cases "arriving s fd"; cases "hd (arriving s fd)") (simp_all add: kret_def kget_def kmod_def)
qed

lemma answered_simps [simp]:
  "answered (s\<lparr>calls := c\<rparr>) = answered s" "answered (s\<lparr>arriving := q\<rparr>) = answered s"
  by (simp_all add: answered_def)

section \<open>Numbers and memory\<close>

text \<open>\<open>memmove\<close> of the library copies up when the source lies above the destination and down otherwise, and so never reads what it has overwritten.\<close>

lemma u_memmove_eq:
  assumes "0 \<le> n" "unat src + nat n < 2 ^ 64" "unat dst + nat n < 2 ^ 64"
  shows "u_memmove m dst src n = write_bytes m dst (read_bytes m src (nat n))"
proof (rule ext)
  fix x
  let ?n = "nat n"
  have le: "?n \<le> 2 ^ 64" using assms(2) by linarith
  have le': "unat dst + i = unat src + j" if "dst + of_nat i = src + of_nat j" "i < ?n" "j < ?n" for i j
    using that assms unat_add_of_nat [of src j] unat_add_of_nat [of dst i] by simp
  have up: "\<forall>i<?n. \<forall>j<i. dst + of_nat j \<noteq> src + of_nat i" if "src > dst"
  proof (intro allI impI notI)
    fix i j
    assume "i < ?n" "j < i" "dst + of_nat j = src + of_nat i"
    then show False using le' [of j i] that by (simp add: word_less_nat_alt)
  qed
  have down: "\<forall>j<?n. \<forall>i<j. dst + of_nat j \<noteq> src + of_nat i" if "\<not> src > dst"
  proof (intro allI impI notI)
    fix i j
    assume "j < ?n" "i < j" "dst + of_nat j = src + of_nat i"
    then show False using le' [of j i] that by (simp add: word_less_nat_alt)
  qed
  have e: "(of_int n :: addr) = of_nat ?n" using assms(1) by simp
  have "u_memmove m dst src n x = (if unat (x - dst) < ?n then m (src + (x - dst)) else m x)"
    unfolding u_memmove_def e using copy_up_eq [OF le up, of m x] copy_down_eq [OF le down, of m x]
    by (cases "src > dst") (simp_all only: if_True if_False simp_thms)
  then show "u_memmove m dst src n x = write_bytes m dst (read_bytes m src (nat n)) x"
    by (simp add: write_bytes_def)
qed

lemma below_ten: "i < 10 \<Longrightarrow> i \<in> {0, 1, 2, 3, 4, 5, 6, 7, 8, 9 :: nat}"
  by auto

lemma u_digit: "i < 10 \<Longrightarrow> (of_char (u_digits ! i) :: byte) = 48 + of_nat i"
  by (drule below_ten, elim insertE emptyE) (simp_all add: u_digits_def)

lemma digit_value:
  "i < 10 \<Longrightarrow> (48 :: byte) \<le> 48 + of_nat i \<and> 48 + of_nat i \<le> (57 :: byte) \<and> (ucast (48 + of_nat i :: byte) :: u32) = 48 + of_nat i"
  by (drule below_ten, elim insertE emptyE) simp_all

lemma atoi_digit: "i < 10 \<Longrightarrow> atoi_from n ((48 + of_nat i) # s) = atoi_from (n * 10 + of_nat i) s"
  using digit_value [of i] by simp

lemma atoi_digits:
  "\<exists>ds. rev (u_printint_digits 10 x) = map (\<lambda>d. 48 + of_nat d) ds \<and> list_all (\<lambda>d. d < 10) ds \<and> ds \<noteq> [] \<and>
     foldl (\<lambda>a d. a * 10 + d) 0 ds = x"
proof (induction x rule: less_induct)
  case (less x)
  show ?case
  proof (cases "x div 10 = 0")
    case True
    then show ?thesis
      by (intro exI [of _ "[x]"]) (simp add: u_printint_digits.simps [of 10 x] u_digit div_eq_0_iff)
  next
    case False
    then obtain ds where ds: "rev (u_printint_digits 10 (x div 10)) = map (\<lambda>d. 48 + of_nat d) ds" "list_all (\<lambda>d. d < 10) ds"
      "foldl (\<lambda>a d. a * 10 + d) 0 ds = x div 10"
      using less.IH [of "x div 10"] by auto
    then show ?thesis using False
      by (intro exI [of _ "ds @ [x mod 10]"]) (simp add: u_printint_digits.simps [of 10 x] u_digit)
  qed
qed

lemma atoi_foldl:
  "list_all (\<lambda>d. d < 10) ds \<Longrightarrow> atoi_from n (map (\<lambda>d. 48 + of_nat d) ds) = foldl (\<lambda>a d. a * 10 + of_nat d) n ds"
proof (induction ds arbitrary: n)
  case (Cons d ds)
  then show ?case by (simp add: atoi_digit del: atoi_from.simps(2))
qed simp

lemma of_nat_foldl: "of_nat (foldl (\<lambda>a d. a * 10 + d) n ds) = foldl (\<lambda>a d. a * 10 + of_nat d) (of_nat n :: u32) ds"
  by (induction ds arbitrary: n) (simp_all add: of_nat_add of_nat_mult)

text \<open>\<open>atoi\<close> reads what \<open>printf("%d")\<close> prints of a number that is not negative.\<close>

lemma atoi_printint:
  assumes "0 \<le> n" "n < 2 ^ 31"
  shows "u_atoi (rev (u_printint_buf n 10 True)) = n"
proof -
  let ?x = "unat (word_of_int n :: u32)"
  obtain ds where ds: "rev (u_printint_digits 10 ?x) = map (\<lambda>d. 48 + of_nat d) ds" "list_all (\<lambda>d. d < 10) ds"
    "foldl (\<lambda>a d. a * 10 + d) 0 ds = ?x" using atoi_digits by blast
  have "atoi_from 0 (map (\<lambda>d. 48 + of_nat d) ds) = (word_of_int n :: u32)"
    using atoi_foldl [OF ds(2), of 0] of_nat_foldl [of 0 ds] ds(3) by simp
  then have "atoi_from 0 (rev (u_printint_buf n 10 True)) = (word_of_int n :: u32)"
    using assms(1) ds(1) by (simp add: u_printint_buf_def)
  moreover have "sint (word_of_int n :: u32) = n" using assms by (simp add: sint_sbintrunc' signed_take_bit_int_eq_self)
  ultimately show ?thesis by (simp add: u_atoi_def)
qed

end
