(* ===== verification/Grep.thy ===== *)
theory Grep
  imports Usys
begin

text \<open>
  \<open>grep\<close> (\<open>user/grep.c\<close>): the matcher for patterns with \<open>^ . * $\<close> and the loop that cuts the input into lines whatever the sizes in which
  \<open>read\<close> delivers it. Pattern and text are strings as in \<open>Usys\<close>. The matcher is proved to decide the language of the pattern.
\<close>

section \<open>The matcher\<close>

fun matchhere :: "byte list \<Rightarrow> byte list \<Rightarrow> bool"
and matchstar :: "byte \<Rightarrow> byte list \<Rightarrow> byte list \<Rightarrow> bool" where
  "matchhere [] text' = True"
| "matchhere (c # re) text' =
     (if first re = 42 then matchstar c (tl re) text'
      else if c = 36 \<and> re = [] then text' = []
      else case text' of [] \<Rightarrow> False | x # xs \<Rightarrow> if c = 46 \<or> c = x then matchhere re xs else False)"
| "matchstar c re text' =
     (if matchhere re text' then True
      else case text' of [] \<Rightarrow> False | x # xs \<Rightarrow> if x = c \<or> c = 46 then matchstar c re xs else False)"

declare matchstar.simps [simp del]

fun match_from :: "byte list \<Rightarrow> byte list \<Rightarrow> bool" where
  "match_from re [] = matchhere re []"
| "match_from re (x # xs) = (if matchhere re (x # xs) then True else match_from re xs)"

definition match :: "byte list \<Rightarrow> byte list \<Rightarrow> bool" where
  "match re text' = (if first re = 94 then matchhere (tl re) text' else match_from re text')"

section \<open>The program\<close>

lemma u_strchr_less: "u_strchr s c = Some k \<Longrightarrow> k < length s"
  by (induction s arbitrary: k) (auto split: if_splits)

text \<open>The inner loop, on the bytes of the buffer from \<open>p\<close> on; what is left behind the last newline stays in the buffer.\<close>

function grep_lines :: "byte list \<Rightarrow> byte list \<Rightarrow> ('z, byte list) U" where
  "grep_lines pattern p =
     (case u_strchr p 10 of
        None \<Rightarrow> kret p
      | Some q \<Rightarrow>
          kbind (if match pattern (take q p) then kbind (u_write 1 (take (Suc q) p)) (\<lambda>_. kret ()) else kret ()) (\<lambda>_.
          grep_lines pattern (drop (Suc q) p)))"
  by pat_completeness auto

termination grep_lines
  by (relation "measure (\<lambda>(pattern, p). length p)") (auto dest: u_strchr_less)

declare grep_lines.simps [simp del]

text \<open>The local state of the loop is the first \<open>m\<close> bytes of \<open>buf[1024]\<close>.\<close>

definition grep :: "byte list \<Rightarrow> int \<Rightarrow> ('z, unit) U" where
  "grep pattern fd = kloop (\<lambda>got.
     kbind (u_read fd (1024 - length got - 1)) (\<lambda>(n, bs).
     if \<not> n > 0 then kret (Inr ())
     else kbind (grep_lines pattern (got @ bs)) (\<lambda>rest. kret (Inl rest)))) []"

definition grep_main :: "byte list list \<Rightarrow> ('z, 'a) U" where
  "grep_main argv =
     (if length argv \<le> 1
      then kbind (u_fprintf 2 (''usage: grep pattern [file ...]'' @ newline) []) (\<lambda>_. u_exit 1)
      else let pattern = argv ! 1 in
        if length argv \<le> 2 then kbind (grep pattern 0) (\<lambda>_. u_exit 0)
        else kbind (kfor (drop 2 argv) (\<lambda>a.
          kbind (ucall (ScOpen a 0)) (\<lambda>fd.
          if fd < 0
          then kbind (u_printf (''grep: cannot open %s'' @ newline) [VStr (Some a)]) (\<lambda>_. u_exit 1)
          else kseq [grep pattern fd, kbind (ucall (ScClose fd)) (\<lambda>_. kret ())]))) (\<lambda>_. u_exit 0))"

section \<open>What the patterns mean\<close>

datatype atom = Lit byte | Any
datatype piece = One atom | Many atom

definition atom_of :: "byte \<Rightarrow> atom" where
  "atom_of c = (if c = 46 then Any else Lit c)"

fun accepts :: "atom \<Rightarrow> byte \<Rightarrow> bool" where
  "accepts (Lit c) x = (c = x)"
| "accepts Any x = True"

text \<open>A pattern is a sequence of pieces, and whether it has to end where the text ends.\<close>

fun parse_re :: "byte list \<Rightarrow> piece list \<times> bool" where
  "parse_re [] = ([], False)"
| "parse_re (c # re) =
     (if first re = 42 then apfst ((#) (Many (atom_of c))) (parse_re (tl re))
      else if c = 36 \<and> re = [] then ([], True)
      else apfst ((#) (One (atom_of c))) (parse_re re))"

fun lang :: "piece list \<Rightarrow> byte list set" where
  "lang [] = {[]}"
| "lang (One a # ps) = {x # w | x w. accepts a x \<and> w \<in> lang ps}"
| "lang (Many a # ps) = {u @ w | u w. list_all (accepts a) u \<and> w \<in> lang ps}"

definition heads :: "piece list \<times> bool \<Rightarrow> byte list \<Rightarrow> bool" where
  "heads p text' = (\<exists>w post. text' = w @ post \<and> w \<in> lang (fst p) \<and> (snd p \<longrightarrow> post = []))"

lemma accepts_atom_of: "accepts (atom_of c) x \<longleftrightarrow> c = 46 \<or> c = x"
  by (simp add: atom_of_def)

lemma heads_Nil [simp]: "heads ([], False) text'" "heads ([], True) text' \<longleftrightarrow> text' = []"
  by (auto simp: heads_def)

lemma headsI: "w \<in> lang (fst p) \<Longrightarrow> snd p \<longrightarrow> post = [] \<Longrightarrow> heads p (w @ post)"
  by (auto simp: heads_def)

lemma headsE:
  assumes "heads p text'"
  obtains w post where "text' = w @ post" "w \<in> lang (fst p)" "snd p \<longrightarrow> post = []"
  using assms unfolding heads_def by blast

lemma heads_One:
  "heads (apfst ((#) (One a)) p) text' \<longleftrightarrow> (case text' of [] \<Rightarrow> False | x # xs \<Rightarrow> accepts a x \<and> heads p xs)"
  (is "?l \<longleftrightarrow> ?r")
proof
  assume ?l
  then obtain v post where v: "text' = v @ post" "v \<in> lang (One a # fst p)" "snd p \<longrightarrow> post = []"
    by (rule headsE) simp
  then obtain x w where "v = x # w" "accepts a x" "w \<in> lang (fst p)" by auto
  then show ?r using v headsI [of w p post] by simp
next
  assume ?r
  then obtain x xs where x: "text' = x # xs" "accepts a x" "heads p xs" by (cases text') auto
  from x(3) obtain w post where "xs = w @ post" "w \<in> lang (fst p)" "snd p \<longrightarrow> post = []" by (rule headsE)
  then show ?l using headsI [of "x # w" "apfst ((#) (One a)) p" post] x by simp
qed

lemma heads_Many:
  "heads (apfst ((#) (Many a)) p) text' \<longleftrightarrow> (\<exists>u rest. text' = u @ rest \<and> list_all (accepts a) u \<and> heads p rest)"
  (is "?l \<longleftrightarrow> ?r")
proof
  assume ?l
  then obtain v post where v: "text' = v @ post" "v \<in> lang (Many a # fst p)" "snd p \<longrightarrow> post = []"
    by (rule headsE) simp
  then obtain u w where "v = u @ w" "list_all (accepts a) u" "w \<in> lang (fst p)" by auto
  then show ?r using v headsI [of w p post] by (intro exI [of _ u] exI [of _ "w @ post"]) simp
next
  assume ?r
  then obtain u rest where u: "text' = u @ rest" "list_all (accepts a) u" "heads p rest" by blast
  from u(3) obtain w post where "rest = w @ post" "w \<in> lang (fst p)" "snd p \<longrightarrow> post = []" by (rule headsE)
  then show ?l using headsI [of "u @ w" "apfst ((#) (Many a)) p" post] u by auto
qed

text \<open>A star is either skipped or takes one more character.\<close>

lemma heads_Many_step:
  "heads (apfst ((#) (Many a)) p) text' \<longleftrightarrow>
     heads p text' \<or> (case text' of [] \<Rightarrow> False | x # xs \<Rightarrow> accepts a x \<and> heads (apfst ((#) (Many a)) p) xs)"
proof (cases text')
  case Nil
  then show ?thesis by (simp add: heads_Many)
next
  case (Cons x xs)
  have "(\<exists>u rest. x # xs = u @ rest \<and> list_all (accepts a) u \<and> heads p rest) \<longleftrightarrow>
     heads p (x # xs) \<or> accepts a x \<and> (\<exists>u rest. xs = u @ rest \<and> list_all (accepts a) u \<and> heads p rest)" (is "?l \<longleftrightarrow> ?r")
  proof
    assume ?l
    then obtain u rest where u: "x # xs = u @ rest" "list_all (accepts a) u" "heads p rest" by blast
    then show ?r by (cases u) auto
  next
    assume ?r
    then show ?l
    proof
      assume "heads p (x # xs)"
      then show ?l by (intro exI [of _ "[]"] exI [of _ "x # xs"]) simp
    next
      assume "accepts a x \<and> (\<exists>u rest. xs = u @ rest \<and> list_all (accepts a) u \<and> heads p rest)"
      then obtain u rest where "accepts a x" "xs = u @ rest" "list_all (accepts a) u" "heads p rest" by blast
      then show ?l by (intro exI [of _ "x # u"] exI [of _ rest]) simp
    qed
  qed
  then show ?thesis unfolding heads_Many Cons by simp
qed

lemma match_heads:
  "matchhere re text' = heads (parse_re re) text'"
  "matchstar c re text' = heads (apfst ((#) (Many (atom_of c))) (parse_re re)) text'"
proof (induction re text' and c re text' rule: matchhere_matchstar.induct)
  case (2 c re text')
  then show ?case by (auto simp: heads_One accepts_atom_of split: list.splits)
next
  case (3 c re text')
  then show ?case
    unfolding matchstar.simps [of c re text'] by (subst heads_Many_step) (auto simp: accepts_atom_of split: list.splits)
qed simp

lemma match_from_heads: "match_from re text' \<longleftrightarrow> (\<exists>pre rest. text' = pre @ rest \<and> heads (parse_re re) rest)"
proof (induction text')
  case (Cons x xs)
  then show ?case by (auto simp: match_heads Cons_eq_append_conv)
qed (simp add: match_heads)

text \<open>
  C26. \<open>grep\<close>'s matcher decides the language of the pattern: \<open>match\<close> answers true exactly when some part of the text is a word of the
  pattern, at the start of the text if the pattern begins with \<open>^\<close>, at its end if the pattern ends with \<open>$\<close>. A word of a
  pattern is one character for each character of the pattern, any for \<open>.\<close>, and any number of them where a \<open>*\<close> follows.
\<close>
theorem match_language:
  "match re text' \<longleftrightarrow>
     (let anchored = (first re = 94); (ps, to_end) = parse_re (if anchored then tl re else re) in
      \<exists>pre w post. text' = pre @ w @ post \<and> w \<in> lang ps \<and> (anchored \<longrightarrow> pre = []) \<and> (to_end \<longrightarrow> post = []))"
  unfolding match_def Let_def match_heads match_from_heads heads_def case_prod_unfold by auto

theorem match_language_witness:
  "match (str ''^a.*b$'') (str ''axxb'') \<and> \<not> match (str ''^b'') (str ''ab'')"
proof
  have "parse_re (tl (str ''^a.*b$'')) = ([One (Lit 97), Many Any, One (Lit 98)], True)" "first (str ''^a.*b$'') = 94"
    by (simp_all add: str_def first_def atom_of_def)
  moreover have "str ''axxb'' \<in> lang [One (Lit 97), Many Any, One (Lit 98)]"
    by (auto simp: str_def intro!: exI [of _ "[120, 120]"])
  ultimately show "match (str ''^a.*b$'') (str ''axxb'')"
    unfolding match_language by (auto intro!: exI [of _ "[]"])
  show "\<not> match (str ''^b'') (str ''ab'')"
    unfolding match_language by (auto simp: str_def first_def atom_of_def Cons_eq_append_conv)
qed

section \<open>The lines\<close>

text \<open>The complete lines of a text, and what follows the last newline.\<close>

primrec split_lines :: "byte list \<Rightarrow> byte list list \<times> byte list" where
  "split_lines [] = ([], [])"
| "split_lines (c # cs) = (case split_lines cs of (ls, u) \<Rightarrow>
     if c = 10 then ([] # ls, u) else case ls of [] \<Rightarrow> ([], c # u) | l # ls \<Rightarrow> ((c # l) # ls, u))"

abbreviation lines :: "byte list \<Rightarrow> byte list list" where "lines t \<equiv> fst (split_lines t)"
abbreviation unfinished :: "byte list \<Rightarrow> byte list" where "unfinished t \<equiv> snd (split_lines t)"

lemma split_none: "10 \<notin> set t \<Longrightarrow> split_lines t = ([], t)"
  by (induction t) auto

lemma split_first: "10 \<notin> set l \<Longrightarrow> split_lines (l @ 10 # t) = (l # lines t, unfinished t)"
  by (induction l) (auto simp: case_prod_unfold)

lemma unfinished_no_newline: "10 \<notin> set (unfinished t)"
  by (induction t) (auto simp: case_prod_unfold split: list.splits)

lemma set_unfinished: "set (unfinished t) \<subseteq> set t"
  by (induction t) (auto simp: case_prod_unfold split: list.splits)

lemma lines_append: "lines (s @ t) = lines s @ lines (unfinished s @ t)"
  by (induction s) (auto simp: case_prod_unfold split: list.splits)

lemma lines_Nil_iff: "lines t = [] \<longleftrightarrow> 10 \<notin> set t"
  by (induction t) (auto simp: case_prod_unfold split: list.splits)

lemma first_line_long: "10 \<notin> set h \<Longrightarrow> l \<in> set (take 1 (lines (h @ t))) \<Longrightarrow> length h \<le> length l"
  by (induction h arbitrary: l) (auto simp: case_prod_unfold split: list.splits)

lemma u_strchr_None: "0 \<notin> set p \<Longrightarrow> u_strchr p c = None \<longleftrightarrow> c \<notin> set p"
  by (induction p) auto

lemma u_strchr_Some:
  "u_strchr p c = Some k \<Longrightarrow> p = take k p @ c # drop (Suc k) p \<and> c \<notin> set (take k p)"
  by (induction p arbitrary: k) (auto split: if_splits)

definition matching :: "byte list \<Rightarrow> byte list list \<Rightarrow> byte list" where
  "matching pattern ls = concat (map (\<lambda>l. l @ [10]) (filter (match pattern) ls))"

lemma grep_lines_run:
  fixes s :: "'z uworld_scheme"
  assumes "answered s" "0 \<notin> set p"
  shows "\<exists>t. grep_lines pattern p s = Ret (unfinished p) t \<and> arriving t = arriving s \<and> reply t = reply s \<and>
    written 1 (calls t) = written 1 (calls s) @ matching pattern (lines p)"
  using assms
proof (induction pattern p arbitrary: s rule: grep_lines.induct)
  case (1 pattern p)
  show ?case
  proof (cases "u_strchr p 10")
    case None
    then have "10 \<notin> set p" using 1(3) by (simp add: u_strchr_None)
    then show ?thesis by (simp add: grep_lines.simps [of pattern p] None split_none kret_def matching_def)
  next
    case (Some k)
    let ?l = "take k p" and ?r = "drop (Suc k) p"
    have p: "p = ?l @ 10 # ?r" "10 \<notin> set ?l" using u_strchr_Some [OF Some] by auto
    have sp: "split_lines p = (?l # lines ?r, unfinished ?r)" using split_first [OF p(2), of ?r] p(1) by simp
    have r: "0 \<notin> set ?r" using 1(3) by (meson in_set_dropD)
    have l: "take (Suc k) p = ?l @ [10]"
      using u_strchr_less [OF Some] p(1) by (metis nth_append_length take_Suc_conv_app_nth length_take min.absorb2 less_imp_le)
    define out :: "('z, unit) U" where "out = (if match pattern ?l then kbind (u_write 1 (take (Suc k) p)) (\<lambda>_. kret ()) else kret ())"
    obtain t where t: "out s = Ret () t" "arriving t = arriving s" "reply t = reply s"
      "written 1 (calls t) = written 1 (calls s) @ matching pattern [?l]"
    proof -
      obtain i where i: "u_write 1 (take (Suc k) p) s = Ret i (s\<lparr>calls := calls s @ [ScWrite 1 (take (Suc k) p)]\<rparr>)"
        unfolding u_write_def by (rule ucall_exec [OF 1(2)])
      show ?thesis
      proof (cases "match pattern ?l")
        case True
        then show ?thesis
          by (intro that [of "s\<lparr>calls := calls s @ [ScWrite 1 (take (Suc k) p)]\<rparr>"])
            (simp_all add: out_def kbind_def i [unfolded l] kret_def matching_def l)
      next
        case False
        then show ?thesis by (intro that [of s]) (simp_all add: out_def kret_def matching_def)
      qed
    qed
    have "answered t" using 1(2) t by (simp add: answered_def)
    from 1(1) [OF Some this r] t show ?thesis
      unfolding grep_lines.simps [of pattern p] sp Some by (auto simp: out_def [symmetric] kbind_def matching_def)
  qed
qed

text \<open>One round of the loop on a buffer with room.\<close>

definition grep_round :: "byte list \<Rightarrow> int \<Rightarrow> byte list \<Rightarrow> ('z, byte list + unit) U" where
  "grep_round pattern fd got =
     kbind (u_read fd (1024 - length got - 1)) (\<lambda>(n, bs).
     if \<not> n > 0 then kret (Inr ())
     else kbind (grep_lines pattern (got @ bs)) (\<lambda>rest. kret (Inl rest)))"

lemma grep_unfold: "grep pattern fd = kloop (grep_round pattern fd) []"
  by (simp add: grep_def grep_round_def [abs_def])

lemma grep_round_end:
  assumes "answered s" "arriving s fd = [] \<or> 1023 \<le> length got \<and> (\<exists>bs r. arriving s fd = Some bs # r)"
  shows "\<exists>t. grep_round pattern fd got s = Ret (Inr ()) t \<and> written 1 (calls t) = written 1 (calls s)"
  using assms(2) by (auto simp: grep_round_def kbind_def kret_def u_read_exec [OF assms(1)] Let_def)

lemma grep_round_more:
  assumes "answered s" "arriving s fd = Some c # q" "c \<noteq> []" "length got < 1023" "0 \<notin> set (got @ c)"
  defines "n \<equiv> 1023 - length got"
  shows "\<exists>t. grep_round pattern fd got s = Ret (Inl (unfinished (got @ take n c))) t \<and> answered t \<and>
    arriving t fd = (if length c \<le> n then q else Some (drop n c) # q) \<and>
    written 1 (calls t) = written 1 (calls s) @ matching pattern (lines (got @ take n c))"
proof -
  let ?u = "s\<lparr>calls := calls s @ [ScRead fd n], arriving := (arriving s)(fd := (if length c \<le> n then q else Some (drop n c) # q))\<rparr>"
  have n: "1024 - length got - 1 = n" "0 < n" using assms(4) by (simp_all add: n_def)
  have rd: "u_read fd n s = Ret (int (min n (length c)), take n c) ?u"
    by (simp add: u_read_exec [OF assms(1)] assms(2))
  have pos: "0 < int (min n (length c))" using n assms(3) by simp
  have "answered ?u" "0 \<notin> set (got @ take n c)" using assms(1,5) by (auto dest: in_set_takeD)
  from grep_lines_run [OF this, of pattern] obtain t where t: "grep_lines pattern (got @ take n c) ?u = Ret (unfinished (got @ take n c)) t"
    "arriving t = arriving ?u" "reply t = reply ?u" "written 1 (calls t) = written 1 (calls ?u) @ matching pattern (lines (got @ take n c))"
    by blast
  have "grep_round pattern fd got s = Ret (Inl (unfinished (got @ take n c))) t"
    unfolding grep_round_def n(1) kbind_def rd using pos t(1) by (simp add: kret_def)
  moreover have "answered t" using t(3) assms(1) by (simp add: answered_def)
  ultimately show ?thesis using t(2,4) by simp
qed

lemma matching_append: "matching pattern (xs @ ys) = matching pattern xs @ matching pattern ys"
  by (simp add: matching_def)

lemma grep_loop:
  assumes "answered s" "arriving s fd = map Some q" "[] \<notin> set q" "0 \<notin> set (got @ concat q)" "10 \<notin> set got"
    "\<forall>l\<in>set (lines (got @ concat q)). length l \<le> 1022"
  shows "\<exists>t. kloop (grep_round pattern fd) got s = Ret () t \<and>
    written 1 (calls t) = written 1 (calls s) @ matching pattern (lines (got @ concat q))"
  using assms
proof (induction "length (concat q)" arbitrary: q got s rule: less_induct)
  case less
  show ?case
  proof (cases "q = [] \<or> 1023 \<le> length got")
    case True
    then obtain t where t: "grep_round pattern fd got s = Ret (Inr ()) t" "written 1 (calls t) = written 1 (calls s)"
      using grep_round_end [OF less.prems(1)] less.prems(2) by (cases q) force+
    have "lines (got @ concat q) = []"
    proof (cases "lines (got @ concat q)")
      case (Cons l ls)
      then have "length got \<le> 1022" using first_line_long [OF less.prems(5), of l "concat q"] less.prems(6) by force
      then show ?thesis using True split_none [OF less.prems(5)] by auto
    qed simp
    then show ?thesis using t kloop_done [where body = "grep_round pattern fd", OF t(1)] by (simp add: matching_def)
  next
    case False
    then obtain c q' where q: "q = c # q'" by (cases q) auto
    let ?n = "1023 - length got" and ?r = "\<lambda>n. if length c \<le> n then q' else drop n c # q'"
    have c: "c \<noteq> []" "length got < 1023" "0 \<notin> set (got @ c)" using less.prems(3,4) q False by auto
    from grep_round_more [OF less.prems(1) _ c, of fd "map Some q'" pattern] less.prems(2) q
    obtain t where t: "grep_round pattern fd got s = Ret (Inl (unfinished (got @ take ?n c))) t" "answered t"
      "arriving t fd = map Some (?r ?n)" "written 1 (calls t) = written 1 (calls s) @ matching pattern (lines (got @ take ?n c))"
      by (auto split: if_splits)
    have all: "take ?n c @ concat (?r ?n) = concat q" using q by simp
    have sp: "lines (got @ concat q) = lines (got @ take ?n c) @ lines (unfinished (got @ take ?n c) @ concat (?r ?n))"
      using lines_append [of "got @ take ?n c" "concat (?r ?n)"] all by simp
    have shorter: "length (concat (?r ?n)) < length (concat q)" using q c by auto
    have "[] \<notin> set (?r ?n)" "0 \<notin> set (unfinished (got @ take ?n c) @ concat (?r ?n))"
      "\<forall>l\<in>set (lines (unfinished (got @ take ?n c) @ concat (?r ?n))). length l \<le> 1022"
      using less.prems(3,4,6) q sp set_unfinished [of "got @ take ?n c"] by (auto dest: in_set_takeD in_set_dropD split: if_splits)
    from less.hyps [OF shorter t(2,3) this(1,2) unfinished_no_newline this(3)] obtain u where
      u: "kloop (grep_round pattern fd) (unfinished (got @ take ?n c)) t = Ret () u"
      "written 1 (calls u) = written 1 (calls t) @ matching pattern (lines (unfinished (got @ take ?n c) @ concat (?r ?n)))"
      by blast
    then show ?thesis
      using kloop_round [where body = "grep_round pattern fd", OF t(1)] t(4) sp by (auto simp: matching_append)
  qed
qed

text \<open>
  C27. \<open>grep\<close> prints the matching lines, however the input is delivered. Let the reads find the text in pieces of any sizes (more than
  fits into the buffer stays for the next read), let the text have no NUL and no complete line of more than 1022 characters, and let every
  call return. Then \<open>grep\<close> returns, and what it has written to the standard output is the complete lines of the text that match the
  pattern, in order, each with its newline.
\<close>
theorem grep_prints:
  assumes "\<forall>n. reply s n \<noteq> None" "arriving s fd = map Some pieces" "[] \<notin> set pieces" "0 \<notin> set (concat pieces)"
    "\<forall>l\<in>set (lines (concat pieces)). length l \<le> 1022"
  shows "\<exists>t. grep pattern fd s = Ret () t \<and>
    written 1 (calls t) = written 1 (calls s) @ concat (map (\<lambda>l. l @ [10]) (filter (match pattern) (lines (concat pieces))))"
  using grep_loop [of s fd pieces "[]" pattern] assms by (simp add: grep_unfold answered_def matching_def)

definition grep_example :: uworld where
  "grep_example = \<lparr>arriving = (\<lambda>fd. map Some [str ''ab'', str ''c'' @ [10] @ str ''x'', [10] @ str ''bc'' @ [10]]), reply = (\<lambda>n. Some (Ans 1)), calls = []\<rparr>"

theorem grep_prints_witness:
  "\<exists>t. grep (str ''bc$'') 0 grep_example = Ret () t \<and> written 1 (calls t) = str ''abc'' @ [10] @ str ''bc'' @ [10]"
  using grep_prints [of grep_example 0 "[str ''ab'', str ''c'' @ [10] @ str ''x'', [10] @ str ''bc'' @ [10]]" "str ''bc$''"]
  by (simp add: grep_example_def str_def match_def first_def)

end
