(* ===== verification/Programs.thy ===== *)
theory Programs
  imports Usys
begin

text \<open>
  Small user programs (\<open>cat\<close>, \<open>wc\<close>, \<open>echo\<close>, \<open>ls\<close>, \<open>kill\<close>, \<open>ln\<close>, \<open>mkdir\<close>, \<open>rm\<close>, \<open>zombie\<close> and \<open>init\<close> of \<open>user/\<close>). A \<open>main\<close> gets
  the strings of \<open>argv\<close>; it ends in \<open>exit\<close>. It is proved that \<open>wc\<close> counts what it should however the input is delivered.
\<close>

section \<open>cat\<close>

definition cat :: "int \<Rightarrow> ('z, unit) U" where
  "cat fd =
     kbind (kloop (\<lambda>_.
       kbind (u_read fd 512) (\<lambda>(n, bs).
       if \<not> n > 0 then kret (Inr n)
       else kbind (u_write 1 bs) (\<lambda>w.
         if w \<noteq> n then kbind (u_fprintf 2 (''cat: write error'' @ newline) []) (\<lambda>_. u_exit 1)
         else kret (Inl ())))) ()) (\<lambda>n.
     if n < 0 then kbind (u_fprintf 2 (''cat: read error'' @ newline) []) (\<lambda>_. u_exit 1) else kret ())"

definition cat_main :: "byte list list \<Rightarrow> ('z, 'a) U" where
  "cat_main argv =
     (if length argv \<le> 1 then kbind (cat 0) (\<lambda>_. u_exit 0)
      else kbind (kfor (drop 1 argv) (\<lambda>a.
        kbind (ucall (ScOpen a 0)) (\<lambda>fd.
        if fd < 0
        then kbind (u_fprintf 2 (''cat: cannot open %s'' @ newline) [VStr (Some a)]) (\<lambda>_. u_exit 1)
        else kseq [cat fd, kbind (ucall (ScClose fd)) (\<lambda>_. kret ())]))) (\<lambda>_. u_exit 0))"

section \<open>wc\<close>

text \<open>The counters \<open>l\<close>, \<open>w\<close>, \<open>c\<close> and \<open>inword\<close>.\<close>

definition wc_char :: "byte \<Rightarrow> nat \<times> nat \<times> nat \<times> bool \<Rightarrow> nat \<times> nat \<times> nat \<times> bool" where
  "wc_char b = (\<lambda>(l, w, c, inword).
     let c = c + 1; l = (if b = 10 then l + 1 else l) in
     if u_strchr (str '' '' @ [13, 9, 10, 11]) b \<noteq> None then (l, w, c, False)
     else if \<not> inword then (l, w + 1, c, True)
     else (l, w, c, inword))"

definition wc_count :: "int \<Rightarrow> ('z, (nat \<times> nat \<times> nat \<times> bool) \<times> int) U" where
  "wc_count fd = kloop (\<lambda>k.
     kbind (u_read fd 512) (\<lambda>(n, bs).
     kret (if n > 0 then Inl (fold wc_char bs k) else Inr (k, n)))) (0, 0, 0, False)"

definition wc :: "int \<Rightarrow> byte list \<Rightarrow> ('z, unit) U" where
  "wc fd name =
     kbind (wc_count fd) (\<lambda>((l, w, c, _), n).
     if n < 0 then kbind (u_printf (''wc: read error'' @ newline) []) (\<lambda>_. u_exit 1)
     else u_printf (''%d %d %d %s'' @ newline) [VInt (int l), VInt (int w), VInt (int c), VStr (Some name)])"

definition wc_main :: "byte list list \<Rightarrow> ('z, 'a) U" where
  "wc_main argv =
     (if length argv \<le> 1 then kbind (wc 0 []) (\<lambda>_. u_exit 0)
      else kbind (kfor (drop 1 argv) (\<lambda>a.
        kbind (ucall (ScOpen a 0)) (\<lambda>fd.
        if fd < 0
        then kbind (u_printf (''wc: cannot open %s'' @ newline) [VStr (Some a)]) (\<lambda>_. u_exit 1)
        else kseq [wc fd a, kbind (ucall (ScClose fd)) (\<lambda>_. kret ())]))) (\<lambda>_. u_exit 0))"

section \<open>echo\<close>

fun echo_args :: "byte list list \<Rightarrow> ('z, unit) U" where
  "echo_args [] = kret ()"
| "echo_args (a # as) =
     kbind (u_write 1 (take (u_strlen a) a)) (\<lambda>_.
     kbind (u_write 1 (if as \<noteq> [] then str '' '' else [10])) (\<lambda>_. echo_args as))"

definition echo_main :: "byte list list \<Rightarrow> ('z, 'a) U" where
  "echo_main argv = kbind (echo_args (drop 1 argv)) (\<lambda>_. u_exit 0)"

section \<open>ls\<close>

definition fmtname :: "byte list \<Rightarrow> byte list" where
  "fmtname path =
     (let p = last_elem path in if length p \<ge> DIRSIZ then p else p @ replicate (DIRSIZ - length p) 32)"

text \<open>
  One entry of a directory: \<open>Some\<close> leaves the loop. The \<open>int\<close> that \<open>%d\<close> takes is the low half of the 64-bit size.
\<close>

definition ls_entry :: "int \<Rightarrow> byte list \<Rightarrow> ('z, unit + unit) U" where
  "ls_entry fd path =
     kbind (u_read fd 16) (\<lambda>(n, de).
     if n \<noteq> 16 then kret (Inr ())
     else if get16 de 0 = 0 then kret (Inl ())
     else let buf = path @ [SLASH] @ takeWhile (\<lambda>c. c \<noteq> 0) (take DIRSIZ (drop 2 de)) in
       kbind (u_stat buf) (\<lambda>r.
       case r of
         None \<Rightarrow> kbind (u_printf (''ls: cannot stat %s'' @ newline) [VStr (Some buf)]) (\<lambda>_. kret (Inl ()))
       | Some st \<Rightarrow> kbind (u_printf (''%s %d %d %d'' @ newline)
             [VStr (Some (fmtname buf)), VInt (sint (st_type st)), VInt (sint (st_ino st)), VInt (sint (ucast (st_size st) :: u32))])
           (\<lambda>_. kret (Inl ()))))"

definition ls :: "byte list \<Rightarrow> ('z, unit) U" where
  "ls path =
     kbind (ucall (ScOpen path 0)) (\<lambda>fd.
     if fd < 0 then u_fprintf 2 (''ls: cannot open %s'' @ newline) [VStr (Some path)]
     else kbind (u_fstat fd) (\<lambda>r.
       case r of
         None \<Rightarrow> kseq [u_fprintf 2 (''ls: cannot stat %s'' @ newline) [VStr (Some path)], kbind (ucall (ScClose fd)) (\<lambda>_. kret ())]
       | Some st \<Rightarrow> kseq [
           (if st_type st = T_DEVICE \<or> st_type st = T_FILE
            then u_printf (''%s %d %d %l'' @ newline)
              [VStr (Some (fmtname path)), VInt (sint (st_type st)), VInt (sint (st_ino st)), VPtr (st_size st)]
            else if st_type st = T_DIR
            then if length path + 1 + DIRSIZ + 1 > 512 then u_printf (''ls: path too long'' @ newline) []
              else kloop (\<lambda>_. ls_entry fd path) ()
            else kret ()),
           kbind (ucall (ScClose fd)) (\<lambda>_. kret ())]))"

definition ls_main :: "byte list list \<Rightarrow> ('z, 'a) U" where
  "ls_main argv = kbind (if length argv < 2 then ls (str ''.'') else kfor (drop 1 argv) ls) (\<lambda>_. u_exit 0)"

section \<open>kill, ln, mkdir, rm, zombie\<close>

definition kill_main :: "byte list list \<Rightarrow> ('z, 'a) U" where
  "kill_main argv =
     (if length argv < 2 then kbind (u_fprintf 2 (''usage: kill pid...'' @ newline) []) (\<lambda>_. u_exit 1)
      else kbind (kfor (drop 1 argv) (\<lambda>a. kbind (ucall (ScKill (u_atoi a))) (\<lambda>_. kret ()))) (\<lambda>_. u_exit 0))"

definition ln_main :: "byte list list \<Rightarrow> ('z, 'a) U" where
  "ln_main argv =
     (if length argv \<noteq> 3 then kbind (u_fprintf 2 (''Usage: ln old new'' @ newline) []) (\<lambda>_. u_exit 1)
      else kbind (ucall (ScLink (argv ! 1) (argv ! 2))) (\<lambda>r.
        kbind (kwhen (r < 0) (u_fprintf 2 (''link %s %s: failed'' @ newline) [VStr (Some (argv ! 1)), VStr (Some (argv ! 2))])) (\<lambda>_.
        u_exit 0)))"

definition mkdir_main :: "byte list list \<Rightarrow> ('z, 'a) U" where
  "mkdir_main argv =
     (if length argv < 2 then kbind (u_fprintf 2 (''Usage: mkdir files...'' @ newline) []) (\<lambda>_. u_exit 1)
      else kbind (kscan (drop 1 argv) (\<lambda>a.
        kbind (ucall (ScMkdir a)) (\<lambda>r.
        if r < 0 then kbind (u_fprintf 2 (''mkdir: %s failed to create'' @ newline) [VStr (Some a)]) (\<lambda>_. kret (Some ()))
        else kret None))) (\<lambda>_. u_exit 0))"

definition rm_main :: "byte list list \<Rightarrow> ('z, 'a) U" where
  "rm_main argv =
     (if length argv < 2 then kbind (u_fprintf 2 (''Usage: rm files...'' @ newline) []) (\<lambda>_. u_exit 1)
      else kbind (kscan (drop 1 argv) (\<lambda>a.
        kbind (ucall (ScUnlink a)) (\<lambda>r.
        if r < 0 then kbind (u_fprintf 2 (''rm: %s failed to delete'' @ newline) [VStr (Some a)]) (\<lambda>_. kret (Some ()))
        else kret None))) (\<lambda>_. u_exit 0))"

definition zombie_main :: "('z, 'a) U" where
  "zombie_main =
     kbind (ucall ScFork) (\<lambda>pid.
     kbind (if pid > 0 then ucall (ScSleep 5) else kret 0) (\<lambda>_. u_exit 0))"

section \<open>init\<close>

text \<open>Waiting for the shell, and one life of the shell.\<close>

definition init_wait :: "int \<Rightarrow> ('z, unit) U" where
  "init_wait pid = kloop (\<lambda>_.
     kbind (ucall ScWait) (\<lambda>wpid.
     if wpid = pid then kret (Inr ())
     else if wpid < 0 then kbind (u_printf (''init: wait returned an error'' @ newline) []) (\<lambda>_. u_exit 1)
     else kret (Inl ()))) ()"

definition init_round :: "('z, unit) U" where
  "init_round =
     kbind (u_printf (''init: starting sh'' @ newline) []) (\<lambda>_.
     kbind (ucall ScFork) (\<lambda>pid.
     if pid < 0 then kbind (u_printf (''init: fork failed'' @ newline) []) (\<lambda>_. u_exit 1)
     else if pid = 0
     then kbind (ucall (ScExec (str ''sh'') [str ''sh''])) (\<lambda>_.
       kbind (u_printf (''init: exec sh failed'' @ newline) []) (\<lambda>_. u_exit 1))
     else init_wait pid))"

definition init_main :: "('z, 'a) U" where
  "init_main =
     kbind (ucall (ScOpen (str ''console'') O_RDWR)) (\<lambda>fd.
     kbind (if fd < 0
       then kbind (ucall (ScMknod (str ''console'') (int CONSOLE) 0)) (\<lambda>_. ucall (ScOpen (str ''console'') O_RDWR))
       else kret 0) (\<lambda>_.
     kbind (ucall (ScDup 0)) (\<lambda>_.
     kbind (ucall (ScDup 0)) (\<lambda>_.
     kloop (\<lambda>_. kbind init_round (\<lambda>_. kret (Inl ()))) ()))))"

section \<open>What \<open>wc\<close> counts\<close>

definition blank :: "byte \<Rightarrow> bool" where
  "blank b \<longleftrightarrow> b \<in> {32, 13, 9, 10, 11}"

text \<open>Where a word starts: at a character that is not blank, at the beginning or behind a blank.\<close>

definition word_starts :: "byte list \<Rightarrow> nat set" where
  "word_starts t = {i. i < length t \<and> \<not> blank (t ! i) \<and> (i = 0 \<or> blank (t ! (i - 1)))}"

definition in_word :: "byte list \<Rightarrow> bool" where
  "in_word t \<longleftrightarrow> t \<noteq> [] \<and> \<not> blank (List.last t)"

lemma blank_strchr: "u_strchr (str '' '' @ [13, 9, 10, 11]) b \<noteq> None \<longleftrightarrow> blank b"
  by (auto simp: blank_def str_def)

lemma word_starts_snoc:
  "word_starts (t @ [b]) = word_starts t \<union> (if \<not> blank b \<and> \<not> in_word t then {length t} else {})"
proof (cases "t = []")
  case False
  then have "List.last t = t ! (length t - Suc 0)" "length t - Suc 0 < length t" by (simp_all add: last_conv_nth)
  then show ?thesis using False
    unfolding word_starts_def in_word_def by (auto simp: nth_append less_Suc_eq split: if_splits)
qed (auto simp: word_starts_def in_word_def)

lemma finite_word_starts [simp]: "finite (word_starts t)" "length t \<notin> word_starts t"
  by (auto simp: word_starts_def)

lemma wc_char_eq:
  "wc_char b (l, w, c, i) = (l + of_bool (b = 10), w + of_bool (\<not> blank b \<and> \<not> i), Suc c, \<not> blank b)"
  unfolding wc_char_def blank_strchr by (simp add: Let_def)

lemma wc_fold:
  "fold wc_char t (0, 0, 0, False) = (count_list t 10, card (word_starts t), length t, in_word t)"
proof (induction t rule: rev_induct)
  case Nil
  then show ?case by (simp add: word_starts_def in_word_def)
next
  case (snoc b t)
  then show ?case by (simp add: wc_char_eq word_starts_snoc in_word_def [of "t @ [b]"])
qed

definition wc_round :: "int \<Rightarrow> nat \<times> nat \<times> nat \<times> bool \<Rightarrow> ('z, (nat \<times> nat \<times> nat \<times> bool) + (nat \<times> nat \<times> nat \<times> bool) \<times> int) U" where
  "wc_round fd k = kbind (u_read fd 512) (\<lambda>(n, bs). kret (if n > 0 then Inl (fold wc_char bs k) else Inr (k, n)))"

lemma wc_loop:
  assumes "answered s" "arriving s fd = map Some q" "[] \<notin> set q"
  shows "\<exists>t. kloop (wc_round fd) k s = Ret (fold wc_char (concat q) k, 0) t"
  using assms
proof (induction "length (concat q)" arbitrary: q k s rule: less_induct)
  case less
  show ?case
  proof (cases q)
    case Nil
    then have "wc_round fd k s = Ret (Inr (k, 0)) (s\<lparr>calls := calls s @ [ScRead fd 512]\<rparr>)"
      using less.prems by (simp add: wc_round_def kbind_def kret_def u_read_exec Let_def)
    from kloop_done [where body = "wc_round fd", OF this] Nil show ?thesis by simp
  next
    case (Cons c q')
    let ?r = "if length c \<le> 512 then q' else drop 512 c # q'"
    have c: "c \<noteq> []" using less.prems(3) Cons by auto
    define t where "t = s\<lparr>calls := calls s @ [ScRead fd 512], arriving := (arriving s)(fd := map Some ?r)\<rparr>"
    have st: "wc_round fd k s = Ret (Inl (fold wc_char (take 512 c) k)) t"
      using less.prems(1,2) Cons c by (simp add: wc_round_def kbind_def kret_def u_read_exec Let_def t_def)
    have all: "concat q = take 512 c @ concat ?r" using Cons by simp
    have "length (concat ?r) < length (concat q)" "answered t" "arriving t fd = map Some ?r" "[] \<notin> set ?r"
      using less.prems Cons c by (auto simp: t_def)
    from less.hyps [OF this, of "fold wc_char (take 512 c) k"] show ?thesis
      unfolding all kloop_round [where body = "wc_round fd", OF st] by simp
  qed
qed

text \<open>
  \<open>wc\<close> counts newlines, words and characters, however the input is delivered: with every call returning and the reads finding the
  text in pieces of any sizes, the counters at the end are the number of newlines of the text, the number of positions at which a word
  starts, and its length.
\<close>
theorem wc_counts:
  assumes "\<forall>n. reply s n \<noteq> None" "arriving s fd = map Some pieces" "[] \<notin> set pieces"
  shows "\<exists>t inword. wc_count fd s =
    Ret ((count_list (concat pieces) 10, card (word_starts (concat pieces)), length (concat pieces), inword), 0) t"
  using wc_loop [of s fd pieces "(0, 0, 0, False)"] assms
  unfolding wc_count_def wc_round_def [abs_def] answered_def wc_fold by blast

theorem wc_counts_witness:
  "\<exists>t inword. wc_count 0 \<lparr>arriving = (\<lambda>_. [Some (str ''a b''), Some (str ''c'' @ [10])]), reply = (\<lambda>_. Some (Ans 0)), calls = []\<rparr> =
     Ret ((1, 2, 5, inword), 0) t"
proof -
  have "word_starts [97, 32, 98, 99, 10] = {0, 2}" by (auto simp: word_starts_def blank_def less_Suc_eq)
  then have "card (word_starts [97, 32, 98, 99, 10]) = 2" by simp
  moreover have "count_list [97, 32, 98, 99, 10 :: byte] 10 = 1" "length [97, 32, 98, 99, 10 :: byte] = 5" by simp_all
  ultimately show ?thesis
    using wc_counts [of "\<lparr>arriving = (\<lambda>_. [Some (str ''a b''), Some (str ''c'' @ [10])]), reply = (\<lambda>_. Some (Ans 0)), calls = []\<rparr>"
        0 "[str ''a b'', str ''c'' @ [10]]"] by (simp add: str_def del: count_list.simps list.size)
qed

end
