(* ===== verification/Umalloc.thy ===== *)
theory Umalloc
  imports Usys
begin

text \<open>
  The allocator of user space (\<open>user/umalloc.c\<close>), after Kernighan and Ritchie. Free memory is a ring of blocks, each with a header in front,
  in the order of their addresses; the static \<open>base\<close> is a block of no size. The world of the process gets the headers in memory, by
  address, the variable \<open>freep\<close> (0 for null), the address of \<open>base\<close>, and the end of the memory of the process. User addresses lie below
  \<open>MAXVA\<close>, so that pointer arithmetic does not wrap: pointers are natural numbers, a \<open>Header\<close> has 16 bytes, sizes are 32-bit words. \<open>sbrk\<close> either
  fails or moves the end of the memory and answers with the old one, as \<open>sys_sbrk\<close> does.
\<close>

record header =
  h_ptr :: nat
  h_size :: u32

record heapworld = uworld +
  hdrs :: "nat \<Rightarrow> header"
  freep :: nat
  base_at :: nat
  brk :: nat

type_synonym 'a H = "(heapworld, 'a) prog"

definition hp :: "nat \<Rightarrow> u32 \<Rightarrow> nat" where
  "hp p k = p + 16 * unat k"

definition set_ptr :: "nat \<Rightarrow> nat \<Rightarrow> unit H" where
  "set_ptr p q = kmod (\<lambda>s. s\<lparr>hdrs := (hdrs s)(p := (hdrs s p)\<lparr>h_ptr := q\<rparr>)\<rparr>)"

definition set_size :: "nat \<Rightarrow> u32 \<Rightarrow> unit H" where
  "set_size p k = kmod (\<lambda>s. s\<lparr>hdrs := (hdrs s)(p := (hdrs s p)\<lparr>h_size := k\<rparr>)\<rparr>)"

definition u_sbrk :: "int \<Rightarrow> nat option H" where
  "u_sbrk n =
     kbind (ucall (ScSbrk n)) (\<lambda>r.
     if r = - 1 then kret None
     else kbind (kget brk) (\<lambda>p. kbind (kmod (\<lambda>s. s\<lparr>brk := nat (int (brk s) + n)\<rparr>)) (\<lambda>_. kret (Some p))))"

section \<open>free\<close>

definition free_find :: "nat \<Rightarrow> nat \<Rightarrow> (nat + nat) H" where
  "free_find bp p = kbind (kget (\<lambda>s. h_ptr (hdrs s p))) (\<lambda>q.
     kret (if bp > p \<and> bp < q then Inr p
           else if p \<ge> q \<and> (bp > p \<or> bp < q) then Inr p
           else Inl q))"

definition free_up :: "nat \<Rightarrow> nat \<Rightarrow> unit H" where
  "free_up bp p =
     kbind (kget hdrs) (\<lambda>h. let q = h_ptr (h p) in
     if hp bp (h_size (h bp)) = q
     then kseq [set_size bp (h_size (h bp) + h_size (h q)), set_ptr bp (h_ptr (h q))]
     else set_ptr bp q)"

definition free_down :: "nat \<Rightarrow> nat \<Rightarrow> unit H" where
  "free_down bp p =
     kbind (kget hdrs) (\<lambda>h.
     if hp p (h_size (h p)) = bp
     then kseq [set_size p (h_size (h p) + h_size (h bp)), set_ptr p (h_ptr (h bp))]
     else set_ptr p bp)"

definition free :: "nat \<Rightarrow> unit H" where
  "free ap =
     (let bp = ap - 16 in
      kbind (kget freep) (\<lambda>f.
      kbind (kloop (free_find bp) f) (\<lambda>p.
      kseq [free_up bp p, free_down bp p, kmod (\<lambda>s. s\<lparr>freep := p\<rparr>)])))"

section \<open>malloc\<close>

text \<open>The argument of \<open>sbrk\<close> is an \<open>int\<close>: it gets the low 32 bits of the number of bytes.\<close>

definition morecore :: "u32 \<Rightarrow> nat H" where
  "morecore nu =
     (let nu = (if nu < 4096 then 4096 else nu) in
      kbind (u_sbrk (sint (of_nat (unat nu * 16) :: u32))) (\<lambda>r.
      case r of
        None \<Rightarrow> kret 0
      | Some p \<Rightarrow> kbind (kseq [set_size p nu, free (p + 16)]) (\<lambda>_. kget freep)))"

definition malloc_take :: "u32 \<Rightarrow> nat \<Rightarrow> nat \<Rightarrow> nat H" where
  "malloc_take nunits prevp p =
     kbind (kget hdrs) (\<lambda>h.
     kbind (if h_size (h p) = nunits
       then kbind (set_ptr prevp (h_ptr (h p))) (\<lambda>_. kret p)
       else let k = h_size (h p) - nunits; q = hp p k in
         kbind (kseq [set_size p k, set_size q nunits]) (\<lambda>_. kret q)) (\<lambda>p.
     kbind (kmod (\<lambda>s. s\<lparr>freep := prevp\<rparr>)) (\<lambda>_. kret (p + 16))))"

definition malloc_step :: "u32 \<Rightarrow> nat \<times> nat \<Rightarrow> ((nat \<times> nat) + nat) H" where
  "malloc_step nunits = (\<lambda>(prevp, p).
     kbind (kget hdrs) (\<lambda>h.
     if h_size (h p) \<ge> nunits then kbind (malloc_take nunits prevp p) (\<lambda>r. kret (Inr r))
     else kbind (kget freep) (\<lambda>f.
       let go_on = (\<lambda>p. kbind (kget (\<lambda>s. h_ptr (hdrs s p))) (\<lambda>q. kret (Inl (p, q)))) in
       if p = f then kbind (morecore nunits) (\<lambda>p. if p = 0 then kret (Inr 0) else go_on p)
       else go_on p)))"

definition malloc :: "u32 \<Rightarrow> nat H" where
  "malloc nbytes =
     (let nunits = of_nat ((unat nbytes + 16 - 1) div 16 + 1) in
      kbind (kget freep) (\<lambda>f.
      kbind (kget base_at) (\<lambda>b.
      kbind (kwhen (f = 0) (kseq [kmod (\<lambda>s. s\<lparr>freep := b\<rparr>), set_ptr b b, set_size b 0])) (\<lambda>_.
      let prevp = (if f = 0 then b else f) in
      kbind (kget (\<lambda>s. h_ptr (hdrs s prevp))) (\<lambda>p. kloop (malloc_step nunits) (prevp, p))))))"

section \<open>The ring of free blocks\<close>

text \<open>
  A list of blocks (address of the header, size in units) that lies in memory as a chain of headers which ends with a pointer to \<open>z\<close>.
\<close>

definition head :: "(nat \<times> nat) list \<Rightarrow> nat \<Rightarrow> nat" where
  "head xs z = (case xs of [] \<Rightarrow> z | x # _ \<Rightarrow> fst x)"

primrec linked :: "(nat \<Rightarrow> header) \<Rightarrow> (nat \<times> nat) list \<Rightarrow> nat \<Rightarrow> bool" where
  "linked h [] z = True"
| "linked h (x # xs) z \<longleftrightarrow> h_ptr (h (fst x)) = head xs z \<and> unat (h_size (h (fst x))) = snd x \<and> linked h xs z"

lemma head_simps [simp]: "head [] z = z" "head (x # xs) z = fst x" "head (xs @ ys) z = head xs (head ys z)"
  by (auto simp: head_def split: list.splits)

lemma linked_append [simp]: "linked h (xs @ ys) z \<longleftrightarrow> linked h xs (head ys z) \<and> linked h ys z"
  by (induction xs) auto

lemma linked_other: "\<forall>x\<in>set xs. fst x \<noteq> a \<Longrightarrow> linked (h(a := v)) xs z = linked h xs z"
  by (induction xs) auto

lemma linked_cong: "\<forall>x\<in>set xs. h (fst x) = h' (fst x) \<Longrightarrow> linked h xs z = linked h' xs z"
  by (induction xs) auto

lemma linked_size: "linked h xs z \<Longrightarrow> (a, k) \<in> set xs \<Longrightarrow> unat (h_size (h a)) = k"
  by (induction xs) auto

lemma linked_rotate: "linked h (xs @ ys) (head (xs @ ys) z) \<Longrightarrow> linked h (ys @ xs) (head (ys @ xs) z)"
  by (cases xs; cases ys) auto

definition fits_before :: "nat \<times> nat \<Rightarrow> nat \<times> nat \<Rightarrow> bool" where
  "fits_before x y \<longleftrightarrow> fst x + 16 * snd x \<le> fst y"

definition gap_before :: "nat \<times> nat \<Rightarrow> nat \<times> nat \<Rightarrow> bool" where
  "gap_before x y \<longleftrightarrow> fst x + 16 * snd x < fst y"

definition extent :: "nat \<Rightarrow> nat \<Rightarrow> nat set" where
  "extent a k = {a..<a + 16 * k}"

definition area :: "(nat \<times> nat) list \<Rightarrow> nat set" where
  "area xs = (\<Union>x\<in>set xs. extent (fst x) (snd x))"

lemma area_simps [simp]: "area [] = {}" "area (x # xs) = extent (fst x) (snd x) \<union> area xs" "area (xs @ ys) = area xs \<union> area ys"
  by (auto simp: area_def)

lemma extent_0 [simp]: "extent a 0 = {}"
  by (simp add: extent_def)

text \<open>Putting a block in front of others, as one with the first if they touch.\<close>

fun join :: "nat \<times> nat \<Rightarrow> (nat \<times> nat) list \<Rightarrow> (nat \<times> nat) list" where
  "join x [] = [x]"
| "join x (y # ys) = (if fst x + 16 * snd x = fst y then (fst x, snd x + snd y) # ys else x # y # ys)"

lemma join_area: "area (join x ys) = extent (fst x) (snd x) \<union> area ys"
  by (cases ys) (auto simp: extent_def)

lemma join_sorted:
  assumes "sorted_wrt gap_before ys" "\<forall>y\<in>set ys. fits_before x y"
  shows "sorted_wrt gap_before (join x ys)"
  using assms by (cases ys) (auto simp: gap_before_def fits_before_def)

lemma head_join [simp]: "head (join x ys) z = fst x"
  by (cases ys) auto

lemma join_fst: "y \<in> set (join x ys) \<Longrightarrow> \<exists>v\<in>set (x # ys). fst y = fst v"
  by (cases ys) (auto split: if_splits)

lemma join_end: "y \<in> set (join x ys) \<Longrightarrow> \<exists>v\<in>set (x # ys). fst y + 16 * snd y = fst v + 16 * snd v \<and> snd v \<le> snd y"
  by (cases ys) (auto split: if_splits)

lemma gap_join: "\<forall>v\<in>set (x # ys). gap_before w v \<Longrightarrow> y \<in> set (join x ys) \<Longrightarrow> gap_before w y"
  by (metis gap_before_def join_fst)

lemma fits_join: "\<forall>v\<in>set (x # ys). fits_before w v \<Longrightarrow> y \<in> set (join x ys) \<Longrightarrow> fits_before w y"
  by (metis fits_before_def join_fst)

section \<open>What free does\<close>

text \<open>Both halves of the end of \<open>free\<close> do the same: join a block to the block that follows it in the ring.\<close>

definition merge :: "nat \<Rightarrow> nat \<Rightarrow> unit H" where
  "merge a q = kbind (kget hdrs) (\<lambda>h.
     if hp a (h_size (h a)) = q
     then kseq [set_size a (h_size (h a) + h_size (h q)), set_ptr a (h_ptr (h q))]
     else set_ptr a q)"

lemma free_up_merge: "free_up bp p = kbind (kget (\<lambda>s. h_ptr (hdrs s p))) (merge bp)"
  by (rule ext) (simp add: free_up_def merge_def kbind_def kget_def Let_def)

lemma free_down_merge: "free_down bp p = merge p bp"
  by (rule ext) (simp add: free_down_def merge_def kbind_def kget_def Let_def)

lemma unat_add_u32: "unat a + unat b < 2 ^ 32 \<Longrightarrow> unat (a + b) = unat a + unat b" for a b :: u32
  by (simp add: unat_word_ariths(1))

lemma merge_eq:
  assumes h: "h = hdrs s" and ch: "linked h js z" "q = head js z" and a: "\<forall>j\<in>set js. fst j \<noteq> a" "js = [] \<Longrightarrow> a + 16 * n \<noteq> z"
    and n: "unat (h_size (h a)) = n" "js \<noteq> [] \<Longrightarrow> n + snd (hd js) < 2 ^ 32"
  shows "\<exists>h'. merge a q s = Ret () (s\<lparr>hdrs := h'\<rparr>) \<and> linked h' (join (a, n) js) z \<and> (\<forall>b. b \<noteq> a \<longrightarrow> h' b = h b)"
proof (cases js)
  case Nil
  then have "hp a (h_size (h a)) \<noteq> q" using a(2) n(1) ch(2) by (simp add: hp_def)
  then show ?thesis using Nil ch n h
    by (intro exI [of _ "h(a := (h a)\<lparr>h_ptr := q\<rparr>)"]) (simp add: merge_def set_ptr_def exec_simps)
next
  case (Cons y ys)
  have y: "h_ptr (h q) = head ys z" "unat (h_size (h q)) = snd y" "linked h ys z" "q = fst y" "q \<noteq> a" "\<forall>j\<in>set ys. fst j \<noteq> a"
    using ch a(1) Cons by auto
  show ?thesis
  proof (cases "a + 16 * n = q")
    case True
    let ?h = "h(a := (h a)\<lparr>h_size := h_size (h a) + h_size (h q), h_ptr := h_ptr (h q)\<rparr>)"
    have "merge a q s = Ret () (s\<lparr>hdrs := ?h\<rparr>)"
      using True n(1) h by (simp add: merge_def hp_def set_ptr_def set_size_def exec_simps)
    moreover have "unat (h_size (h a) + h_size (h q)) = n + snd y"
      using n y(2) Cons by (simp add: unat_add_u32)
    ultimately show ?thesis using True y Cons by (intro exI [of _ ?h]) (simp add: linked_other)
  next
    case False
    let ?h = "h(a := (h a)\<lparr>h_ptr := q\<rparr>)"
    have "merge a q s = Ret () (s\<lparr>hdrs := ?h\<rparr>)"
      using False n(1) h by (simp add: merge_def hp_def set_ptr_def exec_simps)
    then show ?thesis using False y Cons n(1) by (intro exI [of _ ?h]) (simp add: linked_other)
  qed
qed

text \<open>
  The state of the allocator: the free blocks \<open>ys\<close> behind \<open>base\<close> are in the order of their addresses, none empty and no two touching, inside
  the memory of the process, and \<open>freep\<close> points to one of the ring.
\<close>

definition inside :: "heapworld \<Rightarrow> nat \<times> nat \<Rightarrow> bool" where
  "inside s x \<longleftrightarrow> 0 < snd x \<and> base_at s + 16 \<le> fst x \<and> fst x + 16 * snd x \<le> brk s"

definition free_ring :: "heapworld \<Rightarrow> (nat \<times> nat) list \<Rightarrow> bool" where
  "free_ring s ys \<longleftrightarrow>
     (let xs = (base_at s, 0) # ys in
      (\<forall>y\<in>set ys. inside s y) \<and> sorted_wrt gap_before xs \<and> linked (hdrs s) xs (base_at s) \<and>
      freep s \<in> fst ` set xs \<and> 0 < base_at s \<and> base_at s + 16 \<le> brk s \<and> brk s < 2 ^ 36)"

text \<open>Walking along the ring from any block finds a block with a property if there is one.\<close>

lemma walk_linked:
  assumes "linked (hdrs s) zs z" "\<exists>x\<in>set zs. P (fst x)"
    "\<And>p. P p \<Longrightarrow> body p s = Ret (Inr p) s" "\<And>p. \<not> P p \<Longrightarrow> body p s = Ret (Inl (h_ptr (hdrs s p))) s"
  shows "\<exists>x\<in>set zs. P (fst x) \<and> kloop body (head zs z) s = Ret (fst x) s"
  using assms(1,2)
proof (induction zs)
  case (Cons x zs)
  show ?case
  proof (cases "P (fst x)")
    case True
    then show ?thesis using kloop_done [where body = body, OF assms(3)] by auto
  next
    case False
    then have "\<exists>y\<in>set zs. P (fst y) \<and> kloop body (head zs z) s = Ret (fst y) s" using Cons by auto
    moreover have "kloop body (fst x) s = kloop body (head zs z) s"
      using kloop_round [where body = body, OF assms(4) [OF False]] Cons.prems(1) by simp
    ultimately show ?thesis by auto
  qed
qed simp

lemma ring_at:
  assumes "linked h (x # xs) (fst x)" "p \<in> fst ` set (x # xs)"
  obtains zs where "linked h zs p" "head zs p = p" "set zs = set (x # xs)" "zs \<noteq> []"
proof -
  obtain us y vs where u: "x # xs = us @ y # vs" "p = fst y" using assms(2) by (metis imageE split_list)
  have "linked h ((y # vs) @ us) (head ((y # vs) @ us) 0)"
    using linked_rotate [of h us "y # vs" 0] assms(1) u by (metis append_is_Nil_conv head_simps(2) list.distinct(1))
  then show ?thesis using that [of "(y # vs) @ us"] u by auto
qed

text \<open>Where \<open>free\<close> puts a block: behind the last block of the ring below it.\<close>

definition place :: "nat \<Rightarrow> (nat \<Rightarrow> header) \<Rightarrow> nat \<Rightarrow> bool" where
  "place bp h p \<longleftrightarrow> bp > p \<and> bp < h_ptr (h p) \<or> p \<ge> h_ptr (h p) \<and> (bp > p \<or> bp < h_ptr (h p))"

lemma free_find_exec:
  "place bp (hdrs s) p \<Longrightarrow> free_find bp p s = Ret (Inr p) s"
  "\<not> place bp (hdrs s) p \<Longrightarrow> free_find bp p s = Ret (Inl (h_ptr (hdrs s p))) s"
  by (auto simp: free_find_def place_def exec_simps)

lemma place_split:
  assumes "linked h xs b" "sorted_wrt gap_before xs" "b < bp" "x \<in> set xs" "place bp h (fst x)"
  shows "\<exists>as bs. xs = as @ x # bs \<and> fst x < bp \<and> (\<forall>y\<in>set bs. bp < fst y)"
proof -
  obtain as bs where xs: "xs = as @ x # bs" using assms(4) by (meson split_list)
  then have nx: "h_ptr (h (fst x)) = head bs b" using assms(1) by simp
  show ?thesis
  proof (cases bs)
    case Nil
    then show ?thesis using xs nx assms(3,5) by (intro exI [of _ as] exI [of _ bs]) (auto simp: place_def)
  next
    case (Cons y bs')
    then have "fst x < fst y" "\<forall>w\<in>set bs'. fst y < fst w" using assms(2) xs by (auto simp: sorted_wrt_append gap_before_def)
    then show ?thesis using xs nx Cons assms(5) by (intro exI [of _ as] exI [of _ bs]) (auto simp: place_def)
  qed
qed

lemma place_exists:
  assumes "linked h xs b" "sorted_wrt gap_before xs" "head xs b < bp" "b < bp" "xs \<noteq> []" "\<forall>x\<in>set xs. fst x \<noteq> bp \<and> b \<le> fst x"
  shows "\<exists>x\<in>set xs. place bp h (fst x)"
  using assms
proof (induction xs)
  case (Cons x xs)
  show ?case
  proof (cases "xs \<noteq> [] \<and> head xs b < bp")
    case True
    then show ?thesis using Cons by auto
  next
    case False
    then have "head xs b = b \<or> bp < head xs b" using Cons.prems(6) by (cases xs) auto
    then show ?thesis using Cons.prems False by (cases xs) (auto simp: place_def gap_before_def)
  qed
qed simp

lemma free_runs:
  assumes h: "linked (hdrs s) xs b" "sorted_wrt gap_before xs" "head xs b = b" "xs \<noteq> []" "b < bp" "freep s \<in> fst ` set xs"
    and n: "unat (h_size (hdrs s bp)) = n" "\<forall>x\<in>set xs. fst x + 16 * snd x \<le> bp \<and> fst x < bp \<or> bp + 16 * n \<le> fst x \<and> bp < fst x"
    and lim: "\<forall>x\<in>set xs. fst x + 16 * snd x < 2 ^ 36" "bp + 16 * n < 2 ^ 36"
  shows "\<exists>as x bs h'. xs = as @ x # bs \<and> fst x < bp \<and> (\<forall>y\<in>set bs. bp < fst y) \<and>
    free (bp + 16) s = Ret () (s\<lparr>hdrs := h', freep := fst x\<rparr>) \<and> linked h' (as @ join x (join (bp, n) bs)) b \<and>
    (\<forall>a. a \<noteq> bp \<longrightarrow> a \<notin> fst ` set xs \<longrightarrow> h' a = hdrs s a)"
proof -
  obtain x0 xs0 where xs0: "xs = x0 # xs0" "b = fst x0" using h(3,4) by (cases xs) auto
  obtain zs where zs: "linked (hdrs s) zs (freep s)" "head zs (freep s) = freep s" "set zs = set xs"
    using ring_at [of "hdrs s" x0 xs0 "freep s"] h(1,6) xs0 by metis
  have ne: "\<forall>x\<in>set xs. fst x \<noteq> bp" using n(2) by fastforce
  have "\<forall>x\<in>set xs. b \<le> fst x" using h(2) xs0 by (auto simp: gap_before_def)
  then have "\<exists>x\<in>set zs. place bp (hdrs s) (fst x)" using place_exists [OF h(1,2) _ h(5,4)] ne h(3,5) zs(3) by auto
  from walk_linked [OF zs(1) this, of "free_find bp"] obtain x where
    x: "x \<in> set xs" "place bp (hdrs s) (fst x)" "kloop (free_find bp) (freep s) s = Ret (fst x) s"
    using free_find_exec zs(2,3) by auto
  obtain as bs where sp: "xs = as @ x # bs" "fst x < bp" "\<forall>y\<in>set bs. bp < fst y"
    using place_split [OF h(1,2,5) x(1,2)] by blast
  have c: "h_ptr (hdrs s (fst x)) = head bs b" "linked (hdrs s) bs b" "linked (hdrs s) as (fst x)" "unat (h_size (hdrs s (fst x))) = snd x"
    using h(1) sp(1) by auto
  have nb: "bs \<noteq> [] \<Longrightarrow> n + snd (hd bs) < 2 ^ 32"
  proof -
    assume "bs \<noteq> []"
    then have "hd bs \<in> set xs" "bp < fst (hd bs)" using sp by auto
    then have "bp + 16 * n \<le> fst (hd bs)" "fst (hd bs) + 16 * snd (hd bs) < 2 ^ 36" using n(2) lim by fastforce+
    then show ?thesis by simp
  qed
  obtain h1 where h1: "merge bp (head bs b) s = Ret () (s\<lparr>hdrs := h1\<rparr>)" "linked h1 (join (bp, n) bs) b" "\<forall>a. a \<noteq> bp \<longrightarrow> h1 a = hdrs s a"
    using merge_eq [OF refl c(2) refl _ _ n(1) nb] sp(1) ne h(5) by fastforce
  let ?j = "join (bp, n) bs"
  have j: "?j \<noteq> []" "\<forall>y\<in>set ?j. fst y \<noteq> fst x" "fst (hd ?j) = bp" "head ?j b = bp"
    using sp(2,3) by (cases bs; auto split: if_splits)+
  have nx: "snd x + snd (hd ?j) < 2 ^ 32"
  proof -
    have "fst x + 16 * snd x \<le> bp" using n(2) x(1) sp(2) by fastforce
    moreover have "bp + 16 * snd (hd ?j) < 2 ^ 36" using lim sp(1) by (cases bs) auto
    ultimately show ?thesis by simp
  qed
  have "unat (h_size (h1 (fst x))) = snd x" using h1(3) c(4) sp(2) by simp
  from merge_eq [where s = "s\<lparr>hdrs := h1\<rparr>", OF _ h1(2) j(4) [symmetric] j(2) _ this] j(1) nx obtain h2 where
    h2: "merge (fst x) bp (s\<lparr>hdrs := h1\<rparr>) = Ret () (s\<lparr>hdrs := h2\<rparr>)" "linked h2 (join (fst x, snd x) ?j) b" "\<forall>a. a \<noteq> fst x \<longrightarrow> h2 a = h1 a"
    by auto
  have "\<forall>y\<in>set as. fst y \<noteq> fst x \<and> fst y \<noteq> bp" using h(2) sp(1,2) by (auto simp: sorted_wrt_append gap_before_def)
  then have as: "linked h2 as (fst x)" using c(3) h1(3) h2(3) linked_cong [of as h2 "hdrs s"] by auto
  have "free (bp + 16) s = Ret () (s\<lparr>hdrs := h2, freep := fst x\<rparr>)"
    unfolding free_def Let_def using x(3) c(1) h1(1) h2(1)
    by (simp add: exec_simps free_up_merge free_down_merge kbind_def kmod_def kret_def kget_def)
  moreover have "linked h2 (as @ join x ?j) b" using as h2(2) by simp
  moreover have "\<forall>a. a \<noteq> bp \<longrightarrow> a \<notin> fst ` set xs \<longrightarrow> h2 a = hdrs s a" using h1(3) h2(3) sp(1) by auto
  ultimately show ?thesis using sp by blast
qed

lemma inside_join:
  assumes "\<forall>v\<in>set (x # ys). inside s v" "y \<in> set (join x ys)"
  shows "inside s y"
proof -
  obtain v w where "v \<in> set (x # ys)" "fst y = fst v" "w \<in> set (x # ys)" "fst y + 16 * snd y = fst w + 16 * snd w" "snd w \<le> snd y"
    using join_fst [OF assms(2)] join_end [OF assms(2)] by blast
  then have "inside s v" "inside s w" using assms(1) by blast+
  then show ?thesis using \<open>fst y = fst v\<close> \<open>fst y + 16 * snd y = fst w + 16 * snd w\<close> \<open>snd w \<le> snd y\<close> by (simp add: inside_def)
qed

text \<open>The new list of blocks is in order again.\<close>

lemma sorted_insert:
  assumes "sorted_wrt gap_before (as @ x # bs)" "fits_before x (bp, n)" "\<forall>y\<in>set bs. fits_before (bp, n) y"
  shows "sorted_wrt gap_before (as @ join x (join (bp, n) bs))"
proof -
  have s: "sorted_wrt gap_before as" "\<forall>w\<in>set as. gap_before w x \<and> (\<forall>y\<in>set bs. gap_before w y)" "sorted_wrt gap_before bs"
    "\<forall>y\<in>set bs. fits_before x y"
    using assms(1) by (auto simp: sorted_wrt_append gap_before_def fits_before_def)
  have j: "sorted_wrt gap_before (join (bp, n) bs)" using join_sorted [OF s(3) assms(3)] .
  have "\<forall>y\<in>set (join (bp, n) bs). fits_before x y" using fits_join [of "(bp, n)" bs x] s(4) assms(2) by auto
  then have jj: "sorted_wrt gap_before (join x (join (bp, n) bs))" using join_sorted [OF j] by blast
  have "gap_before w y" if w: "w \<in> set as" and y: "y \<in> set (join x (join (bp, n) bs))" for w y
  proof (rule gap_join [OF _ y])
    have "gap_before w x" using s(2) w by blast
    then have "gap_before w (bp, n)" using assms(2) by (simp add: gap_before_def fits_before_def)
    then have "\<forall>v\<in>set ((bp, n) # bs). gap_before w v" using s(2) w by simp
    then have "\<forall>v\<in>set (join (bp, n) bs). gap_before w v" using gap_join by blast
    then show "\<forall>v\<in>set (x # join (bp, n) bs). gap_before w v" using s(2) w by auto
  qed
  then show ?thesis using s(1) jj by (simp add: sorted_wrt_append)
qed

lemma extents_apart:
  "0 < k \<Longrightarrow> 0 < n \<Longrightarrow> extent a n \<inter> extent b k = {} \<Longrightarrow> b + 16 * k \<le> a \<and> b < a \<or> a + 16 * n \<le> b \<and> a < b"
  by (auto simp: extent_def disjoint_iff)

lemma free_ring_simps:
  "free_ring s ys \<longleftrightarrow> (\<forall>y\<in>set ys. inside s y) \<and> sorted_wrt gap_before ((base_at s, 0) # ys) \<and>
     linked (hdrs s) ((base_at s, 0) # ys) (base_at s) \<and> freep s \<in> fst ` set ((base_at s, 0) # ys) \<and> 0 < base_at s \<and>
     base_at s + 16 \<le> brk s \<and> brk s < 2 ^ 36"
  unfolding free_ring_def Let_def ..

text \<open>The result of inserting a block, seen as the blocks behind \<open>base\<close>.\<close>

lemma insert_behind_base:
  assumes "(b, 0) # ys = as @ x # bs" "fst x < bp" "b + 16 \<le> bp"
    "\<forall>y\<in>set ((bp, n) # ys). inside s y"
  shows "\<exists>zs. as @ join x (join (bp, n) bs) = (b, 0) # zs \<and> area zs = area ys \<union> extent bp n \<and> fst x \<in> fst ` set ((b, 0) # zs) \<and>
    (\<forall>y\<in>set zs. inside s y)"
proof (cases as)
  case Nil
  then have x: "x = (b, 0)" "bs = ys" using assms(1) by auto
  have "join (b, 0) (join (bp, n) ys) = (b, 0) # join (bp, n) ys" using assms(3) by (cases ys) auto
  moreover have "\<forall>y\<in>set (join (bp, n) ys). inside s y" using inside_join [OF assms(4)] by blast
  ultimately show ?thesis by (intro exI [of _ "join (bp, n) ys"]) (simp add: x Nil join_area Un_commute)
next
  case (Cons a as')
  then have ys: "a = (b, 0)" "ys = as' @ x # bs" using assms(1) by auto
  have f: "fst x \<in> fst ` set (join x (join (bp, n) bs))" by (cases "join (bp, n) bs") auto
  have "\<forall>y\<in>set ((bp, n) # bs). inside s y" using assms(4) ys(2) by simp
  then have "\<forall>y\<in>set (join (bp, n) bs). inside s y" using inside_join by blast
  then have "\<forall>y\<in>set (x # join (bp, n) bs). inside s y" using assms(4) ys(2) by simp
  then have "\<forall>y\<in>set (join x (join (bp, n) bs)). inside s y" using inside_join by blast
  then show ?thesis using Cons ys f assms(4)
    by (intro exI [of _ "as' @ join x (join (bp, n) bs)"]) (simp add: join_area Un_ac image_Un ball_Un)
qed

lemma free_ring_free:
  assumes R: "free_ring s ys" and n: "unat (h_size (hdrs s bp)) = n" "inside s (bp, n)" "extent bp n \<inter> area ys = {}"
  shows "\<exists>zs h p. free (bp + 16) s = Ret () (s\<lparr>hdrs := h, freep := p\<rparr>) \<and> free_ring (s\<lparr>hdrs := h, freep := p\<rparr>) zs \<and>
    area zs = area ys \<union> extent bp n \<and> (\<forall>a. a \<noteq> bp \<longrightarrow> a \<noteq> base_at s \<longrightarrow> a \<notin> area ys \<longrightarrow> h a = hdrs s a)"
proof -
  let ?xs = "(base_at s, 0) # ys"
  note r = R [unfolded free_ring_simps]
  have bp: "base_at s + 16 \<le> bp" "0 < n" "bp + 16 * n \<le> brk s" using n(2) by (auto simp: inside_def)
  have ap: "fst y + 16 * snd y \<le> bp \<and> fst y < bp \<or> bp + 16 * n \<le> fst y \<and> bp < fst y" if "y \<in> set ys" for y
  proof (rule extents_apart)
    show "0 < snd y" "0 < n" using r that bp by (auto simp: inside_def)
    show "extent bp n \<inter> extent (fst y) (snd y) = {}" using n(3) that by (auto simp: area_def)
  qed
  obtain as x bs h where f: "?xs = as @ x # bs" "fst x < bp" "\<forall>y\<in>set bs. bp < fst y"
    "free (bp + 16) s = Ret () (s\<lparr>hdrs := h, freep := fst x\<rparr>)" "linked h (as @ join x (join (bp, n) bs)) (base_at s)"
    "\<forall>a. a \<noteq> bp \<longrightarrow> a \<notin> fst ` set ?xs \<longrightarrow> h a = hdrs s a"
  proof -
    have 1: "\<forall>x\<in>set ?xs. fst x + 16 * snd x \<le> bp \<and> fst x < bp \<or> bp + 16 * n \<le> fst x \<and> bp < fst x" using ap bp(1) by auto
    have 2: "\<forall>x\<in>set ?xs. fst x + 16 * snd x < 2 ^ 36" "bp + 16 * n < 2 ^ 36" using r bp(3) by (auto simp: inside_def)
    have 3: "linked (hdrs s) ?xs (base_at s)" "sorted_wrt gap_before ?xs" "head ?xs (base_at s) = base_at s" "?xs \<noteq> []"
      "base_at s < bp" "freep s \<in> fst ` set ?xs" using r bp(1) by auto
    show ?thesis using free_runs [OF 3 n(1) 1 2] that by blast
  qed
  obtain zs where z: "as @ join x (join (bp, n) bs) = (base_at s, 0) # zs" "area zs = area ys \<union> extent bp n"
    "fst x \<in> fst ` set ((base_at s, 0) # zs)" "\<forall>y\<in>set zs. inside s y"
  proof -
    have "\<forall>y\<in>set ((bp, n) # ys). inside s y" using r n(2) by simp
    then show ?thesis using insert_behind_base [OF f(1,2) bp(1)] that by blast
  qed
  have xs: "set ?xs = insert x (set as \<union> set bs)" unfolding f(1) by auto
  have ap': "fst y + 16 * snd y \<le> bp \<and> fst y < bp \<or> bp + 16 * n \<le> fst y \<and> bp < fst y" if "y \<in> set ?xs" for y
    using that ap [of y] bp(1) by (cases "y \<in> set ys") auto
  have fb: "fits_before x (bp, n)" using ap' [of x] xs f(2) unfolding fits_before_def by auto
  have fb': "\<forall>y\<in>set bs. fits_before (bp, n) y"
  proof
    fix y
    assume y: "y \<in> set bs"
    then have "y \<in> set ?xs" "bp < fst y" unfolding xs using f(3) by blast+
    then show "fits_before (bp, n) y" using ap' [of y] unfolding fits_before_def by auto
  qed
  have "sorted_wrt gap_before ((base_at s, 0) # zs)" using sorted_insert [OF _ fb fb', of as] r f(1) z(1) by simp
  then have ring: "free_ring (s\<lparr>hdrs := h, freep := fst x\<rparr>) zs"
    using r z f(5) unfolding free_ring_simps by (simp add: inside_def)
  have out: "a \<notin> fst ` set ?xs" if a: "a \<noteq> base_at s" "a \<notin> area ys" for a
  proof
    assume "a \<in> fst ` set ?xs"
    then obtain y where y: "y \<in> set ys" "a = fst y" using a(1) by auto
    then have "fst y \<in> extent (fst y) (snd y)" using r by (simp add: extent_def inside_def)
    then show False using a(2) y by (auto simp: area_def)
  qed
  have "\<forall>a. a \<noteq> bp \<longrightarrow> a \<noteq> base_at s \<longrightarrow> a \<notin> area ys \<longrightarrow> h a = hdrs s a" using f(6) out by (metis (no_types))
  then show ?thesis using f(4) z(2) ring by (intro exI [of _ zs] exI [of _ h] exI [of _ "fst x"]) (simp only: simp_thms)
qed

section \<open>What malloc takes\<close>

lemma sorted_distinct: "sorted_wrt gap_before xs \<Longrightarrow> distinct (map fst xs)"
  by (induction xs) (force simp: gap_before_def)+

lemma area_apart:
  assumes "sorted_wrt gap_before (as @ (p, k) # bs)"
  shows "area (as @ bs) \<inter> extent p k = {}"
proof -
  have "extent (fst y) (snd y) \<inter> extent p k = {}" if "y \<in> set (as @ bs)" for y
    using that assms by (auto simp: sorted_wrt_append gap_before_def extent_def)
  then show ?thesis unfolding area_def by blast
qed

text \<open>The predecessor in the ring is the block before in the list.\<close>

lemma pred_unique:
  assumes "linked h (as @ (p, k) # bs) z" "distinct (map fst (as @ (p, k) # bs))" "p \<noteq> z" "h_ptr (h a) = p" "a \<in> fst ` set (as @ (p, k) # bs)"
  shows "\<exists>as' n. as = as' @ [(a, n)]"
proof -
  obtain us y vs where u: "as @ (p, k) # bs = us @ y # vs" "a = fst y" using assms(5) by (metis imageE split_list)
  then have "head vs z = p" using assms(1,4) by simp
  then obtain w vs' where v: "vs = w # vs'" "fst w = p" using assms(3) by (cases vs) auto
  have "map fst as @ p # map fst bs = (map fst us @ [a]) @ p # map fst vs'" using arg_cong [OF u(1), of "map fst"] u(2) v by simp
  then have "map fst as = map fst us @ [a]"
    using assms(2) by (subst (asm) append_Cons_eq_iff) auto
  then have ne: "as \<noteq> []" and "List.last (map fst as) = a" by auto
  then have "fst (List.last as) = a" by (simp add: last_map)
  then have "as = butlast as @ [(a, snd (List.last as))]" using ne by (metis append_butlast_last_id prod.collapse)
  then show ?thesis by blast
qed

lemma linked_skip:
  assumes "linked h (as @ (a, n) # (p, k) # bs) z" "distinct (map fst (as @ (a, n) # (p, k) # bs))"
  shows "linked (h(a := (h a)\<lparr>h_ptr := h_ptr (h p)\<rparr>)) (as @ (a, n) # bs) z"
proof -
  have "\<forall>x\<in>set as. fst x \<noteq> a" "\<forall>x\<in>set bs. fst x \<noteq> a" using assms(2) by auto
  then show ?thesis using assms(1) by (simp add: linked_other)
qed

lemma take_whole:
  assumes R: "free_ring s ys" and p: "ys = as @ (p, k) # bs" and a: "a \<in> fst ` set ((base_at s, 0) # ys)" "h_ptr (hdrs s a) = p"
    and n: "h_size (hdrs s p) = nunits"
  shows "\<exists>h. malloc_take nunits a p s = Ret (p + 16) (s\<lparr>hdrs := h, freep := a\<rparr>) \<and> free_ring (s\<lparr>hdrs := h, freep := a\<rparr>) (as @ bs) \<and>
    area (as @ bs) = area ys - extent p k \<and> unat (h_size (h p)) = k \<and> (\<forall>b. b \<notin> fst ` set ((base_at s, 0) # ys) \<longrightarrow> h b = hdrs s b)"
proof -
  note r = R [unfolded free_ring_simps]
  let ?xs = "((base_at s, 0) # as) @ (p, k) # bs"
  have xs: "sorted_wrt gap_before ?xs" "linked (hdrs s) ?xs (base_at s)" "distinct (map fst ?xs)"
    using r p sorted_distinct [of ?xs] by auto
  have pb: "p \<noteq> base_at s" using r p by (auto simp: inside_def)
  obtain us m where u: "(base_at s, 0) # as = us @ [(a, m)]"
    using pred_unique [OF xs(2,3) pb a(2)] a(1) p by auto
  let ?h = "(hdrs s)(a := (hdrs s a)\<lparr>h_ptr := h_ptr (hdrs s p)\<rparr>)"
  have ap: "a \<noteq> p" using xs(3) unfolding u by auto
  have "malloc_take nunits a p s = Ret (p + 16) (s\<lparr>hdrs := ?h, freep := a\<rparr>)"
    using n by (simp add: malloc_take_def set_ptr_def exec_simps)
  moreover have l: "linked ?h ((base_at s, 0) # as @ bs) (base_at s)"
    using linked_skip [of "hdrs s" us a m p k bs "base_at s"] xs(2,3) u
    by (metis append.assoc append_Cons append_Nil)
  moreover have "a \<in> fst ` set ((base_at s, 0) # as)" unfolding u by simp
  then have "free_ring (s\<lparr>hdrs := ?h, freep := a\<rparr>) (as @ bs)"
    using r p l unfolding free_ring_simps by (auto simp: inside_def sorted_wrt_append)
  moreover have "area (as @ bs) = area ys - extent p k" using area_apart [of as p k bs] xs(1) p by (auto simp: sorted_wrt_append)
  moreover have "unat (h_size (hdrs s p)) = k" using linked_size [OF xs(2)] by simp
  ultimately show ?thesis using a(1) ap by (intro exI [of _ ?h]) auto
qed

lemma take_part:
  assumes R: "free_ring s ys" and p: "ys = as @ (p, k) # bs" and a: "a \<in> fst ` set ((base_at s, 0) # ys)"
    and n: "unat nunits = n" "0 < n" "n < k"
  shows "\<exists>h q. malloc_take nunits a p s = Ret (q + 16) (s\<lparr>hdrs := h, freep := a\<rparr>) \<and> q = p + 16 * (k - n) \<and>
    free_ring (s\<lparr>hdrs := h, freep := a\<rparr>) (as @ (p, k - n) # bs) \<and> area (as @ (p, k - n) # bs) = area ys - extent q n \<and>
    extent q n \<subseteq> area ys \<and> unat (h_size (h q)) = n \<and> (\<forall>b. b \<noteq> q \<longrightarrow> b \<notin> fst ` set ((base_at s, 0) # ys) \<longrightarrow> h b = hdrs s b)"
proof -
  note r = R [unfolded free_ring_simps]
  let ?xs = "((base_at s, 0) # as) @ (p, k) # bs" and ?q = "p + 16 * (k - n)"
  have xs: "sorted_wrt gap_before ?xs" "linked (hdrs s) ?xs (base_at s)" "distinct (map fst ?xs)"
    using r p sorted_distinct [of ?xs] by auto
  have k: "unat (h_size (hdrs s p)) = k" using linked_size [OF xs(2)] by simp
  have sz: "unat (h_size (hdrs s p) - nunits) = k - n" using k n by (simp add: unat_sub word_le_nat_alt)
  let ?h = "(hdrs s)(p := (hdrs s p)\<lparr>h_size := h_size (hdrs s p) - nunits\<rparr>, ?q := (hdrs s ?q)\<lparr>h_size := nunits\<rparr>)"
  have pq: "p < ?q" "?q < p + 16 * k" using n by auto
  have ne: "h_size (hdrs s p) \<noteq> nunits" using k n by auto
  have "malloc_take nunits a p s = Ret (?q + 16) (s\<lparr>hdrs := ?h, freep := a\<rparr>)"
    using ne pq sz by (simp add: malloc_take_def set_size_def hp_def exec_simps Let_def)
  moreover have out: "\<forall>x\<in>set ?xs. fst x \<noteq> ?q"
    using xs(1) pq by (auto simp: sorted_wrt_append gap_before_def)
  have "\<forall>x\<in>set ((base_at s, 0) # as). fst x \<noteq> p" "\<forall>x\<in>set bs. fst x \<noteq> p" using xs(3) by auto
  then have "linked ?h (((base_at s, 0) # as) @ (p, k - n) # bs) (base_at s)"
    using xs(2) out pq sz by (simp add: linked_other)
  moreover have "sorted_wrt gap_before (((base_at s, 0) # as) @ (p, k - n) # bs)"
    using xs(1) by (auto simp: sorted_wrt_append gap_before_def)
  ultimately have run: "malloc_take nunits a p s = Ret (?q + 16) (s\<lparr>hdrs := ?h, freep := a\<rparr>)"
    "linked ?h ((base_at s, 0) # as @ (p, k - n) # bs) (base_at s)" "sorted_wrt gap_before ((base_at s, 0) # as @ (p, k - n) # bs)" by simp_all
  have "free_ring (s\<lparr>hdrs := ?h, freep := a\<rparr>) (as @ (p, k - n) # bs)"
    using r p run(2,3) a n unfolding free_ring_simps by (auto simp: inside_def)
  moreover have "area (as @ (p, k - n) # bs) = area ys - extent ?q n" "extent ?q n \<subseteq> area ys"
  proof -
    have "extent p k = extent p (k - n) \<union> extent ?q n" "extent p (k - n) \<inter> extent ?q n = {}" using n by (auto simp: extent_def)
    moreover have "area (as @ bs) \<inter> extent p k = {}" using area_apart [of as p k bs] xs(1) by (simp add: sorted_wrt_append)
    ultimately show "area (as @ (p, k - n) # bs) = area ys - extent ?q n" "extent ?q n \<subseteq> area ys" using p by auto
  qed
  ultimately show ?thesis using run(1) n(1) p by (intro exI [of _ ?h] exI [of _ ?q]) simp
qed

text \<open>Both ways of taking \<open>n\<close> units from a block that is large enough, as the caller sees them.\<close>

lemma malloc_take_ring:
  assumes R: "free_ring s ys" and y: "y \<in> set ys" and a: "a \<in> fst ` set ((base_at s, 0) # ys)" "h_ptr (hdrs s a) = fst y"
    and n: "unat nunits = n" "0 < n" "nunits \<le> h_size (hdrs s (fst y))"
  shows "\<exists>h q zs. malloc_take nunits a (fst y) s = Ret (q + 16) (s\<lparr>hdrs := h, freep := a\<rparr>) \<and>
    free_ring (s\<lparr>hdrs := h, freep := a\<rparr>) zs \<and> area zs = area ys - extent q n \<and> extent q n \<subseteq> area ys \<and> unat (h_size (h q)) = n \<and>
    (\<forall>b. b \<notin> area ys \<longrightarrow> b \<noteq> base_at s \<longrightarrow> h b = hdrs s b)"
proof -
  obtain as bs where p: "ys = as @ (fst y, snd y) # bs" using y by (metis prod.collapse split_list)
  note r = R [unfolded free_ring_simps]
  have k: "unat (h_size (hdrs s (fst y))) = snd y" using linked_size [of "hdrs s" ys "base_at s" "fst y" "snd y"] r y by simp
  have out: "b \<notin> fst ` set ((base_at s, 0) # ys)" if b: "b \<notin> area ys" "b \<noteq> base_at s" for b
  proof
    assume "b \<in> fst ` set ((base_at s, 0) # ys)"
    then obtain w where w: "w \<in> set ys" "b = fst w" using b(2) by auto
    then have "b \<in> extent (fst w) (snd w)" using r by (simp add: extent_def inside_def)
    then show False using b(1) w by (auto simp: area_def)
  qed
  have le: "n \<le> snd y" using n(3) k n(1) by (simp add: word_le_nat_alt)
  show ?thesis
  proof (cases "n = snd y")
    case True
    then have "h_size (hdrs s (fst y)) = nunits" using k n(1) by (simp add: word_unat_eq_iff)
    from take_whole [OF R p a this] obtain h where h: "malloc_take nunits a (fst y) s = Ret (fst y + 16) (s\<lparr>hdrs := h, freep := a\<rparr>)"
      "free_ring (s\<lparr>hdrs := h, freep := a\<rparr>) (as @ bs)" "area (as @ bs) = area ys - extent (fst y) (snd y)"
      "unat (h_size (h (fst y))) = snd y" "\<forall>b. b \<notin> fst ` set ((base_at s, 0) # ys) \<longrightarrow> h b = hdrs s b" by blast
    moreover have "extent (fst y) (snd y) \<subseteq> area ys" using y by (auto simp: area_def)
    ultimately show ?thesis using out True
      by (intro exI [of _ h] exI [of _ "fst y"] exI [of _ "as @ bs"]) (simp only: simp_thms, metis)
  next
    case False
    then have "n < snd y" using le by simp
    from take_part [OF R p a(1) n(1,2) this] obtain h q where h: "malloc_take nunits a (fst y) s = Ret (q + 16) (s\<lparr>hdrs := h, freep := a\<rparr>)"
      "free_ring (s\<lparr>hdrs := h, freep := a\<rparr>) (as @ (fst y, snd y - n) # bs)" "area (as @ (fst y, snd y - n) # bs) = area ys - extent q n"
      "extent q n \<subseteq> area ys" "unat (h_size (h q)) = n" "\<forall>b. b \<noteq> q \<longrightarrow> b \<notin> fst ` set ((base_at s, 0) # ys) \<longrightarrow> h b = hdrs s b" by blast
    have "q \<in> area ys" using h(4) n(2) by (auto simp: extent_def)
    then have "\<forall>b. b \<notin> area ys \<longrightarrow> b \<noteq> base_at s \<longrightarrow> h b = hdrs s b" using h(6) out by metis
    then show ?thesis using h(1-5)
      by (intro exI [of _ h] exI [of _ q] exI [of _ "as @ (fst y, snd y - n) # bs"]) (simp only: simp_thms)
  qed
qed

text \<open>One walk of \<open>malloc\<close> along the ring, up to \<open>freep\<close>: a block is taken, or more memory is asked for.\<close>

definition more_or_stop :: "u32 \<Rightarrow> nat H" where
  "more_or_stop nunits = kbind (morecore nunits) (\<lambda>q.
     if q = 0 then kret 0 else kbind (kget (\<lambda>s. h_ptr (hdrs s q))) (\<lambda>r. kloop (malloc_step nunits) (q, r)))"

lemma malloc_walk:
  assumes "linked (hdrs s) zs z" "zs \<noteq> []" "distinct (map fst zs)" "freep s = fst (List.last zs)" "h_ptr (hdrs s a) = head zs z" "a \<in> A"
    "fst ` set zs \<subseteq> A"
  shows "(\<exists>b p. b \<in> A \<and> p \<in> fst ` set zs \<and> h_ptr (hdrs s b) = p \<and> nunits \<le> h_size (hdrs s p) \<and>
      kloop (malloc_step nunits) (a, head zs z) s = malloc_take nunits b p s) \<or>
    (\<forall>x\<in>set zs. h_size (hdrs s (fst x)) < nunits) \<and> kloop (malloc_step nunits) (a, head zs z) s = more_or_stop nunits s"
  using assms
proof (induction zs arbitrary: a)
  case (Cons x zs)
  let ?p = "fst x"
  show ?case
  proof (cases "nunits \<le> h_size (hdrs s ?p)")
    case True
    then have "kloop (malloc_step nunits) (a, ?p) s = malloc_take nunits a ?p s"
      by (subst kloop_unfold) (simp add: malloc_step_def kbind_def kget_def kret_def split: outcome.split)
    then show ?thesis using True Cons.prems by auto
  next
    case False
    show ?thesis
    proof (cases "zs = []")
      case True
      then have "freep s = ?p" using Cons.prems(4) by simp
      then have "kloop (malloc_step nunits) (a, ?p) s = more_or_stop nunits s"
        using False
        by (subst kloop_unfold) (simp add: malloc_step_def more_or_stop_def kbind_def kget_def kret_def split: outcome.split)
      then show ?thesis using True False by auto
    next
      case nonempty: False
      then have "freep s \<in> fst ` set zs" using Cons.prems(4) by simp
      then have "?p \<noteq> freep s" using Cons.prems(3) by (metis distinct.simps(2) list.simps(9) set_map)
      then have "malloc_step nunits (a, ?p) s = Ret (Inl (?p, head zs z)) s"
        using False Cons.prems(1) by (simp add: malloc_step_def exec_simps)
      from kloop_round [where body = "malloc_step nunits", OF this]
      have k: "kloop (malloc_step nunits) (a, ?p) s = kloop (malloc_step nunits) (?p, head zs z) s" .
      show ?thesis using Cons.IH [of ?p] Cons.prems nonempty False k by auto
    qed
  qed
qed simp

lemma contiguous:
  assumes "sorted_wrt gap_before zs" "0 < n" "extent p n \<subseteq> area zs"
  shows "\<exists>y\<in>set zs. n \<le> snd y"
proof -
  have "p \<in> area zs" using assms(2,3) by (auto simp: extent_def)
  then obtain y where y: "y \<in> set zs" "fst y \<le> p" "p < fst y + 16 * snd y" by (auto simp: area_def extent_def)
  have "p + 16 * n \<le> fst y + 16 * snd y"
  proof (rule ccontr)
    assume "\<not> p + 16 * n \<le> fst y + 16 * snd y"
    then have "fst y + 16 * snd y \<in> area zs" using assms(3) y by (force simp: extent_def)
    then obtain w where w: "w \<in> set zs" "fst w \<le> fst y + 16 * snd y" "fst y + 16 * snd y < fst w + 16 * snd w"
      by (auto simp: area_def extent_def)
    then have "gap_before y w \<or> gap_before w y"
      using assms(1) y(1) by (metis in_set_conv_nth linorder_neqE_nat nat_less_le sorted_wrt_nth_less)
    then show False using w y by (auto simp: gap_before_def)
  qed
  then show ?thesis using y by (intro bexI [of _ y]) auto
qed

lemma ring_frame:
  assumes "free_ring s ys" "hdrs t = (hdrs s)(brk s := v)" "base_at t = base_at s" "freep t = freep s" "brk s \<le> brk t" "brk t < 2 ^ 36"
  shows "free_ring t ys"
proof -
  note r = assms(1) [unfolded free_ring_simps]
  have "\<forall>x\<in>set ((base_at s, 0) # ys). fst x \<noteq> brk s" using r by (auto simp: inside_def)
  then show ?thesis using r assms(2-) unfolding free_ring_simps by (auto simp: inside_def linked_other simp del: linked.simps)
qed

text \<open>Asking for memory: what the kernel answers decides whether the new memory joins the free blocks.\<close>

definition refuses :: "heapworld \<Rightarrow> bool" where
  "refuses s \<longleftrightarrow> (\<forall>i. reply s (length (calls s)) = Some (Ans i) \<longrightarrow> i = - 1)"

definition chunk :: "u32 \<Rightarrow> nat" where
  "chunk nunits = max 4096 (unat nunits)"

lemma sint_of_nat_small: "int x < 2 ^ 31 \<Longrightarrow> sint (of_nat x :: u32) = int x"
  using sint_sbintrunc' [of "int x", where 'a = 32] by (simp add: signed_take_bit_int_eq_self)

lemma morecore_ring:
  assumes R: "free_ring s ys" and a: "answered s" and n: "unat nunits * 16 < 2 ^ 31" and room: "brk s + 16 * chunk nunits < 2 ^ 36"
  shows "if refuses s then \<exists>c. morecore nunits s = Ret 0 (s\<lparr>calls := c\<rparr>)
    else \<exists>t zs. morecore nunits s = Ret (freep t) t \<and> freep t \<noteq> 0 \<and> free_ring t zs \<and> area zs = area ys \<union> extent (brk s) (chunk nunits) \<and>
      brk t = brk s + 16 * chunk nunits \<and> base_at t = base_at s \<and>
      (\<forall>b. b \<noteq> brk s \<longrightarrow> b \<noteq> base_at s \<longrightarrow> b \<notin> area ys \<longrightarrow> hdrs t b = hdrs s b)"
proof -
  define nu where "nu = (if nunits < 4096 then 4096 else nunits)"
  define c where "c = calls s @ [ScSbrk (sint (of_nat (unat nu * 16) :: u32))]"
  have nu: "unat nu = chunk nunits" by (simp add: nu_def chunk_def word_less_nat_alt max_def)
  have "int (16 * chunk nunits) < 2 ^ 31" using n by (simp add: chunk_def max_def)
  then have arg: "sint (of_nat (unat nu * 16) :: u32) = int (16 * chunk nunits)"
    unfolding nu using sint_of_nat_small [of "16 * chunk nunits"] by (simp only: mult.commute)
  obtain i where i: "ucall (ScSbrk (sint (of_nat (unat nu * 16) :: u32))) s = Ret i (s\<lparr>calls := c\<rparr>)" "i = - 1 \<longleftrightarrow> refuses s"
  proof -
    obtain r where r: "reply s (length (calls s)) = Some r" using a by (auto simp: answered_def)
    then show ?thesis using that
      by (cases r) (auto simp: ucall_def usys_def kbind_def kret_def c_def refuses_def)
  qed
  show ?thesis
  proof (cases "refuses s")
    case True
    then show ?thesis using i by (auto simp: morecore_def nu_def [symmetric] u_sbrk_def kbind_def kret_def Let_def)
  next
    case False
    let ?s = "s\<lparr>calls := c, brk := brk s + 16 * chunk nunits, hdrs := (hdrs s)(brk s := (hdrs s (brk s))\<lparr>h_size := nu\<rparr>)\<rparr>"
    note r = R [unfolded free_ring_simps]
    have R': "free_ring ?s ys" using ring_frame [OF R, of ?s] room by simp
    have "extent (brk s) (chunk nunits) \<inter> area ys = {}" using r by (fastforce simp: area_def extent_def inside_def)
    moreover have "inside ?s (brk s, chunk nunits)" using r by (simp add: inside_def chunk_def)
    moreover have "unat (h_size (hdrs ?s (brk s))) = chunk nunits" using nu by simp
    ultimately obtain zs h p where f: "free (brk s + 16) ?s = Ret () (?s\<lparr>hdrs := h, freep := p\<rparr>)" "free_ring (?s\<lparr>hdrs := h, freep := p\<rparr>) zs"
      "area zs = area ys \<union> extent (brk s) (chunk nunits)"
      "\<forall>a. a \<noteq> brk s \<longrightarrow> a \<noteq> base_at ?s \<longrightarrow> a \<notin> area ys \<longrightarrow> h a = hdrs ?s a"
      using free_ring_free [OF R'] by metis
    let ?t = "?s\<lparr>hdrs := h, freep := p\<rparr>"
    have "u_sbrk (sint (of_nat (unat nu * 16) :: u32)) s = Ret (Some (brk s)) (s\<lparr>calls := c, brk := brk s + 16 * chunk nunits\<rparr>)"
      using i False arg by (simp add: u_sbrk_def kbind_def kret_def kget_def kmod_def nat_int_add)
    then have "morecore nunits s = Ret p ?t"
      using f(1) by (simp add: morecore_def nu_def [symmetric] set_size_def kbind_def kret_def kget_def kmod_def Let_def)
    moreover have "p \<noteq> 0" using f(2) unfolding free_ring_simps by (auto simp: inside_def)
    ultimately show ?thesis using False f(2,3,4) by (simp, intro exI [of _ ?t] conjI exI [of _ zs]) simp_all
  qed
qed

lemma ring_upto:
  assumes "linked h (x # xs) (fst x)" "p \<in> fst ` set (x # xs)" "distinct (map fst (x # xs))"
  shows "\<exists>zs. linked h zs (head zs 0) \<and> zs \<noteq> [] \<and> distinct (map fst zs) \<and> p = fst (List.last zs) \<and> h_ptr (h p) = head zs 0 \<and> set zs = set (x # xs)"
proof -
  obtain us y vs where u: "x # xs = us @ y # vs" "p = fst y" using assms(2) by (metis imageE split_list)
  let ?zs = "vs @ us @ [y]"
  have hd: "head (x # xs) 0 = fst x" by simp
  have e: "x # xs = (us @ [y]) @ vs" using u by simp
  then have "linked h ?zs (head ?zs 0)" using linked_rotate [of h "us @ [y]" vs 0] assms(1) hd by (metis append.assoc)
  moreover have "distinct (map fst ?zs)" using assms(3) unfolding e by auto
  moreover have "h_ptr (h p) = head ?zs 0" using calculation(1) u(2) by simp
  ultimately show ?thesis using u e by (intro exI [of _ ?zs]) auto
qed

text \<open>What the caller gets when a block is taken.\<close>

definition took :: "nat \<Rightarrow> heapworld \<Rightarrow> (nat \<times> nat) list \<Rightarrow> nat \<Rightarrow> heapworld \<Rightarrow> bool" where
  "took n s ys q t \<longleftrightarrow> (\<exists>zs. free_ring t zs \<and> area zs = area ys - extent q n) \<and> extent q n \<subseteq> area ys \<and> unat (h_size (hdrs t q)) = n \<and>
     (\<forall>b. b \<notin> area ys \<longrightarrow> b \<noteq> base_at s \<longrightarrow> hdrs t b = hdrs s b) \<and> brk t = brk s \<and> base_at t = base_at s"

lemma malloc_pass:
  assumes R: "free_ring s ys" and n: "unat nunits = n" "0 < n"
  shows "(\<exists>q t. kloop (malloc_step nunits) (freep s, h_ptr (hdrs s (freep s))) s = Ret (q + 16) t \<and> took n s ys q t) \<or>
    (\<forall>y\<in>set ys. snd y < n) \<and> kloop (malloc_step nunits) (freep s, h_ptr (hdrs s (freep s))) s = more_or_stop nunits s"
proof -
  let ?x = "(base_at s, 0 :: nat)"
  note r = R [unfolded free_ring_simps]
  have l: "linked (hdrs s) (?x # ys) (fst ?x)" "freep s \<in> fst ` set (?x # ys)" "distinct (map fst (?x # ys))"
    using r sorted_distinct [of "?x # ys"] by auto
  obtain zs where z: "linked (hdrs s) zs (head zs 0)" "zs \<noteq> []" "distinct (map fst zs)" "freep s = fst (List.last zs)"
    "h_ptr (hdrs s (freep s)) = head zs 0" "set zs = set (?x # ys)" using ring_upto [OF l] by blast
  have hd: "head zs (head zs 0) = head zs 0" by (cases zs) simp_all
  have small: "unat (h_size (hdrs s (fst y))) = snd y" if "y \<in> set (?x # ys)" for y
    using linked_size [OF l(1), of "fst y" "snd y"] that by simp
  from malloc_walk [OF z(1-4), of "freep s" "fst ` set zs" nunits] z(5,6) l(2)
  consider (fits) b p where "b \<in> fst ` set (?x # ys)" "p \<in> fst ` set (?x # ys)" "h_ptr (hdrs s b) = p" "nunits \<le> h_size (hdrs s p)"
      "kloop (malloc_step nunits) (freep s, head zs 0) s = malloc_take nunits b p s"
    | (none) "\<forall>x\<in>set (?x # ys). h_size (hdrs s (fst x)) < nunits" "kloop (malloc_step nunits) (freep s, head zs 0) s = more_or_stop nunits s"
    unfolding hd by (metis subset_refl)
  then show ?thesis
  proof cases
    case fits
    then obtain y where y: "y \<in> set (?x # ys)" "p = fst y" by blast
    have "0 < snd y" using small [OF y(1)] fits(4) n y(2) by (simp add: word_le_nat_alt)
    then have "y \<in> set ys" using y(1) by auto
    from malloc_take_ring [OF R this fits(1) fits(3) [unfolded y(2)] n fits(4) [unfolded y(2)]]
    obtain h q zs' where m: "malloc_take nunits b (fst y) s = Ret (q + 16) (s\<lparr>hdrs := h, freep := b\<rparr>)"
      "free_ring (s\<lparr>hdrs := h, freep := b\<rparr>) zs'" "area zs' = area ys - extent q n" "extent q n \<subseteq> area ys" "unat (h_size (h q)) = n"
      "\<forall>b. b \<notin> area ys \<longrightarrow> b \<noteq> base_at s \<longrightarrow> h b = hdrs s b" by blast
    then have "took n s ys q (s\<lparr>hdrs := h, freep := b\<rparr>)" unfolding took_def by (simp, blast)
    then show ?thesis using m(1) fits(5) y(2) z(5) by auto
  next
    case none
    then have "\<forall>y\<in>set ys. snd y < n" using small n(1) by (metis list.set_intros(2) word_less_nat_alt)
    then show ?thesis using none(2) z(5) by simp
  qed
qed

text \<open>
  From 2 GB on the number of bytes does not fit into the \<open>int\<close> that \<open>sbrk\<close> takes: the kernel is asked to shrink the process, or to add less than
  \<open>morecore\<close> then believes it has.
\<close>
lemma request_wraps:
  "sint (of_nat (((2 ^ 31 + 16 - 1) div 16 + 1) * 16) :: u32) < 0"
  "sint (of_nat (((2 ^ 32 - 1 + 16 - 1) div 16 + 1) * 16) :: u32) = 16"
  by simp_all

section \<open>The allocator as its clients see it\<close>

text \<open>\<open>A\<close> is the set of the addresses of free memory; before the first call there is none.\<close>

definition free_mem :: "heapworld \<Rightarrow> nat set \<Rightarrow> bool" where
  "free_mem s A \<longleftrightarrow>
     (if freep s = 0 then A = {} \<and> 0 < base_at s \<and> base_at s + 16 \<le> brk s \<and> brk s < 2 ^ 36
      else \<exists>ys. free_ring s ys \<and> A = area ys)"

lemma ring_freep: "free_ring s ys \<Longrightarrow> freep s \<noteq> 0"
  unfolding free_ring_simps by (auto simp: inside_def)

lemma free_memI: "free_ring s ys \<Longrightarrow> free_mem s (area ys)"
  unfolding free_mem_def free_ring_simps by (auto simp: inside_def)

lemma malloc_ring:
  assumes R: "free_ring s ys" and a: "answered s" and n: "unat nunits = n" "0 < n" "n * 16 < 2 ^ 31" and room: "brk s + 16 * chunk nunits < 2 ^ 36"
  shows "\<exists>r t. kloop (malloc_step nunits) (freep s, h_ptr (hdrs s (freep s))) s = Ret r t \<and> base_at t = base_at s \<and> freep t \<noteq> 0 \<and>
    (\<forall>b. b \<notin> area ys \<longrightarrow> b \<noteq> base_at s \<longrightarrow> b < brk s \<longrightarrow> hdrs t b = hdrs s b) \<and>
    (if r = 0 then refuses s \<and> brk t = brk s \<and> free_mem t (area ys)
     else \<exists>q. r = q + 16 \<and> brk s \<le> brk t \<and> extent q n \<subseteq> area ys \<union> {brk s..<brk t} \<and>
       free_mem t (area ys \<union> {brk s..<brk t} - extent q n) \<and> unat (h_size (hdrs t q)) = n)"
proof -
  let ?run = "\<lambda>s. kloop (malloc_step nunits) (freep s, h_ptr (hdrs s (freep s))) s"
  have ext: "extent (brk s) k = {brk s..<brk s + 16 * k}" for k by (simp add: extent_def)
  from malloc_pass [OF R n(1,2)]
  consider (now) q t where "?run s = Ret (q + 16) t" "took n s ys q t"
    | (later) "\<forall>y\<in>set ys. snd y < n" "?run s = more_or_stop nunits s" by blast
  then show ?thesis
  proof cases
    case now
    then show ?thesis unfolding took_def
      by (intro exI [of _ "q + 16"] exI [of _ t]) (auto dest: free_memI ring_freep)
  next
    case later
    note mc = morecore_ring [OF R a _ room]
    show ?thesis
    proof (cases "refuses s")
      case True
      then obtain c where c: "morecore nunits s = Ret 0 (s\<lparr>calls := c\<rparr>)" using mc n by auto
      have "free_ring (s\<lparr>calls := c\<rparr>) ys" using R by (simp add: free_ring_simps inside_def)
      then show ?thesis using True later(2) c free_memI ring_freep [OF R]
        by (intro exI [of _ 0] exI [of _ "s\<lparr>calls := c\<rparr>"]) (simp add: more_or_stop_def kbind_def kret_def)
    next
      case False
      then obtain u zs where u: "morecore nunits s = Ret (freep u) u" "freep u \<noteq> 0" "free_ring u zs"
        "area zs = area ys \<union> extent (brk s) (chunk nunits)" "brk u = brk s + 16 * chunk nunits" "base_at u = base_at s"
        "\<forall>b. b \<noteq> brk s \<longrightarrow> b \<noteq> base_at s \<longrightarrow> b \<notin> area ys \<longrightarrow> hdrs u b = hdrs s b" using mc n by auto
      have "\<exists>y\<in>set zs. chunk nunits \<le> snd y"
        by (rule contiguous) (use u(3,4) in \<open>auto simp: free_ring_simps chunk_def\<close>)
      then have "\<not> (\<forall>y\<in>set zs. snd y < n)" using n(1) by (force simp: chunk_def)
      then obtain q t where t: "?run u = Ret (q + 16) t" "took n u zs q t" using malloc_pass [OF u(3) n(1,2)] by blast
      have "?run s = Ret (q + 16) t" using later(2) u(1,2) t(1) by (simp add: more_or_stop_def kbind_def kget_def)
      then show ?thesis using t(2) u(4-7) ext [of "chunk nunits"] unfolding took_def
        by (intro exI [of _ "q + 16"] exI [of _ t]) (auto dest: free_memI ring_freep)
    qed
  qed
qed

definition units :: "u32 \<Rightarrow> nat" where
  "units nbytes = (unat nbytes + 16 - 1) div 16 + 1"

lemma ring_start:
  assumes "0 < base_at s" "base_at s + 16 \<le> brk s" "brk s < 2 ^ 36"
  shows "free_ring (s\<lparr>freep := base_at s, hdrs := (hdrs s)(base_at s := (hdrs s (base_at s))\<lparr>h_ptr := base_at s, h_size := 0\<rparr>)\<rparr>) []"
  using assms by (simp add: free_ring_simps)

lemma malloc_enters:
  assumes "free_mem s A"
  obtains s' ys where "malloc nbytes s = kloop (malloc_step (of_nat (units nbytes))) (freep s', h_ptr (hdrs s' (freep s'))) s'"
    "free_ring s' ys" "A = area ys" "\<forall>b. b \<noteq> base_at s \<longrightarrow> hdrs s' b = hdrs s b" "brk s' = brk s" "base_at s' = base_at s"
    "calls s' = calls s" "reply s' = reply s"
proof (cases "freep s = 0")
  case True
  let ?s = "s\<lparr>freep := base_at s, hdrs := (hdrs s)(base_at s := (hdrs s (base_at s))\<lparr>h_ptr := base_at s, h_size := 0\<rparr>)\<rparr>"
  have "malloc nbytes s = kloop (malloc_step (of_nat (units nbytes))) (freep ?s, h_ptr (hdrs ?s (freep ?s))) ?s"
    using True by (simp add: malloc_def units_def Let_def kwhen_def set_ptr_def set_size_def exec_simps)
  moreover have "free_ring ?s []" using assms True by (intro ring_start) (simp_all add: free_mem_def)
  ultimately show ?thesis using assms True by (intro that [of ?s "[]"]) (simp_all add: free_mem_def)
next
  case False
  then have "malloc nbytes s = kloop (malloc_step (of_nat (units nbytes))) (freep s, h_ptr (hdrs s (freep s))) s"
    by (simp add: malloc_def units_def Let_def kwhen_def exec_simps)
  then show ?thesis using assms False that [of s] by (auto simp: free_mem_def)
qed

lemma unat_units: "unat nbytes < 2 ^ 31 - 64 \<Longrightarrow> unat (of_nat (units nbytes) :: u32) = units nbytes \<and> 0 < units nbytes \<and> units nbytes * 16 < 2 ^ 31"
proof -
  assume a: "unat nbytes < 2 ^ 31 - 64"
  then have b: "units nbytes * 16 < 2 ^ 31" "0 < units nbytes" by (auto simp: units_def)
  then have "units nbytes < 2 ^ 32" by simp
  then show ?thesis using b by (simp add: unat_of_nat)
qed

lemma malloc_hands_out:
  assumes "free_mem s A" "\<forall>n. reply s n \<noteq> None" "unat nbytes < 2 ^ 31 - 64" "brk s < 2 ^ 35"
  shows "\<exists>r t. malloc nbytes s = Ret r t \<and> base_at t = base_at s \<and> freep t \<noteq> 0 \<and>
    (\<forall>b. b \<notin> A \<longrightarrow> b \<noteq> base_at s \<longrightarrow> b < brk s \<longrightarrow> hdrs t b = hdrs s b) \<and>
    (if r = 0 then refuses s \<and> brk t = brk s \<and> free_mem t A
     else \<exists>q. r = q + 16 \<and> {r..<r + unat nbytes} \<subseteq> extent q (units nbytes) \<and> brk s \<le> brk t \<and>
       extent q (units nbytes) \<subseteq> A \<union> {brk s..<brk t} \<and> free_mem t (A \<union> {brk s..<brk t} - extent q (units nbytes)) \<and>
       unat (h_size (hdrs t q)) = units nbytes)"
proof -
  obtain s' ys where s': "malloc nbytes s = kloop (malloc_step (of_nat (units nbytes))) (freep s', h_ptr (hdrs s' (freep s'))) s'"
    "free_ring s' ys" "A = area ys" "\<forall>b. b \<noteq> base_at s \<longrightarrow> hdrs s' b = hdrs s b" "brk s' = brk s" "base_at s' = base_at s"
    "calls s' = calls s" "reply s' = reply s" by (rule malloc_enters [OF assms(1)])
  note u = unat_units [OF assms(3)]
  have room: "brk s' + 16 * chunk (of_nat (units nbytes)) < 2 ^ 36" using u assms(4) s'(5) by (auto simp: chunk_def max_def)
  have "answered s'" using assms(2) s'(8) by (simp add: answered_def)
  note m = malloc_ring [OF s'(2) this conjunct1 [OF u] conjunct1 [OF conjunct2 [OF u]] conjunct2 [OF conjunct2 [OF u]] room,
    folded s'(1,3), unfolded s'(5,6)]
  obtain r t where
    t: "malloc nbytes s = Ret r t" "base_at t = base_at s" "freep t \<noteq> 0" "\<forall>b. b \<notin> A \<longrightarrow> b \<noteq> base_at s \<longrightarrow> b < brk s \<longrightarrow> hdrs t b = hdrs s b"
    "if r = 0 then refuses s' \<and> brk t = brk s \<and> free_mem t A
     else \<exists>q. r = q + 16 \<and> brk s \<le> brk t \<and> extent q (units nbytes) \<subseteq> A \<union> {brk s..<brk t} \<and>
       free_mem t (A \<union> {brk s..<brk t} - extent q (units nbytes)) \<and> unat (h_size (hdrs t q)) = units nbytes"
    using m s'(4) by metis
  have "refuses s' = refuses s" using s'(7,8) by (simp add: refuses_def)
  moreover have "{q + 16..<q + 16 + unat nbytes} \<subseteq> extent q (units nbytes)" for q by (auto simp: extent_def units_def)
  ultimately show ?thesis using t by (intro exI [of _ r] exI [of _ t]) auto
qed

lemma free_takes_back:
  assumes "free_mem s A" "freep s \<noteq> 0" "unat (h_size (hdrs s q)) = n" "inside s (q, n)" "extent q n \<inter> A = {}"
  shows "\<exists>t. free (q + 16) s = Ret () t \<and> free_mem t (A \<union> extent q n) \<and> freep t \<noteq> 0 \<and> brk t = brk s \<and> base_at t = base_at s \<and>
    (\<forall>b. b \<noteq> q \<longrightarrow> b \<noteq> base_at s \<longrightarrow> b \<notin> A \<longrightarrow> hdrs t b = hdrs s b)"
proof -
  obtain ys where ys: "free_ring s ys" "A = area ys" using assms(1,2) by (auto simp: free_mem_def)
  obtain zs h p where f: "free (q + 16) s = Ret () (s\<lparr>hdrs := h, freep := p\<rparr>)" "free_ring (s\<lparr>hdrs := h, freep := p\<rparr>) zs"
    "area zs = area ys \<union> extent q n" "\<forall>a. a \<noteq> q \<longrightarrow> a \<noteq> base_at s \<longrightarrow> a \<notin> area ys \<longrightarrow> h a = hdrs s a"
    using free_ring_free [OF ys(1) assms(3,4)] assms(5) ys(2) by metis
  have "p \<noteq> 0" using f(2) unfolding free_ring_simps by (auto simp: inside_def)
  then show ?thesis using f free_memI [OF f(2)] ys(2) by (intro exI [of _ "s\<lparr>hdrs := h, freep := p\<rparr>"]) simp
qed

lemma free_mem_within:
  assumes "free_mem s A"
  shows "A \<subseteq> {base_at s + 16..<brk s}" "base_at s + 16 \<le> brk s"
  using assms unfolding free_mem_def free_ring_simps
  by (auto simp: area_def extent_def inside_def split: if_splits)

text \<open>
  A program that calls \<open>malloc\<close> and \<open>free\<close> in any order, starting with an untouched allocator; \<open>L\<close> are the blocks it holds, by the address of the
  header and the size. It frees only what it holds.
\<close>

inductive heap_run :: "heapworld \<Rightarrow> (nat \<times> nat) set \<Rightarrow> bool" where
  start: "freep s = 0 \<Longrightarrow> 0 < base_at s \<Longrightarrow> base_at s + 16 \<le> brk s \<Longrightarrow> brk s < 2 ^ 35 \<Longrightarrow> heap_run s {}"
| malloc: "heap_run s L \<Longrightarrow> \<forall>n. reply s n \<noteq> None \<Longrightarrow> unat nbytes < 2 ^ 31 - 64 \<Longrightarrow> brk s < 2 ^ 35 \<Longrightarrow> malloc nbytes s = Ret r t \<Longrightarrow>
    heap_run t (if r = 0 then L else insert (r - 16, units nbytes) L)"
| free: "heap_run s L \<Longrightarrow> (q, n) \<in> L \<Longrightarrow> free (q + 16) s = Ret () t \<Longrightarrow> heap_run t (L - {(q, n)})"

definition holds :: "heapworld \<Rightarrow> nat set \<Rightarrow> (nat \<times> nat) set \<Rightarrow> bool" where
  "holds s A L \<longleftrightarrow> free_mem s A \<and> (L \<noteq> {} \<longrightarrow> freep s \<noteq> 0) \<and>
     (\<forall>(q, n)\<in>L. inside s (q, n) \<and> unat (h_size (hdrs s q)) = n \<and> extent q n \<inter> A = {}) \<and>
     (\<forall>(q, n)\<in>L. \<forall>(p, m)\<in>L. (q, n) \<noteq> (p, m) \<longrightarrow> extent q n \<inter> extent p m = {})"

lemma held_block:
  assumes "holds s A L" "(q, n) \<in> L"
  shows "inside s (q, n)" "unat (h_size (hdrs s q)) = n" "extent q n \<inter> A = {}"
  using assms by (auto simp: holds_def)

lemma held_apart: "holds s A L \<Longrightarrow> (q, n) \<in> L \<Longrightarrow> (p, m) \<in> L \<Longrightarrow> (q, n) \<noteq> (p, m) \<Longrightarrow> extent q n \<inter> extent p m = {}"
  unfolding holds_def by (drule conjunct2, drule conjunct2, drule conjunct2, drule (1) bspec, unfold case_prod_conv, drule (1) bspec) simp

lemma held_header:
  assumes "holds s A L" "(q, n) \<in> L"
  shows "q \<notin> A" "q \<noteq> base_at s" "q < brk s"
proof -
  note b = held_block [OF assms]
  then have "q \<in> extent q n" by (simp add: inside_def extent_def)
  then show "q \<notin> A" using b(3) by blast
  show "q \<noteq> base_at s" "q < brk s" using b(1) by (auto simp: inside_def)
qed

lemma holdsI:
  assumes "free_mem s A" "freep s \<noteq> 0" "\<And>q n. (q, n) \<in> L \<Longrightarrow> inside s (q, n) \<and> unat (h_size (hdrs s q)) = n \<and> extent q n \<inter> A = {}"
    "\<And>q n p m. (q, n) \<in> L \<Longrightarrow> (p, m) \<in> L \<Longrightarrow> (q, n) \<noteq> (p, m) \<Longrightarrow> extent q n \<inter> extent p m = {}"
  shows "holds s A L"
  using assms unfolding holds_def by blast

lemma holds_malloc:
  assumes H: "holds s A L" and a: "\<forall>n. reply s n \<noteq> None" "unat nbytes < 2 ^ 31 - 64" "brk s < 2 ^ 35" and m: "malloc nbytes s = Ret r t"
  shows "\<exists>B. holds t B (if r = 0 then L else insert (r - 16, units nbytes) L)"
proof -
  let ?n = "units nbytes"
  have A: "free_mem s A" using H by (simp add: holds_def)
  obtain t': "base_at t = base_at s" "freep t \<noteq> 0" "\<forall>b. b \<notin> A \<longrightarrow> b \<noteq> base_at s \<longrightarrow> b < brk s \<longrightarrow> hdrs t b = hdrs s b"
    "if r = 0 then refuses s \<and> brk t = brk s \<and> free_mem t A
     else \<exists>q. r = q + 16 \<and> {r..<r + unat nbytes} \<subseteq> extent q ?n \<and> brk s \<le> brk t \<and> extent q ?n \<subseteq> A \<union> {brk s..<brk t} \<and>
       free_mem t (A \<union> {brk s..<brk t} - extent q ?n) \<and> unat (h_size (hdrs t q)) = ?n"
    using malloc_hands_out [OF A a] m by auto
  note t = t'
  have old: "inside t (q, n) \<and> unat (h_size (hdrs t q)) = n \<and> extent q n \<inter> A = {} \<and> q + 16 * n \<le> brk s" if l: "(q, n) \<in> L" "brk s \<le> brk t" for q n
    using held_block [OF H l(1)] held_header [OF H l(1)] t(1,3) l(2) by (auto simp: inside_def)
  show ?thesis
  proof (cases "r = 0")
    case True
    have "holds t A L" by (rule holdsI) (use True t old held_apart [OF H] in auto)
    then show ?thesis using True by auto
  next
    case False
    then obtain q where q: "r = q + 16" "brk s \<le> brk t" "extent q ?n \<subseteq> A \<union> {brk s..<brk t}" "free_mem t (A \<union> {brk s..<brk t} - extent q ?n)"
      "unat (h_size (hdrs t q)) = ?n" using t(4) by auto
    have n: "0 < ?n" by (simp add: units_def)
    have "q \<in> extent q ?n" "q + 16 * ?n - 1 \<in> extent q ?n" using n by (auto simp: extent_def)
    moreover have "extent q ?n \<subseteq> {base_at s + 16..<brk t}"
    proof
      fix x
      assume "x \<in> extent q ?n"
      then have "x \<in> {base_at s + 16..<brk s} \<or> x \<in> {brk s..<brk t}" using q(3) free_mem_within(1) [OF A] by blast
      then show "x \<in> {base_at s + 16..<brk t}" using q(2) free_mem_within(2) [OF A] by auto
    qed
    ultimately have "q \<in> {base_at s + 16..<brk t}" "q + 16 * ?n - 1 \<in> {base_at s + 16..<brk t}" by blast+
    then have new: "inside t (q, ?n)" using n t(1) by (auto simp: inside_def)
    have ap: "extent p m \<inter> (A \<union> {brk s..<brk t}) = {}" if "(p, m) \<in> L" for p m
      using old [OF that q(2)] by (auto simp: extent_def)
    have "holds t (A \<union> {brk s..<brk t} - extent q ?n) (insert (q, ?n) L)"
    proof (rule holdsI [OF q(4) t(2)])
      show "inside t (p, m) \<and> unat (h_size (hdrs t p)) = m \<and> extent p m \<inter> (A \<union> {brk s..<brk t} - extent q ?n) = {}"
        if "(p, m) \<in> insert (q, ?n) L" for p m using that new q(5) old [OF _ q(2)] ap by blast
      show "extent p m \<inter> extent p' m' = {}" if "(p, m) \<in> insert (q, ?n) L" "(p', m') \<in> insert (q, ?n) L" "(p, m) \<noteq> (p', m')" for p m p' m'
        using that ap q(3) held_apart [OF H] by blast
    qed
    then show ?thesis using False q(1) by auto
  qed
qed

lemma holds_free:
  assumes H: "holds s A L" and q: "(q, n) \<in> L"
  shows "\<exists>t. free (q + 16) s = Ret () t \<and> holds t (A \<union> extent q n) (L - {(q, n)})"
proof -
  note b = held_block [OF H q]
  have "free_mem s A" "freep s \<noteq> 0" using H q by (auto simp: holds_def)
  then obtain t where t: "free (q + 16) s = Ret () t" "free_mem t (A \<union> extent q n)" "freep t \<noteq> 0" "brk t = brk s" "base_at t = base_at s"
    "\<forall>b. b \<noteq> q \<longrightarrow> b \<noteq> base_at s \<longrightarrow> b \<notin> A \<longrightarrow> hdrs t b = hdrs s b" using free_takes_back [OF _ _ b(2,1,3)] by blast
  have "holds t (A \<union> extent q n) (L - {(q, n)})"
  proof (rule holdsI [OF t(2,3)])
    fix p m
    assume p: "(p, m) \<in> L - {(q, n)}"
    then have pm: "(p, m) \<in> L" "extent p m \<inter> extent q n = {}" using held_apart [OF H _ q] by blast+
    have ex: "p \<in> extent p m" "q \<in> extent q n" using held_block [OF H pm(1)] b by (auto simp: inside_def extent_def)
    then have "p \<noteq> q" using pm(2) by blast
    then have "hdrs t p = hdrs s p" using t(6) held_header [OF H pm(1)] by simp
    then show "inside t (p, m) \<and> unat (h_size (hdrs t p)) = m \<and> extent p m \<inter> (A \<union> extent q n) = {}"
      using held_block [OF H pm(1)] pm(2) t(4,5) by (auto simp: inside_def)
  next
    show "extent p m \<inter> extent p' m' = {}" if "(p, m) \<in> L - {(q, n)}" "(p', m') \<in> L - {(q, n)}" "(p, m) \<noteq> (p', m')" for p m p' m'
      using that held_apart [OF H] by blast
  qed
  then show ?thesis using t(1) by blast
qed

lemma heap_run_holds: "heap_run s L \<Longrightarrow> \<exists>A. holds s A L"
proof (induction rule: heap_run.induct)
  case (start s)
  then have "holds s {} {}" by (simp add: holds_def free_mem_def)
  then show ?case ..
next
  case (malloc s L nbytes r t)
  then show ?case using holds_malloc by blast
next
  case (free s L q n t)
  then show ?case using holds_free by fastforce
qed

text \<open>
  C28. \<open>malloc\<close> hands out free memory. Let \<open>A\<close> be the free memory, the request below 2 GB and the memory of the process below 32 GB, and let the
  calls to the kernel return. Then \<open>malloc\<close> returns. It answers null only if the kernel refuses to extend the memory, and then the free memory
  is as before. Otherwise the answer points behind the header of a block with room for the requested bytes; the block was free or is new memory
  from the kernel; what remains free is the rest of both; the header has the size of the block, for \<open>free\<close>. No header outside of the free
  memory and the static \<open>base\<close> has changed.
\<close>
theorem malloc_spec:
  assumes "free_mem s A" "\<forall>n. reply s n \<noteq> None" "unat nbytes < 2 ^ 31 - 64" "brk s < 2 ^ 35"
  shows "\<exists>r t. malloc nbytes s = Ret r t \<and> base_at t = base_at s \<and>
    (\<forall>b. b \<notin> A \<longrightarrow> b \<noteq> base_at s \<longrightarrow> b < brk s \<longrightarrow> hdrs t b = hdrs s b) \<and>
    (if r = 0 then refuses s \<and> brk t = brk s \<and> free_mem t A
     else \<exists>q. r = q + 16 \<and> {r..<r + unat nbytes} \<subseteq> extent q (units nbytes) \<and> brk s \<le> brk t \<and>
       extent q (units nbytes) \<subseteq> A \<union> {brk s..<brk t} \<and> free_mem t (A \<union> {brk s..<brk t} - extent q (units nbytes)) \<and>
       unat (h_size (hdrs t q)) = units nbytes)"
  using malloc_hands_out [OF assms] by blast

definition heap_example :: heapworld where
  "heap_example = \<lparr>arriving = (\<lambda>_. []), reply = (\<lambda>_. Some (Ans 0)), calls = [], hdrs = (\<lambda>_. \<lparr>h_ptr = 0, h_size = 0\<rparr>), freep = 0, base_at = 8192, brk = 12288\<rparr>"

theorem malloc_spec_witness:
  "\<exists>r t. malloc 100 heap_example = Ret r t \<and> r \<noteq> 0"
proof -
  have "free_mem heap_example {}" by (simp add: free_mem_def heap_example_def)
  moreover have "\<forall>n. reply heap_example n \<noteq> None" "unat (100 :: u32) < 2 ^ 31 - 64" "brk heap_example < 2 ^ 35" "\<not> refuses heap_example"
    by (simp_all add: heap_example_def refuses_def)
  ultimately show ?thesis using malloc_spec [of heap_example "{}" 100] by (metis (no_types, lifting))
qed

text \<open>
  C29. Blocks do not overlap. In every history of calls of \<open>malloc\<close> and \<open>free\<close>, each block the program holds lies inside the memory of the process above
  \<open>base\<close>, has its size in its header, shares no byte with another block it holds, and can be given back: \<open>free\<close> of it returns.
\<close>
theorem blocks_disjoint:
  assumes "heap_run s L" "(q, n) \<in> L"
  shows "0 < n \<and> base_at s + 16 \<le> q \<and> q + 16 * n \<le> brk s \<and> unat (h_size (hdrs s q)) = n \<and>
    (\<forall>(p, m)\<in>L. (p, m) \<noteq> (q, n) \<longrightarrow> extent p m \<inter> extent q n = {}) \<and> (\<exists>t. free (q + 16) s = Ret () t)"
proof -
  obtain A where H: "holds s A L" using heap_run_holds [OF assms(1)] by blast
  have "\<forall>(p, m)\<in>L. (p, m) \<noteq> (q, n) \<longrightarrow> extent p m \<inter> extent q n = {}" using held_apart [OF H _ assms(2)] by blast
  then show ?thesis using held_block [OF H assms(2)] holds_free [OF H assms(2)] by (auto simp: inside_def)
qed

theorem blocks_disjoint_witness:
  "\<exists>s q. heap_run s {(q, units 100)} \<and> (\<exists>t. free (q + 16) s = Ret () t)"
proof -
  have free: "free_mem heap_example {}" by (simp add: free_mem_def heap_example_def)
  have ok: "\<forall>n. reply heap_example n \<noteq> None" "unat (100 :: u32) < 2 ^ 31 - 64" "brk heap_example < 2 ^ 35" "\<not> refuses heap_example"
    by (simp_all add: heap_example_def refuses_def)
  obtain r t where t: "malloc 100 heap_example = Ret r t" "r \<noteq> 0" using malloc_hands_out [OF free ok(1-3)] ok(4) by (metis (no_types, lifting))
  have "heap_run heap_example {}" by (rule heap_run.start) (simp_all add: heap_example_def)
  from heap_run.malloc [OF this ok(1-3) t(1)] have "heap_run t {(r - 16, units 100)}" using t(2) by simp
  then show ?thesis using blocks_disjoint [of t "{(r - 16, units 100)}" "r - 16" "units 100"] by blast
qed

end
