(* ===== verification/Sh.thy ===== *)
theory Sh
  imports Usys "HOL-Library.Sublist"
begin

text \<open>
  The shell (\<open>user/sh.c\<close>): the parser, which works on the line in place, and the interpreter. A pointer into the line is the text from it up
  to the end \<open>es\<close> of the line, so that pointers compare by the length of what follows. The nodes of a command are values; the parser does not look at
  them again except for the arguments that \<open>parseexec\<close> adds to the node at the core of the redirections (\<open>add_arg\<close>). The allocations of
  the nodes, which the code does not check, are taken to succeed.

  The parsing functions are mutually recursive; they get a bound on the depth of the recursion and answer \<open>None\<close> when it is exceeded. Each round through all of
  them consumes at least a parenthesis, so that four times the length of the line is enough: it is proved that the parser ends on every line.
\<close>

section \<open>Tokens\<close>

type_synonym cursor = "byte list"

definition MAXARGS :: nat where "MAXARGS = 10"

definition whitespace :: "byte list" where "whitespace = [32, 9, 13, 10, 11]"
definition symbols :: "byte list" where "symbols = str ''<|>&;()''"

definition is_in :: "byte list \<Rightarrow> byte \<Rightarrow> bool" where
  "is_in cs c \<longleftrightarrow> u_strchr cs c \<noteq> None"

definition skipws :: "cursor \<Rightarrow> cursor" where
  "skipws s = dropWhile (is_in whitespace) s"

text \<open>The token, its beginning and end, and the cursor behind it.\<close>

definition tok_a :: byte where "tok_a = 97"
definition tok_plus :: byte where "tok_plus = 43"

definition word_end :: "cursor \<Rightarrow> cursor" where
  "word_end s = dropWhile (\<lambda>x. \<not> is_in whitespace x \<and> \<not> is_in symbols x) s"

definition token_at :: "cursor \<Rightarrow> byte \<times> cursor" where
  "token_at q =
     (case q of
        [] \<Rightarrow> (0, q)
      | c # r \<Rightarrow>
          if c = 0 then (0, q)
          else if is_in (str ''|();&<'') c then (c, r)
          else if c = 62 then if first r = 62 then (tok_plus, tl r) else (62, r)
          else (tok_a, word_end q))"

definition gettoken :: "cursor \<Rightarrow> byte \<times> cursor \<times> cursor \<times> cursor" where
  "gettoken s = (let q = skipws s; (ret, eq) = token_at q in (ret, q, eq, skipws eq))"

definition peek :: "cursor \<Rightarrow> string \<Rightarrow> cursor \<times> bool" where
  "peek s toks = (let s = skipws s in (s, first s \<noteq> 0 \<and> is_in (str toks) (first s)))"

section \<open>Commands\<close>

text \<open>The strings of a command are of type \<open>'w\<close>; the parser produces pairs of pointers to their beginning and end.\<close>

datatype 'w scmd =
    EXEC "'w list"
  | REDIR "'w scmd" 'w u32 int
  | PIPE "'w scmd" "'w scmd"
  | LIST "'w scmd" "'w scmd"
  | BACK "'w scmd"

type_synonym token = "cursor \<times> cursor"
type_synonym cmd = "token scmd"

fun add_arg :: "'w \<Rightarrow> 'w scmd \<Rightarrow> 'w scmd" where
  "add_arg a (EXEC as) = EXEC (as @ [a])"
| "add_arg a (REDIR c w m fd) = REDIR (add_arg a c) w m fd"
| "add_arg a c = c"

text \<open>The constructors of the nodes.\<close>

definition execcmd :: cmd where [simp]: "execcmd = EXEC []"
definition redircmd :: "cmd \<Rightarrow> cursor \<Rightarrow> cursor \<Rightarrow> u32 \<Rightarrow> int \<Rightarrow> cmd" where [simp]: "redircmd subcmd file0 efile mode fd = REDIR subcmd (file0, efile) mode fd"
definition pipecmd :: "cmd \<Rightarrow> cmd \<Rightarrow> cmd" where [simp]: "pipecmd left right = PIPE left right"
definition listcmd :: "cmd \<Rightarrow> cmd \<Rightarrow> cmd" where [simp]: "listcmd left right = LIST left right"
definition backcmd :: "cmd \<Rightarrow> cmd" where [simp]: "backcmd subcmd = BACK subcmd"

section \<open>The parser\<close>

type_synonym 'a parsed = "string + 'a \<times> cursor"

lemma skipws_le: "length (skipws s) \<le> length s"
  unfolding skipws_def by (rule length_dropWhile_le)

lemma word_end_le: "length (word_end s) \<le> length s"
  unfolding word_end_def by (rule length_dropWhile_le)

lemma symbols_iff: "is_in symbols c \<longleftrightarrow> is_in (str ''|();&<'') c \<or> c = 62"
  by (auto simp: is_in_def symbols_def str_def)

lemma token_at_le: "token_at q = (t, e) \<Longrightarrow> length e \<le> length q"
  using word_end_le [of q] by (cases q) (auto simp: token_at_def split: if_splits)

text \<open>A token other than the end of the line takes something away.\<close>

lemma token_at_less:
  assumes "token_at (skipws s) = (t, e)" "t \<noteq> 0"
  shows "length e < length (skipws s)"
proof -
  obtain c r where c: "skipws s = c # r" using assms by (cases "skipws s") (auto simp: token_at_def)
  then have "\<not> is_in whitespace c" unfolding skipws_def by (metis hd_dropWhile list.distinct(1) list.sel(1))
  then show ?thesis using assms c word_end_le [of r] symbols_iff [of c]
    by (auto simp: token_at_def word_end_def split: if_splits)
qed

lemma gettoken_eq: "gettoken s = (t, q, e, s') \<longleftrightarrow> q = skipws s \<and> token_at q = (t, e) \<and> s' = skipws e"
  by (auto simp: gettoken_def Let_def split: prod.splits)

lemma gettoken_le: "gettoken s = (t, q, e, s') \<Longrightarrow> length s' \<le> length s"
  using token_at_le [of "skipws s" t e] skipws_le [of s] skipws_le [of e] by (auto simp: gettoken_eq)

lemma gettoken_less: "gettoken s = (t, q, e, s') \<Longrightarrow> t \<noteq> 0 \<Longrightarrow> length s' < length s"
  using token_at_less [of s t e] skipws_le [of s] skipws_le [of e] by (auto simp: gettoken_eq)

lemma peek_eq: "peek s toks = (s', b) \<longleftrightarrow> s' = skipws s \<and> b = (first s' \<noteq> 0 \<and> is_in (str toks) (first s'))"
  by (auto simp: peek_def Let_def)

lemma peek_le: "peek s toks = (s', b) \<Longrightarrow> length s' \<le> length s"
  using skipws_le [of s] by (auto simp: peek_eq)

lemma token_nonzero: "first q \<noteq> 0 \<Longrightarrow> fst (token_at q) \<noteq> 0"
  by (cases q) (auto simp: token_at_def first_def tok_a_def tok_plus_def)

lemma skipws_idem [simp]: "skipws (skipws s) = skipws s"
  by (simp add: skipws_def)

lemma peek_gettoken_less:
  assumes "peek s toks = (s1, True)" "gettoken s1 = (t, q, e, s2)"
  shows "length s2 < length s"
proof -
  have s1: "s1 = skipws s" "first s1 \<noteq> 0" using assms(1) by (auto simp: peek_eq)
  then have "t \<noteq> 0" using token_nonzero [of s1] assms(2) by (auto simp: gettoken_eq)
  then show ?thesis using gettoken_less [OF assms(2)] skipws_le [of s] s1 by simp
qed

text \<open>The redirections that follow.\<close>

function parseredirs :: "cmd \<Rightarrow> cursor \<Rightarrow> cmd parsed" where
  "parseredirs cmd s =
     (case peek s ''<>'' of (s1, yes) \<Rightarrow>
      if \<not> yes then Inr (cmd, s1)
      else case gettoken s1 of (tok, _, _, s2) \<Rightarrow>
        case gettoken s2 of (t, q, eq, s3) \<Rightarrow>
          if t \<noteq> tok_a then Inl ''missing file for redirection''
          else parseredirs
            (if tok = 60 then redircmd cmd q eq O_RDONLY 0
             else if tok = 62 then redircmd cmd q eq (O_WRONLY OR O_CREATE OR O_TRUNC) 1
             else if tok = tok_plus then redircmd cmd q eq (O_WRONLY OR O_CREATE) 1
             else cmd) s3)"
  by pat_completeness auto

termination parseredirs
proof (relation "measure (\<lambda>(cmd, s). length s)", simp)
  fix cmd :: cmd and s s1 yes tok x1 y x2 z s2 t x3 q x4 eq s3
  assume "(s1, yes) = peek s ''<>''" "\<not> \<not> yes" "(tok, x1) = gettoken s1" "(y, x2) = x1" "(z, s2) = x2" "(t, x3) = gettoken s2" "(q, x4) = x3" "(eq, s3) = x4"
  then have "peek s ''<>'' = (s1, True)" "gettoken s1 = (tok, y, z, s2)" "gettoken s2 = (t, q, eq, s3)" by auto
  then have "length s3 < length s" using peek_gettoken_less [of s _ s1 tok y z s2] gettoken_le [of s2 t q eq s3] by fastforce
  then show "((if tok = 60 then redircmd cmd q eq O_RDONLY 0
             else if tok = 62 then redircmd cmd q eq (O_WRONLY OR O_CREATE OR O_TRUNC) 1
             else if tok = tok_plus then redircmd cmd q eq (O_WRONLY OR O_CREATE) 1
             else cmd, s3), (cmd, s)) \<in> measure (\<lambda>(cmd, s). length s)" by simp
qed

declare parseredirs.simps [simp del]

lemma parseredirs_le: "parseredirs cmd s = Inr (cmd', s') \<Longrightarrow> length s' \<le> length s"
proof (induction cmd s rule: parseredirs.induct)
  case (1 cmd s)
  obtain s1 yes where p: "peek s ''<>'' = (s1, yes)" by force
  obtain tok x y s2 where g: "gettoken s1 = (tok, x, y, s2)" by (metis prod_cases4)
  obtain t q eq s3 where h: "gettoken s2 = (t, q, eq, s3)" by (metis prod_cases4)
  show ?case
  proof (cases yes)
    case False
    then show ?thesis using 1(2) peek_le [OF p] by (auto simp: parseredirs.simps [of cmd s] p)
  next
    case True
    then have "length s3 \<le> length s" using peek_gettoken_less [of s "''<>''" s1] p g gettoken_le [OF h] by fastforce
    moreover have "length s' \<le> length s3"
      using 1(1) [OF p [symmetric] _ g [symmetric] refl refl h [symmetric] refl refl] 1(2) True
      by (auto simp: parseredirs.simps [of cmd s] p g h split: if_splits)
    ultimately show ?thesis by simp
  qed
qed

text \<open>The loop of \<open>parseexec\<close>.\<close>

function parse_args :: "cmd \<Rightarrow> nat \<Rightarrow> cursor \<Rightarrow> cmd parsed" where
  "parse_args cmd argc s =
     (case peek s ''|)&;'' of (s1, stop) \<Rightarrow>
      if stop then Inr (cmd, s1)
      else case gettoken s1 of (tok, q, eq, s2) \<Rightarrow>
        if tok = 0 then Inr (cmd, s2)
        else if tok \<noteq> tok_a then Inl ''syntax''
        else let cmd = add_arg (q, eq) cmd; argc = argc + 1 in
          if argc \<ge> MAXARGS then Inl ''too many args''
          else case parseredirs cmd s2 of
            Inl e \<Rightarrow> Inl e
          | Inr r \<Rightarrow> parse_args (fst r) argc (snd r))"
  by pat_completeness auto

termination parse_args
proof (relation "measure (\<lambda>(cmd, argc, s). length s)", simp)
  fix cmd cmd' :: cmd and argc argc' :: nat and s s1 stop tok x1 q x2 eq s2 r
  assume a: "(s1, stop) = peek s ''|)&;''" "(tok, x1) = gettoken s1" "(q, x2) = x1" "(eq, s2) = x2" "tok \<noteq> 0" "parseredirs cmd' s2 = Inr r"
  then have "gettoken s1 = (tok, q, eq, s2)" by auto
  then have "length s2 < length s" using gettoken_less [of s1 tok q eq s2] a(5) peek_le [of s _ s1 stop] a(1) by fastforce
  moreover have "length (snd r) \<le> length s2" using parseredirs_le [of cmd' s2 "fst r" "snd r"] a(6) by simp
  ultimately show "((fst r, argc', snd r), (cmd, argc, s)) \<in> measure (\<lambda>(cmd, argc, s). length s)" by simp
qed

declare parse_args.simps [simp del]

text \<open>The loop of \<open>parseline\<close>.\<close>

function parse_backs :: "cmd \<Rightarrow> cursor \<Rightarrow> cmd \<times> cursor" where
  "parse_backs cmd s =
     (case peek s ''&'' of (s1, yes) \<Rightarrow>
      if yes then case gettoken s1 of (_, _, _, s2) \<Rightarrow> parse_backs (backcmd cmd) s2 else (cmd, s1))"
  by pat_completeness auto

termination parse_backs
proof (relation "measure (\<lambda>(cmd, s). length s)", simp)
  fix cmd :: cmd and s s1 yes x a x1 b x2 s2
  assume "(s1, yes) = peek s ''&''" yes "(a, x1) = gettoken s1" "(b, x2) = x1" "(x, s2) = x2"
  then have "peek s ''&'' = (s1, True)" "gettoken s1 = (a, b, x, s2)" by auto
  then show "((backcmd cmd, s2), (cmd, s)) \<in> measure (\<lambda>(cmd, s). length s)" using peek_gettoken_less by fastforce
qed

declare parse_backs.simps [simp del]

text \<open>Going on with what has been parsed; a failure stays one.\<close>

definition andthen :: "cmd parsed option \<Rightarrow> (cmd \<Rightarrow> cursor \<Rightarrow> cmd parsed option) \<Rightarrow> cmd parsed option" where
  "andthen p f = (case p of None \<Rightarrow> None | Some (Inl e) \<Rightarrow> Some (Inl e) | Some (Inr (c, s)) \<Rightarrow> f c s)"

fun parseline :: "nat \<Rightarrow> cursor \<Rightarrow> cmd parsed option"
and parsepipe :: "nat \<Rightarrow> cursor \<Rightarrow> cmd parsed option"
and parseexec :: "nat \<Rightarrow> cursor \<Rightarrow> cmd parsed option"
and parseblock :: "nat \<Rightarrow> cursor \<Rightarrow> cmd parsed option" where
  "parseline 0 s = None"
| "parseline (Suc n) s =
     andthen (parsepipe n s) (\<lambda>cmd s.
     case parse_backs cmd s of (cmd, s) \<Rightarrow>
     case peek s '';'' of (s, yes) \<Rightarrow>
     if yes then case gettoken s of (_, _, _, s) \<Rightarrow> andthen (parseline n s) (\<lambda>r s. Some (Inr (listcmd cmd r, s)))
     else Some (Inr (cmd, s)))"
| "parsepipe 0 s = None"
| "parsepipe (Suc n) s =
     andthen (parseexec n s) (\<lambda>cmd s.
     case peek s ''|'' of (s, yes) \<Rightarrow>
     if yes then case gettoken s of (_, _, _, s) \<Rightarrow> andthen (parsepipe n s) (\<lambda>r s. Some (Inr (pipecmd cmd r, s)))
     else Some (Inr (cmd, s)))"
| "parseexec 0 s = None"
| "parseexec (Suc n) s =
     (case peek s ''('' of (s, yes) \<Rightarrow>
      if yes then parseblock n s
      else case parseredirs execcmd s of Inl e \<Rightarrow> Some (Inl e) | Inr (ret, s) \<Rightarrow> Some (parse_args ret 0 s))"
| "parseblock 0 s = None"
| "parseblock (Suc n) s =
     (case peek s ''('' of (s, yes) \<Rightarrow>
      if \<not> yes then Some (Inl ''parseblock'')
      else case gettoken s of (_, _, _, s) \<Rightarrow>
        andthen (parseline n s) (\<lambda>cmd s.
        case peek s '')'' of (s, yes) \<Rightarrow>
        if \<not> yes then Some (Inl ''syntax - missing )'')
        else case gettoken s of (_, _, _, s) \<Rightarrow> Some (parseredirs cmd s)))"

section \<open>The strings of a command\<close>

text \<open>
  \<open>buf\<close> is the line with the NUL behind it, \<open>es\<close> the length of the line: a pointer that is followed by \<open>n\<close> characters is at
  position \<open>es - n\<close>.
\<close>

definition cut :: "nat \<Rightarrow> cursor \<Rightarrow> byte list \<Rightarrow> byte list" where
  "cut es e buf = buf[es - length e := 0]"

fun nulterminate :: "nat \<Rightarrow> cmd \<Rightarrow> byte list \<Rightarrow> byte list" where
  "nulterminate es (EXEC as) buf = fold (\<lambda>w. cut es (snd w)) as buf"
| "nulterminate es (REDIR c w m fd) buf = cut es (snd w) (nulterminate es c buf)"
| "nulterminate es (PIPE l r) buf = nulterminate es r (nulterminate es l buf)"
| "nulterminate es (LIST l r) buf = nulterminate es r (nulterminate es l buf)"
| "nulterminate es (BACK c) buf = nulterminate es c buf"

definition cstring :: "nat \<Rightarrow> byte list \<Rightarrow> cursor \<Rightarrow> byte list" where
  "cstring es buf q = takeWhile (\<lambda>c. c \<noteq> 0) (drop (es - length q) buf)"

section \<open>Running commands\<close>

definition sh_panic :: "byte list \<Rightarrow> ('z, 'a) U" where
  "sh_panic s = kbind (u_fprintf 2 (''%s'' @ newline) [VStr (Some s)]) (\<lambda>_. u_exit 1)"

definition fork1 :: "('z, int) U" where
  "fork1 = kbind (ucall ScFork) (\<lambda>pid. if pid = - 1 then sh_panic (str ''fork'') else kret pid)"

definition do_call :: "scall \<Rightarrow> ('z, unit) U" where
  "do_call c = kbind (ucall c) (\<lambda>_. kret ())"

text \<open>The parsed command with the line it points into; \<open>es\<close> as above.\<close>

definition parsecmd :: "byte list \<Rightarrow> ('z, cmd \<times> byte list) U" where
  "parsecmd s =
     (let es = length s in
      case parseline (4 * es + 4) s of
        None \<Rightarrow> (\<lambda>_. Spin)
      | Some (Inl e) \<Rightarrow> sh_panic (str e)
      | Some (Inr (cmd, s')) \<Rightarrow>
          let s' = fst (peek s' []) in
          if s' \<noteq> [] then kbind (u_fprintf 2 (''leftovers: %s'' @ newline) [VStr (Some s')]) (\<lambda>_. sh_panic (str ''syntax''))
          else kret (cmd, nulterminate es cmd (s @ [0])))"

primrec runcmd :: "nat \<Rightarrow> byte list \<Rightarrow> cmd \<Rightarrow> ('z, unit) U" where
  "runcmd es buf (EXEC as) =
     (let argv = map (cstring es buf \<circ> fst) as in
      if argv = [] then u_exit 1
      else kbind (ucall (ScExec (hd argv) argv)) (\<lambda>_.
        kbind (u_fprintf 2 (''exec %s failed'' @ newline) [VStr (Some (hd argv))]) (\<lambda>_. u_exit 0)))"
| "runcmd es buf (REDIR c w mode fd) =
     (let f = cstring es buf (fst w) in
      kbind (do_call (ScClose fd)) (\<lambda>_.
      kbind (ucall (ScOpen f mode)) (\<lambda>r.
      if r < 0 then kbind (u_fprintf 2 (''open %s failed'' @ newline) [VStr (Some f)]) (\<lambda>_. u_exit 1)
      else kbind (runcmd es buf c) (\<lambda>_. u_exit 0))))"
| "runcmd es buf (LIST l r) =
     kbind fork1 (\<lambda>pid.
     kbind (if pid = 0 then runcmd es buf l else kret ()) (\<lambda>_.
     kbind (do_call ScWait) (\<lambda>_. kbind (runcmd es buf r) (\<lambda>_. u_exit 0))))"
| "runcmd es buf (PIPE l r) =
     kbind u_pipe (\<lambda>p.
     case p of
       None \<Rightarrow> sh_panic (str ''pipe'')
     | Some (p0, p1) \<Rightarrow>
         kbind fork1 (\<lambda>pid.
         kbind (if pid = 0
           then kbind (kseq [do_call (ScClose 1), do_call (ScDup p1), do_call (ScClose p0), do_call (ScClose p1)]) (\<lambda>_. runcmd es buf l)
           else kret ()) (\<lambda>_.
         kbind fork1 (\<lambda>pid.
         kbind (if pid = 0
           then kbind (kseq [do_call (ScClose 0), do_call (ScDup p0), do_call (ScClose p0), do_call (ScClose p1)]) (\<lambda>_. runcmd es buf r)
           else kret ()) (\<lambda>_.
         kbind (kseq [do_call (ScClose p0), do_call (ScClose p1), do_call ScWait, do_call ScWait]) (\<lambda>_. u_exit 0))))))"
| "runcmd es buf (BACK c) =
     kbind fork1 (\<lambda>pid. kbind (if pid = 0 then runcmd es buf c else kret ()) (\<lambda>_. u_exit 0))"

text \<open>The line that \<open>getcmd\<close> leaves in its buffer of 100 bytes, or nothing at the end of the input.\<close>

definition getcmd :: "nat \<Rightarrow> ('z, byte list option) U" where
  "getcmd nbuf =
     kbind (u_write 2 (str ''$ '')) (\<lambda>_.
     kbind (u_gets nbuf) (\<lambda>buf.
     let s = takeWhile (\<lambda>c. c \<noteq> 0) buf in kret (if s = [] then None else Some s)))"

definition sh_open :: "('z, unit) U" where
  "sh_open = kloop (\<lambda>_.
     kbind (ucall (ScOpen (str ''console'') O_RDWR)) (\<lambda>fd.
     if \<not> fd \<ge> 0 then kret (Inr ())
     else if fd \<ge> 3 then kbind (do_call (ScClose fd)) (\<lambda>_. kret (Inr ()))
     else kret (Inl ()))) ()"

definition sh_line :: "byte list \<Rightarrow> ('z, unit) U" where
  "sh_line s =
     (if take 3 s = str ''cd ''
      then let dir = drop 3 (butlast s) in
        kbind (ucall (ScChdir dir)) (\<lambda>r. kwhen (r < 0) (u_fprintf 2 (''cannot cd %s'' @ newline) [VStr (Some dir)]))
      else kbind fork1 (\<lambda>pid.
        kbind (if pid = 0 then kbind (parsecmd s) (\<lambda>(cmd, buf). runcmd (length s) buf cmd) else kret ()) (\<lambda>_. do_call ScWait)))"

definition sh_main :: "('z, 'a) U" where
  "sh_main =
     kbind sh_open (\<lambda>_.
     kbind (kloop (\<lambda>_.
       kbind (getcmd 100) (\<lambda>r.
       case r of None \<Rightarrow> kret (Inr ()) | Some s \<Rightarrow> kbind (sh_line s) (\<lambda>_. kret (Inl ())))) ()) (\<lambda>_. u_exit 0))"

section \<open>The parser ends\<close>

lemma parse_args_le: "parse_args cmd argc s = Inr (cmd', s') \<Longrightarrow> length s' \<le> length s"
proof (induction cmd argc s rule: parse_args.induct)
  case (1 cmd argc s)
  obtain s1 stop where p: "peek s ''|)&;'' = (s1, stop)" by force
  obtain tok q eq s2 where g: "gettoken s1 = (tok, q, eq, s2)" by (metis prod_cases4)
  have le: "length s1 \<le> length s" "length s2 \<le> length s1" using peek_le [OF p] gettoken_le [OF g] by simp_all
  show ?case
  proof (cases "stop \<or> tok = 0")
    case True
    then show ?thesis using 1(2) le by (cases stop) (auto simp: parse_args.simps [of cmd argc s] p g)
  next
    case False
    let ?c = "add_arg (q, eq) cmd"
    obtain r where r: "parseredirs ?c s2 = Inr r" "parse_args (fst r) (argc + 1) (snd r) = Inr (cmd', s')" "tok = tok_a" "\<not> MAXARGS \<le> argc + 1"
      using 1(2) False by (auto simp: parse_args.simps [of cmd argc s] p g Let_def split: if_splits sum.splits)
    have "length s' \<le> length (snd r)"
      using 1(1) [OF p [symmetric] _ g [symmetric] refl refl _ _ refl refl _ r(1) r(2)] False r(3,4) by simp
    moreover have "length (snd r) \<le> length s2" using parseredirs_le [of ?c s2 "fst r" "snd r"] r(1) by simp
    ultimately show ?thesis using le by simp
  qed
qed

lemma parse_backs_le: "length (snd (parse_backs cmd s)) \<le> length s"
proof (induction cmd s rule: parse_backs.induct)
  case (1 cmd s)
  obtain s1 yes where p: "peek s ''&'' = (s1, yes)" by force
  obtain a b c s2 where g: "gettoken s1 = (a, b, c, s2)" by (metis prod_cases4)
  show ?case
  proof (cases yes)
    case True
    then have "length s2 < length s" using peek_gettoken_less [of s "''&''" s1] p g by simp
    then show ?thesis using 1 [OF p [symmetric] True g [symmetric] refl refl] True by (simp add: parse_backs.simps [of cmd s] p g)
  next
    case False
    then show ?thesis using peek_le [OF p] by (simp add: parse_backs.simps [of cmd s] p)
  qed
qed

lemma if_negated: "(if \<not> b then x else y) = (if b then y else x)"
  by simp

definition settles :: "cmd parsed option \<Rightarrow> nat \<Rightarrow> bool" where
  "settles p n \<longleftrightarrow> (case p of None \<Rightarrow> False | Some (Inl e) \<Rightarrow> True | Some (Inr (c, s)) \<Rightarrow> length s \<le> n)"

lemma settles_simps [simp]:
  "\<not> settles None n" "settles (Some (Inl e)) n" "settles (Some (Inr (c, s))) n \<longleftrightarrow> length s \<le> n"
  by (simp_all add: settles_def)

lemma settles_andthen:
  assumes "settles p n" "\<And>c s. length s \<le> n \<Longrightarrow> settles (f c s) m"
  shows "settles (andthen p f) m"
proof -
  consider e where "p = Some (Inl e)" | c s where "p = Some (Inr (c, s))" "length s \<le> n"
    using assms(1) by (auto simp: settles_def split: option.splits sum.splits)
  then show ?thesis using assms(2) by cases (simp_all add: andthen_def)
qed

lemma settles_redirs: "length s \<le> n \<Longrightarrow> settles (Some (parseredirs c s)) n"
  using parseredirs_le [of c s] by (cases "parseredirs c s") (auto simp: settles_def dest: le_trans)

lemma settles_args: "length s \<le> n \<Longrightarrow> settles (Some (parse_args c k s)) n"
  using parse_args_le [of c k s] by (cases "parse_args c k s") (auto simp: settles_def dest: le_trans)

lemma settles_mono: "settles p n \<Longrightarrow> n \<le> m \<Longrightarrow> settles p m"
  by (auto simp: settles_def split: option.splits sum.splits prod.splits)

text \<open>Continuing behind a symbol that has been seen.\<close>

lemma settles_behind:
  assumes "\<And>s'. length s' < length s \<Longrightarrow> settles (f s') m" "\<And>s'. length s' \<le> length s \<Longrightarrow> settles (g s') m"
  shows "settles (case peek s toks of (s1, yes) \<Rightarrow> if yes then case gettoken s1 of (_, _, _, s2) \<Rightarrow> f s2 else g s1) m"
proof -
  obtain s1 yes where p: "peek s toks = (s1, yes)" by force
  obtain a b c s2 where g: "gettoken s1 = (a, b, c, s2)" by (metis prod_cases4)
  show ?thesis using assms peek_gettoken_less [of s toks s1] peek_le [OF p] p g by (cases yes) auto
qed

lemma parser_settles:
  "(\<forall>s. 4 * length s + 4 \<le> n \<longrightarrow> settles (parseline n s) (length s)) \<and> (\<forall>s. 4 * length s + 3 \<le> n \<longrightarrow> settles (parsepipe n s) (length s)) \<and>
   (\<forall>s. 4 * length s + 2 \<le> n \<longrightarrow> settles (parseexec n s) (length s)) \<and> (\<forall>s. 4 * length s + 1 \<le> n \<longrightarrow> settles (parseblock n s) (length s))"
proof (induction n)
  case (Suc n)
  note line = Suc.IH [THEN conjunct1, rule_format] and pipe = Suc.IH [THEN conjunct2, THEN conjunct1, rule_format]
    and exec = Suc.IH [THEN conjunct2, THEN conjunct2, THEN conjunct1, rule_format]
    and block = Suc.IH [THEN conjunct2, THEN conjunct2, THEN conjunct2, rule_format]
  have "settles (parseline (Suc n) s) (length s)" if n: "4 * length s + 4 \<le> Suc n" for s
  proof -
    have "settles (case peek t '';'' of (t, yes) \<Rightarrow> if yes then case gettoken t of (_, _, _, t) \<Rightarrow> andthen (parseline n t) (\<lambda>r s. Some (Inr (listcmd c r, s)))
       else Some (Inr (c, t))) (length s)" if "length t \<le> length s" for c t
    proof (rule settles_behind)
      show "settles (andthen (parseline n u) (\<lambda>r s. Some (Inr (listcmd c r, s)))) (length s)" if "length u < length t" for u
        using settles_andthen [OF line [of u]] that \<open>length t \<le> length s\<close> n by fastforce
    qed (use that in simp)
    moreover have "length (snd (parse_backs c t)) \<le> length s" if "length t \<le> length s" for c t
      using parse_backs_le [of c t] that by simp
    ultimately show ?thesis using settles_andthen [OF pipe [of s]] n by (simp add: case_prod_unfold)
  qed
  moreover have "settles (parsepipe (Suc n) s) (length s)" if n: "4 * length s + 3 \<le> Suc n" for s
  proof -
    have "settles (case peek t ''|'' of (t, yes) \<Rightarrow> if yes then case gettoken t of (_, _, _, t) \<Rightarrow> andthen (parsepipe n t) (\<lambda>r s. Some (Inr (pipecmd c r, s)))
       else Some (Inr (c, t))) (length s)" if "length t \<le> length s" for c t
    proof (rule settles_behind)
      show "settles (andthen (parsepipe n u) (\<lambda>r s. Some (Inr (pipecmd c r, s)))) (length s)" if "length u < length t" for u
        using settles_andthen [OF pipe [of u]] that \<open>length t \<le> length s\<close> n by fastforce
    qed (use that in simp)
    then show ?thesis using settles_andthen [OF exec [of s]] n by simp
  qed
  moreover have "settles (parseexec (Suc n) s) (length s)" if n: "4 * length s + 2 \<le> Suc n" for s
  proof -
    obtain s1 yes where p: "peek s ''('' = (s1, yes)" by force
    have le: "length s1 \<le> length s" by (rule peek_le [OF p])
    then have "settles (parseblock n s1) (length s)" using settles_mono [OF block [of s1]] n by simp
    moreover have "length s2 \<le> length s" if "parseredirs execcmd s1 = Inr (c, s2)" for c s2 using parseredirs_le [OF that] le by simp
    ultimately show ?thesis by (auto simp: p intro: settles_args split: sum.splits)
  qed
  moreover have "settles (parseblock (Suc n) s) (length s)" if n: "4 * length s + 1 \<le> Suc n" for s
  proof -
    have close: "settles (case peek t '')'' of (t, yes) \<Rightarrow> if yes then case gettoken t of (_, _, _, t) \<Rightarrow> Some (parseredirs c t)
       else Some (Inl ''syntax - missing )'')) (length s)" if "length t \<le> length s" for c t
      by (rule settles_behind) (use that in \<open>auto intro: settles_redirs\<close>)
    have "settles (case peek s ''('' of (s1, yes) \<Rightarrow> if yes then case gettoken s1 of (_, _, _, s2) \<Rightarrow> andthen (parseline n s2) (\<lambda>c t.
       case peek t '')'' of (t, yes) \<Rightarrow> if yes then case gettoken t of (_, _, _, t) \<Rightarrow> Some (parseredirs c t)
       else Some (Inl ''syntax - missing )'')) else Some (Inl ''parseblock'')) (length s)"
      by (rule settles_behind, rule settles_andthen [OF line]) (use n close in auto)
    then show ?thesis unfolding parseblock.simps if_negated .
  qed
  ultimately show ?case by blast
qed simp

section \<open>The tokens of a command\<close>

definition word_char :: "byte \<Rightarrow> bool" where
  "word_char c \<longleftrightarrow> \<not> is_in whitespace c \<and> \<not> is_in symbols c"

text \<open>A word of the line with the pointers to its ends: as long as possible.\<close>

definition good_token :: "byte list \<Rightarrow> token \<Rightarrow> bool" where
  "good_token s t \<longleftrightarrow> (\<exists>w. fst t = w @ snd t \<and> w \<noteq> [] \<and> (\<forall>c\<in>set w. word_char c) \<and> (snd t = [] \<or> \<not> word_char (hd (snd t)))) \<and> suffix (fst t) s"

definition redir_modes :: "(u32 \<times> int) set" where
  "redir_modes = {(O_RDONLY, 0), (O_WRONLY OR O_CREATE OR O_TRUNC, 1), (O_WRONLY OR O_CREATE, 1)}"

primrec wf_cmd :: "('w \<Rightarrow> bool) \<Rightarrow> 'w scmd \<Rightarrow> bool" where
  "wf_cmd P (EXEC as) \<longleftrightarrow> length as < MAXARGS \<and> (\<forall>a\<in>set as. P a)"
| "wf_cmd P (REDIR c w m fd) \<longleftrightarrow> wf_cmd P c \<and> P w \<and> (m, fd) \<in> redir_modes"
| "wf_cmd P (PIPE l r) \<longleftrightarrow> wf_cmd P l \<and> wf_cmd P r"
| "wf_cmd P (LIST l r) \<longleftrightarrow> wf_cmd P l \<and> wf_cmd P r"
| "wf_cmd P (BACK c) \<longleftrightarrow> wf_cmd P c"

text \<open>Redirections of a simple command with \<open>k\<close> arguments.\<close>

fun simple :: "'w scmd \<Rightarrow> nat \<Rightarrow> bool" where
  "simple (EXEC as) k \<longleftrightarrow> length as = k"
| "simple (REDIR c w m fd) k \<longleftrightarrow> simple c k"
| "simple c k \<longleftrightarrow> False"

lemma add_arg_wf: "simple c k \<Longrightarrow> Suc k < MAXARGS \<Longrightarrow> wf_cmd P c \<Longrightarrow> P a \<Longrightarrow> wf_cmd P (add_arg a c) \<and> simple (add_arg a c) (Suc k)"
  by (induction a c rule: add_arg.induct) auto

lemma suffix_skipws: "suffix (skipws s) s"
  by (simp add: skipws_def suffix_dropWhile)

lemma suffix_token_at: "token_at q = (t, e) \<Longrightarrow> suffix e q"
  unfolding token_at_def word_end_def
  by (auto simp: suffix_dropWhile suffix_ConsI suffix_tl split: list.splits if_splits intro: suffix_order.trans [OF suffix_tl])

lemma gettoken_suffix: "gettoken s = (t, q, e, s') \<Longrightarrow> suffix q s \<and> suffix s' s"
  using suffix_token_at suffix_skipws by (metis gettoken_eq suffix_order.trans)

lemma gettoken_word:
  assumes "gettoken s = (tok_a, q, e, s')" "suffix s txt0"
  shows "good_token txt0 (q, e)"
proof -
  have q: "q = skipws s" "token_at q = (tok_a, e)" using assms(1) by (auto simp: gettoken_eq)
  then have "q \<noteq> []" by (auto simp: token_at_def tok_a_def)
  then obtain c r where c: "q = c # r" by (cases q) simp
  have ws: "\<not> is_in whitespace c" using q(1) c unfolding skipws_def by (metis hd_dropWhile list.distinct(1) list.sel(1))
  have e: "e = word_end q" "\<not> is_in symbols c"
    using q(2) c by (auto simp: token_at_def tok_a_def tok_plus_def symbols_def is_in_def str_def split: if_splits)
  define w where "w = takeWhile word_char q"
  have we: "q = w @ e" unfolding w_def e(1) word_end_def word_char_def by (rule takeWhile_dropWhile_id [symmetric])
  have "w \<noteq> []" unfolding w_def c using ws e(2) by (simp add: word_char_def)
  moreover have "\<forall>c\<in>set w. word_char c" unfolding w_def by (auto dest: set_takeWhileD)
  moreover have "e = [] \<or> \<not> word_char (hd e)"
    unfolding e(1) word_end_def word_char_def by (metis (mono_tags, lifting) hd_dropWhile)
  moreover have "suffix q txt0" using gettoken_suffix [OF assms(1)] assms(2) by (meson suffix_order.trans)
  ultimately show ?thesis using we by (auto simp: good_token_def)
qed

lemma peek_suffix: "peek s toks = (s', b) \<Longrightarrow> suffix s' s"
  by (simp add: peek_eq suffix_skipws)

lemma parseredirs_wf:
  assumes "parseredirs c s = Inr (c', s')" "suffix s l" "wf_cmd (good_token l) c"
  shows "wf_cmd (good_token l) c' \<and> suffix s' l \<and> (\<forall>k. simple c k \<longrightarrow> simple c' k)"
  using assms
proof (induction c s arbitrary: c' s' rule: parseredirs.induct)
  case (1 c s)
  obtain s1 yes where p: "peek s ''<>'' = (s1, yes)" by force
  obtain tok x y s2 where g: "gettoken s1 = (tok, x, y, s2)" by (metis prod_cases4)
  obtain t q eq s3 where h: "gettoken s2 = (t, q, eq, s3)" by (metis prod_cases4)
  have suf: "suffix s1 l" "suffix s2 l" "suffix s3 l"
    using peek_suffix [OF p] gettoken_suffix [OF g] gettoken_suffix [OF h] 1(3) by (meson suffix_order.trans)+
  show ?case
  proof (cases yes)
    case False
    then show ?thesis using 1(2,4) suf by (auto simp: parseredirs.simps [of c s] p)
  next
    case True
    let ?c = "if tok = 60 then redircmd c q eq O_RDONLY 0
             else if tok = 62 then redircmd c q eq (O_WRONLY OR O_CREATE OR O_TRUNC) 1
             else if tok = tok_plus then redircmd c q eq (O_WRONLY OR O_CREATE) 1 else c"
    have t: "t = tok_a" "parseredirs ?c s3 = Inr (c', s')"
      using 1(2) True by (auto simp: parseredirs.simps [of c s] p g h tok_plus_def split: if_splits)
    have "good_token l (q, eq)" using gettoken_word [of s2 q eq s3 l] h t(1) suf(2) by simp
    then have "wf_cmd (good_token l) ?c" "\<forall>k. simple c k \<longrightarrow> simple ?c k" using 1(4) by (simp_all add: redir_modes_def)
    then show ?thesis
      using 1(1) [OF p [symmetric] _ g [symmetric] refl refl h [symmetric] refl refl _ t(2) suf(3)] True t(1) by blast
  qed
qed

lemma parse_args_wf:
  assumes "parse_args c k s = Inr (c', s')" "suffix s l" "wf_cmd (good_token l) c" "simple c k"
  shows "wf_cmd (good_token l) c' \<and> suffix s' l"
  using assms
proof (induction c k s arbitrary: c' s' rule: parse_args.induct)
  case (1 c k s)
  obtain s1 stop where p: "peek s ''|)&;'' = (s1, stop)" by force
  obtain tok q eq s2 where g: "gettoken s1 = (tok, q, eq, s2)" by (metis prod_cases4)
  have suf: "suffix s1 l" "suffix s2 l" using peek_suffix [OF p] gettoken_suffix [OF g] 1(3) by (meson suffix_order.trans)+
  show ?case
  proof (cases "stop \<or> tok = 0")
    case True
    then show ?thesis using 1(2,4) suf by (cases stop) (auto simp: parse_args.simps [of c k s] p g)
  next
    case False
    let ?c = "add_arg (q, eq) c"
    obtain r where r: "parseredirs ?c s2 = Inr r" "parse_args (fst r) (k + 1) (snd r) = Inr (c', s')" "tok = tok_a" "\<not> MAXARGS \<le> k + 1"
      using 1(2) False by (auto simp: parse_args.simps [of c k s] p g Let_def split: if_splits sum.splits)
    have "good_token l (q, eq)" using gettoken_word [of s1 q eq s2 l] g r(3) suf(1) by simp
    then have c: "wf_cmd (good_token l) ?c" "simple ?c (Suc k)" using add_arg_wf [OF 1(5) _ 1(4)] r(4) by auto
    have "wf_cmd (good_token l) (fst r)" "suffix (snd r) l" "simple (fst r) (k + 1)"
      using parseredirs_wf [of ?c s2 "fst r" "snd r" l] r(1) suf(2) c by auto
    then show ?thesis using 1(1) [OF p [symmetric] _ g [symmetric] refl refl _ _ refl refl _ r(1) r(2)] False r(3,4) by simp
  qed
qed

lemma parse_backs_wf:
  "suffix s l \<Longrightarrow> wf_cmd P c \<Longrightarrow> wf_cmd P (fst (parse_backs c s)) \<and> suffix (snd (parse_backs c s)) l"
proof (induction c s rule: parse_backs.induct)
  case (1 c s)
  obtain s1 yes where p: "peek s ''&'' = (s1, yes)" by force
  obtain x y z s2 where g: "gettoken s1 = (x, y, z, s2)" by (metis prod_cases4)
  have suf: "suffix s1 l" "suffix s2 l" using peek_suffix [OF p] gettoken_suffix [OF g] 1(2) by (meson suffix_order.trans)+
  show ?case
    using 1(1) [OF p [symmetric] _ g [symmetric] refl refl] suf 1(3) by (cases yes) (simp_all add: parse_backs.simps [of c s] p g)
qed

definition yields_wf :: "byte list \<Rightarrow> cmd parsed option \<Rightarrow> bool" where
  "yields_wf l p \<longleftrightarrow> (\<forall>c s. p = Some (Inr (c, s)) \<longrightarrow> wf_cmd (good_token l) c \<and> suffix s l)"

lemma yields_andthen:
  assumes "yields_wf l p" "\<And>c s. wf_cmd (good_token l) c \<Longrightarrow> suffix s l \<Longrightarrow> yields_wf l (f c s)"
  shows "yields_wf l (andthen p f)"
proof -
  show ?thesis
  proof (cases p)
    case (Some r)
    then show ?thesis
    proof (cases r)
      case (Inr x)
      then have "wf_cmd (good_token l) (fst x)" "suffix (snd x) l" using assms(1) Some by (cases x; simp add: yields_wf_def)+
      then show ?thesis using assms(2) Some Inr by (simp add: andthen_def case_prod_unfold)
    qed (simp add: andthen_def yields_wf_def)
  qed (simp add: andthen_def yields_wf_def)
qed

lemma yields_behind:
  assumes "suffix s l" "\<And>s'. suffix s' l \<Longrightarrow> yields_wf l (f s')" "\<And>s'. suffix s' l \<Longrightarrow> yields_wf l (g s')"
  shows "yields_wf l (case peek s toks of (s1, yes) \<Rightarrow> if yes then case gettoken s1 of (_, _, _, s2) \<Rightarrow> f s2 else g s1)"
proof -
  obtain s1 yes where p: "peek s toks = (s1, yes)" by force
  obtain x y z s2 where g: "gettoken s1 = (x, y, z, s2)" by (metis prod_cases4)
  have "suffix s1 l" "suffix s2 l" using peek_suffix [OF p] gettoken_suffix [OF g] assms(1) by (meson suffix_order.trans)+
  then show ?thesis using assms(2,3) p g by (cases yes) auto
qed

lemma yields_Some [simp]: "yields_wf l (Some (Inr (c, s))) \<longleftrightarrow> wf_cmd (good_token l) c \<and> suffix s l" "yields_wf l (Some (Inl e))" "yields_wf l None"
  by (auto simp: yields_wf_def)

lemma yields_redirs: "wf_cmd (good_token l) c \<Longrightarrow> suffix s l \<Longrightarrow> yields_wf l (Some (parseredirs c s))"
  using parseredirs_wf by (auto simp: yields_wf_def)

lemma parser_wf:
  "\<forall>s. suffix s l \<longrightarrow> yields_wf l (parseline n s) \<and> yields_wf l (parsepipe n s) \<and> yields_wf l (parseexec n s) \<and> yields_wf l (parseblock n s)"
proof (induction n)
  case (Suc n)
  have line: "yields_wf l (parseline n s)" and pipe: "yields_wf l (parsepipe n s)" and exec: "yields_wf l (parseexec n s)"
    and block: "yields_wf l (parseblock n s)" if "suffix s l" for s
    using Suc.IH that by blast+
  have "yields_wf l (parseline (Suc n) s)" if s: "suffix s l" for s
  proof -
    have rest: "yields_wf l (case parse_backs c t of (c, t) \<Rightarrow> case peek t '';'' of (t, yes) \<Rightarrow>
        if yes then case gettoken t of (_, _, _, t) \<Rightarrow> andthen (parseline n t) (\<lambda>r s. Some (Inr (listcmd c r, s))) else Some (Inr (c, t)))"
      if "wf_cmd (good_token l) c" "suffix t l" for c t
    proof -
      obtain c1 t1 where b: "parse_backs c t = (c1, t1)" by force
      have w: "wf_cmd (good_token l) c1" "suffix t1 l" using parse_backs_wf [OF that(2,1)] b by simp_all
      show ?thesis unfolding b case_prod_conv
        by (rule yields_behind [OF w(2)], rule yields_andthen [OF line]) (use w in simp_all)
    qed
    show ?thesis unfolding parseline.simps by (rule yields_andthen [OF pipe [OF s] rest])
  qed
  moreover have "yields_wf l (parsepipe (Suc n) s)" if s: "suffix s l" for s
    unfolding parsepipe.simps
    by (rule yields_andthen [OF exec [OF s]], rule yields_behind, assumption, rule yields_andthen [OF pipe]) simp_all
  moreover have "yields_wf l (parseexec (Suc n) s)" if s: "suffix s l" for s
  proof -
    obtain s1 yes where p: "peek s ''('' = (s1, yes)" by force
    have s1: "suffix s1 l" using peek_suffix [OF p] s by (meson suffix_order.trans)
    have args: "yields_wf l (Some (parse_args c 0 s2))" if r: "parseredirs execcmd s1 = Inr (c, s2)" for c s2
    proof -
      have "wf_cmd (good_token l) c" "suffix s2 l" "simple c 0" using parseredirs_wf [OF r s1] by (simp_all add: MAXARGS_def)
      then show ?thesis unfolding yields_wf_def using parse_args_wf by blast
    qed
    then have "yields_wf l (case parseredirs execcmd s1 of Inl e \<Rightarrow> Some (Inl e) | Inr (ret, s) \<Rightarrow> Some (parse_args ret 0 s))"
      by (cases "parseredirs execcmd s1") (simp_all add: case_prod_unfold)
    then show ?thesis using block [OF s1] by (simp add: p)
  qed
  moreover have "yields_wf l (parseblock (Suc n) s)" if s: "suffix s l" for s
    unfolding parseblock.simps if_negated
    by (rule yields_behind [OF s], rule yields_andthen [OF line], assumption, rule yields_behind) (simp_all add: yields_redirs)
  ultimately show ?case by blast
qed simp

section \<open>The strings behind the pointers\<close>

lemma wf_tokens: "wf_cmd P c \<Longrightarrow> t \<in> set_scmd c \<Longrightarrow> P t"
  by (induction c) auto

definition cut_at :: "nat \<Rightarrow> token \<Rightarrow> nat" where
  "cut_at es t = es - length (snd t)"

lemma nth_cut: "i < length buf \<Longrightarrow> cut es (snd w) buf ! i = (if i = cut_at es w then 0 else buf ! i)" "length (cut es e buf) = length buf"
  by (simp_all add: cut_def cut_at_def nth_list_update)

lemma fold_cut:
  "length (fold (\<lambda>w. cut es (snd w)) as buf) = length buf"
  "i < length buf \<Longrightarrow> fold (\<lambda>w. cut es (snd w)) as buf ! i = (if i \<in> cut_at es ` set as then 0 else buf ! i)"
  by (induction as arbitrary: buf) (auto simp: nth_cut)

lemma length_nulterminate [simp]: "length (nulterminate es c buf) = length buf"
  by (induction c arbitrary: buf) (simp_all add: fold_cut nth_cut)

lemma nth_nulterminate:
  "i < length buf \<Longrightarrow> nulterminate es c buf ! i = (if i \<in> cut_at es ` set_scmd c then 0 else buf ! i)"
  by (induction c arbitrary: buf) (simp_all add: fold_cut nth_cut image_Un)

lemma cut_not_in_word:
  assumes "good_token s t" "cut_at (length s) t = i" "i < length s"
  shows "\<not> word_char (s ! i)"
proof -
  obtain pre where pre: "s = pre @ fst t" using assms(1) by (auto simp: good_token_def suffix_def)
  obtain w where w: "fst t = w @ snd t" "snd t = [] \<or> \<not> word_char (hd (snd t))" using assms(1) by (auto simp: good_token_def)
  have "i = length (pre @ w)" using assms(2) pre w(1) by (simp add: cut_at_def)
  moreover have "snd t \<noteq> []" using calculation assms(3) pre w(1) by auto
  ultimately show ?thesis using pre w by (cases "snd t") (simp_all add: nth_append)
qed

lemma nulterminate_token:
  assumes t: "\<forall>t\<in>set_scmd c. good_token s t" "(q, e) \<in> set_scmd c" and nul: "0 \<notin> set s"
  shows "cstring (length s) (nulterminate (length s) c (s @ [0])) q = take (length q - length e) q"
proof -
  let ?b = "nulterminate (length s) c (s @ [0])"
  obtain pre w where s: "s = pre @ w @ e" "q = w @ e" "\<forall>c\<in>set w. word_char c"
    using t by (fastforce simp: good_token_def suffix_def)
  let ?n = "length pre" and ?k = "length w"
  have "?b ! (?n + ?k) = 0"
    using t(2) s by (subst nth_nulterminate) (force simp: cut_at_def)+
  moreover have word: "?b ! (?n + i) = w ! i \<and> w ! i \<noteq> 0" if i: "i < ?k" for i
  proof -
    have si: "s ! (?n + i) = w ! i" "?n + i < length s" using i s(1) by (simp_all add: nth_append)
    have "?n + i \<notin> cut_at (length s) ` set_scmd c"
    proof
      assume "?n + i \<in> cut_at (length s) ` set_scmd c"
      then obtain u where "u \<in> set_scmd c" "cut_at (length s) u = ?n + i" by auto
      then have "\<not> word_char (s ! (?n + i))" using cut_not_in_word t(1) si(2) by metis
      then show False using s(3) i si(1) by simp
    qed
    moreover have "w ! i \<noteq> 0" using nul s(1) i by (metis Un_iff nth_mem set_append)
    ultimately show ?thesis using si by (subst nth_nulterminate) (auto simp: nth_append)
  qed
  have len: "?n + ?k < length ?b" using s(1) by simp
  have "drop ?n ?b = take ?k (drop ?n ?b) @ ?b ! (?n + ?k) # drop (Suc (?n + ?k)) ?b"
    using id_take_nth_drop [of ?k "drop ?n ?b"] len by (simp add: add.commute)
  moreover have "take ?k (drop ?n ?b) = w"
    using word len by (intro nth_equalityI) auto
  ultimately have "drop ?n ?b = w @ 0 # drop (Suc (?n + ?k)) ?b" using \<open>?b ! (?n + ?k) = 0\<close> by simp
  moreover have "\<forall>c\<in>set w. c \<noteq> 0" using word by (auto simp: in_set_conv_nth)
  ultimately have "takeWhile (\<lambda>c. c \<noteq> 0) (drop ?n ?b) = w" by (simp add: takeWhile_append2)
  then show ?thesis using s(1,2) by (simp add: cstring_def)
qed

text \<open>
  C31. The parser ends on every line, with a failure or with a well-formed command: every simple command has fewer than \<open>MAXARGS\<close> arguments, every redirection has
  one of the three modes with its descriptor, and every argument and file name is a pair of pointers to the ends of a word of the line, that is, of a longest
  sequence of characters that are neither blank nor symbols.
\<close>
theorem parser_ends:
  "\<exists>r. parseline (4 * length s + 4) s = Some r \<and> (\<forall>c s'. r = Inr (c, s') \<longrightarrow> wf_cmd (good_token s) c \<and> suffix s' s)"
proof -
  have "settles (parseline (4 * length s + 4) s) (length s)" using parser_settles by simp
  then obtain r where "parseline (4 * length s + 4) s = Some r" by (cases "parseline (4 * length s + 4) s") auto
  moreover have "yields_wf s (parseline (4 * length s + 4) s)" using parser_wf [of s] by simp
  ultimately show ?thesis by (simp add: yields_wf_def)
qed

theorem parser_ends_witness:
  "\<exists>r. parseline (4 * length (str ''ls|wc'') + 4) (str ''ls|wc'') = Some r \<and>
     (\<forall>c s'. r = Inr (c, s') \<longrightarrow> wf_cmd (good_token (str ''ls|wc'')) c \<and> suffix s' (str ''ls|wc''))"
  by (rule parser_ends)

text \<open>
  The strings of a parsed command are its words: after \<open>nulterminate\<close> has put NULs into the line, the C string at the beginning of each argument and
  file name is the word that was there, and not cut short by the end of another one.
\<close>
theorem nulterminate_strings:
  assumes "parseline n s = Some (Inr (c, s'))" "0 \<notin> set s" "(q, e) \<in> set_scmd c"
  shows "cstring (length s) (nulterminate (length s) c (s @ [0])) q = take (length q - length e) q \<and> length e < length q"
proof -
  have "yields_wf s (parseline n s)" using parser_wf [of s n] by simp
  then have "wf_cmd (good_token s) c" using assms(1) by (simp add: yields_wf_def)
  then have g: "\<forall>t\<in>set_scmd c. good_token s t" by (auto intro: wf_tokens)
  then have "good_token s (q, e)" using assms(3) by blast
  then have "length e < length q" by (auto simp: good_token_def)
  then show ?thesis using nulterminate_token [OF g assms(3,2)] by simp
qed

lemma ls_parsed: "parseline 12 (str ''ls'') = Some (Inr (EXEC [(str ''ls'', [])], []))"
  by code_simp

theorem nulterminate_strings_witness:
  "cstring 2 (nulterminate 2 (EXEC [(str ''ls'', [])]) (str ''ls'' @ [0])) (str ''ls'') = str ''ls''"
proof -
  have "length (str ''ls'') = 2" "0 \<notin> set (str ''ls'')" by (simp_all add: str_def)
  then show ?thesis using nulterminate_strings [OF ls_parsed, of "str ''ls''" "[]"] by (simp add: numeral_2_eq_2)
qed

section \<open>The interpreter does not come back\<close>

text \<open>A program that does not come back: it exits, becomes another program or stops.\<close>

definition no_return :: "('z, 'a) U \<Rightarrow> bool" where
  "no_return p \<longleftrightarrow> (\<forall>w x w'. p w \<noteq> Ret x w')"

lemma no_return_bind [simp]: "(\<And>x. no_return (f x)) \<Longrightarrow> no_return (kbind p f)"
  by (auto simp: no_return_def kbind_def split: outcome.splits)

lemma no_return_exit [simp]: "no_return (u_exit n)"
  by (simp add: no_return_def u_exit_def)

lemma no_return_panic [simp]: "no_return (sh_panic s)"
  by (simp add: sh_panic_def)

text \<open>
  \<open>runcmd\<close> does not return, whatever the command, the line and the answers of the kernel: every way through it ends in \<open>exit\<close>. A child of the shell
  therefore does not go on with the code of its parent behind a \<open>fork\<close>, and only the shell itself reads the next line.
\<close>
theorem runcmd_no_return: "no_return (runcmd es buf c)"
  by (induction c) (simp_all add: Let_def split: option.split prod.split)

end
