(* ===== verification/Shprint.thy ===== *)
theory Shprint
  imports Sh
begin

text \<open>
  The language of the shell: every command can be written down such that the parser of \<open>user/sh.c\<close> reads it back. \<open>show_cmd\<close> writes a command with the
  parentheses it needs; with it, the theorem at the end says that the operators associate and bind as intended: \<open>|\<close> closer than \<open>&\<close>, which binds closer than
  \<open>;\<close>, both \<open>|\<close> and \<open>;\<close> to the right, and redirections closest.
\<close>

section \<open>Writing a command\<close>

definition paren :: "bool \<Rightarrow> byte list \<Rightarrow> byte list" where
  "paren b t = (if b then [40] @ t @ [41] else t)"

type_synonym redirection = "byte list \<times> u32 \<times> int"

definition redir_text :: "redirection \<Rightarrow> byte list" where
  "redir_text r = (case r of (w, m, fd) \<Rightarrow>
     (if (m, fd) = (O_RDONLY, 0) then [60] else if (m, fd) = (O_WRONLY OR O_CREATE OR O_TRUNC, 1) then [62] else [62, 62]) @ 32 # w)"

definition args_text :: "byte list list \<Rightarrow> byte list" where
  "args_text ws = concat (map (\<lambda>w. 32 # w) ws)"

text \<open>The second argument says what is allowed without parentheses: 0 anything, 1 no \<open>;\<close>, 2 no \<open>&\<close> either, 3 nor \<open>|\<close>.\<close>

primrec show_cmd :: "byte list scmd \<Rightarrow> nat \<Rightarrow> byte list" where
  "show_cmd (EXEC ws) l = args_text ws"
| "show_cmd (REDIR c w m fd) l = show_cmd c 3 @ redir_text (w, m, fd)"
| "show_cmd (PIPE a b) l = paren (l > 2) (show_cmd a 3 @ [124] @ show_cmd b 2)"
| "show_cmd (LIST a b) l = paren (l > 0) (show_cmd a 1 @ [59] @ show_cmd b 0)"
| "show_cmd (BACK c) l = paren (l > 1) (show_cmd c 1 @ [38])"

definition good_word :: "byte list \<Rightarrow> bool" where
  "good_word w \<longleftrightarrow> w \<noteq> [] \<and> (\<forall>c\<in>set w. word_char c \<and> c \<noteq> 0)"

definition word_of :: "token \<Rightarrow> byte list" where
  "word_of t = take (length (fst t) - length (snd t)) (fst t)"

definition wrap :: "'w scmd \<Rightarrow> ('w \<times> u32 \<times> int) list \<Rightarrow> 'w scmd" where
  "wrap c rs = foldl (\<lambda>c (w, m, fd). REDIR c w m fd) c rs"

definition good_redir :: "redirection \<Rightarrow> bool" where
  "good_redir r \<longleftrightarrow> good_word (fst r) \<and> snd r \<in> redir_modes"

abbreviation redirs_text :: "redirection list \<Rightarrow> byte list" where "redirs_text rs \<equiv> concat (map redir_text rs)"

section \<open>Tokens of the text\<close>

lemma is_in_whitespace: "is_in whitespace c \<longleftrightarrow> c \<in> {32, 9, 13, 10, 11}"
  by (auto simp: is_in_def whitespace_def)

lemma is_in_symbols: "is_in symbols c \<longleftrightarrow> c \<in> {60, 124, 62, 38, 59, 40, 41}"
  by (auto simp: is_in_def symbols_def str_def)

lemma is_in_single: "is_in (str ''|();&<'') c \<longleftrightarrow> c \<in> {124, 40, 41, 59, 38, 60}"
  by (auto simp: is_in_def str_def)

lemma word_char_iff: "word_char c \<longleftrightarrow> c \<notin> {32, 9, 13, 10, 11, 60, 124, 62, 38, 59, 40, 41}"
  by (auto simp: word_char_def is_in_whitespace is_in_symbols)

definition boundary :: "byte list \<Rightarrow> bool" where
  "boundary t \<longleftrightarrow> t = [] \<or> \<not> word_char (hd t)"

lemma skipws_Nil [simp]: "skipws [] = []"
  by (simp add: skipws_def)

lemma skipws_blank [simp]: "skipws (32 # t) = skipws t"
  by (simp add: skipws_def is_in_whitespace)

lemma skipws_other: "\<not> is_in whitespace c \<Longrightarrow> skipws (c # t) = c # t"
  by (simp add: skipws_def)

lemma skipws_word: "good_word w \<Longrightarrow> skipws (w @ t) = w @ t"
  by (cases w) (auto simp: good_word_def word_char_def skipws_other)

lemma word_end_eq: "word_end s = dropWhile word_char s"
  by (simp add: word_end_def word_char_def [abs_def])

lemma token_word:
  assumes "good_word w" "boundary t"
  shows "token_at (w @ t) = (tok_a, t)"
proof -
  obtain c r where w: "w = c # r" using assms(1) by (cases w) (auto simp: good_word_def)
  have "dropWhile word_char (w @ t) = t"
    using assms by (cases t) (auto simp: good_word_def boundary_def dropWhile_append)
  then have "word_end (c # r @ t) = t" by (simp add: word_end_eq w)
  then show ?thesis using assms(1) by (auto simp: token_at_def w good_word_def word_char_iff is_in_single)
qed

lemma gettoken_text: "good_word w \<Longrightarrow> boundary t \<Longrightarrow> gettoken (w @ t) = (tok_a, w @ t, t, skipws t)"
  by (simp add: gettoken_eq skipws_word token_word)

lemma gettoken_skip: "gettoken (skipws s) = gettoken s"
  by (simp add: gettoken_def)

lemma peek_skip: "peek (skipws s) toks = peek s toks"
  by (simp add: peek_def)

lemma first_simps [simp]: "first [] = 0" "first (c # t) = c"
  by (simp_all add: first_def)

lemma first_word: "good_word w \<Longrightarrow> first (w @ t) = hd w \<and> word_char (hd w) \<and> hd w \<noteq> 0"
  by (cases w) (auto simp: good_word_def)

lemma word_of_text: "word_of (w @ t, t) = w"
  by (simp add: word_of_def)

text \<open>Going on behind a symbol.\<close>

lemma symbol_token:
  "c \<in> {124, 40, 41, 59, 38} \<Longrightarrow> gettoken (c # t) = (c, c # t, t, skipws t)" "c \<in> {124, 40, 41, 59, 38} \<Longrightarrow> skipws (c # t) = c # t"
  by (auto simp: gettoken_eq skipws_other is_in_whitespace token_at_def is_in_single)

section \<open>Redirections and arguments\<close>

lemma parseredirs_skip: "parseredirs c (skipws s) = parseredirs c s"
  by (simp add: parseredirs.simps [of c "skipws s"] parseredirs.simps [of c s] peek_skip)

lemma parse_args_skip: "parse_args c k (skipws s) = parse_args c k s"
  by (simp add: parse_args.simps [of c k "skipws s"] parse_args.simps [of c k s] peek_skip)

lemma peek_redir: "peek s ''<>'' = (skipws s, first (skipws s) \<in> {60, 62})"
  by (auto simp: peek_def Let_def is_in_def str_def)

lemma peek_stop: "peek s ''|)&;'' = (skipws s, first (skipws s) \<in> {124, 41, 38, 59})"
  by (auto simp: peek_def Let_def is_in_def str_def)

lemma parseredirs_none: "first (skipws s) \<notin> {60, 62} \<Longrightarrow> parseredirs c s = Inr (c, skipws s)"
  by (simp add: parseredirs.simps [of c s] peek_redir)

text \<open>The token at the beginning of a redirection.\<close>

lemma redir_symbol:
  assumes "good_redir (w, m, fd)"
  obtains tok where "gettoken (redir_text (w, m, fd) @ t) = (tok, redir_text (w, m, fd) @ t, 32 # w @ t, w @ t)"
    "first (redir_text (w, m, fd) @ t) \<in> {60, 62}" "skipws (redir_text (w, m, fd) @ t) = redir_text (w, m, fd) @ t"
    "(if tok = 60 then REDIR c x O_RDONLY 0
      else if tok = 62 then REDIR c x (O_WRONLY OR O_CREATE OR O_TRUNC) 1
      else if tok = tok_plus then REDIR c x (O_WRONLY OR O_CREATE) 1 else c) = REDIR c x m fd"
proof -
  have w: "good_word w" and m: "(m, fd) \<in> redir_modes" using assms by (simp_all add: good_redir_def)
  have ne: "(O_WRONLY OR O_CREATE OR O_TRUNC :: u32) \<noteq> O_WRONLY OR O_CREATE"
    by (simp add: O_WRONLY_def O_CREATE_def O_TRUNC_def)
  have sk: "skipws (32 # w @ t) = w @ t" using skipws_word [OF w] by simp
  consider "(m, fd) = (O_RDONLY, 0)" | "(m, fd) = (O_WRONLY OR O_CREATE OR O_TRUNC, 1)" | "(m, fd) = (O_WRONLY OR O_CREATE, 1)"
    using m by (auto simp: redir_modes_def)
  then show ?thesis
  proof cases
    case 1
    then have "redir_text (w, m, fd) = [60] @ 32 # w" by (simp add: redir_text_def)
    then show ?thesis using 1 sk
      by (intro that [of 60]) (simp_all add: gettoken_eq token_at_def is_in_single skipws_other is_in_whitespace)
  next
    case 2
    then have "redir_text (w, m, fd) = [62] @ 32 # w" by (simp add: redir_text_def)
    then show ?thesis using 2 sk
      by (intro that [of 62]) (simp_all add: gettoken_eq token_at_def is_in_single skipws_other is_in_whitespace)
  next
    case 3
    then have "redir_text (w, m, fd) = [62, 62] @ 32 # w" using ne by (simp add: redir_text_def)
    then show ?thesis using 3 sk
      by (intro that [of tok_plus]) (simp_all add: gettoken_eq token_at_def is_in_single skipws_other is_in_whitespace tok_plus_def)
  qed
qed

lemma redir_text_hd: "redir_text r \<noteq> [] \<and> \<not> word_char (hd (redir_text r))"
  by (cases r) (simp add: redir_text_def word_char_iff)

lemma boundary_redirs: "boundary t \<Longrightarrow> boundary (redirs_text rs @ t)"
proof (cases rs)
  case (Cons r rs')
  then show ?thesis using redir_text_hd [of r] by (simp add: boundary_def)
qed simp

lemma parse_redirs:
  assumes "\<forall>r\<in>set rs. good_redir r" "boundary t" "first (skipws t) \<notin> {60, 62}"
  shows "\<exists>c'. parseredirs c (redirs_text rs @ t) = Inr (c', skipws t) \<and> map_scmd word_of c' = wrap (map_scmd word_of c) rs \<and>
    (\<forall>k. simple c k \<longrightarrow> simple c' k)"
  using assms(1)
proof (induction rs arbitrary: c)
  case Nil
  then show ?case using assms(3) by (simp add: parseredirs_none wrap_def)
next
  case (Cons r rs)
  obtain w m fd where r: "r = (w, m, fd)" by (metis prod_cases3)
  let ?t = "redirs_text rs @ t"
  have g: "good_redir (w, m, fd)" using Cons.prems r by simp
  then have w: "good_word w" by (simp add: good_redir_def)
  have b: "boundary ?t" using boundary_redirs [OF assms(2)] by simp
  note tk = gettoken_text [OF w b]
  obtain tok where s: "gettoken (redir_text (w, m, fd) @ ?t) = (tok, redir_text (w, m, fd) @ ?t, 32 # w @ ?t, w @ ?t)"
    "first (redir_text (w, m, fd) @ ?t) \<in> {60, 62}" "skipws (redir_text (w, m, fd) @ ?t) = redir_text (w, m, fd) @ ?t"
    "(if tok = 60 then REDIR c (w @ ?t, ?t) O_RDONLY 0
      else if tok = 62 then REDIR c (w @ ?t, ?t) (O_WRONLY OR O_CREATE OR O_TRUNC) 1
      else if tok = tok_plus then REDIR c (w @ ?t, ?t) (O_WRONLY OR O_CREATE) 1 else c) = REDIR c (w @ ?t, ?t) m fd"
    by (rule redir_symbol [OF g])
  have "parseredirs c (redirs_text (r # rs) @ t) = parseredirs (redircmd c (w @ ?t) ?t m fd) (skipws ?t)"
    using s [folded redircmd_def] tk by (subst parseredirs.simps) (simp add: peek_redir r del: if_split_asm redircmd_def)
  also have "\<dots> = parseredirs (REDIR c (w @ ?t, ?t) m fd) ?t" by (simp add: parseredirs_skip)
  finally show ?case using Cons.IH [of "REDIR c (w @ ?t, ?t) m fd"] Cons.prems r by (auto simp: wrap_def word_of_text)
qed

text \<open>What may follow a simple command, a pipeline, a sequence of \<open>&\<close>, and a line.\<close>

definition starts :: "byte set \<Rightarrow> byte list \<Rightarrow> bool" where
  "starts S t \<longleftrightarrow> t = [] \<or> hd t \<in> S"

abbreviation exec_follow :: "byte list \<Rightarrow> bool" where "exec_follow \<equiv> starts {124, 41, 38, 59}"

lemma exec_follow_props:
  assumes "exec_follow t"
  shows "skipws t = t" "boundary t" "first (skipws t) \<notin> {60, 62}" "first t \<noteq> 40"
  using assms by (cases t; auto simp: starts_def skipws_other is_in_whitespace boundary_def word_char_iff)+

lemma parse_args_stop: "exec_follow t \<Longrightarrow> parse_args c k t = Inr (c, t)"
proof -
  assume f: "exec_follow t"
  have g: "t = [] \<Longrightarrow> gettoken t = (0, [], [], [])" by (simp add: gettoken_eq token_at_def)
  show ?thesis
    unfolding parse_args.simps [of c k t] peek_stop exec_follow_props(1) [OF f] using f g by (cases t) (auto simp: starts_def)
qed

lemma args_text_simps: "args_text [] = []" "args_text (w # ws) = 32 # w @ args_text ws"
  by (simp_all add: args_text_def)

lemma boundary_args: "boundary t \<Longrightarrow> boundary (args_text ws @ t)"
  by (cases ws) (simp_all add: args_text_simps boundary_def word_char_iff)

lemma parse_args_word:
  assumes w: "good_word w" "boundary t" and k: "Suc k < MAXARGS"
  shows "parse_args c k (32 # w @ t) =
    (case parseredirs (add_arg (w @ t, t) c) t of Inl e \<Rightarrow> Inl e | Inr r \<Rightarrow> parse_args (fst r) (Suc k) (snd r))"
proof -
  have f: "first (w @ t) \<notin> {124, 41, 38, 59}" using first_word [OF w(1)] by (auto simp: word_char_iff)
  have sk: "skipws (w @ t) = w @ t" using skipws_word [OF w(1)] .
  have "parseredirs x (skipws t) = parseredirs x t" for x by (rule parseredirs_skip)
  then show ?thesis using f k gettoken_text [OF w]
    by (subst parse_args.simps) (simp add: peek_stop sk tok_a_def not_le)
qed

primrec add_args :: "'w list \<Rightarrow> 'w scmd \<Rightarrow> 'w scmd" where
  "add_args [] c = c"
| "add_args (w # ws) c = add_args ws (add_arg w c)"

lemma simple_add_arg: "simple c k \<Longrightarrow> simple (add_arg a c) (Suc k)"
  by (induction a c rule: add_arg.induct) simp_all

lemma map_add_arg: "map_scmd f (add_arg a c) = add_arg (f a) (map_scmd f c)"
  by (induction a c rule: add_arg.induct) simp_all

lemma add_args_exec: "add_args ws (EXEC vs) = EXEC (vs @ ws)"
  by (induction ws arbitrary: vs) simp_all

lemma parse_args_text:
  assumes "ws \<noteq> []" "\<forall>w\<in>set ws. good_word w" "\<forall>r\<in>set rs. good_redir r" "exec_follow t" "simple c k" "k + length ws < MAXARGS"
  shows "\<exists>c'. parse_args c k (args_text ws @ redirs_text rs @ t) = Inr (c', t) \<and> map_scmd word_of c' = wrap (add_args ws (map_scmd word_of c)) rs"
  using assms(1,2,5,6)
proof (induction ws arbitrary: c k)
  case (Cons w ws)
  let ?t = "args_text ws @ redirs_text rs @ t"
  note ft = exec_follow_props [OF assms(4)]
  have b: "boundary ?t" using boundary_args [OF boundary_redirs [OF ft(2)]] .
  have w: "good_word w" using Cons.prems by simp
  let ?c = "add_arg (w @ ?t, ?t) c"
  have c: "simple ?c (Suc k)" "map_scmd word_of ?c = add_arg w (map_scmd word_of c)"
    using simple_add_arg [OF Cons.prems(3)] by (simp_all add: map_add_arg word_of_text)
  have step: "parse_args c k (args_text (w # ws) @ redirs_text rs @ t) =
      (case parseredirs ?c ?t of Inl e \<Rightarrow> Inl e | Inr r \<Rightarrow> parse_args (fst r) (Suc k) (snd r))"
    using parse_args_word [OF w b, of k c] Cons.prems(4) by (simp add: args_text_simps)
  show ?case
  proof (cases "ws = []")
    case True
    obtain c' where c': "parseredirs ?c (redirs_text rs @ t) = Inr (c', skipws t)" "map_scmd word_of c' = wrap (map_scmd word_of ?c) rs"
      using parse_redirs [OF assms(3) ft(2,3), of ?c] by blast
    then show ?thesis using step True c(2) ft(1) parse_args_stop [OF assms(4)] by (simp add: args_text_simps)
  next
    case False
    then obtain v vs where v: "ws = v # vs" by (cases ws) auto
    have "skipws ?t = v @ args_text vs @ redirs_text rs @ t" "first (v @ args_text vs @ redirs_text rs @ t) \<notin> {60, 62}"
      using Cons.prems(2) v skipws_word [of v] first_word [of v] by (auto simp: args_text_simps word_char_iff)
    then have "parseredirs ?c ?t = Inr (?c, skipws ?t)" by (intro parseredirs_none) simp
    then have "parse_args c k (args_text (w # ws) @ redirs_text rs @ t) = parse_args ?c (Suc k) ?t"
      using step parse_args_skip by simp
    then show ?thesis using Cons.IH [OF False, of ?c "Suc k"] Cons.prems c by auto
  qed
qed simp

section \<open>The levels of the grammar\<close>

lemma peek_one:
  "peek s ''('' = (skipws s, first (skipws s) = 40)" "peek s '')'' = (skipws s, first (skipws s) = 41)" "peek s ''|'' = (skipws s, first (skipws s) = 124)"
  "peek s ''&'' = (skipws s, first (skipws s) = 38)" "peek s '';'' = (skipws s, first (skipws s) = 59)"
  by (auto simp: peek_def Let_def is_in_def str_def)

lemma parse_skip: "parseexec n (skipws s) = parseexec n s" "parsepipe n (skipws s) = parsepipe n s" "parseline n (skipws s) = parseline n s"
proof -
  show e: "parseexec n (skipws s) = parseexec n s" for n by (cases n) (simp_all add: peek_skip)
  show p: "parsepipe n (skipws s) = parsepipe n s" for n by (cases n) (simp_all add: e)
  show "parseline n (skipws s) = parseline n s" by (cases n) (simp_all add: p)
qed

definition got :: "cmd parsed option \<Rightarrow> byte list scmd \<Rightarrow> byte list \<Rightarrow> bool" where
  "got p c t \<longleftrightarrow> (\<exists>c'. p = Some (Inr (c', t)) \<and> map_scmd word_of c' = c)"

lemma gotE: "got p c t \<Longrightarrow> (\<And>c'. p = Some (Inr (c', t)) \<Longrightarrow> map_scmd word_of c' = c \<Longrightarrow> thesis) \<Longrightarrow> thesis"
  by (auto simp: got_def)

lemma andthen_Inr [simp]: "andthen (Some (Inr (c, s))) f = f c s"
  by (simp add: andthen_def)

text \<open>What the four parsing functions do with the text of a command, followed by something that cannot belong to it.\<close>

definition exec_ok :: "byte list scmd \<Rightarrow> bool" where
  "exec_ok c \<longleftrightarrow> (\<forall>n rs t. exec_follow t \<longrightarrow> (\<forall>r\<in>set rs. good_redir r) \<longrightarrow> 4 * length (show_cmd c 3 @ redirs_text rs @ t) + 2 \<le> n \<longrightarrow>
     got (parseexec n (show_cmd c 3 @ redirs_text rs @ t)) (wrap c rs) t)"

definition pipe_ok :: "byte list scmd \<Rightarrow> bool" where
  "pipe_ok c \<longleftrightarrow> (\<forall>n t. starts {41, 38, 59} t \<longrightarrow> 4 * length (show_cmd c 2 @ t) + 3 \<le> n \<longrightarrow> got (parsepipe n (show_cmd c 2 @ t)) c t)"

definition backs_ok :: "byte list scmd \<Rightarrow> bool" where
  "backs_ok c \<longleftrightarrow> (\<forall>n k t. starts {41, 59} t \<longrightarrow> 4 * length (show_cmd c 1 @ replicate k 38 @ t) + 3 \<le> n \<longrightarrow>
     (\<exists>c1 s1. parsepipe n (show_cmd c 1 @ replicate k 38 @ t) = Some (Inr (c1, s1)) \<and> snd (parse_backs c1 s1) = t \<and>
       map_scmd word_of (fst (parse_backs c1 s1)) = (BACK ^^ k) c))"

definition line_ok :: "byte list scmd \<Rightarrow> bool" where
  "line_ok c \<longleftrightarrow> (\<forall>n t. starts {41} t \<longrightarrow> 4 * length (show_cmd c 0 @ t) + 4 \<le> n \<longrightarrow> got (parseline n (show_cmd c 0 @ t)) c t)"

lemma exec_okD:
  "exec_ok c \<Longrightarrow> exec_follow t \<Longrightarrow> \<forall>r\<in>set rs. good_redir r \<Longrightarrow> 4 * length (show_cmd c 3 @ redirs_text rs @ t) + 2 \<le> n \<Longrightarrow>
     got (parseexec n (show_cmd c 3 @ redirs_text rs @ t)) (wrap c rs) t"
  unfolding exec_ok_def by blast

lemma exec_ok_EXEC:
  assumes "wf_cmd good_word (EXEC ws)"
  shows "exec_ok (EXEC ws)"
  unfolding exec_ok_def
proof (intro allI impI)
  fix n rs t
  assume t: "exec_follow t" and rs: "\<forall>r\<in>set rs. good_redir r" and n: "4 * length (show_cmd (EXEC ws) 3 @ redirs_text rs @ t) + 2 \<le> n"
  obtain m where m: "n = Suc m" using n by (cases n) auto
  have ws: "\<forall>w\<in>set ws. good_word w" "length ws < MAXARGS" using assms by auto
  note ft = exec_follow_props [OF t]
  let ?s = "args_text ws @ redirs_text rs @ t"
  show "got (parseexec n (show_cmd (EXEC ws) 3 @ redirs_text rs @ t)) (wrap (EXEC ws) rs) t"
  proof (cases ws)
    case Nil
    have "first (skipws ?s) \<noteq> 40"
    proof (cases rs)
      case (Cons r rs')
      obtain w md fd where r: "r = (w, md, fd)" by (metis prod_cases3)
      then have "good_redir (w, md, fd)" using rs Cons by simp
      then show ?thesis
      proof (rule redir_symbol [where t = "redirs_text rs' @ t" and c = "EXEC []" and x = "[]"])
        assume "first (redir_text (w, md, fd) @ redirs_text rs' @ t) \<in> {60, 62}"
          "skipws (redir_text (w, md, fd) @ redirs_text rs' @ t) = redir_text (w, md, fd) @ redirs_text rs' @ t"
        then show ?thesis using Cons r Nil by (auto simp: args_text_simps)
      qed
    qed (use Nil ft in \<open>simp add: args_text_simps\<close>)
    moreover obtain c' where c': "parseredirs (EXEC []) (redirs_text rs @ t) = Inr (c', skipws t)" "map_scmd word_of c' = wrap (EXEC []) rs"
      using parse_redirs [OF rs ft(2,3), of "EXEC []"] by auto
    ultimately show ?thesis using Nil ft(1) parse_args_stop [OF t, of c' 0]
      by (simp add: m peek_one parseredirs_skip args_text_simps got_def)
  next
    case (Cons w ws')
    have s: "skipws ?s = w @ args_text ws' @ redirs_text rs @ t" using ws(1) Cons skipws_word [of w] by (simp add: args_text_simps)
    have f: "first (w @ args_text ws' @ redirs_text rs @ t) \<notin> {60, 62, 40}"
      using ws(1) Cons first_word [of w] by (auto simp: word_char_iff)
    obtain c' where "parse_args (EXEC []) 0 ?s = Inr (c', t)" and c': "map_scmd word_of c' = wrap (EXEC ws) rs"
      using parse_args_text [of ws rs t "EXEC []" 0] Cons ws rs t by (auto simp: add_args_exec)
    then have pa: "parse_args (EXEC []) 0 (skipws ?s) = Inr (c', t)" by (simp only: parse_args_skip)
    have nf: "first (skipws ?s) \<notin> {60, 62}" "first (skipws ?s) \<noteq> 40" using s f by simp_all
    have pr: "parseredirs (EXEC []) (skipws ?s) = Inr (EXEC [], skipws ?s)"
      unfolding parseredirs_skip by (rule parseredirs_none [OF nf(1)])
    have "parseexec n ?s = Some (Inr (c', t))" using nf(2) by (simp add: m peek_one pr pa)
    then show ?thesis using c' by (simp add: got_def)
  qed
qed

lemma exec_ok_REDIR:
  assumes "exec_ok c" "good_redir (w, m, fd)"
  shows "exec_ok (REDIR c w m fd)"
  unfolding exec_ok_def
proof (intro allI impI)
  fix n rs t
  assume "exec_follow t" "\<forall>r\<in>set rs. good_redir r" "4 * length (show_cmd (REDIR c w m fd) 3 @ redirs_text rs @ t) + 2 \<le> n"
  then have "got (parseexec n (show_cmd c 3 @ redirs_text ((w, m, fd) # rs) @ t)) (wrap c ((w, m, fd) # rs)) t"
    using assms(2) by (intro exec_okD [OF assms(1)]) simp_all
  then show "got (parseexec n (show_cmd (REDIR c w m fd) 3 @ redirs_text rs @ t)) (wrap (REDIR c w m fd) rs) t"
    by (simp add: wrap_def)
qed

text \<open>From each level to the next.\<close>

lemma pipe_ok_exec:
  assumes "exec_ok c" "show_cmd c 2 = show_cmd c 3"
  shows "pipe_ok c"
  unfolding pipe_ok_def assms(2)
proof (intro allI impI)
  fix n t
  assume t: "starts {41, 38, 59} t" and n: "4 * length (show_cmd c 3 @ t) + 3 \<le> n"
  obtain m where m: "n = Suc m" using n by (cases n) auto
  have f: "exec_follow t" "first t \<noteq> 124" using t by (cases t; auto simp: starts_def)+
  have "got (parseexec m (show_cmd c 3 @ redirs_text [] @ t)) (wrap c []) t" using f n m by (intro exec_okD [OF assms(1)]) simp_all
  then show "got (parsepipe n (show_cmd c 3 @ t)) c t"
    using f(2) exec_follow_props(1) [OF f(1)] by (auto simp: m got_def wrap_def peek_one)
qed

lemma parse_backs_text:
  assumes "starts {41, 59} t"
  shows "parse_backs c (replicate k 38 @ t) = ((BACK ^^ k) c, t)"
proof (induction k arbitrary: c)
  case 0
  have "skipws t = t" "first t \<noteq> 38" using assms by (cases t; auto simp: starts_def skipws_other is_in_whitespace)+
  then show ?case by (simp add: parse_backs.simps [of c t] peek_one)
next
  case (Suc k)
  have sk: "skipws (replicate k 38 @ t) = replicate k 38 @ t"
    using assms by (cases k; cases t) (auto simp: starts_def skipws_other is_in_whitespace)
  have "parse_backs c (38 # replicate k 38 @ t) = parse_backs (BACK c) (replicate k 38 @ t)"
    by (subst parse_backs.simps) (simp add: peek_one symbol_token sk)
  then show ?case using Suc.IH [of "BACK c"] by (simp add: funpow_swap1)
qed

lemma map_backs: "map_scmd f ((BACK ^^ k) c) = (BACK ^^ k) (map_scmd f c)"
  by (induction k) simp_all

lemma backs_ok_pipe:
  assumes "pipe_ok c" "show_cmd c 1 = show_cmd c 2"
  shows "backs_ok c"
  unfolding backs_ok_def assms(2)
proof (intro allI impI)
  fix n k t
  assume t: "starts {41, 59} t" and n: "4 * length (show_cmd c 2 @ replicate k 38 @ t) + 3 \<le> n"
  have "starts {41, 38, 59} (replicate k 38 @ t)" using t by (cases k) (auto simp: starts_def)
  then have "got (parsepipe n (show_cmd c 2 @ replicate k 38 @ t)) c (replicate k 38 @ t)" using assms(1) n unfolding pipe_ok_def by blast
  then obtain c1 where c1: "parsepipe n (show_cmd c 2 @ replicate k 38 @ t) = Some (Inr (c1, replicate k 38 @ t))" "map_scmd word_of c1 = c"
    by (auto simp: got_def)
  then show "\<exists>c1 s1. parsepipe n (show_cmd c 2 @ replicate k 38 @ t) = Some (Inr (c1, s1)) \<and> snd (parse_backs c1 s1) = t \<and>
       map_scmd word_of (fst (parse_backs c1 s1)) = (BACK ^^ k) c"
    by (intro exI [of _ c1] exI [of _ "replicate k 38 @ t"]) (simp add: parse_backs_text [OF t] map_backs)
qed

lemma line_ok_backs:
  assumes "backs_ok c" "show_cmd c 0 = show_cmd c 1"
  shows "line_ok c"
  unfolding line_ok_def assms(2)
proof (intro allI impI)
  fix n t
  assume t: "starts {41} t" and n: "4 * length (show_cmd c 1 @ t) + 4 \<le> n"
  obtain m where m: "n = Suc m" using n by (cases n) auto
  have f: "starts {41, 59} t" "first t \<noteq> 59" "skipws t = t" using t by (cases t; auto simp: starts_def skipws_other is_in_whitespace)+
  have "4 * length (show_cmd c 1 @ replicate 0 38 @ t) + 3 \<le> m" using n m by simp
  then obtain c1 s1 where "parsepipe m (show_cmd c 1 @ replicate 0 38 @ t) = Some (Inr (c1, s1))" "snd (parse_backs c1 s1) = t"
    "map_scmd word_of (fst (parse_backs c1 s1)) = (BACK ^^ 0) c" using assms(1) f(1) unfolding backs_ok_def by blast
  then show "got (parseline n (show_cmd c 1 @ t)) c t" using f(2,3) by (simp add: m got_def peek_one case_prod_unfold)
qed

lemma exec_ok_paren:
  assumes "line_ok c" "show_cmd c 3 = [40] @ show_cmd c 0 @ [41]"
  shows "exec_ok c"
  unfolding exec_ok_def assms(2)
proof (intro allI impI)
  fix n rs t
  assume t: "exec_follow t" and rs: "\<forall>r\<in>set rs. good_redir r" and n: "4 * length (([40] @ show_cmd c 0 @ [41]) @ redirs_text rs @ t) + 2 \<le> n"
  obtain m where m: "n = Suc (Suc m)" using n by (cases n; cases "n - 1") auto
  note ft = exec_follow_props [OF t]
  let ?r = "41 # redirs_text rs @ t"
  have "got (parseline m (show_cmd c 0 @ ?r)) c ?r" using assms(1) n m unfolding line_ok_def by (simp add: starts_def)
  then obtain c1 where c1: "parseline m (show_cmd c 0 @ ?r) = Some (Inr (c1, ?r))" "map_scmd word_of c1 = c" by (auto simp: got_def)
  obtain c' where c': "parseredirs c1 (redirs_text rs @ t) = Inr (c', skipws t)" "map_scmd word_of c' = wrap c rs"
    using parse_redirs [OF rs ft(2,3), of c1] c1(2) by auto
  have "parseexec n (40 # show_cmd c 0 @ ?r) = Some (Inr (c', t))"
    using c1(1) c'(1) ft(1) by (simp add: m peek_one symbol_token parse_skip parseredirs_skip)
  then show "got (parseexec n (([40] @ show_cmd c 0 @ [41]) @ redirs_text rs @ t)) (wrap c rs) t" using c'(2) by (simp add: got_def)
qed

lemma pipe_ok_PIPE:
  assumes "exec_ok a" "pipe_ok b"
  shows "pipe_ok (PIPE a b)"
  unfolding pipe_ok_def
proof (intro allI impI)
  fix n t
  assume t: "starts {41, 38, 59} t" and n: "4 * length (show_cmd (PIPE a b) 2 @ t) + 3 \<le> n"
  obtain m where m: "n = Suc m" using n by (cases n) auto
  let ?r = "124 # show_cmd b 2 @ t"
  have "got (parseexec m (show_cmd a 3 @ redirs_text [] @ ?r)) (wrap a []) ?r"
    using n m by (intro exec_okD [OF assms(1)]) (simp_all add: paren_def starts_def)
  then obtain a' where a': "parseexec m (show_cmd a 3 @ ?r) = Some (Inr (a', ?r))" "map_scmd word_of a' = a" by (auto simp: got_def wrap_def)
  have "got (parsepipe m (show_cmd b 2 @ t)) b t" using assms(2) t n m unfolding pipe_ok_def by (simp add: paren_def)
  then obtain b' where b': "parsepipe m (show_cmd b 2 @ t) = Some (Inr (b', t))" "map_scmd word_of b' = b" by (auto simp: got_def)
  show "got (parsepipe n (show_cmd (PIPE a b) 2 @ t)) (PIPE a b) t"
    using a' b' by (simp add: m paren_def peek_one symbol_token parse_skip got_def)
qed

lemma line_ok_LIST:
  assumes "backs_ok a" "line_ok b"
  shows "line_ok (LIST a b)"
  unfolding line_ok_def
proof (intro allI impI)
  fix n t
  assume t: "starts {41} t" and n: "4 * length (show_cmd (LIST a b) 0 @ t) + 4 \<le> n"
  obtain m where m: "n = Suc m" using n by (cases n) auto
  let ?r = "59 # show_cmd b 0 @ t"
  have "starts {41, 59} ?r" "4 * length (show_cmd a 1 @ replicate 0 38 @ ?r) + 3 \<le> m" using n m by (simp_all add: starts_def paren_def)
  then obtain c1 s1 where a: "parsepipe m (show_cmd a 1 @ replicate 0 38 @ ?r) = Some (Inr (c1, s1))" "snd (parse_backs c1 s1) = ?r"
    "map_scmd word_of (fst (parse_backs c1 s1)) = (BACK ^^ 0) a" using assms(1) unfolding backs_ok_def by blast
  have "got (parseline m (show_cmd b 0 @ t)) b t" using assms(2) t n m unfolding line_ok_def by (simp add: paren_def)
  then obtain b' where b': "parseline m (show_cmd b 0 @ t) = Some (Inr (b', t))" "map_scmd word_of b' = b" by (auto simp: got_def)
  show "got (parseline n (show_cmd (LIST a b) 0 @ t)) (LIST a b) t"
    using a b' by (simp add: m paren_def peek_one symbol_token parse_skip got_def case_prod_unfold)
qed

lemma backs_ok_BACK:
  assumes "backs_ok c"
  shows "backs_ok (BACK c)"
  unfolding backs_ok_def
proof (intro allI impI)
  fix n k t
  assume t: "starts {41, 59} t" and n: "4 * length (show_cmd (BACK c) 1 @ replicate k 38 @ t) + 3 \<le> n"
  have e: "show_cmd (BACK c) 1 @ replicate k 38 @ t = show_cmd c 1 @ replicate (Suc k) 38 @ t" by (simp add: paren_def)
  have "(BACK ^^ k) (BACK c) = (BACK ^^ Suc k) c" by (simp add: funpow_swap1)
  then show "\<exists>c1 s1. parsepipe n (show_cmd (BACK c) 1 @ replicate k 38 @ t) = Some (Inr (c1, s1)) \<and> snd (parse_backs c1 s1) = t \<and>
       map_scmd word_of (fst (parse_backs c1 s1)) = (BACK ^^ k) (BACK c)"
    using assms t n unfolding backs_ok_def e by (simp only:)
qed

lemma levels: "wf_cmd good_word c \<Longrightarrow> exec_ok c \<and> pipe_ok c \<and> backs_ok c \<and> line_ok c"
proof (induction c)
  case (EXEC ws)
  then have "exec_ok (EXEC ws)" by (rule exec_ok_EXEC)
  then show ?case using pipe_ok_exec backs_ok_pipe line_ok_backs by (metis show_cmd.simps(1))
next
  case (REDIR c w m fd)
  then have "exec_ok (REDIR c w m fd)" by (intro exec_ok_REDIR) (simp_all add: good_redir_def)
  then show ?case using pipe_ok_exec backs_ok_pipe line_ok_backs by (metis show_cmd.simps(2))
next
  case (PIPE a b)
  then have p: "pipe_ok (PIPE a b)" by (intro pipe_ok_PIPE) simp_all
  then have l: "line_ok (PIPE a b)" by (intro line_ok_backs backs_ok_pipe) (simp_all add: paren_def)
  then show ?case using p by (auto intro: exec_ok_paren backs_ok_pipe simp: paren_def)
next
  case (LIST a b)
  then have l: "line_ok (LIST a b)" by (intro line_ok_LIST) simp_all
  then have e: "exec_ok (LIST a b)" by (intro exec_ok_paren) (simp_all add: paren_def)
  then have p: "pipe_ok (LIST a b)" by (intro pipe_ok_exec) (simp_all add: paren_def)
  then show ?case using l e by (auto intro: backs_ok_pipe simp: paren_def)
next
  case (BACK c)
  then have b: "backs_ok (BACK c)" by (intro backs_ok_BACK) simp
  then have l: "line_ok (BACK c)" by (intro line_ok_backs) (simp_all add: paren_def)
  then have e: "exec_ok (BACK c)" by (intro exec_ok_paren) (simp_all add: paren_def)
  then show ?case using l b by (auto intro: pipe_ok_exec simp: paren_def)
qed

text \<open>
  C30. Printing and parsing: for every command whose words are words and whose simple commands have fewer than \<open>MAXARGS\<close> of them, the parser reads the text that
  \<open>show_cmd\<close> writes completely, and what it has parsed, with the words in place of the pointers, is the command again.
\<close>
theorem parse_show:
  assumes "wf_cmd good_word c"
  shows "\<exists>c'. parseline (4 * length (show_cmd c 0) + 4) (show_cmd c 0) = Some (Inr (c', [])) \<and> map_scmd word_of c' = c"
  using levels [OF assms] unfolding line_ok_def got_def starts_def by (metis append_Nil2 order_refl)

theorem parse_show_witness:
  "\<exists>c'. parseline (4 * length (str '' ls> x| wc; a&'') + 4) (str '' ls> x| wc; a&'') = Some (Inr (c', [])) \<and>
     map_scmd word_of c' = LIST (PIPE (REDIR (EXEC [str ''ls'']) (str ''x'') (O_WRONLY OR O_CREATE OR O_TRUNC) 1) (EXEC [str ''wc''])) (BACK (EXEC [str ''a'']))"
  (is "\<exists>c'. _ \<and> _ = ?c")
proof -
  have "wf_cmd good_word ?c"
    by (simp add: good_word_def str_def word_char_iff redir_modes_def MAXARGS_def)
  moreover have "show_cmd ?c 0 = str '' ls> x| wc; a&''"
    by (simp add: paren_def redir_text_def args_text_def str_def O_RDONLY_def O_WRONLY_def O_CREATE_def O_TRUNC_def)
  ultimately show ?thesis using parse_show [of ?c] by simp
qed

end
