(* ===== verification/Ust.thy ===== *)
theory Ust
  imports Prelude "HOL-Library.Multiset"
begin

text \<open>
  User-space threads (\<open>ust/basic_threads.c\<close>): five slots for cooperative threads, and a scheduler that runs them in turn. A thread body is the finite sequence of what it
  does: work it reports (\<open>Emit\<close>), a thread it creates, a call of \<open>yield\<close> or \<open>finish_thread\<close>, or its return. The context saved in a slot is the rest of its body, and
  \<open>swapcontext\<close> to a slot runs that body until it swaps back to the scheduler. \<open>malloc\<close> is any function of the blocks in use; 0 is the null pointer. A call that exits the process
  is an \<open>Inl\<close> with the exit code.
\<close>

section \<open>The library\<close>

datatype 'e body = Return | Emit 'e "'e body" | Create "'e body" "'e body" | Yield "'e body" | Finish

record 'e ust =
  contexts :: "'e body list"
  ss_sp :: "nat list"
  active :: "bool list"
  num_threads :: nat
  current :: nat
  blocks :: "nat list"
  trace :: "'e list"

definition MAX_THREADS :: nat where "MAX_THREADS = 5"

text \<open>The program starts with the globals zeroed.\<close>

definition ust0 :: "'e ust" where
  "ust0 = \<lparr>contexts = replicate MAX_THREADS Return, ss_sp = replicate MAX_THREADS 0, active = replicate MAX_THREADS False,
     num_threads = 0, current = 0, blocks = [], trace = []\<rparr>"

function find_empty_from :: "nat \<Rightarrow> bool list \<Rightarrow> nat option" where
  "find_empty_from i act =
     (if \<not> act ! i then Some i else if Suc i \<ge> MAX_THREADS then None else find_empty_from (Suc i) act)"
  by auto
termination by (relation "measure (\<lambda>(i, act). MAX_THREADS - i)") auto

declare find_empty_from.simps [simp del]

definition find_empty :: "'e ust \<Rightarrow> nat option" where
  "find_empty s = find_empty_from 0 (active s)"

definition initialize_basic_threads :: "'e ust \<Rightarrow> 'e ust" where
  "initialize_basic_threads s = s\<lparr>active := fold (\<lambda>i act. act[i := False]) [0..<MAX_THREADS] (active s), num_threads := 0\<rparr>"

definition create_new_parameterized_thread :: "(nat list \<Rightarrow> nat) \<Rightarrow> 'e body \<Rightarrow> 'e ust \<Rightarrow> nat + 'e ust" where
  "create_new_parameterized_thread malloc fn s =
     (case find_empty s of None \<Rightarrow> Inl 1
      | Some slot \<Rightarrow>
         let sp = malloc (blocks s) in
         if sp = 0 then Inl 1
         else
           let s = s\<lparr>blocks := sp # blocks s, ss_sp := (ss_sp s)[slot := sp], contexts := (contexts s)[slot := fn],
                 active := (active s)[slot := True]\<rparr> in
           Inr (if slot \<ge> num_threads s then s\<lparr>num_threads := slot + 1\<rparr> else s))"

definition create_new_thread :: "(nat list \<Rightarrow> nat) \<Rightarrow> 'e body \<Rightarrow> 'e ust \<Rightarrow> nat + 'e ust" where
  "create_new_thread malloc fn s = create_new_parameterized_thread malloc fn s"

definition ust_yield :: "'e body \<Rightarrow> 'e ust \<Rightarrow> 'e ust" where
  "ust_yield rest s = s\<lparr>contexts := (contexts s)[current s := rest]\<rparr>"

definition finish_thread :: "'e body \<Rightarrow> 'e ust \<Rightarrow> 'e ust" where
  "finish_thread rest s = s\<lparr>active := (active s)[current s := False], contexts := (contexts s)[current s := rest]\<rparr>"

text \<open>A thread runs from \<open>swapcontext\<close> to the next swap to the scheduler; \<open>thread_helper\<close> finishes it when its function returns.\<close>

fun thread_helper :: "(nat list \<Rightarrow> nat) \<Rightarrow> 'e body \<Rightarrow> 'e ust \<Rightarrow> nat + 'e ust" where
  "thread_helper malloc Return s = Inr (finish_thread Return s)"
| "thread_helper malloc (Emit e b) s = thread_helper malloc b (s\<lparr>trace := trace s @ [e]\<rparr>)"
| "thread_helper malloc (Create fn b) s =
     (case create_new_thread malloc fn s of Inl code \<Rightarrow> Inl code | Inr s \<Rightarrow> thread_helper malloc b s)"
| "thread_helper malloc (Yield b) s = Inr (ust_yield b s)"
| "thread_helper malloc Finish s = Inr (finish_thread Return s)"

definition schedule_slot :: "(nat list \<Rightarrow> nat) \<Rightarrow> nat \<Rightarrow> bool \<times> 'e ust \<Rightarrow> nat + bool \<times> 'e ust" where
  "schedule_slot malloc i = (\<lambda>(run, s).
     if active s ! i
     then (case thread_helper malloc (contexts s ! i) (s\<lparr>current := i\<rparr>) of Inl code \<Rightarrow> Inl code
           | Inr s \<Rightarrow> Inr (True, if active s ! i then s else s\<lparr>blocks := remove1 (ss_sp s ! i) (blocks s)\<rparr>))
     else Inr (run, s))"

partial_function (option) schedule_for :: "(nat list \<Rightarrow> nat) \<Rightarrow> nat \<Rightarrow> bool \<times> 'e ust \<Rightarrow> (nat + bool \<times> 'e ust) option" where
  "schedule_for malloc i rs =
     (if i < num_threads (snd rs)
      then (case schedule_slot malloc i rs of Inl code \<Rightarrow> Some (Inl code) | Inr rs \<Rightarrow> schedule_for malloc (Suc i) rs)
      else Some (Inr rs))"

partial_function (option) schedule_threads :: "(nat list \<Rightarrow> nat) \<Rightarrow> 'e ust \<Rightarrow> (nat + 'e ust) option" where
  "schedule_threads malloc s =
     Option.bind (schedule_for malloc 0 (False, s))
       (\<lambda>r. case r of Inl code \<Rightarrow> Some (Inl code)
          | Inr (run, s) \<Rightarrow> if run then schedule_threads malloc s else Some (Inr s))"

section \<open>Slots and stacks\<close>

definition used :: "'e ust \<Rightarrow> nat set" where
  "used s = {i. i < MAX_THREADS \<and> active s ! i}"

definition stacks :: "'e ust \<Rightarrow> nat set \<Rightarrow> nat multiset" where
  "stacks s A = image_mset (\<lambda>i. ss_sp s ! i) (mset_set A)"

text \<open>The slots in use are below \<open>num_threads\<close>, and the blocks in use are the base \<open>H\<close> and the stack of each slot of \<open>A\<close>.\<close>

definition ust_ok :: "nat multiset \<Rightarrow> nat set \<Rightarrow> 'e ust \<Rightarrow> bool" where
  "ust_ok H A s \<longleftrightarrow>
     length (contexts s) = MAX_THREADS \<and> length (ss_sp s) = MAX_THREADS \<and> length (active s) = MAX_THREADS \<and>
     num_threads s \<le> MAX_THREADS \<and> used s \<subseteq> {..<num_threads s} \<and> mset (blocks s) = H + stacks s A"

definition cost :: "'e ust \<Rightarrow> nat set \<Rightarrow> nat" where
  "cost s A = (\<Sum>i\<in>A. Suc (size (contexts s ! i)))"

lemma finite_used [simp]: "finite (used s)"
  by (simp add: used_def)

lemma find_empty_from_spec:
  "i < MAX_THREADS \<Longrightarrow>
   (case find_empty_from i act of Some k \<Rightarrow> i \<le> k \<and> k < MAX_THREADS \<and> \<not> act ! k \<and> (\<forall>j. i \<le> j \<and> j < k \<longrightarrow> act ! j)
    | None \<Rightarrow> \<forall>j. i \<le> j \<and> j < MAX_THREADS \<longrightarrow> act ! j)"
proof (induction i act rule: find_empty_from.induct)
  case (1 i act)
  show ?case
  proof (cases "\<not> act ! i \<or> Suc i \<ge> MAX_THREADS")
    case True
    have "act ! j" if "act ! i" "i \<le> j" "j < MAX_THREADS" "MAX_THREADS \<le> Suc i" for j
      using that by (metis leD le_less_Suc_eq less_le_trans)
    then show ?thesis using 1(2) True by (subst find_empty_from.simps) auto
  next
    case False
    then have e: "find_empty_from i act = find_empty_from (Suc i) act" by (subst find_empty_from.simps) simp
    have "Suc i \<le> j \<or> act ! j" if "i \<le> j" for j using that False by (cases "j = i") auto
    then show ?thesis using 1(1) False unfolding e by (fastforce split: option.splits)
  qed
qed

lemma find_empty_Some:
  "find_empty s = Some k \<Longrightarrow> k < MAX_THREADS \<and> \<not> active s ! k \<and> (\<forall>j < k. active s ! j)"
  using find_empty_from_spec [of 0 "active s"] by (simp add: find_empty_def MAX_THREADS_def)

lemma find_empty_None: "find_empty s = None \<longleftrightarrow> used s = {..<MAX_THREADS}"
  using find_empty_from_spec [of 0 "active s"] by (auto simp: find_empty_def used_def MAX_THREADS_def split: option.splits)

lemma used_update:
  "length (active s) = MAX_THREADS \<Longrightarrow> i < MAX_THREADS \<Longrightarrow>
   {j. j < MAX_THREADS \<and> (active s)[i := v] ! j} = (if v then insert i (used s) else used s - {i})"
  by (auto simp: used_def nth_list_update)

lemma stacks_cong: "(\<And>i. i \<in> A \<Longrightarrow> ss_sp s ! i = ss_sp s' ! i) \<Longrightarrow> finite A \<Longrightarrow> stacks s A = stacks s' A"
  unfolding stacks_def by (rule image_mset_cong) simp

lemma create_spec:
  assumes ok: "ust_ok H (used s) s" and c: "create_new_thread malloc fn s = Inr s'"
  shows "\<exists>k < MAX_THREADS. k \<notin> used s \<and> {..<k} \<subseteq> used s \<and> used s' = insert k (used s) \<and> ust_ok H (used s') s' \<and>
     contexts s' = (contexts s)[k := fn] \<and> current s' = current s \<and> trace s' = trace s \<and> num_threads s' = max (num_threads s) (Suc k)"
proof -
  obtain k where k: "find_empty s = Some k" using c
    by (auto simp: create_new_thread_def create_new_parameterized_thread_def split: option.splits)
  note ks = find_empty_Some [OF k]
  define sp where "sp = malloc (blocks s)"
  have s': "s' = s\<lparr>blocks := sp # blocks s, ss_sp := (ss_sp s)[k := sp], contexts := (contexts s)[k := fn],
      active := (active s)[k := True], num_threads := max (num_threads s) (Suc k)\<rparr>"
    using c k by (auto simp: create_new_thread_def create_new_parameterized_thread_def Let_def sp_def split: if_splits)
  have u: "used s' = insert k (used s)" using used_update [of s k True] ok ks by (simp add: s' used_def ust_ok_def)
  have "k \<notin> used s" using ks by (simp add: used_def)
  then have "stacks s' (used s') = {#sp#} + stacks s (used s)"
  proof -
    have "stacks s' (used s) = stacks s (used s)" using \<open>k \<notin> used s\<close> by (intro stacks_cong) (simp_all add: s', metis nth_list_update_neq)
    moreover have "ss_sp s' ! k = sp" using ks ok by (simp add: s' ust_ok_def)
    ultimately show ?thesis using \<open>k \<notin> used s\<close> unfolding u by (simp add: stacks_def)
  qed
  then have "ust_ok H (used s') s'" using ok ks u by (auto simp: ust_ok_def s')
  moreover have "{..<k} \<subseteq> used s" using ks by (auto simp: used_def)
  ultimately show ?thesis using ks u \<open>k \<notin> used s\<close> by (intro exI [of _ k]) (simp add: s')
qed

lemma finish_spec:
  assumes ok: "ust_ok H (used s) s" and c: "current s \<in> used s"
  shows "used (finish_thread b s) = used s - {current s}" "ust_ok H (used s) (finish_thread b s)"
    "cost (finish_thread b s) (used s - {current s}) = cost s (used s - {current s})"
proof -
  show u: "used (finish_thread b s) = used s - {current s}"
    using used_update [of s "current s" False] ok c by (simp add: finish_thread_def used_def ust_ok_def)
  show "ust_ok H (used s) (finish_thread b s)" using ok u by (auto simp: ust_ok_def finish_thread_def stacks_def)
  show "cost (finish_thread b s) (used s - {current s}) = cost s (used s - {current s})"
    by (auto simp: cost_def finish_thread_def intro!: sum.cong)
qed

lemma cost_insert:
  "finite A \<Longrightarrow> i \<notin> A \<Longrightarrow> i < length (contexts s) \<Longrightarrow> contexts s' = (contexts s)[i := b] \<Longrightarrow>
   cost s' (insert i A) = Suc (size b) + cost s A"
  by (auto simp: cost_def nth_list_update intro!: sum.cong)

lemma thread_helper_spec:
  "ust_ok H (used s) s \<Longrightarrow> current s \<in> used s \<Longrightarrow> thread_helper malloc b s = Inr s' \<Longrightarrow>
   ust_ok H (insert (current s) (used s')) s' \<and> current s' = current s \<and>
   cost s' (used s') < Suc (size b) + cost s (used s - {current s})"
proof (induction malloc b s rule: thread_helper.induct)
  case (2 malloc e b s)
  have "ust_ok H (used (s\<lparr>trace := t\<rparr>)) (s\<lparr>trace := t\<rparr>)" "used (s\<lparr>trace := t\<rparr>) = used s" "cost (s\<lparr>trace := t\<rparr>) A = cost s A" for t A
    using 2(2) by (auto simp: ust_ok_def used_def stacks_def cost_def)
  then show ?case using 2 by (fastforce dest: less_SucI)
next
  case (3 malloc fn b s)
  then obtain s1 where s1: "create_new_thread malloc fn s = Inr s1" "thread_helper malloc b s1 = Inr s'" by (auto split: sum.splits)
  then obtain k where k: "k < MAX_THREADS" "k \<notin> used s" "used s1 = insert k (used s)" "ust_ok H (used s1) s1"
      "contexts s1 = (contexts s)[k := fn]" "current s1 = current s"
    using create_spec [OF 3(2)] by metis
  have "used s1 - {current s1} = insert k (used s - {current s})" using k(2,3,6) 3(3) by auto
  moreover have "cost s1 (insert k (used s - {current s})) = Suc (size fn) + cost s (used s - {current s})"
    using cost_insert k(1,2,5) 3(2) by (metis Diff_iff finite_Diff finite_used ust_ok_def)
  ultimately show ?case using 3(1) [OF s1(1) k(4) _ s1(2)] 3(3) k(3,6) by simp
next
  case (4 malloc b s)
  have u: "used (ust_yield b s) = used s" by (simp add: ust_yield_def used_def)
  have "cost (ust_yield b s) (insert (current s) (used s - {current s})) = Suc (size b) + cost s (used s - {current s})"
    using 4 by (intro cost_insert) (auto simp: ust_yield_def ust_ok_def used_def)
  moreover have "ust_ok H (used s) (ust_yield b s)" using 4(1) u by (auto simp: ust_yield_def ust_ok_def stacks_def)
  ultimately show ?case using 4 u by (auto simp: insert_absorb) (simp add: ust_yield_def)
qed (auto simp: finish_spec insert_absorb, simp_all add: finish_thread_def)

section \<open>The scheduler returns\<close>

lemma thread_helper_exit: "thread_helper malloc b s = Inl code \<Longrightarrow> code = 1"
  by (induction malloc b s rule: thread_helper.induct)
    (auto simp: create_new_thread_def create_new_parameterized_thread_def Let_def split: sum.splits option.splits if_splits)

lemma schedule_slot_exit: "schedule_slot malloc i rs = Inl code \<Longrightarrow> code = 1"
  by (auto simp: schedule_slot_def split: prod.splits if_splits sum.splits dest: thread_helper_exit)

lemma schedule_slot_spec:
  assumes ok: "ust_ok H (used s) s" and i: "i < MAX_THREADS" and r: "schedule_slot malloc i (run, s) = Inr (run', s')"
  shows "ust_ok H (used s') s' \<and> (if active s ! i then run' \<and> cost s' (used s') < cost s (used s) else run' = run \<and> s' = s)"
proof (cases "active s ! i")
  case False
  then show ?thesis using ok r by (simp add: schedule_slot_def)
next
  case True
  define s0 where "s0 = s\<lparr>current := i\<rparr>"
  have u: "used s0 = used s" "i \<in> used s" "current s0 = i" using True i by (simp_all add: used_def s0_def)
  have ok0: "ust_ok H (used s0) s0" using ok u by (simp add: ust_ok_def s0_def stacks_def used_def)
  obtain s1 where s1: "thread_helper malloc (contexts s ! i) s0 = Inr s1"
      "run'" "s' = (if active s1 ! i then s1 else s1\<lparr>blocks := remove1 (ss_sp s1 ! i) (blocks s1)\<rparr>)"
    using r True by (auto simp: schedule_slot_def s0_def split: sum.splits)
  have "cost s (used s) = Suc (size (contexts s ! i)) + cost s0 (used s - {i})"
    using u(2) by (simp add: cost_def sum.remove s0_def)
  then have h: "ust_ok H (insert i (used s1)) s1" "cost s1 (used s1) < cost s (used s)"
    using thread_helper_spec [OF ok0 _ s1(1)] u by auto
  have same: "used s' = used s1" "cost s' A = cost s1 A" "stacks s' A = stacks s1 A" for A
    using s1(3) by (simp_all add: used_def cost_def stacks_def)
  have "ust_ok H (used s1) s'"
  proof (cases "active s1 ! i")
    case True
    then show ?thesis using h(1) s1(3) i by (simp add: insert_absorb used_def)
  next
    case False
    then have "i \<notin> used s1" by (simp add: used_def)
    then have "stacks s1 (insert i (used s1)) = add_mset (ss_sp s1 ! i) (stacks s1 (used s1))" by (simp add: stacks_def)
    then show ?thesis using h(1) same(1,3) s1(3) False by (simp add: ust_ok_def)
  qed
  then show ?thesis using h(2) same s1(2) True by simp
qed

lemma schedule_for_ends:
  "ust_ok H (used s) s \<Longrightarrow> \<exists>r. schedule_for malloc i (run, s) = Some r \<and>
     (case r of Inl code \<Rightarrow> code = 1
      | Inr (run', s') \<Rightarrow> ust_ok H (used s') s' \<and>
          (run' \<and> (run \<and> cost s' (used s') \<le> cost s (used s) \<or> cost s' (used s') < cost s (used s)) \<or>
           \<not> run' \<and> \<not> run \<and> s' = s \<and> used s \<subseteq> {..<i}))"
proof (induction "MAX_THREADS - i" arbitrary: i run s rule: less_induct)
  case less
  note ok = less.prems
  show ?case
  proof (cases "i < num_threads s")
    case False
    then have "used s \<subseteq> {..<i}" using ok by (auto simp: ust_ok_def)
    then show ?thesis using False ok by (subst schedule_for.simps) auto
  next
    case True
    then have i: "i < MAX_THREADS" using ok by (simp add: ust_ok_def)
    show ?thesis
    proof (cases "schedule_slot malloc i (run, s)")
      case (Inl code)
      then show ?thesis using True schedule_slot_exit [OF Inl] by (subst schedule_for.simps) simp
    next
      case (Inr rs)
      obtain run1 s1 where rs: "rs = (run1, s1)" by (cases rs)
      note spec = schedule_slot_spec [OF ok i Inr [unfolded rs]]
      then obtain r where r: "schedule_for malloc (Suc i) (run1, s1) = Some r"
          "case r of Inl code \<Rightarrow> code = 1
           | Inr (run', s') \<Rightarrow> ust_ok H (used s') s' \<and>
               (run' \<and> (run1 \<and> cost s' (used s') \<le> cost s1 (used s1) \<or> cost s' (used s') < cost s1 (used s1)) \<or>
                \<not> run' \<and> \<not> run1 \<and> s' = s1 \<and> used s1 \<subseteq> {..<Suc i})"
        using less.hyps [of "Suc i" s1 run1] i by fastforce
      have e: "schedule_for malloc i (run, s) = Some r" using True Inr r(1) by (subst schedule_for.simps) (simp add: rs)
      have "used s \<subseteq> {..<i}" if "\<not> active s ! i" "used s \<subseteq> {..<Suc i}" using that by (auto simp: used_def less_Suc_eq)
      then show ?thesis using e r(2) spec by (cases r) (auto split: if_splits)
    qed
  qed
qed

lemma schedule_threads_ends:
  "ust_ok H (used s) s \<Longrightarrow> \<exists>r. schedule_threads malloc s = Some r \<and>
     (case r of Inl code \<Rightarrow> code = 1 | Inr s' \<Rightarrow> used s' = {} \<and> ust_ok H {} s')"
proof (induction "cost s (used s)" arbitrary: s rule: less_induct)
  case less
  obtain r where "schedule_for malloc 0 (False, s) = Some r" and
    "case r of Inl code \<Rightarrow> code = 1
     | Inr (run', s') \<Rightarrow> ust_ok H (used s') s' \<and>
         (run' \<and> (False \<and> cost s' (used s') \<le> cost s (used s) \<or> cost s' (used s') < cost s (used s)) \<or>
          \<not> run' \<and> \<not> False \<and> s' = s \<and> used s \<subseteq> {..<0})"
    using schedule_for_ends [OF less.prems, of malloc 0 False] by blast
  note r = this
  show ?case
  proof (cases r)
    case (Inl code)
    then show ?thesis using r by (subst schedule_threads.simps) simp
  next
    case (Inr rs)
    obtain run s1 where rs: "rs = (run, s1)" by (cases rs)
    have e: "schedule_threads malloc s = (if run then schedule_threads malloc s1 else Some (Inr s1))"
      using r(1) Inr rs by (subst schedule_threads.simps) simp
    show ?thesis
    proof (cases run)
      case True
      then show ?thesis using less.hyps [of s1] r(2) Inr rs e by simp
    next
      case False
      then show ?thesis using r(2) Inr rs e by auto
    qed
  qed
qed

section \<open>Round robin\<close>

text \<open>A thread given by the work it reports between its yields.\<close>

fun body_of :: "'e list list \<Rightarrow> 'e body" where
  "body_of [] = Return"
| "body_of [es] = foldr Emit es Return"
| "body_of (es # segs) = foldr Emit es (Yield (body_of segs))"

lemma thread_helper_emits:
  "thread_helper malloc (foldr Emit es b) s = thread_helper malloc b (s\<lparr>trace := trace s @ es\<rparr>)"
  by (induction es arbitrary: s) simp_all

lemma thread_helper_body:
  "segs \<noteq> [] \<Longrightarrow> thread_helper malloc (body_of segs) s =
     Inr ((if tl segs = [] then finish_thread Return else ust_yield (body_of (tl segs))) (s\<lparr>trace := trace s @ hd segs\<rparr>))"
  by (cases segs rule: body_of.cases) (simp_all add: thread_helper_emits)

text \<open>The slots hold the threads that have the segments \<open>rs\<close> still to run.\<close>

definition holds :: "'e list list list \<Rightarrow> 'e ust \<Rightarrow> bool" where
  "holds rs s \<longleftrightarrow>
     length (contexts s) = MAX_THREADS \<and> length (active s) = MAX_THREADS \<and>
     num_threads s = length rs \<and> length rs \<le> MAX_THREADS \<and>
     (\<forall>i < length rs. active s ! i = (rs ! i \<noteq> []) \<and> (rs ! i \<noteq> [] \<longrightarrow> contexts s ! i = body_of (rs ! i)))"

lemma schedule_slot_holds:
  assumes h: "holds rs s" and i: "i < length rs"
  shows "\<exists>s'. schedule_slot malloc i (run, s) = Inr (run \<or> rs ! i \<noteq> [], s') \<and> holds (rs[i := tl (rs ! i)]) s' \<and>
     trace s' = trace s @ (if rs ! i = [] then [] else hd (rs ! i))"
proof (cases "rs ! i = []")
  case True
  then have "rs[i := tl (rs ! i)] = rs" by (simp add: list_update_same_conv i)
  then show ?thesis using h i True by (auto simp: schedule_slot_def holds_def)
next
  case False
  then have "contexts s ! i = body_of (rs ! i)" "active s ! i" "i < MAX_THREADS" using h i by (auto simp: holds_def)
  then show ?thesis using h i False
    by (auto simp: schedule_slot_def thread_helper_body holds_def finish_thread_def ust_yield_def nth_list_update)
qed

lemma schedule_for_holds:
  "holds rs s \<Longrightarrow> i \<le> length rs \<Longrightarrow>
   \<exists>s'. schedule_for malloc i (run, s) = Some (Inr (run \<or> (\<exists>r \<in> set (drop i rs). r \<noteq> []), s')) \<and>
     holds (take i rs @ map tl (drop i rs)) s' \<and> trace s' = trace s @ concat (map hd (filter (\<lambda>r. r \<noteq> []) (drop i rs)))"
proof (induction "length rs - i" arbitrary: i run s rs)
  case 0
  then show ?case by (subst schedule_for.simps) (simp add: holds_def)
next
  case (Suc n)
  then have i: "i < length rs" and m: "n = length rs - Suc i" by linarith+
  obtain s1 where s1: "schedule_slot malloc i (run, s) = Inr (run \<or> rs ! i \<noteq> [], s1)" "holds (rs[i := tl (rs ! i)]) s1"
      "trace s1 = trace s @ (if rs ! i = [] then [] else hd (rs ! i))"
    using schedule_slot_holds [OF Suc.prems(1) i] by blast
  have n: "num_threads s = length rs" using Suc.prems(1) by (simp add: holds_def)
  have d: "drop i rs = rs ! i # drop (Suc i) rs" using i by (simp add: Cons_nth_drop_Suc)
  have t: "take (Suc i) (rs[i := x]) = take i rs @ [x]" for x using i by (simp add: take_Suc_conv_app_nth)
  obtain s' where s': "schedule_for malloc (Suc i) (run \<or> rs ! i \<noteq> [], s1) =
        Some (Inr ((run \<or> rs ! i \<noteq> []) \<or> (\<exists>r \<in> set (drop (Suc i) rs). r \<noteq> []), s'))"
      "holds (take i rs @ [tl (rs ! i)] @ map tl (drop (Suc i) rs)) s'"
      "trace s' = trace s1 @ concat (map hd (filter (\<lambda>r. r \<noteq> []) (drop (Suc i) rs)))"
    using Suc.hyps(1) [OF _ s1(2), of "Suc i" "run \<or> rs ! i \<noteq> []"] m i t by auto
  have "schedule_for malloc i (run, s) = schedule_for malloc (Suc i) (run \<or> rs ! i \<noteq> [], s1)"
    using i n s1(1) by (subst schedule_for.simps) simp
  then show ?case using s' s1(3) unfolding d by auto
qed

lemma transpose_round:
  "transpose rs = (if \<exists>r \<in> set rs. r \<noteq> [] then map hd (filter (\<lambda>r. r \<noteq> []) rs) # transpose (map tl rs) else [])"
proof -
  have drop_empty: "transpose rs = transpose (filter (\<lambda>r. r \<noteq> []) rs)" for rs :: "'b list list"
    by (induction rs rule: transpose.induct) (auto simp: transpose_aux_filter_head transpose_aux_filter_tail)
  have "filter (\<lambda>r. r \<noteq> []) (map tl (filter (\<lambda>r. r \<noteq> []) rs)) = filter (\<lambda>r. r \<noteq> []) (map tl rs)" for rs :: "'a list list"
    by (induction rs) auto
  then have tls: "transpose (r # map tl (filter (\<lambda>r. r \<noteq> []) rs)) = transpose (r # map tl rs)" for r and rs :: "'a list list"
    by (subst (1 2) drop_empty) simp
  show ?thesis
  proof (induction rs)
    case (Cons r rs)
    then show ?case by (cases r) (simp_all add: transpose_aux_filter_head transpose_aux_filter_tail tls)
  qed simp
qed

lemma schedule_threads_holds:
  "holds rs s \<Longrightarrow> \<exists>s'. schedule_threads malloc s = Some (Inr s') \<and> trace s' = trace s @ concat (map concat (transpose rs))"
proof (induction "sum_list (map length rs)" arbitrary: rs s rule: less_induct)
  case less
  obtain s1 where s1: "schedule_for malloc 0 (False, s) = Some (Inr (\<exists>r \<in> set rs. r \<noteq> [], s1))" "holds (map tl rs) s1"
      "trace s1 = trace s @ concat (map hd (filter (\<lambda>r. r \<noteq> []) rs))"
    using schedule_for_holds [OF less.prems, of 0 malloc False] by auto
  have e: "schedule_threads malloc s = (if \<exists>r \<in> set rs. r \<noteq> [] then schedule_threads malloc s1 else Some (Inr s1))"
    using s1(1) by (subst schedule_threads.simps) simp
  show ?case
  proof (cases "\<exists>r \<in> set rs. r \<noteq> []")
    case True
    have "sum_list (map length (map tl rs)) < sum_list (map length rs)" using True
    proof (induction rs)
      case (Cons r rs)
      have "sum_list (map length (map tl rs)) \<le> sum_list (map length rs)" by (induction rs) auto
      then show ?case using Cons by (cases r) auto
    qed simp
    from less.hyps [OF this s1(2)] show ?thesis using e True s1(3) by (subst transpose_round) auto
  next
    case False
    then show ?thesis using e s1(3) by (subst transpose_round) (auto simp: filter_empty_conv)
  qed
qed

section \<open>Whole programs\<close>

text \<open>A program that sets the library up, creates threads and schedules them.\<close>

fun create_all :: "(nat list \<Rightarrow> nat) \<Rightarrow> 'e body list \<Rightarrow> 'e ust \<Rightarrow> nat + 'e ust" where
  "create_all malloc [] s = Inr s"
| "create_all malloc (b # bs) s = (case create_new_thread malloc b s of Inl code \<Rightarrow> Inl code | Inr s \<Rightarrow> create_all malloc bs s)"

definition run_program :: "(nat list \<Rightarrow> nat) \<Rightarrow> 'e body list \<Rightarrow> (nat + 'e ust) option" where
  "run_program malloc bs =
     (case create_all malloc bs (initialize_basic_threads ust0) of Inl code \<Rightarrow> Some (Inl code) | Inr s \<Rightarrow> schedule_threads malloc s)"

lemma initialize_ust0 [simp]: "initialize_basic_threads ust0 = ust0"
  by (simp add: initialize_basic_threads_def ust0_def MAX_THREADS_def numeral_eq_Suc)

lemma used_ust0: "used ust0 = {}"
  by (auto simp: used_def ust0_def)

lemma ust_ok_ust0: "ust_ok {#} (used ust0) ust0"
  by (simp add: ust_ok_def used_ust0 stacks_def) (simp add: ust0_def)

lemma create_all_spec:
  "ust_ok H (used s) s \<Longrightarrow> (case create_all malloc bs s of Inl code \<Rightarrow> code = 1 | Inr s' \<Rightarrow> ust_ok H (used s') s')"
proof (induction malloc bs s rule: create_all.induct)
  case (2 malloc b bs s)
  show ?case
  proof (cases "create_new_thread malloc b s")
    case (Inl code)
    then show ?thesis
      by (auto simp: create_new_thread_def create_new_parameterized_thread_def Let_def split: option.splits if_splits)
  next
    case (Inr s1)
    then show ?thesis using 2 create_spec [OF 2(2) Inr] by auto
  qed
qed simp

lemma create_all_holds:
  "(\<And>A. malloc A \<noteq> 0) \<Longrightarrow> ust_ok H (used s) s \<Longrightarrow> holds rs s \<Longrightarrow> used s = {..<length rs} \<Longrightarrow> [] \<notin> set rs \<Longrightarrow> [] \<notin> set segs \<Longrightarrow>
   length rs + length segs \<le> MAX_THREADS \<Longrightarrow>
   \<exists>s'. create_all malloc (map body_of segs) s = Inr s' \<and> holds (rs @ segs) s' \<and> ust_ok H (used s') s' \<and> trace s' = trace s"
proof (induction segs arbitrary: rs s)
  case (Cons seg segs)
  let ?n = "length rs"
  have "used s \<noteq> {..<MAX_THREADS}" using Cons.prems by auto
  then obtain k0 where "find_empty s = Some k0" using find_empty_None by (metis option.exhaust)
  then obtain s1 where c: "create_new_thread malloc (body_of seg) s = Inr s1"
    using Cons.prems(1) by (simp add: create_new_thread_def create_new_parameterized_thread_def Let_def)
  obtain k where k: "k < MAX_THREADS" "k \<notin> used s" "{..<k} \<subseteq> used s" "used s1 = insert k (used s)" "ust_ok H (used s1) s1"
      "contexts s1 = (contexts s)[k := body_of seg]" "trace s1 = trace s" "num_threads s1 = max (num_threads s) (Suc k)"
    using create_spec [OF Cons.prems(2) c] by blast
  have kn: "k = ?n" using k(2,3) Cons.prems(4) by (simp add: lessThan_subset_iff)
  have u: "used s1 = {..<length (rs @ [seg])}" using k(4) kn Cons.prems(4) by auto
  have "active s1 ! i" if "i < length (rs @ [seg])" for i using u that unfolding used_def by blast
  moreover have "rs ! i \<noteq> []" if "i < ?n" for i using Cons.prems(5) that by (metis nth_mem)
  ultimately have "holds (rs @ [seg]) s1" using Cons.prems(3,6) k(1,5,6,8) kn
    by (auto simp: holds_def ust_ok_def nth_append nth_list_update less_Suc_eq)
  from Cons.IH [OF Cons.prems(1) k(5) this u] show ?case using Cons.prems c k(7) by auto
qed auto

text \<open>
  C39. Scheduling ends and leaks nothing. Whatever finite work the threads do, and whatever \<open>malloc\<close> returns, a program that creates threads and schedules them stops: it exits with
  code 1, or \<open>schedule_threads\<close> returns, every thread has finished, and every stack that was allocated, those of the threads created by threads included, has been freed.
\<close>
theorem threads_end:
  "\<exists>r. run_program malloc bs = Some r \<and>
     (case r of Inl code \<Rightarrow> code = 1 | Inr s \<Rightarrow> active s = replicate MAX_THREADS False \<and> blocks s = [])"
proof (cases "create_all malloc bs (ust0 :: 'a ust)")
  case (Inl code)
  then show ?thesis using create_all_spec [OF ust_ok_ust0, of malloc bs] by (simp add: run_program_def)
next
  case (Inr s)
  then have ok: "ust_ok {#} (used s) s" using create_all_spec [OF ust_ok_ust0, of malloc bs] by simp
  have "active s' = replicate MAX_THREADS False \<and> blocks s' = []" if "used s' = {}" "ust_ok {#} {} s'" for s' :: "'a ust"
    using that by (auto simp: ust_ok_def used_def stacks_def intro: nth_equalityI)
  then show ?thesis using schedule_threads_ends [OF ok, of malloc] Inr by (auto simp: run_program_def split: sum.splits)
qed

text \<open>
  C40. The threads run round robin. When up to five threads are created and \<open>malloc\<close> does not fail, the work is done in rounds: first what each thread does up to its first
  yield, in the order the threads were created, then what each thread that is left does up to its second yield, and so on until all have returned.
\<close>
theorem round_robin:
  assumes "length segs \<le> MAX_THREADS" "[] \<notin> set segs" "\<And>A. malloc A \<noteq> 0"
  shows "\<exists>s. run_program malloc (map body_of segs) = Some (Inr s) \<and> trace s = concat (map concat (transpose segs))"
proof -
  have h: "holds [] ust0" and t: "trace ust0 = []" by (simp_all add: holds_def) (simp_all add: ust0_def)
  obtain s where s: "create_all malloc (map body_of segs) ust0 = Inr s" "holds segs s" "trace s = []"
    using create_all_holds [where malloc = malloc, OF assms(3) ust_ok_ust0 h, of segs] assms(1,2) t by (auto simp: used_ust0)
  then show ?thesis using schedule_threads_holds [OF s(2), of malloc] by (simp add: run_program_def)
qed

text \<open>Three threads that yield twice, once and not at all.\<close>
theorem round_robin_witness:
  "\<exists>s. run_program (\<lambda>A. Suc (length A)) (map body_of [[[1], [2], [3 :: nat]], [[10], [20]], [[100]]]) = Some (Inr s) \<and>
     trace s = [1, 10, 100, 2, 20, 3]"
  using round_robin [of "[[[1], [2], [3 :: nat]], [[10], [20]], [[100]]]" "\<lambda>A. Suc (length A)"] by (simp add: MAX_THREADS_def)

end
