(* ===== verification/Pthread.thy ===== *)
theory Pthread
  imports Prelude
begin

text \<open>
  POSIX threads, one mutex and its condition variables, as the exercises of the course use them. A thread runs a list of instructions: taking and releasing the mutex, the
  loop \<open>while (c) pthread_cond_wait(...)\<close> with the notifications its body sends first, statements on the shared variables with the notifications they send, and a jump. A
  step relation interleaves the threads; a waiting thread may also wake up without having been notified. The locale \<open>monitor\<close> collects what an exercise has to show of
  its code, and gives that no run of it gets stuck and, without jumps, that every run ends with all of the threads finished.
\<close>

section \<open>Threads\<close>

datatype notice = Signal nat | Broadcast nat

datatype 'g instr = Lock | Unlock | Wait_while "'g \<Rightarrow> bool" "notice list" nat | Act "'g \<Rightarrow> 'g \<times> notice list" | Goto nat

datatype status = Running | Waiting nat | Woken

record 'g sys =
  shared :: 'g
  owner :: "nat option"
  pc :: "nat \<Rightarrow> nat"
  status :: "nat \<Rightarrow> status"

text \<open>A signal wakes at least one of the threads that wait on the variable, if there is one; a broadcast wakes all of them.\<close>

definition wakes :: "notice \<Rightarrow> nat set \<Rightarrow> (nat \<Rightarrow> status) \<Rightarrow> (nat \<Rightarrow> status) \<Rightarrow> bool" where
  "wakes nt W st st' \<longleftrightarrow>
     (case nt of
        Signal cv \<Rightarrow> W \<subseteq> {t. st t = Waiting cv} \<and> (W = {} \<longrightarrow> (\<forall>t. st t \<noteq> Waiting cv))
      | Broadcast cv \<Rightarrow> W = {t. st t = Waiting cv}) \<and>
     st' = (\<lambda>t. if t \<in> W then Woken else st t)"

inductive notify :: "notice list \<Rightarrow> (nat \<Rightarrow> status) \<Rightarrow> (nat \<Rightarrow> status) \<Rightarrow> bool" where
  notify_Nil: "notify [] st st"
| notify_Cons: "wakes nt W st st1 \<Longrightarrow> notify nts st1 st2 \<Longrightarrow> notify (nt # nts) st st2"

inductive_simps notify_simps: "notify [] st st'" "notify (nt # nts) st st'"

definition advance :: "nat \<Rightarrow> 'g sys \<Rightarrow> 'g sys" where
  "advance t s = s\<lparr>pc := (pc s)(t := Suc (pc s t))\<rparr>"

definition at_instr :: "(nat \<Rightarrow> 'g instr list) \<Rightarrow> 'g sys \<Rightarrow> nat \<Rightarrow> 'g instr \<Rightarrow> bool" where
  "at_instr code s t i \<longleftrightarrow> status s t = Running \<and> pc s t < length (code t) \<and> code t ! pc s t = i"

inductive pstep :: "(nat \<Rightarrow> 'g instr list) \<Rightarrow> nat \<Rightarrow> 'g sys \<Rightarrow> 'g sys \<Rightarrow> bool" for code t s where
  pthread_mutex_lock: "at_instr code s t Lock \<Longrightarrow> owner s = None \<Longrightarrow> pstep code t s (advance t (s\<lparr>owner := Some t\<rparr>))"
| pthread_mutex_unlock: "at_instr code s t Unlock \<Longrightarrow> owner s = Some t \<Longrightarrow> pstep code t s (advance t (s\<lparr>owner := None\<rparr>))"
| wait_done: "at_instr code s t (Wait_while c nts cv) \<Longrightarrow> owner s = Some t \<Longrightarrow> \<not> c (shared s) \<Longrightarrow> pstep code t s (advance t s)"
| pthread_cond_wait: "at_instr code s t (Wait_while c nts cv) \<Longrightarrow> owner s = Some t \<Longrightarrow> c (shared s) \<Longrightarrow> notify nts (status s) st \<Longrightarrow>
    pstep code t s (s\<lparr>owner := None, status := st(t := Waiting cv)\<rparr>)"
| wait_return: "status s t = Woken \<Longrightarrow> owner s = None \<Longrightarrow> pstep code t s (s\<lparr>owner := Some t, status := (status s)(t := Running)\<rparr>)"
| act: "at_instr code s t (Act f) \<Longrightarrow> f (shared s) = (g, nts) \<Longrightarrow> notify nts (status s) st \<Longrightarrow>
    pstep code t s (advance t (s\<lparr>shared := g, status := st\<rparr>))"
| jump: "at_instr code s t (Goto k) \<Longrightarrow> pstep code t s (s\<lparr>pc := (pc s)(t := k)\<rparr>)"

text \<open>A run interleaves the steps of the threads \<open>0\<close> to \<open>n - 1\<close> and spurious wakeups.\<close>

inductive reaches :: "(nat \<Rightarrow> 'g instr list) \<Rightarrow> nat \<Rightarrow> 'g sys \<Rightarrow> 'g sys \<Rightarrow> bool" for code n s0 where
  start: "reaches code n s0 s0"
| thread_step: "reaches code n s0 s \<Longrightarrow> t < n \<Longrightarrow> pstep code t s s' \<Longrightarrow> reaches code n s0 s'"
| spurious: "reaches code n s0 s \<Longrightarrow> t < n \<Longrightarrow> status s t = Waiting cv \<Longrightarrow> reaches code n s0 (s\<lparr>status := (status s)(t := Woken)\<rparr>)"

definition init_sys :: "'g \<Rightarrow> 'g sys" where
  "init_sys g = \<lparr>shared = g, owner = None, pc = (\<lambda>_. 0), status = (\<lambda>_. Running)\<rparr>"

definition finished :: "(nat \<Rightarrow> 'g instr list) \<Rightarrow> 'g sys \<Rightarrow> nat \<Rightarrow> bool" where
  "finished code s t \<longleftrightarrow> status s t = Running \<and> pc s t = length (code t)"

section \<open>The lock discipline\<close>

fun held :: "'g instr list \<Rightarrow> nat \<Rightarrow> bool" where
  "held xs 0 = False"
| "held xs (Suc k) = (case xs ! k of Lock \<Rightarrow> True | Unlock \<Rightarrow> False | _ \<Rightarrow> held xs k)"

definition disciplined :: "'g instr list \<Rightarrow> bool" where
  "disciplined xs \<longleftrightarrow> \<not> held xs (length xs) \<and>
     (\<forall>k < length xs. case xs ! k of Lock \<Rightarrow> \<not> held xs k | Unlock \<Rightarrow> held xs k | Wait_while c nts cv \<Rightarrow> held xs k
        | Act f \<Rightarrow> True | Goto j \<Rightarrow> j \<le> length xs \<and> held xs j = held xs k)"

text \<open>The same for code without jumps, as a recursion; it splits at the end of a locked region.\<close>

fun locks :: "bool \<Rightarrow> 'g instr list \<Rightarrow> bool" where
  "locks h [] = (\<not> h)"
| "locks h (Lock # xs) = (\<not> h \<and> locks True xs)"
| "locks h (Unlock # xs) = (h \<and> locks False xs)"
| "locks h (Wait_while c nts cv # xs) = (h \<and> locks h xs)"
| "locks h (Act f # xs) = locks h xs"
| "locks h (Goto j # xs) = False"

lemma locks_append: "locks h xs \<Longrightarrow> locks h (xs @ ys) = locks False ys"
  by (induction h xs rule: locks.induct) auto

lemma locks_concat: "locks False xs \<Longrightarrow> locks False (concat (replicate k xs) @ ys) = locks False ys"
  by (induction k) (auto simp: locks_append)

lemma locks_drop: "locks (held xs k) (drop k xs) \<Longrightarrow> k < length xs \<Longrightarrow> locks (held xs (Suc k)) (drop (Suc k) xs)"
  by (cases "xs ! k") (auto simp: Cons_nth_drop_Suc [symmetric])

lemma locks_disciplined:
  assumes "locks False xs"
  shows "disciplined xs"
proof -
  have l: "locks (held xs k) (drop k xs)" if "k \<le> length xs" for k
    using that by (induction k) (simp add: assms, metis Suc_le_eq Suc_leD locks_drop)
  have "case xs ! k of Lock \<Rightarrow> \<not> held xs k | Unlock \<Rightarrow> held xs k | Wait_while c nts cv \<Rightarrow> held xs k | Act f \<Rightarrow> True
      | Goto j \<Rightarrow> j \<le> length xs \<and> held xs j = held xs k" if "k < length xs" for k
    using l [of k] that by (cases "xs ! k") (auto simp: Cons_nth_drop_Suc [symmetric])
  then show ?thesis using l [of "length xs"] by (simp add: disciplined_def)
qed

text \<open>Code that repeats a block.\<close>

lemma nth_repeat:
  "xs \<noteq> [] \<Longrightarrow> (concat (replicate k xs) @ ys) ! p = (if p < k * length xs then xs ! (p mod length xs) else ys ! (p - k * length xs))"
proof (induction k arbitrary: p)
  case (Suc k)
  have "(concat (replicate (Suc k) xs) @ ys) ! p = (if p < length xs then xs ! p else (concat (replicate k xs) @ ys) ! (p - length xs))"
    by (simp add: nth_append)
  then show ?case using Suc by (auto simp: le_mod_geq)
qed simp

lemma held_append: "\<not> held xs (length xs) \<Longrightarrow> held (xs @ ys) p = (if p < length xs then held xs p else held ys (p - length xs))"
proof (induction p)
  case (Suc p)
  have "held (xs @ ys) (Suc p) = held xs (Suc p)" if "p < length xs" using Suc that by (simp add: nth_append split: instr.split)
  moreover have "held (xs @ ys) (Suc p) = held ys (Suc p - length xs)" if "\<not> p < length xs"
    using Suc that by (simp add: nth_append Suc_diff_le split: instr.split)
  moreover have "held xs (Suc p) = held ys (Suc p - length xs)" if "Suc p = length xs" unfolding that using Suc.prems by simp
  ultimately show ?case by (cases "Suc p < length xs"; cases "p < length xs") (simp_all add: less_Suc_eq del: held.simps(2))
qed auto

lemma held_repeat:
  "xs \<noteq> [] \<Longrightarrow> \<not> held xs (length xs) \<Longrightarrow>
   held (concat (replicate k xs) @ ys) p = (if p < k * length xs then held xs (p mod length xs) else held ys (p - k * length xs))"
proof (induction k arbitrary: p)
  case (Suc k)
  have "held (concat (replicate (Suc k) xs) @ ys) p = (if p < length xs then held xs p else held (concat (replicate k xs) @ ys) (p - length xs))"
    using held_append [OF Suc.prems(2)] by simp
  then show ?case using Suc by (auto simp: le_mod_geq)
qed simp

text \<open>The thread that owns the mutex is the one that is running inside a locked region; the threads that wait are at a wait.\<close>

definition lock_ok :: "(nat \<Rightarrow> 'g instr list) \<Rightarrow> nat \<Rightarrow> 'g sys \<Rightarrow> bool" where
  "lock_ok code n s \<longleftrightarrow>
     (\<forall>t < n. pc s t \<le> length (code t) \<and> (owner s = Some t \<longleftrightarrow> status s t = Running \<and> held (code t) (pc s t)) \<and>
        (status s t \<noteq> Running \<longrightarrow> pc s t < length (code t) \<and> held (code t) (pc s t) \<and>
           (\<exists>c nts cv. code t ! pc s t = Wait_while c nts cv \<and> (status s t = Woken \<or> status s t = Waiting cv)))) \<and>
     (\<forall>t. owner s = Some t \<longrightarrow> t < n) \<and> (\<forall>t. n \<le> t \<longrightarrow> status s t = Running)"

fun cv_of :: "notice \<Rightarrow> nat" where
  "cv_of (Signal cv) = cv"
| "cv_of (Broadcast cv) = cv"

lemma notify_woken_by:
  "notify nts st st' \<Longrightarrow> st' t = st t \<or> (\<exists>cv \<in> cv_of ` set nts. st t = Waiting cv) \<and> st' t = Woken"
  by (induction rule: notify.induct) (auto simp: wakes_def split: notice.splits if_splits)

lemma notify_woken:
  "notify nts st st' \<Longrightarrow> st' t = st t \<or> (\<exists>cv. st t = Waiting cv) \<and> st' t = Woken"
  using notify_woken_by [of nts st st' t] by auto

lemma notify_running: "notify nts st st' \<Longrightarrow> st' t = Running \<longleftrightarrow> st t = Running"
  using notify_woken [of nts st st' t] by auto

lemma notify_waiting: "notify nts st st' \<Longrightarrow> st' t = Waiting cv \<Longrightarrow> st t = Waiting cv"
  using notify_woken [of nts st st' t] by auto

lemma notify_broadcast: "notify [Broadcast cv] st st' \<Longrightarrow> st' t \<noteq> Waiting cv"
  by (auto simp: notify_simps wakes_def)

lemma notify_exists: "\<exists>st'. notify nts st st'"
proof (induction nts arbitrary: st)
  case (Cons nt nts)
  have "\<exists>W st1. wakes nt W st st1" by (cases nt) (auto simp: wakes_def)
  then show ?case using Cons by (blast intro: notify_Cons)
qed (blast intro: notify_Nil)

lemma advance_simps [simp]:
  "shared (advance t s) = shared s" "owner (advance t s) = owner s" "status (advance t s) = status s"
  "pc (advance t s) = (pc s)(t := Suc (pc s t))"
  by (simp_all add: advance_def)

lemma lock_ok_init: "lock_ok code n (init_sys g)"
  by (simp add: lock_ok_def init_sys_def)

lemma disciplinedD:
  assumes "disciplined xs" "k < length xs"
  shows "xs ! k = Lock \<Longrightarrow> \<not> held xs k" "xs ! k = Unlock \<Longrightarrow> held xs k" "xs ! k = Wait_while c nts cv \<Longrightarrow> held xs k"
    "xs ! k = Goto j \<Longrightarrow> j \<le> length xs \<and> held xs j = held xs k"
  using assms by (auto simp: disciplined_def split: instr.splits)

lemma lock_ok_other:
  assumes "lock_ok code n s" "t < n" "pc s' = (pc s)(t := k)" "\<And>u. u \<noteq> t \<Longrightarrow> status s' u = status s u \<or> (\<exists>cv. status s u = Waiting cv) \<and> status s' u = Woken"
    "owner s' = owner s \<or> owner s' = Some t \<and> owner s = None \<or> owner s' = None \<and> owner s = Some t"
    "k \<le> length (code t)" "owner s' = Some t \<longleftrightarrow> status s' t = Running \<and> held (code t) k"
    "status s' t \<noteq> Running \<Longrightarrow> k < length (code t) \<and> held (code t) k \<and>
       (\<exists>c nts cv. code t ! k = Wait_while c nts cv \<and> (status s' t = Woken \<or> status s' t = Waiting cv))"
  shows "lock_ok code n s'"
proof -
  have "owner s' = Some u \<longleftrightarrow> owner s = Some u" if "u \<noteq> t" for u using assms(5) that by auto
  moreover have "status s' u = Running \<longleftrightarrow> status s u = Running" if "u \<noteq> t" for u using assms(4) [OF that] by auto
  moreover have "\<exists>c nts cv. code u ! pc s u = Wait_while c nts cv \<and> (status s' u = Woken \<or> status s' u = Waiting cv)"
    if "u \<noteq> t" "u < n" "status s u \<noteq> Running" for u
    using assms(1,4) that unfolding lock_ok_def by (metis status.distinct(5))
  ultimately show ?thesis using assms unfolding lock_ok_def
    by (intro conjI allI impI) (auto simp: fun_upd_def split: if_splits)
qed

lemma lock_ok_step:
  assumes d: "\<And>t. t < n \<Longrightarrow> disciplined (code t)" and ok: "lock_ok code n s" and t: "t < n" and st: "pstep code t s s'"
  shows "lock_ok code n s'"
  using st
proof cases
  case pthread_mutex_lock
  then show ?thesis using t by (intro lock_ok_other [OF ok t, of s' "Suc (pc s t)"]) (auto simp: at_instr_def)
next
  case pthread_mutex_unlock
  then show ?thesis using t by (intro lock_ok_other [OF ok t, of s' "Suc (pc s t)"]) (auto simp: at_instr_def)
next
  case wait_done
  then show ?thesis using t ok by (intro lock_ok_other [OF ok t, of s' "Suc (pc s t)"]) (auto simp: at_instr_def lock_ok_def)
next
  case pthread_cond_wait
  then show ?thesis using t disciplinedD(3) [OF d [OF t], of "pc s t"] notify_woken [OF pthread_cond_wait(5)]
    by (intro lock_ok_other [OF ok t, of s' "pc s t"]) (auto simp: at_instr_def)
next
  case wait_return
  then show ?thesis using t ok by (intro lock_ok_other [OF ok t, of s' "pc s t"]) (auto simp: lock_ok_def)
next
  case (act f g nts st)
  then show ?thesis using t ok notify_woken [OF act(4)] notify_running [OF act(4), of t]
    by (intro lock_ok_other [OF ok t, of s' "Suc (pc s t)"]) (auto simp: at_instr_def lock_ok_def)
next
  case (jump k)
  then show ?thesis using t ok disciplinedD(4) [OF d [OF t], of "pc s t"]
    by (intro lock_ok_other [OF ok t, of s' k]) (auto simp: at_instr_def lock_ok_def)
qed

lemma lock_ok_owner:
  assumes "lock_ok code n s" "t < n" "status s t = Running" "held (code t) (pc s t)"
  shows "owner s = Some t"
  using assms by (auto simp: lock_ok_def)

lemma lock_ok_pc: "lock_ok code n s \<Longrightarrow> t < n \<Longrightarrow> pc s t \<le> length (code t)"
  by (simp add: lock_ok_def)

lemma lock_ok_wait:
  assumes "lock_ok code n s" "t < n" "status s t \<noteq> Running"
  obtains c nts cv where "pc s t < length (code t)" "code t ! pc s t = Wait_while c nts cv" "status s t = Woken \<or> status s t = Waiting cv"
  using assms unfolding lock_ok_def by blast

lemma lock_ok_running:
  assumes "lock_ok code n s" "t < n" "\<And>c nts cv. code t ! pc s t \<noteq> Wait_while c nts cv"
  shows "status s t = Running"
  using assms unfolding lock_ok_def by blast

text \<open>A thread inside a locked region, and not at a wait, is alone there.\<close>

lemma lock_ok_alone:
  assumes "lock_ok code n s" "t < n" "u < n" "owner s = Some t" "held (code u) (pc s u)" "\<And>c nts cv. code u ! pc s u \<noteq> Wait_while c nts cv"
  shows "u = t"
  using lock_ok_owner [OF assms(1,3) lock_ok_running [OF assms(1,3,6)] assms(5)] assms(4) by simp

lemma lock_ok_spurious:
  assumes "lock_ok code n s" "t < n" "status s t = Waiting cv"
  shows "lock_ok code n (s\<lparr>status := (status s)(t := Woken)\<rparr>)"
  using assms by (intro lock_ok_other [OF assms(1,2), of _ "pc s t"]) (auto simp: lock_ok_def)

text \<open>Only a state in which nobody runs can be stuck.\<close>

lemma stuck_waiting:
  assumes d: "\<And>t. t < n \<Longrightarrow> disciplined (code t)" and ok: "lock_ok code n s" and stuck: "\<And>t s'. t < n \<Longrightarrow> \<not> pstep code t s s'" and t: "t < n"
  shows "finished code s t \<or> (\<exists>cv. status s t = Waiting cv)"
proof -
  have run: "pc s u = length (code u) \<or> (code u ! pc s u = Lock \<and> owner s \<noteq> None)" if u: "u < n" "status s u = Running" for u
  proof (rule ccontr)
    assume "\<not> ?thesis"
    then have k: "pc s u < length (code u)" "code u ! pc s u = Lock \<longrightarrow> owner s = None" using ok u by (auto simp: lock_ok_def le_neq_implies_less)
    have o: "held (code u) (pc s u) \<longleftrightarrow> owner s = Some u" using ok u by (auto simp: lock_ok_def)
    have a: "at_instr code s u (code u ! pc s u)" using k u by (simp add: at_instr_def)
    note st = stuck [OF u(1)] and D = disciplinedD [OF d [OF u(1)] k(1)]
    show False
    proof (cases "code u ! pc s u")
      case Lock
      then show False using st k a pstep.pthread_mutex_lock [of code s u] by simp
    next
      case Unlock
      then show False using st a o D(2) pstep.pthread_mutex_unlock [of code s u] by simp
    next
      case (Wait_while c nts cv)
      then show False using st a o D(3) notify_exists [of nts "status s"]
        by (metis pstep.pthread_cond_wait pstep.wait_done)
    next
      case (Act f)
      then show False using st a notify_exists by (metis pstep.act surj_pair)
    next
      case (Goto j)
      then show False using st a pstep.jump [of code s u j] by simp
    qed
  qed
  have "owner s = None"
  proof (rule ccontr)
    assume "owner s \<noteq> None"
    then obtain u where u: "owner s = Some u" "u < n" using ok by (auto simp: lock_ok_def)
    then have h: "status s u = Running" "held (code u) (pc s u)" "pc s u \<le> length (code u)" using ok by (auto simp: lock_ok_def)
    then show False using run [OF u(2) h(1)] d [OF u(2)] disciplinedD(1) [OF d [OF u(2)], of "pc s u"]
      by (auto simp: disciplined_def le_less)
  qed
  then show ?thesis using run [OF t] stuck [OF t] pstep.wait_return [of s t code] unfolding finished_def by (cases "status s t") auto
qed

section \<open>Runs that end\<close>

text \<open>Whatever the threads do from here, they come to a state with \<open>P\<close>.\<close>

inductive inevitably :: "(nat \<Rightarrow> 'g instr list) \<Rightarrow> nat \<Rightarrow> ('g sys \<Rightarrow> bool) \<Rightarrow> 'g sys \<Rightarrow> bool" for code n P where
  now: "P s \<Longrightarrow> inevitably code n P s"
| later: "t < n \<Longrightarrow> pstep code t s s' \<Longrightarrow> (\<And>t s'. t < n \<Longrightarrow> pstep code t s s' \<Longrightarrow> inevitably code n P s') \<Longrightarrow> inevitably code n P s"

fun rank :: "status \<Rightarrow> nat" where
  "rank Running = 1"
| "rank (Waiting cv) = 0"
| "rank Woken = 2"

definition left :: "(nat \<Rightarrow> 'g instr list) \<Rightarrow> nat \<Rightarrow> 'g sys \<Rightarrow> nat" where
  "left code n s = (\<Sum>t<n. length (code t) - pc s t)"

definition ranks :: "(nat \<Rightarrow> nat) \<Rightarrow> nat \<Rightarrow> (nat \<Rightarrow> status) \<Rightarrow> nat" where
  "ranks w n st = (\<Sum>t<n. w t * rank (st t))"

definition waiters :: "(nat \<Rightarrow> 'g instr list) \<Rightarrow> nat \<Rightarrow> nat set \<Rightarrow> nat set" where
  "waiters code n cvs = {t. t < n \<and> (\<exists>c nts cv. Wait_while c nts cv \<in> set (code t) \<and> cv \<in> cvs)}"

lemma sum_upd_less:
  fixes f :: "nat \<Rightarrow> nat"
  assumes "t < n" "g t < f t" "\<And>u. u \<noteq> t \<Longrightarrow> g u = f u"
  shows "(\<Sum>u<n. g u) < (\<Sum>u<n. f u)"
proof (rule sum_strict_mono_ex1)
  show "\<forall>u \<in> {..<n}. g u \<le> f u" using assms(2,3) by (metis eq_imp_le less_imp_le)
  show "\<exists>u \<in> {..<n}. g u < f u" using assms by blast
qed simp

lemma left_advance:
  "at_instr code s t i \<Longrightarrow> t < n \<Longrightarrow> pc s' = (pc s)(t := Suc (pc s t)) \<Longrightarrow> left code n s' < left code n s"
  unfolding left_def by (rule sum_upd_less [of t]) (auto simp: at_instr_def)

lemma ranks_notify:
  assumes ok: "lock_ok code n s" and nt: "notify nts (status s) st"
  shows "ranks w n st \<le> ranks w n (status s) + 2 * (\<Sum>t \<in> waiters code n (cv_of ` set nts). w t)"
proof -
  let ?W = "waiters code n (cv_of ` set nts)"
  have "w t * rank (st t) \<le> w t * rank (status s t) + (if t \<in> ?W then 2 * w t else 0)" if t: "t < n" for t
  proof (cases "st t = status s t")
    case False
    then obtain cv where cv: "cv \<in> cv_of ` set nts" "status s t = Waiting cv" "st t = Woken" using notify_woken_by [OF nt, of t] by auto
    have "\<exists>c nts. code t ! pc s t = Wait_while c nts cv \<and> pc s t < length (code t)" using ok t cv(2) unfolding lock_ok_def by fastforce
    then have "t \<in> ?W" using t cv(1) unfolding waiters_def by (metis (mono_tags, lifting) mem_Collect_eq nth_mem)
    then show ?thesis using cv by simp
  qed simp
  then have "ranks w n st \<le> (\<Sum>t<n. w t * rank (status s t) + (if t \<in> ?W then 2 * w t else 0))"
    unfolding ranks_def by (intro sum_mono) simp
  also have "\<dots> = ranks w n (status s) + (\<Sum>t \<in> {..<n} \<inter> ?W. 2 * w t)" by (simp add: ranks_def sum.distrib sum.inter_restrict)
  also have "{..<n} \<inter> ?W = ?W" by (auto simp: waiters_def)
  finally show ?thesis by (simp add: sum_distrib_left)
qed

lemma pstep_decreases:
  assumes ok: "lock_ok code n s" and t: "t < n" and st: "pstep code t s s'" and straight: "\<And>k. Goto k \<notin> set (code t)"
    and w: "\<And>c nts cv. Wait_while c nts cv \<in> set (code t) \<Longrightarrow> 2 * (\<Sum>u \<in> waiters code n (cv_of ` set nts). w u) < w t"
  shows "left code n s' < left code n s \<or> left code n s' = left code n s \<and> ranks w n (status s') < ranks w n (status s)"
  using st
proof cases
  case (pthread_cond_wait c nts cv st)
  then have i: "Wait_while c nts cv \<in> set (code t)" and r: "st t = Running" "status s t = Running"
    using notify_running [OF pthread_cond_wait(5), of t] by (auto simp: at_instr_def in_set_conv_nth)
  have "ranks w n (st(t := Waiting cv)) + w t \<le> ranks w n st"
    using t r(1) by (auto simp: ranks_def sum.remove [of "{..<n}" t] intro!: sum.cong)
  then show ?thesis using ranks_notify [OF ok pthread_cond_wait(5), of w] w [OF i] pthread_cond_wait(1) by (simp add: left_def)
next
  case wait_return
  then have i: "\<exists>c nts cv. Wait_while c nts cv \<in> set (code t)" using ok t unfolding lock_ok_def by (metis nth_mem status.distinct(3))
  then have "0 < w t" using w by (metis gr_zeroI not_less0)
  then have "ranks w n ((status s)(t := Running)) < ranks w n (status s)"
    using wait_return(2) t unfolding ranks_def by (intro sum_upd_less [of t]) auto
  then show ?thesis using wait_return(1) by (simp add: left_def)
next
  case (jump k)
  then show ?thesis using straight [of k] by (auto simp: at_instr_def in_set_conv_nth)
qed (use left_advance t in force)+

section \<open>Monitors\<close>

locale monitor =
  fixes code :: "nat \<Rightarrow> 'g instr list" and n :: nat and g0 :: 'g and inv :: "'g sys \<Rightarrow> bool"
  assumes disciplined_code: "t < n \<Longrightarrow> disciplined (code t)"
    and inv_init: "inv (init_sys g0)"
    and inv_step: "t < n \<Longrightarrow> lock_ok code n s \<Longrightarrow> inv s \<Longrightarrow> pstep code t s s' \<Longrightarrow> inv s'"
    and inv_spurious: "t < n \<Longrightarrow> lock_ok code n s \<Longrightarrow> inv s \<Longrightarrow> status s t = Waiting cv \<Longrightarrow> inv (s\<lparr>status := (status s)(t := Woken)\<rparr>)"
    and not_all_waiting: "lock_ok code n s \<Longrightarrow> inv s \<Longrightarrow> (\<And>t. t < n \<Longrightarrow> finished code s t \<or> (\<exists>cv. status s t = Waiting cv)) \<Longrightarrow>
      t < n \<Longrightarrow> finished code s t"
begin

lemma reaches_inv: "reaches code n (init_sys g0) s \<Longrightarrow> lock_ok code n s \<and> inv s"
  by (induction rule: reaches.induct)
    (auto intro: lock_ok_init inv_init lock_ok_step [OF disciplined_code] inv_step lock_ok_spurious inv_spurious)

lemma not_stuck:
  assumes "reaches code n (init_sys g0) s"
  shows "(\<forall>t < n. finished code s t) \<or> (\<exists>t < n. \<exists>s'. pstep code t s s')"
proof (rule disjCI)
  assume "\<not> (\<exists>t < n. \<exists>s'. pstep code t s s')"
  then have "finished code s t \<or> (\<exists>cv. status s t = Waiting cv)" if "t < n" for t
    using stuck_waiting [of n code s t] disciplined_code reaches_inv [OF assms] that by blast
  then show "\<forall>t < n. finished code s t" using not_all_waiting reaches_inv [OF assms] by blast
qed

end

locale finite_monitor = monitor +
  fixes w :: "nat \<Rightarrow> nat"
  assumes straight: "t < n \<Longrightarrow> Goto k \<notin> set (code t)"
    and weights: "t < n \<Longrightarrow> Wait_while c nts cv \<in> set (code t) \<Longrightarrow> 2 * (\<Sum>u \<in> waiters code n (cv_of ` set nts). w u) < w t"
begin

lemma all_finish: "reaches code n (init_sys g0) s \<Longrightarrow> inevitably code n (\<lambda>s. \<forall>t < n. finished code s t) s"
proof (induction s rule: wf_induct [OF wf_inv_image [OF wf_lex_prod [OF wf_less_than wf_less_than], of "\<lambda>s. (left code n s, ranks w n (status s))"]])
  case (1 s)
  note r = 1(2) and IH = 1(1) [rule_format]
  have "inevitably code n (\<lambda>s. \<forall>t < n. finished code s t) s'" if "t < n" "pstep code t s s'" for t s'
  proof (rule IH)
    show "reaches code n (init_sys g0) s'" using that by (rule reaches.thread_step [OF r])
    show "(s', s) \<in> inv_image (less_than <*lex*> less_than) (\<lambda>s. (left code n s, ranks w n (status s)))"
      using pstep_decreases [where w = w, OF _ that straight [OF that(1)] weights [OF that(1)]] reaches_inv [OF r] by auto
  qed
  then show ?case using not_stuck [OF r] by (blast intro: inevitably.intros)
qed

end

end
