(* ===== verification/Jobs.thy ===== *)
theory Jobs
  imports Pthread
begin

text \<open>
  Three kinds of jobs (\<open>condvar_challenge/threeJobs.c\<close>): any number of threads may do a job of the same kind at once, and none of another kind meanwhile.
\<close>

section \<open>The program\<close>

record jobs =
  active_job :: nat
  active_count :: int

definition job_enter :: "nat \<Rightarrow> jobs \<Rightarrow> jobs \<times> notice list" where
  "job_enter type g = (g\<lparr>active_job := type, active_count := active_count g + 1\<rparr>, [])"

definition job_leave :: "jobs \<Rightarrow> jobs \<times> notice list" where
  "job_leave g =
     (let g = g\<lparr>active_count := active_count g - 1\<rparr> in
      if active_count g = 0 then (g\<lparr>active_job := 0\<rparr>, [Broadcast 0]) else (g, []))"

text \<open>The code of the three functions differs in \<open>type\<close> and in what it prints.\<close>

definition job_thread :: "nat \<Rightarrow> jobs instr list" where
  "job_thread type =
     [Lock, Wait_while (\<lambda>g. type \<noteq> active_job g \<and> active_count g \<noteq> 0) [] 0, Act (job_enter type), Unlock,
      Act (\<lambda>g. (g, [])),
      Lock, Act job_leave, Unlock]"

definition carpenter :: "jobs instr list" where "carpenter = job_thread 1"
definition painter :: "jobs instr list" where "painter = job_thread 2"
definition decorator :: "jobs instr list" where "decorator = job_thread 3"

definition NUM_CARP :: nat where "NUM_CARP = 3"
definition NUM_PAIN :: nat where "NUM_PAIN = 3"
definition NUM_DECO :: nat where "NUM_DECO = 3"

definition jobs_code :: "nat \<Rightarrow> jobs instr list" where
  "jobs_code i = (if i < NUM_CARP then carpenter else if i < NUM_CARP + NUM_PAIN then painter else decorator)"

definition jobs0 :: jobs where
  "jobs0 = \<lparr>active_job = 0, active_count = 0\<rparr>"

text \<open>A thread is at work from when it has been counted in until it counts itself out.\<close>

definition working :: "'g sys \<Rightarrow> nat \<Rightarrow> bool" where
  "working s t \<longleftrightarrow> 3 \<le> pc s t \<and> pc s t \<le> 6"

section \<open>The invariant\<close>

definition kind :: "nat \<Rightarrow> nat" where
  "kind i = (if i < NUM_CARP then 1 else if i < NUM_CARP + NUM_PAIN then 2 else 3)"

abbreviation num_jobs :: nat where
  "num_jobs \<equiv> NUM_CARP + NUM_PAIN + NUM_DECO"

lemma jobs_code_kind: "jobs_code t = job_thread (kind t)"
  by (simp add: jobs_code_def kind_def carpenter_def painter_def decorator_def)

definition jobs_inv :: "jobs sys \<Rightarrow> bool" where
  "jobs_inv s \<longleftrightarrow>
     active_count (shared s) = int (card {t. t < num_jobs \<and> working s t}) \<and>
     (\<forall>t < num_jobs. (working s t \<longrightarrow> active_job (shared s) = kind t) \<and>
        (pc s t = 2 \<longrightarrow> active_job (shared s) = kind t \<or> active_count (shared s) = 0) \<and>
        (status s t = Waiting 0 \<longrightarrow> active_count (shared s) \<noteq> 0))"

lemma job_thread_nth:
  "length (job_thread k) = 8" "job_thread k ! 0 = Lock"
  "job_thread k ! 1 = Wait_while (\<lambda>g. k \<noteq> active_job g \<and> active_count g \<noteq> 0) [] 0"
  "job_thread k ! Suc 0 = Wait_while (\<lambda>g. k \<noteq> active_job g \<and> active_count g \<noteq> 0) [] 0"
  "job_thread k ! 2 = Act (job_enter k)" "job_thread k ! 3 = Unlock" "job_thread k ! 4 = Act (\<lambda>g. (g, []))"
  "job_thread k ! 5 = Lock" "job_thread k ! 6 = Act job_leave" "job_thread k ! 7 = Unlock"
  by (simp_all add: job_thread_def)

lemma less_8: "(k :: nat) < 8 \<longleftrightarrow> k \<in> {0, 1, 2, 3, 4, 5, 6, 7}"
  by auto

declare held.simps [simp del]

lemma held_job: "k \<le> 8 \<Longrightarrow> held (job_thread j) k \<longleftrightarrow> k \<in> {1, 2, 3, 6, 7}"
proof -
  assume "k \<le> 8"
  then have "k \<in> {0, 1, 2, 3, 4, 5, 6, 7, 8}" by auto
  then show ?thesis by (auto simp: job_thread_def eval_nat_numeral held.simps)
qed

lemma disciplined_job: "disciplined (job_thread j)"
  by (rule locks_disciplined) (simp add: job_thread_def)

lemma at_job:
  assumes "at_instr jobs_code s t i"
  shows "status s t = Running" "pc s t \<in> {0, 1, 2, 3, 4, 5, 6, 7}" "i = job_thread (kind t) ! pc s t"
  using assms by (auto simp: at_instr_def jobs_code_kind job_thread_nth)

lemma jobs_alone:
  assumes "lock_ok jobs_code num_jobs s" "t < num_jobs" "u < num_jobs" "status s t = Running" "pc s t \<in> {1, 2, 6}" "pc s u = 2"
  shows "u = t"
proof (rule lock_ok_alone [OF assms(1,2,3)])
  show "owner s = Some t" using assms by (intro lock_ok_owner [OF assms(1,2)]) (auto simp: jobs_code_kind held_job)
qed (use assms(6) in \<open>auto simp: jobs_code_kind held_job job_thread_nth\<close>)

lemma jobs_invI:
  assumes "active_count (shared s) = int (card {t. t < num_jobs \<and> working s t})"
    "\<And>t. t < num_jobs \<Longrightarrow> working s t \<Longrightarrow> active_job (shared s) = kind t"
    "\<And>t. t < num_jobs \<Longrightarrow> pc s t = 2 \<Longrightarrow> active_job (shared s) = kind t \<or> active_count (shared s) = 0"
    "\<And>t. t < num_jobs \<Longrightarrow> status s t = Waiting 0 \<Longrightarrow> active_count (shared s) \<noteq> 0"
  shows "jobs_inv s"
  using assms unfolding jobs_inv_def by blast

lemma jobs_inv_same:
  assumes "jobs_inv s" "shared s' = shared s" "\<And>t. working s' t = working s t" "\<And>t. t < num_jobs \<Longrightarrow> pc s' t = 2 \<Longrightarrow> pc s t = 2"
    "\<And>t. t < num_jobs \<Longrightarrow> status s' t = Waiting 0 \<Longrightarrow> status s t = Waiting 0 \<or> active_count (shared s) \<noteq> 0"
  shows "jobs_inv s'"
  using assms(1,4,5) unfolding jobs_inv_def assms(2,3) by blast

lemma jobs_inv_enter:
  assumes t: "t < num_jobs" and ok: "lock_ok jobs_code num_jobs s" and inv: "jobs_inv s" and r: "status s t = Running" "pc s t = 2"
    and s': "pc s' = (pc s)(t := 3)" "active_job (shared s') = kind t" "active_count (shared s') = active_count (shared s) + 1"
  shows "jobs_inv s'"
proof -
  let ?W = "\<lambda>s. {t. t < num_jobs \<and> working s t}"
  have W: "?W s' = insert t (?W s)" "t \<notin> ?W s" using t r s'(1) by (auto simp: working_def)
  then have c: "active_count (shared s') = int (card (?W s'))" using inv s'(3) by (simp add: jobs_inv_def)
  have "active_job (shared s) = kind t" if "active_count (shared s) \<noteq> 0" using inv t r that by (auto simp: jobs_inv_def)
  moreover have "active_count (shared s) \<noteq> 0" if "u \<in> ?W s" for u
    using inv that card_gt_0_iff [of "?W s"] by (auto simp: jobs_inv_def)
  ultimately have "kind u = kind t" if "u \<in> ?W s'" for u using inv that W(1) by (fastforce simp: jobs_inv_def)
  moreover have "pc s' u \<noteq> 2" if "u < num_jobs" for u using jobs_alone [OF ok t that r(1)] r(2) s'(1) by auto
  moreover have "0 < active_count (shared s')" using c W(1) by (simp add: card_gt_0_iff)
  ultimately show ?thesis using c s'(2) by (intro jobs_invI) force+
qed

lemma jobs_inv_leave:
  assumes t: "t < num_jobs" and ok: "lock_ok jobs_code num_jobs s" and inv: "jobs_inv s" and r: "status s t = Running" "pc s t = 6"
    and s': "pc s' = (pc s)(t := 7)" "active_count (shared s') = active_count (shared s) - 1"
      "active_count (shared s') \<noteq> 0 \<Longrightarrow> active_job (shared s') = active_job (shared s)"
      "\<And>u. active_count (shared s') = 0 \<Longrightarrow> status s' u \<noteq> Waiting 0"
  shows "jobs_inv s'"
proof -
  let ?W = "\<lambda>s. {t. t < num_jobs \<and> working s t}"
  have W: "?W s' = ?W s - {t}" "t \<in> ?W s" using t r s'(1) by (auto simp: working_def)
  then have c: "active_count (shared s') = int (card (?W s'))" using inv s'(2) card_gt_0_iff [of "?W s"] by (auto simp: jobs_inv_def)
  have "active_count (shared s') \<noteq> 0" if "u \<in> ?W s'" for u using that c card_gt_0_iff [of "?W s'"] by auto
  then have "active_job (shared s') = kind u" if "u \<in> ?W s'" for u using inv that W(1) s'(3) by (fastforce simp: jobs_inv_def)
  moreover have "pc s' u \<noteq> 2" if "u < num_jobs" for u using jobs_alone [OF ok t that r(1)] r(2) s'(1) by auto
  ultimately show ?thesis using c s'(4) by (intro jobs_invI) blast+
qed

lemma jobs_inv_step:
  assumes t: "t < num_jobs" and ok: "lock_ok jobs_code num_jobs s" and inv: "jobs_inv s" and st: "pstep jobs_code t s s'"
  shows "jobs_inv s'"
  using st
proof cases
  case pthread_mutex_lock
  then show ?thesis using at_job [of s t Lock] by (intro jobs_inv_same [OF inv]) (auto simp: working_def job_thread_nth split: if_splits)
next
  case pthread_mutex_unlock
  then show ?thesis using at_job [of s t Unlock] by (intro jobs_inv_same [OF inv]) (auto simp: working_def job_thread_nth split: if_splits)
next
  case (wait_done c nts cv)
  have p: "pc s t = 1" "active_job (shared s) = kind t \<or> active_count (shared s) = 0"
    using at_job [OF wait_done(2)] wait_done(4) by (auto simp: job_thread_nth)
  then have same: "\<And>u. working s' u = working s u" "shared s' = shared s" "status s' = status s" "\<And>u. u \<noteq> t \<Longrightarrow> pc s' u = pc s u"
    using wait_done(1) by (auto simp: working_def)
  show ?thesis
  proof (rule jobs_invI)
    show "active_job (shared s') = kind u \<or> active_count (shared s') = 0" if "u < num_jobs" "pc s' u = 2" for u
      using inv p(2) same that by (cases "u = t") (auto simp: jobs_inv_def)
  qed (use inv same in \<open>auto simp: jobs_inv_def\<close>)
next
  case (pthread_cond_wait c nts cv st)
  then show ?thesis using at_job [OF pthread_cond_wait(2)] notify_waiting [OF pthread_cond_wait(5)]
    by (intro jobs_inv_same [OF inv]) (auto simp: working_def job_thread_nth split: if_splits)
next
  case wait_return
  then show ?thesis by (intro jobs_inv_same [OF inv]) (auto simp: working_def split: if_splits)
next
  case (act f g nts st)
  note waiting = notify_waiting [OF act(4)]
  from at_job [OF act(2)] consider (enter) "pc s t = 2" "f = job_enter (kind t)" | (print) "pc s t = 4" "f = (\<lambda>g. (g, []))"
    | (leave) "pc s t = 6" "f = job_leave" by (auto simp: job_thread_nth)
  then show ?thesis
  proof cases
    case enter
    show ?thesis by (rule jobs_inv_enter [OF t ok inv _ enter(1)]) (use act enter at_job [OF act(2)] waiting in \<open>auto simp: job_enter_def\<close>)
  next
    case print
    then show ?thesis using act waiting by (intro jobs_inv_same [OF inv]) (auto simp: working_def split: if_splits)
  next
    case leave
    show ?thesis by (rule jobs_inv_leave [OF t ok inv _ leave(1)])
      (use act leave at_job [OF act(2)] waiting notify_broadcast in \<open>auto simp: job_leave_def Let_def split: if_splits\<close>)
  qed
next
  case (jump k)
  then show ?thesis using at_job [of s t "Goto k"] by (auto simp: job_thread_nth)
qed

section \<open>Correctness\<close>

interpretation jobs: finite_monitor jobs_code num_jobs jobs0 jobs_inv "\<lambda>_. 1"
proof unfold_locales
  show "jobs_inv (init_sys jobs0)" by (simp add: jobs_inv_def init_sys_def jobs0_def working_def)
  show "jobs_inv (s\<lparr>status := (status s)(t := Woken)\<rparr>)" if "jobs_inv s" "status s t = Waiting cv" for s t cv
    using that by (intro jobs_inv_same [OF that(1)]) (auto simp: working_def split: if_splits)
  show "finished jobs_code s t"
    if ok: "lock_ok jobs_code num_jobs s" and inv: "jobs_inv s" and stuck: "\<And>t. t < num_jobs \<Longrightarrow> finished jobs_code s t \<or> (\<exists>cv. status s t = Waiting cv)"
      and t: "t < num_jobs" for s t
  proof (rule ccontr)
    have p: "pc s u = 1 \<and> cv = 0" if "u < num_jobs" "status s u = Waiting cv" for u cv
    proof -
      have "pc s u < 8" "\<exists>c nts. job_thread (kind u) ! pc s u = Wait_while c nts cv"
        using ok that unfolding lock_ok_def by (fastforce simp: jobs_code_kind job_thread_nth(1))+
      then have "pc s u \<in> {0, 1, 2, 3, 4, 5, 6, 7}" "\<exists>c nts. job_thread (kind u) ! pc s u = Wait_while c nts cv" by auto
      then show ?thesis by (auto simp: job_thread_nth)
    qed
    assume "\<not> finished jobs_code s t"
    then have "active_count (shared s) \<noteq> 0" using stuck [OF t] p t inv unfolding jobs_inv_def by metis
    then obtain u where u: "u < num_jobs" "working s u" using inv card_gt_0_iff [of "{t. t < num_jobs \<and> working s t}"] by (auto simp: jobs_inv_def)
    then show False using stuck [OF u(1)] p [OF u(1)] by (auto simp: finished_def working_def jobs_code_kind job_thread_nth(1))
  qed
qed (auto simp: jobs_code_kind disciplined_job jobs_inv_step, auto simp: job_thread_def waiters_def)

text \<open>
  C37. Only one kind of job is done at a time, and every job gets done. In every state a run of the program can come to, spurious wakeups included, threads that are at work
  at the same time are of the same kind; and from there, however the threads are scheduled, all of the threads finish.
\<close>
theorem jobs_correct:
  assumes "reaches jobs_code num_jobs (init_sys jobs0) s"
  shows "(\<forall>t < num_jobs. \<forall>u < num_jobs. working s t \<and> working s u \<longrightarrow> jobs_code t = jobs_code u) \<and>
    inevitably jobs_code num_jobs (\<lambda>s. \<forall>t < num_jobs. finished jobs_code s t) s"
  using jobs.reaches_inv [OF assms] jobs.all_finish [OF assms] unfolding jobs_inv_def jobs_code_kind by metis

text \<open>In the first state, and after the first thread has taken the mutex.\<close>
theorem jobs_correct_witness:
  "inevitably jobs_code num_jobs (\<lambda>s. \<forall>t < num_jobs. finished jobs_code s t) (init_sys jobs0) \<and>
   inevitably jobs_code num_jobs (\<lambda>s. \<forall>t < num_jobs. finished jobs_code s t) (advance 0 ((init_sys jobs0)\<lparr>owner := Some 0\<rparr>))"
proof -
  let ?s1 = "advance 0 ((init_sys jobs0)\<lparr>owner := Some 0\<rparr>)"
  have "pstep jobs_code 0 (init_sys jobs0) ?s1"
    by (rule pthread_mutex_lock) (simp_all add: at_instr_def init_sys_def jobs_code_kind job_thread_nth)
  then have "reaches jobs_code num_jobs (init_sys jobs0) ?s1" by (intro thread_step [OF start, of 0]) (simp_all add: NUM_CARP_def)
  then show ?thesis using jobs_correct [OF start] jobs_correct by blast
qed

end
