(* ===== verification/Hen.thy ===== *)
theory Hen
  imports Pthread
begin

text \<open>
  The little red hen (\<open>condvar_challenge/littleredhen.c\<close>): three animals eat the loaves that the hen bakes. Threads 0 to 2 are the animals, thread 3 is the hen. The loops of
  fixed length are written out as repetitions of their bodies.
\<close>

section \<open>The program\<close>

record kitchen =
  numLoaves :: int

definition bread_ready :: nat where "bread_ready = 0"
definition need_more_bread :: nat where "need_more_bread = 1"
definition NUM_LOAVES_TO_EAT :: nat where "NUM_LOAVES_TO_EAT = 14"

definition batch :: "kitchen instr list" where
  "batch =
     [Lock, Wait_while (\<lambda>g. numLoaves g > 0) [] need_more_bread,
      Act (\<lambda>g. (g\<lparr>numLoaves := numLoaves g + 7\<rparr>, [Broadcast bread_ready])), Unlock]"

definition littleRedHenThread :: "kitchen instr list" where
  "littleRedHenThread =
     concat (replicate 6 batch) @ [Act (\<lambda>g. (g, [])), Lock, Act (\<lambda>g. (g, [Broadcast bread_ready])), Unlock]"

definition meal :: "kitchen instr list" where
  "meal =
     [Lock, Wait_while (\<lambda>g. numLoaves g = 0) [Signal need_more_bread] bread_ready,
      Act (\<lambda>g. (g\<lparr>numLoaves := numLoaves g - 1\<rparr>, [])), Unlock,
      Act (\<lambda>g. (g, []))]"

definition otherAnimalThread :: "kitchen instr list" where
  "otherAnimalThread = concat (replicate NUM_LOAVES_TO_EAT meal) @ [Act (\<lambda>g. (g, []))]"

definition farm :: "nat \<Rightarrow> kitchen instr list" where
  "farm t = (if t < 3 then otherAnimalThread else littleRedHenThread)"

definition kitchen0 :: kitchen where "kitchen0 = \<lparr>numLoaves = 0\<rparr>"

section \<open>The invariant\<close>

definition eaten :: "'g sys \<Rightarrow> nat \<Rightarrow> nat" where
  "eaten s t = (pc s t + 2) div 5"

definition baked :: "'g sys \<Rightarrow> nat" where
  "baked s = min 6 ((pc s 3 + 1) div 4)"

text \<open>An animal about to take a loaf, and the hen about to put a batch out.\<close>

definition biting :: "'g sys \<Rightarrow> nat \<Rightarrow> bool" where
  "biting s t \<longleftrightarrow> pc s t < 70 \<and> pc s t mod 5 = 2"

definition baking :: "'g sys \<Rightarrow> bool" where
  "baking s \<longleftrightarrow> pc s 3 < 24 \<and> pc s 3 mod 4 = 2"

definition hen_inv :: "kitchen sys \<Rightarrow> bool" where
  "hen_inv s \<longleftrightarrow>
     numLoaves (shared s) = 7 * int (baked s) - int (\<Sum>t<3. eaten s t) \<and> 0 \<le> numLoaves (shared s) \<and>
     (\<forall>t < 3. (biting s t \<longrightarrow> 0 < numLoaves (shared s)) \<and>
        (status s t = Waiting 0 \<longrightarrow> numLoaves (shared s) = 0 \<and> status s 3 \<noteq> Waiting 1)) \<and>
     (baking s \<longrightarrow> numLoaves (shared s) = 0)"

lemma block_simps:
  "length meal = 5" "length batch = 4" "meal \<noteq> []" "batch \<noteq> []" "\<not> held meal 5" "\<not> held batch 4"
  by (simp_all add: meal_def batch_def eval_nat_numeral)

lemma length_farm: "length (farm t) = (if t < 3 then 71 else 28)"
  by (simp add: farm_def otherAnimalThread_def littleRedHenThread_def length_concat sum_list_replicate block_simps NUM_LOAVES_TO_EAT_def)

lemma animal_nth: "t < 3 \<Longrightarrow> p < 71 \<Longrightarrow> farm t ! p = (if p < 70 then meal ! (p mod 5) else Act (\<lambda>g. (g, [])))"
  using nth_repeat [of meal 14] by (simp add: farm_def otherAnimalThread_def block_simps NUM_LOAVES_TO_EAT_def)

lemma hen_nth:
  "p < 28 \<Longrightarrow> farm 3 ! p =
     (if p < 24 then batch ! (p mod 4) else [Act (\<lambda>g. (g, [])), Lock, Act (\<lambda>g. (g, [Broadcast 0])), Unlock] ! (p - 24))"
  using nth_repeat [of batch 6] by (simp add: farm_def littleRedHenThread_def block_simps bread_ready_def)

lemma mod_4: "(p :: nat) mod 4 \<in> {0, 1, 2, 3}" and mod_5: "(p :: nat) mod 5 \<in> {0, 1, 2, 3, 4}"
  by auto

lemma meal_nth:
  "meal ! 0 = Lock" "meal ! 1 = Wait_while (\<lambda>g. numLoaves g = 0) [Signal 1] 0" "meal ! Suc 0 = Wait_while (\<lambda>g. numLoaves g = 0) [Signal 1] 0"
  "meal ! 2 = Act (\<lambda>g. (g\<lparr>numLoaves := numLoaves g - 1\<rparr>, []))" "meal ! 3 = Unlock" "meal ! 4 = Act (\<lambda>g. (g, []))"
  by (simp_all add: meal_def bread_ready_def need_more_bread_def)

lemma batch_nth:
  "batch ! 0 = Lock" "batch ! 1 = Wait_while (\<lambda>g. numLoaves g > 0) [] 1" "batch ! Suc 0 = Wait_while (\<lambda>g. numLoaves g > 0) [] 1"
  "batch ! 2 = Act (\<lambda>g. (g\<lparr>numLoaves := numLoaves g + 7\<rparr>, [Broadcast 0]))" "batch ! 3 = Unlock"
  by (simp_all add: batch_def bread_ready_def need_more_bread_def)

lemma held_animal: "t < 3 \<Longrightarrow> p < 70 \<Longrightarrow> p mod 5 \<in> {1, 2, 3} \<Longrightarrow> held (farm t) p"
proof -
  assume a: "t < 3" "p < 70" "p mod 5 \<in> {1, 2, 3}"
  have "held meal k" if "k \<in> {1, 2, 3}" for k using that by (auto simp: meal_def eval_nat_numeral)
  then show ?thesis using held_repeat [of meal 14] a by (simp add: farm_def otherAnimalThread_def block_simps NUM_LOAVES_TO_EAT_def)
qed

lemma held_hen: "p < 24 \<Longrightarrow> p mod 4 \<in> {1, 2, 3} \<Longrightarrow> held (farm 3) p"
proof -
  assume a: "p < 24" "p mod 4 \<in> {1, 2, 3}"
  have "held batch k" if "k \<in> {1, 2, 3}" for k using that by (auto simp: batch_def eval_nat_numeral)
  then show ?thesis using held_repeat [of batch 6] a by (simp add: farm_def littleRedHenThread_def block_simps)
qed

lemma disciplined_farm: "disciplined (farm t)"
  by (rule locks_disciplined)
    (auto simp: farm_def otherAnimalThread_def littleRedHenThread_def locks_concat meal_def batch_def)

text \<open>What the threads can be doing.\<close>

lemma at_animal:
  assumes "at_instr farm s t i" "t < 3"
  shows "status s t = Running \<and> pc s t < 71 \<and>
    (pc s t < 70 \<and> (pc s t mod 5 = 0 \<and> i = meal ! 0 \<or> pc s t mod 5 = 1 \<and> i = meal ! 1 \<or> biting s t \<and> i = meal ! 2 \<or>
       pc s t mod 5 = 3 \<and> i = meal ! 3 \<or> pc s t mod 5 = 4 \<and> i = meal ! 4) \<or> pc s t = 70 \<and> i = Act (\<lambda>g. (g, [])))"
proof -
  have p: "pc s t < 71" "status s t = Running" "i = farm t ! pc s t" using assms by (simp_all add: at_instr_def length_farm)
  show ?thesis
  proof (cases "pc s t < 70")
    case True
    then have "i = meal ! (pc s t mod 5)" using p(1,3) assms(2) by (simp add: animal_nth)
    then show ?thesis using mod_5 [of "pc s t"] p(2) True unfolding biting_def by (elim insertE) simp_all
  next
    case False
    then show ?thesis using p assms(2) by (simp add: animal_nth)
  qed
qed

lemma at_hen:
  assumes "at_instr farm s 3 i"
  shows "status s 3 = Running \<and> pc s 3 < 28 \<and>
    (pc s 3 < 24 \<and> (pc s 3 mod 4 = 0 \<and> i = batch ! 0 \<or> pc s 3 mod 4 = 1 \<and> i = batch ! 1 \<or> baking s \<and> i = batch ! 2 \<or> pc s 3 mod 4 = 3 \<and> i = batch ! 3) \<or>
     pc s 3 = 24 \<and> i = Act (\<lambda>g. (g, [])) \<or> pc s 3 = 25 \<and> i = Lock \<or> pc s 3 = 26 \<and> i = Act (\<lambda>g. (g, [Broadcast 0])) \<or> pc s 3 = 27 \<and> i = Unlock)"
proof -
  have p: "pc s 3 < 28" "status s 3 = Running" "i = farm 3 ! pc s 3" using assms by (auto simp: at_instr_def length_farm)
  show ?thesis
  proof (cases "pc s 3 < 24")
    case True
    then have "i = batch ! (pc s 3 mod 4)" using p(1,3) by (simp add: hen_nth)
    then show ?thesis using mod_4 [of "pc s 3"] p(2) True unfolding baking_def by (elim insertE) simp_all
  next
    case False
    then have "pc s 3 = 24 \<or> pc s 3 = 25 \<or> pc s 3 = 26 \<or> pc s 3 = 27" using p(1) by linarith
    then show ?thesis using p(2,3) by (elim disjE) (simp_all add: hen_nth)
  qed
qed

lemma advance_animal:
  assumes "t < 3" "pc s' = (pc s)(t := Suc (pc s t))"
  shows "baked s' = baked s" "baking s' = baking s" "(\<Sum>u<3. eaten s' u) = (\<Sum>u<3. eaten s u) + (if pc s t mod 5 = 2 then 1 else 0)"
    "biting s' u \<longleftrightarrow> (if u = t then pc s t < 70 \<and> pc s t mod 5 = 1 else biting s u)"
proof -
  show "baked s' = baked s" "baking s' = baking s" using assms by (simp_all add: baked_def baking_def)
  have "eaten s' t = eaten s t + (if pc s t mod 5 = 2 then 1 else 0)" using assms(2) by (simp add: eaten_def) presburger
  moreover have "(\<Sum>u \<in> {..<3} - {t}. eaten s' u) = (\<Sum>u \<in> {..<3} - {t}. eaten s u)" using assms(2) by (auto simp: eaten_def intro!: sum.cong)
  ultimately show "(\<Sum>u<3. eaten s' u) = (\<Sum>u<3. eaten s u) + (if pc s t mod 5 = 2 then 1 else 0)"
    using assms(1) by (simp add: sum.remove [of "{..<3}" t])
  show "biting s' u \<longleftrightarrow> (if u = t then pc s t < 70 \<and> pc s t mod 5 = 1 else biting s u)"
    using assms(2) by (auto simp: biting_def) presburger+
qed

lemma advance_hen:
  assumes "pc s' = (pc s)(3 := Suc (pc s 3))"
  shows "baked s' = baked s + (if pc s 3 < 24 \<and> pc s 3 mod 4 = 2 then 1 else 0)" "baking s' \<longleftrightarrow> pc s 3 < 24 \<and> pc s 3 mod 4 = 1"
    "u < 3 \<Longrightarrow> eaten s' u = eaten s u" "u < 3 \<Longrightarrow> biting s' u = biting s u"
proof -
  let ?p = "pc s 3"
  have "(Suc ?p + 1) div 4 = (?p + 1) div 4 + (if ?p mod 4 = 2 then 1 else 0)" by presburger
  moreover have "?p mod 4 = 2 \<and> ?p < 24 \<Longrightarrow> (?p + 1) div 4 \<le> 5" "\<not> ?p < 24 \<Longrightarrow> 6 \<le> (?p + 1) div 4" by presburger+
  ultimately show "baked s' = baked s + (if ?p < 24 \<and> ?p mod 4 = 2 then 1 else 0)" using assms unfolding baked_def by auto
  show "baking s' \<longleftrightarrow> pc s 3 < 24 \<and> pc s 3 mod 4 = 1" using assms by (simp add: baking_def) presburger
qed (use assms in \<open>simp_all add: eaten_def biting_def\<close>)

lemma hen_invI:
  assumes "numLoaves (shared s) = 7 * int (baked s) - int (\<Sum>t<3. eaten s t)" "0 \<le> numLoaves (shared s)"
    "\<And>t. t < 3 \<Longrightarrow> biting s t \<Longrightarrow> 0 < numLoaves (shared s)"
    "\<And>t. t < 3 \<Longrightarrow> status s t = Waiting 0 \<Longrightarrow> numLoaves (shared s) = 0 \<and> status s 3 \<noteq> Waiting 1"
    "baking s \<Longrightarrow> numLoaves (shared s) = 0"
  shows "hen_inv s"
  using assms unfolding hen_inv_def by blast

lemma hen_invD:
  assumes "hen_inv s"
  shows "numLoaves (shared s) = 7 * int (baked s) - int (\<Sum>t<3. eaten s t)" "0 \<le> numLoaves (shared s)"
    "\<And>t. t < 3 \<Longrightarrow> biting s t \<Longrightarrow> 0 < numLoaves (shared s)"
    "\<And>t. t < 3 \<Longrightarrow> status s t = Waiting 0 \<Longrightarrow> numLoaves (shared s) = 0 \<and> status s 3 \<noteq> Waiting 1"
    "baking s \<Longrightarrow> numLoaves (shared s) = 0"
  using assms unfolding hen_inv_def by blast+

lemma hen_inv_same:
  assumes "hen_inv s" "shared s' = shared s" "baked s' = baked s" "(\<Sum>t<3. eaten s' t) = (\<Sum>t<3. eaten s t)"
    "\<And>t. t < 3 \<Longrightarrow> biting s' t \<Longrightarrow> biting s t \<or> 0 < numLoaves (shared s)" "baking s' \<Longrightarrow> baking s \<or> numLoaves (shared s) = 0"
    "\<And>t. t < 3 \<Longrightarrow> status s' t = Waiting 0 \<Longrightarrow> status s t = Waiting 0 \<or> numLoaves (shared s) = 0 \<and> status s' 3 \<noteq> Waiting 1"
    "status s' 3 = Waiting 1 \<Longrightarrow> status s 3 = Waiting 1 \<or> 0 < numLoaves (shared s)"
  shows "hen_inv s'"
proof (rule hen_invI)
  note inv = hen_invD [OF assms(1)]
  show "numLoaves (shared s') = 7 * int (baked s') - int (\<Sum>t<3. eaten s' t)" unfolding assms(2-4) by (rule inv(1))
  show "0 \<le> numLoaves (shared s')" unfolding assms(2) by (rule inv(2))
  show "0 < numLoaves (shared s')" if "t < 3" "biting s' t" for t unfolding assms(2) using assms(5) inv(3) that by blast
  show "numLoaves (shared s') = 0" if "baking s'" unfolding assms(2) using assms(6) inv(5) that by blast
  show "numLoaves (shared s') = 0 \<and> status s' 3 \<noteq> Waiting 1" if "t < 3" "status s' t = Waiting 0" for t
    unfolding assms(2) using assms(7) [OF that] assms(8) inv(4) [OF that(1)] by auto
qed

text \<open>The thread in the locked region is the only one that bites or bakes.\<close>

lemma kitchen_alone:
  assumes ok: "lock_ok farm 4 s" and t: "t < 4" "owner s = Some t"
  shows "u < 3 \<Longrightarrow> biting s u \<Longrightarrow> u = t" "baking s \<Longrightarrow> t = 3"
proof -
  show "u = t" if "u < 3" "biting s u" using that
    by (intro lock_ok_alone [OF ok t(1) _ t(2)]) (auto simp: biting_def held_animal animal_nth meal_nth)
  have "3 = t" if "baking s" using that
    by (intro lock_ok_alone [OF ok t(1) _ t(2)]) (auto simp: baking_def held_hen hen_nth batch_nth)
  then show "baking s \<Longrightarrow> t = 3" by simp
qed

lemma need_waiter:
  assumes ok: "lock_ok farm 4 s" and w: "status s u = Waiting 1"
  shows "u = 3"
proof (rule ccontr)
  assume "u \<noteq> 3"
  moreover have "u < 4" using ok w unfolding lock_ok_def by (metis not_less status.distinct(1))
  ultimately have u: "u < 3" by simp
  have "pc s u < length (farm u)" "\<exists>c nts. farm u ! pc s u = Wait_while c nts 1"
    using ok w \<open>u < 4\<close> unfolding lock_ok_def by fastforce+
  then show False using u mod_5 [of "pc s u"] by (auto simp: length_farm animal_nth meal_nth split: if_splits)
qed

lemma biting_owner:
  assumes ok: "lock_ok farm 4 s" and "t < 3" "biting s t" "status s t = Running"
  shows "owner s = Some t"
  using assms by (intro lock_ok_owner [OF ok]) (auto simp: biting_def held_animal)

lemma baking_owner:
  assumes ok: "lock_ok farm 4 s" and "baking s" "status s 3 = Running"
  shows "owner s = Some 3"
  using assms by (intro lock_ok_owner [OF ok]) (auto simp: baking_def held_hen)

text \<open>Steps that leave the loaves alone.\<close>

lemma animal_moves:
  assumes "hen_inv s" "t < 3" "pc s' = (pc s)(t := Suc (pc s t))" "shared s' = shared s" "pc s t mod 5 \<noteq> 2"
    "pc s t < 70 \<Longrightarrow> pc s t mod 5 = 1 \<Longrightarrow> 0 < numLoaves (shared s)" "\<And>u c. status s' u = Waiting c \<Longrightarrow> status s u = Waiting c"
  shows "hen_inv s'"
  by (rule hen_inv_same [OF assms(1,4)])
    (use assms(2,5-7) in \<open>simp_all add: advance_animal [OF assms(2,3)] split: if_splits\<close>)

lemma hen_moves:
  assumes "hen_inv s" "pc s' = (pc s)(3 := Suc (pc s 3))" "shared s' = shared s" "\<not> baking s"
    "pc s 3 < 24 \<Longrightarrow> pc s 3 mod 4 = 1 \<Longrightarrow> numLoaves (shared s) = 0" "\<And>u c. status s' u = Waiting c \<Longrightarrow> status s u = Waiting c"
  shows "hen_inv s'"
proof (rule hen_inv_same [OF assms(1,3)])
  note adv = advance_hen [OF assms(2)]
  show "baked s' = baked s" using adv(1) assms(4) by (simp add: baking_def)
  show "(\<Sum>t<3. eaten s' t) = (\<Sum>t<3. eaten s t)" by (rule sum.cong) (simp_all add: adv(3))
  show "baking s' \<Longrightarrow> baking s \<or> numLoaves (shared s) = 0" using adv(2) assms(5) by blast
qed (use assms(6) in \<open>simp_all add: advance_hen(4) [OF assms(2)]\<close>)

lemma kitchen_wait:
  assumes "hen_inv s" "shared s' = shared s" "pc s' = pc s"
    "\<And>t. t < 3 \<Longrightarrow> status s' t = Waiting 0 \<Longrightarrow> status s t = Waiting 0 \<or> numLoaves (shared s) = 0 \<and> status s' 3 \<noteq> Waiting 1"
    "status s' 3 = Waiting 1 \<Longrightarrow> status s 3 = Waiting 1 \<or> 0 < numLoaves (shared s)"
  shows "hen_inv s'"
  by (rule hen_inv_same [OF assms(1,2)])
    (use assms(3-5) in \<open>simp_all add: baked_def eaten_def biting_def baking_def\<close>)

text \<open>An animal takes a loaf; the hen puts out a batch.\<close>

lemma animal_eats:
  assumes inv: "hen_inv s" and ok: "lock_ok farm 4 s" and t: "t < 3" "biting s t" "status s t = Running"
    and s': "pc s' = (pc s)(t := Suc (pc s t))" "numLoaves (shared s') = numLoaves (shared s) - 1" "status s' = status s"
  shows "hen_inv s'"
proof (rule hen_invI)
  note inv' = hen_invD [OF inv] and adv = advance_animal [OF t(1) s'(1)]
  have pos: "0 < numLoaves (shared s)" by (rule inv'(3) [OF t(1,2)])
  have alone: "u = t" if "u < 3" "biting s u" for u using kitchen_alone(1) [OF ok _ biting_owner [OF ok t] that] t(1) by simp
  have "\<not> baking s" using kitchen_alone(2) [OF ok _ biting_owner [OF ok t]] t(1) by auto
  then show "baking s' \<Longrightarrow> numLoaves (shared s') = 0" by (simp add: adv)
  have "pc s t mod 5 = 2" using t(2) by (simp add: biting_def)
  then show "numLoaves (shared s') = 7 * int (baked s') - int (\<Sum>t<3. eaten s' t)" using inv'(1) by (simp add: adv s'(2))
  show "0 \<le> numLoaves (shared s')" using pos s'(2) by simp
  show "0 < numLoaves (shared s')" if "u < 3" "biting s' u" for u
    using alone [OF that(1)] that(2) \<open>pc s t mod 5 = 2\<close> by (simp add: adv split: if_splits)
  show "numLoaves (shared s') = 0 \<and> status s' 3 \<noteq> Waiting 1" if "u < 3" "status s' u = Waiting 0" for u
    using inv'(4) [OF that(1)] that(2) pos s'(3) by simp
qed

lemma hen_bakes:
  assumes inv: "hen_inv s" and ok: "lock_ok farm 4 s" and t: "baking s" "status s 3 = Running"
    and s': "pc s' = (pc s)(3 := Suc (pc s 3))" "numLoaves (shared s') = numLoaves (shared s) + 7" "\<And>u. status s' u \<noteq> Waiting 0"
  shows "hen_inv s'"
proof (rule hen_invI)
  note inv' = hen_invD [OF inv] and adv = advance_hen [OF s'(1)]
  have b: "pc s 3 < 24" "pc s 3 mod 4 = 2" using t(1) by (simp_all add: baking_def)
  have "(\<Sum>u<3. eaten s' u) = (\<Sum>u<3. eaten s u)" by (rule sum.cong) (simp_all add: adv)
  then show "numLoaves (shared s') = 7 * int (baked s') - int (\<Sum>t<3. eaten s' t)" using inv'(1) s'(2) b adv(1) by (simp del: of_nat_sum)
  show "0 \<le> numLoaves (shared s')" using inv'(2) s'(2) by simp
  show "0 < numLoaves (shared s')" using inv'(2) s'(2) by simp
  show "baking s' \<Longrightarrow> numLoaves (shared s') = 0" using b by (simp add: adv)
qed (use s'(3) in blast)

lemma animal_step:
  assumes t: "t < 3" and ok: "lock_ok farm 4 s" and inv: "hen_inv s" and st: "pstep farm t s s'"
  shows "hen_inv s'"
  using st
proof cases
  case pthread_mutex_lock
  then show ?thesis using at_animal [OF pthread_mutex_lock(2) t] by (intro animal_moves [OF inv t]) (auto simp: meal_nth)
next
  case pthread_mutex_unlock
  then show ?thesis using at_animal [OF pthread_mutex_unlock(2) t] by (intro animal_moves [OF inv t]) (auto simp: meal_nth)
next
  case (wait_done c nts cv)
  then have "c = (\<lambda>g. numLoaves g = 0)" "pc s t mod 5 = 1" using at_animal [OF wait_done(2) t] by (auto simp: meal_nth)
  then show ?thesis using wait_done(1,4) hen_invD(2) [OF inv] by (intro animal_moves [OF inv t]) auto
next
  case (pthread_cond_wait c nts cv st)
  have i: "c = (\<lambda>g. numLoaves g = 0)" "nts = [Signal 1]" "cv = 0" using at_animal [OF pthread_cond_wait(2) t] by (auto simp: meal_nth)
  have "st 3 \<noteq> Waiting 1"
  proof
    assume w: "st 3 = Waiting 1"
    then have w3: "status s 3 = Waiting 1" by (rule notify_waiting [OF pthread_cond_wait(5)])
    obtain W where W: "wakes (Signal 1) W (status s) st" using pthread_cond_wait(5) by (auto simp: i notify_simps)
    then obtain u where u: "u \<in> W" "status s u = Waiting 1" using w3 by (auto simp: wakes_def)
    have "u = 3" by (rule need_waiter [OF ok u(2)])
    then show False using W u(1) w by (simp add: wakes_def)
  qed
  then show ?thesis using pthread_cond_wait t notify_waiting [OF pthread_cond_wait(5)]
    by (intro kitchen_wait [OF inv]) (auto simp: i split: if_splits)
next
  case wait_return
  then show ?thesis by (intro kitchen_wait [OF inv]) (auto split: if_splits)
next
  case (act f g nts st)
  note at = at_animal [OF act(2) t]
  show ?thesis
  proof (cases "biting s t")
    case True
    then have f: "f = (\<lambda>g. (g\<lparr>numLoaves := numLoaves g - 1\<rparr>, []))" using at by (auto simp: meal_nth biting_def)
    show ?thesis by (rule animal_eats [OF inv ok t True]) (use act at f in \<open>auto simp: notify_simps\<close>)
  next
    case False
    then have "f = (\<lambda>g. (g, []))" "pc s t mod 5 \<in> {0, 4}" using at by (auto simp: meal_nth)
    then show ?thesis using act by (intro animal_moves [OF inv t]) (auto simp: notify_simps)
  qed
next
  case (jump k)
  then show ?thesis using at_animal [OF jump(2) t] by (auto simp: meal_nth)
qed

lemma hen_step:
  assumes ok: "lock_ok farm 4 s" and inv: "hen_inv s" and st: "pstep farm 3 s s'"
  shows "hen_inv s'"
  using st
proof cases
  case pthread_mutex_lock
  then show ?thesis using at_hen [OF pthread_mutex_lock(2)] by (intro hen_moves [OF inv]) (auto simp: batch_nth baking_def)
next
  case pthread_mutex_unlock
  then show ?thesis using at_hen [OF pthread_mutex_unlock(2)] by (intro hen_moves [OF inv]) (auto simp: batch_nth baking_def)
next
  case (wait_done c nts cv)
  then have "c = (\<lambda>g. numLoaves g > 0)" "pc s 3 mod 4 = 1" using at_hen [OF wait_done(2)] by (auto simp: batch_nth)
  then show ?thesis using wait_done(1,4) hen_invD(2) [OF inv] by (intro hen_moves [OF inv]) (auto simp: baking_def)
next
  case (pthread_cond_wait c nts cv st)
  have i: "c = (\<lambda>g. numLoaves g > 0)" "nts = []" "cv = 1" using at_hen [OF pthread_cond_wait(2)] by (auto simp: batch_nth)
  then show ?thesis using pthread_cond_wait hen_invD(4) [OF inv]
    by (intro kitchen_wait [OF inv]) (auto simp: notify_simps split: if_splits)
next
  case wait_return
  then show ?thesis by (intro kitchen_wait [OF inv]) (auto split: if_splits)
next
  case (act f g nts st)
  note at = at_hen [OF act(2)]
  show ?thesis
  proof (cases "baking s")
    case True
    then have f: "f = (\<lambda>g. (g\<lparr>numLoaves := numLoaves g + 7\<rparr>, [Broadcast 0]))" using at by (auto simp: batch_nth baking_def)
    then have "notify [Broadcast 0] (status s) st" using act(3,4) by auto
    then show ?thesis using act at f by (intro hen_bakes [OF inv ok True]) (auto dest: notify_broadcast)
  next
    case False
    then have "g = shared s" "pc s 3 \<in> {24, 26}" using at act(3) by (auto simp: batch_nth)
    then show ?thesis using act notify_waiting [OF act(4)] False by (intro hen_moves [OF inv]) auto
  qed
next
  case (jump k)
  then show ?thesis using at_hen [OF jump(2)] by (auto simp: batch_nth)
qed

text \<open>Not all that are left can be waiting.\<close>

lemma hungry:
  assumes ok: "lock_ok farm 4 s" and t: "t < 3"
  shows "eaten s t \<le> 14" "status s t \<noteq> Running \<Longrightarrow> eaten s t \<le> 13 \<and> (status s t = Waiting cv \<longrightarrow> cv = 0)" "finished farm s t \<Longrightarrow> eaten s t = 14"
proof -
  have p: "pc s t \<le> 71" using lock_ok_pc [OF ok, of t] t by (simp add: length_farm)
  then show "eaten s t \<le> 14" by (simp add: eaten_def)
  show "finished farm s t \<Longrightarrow> eaten s t = 14" using t by (simp add: eaten_def finished_def length_farm)
  assume "status s t \<noteq> Running"
  then obtain c nts cv' where w: "pc s t < 71" "farm t ! pc s t = Wait_while c nts cv'" "status s t = Woken \<or> status s t = Waiting cv'"
    using lock_ok_wait [OF ok, of t] t by (auto simp: length_farm)
  then have "pc s t < 70" "cv' = 0" "pc s t mod 5 = 1" using t mod_5 [of "pc s t"] by (auto simp: animal_nth meal_nth split: if_splits)
  moreover from this have "(pc s t + 2) div 5 \<le> 13" by presburger
  ultimately show "eaten s t \<le> 13 \<and> (status s t = Waiting cv \<longrightarrow> cv = 0)" using w(3) unfolding eaten_def by auto
qed

lemma lazy_hen:
  assumes ok: "lock_ok farm 4 s"
  shows "baked s \<le> 6" "status s 3 \<noteq> Running \<Longrightarrow> baked s \<le> 5 \<and> (status s 3 = Waiting cv \<longrightarrow> cv = 1)" "finished farm s 3 \<Longrightarrow> baked s = 6"
proof -
  show "baked s \<le> 6" by (simp add: baked_def)
  show "finished farm s 3 \<Longrightarrow> baked s = 6" by (simp add: baked_def finished_def length_farm)
  assume "status s 3 \<noteq> Running"
  then obtain c nts cv' where w: "pc s 3 < 28" "farm 3 ! pc s 3 = Wait_while c nts cv'" "status s 3 = Woken \<or> status s 3 = Waiting cv'"
    using lock_ok_wait [OF ok, of 3] by (auto simp: length_farm)
  have "pc s 3 < 24"
  proof (rule ccontr)
    assume "\<not> pc s 3 < 24"
    then have "pc s 3 \<in> {24, 25, 26, 27}" using w(1) by auto
    then show False using w(2) by (auto simp: hen_nth)
  qed
  moreover have "cv' = 1" "pc s 3 mod 4 = 1" using w(1,2) mod_4 [of "pc s 3"] calculation by (auto simp: hen_nth batch_nth)
  moreover from calculation have "(pc s 3 + 1) div 4 \<le> 5" by presburger
  ultimately show "baked s \<le> 5 \<and> (status s 3 = Waiting cv \<longrightarrow> cv = 1)" using w(3) unfolding baked_def by auto
qed

lemma sum_3: "(\<Sum>t<(3 :: nat). f t) = f 0 + f 1 + (f 2 :: nat)"
  by (simp add: eval_nat_numeral)

lemma farm_not_stuck:
  assumes ok: "lock_ok farm 4 s" and inv: "hen_inv s" and stuck: "\<And>t. t < 4 \<Longrightarrow> finished farm s t \<or> (\<exists>cv. status s t = Waiting cv)"
    and t: "t < 4"
  shows "finished farm s t"
proof (rule ccontr)
  assume nf: "\<not> finished farm s t"
  note inv' = hen_invD [OF inv]
  show False
  proof (cases "finished farm s 3")
    case True
    then have t3: "t < 3" using nf t by (cases "t = 3") auto
    then obtain cv where w: "status s t = Waiting cv" using stuck [OF t] nf by auto
    then have "cv = 0" "eaten s t \<le> 13" using hungry(2) [OF ok t3, of cv] by auto
    then have "numLoaves (shared s) = 0" using inv'(4) [OF t3] w by simp
    then have "(\<Sum>t<3. eaten s t) = 42" using inv'(1) lazy_hen(3) [OF ok True] by (simp del: of_nat_sum)
    moreover have "eaten s 0 \<le> 14" "eaten s 1 \<le> 14" "eaten s 2 \<le> 14" using hungry(1) [OF ok] by simp_all
    moreover have "t = 0 \<or> t = 1 \<or> t = 2" using t3 by linarith
    ultimately show False using \<open>eaten s t \<le> 13\<close> unfolding sum_3 by auto
  next
    case False
    then obtain cv where w: "status s 3 = Waiting cv" using stuck [of 3] by auto
    then have b: "baked s \<le> 5" "status s 3 = Waiting 1" using lazy_hen(2) [OF ok, of cv] by auto
    have "eaten s u = 14" if "u < 3" for u
    proof -
      have "finished farm s u"
      proof (rule ccontr)
        assume "\<not> finished farm s u"
        moreover have "u < 4" using that by simp
        ultimately obtain cv where "status s u = Waiting cv" using stuck by blast
        then show False using hungry(2) [OF ok that, of cv] inv'(4) [OF that] b(2) by simp
      qed
      then show ?thesis by (rule hungry(3) [OF ok that])
    qed
    then have "(\<Sum>t<3. eaten s t) = 42" unfolding sum_3 by simp
    then show False using inv'(1,2) b(1) by (simp del: of_nat_sum)
  qed
qed

section \<open>Correctness\<close>

lemma waits_on: "Wait_while c nts cv \<in> set (farm t) \<Longrightarrow> if t < 3 then nts = [Signal 1] \<and> cv = 0 else nts = [] \<and> cv = 1"
  by (auto simp: farm_def otherAnimalThread_def littleRedHenThread_def meal_def batch_def bread_ready_def need_more_bread_def split: if_splits)

interpretation farm: finite_monitor farm 4 kitchen0 hen_inv "\<lambda>t. if t < 3 then 3 else 1"
proof unfold_locales
  show "disciplined (farm t)" for t by (rule disciplined_farm)
  show "hen_inv (init_sys kitchen0)"
    by (rule hen_invI) (simp_all add: init_sys_def kitchen0_def baked_def eaten_def biting_def baking_def)
  show "hen_inv s'" if "t < 4" "lock_ok farm 4 s" "hen_inv s" "pstep farm t s s'" for t s s'
    using animal_step [of t s s'] hen_step [of s s'] that by (cases "t = 3") auto
  show "hen_inv (s\<lparr>status := (status s)(t := Woken)\<rparr>)" if "hen_inv s" for s t
    using that by (rule kitchen_wait) (auto split: if_splits)
  show "finished farm s t" if "lock_ok farm 4 s" "hen_inv s" "\<And>t. t < 4 \<Longrightarrow> finished farm s t \<or> (\<exists>cv. status s t = Waiting cv)" "t < 4" for s t
    using that by (rule farm_not_stuck)
  show "Goto k \<notin> set (farm t)" for t k
    by (auto simp: farm_def otherAnimalThread_def littleRedHenThread_def meal_def batch_def)
  show "2 * (\<Sum>u \<in> waiters farm 4 (cv_of ` set nts). if u < 3 then 3 else 1) < (if t < 3 then 3 else 1 :: nat)"
    if "t < 4" "Wait_while c nts cv \<in> set (farm t)" for t c nts cv
  proof -
    have "waiters farm 4 {1} \<subseteq> {3}" 
    proof
      fix u
      assume "u \<in> waiters farm 4 {1}"
      then obtain c nts where "u < 4" "Wait_while c nts 1 \<in> set (farm u)" by (auto simp: waiters_def)
      then show "u \<in> {3}" using waits_on [of c nts 1 u] by (auto split: if_splits)
    qed
    then have "(\<Sum>u \<in> waiters farm 4 {1}. if u < 3 then 3 else 1) \<le> (\<Sum>u \<in> {3 :: nat}. if u < 3 then 3 else 1 :: nat)" by (intro sum_mono2) auto
    moreover have "waiters farm 4 {} = {}" by (auto simp: waiters_def)
    ultimately show ?thesis using waits_on [OF that(2)] by (auto split: if_splits)
  qed
qed

text \<open>
  C38. The bread lasts. In every state a run can come to, spurious wakeups included, the loaves on the table are those that were baked less those that were eaten and
  never fewer than none; the hen bakes only when there are none left, and an animal about to take a loaf finds one, so that the complaint in the
  code between the wait and the bite is never printed. And from every such state, however the threads are scheduled, all of them finish: the six batches are baked and each animal eats 14 loaves.
\<close>
theorem hen_correct:
  assumes "reaches farm 4 (init_sys kitchen0) s"
  shows "numLoaves (shared s) = 7 * int (baked s) - int (\<Sum>t<3. eaten s t) \<and> 0 \<le> numLoaves (shared s) \<and>
    (baking s \<longrightarrow> numLoaves (shared s) = 0) \<and> (\<forall>t < 3. biting s t \<longrightarrow> 0 < numLoaves (shared s)) \<and>
    inevitably farm 4 (\<lambda>s. \<forall>t < 4. finished farm s t) s"
  using farm.reaches_inv [OF assms] farm.all_finish [OF assms] hen_invD by blast

text \<open>In the first state, and when an animal has taken the mutex first.\<close>
theorem hen_correct_witness:
  "inevitably farm 4 (\<lambda>s. \<forall>t < 4. finished farm s t) (init_sys kitchen0) \<and>
   inevitably farm 4 (\<lambda>s. \<forall>t < 4. finished farm s t) (advance 1 ((init_sys kitchen0)\<lparr>owner := Some 1\<rparr>))"
proof -
  let ?s1 = "advance 1 ((init_sys kitchen0)\<lparr>owner := Some 1\<rparr>)"
  have "pstep farm 1 (init_sys kitchen0) ?s1"
    by (rule pthread_mutex_lock) (simp_all add: at_instr_def init_sys_def length_farm animal_nth meal_nth)
  then have "reaches farm 4 (init_sys kitchen0) ?s1" by (intro thread_step [OF start, of 1]) simp_all
  then show ?thesis using hen_correct [OF start] hen_correct by blast
qed

end
