(* ===== verification/Sllist.thy ===== *)
theory Sllist
  imports Prelude
begin

text \<open>
  Circular lists (\<open>debug/sllist.c\<close>): a list is a head node whose nodes are linked in a ring. The state is the field \<open>next\<close> of every node;
  nodes are named by their addresses. A loop that does not end is \<open>None\<close>.
\<close>

section \<open>The operations\<close>

type_synonym links = "nat \<Rightarrow> nat"

definition init_node :: "nat \<Rightarrow> links \<Rightarrow> links" where
  "init_node node nx = nx(node := node)"

definition add_head :: "nat \<Rightarrow> nat \<Rightarrow> links \<Rightarrow> links" where
  "add_head head node nx = (let nx = nx(node := nx head); nx = nx(node := nx head) in nx(head := node))"

definition add_tail :: "nat \<Rightarrow> nat \<Rightarrow> links \<Rightarrow> links option" where
  "add_tail head node nx =
     map_option (\<lambda>p. let nx = nx(node := nx p); nx = nx(node := nx p) in nx(p := node))
       (while_option (\<lambda>p. nx p \<noteq> head) nx (nx head))"

definition del_node :: "nat \<Rightarrow> nat \<Rightarrow> links \<Rightarrow> links option" where
  "del_node head node nx =
     map_option (\<lambda>(p, n). if n = head then nx else (let nx = nx(p := nx n) in nx(n := n)))
       (while_option (\<lambda>(p, n). n \<noteq> node \<and> n \<noteq> head) (\<lambda>(p, n). (n, nx n)) (head, nx head))"

text \<open>The nodes that \<open>print_list\<close> hands to the function, in order.\<close>

definition print_list :: "nat \<Rightarrow> links \<Rightarrow> nat list option" where
  "print_list head nx =
     map_option snd (while_option (\<lambda>(p, out). p \<noteq> head) (\<lambda>(p, out). (nx p, out @ [p])) (nx head, []))"

section \<open>Rings\<close>

definition ring_of :: "links \<Rightarrow> nat \<Rightarrow> nat list \<Rightarrow> bool" where
  "ring_of nx head ns \<longleftrightarrow> distinct (head # ns) \<and> map nx (head # ns) = ns @ [head]"

lemma ring_of_nth:
  assumes "ring_of nx head ns" "i \<le> length ns"
  shows "nx ((head # ns) ! i) = (if i < length ns then ns ! i else head)"
proof -
  have "nx ((head # ns) ! i) = map nx (head # ns) ! i" using assms(2) by (simp only: nth_map length_Cons le_imp_less_Suc)
  also have "\<dots> = (ns @ [head]) ! i" using assms(1) by (simp only: ring_of_def)
  finally show ?thesis using assms(2) by (auto simp: nth_append)
qed

lemma while_walk:
  assumes "\<And>i. i < k \<Longrightarrow> b (f i) \<and> c (f i) = f (Suc i)" "\<not> b (f k)"
  shows "while_option b c (f 0) = Some (f k)"
  using assms
proof (induction k arbitrary: f)
  case 0
  then show ?case by (simp add: while_option_unfold)
next
  case (Suc k)
  have "while_option b c (f 0) = while_option b c (f (Suc 0))" using Suc.prems(1) [of 0] by (subst while_option_unfold) simp
  also have "\<dots> = Some (f (Suc k))" using Suc.IH [of "\<lambda>i. f (Suc i)"] Suc.prems by simp
  finally show ?case .
qed

lemma add_head_ring:
  assumes "ring_of nx head ns" "node \<notin> set (head # ns)"
  shows "ring_of (add_head head node nx) head (node # ns)"
  using assms by (auto simp: ring_of_def add_head_def)

lemma add_tail_ring:
  assumes r: "ring_of nx head ns" and n: "node \<notin> set (head # ns)"
  shows "\<exists>nx'. add_tail head node nx = Some nx' \<and> ring_of nx' head (ns @ [node])"
proof -
  obtain qs p where qp: "head # ns = qs @ [p]" by (metis append_butlast_last_id list.distinct(1))
  have d: "distinct (qs @ [p])" "map nx qs = ns" "nx p = head" using r unfolding ring_of_def qp by simp_all
  have len: "length qs = length ns" using arg_cong [OF d(2), of length] by simp
  have p: "(head # ns) ! length ns = p" unfolding qp len [symmetric] by (rule nth_append_length)
  have "while_option (\<lambda>p. nx p \<noteq> head) nx (nx head) = Some p"
  proof (cases ns)
    case Nil
    then show ?thesis using d(3) p by (simp add: while_option_unfold)
  next
    case (Cons m ms)
    have nx: "nx (ns ! i) = ns ! Suc i" "ns ! Suc i \<noteq> head" if "Suc i < length ns" for i
      using ring_of_nth [OF r, of "Suc i"] r that by (auto simp: ring_of_def)
    have pl: "p = ns ! (length ns - 1)" using p Cons by simp
    have "while_option (\<lambda>p. nx p \<noteq> head) nx (ns ! 0) = Some (ns ! (length ns - 1))"
      by (rule while_walk) (use nx d(3) pl in auto)
    moreover have "nx head = ns ! 0" using ring_of_nth [OF r, of 0] Cons by simp
    ultimately show ?thesis using pl by simp
  qed
  then have "add_tail head node nx = Some (nx(node := head, p := node))" using d(3) n qp by (auto simp: add_tail_def Let_def)
  moreover have "ring_of (nx(node := head, p := node)) head (ns @ [node])"
  proof -
    have q: "head # ns @ [node] = qs @ [p, node]" using qp by (metis append.assoc append_Cons append_Nil)
    have new: "node \<notin> set qs" "node \<noteq> p" using n unfolding qp by auto
    then have "map (nx(node := head, p := node)) qs = ns" using d(1,2) by auto
    then show ?thesis unfolding ring_of_def q using d(1) new by simp
  qed
  ultimately show ?thesis by blast
qed

lemma del_node_ring:
  assumes r: "ring_of nx head ns"
  shows "\<exists>nx'. del_node head node nx = Some nx' \<and> ring_of nx' head (remove1 node ns) \<and> (if node \<in> set ns then nx' node = node else nx' = nx)"
proof -
  let ?b = "\<lambda>(p, n). n \<noteq> node \<and> n \<noteq> head" and ?c = "\<lambda>(p, n). (n, nx n)" and ?f = "\<lambda>i. ((head # ns) ! i, (ns @ [head]) ! i)"
  have step: "?c (?f i) = ?f (Suc i)" if "i < length ns" for i
    using ring_of_nth [OF r, of "Suc i"] that by (auto simp: nth_append)
  have f0: "(head, nx head) = ?f 0" using ring_of_nth [OF r, of 0] by (simp add: nth_append)
  have nh: "ns ! i \<noteq> head" if "i < length ns" for i using r that by (auto simp: ring_of_def)
  have walk: "while_option ?b ?c (?f 0) = Some (?f k)"
    if k: "k \<le> length ns" "\<And>i. i < k \<Longrightarrow> ns ! i \<noteq> node" and e: "(ns @ [head]) ! k = node \<or> (ns @ [head]) ! k = head" for k
  proof (rule while_walk)
    fix i
    assume "i < k"
    then have "i < length ns" "(ns @ [head]) ! i = ns ! i" using k(1) by (simp_all add: nth_append)
    then show "?b (?f i) \<and> ?c (?f i) = ?f (Suc i)" using step [of i] nh [of i] k(2) [OF \<open>i < k\<close>] by (simp only: prod.case) simp
  qed (use e in auto)
  show ?thesis
  proof (cases "node \<in> set ns")
    case False
    then have "ns ! i \<noteq> node" if "i < length ns" for i using that by auto
    then have "while_option ?b ?c (?f 0) = Some (?f (length ns))" by (intro walk) (auto simp: nth_append)
    then have "del_node head node nx = Some nx" by (simp add: del_node_def f0)
    then show ?thesis using r False by (simp add: remove1_idem)
  next
    case True
    then obtain xs ys where ns: "ns = xs @ node # ys" "node \<notin> set xs" by (meson split_list_first)
    obtain qs p where qp: "head # xs = qs @ [p]" by (metis append_butlast_last_id list.distinct(1))
    have all: "head # ns = qs @ p # node # ys" using qp ns(1) by (metis append.assoc append_Cons append_Nil)
    have len: "length qs = length xs" using arg_cong [OF qp, of length] by simp
    have d: "distinct (qs @ p # node # ys)" and m: "map nx (qs @ p # node # ys) = xs @ node # ys @ [head]"
      using r unfolding ring_of_def all by (simp_all add: ns(1))
    then have nx: "map nx qs = xs" "nx p = node" "nx node # map nx ys = ys @ [head]" using len by simp_all
    have "ns ! i \<noteq> node" if "i < length xs" for i using that ns by (auto simp: nth_append)
    then have "while_option ?b ?c (?f 0) = Some (?f (length xs))" by (intro walk) (simp_all add: ns(1) nth_append)
    moreover have "?f (length xs) = (p, node)" unfolding all using len by (simp add: ns(1) nth_append)
    ultimately have "while_option ?b ?c (head, nx head) = Some (p, node)" unfolding f0 by simp
    moreover have "node \<noteq> head" "node \<noteq> p" using r d by (auto simp: ring_of_def ns(1))
    ultimately have del: "del_node head node nx = Some (nx(p := nx node, node := node))" by (simp add: del_node_def Let_def)
    have rest: "remove1 node ns = xs @ ys" "head # xs @ ys = qs @ p # ys" using ns qp by (simp_all add: remove1_append)
    have "map (nx(p := nx node, node := node)) (qs @ p # ys) = xs @ (nx node # map nx ys)" using d nx(1) by auto
    then have "ring_of (nx(p := nx node, node := node)) head (remove1 node ns)"
      using d unfolding ring_of_def rest nx(3) by auto
    then show ?thesis using del True by simp
  qed
qed

lemma print_list_ring:
  assumes r: "ring_of nx head ns"
  shows "print_list head nx = Some ns"
proof -
  let ?f = "\<lambda>i. ((ns @ [head]) ! i, take i ns)"
  have "while_option (\<lambda>(p, out). p \<noteq> head) (\<lambda>(p, out). (nx p, out @ [p])) (?f 0) = Some (?f (length ns))"
  proof (rule while_walk)
    fix i
    assume i: "i < length ns"
    then have "nx (ns ! i) = (ns @ [head]) ! Suc i" using ring_of_nth [OF r, of "Suc i"] by (auto simp: nth_append)
    moreover have "ns ! i \<noteq> head" using r i by (auto simp: ring_of_def)
    ultimately show "(case ?f i of (p, out) \<Rightarrow> p \<noteq> head) \<and> (case ?f i of (p, out) \<Rightarrow> (nx p, out @ [p])) = ?f (Suc i)"
      using i by (simp add: nth_append take_Suc_conv_app_nth)
  qed (simp add: nth_append)
  moreover have "nx head = (ns @ [head]) ! 0" using ring_of_nth [OF r, of 0] by (simp add: nth_append)
  ultimately show ?thesis by (simp add: print_list_def)
qed

section \<open>Correctness\<close>

text \<open>
  The circular lists implement lists. An initialised node is an empty list; of a list \<open>ns\<close>, \<open>print_list\<close> visits the nodes in order; \<open>add_head\<close> and \<open>add_tail\<close>
  put a new node before the first and behind the last; \<open>del_node\<close> takes a node out, which then is a list of its own, and changes nothing when the node is not in
  the list. All of the loops end.
\<close>
theorem sllist_refines:
  assumes "ring_of nx head ns"
  shows "ring_of (init_node node nx) node [] \<and> print_list head nx = Some ns \<and>
    (node \<notin> set (head # ns) \<longrightarrow>
       ring_of (add_head head node nx) head (node # ns) \<and>
       (\<exists>nx'. add_tail head node nx = Some nx' \<and> ring_of nx' head (ns @ [node]))) \<and>
    (\<exists>nx'. del_node head node nx = Some nx' \<and> ring_of nx' head (remove1 node ns) \<and>
       (if node \<in> set ns then ring_of nx' node [] else nx' = nx))"
proof (intro conjI impI)
  show "ring_of (init_node node nx) node []" by (simp add: ring_of_def init_node_def)
  show "\<exists>nx'. del_node head node nx = Some nx' \<and> ring_of nx' head (remove1 node ns) \<and> (if node \<in> set ns then ring_of nx' node [] else nx' = nx)"
    using del_node_ring [OF assms, of node] by (auto simp: ring_of_def)
qed (use print_list_ring [OF assms] add_head_ring [OF assms] add_tail_ring [OF assms] in blast)+

text \<open>The list of the nodes 1 and 2 with the head 0: node 3 goes to its end, and node 2 comes out of it.\<close>
theorem sllist_refines_witness:
  "ring_of ((\<lambda>_. 0)(0 := 1, 1 := 2)) 0 [1, 2] \<and>
   (\<exists>nx'. add_tail 0 3 ((\<lambda>_. 0)(0 := 1, 1 := 2)) = Some nx' \<and> ring_of nx' 0 [1, 2, 3]) \<and>
   (\<exists>nx'. del_node 0 2 ((\<lambda>_. 0)(0 := 1, 1 := 2)) = Some nx' \<and> ring_of nx' 0 [1])"
proof -
  have r: "ring_of ((\<lambda>_. 0)(0 := 1, 1 := 2)) 0 [1, 2]" by (simp add: ring_of_def)
  show ?thesis using sllist_refines [OF r, of 3] sllist_refines [OF r, of 2] r by auto
qed

end
