(* ===== verification/Threadsort.thy ===== *)
theory Threadsort
  imports Prelude "HOL-Library.Multiset"
begin

text \<open>
  Sorting with several threads (\<open>threads_basics/thread_sorting/threadSort.c\<close>): three sorting routines on stretches of a shared array, and the threads that call them.

  The array is a map from indices to numbers, so that an access outside of a stretch is an access to a neighbour. A pointer into the array is its index. The numbers
  are only compared and moved, so their width does not matter. The threads run one after the other: that two of them may read the shared \<open>count\<close> before either has changed it is not modelled.
\<close>

section \<open>The routines\<close>

type_synonym ints = "nat \<Rightarrow> int"

definition swap_at :: "nat \<Rightarrow> nat \<Rightarrow> ints \<Rightarrow> ints" where
  "swap_at i j a = a(i := a j, j := a i)"

definition brute_step :: "nat \<Rightarrow> nat \<Rightarrow> nat \<Rightarrow> ints \<Rightarrow> ints" where
  "brute_step p i j a = (if a (p + j) < a (p + i) then swap_at (p + j) (p + i) a else a)"

definition BruteForceSort :: "nat \<Rightarrow> nat \<Rightarrow> ints \<Rightarrow> ints" where
  "BruteForceSort p n a = fold (\<lambda>i. fold (brute_step p i) [i + 1..<n]) [0..<n] a"

text \<open>One pass of the bubble sort: the flag and the array.\<close>

definition bubble_step :: "nat \<Rightarrow> nat \<Rightarrow> bool \<times> ints \<Rightarrow> bool \<times> ints" where
  "bubble_step p i = (\<lambda>(sorted, a). if a (p + i) < a (p + i - 1) then (False, swap_at (p + i - 1) (p + i) a) else (sorted, a))"

definition bubble_pass :: "nat \<Rightarrow> nat \<Rightarrow> ints \<Rightarrow> bool \<times> ints" where
  "bubble_pass p n a = fold (bubble_step p) [1..<n] (True, a)"

definition BubbleSort :: "nat \<Rightarrow> nat \<Rightarrow> ints \<Rightarrow> ints option" where
  "BubbleSort p n a = map_option snd (while_option (\<lambda>(sorted, _). \<not> sorted) (\<lambda>(_, a). bubble_pass p n a) (False, a))"

text \<open>\<open>Merge\<close>: the loop that compares, then the rests; the temporary array is the list of what it has got.\<close>

function merge_loop :: "ints \<Rightarrow> nat \<Rightarrow> nat \<Rightarrow> nat \<Rightarrow> nat \<Rightarrow> nat \<Rightarrow> int list \<Rightarrow> nat \<times> nat \<times> int list" where
  "merge_loop a p mid right lpos rpos temp =
     (if lpos \<le> mid \<and> rpos \<le> right
      then (if a (p + lpos) < a (p + rpos) then merge_loop a p mid right (lpos + 1) rpos (temp @ [a (p + lpos)])
            else merge_loop a p mid right lpos (rpos + 1) (temp @ [a (p + rpos)]))
      else (lpos, rpos, temp))"
  by pat_completeness auto
termination by (relation "measure (\<lambda>(a, p, mid, right, lpos, rpos, temp). (mid + 1 - lpos) + (right + 1 - rpos))") auto

definition put_list :: "nat \<Rightarrow> int list \<Rightarrow> ints \<Rightarrow> ints" where
  "put_list p xs a = fold (\<lambda>i a. a(p + i := xs ! i)) [0..<length xs] a"

definition Merge :: "nat \<Rightarrow> nat \<Rightarrow> nat \<Rightarrow> nat \<Rightarrow> ints \<Rightarrow> ints" where
  "Merge p left mid right a =
     (case merge_loop a p mid right left mid [] of
        (lpos, rpos, temp) \<Rightarrow> put_list (p + left) (temp @ map (\<lambda>i. a (p + i)) [lpos..<mid] @ map (\<lambda>i. a (p + i)) [rpos..<right + 1]) a)"

function MergeSort :: "nat \<Rightarrow> nat \<Rightarrow> ints \<Rightarrow> ints" where
  "MergeSort p n a =
     (let mid = n div 2 in
      if n > 1 then Merge p 0 mid (n - 1) (MergeSort (p + mid) (n - mid) (MergeSort p mid a)) else a)"
  by pat_completeness auto
termination by (relation "measure (\<lambda>(p, n, a). n)") auto

declare merge_loop.simps [simp del] MergeSort.simps [simp del]

section \<open>The threads\<close>

text \<open>The globals; a thread takes the next stretch of the array, counts, and sorts the stretch. \<open>None\<close>: the thread does not end.\<close>

record sorting =
  total_nums :: nat
  data_array :: ints
  stretch :: nat
  count :: nat

definition thread_dispatch :: "char \<Rightarrow> sorting \<Rightarrow> sorting option" where
  "thread_dispatch letter s =
     (let sub = count s * stretch s; s' = s\<lparr>count := count s + 1\<rparr> in
      if letter = CHR ''F'' then Some (s'\<lparr>data_array := BruteForceSort sub (stretch s) (data_array s)\<rparr>)
      else if letter = CHR ''B'' then map_option (\<lambda>a. s'\<lparr>data_array := a\<rparr>) (BubbleSort sub (stretch s) (data_array s))
      else if letter = CHR ''M'' then Some (s'\<lparr>data_array := MergeSort sub (stretch s) (data_array s)\<rparr>)
      else Some s)"

definition descriptions :: string where "descriptions = ''FBM''"

text \<open>The array before the sort, and the threads one after the other.\<close>

definition init_data :: "nat \<Rightarrow> nat \<Rightarrow> sorting" where
  "init_data n vals = \<lparr>total_nums = n * vals, data_array = (\<lambda>i. if i < n * vals then int (n * vals) - int i else 0), stretch = vals, count = 0\<rparr>"

primrec run_threads :: "nat list \<Rightarrow> sorting \<Rightarrow> sorting option" where
  "run_threads [] s = Some s"
| "run_threads (i # is) s = (case thread_dispatch (descriptions ! (i mod 3)) s of None \<Rightarrow> None | Some s' \<Rightarrow> run_threads is s')"

text \<open>The least and the greatest of the times.\<close>

definition find_min :: "int list \<Rightarrow> int" where
  "find_min arr = (if arr = [] then 0 else fold (\<lambda>x m. if x < m then x else m) (tl arr) (hd arr))"

definition find_max :: "int list \<Rightarrow> int" where
  "find_max arr = (if arr = [] then 0 else fold (\<lambda>x m. if x > m then x else m) (tl arr) (hd arr))"

text \<open>The checks of the arguments, the allocation of the array, which may fail, and the threads.\<close>

definition MAX_VALS_PER_THREAD :: int where "MAX_VALS_PER_THREAD = 1000"
definition MAX_N_SIZE :: int where "MAX_N_SIZE = 100"

definition sort_main :: "bool \<Rightarrow> int \<Rightarrow> int \<Rightarrow> string + sorting option" where
  "sort_main malloc_ok n vals =
     (if n \<le> 0 \<or> n > MAX_N_SIZE \<or> n mod 3 \<noteq> 0 then Inl ''bad n value (number of threads)''
      else if vals \<le> 0 \<or> vals > MAX_VALS_PER_THREAD then Inl ''bad vals_per_thread value''
      else if \<not> malloc_ok then Inl ''malloc failure''
      else Inr (run_threads [0..<nat n] (init_data (nat n) (nat vals))))"

section \<open>Sorting a stretch\<close>

definition seg :: "nat \<Rightarrow> nat \<Rightarrow> ints \<Rightarrow> int list" where
  "seg p n a = map a [p..<p + n]"

text \<open>The stretch is permuted and nothing else changes; and it is sorted.\<close>

definition permuted :: "nat \<Rightarrow> nat \<Rightarrow> ints \<Rightarrow> ints \<Rightarrow> bool" where
  "permuted p n a a' \<longleftrightarrow> mset (seg p n a') = mset (seg p n a) \<and> (\<forall>i. i < p \<or> p + n \<le> i \<longrightarrow> a' i = a i)"

definition sorts :: "nat \<Rightarrow> nat \<Rightarrow> ints \<Rightarrow> ints \<Rightarrow> bool" where
  "sorts p n a a' \<longleftrightarrow> permuted p n a a' \<and> sorted (seg p n a')"

lemma length_seg [simp]: "length (seg p n a) = n"
  by (simp add: seg_def)

lemma nth_seg [simp]: "i < n \<Longrightarrow> seg p n a ! i = a (p + i)"
  by (simp add: seg_def)

lemma seg_upd: "p \<le> i \<Longrightarrow> i < p + n \<Longrightarrow> seg p n (a(i := v)) = (seg p n a)[i - p := v]"
  by (rule nth_equalityI) (auto simp: nth_list_update)

lemma set_seg: "set (seg p n a) = {a (p + i) |i. i < n}"
  by (force simp: set_conv_nth)

lemma permuted_refl [simp]: "permuted p n a a"
  by (simp add: permuted_def)

lemma permuted_trans: "permuted p n a b \<Longrightarrow> permuted p n b c \<Longrightarrow> permuted p n a c"
  by (simp add: permuted_def)

lemma permuted_set: "permuted p n a a' \<Longrightarrow> set (seg p n a') = set (seg p n a)"
  unfolding permuted_def by (metis set_mset_mset)

lemma permuted_swap:
  assumes "p \<le> i" "i < p + n" "p \<le> j" "j < p + n"
  shows "permuted p n a (swap_at i j a)"
proof -
  have "seg p n (swap_at i j a) = (seg p n a)[i - p := seg p n a ! (j - p), j - p := seg p n a ! (i - p)]"
    using assms by (simp add: swap_at_def seg_upd)
  moreover have "mset ((seg p n a)[i - p := seg p n a ! (j - p), j - p := seg p n a ! (i - p)]) = mset (seg p n a)"
    using assms by (intro mset_swap) auto
  ultimately show ?thesis using assms by (simp add: permuted_def swap_at_def)
qed

text \<open>A part of a stretch.\<close>

lemma seg_split: "m \<le> n \<Longrightarrow> seg p n a = seg p m a @ seg (p + m) (n - m) a"
  unfolding seg_def map_append [symmetric] using upt_add_eq_append [of p "p + m" "n - m"] by simp

lemma permuted_part:
  assumes "permuted q m a a'" "p \<le> q" "q + m \<le> p + n"
  shows "permuted p n a a'"
proof -
  have out: "a' i = a i" if "i < q \<or> q + m \<le> i" for i using assms(1) that by (auto simp: permuted_def)
  have eq: "seg p n b = seg p (q - p) b @ seg q m b @ seg (q + m) (p + n - (q + m)) b" for b
    using seg_split [of "q - p" n p b] seg_split [of m "n - (q - p)" q b] assms(2,3) by (simp add: add.commute)
  have "seg p (q - p) a' = seg p (q - p) a" "seg (q + m) (p + n - (q + m)) a' = seg (q + m) (p + n - (q + m)) a"
    using out assms(2,3) by (auto simp: seg_def)
  then have "mset (seg p n a') = mset (seg p n a)" using assms(1) unfolding eq [of a] eq [of a'] by (simp add: permuted_def)
  then show ?thesis using out assms(2,3) by (auto simp: permuted_def)
qed

lemma sorted_segI: "(\<And>i j. i < j \<Longrightarrow> j < n \<Longrightarrow> a (p + i) \<le> a (p + j)) \<Longrightarrow> sorted (seg p n a)"
  by (auto simp: sorted_iff_nth_mono_less)

section \<open>The brute force sort\<close>

lemma brute_inner:
  assumes "i < k" "k \<le> n" "b = fold (brute_step p i) [i + 1..<k] a"
  shows "permuted (p + i) (n - i) a b \<and> (\<forall>j. i < j \<longrightarrow> j < k \<longrightarrow> b (p + i) \<le> b (p + j))"
  using assms
proof (induction k arbitrary: b)
  case (Suc k)
  show ?case
  proof (cases "i < k")
    case False
    then show ?thesis using Suc.prems by (simp add: less_Suc_eq)
  next
    case True
    define c where "c = fold (brute_step p i) [i + 1..<k] a"
    have c: "permuted (p + i) (n - i) a c" "\<And>j. i < j \<Longrightarrow> j < k \<Longrightarrow> c (p + i) \<le> c (p + j)"
      using Suc.IH [OF True _ c_def] Suc.prems(2) by simp_all
    have b: "b = brute_step p i k c" using Suc.prems(3) True by (simp add: c_def)
    have "permuted (p + i) (n - i) c b" unfolding b brute_step_def using True Suc.prems(2) by (auto intro!: permuted_swap)
    moreover have "b (p + i) \<le> b (p + j)" if "i < j" "j < Suc k" for j
    proof -
      have "c (p + i) \<le> c (p + j)" if "j \<noteq> k" using that c(2) [of j] \<open>i < j\<close> \<open>j < Suc k\<close> by simp
      then show ?thesis using \<open>i < j\<close> unfolding b brute_step_def by (auto simp: swap_at_def)
    qed
    ultimately show ?thesis using permuted_trans [OF c(1)] by blast
  qed
qed simp

lemma BruteForceSort_sorts: "sorts p n a (BruteForceSort p n a)"
proof -
  define f where "f = (\<lambda>i. fold (brute_step p i) [i + 1..<n])"
  have "permuted p n a (fold f [0..<m] a) \<and> (\<forall>j<m. \<forall>k. j < k \<longrightarrow> k < n \<longrightarrow> fold f [0..<m] a (p + j) \<le> fold f [0..<m] a (p + k))" if "m \<le> n" for m
    using that
  proof (induction m)
    case (Suc m)
    define b c where "b = fold f [0..<m] a" and "c = f m b"
    have b: "permuted p n a b" "\<And>j k. j < m \<Longrightarrow> j < k \<Longrightarrow> k < n \<Longrightarrow> b (p + j) \<le> b (p + k)" using Suc by (auto simp: b_def)
    have c: "permuted (p + m) (n - m) b c" "\<And>k. m < k \<Longrightarrow> k < n \<Longrightarrow> c (p + m) \<le> c (p + k)"
      using brute_inner [of m n n c p b] Suc.prems by (auto simp: c_def f_def)
    have "c (p + j) \<le> c (p + k)" if "j < Suc m" "j < k" "k < n" for j k
    proof (cases "j = m")
      case False
      then have j: "j < m" "c (p + j) = b (p + j)" using that c(1) by (auto simp: permuted_def)
      show ?thesis
      proof (cases "k < m")
        case True
        then have "c (p + k) = b (p + k)" using c(1) by (simp add: permuted_def)
        then show ?thesis using j b(2) that by simp
      next
        case False
        then have "c (p + k) \<in> set (seg (p + m) (n - m) c)" using that by (auto simp: set_seg intro!: exI [of _ "k - m"])
        then obtain l where "c (p + k) = b (p + m + l)" "l < n - m" unfolding permuted_set [OF c(1)] by (auto simp: set_seg)
        then show ?thesis using j b(2) [of j "m + l"] by (simp add: add.assoc)
      qed
    qed (use c(2) that in simp)
    moreover have "permuted p n a c" using permuted_trans [OF b(1) permuted_part [OF c(1)]] Suc.prems by simp
    ultimately show ?case by (simp add: b_def c_def)
  qed simp
  from this [of n] show ?thesis unfolding sorts_def BruteForceSort_def f_def [symmetric] by (auto intro!: sorted_segI)
qed

section \<open>The bubble sort\<close>

text \<open>Each exchange moves a larger number to a later place; the sum of the numbers weighted with their places grows, and cannot grow forever.\<close>

definition weight :: "nat \<Rightarrow> nat \<Rightarrow> ints \<Rightarrow> int" where
  "weight p n a = (\<Sum>i<n. int i * a (p + i))"

definition bound :: "nat \<Rightarrow> nat \<Rightarrow> ints \<Rightarrow> int" where
  "bound p n a = int n * sum_list (map abs (seg p n a))"

lemma weight_bound: "weight p n a \<le> bound p n a"
proof -
  have "sum_list (map abs (seg p n a)) = (\<Sum>i<n. \<bar>a (p + i)\<bar>)" by (simp add: sum_list_sum_nth atLeast0LessThan)
  then have "bound p n a = (\<Sum>i<n. int n * \<bar>a (p + i)\<bar>)" by (simp add: bound_def sum_distrib_left)
  moreover have "int i * a (p + i) \<le> int n * \<bar>a (p + i)\<bar>" if "i < n" for i
  proof -
    have "int i * a (p + i) \<le> int i * \<bar>a (p + i)\<bar>" by (intro mult_left_mono) auto
    also have "\<dots> \<le> int n * \<bar>a (p + i)\<bar>" using that by (intro mult_right_mono) auto
    finally show ?thesis .
  qed
  ultimately show ?thesis unfolding weight_def by (metis (no_types, lifting) lessThan_iff sum_mono)
qed

lemma bound_permuted: "permuted p n a a' \<Longrightarrow> bound p n a' = bound p n a"
  unfolding permuted_def bound_def by (metis mset_map sum_mset_sum_list)

lemma weight_swap:
  assumes "Suc j < n" "a (p + Suc j) < a (p + j)"
  shows "weight p n a < weight p n (swap_at (p + j) (p + Suc j) a)"
proof -
  let ?b = "swap_at (p + j) (p + Suc j) a" and ?I = "{..<n} - {j} - {Suc j}"
  have sp: "weight p n c = int j * c (p + j) + (int (Suc j) * c (p + Suc j) + (\<Sum>k\<in>?I. int k * c (p + k)))" for c
  proof -
    have "weight p n c = int j * c (p + j) + (\<Sum>k\<in>{..<n} - {j}. int k * c (p + k))"
      unfolding weight_def using assms(1) by (intro sum.remove) auto
    moreover have "(\<Sum>k\<in>{..<n} - {j}. int k * c (p + k)) = int (Suc j) * c (p + Suc j) + (\<Sum>k\<in>?I. int k * c (p + k))"
      using assms(1) by (intro sum.remove) auto
    ultimately show ?thesis by simp
  qed
  have "(\<Sum>k\<in>?I. int k * ?b (p + k)) = (\<Sum>k\<in>?I. int k * a (p + k))" by (intro sum.cong) (auto simp: swap_at_def)
  moreover have "?b (p + j) = a (p + Suc j)" "?b (p + Suc j) = a (p + j)" by (auto simp: swap_at_def)
  ultimately show ?thesis unfolding sp [of a] sp [of ?b] using assms(2) by (simp add: algebra_simps)
qed

lemma bubble_pass_spec:
  assumes "bubble_pass p n a = (f, b)"
  shows "permuted p n a b" "f \<Longrightarrow> b = a \<and> sorted (seg p n a)" "\<not> f \<Longrightarrow> weight p n a < weight p n b"
proof -
  have inv: "case fold (bubble_step p) [1..<k] (True, a) of (f, b) \<Rightarrow> permuted p n a b \<and> weight p n a \<le> weight p n b \<and>
      (if f then b = a \<and> (\<forall>i. 0 < i \<longrightarrow> i < k \<longrightarrow> a (p + i - 1) \<le> a (p + i)) else weight p n a < weight p n b)" if "k \<le> n" for k
    using that
  proof (induction k)
    case (Suc k)
    show ?case
    proof (cases "0 < k")
      case True
      obtain f b where fb: "fold (bubble_step p) [1..<k] (True, a) = (f, b)" by force
      have I: "permuted p n a b" "weight p n a \<le> weight p n b" "f \<Longrightarrow> b = a \<and> (\<forall>i. 0 < i \<longrightarrow> i < k \<longrightarrow> a (p + i - 1) \<le> a (p + i))" "\<not> f \<Longrightarrow> weight p n a < weight p n b"
        using Suc fb by (auto split: if_splits)
      have st: "fold (bubble_step p) [1..<Suc k] (True, a) = bubble_step p k (f, b)" using True fb by simp
      show ?thesis
      proof (cases "b (p + k) < b (p + k - 1)")
        case True
        let ?c = "swap_at (p + k - 1) (p + k) b"
        have "weight p n b < weight p n ?c" using weight_swap [of "k - 1" n b p] \<open>0 < k\<close> Suc.prems True by simp
        moreover have "permuted p n a ?c" using permuted_trans [OF I(1)] permuted_swap [of p "p + k - 1" n "p + k" b] \<open>0 < k\<close> Suc.prems by simp
        ultimately show ?thesis using I(2) True unfolding st by (simp add: bubble_step_def)
      next
        case False
        then show ?thesis using I unfolding st by (auto simp: bubble_step_def less_Suc_eq)
      qed
    qed simp
  qed simp
  note I = inv [OF order_refl, folded bubble_pass_def, unfolded assms, simplified]
  show "permuted p n a b" "\<not> f \<Longrightarrow> weight p n a < weight p n b" using I by (auto split: if_splits)
  assume f
  then have a: "b = a" "\<And>i. 0 < i \<Longrightarrow> i < n \<Longrightarrow> a (p + i - 1) \<le> a (p + i)" using I by auto
  have "a (p + i) \<le> a (p + Suc i)" if "Suc i < n" for i using a(2) [of "Suc i"] that by simp
  then have "sorted (seg p n a)" by (auto simp: sorted_iff_nth_Suc)
  then show "b = a \<and> sorted (seg p n a)" using a(1) by simp
qed

lemma BubbleSort_sorts: "\<exists>b. BubbleSort p n a = Some b \<and> sorts p n a b"
proof -
  let ?P = "\<lambda>(f, b). permuted p n a b \<and> (f \<longrightarrow> sorted (seg p n b))"
  let ?m = "\<lambda>(f, b). nat (bound p n a - weight p n b) * 2 + (if f then 0 else 1 :: nat)"
  let ?c = "\<lambda>(_ :: bool, b). bubble_pass p n b"
  have step: "?P (?c s) \<and> ?m (?c s) < ?m s" if st: "?P s \<and> (case s of (f, _) \<Rightarrow> \<not> f)" for s
  proof -
    obtain b where s: "s = (False, b)" "permuted p n a b" using st by (cases s) auto
    obtain f c where fc: "bubble_pass p n b = (f, c)" by force
    note spec = bubble_pass_spec [OF fc]
    have c: "permuted p n a c" by (rule permuted_trans [OF s(2) spec(1)])
    have "weight p n c \<le> bound p n a" using weight_bound [of p n c] bound_permuted [OF c] by simp
    then show ?thesis using spec(2,3) c by (cases f) (simp_all add: s(1) fc)
  qed
  have P0: "?P (False, a)" by simp
  from measure_while_option_Some [where P = ?P and f = ?m and c = ?c and b = "\<lambda>(f, _). \<not> f", OF step P0] obtain r where
    r: "while_option (\<lambda>(f, _). \<not> f) ?c (False, a) = Some r" by auto
  have "?P r" by (rule while_option_rule [where P = ?P, OF _ r P0]) (rule conjunct1 [OF step [OF conjI]])
  moreover have "fst r" using while_option_stop [OF r] by (cases r) simp
  ultimately show ?thesis using r by (cases r) (simp add: BubbleSort_def sorts_def)
qed

section \<open>The merge sort\<close>

lemma put_list_at: "put_list p xs a i = (if p \<le> i \<and> i < p + length xs then xs ! (i - p) else a i)"
proof -
  have "fold (\<lambda>i a. a(p + i := xs ! i)) [0..<n] a i = (if p \<le> i \<and> i < p + n then xs ! (i - p) else a i)" for n
    by (induction n) auto
  then show ?thesis by (simp add: put_list_def)
qed

text \<open>
  The loop of \<open>Merge\<close> is right while the left half is not used up, which is so when its last number is not below the last of the right half.
\<close>

lemma merge_loop_ok:
  assumes "merge_loop a p mid right lpos rpos temp = (l, r, t)" "lpos < mid" "rpos \<le> right + 1" "sorted temp"
    and "\<And>i j. i \<le> j \<Longrightarrow> j < mid \<Longrightarrow> lpos \<le> i \<Longrightarrow> a (p + i) \<le> a (p + j)" "\<And>i j. i \<le> j \<Longrightarrow> j \<le> right \<Longrightarrow> rpos \<le> i \<Longrightarrow> a (p + i) \<le> a (p + j)"
    and "a (p + right) \<le> a (p + (mid - 1))" "\<And>x. x \<in> set temp \<Longrightarrow> x \<le> a (p + lpos)" "\<And>x. x \<in> set temp \<Longrightarrow> rpos \<le> right \<Longrightarrow> x \<le> a (p + rpos)"
  shows "lpos \<le> l \<and> l < mid \<and> r = right + 1 \<and> sorted t \<and> (\<forall>x\<in>set t. x \<le> a (p + l)) \<and>
    mset t = mset temp + mset (map (\<lambda>i. a (p + i)) [lpos..<l]) + mset (map (\<lambda>i. a (p + i)) [rpos..<right + 1])"
  using assms
proof (induction a p mid right lpos rpos temp rule: merge_loop.induct)
  case (1 a p mid right lpos rpos temp)
  consider "rpos = right + 1" | "rpos \<le> right" "a (p + lpos) < a (p + rpos)" | "rpos \<le> right" "\<not> a (p + lpos) < a (p + rpos)"
    using "1.prems"(3) by linarith
  then show ?case
  proof cases
    case 1
    then have "merge_loop a p mid right lpos rpos temp = (lpos, rpos, temp)" by (subst merge_loop.simps) simp
    then show ?thesis using 1 "1.prems"(1,2,4,8) by simp
  next
    case 2
    have m: "lpos \<noteq> mid - 1" using 2 "1.prems"(6) [of rpos right] "1.prems"(7) by auto
    then have lt: "lpos + 1 < mid" using "1.prems"(2) by linarith
    have eq: "merge_loop a p mid right (lpos + 1) rpos (temp @ [a (p + lpos)]) = (l, r, t)"
      using "1.prems"(1,2) 2 by (simp add: merge_loop.simps [of a p mid right lpos rpos])
    have up: "a (p + lpos) \<le> a (p + (lpos + 1))" using "1.prems"(5) [of lpos "lpos + 1"] lt by simp
    have "lpos + 1 \<le> l \<and> l < mid \<and> r = right + 1 \<and> sorted t \<and> (\<forall>x\<in>set t. x \<le> a (p + l)) \<and>
        mset t = mset (temp @ [a (p + lpos)]) + mset (map (\<lambda>i. a (p + i)) [lpos + 1..<l]) + mset (map (\<lambda>i. a (p + i)) [rpos..<right + 1])"
    proof (rule "1.IH"(1))
      show "sorted (temp @ [a (p + lpos)])" using "1.prems"(4,8) by (simp add: sorted_append)
      show "x \<le> a (p + (lpos + 1))" if "x \<in> set (temp @ [a (p + lpos)])" for x using that "1.prems"(8) up by force
      show "x \<le> a (p + rpos)" if "x \<in> set (temp @ [a (p + lpos)])" "rpos \<le> right" for x using that "1.prems"(9) 2 by force
    qed (use 2 lt eq "1.prems" in auto)
    then show ?thesis by (auto simp: upt_conv_Cons)
  next
    case 3
    have eq: "merge_loop a p mid right lpos (rpos + 1) (temp @ [a (p + rpos)]) = (l, r, t)"
      using "1.prems"(1,2) 3 by (simp add: merge_loop.simps [of a p mid right lpos rpos])
    have "lpos \<le> l \<and> l < mid \<and> r = right + 1 \<and> sorted t \<and> (\<forall>x\<in>set t. x \<le> a (p + l)) \<and>
        mset t = mset (temp @ [a (p + rpos)]) + mset (map (\<lambda>i. a (p + i)) [lpos..<l]) + mset (map (\<lambda>i. a (p + i)) [rpos + 1..<right + 1])"
    proof (rule "1.IH"(2))
      show "sorted (temp @ [a (p + rpos)])" using "1.prems"(4,9) 3 by (simp add: sorted_append)
      show "x \<le> a (p + lpos)" if "x \<in> set (temp @ [a (p + rpos)])" for x using that "1.prems"(8) 3 by force
      show "x \<le> a (p + (rpos + 1))" if x: "x \<in> set (temp @ [a (p + rpos)])" "rpos + 1 \<le> right" for x
      proof -
        have "a (p + rpos) \<le> a (p + (rpos + 1))" using "1.prems"(6) [of rpos "rpos + 1"] x(2) by simp
        then show ?thesis using x(1) "1.prems"(9) 3 by force
      qed
    qed (use 3 eq "1.prems" in auto)
    moreover have "[rpos..<right + 1] = rpos # [rpos + 1..<right + 1]" using 3 by (simp add: upt_conv_Cons)
    ultimately show ?thesis by auto
  qed
qed

lemma seg_append_map: "seg p n a = map (\<lambda>i. a (p + i)) [0..<n]"
  by (rule nth_equalityI) simp_all

lemma Merge_ok:
  assumes h: "0 < mid" "mid < n" "sorted (seg p mid a)" "sorted (seg (p + mid) (n - mid) a)" "a (p + (n - 1)) \<le> a (p + (mid - 1))"
  shows "sorts p n a (Merge p 0 mid (n - 1) a)"
proof -
  obtain l r t where t: "merge_loop a p mid (n - 1) 0 mid [] = (l, r, t)" by (metis prod_cases3)
  have left: "a (p + i) \<le> a (p + j)" if "i \<le> j" "j < mid" for i j using sorted_nth_mono [OF h(3), of i j] that by simp
  have right: "a (p + i) \<le> a (p + j)" if "i \<le> j" "j \<le> n - 1" "mid \<le> i" for i j
    using sorted_nth_mono [OF h(4), of "i - mid" "j - mid"] that h(2) by (simp add: add.assoc)
  have n: "n - 1 + 1 = n" using h(2) by simp
  have m: "l < mid" "r = n" "sorted t" "\<forall>x\<in>set t. x \<le> a (p + l)" "mset t = mset (map (\<lambda>i. a (p + i)) [0..<l]) + mset (map (\<lambda>i. a (p + i)) [mid..<n])"
    using merge_loop_ok [OF t h(1)] left right h(2,5) unfolding n by auto
  define xs where "xs = t @ map (\<lambda>i. a (p + i)) [l..<mid]"
  have M: "Merge p 0 mid (n - 1) a = put_list p xs a" unfolding Merge_def t n by (simp add: m(2) xs_def)
  have "[0..<n] = [0..<l] @ [l..<mid] @ [mid..<n]" using upt_add_eq_append [of 0 l "n - l"] upt_add_eq_append [of l mid "n - mid"] m(1) h(2) by simp
  then have ms: "mset xs = mset (seg p n a)" unfolding xs_def seg_append_map by (simp only: map_append mset_append m(5) ac_simps)
  then have len: "length xs = n" by (metis length_seg size_mset)
  have "seg p n (put_list p xs a) = xs" using len by (intro nth_equalityI) (simp_all add: put_list_at)
  moreover have "sorted (map (\<lambda>i. a (p + i)) [l..<mid])" using left by (auto simp: sorted_iff_nth_mono)
  then have "sorted xs" using m(3,4) left m(1) unfolding xs_def by (force simp: sorted_append)
  ultimately show ?thesis using ms len unfolding M by (auto simp: sorts_def permuted_def put_list_at)
qed

lemma MergeSort_sorts:
  assumes "\<And>i j. i \<le> j \<Longrightarrow> j < n \<Longrightarrow> a (p + j) \<le> a (p + i)"
  shows "sorts p n a (MergeSort p n a)"
  using assms
proof (induction n arbitrary: p a rule: less_induct)
  case (less n)
  show ?case
  proof (cases "n > 1")
    case False
    then have "MergeSort p n a = a" by (subst MergeSort.simps) simp
    moreover have "sorted (seg p n a)" using False by (auto simp: sorted_iff_nth_mono_less)
    ultimately show ?thesis by (simp add: sorts_def)
  next
    case True
    define m b c where "m = n div 2" and "b = MergeSort p m a" and "c = MergeSort (p + m) (n - m) b"
    have m: "0 < m" "m < n" using True by (simp_all add: m_def)
    have b: "sorts p m a b" unfolding b_def using less.IH [of m a p] less.prems m by simp
    then have out: "b (p + i) = a (p + i)" if "m \<le> i" for i using that by (simp add: sorts_def permuted_def)
    have "b (p + m + j) \<le> b (p + m + i)" if "i \<le> j" "j < n - m" for i j
      using less.prems [of "m + i" "m + j"] that out [of "m + i"] out [of "m + j"] by (simp add: add.assoc)
    then have c: "sorts (p + m) (n - m) b c" unfolding c_def using less.IH [of "n - m" b "p + m"] m by simp
    have low: "c i = b i" if "i < p + m" for i using c that by (simp add: sorts_def permuted_def)
    then have sl: "seg p m c = seg p m b" by (simp add: seg_def)
    have "c (p + (n - 1)) \<le> c (p + (m - 1))"
    proof -
      have "c (p + (n - 1)) \<in> set (seg (p + m) (n - m) c)" using m by (auto simp: set_seg intro!: exI [of _ "n - 1 - m"])
      then have "c (p + (n - 1)) \<in> set (seg (p + m) (n - m) b)" using permuted_set [of "p + m" "n - m" b c] c by (simp add: sorts_def)
      then obtain j where j: "j < n - m" "c (p + (n - 1)) = a (p + (m + j))" using out by (auto simp: set_seg add.assoc)
      have "c (p + (m - 1)) \<in> set (seg p m b)" unfolding sl [symmetric] using m(1) by (auto simp: set_seg intro!: exI [of _ "m - 1"])
      then have "c (p + (m - 1)) \<in> set (seg p m a)" using permuted_set [of p m a b] b by (simp add: sorts_def)
      then obtain i where i: "i < m" "c (p + (m - 1)) = a (p + i)" by (auto simp: set_seg)
      show ?thesis using less.prems [of i "m + j"] i j by simp
    qed
    then have "sorts p n c (Merge p 0 m (n - 1) c)" using Merge_ok [of m n p c] m b c by (simp add: sorts_def sl)
    moreover have "permuted p n a c"
      using permuted_trans [OF permuted_part [of p m a b p n] permuted_part [of "p + m" "n - m" b c p n]] b c m by (simp add: sorts_def)
    moreover have "MergeSort p n a = Merge p 0 m (n - 1) c" using True by (subst MergeSort.simps) (simp add: m_def b_def c_def Let_def)
    ultimately show ?thesis using permuted_trans by (auto simp: sorts_def)
  qed
qed

section \<open>Correctness\<close>

text \<open>A thread sorts its stretch when the stretch runs downwards, whatever its letter.\<close>

lemma dispatch_sorts:
  assumes "letter \<in> set descriptions" "\<And>i j. i \<le> j \<Longrightarrow> j < stretch s \<Longrightarrow> data_array s (count s * stretch s + j) \<le> data_array s (count s * stretch s + i)"
  shows "\<exists>b. thread_dispatch letter s = Some (s\<lparr>count := count s + 1, data_array := b\<rparr>) \<and> sorts (count s * stretch s) (stretch s) (data_array s) b"
  using assms BruteForceSort_sorts [of "count s * stretch s" "stretch s" "data_array s"] BubbleSort_sorts [of "count s * stretch s" "stretch s" "data_array s"]
    MergeSort_sorts [of "stretch s" "data_array s" "count s * stretch s"]
  by (auto simp: thread_dispatch_def Let_def descriptions_def)

lemma run_threads_append: "run_threads (is @ js) s = (case run_threads is s of None \<Rightarrow> None | Some t \<Rightarrow> run_threads js t)"
  by (induction "is" arbitrary: s) (simp_all split: option.splits)

lemma stretches_apart: "k < m \<Longrightarrow> i < v \<Longrightarrow> k * v + i < m * (v :: nat)"
proof -
  assume "k < m" "i < v"
  then have "k * v + i < Suc k * v" "Suc k * v \<le> m * v" by (simp_all del: mult_Suc) simp_all
  then show ?thesis by linarith
qed

lemma threads_sort:
  "\<exists>t. run_threads [0..<n] (init_data n v) = Some t \<and> count t = n \<and>
     (\<forall>k<n. seg (k * v) v (data_array t) = sort (seg (k * v) v (data_array (init_data n v))))"
proof -
  let ?a = "data_array (init_data n v)"
  have "\<exists>t. run_threads [0..<m] (init_data n v) = Some t \<and> count t = m \<and> stretch t = v \<and> (\<forall>i. m * v \<le> i \<longrightarrow> data_array t i = ?a i) \<and>
      (\<forall>k<m. seg (k * v) v (data_array t) = sort (seg (k * v) v ?a))" if "m \<le> n" for m
    using that
  proof (induction m)
    case (Suc m)
    then obtain t where t: "run_threads [0..<m] (init_data n v) = Some t" "count t = m" "stretch t = v"
      "\<And>i. m * v \<le> i \<Longrightarrow> data_array t i = ?a i" "\<And>k. k < m \<Longrightarrow> seg (k * v) v (data_array t) = sort (seg (k * v) v ?a)" by auto
    have down: "data_array t (m * v + j) \<le> data_array t (m * v + i)" if "i \<le> j" "j < v" for i j
      using t(4) that stretches_apart [of m n j v] stretches_apart [of m n i v] Suc.prems by (simp add: init_data_def)
    have "descriptions ! (m mod 3) \<in> set descriptions" by (rule nth_mem) (simp add: descriptions_def)
    from dispatch_sorts [OF this, of t] down t(2,3) obtain b where
      b: "thread_dispatch (descriptions ! (m mod 3)) t = Some (t\<lparr>count := m + 1, data_array := b\<rparr>)" "sorts (m * v) v (data_array t) b" by auto
    have out: "b i = data_array t i" if "i < m * v \<or> Suc m * v \<le> i" for i using b(2) that by (auto simp: sorts_def permuted_def add.commute)
    have "seg (k * v) v b = sort (seg (k * v) v ?a)" if "k < Suc m" for k
    proof (cases "k = m")
      case True
      have "seg (m * v) v (data_array t) = seg (m * v) v ?a" using t(4) by (simp add: seg_def)
      then have "mset (seg (m * v) v b) = mset (seg (m * v) v ?a)" "sorted (seg (m * v) v b)" using b(2) by (simp_all add: sorts_def permuted_def)
      then show ?thesis unfolding True by (metis properties_for_sort)
    next
      case False
      then have "k < m" using that by simp
      then have "seg (k * v) v b = seg (k * v) v (data_array t)" using out stretches_apart [of k m _ v] by (intro nth_equalityI) simp_all
      then show ?thesis using t(5) \<open>k < m\<close> by simp
    qed
    moreover have "b i = ?a i" if "Suc m * v \<le> i" for i using out [of i] t(4) [of i] that by simp
    ultimately show ?case using t(1-3) b(1) by (simp add: run_threads_append)
  qed (simp add: init_data_def)
  from this [of n] show ?thesis by auto
qed

lemma find_min_max: "xs \<noteq> [] \<Longrightarrow> find_min xs = Min (set xs) \<and> find_max xs = Max (set xs)"
proof -
  have "(\<lambda>x m. if x < m then x else m) = (min :: int \<Rightarrow> _)" "(\<lambda>x m. if x > m then x else m) = (max :: int \<Rightarrow> _)"
    by (auto simp: fun_eq_iff min_def max_def)
  moreover assume "xs \<noteq> []"
  ultimately show ?thesis
    by (cases xs) (simp_all only: find_min_def find_max_def list.sel Min.set_eq_fold Max.set_eq_fold list.distinct if_False simp_thms)
qed

text \<open>
  The program sorts. For every admitted number of threads and of values per thread, when the threads take their stretches of the array one after the other, every thread
  returns, and at the end each stretch of the array is the sorted list of the numbers it had: those of the brute force, of the bubble and of the merge threads.
\<close>
theorem sort_main_sorts:
  assumes "0 < n" "n \<le> 100" "n mod 3 = 0" "0 < v" "v \<le> 1000"
  shows "\<exists>t. sort_main True n v = Inr (Some t) \<and>
    (\<forall>k<nat n. seg (k * nat v) (nat v) (data_array t) = sort (seg (k * nat v) (nat v) (data_array (init_data (nat n) (nat v)))))"
  using assms threads_sort [of "nat n" "nat v"] by (auto simp: sort_main_def MAX_N_SIZE_def MAX_VALS_PER_THREAD_def)

theorem sort_main_sorts_witness: "\<exists>t. sort_main True 3 2 = Inr (Some t) \<and> seg 4 2 (data_array t) = [1, 2]"
proof -
  obtain t where t: "sort_main True 3 2 = Inr (Some t)"
    "\<forall>k<nat 3. seg (k * nat 2) (nat 2) (data_array t) = sort (seg (k * nat 2) (nat 2) (data_array (init_data (nat 3) (nat 2))))"
    using sort_main_sorts [of 3 2] by auto
  have "seg 4 2 (data_array t) = sort (seg 4 2 (data_array (init_data 3 2)))" using t(2) [rule_format, of 2] by simp
  also have "\<dots> = [1, 2]" by (simp add: seg_def init_data_def upt_conv_Cons)
  finally show ?thesis using t(1) by blast
qed

text \<open>
  \<open>Merge\<close> goes one too far in the left half: with \<open>1\<close> and \<open>0, 5\<close> to be merged it writes \<open>0, 1, 0, 5\<close>, not sorted and one number beyond the end (which held 7).
\<close>

lemma merge_wrong: "map (Merge 0 0 1 2 ((\<lambda>_. 7)(0 := 1, 1 := 0, 2 := 5))) [0..<4] = [0, 1, 0, 5]"
  by (simp add: Merge_def merge_loop.simps put_list_def upt_conv_Cons numeral_eq_Suc)

end
