(* ===== verification/Spec2Isabelle.thy ===== *)
theory Spec2Isabelle
  imports Main_Start Image Diskqueue Transactions Trapret Argstack Grep Programs Umalloc Shprint Ust Jobs Hen Sllist Threadsort
begin

text \<open>
  A model of xv6 for RISC-V as this repository has it (\<open>src/xv6-riscv\<close>), with the repository's own extension of the
  kernel by user threads (\<open>thread_create\<close>, \<open>thread_join\<close>, \<open>thread_exit\<close>, \<open>spoon\<close>).

  \<^bold>\<open>The program.\<close> The kernel runs on several harts. A trap from user space enters \<open>usertrap\<close>, which dispatches system
  calls (\<open>syscall\<close>) to handlers; they work on processes (\<open>proc.c\<close>), files (\<open>file.c\<close>, \<open>pipe.c\<close>, \<open>fs.c\<close>) and memory (\<open>vm.c\<close>,
  \<open>kalloc.c\<close>). The file system sits on the log (\<open>log.c\<close>), which sits on the buffer cache (\<open>bio.c\<close>), which sits on the disk
  driver (\<open>virtio_disk.c\<close>). Shared data is protected by spin locks and sleep locks; who has to wait gives up the processor
  in \<open>sleep\<close> and is made runnable by \<open>wakeup\<close>.

  \<^bold>\<open>How the code is written here.\<close> A C function of the kernel is a program of the monad of \<open>Prelude\<close> over the record
  \<open>kstate\<close> of \<open>Kstate\<close>, which has the global variables of all source files, the byte memory, and the registers of the hart
  and of the devices. A program has one of four outcomes: it returns, it panics, it gives up the processor for good
  (\<open>Switched\<close>), or it waits in a loop for something no other hart will do (\<open>Spin\<close>). Null dereferences the hardware would not let the
  kernel survive are panics too. Pointers to entries of a table are indices, a pointer that may be null is an option; pointers
  to memory are 64-bit words, and page tables, page frames, trap frames and user memory are bytes of the memory. Machine
  integers have their width (\<open>u16\<close>, \<open>u32\<close>, \<open>addr\<close>); a C \<open>int\<close> that cannot leave its range is an \<open>int\<close>.

  \<^bold>\<open>Other harts and processes.\<close> The rest of the machine is the field \<open>env\<close> of \<open>kworld\<close>, a schedule: a list of what happens
  while the process is away, one function on the state for each time it gives up the processor. The theorems quantify over it. A process that
  the schedule never runs again ends as \<open>Switched\<close>. A C loop that may go on for ever is \<open>kloop\<close>, which rests on \<open>while_option\<close> and has
  the outcome \<open>Spin\<close> when the loop does not end; no fuel is involved, and the theorems say that such loops return. Loops over tables and buffers are
  \<open>kfor\<close>, \<open>kscan\<close> and recursion. For the spin lock itself, where interleaving of single memory accesses matters,
  \<open>lock_step\<close> is a step relation between any number of harts.
  \<open>freewalk\<close> descends at most \<open>2^52\<close> levels, the number of page frames an address can name: a chain without a cycle is not longer.

  \<^bold>\<open>The theories.\<close> A theory models the source file it names at its head; where the proofs are long they have a theory of their own.
  \<^item> \<open>Prelude\<close>, \<open>Memory\<close>, \<open>Kstate\<close>: the monad and its rules (collections \<open>exec_simps\<close>, \<open>keeps_intros\<close>), little-endian words in
    byte memory, the structures of the header files.
  \<^item> \<open>CString\<close> (\<open>string.c\<close>): \<open>memmove\<close> under any overlap, \<open>strncmp\<close> as lexicographic order.
  \<^item> \<open>Spinlock\<close> (\<open>spinlock.c\<close>): mutual exclusion under any interleaving of harts, interrupt nesting, misuse.
  \<^item> \<open>Sched\<close>, \<open>Sleeplock\<close> (second half of \<open>proc.c\<close>, \<open>sleeplock.c\<close>): \<open>sleep\<close>, \<open>wakeup\<close>, \<open>kill\<close>; handing over of sleep locks.
  \<^item> \<open>Kalloc\<close> (\<open>kalloc.c\<close>): the free list in the free pages is a stack of frames.
  \<^item> \<open>Vm\<close>, \<open>Pagetable\<close>, \<open>Usercopy\<close> (\<open>vm.c\<close>): page tables as trees in memory; what \<open>mappages\<close>, \<open>copyin\<close> and \<open>copyout\<close> do in terms of
    the bytes at user addresses.
  \<^item> \<open>Bio\<close>, \<open>Blockcache\<close> (\<open>bio.c\<close>): the ring of buffers refines an abstract cache that knows the current contents of every block.
  \<^item> \<open>Log\<close>, \<open>Transactions\<close> (\<open>log.c\<close>): a crash at any disk write of a commit leaves all or nothing; in any interleaving of operations
    the log has room for what the admitted ones may still write, counted in blocks of \<open>LOGSIZE\<close>; the log that \<open>mkfs\<close> makes is one block shorter.
  \<^item> \<open>Virtio\<close>, \<open>Diskqueue\<close> (\<open>virtio_disk.c\<close>): with a device that follows the virtio specification the driver implements
    \<open>disk_rw\<close>, the contract the buffer cache is verified against.
  \<^item> \<open>Ringbuf\<close>: the locale \<open>ring\<close> of byte queues with wrapping counters, interpreted for the pipe, the console and the UART.
  \<^item> \<open>Printf\<close>, \<open>Console\<close> (\<open>printf.c\<close>, \<open>uart.c\<close>, \<open>console.c\<close>): printed numbers read back, the transmit queue loses nothing, the console
    ring implements line editing.
  \<^item> \<open>Fs\<close>, \<open>Freemap\<close>, \<open>Inode\<close> (\<open>fs.c\<close>): the bitmap allocator on the abstract cache inside a transaction, the inode table, inodes to disk and back,
    path elements. \<open>Filemap\<close>, \<open>Filedata\<close>, \<open>Directory\<close>: a file is a sequence of bytes, \<open>writei\<close> and \<open>readi\<close> write and read stretches of it;
    a directory is a sequence of entries, and names that are entered are found.
  \<^item> \<open>File\<close>, \<open>Pipe\<close>, \<open>Descriptors\<close> (\<open>file.c\<close>, \<open>pipe.c\<close>, parts of \<open>sysfile.c\<close> and \<open>syscall.c\<close>): pipes are bounded byte queues whose writers wait when they are full, reference counts,
    descriptors, the dispatch of system calls.
  \<^item> \<open>Proc\<close> (first half of \<open>proc.c\<close>), \<open>Exec\<close>, \<open>Argstack\<close> (\<open>exec.c\<close>): processes and threads; loading a program; the argument stack.
  \<^item> \<open>Syscall\<close> (\<open>syscall.c\<close>, \<open>sysproc.c\<close>, \<open>sysfile.c\<close>), \<open>Trap\<close>, \<open>Trapret\<close> (\<open>trap.c\<close>, \<open>plic.c\<close>): a system call from the trap to the return to
    user mode; interrupts.
  \<^item> \<open>Main_Start\<close> (\<open>start.c\<close>, \<open>main.c\<close>): booting.
  \<^item> \<open>Mkfs\<close>, \<open>Image\<close> (\<open>mkfs/mkfs.c\<close>): the image that \<open>mkfs\<close> writes is a file system in the sense of \<open>Filemap\<close> and \<open>Directory\<close>, with the files given.
  \<^item> \<open>Usys\<close> (\<open>user/ulib.c\<close>, \<open>user/printf.c\<close>): user programs are programs of the same monad over the world of a process, which has the calls
    made so far and, as parameters, their answers and what reads find; \<open>atoi\<close> reads what \<open>printf\<close> prints.
  \<^item> \<open>Grep\<close> (\<open>user/grep.c\<close>): the matcher decides the language of the pattern; the matching lines are printed however \<open>read\<close> cuts the text.
  \<^item> \<open>Programs\<close> (\<open>cat\<close>, \<open>wc\<close>, \<open>echo\<close>, \<open>ls\<close>, \<open>kill\<close>, \<open>ln\<close>, \<open>mkdir\<close>, \<open>rm\<close>, \<open>zombie\<close>, \<open>init\<close>): \<open>wc\<close> counts newlines, words and characters.
  \<^item> \<open>Umalloc\<close> (\<open>user/umalloc.c\<close>): the ring of free blocks refines a set of free addresses; in any history of \<open>malloc\<close> and \<open>free\<close> the blocks do not overlap.
  \<^item> \<open>Sh\<close>, \<open>Shprint\<close> (\<open>user/sh.c\<close>): the parser works on the line in place; its functions get a bound of four times the length of the line on the depth
    of their recursion, and it is proved that every line is parsed within it. The words of a command are the words of the line, also after
    \<open>nulterminate\<close>; every command is read back from its text; \<open>runcmd\<close> does not return.

  \<^bold>\<open>Exercises of the course.\<close> Beside the kernel the repository has small programs of their own; these are modelled too.
  \<^item> \<open>Ust\<close> (\<open>ust/basic_threads.c\<close>): cooperative threads in user space; the scheduler returns with every stack freed, and runs the threads round robin.
  \<^item> \<open>Pthread\<close>: POSIX threads with a mutex and condition variables as a step relation on lists of instructions, with spurious wakeups. \<open>Jobs\<close> and \<open>Hen\<close>
    (\<open>condvar_challenge/threeJobs.c\<close>, \<open>condvar_challenge/littleredhen.c\<close>): what the monitors keep apart, and that every run of them ends with all threads finished.
  \<^item> \<open>Sllist\<close> (\<open>debug/sllist.c\<close>): rings of nodes implement lists.
  \<^item> \<open>Threadsort\<close> (\<open>threads_basics/thread_sorting/threadSort.c\<close>): the three sorting routines on parts of an array, for threads that run one after the other.

  \<^bold>\<open>Interfaces.\<close> Locales state what one component may expect of another, and each is interpreted on the code's own functions:
  \<open>page_allocator\<close> of \<open>Kalloc\<close> (\<open>kalloc\<close>, \<open>kfree\<close>), \<open>block_cache\<close> of \<open>Blockcache\<close> (\<open>bread\<close>, \<open>bwrite\<close>, \<open>brelse\<close>, \<open>bpin\<close>, \<open>bunpin\<close>, used by the
  log and the bitmap), \<open>ring\<close> of \<open>Ringbuf\<close> (the buffers of pipe, console and UART), \<open>bio_client\<close> of \<open>Transactions\<close> (a
  property of the state that no call of \<open>bio.c\<close> touches, interpreted for the schedule and the state of the log), and \<open>monitor\<close> and \<open>finite_monitor\<close> of
  \<open>Pthread\<close> (what a program of threads has to show so that no run of it gets stuck and every run ends, interpreted for \<open>Jobs\<close> and \<open>Hen\<close>).

  \<^bold>\<open>Not modelled.\<close> The assembly files: the context switch is the schedule, the trampoline is where \<open>usertrapret\<close> ends. Caches, memory ordering and the
  translation look-aside buffer of the hardware: the fences of the code have no effect here. \<open>ramdisk.c\<close>, which the build does not link. The test programs of user space, and the other exercises and exams of
  the course outside \<open>src/xv6-riscv\<close>, which are separate small programs. In \<open>Threadsort\<close>, the race of the threads on \<open>count\<close>.
\<close>

end
